(* ===== verification/Prelude.thy ===== *)
theory Prelude
  imports Main "HOL-Library.Word"
begin

text \<open>
  Shared vocabulary of the development: machine integers, the ways a C routine can end
  (a fault value or a result), C enumerations as the list of their enumerators, and the
  lemmas on words and lists the components share.
\<close>

unbundle bit_operations_syntax

section \<open>Machine integers\<close>

type_synonym u8 = "8 word"
type_synonym u32 = "32 word"
type_synonym u64 = "64 word"

section \<open>Faults and results\<close>

text \<open>
  A routine of the sources that returns \<open>bool\<close> and writes its result through a pointer
  is a function into \<open>fault + 'a\<close>. \<open>Return_False\<close> is the \<open>return false\<close> of
  the code. \<open>Assert_Failed\<close> is a failing \<open>assert\<close>, and \<open>Bad_Enumerator\<close> marks the
  place where the code stores an integer in an \<open>enum\<close> variable although it is no
  enumerator of the type. \<open>Out_Of_Bounds\<close> is an access past the end of an array.
\<close>

datatype fault = Return_False | Assert_Failed | Bad_Enumerator | Out_Of_Bounds

type_synonym 'a res = "fault + 'a"

definition bindR :: "'a res \<Rightarrow> ('a \<Rightarrow> 'b res) \<Rightarrow> 'b res" where
  "bindR m f = (case m of Inl e \<Rightarrow> Inl e | Inr x \<Rightarrow> f x)"

named_theorems res_simps \<open>simplification of fault-or-result computations\<close>

lemma bindR_simps [simp, res_simps]:
  "bindR (Inl e) f = Inl e"
  "bindR (Inr x) f = f x"
  by (simp_all add: bindR_def)

lemma bindR_Inr_iff [res_simps]: "bindR m f = Inr y \<longleftrightarrow> (\<exists>x. m = Inr x \<and> f x = Inr y)"
  by (cases m) simp_all

lemma bindR_Inl_iff: "bindR m f = Inl e \<longleftrightarrow> m = Inl e \<or> (\<exists>x. m = Inr x \<and> f x = Inl e)"
  by (cases m) simp_all

lemma bindR_assoc [simp]: "bindR (bindR m f) g = bindR m (\<lambda>x. bindR (f x) g)"
  by (cases m) simp_all

lemma bindR_if: "bindR (if c then a else b) f = (if c then bindR a f else bindR b f)"
  by simp

definition assertR :: "bool \<Rightarrow> unit res" where
  "assertR b = (if b then Inr () else Inl Assert_Failed)"

lemma assertR_simps [simp, res_simps]:
  "assertR True = Inr ()" "assertR False = Inl Assert_Failed"
  by (simp_all add: assertR_def)

definition guardR :: "bool \<Rightarrow> unit res" where
  "guardR b = (if b then Inr () else Inl Return_False)"

lemma guardR_simps [simp, res_simps]:
  "guardR True = Inr ()" "guardR False = Inl Return_False"
  by (simp_all add: guardR_def)

lemma guardR_Inr_iff [simp]: "guardR b = Inr u \<longleftrightarrow> b"
  by (simp add: guardR_def)

lemma assertR_Inr_iff [simp]: "assertR b = Inr u \<longleftrightarrow> b"
  by (simp add: assertR_def)

section \<open>C enumerations\<close>

text \<open>
  A C \<open>enum\<close> without explicit values numbers its enumerators 0, 1, 2, \<dots> in the order of
  the declaration. The list of enumerators in that order gives both conversions: the
  integer of an enumerator and the enumerator of an integer.
\<close>

fun enum_value :: "'e list \<Rightarrow> 'e \<Rightarrow> u32" where
  "enum_value [] x = 0"
| "enum_value (y # ys) x = (if x = y then 0 else 1 + enum_value ys x)"

definition enum_decode :: "'e list \<Rightarrow> u32 \<Rightarrow> 'e res" where
  "enum_decode L v = (if unat v < length L then Inr (L ! unat v) else Inl Bad_Enumerator)"

lemma enum_value_nth:
  assumes "distinct L" and "length L < 2 ^ 32" and "i < length L"
  shows "enum_value L (L ! i) = of_nat i"
  using assms
proof (induction L arbitrary: i)
  case Nil
  then show ?case by simp
next
  case (Cons y ys)
  then show ?case
    by (cases i) (auto simp: nth_mem)
qed

locale c_enum =
  fixes L :: "'e list"
  assumes enum_distinct: "distinct L"
    and enum_complete: "x \<in> set L"
    and enum_length: "length L < 2 ^ 32"
begin

lemma unat_enum_value_nth: "i < length L \<Longrightarrow> unat (enum_value L (L ! i)) = i"
  using enum_value_nth [OF enum_distinct enum_length, of i] enum_length
  by (simp add: unat_of_nat take_bit_nat_eq_self)

lemma decode_value: "enum_decode L (enum_value L x) = Inr x"
proof -
  obtain i where "i < length L" "L ! i = x"
    using enum_complete [of x] by (auto simp: in_set_conv_nth)
  then show ?thesis
    using unat_enum_value_nth [of i] by (simp add: enum_decode_def)
qed

lemma value_decode: "enum_decode L v = Inr x \<Longrightarrow> enum_value L x = v"
  using enum_value_nth [OF enum_distinct enum_length, of "unat v"]
  by (auto simp: enum_decode_def split: if_splits)

lemma value_inj: "enum_value L x = enum_value L y \<longleftrightarrow> x = y"
  by (metis decode_value sum.inject(2))

lemma value_bound: "unat (enum_value L x) < length L"
  using decode_value [of x] by (auto simp: enum_decode_def split: if_splits)

lemma decode_fault: "enum_decode L v = Inl e \<longleftrightarrow> e = Bad_Enumerator \<and> length L \<le> unat v"
  by (auto simp: enum_decode_def)

end

end
