(* ===== verification/Qpu_Instr.thy ===== *)
theory Qpu_Instr
  imports Prelude
begin

text \<open>
  The unpacked form of the instructions of the Broadcom V3D shader core (QPU):
  \<^verbatim>\<open>src/src/broadcom/qpu/qpu_instr.h\<close> and \<^verbatim>\<open>qpu_instr.c\<close>. Every C enumeration is a
  datatype with the enumerators of the header; the list beside it gives their integer
  values. The two halves of \<^verbatim>\<open>struct v3d_qpu_alu_instr\<close> have the same fields and are
  two instances of one record, over the opcode type. The tagged union of
  \<^verbatim>\<open>struct v3d_qpu_instr\<close> is a record with one component per member: the code reads the
  member that the tag selects, and no routine here writes one member and reads the other.
\<close>

section \<open>Enumerations\<close>

datatype v3d_qpu_cond =
    V3D_QPU_COND_NONE | V3D_QPU_COND_IFA | V3D_QPU_COND_IFB | V3D_QPU_COND_IFNA
    | V3D_QPU_COND_IFNB

datatype v3d_qpu_pf =
    V3D_QPU_PF_NONE | V3D_QPU_PF_PUSHZ | V3D_QPU_PF_PUSHN | V3D_QPU_PF_PUSHC

datatype v3d_qpu_uf =
    V3D_QPU_UF_NONE | V3D_QPU_UF_ANDZ | V3D_QPU_UF_ANDNZ | V3D_QPU_UF_NORNZ
    | V3D_QPU_UF_NORZ | V3D_QPU_UF_ANDN | V3D_QPU_UF_ANDNN | V3D_QPU_UF_NORNN
    | V3D_QPU_UF_NORN | V3D_QPU_UF_ANDC | V3D_QPU_UF_ANDNC | V3D_QPU_UF_NORNC
    | V3D_QPU_UF_NORC

datatype (plugins only: code) v3d_qpu_add_op =
    V3D_QPU_A_FADD | V3D_QPU_A_FADDNF | V3D_QPU_A_VFPACK | V3D_QPU_A_ADD | V3D_QPU_A_SUB
    | V3D_QPU_A_FSUB | V3D_QPU_A_MIN | V3D_QPU_A_MAX | V3D_QPU_A_UMIN | V3D_QPU_A_UMAX
    | V3D_QPU_A_SHL | V3D_QPU_A_SHR | V3D_QPU_A_ASR | V3D_QPU_A_ROR | V3D_QPU_A_FMIN
    | V3D_QPU_A_FMAX | V3D_QPU_A_VFMIN | V3D_QPU_A_AND | V3D_QPU_A_OR | V3D_QPU_A_XOR
    | V3D_QPU_A_VADD | V3D_QPU_A_VSUB | V3D_QPU_A_NOT | V3D_QPU_A_NEG | V3D_QPU_A_FLAPUSH
    | V3D_QPU_A_FLBPUSH | V3D_QPU_A_FLBPOP | V3D_QPU_A_SETMSF | V3D_QPU_A_SETREVF
    | V3D_QPU_A_NOP | V3D_QPU_A_TIDX | V3D_QPU_A_EIDX | V3D_QPU_A_LR | V3D_QPU_A_VFLA
    | V3D_QPU_A_VFLNA | V3D_QPU_A_VFLB | V3D_QPU_A_VFLNB | V3D_QPU_A_FXCD | V3D_QPU_A_XCD
    | V3D_QPU_A_FYCD | V3D_QPU_A_YCD | V3D_QPU_A_MSF | V3D_QPU_A_REVF | V3D_QPU_A_VDWWT
    | V3D_QPU_A_IID | V3D_QPU_A_SAMPID | V3D_QPU_A_PATCHID | V3D_QPU_A_TMUWT
    | V3D_QPU_A_VPMSETUP | V3D_QPU_A_VPMWT | V3D_QPU_A_LDVPMV | V3D_QPU_A_LDVPMD
    | V3D_QPU_A_LDVPMP | V3D_QPU_A_LDVPMG | V3D_QPU_A_FCMP | V3D_QPU_A_VFMAX
    | V3D_QPU_A_FROUND | V3D_QPU_A_FTOIN | V3D_QPU_A_FTRUNC | V3D_QPU_A_FTOIZ
    | V3D_QPU_A_FFLOOR | V3D_QPU_A_FTOUZ | V3D_QPU_A_FCEIL | V3D_QPU_A_FTOC | V3D_QPU_A_FDX
    | V3D_QPU_A_FDY | V3D_QPU_A_STVPMV | V3D_QPU_A_STVPMD | V3D_QPU_A_STVPMP
    | V3D_QPU_A_ITOF | V3D_QPU_A_CLZ | V3D_QPU_A_UTOF

datatype v3d_qpu_mul_op =
    V3D_QPU_M_ADD | V3D_QPU_M_SUB | V3D_QPU_M_UMUL24 | V3D_QPU_M_VFMUL | V3D_QPU_M_SMUL24
    | V3D_QPU_M_MULTOP | V3D_QPU_M_FMOV | V3D_QPU_M_MOV | V3D_QPU_M_NOP | V3D_QPU_M_FMUL

datatype v3d_qpu_output_pack =
    V3D_QPU_PACK_NONE | V3D_QPU_PACK_L | V3D_QPU_PACK_H

datatype v3d_qpu_input_unpack =
    V3D_QPU_UNPACK_NONE | V3D_QPU_UNPACK_ABS | V3D_QPU_UNPACK_L | V3D_QPU_UNPACK_H
    | V3D_QPU_UNPACK_REPLICATE_32F_16 | V3D_QPU_UNPACK_REPLICATE_L_16
    | V3D_QPU_UNPACK_REPLICATE_H_16 | V3D_QPU_UNPACK_SWAP_16

datatype v3d_qpu_mux =
    V3D_QPU_MUX_R0 | V3D_QPU_MUX_R1 | V3D_QPU_MUX_R2 | V3D_QPU_MUX_R3 | V3D_QPU_MUX_R4
    | V3D_QPU_MUX_R5 | V3D_QPU_MUX_A | V3D_QPU_MUX_B

datatype v3d_qpu_branch_cond =
    V3D_QPU_BRANCH_COND_ALWAYS | V3D_QPU_BRANCH_COND_A0 | V3D_QPU_BRANCH_COND_NA0
    | V3D_QPU_BRANCH_COND_ALLA | V3D_QPU_BRANCH_COND_ANYNA | V3D_QPU_BRANCH_COND_ANYA
    | V3D_QPU_BRANCH_COND_ALLNA

datatype v3d_qpu_msfign =
    V3D_QPU_MSFIGN_NONE | V3D_QPU_MSFIGN_P | V3D_QPU_MSFIGN_Q

datatype v3d_qpu_branch_dest =
    V3D_QPU_BRANCH_DEST_ABS | V3D_QPU_BRANCH_DEST_REL | V3D_QPU_BRANCH_DEST_LINK_REG
    | V3D_QPU_BRANCH_DEST_REGFILE

datatype v3d_qpu_instr_type =
    V3D_QPU_INSTR_TYPE_ALU | V3D_QPU_INSTR_TYPE_BRANCH

text \<open>
  The write addresses have explicit values with a hole at 18. The instruction keeps them in
  a \<open>uint8_t\<close>, so the enumerators are byte constants.
\<close>

type_synonym v3d_qpu_waddr = u8

abbreviation V3D_QPU_WADDR_R0 :: v3d_qpu_waddr where "V3D_QPU_WADDR_R0 \<equiv> 0"
abbreviation V3D_QPU_WADDR_R1 :: v3d_qpu_waddr where "V3D_QPU_WADDR_R1 \<equiv> 1"
abbreviation V3D_QPU_WADDR_R2 :: v3d_qpu_waddr where "V3D_QPU_WADDR_R2 \<equiv> 2"
abbreviation V3D_QPU_WADDR_R3 :: v3d_qpu_waddr where "V3D_QPU_WADDR_R3 \<equiv> 3"
abbreviation V3D_QPU_WADDR_R4 :: v3d_qpu_waddr where "V3D_QPU_WADDR_R4 \<equiv> 4"
abbreviation V3D_QPU_WADDR_R5 :: v3d_qpu_waddr where "V3D_QPU_WADDR_R5 \<equiv> 5"
abbreviation V3D_QPU_WADDR_NOP :: v3d_qpu_waddr where "V3D_QPU_WADDR_NOP \<equiv> 6"
abbreviation V3D_QPU_WADDR_TLB :: v3d_qpu_waddr where "V3D_QPU_WADDR_TLB \<equiv> 7"
abbreviation V3D_QPU_WADDR_TLBU :: v3d_qpu_waddr where "V3D_QPU_WADDR_TLBU \<equiv> 8"
abbreviation V3D_QPU_WADDR_TMU :: v3d_qpu_waddr where "V3D_QPU_WADDR_TMU \<equiv> 9"
abbreviation V3D_QPU_WADDR_TMUL :: v3d_qpu_waddr where "V3D_QPU_WADDR_TMUL \<equiv> 10"
abbreviation V3D_QPU_WADDR_TMUD :: v3d_qpu_waddr where "V3D_QPU_WADDR_TMUD \<equiv> 11"
abbreviation V3D_QPU_WADDR_TMUA :: v3d_qpu_waddr where "V3D_QPU_WADDR_TMUA \<equiv> 12"
abbreviation V3D_QPU_WADDR_TMUAU :: v3d_qpu_waddr where "V3D_QPU_WADDR_TMUAU \<equiv> 13"
abbreviation V3D_QPU_WADDR_VPM :: v3d_qpu_waddr where "V3D_QPU_WADDR_VPM \<equiv> 14"
abbreviation V3D_QPU_WADDR_VPMU :: v3d_qpu_waddr where "V3D_QPU_WADDR_VPMU \<equiv> 15"
abbreviation V3D_QPU_WADDR_SYNC :: v3d_qpu_waddr where "V3D_QPU_WADDR_SYNC \<equiv> 16"
abbreviation V3D_QPU_WADDR_SYNCU :: v3d_qpu_waddr where "V3D_QPU_WADDR_SYNCU \<equiv> 17"
abbreviation V3D_QPU_WADDR_RECIP :: v3d_qpu_waddr where "V3D_QPU_WADDR_RECIP \<equiv> 19"
abbreviation V3D_QPU_WADDR_RSQRT :: v3d_qpu_waddr where "V3D_QPU_WADDR_RSQRT \<equiv> 20"
abbreviation V3D_QPU_WADDR_EXP :: v3d_qpu_waddr where "V3D_QPU_WADDR_EXP \<equiv> 21"
abbreviation V3D_QPU_WADDR_LOG :: v3d_qpu_waddr where "V3D_QPU_WADDR_LOG \<equiv> 22"
abbreviation V3D_QPU_WADDR_SIN :: v3d_qpu_waddr where "V3D_QPU_WADDR_SIN \<equiv> 23"
abbreviation V3D_QPU_WADDR_RSQRT2 :: v3d_qpu_waddr where "V3D_QPU_WADDR_RSQRT2 \<equiv> 24"

section \<open>The integers of the enumerators\<close>

definition v3d_qpu_cond_list :: "v3d_qpu_cond list" where
  "v3d_qpu_cond_list =
    [V3D_QPU_COND_NONE, V3D_QPU_COND_IFA, V3D_QPU_COND_IFB, V3D_QPU_COND_IFNA
    , V3D_QPU_COND_IFNB]"

definition v3d_qpu_pf_list :: "v3d_qpu_pf list" where
  "v3d_qpu_pf_list =
    [V3D_QPU_PF_NONE, V3D_QPU_PF_PUSHZ, V3D_QPU_PF_PUSHN, V3D_QPU_PF_PUSHC]"

definition v3d_qpu_uf_list :: "v3d_qpu_uf list" where
  "v3d_qpu_uf_list =
    [V3D_QPU_UF_NONE, V3D_QPU_UF_ANDZ, V3D_QPU_UF_ANDNZ, V3D_QPU_UF_NORNZ, V3D_QPU_UF_NORZ
    , V3D_QPU_UF_ANDN, V3D_QPU_UF_ANDNN, V3D_QPU_UF_NORNN, V3D_QPU_UF_NORN, V3D_QPU_UF_ANDC
    , V3D_QPU_UF_ANDNC, V3D_QPU_UF_NORNC, V3D_QPU_UF_NORC]"

definition v3d_qpu_output_pack_list :: "v3d_qpu_output_pack list" where
  "v3d_qpu_output_pack_list =
    [V3D_QPU_PACK_NONE, V3D_QPU_PACK_L, V3D_QPU_PACK_H]"

definition v3d_qpu_input_unpack_list :: "v3d_qpu_input_unpack list" where
  "v3d_qpu_input_unpack_list =
    [V3D_QPU_UNPACK_NONE, V3D_QPU_UNPACK_ABS, V3D_QPU_UNPACK_L, V3D_QPU_UNPACK_H
    , V3D_QPU_UNPACK_REPLICATE_32F_16, V3D_QPU_UNPACK_REPLICATE_L_16
    , V3D_QPU_UNPACK_REPLICATE_H_16, V3D_QPU_UNPACK_SWAP_16]"

definition v3d_qpu_mux_list :: "v3d_qpu_mux list" where
  "v3d_qpu_mux_list =
    [V3D_QPU_MUX_R0, V3D_QPU_MUX_R1, V3D_QPU_MUX_R2, V3D_QPU_MUX_R3, V3D_QPU_MUX_R4
    , V3D_QPU_MUX_R5, V3D_QPU_MUX_A, V3D_QPU_MUX_B]"

definition v3d_qpu_branch_cond_list :: "v3d_qpu_branch_cond list" where
  "v3d_qpu_branch_cond_list =
    [V3D_QPU_BRANCH_COND_ALWAYS, V3D_QPU_BRANCH_COND_A0, V3D_QPU_BRANCH_COND_NA0
    , V3D_QPU_BRANCH_COND_ALLA, V3D_QPU_BRANCH_COND_ANYNA, V3D_QPU_BRANCH_COND_ANYA
    , V3D_QPU_BRANCH_COND_ALLNA]"

definition v3d_qpu_msfign_list :: "v3d_qpu_msfign list" where
  "v3d_qpu_msfign_list =
    [V3D_QPU_MSFIGN_NONE, V3D_QPU_MSFIGN_P, V3D_QPU_MSFIGN_Q]"

definition v3d_qpu_branch_dest_list :: "v3d_qpu_branch_dest list" where
  "v3d_qpu_branch_dest_list =
    [V3D_QPU_BRANCH_DEST_ABS, V3D_QPU_BRANCH_DEST_REL, V3D_QPU_BRANCH_DEST_LINK_REG
    , V3D_QPU_BRANCH_DEST_REGFILE]"

interpretation cond: c_enum v3d_qpu_cond_list
  by unfold_locales (auto simp: v3d_qpu_cond_list_def intro: v3d_qpu_cond.exhaust)

interpretation pf: c_enum v3d_qpu_pf_list
  by unfold_locales (auto simp: v3d_qpu_pf_list_def intro: v3d_qpu_pf.exhaust)

interpretation uf: c_enum v3d_qpu_uf_list
  by unfold_locales (auto simp: v3d_qpu_uf_list_def intro: v3d_qpu_uf.exhaust)

interpretation output_pack: c_enum v3d_qpu_output_pack_list
  by unfold_locales (auto simp: v3d_qpu_output_pack_list_def intro: v3d_qpu_output_pack.exhaust)

interpretation input_unpack: c_enum v3d_qpu_input_unpack_list
  by unfold_locales (auto simp: v3d_qpu_input_unpack_list_def intro: v3d_qpu_input_unpack.exhaust)

interpretation mux: c_enum v3d_qpu_mux_list
  by unfold_locales (auto simp: v3d_qpu_mux_list_def intro: v3d_qpu_mux.exhaust)

interpretation branch_cond: c_enum v3d_qpu_branch_cond_list
  by unfold_locales (auto simp: v3d_qpu_branch_cond_list_def intro: v3d_qpu_branch_cond.exhaust)

interpretation msfign: c_enum v3d_qpu_msfign_list
  by unfold_locales (auto simp: v3d_qpu_msfign_list_def intro: v3d_qpu_msfign.exhaust)

interpretation branch_dest: c_enum v3d_qpu_branch_dest_list
  by unfold_locales (auto simp: v3d_qpu_branch_dest_list_def intro: v3d_qpu_branch_dest.exhaust)

text \<open>The integer of each enumerator, as the declarations of the header fix it.\<close>

lemma cond_value [simp]:
  "enum_value v3d_qpu_cond_list V3D_QPU_COND_NONE = 0"
  "enum_value v3d_qpu_cond_list V3D_QPU_COND_IFA = 1"
  "enum_value v3d_qpu_cond_list V3D_QPU_COND_IFB = 2"
  "enum_value v3d_qpu_cond_list V3D_QPU_COND_IFNA = 3"
  "enum_value v3d_qpu_cond_list V3D_QPU_COND_IFNB = 4"
  by (simp_all add: v3d_qpu_cond_list_def)

lemma pf_value [simp]:
  "enum_value v3d_qpu_pf_list V3D_QPU_PF_NONE = 0"
  "enum_value v3d_qpu_pf_list V3D_QPU_PF_PUSHZ = 1"
  "enum_value v3d_qpu_pf_list V3D_QPU_PF_PUSHN = 2"
  "enum_value v3d_qpu_pf_list V3D_QPU_PF_PUSHC = 3"
  by (simp_all add: v3d_qpu_pf_list_def)

lemma uf_value [simp]:
  "enum_value v3d_qpu_uf_list V3D_QPU_UF_NONE = 0"
  "enum_value v3d_qpu_uf_list V3D_QPU_UF_ANDZ = 1"
  "enum_value v3d_qpu_uf_list V3D_QPU_UF_ANDNZ = 2"
  "enum_value v3d_qpu_uf_list V3D_QPU_UF_NORNZ = 3"
  "enum_value v3d_qpu_uf_list V3D_QPU_UF_NORZ = 4"
  "enum_value v3d_qpu_uf_list V3D_QPU_UF_ANDN = 5"
  "enum_value v3d_qpu_uf_list V3D_QPU_UF_ANDNN = 6"
  "enum_value v3d_qpu_uf_list V3D_QPU_UF_NORNN = 7"
  "enum_value v3d_qpu_uf_list V3D_QPU_UF_NORN = 8"
  "enum_value v3d_qpu_uf_list V3D_QPU_UF_ANDC = 9"
  "enum_value v3d_qpu_uf_list V3D_QPU_UF_ANDNC = 10"
  "enum_value v3d_qpu_uf_list V3D_QPU_UF_NORNC = 11"
  "enum_value v3d_qpu_uf_list V3D_QPU_UF_NORC = 12"
  by (simp_all add: v3d_qpu_uf_list_def)

lemma output_pack_value [simp]:
  "enum_value v3d_qpu_output_pack_list V3D_QPU_PACK_NONE = 0"
  "enum_value v3d_qpu_output_pack_list V3D_QPU_PACK_L = 1"
  "enum_value v3d_qpu_output_pack_list V3D_QPU_PACK_H = 2"
  by (simp_all add: v3d_qpu_output_pack_list_def)

lemma input_unpack_value [simp]:
  "enum_value v3d_qpu_input_unpack_list V3D_QPU_UNPACK_NONE = 0"
  "enum_value v3d_qpu_input_unpack_list V3D_QPU_UNPACK_ABS = 1"
  "enum_value v3d_qpu_input_unpack_list V3D_QPU_UNPACK_L = 2"
  "enum_value v3d_qpu_input_unpack_list V3D_QPU_UNPACK_H = 3"
  "enum_value v3d_qpu_input_unpack_list V3D_QPU_UNPACK_REPLICATE_32F_16 = 4"
  "enum_value v3d_qpu_input_unpack_list V3D_QPU_UNPACK_REPLICATE_L_16 = 5"
  "enum_value v3d_qpu_input_unpack_list V3D_QPU_UNPACK_REPLICATE_H_16 = 6"
  "enum_value v3d_qpu_input_unpack_list V3D_QPU_UNPACK_SWAP_16 = 7"
  by (simp_all add: v3d_qpu_input_unpack_list_def)

lemma mux_value [simp]:
  "enum_value v3d_qpu_mux_list V3D_QPU_MUX_R0 = 0"
  "enum_value v3d_qpu_mux_list V3D_QPU_MUX_R1 = 1"
  "enum_value v3d_qpu_mux_list V3D_QPU_MUX_R2 = 2"
  "enum_value v3d_qpu_mux_list V3D_QPU_MUX_R3 = 3"
  "enum_value v3d_qpu_mux_list V3D_QPU_MUX_R4 = 4"
  "enum_value v3d_qpu_mux_list V3D_QPU_MUX_R5 = 5"
  "enum_value v3d_qpu_mux_list V3D_QPU_MUX_A = 6"
  "enum_value v3d_qpu_mux_list V3D_QPU_MUX_B = 7"
  by (simp_all add: v3d_qpu_mux_list_def)

lemma branch_cond_value [simp]:
  "enum_value v3d_qpu_branch_cond_list V3D_QPU_BRANCH_COND_ALWAYS = 0"
  "enum_value v3d_qpu_branch_cond_list V3D_QPU_BRANCH_COND_A0 = 1"
  "enum_value v3d_qpu_branch_cond_list V3D_QPU_BRANCH_COND_NA0 = 2"
  "enum_value v3d_qpu_branch_cond_list V3D_QPU_BRANCH_COND_ALLA = 3"
  "enum_value v3d_qpu_branch_cond_list V3D_QPU_BRANCH_COND_ANYNA = 4"
  "enum_value v3d_qpu_branch_cond_list V3D_QPU_BRANCH_COND_ANYA = 5"
  "enum_value v3d_qpu_branch_cond_list V3D_QPU_BRANCH_COND_ALLNA = 6"
  by (simp_all add: v3d_qpu_branch_cond_list_def)

lemma msfign_value [simp]:
  "enum_value v3d_qpu_msfign_list V3D_QPU_MSFIGN_NONE = 0"
  "enum_value v3d_qpu_msfign_list V3D_QPU_MSFIGN_P = 1"
  "enum_value v3d_qpu_msfign_list V3D_QPU_MSFIGN_Q = 2"
  by (simp_all add: v3d_qpu_msfign_list_def)

lemma branch_dest_value [simp]:
  "enum_value v3d_qpu_branch_dest_list V3D_QPU_BRANCH_DEST_ABS = 0"
  "enum_value v3d_qpu_branch_dest_list V3D_QPU_BRANCH_DEST_REL = 1"
  "enum_value v3d_qpu_branch_dest_list V3D_QPU_BRANCH_DEST_LINK_REG = 2"
  "enum_value v3d_qpu_branch_dest_list V3D_QPU_BRANCH_DEST_REGFILE = 3"
  by (simp_all add: v3d_qpu_branch_dest_list_def)


section \<open>Instruction records\<close>

record v3d_qpu_sig =
  thrsw :: bool
  ldunif :: bool
  ldtmu :: bool
  ldvary :: bool
  ldvpm :: bool
  ldtlb :: bool
  ldtlbu :: bool
  small_imm :: bool
  ucb :: bool
  rotate :: bool
  wrtmuc :: bool

record v3d_qpu_flags =
  ac :: v3d_qpu_cond
  mc :: v3d_qpu_cond
  apf :: v3d_qpu_pf
  mpf :: v3d_qpu_pf
  auf :: v3d_qpu_uf
  muf :: v3d_qpu_uf

record 'o v3d_qpu_alu =
  alu_op :: 'o
  mux_a :: v3d_qpu_mux
  mux_b :: v3d_qpu_mux
  waddr :: u8
  magic_write :: bool
  output_pack :: v3d_qpu_output_pack
  a_unpack :: v3d_qpu_input_unpack
  b_unpack :: v3d_qpu_input_unpack

record v3d_qpu_branch_instr =
  br_cond :: v3d_qpu_branch_cond
  br_msfign :: v3d_qpu_msfign
  br_bdi :: v3d_qpu_branch_dest
  br_bdu :: v3d_qpu_branch_dest
  br_ub :: bool
  br_raddr_a :: u8
  br_offset :: u32

record v3d_qpu_instr =
  instr_type :: v3d_qpu_instr_type
  sig :: v3d_qpu_sig
  raddr_a :: u8
  raddr_b :: u8
  flags :: v3d_qpu_flags
  alu_add :: "v3d_qpu_add_op v3d_qpu_alu"
  alu_mul :: "v3d_qpu_mul_op v3d_qpu_alu"
  branch :: v3d_qpu_branch_instr

section \<open>Names\<close>

text \<open>
  The array of names is indexed by the address; 18 has no initialiser and is a null pointer.
  An address past the last element reads outside the array.
\<close>

definition waddr_magic :: "string option list" where
  "waddr_magic =
    [Some ''r0'', Some ''r1'', Some ''r2'', Some ''r3'', Some ''r4'', Some ''r5''
    , Some ''-'', Some ''tlb'', Some ''tlbu'', Some ''tmu'', Some ''tmul'', Some ''tmud''
    , Some ''tmua'', Some ''tmuau'', Some ''vpm'', Some ''vpmu'', Some ''sync''
    , Some ''syncu'', None, Some ''recip'', Some ''rsqrt'', Some ''exp'', Some ''log''
    , Some ''sin'', Some ''rsqrt2'']"

definition v3d_qpu_magic_waddr_name :: "v3d_qpu_waddr \<Rightarrow> string option res" where
  "v3d_qpu_magic_waddr_name w =
     (if unat w < length waddr_magic then Inr (waddr_magic ! unat w) else Inl Out_Of_Bounds)"

text \<open>Every enumerator has a name, so the range test of the two tables never fails.\<close>

primrec v3d_qpu_add_op_name :: "v3d_qpu_add_op \<Rightarrow> string" where
  "v3d_qpu_add_op_name V3D_QPU_A_FADD = ''fadd''"
| "v3d_qpu_add_op_name V3D_QPU_A_FADDNF = ''faddnf''"
| "v3d_qpu_add_op_name V3D_QPU_A_VFPACK = ''vfpack''"
| "v3d_qpu_add_op_name V3D_QPU_A_ADD = ''add''"
| "v3d_qpu_add_op_name V3D_QPU_A_SUB = ''sub''"
| "v3d_qpu_add_op_name V3D_QPU_A_FSUB = ''fsub''"
| "v3d_qpu_add_op_name V3D_QPU_A_MIN = ''min''"
| "v3d_qpu_add_op_name V3D_QPU_A_MAX = ''max''"
| "v3d_qpu_add_op_name V3D_QPU_A_UMIN = ''umin''"
| "v3d_qpu_add_op_name V3D_QPU_A_UMAX = ''umax''"
| "v3d_qpu_add_op_name V3D_QPU_A_SHL = ''shl''"
| "v3d_qpu_add_op_name V3D_QPU_A_SHR = ''shr''"
| "v3d_qpu_add_op_name V3D_QPU_A_ASR = ''asr''"
| "v3d_qpu_add_op_name V3D_QPU_A_ROR = ''ror''"
| "v3d_qpu_add_op_name V3D_QPU_A_FMIN = ''fmin''"
| "v3d_qpu_add_op_name V3D_QPU_A_FMAX = ''fmax''"
| "v3d_qpu_add_op_name V3D_QPU_A_VFMIN = ''vfmin''"
| "v3d_qpu_add_op_name V3D_QPU_A_AND = ''and''"
| "v3d_qpu_add_op_name V3D_QPU_A_OR = ''or''"
| "v3d_qpu_add_op_name V3D_QPU_A_XOR = ''xor''"
| "v3d_qpu_add_op_name V3D_QPU_A_VADD = ''vadd''"
| "v3d_qpu_add_op_name V3D_QPU_A_VSUB = ''vsub''"
| "v3d_qpu_add_op_name V3D_QPU_A_NOT = ''not''"
| "v3d_qpu_add_op_name V3D_QPU_A_NEG = ''neg''"
| "v3d_qpu_add_op_name V3D_QPU_A_FLAPUSH = ''flapush''"
| "v3d_qpu_add_op_name V3D_QPU_A_FLBPUSH = ''flbpush''"
| "v3d_qpu_add_op_name V3D_QPU_A_FLBPOP = ''flbpop''"
| "v3d_qpu_add_op_name V3D_QPU_A_SETMSF = ''setmsf''"
| "v3d_qpu_add_op_name V3D_QPU_A_SETREVF = ''setrevf''"
| "v3d_qpu_add_op_name V3D_QPU_A_NOP = ''nop''"
| "v3d_qpu_add_op_name V3D_QPU_A_TIDX = ''tidx''"
| "v3d_qpu_add_op_name V3D_QPU_A_EIDX = ''eidx''"
| "v3d_qpu_add_op_name V3D_QPU_A_LR = ''lr''"
| "v3d_qpu_add_op_name V3D_QPU_A_VFLA = ''vfla''"
| "v3d_qpu_add_op_name V3D_QPU_A_VFLNA = ''vflna''"
| "v3d_qpu_add_op_name V3D_QPU_A_VFLB = ''vflb''"
| "v3d_qpu_add_op_name V3D_QPU_A_VFLNB = ''vflnb''"
| "v3d_qpu_add_op_name V3D_QPU_A_FXCD = ''fxcd''"
| "v3d_qpu_add_op_name V3D_QPU_A_XCD = ''xcd''"
| "v3d_qpu_add_op_name V3D_QPU_A_FYCD = ''fycd''"
| "v3d_qpu_add_op_name V3D_QPU_A_YCD = ''ycd''"
| "v3d_qpu_add_op_name V3D_QPU_A_MSF = ''msf''"
| "v3d_qpu_add_op_name V3D_QPU_A_REVF = ''revf''"
| "v3d_qpu_add_op_name V3D_QPU_A_VDWWT = ''vdwwt''"
| "v3d_qpu_add_op_name V3D_QPU_A_IID = ''iid''"
| "v3d_qpu_add_op_name V3D_QPU_A_SAMPID = ''sampid''"
| "v3d_qpu_add_op_name V3D_QPU_A_PATCHID = ''patchid''"
| "v3d_qpu_add_op_name V3D_QPU_A_TMUWT = ''tmuwt''"
| "v3d_qpu_add_op_name V3D_QPU_A_VPMSETUP = ''vpmsetup''"
| "v3d_qpu_add_op_name V3D_QPU_A_VPMWT = ''vpmwt''"
| "v3d_qpu_add_op_name V3D_QPU_A_LDVPMV = ''ldvpmv''"
| "v3d_qpu_add_op_name V3D_QPU_A_LDVPMD = ''ldvpmd''"
| "v3d_qpu_add_op_name V3D_QPU_A_LDVPMP = ''ldvpmp''"
| "v3d_qpu_add_op_name V3D_QPU_A_LDVPMG = ''ldvpmg''"
| "v3d_qpu_add_op_name V3D_QPU_A_FCMP = ''fcmp''"
| "v3d_qpu_add_op_name V3D_QPU_A_VFMAX = ''vfmax''"
| "v3d_qpu_add_op_name V3D_QPU_A_FROUND = ''fround''"
| "v3d_qpu_add_op_name V3D_QPU_A_FTOIN = ''ftoin''"
| "v3d_qpu_add_op_name V3D_QPU_A_FTRUNC = ''ftrunc''"
| "v3d_qpu_add_op_name V3D_QPU_A_FTOIZ = ''ftoiz''"
| "v3d_qpu_add_op_name V3D_QPU_A_FFLOOR = ''ffloor''"
| "v3d_qpu_add_op_name V3D_QPU_A_FTOUZ = ''ftouz''"
| "v3d_qpu_add_op_name V3D_QPU_A_FCEIL = ''fceil''"
| "v3d_qpu_add_op_name V3D_QPU_A_FTOC = ''ftoc''"
| "v3d_qpu_add_op_name V3D_QPU_A_FDX = ''fdx''"
| "v3d_qpu_add_op_name V3D_QPU_A_FDY = ''fdy''"
| "v3d_qpu_add_op_name V3D_QPU_A_STVPMV = ''stvpmv''"
| "v3d_qpu_add_op_name V3D_QPU_A_STVPMD = ''stvpmd''"
| "v3d_qpu_add_op_name V3D_QPU_A_STVPMP = ''stvpmp''"
| "v3d_qpu_add_op_name V3D_QPU_A_ITOF = ''itof''"
| "v3d_qpu_add_op_name V3D_QPU_A_CLZ = ''clz''"
| "v3d_qpu_add_op_name V3D_QPU_A_UTOF = ''utof''"

primrec v3d_qpu_mul_op_name :: "v3d_qpu_mul_op \<Rightarrow> string" where
  "v3d_qpu_mul_op_name V3D_QPU_M_ADD = ''add''"
| "v3d_qpu_mul_op_name V3D_QPU_M_SUB = ''sub''"
| "v3d_qpu_mul_op_name V3D_QPU_M_UMUL24 = ''umul24''"
| "v3d_qpu_mul_op_name V3D_QPU_M_VFMUL = ''vfmul''"
| "v3d_qpu_mul_op_name V3D_QPU_M_SMUL24 = ''smul24''"
| "v3d_qpu_mul_op_name V3D_QPU_M_MULTOP = ''multop''"
| "v3d_qpu_mul_op_name V3D_QPU_M_FMOV = ''fmov''"
| "v3d_qpu_mul_op_name V3D_QPU_M_MOV = ''mov''"
| "v3d_qpu_mul_op_name V3D_QPU_M_NOP = ''nop''"
| "v3d_qpu_mul_op_name V3D_QPU_M_FMUL = ''fmul''"

primrec v3d_qpu_cond_name :: "v3d_qpu_cond \<Rightarrow> string" where
  "v3d_qpu_cond_name V3D_QPU_COND_NONE = ''''"
| "v3d_qpu_cond_name V3D_QPU_COND_IFA = ''.ifa''"
| "v3d_qpu_cond_name V3D_QPU_COND_IFB = ''.ifb''"
| "v3d_qpu_cond_name V3D_QPU_COND_IFNA = ''.ifna''"
| "v3d_qpu_cond_name V3D_QPU_COND_IFNB = ''.ifnb''"

primrec v3d_qpu_branch_cond_name :: "v3d_qpu_branch_cond \<Rightarrow> string" where
  "v3d_qpu_branch_cond_name V3D_QPU_BRANCH_COND_ALWAYS = ''''"
| "v3d_qpu_branch_cond_name V3D_QPU_BRANCH_COND_A0 = ''.a0''"
| "v3d_qpu_branch_cond_name V3D_QPU_BRANCH_COND_NA0 = ''.na0''"
| "v3d_qpu_branch_cond_name V3D_QPU_BRANCH_COND_ALLA = ''.alla''"
| "v3d_qpu_branch_cond_name V3D_QPU_BRANCH_COND_ANYNA = ''.anyna''"
| "v3d_qpu_branch_cond_name V3D_QPU_BRANCH_COND_ANYA = ''.anya''"
| "v3d_qpu_branch_cond_name V3D_QPU_BRANCH_COND_ALLNA = ''.allna''"

primrec v3d_qpu_msfign_name :: "v3d_qpu_msfign \<Rightarrow> string" where
  "v3d_qpu_msfign_name V3D_QPU_MSFIGN_NONE = ''''"
| "v3d_qpu_msfign_name V3D_QPU_MSFIGN_P = ''p''"
| "v3d_qpu_msfign_name V3D_QPU_MSFIGN_Q = ''q''"

primrec v3d_qpu_pf_name :: "v3d_qpu_pf \<Rightarrow> string" where
  "v3d_qpu_pf_name V3D_QPU_PF_NONE = ''''"
| "v3d_qpu_pf_name V3D_QPU_PF_PUSHZ = ''.pushz''"
| "v3d_qpu_pf_name V3D_QPU_PF_PUSHN = ''.pushn''"
| "v3d_qpu_pf_name V3D_QPU_PF_PUSHC = ''.pushc''"

primrec v3d_qpu_uf_name :: "v3d_qpu_uf \<Rightarrow> string" where
  "v3d_qpu_uf_name V3D_QPU_UF_NONE = ''''"
| "v3d_qpu_uf_name V3D_QPU_UF_ANDZ = ''.andz''"
| "v3d_qpu_uf_name V3D_QPU_UF_ANDNZ = ''.andnz''"
| "v3d_qpu_uf_name V3D_QPU_UF_NORZ = ''.norz''"
| "v3d_qpu_uf_name V3D_QPU_UF_NORNZ = ''.nornz''"
| "v3d_qpu_uf_name V3D_QPU_UF_ANDN = ''.andn''"
| "v3d_qpu_uf_name V3D_QPU_UF_ANDNN = ''.andnn''"
| "v3d_qpu_uf_name V3D_QPU_UF_NORN = ''.norn''"
| "v3d_qpu_uf_name V3D_QPU_UF_NORNN = ''.nornn''"
| "v3d_qpu_uf_name V3D_QPU_UF_ANDC = ''.andc''"
| "v3d_qpu_uf_name V3D_QPU_UF_ANDNC = ''.andnc''"
| "v3d_qpu_uf_name V3D_QPU_UF_NORC = ''.norc''"
| "v3d_qpu_uf_name V3D_QPU_UF_NORNC = ''.nornc''"

primrec v3d_qpu_pack_name :: "v3d_qpu_output_pack \<Rightarrow> string" where
  "v3d_qpu_pack_name V3D_QPU_PACK_NONE = ''''"
| "v3d_qpu_pack_name V3D_QPU_PACK_L = ''.l''"
| "v3d_qpu_pack_name V3D_QPU_PACK_H = ''.h''"

primrec v3d_qpu_unpack_name :: "v3d_qpu_input_unpack \<Rightarrow> string" where
  "v3d_qpu_unpack_name V3D_QPU_UNPACK_NONE = ''''"
| "v3d_qpu_unpack_name V3D_QPU_UNPACK_L = ''.l''"
| "v3d_qpu_unpack_name V3D_QPU_UNPACK_H = ''.h''"
| "v3d_qpu_unpack_name V3D_QPU_UNPACK_ABS = ''.abs''"
| "v3d_qpu_unpack_name V3D_QPU_UNPACK_REPLICATE_32F_16 = ''.ff''"
| "v3d_qpu_unpack_name V3D_QPU_UNPACK_REPLICATE_L_16 = ''.ll''"
| "v3d_qpu_unpack_name V3D_QPU_UNPACK_REPLICATE_H_16 = ''.hh''"
| "v3d_qpu_unpack_name V3D_QPU_UNPACK_SWAP_16 = ''.swp''"

section \<open>Operands of the operations\<close>

abbreviation arg_D :: u8 where "arg_D \<equiv> 1"
abbreviation arg_A :: u8 where "arg_A \<equiv> 2"
abbreviation arg_B :: u8 where "arg_B \<equiv> 4"

primrec add_op_args :: "v3d_qpu_add_op \<Rightarrow> u8" where
  "add_op_args V3D_QPU_A_FADD = arg_D OR arg_A OR arg_B"
| "add_op_args V3D_QPU_A_FADDNF = arg_D OR arg_A OR arg_B"
| "add_op_args V3D_QPU_A_VFPACK = arg_D OR arg_A OR arg_B"
| "add_op_args V3D_QPU_A_ADD = arg_D OR arg_A OR arg_B"
| "add_op_args V3D_QPU_A_SUB = arg_D OR arg_A OR arg_B"
| "add_op_args V3D_QPU_A_FSUB = arg_D OR arg_A OR arg_B"
| "add_op_args V3D_QPU_A_MIN = arg_D OR arg_A OR arg_B"
| "add_op_args V3D_QPU_A_MAX = arg_D OR arg_A OR arg_B"
| "add_op_args V3D_QPU_A_UMIN = arg_D OR arg_A OR arg_B"
| "add_op_args V3D_QPU_A_UMAX = arg_D OR arg_A OR arg_B"
| "add_op_args V3D_QPU_A_SHL = arg_D OR arg_A OR arg_B"
| "add_op_args V3D_QPU_A_SHR = arg_D OR arg_A OR arg_B"
| "add_op_args V3D_QPU_A_ASR = arg_D OR arg_A OR arg_B"
| "add_op_args V3D_QPU_A_ROR = arg_D OR arg_A OR arg_B"
| "add_op_args V3D_QPU_A_FMIN = arg_D OR arg_A OR arg_B"
| "add_op_args V3D_QPU_A_FMAX = arg_D OR arg_A OR arg_B"
| "add_op_args V3D_QPU_A_VFMIN = arg_D OR arg_A OR arg_B"
| "add_op_args V3D_QPU_A_AND = arg_D OR arg_A OR arg_B"
| "add_op_args V3D_QPU_A_OR = arg_D OR arg_A OR arg_B"
| "add_op_args V3D_QPU_A_XOR = arg_D OR arg_A OR arg_B"
| "add_op_args V3D_QPU_A_VADD = arg_D OR arg_A OR arg_B"
| "add_op_args V3D_QPU_A_VSUB = arg_D OR arg_A OR arg_B"
| "add_op_args V3D_QPU_A_NOT = arg_D OR arg_A"
| "add_op_args V3D_QPU_A_NEG = arg_D OR arg_A"
| "add_op_args V3D_QPU_A_FLAPUSH = arg_D OR arg_A"
| "add_op_args V3D_QPU_A_FLBPUSH = arg_D OR arg_A"
| "add_op_args V3D_QPU_A_FLBPOP = arg_D OR arg_A"
| "add_op_args V3D_QPU_A_SETMSF = arg_D OR arg_A"
| "add_op_args V3D_QPU_A_SETREVF = arg_D OR arg_A"
| "add_op_args V3D_QPU_A_NOP = 0"
| "add_op_args V3D_QPU_A_TIDX = arg_D"
| "add_op_args V3D_QPU_A_EIDX = arg_D"
| "add_op_args V3D_QPU_A_LR = arg_D"
| "add_op_args V3D_QPU_A_VFLA = arg_D"
| "add_op_args V3D_QPU_A_VFLNA = arg_D"
| "add_op_args V3D_QPU_A_VFLB = arg_D"
| "add_op_args V3D_QPU_A_VFLNB = arg_D"
| "add_op_args V3D_QPU_A_FXCD = arg_D"
| "add_op_args V3D_QPU_A_XCD = arg_D"
| "add_op_args V3D_QPU_A_FYCD = arg_D"
| "add_op_args V3D_QPU_A_YCD = arg_D"
| "add_op_args V3D_QPU_A_MSF = arg_D"
| "add_op_args V3D_QPU_A_REVF = arg_D"
| "add_op_args V3D_QPU_A_VDWWT = arg_D"
| "add_op_args V3D_QPU_A_IID = arg_D"
| "add_op_args V3D_QPU_A_SAMPID = arg_D"
| "add_op_args V3D_QPU_A_PATCHID = arg_D"
| "add_op_args V3D_QPU_A_TMUWT = arg_D"
| "add_op_args V3D_QPU_A_VPMWT = arg_D"
| "add_op_args V3D_QPU_A_VPMSETUP = arg_D OR arg_A"
| "add_op_args V3D_QPU_A_LDVPMV = arg_D OR arg_A"
| "add_op_args V3D_QPU_A_LDVPMD = arg_D OR arg_A"
| "add_op_args V3D_QPU_A_LDVPMP = arg_D OR arg_A"
| "add_op_args V3D_QPU_A_LDVPMG = arg_D OR arg_A OR arg_B"
| "add_op_args V3D_QPU_A_FCMP = arg_D OR arg_A OR arg_B"
| "add_op_args V3D_QPU_A_VFMAX = arg_D OR arg_A OR arg_B"
| "add_op_args V3D_QPU_A_FROUND = arg_D OR arg_A"
| "add_op_args V3D_QPU_A_FTOIN = arg_D OR arg_A"
| "add_op_args V3D_QPU_A_FTRUNC = arg_D OR arg_A"
| "add_op_args V3D_QPU_A_FTOIZ = arg_D OR arg_A"
| "add_op_args V3D_QPU_A_FFLOOR = arg_D OR arg_A"
| "add_op_args V3D_QPU_A_FTOUZ = arg_D OR arg_A"
| "add_op_args V3D_QPU_A_FCEIL = arg_D OR arg_A"
| "add_op_args V3D_QPU_A_FTOC = arg_D OR arg_A"
| "add_op_args V3D_QPU_A_FDX = arg_D OR arg_A"
| "add_op_args V3D_QPU_A_FDY = arg_D OR arg_A"
| "add_op_args V3D_QPU_A_STVPMV = arg_A OR arg_B"
| "add_op_args V3D_QPU_A_STVPMD = arg_A OR arg_B"
| "add_op_args V3D_QPU_A_STVPMP = arg_A OR arg_B"
| "add_op_args V3D_QPU_A_ITOF = arg_D OR arg_A"
| "add_op_args V3D_QPU_A_CLZ = arg_D OR arg_A"
| "add_op_args V3D_QPU_A_UTOF = arg_D OR arg_A"

primrec mul_op_args :: "v3d_qpu_mul_op \<Rightarrow> u8" where
  "mul_op_args V3D_QPU_M_ADD = arg_D OR arg_A OR arg_B"
| "mul_op_args V3D_QPU_M_SUB = arg_D OR arg_A OR arg_B"
| "mul_op_args V3D_QPU_M_UMUL24 = arg_D OR arg_A OR arg_B"
| "mul_op_args V3D_QPU_M_VFMUL = arg_D OR arg_A OR arg_B"
| "mul_op_args V3D_QPU_M_SMUL24 = arg_D OR arg_A OR arg_B"
| "mul_op_args V3D_QPU_M_MULTOP = arg_D OR arg_A OR arg_B"
| "mul_op_args V3D_QPU_M_FMOV = arg_D OR arg_A"
| "mul_op_args V3D_QPU_M_NOP = 0"
| "mul_op_args V3D_QPU_M_MOV = arg_D OR arg_A"
| "mul_op_args V3D_QPU_M_FMUL = arg_D OR arg_A OR arg_B"

definition v3d_qpu_add_op_has_dst :: "v3d_qpu_add_op \<Rightarrow> bool" where
  "v3d_qpu_add_op_has_dst x \<longleftrightarrow> add_op_args x AND arg_D \<noteq> 0"

definition v3d_qpu_mul_op_has_dst :: "v3d_qpu_mul_op \<Rightarrow> bool" where
  "v3d_qpu_mul_op_has_dst x \<longleftrightarrow> mul_op_args x AND arg_D \<noteq> 0"

definition v3d_qpu_add_op_num_src :: "v3d_qpu_add_op \<Rightarrow> nat" where
  "v3d_qpu_add_op_num_src x =
     (let args = add_op_args x in
      if args AND arg_B \<noteq> 0 then 2 else if args AND arg_A \<noteq> 0 then 1 else 0)"

definition v3d_qpu_mul_op_num_src :: "v3d_qpu_mul_op \<Rightarrow> nat" where
  "v3d_qpu_mul_op_num_src x =
     (let args = mul_op_args x in
      if args AND arg_B \<noteq> 0 then 2 else if args AND arg_A \<noteq> 0 then 1 else 0)"

section \<open>Classes of write addresses\<close>

definition v3d_qpu_magic_waddr_is_sfu :: "v3d_qpu_waddr \<Rightarrow> bool" where
  "v3d_qpu_magic_waddr_is_sfu w \<longleftrightarrow>
     w = V3D_QPU_WADDR_RECIP \<or> w = V3D_QPU_WADDR_RSQRT \<or> w = V3D_QPU_WADDR_EXP \<or>
     w = V3D_QPU_WADDR_LOG \<or> w = V3D_QPU_WADDR_SIN \<or> w = V3D_QPU_WADDR_RSQRT2"

definition v3d_qpu_magic_waddr_is_tmu :: "v3d_qpu_waddr \<Rightarrow> bool" where
  "v3d_qpu_magic_waddr_is_tmu w \<longleftrightarrow>
     w = V3D_QPU_WADDR_TMU \<or> w = V3D_QPU_WADDR_TMUL \<or> w = V3D_QPU_WADDR_TMUD \<or>
     w = V3D_QPU_WADDR_TMUA \<or> w = V3D_QPU_WADDR_TMUAU"

definition v3d_qpu_magic_waddr_is_tlb :: "v3d_qpu_waddr \<Rightarrow> bool" where
  "v3d_qpu_magic_waddr_is_tlb w \<longleftrightarrow> w = V3D_QPU_WADDR_TLB \<or> w = V3D_QPU_WADDR_TLBU"

definition v3d_qpu_magic_waddr_is_vpm :: "v3d_qpu_waddr \<Rightarrow> bool" where
  "v3d_qpu_magic_waddr_is_vpm w \<longleftrightarrow> w = V3D_QPU_WADDR_VPM \<or> w = V3D_QPU_WADDR_VPMU"

definition v3d_qpu_magic_waddr_is_tsy :: "v3d_qpu_waddr \<Rightarrow> bool" where
  "v3d_qpu_magic_waddr_is_tsy w \<longleftrightarrow> w = V3D_QPU_WADDR_SYNC \<or> w = V3D_QPU_WADDR_SYNCU"

section \<open>Register uses of an instruction\<close>

definition v3d_qpu_writes_r3 :: "v3d_qpu_instr \<Rightarrow> bool" where
  "v3d_qpu_writes_r3 inst \<longleftrightarrow> ldvary (sig inst) \<or> ldvpm (sig inst)"

definition v3d_qpu_writes_r4 :: "v3d_qpu_instr \<Rightarrow> bool" where
  "v3d_qpu_writes_r4 inst \<longleftrightarrow>
     (if ldtmu (sig inst) then True
      else if instr_type inst = V3D_QPU_INSTR_TYPE_ALU then
        (if magic_write (alu_add inst) \<and> v3d_qpu_magic_waddr_is_sfu (waddr (alu_add inst))
         then True
         else if magic_write (alu_mul inst) \<and> v3d_qpu_magic_waddr_is_sfu (waddr (alu_mul inst))
         then True
         else False)
      else False)"

definition v3d_qpu_writes_r5 :: "v3d_qpu_instr \<Rightarrow> bool" where
  "v3d_qpu_writes_r5 inst \<longleftrightarrow> ldvary (sig inst) \<or> ldunif (sig inst)"

definition v3d_qpu_uses_mux :: "v3d_qpu_instr \<Rightarrow> v3d_qpu_mux \<Rightarrow> bool" where
  "v3d_qpu_uses_mux inst m \<longleftrightarrow>
     (let add_nsrc = v3d_qpu_add_op_num_src (alu_op (alu_add inst));
          mul_nsrc = v3d_qpu_mul_op_num_src (alu_op (alu_mul inst))
      in (add_nsrc > 0 \<and> mux_a (alu_add inst) = m) \<or>
         (add_nsrc > 1 \<and> mux_b (alu_add inst) = m) \<or>
         (mul_nsrc > 0 \<and> mux_a (alu_mul inst) = m) \<or>
         (mul_nsrc > 1 \<and> mux_b (alu_mul inst) = m))"

end
