(* ===== verification/Qpu_Pack.thy ===== *)
theory Qpu_Pack
  imports Qpu_Instr
begin

text \<open>
  Packing and unpacking of 64-bit QPU instructions, \<^verbatim>\<open>src/src/broadcom/qpu/qpu_pack.c\<close>.
  A routine that returns \<open>bool\<close> and fills a structure through a pointer takes the old
  structure and returns the new one in the fault-or-result type; fields a routine does not
  write keep their old value. What a failing routine has written before it returns
  \<open>false\<close> is not modelled: its callers drop it. The parameter \<open>devinfo\<close> is never read.
\<close>

unbundle bit_operations_syntax

section \<open>Fields of the instruction word\<close>

text \<open>
  A field is named by its highest and lowest bit: the shift of every \<open>_SHIFT\<close> macro is the
  lowest bit of the mask of the \<open>_MASK\<close> macro beside it.
\<close>

type_synonym qpu_field = "nat \<times> nat"

definition QPU_MASK :: "nat \<Rightarrow> nat \<Rightarrow> u64" where
  "QPU_MASK high low = push_bit low (push_bit (high - low + 1) 1 - 1)"

definition field_mask :: "qpu_field \<Rightarrow> u64" where
  "field_mask f = QPU_MASK (fst f) (snd f)"

definition QPU_SET_FIELD :: "'a::len word \<Rightarrow> qpu_field \<Rightarrow> u64 res" where
  "QPU_SET_FIELD v f =
     (let fieldval = push_bit (snd f) (ucast v) in
      bindR (assertR (fieldval AND NOT (field_mask f) = 0)) (\<lambda>_.
      Inr (fieldval AND field_mask f)))"

definition QPU_GET_FIELD :: "u64 \<Rightarrow> qpu_field \<Rightarrow> u32" where
  "QPU_GET_FIELD w f = ucast (drop_bit (snd f) (w AND field_mask f))"

abbreviation VC5_QPU_OP_MUL :: qpu_field where "VC5_QPU_OP_MUL \<equiv> (63, 58)"
abbreviation VC5_QPU_SIG :: qpu_field where "VC5_QPU_SIG \<equiv> (57, 53)"
abbreviation VC5_QPU_COND :: qpu_field where "VC5_QPU_COND \<equiv> (52, 46)"
abbreviation V3D_QPU_WADDR_M :: qpu_field where "V3D_QPU_WADDR_M \<equiv> (43, 38)"
abbreviation VC5_QPU_BRANCH_ADDR_LOW :: qpu_field where "VC5_QPU_BRANCH_ADDR_LOW \<equiv> (55, 35)"
abbreviation V3D_QPU_WADDR_A :: qpu_field where "V3D_QPU_WADDR_A \<equiv> (37, 32)"
abbreviation VC5_QPU_BRANCH_COND :: qpu_field where "VC5_QPU_BRANCH_COND \<equiv> (34, 32)"
abbreviation VC5_QPU_BRANCH_ADDR_HIGH :: qpu_field where "VC5_QPU_BRANCH_ADDR_HIGH \<equiv> (31, 24)"
abbreviation VC5_QPU_OP_ADD :: qpu_field where "VC5_QPU_OP_ADD \<equiv> (31, 24)"
abbreviation VC5_QPU_MUL_B :: qpu_field where "VC5_QPU_MUL_B \<equiv> (23, 21)"
abbreviation VC5_QPU_BRANCH_MSFIGN :: qpu_field where "VC5_QPU_BRANCH_MSFIGN \<equiv> (22, 21)"
abbreviation VC5_QPU_MUL_A :: qpu_field where "VC5_QPU_MUL_A \<equiv> (20, 18)"
abbreviation VC5_QPU_ADD_B :: qpu_field where "VC5_QPU_ADD_B \<equiv> (17, 15)"
abbreviation VC5_QPU_BRANCH_BDU :: qpu_field where "VC5_QPU_BRANCH_BDU \<equiv> (17, 15)"
abbreviation VC5_QPU_ADD_A :: qpu_field where "VC5_QPU_ADD_A \<equiv> (14, 12)"
abbreviation VC5_QPU_BRANCH_BDI :: qpu_field where "VC5_QPU_BRANCH_BDI \<equiv> (13, 12)"
abbreviation VC5_QPU_RADDR_A :: qpu_field where "VC5_QPU_RADDR_A \<equiv> (11, 6)"
abbreviation VC5_QPU_RADDR_B :: qpu_field where "VC5_QPU_RADDR_B \<equiv> (5, 0)"
abbreviation VC5_QPU_MM :: u64 where "VC5_QPU_MM \<equiv> QPU_MASK 45 45"
abbreviation VC5_QPU_MA :: u64 where "VC5_QPU_MA \<equiv> QPU_MASK 44 44"
abbreviation VC5_QPU_BRANCH_UB :: u64 where "VC5_QPU_BRANCH_UB \<equiv> QPU_MASK 14 14"

text \<open>\<open>*packed_instr |= QPU_SET_FIELD(v, f)\<close>\<close>

definition or_field :: "u64 \<Rightarrow> 'a::len word \<Rightarrow> qpu_field \<Rightarrow> u64 res" where
  "or_field w v f = bindR (QPU_SET_FIELD v f) (\<lambda>x. Inr (w OR x))"

section \<open>Signals\<close>

definition no_sig :: v3d_qpu_sig where
  "no_sig = \<lparr>thrsw = False, ldunif = False, ldtmu = False, ldvary = False, ldvpm = False,
     ldtlb = False, ldtlbu = False, small_imm = False, ucb = False, rotate = False,
     wrtmuc = False\<rparr>"

text \<open>Entries 18 to 21 have no initialiser and are all zero.\<close>

definition v33_sig_map :: "v3d_qpu_sig list" where
  "v33_sig_map =
    [no_sig,
     no_sig\<lparr>thrsw := True\<rparr>,
     no_sig\<lparr>ldunif := True\<rparr>,
     no_sig\<lparr>thrsw := True, ldunif := True\<rparr>,
     no_sig\<lparr>ldtmu := True\<rparr>,
     no_sig\<lparr>thrsw := True, ldtmu := True\<rparr>,
     no_sig\<lparr>ldtmu := True, ldunif := True\<rparr>,
     no_sig\<lparr>thrsw := True, ldtmu := True, ldunif := True\<rparr>,
     no_sig\<lparr>ldvary := True\<rparr>,
     no_sig\<lparr>thrsw := True, ldvary := True\<rparr>,
     no_sig\<lparr>ldvary := True, ldunif := True\<rparr>,
     no_sig\<lparr>thrsw := True, ldvary := True, ldunif := True\<rparr>,
     no_sig\<lparr>ldvary := True, ldtmu := True\<rparr>,
     no_sig\<lparr>thrsw := True, ldvary := True, ldtmu := True\<rparr>,
     no_sig\<lparr>small_imm := True, ldvary := True\<rparr>,
     no_sig\<lparr>small_imm := True\<rparr>,
     no_sig\<lparr>ldtlb := True\<rparr>,
     no_sig\<lparr>ldtlbu := True\<rparr>,
     no_sig,
     no_sig,
     no_sig,
     no_sig,
     no_sig\<lparr>ucb := True\<rparr>,
     no_sig\<lparr>rotate := True\<rparr>,
     no_sig\<lparr>ldvpm := True\<rparr>,
     no_sig\<lparr>thrsw := True, ldvpm := True\<rparr>,
     no_sig\<lparr>ldvpm := True, ldunif := True\<rparr>,
     no_sig\<lparr>thrsw := True, ldvpm := True, ldunif := True\<rparr>,
     no_sig\<lparr>ldvpm := True, ldtmu := True\<rparr>,
     no_sig\<lparr>thrsw := True, ldvpm := True, ldtmu := True\<rparr>,
     no_sig\<lparr>small_imm := True, ldvpm := True\<rparr>,
     no_sig\<lparr>small_imm := True\<rparr>]"

text \<open>
  The code compares the first byte of the two structures only, because the parenthesis of
  \<open>memcmp(sig, &v33_sig_map[0], sizeof( *sig) != 0)\<close> makes the length 1. The eleven one-bit
  fields are allocated from the lowest bit up (the layout of the x86 and ARM ABIs the
  drivers run on), so that byte holds the first eight of them.
\<close>

definition sig_byte0 :: "v3d_qpu_sig \<Rightarrow> bool list" where
  "sig_byte0 s = [thrsw s, ldunif s, ldtmu s, ldvary s, ldvpm s, ldtlb s, ldtlbu s, small_imm s]"

definition v3d_qpu_sig_unpack :: "u32 \<Rightarrow> v3d_qpu_sig res" where
  "v3d_qpu_sig_unpack packed_sig =
     bindR (guardR (unat packed_sig < length v33_sig_map)) (\<lambda>_.
     let s = v33_sig_map ! unat packed_sig in
     bindR (guardR (packed_sig = 0 \<or> sig_byte0 s \<noteq> sig_byte0 (v33_sig_map ! 0))) (\<lambda>_.
     Inr s))"

fun sig_index :: "v3d_qpu_sig list \<Rightarrow> v3d_qpu_sig \<Rightarrow> u32 \<Rightarrow> u32 res" where
  "sig_index [] s i = Inl Return_False"
| "sig_index (x # xs) s i = (if x = s then Inr i else sig_index xs s (i + 1))"

definition v3d_qpu_sig_pack :: "v3d_qpu_sig \<Rightarrow> u32 res" where
  "v3d_qpu_sig_pack s = sig_index v33_sig_map s 0"

section \<open>Condition flags\<close>

definition v3d_qpu_flags_unpack :: "u32 \<Rightarrow> v3d_qpu_flags res" where
  "v3d_qpu_flags_unpack packed_cond =
     (let cond_map = [V3D_QPU_COND_IFA, V3D_QPU_COND_IFB, V3D_QPU_COND_IFNA, V3D_QPU_COND_IFNB];
          cond = \<lparr>ac = V3D_QPU_COND_NONE, mc = V3D_QPU_COND_NONE,
                  apf = V3D_QPU_PF_NONE, mpf = V3D_QPU_PF_NONE,
                  auf = V3D_QPU_UF_NONE, muf = V3D_QPU_UF_NONE\<rparr>;
          pf = enum_decode v3d_qpu_pf_list (packed_cond AND 3);
          uf = enum_decode v3d_qpu_uf_list
                 ((packed_cond AND 15) - 4 + enum_value v3d_qpu_uf_list V3D_QPU_UF_ANDZ);
          cnd = enum_decode v3d_qpu_cond_list
                 ((drop_bit 2 packed_cond AND 3) + enum_value v3d_qpu_cond_list V3D_QPU_COND_IFA)
      in
      if packed_cond = 0 then Inr cond
      else if drop_bit 2 packed_cond = 0 then bindR pf (\<lambda>p. Inr (cond\<lparr>apf := p\<rparr>))
      else if drop_bit 4 packed_cond = 0 then bindR uf (\<lambda>u. Inr (cond\<lparr>auf := u\<rparr>))
      else if packed_cond = 16 then Inl Return_False
      else if drop_bit 2 packed_cond = 4 then bindR pf (\<lambda>p. Inr (cond\<lparr>mpf := p\<rparr>))
      else if drop_bit 4 packed_cond = 1 then bindR uf (\<lambda>u. Inr (cond\<lparr>muf := u\<rparr>))
      else if drop_bit 4 packed_cond = 2 then
        bindR cnd (\<lambda>c. bindR pf (\<lambda>p. Inr (cond\<lparr>ac := c, mpf := p\<rparr>)))
      else if drop_bit 4 packed_cond = 3 then
        bindR cnd (\<lambda>c. bindR pf (\<lambda>p. Inr (cond\<lparr>mc := c, apf := p\<rparr>)))
      else if drop_bit 6 packed_cond \<noteq> 0 then
        (let m = cond_map ! unat (drop_bit 4 packed_cond AND 3) in
         if drop_bit 2 packed_cond AND 3 = 0 then
           Inr (cond\<lparr>mc := m, ac := cond_map ! unat (packed_cond AND 3)\<rparr>)
         else bindR uf (\<lambda>u. Inr (cond\<lparr>mc := m, auf := u\<rparr>)))
      else Inr cond)"

abbreviation AC :: u8 where "AC \<equiv> 1"
abbreviation MC :: u8 where "MC \<equiv> 2"
abbreviation APF :: u8 where "APF \<equiv> 4"
abbreviation MPF :: u8 where "MPF \<equiv> 8"
abbreviation AUF :: u8 where "AUF \<equiv> 16"
abbreviation MUF :: u8 where "MUF \<equiv> 32"

definition flags_table :: "(u8 \<times> u8) list" where
  "flags_table =
    [(0, 0),
     (APF, 0),
     (AUF, 0),
     (MPF, push_bit 4 1),
     (MUF, push_bit 4 1),
     (AC, push_bit 5 1),
     (AC OR MPF, push_bit 5 1),
     (MC, push_bit 5 1 OR push_bit 4 1),
     (MC OR APF, push_bit 5 1 OR push_bit 4 1),
     (MC OR AC, push_bit 6 1),
     (MC OR AUF, push_bit 6 1)]"

definition flags_present :: "v3d_qpu_flags \<Rightarrow> u8" where
  "flags_present cond =
     (if ac cond \<noteq> V3D_QPU_COND_NONE then AC else 0) OR
     (if mc cond \<noteq> V3D_QPU_COND_NONE then MC else 0) OR
     (if apf cond \<noteq> V3D_QPU_PF_NONE then APF else 0) OR
     (if mpf cond \<noteq> V3D_QPU_PF_NONE then MPF else 0) OR
     (if auf cond \<noteq> V3D_QPU_UF_NONE then AUF else 0) OR
     (if muf cond \<noteq> V3D_QPU_UF_NONE then MUF else 0)"

definition v3d_qpu_flags_pack :: "v3d_qpu_flags \<Rightarrow> u32 res" where
  "v3d_qpu_flags_pack cond =
     (let present = flags_present cond in
      case map_of flags_table present of
        None \<Rightarrow> Inl Return_False
      | Some bits \<Rightarrow>
         (let p = ucast bits
                    OR enum_value v3d_qpu_pf_list (apf cond)
                    OR enum_value v3d_qpu_pf_list (mpf cond);
              p = (if present AND AUF \<noteq> 0
                   then p OR (enum_value v3d_qpu_uf_list (auf cond)
                              - enum_value v3d_qpu_uf_list V3D_QPU_UF_ANDZ + 4) else p);
              p = (if present AND MUF \<noteq> 0
                   then p OR (enum_value v3d_qpu_uf_list (muf cond)
                              - enum_value v3d_qpu_uf_list V3D_QPU_UF_ANDZ + 4) else p);
              p = (if present AND AC \<noteq> 0
                   then p OR push_bit 2 (enum_value v3d_qpu_cond_list (ac cond)
                              - enum_value v3d_qpu_cond_list V3D_QPU_COND_IFA) else p);
              p = (if present AND MC \<noteq> 0
                   then (if p AND push_bit 6 1 \<noteq> 0
                         then p OR push_bit 4 (enum_value v3d_qpu_cond_list (mc cond)
                                - enum_value v3d_qpu_cond_list V3D_QPU_COND_IFA)
                         else p OR push_bit 2 (enum_value v3d_qpu_cond_list (mc cond)
                                - enum_value v3d_qpu_cond_list V3D_QPU_COND_IFA)) else p)
          in Inr p))"

section \<open>Opcode tables\<close>

text \<open>The member \<open>ver\<close> of the descriptors is 0 throughout and never read.\<close>

definition MUX_MASK :: "nat \<Rightarrow> nat \<Rightarrow> u8" where
  "MUX_MASK lo hi = (push_bit (hi + 1) 1 - 1) - (push_bit lo 1 - 1)"

abbreviation ANYMUX :: u8 where "ANYMUX \<equiv> MUX_MASK 0 7"

record 'o opcode_desc =
  opcode_first :: u8
  opcode_last :: u8
  mux_b_mask :: u8
  mux_a_mask :: u8
  desc_op :: 'o

definition desc :: "u8 \<Rightarrow> u8 \<Rightarrow> u8 \<Rightarrow> u8 \<Rightarrow> 'o \<Rightarrow> 'o opcode_desc" where
  "desc first lst mb ma x =
     \<lparr>opcode_first = first, opcode_last = lst, mux_b_mask = mb, mux_a_mask = ma, desc_op = x\<rparr>"

definition add_ops :: "v3d_qpu_add_op opcode_desc list" where
  "add_ops =
    [desc 0 47 ANYMUX ANYMUX V3D_QPU_A_FADD,
     desc 0 47 ANYMUX ANYMUX V3D_QPU_A_FADDNF,
     desc 53 55 ANYMUX ANYMUX V3D_QPU_A_VFPACK,
     desc 56 56 ANYMUX ANYMUX V3D_QPU_A_ADD,
     desc 57 59 ANYMUX ANYMUX V3D_QPU_A_VFPACK,
     desc 60 60 ANYMUX ANYMUX V3D_QPU_A_SUB,
     desc 61 63 ANYMUX ANYMUX V3D_QPU_A_VFPACK,
     desc 64 111 ANYMUX ANYMUX V3D_QPU_A_FSUB,
     desc 120 120 ANYMUX ANYMUX V3D_QPU_A_MIN,
     desc 121 121 ANYMUX ANYMUX V3D_QPU_A_MAX,
     desc 122 122 ANYMUX ANYMUX V3D_QPU_A_UMIN,
     desc 123 123 ANYMUX ANYMUX V3D_QPU_A_UMAX,
     desc 124 124 ANYMUX ANYMUX V3D_QPU_A_SHL,
     desc 125 125 ANYMUX ANYMUX V3D_QPU_A_SHR,
     desc 126 126 ANYMUX ANYMUX V3D_QPU_A_ASR,
     desc 127 127 ANYMUX ANYMUX V3D_QPU_A_ROR,
     desc 128 175 ANYMUX ANYMUX V3D_QPU_A_FMIN,
     desc 128 175 ANYMUX ANYMUX V3D_QPU_A_FMAX,
     desc 176 180 ANYMUX ANYMUX V3D_QPU_A_VFMIN,
     desc 181 181 ANYMUX ANYMUX V3D_QPU_A_AND,
     desc 182 182 ANYMUX ANYMUX V3D_QPU_A_OR,
     desc 183 183 ANYMUX ANYMUX V3D_QPU_A_XOR,
     desc 184 184 ANYMUX ANYMUX V3D_QPU_A_VADD,
     desc 185 185 ANYMUX ANYMUX V3D_QPU_A_VSUB,
     desc 186 186 (push_bit 0 1) ANYMUX V3D_QPU_A_NOT,
     desc 186 186 (push_bit 1 1) ANYMUX V3D_QPU_A_NEG,
     desc 186 186 (push_bit 2 1) ANYMUX V3D_QPU_A_FLAPUSH,
     desc 186 186 (push_bit 3 1) ANYMUX V3D_QPU_A_FLBPUSH,
     desc 186 186 (push_bit 4 1) ANYMUX V3D_QPU_A_FLBPOP,
     desc 186 186 (push_bit 6 1) ANYMUX V3D_QPU_A_SETMSF,
     desc 186 186 (push_bit 7 1) ANYMUX V3D_QPU_A_SETREVF,
     desc 187 187 (push_bit 0 1) (push_bit 0 1) V3D_QPU_A_NOP,
     desc 187 187 (push_bit 0 1) (push_bit 1 1) V3D_QPU_A_TIDX,
     desc 187 187 (push_bit 0 1) (push_bit 2 1) V3D_QPU_A_EIDX,
     desc 187 187 (push_bit 0 1) (push_bit 3 1) V3D_QPU_A_LR,
     desc 187 187 (push_bit 0 1) (push_bit 4 1) V3D_QPU_A_VFLA,
     desc 187 187 (push_bit 0 1) (push_bit 5 1) V3D_QPU_A_VFLNA,
     desc 187 187 (push_bit 0 1) (push_bit 6 1) V3D_QPU_A_VFLB,
     desc 187 187 (push_bit 0 1) (push_bit 7 1) V3D_QPU_A_VFLNB,
     desc 187 187 (push_bit 1 1) (MUX_MASK 0 2) V3D_QPU_A_FXCD,
     desc 187 187 (push_bit 1 1) (push_bit 3 1) V3D_QPU_A_XCD,
     desc 187 187 (push_bit 1 1) (MUX_MASK 4 6) V3D_QPU_A_FYCD,
     desc 187 187 (push_bit 1 1) (push_bit 7 1) V3D_QPU_A_YCD,
     desc 187 187 (push_bit 2 1) (push_bit 0 1) V3D_QPU_A_MSF,
     desc 187 187 (push_bit 2 1) (push_bit 1 1) V3D_QPU_A_REVF,
     desc 187 187 (push_bit 2 1) (push_bit 2 1) V3D_QPU_A_VDWWT,
     desc 187 187 (push_bit 2 1) (push_bit 5 1) V3D_QPU_A_TMUWT,
     desc 187 187 (push_bit 2 1) (push_bit 6 1) V3D_QPU_A_VPMWT,
     desc 187 187 (push_bit 3 1) ANYMUX V3D_QPU_A_VPMSETUP,
     desc 192 239 ANYMUX ANYMUX V3D_QPU_A_FCMP,
     desc 240 244 ANYMUX ANYMUX V3D_QPU_A_VFMAX,
     desc 245 245 (MUX_MASK 0 2) ANYMUX V3D_QPU_A_FROUND,
     desc 245 245 (push_bit 3 1) ANYMUX V3D_QPU_A_FTOIN,
     desc 245 245 (MUX_MASK 4 6) ANYMUX V3D_QPU_A_FTRUNC,
     desc 245 245 (push_bit 7 1) ANYMUX V3D_QPU_A_FTOIZ,
     desc 246 246 (MUX_MASK 0 2) ANYMUX V3D_QPU_A_FFLOOR,
     desc 246 246 (push_bit 3 1) ANYMUX V3D_QPU_A_FTOUZ,
     desc 246 246 (MUX_MASK 4 6) ANYMUX V3D_QPU_A_FCEIL,
     desc 246 246 (push_bit 7 1) ANYMUX V3D_QPU_A_FTOC,
     desc 247 247 (MUX_MASK 0 2) ANYMUX V3D_QPU_A_FDX,
     desc 247 247 (MUX_MASK 4 6) ANYMUX V3D_QPU_A_FDY,
     desc 248 248 ANYMUX ANYMUX V3D_QPU_A_STVPMV,
     desc 248 248 ANYMUX ANYMUX V3D_QPU_A_STVPMD,
     desc 248 248 ANYMUX ANYMUX V3D_QPU_A_STVPMP,
     desc 252 252 (MUX_MASK 0 2) ANYMUX V3D_QPU_A_ITOF,
     desc 252 252 (push_bit 3 1) ANYMUX V3D_QPU_A_CLZ,
     desc 252 252 (MUX_MASK 4 6) ANYMUX V3D_QPU_A_UTOF]"

definition mul_ops :: "v3d_qpu_mul_op opcode_desc list" where
  "mul_ops =
    [desc 1 1 ANYMUX ANYMUX V3D_QPU_M_ADD,
     desc 2 2 ANYMUX ANYMUX V3D_QPU_M_SUB,
     desc 3 3 ANYMUX ANYMUX V3D_QPU_M_UMUL24,
     desc 4 8 ANYMUX ANYMUX V3D_QPU_M_VFMUL,
     desc 9 9 ANYMUX ANYMUX V3D_QPU_M_SMUL24,
     desc 10 10 ANYMUX ANYMUX V3D_QPU_M_MULTOP,
     desc 14 14 ANYMUX ANYMUX V3D_QPU_M_FMOV,
     desc 15 15 (MUX_MASK 0 3) ANYMUX V3D_QPU_M_FMOV,
     desc 15 15 (push_bit 4 1) (push_bit 0 1) V3D_QPU_M_NOP,
     desc 15 15 (push_bit 7 1) ANYMUX V3D_QPU_M_MOV,
     desc 16 63 ANYMUX ANYMUX V3D_QPU_M_FMUL]"

fun lookup_opcode :: "'o opcode_desc list \<Rightarrow> u32 \<Rightarrow> u32 \<Rightarrow> u32 \<Rightarrow> 'o opcode_desc option" where
  "lookup_opcode [] opcode ma mb = None"
| "lookup_opcode (d # ds) opcode ma mb =
     (if opcode < ucast (opcode_first d) \<or> opcode > ucast (opcode_last d)
      then lookup_opcode ds opcode ma mb
      else if ucast (mux_b_mask d) AND push_bit (unat mb) (1::u32) = 0
      then lookup_opcode ds opcode ma mb
      else if ucast (mux_a_mask d) AND push_bit (unat ma) (1::u32) = 0
      then lookup_opcode ds opcode ma mb
      else Some d)"

section \<open>Operand modifiers\<close>

definition v3d_qpu_float32_unpack_unpack :: "u32 \<Rightarrow> v3d_qpu_input_unpack res" where
  "v3d_qpu_float32_unpack_unpack packed =
     (if packed = 0 then Inr V3D_QPU_UNPACK_ABS
      else if packed = 1 then Inr V3D_QPU_UNPACK_NONE
      else if packed = 2 then Inr V3D_QPU_UNPACK_L
      else if packed = 3 then Inr V3D_QPU_UNPACK_H
      else Inl Return_False)"

definition v3d_qpu_float32_unpack_pack :: "v3d_qpu_input_unpack \<Rightarrow> u32 res" where
  "v3d_qpu_float32_unpack_pack unpacked =
     (case unpacked of
        V3D_QPU_UNPACK_ABS \<Rightarrow> Inr 0
      | V3D_QPU_UNPACK_NONE \<Rightarrow> Inr 1
      | V3D_QPU_UNPACK_L \<Rightarrow> Inr 2
      | V3D_QPU_UNPACK_H \<Rightarrow> Inr 3
      | _ \<Rightarrow> Inl Return_False)"

definition v3d_qpu_float16_unpack_unpack :: "u32 \<Rightarrow> v3d_qpu_input_unpack res" where
  "v3d_qpu_float16_unpack_unpack packed =
     (if packed = 0 then Inr V3D_QPU_UNPACK_NONE
      else if packed = 1 then Inr V3D_QPU_UNPACK_REPLICATE_32F_16
      else if packed = 2 then Inr V3D_QPU_UNPACK_REPLICATE_L_16
      else if packed = 3 then Inr V3D_QPU_UNPACK_REPLICATE_H_16
      else if packed = 4 then Inr V3D_QPU_UNPACK_SWAP_16
      else Inl Return_False)"

definition v3d_qpu_float16_unpack_pack :: "v3d_qpu_input_unpack \<Rightarrow> u32 res" where
  "v3d_qpu_float16_unpack_pack unpacked =
     (case unpacked of
        V3D_QPU_UNPACK_NONE \<Rightarrow> Inr 0
      | V3D_QPU_UNPACK_REPLICATE_32F_16 \<Rightarrow> Inr 1
      | V3D_QPU_UNPACK_REPLICATE_L_16 \<Rightarrow> Inr 2
      | V3D_QPU_UNPACK_REPLICATE_H_16 \<Rightarrow> Inr 3
      | V3D_QPU_UNPACK_SWAP_16 \<Rightarrow> Inr 4
      | _ \<Rightarrow> Inl Return_False)"

definition v3d_qpu_float32_pack_pack :: "v3d_qpu_output_pack \<Rightarrow> u32 res" where
  "v3d_qpu_float32_pack_pack unpacked =
     (case unpacked of
        V3D_QPU_PACK_NONE \<Rightarrow> Inr 0
      | V3D_QPU_PACK_L \<Rightarrow> Inr 1
      | V3D_QPU_PACK_H \<Rightarrow> Inr 2)"

section \<open>Unpacking the two ALU halves\<close>

text \<open>
  \<open>v3d_qpu_add_unpack\<close> in three parts: the operation that the opcode, the multiplexers and
  the write address select; the modifiers of the operands; and the assembly of the fields.
  The operations of the \<open>FFLOOR\<close> and \<open>FTOIN\<close> groups leave \<open>b_unpack\<close> as it was.
\<close>

definition add_map_op :: "u32 \<Rightarrow> u32" where
  "add_map_op opc =
     (let map_op = (if opc \<ge> 249 \<and> opc \<le> 251 then opc - 249 + 245 else opc) in
      if map_op \<ge> 253 \<and> map_op \<le> 255 then map_op - 253 + 245 else map_op)"

definition add_unpack_op :: "u32 \<Rightarrow> u32 \<Rightarrow> u32 \<Rightarrow> u32 \<Rightarrow> v3d_qpu_add_op res" where
  "add_unpack_op opc ma mb wa =
     (case lookup_opcode add_ops (add_map_op opc) ma mb of
        None \<Rightarrow> Inl Return_False
      | Some d \<Rightarrow>
         (let x = desc_op d;
              x = (if (drop_bit 2 opc AND 3) * 8 + ma > (opc AND 3) * 8 + mb
                   then (if x = V3D_QPU_A_FMIN then V3D_QPU_A_FMAX
                         else if x = V3D_QPU_A_FADD then V3D_QPU_A_FADDNF else x)
                   else x)
          in if x \<in> {V3D_QPU_A_STVPMV, V3D_QPU_A_STVPMD, V3D_QPU_A_STVPMP}
             then (if wa = 0 then Inr V3D_QPU_A_STVPMV
                   else if wa = 1 then Inr V3D_QPU_A_STVPMD
                   else if wa = 2 then Inr V3D_QPU_A_STVPMP
                   else Inl Return_False)
             else Inr x))"

abbreviation float32_binops :: "v3d_qpu_add_op set" where
  "float32_binops \<equiv> {V3D_QPU_A_FADD, V3D_QPU_A_FADDNF, V3D_QPU_A_FSUB, V3D_QPU_A_FMIN,
     V3D_QPU_A_FMAX, V3D_QPU_A_FCMP}"

abbreviation float32_roundops :: "v3d_qpu_add_op set" where
  "float32_roundops \<equiv> {V3D_QPU_A_FFLOOR, V3D_QPU_A_FROUND, V3D_QPU_A_FTRUNC, V3D_QPU_A_FCEIL,
     V3D_QPU_A_FDX, V3D_QPU_A_FDY}"

abbreviation float32_convops :: "v3d_qpu_add_op set" where
  "float32_convops \<equiv> {V3D_QPU_A_FTOIN, V3D_QPU_A_FTOIZ, V3D_QPU_A_FTOUZ, V3D_QPU_A_FTOC}"

abbreviation float16_binops :: "v3d_qpu_add_op set" where
  "float16_binops \<equiv> {V3D_QPU_A_VFMIN, V3D_QPU_A_VFMAX}"

definition add_unpack_modifiers ::
  "v3d_qpu_add_op \<Rightarrow> u32 \<Rightarrow> u32 \<Rightarrow> v3d_qpu_add_op v3d_qpu_alu \<Rightarrow> v3d_qpu_add_op v3d_qpu_alu res" where
  "add_unpack_modifiers x opc mb half =
     (if x \<in> float32_binops then
        bindR (enum_decode v3d_qpu_output_pack_list (drop_bit 4 opc AND 3)) (\<lambda>pk.
        bindR (v3d_qpu_float32_unpack_unpack (drop_bit 2 opc AND 3)) (\<lambda>ua.
        bindR (v3d_qpu_float32_unpack_unpack (opc AND 3)) (\<lambda>ub.
        Inr (half\<lparr>output_pack := pk, a_unpack := ua, b_unpack := ub\<rparr>))))
      else if x \<in> float32_roundops then
        bindR (enum_decode v3d_qpu_output_pack_list (mb AND 3)) (\<lambda>pk.
        bindR (v3d_qpu_float32_unpack_unpack (drop_bit 2 opc AND 3)) (\<lambda>ua.
        Inr (half\<lparr>output_pack := pk, a_unpack := ua\<rparr>)))
      else if x \<in> float32_convops then
        bindR (v3d_qpu_float32_unpack_unpack (drop_bit 2 opc AND 3)) (\<lambda>ua.
        Inr (half\<lparr>output_pack := V3D_QPU_PACK_NONE, a_unpack := ua\<rparr>))
      else if x \<in> float16_binops then
        bindR (v3d_qpu_float16_unpack_unpack (opc AND 7)) (\<lambda>ua.
        Inr (half\<lparr>a_unpack := ua, output_pack := V3D_QPU_PACK_NONE,
                  b_unpack := V3D_QPU_UNPACK_NONE\<rparr>))
      else Inr (half\<lparr>output_pack := V3D_QPU_PACK_NONE, a_unpack := V3D_QPU_UNPACK_NONE,
                     b_unpack := V3D_QPU_UNPACK_NONE\<rparr>))"

definition v3d_qpu_add_unpack :: "u64 \<Rightarrow> v3d_qpu_instr \<Rightarrow> v3d_qpu_instr res" where
  "v3d_qpu_add_unpack packed_inst instr =
     (let opc = QPU_GET_FIELD packed_inst VC5_QPU_OP_ADD;
          ma = QPU_GET_FIELD packed_inst VC5_QPU_ADD_A;
          mb = QPU_GET_FIELD packed_inst VC5_QPU_ADD_B;
          wa = QPU_GET_FIELD packed_inst V3D_QPU_WADDR_A
      in
      bindR (add_unpack_op opc ma mb wa) (\<lambda>x.
      bindR (add_unpack_modifiers x opc mb ((alu_add instr)\<lparr>alu_op := x\<rparr>)) (\<lambda>half.
      bindR (enum_decode v3d_qpu_mux_list ma) (\<lambda>a.
      bindR (enum_decode v3d_qpu_mux_list mb) (\<lambda>b.
      Inr (instr\<lparr>alu_add := half\<lparr>mux_a := a, mux_b := b, waddr := ucast wa,
             magic_write := packed_inst AND VC5_QPU_MA \<noteq> 0\<rparr>\<rparr>))))))"

text \<open>\<open>FMOV\<close> leaves \<open>b_unpack\<close> as it was.\<close>

definition mul_unpack_modifiers ::
  "v3d_qpu_mul_op \<Rightarrow> u32 \<Rightarrow> u32 \<Rightarrow> v3d_qpu_mul_op v3d_qpu_alu \<Rightarrow> v3d_qpu_mul_op v3d_qpu_alu res" where
  "mul_unpack_modifiers x opc mb half =
     (case x of
        V3D_QPU_M_FMUL \<Rightarrow>
          bindR (enum_decode v3d_qpu_output_pack_list ((drop_bit 4 opc AND 3) - 1)) (\<lambda>pk.
          bindR (v3d_qpu_float32_unpack_unpack (drop_bit 2 opc AND 3)) (\<lambda>ua.
          bindR (v3d_qpu_float32_unpack_unpack (opc AND 3)) (\<lambda>ub.
          Inr (half\<lparr>output_pack := pk, a_unpack := ua, b_unpack := ub\<rparr>))))
      | V3D_QPU_M_FMOV \<Rightarrow>
          bindR (enum_decode v3d_qpu_output_pack_list
                   (push_bit 1 (opc AND 1) + (drop_bit 2 mb AND 1))) (\<lambda>pk.
          bindR (v3d_qpu_float32_unpack_unpack (mb AND 3)) (\<lambda>ua.
          Inr (half\<lparr>output_pack := pk, a_unpack := ua\<rparr>)))
      | _ \<Rightarrow> Inr (half\<lparr>output_pack := V3D_QPU_PACK_NONE, a_unpack := V3D_QPU_UNPACK_NONE,
                        b_unpack := V3D_QPU_UNPACK_NONE\<rparr>))"

definition v3d_qpu_mul_unpack :: "u64 \<Rightarrow> v3d_qpu_instr \<Rightarrow> v3d_qpu_instr res" where
  "v3d_qpu_mul_unpack packed_inst instr =
     (let opc = QPU_GET_FIELD packed_inst VC5_QPU_OP_MUL;
          ma = QPU_GET_FIELD packed_inst VC5_QPU_MUL_A;
          mb = QPU_GET_FIELD packed_inst VC5_QPU_MUL_B
      in case lookup_opcode mul_ops opc ma mb of
           None \<Rightarrow> Inl Return_False
         | Some d \<Rightarrow>
            bindR (mul_unpack_modifiers (desc_op d) opc mb
                     ((alu_mul instr)\<lparr>alu_op := desc_op d\<rparr>)) (\<lambda>half.
            bindR (enum_decode v3d_qpu_mux_list ma) (\<lambda>a.
            bindR (enum_decode v3d_qpu_mux_list mb) (\<lambda>b.
            Inr (instr\<lparr>alu_mul := half\<lparr>mux_a := a, mux_b := b,
                   waddr := ucast (QPU_GET_FIELD packed_inst V3D_QPU_WADDR_M),
                   magic_write := packed_inst AND VC5_QPU_MM \<noteq> 0\<rparr>\<rparr>)))))"

section \<open>Packing the two ALU halves\<close>

text \<open>\<open>ffs\<close> of the C library: one plus the index of the lowest set bit, 0 for 0.\<close>

fun ffs_from :: "nat \<Rightarrow> nat \<Rightarrow> u8 \<Rightarrow> nat" where
  "ffs_from 0 i m = 0"
| "ffs_from (Suc n) i m = (if bit m i then Suc i else ffs_from n (Suc i) m)"

definition ffs :: "u8 \<Rightarrow> nat" where
  "ffs m = ffs_from 8 0 m"

fun find_desc :: "'o opcode_desc list \<Rightarrow> 'o \<Rightarrow> 'o opcode_desc res" where
  "find_desc [] x = Inl Return_False"
| "find_desc (d # ds) x = (if desc_op d = x then Inr d else find_desc ds x)"

definition add_pack_waddr :: "v3d_qpu_add_op \<Rightarrow> u8 \<Rightarrow> u8" where
  "add_pack_waddr x w =
     (if x = V3D_QPU_A_STVPMV then 0
      else if x = V3D_QPU_A_STVPMD then 1
      else if x = V3D_QPU_A_STVPMP then 2
      else w)"

definition add_pack_swap :: "v3d_qpu_add_op \<Rightarrow> u32 \<Rightarrow> u32 \<Rightarrow> u32 \<Rightarrow> u32 \<Rightarrow> bool" where
  "add_pack_swap x ua ma ub mb \<longleftrightarrow>
     (let ordering = ua * 8 + ma > ub * 8 + mb in
      (x = V3D_QPU_A_FMIN \<or> x = V3D_QPU_A_FADD) \<and> ordering \<or>
      (x = V3D_QPU_A_FMAX \<or> x = V3D_QPU_A_FADDNF) \<and> \<not> ordering)"

text \<open>The opcode and the two multiplexer fields.\<close>

definition add_pack_opcode ::
  "v3d_qpu_add_op v3d_qpu_alu \<Rightarrow> u32 \<Rightarrow> u32 \<Rightarrow> u32 \<Rightarrow> (u32 \<times> u32 \<times> u32) res" where
  "add_pack_opcode half opcode ma mb =
     (let x = alu_op half in
      if x \<in> float32_binops then
        bindR (v3d_qpu_float32_pack_pack (output_pack half)) (\<lambda>pk.
        bindR (v3d_qpu_float32_unpack_pack (a_unpack half)) (\<lambda>ua.
        bindR (v3d_qpu_float32_unpack_pack (b_unpack half)) (\<lambda>ub.
        let opcode = opcode OR push_bit 4 pk in
        if add_pack_swap x ua ma ub mb
        then Inr (opcode OR push_bit 2 ub OR ua, mb, ma)
        else Inr (opcode OR push_bit 2 ua OR ub, ma, mb))))
      else if x \<in> float32_roundops then
        bindR (v3d_qpu_float32_pack_pack (output_pack half)) (\<lambda>pk.
        bindR (v3d_qpu_float32_unpack_pack (a_unpack half)) (\<lambda>ua.
        bindR (guardR (ua \<noteq> 0)) (\<lambda>_.
        Inr (opcode OR push_bit 2 ua, ma, mb OR pk))))
      else if x \<in> float32_convops then
        bindR (guardR (output_pack half = V3D_QPU_PACK_NONE)) (\<lambda>_.
        bindR (v3d_qpu_float32_unpack_pack (a_unpack half)) (\<lambda>ua.
        bindR (guardR (ua \<noteq> 0)) (\<lambda>_.
        Inr (opcode OR push_bit 2 ua, ma, mb))))
      else if x \<in> float16_binops then
        bindR (guardR (output_pack half = V3D_QPU_PACK_NONE \<and>
                       b_unpack half = V3D_QPU_UNPACK_NONE)) (\<lambda>_.
        bindR (v3d_qpu_float16_unpack_pack (a_unpack half)) (\<lambda>ua.
        Inr (opcode OR ua, ma, mb)))
      else
        bindR (guardR (x = V3D_QPU_A_NOP \<or>
                       (output_pack half = V3D_QPU_PACK_NONE \<and>
                        a_unpack half = V3D_QPU_UNPACK_NONE \<and>
                        b_unpack half = V3D_QPU_UNPACK_NONE))) (\<lambda>_.
        Inr (opcode, ma, mb)))"

text \<open>The multiplexer values before the modifiers are packed into them.\<close>

definition pack_muxes :: "nat \<Rightarrow> 'o opcode_desc \<Rightarrow> u32 \<Rightarrow> u32 \<Rightarrow> u32 \<times> u32" where
  "pack_muxes nsrc d ma mb =
     (if nsrc < 1 then of_nat (ffs (mux_a_mask d) - 1) else ma,
      if nsrc < 2 then of_nat (ffs (mux_b_mask d) - 1) else mb)"

definition v3d_qpu_add_pack :: "v3d_qpu_instr \<Rightarrow> u64 \<Rightarrow> u64 res" where
  "v3d_qpu_add_pack instr packed_instr =
     (let half = alu_add instr; x = alu_op half in
      bindR (find_desc add_ops x) (\<lambda>d.
      let (ma, mb) = pack_muxes (v3d_qpu_add_op_num_src x) d
                       (enum_value v3d_qpu_mux_list (mux_a half))
                       (enum_value v3d_qpu_mux_list (mux_b half)) in
      bindR (add_pack_opcode half (ucast (opcode_first d)) ma mb) (\<lambda>(opcode, ma, mb).
      bindR (or_field packed_instr ma VC5_QPU_ADD_A) (\<lambda>w.
      bindR (or_field w mb VC5_QPU_ADD_B) (\<lambda>w.
      bindR (or_field w opcode VC5_QPU_OP_ADD) (\<lambda>w.
      bindR (or_field w (add_pack_waddr x (waddr half)) V3D_QPU_WADDR_A) (\<lambda>w.
      Inr (if magic_write half then w OR VC5_QPU_MA else w))))))))"

definition mul_pack_opcode ::
  "v3d_qpu_mul_op v3d_qpu_alu \<Rightarrow> u32 \<Rightarrow> u32 \<Rightarrow> (u32 \<times> u32) res" where
  "mul_pack_opcode half opcode mb =
     (case alu_op half of
        V3D_QPU_M_FMUL \<Rightarrow>
          bindR (v3d_qpu_float32_pack_pack (output_pack half)) (\<lambda>pk.
          bindR (v3d_qpu_float32_unpack_pack (a_unpack half)) (\<lambda>ua.
          bindR (v3d_qpu_float32_unpack_pack (b_unpack half)) (\<lambda>ub.
          Inr ((opcode + push_bit 4 pk) OR push_bit 2 ua OR ub, mb))))
      | V3D_QPU_M_FMOV \<Rightarrow>
          bindR (v3d_qpu_float32_pack_pack (output_pack half)) (\<lambda>pk.
          bindR (v3d_qpu_float32_unpack_pack (a_unpack half)) (\<lambda>ua.
          Inr (opcode OR (drop_bit 1 pk AND 1), push_bit 2 (pk AND 1) OR ua)))
      | _ \<Rightarrow> Inr (opcode, mb))"

definition v3d_qpu_mul_pack :: "v3d_qpu_instr \<Rightarrow> u64 \<Rightarrow> u64 res" where
  "v3d_qpu_mul_pack instr packed_instr =
     (let half = alu_mul instr; x = alu_op half in
      bindR (find_desc mul_ops x) (\<lambda>d.
      let (ma, mb) = pack_muxes (v3d_qpu_mul_op_num_src x) d
                       (enum_value v3d_qpu_mux_list (mux_a half))
                       (enum_value v3d_qpu_mux_list (mux_b half)) in
      bindR (mul_pack_opcode half (ucast (opcode_first d)) mb) (\<lambda>(opcode, mb).
      bindR (or_field packed_instr ma VC5_QPU_MUL_A) (\<lambda>w.
      bindR (or_field w mb VC5_QPU_MUL_B) (\<lambda>w.
      bindR (or_field w opcode VC5_QPU_OP_MUL) (\<lambda>w.
      bindR (or_field w (waddr half) V3D_QPU_WADDR_M) (\<lambda>w.
      Inr (if magic_write half then w OR VC5_QPU_MM else w))))))))"

section \<open>Whole instructions\<close>

definition v3d_qpu_instr_unpack_alu :: "u64 \<Rightarrow> v3d_qpu_instr \<Rightarrow> v3d_qpu_instr res" where
  "v3d_qpu_instr_unpack_alu packed_instr instr =
     bindR (v3d_qpu_sig_unpack (QPU_GET_FIELD packed_instr VC5_QPU_SIG)) (\<lambda>s.
     bindR (v3d_qpu_flags_unpack (QPU_GET_FIELD packed_instr VC5_QPU_COND)) (\<lambda>f.
     bindR (v3d_qpu_add_unpack packed_instr
              (instr\<lparr>instr_type := V3D_QPU_INSTR_TYPE_ALU, sig := s, flags := f,
                     raddr_a := ucast (QPU_GET_FIELD packed_instr VC5_QPU_RADDR_A),
                     raddr_b := ucast (QPU_GET_FIELD packed_instr VC5_QPU_RADDR_B)\<rparr>)) (\<lambda>instr.
     v3d_qpu_mul_unpack packed_instr instr)))"

definition v3d_qpu_instr_unpack_branch :: "u64 \<Rightarrow> v3d_qpu_instr \<Rightarrow> v3d_qpu_instr res" where
  "v3d_qpu_instr_unpack_branch packed_instr instr =
     (let cond = QPU_GET_FIELD packed_instr VC5_QPU_BRANCH_COND;
          a0 = enum_value v3d_qpu_branch_cond_list V3D_QPU_BRANCH_COND_A0;
          msfign = QPU_GET_FIELD packed_instr VC5_QPU_BRANCH_MSFIGN;
          ub = (packed_instr AND VC5_QPU_BRANCH_UB \<noteq> 0)
      in
      bindR (if cond = 0 then Inr V3D_QPU_BRANCH_COND_ALWAYS
             else if a0 + (cond - 2) \<le> enum_value v3d_qpu_branch_cond_list V3D_QPU_BRANCH_COND_ALLNA
             then enum_decode v3d_qpu_branch_cond_list (a0 + (cond - 2))
             else Inl Return_False) (\<lambda>c.
      bindR (guardR (msfign \<noteq> 3)) (\<lambda>_.
      bindR (enum_decode v3d_qpu_msfign_list msfign) (\<lambda>m.
      bindR (enum_decode v3d_qpu_branch_dest_list
               (QPU_GET_FIELD packed_instr VC5_QPU_BRANCH_BDI)) (\<lambda>bdi.
      bindR (if ub then enum_decode v3d_qpu_branch_dest_list
                          (QPU_GET_FIELD packed_instr VC5_QPU_BRANCH_BDU)
             else Inr (br_bdu (branch instr))) (\<lambda>bdu.
      Inr (instr\<lparr>instr_type := V3D_QPU_INSTR_TYPE_BRANCH,
             branch := \<lparr>br_cond = c, br_msfign = m, br_bdi = bdi, br_bdu = bdu, br_ub = ub,
               br_raddr_a = ucast (QPU_GET_FIELD packed_instr VC5_QPU_RADDR_A),
               br_offset = 0 + push_bit 3 (QPU_GET_FIELD packed_instr VC5_QPU_BRANCH_ADDR_LOW)
                             + push_bit 24 (QPU_GET_FIELD packed_instr VC5_QPU_BRANCH_ADDR_HIGH)
               \<rparr>\<rparr>)))))))"

definition v3d_qpu_instr_unpack :: "u64 \<Rightarrow> v3d_qpu_instr \<Rightarrow> v3d_qpu_instr res" where
  "v3d_qpu_instr_unpack packed_instr instr =
     (if QPU_GET_FIELD packed_instr VC5_QPU_OP_MUL \<noteq> 0
      then v3d_qpu_instr_unpack_alu packed_instr instr
      else (let s = QPU_GET_FIELD packed_instr VC5_QPU_SIG in
            if s AND 24 = 16 then v3d_qpu_instr_unpack_branch packed_instr instr
            else Inl Return_False))"

definition v3d_qpu_instr_pack_alu :: "v3d_qpu_instr \<Rightarrow> u64 \<Rightarrow> u64 res" where
  "v3d_qpu_instr_pack_alu instr packed_instr =
     bindR (v3d_qpu_sig_pack (sig instr)) (\<lambda>s.
     bindR (or_field packed_instr s VC5_QPU_SIG) (\<lambda>w.
     if instr_type instr = V3D_QPU_INSTR_TYPE_ALU then
       bindR (or_field w (raddr_a instr) VC5_QPU_RADDR_A) (\<lambda>w.
       bindR (or_field w (raddr_b instr) VC5_QPU_RADDR_B) (\<lambda>w.
       bindR (v3d_qpu_add_pack instr w) (\<lambda>w.
       bindR (v3d_qpu_mul_pack instr w) (\<lambda>w.
       bindR (v3d_qpu_flags_pack (flags instr)) (\<lambda>f.
       or_field w f VC5_QPU_COND)))))
     else Inr w))"

text \<open>
  The \<open>ABS\<close> and \<open>REL\<close> cases of the switch on \<open>bdi\<close> fall through to the \<open>REGFILE\<close> case.
\<close>

definition v3d_qpu_instr_pack_branch :: "v3d_qpu_instr \<Rightarrow> u64 \<Rightarrow> u64 res" where
  "v3d_qpu_instr_pack_branch instr packed_instr =
     (let br = branch instr;
          msf = enum_value v3d_qpu_msfign_list (br_msfign br)
      in
      bindR (or_field packed_instr (16::u32) VC5_QPU_SIG) (\<lambda>w.
      bindR (if br_cond br \<noteq> V3D_QPU_BRANCH_COND_ALWAYS
             then or_field w (2 + (enum_value v3d_qpu_branch_cond_list (br_cond br)
                     - enum_value v3d_qpu_branch_cond_list V3D_QPU_BRANCH_COND_A0))
                    VC5_QPU_BRANCH_COND
             else Inr w) (\<lambda>w.
      bindR (or_field w msf VC5_QPU_BRANCH_MSFIGN) (\<lambda>w.
      bindR (or_field w (enum_value v3d_qpu_branch_dest_list (br_bdi br)) VC5_QPU_BRANCH_BDI) (\<lambda>w.
      bindR (if br_ub br
             then or_field (w OR VC5_QPU_BRANCH_UB)
                    (enum_value v3d_qpu_branch_dest_list (br_bdu br)) VC5_QPU_BRANCH_BDU
             else Inr w) (\<lambda>w.
      bindR (if br_bdi br \<in> {V3D_QPU_BRANCH_DEST_ABS, V3D_QPU_BRANCH_DEST_REL}
             then bindR (or_field w msf VC5_QPU_BRANCH_MSFIGN) (\<lambda>w.
                  bindR (or_field w (drop_bit 3 (br_offset br AND NOT 0xff000000))
                           VC5_QPU_BRANCH_ADDR_LOW) (\<lambda>w.
                  or_field w (drop_bit 24 (br_offset br)) VC5_QPU_BRANCH_ADDR_HIGH))
             else Inr w) (\<lambda>w.
      if br_bdi br \<noteq> V3D_QPU_BRANCH_DEST_LINK_REG
      then or_field w (br_raddr_a br) VC5_QPU_RADDR_A
      else Inr w)))))))"

definition v3d_qpu_instr_pack :: "v3d_qpu_instr \<Rightarrow> u64 res" where
  "v3d_qpu_instr_pack instr =
     (case instr_type instr of
        V3D_QPU_INSTR_TYPE_ALU \<Rightarrow> v3d_qpu_instr_pack_alu instr 0
      | V3D_QPU_INSTR_TYPE_BRANCH \<Rightarrow> v3d_qpu_instr_pack_branch instr 0)"

section \<open>Reading and writing fields\<close>

text \<open>
  The bits of a word under the field macros: a value that fits is stored without tripping
  the assertion, reading a field returns what was stored in it, and fields with disjoint
  bits do not disturb each other.
\<close>

definition field_ok :: "qpu_field \<Rightarrow> bool" where
  "field_ok f \<longleftrightarrow> snd f \<le> fst f \<and> fst f < 64 \<and> fst f - snd f < 32"

definition field_width :: "qpu_field \<Rightarrow> nat" where
  "field_width f = fst f - snd f + 1"

definition field_put :: "qpu_field \<Rightarrow> 'a::len word \<Rightarrow> u64" where
  "field_put f v = push_bit (snd f) (ucast v)"

lemma bit_QPU_MASK:
  assumes "lo \<le> hi" "hi < 64"
  shows "bit (QPU_MASK hi lo) n \<longleftrightarrow> lo \<le> n \<and> n \<le> hi"
proof -
  have m: "push_bit (hi - lo + 1) 1 - 1 = (mask (hi - lo + 1) :: u64)"
    by (simp add: mask_eq_exp_minus_1 push_bit_eq_mult)
  show ?thesis
    unfolding QPU_MASK_def m using assms
    by (auto simp: bit_push_bit_iff bit_mask_iff)
qed

lemma bit_GET:
  assumes "field_ok f"
  shows "bit (QPU_GET_FIELD w f) n \<longleftrightarrow> n \<le> fst f - snd f \<and> bit w (snd f + n)"
  using assms unfolding field_ok_def QPU_GET_FIELD_def field_mask_def
  by (auto simp: bit_unsigned_iff bit_drop_bit_eq bit_and_iff bit_QPU_MASK)

lemma GET_OR [simp]: "QPU_GET_FIELD (a OR b) f = QPU_GET_FIELD a f OR QPU_GET_FIELD b f"
  by (rule bit_word_eqI)
    (auto simp: QPU_GET_FIELD_def bit_unsigned_iff bit_drop_bit_eq bit_and_iff bit_or_iff)

lemma GET_0 [simp]: "QPU_GET_FIELD 0 f = 0"
  by (simp add: QPU_GET_FIELD_def)

lemma bit_bounded:
  fixes v :: "'a::len word"
  assumes "unat v < 2 ^ k" and "bit v n"
  shows "n < k"
proof (rule ccontr)
  assume "\<not> n < k"
  then have "(2::nat) ^ k \<le> 2 ^ n" by simp
  with assms(1) have "unat v div 2 ^ n = 0" by (intro div_less) (rule less_le_trans)
  moreover have "bit (unat v) n" using assms(2) by (simp add: bit_unsigned_iff bit_imp_le_length)
  ultimately show False by (simp add: bit_iff_odd)
qed

lemma SET_FIELD_ok:
  assumes f: "field_ok f" and v: "unat v < 2 ^ field_width f"
  shows "QPU_SET_FIELD v f = Inr (field_put f v)"
proof -
  have *: "lo \<le> n \<and> n \<le> hi"
    if "bit (push_bit lo (ucast v :: u64)) n" "f = (hi, lo)" for n hi lo
    using that v f bit_bounded [OF v, of "n - lo"]
    by (auto simp: bit_push_bit_iff bit_unsigned_iff field_width_def field_ok_def)
  obtain hi lo where fe: "f = (hi, lo)" by (cases f)
  have 1: "push_bit lo (ucast v) AND NOT (QPU_MASK hi lo) = 0"
    by (rule bit_word_eqI)
      (use f fe * in \<open>auto simp: bit_and_iff bit_not_iff bit_QPU_MASK field_ok_def\<close>)
  have 2: "push_bit lo (ucast v) AND QPU_MASK hi lo = push_bit lo (ucast v)"
    by (rule bit_word_eqI)
      (use f fe * in \<open>auto simp: bit_and_iff bit_not_iff bit_QPU_MASK field_ok_def\<close>)
  show ?thesis using fe 1 2
    by (simp add: QPU_SET_FIELD_def field_mask_def field_put_def Let_def)
qed

lemma or_field_ok:
  "field_ok f \<Longrightarrow> unat v < 2 ^ field_width f \<Longrightarrow> or_field w v f = Inr (w OR field_put f v)"
  by (simp add: or_field_def SET_FIELD_ok)

lemma GET_put_same:
  assumes f: "field_ok f" and v: "unat v < 2 ^ field_width f"
  shows "QPU_GET_FIELD (field_put f v) f = ucast v"
  by (rule bit_word_eqI)
    (use f bit_bounded [OF v] in \<open>fastforce simp: bit_GET field_put_def bit_push_bit_iff
       bit_unsigned_iff field_ok_def field_width_def less_Suc_eq_le\<close>)

lemma GET_put_other:
  assumes f: "field_ok f" and g: "field_ok g" and v: "unat v < 2 ^ field_width f"
    and d: "fst f < snd g \<or> fst g < snd f"
  shows "QPU_GET_FIELD (field_put f v) g = 0"
  by (rule bit_word_eqI)
    (use f g d bit_bounded [OF v] in \<open>fastforce simp: bit_GET field_put_def bit_push_bit_iff bit_unsigned_iff
       field_ok_def field_width_def\<close>)

lemma GET_QPU_MASK_other:
  assumes "field_ok g" "lo \<le> hi" "hi < 64" "hi < snd g \<or> fst g < lo"
  shows "QPU_GET_FIELD (QPU_MASK hi lo) g = 0"
  by (rule bit_word_eqI) (use assms in \<open>auto simp: bit_GET bit_QPU_MASK field_ok_def\<close>)

lemma AND_QPU_MASK_bit: "k < 64 \<Longrightarrow> w AND QPU_MASK k k \<noteq> 0 \<longleftrightarrow> bit w k"
proof -
  assume k: "k < 64"
  then have "bit (w AND QPU_MASK k k) n \<longleftrightarrow> n = k \<and> bit w k" for n
    by (auto simp: bit_and_iff bit_QPU_MASK)
  then show ?thesis
    by (metis bit_word_eqI bit_0_eq bot_apply bot_bool_def)
qed

lemma bit_field_put:
  assumes "field_ok f" and "unat v < 2 ^ field_width f" and "k < snd f \<or> fst f < k"
  shows "\<not> bit (field_put f v) k"
  using assms bit_bounded [OF assms(2), of "k - snd f"]
  by (auto simp: field_put_def bit_push_bit_iff bit_unsigned_iff field_ok_def field_width_def)

lemma GET_bound: "field_ok f \<Longrightarrow> unat (QPU_GET_FIELD w f) < 2 ^ field_width f"
proof -
  assume f: "field_ok f"
  have "QPU_GET_FIELD w f = take_bit (field_width f) (QPU_GET_FIELD w f)"
    by (rule bit_word_eqI) (use f in \<open>auto simp: bit_GET bit_take_bit_iff field_width_def\<close>)
  then show ?thesis
    by (metis take_bit_nat_less_exp unsigned_take_bit_eq)
qed

end
