(* ===== verification/Qpu_Codec.thy ===== *)
theory Qpu_Codec
  imports Qpu_Pack
begin

text \<open>
  The lemmas on the codec of \<^verbatim>\<open>qpu_pack.c\<close> below the level of whole instructions: the
  condition flags, the signals, the opcode tables and the two ALU halves. The properties of
  whole instruction words are in the theory \<open>Qpu_Roundtrip\<close>.
\<close>

unbundle bit_operations_syntax

section \<open>Auxiliary notions\<close>

text \<open>The layout of the opcodes of the two-operand float operations.\<close>

definition binop_opcode :: "u32 \<Rightarrow> u32 \<Rightarrow> u32 \<Rightarrow> u32 \<Rightarrow> u32" where
  "binop_opcode base pk ua ub = base OR push_bit 4 pk OR push_bit 2 ua OR ub"

abbreviation NC :: v3d_qpu_cond where "NC \<equiv> V3D_QPU_COND_NONE"
abbreviation NP :: v3d_qpu_pf where "NP \<equiv> V3D_QPU_PF_NONE"
abbreviation NU :: v3d_qpu_uf where "NU \<equiv> V3D_QPU_UF_NONE"

text \<open>Packing fails, or unpacking the result gives the flags back.\<close>

definition flags_rt :: "v3d_qpu_flags \<Rightarrow> bool" where
  "flags_rt f \<longleftrightarrow> (case v3d_qpu_flags_pack f of Inl _ \<Rightarrow> True
     | Inr p \<Rightarrow> v3d_qpu_flags_unpack p = Inr f \<and> unat p < 128)"

section \<open>Condition flags\<close>

lemma flags_pack_shape:
  assumes "v3d_qpu_flags_pack f = Inr p"
  shows "muf f = V3D_QPU_UF_NONE \<and>
      (mc f = V3D_QPU_COND_NONE \<and> ac f = V3D_QPU_COND_NONE \<and> mpf f = V3D_QPU_PF_NONE \<and>
         (apf f = V3D_QPU_PF_NONE \<or> auf f = V3D_QPU_UF_NONE) \<or>
       mc f = V3D_QPU_COND_NONE \<and> auf f = V3D_QPU_UF_NONE \<and> apf f = V3D_QPU_PF_NONE \<or>
       ac f = V3D_QPU_COND_NONE \<and> auf f = V3D_QPU_UF_NONE \<and> mpf f = V3D_QPU_PF_NONE \<or>
       apf f = V3D_QPU_PF_NONE \<and> mpf f = V3D_QPU_PF_NONE \<and>
         (ac f = V3D_QPU_COND_NONE \<or> auf f = V3D_QPU_UF_NONE)) \<or>
     ac f = V3D_QPU_COND_NONE \<and> mc f = V3D_QPU_COND_NONE \<and> apf f = V3D_QPU_PF_NONE \<and>
       mpf f = V3D_QPU_PF_NONE \<and> auf f = V3D_QPU_UF_NONE"
  using assms unfolding v3d_qpu_flags_pack_def flags_present_def flags_table_def
  by (simp split: if_splits)

lemmas flags_eval = v3d_qpu_flags_pack_def v3d_qpu_flags_unpack_def flags_present_def
  flags_table_def enum_decode_def v3d_qpu_cond_list_def v3d_qpu_pf_list_def v3d_qpu_uf_list_def Let_def

lemma flags_rt_auf: "flags_rt \<lparr>ac = NC, mc = NC, apf = NP, mpf = NP, auf = u, muf = NU\<rparr>"
  by (cases u) (simp_all add: flags_rt_def flags_eval)

lemma flags_rt_muf: "flags_rt \<lparr>ac = NC, mc = NC, apf = NP, mpf = NP, auf = NU, muf = u\<rparr>"
  by (cases u) (simp_all add: flags_rt_def flags_eval)

lemma flags_rt_mc_apf: "flags_rt \<lparr>ac = NC, mc = m, apf = p, mpf = NP, auf = NU, muf = NU\<rparr>"
  by (cases m; cases p) (simp_all add: flags_rt_def flags_eval)

lemma flags_rt_ac_mpf: "flags_rt \<lparr>ac = a, mc = NC, apf = NP, mpf = p, auf = NU, muf = NU\<rparr>"
  by (cases a; cases p) (simp_all add: flags_rt_def flags_eval)

lemma flags_rt_ac_mc: "m = NC \<or> a = NC \<or> a = V3D_QPU_COND_IFA \<Longrightarrow> flags_rt \<lparr>ac = a, mc = m, apf = NP, mpf = NP, auf = NU, muf = NU\<rparr>"
  by (cases a; cases m) (simp_all add: flags_rt_def flags_eval)

lemma flags_rt_mc_auf: "flags_rt \<lparr>ac = NC, mc = m, apf = NP, mpf = NP, auf = u, muf = NU\<rparr>"
  by (cases m; cases u) (simp_all add: flags_rt_def flags_eval)
lemma flags_roundtrip:
  assumes "v3d_qpu_flags_pack f = Inr p"
    and "mc f = NC \<or> ac f = NC \<or> ac f = V3D_QPU_COND_IFA"
  shows "v3d_qpu_flags_unpack p = Inr f \<and> unat p < 128"
proof -
  have "flags_rt f"
    using flags_pack_shape [OF assms(1)] assms(2) flags_rt_auf flags_rt_muf flags_rt_mc_apf flags_rt_ac_mpf flags_rt_ac_mc
      flags_rt_mc_auf
    by (cases f) auto
  then show ?thesis using assms(1) by (simp add: flags_rt_def)
qed

section \<open>Opcode tables\<close>

lemma mux_any [simp]:
  "ucast ANYMUX AND 2 ^ unat (enum_value v3d_qpu_mux_list m) \<noteq> (0::u32)"
  by (cases m) (simp_all add: MUX_MASK_def)

lemma MUX_MASK_eval [simp]: "MUX_MASK 0 2 = 7" "MUX_MASK 4 6 = 112" "MUX_MASK 0 3 = 15"
  by (simp_all add: MUX_MASK_def)

lemmas table_eval = add_ops_def mul_ops_def desc_def v3d_qpu_add_op_num_src_def v3d_qpu_mul_op_num_src_def
  pack_muxes_def

lemma unat_mux_less: "unat (enum_value v3d_qpu_mux_list m) < 8"
  using mux.value_bound [of m] by (simp add: v3d_qpu_mux_list_def)

lemma lookup_fadd:
  assumes "unat opc \<le> 47"
  shows "map_option desc_op (lookup_opcode add_ops opc (enum_value v3d_qpu_mux_list a) (enum_value v3d_qpu_mux_list b)) = Some V3D_QPU_A_FADD"
  using assms by (simp add: add_ops_def desc_def word_less_nat_alt)

lemma lookup_fsub:
  assumes "64 \<le> unat opc" "unat opc \<le> 111"
  shows "map_option desc_op (lookup_opcode add_ops opc (enum_value v3d_qpu_mux_list a) (enum_value v3d_qpu_mux_list b)) = Some V3D_QPU_A_FSUB"
  using assms by (simp add: add_ops_def desc_def word_less_nat_alt)

lemma lookup_fmin:
  assumes "128 \<le> unat opc" "unat opc \<le> 175"
  shows "map_option desc_op (lookup_opcode add_ops opc (enum_value v3d_qpu_mux_list a) (enum_value v3d_qpu_mux_list b)) = Some V3D_QPU_A_FMIN"
  using assms by (simp add: add_ops_def desc_def word_less_nat_alt)

lemma lookup_fcmp:
  assumes "192 \<le> unat opc" "unat opc \<le> 239"
  shows "map_option desc_op (lookup_opcode add_ops opc (enum_value v3d_qpu_mux_list a) (enum_value v3d_qpu_mux_list b)) = Some V3D_QPU_A_FCMP"
  using assms by (simp add: add_ops_def desc_def word_less_nat_alt)

lemma unat_AND_3: "unat (x AND 3 :: u32) = unat x mod 4"
proof -
  have "x AND 3 = take_bit 2 x"
    by (simp add: take_bit_eq_mask mask_eq_exp_minus_1)
  then show ?thesis by (simp add: take_bit_eq_mod unat_mod)
qed

lemma unat_drop_bit_u32: "unat (drop_bit n x :: u32) = unat x div 2 ^ n"
  by (simp only: unat_drop_bit_eq drop_bit_eq_div [of n "unat x"])

lemma unat_binop_opcode:
  assumes "base \<in> {0, 64, 128, 192}" "pk \<in> {0,1,2}" "ua \<in> {0,1,2,3}" "ub \<in> {0,1,2,3}"
  shows "unat (binop_opcode base pk ua ub) = unat base + 16 * unat pk + 4 * unat ua + unat ub"
proof -
  have 1: "push_bit 2 ua OR ub = 4 * ua + ub \<and> unat (push_bit 2 ua OR ub) = 4 * unat ua + unat ub"
    using assms(3,4) by auto
  have 2: "base OR push_bit 4 pk = base + 16 * pk \<and> unat (base OR push_bit 4 pk) = unat base + 16 * unat pk"
    using assms(1,2) by auto
  have "\<not> bit (base OR push_bit 4 pk) n \<or> \<not> bit (push_bit 2 ua OR ub) n" for n
  proof (cases "n < 4")
    case True
    then have "n = 0 \<or> n = 1 \<or> n = 2 \<or> n = 3" by arith
    then show ?thesis using assms(1,2) by auto
  next
    case False
    then show ?thesis using assms(3,4) bit_bounded [of "push_bit 2 ua OR ub" 4 n] by auto
  qed
  then have "(base OR push_bit 4 pk) + (push_bit 2 ua OR ub) = (base OR push_bit 4 pk) OR (push_bit 2 ua OR ub)"
    by (rule disjunctive_add)
  then have "binop_opcode base pk ua ub = (base OR push_bit 4 pk) + (push_bit 2 ua OR ub)"
    by (simp add: binop_opcode_def or.assoc)
  moreover have "unat base \<le> 192" using assms(1) by auto
  moreover have "unat pk \<le> 2" using assms(2) by auto
  moreover have "unat ua \<le> 3" using assms(3) by auto
  moreover have "unat ub \<le> 3" using assms(4) by auto
  ultimately show ?thesis
    using 1 2 by (simp add: unat_word_ariths)
qed

lemma binop_digits:
  assumes "p \<le> 2" "a \<le> 3" "b \<le> 3" "f \<in> {0, 64, 128, 192 :: nat}"
  shows "(f + 16 * p + 4 * a + b) div 2 ^ 4 mod 4 = p"
    "(f + 16 * p + 4 * a + b) div 2 ^ 2 mod 4 = a"
    "(f + 16 * p + 4 * a + b) mod 4 = b"
proof -
  obtain k where f: "f = 64 * k" using assms(4) by (auto intro: that [of 0] that [of 1] that [of 2] that [of 3])
  have "(64 * k + 16 * p + 4 * a + b) div 16 = p + k * 4"
    using assms(2,3) by (intro div_nat_eqI) simp_all
  moreover have "(64 * k + 16 * p + 4 * a + b) div 4 = a + (16 * k + 4 * p)"
    using assms(3) by (intro div_nat_eqI) simp_all
  moreover have "64 * k + 16 * p + 4 * a + b = b + (16 * k + 4 * p + a) * 4"
    by simp
  ultimately have "(64 * k + 16 * p + 4 * a + b) div 16 mod 4 = p"
    "(64 * k + 16 * p + 4 * a + b) div 4 mod 4 = a"
    "(64 * k + 16 * p + 4 * a + b) mod 4 = b"
    using assms(1-3) mod_mult_self1 [of a "4 * k + p" 4] mod_mult_self1 [of b "16 * k + 4 * p + a" 4]
    by (simp_all add: algebra_simps)
  then show "(f + 16 * p + 4 * a + b) div 2 ^ 4 mod 4 = p"
    "(f + 16 * p + 4 * a + b) div 2 ^ 2 mod 4 = a"
    "(f + 16 * p + 4 * a + b) mod 4 = b"
    using f by simp_all
qed

lemma binop_fields:
  assumes "base \<in> {0, 64, 128, 192}" "pk \<in> {0,1,2}" "ua \<in> {0,1,2,3}" "ub \<in> {0,1,2,3}"
  shows "drop_bit 4 (binop_opcode base pk ua ub) AND 3 = pk"
    "drop_bit 2 (binop_opcode base pk ua ub) AND 3 = ua"
    "binop_opcode base pk ua ub AND 3 = ub"
    "unat base \<le> unat (binop_opcode base pk ua ub)"
    "unat (binop_opcode base pk ua ub) \<le> unat base + 47"
proof -
  note eq = unat_binop_opcode [OF assms]
  have b: "unat base \<in> {0, 64, 128, 192}" using assms(1) by auto
  have c: "unat pk \<le> 2" using assms(2) by auto
  have d: "unat ua \<le> 3" using assms(3) by auto
  have e: "unat ub \<le> 3" using assms(4) by auto
  show "drop_bit 4 (binop_opcode base pk ua ub) AND 3 = pk"
    "drop_bit 2 (binop_opcode base pk ua ub) AND 3 = ua"
    "binop_opcode base pk ua ub AND 3 = ub"
    using binop_digits [OF c d e b]
    by (simp_all only: word_unat_eq_iff unat_AND_3 unat_drop_bit_u32 eq)
  show "unat base \<le> unat (binop_opcode base pk ua ub)"
    "unat (binop_opcode base pk ua ub) \<le> unat base + 47"
    using c d e by (simp_all add: eq)
qed

lemma float32_unpack_pack_bound: "v3d_qpu_float32_unpack_pack u = Inr ua \<Longrightarrow> ua \<in> {0, 1, 2, 3}"
  by (cases u) (auto simp: v3d_qpu_float32_unpack_pack_def)

lemma float32_unpack_inverse [simp]:
  "v3d_qpu_float32_unpack_pack u = Inr ua \<Longrightarrow> v3d_qpu_float32_unpack_unpack ua = Inr u"
  by (cases u) (auto simp: v3d_qpu_float32_unpack_pack_def v3d_qpu_float32_unpack_unpack_def)

lemma float16_unpack_inverse [simp]:
  "v3d_qpu_float16_unpack_pack u = Inr ua \<Longrightarrow> v3d_qpu_float16_unpack_unpack ua = Inr u"
  by (cases u) (auto simp: v3d_qpu_float16_unpack_pack_def v3d_qpu_float16_unpack_unpack_def)

lemma float32_pack_pack [simp]:
  "v3d_qpu_float32_pack_pack p = Inr (enum_value v3d_qpu_output_pack_list p)"
  by (cases p) (simp_all add: v3d_qpu_float32_pack_pack_def)

lemma key_unat:
  assumes "ua \<in> {0, 1, 2, 3}"
  shows "unat (ua * 8 + enum_value v3d_qpu_mux_list m) = 8 * unat ua + unat (enum_value v3d_qpu_mux_list m)"
  using assms unat_mux_less [of m] by (auto simp: unat_word_ariths)

lemma key_eq:
  assumes u: "v3d_qpu_float32_unpack_pack u1 = Inr ua" "v3d_qpu_float32_unpack_pack u2 = Inr ub"
    and eq: "ua * 8 + enum_value v3d_qpu_mux_list m1 = ub * 8 + enum_value v3d_qpu_mux_list m2"
  shows "u1 = u2 \<and> m1 = m2"
proof -
  have "8 * unat ua + unat (enum_value v3d_qpu_mux_list m1)
      = 8 * unat ub + unat (enum_value v3d_qpu_mux_list m2)"
    using arg_cong [OF eq, of unat] u by (simp only: key_unat float32_unpack_pack_bound)
  then have "unat ua = unat ub \<and> unat (enum_value v3d_qpu_mux_list m1) = unat (enum_value v3d_qpu_mux_list m2)"
    using unat_mux_less [of m1] unat_mux_less [of m2] by presburger
  then have "ua = ub" "m1 = m2"
    by (simp_all add: word_unat_eq_iff flip: mux.value_inj)
  then show ?thesis
    using u by (metis float32_unpack_inverse sum.inject(2))
qed

end
