(* ===== verification/Qpu_Alu_Codec.thy ===== *)
theory Qpu_Alu_Codec
  imports Qpu_Codec
begin

text \<open>
  The opcode and multiplexer encoding of the two ALU halves. \<open>add_decodes\<close> and
  \<open>mul_decodes\<close> say that the opcode and multiplexer values computed by the packing code
  select the same operation, operands and modifiers when the unpacking code reads them. They
  hold for every operation the packing code accepts, with the two exceptions that
  \<open>add_encodable\<close> excludes; \<open>FMIN\<close>, \<open>FMAX\<close>, \<open>FADD\<close> and \<open>FADDNF\<close> share
  opcodes and may come back with their operands exchanged.
\<close>

unbundle bit_operations_syntax

section \<open>The add half\<close>

definition operands :: "nat \<Rightarrow> 'o v3d_qpu_alu \<Rightarrow> (v3d_qpu_mux \<times> v3d_qpu_input_unpack) list" where
  "operands n h = take n [(mux_a h, a_unpack h), (mux_b h, b_unpack h)]"

abbreviation commutative_ops :: "v3d_qpu_add_op set" where
  "commutative_ops \<equiv> {V3D_QPU_A_FADD, V3D_QPU_A_FADDNF, V3D_QPU_A_FMIN, V3D_QPU_A_FMAX}"

definition same_add :: "v3d_qpu_add_op v3d_qpu_alu \<Rightarrow> v3d_qpu_add_op v3d_qpu_alu \<Rightarrow> bool" where
  "same_add h h' \<longleftrightarrow> alu_op h' = alu_op h \<and>
     (alu_op h \<noteq> V3D_QPU_A_NOP \<longrightarrow> output_pack h' = output_pack h) \<and>
     (let n = v3d_qpu_add_op_num_src (alu_op h) in
      operands n h' = operands n h \<or>
      alu_op h \<in> commutative_ops \<and> operands n h' = rev (operands n h))"

definition add_encodable :: "v3d_qpu_add_op v3d_qpu_alu \<Rightarrow> bool" where
  "add_encodable h \<longleftrightarrow>
     (alu_op h \<in> float32_roundops \<union> float32_convops \<longrightarrow> a_unpack h \<noteq> V3D_QPU_UNPACK_L) \<and>
     (alu_op h \<in> {V3D_QPU_A_FADDNF, V3D_QPU_A_FMAX} \<longrightarrow>
        (mux_a h, a_unpack h) \<noteq> (mux_b h, b_unpack h))"

definition add_decodes :: "v3d_qpu_add_op v3d_qpu_alu \<Rightarrow> u32 \<Rightarrow> u32 \<Rightarrow> u32 \<Rightarrow> bool" where
  "add_decodes h opc ma mb \<longleftrightarrow> unat opc < 256 \<and>
     (\<exists>a b. ma = enum_value v3d_qpu_mux_list a \<and> mb = enum_value v3d_qpu_mux_list b \<and>
       (\<forall>w. add_unpack_op opc ma mb (ucast (add_pack_waddr (alu_op h) w)) = Inr (alu_op h)) \<and>
       (\<forall>h0. \<exists>h1. add_unpack_modifiers (alu_op h) opc mb h0 = Inr h1 \<and>
          same_add h (h1\<lparr>alu_op := alu_op h, mux_a := a, mux_b := b\<rparr>)))"

lemma output_pack_value_bound: "enum_value v3d_qpu_output_pack_list p \<in> {0, 1, 2}"
  by (cases p) simp_all

lemma add_unpack_op_lookup:
  assumes "map_option desc_op (lookup_opcode add_ops (add_map_op opc) ma mb) = Some x"
    and "x \<notin> {V3D_QPU_A_STVPMV, V3D_QPU_A_STVPMD, V3D_QPU_A_STVPMP}"
  shows "add_unpack_op opc ma mb wa =
    Inr (if (opc AND 3) * 8 + mb < (drop_bit 2 opc AND 3) * 8 + ma
         then (if x = V3D_QPU_A_FMIN then V3D_QPU_A_FMAX
               else if x = V3D_QPU_A_FADD then V3D_QPU_A_FADDNF else x) else x)"
  using assms by (auto simp: add_unpack_op_def Let_def)

lemma add_unpack_op_plain:
  assumes "map_option desc_op (lookup_opcode add_ops (add_map_op opc) ma mb) = Some x"
    and "x \<notin> {V3D_QPU_A_FMIN, V3D_QPU_A_FADD, V3D_QPU_A_STVPMV, V3D_QPU_A_STVPMD, V3D_QPU_A_STVPMP}"
  shows "add_unpack_op opc ma mb wa = Inr x"
  using assms by (auto simp: add_unpack_op_def Let_def)

lemma add_map_op_small: "unat opc < 245 \<Longrightarrow> add_map_op opc = opc"
  by (auto simp: add_map_op_def word_le_nat_alt)

lemma binop_modifiers:
  assumes x: "x \<in> float32_binops" and base: "base \<in> {0, 64, 128, 192}"
    and u: "v3d_qpu_float32_unpack_pack u = Inr ua" "v3d_qpu_float32_unpack_pack v = Inr ub"
  shows "add_unpack_modifiers x (binop_opcode base (enum_value v3d_qpu_output_pack_list p) ua ub) mb h0
    = Inr (h0\<lparr>output_pack := p, a_unpack := u, b_unpack := v\<rparr>)"
  using x u binop_fields [OF base output_pack_value_bound [of p]
      float32_unpack_pack_bound [OF u(1)] float32_unpack_pack_bound [OF u(2)]]
  by (simp add: add_unpack_modifiers_def output_pack.decode_value)

lemma binop_op:
  assumes base: "(base, x) \<in> {(0, V3D_QPU_A_FADD), (64, V3D_QPU_A_FSUB), (128, V3D_QPU_A_FMIN), (192, V3D_QPU_A_FCMP)}"
    and u: "v3d_qpu_float32_unpack_pack u = Inr ua" "v3d_qpu_float32_unpack_pack v = Inr ub"
  shows "add_unpack_op (binop_opcode base (enum_value v3d_qpu_output_pack_list p) ua ub)
      (enum_value v3d_qpu_mux_list a) (enum_value v3d_qpu_mux_list b) wa =
    Inr (if ub * 8 + enum_value v3d_qpu_mux_list b < ua * 8 + enum_value v3d_qpu_mux_list a
         then (if x = V3D_QPU_A_FMIN then V3D_QPU_A_FMAX
               else if x = V3D_QPU_A_FADD then V3D_QPU_A_FADDNF else x) else x)"
    and "unat (binop_opcode base (enum_value v3d_qpu_output_pack_list p) ua ub) < 256"
proof -
  let ?o = "binop_opcode base (enum_value v3d_qpu_output_pack_list p) ua ub"
  have b: "base \<in> {0, 64, 128, 192}" using base by auto
  note f = binop_fields [OF b output_pack_value_bound [of p]
      float32_unpack_pack_bound [OF u(1)] float32_unpack_pack_bound [OF u(2)]]
  have ub: "unat base + 47 \<le> 239" using base by auto
  then have le: "unat ?o < 245" using f(5) by linarith
  then show "unat ?o < 256" by simp
  have r: "unat base \<le> unat ?o \<and> unat ?o \<le> unat base + 47" using f(4,5) by simp
  have "map_option desc_op (lookup_opcode add_ops ?o (enum_value v3d_qpu_mux_list a)
      (enum_value v3d_qpu_mux_list b)) = Some x"
    using base r lookup_fadd [of ?o a b] lookup_fsub [of ?o a b] lookup_fmin [of ?o a b]
      lookup_fcmp [of ?o a b]
    by (auto simp del: map_option_eq_Some)
  then show "add_unpack_op ?o (enum_value v3d_qpu_mux_list a) (enum_value v3d_qpu_mux_list b) wa =
    Inr (if ub * 8 + enum_value v3d_qpu_mux_list b < ua * 8 + enum_value v3d_qpu_mux_list a
         then (if x = V3D_QPU_A_FMIN then V3D_QPU_A_FMAX
               else if x = V3D_QPU_A_FADD then V3D_QPU_A_FADDNF else x) else x)"
    using add_unpack_op_lookup [of ?o _ _ x] add_map_op_small [OF le] base f(2,3) by auto
qed

lemma Inr_if: "(if c then Inr a else Inr b) = Inr r \<longleftrightarrow> r = (if c then a else b)"
  by auto

lemma find_desc_binop:
  assumes "x \<in> float32_binops" "find_desc add_ops x = Inr d"
  shows "opcode_first d = (if x \<in> {V3D_QPU_A_FADD, V3D_QPU_A_FADDNF} then 0
     else if x = V3D_QPU_A_FSUB then 64 else if x = V3D_QPU_A_FCMP then 192 else 128)"
  using assms by (auto simp: add_ops_def desc_def)

lemma num_src_binop: "x \<in> float32_binops \<Longrightarrow> v3d_qpu_add_op_num_src x = 2"
  by (auto simp: v3d_qpu_add_op_num_src_def)

lemma binop_decodes:
  assumes x: "alu_op h \<in> float32_binops" and d: "find_desc add_ops (alu_op h) = Inr d"
    and pk: "add_pack_opcode h (ucast (opcode_first d)) (enum_value v3d_qpu_mux_list (mux_a h))
       (enum_value v3d_qpu_mux_list (mux_b h)) = Inr (opc, ma, mb)"
    and enc: "add_encodable h"
  shows "add_decodes h opc ma mb"
proof -
  let ?a = "enum_value v3d_qpu_mux_list (mux_a h)" and ?b = "enum_value v3d_qpu_mux_list (mux_b h)"
  let ?p = "enum_value v3d_qpu_output_pack_list (output_pack h)"
  define base :: u32 where "base = ucast (opcode_first d)"
  define y where "y = (if alu_op h = V3D_QPU_A_FADDNF then V3D_QPU_A_FADD
    else if alu_op h = V3D_QPU_A_FMAX then V3D_QPU_A_FMIN else alu_op h)"
  have base: "(base, y) \<in> {(0, V3D_QPU_A_FADD), (64, V3D_QPU_A_FSUB), (128, V3D_QPU_A_FMIN), (192, V3D_QPU_A_FCMP)}"
    using x find_desc_binop [OF x d] by (auto simp: base_def y_def)
  then have b: "base \<in> {0, 64, 128, 192}" by auto
  have "\<exists>ua ub. v3d_qpu_float32_unpack_pack (a_unpack h) = Inr ua \<and>
      v3d_qpu_float32_unpack_pack (b_unpack h) = Inr ub \<and>
      (opc, ma, mb) = (if add_pack_swap (alu_op h) ua ?a ub ?b
       then (binop_opcode base ?p ub ua, ?b, ?a) else (binop_opcode base ?p ua ub, ?a, ?b))"
    using pk unfolding add_pack_opcode_def Let_def if_P [OF x] base_def [symmetric]
    by (simp only: float32_pack_pack bindR_simps bindR_Inr_iff Inr_if binop_opcode_def or.assoc) blast
  then obtain ua ub where u: "v3d_qpu_float32_unpack_pack (a_unpack h) = Inr ua"
      "v3d_qpu_float32_unpack_pack (b_unpack h) = Inr ub"
    and r: "(opc, ma, mb) = (if add_pack_swap (alu_op h) ua ?a ub ?b
       then (binop_opcode base ?p ub ua, ?b, ?a) else (binop_opcode base ?p ua ub, ?a, ?b))"
    by blast
  define A where "A = ua * 8 + ?a"
  define B where "B = ub * 8 + ?b"
  have ne: "A \<noteq> B" if "alu_op h \<in> {V3D_QPU_A_FADDNF, V3D_QPU_A_FMAX}"
  proof
    assume "A = B"
    then have "a_unpack h = b_unpack h \<and> mux_a h = mux_b h"
      unfolding A_def B_def by (rule key_eq [OF u])
    with enc that show False by (simp add: add_encodable_def)
  qed
  have swap: "add_pack_swap (alu_op h) ua ?a ub ?b \<longleftrightarrow>
      (alu_op h = V3D_QPU_A_FMIN \<or> alu_op h = V3D_QPU_A_FADD) \<and> B < A \<or>
      (alu_op h = V3D_QPU_A_FMAX \<or> alu_op h = V3D_QPU_A_FADDNF) \<and> \<not> B < A"
    unfolding add_pack_swap_def Let_def A_def B_def ..
  show ?thesis
  proof (cases "add_pack_swap (alu_op h) ua ?a ub ?b")
    case True
    then have c: "alu_op h \<in> commutative_ops" by (auto simp: swap)
    have e: "opc = binop_opcode base ?p ub ua" "ma = ?b" "mb = ?a" using True r by simp_all
    have op: "add_unpack_op opc ma mb wa = Inr (alu_op h)" for wa
      using True c ne unfolding swap e binop_op(1) [OF base u(2,1)] A_def [symmetric] B_def [symmetric]
      by (auto simp: y_def)
    have md: "add_unpack_modifiers (alu_op h) opc mb h0 =
        Inr (h0\<lparr>output_pack := output_pack h, a_unpack := b_unpack h, b_unpack := a_unpack h\<rparr>)" for h0
      unfolding e by (rule binop_modifiers [OF x b u(2,1)])
    show ?thesis unfolding add_decodes_def op md
      using e c num_src_binop [OF x] binop_op(2) [OF base u(2,1), of "output_pack h"]
      by (auto simp: same_add_def operands_def)
  next
    case False
    have e: "opc = binop_opcode base ?p ua ub" "ma = ?a" "mb = ?b" using False r by simp_all
    have op: "add_unpack_op opc ma mb wa = Inr (alu_op h)" for wa
      using False x ne unfolding swap e binop_op(1) [OF base u] A_def [symmetric] B_def [symmetric]
      by (auto simp: y_def)
    have md: "add_unpack_modifiers (alu_op h) opc mb h0 =
        Inr (h0\<lparr>output_pack := output_pack h, a_unpack := a_unpack h, b_unpack := b_unpack h\<rparr>)" for h0
      unfolding e by (rule binop_modifiers [OF x b u])
    show ?thesis unfolding add_decodes_def op md
      using e num_src_binop [OF x] binop_op(2) [OF base u, of "output_pack h"]
      by (auto simp: same_add_def operands_def)
  qed
qed

lemma desc_simps [simp]:
  "opcode_first (desc f l mb ma x) = f" "opcode_last (desc f l mb ma x) = l"
  "mux_b_mask (desc f l mb ma x) = mb" "mux_a_mask (desc f l mb ma x) = ma"
  "desc_op (desc f l mb ma x) = x"
  by (simp_all add: desc_def)

lemma lookup_closed:
  "map_option desc_op (lookup_opcode add_ops 245 (enum_value v3d_qpu_mux_list a) 0) = Some V3D_QPU_A_FROUND"
  "map_option desc_op (lookup_opcode add_ops 245 (enum_value v3d_qpu_mux_list a) 1) = Some V3D_QPU_A_FROUND"
  "map_option desc_op (lookup_opcode add_ops 245 (enum_value v3d_qpu_mux_list a) 2) = Some V3D_QPU_A_FROUND"
  "map_option desc_op (lookup_opcode add_ops 245 (enum_value v3d_qpu_mux_list a) 3) = Some V3D_QPU_A_FTOIN"
  "map_option desc_op (lookup_opcode add_ops 245 (enum_value v3d_qpu_mux_list a) 4) = Some V3D_QPU_A_FTRUNC"
  "map_option desc_op (lookup_opcode add_ops 245 (enum_value v3d_qpu_mux_list a) 5) = Some V3D_QPU_A_FTRUNC"
  "map_option desc_op (lookup_opcode add_ops 245 (enum_value v3d_qpu_mux_list a) 6) = Some V3D_QPU_A_FTRUNC"
  "map_option desc_op (lookup_opcode add_ops 245 (enum_value v3d_qpu_mux_list a) 7) = Some V3D_QPU_A_FTOIZ"
  "map_option desc_op (lookup_opcode add_ops 246 (enum_value v3d_qpu_mux_list a) 0) = Some V3D_QPU_A_FFLOOR"
  "map_option desc_op (lookup_opcode add_ops 246 (enum_value v3d_qpu_mux_list a) 1) = Some V3D_QPU_A_FFLOOR"
  "map_option desc_op (lookup_opcode add_ops 246 (enum_value v3d_qpu_mux_list a) 2) = Some V3D_QPU_A_FFLOOR"
  "map_option desc_op (lookup_opcode add_ops 246 (enum_value v3d_qpu_mux_list a) 3) = Some V3D_QPU_A_FTOUZ"
  "map_option desc_op (lookup_opcode add_ops 246 (enum_value v3d_qpu_mux_list a) 4) = Some V3D_QPU_A_FCEIL"
  "map_option desc_op (lookup_opcode add_ops 246 (enum_value v3d_qpu_mux_list a) 5) = Some V3D_QPU_A_FCEIL"
  "map_option desc_op (lookup_opcode add_ops 246 (enum_value v3d_qpu_mux_list a) 6) = Some V3D_QPU_A_FCEIL"
  "map_option desc_op (lookup_opcode add_ops 246 (enum_value v3d_qpu_mux_list a) 7) = Some V3D_QPU_A_FTOC"
  "map_option desc_op (lookup_opcode add_ops 247 (enum_value v3d_qpu_mux_list a) 0) = Some V3D_QPU_A_FDX"
  "map_option desc_op (lookup_opcode add_ops 247 (enum_value v3d_qpu_mux_list a) 1) = Some V3D_QPU_A_FDX"
  "map_option desc_op (lookup_opcode add_ops 247 (enum_value v3d_qpu_mux_list a) 2) = Some V3D_QPU_A_FDX"
  "map_option desc_op (lookup_opcode add_ops 247 (enum_value v3d_qpu_mux_list a) 4) = Some V3D_QPU_A_FDY"
  "map_option desc_op (lookup_opcode add_ops 247 (enum_value v3d_qpu_mux_list a) 5) = Some V3D_QPU_A_FDY"
  "map_option desc_op (lookup_opcode add_ops 247 (enum_value v3d_qpu_mux_list a) 6) = Some V3D_QPU_A_FDY"
  "map_option desc_op (lookup_opcode add_ops 176 (enum_value v3d_qpu_mux_list a) (enum_value v3d_qpu_mux_list b)) = Some V3D_QPU_A_VFMIN"
  "map_option desc_op (lookup_opcode add_ops 177 (enum_value v3d_qpu_mux_list a) (enum_value v3d_qpu_mux_list b)) = Some V3D_QPU_A_VFMIN"
  "map_option desc_op (lookup_opcode add_ops 178 (enum_value v3d_qpu_mux_list a) (enum_value v3d_qpu_mux_list b)) = Some V3D_QPU_A_VFMIN"
  "map_option desc_op (lookup_opcode add_ops 179 (enum_value v3d_qpu_mux_list a) (enum_value v3d_qpu_mux_list b)) = Some V3D_QPU_A_VFMIN"
  "map_option desc_op (lookup_opcode add_ops 180 (enum_value v3d_qpu_mux_list a) (enum_value v3d_qpu_mux_list b)) = Some V3D_QPU_A_VFMIN"
  "map_option desc_op (lookup_opcode add_ops 240 (enum_value v3d_qpu_mux_list a) (enum_value v3d_qpu_mux_list b)) = Some V3D_QPU_A_VFMAX"
  "map_option desc_op (lookup_opcode add_ops 241 (enum_value v3d_qpu_mux_list a) (enum_value v3d_qpu_mux_list b)) = Some V3D_QPU_A_VFMAX"
  "map_option desc_op (lookup_opcode add_ops 242 (enum_value v3d_qpu_mux_list a) (enum_value v3d_qpu_mux_list b)) = Some V3D_QPU_A_VFMAX"
  "map_option desc_op (lookup_opcode add_ops 243 (enum_value v3d_qpu_mux_list a) (enum_value v3d_qpu_mux_list b)) = Some V3D_QPU_A_VFMAX"
  "map_option desc_op (lookup_opcode add_ops 244 (enum_value v3d_qpu_mux_list a) (enum_value v3d_qpu_mux_list b)) = Some V3D_QPU_A_VFMAX"
  by (simp_all add: add_ops_def desc_def)

lemma ffs_eval [simp]:
  "ffs 1 = 1" "ffs 2 = 2" "ffs 4 = 3" "ffs 8 = 4" "ffs 16 = 5" "ffs 32 = 6" "ffs 64 = 7"
  "ffs 128 = 8" "ffs 7 = 1" "ffs 112 = 5" "ffs 15 = 1" "ffs (MUX_MASK 0 7) = 1"
  by (simp_all add: ffs_def MUX_MASK_def numeral_eq_Suc)

definition round_base :: "v3d_qpu_add_op \<Rightarrow> u32 \<times> u32" where
  "round_base x = (case x of
      V3D_QPU_A_FROUND \<Rightarrow> (245, 0) | V3D_QPU_A_FTOIN \<Rightarrow> (245, 3) | V3D_QPU_A_FTRUNC \<Rightarrow> (245, 4)
    | V3D_QPU_A_FTOIZ \<Rightarrow> (245, 7) | V3D_QPU_A_FFLOOR \<Rightarrow> (246, 0) | V3D_QPU_A_FTOUZ \<Rightarrow> (246, 3)
    | V3D_QPU_A_FCEIL \<Rightarrow> (246, 4) | V3D_QPU_A_FTOC \<Rightarrow> (246, 7) | V3D_QPU_A_FDX \<Rightarrow> (247, 0)
    | V3D_QPU_A_FDY \<Rightarrow> (247, 4) | _ \<Rightarrow> (0, 0))"

lemma find_desc_round:
  assumes "x \<in> float32_roundops \<union> float32_convops" "find_desc add_ops x = Inr d"
  shows "ucast (opcode_first d) = fst (round_base x)"
    "of_nat (ffs (mux_b_mask d) - 1) = snd (round_base x)"
  using assms by (auto simp: add_ops_def desc_def round_base_def)

lemma num_src_round: "x \<in> float32_roundops \<union> float32_convops \<Longrightarrow> v3d_qpu_add_op_num_src x = 1"
  by (auto simp: v3d_qpu_add_op_num_src_def)

lemma add_map_round:
  "base \<in> {245, 246, 247} \<Longrightarrow> ua \<in> {1, 3} \<Longrightarrow> add_map_op (base OR push_bit 2 ua) = base"
  by (auto simp: add_map_op_def)

lemma round_base_range:
  "x \<in> float32_roundops \<union> float32_convops \<Longrightarrow> fst (round_base x) \<in> {245, 246, 247}"
  by (auto simp: round_base_def)

lemma round_lookup:
  assumes "x \<in> float32_roundops" "k \<in> {0, 1, 2}"
  shows "map_option desc_op (lookup_opcode add_ops (fst (round_base x))
      (enum_value v3d_qpu_mux_list a) (snd (round_base x) OR k)) = Some x"
  using assms
  by (elim insertE emptyE; simp only: round_base_def v3d_qpu_add_op.case fst_conv snd_conv;
      simp add: lookup_closed del: map_option_eq_Some)

lemma conv_lookup:
  assumes "x \<in> float32_convops"
  shows "map_option desc_op (lookup_opcode add_ops (fst (round_base x))
      (enum_value v3d_qpu_mux_list a) (snd (round_base x))) = Some x"
  using assms
  by (elim insertE emptyE; simp only: round_base_def v3d_qpu_add_op.case fst_conv snd_conv;
      simp add: lookup_closed del: map_option_eq_Some)

lemma round_fields:
  assumes "base \<in> {245, 246, 247}" "ua \<in> {1, 3 :: u32}"
  shows "drop_bit 2 (base OR push_bit 2 ua) AND 3 = ua"
    "unat (base OR push_bit 2 ua) < 256"
  using assms by auto

lemma round_mux:
  assumes "x \<in> float32_roundops" "k \<in> {0, 1, 2}"
  shows "(snd (round_base x) OR k) AND 3 = k" "unat (snd (round_base x) OR k) < 8"
  using assms by (elim insertE emptyE; simp add: round_base_def)+

lemma conv_mux: "x \<in> float32_convops \<Longrightarrow> unat (snd (round_base x)) < 8"
  by (auto simp: round_base_def)

lemma mux_of_value: "unat v < 8 \<Longrightarrow> \<exists>b. v = enum_value v3d_qpu_mux_list b"
proof -
  assume "unat v < 8"
  moreover have "length v3d_qpu_mux_list = 8" by (simp add: v3d_qpu_mux_list_def)
  ultimately have "enum_decode v3d_qpu_mux_list v = Inr (v3d_qpu_mux_list ! unat v)"
    by (simp add: enum_decode_def)
  from mux.value_decode [OF this] show ?thesis by (intro exI) (rule sym)
qed

lemma round_decodes:
  assumes x: "alu_op h \<in> float32_roundops" and d: "find_desc add_ops (alu_op h) = Inr d"
    and mx: "pack_muxes (v3d_qpu_add_op_num_src (alu_op h)) d (enum_value v3d_qpu_mux_list (mux_a h))
       (enum_value v3d_qpu_mux_list (mux_b h)) = (ma0, mb0)"
    and pk: "add_pack_opcode h (ucast (opcode_first d)) ma0 mb0 = Inr (opc, ma, mb)"
    and enc: "add_encodable h"
  shows "add_decodes h opc ma mb"
proof -
  let ?k = "enum_value v3d_qpu_output_pack_list (output_pack h)"
  have x': "alu_op h \<in> float32_roundops \<union> float32_convops" using x by blast
  have nb: "alu_op h \<notin> float32_binops" using x by auto
  note rb = find_desc_round [OF x' d]
  have m0: "ma0 = enum_value v3d_qpu_mux_list (mux_a h)" "mb0 = snd (round_base (alu_op h))"
    using mx num_src_round [OF x'] rb by (auto simp: pack_muxes_def)
  obtain ua where u: "v3d_qpu_float32_unpack_pack (a_unpack h) = Inr ua" "ua \<noteq> 0"
    and e: "opc = fst (round_base (alu_op h)) OR push_bit 2 ua" "ma = ma0" "mb = mb0 OR ?k"
    using pk rb unfolding add_pack_opcode_def Let_def if_not_P [OF nb] if_P [OF x]
    by (auto simp: bindR_Inr_iff)
  have ua: "ua \<in> {1, 3}"
    using u enc x by (cases "a_unpack h") (auto simp: v3d_qpu_float32_unpack_pack_def add_encodable_def)
  note base = round_base_range [OF x']
  note k = output_pack_value_bound [of "output_pack h"]
  have look: "map_option desc_op (lookup_opcode add_ops (add_map_op opc) ma mb) = Some (alu_op h)"
    unfolding e m0 add_map_round [OF base ua] by (rule round_lookup [OF x k])
  have op: "add_unpack_op opc ma mb wa = Inr (alu_op h)" for wa
    by (rule add_unpack_op_plain [OF look]) (use x in auto)
  have md: "add_unpack_modifiers (alu_op h) opc mb h0 =
      Inr (h0\<lparr>output_pack := output_pack h, a_unpack := a_unpack h\<rparr>)" for h0
    using x nb u round_fields [OF base ua] round_mux [OF x k] e m0
    by (simp add: add_unpack_modifiers_def output_pack.decode_value)
  obtain b where "mb = enum_value v3d_qpu_mux_list b"
    using mux_of_value round_mux(2) [OF x k] e m0 by metis
  then show ?thesis unfolding add_decodes_def op md
    using e m0 round_fields(2) [OF base ua] num_src_round [OF x'] x
    by (auto simp: same_add_def operands_def)
qed

lemma conv_decodes:
  assumes x: "alu_op h \<in> float32_convops" and d: "find_desc add_ops (alu_op h) = Inr d"
    and mx: "pack_muxes (v3d_qpu_add_op_num_src (alu_op h)) d (enum_value v3d_qpu_mux_list (mux_a h))
       (enum_value v3d_qpu_mux_list (mux_b h)) = (ma0, mb0)"
    and pk: "add_pack_opcode h (ucast (opcode_first d)) ma0 mb0 = Inr (opc, ma, mb)"
    and enc: "add_encodable h"
  shows "add_decodes h opc ma mb"
proof -
  have x': "alu_op h \<in> float32_roundops \<union> float32_convops" using x by blast
  have nb: "alu_op h \<notin> float32_binops" "alu_op h \<notin> float32_roundops" using x by auto
  note rb = find_desc_round [OF x' d]
  have m0: "ma0 = enum_value v3d_qpu_mux_list (mux_a h)" "mb0 = snd (round_base (alu_op h))"
    using mx num_src_round [OF x'] rb by (auto simp: pack_muxes_def)
  obtain ua where u: "v3d_qpu_float32_unpack_pack (a_unpack h) = Inr ua" "ua \<noteq> 0"
    and e: "opc = fst (round_base (alu_op h)) OR push_bit 2 ua" "ma = ma0" "mb = mb0"
    and o: "output_pack h = V3D_QPU_PACK_NONE"
    using pk rb unfolding add_pack_opcode_def Let_def if_not_P [OF nb(1)] if_not_P [OF nb(2)] if_P [OF x]
    by (auto simp: bindR_Inr_iff)
  have ua: "ua \<in> {1, 3}"
    using u enc x by (cases "a_unpack h") (auto simp: v3d_qpu_float32_unpack_pack_def add_encodable_def)
  note base = round_base_range [OF x']
  have look: "map_option desc_op (lookup_opcode add_ops (add_map_op opc) ma mb) = Some (alu_op h)"
    unfolding e m0 add_map_round [OF base ua] by (rule conv_lookup [OF x])
  have op: "add_unpack_op opc ma mb wa = Inr (alu_op h)" for wa
    by (rule add_unpack_op_plain [OF look]) (use x in auto)
  have md: "add_unpack_modifiers (alu_op h) opc mb h0 =
      Inr (h0\<lparr>output_pack := output_pack h, a_unpack := a_unpack h\<rparr>)" for h0
    using x nb u round_fields [OF base ua] e m0 o
    by (simp add: add_unpack_modifiers_def)
  obtain b where "mb = enum_value v3d_qpu_mux_list b"
    using mux_of_value conv_mux [OF x] e m0 by metis
  then show ?thesis unfolding add_decodes_def op md
    using e m0 round_fields(2) [OF base ua] num_src_round [OF x'] x
    by (auto simp: same_add_def operands_def)
qed

subsection \<open>Vector minimum and maximum\<close>

lemma find_desc_float16:
  assumes "x \<in> float16_binops" "find_desc add_ops x = Inr d"
  shows "ucast (opcode_first d) = (if x = V3D_QPU_A_VFMIN then 176 else 240 :: u32)"
  using assms by (auto simp: add_ops_def desc_def)

lemma float16_cases:
  assumes "v3d_qpu_float16_unpack_pack u = Inr ua"
  shows "ua \<in> {0, 1, 2, 3, 4}"
  using assms by (cases u) (simp_all add: v3d_qpu_float16_unpack_pack_def)

lemma vfmin_opcode:
  assumes "ua \<in> {0, 1, 2, 3, 4 :: u32}"
  shows "176 OR ua \<in> {176, 177, 178, 179, 180}" "(176 OR ua) AND 7 = ua"
    "240 OR ua \<in> {240, 241, 242, 243, 244}" "(240 OR ua) AND 7 = ua"
  using assms by auto

lemma lookup_vfmin:
  assumes "opc \<in> {176, 177, 178, 179, 180}"
  shows "map_option desc_op (lookup_opcode add_ops (add_map_op opc)
      (enum_value v3d_qpu_mux_list a) (enum_value v3d_qpu_mux_list b)) = Some V3D_QPU_A_VFMIN"
  using assms
  by (elim insertE emptyE; simp only:; simp add: add_map_op_def lookup_closed del: map_option_eq_Some)

lemma lookup_vfmax:
  assumes "opc \<in> {240, 241, 242, 243, 244}"
  shows "map_option desc_op (lookup_opcode add_ops (add_map_op opc)
      (enum_value v3d_qpu_mux_list a) (enum_value v3d_qpu_mux_list b)) = Some V3D_QPU_A_VFMAX"
  using assms
  by (elim insertE emptyE; simp only:; simp add: add_map_op_def lookup_closed del: map_option_eq_Some)

lemma float16_lookup:
  assumes "x \<in> float16_binops" "v3d_qpu_float16_unpack_pack u = Inr ua"
  defines "opc \<equiv> (if x = V3D_QPU_A_VFMIN then 176 else 240) OR ua"
  shows "map_option desc_op (lookup_opcode add_ops (add_map_op opc)
       (enum_value v3d_qpu_mux_list a) (enum_value v3d_qpu_mux_list b)) = Some x"
    and "opc AND 7 = ua" and "unat opc < 256"
proof -
  note o = vfmin_opcode [OF float16_cases [OF assms(2)]]
  show "opc AND 7 = ua" unfolding opc_def using o by simp
  have "opc = 176 OR ua \<or> opc = 240 OR ua" by (simp add: opc_def)
  then have r: "opc \<in> {176, 177, 178, 179, 180} \<or> opc \<in> {240, 241, 242, 243, 244}"
    using o(1,3) by (elim disjE; simp only: simp_thms)
  show "unat opc < 256" using r by auto
  show "map_option desc_op (lookup_opcode add_ops (add_map_op opc)
       (enum_value v3d_qpu_mux_list a) (enum_value v3d_qpu_mux_list b)) = Some x"
  proof (cases "x = V3D_QPU_A_VFMIN")
    case True
    then show ?thesis using lookup_vfmin [OF o(1)] by (simp add: opc_def del: map_option_eq_Some)
  next
    case False
    then show ?thesis using assms(1) lookup_vfmax [OF o(3)] by (simp add: opc_def del: map_option_eq_Some)
  qed
qed

lemma float16_decodes:
  assumes x: "alu_op h \<in> float16_binops" and d: "find_desc add_ops (alu_op h) = Inr d"
    and mx: "pack_muxes (v3d_qpu_add_op_num_src (alu_op h)) d (enum_value v3d_qpu_mux_list (mux_a h))
       (enum_value v3d_qpu_mux_list (mux_b h)) = (ma0, mb0)"
    and pk: "add_pack_opcode h (ucast (opcode_first d)) ma0 mb0 = Inr (opc, ma, mb)"
  shows "add_decodes h opc ma mb"
proof -
  have nb: "alu_op h \<notin> float32_binops" "alu_op h \<notin> float32_roundops" "alu_op h \<notin> float32_convops"
    using x by auto
  have n2: "v3d_qpu_add_op_num_src (alu_op h) = 2"
    using x by (auto simp: v3d_qpu_add_op_num_src_def)
  have m0: "ma0 = enum_value v3d_qpu_mux_list (mux_a h)" "mb0 = enum_value v3d_qpu_mux_list (mux_b h)"
    using mx n2 by (auto simp: pack_muxes_def)
  obtain ua where u: "v3d_qpu_float16_unpack_pack (a_unpack h) = Inr ua"
    and e: "opc = (if alu_op h = V3D_QPU_A_VFMIN then 176 else 240) OR ua" "ma = ma0" "mb = mb0"
    and o: "output_pack h = V3D_QPU_PACK_NONE" "b_unpack h = V3D_QPU_UNPACK_NONE"
    using pk unfolding add_pack_opcode_def Let_def if_not_P [OF nb(1)] if_not_P [OF nb(2)]
      if_not_P [OF nb(3)] if_P [OF x] find_desc_float16 [OF x d]
    by (auto simp: bindR_Inr_iff)
  note l = float16_lookup [OF x u, folded e(1)]
  have op: "add_unpack_op opc ma mb wa = Inr (alu_op h)" for wa
    by (rule add_unpack_op_plain [OF l(1) [of "mux_a h" "mux_b h", folded m0, folded e(2,3)]]) (use x in auto)
  have md: "add_unpack_modifiers (alu_op h) opc mb h0 =
      Inr (h0\<lparr>a_unpack := a_unpack h, output_pack := V3D_QPU_PACK_NONE, b_unpack := V3D_QPU_UNPACK_NONE\<rparr>)" for h0
    using x nb u l(2) by (simp add: add_unpack_modifiers_def)
  show ?thesis unfolding add_decodes_def op md
    using e m0 o l(3) n2 x by (auto simp: same_add_def operands_def)
qed

subsection \<open>Operations without modifiers\<close>

abbreviation modifier_ops :: "v3d_qpu_add_op set" where
  "modifier_ops \<equiv> float32_binops \<union> float32_roundops \<union> float32_convops \<union> float16_binops"

definition add_lookup_ok :: "v3d_qpu_add_op \<Rightarrow> v3d_qpu_mux \<Rightarrow> v3d_qpu_mux \<Rightarrow> bool" where
  "add_lookup_ok x a b \<longleftrightarrow>
    (case find_desc add_ops x of Inl _ \<Rightarrow> True | Inr d \<Rightarrow>
     (case pack_muxes (v3d_qpu_add_op_num_src x) d (enum_value v3d_qpu_mux_list a)
        (enum_value v3d_qpu_mux_list b) of (ma, mb) \<Rightarrow>
      map_option desc_op (lookup_opcode add_ops (add_map_op (ucast (opcode_first d))) ma mb) =
        Some (if x \<in> {V3D_QPU_A_STVPMD, V3D_QPU_A_STVPMP} then V3D_QPU_A_STVPMV else x) \<and>
      unat ma < 8 \<and> unat mb < 8))"

lemma add_lookup_ok: "x \<notin> modifier_ops \<Longrightarrow> add_lookup_ok x a b"
  by (cases x) (simp_all add: add_lookup_ok_def table_eval add_map_op_def unat_mux_less)

lemma num_src_nop: "v3d_qpu_add_op_num_src V3D_QPU_A_NOP = 0"
  by (simp add: v3d_qpu_add_op_num_src_def)

lemma unat_ucast_u8: "unat (ucast (x :: u8) :: u32) < 256"
proof -
  have "take_bit 32 (unat x) \<le> unat x" by (rule take_bit_nat_less_eq_self)
  also have "unat x < 256" using unsigned_less [of x, where 'a = nat] by simp
  finally show ?thesis by (simp add: unsigned_ucast_eq)
qed

lemma stvpm_op:
  assumes "map_option desc_op (lookup_opcode add_ops (add_map_op opc) ma mb) = Some V3D_QPU_A_STVPMV"
    and "x \<in> {V3D_QPU_A_STVPMV, V3D_QPU_A_STVPMD, V3D_QPU_A_STVPMP}"
  shows "add_unpack_op opc ma mb (ucast (add_pack_waddr x w)) = Inr x"
  using assms by (auto simp: add_unpack_op_def Let_def add_pack_waddr_def)

lemma default_modifiers:
  "x \<notin> modifier_ops \<Longrightarrow> add_unpack_modifiers x opc mb h0 =
    Inr (h0\<lparr>output_pack := V3D_QPU_PACK_NONE, a_unpack := V3D_QPU_UNPACK_NONE,
            b_unpack := V3D_QPU_UNPACK_NONE\<rparr>)"
  unfolding add_unpack_modifiers_def by simp

lemma default_decodes:
  assumes x: "alu_op h \<notin> modifier_ops" and d: "find_desc add_ops (alu_op h) = Inr d"
    and mx: "pack_muxes (v3d_qpu_add_op_num_src (alu_op h)) d (enum_value v3d_qpu_mux_list (mux_a h))
       (enum_value v3d_qpu_mux_list (mux_b h)) = (ma0, mb0)"
    and pk: "add_pack_opcode h (ucast (opcode_first d)) ma0 mb0 = Inr (opc, ma, mb)"
  shows "add_decodes h opc ma mb"
proof -
  have nb: "alu_op h \<notin> float32_binops" "alu_op h \<notin> float32_roundops" "alu_op h \<notin> float32_convops"
    "alu_op h \<notin> float16_binops" using x by simp_all
  have e: "opc = ucast (opcode_first d)" "ma = ma0" "mb = mb0"
    and nop: "alu_op h = V3D_QPU_A_NOP \<or> output_pack h = V3D_QPU_PACK_NONE \<and>
      a_unpack h = V3D_QPU_UNPACK_NONE \<and> b_unpack h = V3D_QPU_UNPACK_NONE"
    using pk unfolding add_pack_opcode_def Let_def if_not_P [OF nb(1)] if_not_P [OF nb(2)]
      if_not_P [OF nb(3)] if_not_P [OF nb(4)] by (auto simp: bindR_Inr_iff)
  have look: "map_option desc_op (lookup_opcode add_ops (add_map_op opc) ma mb) =
      Some (if alu_op h \<in> {V3D_QPU_A_STVPMD, V3D_QPU_A_STVPMP} then V3D_QPU_A_STVPMV else alu_op h)"
    and m8: "unat ma < 8" "unat mb < 8"
    using add_lookup_ok [OF x, of "mux_a h" "mux_b h"] unfolding add_lookup_ok_def d sum.case mx prod.case e
    by (simp_all del: map_option_eq_Some)
  have op: "add_unpack_op opc ma mb (ucast (add_pack_waddr (alu_op h) w)) = Inr (alu_op h)" for w
  proof (cases "alu_op h \<in> {V3D_QPU_A_STVPMV, V3D_QPU_A_STVPMD, V3D_QPU_A_STVPMP}")
    case True
    then have "map_option desc_op (lookup_opcode add_ops (add_map_op opc) ma mb) = Some V3D_QPU_A_STVPMV"
      unfolding look by auto
    then show ?thesis by (rule stvpm_op [OF _ True])
  next
    case False
    then have "map_option desc_op (lookup_opcode add_ops (add_map_op opc) ma mb) = Some (alu_op h)"
      unfolding look by auto
    then show ?thesis by (rule add_unpack_op_plain) (use False nb in auto)
  qed
  obtain a b where ab: "ma = enum_value v3d_qpu_mux_list a" "mb = enum_value v3d_qpu_mux_list b"
    using m8 mux_of_value by metis
  have n: "n = 0 \<or> n = 1 \<or> n = 2" if "n = v3d_qpu_add_op_num_src (alu_op h)" for n
    unfolding that by (simp add: v3d_qpu_add_op_num_src_def Let_def)
  have "operands (v3d_qpu_add_op_num_src (alu_op h)) h =
     operands (v3d_qpu_add_op_num_src (alu_op h)) (h1\<lparr>output_pack := V3D_QPU_PACK_NONE, a_unpack := V3D_QPU_UNPACK_NONE,
            b_unpack := V3D_QPU_UNPACK_NONE, alu_op := alu_op h, mux_a := a, mux_b := b\<rparr>)" for h1
    using n [OF refl] nop mx e ab
    by (auto simp: operands_def pack_muxes_def mux.value_inj num_src_nop)
  then have "same_add h (h1\<lparr>output_pack := V3D_QPU_PACK_NONE, a_unpack := V3D_QPU_UNPACK_NONE,
            b_unpack := V3D_QPU_UNPACK_NONE, alu_op := alu_op h, mux_a := a, mux_b := b\<rparr>)" for h1
    unfolding same_add_def Let_def using nop by auto
  moreover have "unat opc < 256" unfolding e by (rule unat_ucast_u8)
  ultimately show ?thesis unfolding add_decodes_def op default_modifiers [OF x] using ab by blast
qed

lemma add_pack_decodes:
  assumes d: "find_desc add_ops (alu_op h) = Inr d"
    and mx: "pack_muxes (v3d_qpu_add_op_num_src (alu_op h)) d (enum_value v3d_qpu_mux_list (mux_a h))
       (enum_value v3d_qpu_mux_list (mux_b h)) = (ma0, mb0)"
    and pk: "add_pack_opcode h (ucast (opcode_first d)) ma0 mb0 = Inr (opc, ma, mb)"
    and enc: "add_encodable h"
  shows "add_decodes h opc ma mb"
proof -
  consider "alu_op h \<in> float32_binops" | "alu_op h \<in> float32_roundops" | "alu_op h \<in> float32_convops"
    | "alu_op h \<in> float16_binops" | "alu_op h \<notin> modifier_ops" by blast
  then show ?thesis
  proof cases
    case 1
    have "ma0 = enum_value v3d_qpu_mux_list (mux_a h)" "mb0 = enum_value v3d_qpu_mux_list (mux_b h)"
      using mx num_src_binop [OF 1] by (simp_all add: pack_muxes_def)
    then show ?thesis using binop_decodes [OF 1 d _ enc] pk by blast
  qed (rule round_decodes [OF _ d mx pk enc] conv_decodes [OF _ d mx pk enc]
      float16_decodes [OF _ d mx pk] default_decodes [OF _ d mx pk]; assumption)+
qed

section \<open>The multiply half\<close>

text \<open>
  \<open>v3d_qpu_mul_pack\<close> looks at the modifiers of \<open>FMUL\<close> and \<open>FMOV\<close> only; for the other
  operations it drops them, so they are encodable when they are absent.
\<close>

definition mul_encodable :: "v3d_qpu_mul_op v3d_qpu_alu \<Rightarrow> bool" where
  "mul_encodable h \<longleftrightarrow>
     alu_op h \<in> {V3D_QPU_M_FMUL, V3D_QPU_M_FMOV, V3D_QPU_M_NOP} \<or>
     output_pack h = V3D_QPU_PACK_NONE \<and> a_unpack h = V3D_QPU_UNPACK_NONE \<and>
     b_unpack h = V3D_QPU_UNPACK_NONE"

definition same_mul :: "v3d_qpu_mul_op v3d_qpu_alu \<Rightarrow> v3d_qpu_mul_op v3d_qpu_alu \<Rightarrow> bool" where
  "same_mul h h' \<longleftrightarrow> alu_op h' = alu_op h \<and>
     (alu_op h \<noteq> V3D_QPU_M_NOP \<longrightarrow> output_pack h' = output_pack h) \<and>
     operands (v3d_qpu_mul_op_num_src (alu_op h)) h' = operands (v3d_qpu_mul_op_num_src (alu_op h)) h"

definition mul_decodes :: "v3d_qpu_mul_op v3d_qpu_alu \<Rightarrow> u32 \<Rightarrow> u32 \<Rightarrow> u32 \<Rightarrow> bool" where
  "mul_decodes h opc ma mb \<longleftrightarrow> unat opc < 64 \<and> opc \<noteq> 0 \<and>
     (\<exists>a b. ma = enum_value v3d_qpu_mux_list a \<and> mb = enum_value v3d_qpu_mux_list b \<and>
       map_option desc_op (lookup_opcode mul_ops opc ma mb) = Some (alu_op h) \<and>
       (\<forall>h0. \<exists>h1. mul_unpack_modifiers (alu_op h) opc mb h0 = Inr h1 \<and>
          same_mul h (h1\<lparr>alu_op := alu_op h, mux_a := a, mux_b := b\<rparr>)))"

definition fmul_opcode :: "u32 \<Rightarrow> u32 \<Rightarrow> u32 \<Rightarrow> u32" where
  "fmul_opcode pk ua ub = (16 + push_bit 4 pk) OR push_bit 2 ua OR ub"

lemma fmul_fields_all:
  "\<forall>pk\<in>{0, 1, 2}. \<forall>ua\<in>{0, 1, 2, 3}. \<forall>ub\<in>{0, 1, 2, 3}.
    (drop_bit 4 (fmul_opcode pk ua ub) AND 3) - 1 = pk \<and>
    drop_bit 2 (fmul_opcode pk ua ub) AND 3 = ua \<and>
    fmul_opcode pk ua ub AND 3 = ub \<and>
    16 \<le> unat (fmul_opcode pk ua ub) \<and> unat (fmul_opcode pk ua ub) < 64"
  by (simp add: fmul_opcode_def)

lemma fmul_fields:
  assumes "pk \<in> {0, 1, 2}" "ua \<in> {0, 1, 2, 3}" "ub \<in> {0, 1, 2, 3}"
  shows "(drop_bit 4 (fmul_opcode pk ua ub) AND 3) - 1 = pk"
    "drop_bit 2 (fmul_opcode pk ua ub) AND 3 = ua"
    "fmul_opcode pk ua ub AND 3 = ub"
    "16 \<le> unat (fmul_opcode pk ua ub)" "unat (fmul_opcode pk ua ub) < 64"
  using bspec [OF bspec [OF bspec [OF fmul_fields_all assms(1)] assms(2)] assms(3)] by blast+

lemma lookup_fmul:
  "16 \<le> unat opc \<Longrightarrow> unat opc < 64 \<Longrightarrow> map_option desc_op (lookup_opcode mul_ops opc
    (enum_value v3d_qpu_mux_list a) (enum_value v3d_qpu_mux_list b)) = Some V3D_QPU_M_FMUL"
  by (simp add: mul_ops_def desc_def word_less_nat_alt)

definition mul_lookup_ok :: "v3d_qpu_mul_op \<Rightarrow> v3d_qpu_mux \<Rightarrow> v3d_qpu_mux \<Rightarrow> bool" where
  "mul_lookup_ok x a b \<longleftrightarrow>
    (case find_desc mul_ops x of Inl _ \<Rightarrow> True | Inr d \<Rightarrow>
     (case pack_muxes (v3d_qpu_mul_op_num_src x) d (enum_value v3d_qpu_mux_list a)
        (enum_value v3d_qpu_mux_list b) of (ma, mb) \<Rightarrow>
      map_option desc_op (lookup_opcode mul_ops (ucast (opcode_first d)) ma mb) = Some x \<and>
      unat ma < 8 \<and> unat mb < 8 \<and> unat (ucast (opcode_first d) :: u32) < 64 \<and>
      ucast (opcode_first d) \<noteq> (0::u32)))"

lemma mul_lookup_ok: "x \<notin> {V3D_QPU_M_FMUL, V3D_QPU_M_FMOV} \<Longrightarrow> mul_lookup_ok x a b"
  by (cases x) (simp_all add: mul_lookup_ok_def table_eval unat_mux_less)

lemma mul_table_ok:
  assumes x: "x \<notin> {V3D_QPU_M_FMUL, V3D_QPU_M_FMOV}" and d: "find_desc mul_ops x = Inr d"
    and mx: "pack_muxes (v3d_qpu_mul_op_num_src x) d (enum_value v3d_qpu_mux_list a)
       (enum_value v3d_qpu_mux_list b) = (ma, mb)"
  shows "map_option desc_op (lookup_opcode mul_ops (ucast (opcode_first d)) ma mb) = Some x"
    "unat ma < 8" "unat mb < 8" "unat (ucast (opcode_first d) :: u32) < 64"
    "ucast (opcode_first d) \<noteq> (0::u32)"
  using mul_lookup_ok [OF x, of a b] unfolding mul_lookup_ok_def d sum.case mx prod.case
  by blast+

lemma mul_default_modifiers:
  "x \<notin> {V3D_QPU_M_FMUL, V3D_QPU_M_FMOV} \<Longrightarrow> mul_unpack_modifiers x opc mb h0 =
    Inr (h0\<lparr>output_pack := V3D_QPU_PACK_NONE, a_unpack := V3D_QPU_UNPACK_NONE,
            b_unpack := V3D_QPU_UNPACK_NONE\<rparr>)"
  unfolding mul_unpack_modifiers_def by (cases x) simp_all

lemma mul_num_src: "v3d_qpu_mul_op_num_src x =
   (case x of V3D_QPU_M_NOP \<Rightarrow> 0 | V3D_QPU_M_MOV \<Rightarrow> 1 | V3D_QPU_M_FMOV \<Rightarrow> 1 | _ \<Rightarrow> 2)"
  by (cases x) (simp_all add: v3d_qpu_mul_op_num_src_def)

lemma fmul_decodes:
  assumes x: "alu_op h = V3D_QPU_M_FMUL"
    and pk: "mul_pack_opcode h 16 (enum_value v3d_qpu_mux_list (mux_b h)) = Inr (opc, mb)"
  shows "mul_decodes h opc (enum_value v3d_qpu_mux_list (mux_a h)) mb"
proof -
  obtain ua ub where u: "v3d_qpu_float32_unpack_pack (a_unpack h) = Inr ua"
      "v3d_qpu_float32_unpack_pack (b_unpack h) = Inr ub"
    and e: "opc = fmul_opcode (enum_value v3d_qpu_output_pack_list (output_pack h)) ua ub"
      "mb = enum_value v3d_qpu_mux_list (mux_b h)"
    using pk x by (auto simp: mul_pack_opcode_def bindR_Inr_iff fmul_opcode_def or.assoc)
  note f = fmul_fields [OF output_pack_value_bound float32_unpack_pack_bound [OF u(1)]
      float32_unpack_pack_bound [OF u(2)], of "output_pack h", folded e(1)]
  have "mul_unpack_modifiers V3D_QPU_M_FMUL opc mb h0 =
      Inr (h0\<lparr>output_pack := output_pack h, a_unpack := a_unpack h, b_unpack := b_unpack h\<rparr>)" for h0
    using u by (simp add: mul_unpack_modifiers_def f output_pack.decode_value)
  moreover have "opc \<noteq> 0" using f(4) by auto
  ultimately show ?thesis
    unfolding mul_decodes_def x e(2) using f(5) lookup_fmul [OF f(4,5)] x
    by (auto simp: same_mul_def operands_def mul_num_src simp del: map_option_eq_Some)
qed

lemma mux_any_255: "255 AND 2 ^ unat (enum_value v3d_qpu_mux_list m) \<noteq> (0::u32)"
  by (cases m) simp_all

lemma fmov_fields_all:
  "\<forall>pk\<in>{0, 1, 2}. \<forall>ua\<in>{0, 1, 2, 3}.
    push_bit 1 ((14 OR (drop_bit 1 pk AND 1)) AND 1)
      + (drop_bit 2 (push_bit 2 (pk AND 1) OR ua) AND 1) = (pk :: u32) \<and>
    (push_bit 2 (pk AND 1) OR ua) AND 3 = ua \<and>
    map_option desc_op (lookup_opcode mul_ops (14 OR (drop_bit 1 pk AND 1))
       (enum_value v3d_qpu_mux_list a) (push_bit 2 (pk AND 1) OR ua)) = Some V3D_QPU_M_FMOV \<and>
    unat (push_bit 2 (pk AND 1) OR ua) < 8 \<and>
    14 OR (drop_bit 1 pk AND 1) \<in> {14, 15}"
  by (simp add: mul_ops_def desc_def MUX_MASK_def mux_any_255)

lemma fmov_fields:
  assumes "pk \<in> {0, 1, 2}" "ua \<in> {0, 1, 2, 3}"
  shows "push_bit 1 ((14 OR (drop_bit 1 pk AND 1)) AND 1)
      + (drop_bit 2 (push_bit 2 (pk AND 1) OR ua) AND 1) = (pk :: u32)"
    "(push_bit 2 (pk AND 1) OR ua) AND 3 = (ua :: u32)"
    "map_option desc_op (lookup_opcode mul_ops (14 OR (drop_bit 1 pk AND 1))
       (enum_value v3d_qpu_mux_list a) (push_bit 2 (pk AND 1) OR ua)) = Some V3D_QPU_M_FMOV"
    "unat (push_bit 2 (pk AND 1) OR ua) < 8"
    "14 OR (drop_bit 1 pk AND 1) \<in> {14, 15}"
  using bspec [OF bspec [OF fmov_fields_all [of a] assms(1)] assms(2)] by blast+

lemma fmov_decodes:
  assumes x: "alu_op h = V3D_QPU_M_FMOV"
    and pk: "mul_pack_opcode h 14 mb0 = Inr (opc, mb)"
  shows "mul_decodes h opc (enum_value v3d_qpu_mux_list (mux_a h)) mb"
proof -
  let ?k = "enum_value v3d_qpu_output_pack_list (output_pack h)"
  obtain ua where u: "v3d_qpu_float32_unpack_pack (a_unpack h) = Inr ua"
    and e: "opc = 14 OR (drop_bit 1 ?k AND 1)" "mb = push_bit 2 (?k AND 1) OR ua"
    using pk x by (auto simp: mul_pack_opcode_def bindR_Inr_iff)
  note f = fmov_fields [OF output_pack_value_bound float32_unpack_pack_bound [OF u(1)],
      of "output_pack h", folded e]
  have "mul_unpack_modifiers V3D_QPU_M_FMOV opc mb h0 =
      Inr (h0\<lparr>output_pack := output_pack h, a_unpack := a_unpack h\<rparr>)" for h0
    using u unfolding mul_unpack_modifiers_def by (simp only: v3d_qpu_mul_op.case f output_pack.decode_value bindR_simps float32_unpack_inverse)
  moreover obtain b where "mb = enum_value v3d_qpu_mux_list b"
    using mux_of_value [OF f(4)] by blast
  moreover have "unat opc < 64" "opc \<noteq> 0" using f(5) by auto
  ultimately show ?thesis
    unfolding mul_decodes_def x using f(3) [of "mux_a h"] x
    by (auto simp: same_mul_def operands_def mul_num_src simp del: map_option_eq_Some)
qed

lemma mul_default_decodes:
  assumes x: "alu_op h \<notin> {V3D_QPU_M_FMUL, V3D_QPU_M_FMOV}" and d: "find_desc mul_ops (alu_op h) = Inr d"
    and mx: "pack_muxes (v3d_qpu_mul_op_num_src (alu_op h)) d (enum_value v3d_qpu_mux_list (mux_a h))
       (enum_value v3d_qpu_mux_list (mux_b h)) = (ma, mb0)"
    and pk: "mul_pack_opcode h (ucast (opcode_first d)) mb0 = Inr (opc, mb)"
    and enc: "mul_encodable h"
  shows "mul_decodes h opc ma mb"
proof -
  have e: "opc = ucast (opcode_first d)" "mb = mb0"
    using pk x by (cases "alu_op h"; simp add: mul_pack_opcode_def)+
  note t = mul_table_ok [OF x d mx, folded e]
  obtain a b where ab: "ma = enum_value v3d_qpu_mux_list a" "mb = enum_value v3d_qpu_mux_list b"
    using t(2,3) mux_of_value by metis
  have "same_mul h (h1\<lparr>output_pack := V3D_QPU_PACK_NONE, a_unpack := V3D_QPU_UNPACK_NONE,
            b_unpack := V3D_QPU_UNPACK_NONE, alu_op := alu_op h, mux_a := a, mux_b := b\<rparr>)" for h1
    using x mx enc e ab
    by (cases "alu_op h")
      (auto simp: same_mul_def operands_def pack_muxes_def mul_num_src mux.value_inj mul_encodable_def)
  then show ?thesis unfolding mul_decodes_def mul_default_modifiers [OF x] using ab t by blast
qed

lemma mul_pack_decodes:
  assumes d: "find_desc mul_ops (alu_op h) = Inr d"
    and mx: "pack_muxes (v3d_qpu_mul_op_num_src (alu_op h)) d (enum_value v3d_qpu_mux_list (mux_a h))
       (enum_value v3d_qpu_mux_list (mux_b h)) = (ma, mb0)"
    and pk: "mul_pack_opcode h (ucast (opcode_first d)) mb0 = Inr (opc, mb)"
    and enc: "mul_encodable h"
  shows "mul_decodes h opc ma mb"
proof -
  consider "alu_op h = V3D_QPU_M_FMUL" | "alu_op h = V3D_QPU_M_FMOV"
    | "alu_op h \<notin> {V3D_QPU_M_FMUL, V3D_QPU_M_FMOV}" by blast
  then show ?thesis
  proof cases
    case 1
    then have "opcode_first d = 16" using d by (auto simp: mul_ops_def desc_def)
    then show ?thesis using fmul_decodes [OF 1] mx pk 1 by (auto simp: pack_muxes_def mul_num_src)
  next
    case 2
    then have "opcode_first d = 14" using d by (auto simp: mul_ops_def desc_def)
    then show ?thesis using fmov_decodes [OF 2] mx pk 2 by (auto simp: pack_muxes_def mul_num_src)
  next
    case 3
    then show ?thesis by (rule mul_default_decodes [OF _ d mx pk enc])
  qed
qed

end
