(* ===== verification/Qpu_Roundtrip.thy ===== *)
theory Qpu_Roundtrip
  imports Qpu_Alu_Codec
begin

text \<open>
  Whole instruction words: what \<open>v3d_qpu_instr_pack\<close> writes is what
  \<open>v3d_qpu_instr_unpack\<close> reads.
\<close>

unbundle bit_operations_syntax

section \<open>Well-formed instructions and what a round trip keeps\<close>

text \<open>The addresses fit the six bits of their fields.\<close>

definition alu_fields_fit :: "v3d_qpu_instr \<Rightarrow> bool" where
  "alu_fields_fit i \<longleftrightarrow> unat (raddr_a i) < 64 \<and> unat (raddr_b i) < 64 \<and>
     unat (waddr (alu_add i)) < 64 \<and> unat (waddr (alu_mul i)) < 64"

text \<open>The operands and modifiers the encoding can express, see the two halves.\<close>

definition alu_encodable :: "v3d_qpu_instr \<Rightarrow> bool" where
  "alu_encodable i \<longleftrightarrow> add_encodable (alu_add i) \<and> mul_encodable (alu_mul i) \<and>
     \<not> ucb (sig i) \<and> \<not> rotate (sig i) \<and>
     (mc (flags i) = V3D_QPU_COND_NONE \<or> ac (flags i) \<in> {V3D_QPU_COND_NONE, V3D_QPU_COND_IFA})"

definition same_alu_instr :: "v3d_qpu_instr \<Rightarrow> v3d_qpu_instr \<Rightarrow> bool" where
  "same_alu_instr i i' \<longleftrightarrow> instr_type i' = V3D_QPU_INSTR_TYPE_ALU \<and> sig i' = sig i \<and>
     flags i' = flags i \<and> raddr_a i' = raddr_a i \<and> raddr_b i' = raddr_b i \<and>
     same_add (alu_add i) (alu_add i') \<and>
     waddr (alu_add i') = add_pack_waddr (alu_op (alu_add i)) (waddr (alu_add i)) \<and>
     magic_write (alu_add i') = magic_write (alu_add i) \<and>
     same_mul (alu_mul i) (alu_mul i') \<and> waddr (alu_mul i') = waddr (alu_mul i) \<and>
     magic_write (alu_mul i') = magic_write (alu_mul i)"

section \<open>Signals\<close>

lemma sig_index_nth:
  "sig_index xs s i = Inr p \<Longrightarrow> \<exists>k < length xs. p = i + of_nat k \<and> xs ! k = s"
proof (induction xs arbitrary: i)
  case (Cons x xs)
  show ?case
  proof (cases "x = s")
    case True
    then show ?thesis using Cons.prems by (intro exI [of _ 0]) simp
  next
    case False
    then obtain k where "k < length xs" "p = (i + 1) + of_nat k" "xs ! k = s"
      using Cons by fastforce
    then show ?thesis by (intro exI [of _ "Suc k"]) simp
  qed
qed simp

lemma sig_map_length: "length v33_sig_map = 32"
  by (simp add: v33_sig_map_def)

lemma sig_pack_index:
  assumes "v3d_qpu_sig_pack s = Inr p"
  shows "unat p < 32 \<and> v33_sig_map ! unat p = s"
proof -
  obtain k where "k < 32" "p = of_nat k" "v33_sig_map ! k = s"
    using sig_index_nth [OF assms [unfolded v3d_qpu_sig_pack_def]] sig_map_length by auto
  then show ?thesis by (simp add: unat_of_nat take_bit_nat_eq_self)
qed

lemma sig_map_byte0:
  "\<forall>s\<in>set v33_sig_map. s = no_sig \<or> ucb s \<or> rotate s \<or> sig_byte0 s \<noteq> sig_byte0 (v33_sig_map ! 0)"
  by (simp add: v33_sig_map_def no_sig_def sig_byte0_def)

lemma sig_roundtrip:
  assumes p: "v3d_qpu_sig_pack s = Inr p" and s: "\<not> ucb s" "\<not> rotate s"
  shows "v3d_qpu_sig_unpack p = Inr s" "unat p < 32"
proof -
  note i = sig_pack_index [OF p]
  then show "unat p < 32" by simp
  have m: "s \<in> set v33_sig_map" using i sig_map_length nth_mem by metis
  have "p = 0" if "s = no_sig"
    using p that by (simp add: v3d_qpu_sig_pack_def v33_sig_map_def)
  then have "p = 0 \<or> sig_byte0 s \<noteq> sig_byte0 (v33_sig_map ! 0)"
    using bspec [OF sig_map_byte0 m] s by blast
  then show "v3d_qpu_sig_unpack p = Inr s"
    using i by (simp add: v3d_qpu_sig_unpack_def sig_map_length)
qed

section \<open>The words of the two halves\<close>

definition add_word :: "u32 \<Rightarrow> u32 \<Rightarrow> u32 \<Rightarrow> u8 \<Rightarrow> bool \<Rightarrow> u64" where
  "add_word opc ma mb wa m = field_put VC5_QPU_ADD_A ma OR field_put VC5_QPU_ADD_B mb OR
     field_put VC5_QPU_OP_ADD opc OR field_put V3D_QPU_WADDR_A wa OR (if m then VC5_QPU_MA else 0)"

definition mul_word :: "u32 \<Rightarrow> u32 \<Rightarrow> u32 \<Rightarrow> u8 \<Rightarrow> bool \<Rightarrow> u64" where
  "mul_word opc ma mb wa m = field_put VC5_QPU_MUL_A ma OR field_put VC5_QPU_MUL_B mb OR
     field_put VC5_QPU_OP_MUL opc OR field_put V3D_QPU_WADDR_M wa OR (if m then VC5_QPU_MM else 0)"

lemmas field_eval = field_ok_def field_width_def

lemma add_pack_waddr_bound: "unat w < 64 \<Longrightarrow> unat (add_pack_waddr x w) < 64"
  by (simp add: add_pack_waddr_def)

lemma add_pack_word:
  assumes pk: "v3d_qpu_add_pack i w = Inr w'" and enc: "add_encodable (alu_add i)"
    and wa: "unat (waddr (alu_add i)) < 64"
  shows "\<exists>opc ma mb. add_decodes (alu_add i) opc ma mb \<and>
    w' = w OR add_word opc ma mb (add_pack_waddr (alu_op (alu_add i)) (waddr (alu_add i)))
      (magic_write (alu_add i))"
proof -
  let ?h = "alu_add i"
  obtain d where d: "find_desc add_ops (alu_op ?h) = Inr d"
    using pk by (auto simp: v3d_qpu_add_pack_def Let_def bindR_Inr_iff)
  obtain ma0 mb0 where mx: "pack_muxes (v3d_qpu_add_op_num_src (alu_op ?h)) d
      (enum_value v3d_qpu_mux_list (mux_a ?h)) (enum_value v3d_qpu_mux_list (mux_b ?h)) = (ma0, mb0)"
    by fastforce
  obtain opc ma mb where op: "add_pack_opcode ?h (ucast (opcode_first d)) ma0 mb0 = Inr (opc, ma, mb)"
    using pk d mx by (auto simp: v3d_qpu_add_pack_def Let_def bindR_Inr_iff)
  have dec: "add_decodes ?h opc ma mb" by (rule add_pack_decodes [OF d mx op enc])
  then have b: "unat opc < 256" "unat ma < 8" "unat mb < 8"
    by (auto simp: add_decodes_def unat_mux_less)
  have "w' = w OR add_word opc ma mb (add_pack_waddr (alu_op ?h) (waddr ?h)) (magic_write ?h)"
    using pk d mx op b add_pack_waddr_bound [OF wa]
    by (auto simp: v3d_qpu_add_pack_def Let_def or_field_ok field_eval add_word_def or.assoc)
  then show ?thesis using dec by blast
qed

lemma mul_pack_word:
  assumes pk: "v3d_qpu_mul_pack i w = Inr w'" and enc: "mul_encodable (alu_mul i)"
    and wa: "unat (waddr (alu_mul i)) < 64"
  shows "\<exists>opc ma mb. mul_decodes (alu_mul i) opc ma mb \<and>
    w' = w OR mul_word opc ma mb (waddr (alu_mul i)) (magic_write (alu_mul i))"
proof -
  let ?h = "alu_mul i"
  obtain d where d: "find_desc mul_ops (alu_op ?h) = Inr d"
    using pk by (auto simp: v3d_qpu_mul_pack_def Let_def bindR_Inr_iff)
  obtain ma mb0 where mx: "pack_muxes (v3d_qpu_mul_op_num_src (alu_op ?h)) d
      (enum_value v3d_qpu_mux_list (mux_a ?h)) (enum_value v3d_qpu_mux_list (mux_b ?h)) = (ma, mb0)"
    by fastforce
  obtain opc mb where op: "mul_pack_opcode ?h (ucast (opcode_first d)) mb0 = Inr (opc, mb)"
    using pk d mx by (auto simp: v3d_qpu_mul_pack_def Let_def bindR_Inr_iff)
  have dec: "mul_decodes ?h opc ma mb" by (rule mul_pack_decodes [OF d mx op enc])
  then have b: "unat opc < 64" "unat ma < 8" "unat mb < 8"
    by (auto simp: mul_decodes_def unat_mux_less)
  have "w' = w OR mul_word opc ma mb (waddr ?h) (magic_write ?h)"
    using pk d mx op b wa
    by (auto simp: v3d_qpu_mul_pack_def Let_def or_field_ok field_eval mul_word_def or.assoc)
  then show ?thesis using dec by blast
qed

section \<open>Reading the halves back\<close>

lemma add_modifiers_op:
  "add_unpack_modifiers x opc mb h0 = Inr h1 \<Longrightarrow> alu_op h1 = alu_op h0"
  unfolding add_unpack_modifiers_def by (auto simp: bindR_Inr_iff split: if_splits)

lemma mul_modifiers_op:
  "mul_unpack_modifiers x opc mb h0 = Inr h1 \<Longrightarrow> alu_op h1 = alu_op h0"
  unfolding mul_unpack_modifiers_def by (cases x) (auto simp: bindR_Inr_iff)

lemma same_add_waddr [simp]:
  "same_add h (h1\<lparr>waddr := w, magic_write := m\<rparr>) = same_add h h1"
  by (simp add: same_add_def operands_def)

lemma same_mul_waddr [simp]:
  "same_mul h (h1\<lparr>waddr := w, magic_write := m\<rparr>) = same_mul h h1"
  by (simp add: same_mul_def operands_def)

lemma alu_op_self: "alu_op h1 = x \<Longrightarrow> h1\<lparr>alu_op := x, mux_a := a, mux_b := b\<rparr> = h1\<lparr>mux_a := a, mux_b := b\<rparr>"
  by (cases h1) simp

lemma ucast_u8_back: "ucast (ucast (x :: u8) :: u32) = x"
  by (rule bit_word_eqI) (simp add: bit_unsigned_iff)

lemma add_unpack_word:
  assumes dec: "add_decodes h opc ma mb"
    and w: "QPU_GET_FIELD w VC5_QPU_OP_ADD = opc" "QPU_GET_FIELD w VC5_QPU_ADD_A = ma"
      "QPU_GET_FIELD w VC5_QPU_ADD_B = mb"
      "QPU_GET_FIELD w V3D_QPU_WADDR_A = ucast (add_pack_waddr (alu_op h) wa)"
  shows "\<exists>h'. v3d_qpu_add_unpack w i = Inr (i\<lparr>alu_add := h'\<rparr>) \<and> same_add h h' \<and>
    waddr h' = add_pack_waddr (alu_op h) wa \<and> magic_write h' = (w AND VC5_QPU_MA \<noteq> 0)"
proof -
  obtain a b where ab: "ma = enum_value v3d_qpu_mux_list a" "mb = enum_value v3d_qpu_mux_list b"
    and op: "add_unpack_op opc ma mb (ucast (add_pack_waddr (alu_op h) wa)) = Inr (alu_op h)"
    and "\<forall>h0. \<exists>h1. add_unpack_modifiers (alu_op h) opc mb h0 = Inr h1 \<and>
          same_add h (h1\<lparr>alu_op := alu_op h, mux_a := a, mux_b := b\<rparr>)"
    using dec unfolding add_decodes_def by blast
  then obtain h1 where md: "add_unpack_modifiers (alu_op h) opc mb ((alu_add i)\<lparr>alu_op := alu_op h\<rparr>) = Inr h1"
    and same: "same_add h (h1\<lparr>alu_op := alu_op h, mux_a := a, mux_b := b\<rparr>)" by blast
  have "alu_op h1 = alu_op h" using add_modifiers_op [OF md] by simp
  note same' = same [unfolded alu_op_self [OF this]]
  show ?thesis
    using op md ab same' unfolding v3d_qpu_add_unpack_def Let_def w
    by (intro exI [of _ "h1\<lparr>mux_a := a, mux_b := b, waddr := add_pack_waddr (alu_op h) wa,
         magic_write := w AND VC5_QPU_MA \<noteq> 0\<rparr>"]) (simp add: mux.decode_value ucast_u8_back)
qed

lemma mul_unpack_word:
  assumes dec: "mul_decodes h opc ma mb"
    and w: "QPU_GET_FIELD w VC5_QPU_OP_MUL = opc" "QPU_GET_FIELD w VC5_QPU_MUL_A = ma"
      "QPU_GET_FIELD w VC5_QPU_MUL_B = mb" "QPU_GET_FIELD w V3D_QPU_WADDR_M = ucast wa"
  shows "\<exists>h'. v3d_qpu_mul_unpack w i = Inr (i\<lparr>alu_mul := h'\<rparr>) \<and> same_mul h h' \<and>
    waddr h' = wa \<and> magic_write h' = (w AND VC5_QPU_MM \<noteq> 0)"
proof -
  obtain a b where ab: "ma = enum_value v3d_qpu_mux_list a" "mb = enum_value v3d_qpu_mux_list b"
    and op: "map_option desc_op (lookup_opcode mul_ops opc ma mb) = Some (alu_op h)"
    and "\<forall>h0. \<exists>h1. mul_unpack_modifiers (alu_op h) opc mb h0 = Inr h1 \<and>
          same_mul h (h1\<lparr>alu_op := alu_op h, mux_a := a, mux_b := b\<rparr>)"
    using dec unfolding mul_decodes_def by blast
  then obtain h1 where md: "mul_unpack_modifiers (alu_op h) opc mb ((alu_mul i)\<lparr>alu_op := alu_op h\<rparr>) = Inr h1"
    and same: "same_mul h (h1\<lparr>alu_op := alu_op h, mux_a := a, mux_b := b\<rparr>)" by blast
  have "alu_op h1 = alu_op h" using mul_modifiers_op [OF md] by simp
  note same' = same [unfolded alu_op_self [OF this]]
  obtain d where "lookup_opcode mul_ops opc ma mb = Some d" "desc_op d = alu_op h"
    using op by auto
  then show ?thesis
    using md ab same' unfolding v3d_qpu_mul_unpack_def Let_def w
    by (intro exI [of _ "h1\<lparr>mux_a := a, mux_b := b, waddr := wa,
         magic_write := w AND VC5_QPU_MM \<noteq> 0\<rparr>"]) (simp add: mux.decode_value ucast_u8_back)
qed

section \<open>ALU instructions\<close>

lemma alu_pack_word:
  assumes pk: "v3d_qpu_instr_pack_alu i 0 = Inr w" and ty: "instr_type i = V3D_QPU_INSTR_TYPE_ALU"
    and fit: "alu_fields_fit i" and enc: "alu_encodable i"
  shows "\<exists>s f opa ma mb opm mma mmb. v3d_qpu_sig_pack (sig i) = Inr s \<and>
    v3d_qpu_flags_pack (flags i) = Inr f \<and>
    add_decodes (alu_add i) opa ma mb \<and> mul_decodes (alu_mul i) opm mma mmb \<and>
    w = field_put VC5_QPU_SIG s OR field_put VC5_QPU_RADDR_A (raddr_a i) OR
      field_put VC5_QPU_RADDR_B (raddr_b i) OR
      add_word opa ma mb (add_pack_waddr (alu_op (alu_add i)) (waddr (alu_add i))) (magic_write (alu_add i)) OR
      mul_word opm mma mmb (waddr (alu_mul i)) (magic_write (alu_mul i)) OR
      field_put VC5_QPU_COND f"
proof -
  obtain s where s: "v3d_qpu_sig_pack (sig i) = Inr s" "unat s < 32"
    using pk sig_pack_index by (auto simp: v3d_qpu_instr_pack_alu_def bindR_Inr_iff)
  obtain f where f: "v3d_qpu_flags_pack (flags i) = Inr f" "unat f < 128"
    using pk ty flags_roundtrip enc
    by (auto simp: v3d_qpu_instr_pack_alu_def bindR_Inr_iff alu_encodable_def)
  obtain w1 w2 where w1: "v3d_qpu_add_pack i (field_put VC5_QPU_SIG s OR
      field_put VC5_QPU_RADDR_A (raddr_a i) OR field_put VC5_QPU_RADDR_B (raddr_b i)) = Inr w1"
    and w2: "v3d_qpu_mul_pack i w1 = Inr w2" and w: "w = w2 OR field_put VC5_QPU_COND f"
    using pk ty s f fit
    by (auto simp: v3d_qpu_instr_pack_alu_def bindR_Inr_iff or_field_ok field_eval alu_fields_fit_def or.assoc)
  obtain opa ma mb where a: "add_decodes (alu_add i) opa ma mb"
      "w1 = (field_put VC5_QPU_SIG s OR field_put VC5_QPU_RADDR_A (raddr_a i) OR
         field_put VC5_QPU_RADDR_B (raddr_b i)) OR add_word opa ma mb
         (add_pack_waddr (alu_op (alu_add i)) (waddr (alu_add i))) (magic_write (alu_add i))"
    using add_pack_word [OF w1] fit enc by (auto simp: alu_fields_fit_def alu_encodable_def)
  obtain opm mma mmb where m: "mul_decodes (alu_mul i) opm mma mmb"
      "w2 = w1 OR mul_word opm mma mmb (waddr (alu_mul i)) (magic_write (alu_mul i))"
    using mul_pack_word [OF w2] fit enc by (auto simp: alu_fields_fit_def alu_encodable_def)
  show ?thesis
    using s(1) f(1) a m w by (intro exI conjI) (assumption | simp add: or.assoc)+
qed

lemmas get_simps = GET_put_same GET_put_other GET_QPU_MASK_other field_eval

lemma GET_magic [simp]:
  "QPU_GET_FIELD (if m then VC5_QPU_MA else 0) (hi, lo) = (if m then QPU_GET_FIELD VC5_QPU_MA (hi, lo) else 0)"
  "QPU_GET_FIELD (if m then VC5_QPU_MM else 0) (hi, lo) = (if m then QPU_GET_FIELD VC5_QPU_MM (hi, lo) else 0)"
  by simp_all

lemma bit_alu_word:
  assumes "unat opa < 256" "unat ma < 8" "unat mb < 8" "unat (wa :: u8) < 64"
    "unat opm < 64" "unat mma < 8" "unat mmb < 8" "unat (wm :: u8) < 64"
    "unat (s :: u32) < 32" "unat (ra :: u8) < 64" "unat (rb :: u8) < 64" "unat (f :: u32) < 128"
    and w_def: "w = field_put VC5_QPU_SIG s OR field_put VC5_QPU_RADDR_A ra OR field_put VC5_QPU_RADDR_B rb OR
      add_word opa ma mb wa m1 OR mul_word opm mma mmb wm m2 OR field_put VC5_QPU_COND f"
  shows "QPU_GET_FIELD w VC5_QPU_SIG = s" "QPU_GET_FIELD w VC5_QPU_RADDR_A = ucast ra"
    "QPU_GET_FIELD w VC5_QPU_RADDR_B = ucast rb" "QPU_GET_FIELD w VC5_QPU_COND = f"
    "QPU_GET_FIELD w VC5_QPU_OP_ADD = opa" "QPU_GET_FIELD w VC5_QPU_ADD_A = ma"
    "QPU_GET_FIELD w VC5_QPU_ADD_B = mb" "QPU_GET_FIELD w V3D_QPU_WADDR_A = ucast wa"
    "QPU_GET_FIELD w VC5_QPU_OP_MUL = opm" "QPU_GET_FIELD w VC5_QPU_MUL_A = mma"
    "QPU_GET_FIELD w VC5_QPU_MUL_B = mmb" "QPU_GET_FIELD w V3D_QPU_WADDR_M = ucast wm"
    "w AND VC5_QPU_MA \<noteq> 0 \<longleftrightarrow> m1" "w AND VC5_QPU_MM \<noteq> 0 \<longleftrightarrow> m2"
  using assms(1-12) unfolding w_def add_word_def mul_word_def
  by (simp_all add: get_simps AND_QPU_MASK_bit bit_or_iff bit_field_put bit_QPU_MASK split: if_split)

text \<open>
  C2. Unpacking what \<open>v3d_qpu_instr_pack\<close> made of an ALU instruction succeeds and gives the
  instruction back, when its addresses fit their fields and it is encodable: the same type,
  signals, flags and register addresses, and in both halves the same operation, operands,
  modifiers and destination. Operands an operation does not read are not compared, the
  commutative operations may come back with their operands exchanged, and the
  write address of \<open>STVPM*\<close> is the one the encoding prescribes.
\<close>

theorem alu_roundtrip:
  assumes pk: "v3d_qpu_instr_pack i = Inr w" and ty: "instr_type i = V3D_QPU_INSTR_TYPE_ALU"
    and fit: "alu_fields_fit i" and enc: "alu_encodable i"
  shows "\<exists>i'. v3d_qpu_instr_unpack w junk = Inr i' \<and> same_alu_instr i i'"
proof -
  let ?wa = "add_pack_waddr (alu_op (alu_add i)) (waddr (alu_add i))"
  obtain s f opa ma mb opm mma mmb where s: "v3d_qpu_sig_pack (sig i) = Inr s"
    and f: "v3d_qpu_flags_pack (flags i) = Inr f"
    and a: "add_decodes (alu_add i) opa ma mb" and m: "mul_decodes (alu_mul i) opm mma mmb"
    and w: "w = field_put VC5_QPU_SIG s OR field_put VC5_QPU_RADDR_A (raddr_a i) OR
      field_put VC5_QPU_RADDR_B (raddr_b i) OR
      add_word opa ma mb ?wa (magic_write (alu_add i)) OR
      mul_word opm mma mmb (waddr (alu_mul i)) (magic_write (alu_mul i)) OR
      field_put VC5_QPU_COND f"
    using alu_pack_word [OF _ ty fit enc] pk ty unfolding v3d_qpu_instr_pack_def by auto
  have ba: "unat opa < 256" "unat ma < 8" "unat mb < 8"
    using a by (auto simp: add_decodes_def unat_mux_less)
  have bm: "unat opm < 64" "unat mma < 8" "unat mmb < 8" "opm \<noteq> 0"
    using m by (auto simp: mul_decodes_def unat_mux_less)
  note sg = sig_roundtrip [OF s]
  have fl: "v3d_qpu_flags_unpack f = Inr (flags i)" "unat f < 128"
    using flags_roundtrip [OF f] enc by (auto simp: alu_encodable_def)
  have fit': "unat ?wa < 64" "unat (waddr (alu_mul i)) < 64" "unat (raddr_a i) < 64" "unat (raddr_b i) < 64"
    using fit by (auto simp: alu_fields_fit_def add_pack_waddr_bound)
  have nu: "\<not> ucb (sig i)" "\<not> rotate (sig i)" using enc by (auto simp: alu_encodable_def)
  note g = bit_alu_word [OF ba fit'(1) bm(1-3) fit'(2) sg(2) [OF nu] fit'(3,4) fl(2) w]
  let ?i = "junk\<lparr>instr_type := V3D_QPU_INSTR_TYPE_ALU, sig := sig i, flags := flags i,
                 raddr_a := raddr_a i, raddr_b := raddr_b i\<rparr>"
  obtain h where h: "v3d_qpu_add_unpack w ?i = Inr (?i\<lparr>alu_add := h\<rparr>)" "same_add (alu_add i) h"
      "waddr h = ?wa" "magic_write h = magic_write (alu_add i)"
    using add_unpack_word [OF a g(5-8), of ?i] g(13) by auto
  obtain k where k: "v3d_qpu_mul_unpack w (?i\<lparr>alu_add := h\<rparr>) = Inr (?i\<lparr>alu_add := h, alu_mul := k\<rparr>)"
      "same_mul (alu_mul i) k" "waddr k = waddr (alu_mul i)" "magic_write k = magic_write (alu_mul i)"
    using mul_unpack_word [OF m g(9-12), of "?i\<lparr>alu_add := h\<rparr>"] g(14) by auto
  have "v3d_qpu_instr_unpack w junk = Inr (?i\<lparr>alu_add := h, alu_mul := k\<rparr>)"
    using sg(1) [OF nu] fl(1) h(1) k(1) bm(4)
    by (simp add: v3d_qpu_instr_unpack_def v3d_qpu_instr_unpack_alu_def g ucast_u8_back)
  then show ?thesis using h k by (auto simp: same_alu_instr_def)
qed

text \<open>An instruction that uses most of the fields, as an ALU instruction and as a branch.\<close>

definition sample_instr :: v3d_qpu_instr where
  "sample_instr = \<lparr>instr_type = V3D_QPU_INSTR_TYPE_ALU, sig = no_sig\<lparr>ldunif := True\<rparr>, raddr_a = 5, raddr_b = 9,
   flags = \<lparr>ac = V3D_QPU_COND_IFA, mc = NC, apf = NP, mpf = V3D_QPU_PF_PUSHZ, auf = NU, muf = NU\<rparr>,
   alu_add = \<lparr>alu_op = V3D_QPU_A_FMAX, mux_a = V3D_QPU_MUX_A, mux_b = V3D_QPU_MUX_R3, waddr = 17, magic_write = False,
     output_pack = V3D_QPU_PACK_H, a_unpack = V3D_QPU_UNPACK_ABS, b_unpack = V3D_QPU_UNPACK_L\<rparr>,
   alu_mul = \<lparr>alu_op = V3D_QPU_M_FMOV, mux_a = V3D_QPU_MUX_B, mux_b = V3D_QPU_MUX_R0, waddr = 3, magic_write = True,
     output_pack = V3D_QPU_PACK_L, a_unpack = V3D_QPU_UNPACK_H, b_unpack = V3D_QPU_UNPACK_NONE\<rparr>,
   branch = \<lparr>br_cond = V3D_QPU_BRANCH_COND_ALWAYS, br_msfign = V3D_QPU_MSFIGN_NONE, br_bdi = V3D_QPU_BRANCH_DEST_REL,
     br_bdu = V3D_QPU_BRANCH_DEST_REL, br_ub = True, br_raddr_a = 0, br_offset = 0xfffffdb8\<rparr>\<rparr>"

theorem alu_roundtrip_witness:
  "v3d_qpu_instr_pack sample_instr = Inr 4055597918046859593 \<and>
   (\<exists>i'. v3d_qpu_instr_unpack 4055597918046859593 sample_instr = Inr i' \<and> same_alu_instr sample_instr i')"
proof -
  have pk: "v3d_qpu_instr_pack sample_instr = Inr 4055597918046859593" by code_simp
  have "instr_type sample_instr = V3D_QPU_INSTR_TYPE_ALU" "alu_fields_fit sample_instr"
    "alu_encodable sample_instr" by code_simp+
  then show ?thesis using pk alu_roundtrip [OF pk] by blast
qed

section \<open>Branches\<close>

text \<open>
  What a branch looks like after a round trip: the low three bits of an offset are dropped,
  the offset is kept for absolute and relative targets only, the register address for all
  targets but the link register, and \<open>bdu\<close> only when \<open>ub\<close> is set.
\<close>

definition branch_kept :: "v3d_qpu_branch_instr \<Rightarrow> v3d_qpu_branch_instr \<Rightarrow> v3d_qpu_branch_instr" where
  "branch_kept b junk = b\<lparr>
     br_bdu := (if br_ub b then br_bdu b else br_bdu junk),
     br_raddr_a := (if br_bdi b = V3D_QPU_BRANCH_DEST_LINK_REG then 0 else br_raddr_a b),
     br_offset := (if br_bdi b \<in> {V3D_QPU_BRANCH_DEST_ABS, V3D_QPU_BRANCH_DEST_REL}
                   then br_offset b AND NOT 7 else 0)\<rparr>"

lemma offset_bounds:
  "unat (drop_bit 3 (off AND NOT 0xff000000) :: u32) < 2 ^ 21" "unat (drop_bit 24 (off :: u32)) < 2 ^ 8"
proof -
  have m: "NOT 0xff000000 = (mask 24 :: u32)" by (simp add: mask_eq_exp_minus_1)
  have "unat (off AND NOT 0xff000000) < 2 ^ 24"
    unfolding m using take_bit_nat_less_exp [of 24 "unat off"]
    by (simp add: unsigned_take_bit_eq flip: take_bit_eq_mask)
  then show "unat (drop_bit 3 (off AND NOT 0xff000000) :: u32) < 2 ^ 21"
    unfolding unat_drop_bit_u32 by (intro less_mult_imp_div_less) simp
  show "unat (drop_bit 24 off) < 2 ^ 8"
    using unsigned_less [of off, where 'a = nat] by (simp add: unat_drop_bit_u32 less_mult_imp_div_less)
qed

lemma offset_split:
  "push_bit 3 (drop_bit 3 (off AND NOT 0xff000000)) + push_bit 24 (drop_bit 24 off) = (off AND NOT 7 :: u32)"
proof -
  have m: "NOT 0xff000000 = (mask 24 :: u32)" "NOT 7 = (NOT (mask 3) :: u32)"
    by (simp_all add: mask_eq_exp_minus_1)
  have "push_bit 3 (drop_bit 3 (off AND mask 24)) + push_bit 24 (drop_bit 24 off) =
      push_bit 3 (drop_bit 3 (off AND mask 24)) OR push_bit 24 (drop_bit 24 off)"
    by (rule disjunctive_add) (auto simp: bit_push_bit_iff bit_drop_bit_eq bit_and_iff bit_mask_iff)
  also have "\<dots> = off AND NOT (mask 3)"
  proof (rule bit_word_eqI)
    fix n assume "n < LENGTH(32)"
    then show "bit (push_bit 3 (drop_bit 3 (off AND mask 24)) OR push_bit 24 (drop_bit 24 off)) n
        = bit (off AND NOT (mask 3)) n"
      by (cases "n < 24") (auto simp: bit_push_bit_iff bit_drop_bit_eq bit_and_iff bit_or_iff bit_not_iff bit_mask_iff)
  qed
  finally show ?thesis unfolding m .
qed

lemma branch_cond_code:
  "c \<noteq> V3D_QPU_BRANCH_COND_ALWAYS \<Longrightarrow>
    2 + (enum_value v3d_qpu_branch_cond_list c - enum_value v3d_qpu_branch_cond_list V3D_QPU_BRANCH_COND_A0)
      \<in> {2, 3, 4, 5, 6, 7}"
  by (cases c) simp_all

lemma msfign_bound: "unat (enum_value v3d_qpu_msfign_list m) < 3"
  by (cases m) simp_all

lemma dest_bound: "unat (enum_value v3d_qpu_branch_dest_list d) < 4"
  by (cases d) simp_all

definition branch_word :: "v3d_qpu_branch_instr \<Rightarrow> u64" where
  "branch_word b = field_put (57, 57) (1::u32) OR
     field_put VC5_QPU_BRANCH_COND (if br_cond b = V3D_QPU_BRANCH_COND_ALWAYS then 0 else
       2 + (enum_value v3d_qpu_branch_cond_list (br_cond b)
              - enum_value v3d_qpu_branch_cond_list V3D_QPU_BRANCH_COND_A0)) OR
     field_put VC5_QPU_BRANCH_MSFIGN (enum_value v3d_qpu_msfign_list (br_msfign b)) OR
     field_put VC5_QPU_BRANCH_BDI (enum_value v3d_qpu_branch_dest_list (br_bdi b)) OR
     (if br_ub b then VC5_QPU_BRANCH_UB else 0) OR
     field_put VC5_QPU_BRANCH_BDU (if br_ub b then enum_value v3d_qpu_branch_dest_list (br_bdu b) else 0) OR
     field_put VC5_QPU_BRANCH_ADDR_LOW
       (if br_bdi b \<in> {V3D_QPU_BRANCH_DEST_ABS, V3D_QPU_BRANCH_DEST_REL}
        then drop_bit 3 (br_offset b AND NOT 0xff000000) else 0) OR
     field_put VC5_QPU_BRANCH_ADDR_HIGH
       (if br_bdi b \<in> {V3D_QPU_BRANCH_DEST_ABS, V3D_QPU_BRANCH_DEST_REL}
        then drop_bit 24 (br_offset b) else 0) OR
     field_put VC5_QPU_RADDR_A (if br_bdi b = V3D_QPU_BRANCH_DEST_LINK_REG then 0 else br_raddr_a b)"

lemma field_put_0 [simp]: "field_put f 0 = 0"
  by (simp add: field_put_def)

lemma sig_16: "field_put VC5_QPU_SIG (16::u32) = field_put (57, 57) (1::u32)"
  by (simp add: field_put_def)

lemma branch_pack_word:
  assumes "instr_type i = V3D_QPU_INSTR_TYPE_BRANCH" "unat (br_raddr_a (branch i)) < 64"
  shows "v3d_qpu_instr_pack i = Inr (branch_word (branch i))"
proof -
  let ?b = "branch i"
  have c: "unat (2 + (enum_value v3d_qpu_branch_cond_list (br_cond ?b)
     - enum_value v3d_qpu_branch_cond_list V3D_QPU_BRANCH_COND_A0)) < 8" if "br_cond ?b \<noteq> V3D_QPU_BRANCH_COND_ALWAYS"
    using branch_cond_code [OF that] by auto
  show ?thesis
    using assms c msfign_bound [of "br_msfign ?b"] dest_bound [of "br_bdi ?b"] dest_bound [of "br_bdu ?b"]
      offset_bounds [of "br_offset ?b"]
    by (cases "br_bdi ?b")
     (simp_all add: v3d_qpu_instr_pack_def v3d_qpu_instr_pack_branch_def Let_def or_field_ok field_eval
      branch_word_def sig_16 or.assoc or.left_commute or.commute)
qed

lemma sig_of_low:
  assumes "unat (v :: u32) < 2 ^ 21"
  shows "QPU_GET_FIELD (field_put VC5_QPU_BRANCH_ADDR_LOW v) VC5_QPU_SIG AND 24 = 0"
proof (rule bit_word_eqI)
  fix n assume "n < LENGTH(32)"
  have m: "(24 :: u32) = push_bit 3 (mask 2)" by (simp add: mask_eq_exp_minus_1)
  have "bit (24 :: u32) n \<longleftrightarrow> n \<in> {3, 4}" unfolding m by (auto simp: bit_push_bit_iff bit_mask_iff)
  moreover have "\<not> bit (field_put VC5_QPU_BRANCH_ADDR_LOW v) k" if "55 < k" for k
    using that assms by (intro bit_field_put) (simp_all add: field_eval)
  ultimately show "bit (QPU_GET_FIELD (field_put VC5_QPU_BRANCH_ADDR_LOW v) VC5_QPU_SIG AND 24) n = bit 0 n"
    by (auto simp: bit_and_iff bit_GET field_eval)
qed

lemma GET_UB [simp]:
  "QPU_GET_FIELD (if m then VC5_QPU_BRANCH_UB else 0) (hi, lo) = (if m then QPU_GET_FIELD VC5_QPU_BRANCH_UB (hi, lo) else 0)"
  by simp

lemma branch_word_fields:
  assumes "unat (c :: u32) < 8" "unat (m :: u32) < 4" "unat (d :: u32) < 4" "unat (e :: u32) < 4"
    "unat (l :: u32) < 2 ^ 21" "unat (h :: u32) < 2 ^ 8" "unat (r :: u8) < 64"
    and w: "w = field_put (57, 57) (1::u32) OR field_put VC5_QPU_BRANCH_COND c OR
     field_put VC5_QPU_BRANCH_MSFIGN m OR field_put VC5_QPU_BRANCH_BDI d OR
     (if ub then VC5_QPU_BRANCH_UB else 0) OR field_put VC5_QPU_BRANCH_BDU e OR
     field_put VC5_QPU_BRANCH_ADDR_LOW l OR field_put VC5_QPU_BRANCH_ADDR_HIGH h OR
     field_put VC5_QPU_RADDR_A r"
  shows "QPU_GET_FIELD w VC5_QPU_OP_MUL = 0" "QPU_GET_FIELD w VC5_QPU_SIG AND 24 = 16"
    "QPU_GET_FIELD w VC5_QPU_BRANCH_COND = c" "QPU_GET_FIELD w VC5_QPU_BRANCH_MSFIGN = m"
    "QPU_GET_FIELD w VC5_QPU_BRANCH_BDI = d" "QPU_GET_FIELD w VC5_QPU_BRANCH_BDU = e"
    "QPU_GET_FIELD w VC5_QPU_BRANCH_ADDR_LOW = l" "QPU_GET_FIELD w VC5_QPU_BRANCH_ADDR_HIGH = h"
    "QPU_GET_FIELD w VC5_QPU_RADDR_A = ucast r" "w AND VC5_QPU_BRANCH_UB \<noteq> 0 \<longleftrightarrow> ub"
proof -
  have s: "QPU_GET_FIELD (field_put (57, 57) (1::u32)) VC5_QPU_SIG = 16"
    unfolding sig_16 [symmetric] by (simp add: get_simps)
  show "QPU_GET_FIELD w VC5_QPU_SIG AND 24 = 16"
    using assms(1-7) sig_of_low [OF assms(5)] unfolding w
    by (simp add: get_simps s bit.conj_disj_distrib2)
  show "QPU_GET_FIELD w VC5_QPU_OP_MUL = 0"
    "QPU_GET_FIELD w VC5_QPU_BRANCH_COND = c" "QPU_GET_FIELD w VC5_QPU_BRANCH_MSFIGN = m"
    "QPU_GET_FIELD w VC5_QPU_BRANCH_BDI = d" "QPU_GET_FIELD w VC5_QPU_BRANCH_BDU = e"
    "QPU_GET_FIELD w VC5_QPU_BRANCH_ADDR_LOW = l" "QPU_GET_FIELD w VC5_QPU_BRANCH_ADDR_HIGH = h"
    "QPU_GET_FIELD w VC5_QPU_RADDR_A = ucast r" "w AND VC5_QPU_BRANCH_UB \<noteq> 0 \<longleftrightarrow> ub"
    using assms(1-7) unfolding w
    by (simp_all add: get_simps AND_QPU_MASK_bit bit_or_iff bit_field_put bit_QPU_MASK split: if_split)
qed

lemma branch_cond_decode:
  assumes "v = (if c = V3D_QPU_BRANCH_COND_ALWAYS then 0 else
       2 + (enum_value v3d_qpu_branch_cond_list c
              - enum_value v3d_qpu_branch_cond_list V3D_QPU_BRANCH_COND_A0))"
  shows "(if v = 0 then Inr V3D_QPU_BRANCH_COND_ALWAYS
     else if enum_value v3d_qpu_branch_cond_list V3D_QPU_BRANCH_COND_A0 + (v - 2)
        \<le> enum_value v3d_qpu_branch_cond_list V3D_QPU_BRANCH_COND_ALLNA
     then enum_decode v3d_qpu_branch_cond_list
        (enum_value v3d_qpu_branch_cond_list V3D_QPU_BRANCH_COND_A0 + (v - 2))
     else Inl Return_False) = Inr c"
  unfolding assms by (cases c) (simp_all add: enum_decode_def v3d_qpu_branch_cond_list_def)

text \<open>
  C19. A branch whose register address fits its field always packs, and unpacking the word gives
  the branch back, up to the parts the encoding has no room for (see \<open>branch_kept\<close>).
\<close>

theorem branch_roundtrip:
  assumes ty: "instr_type i = V3D_QPU_INSTR_TYPE_BRANCH" and ra: "unat (br_raddr_a (branch i)) < 64"
  shows "\<exists>w. v3d_qpu_instr_pack i = Inr w \<and>
    v3d_qpu_instr_unpack w junk = Inr (junk\<lparr>instr_type := V3D_QPU_INSTR_TYPE_BRANCH,
      branch := branch_kept (branch i) (branch junk)\<rparr>)"
proof -
  let ?b = "branch i" and ?w = "branch_word (branch i)"
  define c where "c = (if br_cond ?b = V3D_QPU_BRANCH_COND_ALWAYS then 0 else
       2 + (enum_value v3d_qpu_branch_cond_list (br_cond ?b)
              - enum_value v3d_qpu_branch_cond_list V3D_QPU_BRANCH_COND_A0))"
  have c: "unat c < 8" unfolding c_def by (cases "br_cond ?b") simp_all
  have e: "unat (if br_ub ?b then enum_value v3d_qpu_branch_dest_list (br_bdu ?b) else 0) < 4"
    using dest_bound by simp
  have m: "unat (enum_value v3d_qpu_msfign_list (br_msfign ?b)) < 4"
    "enum_value v3d_qpu_msfign_list (br_msfign ?b) \<noteq> 3"
    using msfign_bound [of "br_msfign ?b"] by (cases "br_msfign ?b"; simp)+
  define l where "l = (if br_bdi ?b \<in> {V3D_QPU_BRANCH_DEST_ABS, V3D_QPU_BRANCH_DEST_REL}
        then drop_bit 3 (br_offset ?b AND NOT 0xff000000) else 0)"
  define h where "h = (if br_bdi ?b \<in> {V3D_QPU_BRANCH_DEST_ABS, V3D_QPU_BRANCH_DEST_REL}
        then drop_bit 24 (br_offset ?b) else 0)"
  have l: "unat l < 2 ^ 21" and h: "unat h < 2 ^ 8"
    unfolding l_def h_def using offset_bounds by simp_all
  have r: "unat (if br_bdi ?b = V3D_QPU_BRANCH_DEST_LINK_REG then 0 else br_raddr_a ?b) < 64"
    using ra by simp
  note g = branch_word_fields [OF c m(1) dest_bound e l h r branch_word_def [of ?b, folded c_def l_def h_def]]
  have off: "0 + push_bit 3 l + push_bit 24 h = br_offset (branch_kept ?b (branch junk))"
    using offset_split [of "br_offset ?b"] by (simp add: l_def h_def branch_kept_def)
  have kept: "\<lparr>br_cond = br_cond ?b, br_msfign = br_msfign ?b, br_bdi = br_bdi ?b,
      br_bdu = (if br_ub ?b then br_bdu ?b else br_bdu (branch junk)), br_ub = br_ub ?b,
      br_raddr_a = (if br_bdi ?b = V3D_QPU_BRANCH_DEST_LINK_REG then 0 else br_raddr_a ?b),
      br_offset = br_offset (branch_kept ?b (branch junk))\<rparr> = branch_kept ?b (branch junk)"
    by (rule v3d_qpu_branch_instr.equality) (simp_all add: branch_kept_def)
  have bdu: "(if br_ub ?b then enum_decode v3d_qpu_branch_dest_list
        (if br_ub ?b then enum_value v3d_qpu_branch_dest_list (br_bdu ?b) else 0)
      else Inr (br_bdu (branch junk))) = Inr (if br_ub ?b then br_bdu ?b else br_bdu (branch junk))"
    by (simp add: branch_dest.decode_value)
  have "v3d_qpu_instr_unpack ?w junk = Inr (junk\<lparr>instr_type := V3D_QPU_INSTR_TYPE_BRANCH,
      branch := branch_kept ?b (branch junk)\<rparr>)"
    using m(2) unfolding v3d_qpu_instr_unpack_def v3d_qpu_instr_unpack_branch_def Let_def g
      branch_cond_decode [OF c_def] bdu off ucast_u8_back
    by (simp add: msfign.decode_value branch_dest.decode_value kept)
  then show ?thesis using branch_pack_word [OF ty ra] by blast
qed

theorem branch_roundtrip_witness:
  "\<exists>w. v3d_qpu_instr_pack (sample_instr\<lparr>instr_type := V3D_QPU_INSTR_TYPE_BRANCH\<rparr>) = Inr w \<and>
    v3d_qpu_instr_unpack w sample_instr = Inr (sample_instr\<lparr>instr_type := V3D_QPU_INSTR_TYPE_BRANCH,
      branch := branch_kept (branch sample_instr) (branch sample_instr)\<rparr>)"
  using branch_roundtrip [of "sample_instr\<lparr>instr_type := V3D_QPU_INSTR_TYPE_BRANCH\<rparr>" sample_instr]
  by (simp add: sample_instr_def)

section \<open>Where a round trip fails\<close>

text \<open>
  C31. A packed signal word unpacks to the same signals exactly when neither \<open>ucb\<close> nor
  \<open>rotate\<close> is set: the comparison of one byte only makes the unpacking code take these two
  entries of the table for reserved ones.
\<close>

theorem sig_pack_unpack_iff:
  assumes "v3d_qpu_sig_pack s = Inr p"
  shows "v3d_qpu_sig_unpack p = Inr s \<longleftrightarrow> \<not> ucb s \<and> \<not> rotate s"
proof
  have m: "s \<in> set v33_sig_map"
    using sig_pack_index [OF assms] sig_map_length nth_mem by metis
  assume u: "v3d_qpu_sig_unpack p = Inr s"
  then have "p = 0 \<or> sig_byte0 s \<noteq> sig_byte0 (v33_sig_map ! 0)"
    using sig_pack_index [OF assms] by (auto simp: v3d_qpu_sig_unpack_def sig_map_length split: if_splits)
  moreover have "s = no_sig" if "p = 0"
    using sig_pack_index [OF assms] that by (simp add: v33_sig_map_def)
  moreover have "\<forall>s\<in>set v33_sig_map. ucb s \<or> rotate s \<longrightarrow> sig_byte0 s = sig_byte0 (v33_sig_map ! 0)"
    by (simp add: v33_sig_map_def no_sig_def sig_byte0_def)
  ultimately show "\<not> ucb s \<and> \<not> rotate s" using m by (auto simp: no_sig_def)
next
  assume "\<not> ucb s \<and> \<not> rotate s"
  then show "v3d_qpu_sig_unpack p = Inr s" using sig_roundtrip [OF assms] by blast
qed

theorem sig_pack_unpack_iff_witness:
  "v3d_qpu_sig_pack (no_sig\<lparr>ucb := True\<rparr>) = Inr 22 \<and>
   v3d_qpu_sig_unpack 22 \<noteq> Inr (no_sig\<lparr>ucb := True\<rparr>)"
proof -
  have "v3d_qpu_sig_pack (no_sig\<lparr>ucb := True\<rparr>) = Inr 22" by code_simp
  then show ?thesis using sig_pack_unpack_iff [of "no_sig\<lparr>ucb := True\<rparr>" 22] by simp
qed

text \<open>
  C32. Packed condition flags unpack to the same flags exactly when they do not combine a
  condition on the multiplication with a condition on the addition other than \<open>ifa\<close>.
\<close>

theorem flags_pack_unpack_iff:
  assumes "v3d_qpu_flags_pack f = Inr p"
  shows "v3d_qpu_flags_unpack p = Inr f \<longleftrightarrow>
    mc f = V3D_QPU_COND_NONE \<or> ac f \<in> {V3D_QPU_COND_NONE, V3D_QPU_COND_IFA}"
proof -
  have "v3d_qpu_flags_unpack p \<noteq> Inr f" if n: "mc f \<noteq> NC" "ac f \<notin> {NC, V3D_QPU_COND_IFA}"
  proof -
    obtain a m where f: "f = \<lparr>ac = a, mc = m, apf = NP, mpf = NP, auf = NU, muf = NU\<rparr>"
      using flags_pack_shape [OF assms] n by (cases f) auto
    show ?thesis using assms n unfolding f by (cases a; cases m; clarsimp simp: flags_eval)
  qed
  then show ?thesis using flags_roundtrip [OF assms] by blast
qed

theorem flags_pack_unpack_iff_witness:
  "v3d_qpu_flags_pack (flags sample_instr) = Inr 33 \<and> v3d_qpu_flags_unpack 33 = Inr (flags sample_instr)"
proof -
  have "v3d_qpu_flags_pack (flags sample_instr) = Inr 33" by code_simp
  moreover have "mc (flags sample_instr) = V3D_QPU_COND_NONE" by code_simp
  ultimately show ?thesis using flags_pack_unpack_iff [of "flags sample_instr" 33] by simp
qed

text \<open>
  For the rounding and conversion operations the unpack modifiers \<open>L\<close> and \<open>H\<close>
  produce the same instruction word, as the bit that tells them apart is already set in the
  opcode of the table.
\<close>

theorem round_L_packs_as_H:
  assumes "alu_op (alu_add i) \<in> float32_roundops \<union> float32_convops"
  shows "v3d_qpu_add_pack (i\<lparr>alu_add := (alu_add i)\<lparr>a_unpack := V3D_QPU_UNPACK_L\<rparr>\<rparr>) w =
    v3d_qpu_add_pack (i\<lparr>alu_add := (alu_add i)\<lparr>a_unpack := V3D_QPU_UNPACK_H\<rparr>\<rparr>) w"
proof -
  have b: "base OR 8 = (base OR 12 :: u32)" if "base \<in> {245, 246, 247}" for base
    using that by auto
  have op: "add_pack_opcode ((alu_add i)\<lparr>a_unpack := V3D_QPU_UNPACK_L\<rparr>) (ucast (opcode_first d)) ma mb =
      add_pack_opcode ((alu_add i)\<lparr>a_unpack := V3D_QPU_UNPACK_H\<rparr>) (ucast (opcode_first d)) ma mb"
    if "find_desc add_ops (alu_op (alu_add i)) = Inr d" for d ma mb
    using assms b [OF round_base_range [OF assms]] find_desc_round(1) [OF assms that]
    by (auto simp: add_pack_opcode_def v3d_qpu_float32_unpack_pack_def)
  show ?thesis
    by (cases "find_desc add_ops (alu_op (alu_add i))")
      (simp_all add: v3d_qpu_add_pack_def Let_def op)
qed

theorem round_L_packs_as_H_witness:
  "v3d_qpu_add_pack (sample_instr\<lparr>alu_add := (alu_add sample_instr)\<lparr>alu_op := V3D_QPU_A_FFLOOR,
      a_unpack := V3D_QPU_UNPACK_L\<rparr>\<rparr>) 0 =
   v3d_qpu_add_pack (sample_instr\<lparr>alu_add := (alu_add sample_instr)\<lparr>alu_op := V3D_QPU_A_FFLOOR,
      a_unpack := V3D_QPU_UNPACK_H\<rparr>\<rparr>) 0"
  using round_L_packs_as_H [of "sample_instr\<lparr>alu_add := (alu_add sample_instr)\<lparr>alu_op := V3D_QPU_A_FFLOOR\<rparr>\<rparr>" 0]
  by simp

end
