(* ===== verification/Qpu_Faults.thy ===== *)
theory Qpu_Faults
  imports Qpu_Roundtrip
begin

text \<open>
  The ways packing and unpacking can fail. Packing an instruction whose fields fit ends with a
  word or with \<open>return false\<close>, never in an assertion. Unpacking an arbitrary 64-bit word
  ends with an instruction or with \<open>return false\<close>, with one exception among the branches:
  the three bits of \<open>bdu\<close> are stored in an \<open>enum\<close> with four enumerators.
\<close>

unbundle bit_operations_syntax

section \<open>Faults of packing\<close>

lemma find_desc_fault: "find_desc ds x = Inl e \<Longrightarrow> e = Return_False"
  by (induction ds) (auto split: if_splits)

lemma guardR_fault: "guardR b = Inl e \<Longrightarrow> e = Return_False"
  by (auto simp: guardR_def split: if_splits)

lemma float_pack_faults:
  "v3d_qpu_float32_unpack_pack u = Inl e \<Longrightarrow> e = Return_False"
  "v3d_qpu_float16_unpack_pack u = Inl e \<Longrightarrow> e = Return_False"
  by (cases u; simp add: v3d_qpu_float32_unpack_pack_def v3d_qpu_float16_unpack_pack_def)+

lemma bindR_fault:
  "bindR m f = Inl e \<Longrightarrow> (\<And>e'. m = Inl e' \<Longrightarrow> e' = Return_False) \<Longrightarrow>
    (\<And>x. m = Inr x \<Longrightarrow> f x = Inl e \<Longrightarrow> e = Return_False) \<Longrightarrow> e = Return_False"
  by (cases m) auto

lemma add_pack_opcode_fault:
  "add_pack_opcode h opc ma mb = Inl e \<Longrightarrow> e = Return_False"
  unfolding add_pack_opcode_def Let_def
  by (auto simp: bindR_Inl_iff dest: float_pack_faults guardR_fault split: if_splits)

lemma mul_pack_opcode_fault:
  "mul_pack_opcode h opc mb = Inl e \<Longrightarrow> e = Return_False"
  unfolding mul_pack_opcode_def
  by (cases "alu_op h") (auto simp: bindR_Inl_iff dest: float_pack_faults)

lemma add_pack_fault:
  assumes pk: "v3d_qpu_add_pack i w = Inl e" and enc: "add_encodable (alu_add i)"
    and wa: "unat (waddr (alu_add i)) < 64"
  shows "e = Return_False"
proof -
  let ?h = "alu_add i"
  show ?thesis
  proof (cases "find_desc add_ops (alu_op ?h)")
    case (Inl e')
    then show ?thesis using pk find_desc_fault [OF Inl] by (simp add: v3d_qpu_add_pack_def Let_def)
  next
    case (Inr d)
    obtain ma0 mb0 where mx: "pack_muxes (v3d_qpu_add_op_num_src (alu_op ?h)) d
        (enum_value v3d_qpu_mux_list (mux_a ?h)) (enum_value v3d_qpu_mux_list (mux_b ?h)) = (ma0, mb0)"
      by fastforce
    show ?thesis
    proof (cases "add_pack_opcode ?h (ucast (opcode_first d)) ma0 mb0")
      case (Inl e')
      then show ?thesis using pk Inr mx add_pack_opcode_fault [OF Inl]
        by (simp add: v3d_qpu_add_pack_def Let_def)
    next
      case op: (Inr r)
      obtain opc ma mb where r: "r = (opc, ma, mb)" by (cases r)
      have "add_decodes ?h opc ma mb" by (rule add_pack_decodes [OF Inr mx op [unfolded r] enc])
      then have b: "unat opc < 256" "unat ma < 8" "unat mb < 8"
        by (auto simp: add_decodes_def unat_mux_less)
      then show ?thesis
        using pk Inr mx op r add_pack_waddr_bound [OF wa]
        by (auto simp: v3d_qpu_add_pack_def Let_def or_field_ok field_eval)
    qed
  qed
qed

lemma mul_pack_fault:
  assumes pk: "v3d_qpu_mul_pack i w = Inl e" and enc: "mul_encodable (alu_mul i)"
    and wa: "unat (waddr (alu_mul i)) < 64"
  shows "e = Return_False"
proof -
  let ?h = "alu_mul i"
  show ?thesis
  proof (cases "find_desc mul_ops (alu_op ?h)")
    case (Inl e')
    then show ?thesis using pk find_desc_fault [OF Inl] by (simp add: v3d_qpu_mul_pack_def Let_def)
  next
    case (Inr d)
    obtain ma mb0 where mx: "pack_muxes (v3d_qpu_mul_op_num_src (alu_op ?h)) d
        (enum_value v3d_qpu_mux_list (mux_a ?h)) (enum_value v3d_qpu_mux_list (mux_b ?h)) = (ma, mb0)"
      by fastforce
    show ?thesis
    proof (cases "mul_pack_opcode ?h (ucast (opcode_first d)) mb0")
      case (Inl e')
      then show ?thesis using pk Inr mx mul_pack_opcode_fault [OF Inl]
        by (simp add: v3d_qpu_mul_pack_def Let_def)
    next
      case op: (Inr r)
      obtain opc mb where r: "r = (opc, mb)" by (cases r)
      have "mul_decodes ?h opc ma mb" by (rule mul_pack_decodes [OF Inr mx op [unfolded r] enc])
      then have b: "unat opc < 64" "unat ma < 8" "unat mb < 8"
        by (auto simp: mul_decodes_def unat_mux_less)
      then show ?thesis
        using pk Inr mx op r wa
        by (auto simp: v3d_qpu_mul_pack_def Let_def or_field_ok field_eval)
    qed
  qed
qed

lemma sig_pack_fault: "v3d_qpu_sig_pack s = Inl e \<Longrightarrow> e = Return_False"
proof -
  have "sig_index xs s i = Inl e \<Longrightarrow> e = Return_False" for xs i
    by (induction xs arbitrary: i) (auto split: if_splits)
  then show "v3d_qpu_sig_pack s = Inl e \<Longrightarrow> e = Return_False"
    by (simp add: v3d_qpu_sig_pack_def)
qed

lemma flags_pack_fault: "v3d_qpu_flags_pack f = Inl e \<Longrightarrow> e = Return_False"
  by (auto simp: v3d_qpu_flags_pack_def Let_def split: option.splits)

lemma flags_pack_bound:
  assumes p: "v3d_qpu_flags_pack f = Inr p"
  shows "unat p < 128"
proof (cases "mc f = NC \<or> ac f = NC \<or> ac f = V3D_QPU_COND_IFA")
  case False
  then have "f = \<lparr>ac = ac f, mc = mc f, apf = NP, mpf = NP, auf = NU, muf = NU\<rparr>" using flags_pack_shape [OF p] by auto
  then obtain a m where f: "f = \<lparr>ac = a, mc = m, apf = NP, mpf = NP, auf = NU, muf = NU\<rparr>" by blast
  show ?thesis using p unfolding f by (cases a; cases m) (simp_all add: flags_eval)
qed (use flags_roundtrip [OF p] in simp)

lemma alu_pack_returns:
  assumes pk: "v3d_qpu_instr_pack i = Inl e" and ty: "instr_type i = V3D_QPU_INSTR_TYPE_ALU"
    and fit: "alu_fields_fit i" and enc: "add_encodable (alu_add i)" "mul_encodable (alu_mul i)"
  shows "e = Return_False"
proof -
  have s: "unat s < 32" if "v3d_qpu_sig_pack (sig i) = Inr s" for s
    using sig_pack_index [OF that] by simp
  show ?thesis
    using pk ty fit enc s flags_pack_bound unfolding v3d_qpu_instr_pack_def v3d_qpu_instr_pack_alu_def
    by (auto simp: bindR_Inl_iff or_field_ok field_eval alu_fields_fit_def
        dest: sig_pack_fault flags_pack_fault add_pack_fault mul_pack_fault)
qed

text \<open>
  C29. Packing an encodable ALU instruction whose addresses fit their fields never trips the
  assertion of \<open>QPU_SET_FIELD\<close>: when it fails, it fails by returning \<open>false\<close>.
\<close>

theorem alu_pack_fault:
  assumes pk: "v3d_qpu_instr_pack i = Inl e" and ty: "instr_type i = V3D_QPU_INSTR_TYPE_ALU"
    and fit: "alu_fields_fit i" and enc: "alu_encodable i"
  shows "e = Return_False"
  using alu_pack_returns [OF pk ty fit] enc by (simp add: alu_encodable_def)

theorem alu_pack_fault_witness:
  "v3d_qpu_instr_pack (sample_instr\<lparr>flags := (flags sample_instr)\<lparr>apf := V3D_QPU_PF_PUSHN\<rparr>\<rparr>) = Inl Return_False"
proof -
  let ?i = "sample_instr\<lparr>flags := (flags sample_instr)\<lparr>apf := V3D_QPU_PF_PUSHN\<rparr>\<rparr>"
  have "alu_fields_fit ?i" "alu_encodable ?i" "instr_type ?i = V3D_QPU_INSTR_TYPE_ALU"
    "\<not> isl (v3d_qpu_instr_pack ?i) \<longrightarrow> False" by code_simp+
  then show ?thesis using alu_pack_fault [of ?i] by (cases "v3d_qpu_instr_pack ?i") auto
qed

section \<open>Faults of unpacking\<close>

lemma lookup_opcode_Some:
  "lookup_opcode ds opc ma mb = Some d \<Longrightarrow> d \<in> set ds \<and> ucast (opcode_first d) \<le> opc \<and>
    opc \<le> ucast (opcode_last d) \<and> ucast (mux_b_mask d) AND push_bit (unat mb) (1::u32) \<noteq> 0"
  by (induction ds) (auto split: if_splits)

lemma unat_AND_15: "unat (x AND 15 :: u32) = unat x mod 16"
proof -
  have "x AND 15 = take_bit 4 x" by (simp add: take_bit_eq_mask mask_eq_exp_minus_1)
  then show ?thesis by (simp add: take_bit_eq_mod unat_mod)
qed

lemma pf_decodes: "\<exists>y. enum_decode v3d_qpu_pf_list (p AND 3) = Inr y"
  using pos_mod_bound [of 4 "int (unat p)"]
  by (simp add: enum_decode_def v3d_qpu_pf_list_def unat_AND_3)

lemma cond_decodes:
  "\<exists>y. enum_decode v3d_qpu_cond_list ((p AND 3) + enum_value v3d_qpu_cond_list V3D_QPU_COND_IFA) = Inr y"
proof -
  have "unat (p AND 3) < 4" by (simp add: unat_AND_3)
  then have "unat ((p AND 3) + 1) < 5" by (simp add: unat_word_ariths)
  then show ?thesis by (simp add: enum_decode_def v3d_qpu_cond_list_def)
qed

lemma uf_decodes:
  assumes "drop_bit 2 p AND 3 \<noteq> 0"
  shows "\<exists>y. enum_decode v3d_qpu_uf_list
    ((p AND 15) - 4 + enum_value v3d_qpu_uf_list V3D_QPU_UF_ANDZ) = Inr y"
proof -
  have "unat p div 4 mod 4 \<noteq> 0"
    using assms by (simp add: word_unat_eq_iff unat_AND_3 unat_drop_bit_u32)
  then have "4 \<le> unat p mod 16" by presburger
  then have "(3 :: u32) \<le> p AND 15" by (simp add: word_le_nat_alt unat_AND_15)
  then have "unat ((p AND 15) - 3) = unat p mod 16 - 3"
    by (simp add: unat_sub unat_AND_15)
  then show ?thesis by (simp add: enum_decode_def v3d_qpu_uf_list_def)
qed

lemma quarter_nonzero:
  assumes "n div 16 = 1" "n div 4 \<noteq> (4 :: nat)"
  shows "n div 4 mod 4 \<noteq> 0"
proof -
  define q where "q = n div 4"
  have "q div 4 = 1" using assms(1) by (simp add: q_def flip: div_mult2_eq)
  then have "q = 4 \<or> q = 5 \<or> q = 6 \<or> q = 7" by arith
  then show ?thesis using assms(2) by (auto simp: q_def)
qed

lemma third_of_four:
  assumes "64 * k \<le> n" "n \<le> 64 * k + (47 :: nat)"
  shows "n div 16 mod 4 < 3"
proof -
  have "4 * k \<le> n div 16" "n div 16 \<le> 4 * k + 2"
    using div_le_mono [OF assms(1), of 16] div_le_mono [OF assms(2), of 16] by simp_all
  then have "n div 16 mod 4 = n div 16 - 4 * k" by (intro mod_nat_eqI) auto
  then show ?thesis using \<open>n div 16 \<le> 4 * k + 2\<close> by simp
qed

lemma flags_unpack_fault:
  assumes "v3d_qpu_flags_unpack p = Inl e"
  shows "e = Return_False"
proof -
  obtain c where c: "enum_decode v3d_qpu_cond_list
      ((drop_bit 2 p AND 3) + enum_value v3d_qpu_cond_list V3D_QPU_COND_IFA) = Inr c"
    using cond_decodes by blast
  obtain q where q: "enum_decode v3d_qpu_pf_list (p AND 3) = Inr q" using pf_decodes by blast
  have u: "\<exists>y. enum_decode v3d_qpu_uf_list
      ((p AND 15) - 4 + enum_value v3d_qpu_uf_list V3D_QPU_UF_ANDZ) = Inr y"
    if "unat p div 4 mod 4 \<noteq> 0"
    using that by (intro uf_decodes) (simp add: word_unat_eq_iff unat_AND_3 unat_drop_bit_u32)
  have 1: "unat p div 4 mod 4 \<noteq> 0" if "drop_bit 4 p = 0" "drop_bit 2 p \<noteq> 0"
    using that by (simp add: word_unat_eq_iff unat_drop_bit_u32)
  have 2: "unat p div 4 mod 4 \<noteq> 0" if "drop_bit 4 p = 1" "drop_bit 2 p \<noteq> 4"
    using that by (intro quarter_nonzero) (simp_all add: word_unat_eq_iff unat_drop_bit_u32)
  have 3: "unat p div 4 mod 4 \<noteq> 0" if "drop_bit 2 p AND 3 \<noteq> 0"
    using that by (simp add: word_unat_eq_iff unat_AND_3 unat_drop_bit_u32)
  show ?thesis
    using assms u 1 2 3 unfolding v3d_qpu_flags_unpack_def Let_def c q
    by (auto simp: bindR_Inl_iff split: if_splits)
qed

lemma binop_ranges:
  "\<forall>d\<in>set add_ops. desc_op d \<in> float32_binops \<longrightarrow>
    (opcode_first d, opcode_last d) \<in> {(0, 47), (64, 111), (128, 175), (192, 239)}"
  by (simp add: add_ops_def)

lemma binop_last:
  "\<forall>d\<in>set add_ops. desc_op d \<in> float32_binops \<longrightarrow> unat (ucast (opcode_last d) :: u32) \<le> 239"
  by (simp add: add_ops_def)

lemma round_masks:
  "\<forall>d\<in>set add_ops. desc_op d \<in> float32_roundops \<longrightarrow> mux_b_mask d \<in> {7, 112}"
  by (simp add: add_ops_def)

lemma vf_ranges:
  "\<forall>d\<in>set add_ops. desc_op d \<in> float16_binops \<longrightarrow>
    (opcode_first d, opcode_last d) \<in> {(176, 180), (240, 244)}"
  by (simp add: add_ops_def)

lemma output_pack_decodes: "unat v < 3 \<Longrightarrow> \<exists>y. enum_decode v3d_qpu_output_pack_list v = Inr y"
  by (simp add: enum_decode_def v3d_qpu_output_pack_list_def)

lemma binop_pack_decodes:
  assumes l: "lookup_opcode add_ops opc ma mb = Some d" and x: "desc_op d \<in> float32_binops"
  shows "unat (drop_bit 4 opc AND 3) < 3"
proof -
  note s = lookup_opcode_Some [OF l]
  then have r: "(opcode_first d, opcode_last d) \<in> {(0, 47), (64, 111), (128, 175), (192, 239)}"
    using binop_ranges x by blast
  have f: "unat (ucast (opcode_first d) :: u32) \<le> unat opc" "unat opc \<le> unat (ucast (opcode_last d) :: u32)"
    using s by (simp_all add: word_le_nat_alt)
  have "\<exists>k. 64 * k \<le> unat opc \<and> unat opc \<le> 64 * k + 47"
    using r f by (auto intro: exI [of _ 0] exI [of _ 1] exI [of _ 2] exI [of _ 3])
  then have "unat opc div 16 mod 4 < 3" using third_of_four by blast
  then show ?thesis by (simp add: unat_AND_3 unat_drop_bit_u32)
qed

lemma round_pack_decodes:
  assumes l: "lookup_opcode add_ops opc ma (enum_value v3d_qpu_mux_list b) = Some d"
    and x: "desc_op d \<in> float32_roundops"
  shows "unat (enum_value v3d_qpu_mux_list b AND 3) < 3"
proof -
  note s = lookup_opcode_Some [OF l]
  then have "mux_b_mask d \<in> {7, 112}" using round_masks x by blast
  then show ?thesis using s by (cases b) auto
qed

lemma add_map_id:
  assumes "unat (add_map_op opc) < 245"
  shows "add_map_op opc = opc"
proof -
  have a: "unat (x - b + 245) = unat x - unat b + 245"
    if "b \<le> x" "unat x < 256" for x b :: u32
    using that by (simp add: unat_word_ariths unat_sub word_le_nat_alt)
  have 1: "245 \<le> unat (opc - 249 + 245)" if "249 \<le> opc" "opc \<le> 251"
    using a [of 249 opc] that by (simp add: word_le_nat_alt)
  have 2: "245 \<le> unat (opc - 253 + 245)" if "253 \<le> opc" "opc \<le> 255"
    using a [of 253 opc] that by (simp add: word_le_nat_alt)
  have 3: "\<not> 253 \<le> opc - 249 + 245" if "249 \<le> opc" "opc \<le> 251"
    using a [of 249 opc] that by (simp add: word_le_nat_alt)
  show ?thesis
    using assms 1 2 3 unfolding add_map_op_def Let_def
    by (cases "249 \<le> opc \<and> opc \<le> 251"; cases "253 \<le> opc \<and> opc \<le> 255") (simp_all only: if_True if_False simp_thms; force)+
qed

lemma unpack_unpack_faults:
  "v3d_qpu_float32_unpack_unpack v = Inl e \<Longrightarrow> e = Return_False"
  "v3d_qpu_float16_unpack_unpack v = Inl e \<Longrightarrow> e = Return_False"
  by (auto simp: v3d_qpu_float32_unpack_unpack_def v3d_qpu_float16_unpack_unpack_def split: if_splits)

lemma add_unpack_op_desc:
  assumes "add_unpack_op opc ma mb wa = Inr x"
  shows "\<exists>d. lookup_opcode add_ops (add_map_op opc) ma mb = Some d \<and>
    (x \<in> float32_binops \<longrightarrow> desc_op d \<in> float32_binops) \<and>
    (x \<in> float32_roundops \<longrightarrow> desc_op d = x)"
proof -
  obtain d where d: "lookup_opcode add_ops (add_map_op opc) ma mb = Some d"
    using assms by (auto simp: add_unpack_op_def split: option.splits)
  then show ?thesis
    using assms unfolding add_unpack_op_def d Let_def by (auto split: if_splits)
qed

lemma add_unpack_modifiers_fault:
  assumes op: "add_unpack_op opc ma (enum_value v3d_qpu_mux_list b) wa = Inr x"
    and md: "add_unpack_modifiers x opc (enum_value v3d_qpu_mux_list b) h = Inl e"
  shows "e = Return_False"
proof -
  obtain d where d: "lookup_opcode add_ops (add_map_op opc) ma (enum_value v3d_qpu_mux_list b) = Some d"
    and x: "x \<in> float32_binops \<Longrightarrow> desc_op d \<in> float32_binops"
      "x \<in> float32_roundops \<Longrightarrow> desc_op d \<in> float32_roundops"
    using add_unpack_op_desc [OF op] by blast
  have 1: "\<exists>y. enum_decode v3d_qpu_output_pack_list (drop_bit 4 opc AND 3) = Inr y" if "x \<in> float32_binops"
  proof -
    have s: "d \<in> set add_ops" "unat (add_map_op opc) \<le> unat (ucast (opcode_last d) :: u32)"
      using lookup_opcode_Some [OF d] by (simp_all add: word_le_nat_alt)
    have "unat (ucast (opcode_last d) :: u32) \<le> 239" using binop_last s(1) x(1) [OF that] by blast
    then have "unat (add_map_op opc) < 245" using s(2) by linarith
    from add_map_id [OF this] show ?thesis
      using binop_pack_decodes [OF d x(1) [OF that]] by (intro output_pack_decodes) simp
  qed
  have 2: "\<exists>y. enum_decode v3d_qpu_output_pack_list (enum_value v3d_qpu_mux_list b AND 3) = Inr y"
    if "x \<in> float32_roundops"
    using round_pack_decodes [OF d x(2) [OF that]] by (rule output_pack_decodes)
  show ?thesis
  proof (cases "x \<in> float32_binops")
    case True
    obtain y where "enum_decode v3d_qpu_output_pack_list (drop_bit 4 opc AND 3) = Inr y"
      using 1 [OF True] by blast
    with md show ?thesis unfolding add_unpack_modifiers_def if_P [OF True]
      by (auto simp: bindR_Inl_iff dest: unpack_unpack_faults)
  next
    case nb: False
    show ?thesis
    proof (cases "x \<in> float32_roundops")
      case True
      obtain y where "enum_decode v3d_qpu_output_pack_list (enum_value v3d_qpu_mux_list b AND 3) = Inr y"
        using 2 [OF True] by blast
      with md show ?thesis unfolding add_unpack_modifiers_def if_not_P [OF nb] if_P [OF True]
        by (auto simp: bindR_Inl_iff dest: unpack_unpack_faults)
    next
      case False
      with md show ?thesis unfolding add_unpack_modifiers_def if_not_P [OF nb] if_not_P [OF False]
        by (simp only: bindR_Inl_iff Inr_not_Inl split: if_splits) (auto dest: unpack_unpack_faults)
    qed
  qed
qed

lemma add_unpack_op_fault: "add_unpack_op opc ma mb wa = Inl e \<Longrightarrow> e = Return_False"
  by (auto simp: add_unpack_op_def Let_def split: option.splits if_splits)

lemma GET_mux:
  "field_ok f \<Longrightarrow> field_width f = 3 \<Longrightarrow> \<exists>m. QPU_GET_FIELD w f = enum_value v3d_qpu_mux_list m"
  using GET_bound [of f w] by (intro mux_of_value) simp

lemma add_unpack_fault:
  assumes "v3d_qpu_add_unpack w i = Inl e"
  shows "e = Return_False"
proof -
  obtain a b where ab: "QPU_GET_FIELD w VC5_QPU_ADD_A = enum_value v3d_qpu_mux_list a"
      "QPU_GET_FIELD w VC5_QPU_ADD_B = enum_value v3d_qpu_mux_list b"
    using GET_mux [of VC5_QPU_ADD_A w] GET_mux [of VC5_QPU_ADD_B w] by (auto simp: field_eval)
  show ?thesis
    using assms unfolding v3d_qpu_add_unpack_def Let_def ab
    by (auto simp: bindR_Inl_iff mux.decode_value dest: add_unpack_op_fault add_unpack_modifiers_fault)
qed

lemma fmul_range: "\<forall>d\<in>set mul_ops. desc_op d = V3D_QPU_M_FMUL \<longrightarrow>
    opcode_first d = 16 \<and> opcode_last d = 63"
  by (simp add: mul_ops_def)

lemma fmov_range: "\<forall>d\<in>set mul_ops. desc_op d = V3D_QPU_M_FMOV \<longrightarrow>
    opcode_first d = 14 \<and> opcode_last d = 14 \<or> opcode_first d = 15 \<and> opcode_last d = 15 \<and> mux_b_mask d = 15"
  by (simp add: mul_ops_def)

lemma fmul_pack_decodes:
  fixes opc :: u32
  assumes "16 \<le> unat opc" "unat opc \<le> 63"
  shows "unat ((drop_bit 4 opc AND 3) - 1) < 3"
proof -
  have "1 \<le> unat opc div 16" "unat opc div 16 \<le> 3"
    using div_le_mono [OF assms(1), of 16] div_le_mono [OF assms(2), of 16] by simp_all
  then have u: "unat (drop_bit 4 opc AND 3) = unat opc div 16"
    by (simp only: unat_AND_3 unat_drop_bit_u32) simp
  then have "1 \<le> drop_bit 4 opc AND 3"
    using \<open>1 \<le> unat opc div 16\<close> by (simp only: word_le_nat_alt unat_1)
  then have "unat ((drop_bit 4 opc AND 3) - 1) = unat opc div 16 - 1" by (simp only: unat_sub u unat_1)
  then show ?thesis using \<open>unat opc div 16 \<le> 3\<close> by linarith
qed

lemma fmov_pack_decodes:
  assumes l: "lookup_opcode mul_ops opc ma (enum_value v3d_qpu_mux_list b) = Some d"
    and x: "desc_op d = V3D_QPU_M_FMOV"
  shows "unat (push_bit 1 (opc AND 1) + (drop_bit 2 (enum_value v3d_qpu_mux_list b) AND 1)) < 3"
proof -
  note s = lookup_opcode_Some [OF l]
  then consider "opcode_first d = 14" "opcode_last d = 14"
    | "opcode_first d = 15" "opcode_last d = 15" "mux_b_mask d = 15"
    using fmov_range x by blast
  then show ?thesis
  proof cases
    case 1
    then have "opc = 14" using s by (simp add: order_antisym)
    then show ?thesis by (cases b) simp_all
  next
    case 2
    then have "opc = 15" using s by (simp add: order_antisym)
    then show ?thesis using s 2(3) by (cases b) simp_all
  qed
qed

lemma mul_unpack_modifiers_fault:
  assumes l: "lookup_opcode mul_ops opc ma (enum_value v3d_qpu_mux_list b) = Some d"
    and md: "mul_unpack_modifiers (desc_op d) opc (enum_value v3d_qpu_mux_list b) h = Inl e"
  shows "e = Return_False"
proof -
  note s = lookup_opcode_Some [OF l]
  have 1: "\<exists>y. enum_decode v3d_qpu_output_pack_list ((drop_bit 4 opc AND 3) - 1) = Inr y"
    if "desc_op d = V3D_QPU_M_FMUL"
  proof -
    have "opcode_first d = 16" "opcode_last d = 63" using fmul_range s that by blast+
    then have "16 \<le> unat opc" "unat opc \<le> 63" using s by (simp_all add: word_le_nat_alt)
    then show ?thesis by (intro output_pack_decodes fmul_pack_decodes)
  qed
  have 2: "\<exists>y. enum_decode v3d_qpu_output_pack_list
      (push_bit 1 (opc AND 1) + (drop_bit 2 (enum_value v3d_qpu_mux_list b) AND 1)) = Inr y"
    if "desc_op d = V3D_QPU_M_FMOV"
    using fmov_pack_decodes [OF l that] by (rule output_pack_decodes)
  show ?thesis
    using md 1 2 unfolding mul_unpack_modifiers_def
    by (cases "desc_op d") (auto simp: bindR_Inl_iff dest: unpack_unpack_faults)
qed

lemma mul_unpack_fault:
  assumes "v3d_qpu_mul_unpack w i = Inl e"
  shows "e = Return_False"
proof -
  obtain a b where ab: "QPU_GET_FIELD w VC5_QPU_MUL_A = enum_value v3d_qpu_mux_list a"
      "QPU_GET_FIELD w VC5_QPU_MUL_B = enum_value v3d_qpu_mux_list b"
    using GET_mux [of VC5_QPU_MUL_A w] GET_mux [of VC5_QPU_MUL_B w] by (auto simp: field_eval)
  show ?thesis
    using assms unfolding v3d_qpu_mul_unpack_def Let_def ab
    by (auto simp: bindR_Inl_iff mux.decode_value split: option.splits dest: mul_unpack_modifiers_fault)
qed

lemma sig_unpack_fault: "v3d_qpu_sig_unpack p = Inl e \<Longrightarrow> e = Return_False"
  by (auto simp: v3d_qpu_sig_unpack_def Let_def bindR_Inl_iff dest: guardR_fault)

lemma alu_unpack_fault: "v3d_qpu_instr_unpack_alu w i = Inl e \<Longrightarrow> e = Return_False"
  unfolding v3d_qpu_instr_unpack_alu_def
  by (auto simp: bindR_Inl_iff dest: sig_unpack_fault flags_unpack_fault add_unpack_fault mul_unpack_fault)

lemma branch_cond_bound:
  assumes "unat c < 8" "c \<noteq> 0"
    "enum_value v3d_qpu_branch_cond_list V3D_QPU_BRANCH_COND_A0 + (c - 2)
       \<le> enum_value v3d_qpu_branch_cond_list V3D_QPU_BRANCH_COND_ALLNA"
  shows "\<exists>y. enum_decode v3d_qpu_branch_cond_list
    (enum_value v3d_qpu_branch_cond_list V3D_QPU_BRANCH_COND_A0 + (c - 2)) = Inr y"
  using assms(3) by (simp add: enum_decode_def v3d_qpu_branch_cond_list_def word_le_nat_alt)

lemma dest_length: "length v3d_qpu_branch_dest_list = 4"
  by (simp add: v3d_qpu_branch_dest_list_def)

lemma branch_unpack_fault:
  assumes "v3d_qpu_instr_unpack_branch w i = Inl e"
  shows "e = Return_False \<or> e = Bad_Enumerator \<and> w AND VC5_QPU_BRANCH_UB \<noteq> 0 \<and>
    4 \<le> unat (QPU_GET_FIELD w VC5_QPU_BRANCH_BDU)"
proof -
  have c: "unat (QPU_GET_FIELD w VC5_QPU_BRANCH_COND) < 8"
    using GET_bound [of VC5_QPU_BRANCH_COND w] by (simp add: field_eval)
  let ?c = "if QPU_GET_FIELD w VC5_QPU_BRANCH_COND = 0 then Inr V3D_QPU_BRANCH_COND_ALWAYS
    else if enum_value v3d_qpu_branch_cond_list V3D_QPU_BRANCH_COND_A0 +
         (QPU_GET_FIELD w VC5_QPU_BRANCH_COND - 2)
        \<le> enum_value v3d_qpu_branch_cond_list V3D_QPU_BRANCH_COND_ALLNA
    then enum_decode v3d_qpu_branch_cond_list
        (enum_value v3d_qpu_branch_cond_list V3D_QPU_BRANCH_COND_A0 +
         (QPU_GET_FIELD w VC5_QPU_BRANCH_COND - 2))
    else Inl Return_False"
  have cond: "x = Return_False" if "?c = Inl x" for x
    using that branch_cond_bound [OF c] by (auto split: if_splits)
  have m: "\<exists>y. enum_decode v3d_qpu_msfign_list (QPU_GET_FIELD w VC5_QPU_BRANCH_MSFIGN) = Inr y"
    if "QPU_GET_FIELD w VC5_QPU_BRANCH_MSFIGN \<noteq> 3"
  proof -
    have "unat (QPU_GET_FIELD w VC5_QPU_BRANCH_MSFIGN) \<noteq> 3" using that by (simp add: word_unat_eq_iff)
    then show ?thesis
      using GET_bound [of VC5_QPU_BRANCH_MSFIGN w]
      by (simp add: field_eval enum_decode_def v3d_qpu_msfign_list_def)
  qed
  obtain y where d: "enum_decode v3d_qpu_branch_dest_list (QPU_GET_FIELD w VC5_QPU_BRANCH_BDI) = Inr y"
    using GET_bound [of VC5_QPU_BRANCH_BDI w]
    by (simp add: field_eval enum_decode_def v3d_qpu_branch_dest_list_def)
  have bdu: "x = Bad_Enumerator \<and> w AND VC5_QPU_BRANCH_UB \<noteq> 0 \<and>
      4 \<le> unat (QPU_GET_FIELD w VC5_QPU_BRANCH_BDU)"
    if "(if w AND VC5_QPU_BRANCH_UB \<noteq> 0 then enum_decode v3d_qpu_branch_dest_list
           (QPU_GET_FIELD w VC5_QPU_BRANCH_BDU) else Inr (br_bdu (branch i))) = Inl x" for x
    using that by (auto simp: branch_dest.decode_fault dest_length split: if_splits)
  show ?thesis
  proof (cases "QPU_GET_FIELD w VC5_QPU_BRANCH_MSFIGN = 3")
    case True
    then show ?thesis
      using assms unfolding v3d_qpu_instr_unpack_branch_def Let_def
      by (simp only: simp_thms guardR_simps bindR_simps bindR_Inl_iff) (use cond in blast)
  next
    case False
    then obtain z where z: "enum_decode v3d_qpu_msfign_list (QPU_GET_FIELD w VC5_QPU_BRANCH_MSFIGN) = Inr z"
      using m by blast
    have g: "guardR (QPU_GET_FIELD w VC5_QPU_BRANCH_MSFIGN \<noteq> 3) = Inr ()" using False by simp
    show ?thesis
      using assms unfolding v3d_qpu_instr_unpack_branch_def Let_def d z g bindR_simps
      by (simp only: bindR_Inl_iff Inr_not_Inl simp_thms) (use cond bdu in blast)
  qed
qed

text \<open>
  C28. Unpacking any 64-bit word into any structure ends with an instruction, with
  \<open>return false\<close>, or, for a branch with the \<open>ub\<close> bit, by storing a value of four or more
  in \<open>bdu\<close>, which is no enumerator of its type; it never trips an assertion.
\<close>

theorem instr_unpack_fault:
  assumes "v3d_qpu_instr_unpack w i = Inl e"
  shows "e = Return_False \<or> e = Bad_Enumerator \<and> QPU_GET_FIELD w VC5_QPU_OP_MUL = 0 \<and>
    w AND VC5_QPU_BRANCH_UB \<noteq> 0 \<and> 4 \<le> unat (QPU_GET_FIELD w VC5_QPU_BRANCH_BDU)"
  using assms unfolding v3d_qpu_instr_unpack_def Let_def
  by (auto split: if_splits dest: alu_unpack_fault branch_unpack_fault)

theorem instr_unpack_fault_witness:
  "v3d_qpu_instr_unpack (216170278131126272 OR push_bit 17 1) sample_instr = Inl Bad_Enumerator \<and>
   4 \<le> unat (QPU_GET_FIELD (216170278131126272 OR push_bit 17 1) VC5_QPU_BRANCH_BDU)"
proof -
  have u: "v3d_qpu_instr_unpack (216170278131126272 OR push_bit 17 1) sample_instr = Inl Bad_Enumerator"
    by code_simp
  then show ?thesis using instr_unpack_fault [OF u] by simp
qed

end
