(* ===== verification/Qpu_Disasm.thy ===== *)
theory Qpu_Disasm
  imports Qpu_Pack
begin

text \<open>
  The disassembler, \<^verbatim>\<open>src/src/broadcom/qpu/qpu_disasm.c\<close>. The \<open>printf\<close> conversions the code
  uses (\<open>%d\<close>, \<open>%s\<close>, \<open>%08x\<close>) are functions to strings. Allocation never fails here, as the
  code does not test it. An out-of-range index into the table of names is a fault.
\<close>

unbundle bit_operations_syntax

section \<open>Number formats\<close>

function digits :: "int \<Rightarrow> int \<Rightarrow> string" where
  "digits base n =
     (if base < 2 \<or> n < base then [''0123456789abcdef'' ! nat n]
      else digits base (n div base) @ [''0123456789abcdef'' ! nat (n mod base)])"
  by pat_completeness auto
termination
  by (relation "measure (\<lambda>(b, n). nat n)") (auto intro!: int_div_less_self)

declare digits.simps [simp del]

text \<open>\<open>%d\<close> of a 32-bit value and \<open>%08x\<close>.\<close>

definition fmt_d :: "u32 \<Rightarrow> string" where
  "fmt_d v = (let i = sint v in
              if i < 0 then ''-'' @ digits 10 (- i) else digits 10 i)"

definition fmt_08x :: "u32 \<Rightarrow> string" where
  "fmt_08x v = (let s = digits 16 (uint v) in replicate (8 - length s) CHR ''0'' @ s)"

section \<open>The output buffer\<close>

record disasm_state =
  dis_string :: string
  dis_offset :: nat

text \<open>\<open>ralloc_vasprintf_rewrite_tail\<close> writes at the offset and ends the string there.\<close>

definition append_str :: "string \<Rightarrow> disasm_state \<Rightarrow> disasm_state" where
  "append_str s d = \<lparr>dis_string = take (dis_offset d) (dis_string d) @ s,
                     dis_offset = dis_offset d + length s\<rparr>"

function pad_to :: "nat \<Rightarrow> disasm_state \<Rightarrow> disasm_state" where
  "pad_to n d = (if dis_offset d < n then pad_to n (append_str '' '' d) else d)"
  by pat_completeness auto
termination
  by (relation "measure (\<lambda>(n, d). n - dis_offset d)") (auto simp: append_str_def)

declare pad_to.simps [simp del]

section \<open>Operands\<close>

definition v3d_qpu_disasm_raddr :: "v3d_qpu_instr \<Rightarrow> v3d_qpu_mux \<Rightarrow> disasm_state \<Rightarrow> disasm_state" where
  "v3d_qpu_disasm_raddr instr m =
     (if m = V3D_QPU_MUX_A then append_str (''rf'' @ fmt_d (ucast (raddr_a instr)))
      else if m = V3D_QPU_MUX_B then append_str (''rf'' @ fmt_d (ucast (raddr_b instr)))
      else append_str (''r'' @ fmt_d (enum_value v3d_qpu_mux_list m)))"

definition v3d_qpu_disasm_waddr :: "u8 \<Rightarrow> bool \<Rightarrow> disasm_state \<Rightarrow> disasm_state res" where
  "v3d_qpu_disasm_waddr w magic d =
     (if \<not> magic then Inr (append_str (''rf'' @ fmt_d (ucast w)) d)
      else bindR (v3d_qpu_magic_waddr_name w) (\<lambda>name.
        case name of
          Some s \<Rightarrow> Inr (append_str s d)
        | None \<Rightarrow> Inr (append_str (''waddr UNKNOWN '' @ fmt_d (ucast w)) d)))"

section \<open>The two ALU halves, the signals and branches\<close>

definition v3d_qpu_disasm_add :: "v3d_qpu_instr \<Rightarrow> disasm_state \<Rightarrow> disasm_state res" where
  "v3d_qpu_disasm_add instr d =
     (let half = alu_add instr; x = alu_op half;
          has_dst = v3d_qpu_add_op_has_dst x;
          num_src = v3d_qpu_add_op_num_src x;
          d = append_str (v3d_qpu_add_op_name x) d;
          d = append_str (v3d_qpu_cond_name (ac (flags instr))) d;
          d = append_str (v3d_qpu_pf_name (apf (flags instr))) d;
          d = append_str (v3d_qpu_uf_name (auf (flags instr))) d;
          d = append_str ''  '' d
      in
      bindR (if has_dst
             then bindR (v3d_qpu_disasm_waddr (waddr half) (magic_write half) d) (\<lambda>d.
                  Inr (append_str (v3d_qpu_pack_name (output_pack half)) d))
             else Inr d) (\<lambda>d.
      let d = (if num_src \<ge> 1
               then append_str (v3d_qpu_unpack_name (a_unpack half))
                      (v3d_qpu_disasm_raddr instr (mux_a half)
                        (if has_dst then append_str '', '' d else d))
               else d);
          d = (if num_src \<ge> 2
               then append_str (v3d_qpu_unpack_name (b_unpack half))
                      (v3d_qpu_disasm_raddr instr (mux_b half) (append_str '', '' d))
               else d)
      in Inr d))"

definition v3d_qpu_disasm_mul :: "v3d_qpu_instr \<Rightarrow> disasm_state \<Rightarrow> disasm_state res" where
  "v3d_qpu_disasm_mul instr d =
     (let half = alu_mul instr; x = alu_op half;
          has_dst = v3d_qpu_mul_op_has_dst x;
          num_src = v3d_qpu_mul_op_num_src x;
          d = pad_to 21 d;
          d = append_str ''; '' d;
          d = append_str (v3d_qpu_mul_op_name x) d;
          d = append_str (v3d_qpu_cond_name (mc (flags instr))) d;
          d = append_str (v3d_qpu_pf_name (mpf (flags instr))) d;
          d = append_str (v3d_qpu_uf_name (muf (flags instr))) d
      in
      if x = V3D_QPU_M_NOP then Inr d
      else
      let d = append_str ''  '' d in
      bindR (if has_dst
             then bindR (v3d_qpu_disasm_waddr (waddr half) (magic_write half) d) (\<lambda>d.
                  Inr (append_str (v3d_qpu_pack_name (output_pack half)) d))
             else Inr d) (\<lambda>d.
      let d = (if num_src \<ge> 1
               then append_str (v3d_qpu_unpack_name (a_unpack half))
                      (v3d_qpu_disasm_raddr instr (mux_a half)
                        (if has_dst then append_str '', '' d else d))
               else d);
          d = (if num_src \<ge> 2
               then append_str (v3d_qpu_unpack_name (b_unpack half))
                      (v3d_qpu_disasm_raddr instr (mux_b half) (append_str '', '' d))
               else d)
      in Inr d))"

definition v3d_qpu_disasm_sig :: "v3d_qpu_instr \<Rightarrow> disasm_state \<Rightarrow> disasm_state" where
  "v3d_qpu_disasm_sig instr d =
     (let s = sig instr in
      if \<not> thrsw s \<and> \<not> ldvary s \<and> \<not> ldvpm s \<and> \<not> ldtmu s \<and> \<not> ldunif s \<and> \<not> wrtmuc s then d
      else
      let d = pad_to 41 d;
          d = (if thrsw s then append_str ''; thrsw'' d else d);
          d = (if ldvary s then append_str ''; ldvary'' d else d);
          d = (if ldvpm s then append_str ''; ldvpm'' d else d);
          d = (if ldtmu s then append_str ''; ldtmu'' d else d);
          d = (if ldunif s then append_str ''; ldunif'' d else d)
      in if wrtmuc s then append_str ''; wrtmuc'' d else d)"

definition v3d_qpu_disasm_alu :: "v3d_qpu_instr \<Rightarrow> disasm_state \<Rightarrow> disasm_state res" where
  "v3d_qpu_disasm_alu instr d =
     bindR (v3d_qpu_disasm_add instr d) (\<lambda>d.
     bindR (v3d_qpu_disasm_mul instr d) (\<lambda>d.
     Inr (v3d_qpu_disasm_sig instr d)))"

definition v3d_qpu_disasm_branch :: "v3d_qpu_instr \<Rightarrow> disasm_state \<Rightarrow> disasm_state" where
  "v3d_qpu_disasm_branch instr d =
     (let br = branch instr;
          d = append_str ''b'' d;
          d = (if br_ub br then append_str ''u'' d else d);
          d = append_str (v3d_qpu_branch_cond_name (br_cond br)) d;
          d = append_str (v3d_qpu_msfign_name (br_msfign br)) d;
          d = (case br_bdi br of
                 V3D_QPU_BRANCH_DEST_ABS \<Rightarrow> append_str (''  zero_addr+0x'' @ fmt_08x (br_offset br)) d
               | V3D_QPU_BRANCH_DEST_REL \<Rightarrow> append_str (''  '' @ fmt_d (br_offset br)) d
               | V3D_QPU_BRANCH_DEST_LINK_REG \<Rightarrow> append_str ''  lri'' d
               | V3D_QPU_BRANCH_DEST_REGFILE \<Rightarrow>
                   append_str (''  rf'' @ fmt_d (ucast (br_raddr_a br))) d)
      in if br_ub br
         then (case br_bdu br of
                 V3D_QPU_BRANCH_DEST_ABS \<Rightarrow> append_str '', a:unif'' d
               | V3D_QPU_BRANCH_DEST_REL \<Rightarrow> append_str '', r:unif'' d
               | V3D_QPU_BRANCH_DEST_LINK_REG \<Rightarrow> append_str '', lri'' d
               | V3D_QPU_BRANCH_DEST_REGFILE \<Rightarrow>
                   append_str ('', rf'' @ fmt_d (ucast (br_raddr_a br))) d)
         else d)"

section \<open>Entry points\<close>

definition v3d_qpu_decode :: "v3d_qpu_instr \<Rightarrow> string res" where
  "v3d_qpu_decode instr =
     (let d = \<lparr>dis_string = '''', dis_offset = 0\<rparr> in
      bindR (case instr_type instr of
               V3D_QPU_INSTR_TYPE_ALU \<Rightarrow> v3d_qpu_disasm_alu instr d
             | V3D_QPU_INSTR_TYPE_BRANCH \<Rightarrow> Inr (v3d_qpu_disasm_branch instr d)) (\<lambda>d.
      Inr (dis_string d)))"

text \<open>
  The local structure of \<open>v3d_qpu_disasm\<close> is uninitialised: its contents are the parameter
  \<open>junk\<close>. A failing \<open>v3d_qpu_instr_unpack\<close> trips the assertion.
\<close>

definition v3d_qpu_disasm :: "v3d_qpu_instr \<Rightarrow> u64 \<Rightarrow> string res" where
  "v3d_qpu_disasm junk inst =
     (case v3d_qpu_instr_unpack inst junk of
        Inr instr \<Rightarrow> v3d_qpu_decode instr
      | Inl Return_False \<Rightarrow> Inl Assert_Failed
      | Inl e \<Rightarrow> Inl e)"

end
