(* ===== verification/Qpu_Text.thy ===== *)
theory Qpu_Text
  imports Qpu_Disasm Qpu_Roundtrip
begin

text \<open>
  The text the disassembler produces. The specification is a pure function from instructions
  to strings; the code, which writes into a growing buffer at an offset, produces exactly that
  text, and fails exactly when it would read past the end of the table of magic write
  addresses.
\<close>

unbundle bit_operations_syntax

section \<open>The buffer\<close>

definition buffer :: "string \<Rightarrow> disasm_state" where
  "buffer s = \<lparr>dis_string = s, dis_offset = length s\<rparr>"

lemma append_buffer [simp]: "append_str s (buffer t) = buffer (t @ s)"
  by (simp add: append_str_def buffer_def)

lemma string_buffer [simp]: "dis_string (buffer t) = t"
  by (simp add: buffer_def)

definition padded :: "nat \<Rightarrow> string \<Rightarrow> string" where
  "padded n s = s @ replicate (n - length s) CHR '' ''"

lemma pad_to_buffer [simp]: "pad_to n (buffer s) = buffer (padded n s)"
proof (induction "n - length s" arbitrary: s)
  case 0
  then show ?case by (subst pad_to.simps) (simp add: padded_def buffer_def)
next
  case (Suc k)
  then have lt: "length s < n" and k: "k = n - length (s @ '' '')" by simp_all
  have r: "replicate (n - length s) CHR '' '' = CHR '' '' # replicate (n - Suc (length s)) CHR '' ''"
    using lt by (simp add: Suc_diff_Suc flip: replicate_Suc)
  have "pad_to n (buffer s) = pad_to n (buffer (s @ '' ''))"
    using lt by (subst pad_to.simps) (simp add: buffer_def append_str_def)
  also have "\<dots> = buffer (padded n (s @ '' ''))" by (rule Suc.hyps(1) [OF k])
  finally show ?case using r by (simp add: padded_def)
qed

section \<open>The specification\<close>

definition raddr_text :: "v3d_qpu_instr \<Rightarrow> v3d_qpu_mux \<Rightarrow> string" where
  "raddr_text instr m =
     (if m = V3D_QPU_MUX_A then ''rf'' @ fmt_d (ucast (raddr_a instr))
      else if m = V3D_QPU_MUX_B then ''rf'' @ fmt_d (ucast (raddr_b instr))
      else ''r'' @ fmt_d (enum_value v3d_qpu_mux_list m))"

definition waddr_text :: "u8 \<Rightarrow> bool \<Rightarrow> string" where
  "waddr_text w magic =
     (if magic then (case waddr_magic ! unat w of
         Some s \<Rightarrow> s | None \<Rightarrow> ''waddr UNKNOWN '' @ fmt_d (ucast w))
      else ''rf'' @ fmt_d (ucast w))"

text \<open>Destination and operands, separated by commas.\<close>

definition operands_text :: "v3d_qpu_instr \<Rightarrow> bool \<Rightarrow> nat \<Rightarrow> 'o v3d_qpu_alu \<Rightarrow> string" where
  "operands_text instr has_dst num_src half =
     (let dst = (if has_dst then [waddr_text (waddr half) (magic_write half) @
                   v3d_qpu_pack_name (output_pack half)] else []);
          src = map (\<lambda>(m, u). raddr_text instr m @ v3d_qpu_unpack_name u) (operands num_src half)
      in concat (case dst @ src of [] \<Rightarrow> [] | x # xs \<Rightarrow> x # map (\<lambda>y. '', '' @ y) xs))"

definition add_text :: "v3d_qpu_instr \<Rightarrow> string" where
  "add_text instr =
     (let half = alu_add instr; x = alu_op half in
      v3d_qpu_add_op_name x @ v3d_qpu_cond_name (ac (flags instr)) @
      v3d_qpu_pf_name (apf (flags instr)) @ v3d_qpu_uf_name (auf (flags instr)) @ ''  '' @
      operands_text instr (v3d_qpu_add_op_has_dst x) (v3d_qpu_add_op_num_src x) half)"

definition mul_text :: "v3d_qpu_instr \<Rightarrow> string" where
  "mul_text instr =
     (let half = alu_mul instr; x = alu_op half in
      ''; '' @ v3d_qpu_mul_op_name x @ v3d_qpu_cond_name (mc (flags instr)) @
      v3d_qpu_pf_name (mpf (flags instr)) @ v3d_qpu_uf_name (muf (flags instr)) @
      (if x = V3D_QPU_M_NOP then [] else ''  '' @
       operands_text instr (v3d_qpu_mul_op_has_dst x) (v3d_qpu_mul_op_num_src x) half))"

definition sig_text :: "v3d_qpu_sig \<Rightarrow> string" where
  "sig_text s = concat (map (\<lambda>(b, n). if b then ''; '' @ n else [])
     [(thrsw s, ''thrsw''), (ldvary s, ''ldvary''), (ldvpm s, ''ldvpm''), (ldtmu s, ''ldtmu''),
      (ldunif s, ''ldunif''), (wrtmuc s, ''wrtmuc'')])"

definition alu_text :: "v3d_qpu_instr \<Rightarrow> string" where
  "alu_text instr =
     (let halves = padded 21 (add_text instr) @ mul_text instr; s = sig_text (sig instr) in
      if s = [] then halves else padded 41 halves @ s)"

text \<open>The names that lie past the end of the table.\<close>

definition unnamed :: "'o v3d_qpu_alu \<Rightarrow> bool" where
  "unnamed half \<longleftrightarrow> magic_write half \<and> length waddr_magic \<le> unat (waddr half)"

definition unnamed_dst :: "v3d_qpu_instr \<Rightarrow> bool" where
  "unnamed_dst instr \<longleftrightarrow>
     v3d_qpu_add_op_has_dst (alu_op (alu_add instr)) \<and> unnamed (alu_add instr) \<or>
     v3d_qpu_mul_op_has_dst (alu_op (alu_mul instr)) \<and> unnamed (alu_mul instr)"

section \<open>The code writes the specified text\<close>

lemma disasm_raddr_text [simp]: "v3d_qpu_disasm_raddr instr m (buffer t) = buffer (t @ raddr_text instr m)"
  by (simp add: v3d_qpu_disasm_raddr_def raddr_text_def)

lemma disasm_waddr_text:
  "v3d_qpu_disasm_waddr (waddr half) (magic_write half) (buffer t) =
    (if unnamed half then Inl Out_Of_Bounds
     else Inr (buffer (t @ waddr_text (waddr half) (magic_write half))))"
  by (auto simp: v3d_qpu_disasm_waddr_def waddr_text_def v3d_qpu_magic_waddr_name_def unnamed_def
      split: option.splits)

lemma num_src_cases:
  "v3d_qpu_add_op_num_src x \<in> {0, 1, 2}" "v3d_qpu_mul_op_num_src y \<in> {0, 1, 2}"
  by (simp_all add: v3d_qpu_add_op_num_src_def v3d_qpu_mul_op_num_src_def Let_def)

lemma disasm_add_text:
  "v3d_qpu_disasm_add instr (buffer t) =
    (if v3d_qpu_add_op_has_dst (alu_op (alu_add instr)) \<and> unnamed (alu_add instr)
     then Inl Out_Of_Bounds else Inr (buffer (t @ add_text instr)))"
  using num_src_cases(1) [of "alu_op (alu_add instr)"]
  by (elim insertE emptyE)
    (simp_all add: v3d_qpu_disasm_add_def add_text_def operands_text_def operands_def disasm_waddr_text Let_def)

lemma mul_nop_no_dst: "\<not> v3d_qpu_mul_op_has_dst V3D_QPU_M_NOP"
  by (simp add: v3d_qpu_mul_op_has_dst_def)

lemma disasm_mul_text:
  "v3d_qpu_disasm_mul instr (buffer t) =
    (if v3d_qpu_mul_op_has_dst (alu_op (alu_mul instr)) \<and> unnamed (alu_mul instr)
     then Inl Out_Of_Bounds else Inr (buffer (padded 21 t @ mul_text instr)))"
  using num_src_cases(2) [of "alu_op (alu_mul instr)"]
  by (elim insertE emptyE)
    (simp_all add: v3d_qpu_disasm_mul_def mul_text_def operands_text_def operands_def disasm_waddr_text
      mul_nop_no_dst Let_def)

lemma disasm_sig_text:
  "v3d_qpu_disasm_sig instr (buffer t) =
    buffer (if sig_text (sig instr) = [] then t else padded 41 t @ sig_text (sig instr))"
  by (simp add: v3d_qpu_disasm_sig_def sig_text_def Let_def)

text \<open>
  C25. Disassembling an ALU instruction yields the two halves, the second one from column 21
  on, followed by the signals from column 41 on if there are any; it reads past the end of the table of names
  exactly when a half with a destination writes a magic address of 25 or more.
\<close>

theorem decode_alu_text:
  assumes "instr_type instr = V3D_QPU_INSTR_TYPE_ALU"
  shows "v3d_qpu_decode instr =
    (if unnamed_dst instr then Inl Out_Of_Bounds else Inr (alu_text instr))"
proof -
  have "\<lparr>dis_string = '''', dis_offset = 0\<rparr> = buffer []" by (simp add: buffer_def)
  then show ?thesis
    using assms
    by (simp add: v3d_qpu_decode_def v3d_qpu_disasm_alu_def disasm_add_text disasm_mul_text
        disasm_sig_text unnamed_dst_def alu_text_def Let_def)
qed

theorem decode_alu_text_witness:
  "v3d_qpu_decode sample_instr = Inr (alu_text sample_instr) \<and>
   v3d_qpu_decode (sample_instr\<lparr>alu_mul := (alu_mul sample_instr)\<lparr>waddr := 25\<rparr>\<rparr>) = Inl Out_Of_Bounds"
proof -
  have t: "instr_type sample_instr = V3D_QPU_INSTR_TYPE_ALU" "\<not> unnamed_dst sample_instr" by code_simp+
  let ?j = "sample_instr\<lparr>alu_mul := (alu_mul sample_instr)\<lparr>waddr := 25\<rparr>\<rparr>"
  have "instr_type ?j = V3D_QPU_INSTR_TYPE_ALU" "unnamed_dst ?j" by code_simp+
  then show ?thesis using t decode_alu_text [of sample_instr] decode_alu_text [of ?j] by simp
qed

end
