(* ===== verification/Qpu_Validate.thy ===== *)
theory Qpu_Validate
  imports Qpu_Instr
begin

text \<open>
  The checker of instruction sequences, \<^verbatim>\<open>src/src/broadcom/compiler/qpu_validate.c\<close>, in a
  build with \<open>DEBUG\<close> (without it \<open>qpu_validate\<close> returns at once). \<open>fail_instr\<close> prints a
  message with a dump of the program and aborts; here the run ends with the instruction
  number and the message. A block is the list of its instructions, a program the list of its
  blocks. The instruction counter is an unbounded integer; the \<^verbatim>\<open>int\<close> of the code is the same up to \<open>2\<^sup>3\<^sup>1\<close> instructions.
\<close>

section \<open>State\<close>

record v3d_qpu_validate_state =
  vs_last :: "v3d_qpu_instr option"
  vs_ip :: int
  vs_last_sfu_write :: int

type_synonym failure = "int \<times> string"

definition fail_instr :: "v3d_qpu_validate_state \<Rightarrow> string \<Rightarrow> failure" where
  "fail_instr st msg = (vs_ip st, msg)"

text \<open>The predicate is the second argument of the code; the function is not called there.\<close>

definition qpu_magic_waddr_matches :: "v3d_qpu_instr \<Rightarrow> (v3d_qpu_waddr \<Rightarrow> bool) \<Rightarrow> bool" where
  "qpu_magic_waddr_matches inst predicate =
     (if instr_type inst = V3D_QPU_INSTR_TYPE_ALU then False
      else if alu_op (alu_add inst) \<noteq> V3D_QPU_A_NOP \<and> magic_write (alu_add inst) \<and>
              predicate (waddr (alu_add inst)) then True
      else if alu_op (alu_mul inst) \<noteq> V3D_QPU_M_NOP \<and> magic_write (alu_mul inst) \<and>
              predicate (waddr (alu_mul inst)) then True
      else False)"

section \<open>One instruction\<close>

text \<open>The number of magic writes of an instruction to a class of addresses.\<close>

definition magic_writes :: "(v3d_qpu_waddr \<Rightarrow> bool) \<Rightarrow> v3d_qpu_instr \<Rightarrow> nat" where
  "magic_writes cls inst =
     (if alu_op (alu_add inst) \<noteq> V3D_QPU_A_NOP \<and> magic_write (alu_add inst) \<and>
         cls (waddr (alu_add inst)) then 1 else 0) +
     (if alu_op (alu_mul inst) \<noteq> V3D_QPU_M_NOP \<and> magic_write (alu_mul inst) \<and>
         cls (waddr (alu_mul inst)) then 1 else 0)"

definition qpu_validate_inst ::
  "v3d_qpu_validate_state \<Rightarrow> v3d_qpu_instr \<Rightarrow> failure + v3d_qpu_validate_state" where
  "qpu_validate_inst st inst =
     (if instr_type inst \<noteq> V3D_QPU_INSTR_TYPE_ALU then Inr st
      else if (case vs_last st of Some l \<Rightarrow> ldvary (sig l) \<and> ldunif (sig inst) | None \<Rightarrow> False)
      then Inl (fail_instr st ''LDUNIF after a LDVARY'')
      else
      let tmu_writes = magic_writes v3d_qpu_magic_waddr_is_tmu inst;
          sfu_writes = magic_writes v3d_qpu_magic_waddr_is_sfu inst;
          vpm_writes = magic_writes v3d_qpu_magic_waddr_is_vpm inst;
          tlb_writes = magic_writes v3d_qpu_magic_waddr_is_tlb inst;
          tsy_writes = magic_writes v3d_qpu_magic_waddr_is_tsy inst;
          soon = vs_ip st - vs_last_sfu_write st < 2
      in
      if soon \<and> v3d_qpu_uses_mux inst V3D_QPU_MUX_R4
      then Inl (fail_instr st ''R4 read too soon after SFU'')
      else if soon \<and> v3d_qpu_writes_r4 inst
      then Inl (fail_instr st ''R4 write too soon after SFU'')
      else if soon \<and> sfu_writes \<noteq> 0
      then Inl (fail_instr st ''SFU write too soon after SFU'')
      else if tmu_writes + sfu_writes + vpm_writes + tlb_writes + tsy_writes +
              of_bool (ldtmu (sig inst)) + of_bool (ldtlb (sig inst)) +
              of_bool (ldvpm (sig inst)) + of_bool (ldtlbu (sig inst)) > 1
      then Inl (fail_instr st ''Only one of [TMU, SFU, TSY, TLB read, VPM] allowed'')
      else Inr (if sfu_writes \<noteq> 0 then st\<lparr>vs_last_sfu_write := vs_ip st\<rparr> else st))"

section \<open>Blocks and programs\<close>

fun qpu_validate_block ::
  "v3d_qpu_validate_state \<Rightarrow> v3d_qpu_instr list \<Rightarrow> failure + v3d_qpu_validate_state" where
  "qpu_validate_block st [] = Inr st"
| "qpu_validate_block st (q # qs) =
     (case qpu_validate_inst st q of
        Inl e \<Rightarrow> Inl e
      | Inr st \<Rightarrow> qpu_validate_block (st\<lparr>vs_last := Some q, vs_ip := vs_ip st + 1\<rparr>) qs)"

fun validate_blocks ::
  "v3d_qpu_validate_state \<Rightarrow> v3d_qpu_instr list list \<Rightarrow> failure + v3d_qpu_validate_state" where
  "validate_blocks st [] = Inr st"
| "validate_blocks st (b # bs) =
     (case qpu_validate_block st b of Inl e \<Rightarrow> Inl e | Inr st \<Rightarrow> validate_blocks st bs)"

definition qpu_validate :: "v3d_qpu_instr list list \<Rightarrow> failure + v3d_qpu_validate_state" where
  "qpu_validate blocks =
     validate_blocks \<lparr>vs_last = None, vs_ip = 0, vs_last_sfu_write = - 10\<rparr> blocks"

section \<open>What an accepted program satisfies\<close>

text \<open>The resources an instruction claims at the peripherals.\<close>

definition peripheral_uses :: "v3d_qpu_instr \<Rightarrow> nat" where
  "peripheral_uses inst =
     magic_writes v3d_qpu_magic_waddr_is_tmu inst + magic_writes v3d_qpu_magic_waddr_is_sfu inst +
     magic_writes v3d_qpu_magic_waddr_is_vpm inst + magic_writes v3d_qpu_magic_waddr_is_tlb inst +
     magic_writes v3d_qpu_magic_waddr_is_tsy inst +
     length (filter (\<lambda>x. x) [ldtmu (sig inst), ldtlb (sig inst), ldvpm (sig inst), ldtlbu (sig inst)])"

definition writes_sfu :: "v3d_qpu_instr \<Rightarrow> bool" where
  "writes_sfu inst \<longleftrightarrow> instr_type inst = V3D_QPU_INSTR_TYPE_ALU \<and>
     magic_writes v3d_qpu_magic_waddr_is_sfu inst \<noteq> 0"

text \<open>
  The restrictions on an instruction, given the one before it in the program. Branches are
  not restricted.
\<close>

definition instr_allowed :: "v3d_qpu_instr option \<Rightarrow> v3d_qpu_instr \<Rightarrow> bool" where
  "instr_allowed prev inst \<longleftrightarrow> instr_type inst = V3D_QPU_INSTR_TYPE_ALU \<longrightarrow>
     peripheral_uses inst \<le> 1 \<and>
     (\<forall>p. prev = Some p \<longrightarrow> \<not> (ldvary (sig p) \<and> ldunif (sig inst)) \<and>
        (writes_sfu p \<longrightarrow> \<not> v3d_qpu_uses_mux inst V3D_QPU_MUX_R4 \<and> \<not> v3d_qpu_writes_r4 inst \<and>
           \<not> writes_sfu inst))"

primrec prev_instr :: "v3d_qpu_instr option \<Rightarrow> v3d_qpu_instr list \<Rightarrow> nat \<Rightarrow> v3d_qpu_instr option" where
  "prev_instr prev qs 0 = prev"
| "prev_instr prev qs (Suc k) = Some (qs ! k)"

fun program_allowed :: "v3d_qpu_instr option \<Rightarrow> v3d_qpu_instr list \<Rightarrow> bool" where
  "program_allowed prev [] \<longleftrightarrow> True"
| "program_allowed prev (q # qs) \<longleftrightarrow> instr_allowed prev q \<and> program_allowed (Some q) qs"

text \<open>The state between two instructions knows the last one and whether it wrote the SFU.\<close>

definition validate_inv :: "v3d_qpu_validate_state \<Rightarrow> bool" where
  "validate_inv st \<longleftrightarrow> vs_last_sfu_write st < vs_ip st \<and>
     (vs_ip st - vs_last_sfu_write st < 2 \<longleftrightarrow> (\<exists>p. vs_last st = Some p \<and> writes_sfu p))"

lemma peripheral_sum:
  "magic_writes v3d_qpu_magic_waddr_is_tmu inst + magic_writes v3d_qpu_magic_waddr_is_sfu inst +
     magic_writes v3d_qpu_magic_waddr_is_vpm inst + magic_writes v3d_qpu_magic_waddr_is_tlb inst +
     magic_writes v3d_qpu_magic_waddr_is_tsy inst +
     of_bool (ldtmu (sig inst)) + of_bool (ldtlb (sig inst)) +
     of_bool (ldvpm (sig inst)) + of_bool (ldtlbu (sig inst)) = peripheral_uses inst"
  by (simp add: peripheral_uses_def)

lemma inst_result:
  "(\<exists>st'. qpu_validate_inst st inst = Inr st') \<longleftrightarrow> instr_type inst \<noteq> V3D_QPU_INSTR_TYPE_ALU \<or>
    (\<forall>p. vs_last st = Some p \<longrightarrow> \<not> (ldvary (sig p) \<and> ldunif (sig inst))) \<and>
    peripheral_uses inst \<le> 1 \<and>
    (vs_ip st - vs_last_sfu_write st < 2 \<longrightarrow> \<not> v3d_qpu_uses_mux inst V3D_QPU_MUX_R4 \<and>
       \<not> v3d_qpu_writes_r4 inst \<and> magic_writes v3d_qpu_magic_waddr_is_sfu inst = 0)"
  unfolding qpu_validate_inst_def Let_def peripheral_sum by (simp split: option.split)

lemma inst_accepts_iff:
  assumes "validate_inv st"
  shows "(\<exists>st'. qpu_validate_inst st inst = Inr st') \<longleftrightarrow> instr_allowed (vs_last st) inst"
proof -
  have "vs_ip st - vs_last_sfu_write st < 2 \<longleftrightarrow> (\<exists>p. vs_last st = Some p \<and> writes_sfu p)"
    using assms by (simp add: validate_inv_def)
  moreover have "magic_writes v3d_qpu_magic_waddr_is_sfu inst = 0 \<longleftrightarrow> \<not> writes_sfu inst"
    if "instr_type inst = V3D_QPU_INSTR_TYPE_ALU" using that by (simp add: writes_sfu_def)
  ultimately show ?thesis unfolding inst_result instr_allowed_def by (cases "vs_last st") auto
qed

lemma inst_step:
  assumes "validate_inv st" "qpu_validate_inst st inst = Inr st'"
  shows "vs_ip st' = vs_ip st" "validate_inv (st'\<lparr>vs_last := Some inst, vs_ip := vs_ip st' + 1\<rparr>)"
  using assms
  by (auto simp: qpu_validate_inst_def validate_inv_def writes_sfu_def Let_def split: if_splits option.splits)

lemma block_accepts_iff:
  "validate_inv st \<Longrightarrow>
    (\<exists>st'. qpu_validate_block st qs = Inr st') \<longleftrightarrow> program_allowed (vs_last st) qs"
proof (induction qs arbitrary: st)
  case (Cons q qs)
  show ?case
  proof (cases "qpu_validate_inst st q")
    case (Inl e)
    then show ?thesis using inst_accepts_iff [OF Cons.prems, of q] by simp
  next
    case (Inr st')
    then have "instr_allowed (vs_last st) q" using inst_accepts_iff [OF Cons.prems, of q] by blast
    then show ?thesis using Inr Cons.IH [OF inst_step(2) [OF Cons.prems Inr]] by simp
  qed
qed simp

lemma block_append:
  "qpu_validate_block st (p @ q) =
    (case qpu_validate_block st p of Inl e \<Rightarrow> Inl e | Inr st \<Rightarrow> qpu_validate_block st q)"
  by (induction p arbitrary: st) (auto split: sum.splits)

lemma blocks_concat: "validate_blocks st bs = qpu_validate_block st (concat bs)"
  by (induction bs arbitrary: st) (auto simp: block_append split: sum.splits)

lemma prev_instr_Cons [simp]: "prev_instr prev (q # qs) (Suc k) = prev_instr (Some q) qs k"
  by (cases k) simp_all

declare prev_instr.simps(2) [simp del]

lemma prev_instr_take [simp]: "k < n \<Longrightarrow> prev_instr prev (take n qs) k = prev_instr prev qs k"
  by (cases k) (simp_all add: prev_instr.simps(2))

lemma program_allowed_iff:
  "program_allowed prev qs \<longleftrightarrow> (\<forall>k < length qs.
     instr_allowed (prev_instr prev qs k) (qs ! k))"
proof (induction qs arbitrary: prev)
  case (Cons q qs)
  have "(\<forall>k < length (q # qs). P k) \<longleftrightarrow> P 0 \<and> (\<forall>k < length qs. P (Suc k))" for P
    by (auto simp: less_Suc_eq_0_disj)
  then show ?case
    using Cons.IH by (simp del: length_Cons)
qed simp

text \<open>
  C16. \<open>qpu_validate\<close> accepts a program exactly when every ALU instruction, wherever the block
  boundaries lie, claims at most one of the peripherals, does not load a uniform right after
  \<open>ldvary\<close>, and right after a write to the SFU neither reads or writes \<open>r4\<close> nor writes
  the SFU.
\<close>

theorem qpu_validate_accepts_iff:
  "(\<exists>st. qpu_validate blocks = Inr st) \<longleftrightarrow>
    (let p = concat blocks in \<forall>k < length p.
       instr_allowed (prev_instr None p k) (p ! k))"
proof -
  have "validate_inv \<lparr>vs_last = None, vs_ip = 0, vs_last_sfu_write = - 10\<rparr>"
    by (simp add: validate_inv_def)
  from block_accepts_iff [OF this, of "concat blocks"] show ?thesis
    by (simp add: qpu_validate_def blocks_concat program_allowed_iff Let_def)
qed

lemma block_reports:
  assumes "validate_inv st" "qpu_validate_block st qs = Inl (n, msg)"
  shows "\<exists>k < length qs. n = vs_ip st + int k \<and> program_allowed (vs_last st) (take k qs) \<and>
    \<not> instr_allowed (prev_instr (vs_last st) qs k) (qs ! k)"
  using assms
proof (induction qs arbitrary: st)
  case (Cons q qs)
  show ?case
  proof (cases "qpu_validate_inst st q")
    case (Inl e)
    then have "\<not> instr_allowed (vs_last st) q" using inst_accepts_iff [OF Cons.prems(1), of q] by simp
    moreover have "n = vs_ip st"
      using Inl Cons.prems(2)
      by (auto simp: qpu_validate_inst_def fail_instr_def Let_def split: if_splits option.splits)
    ultimately show ?thesis by (intro exI [of _ 0]) simp
  next
    case (Inr st')
    note step = inst_step [OF Cons.prems(1) Inr]
    have a: "instr_allowed (vs_last st) q" using Inr inst_accepts_iff [OF Cons.prems(1), of q] by blast
    obtain k where "k < length qs" "n = vs_ip st + 1 + int k"
        "program_allowed (Some q) (take k qs)"
        "\<not> instr_allowed (prev_instr (Some q) qs k) (qs ! k)"
      using Cons.IH [OF step(2)] Cons.prems(2) Inr step(1) by auto
    then show ?thesis using a by (intro exI [of _ "Suc k"]) simp
  qed
qed simp

text \<open>
  C30. A rejected program is rejected at its first instruction that breaks a restriction, and
  the number in the message is the position of that instruction in the program.
\<close>

theorem qpu_validate_reports_first:
  assumes "qpu_validate blocks = Inl (n, msg)"
  shows "let p = concat blocks; bad = (\<lambda>k. \<not> instr_allowed (prev_instr None p k) (p ! k)) in
    \<exists>k < length p. n = int k \<and> bad k \<and> (\<forall>j < k. \<not> bad j)"
proof -
  have "validate_inv \<lparr>vs_last = None, vs_ip = 0, vs_last_sfu_write = - 10\<rparr>"
    by (simp add: validate_inv_def)
  from block_reports [OF this, of "concat blocks" n msg]
  obtain k where k: "k < length (concat blocks)" "n = int k"
      "program_allowed None (take k (concat blocks))"
      "\<not> instr_allowed (prev_instr None (concat blocks) k) (concat blocks ! k)"
    using assms by (auto simp: qpu_validate_def blocks_concat)
  have "instr_allowed (prev_instr None (concat blocks) j) (concat blocks ! j)"
    if "j < k" for j
    using k(1,3) that by (auto simp: program_allowed_iff)
  then show ?thesis using k(1,2,4) unfolding Let_def by blast
qed

definition sample_program :: "v3d_qpu_instr list list" where
  "sample_program =
    (let nop = \<lparr>instr_type = V3D_QPU_INSTR_TYPE_ALU,
           sig = \<lparr>thrsw = False, ldunif = False, ldtmu = False, ldvary = False, ldvpm = False,
             ldtlb = False, ldtlbu = False, small_imm = False, ucb = False, rotate = False, wrtmuc = False\<rparr>,
           raddr_a = 0, raddr_b = 0,
           flags = \<lparr>ac = V3D_QPU_COND_NONE, mc = V3D_QPU_COND_NONE, apf = V3D_QPU_PF_NONE,
             mpf = V3D_QPU_PF_NONE, auf = V3D_QPU_UF_NONE, muf = V3D_QPU_UF_NONE\<rparr>,
           alu_add = \<lparr>alu_op = V3D_QPU_A_NOP, mux_a = V3D_QPU_MUX_R0, mux_b = V3D_QPU_MUX_R0, waddr = 0,
             magic_write = False, output_pack = V3D_QPU_PACK_NONE, a_unpack = V3D_QPU_UNPACK_NONE,
             b_unpack = V3D_QPU_UNPACK_NONE\<rparr>,
           alu_mul = \<lparr>alu_op = V3D_QPU_M_NOP, mux_a = V3D_QPU_MUX_R0, mux_b = V3D_QPU_MUX_R0, waddr = 0,
             magic_write = False, output_pack = V3D_QPU_PACK_NONE, a_unpack = V3D_QPU_UNPACK_NONE,
             b_unpack = V3D_QPU_UNPACK_NONE\<rparr>,
           branch = \<lparr>br_cond = V3D_QPU_BRANCH_COND_ALWAYS, br_msfign = V3D_QPU_MSFIGN_NONE,
             br_bdi = V3D_QPU_BRANCH_DEST_ABS, br_bdu = V3D_QPU_BRANCH_DEST_ABS, br_ub = False,
             br_raddr_a = 0, br_offset = 0\<rparr>\<rparr>;
         sfu = nop\<lparr>alu_mul := (alu_mul nop)\<lparr>alu_op := V3D_QPU_M_MOV, magic_write := True,
           waddr := V3D_QPU_WADDR_RECIP\<rparr>\<rparr>
     in [[nop, sfu, nop], [sfu], [sfu, nop]])"

theorem qpu_validate_accepts_iff_witness:
  "length (concat (take 2 sample_program)) = 4 \<and>
   instr_allowed (Some (concat (take 2 sample_program) ! 2)) (concat (take 2 sample_program) ! 3)"
proof -
  let ?p = "take 2 sample_program"
  have "\<not> isl (qpu_validate ?p)" "length (concat ?p) = 4" by code_simp+
  moreover then have "\<exists>st. qpu_validate ?p = Inr st" by (cases "qpu_validate ?p") auto
  ultimately have "length (concat ?p) = 4" "instr_allowed (prev_instr None (concat ?p) 3) (concat ?p ! 3)"
    using qpu_validate_accepts_iff [of ?p] unfolding Let_def by simp_all
  then show ?thesis by (simp add: prev_instr.simps(2) eval_nat_numeral)
qed

theorem qpu_validate_reports_first_witness:
  "qpu_validate sample_program = Inl (4, ''R4 write too soon after SFU'') \<and>
   (\<exists>k < length (concat sample_program). 4 = int k \<and>
     \<not> instr_allowed (prev_instr None (concat sample_program) k) (concat sample_program ! k))"
proof -
  have r: "qpu_validate sample_program = Inl (4, ''R4 write too soon after SFU'')" by code_simp
  then show ?thesis using qpu_validate_reports_first [OF r] unfolding Let_def by blast
qed

end
