(* ===== verification/Runs.thy ===== *)
theory Runs
  imports Prelude
begin

text \<open>
  Computations with loops that may run forever. \<open>None\<close> means that the code does not return;
  otherwise the result is a fault or a value, as in the theory \<open>Prelude\<close>.
\<close>

type_synonym 'a run = "'a res option"

definition ret :: "'a \<Rightarrow> 'a run" where
  "ret x = Some (Inr x)"

definition fault :: "fault \<Rightarrow> 'a run" where
  "fault e = Some (Inl e)"

definition bind_run :: "'a run \<Rightarrow> ('a \<Rightarrow> 'b run) \<Rightarrow> 'b run" where
  "bind_run m f = (case m of None \<Rightarrow> None | Some (Inl e) \<Rightarrow> Some (Inl e) | Some (Inr x) \<Rightarrow> f x)"

definition assert_run :: "bool \<Rightarrow> unit run" where
  "assert_run b = (if b then ret () else fault Assert_Failed)"

named_theorems run_simps \<open>simplification of computations that may not return\<close>

lemma bind_run_simps [simp, run_simps]:
  "bind_run (ret x) f = f x" "bind_run (fault e) f = fault e" "bind_run None f = None"
  "bind_run (Some (Inr x)) f = f x" "bind_run (Some (Inl e)) f = fault e"
  by (simp_all add: bind_run_def ret_def fault_def)

lemma assert_run_simps [simp, run_simps]:
  "assert_run True = ret ()" "assert_run False = fault Assert_Failed"
  by (simp_all add: assert_run_def)

lemma ret_eq_iff [simp]: "ret x = ret y \<longleftrightarrow> x = y" "ret x \<noteq> fault e" "fault e \<noteq> ret x" "ret x \<noteq> None" "None \<noteq> ret x"
  by (auto simp: ret_def fault_def)

lemma bind_run_ret_iff: "bind_run m f = ret y \<longleftrightarrow> (\<exists>x. m = ret x \<and> f x = ret y)"
  by (auto simp: bind_run_def ret_def split: option.splits sum.splits)

section \<open>Loops and arrays\<close>

text \<open>Sequencing is monotone, so that \<open>partial_function\<close> accepts it around recursive calls.\<close>

lemma bind_run_mono [partial_function_mono]:
  assumes "mono_option B" "\<And>y. mono_option (\<lambda>f. C y f)"
  shows "mono_option (\<lambda>f. bind_run (B f) (\<lambda>y. C y f))"
proof -
  have "bind_run m k = Option.bind m (\<lambda>r. case r of Inl e \<Rightarrow> Some (Inl e) | Inr x \<Rightarrow> k x)" for m :: "'c run" and k :: "'c \<Rightarrow> 'd run"
    by (cases m) (auto simp: bind_run_def split: sum.splits)
  then have eq: "(\<lambda>f. bind_run (B f) (\<lambda>y. C y f)) =
      (\<lambda>f. Option.bind (B f) (\<lambda>r. case r of Inl e \<Rightarrow> Some (Inl e) | Inr x \<Rightarrow> C x f))"
    by (simp add: fun_eq_iff)
  have m: "mono_option (\<lambda>f. case r of Inl e \<Rightarrow> Some (Inl e) | Inr x \<Rightarrow> C x f)" for r
    using assms(2) by (cases r) (auto intro: option.const_mono)
  show ?thesis unfolding eq by (rule bind_mono [OF assms(1)]) (rule m)
qed

definition fetch :: "'a list \<Rightarrow> nat \<Rightarrow> 'a run" where
  "fetch xs i = (if i < length xs then ret (xs ! i) else fault Out_Of_Bounds)"

lemma fetch_simps [simp, run_simps]:
  "i < length xs \<Longrightarrow> fetch xs i = ret (xs ! i)" "\<not> i < length xs \<Longrightarrow> fetch xs i = fault Out_Of_Bounds"
  by (simp_all add: fetch_def)

text \<open>A loop over a list whose body may fault.\<close>

fun fold_run :: "('a \<Rightarrow> 's \<Rightarrow> 's run) \<Rightarrow> 'a list \<Rightarrow> 's \<Rightarrow> 's run" where
  "fold_run f [] s = ret s"
| "fold_run f (x # xs) s = bind_run (f x s) (fold_run f xs)"

fun map_run :: "('a \<Rightarrow> 'b run) \<Rightarrow> 'a list \<Rightarrow> 'b list run" where
  "map_run f [] = ret []"
| "map_run f (x # xs) = bind_run (f x) (\<lambda>y. bind_run (map_run f xs) (\<lambda>ys. ret (y # ys)))"

lemma map_run_ret: "(\<And>x. x \<in> set xs \<Longrightarrow> f x = ret (g x)) \<Longrightarrow> map_run f xs = ret (map g xs)"
  by (induction xs) auto

end
