(* ===== verification/Slots.thy ===== *)
theory Slots
  imports Probing
begin

text \<open>
  The slots of an open-addressing table and the contract of its keys. A slot is a pair of a
  hash value and a key pointer; the null pointer marks a free slot and the pointer \<open>dk\<close> a
  deleted one. \<open>prb\<close> is the probe sequence of a hash value.
\<close>

type_synonym slot = "u32 \<times> u64"

section \<open>Slots\<close>

definition slot_free :: "slot list \<Rightarrow> nat \<Rightarrow> bool" where
  "slot_free sl i \<longleftrightarrow> snd (sl ! i) = 0"

definition slot_present :: "u64 \<Rightarrow> slot list \<Rightarrow> nat \<Rightarrow> bool" where
  "slot_present dk sl i \<longleftrightarrow> snd (sl ! i) \<noteq> 0 \<and> snd (sl ! i) \<noteq> dk"

definition slot_match :: "(u64 \<Rightarrow> u64 \<Rightarrow> bool) \<Rightarrow> u64 \<Rightarrow> slot list \<Rightarrow> u32 \<Rightarrow> u64 \<Rightarrow> nat \<Rightarrow> bool" where
  "slot_match eq dk sl h k i \<longleftrightarrow> slot_present dk sl i \<and> fst (sl ! i) = h \<and> eq k (snd (sl ! i))"

text \<open>
  Every present key carries its own hash, is found along its probe sequence before a free slot,
  and is not equal to any other.
\<close>

definition slots_ok ::
  "(u64 \<Rightarrow> u64 \<Rightarrow> bool) \<Rightarrow> (u64 \<Rightarrow> u32) \<Rightarrow> u64 \<Rightarrow> (u32 \<Rightarrow> nat list) \<Rightarrow> slot list \<Rightarrow> bool" where
  "slots_ok eq hf dk prb sl \<longleftrightarrow> (\<forall>i < length sl. slot_present dk sl i \<longrightarrow>
     fst (sl ! i) = hf (snd (sl ! i)) \<and>
     reaches (slot_free sl) (prb (fst (sl ! i))) i \<and>
     (\<forall>j < length sl. slot_present dk sl j \<and> eq (snd (sl ! i)) (snd (sl ! j)) \<longrightarrow> j = i))"

text \<open>Where a key is stored, by looking at all slots.\<close>

definition slot_of :: "(u64 \<Rightarrow> u64 \<Rightarrow> bool) \<Rightarrow> u64 \<Rightarrow> slot list \<Rightarrow> u64 \<Rightarrow> nat option" where
  "slot_of eq dk sl k =
     List.find (\<lambda>i. slot_present dk sl i \<and> eq k (snd (sl ! i))) [0..<length sl]"

lemma slot_of_None:
  "slot_of eq dk sl k = None \<longleftrightarrow>
    (\<forall>i < length sl. slot_present dk sl i \<longrightarrow> \<not> eq k (snd (sl ! i)))"
  by (auto simp: slot_of_def find_None_iff)

lemma slot_of_SomeD:
  assumes "slot_of eq dk sl k = Some i"
  shows "i < length sl" "slot_present dk sl i" "eq k (snd (sl ! i))"
  using assms by (auto simp: slot_of_def find_Some_iff)

section \<open>The contract of keys\<close>

text \<open>
  What the table relies on: the comparison is an equivalence relation on the pointers that can
  be keys, and equal keys have equal hashes. The marker of deleted entries is not the null
  pointer.
\<close>

locale hash_keys =
  fixes eq :: "u64 \<Rightarrow> u64 \<Rightarrow> bool" and hf :: "u64 \<Rightarrow> u32" and dk :: u64
  assumes dk: "dk \<noteq> 0"
    and eq_refl: "\<lbrakk>a \<noteq> 0; a \<noteq> dk\<rbrakk> \<Longrightarrow> eq a a"
    and eq_sym: "\<lbrakk>a \<noteq> 0; a \<noteq> dk; b \<noteq> 0; b \<noteq> dk; eq a b\<rbrakk> \<Longrightarrow> eq b a"
    and eq_trans: "\<lbrakk>a \<noteq> 0; a \<noteq> dk; b \<noteq> 0; b \<noteq> dk; c \<noteq> 0; c \<noteq> dk; eq a b; eq b c\<rbrakk> \<Longrightarrow> eq a c"
    and eq_hash: "\<lbrakk>a \<noteq> 0; a \<noteq> dk; b \<noteq> 0; b \<noteq> dk; eq a b\<rbrakk> \<Longrightarrow> hf a = hf b"
begin

lemma unique_match:
  assumes ok: "slots_ok eq hf dk prb sl" and k: "k \<noteq> 0" "k \<noteq> dk"
    and i: "i < length sl" "slot_present dk sl i" "eq k (snd (sl ! i))"
    and j: "j < length sl" "slot_present dk sl j" "eq k (snd (sl ! j))"
  shows "j = i"
proof -
  have "eq (snd (sl ! i)) (snd (sl ! j))"
    using eq_trans [OF _ _ k, of "snd (sl ! i)" "snd (sl ! j)"] eq_sym [OF k] i j
    by (simp add: slot_present_def)
  then show ?thesis using ok i j by (simp add: slots_ok_def)
qed

lemma slot_of_Some:
  assumes ok: "slots_ok eq hf dk prb sl" and k: "k \<noteq> 0" "k \<noteq> dk"
  shows "slot_of eq dk sl k = Some i \<longleftrightarrow> i < length sl \<and> slot_present dk sl i \<and> eq k (snd (sl ! i))"
proof
  assume i: "i < length sl \<and> slot_present dk sl i \<and> eq k (snd (sl ! i))"
  then obtain j where "slot_of eq dk sl k = Some j" using slot_of_None [of eq dk sl k] by blast
  then show "slot_of eq dk sl k = Some i"
    using slot_of_SomeD [of eq dk sl k j] unique_match [OF ok k, of j i] i by auto
qed (use slot_of_SomeD in blast)

text \<open>Searching along the probe sequence finds what looking at all slots finds.\<close>

lemma find_slot_correct:
  assumes ok: "slots_ok eq hf dk prb sl" and k: "k \<noteq> 0" "k \<noteq> dk"
    and prb: "\<And>a. a \<in> set (prb (hf k)) \<Longrightarrow> a < length sl"
  shows "find_slot (slot_free sl) (slot_match eq dk sl (hf k) k) (prb (hf k)) = slot_of eq dk sl k"
proof (cases "slot_of eq dk sl k")
  case None
  then have "\<not> slot_match eq dk sl (hf k) k a" if "a \<in> set (prb (hf k))" for a
    using prb [OF that] by (auto simp: slot_of_None slot_match_def)
  then show ?thesis using None by (simp add: find_slot_None)
next
  case (Some i)
  note i = slot_of_SomeD [OF Some]
  have h: "fst (sl ! i) = hf k"
    using ok i eq_hash [OF k, of "snd (sl ! i)"] by (simp add: slots_ok_def slot_present_def)
  have r: "reaches (slot_free sl) (prb (hf k)) i" using ok i h by (auto simp: slots_ok_def)
  have u: "a = i" if "a < length sl \<and> slot_match eq dk sl (hf k) k a" for a
    using that by (intro unique_match [OF ok k i]) (simp_all add: slot_match_def)
  have "find_slot (slot_free sl) (\<lambda>a. a < length sl \<and> slot_match eq dk sl (hf k) k a) (prb (hf k)) = Some i"
    by (rule find_slot_Some [OF r _ _ u]) (use i h in \<open>simp_all add: slot_match_def slot_present_def slot_free_def\<close>)
  moreover have "find_slot f (\<lambda>a. a < length sl \<and> m a) as = find_slot f m as"
    if "\<And>a. a \<in> set as \<Longrightarrow> a < length sl" for f m as
    using that by (induction as) auto
  ultimately show ?thesis using prb Some by simp
qed

lemma place_slot_correct:
  assumes ok: "slots_ok eq hf dk prb sl" and k: "k \<noteq> 0" "k \<noteq> dk"
    and prb: "\<And>a. a \<in> set (prb (hf k)) \<Longrightarrow> a < length sl"
  shows "case slot_of eq dk sl k of
    Some i \<Rightarrow> place_slot (slot_free sl) (slot_present dk sl) (slot_match eq dk sl (hf k) k) None (prb (hf k)) = Inl i
  | None \<Rightarrow> place_slot (slot_free sl) (slot_present dk sl) (slot_match eq dk sl (hf k) k) None (prb (hf k)) = Inr None \<and>
        (\<forall>a\<in>set (prb (hf k)). slot_present dk sl a) \<or>
      (\<exists>j. place_slot (slot_free sl) (slot_present dk sl) (slot_match eq dk sl (hf k) k) None (prb (hf k)) = Inr (Some j) \<and>
        j < length sl \<and> \<not> slot_present dk sl j \<and> reaches (slot_free sl) (prb (hf k)) j)"
proof (cases "slot_of eq dk sl k")
  case None
  then have m: "\<not> slot_match eq dk sl (hf k) k a" if "a \<in> set (prb (hf k))" for a
    using prb [OF that] by (auto simp: slot_of_None slot_match_def)
  have "reaches (slot_free sl) (prb (hf k)) j \<and> j < length sl"
    if "reaches (\<lambda>a. \<not> slot_present dk sl a) (prb (hf k)) j" for j
    using that prb reaches_mem [OF that] reaches_mono [OF that, of "slot_free sl"]
    by (auto simp: slot_free_def slot_present_def)
  then show ?thesis
    using place_slot_avail [of "prb (hf k)" "slot_match eq dk sl (hf k) k" "slot_free sl" "slot_present dk sl"] m None
    by auto
next
  case (Some i)
  note i = slot_of_SomeD [OF Some]
  have h: "fst (sl ! i) = hf k"
    using ok i eq_hash [OF k, of "snd (sl ! i)"] by (simp add: slots_ok_def slot_present_def)
  have r: "reaches (slot_free sl) (prb (hf k)) i" using ok i h by (auto simp: slots_ok_def)
  have u: "a = i" if "a < length sl \<and> slot_match eq dk sl (hf k) k a" for a
    using that by (intro unique_match [OF ok k i]) (simp_all add: slot_match_def)
  have "place_slot (slot_free sl) (slot_present dk sl)
      (\<lambda>a. a < length sl \<and> slot_match eq dk sl (hf k) k a) None (prb (hf k)) = Inl i"
    by (rule place_slot_match [OF r _ _ u]) (use i h in \<open>simp_all add: slot_match_def\<close>)
  moreover have "place_slot f p (\<lambda>a. a < length sl \<and> m a) av as = place_slot f p m av as"
    if "\<And>a. a \<in> set as \<Longrightarrow> a < length sl" for f p m av as
    using that by (induction as arbitrary: av) (auto simp: Let_def)
  ultimately show ?thesis using prb Some by simp
qed

text \<open>Storing a key in a slot that holds none, or in the slot of an equal key.\<close>

lemma store_new_ok:
  assumes ok: "slots_ok eq hf dk prb sl" and k: "k \<noteq> 0" "k \<noteq> dk" and none: "slot_of eq dk sl k = None"
    and j: "j < length sl" "\<not> slot_present dk sl j" "reaches (slot_free sl) (prb (hf k)) j"
  shows "slots_ok eq hf dk prb (sl[j := (hf k, k)])"
    and "\<And>k'. k' \<noteq> 0 \<Longrightarrow> k' \<noteq> dk \<Longrightarrow>
      slot_of eq dk (sl[j := (hf k, k)]) k' = (if eq k' k then Some j else slot_of eq dk sl k')"
proof -
  let ?sl = "sl[j := (hf k, k)]"
  have pr: "slot_present dk ?sl i \<longleftrightarrow> i = j \<or> slot_present dk sl i" if "i < length sl" for i
    using that k by (cases "i = j") (auto simp: slot_present_def)
  have fr: "slot_free sl a" if "slot_free ?sl a" for a
    using that k j(1) by (cases "a = j") (auto simp: slot_free_def)
  have ne: "\<not> eq k (snd (sl ! i))" "\<not> eq (snd (sl ! i)) k" if "i < length sl" "slot_present dk sl i" for i
    using that none eq_sym [OF _ _ k, of "snd (sl ! i)"] by (auto simp: slot_of_None slot_present_def)
  show new: "slots_ok eq hf dk prb ?sl"
    unfolding slots_ok_def
  proof (intro allI impI conjI)
    fix i assume i: "i < length ?sl" "slot_present dk ?sl i"
    show "fst (?sl ! i) = hf (snd (?sl ! i))"
      using ok i pr by (cases "i = j") (auto simp: slots_ok_def)
    show "reaches (slot_free ?sl) (prb (fst (?sl ! i))) i"
    proof (cases "i = j")
      case True
      then show ?thesis using reaches_mono [OF j(3) fr] j(1) by simp
    next
      case False
      then have "reaches (slot_free sl) (prb (fst (sl ! i))) i" using ok i pr unfolding slots_ok_def by auto
      then show ?thesis using reaches_mono [OF _ fr] False by simp
    qed
    fix l assume l: "l < length ?sl" "slot_present dk ?sl l \<and> eq (snd (?sl ! i)) (snd (?sl ! l))"
    show "l = i"
      using ok i l pr ne by (cases "i = j"; cases "l = j") (auto simp: slots_ok_def)
  qed
  fix k' assume k': "k' \<noteq> 0" "k' \<noteq> dk"
  show "slot_of eq dk ?sl k' = (if eq k' k then Some j else slot_of eq dk sl k')"
  proof (cases "eq k' k")
    case True
    then show ?thesis using slot_of_Some [OF new k'] j(1) pr by simp
  next
    case False
    show ?thesis
    proof (cases "slot_of eq dk sl k'")
      case None
      have "\<not> eq k' (snd (?sl ! i))" if "i < length sl" "slot_present dk ?sl i" for i
        using that None False pr by (cases "i = j") (auto simp: slot_of_None)
      then have "slot_of eq dk ?sl k' = None" by (simp add: slot_of_None)
      then show ?thesis using False None by simp
    next
      case (Some i)
      note i = slot_of_SomeD [OF Some]
      then have "i \<noteq> j" using j(2) by blast
      then show ?thesis using False Some i pr slot_of_Some [OF new k', of i] by simp
    qed
  qed
qed

lemma store_equal_ok:
  assumes ok: "slots_ok eq hf dk prb sl" and k: "k \<noteq> 0" "k \<noteq> dk" and i: "slot_of eq dk sl k = Some i"
  shows "slots_ok eq hf dk prb (sl[i := (fst (sl ! i), k)])"
    and "\<And>k'. k' \<noteq> 0 \<Longrightarrow> k' \<noteq> dk \<Longrightarrow> slot_of eq dk (sl[i := (fst (sl ! i), k)]) k' = slot_of eq dk sl k'"
proof -
  let ?sl = "sl[i := (fst (sl ! i), k)]"
  note i = slot_of_SomeD [OF i]
  have pr: "slot_present dk ?sl a = slot_present dk sl a" if "a < length sl" for a
    using that k i by (cases "a = i") (auto simp: slot_present_def)
  have fr: "slot_free ?sl = slot_free sl"
    using k i by (auto simp: fun_eq_iff slot_free_def slot_present_def nth_list_update)
  have e: "eq x (snd (?sl ! a)) = eq x (snd (sl ! a))" if "a < length sl" "slot_present dk sl a" "x \<noteq> 0" "x \<noteq> dk" for a x
    using that k i eq_trans [OF that(3,4) k, of "snd (sl ! i)"] eq_sym [OF k, of "snd (sl ! i)"]
      eq_trans [OF that(3,4) _ _ k, of "snd (sl ! i)"]
    by (cases "a = i") (auto simp: slot_present_def)
  have e': "eq (snd (?sl ! a)) x = eq (snd (sl ! a)) x" if "a < length sl" "slot_present dk sl a" "x \<noteq> 0" "x \<noteq> dk" for a x
    using that k i eq_sym [OF k, of "snd (sl ! i)"] eq_trans [OF k _ _ that(3,4), of "snd (sl ! i)"]
      eq_trans [OF _ _ k that(3,4), of "snd (sl ! i)"]
    by (cases "a = i") (auto simp: slot_present_def)
  have h: "fst (sl ! i) = hf k"
    using ok i eq_hash [OF k, of "snd (sl ! i)"] by (simp add: slots_ok_def slot_present_def)
  show new: "slots_ok eq hf dk prb ?sl"
    unfolding slots_ok_def
  proof (intro allI impI conjI)
    fix a assume a: "a < length ?sl" "slot_present dk ?sl a"
    then have a': "a < length sl" "slot_present dk sl a" using pr by simp_all
    show "fst (?sl ! a) = hf (snd (?sl ! a))"
      using ok a' h by (cases "a = i") (auto simp: slots_ok_def)
    have "fst (?sl ! a) = fst (sl ! a)" using a' by (cases "a = i") auto
    then show "reaches (slot_free ?sl) (prb (fst (?sl ! a))) a"
      using ok a' unfolding fr by (metis slots_ok_def)
    fix l assume l: "l < length ?sl" "slot_present dk ?sl l \<and> eq (snd (?sl ! a)) (snd (?sl ! l))"
    then have l': "l < length sl" "slot_present dk sl l" using pr by simp_all
    have "snd (?sl ! a) \<noteq> 0" "snd (?sl ! a) \<noteq> dk" using a by (auto simp: slot_present_def)
    then have "eq (snd (?sl ! a)) (snd (sl ! l))" using l e [OF l'] by simp
    then have "eq (snd (sl ! a)) (snd (sl ! l))" using l' e' [OF a'] by (simp add: slot_present_def)
    then show "l = a" using ok a' l' by (simp add: slots_ok_def)
  qed
  fix k' assume k': "k' \<noteq> 0" "k' \<noteq> dk"
  show "slot_of eq dk ?sl k' = slot_of eq dk sl k'"
  proof (cases "slot_of eq dk sl k'")
    case None
    then have "slot_of eq dk ?sl k' = None" using pr e k' by (simp add: slot_of_None)
    then show ?thesis using None by simp
  next
    case (Some a)
    then show ?thesis using slot_of_SomeD [OF Some] slot_of_Some [OF new k', of a] pr e k' by simp
  qed
qed

text \<open>Marking a slot as deleted.\<close>

lemma delete_ok:
  assumes ok: "slots_ok eq hf dk prb sl" and i: "i < length sl" "slot_present dk sl i"
  shows "slots_ok eq hf dk prb (sl[i := (h, dk)])"
    and "\<And>k. k \<noteq> 0 \<Longrightarrow> k \<noteq> dk \<Longrightarrow> slot_of eq dk (sl[i := (h, dk)]) k =
      (if eq k (snd (sl ! i)) then None else slot_of eq dk sl k)"
proof -
  let ?sl = "sl[i := (h, dk)]"
  have pr: "slot_present dk ?sl a \<longleftrightarrow> a \<noteq> i \<and> slot_present dk sl a" if "a < length sl" for a
    using that by (cases "a = i") (auto simp: slot_present_def)
  have fr: "slot_free ?sl = slot_free sl"
    using dk i by (auto simp: fun_eq_iff slot_free_def slot_present_def nth_list_update)
  show new: "slots_ok eq hf dk prb ?sl"
    unfolding slots_ok_def fr using ok pr by (auto simp: slots_ok_def)
  fix k assume k: "k \<noteq> 0" "k \<noteq> dk"
  show "slot_of eq dk ?sl k = (if eq k (snd (sl ! i)) then None else slot_of eq dk sl k)"
  proof (cases "slot_of eq dk sl k")
    case None
    then have "slot_of eq dk ?sl k = None" using pr by (auto simp: slot_of_None)
    then show ?thesis using None by simp
  next
    case (Some a)
    note a = slot_of_SomeD [OF Some]
    show ?thesis
    proof (cases "a = i")
      case True
      have "\<not> eq k (snd (?sl ! b))" if "b < length sl" "slot_present dk ?sl b" for b
        using unique_match [OF ok k a, of b] that pr True by auto
      then show ?thesis using True a by (simp add: slot_of_None)
    next
      case False
      then have "\<not> eq k (snd (sl ! i))" using unique_match [OF ok k a i] by blast
      then show ?thesis using False a pr Some slot_of_Some [OF new k, of a] by simp
    qed
  qed
qed

end

end
