(* ===== verification/Hash_Sizes.thy ===== *)
theory Hash_Sizes
  imports Prelude
begin

text \<open>
  The table of sizes that \<^verbatim>\<open>src/src/util/hash_table.c\<close> and \<^verbatim>\<open>src/src/util/set.c\<close> share: the
  number of entries a table may hold, its size and the modulus of the second hash. That the
  first twenty sizes (up to 1048576 entries) are prime is checked by trial division.
\<close>

section \<open>The sizes\<close>

text \<open>The columns \<open>max_entries\<close>, \<open>size\<close> and \<open>rehash\<close>.\<close>

definition hash_sizes :: "(u32 \<times> u32 \<times> u32) list" where
  "hash_sizes =
    [(2, 5, 3),
     (4, 7, 5),
     (8, 13, 11),
     (16, 19, 17),
     (32, 43, 41),
     (64, 73, 71),
     (128, 151, 149),
     (256, 283, 281),
     (512, 571, 569),
     (1024, 1153, 1151),
     (2048, 2269, 2267),
     (4096, 4519, 4517),
     (8192, 9013, 9011),
     (16384, 18043, 18041),
     (32768, 36109, 36107),
     (65536, 72091, 72089),
     (131072, 144409, 144407),
     (262144, 288361, 288359),
     (524288, 576883, 576881),
     (1048576, 1153459, 1153457),
     (2097152, 2307163, 2307161),
     (4194304, 4613893, 4613891),
     (8388608, 9227641, 9227639),
     (16777216, 18455029, 18455027),
     (33554432, 36911011, 36911009),
     (67108864, 73819861, 73819859),
     (134217728, 147639589, 147639587),
     (268435456, 295279081, 295279079),
     (536870912, 590559793, 590559791),
     (1073741824, 1181116273, 1181116271),
     (2147483648, 2362232233, 2362232231)]"

definition sz_max :: "nat \<Rightarrow> u32" where "sz_max i = fst (hash_sizes ! i)"
definition sz_size :: "nat \<Rightarrow> u32" where "sz_size i = fst (snd (hash_sizes ! i))"
definition sz_rehash :: "nat \<Rightarrow> u32" where "sz_rehash i = snd (snd (hash_sizes ! i))"

lemma hash_sizes_length: "length hash_sizes = 31"
  by (simp add: hash_sizes_def)

text \<open>All but the last size leave room for adding an address and a step without wrap-around.\<close>

lemma hash_sizes_bounds:
  "\<forall>(m, s, r)\<in>set (take 30 hash_sizes). 2 * unat s < 2 ^ 32 \<and> 0 < unat r \<and> unat r + 2 = unat s \<and>
     unat m < unat s \<and> 0 < unat m"
  by (simp add: hash_sizes_def)

lemma sizes_bounds:
  assumes "i < 30"
  shows "2 * unat (sz_size i) < 2 ^ 32" "0 < unat (sz_rehash i)" "unat (sz_rehash i) + 2 = unat (sz_size i)"
    "unat (sz_max i) < unat (sz_size i)" "0 < unat (sz_max i)"
proof -
  have "hash_sizes ! i \<in> set (take 30 hash_sizes)"
    using assms hash_sizes_length by (auto simp: in_set_conv_nth intro!: exI [of _ i])
  from bspec [OF hash_sizes_bounds this]
  show "2 * unat (sz_size i) < 2 ^ 32" "0 < unat (sz_rehash i)" "unat (sz_rehash i) + 2 = unat (sz_size i)"
    "unat (sz_max i) < unat (sz_size i)" "0 < unat (sz_max i)"
    by (auto simp: sz_size_def sz_rehash_def sz_max_def split: prod.splits)
qed

lemma hash_sizes_grow:
  "\<forall>(a, b)\<in>set (zip (take 30 hash_sizes) (tl hash_sizes)). unat (fst b) = 2 * unat (fst a)"
  by (simp add: hash_sizes_def)

lemma sz_max_Suc:
  assumes "i < 30"
  shows "unat (sz_max (Suc i)) = 2 * unat (sz_max i)"
proof -
  have "zip (take 30 hash_sizes) (tl hash_sizes) ! i \<in> set (zip (take 30 hash_sizes) (tl hash_sizes))"
    using assms hash_sizes_length by (intro nth_mem) simp
  from bspec [OF hash_sizes_grow this] show ?thesis
    using assms hash_sizes_length by (simp add: sz_max_def nth_tl)
qed

section \<open>Trial division\<close>

function no_odd_divisor :: "int \<Rightarrow> int \<Rightarrow> bool" where
  "no_odd_divisor n d =
     (if d < 3 \<or> n < d * d then True else n mod d \<noteq> 0 \<and> no_odd_divisor n (d + 2))"
  by pat_completeness auto
termination
proof (relation "measure (\<lambda>(n, d). nat (n - d))"; clarsimp)
  fix n d :: int assume "\<not> d < 3" "\<not> n < d * d"
  moreover then have "3 * d \<le> d * d" by (intro mult_right_mono) auto
  ultimately show "d < n" by linarith
qed

declare no_odd_divisor.simps [simp del]

lemma no_odd_divisor_sound:
  assumes "no_odd_divisor n d" "3 \<le> d" "odd d" "odd e" "d \<le> e" "e * e \<le> n"
  shows "\<not> e dvd n"
  using assms
proof (induction n d rule: no_odd_divisor.induct)
  case (1 n d)
  have "d * d \<le> e * e" using "1.prems"(2,5) by (intro mult_mono) auto
  then have nd: "\<not> (d < 3 \<or> n < d * d)" using "1.prems"(2,6) by auto
  then have r: "n mod d \<noteq> 0" "no_odd_divisor n (d + 2)"
    using "1.prems"(1) by (simp_all add: no_odd_divisor.simps [of n d])
  show ?case
  proof (cases "e = d")
    case True
    then show ?thesis using r(1) by (simp add: dvd_eq_mod_eq_0)
  next
    case False
    then have "e \<noteq> d + 1" using "1.prems"(3,4) by auto
    then have "d + 2 \<le> e" using False "1.prems"(5) by linarith
    then show ?thesis using "1.IH" [OF nd r(2)] "1.prems" by auto
  qed
qed

lemma odd_coprime:
  assumes n: "no_odd_divisor n 3" "odd n" "1 < n" and d: "0 < d" "d < n"
  shows "coprime d n"
proof (rule ccontr)
  assume "\<not> coprime d n"
  define g where "g = gcd d n"
  define f where "f = n div g"
  have g: "g dvd n" "g \<le> d" "0 < g" "g \<noteq> 1"
    using d \<open>\<not> coprime d n\<close> by (auto simp: g_def coprime_iff_gcd_eq_1 intro: zdvd_imp_le)
  then have nf: "n = g * f" by (simp add: f_def)
  have "0 < g * f" using nf n(3) by linarith
  then have f: "0 < f" using g(3) by (simp add: zero_less_mult_iff)
  have f1: "f \<noteq> 1" using nf g(2) d(2) by auto
  have od: "odd g" "odd f" using n(2) nf by auto
  have "3 \<le> x" if "odd x" "0 < x" "x \<noteq> 1" for x :: int
    using that by (cases "x = 2") auto
  then have ge: "3 \<le> g" "3 \<le> f" using od g f f1 by auto
  show False
  proof (cases "g \<le> f")
    case True
    then have "g * g \<le> n" using g nf by simp
    then show False using no_odd_divisor_sound [OF n(1) _ _ od(1) ge(1)] g(1) by simp
  next
    case False
    then have "f * f \<le> n" using f nf by (simp add: mult_right_mono)
    then show False using no_odd_divisor_sound [OF n(1) _ _ od(2) ge(2)] nf by simp
  qed
qed

lemma sizes_trial:
  "no_odd_divisor 5 3"
  "no_odd_divisor 7 3"
  "no_odd_divisor 13 3"
  "no_odd_divisor 19 3"
  "no_odd_divisor 43 3"
  "no_odd_divisor 73 3"
  "no_odd_divisor 151 3"
  "no_odd_divisor 283 3"
  "no_odd_divisor 571 3"
  "no_odd_divisor 1153 3"
  "no_odd_divisor 2269 3"
  "no_odd_divisor 4519 3"
  "no_odd_divisor 9013 3"
  "no_odd_divisor 18043 3"
  "no_odd_divisor 36109 3"
  "no_odd_divisor 72091 3"
  "no_odd_divisor 144409 3"
  "no_odd_divisor 288361 3"
  "no_odd_divisor 576883 3"
  "no_odd_divisor 1153459 3"
  by code_simp+

lemma sizes_odd_free:
  "\<forall>(m, s, r)\<in>set (take 20 hash_sizes). no_odd_divisor (uint s) 3 \<and> odd (uint s) \<and> 1 < uint s"
  by (simp add: hash_sizes_def sizes_trial)

lemma size_coprime:
  assumes "i < 20" "0 < d" "d < unat (sz_size i)"
  shows "coprime d (unat (sz_size i))"
proof -
  have "hash_sizes ! i \<in> set (take 20 hash_sizes)"
    using assms(1) hash_sizes_length by (auto simp: in_set_conv_nth intro!: exI [of _ i])
  from bspec [OF sizes_odd_free this]
  have "no_odd_divisor (uint (sz_size i)) 3" "odd (uint (sz_size i))" "1 < uint (sz_size i)"
    by (auto simp: sz_size_def split: prod.splits)
  note c = odd_coprime [OF this, of "int d"]
  have "int d < uint (sz_size i)" using assms(3) by (metis of_nat_less_iff uint_nat)
  then have "coprime (int d) (int (unat (sz_size i)))" using c assms(2) by simp
  then show ?thesis using coprime_int_iff by blast
qed

end
