(* ===== verification/Hash_Table.thy ===== *)
theory Hash_Table
  imports Runs Slots Hash_Sizes
begin

text \<open>
  The hash table of \<^verbatim>\<open>src/src/util/hash_table.c\<close>. Pointers to keys and data are 64-bit words, a
  pointer to an entry is the index of the entry in the table. The outcome of an allocation is
  the parameter \<open>alloc\<close>, which says for a number of entries whether \<open>rzalloc_array\<close> succeeds.
  The loops that follow a probe sequence are partial functions: they are not known to end
  for every table, and for those that satisfy the invariant they are proved to.
  The recursion of \<open>hash_table_insert\<close> through the rehashing of the table has a depth as its
  first argument; the entry points use depth 3, which is proved to be enough.
\<close>

unbundle bit_operations_syntax

section \<open>Entries and tables\<close>

record hash_entry =
  e_hash :: u32
  e_key :: u64
  e_data :: u64

record hash_table =
  ht_table :: "hash_entry list"
  ht_key_hash_function :: "(u64 \<Rightarrow> u32) option"
  ht_key_equals_function :: "u64 \<Rightarrow> u64 \<Rightarrow> bool"
  ht_deleted_key :: u64
  ht_size :: u32
  ht_rehash :: u32
  ht_max_entries :: u32
  ht_size_index :: u32
  ht_entries :: u32
  ht_deleted_entries :: u32

text \<open>An entry of memory that \<open>rzalloc\<close> has cleared.\<close>

definition zero_entry :: hash_entry where
  "zero_entry = \<lparr>e_hash = 0, e_key = 0, e_data = 0\<rparr>"

definition entry_is_free :: "hash_entry \<Rightarrow> bool" where
  "entry_is_free e \<longleftrightarrow> e_key e = 0"

definition entry_is_deleted :: "hash_table \<Rightarrow> hash_entry \<Rightarrow> bool" where
  "entry_is_deleted ht e \<longleftrightarrow> e_key e = ht_deleted_key ht"

definition entry_is_present :: "hash_table \<Rightarrow> hash_entry \<Rightarrow> bool" where
  "entry_is_present ht e \<longleftrightarrow> e_key e \<noteq> 0 \<and> e_key e \<noteq> ht_deleted_key ht"

text \<open>
  \<open>deleted_key_value\<close> is a static variable; its address, a parameter of the model, is the
  default marker of deleted entries. The first argument says whether the structure itself can be
  allocated.
\<close>

definition mesa_hash_table_create ::
  "bool \<Rightarrow> (u32 \<Rightarrow> bool) \<Rightarrow> u64 \<Rightarrow> (u64 \<Rightarrow> u32) option \<Rightarrow> (u64 \<Rightarrow> u64 \<Rightarrow> bool) \<Rightarrow> hash_table option" where
  "mesa_hash_table_create alloc_ht alloc deleted_key_value hash_function equals_function =
     (if \<not> alloc_ht then None
      else if \<not> alloc (sz_size 0) then None
      else Some \<lparr>ht_table = replicate (unat (sz_size 0)) zero_entry,
        ht_key_hash_function = hash_function, ht_key_equals_function = equals_function,
        ht_deleted_key = deleted_key_value,
        ht_size = sz_size 0, ht_rehash = sz_rehash 0, ht_max_entries = sz_max 0,
        ht_size_index = 0, ht_entries = 0, ht_deleted_entries = 0\<rparr>)"

definition mesa_hash_table_num_entries :: "hash_table \<Rightarrow> u32" where
  "mesa_hash_table_num_entries ht = ht_entries ht"

definition mesa_hash_table_set_deleted_key :: "hash_table \<Rightarrow> u64 \<Rightarrow> hash_table" where
  "mesa_hash_table_set_deleted_key ht k = ht\<lparr>ht_deleted_key := k\<rparr>"

section \<open>Iteration\<close>

definition mesa_hash_table_next_entry :: "hash_table \<Rightarrow> nat option \<Rightarrow> nat option" where
  "mesa_hash_table_next_entry ht entry =
     List.find (\<lambda>i. entry_is_present ht (ht_table ht ! i))
       [(case entry of None \<Rightarrow> 0 | Some i \<Rightarrow> i + 1)..<unat (ht_size ht)]"

lemma next_entry_Some:
  assumes "mesa_hash_table_next_entry ht entry = Some j"
  shows "(case entry of None \<Rightarrow> 0 | Some i \<Rightarrow> i + 1) \<le> j" "j < unat (ht_size ht)"
    "entry_is_present ht (ht_table ht ! j)"
  using assms by (auto simp: mesa_hash_table_next_entry_def find_Some_iff split: option.splits)

text \<open>The entries that the macro \<open>hash_table_foreach\<close> visits, from a given one on.\<close>

function foreach_from :: "hash_table \<Rightarrow> nat option \<Rightarrow> nat list" where
  "foreach_from ht entry =
     (case mesa_hash_table_next_entry ht entry of
        None \<Rightarrow> [] | Some i \<Rightarrow> i # foreach_from ht (Some i))"
  by pat_completeness auto
termination
proof (relation "measure (\<lambda>(ht, e). unat (ht_size ht) - (case e of None \<Rightarrow> 0 | Some i \<Rightarrow> i + 1))")
  fix ht entry i assume "mesa_hash_table_next_entry ht entry = Some i"
  from next_entry_Some [OF this]
  show "((ht, Some i), (ht, entry)) \<in> measure (\<lambda>(ht, e). unat (ht_size ht) - (case e of None \<Rightarrow> 0 | Some i \<Rightarrow> i + 1))"
    by (auto split: option.splits)
qed simp

declare foreach_from.simps [simp del]

definition hash_table_foreach :: "hash_table \<Rightarrow> nat list" where
  "hash_table_foreach ht = foreach_from ht None"

text \<open>
  The entries a delete function is called on, in this order; \<open>None\<close> stands for a null pointer
  in the place of the table, \<open>False\<close> for the absence of a delete function.
\<close>

definition mesa_hash_table_destroy :: "hash_table option \<Rightarrow> bool \<Rightarrow> hash_entry list" where
  "mesa_hash_table_destroy h delete_function =
     (case h of
        None \<Rightarrow> []
      | Some ht \<Rightarrow> if delete_function then map (\<lambda>i. ht_table ht ! i) (hash_table_foreach ht) else [])"

definition mesa_hash_table_clear :: "hash_table \<Rightarrow> bool \<Rightarrow> hash_entry list \<times> hash_table" where
  "mesa_hash_table_clear ht delete_function =
     (let es = take (unat (ht_size ht)) (ht_table ht) in
      (if delete_function then filter (\<lambda>e. e_key e \<noteq> 0 \<and> e_key e \<noteq> ht_deleted_key ht) es else [],
       ht\<lparr>ht_table := map (\<lambda>e. if e_key e = 0 then e else e\<lparr>e_key := 0\<rparr>) es
                        @ drop (unat (ht_size ht)) (ht_table ht),
          ht_entries := 0, ht_deleted_entries := 0\<rparr>))"

section \<open>Searching\<close>

partial_function (option) search_loop ::
  "hash_table \<Rightarrow> u32 \<Rightarrow> u64 \<Rightarrow> u32 \<Rightarrow> u32 \<Rightarrow> nat option run" where
  "search_loop ht h k start_hash_address hash_address =
     (if length (ht_table ht) \<le> unat hash_address then fault Out_Of_Bounds
      else let entry = ht_table ht ! unat hash_address in
      if entry_is_free entry then ret None
      else if entry_is_present ht entry \<and> e_hash entry = h \<and> ht_key_equals_function ht k (e_key entry)
      then ret (Some (unat hash_address))
      else let double_hash = 1 + h mod ht_rehash ht;
               hash_address = (hash_address + double_hash) mod ht_size ht in
      if hash_address \<noteq> start_hash_address
      then search_loop ht h k start_hash_address hash_address
      else ret None)"

declare search_loop.simps [code]

definition hash_table_search :: "hash_table \<Rightarrow> u32 \<Rightarrow> u64 \<Rightarrow> nat option run" where
  "hash_table_search ht h k = search_loop ht h k (h mod ht_size ht) (h mod ht_size ht)"

definition mesa_hash_table_search :: "hash_table \<Rightarrow> u64 \<Rightarrow> nat option run" where
  "mesa_hash_table_search ht k =
     (case ht_key_hash_function ht of
        None \<Rightarrow> fault Assert_Failed
      | Some f \<Rightarrow> hash_table_search ht (f k) k)"

definition mesa_hash_table_search_pre_hashed :: "hash_table \<Rightarrow> u32 \<Rightarrow> u64 \<Rightarrow> nat option run" where
  "mesa_hash_table_search_pre_hashed ht h k =
     bind_run (assert_run (case ht_key_hash_function ht of None \<Rightarrow> True | Some f \<Rightarrow> h = f k))
       (\<lambda>_. hash_table_search ht h k)"

section \<open>Inserting and rehashing\<close>

text \<open>
  The loop of \<open>hash_table_insert\<close> ends at an entry with an equal key (\<open>Inl\<close>) or with the
  stashed available entry, if any (\<open>Inr\<close>).
\<close>

partial_function (option) insert_loop ::
  "hash_table \<Rightarrow> u32 \<Rightarrow> u64 \<Rightarrow> u32 \<Rightarrow> u32 \<Rightarrow> nat option \<Rightarrow> (nat + nat option) run" where
  "insert_loop ht h k start_hash_address hash_address available_entry =
     (if length (ht_table ht) \<le> unat hash_address then fault Out_Of_Bounds
      else let entry = ht_table ht ! unat hash_address;
               available_entry =
                 (if \<not> entry_is_present ht entry \<and> available_entry = None
                  then Some (unat hash_address) else available_entry) in
      if \<not> entry_is_present ht entry \<and> entry_is_free entry then ret (Inr available_entry)
      else if \<not> entry_is_deleted ht entry \<and> e_hash entry = h \<and>
              ht_key_equals_function ht k (e_key entry)
      then ret (Inl (unat hash_address))
      else let double_hash = 1 + h mod ht_rehash ht;
               hash_address = (hash_address + double_hash) mod ht_size ht in
      if hash_address \<noteq> start_hash_address
      then insert_loop ht h k start_hash_address hash_address available_entry
      else ret (Inr available_entry))"

declare insert_loop.simps [code]

text \<open>What \<open>hash_table_insert\<close> does after a possible rehashing.\<close>

definition insert_here :: "hash_table \<Rightarrow> u32 \<Rightarrow> u64 \<Rightarrow> u64 \<Rightarrow> (hash_table \<times> nat option) run" where
  "insert_here ht h k d =
     bind_run (insert_loop ht h k (h mod ht_size ht) (h mod ht_size ht) None) (\<lambda>r.
     case r of
       Inl i \<Rightarrow> ret (ht\<lparr>ht_table := (ht_table ht)[i := (ht_table ht ! i)\<lparr>e_key := k, e_data := d\<rparr>]\<rparr>, Some i)
     | Inr None \<Rightarrow> ret (ht, None)
     | Inr (Some i) \<Rightarrow>
         let ht = (if entry_is_deleted ht (ht_table ht ! i)
                   then ht\<lparr>ht_deleted_entries := ht_deleted_entries ht - 1\<rparr> else ht) in
         ret (ht\<lparr>ht_table := (ht_table ht)[i := \<lparr>e_hash = h, e_key = k, e_data = d\<rparr>],
                 ht_entries := ht_entries ht + 1\<rparr>, Some i))"

fun rehash_entries ::
  "(hash_table \<Rightarrow> u32 \<Rightarrow> u64 \<Rightarrow> u64 \<Rightarrow> (hash_table \<times> nat option) run) \<Rightarrow>
   hash_table \<Rightarrow> hash_entry list \<Rightarrow> hash_table run" where
  "rehash_entries ins ht [] = ret ht"
| "rehash_entries ins ht (e # es) =
     bind_run (ins ht (e_hash e) (e_key e) (e_data e)) (\<lambda>(ht, _). rehash_entries ins ht es)"

definition mesa_hash_table_rehash ::
  "(hash_table \<Rightarrow> u32 \<Rightarrow> u64 \<Rightarrow> u64 \<Rightarrow> (hash_table \<times> nat option) run) \<Rightarrow> (u32 \<Rightarrow> bool) \<Rightarrow>
   hash_table \<Rightarrow> u32 \<Rightarrow> hash_table run" where
  "mesa_hash_table_rehash ins alloc ht new_size_index =
     (let n = unat new_size_index in
      if length hash_sizes \<le> n then ret ht
      else if \<not> alloc (sz_size n) then ret ht
      else rehash_entries ins
        (ht\<lparr>ht_table := replicate (unat (sz_size n)) zero_entry, ht_size_index := new_size_index,
            ht_size := sz_size n, ht_rehash := sz_rehash n, ht_max_entries := sz_max n,
            ht_entries := 0, ht_deleted_entries := 0\<rparr>)
        (map (\<lambda>i. ht_table ht ! i) (hash_table_foreach ht)))"

primrec hash_table_insert ::
  "nat \<Rightarrow> (u32 \<Rightarrow> bool) \<Rightarrow> hash_table \<Rightarrow> u32 \<Rightarrow> u64 \<Rightarrow> u64 \<Rightarrow> (hash_table \<times> nat option) run" where
  "hash_table_insert 0 = (\<lambda>alloc ht h k d. None)"
| "hash_table_insert (Suc n) = (\<lambda>alloc ht h k d.
     bind_run (assert_run (k \<noteq> 0)) (\<lambda>_.
     bind_run (if ht_entries ht \<ge> ht_max_entries ht
               then mesa_hash_table_rehash (hash_table_insert n alloc) alloc ht (ht_size_index ht + 1)
               else if ht_deleted_entries ht + ht_entries ht \<ge> ht_max_entries ht
               then mesa_hash_table_rehash (hash_table_insert n alloc) alloc ht (ht_size_index ht)
               else ret ht) (\<lambda>ht.
     insert_here ht h k d)))"

definition mesa_hash_table_insert ::
  "(u32 \<Rightarrow> bool) \<Rightarrow> hash_table \<Rightarrow> u64 \<Rightarrow> u64 \<Rightarrow> (hash_table \<times> nat option) run" where
  "mesa_hash_table_insert alloc ht k d =
     (case ht_key_hash_function ht of
        None \<Rightarrow> fault Assert_Failed
      | Some f \<Rightarrow> hash_table_insert 3 alloc ht (f k) k d)"

definition mesa_hash_table_insert_pre_hashed ::
  "(u32 \<Rightarrow> bool) \<Rightarrow> hash_table \<Rightarrow> u32 \<Rightarrow> u64 \<Rightarrow> u64 \<Rightarrow> (hash_table \<times> nat option) run" where
  "mesa_hash_table_insert_pre_hashed alloc ht h k d =
     bind_run (assert_run (case ht_key_hash_function ht of None \<Rightarrow> True | Some f \<Rightarrow> h = f k))
       (\<lambda>_. hash_table_insert 3 alloc ht h k d)"

section \<open>Removing and choosing entries\<close>

definition mesa_hash_table_remove :: "hash_table \<Rightarrow> nat option \<Rightarrow> hash_table" where
  "mesa_hash_table_remove ht entry =
     (case entry of
        None \<Rightarrow> ht
      | Some i \<Rightarrow> ht\<lparr>ht_table := (ht_table ht)[i := (ht_table ht ! i)\<lparr>e_key := ht_deleted_key ht\<rparr>],
                     ht_entries := ht_entries ht - 1,
                     ht_deleted_entries := ht_deleted_entries ht + 1\<rparr>)"

text \<open>The value of \<open>rand()\<close> is the parameter \<open>r\<close>; a missing predicate accepts every entry.\<close>

definition mesa_hash_table_random_entry ::
  "hash_table \<Rightarrow> u32 \<Rightarrow> (hash_entry \<Rightarrow> bool) option \<Rightarrow> nat option" where
  "mesa_hash_table_random_entry ht r predicate =
     (let i = unat (r mod ht_size ht);
          good = (\<lambda>j. entry_is_present ht (ht_table ht ! j) \<and>
                   (case predicate of None \<Rightarrow> True | Some p \<Rightarrow> p (ht_table ht ! j)))
      in if ht_entries ht = 0 then None
         else case List.find good [i..<unat (ht_size ht)] of
                Some j \<Rightarrow> Some j
              | None \<Rightarrow> List.find good [0..<i])"

section \<open>Hash functions and comparisons\<close>

definition mesa_fnv32_1a_offset_bias :: u32 where
  "mesa_fnv32_1a_offset_bias = 2166136261"

fun mesa_fnv32_1a_accumulate_block :: "u32 \<Rightarrow> u8 list \<Rightarrow> u32" where
  "mesa_fnv32_1a_accumulate_block h [] = h"
| "mesa_fnv32_1a_accumulate_block h (b # bs) =
     mesa_fnv32_1a_accumulate_block ((h XOR ucast b) * 0x01000193) bs"

definition mesa_hash_data :: "u8 list \<Rightarrow> u32" where
  "mesa_hash_data bytes = mesa_fnv32_1a_accumulate_block mesa_fnv32_1a_offset_bias bytes"

text \<open>A string in memory is read up to its first null byte.\<close>

fun hash_string_loop :: "u32 \<Rightarrow> u8 list \<Rightarrow> u32" where
  "hash_string_loop h [] = h"
| "hash_string_loop h (c # cs) =
     (if c = 0 then h else hash_string_loop (mesa_fnv32_1a_accumulate_block h [c]) cs)"

definition mesa_hash_string :: "u8 list \<Rightarrow> u32" where
  "mesa_hash_string s = hash_string_loop mesa_fnv32_1a_offset_bias s"

definition mesa_key_string_equal :: "(u64 \<Rightarrow> u8 list) \<Rightarrow> u64 \<Rightarrow> u64 \<Rightarrow> bool" where
  "mesa_key_string_equal memory a b \<longleftrightarrow>
     takeWhile (\<lambda>c. c \<noteq> 0) (memory a) = takeWhile (\<lambda>c. c \<noteq> 0) (memory b)"

definition mesa_key_pointer_equal :: "u64 \<Rightarrow> u64 \<Rightarrow> bool" where
  "mesa_key_pointer_equal a b \<longleftrightarrow> a = b"

definition mesa_hash_pointer :: "u64 \<Rightarrow> u32" where
  "mesa_hash_pointer num =
     ucast (drop_bit 2 num XOR drop_bit 6 num XOR drop_bit 10 num XOR drop_bit 14 num)"

end
