(* ===== verification/Probe_Loops.thy ===== *)
theory Probe_Loops
  imports Runs Slots Hash_Sizes
begin

text \<open>
  The loops of the hash table and of the set, which run over 32-bit addresses until they come
  back to where they started, walk along the probe sequence of the theory \<open>Probing\<close>. One
  lemma covers all of them.
\<close>

section \<open>Walks\<close>

text \<open>A walk over a list of addresses, with a state, that a step may end early.\<close>

fun walk :: "(nat \<Rightarrow> 's \<Rightarrow> 'r + 's) \<Rightarrow> ('s \<Rightarrow> 'r) \<Rightarrow> 's \<Rightarrow> nat list \<Rightarrow> 'r" where
  "walk body fin s [] = fin s"
| "walk body fin s (a # as) = (case body a s of Inl r \<Rightarrow> r | Inr s' \<Rightarrow> walk body fin s' as)"

lemma walk_find_slot:
  "find_slot fr mt as =
    walk (\<lambda>a s. if fr a then Inl None else if mt a then Inl (Some a) else Inr s) (\<lambda>s. None) () as"
  by (induction as) auto

lemma walk_place_slot:
  "place_slot fr pr mt av as =
    walk (\<lambda>a av. if pr a then (if mt a then Inl (Inl a) else Inr av)
       else let av' = (if av = None then Some a else av) in
            if fr a then Inl (Inr av') else Inr av') Inr av as"
  by (induction as arbitrary: av) (auto simp: Let_def)

section \<open>Loops over 32-bit addresses\<close>

definition step_probes :: "u32 \<Rightarrow> u32 \<Rightarrow> u32 \<Rightarrow> nat list" where
  "step_probes sz start step = probes_from (unat sz) (unat start) (unat step) 0"

lemma unat_next_addr:
  fixes a step sz :: u32
  assumes "unat a < unat sz" "unat step \<le> unat sz" "2 * unat sz < 2 ^ 32"
  shows "unat ((a + step) mod sz) = (unat a + unat step) mod unat sz"
  using assms by (simp add: unat_mod unat_word_ariths)

lemma walk_loop:
  fixes L :: "u32 \<Rightarrow> 's \<Rightarrow> 'r run"
  assumes start: "unat start < unat sz" and step: "unat step \<le> unat sz" and sz: "2 * unat sz < 2 ^ 32"
    and L: "\<And>a s. unat a < unat sz \<Longrightarrow> L a s =
      (case body (unat a) s of Inl r \<Rightarrow> ret r
       | Inr s' \<Rightarrow> if (a + step) mod sz \<noteq> start then L ((a + step) mod sz) s' else ret (fin s'))"
  shows "L start s = ret (walk body fin s (step_probes sz start step))"
proof -
  let ?addr = "probe_addr (unat sz) (unat start) (unat step)"
  let ?per = "probe_period (unat sz) (unat start) (unat step)"
  let ?from = "probes_from (unat sz) (unat start) (unat step)"
  have pc: "probe_cycle (unat sz) (unat start)" using start by unfold_locales
  have "L a s = ret (walk body fin s (?from i))" if "i < ?per" "unat a = ?addr i" for i a s
    using that
  proof (induction "?per - i" arbitrary: i a s)
    case 0
    then show ?case by simp
  next
    case (Suc n)
    have lt: "unat a < unat sz" using Suc.prems(2) probe_cycle.addr_less [OF pc] by simp
    note La = L [OF lt, of s]
    note from_i = probe_cycle.probes_Cons [OF pc Suc.prems(1)]
    have nx: "unat ((a + step) mod sz) = ?addr (Suc i)"
      using unat_next_addr [OF lt step sz] Suc.prems(2) probe_cycle.addr_Suc [OF pc] by simp
    then have st: "(a + step) mod sz = start \<longleftrightarrow> ?from (Suc i) = []"
      using probe_cycle.probes_end [OF pc Suc.prems(1)] by (simp add: word_unat_eq_iff)
    show ?case
    proof (cases "body (unat a) s")
      case (Inl r)
      then show ?thesis using La from_i Suc.prems(2) by simp
    next
      case (Inr s')
      show ?thesis
      proof (cases "?from (Suc i) = []")
        case True
        then show ?thesis using La from_i Inr st Suc.prems(2) by simp
      next
        case False
        then have "Suc i < ?per" by (simp add: probes_from_def)
        then have "L ((a + step) mod sz) s' = ret (walk body fin s' (?from (Suc i)))"
          using Suc.hyps(1) [of "Suc i"] Suc.hyps(2) nx by simp
        then show ?thesis using La from_i Inr st False Suc.prems(2) by simp
      qed
    qed
  qed
  from this [of 0 start s] show ?thesis
    using probe_cycle.period(1) [OF pc] probe_cycle.addr_0 [OF pc] by (simp add: step_probes_def)
qed

lemma step_probes_less:
  assumes "unat start < unat sz" "a \<in> set (step_probes sz start step)"
  shows "a < unat sz"
proof -
  have pc: "probe_cycle (unat sz) (unat start)" using assms(1) by unfold_locales
  show ?thesis using probe_cycle.probes_less [OF pc] assms(2) by (simp add: step_probes_def)
qed

lemma step_probes_all:
  assumes "unat start < unat sz" "coprime (unat step) (unat sz)"
  shows "set (step_probes sz start step) = {..<unat sz}"
proof -
  have pc: "probe_cycle (unat sz) (unat start)" using assms(1) by unfold_locales
  show ?thesis using probe_cycle.probes_all [OF pc assms(2)] by (simp add: step_probes_def)
qed

text \<open>The probe sequence of a hash value in a table of the given size index.\<close>

definition index_probes :: "nat \<Rightarrow> u32 \<Rightarrow> nat list" where
  "index_probes i h = step_probes (sz_size i) (h mod sz_size i) (1 + h mod sz_rehash i)"

lemma unat_mod_less: "0 < unat n \<Longrightarrow> unat (h mod n) < unat (n :: u32)"
  by (simp add: unat_mod)

lemma probe_params:
  assumes "i < 30"
  shows "unat (h mod sz_size i) < unat (sz_size i)" "unat (1 + h mod sz_rehash i) = 1 + unat h mod unat (sz_rehash i)"
    "0 < unat (1 + h mod sz_rehash i)" "unat (1 + h mod sz_rehash i) < unat (sz_size i)"
proof -
  note b = sizes_bounds [OF assms]
  show "unat (h mod sz_size i) < unat (sz_size i)" using b by (intro unat_mod_less) linarith
  have m: "unat h mod unat (sz_rehash i) < unat (sz_rehash i)" using b(2) by simp
  then have "1 + unat h mod unat (sz_rehash i) < 2 ^ 32" using b(1,3) by linarith
  then show u: "unat (1 + h mod sz_rehash i) = 1 + unat h mod unat (sz_rehash i)"
    by (simp add: unat_word_ariths unat_mod)
  show "0 < unat (1 + h mod sz_rehash i)" "unat (1 + h mod sz_rehash i) < unat (sz_size i)"
    using m b(3) unfolding u by linarith+
qed

lemma index_probes_less: "i < 30 \<Longrightarrow> a \<in> set (index_probes i h) \<Longrightarrow> a < unat (sz_size i)"
  unfolding index_probes_def using step_probes_less probe_params(1) by blast

lemma index_probes_all: "i < 20 \<Longrightarrow> set (index_probes i h) = {..<unat (sz_size i)}"
  unfolding index_probes_def
  by (rule step_probes_all) (use probe_params [of i h] size_coprime [of i] in auto)

section \<open>Counting entries\<close>

lemma length_filter_update:
  "i < length xs \<Longrightarrow>
    length (filter P (xs[i := y])) + of_bool (P (xs ! i)) = length (filter P xs) + of_bool (P y)"
proof (induction xs arbitrary: i)
  case (Cons x xs)
  then show ?case by (cases i) auto
qed simp

lemma filter_not_all: "length (filter P xs) < length xs \<Longrightarrow> \<exists>i < length xs. \<not> P (xs ! i)"
  by (metis filter_True in_set_conv_nth less_irrefl)

lemma filter_length_all: "(\<And>i. i < length xs \<Longrightarrow> P (xs ! i)) \<Longrightarrow> length (filter P xs) = length xs"
  by (metis filter_True in_set_conv_nth)

end
