(* ===== verification/Hash_Refine.thy ===== *)
theory Hash_Refine
  imports Hash_Table Probe_Loops
begin

text \<open>
  The hash table implements a map: the invariant \<open>ht_ok\<close>, the abstraction \<open>ht_lookup\<close>, and
  what every operation does to them.
\<close>

section \<open>Invariant and abstraction\<close>

definition ht_slots :: "hash_table \<Rightarrow> slot list" where
  "ht_slots ht = map (\<lambda>e. (e_hash e, e_key e)) (ht_table ht)"

abbreviation ht_index :: "hash_table \<Rightarrow> nat" where
  "ht_index ht \<equiv> unat (ht_size_index ht)"

abbreviation ht_slot_of :: "hash_table \<Rightarrow> u64 \<Rightarrow> nat option" where
  "ht_slot_of ht \<equiv> slot_of (ht_key_equals_function ht) (ht_deleted_key ht) (ht_slots ht)"

text \<open>The sizes belong to the size index, and the last entry of the table of sizes is not reached.\<close>

definition ht_shape :: "hash_table \<Rightarrow> bool" where
  "ht_shape ht \<longleftrightarrow> ht_index ht < 30 \<and> ht_size ht = sz_size (ht_index ht) \<and>
     ht_rehash ht = sz_rehash (ht_index ht) \<and> ht_max_entries ht = sz_max (ht_index ht) \<and>
     length (ht_table ht) = unat (ht_size ht)"

definition ht_counts :: "hash_table \<Rightarrow> bool" where
  "ht_counts ht \<longleftrightarrow>
     unat (ht_entries ht) = length (filter (entry_is_present ht) (ht_table ht)) \<and>
     unat (ht_deleted_entries ht) = length (filter (entry_is_deleted ht) (ht_table ht))"

definition ht_ok :: "(u64 \<Rightarrow> u32) \<Rightarrow> hash_table \<Rightarrow> bool" where
  "ht_ok hf ht \<longleftrightarrow> ht_shape ht \<and> ht_counts ht \<and>
     slots_ok (ht_key_equals_function ht) hf (ht_deleted_key ht) (index_probes (ht_index ht)) (ht_slots ht)"

text \<open>The contract of the keys of a table, for the hash function \<open>hf\<close>.\<close>

definition ht_keys :: "(u64 \<Rightarrow> u32) \<Rightarrow> hash_table \<Rightarrow> bool" where
  "ht_keys hf ht \<longleftrightarrow> hash_keys (ht_key_equals_function ht) hf (ht_deleted_key ht)"

definition valid_key :: "hash_table \<Rightarrow> u64 \<Rightarrow> bool" where
  "valid_key ht k \<longleftrightarrow> k \<noteq> 0 \<and> k \<noteq> ht_deleted_key ht"

text \<open>The data stored under a key, looking at all entries.\<close>

definition ht_lookup :: "hash_table \<Rightarrow> u64 \<Rightarrow> u64 option" where
  "ht_lookup ht k = map_option (\<lambda>i. e_data (ht_table ht ! i)) (ht_slot_of ht k)"

definition same_functions :: "hash_table \<Rightarrow> hash_table \<Rightarrow> bool" where
  "same_functions ht ht' \<longleftrightarrow> ht_key_equals_function ht' = ht_key_equals_function ht \<and>
     ht_key_hash_function ht' = ht_key_hash_function ht \<and> ht_deleted_key ht' = ht_deleted_key ht"

lemma slots_nth [simp]:
  "length (ht_slots ht) = length (ht_table ht)"
  "i < length (ht_table ht) \<Longrightarrow> ht_slots ht ! i = (e_hash (ht_table ht ! i), e_key (ht_table ht ! i))"
  by (simp_all add: ht_slots_def)

lemma slot_predicates:
  assumes "i < length (ht_table ht)"
  shows "slot_free (ht_slots ht) i \<longleftrightarrow> entry_is_free (ht_table ht ! i)"
    "slot_present (ht_deleted_key ht) (ht_slots ht) i \<longleftrightarrow> entry_is_present ht (ht_table ht ! i)"
    "slot_match (ht_key_equals_function ht) (ht_deleted_key ht) (ht_slots ht) h k i \<longleftrightarrow>
      entry_is_present ht (ht_table ht ! i) \<and> e_hash (ht_table ht ! i) = h \<and>
      ht_key_equals_function ht k (e_key (ht_table ht ! i))"
  using assms by (simp_all add: slot_free_def slot_present_def slot_match_def entry_is_free_def entry_is_present_def)

section \<open>Searching\<close>

lemma search_loop_walk:
  assumes "ht_shape ht"
  shows "hash_table_search ht h k =
    ret (find_slot (slot_free (ht_slots ht))
      (slot_match (ht_key_equals_function ht) (ht_deleted_key ht) (ht_slots ht) h k)
      (index_probes (ht_index ht) h))"
proof -
  have i: "ht_index ht < 30" and sz: "ht_size ht = sz_size (ht_index ht)" "ht_rehash ht = sz_rehash (ht_index ht)"
    and len: "length (ht_table ht) = unat (ht_size ht)"
    using assms by (auto simp: ht_shape_def)
  note pp = probe_params [OF i, of h] and b = sizes_bounds [OF i]
  let ?s = "h mod ht_size ht"
  let ?st = "1 + h mod ht_rehash ht"
  let ?body = "\<lambda>a s. if slot_free (ht_slots ht) a then Inl None
     else if slot_match (ht_key_equals_function ht) (ht_deleted_key ht) (ht_slots ht) h k a
     then Inl (Some a) else Inr s"
  have "search_loop ht h k ?s a = (case ?body (unat a) s of Inl r \<Rightarrow> ret r
      | Inr s' \<Rightarrow> if (a + ?st) mod ht_size ht \<noteq> ?s
          then search_loop ht h k ?s ((a + ?st) mod ht_size ht) else ret None)"
    if "unat a < unat (ht_size ht)" for a and s :: unit
    using that by (subst search_loop.simps) (simp add: len slot_predicates Let_def)
  from walk_loop [where L = "\<lambda>a s. search_loop ht h k ?s a" and s = "()" and fin = "\<lambda>s. None", OF _ _ _ this]
  have "search_loop ht h k ?s ?s = ret (walk ?body (\<lambda>s. None) () (step_probes (ht_size ht) ?s ?st))"
    using pp b by (simp add: sz)
  then show ?thesis
    unfolding hash_table_search_def walk_find_slot index_probes_def sz by simp
qed

lemma index_probes_slots:
  "ht_shape ht \<Longrightarrow> a \<in> set (index_probes (ht_index ht) h) \<Longrightarrow> a < length (ht_slots ht)"
  using index_probes_less by (auto simp: ht_shape_def)

lemma search_finds:
  assumes ok: "ht_ok hf ht" and keys: "ht_keys hf ht" and k: "valid_key ht k"
  shows "hash_table_search ht (hf k) k = ret (ht_slot_of ht k)"
proof -
  have sh: "ht_shape ht" and sl: "slots_ok (ht_key_equals_function ht) hf (ht_deleted_key ht)
      (index_probes (ht_index ht)) (ht_slots ht)"
    using ok by (auto simp: ht_ok_def)
  have hk: "hash_keys (ht_key_equals_function ht) hf (ht_deleted_key ht)" using keys by (simp add: ht_keys_def)
  have kv: "k \<noteq> 0" "k \<noteq> ht_deleted_key ht" using k by (auto simp: valid_key_def)
  show ?thesis
    unfolding search_loop_walk [OF sh]
    using hash_keys.find_slot_correct [OF hk sl kv] index_probes_slots [OF sh] by simp
qed

section \<open>Inserting without rehashing\<close>

lemma insert_loop_walk:
  assumes "ht_shape ht" and dk: "ht_deleted_key ht \<noteq> 0"
  shows "insert_loop ht h k (h mod ht_size ht) (h mod ht_size ht) av =
    ret (place_slot (slot_free (ht_slots ht)) (slot_present (ht_deleted_key ht) (ht_slots ht))
      (slot_match (ht_key_equals_function ht) (ht_deleted_key ht) (ht_slots ht) h k) av
      (index_probes (ht_index ht) h))"
proof -
  have i: "ht_index ht < 30" and sz: "ht_size ht = sz_size (ht_index ht)" "ht_rehash ht = sz_rehash (ht_index ht)"
    and len: "length (ht_table ht) = unat (ht_size ht)"
    using assms by (auto simp: ht_shape_def)
  note pp = probe_params [OF i, of h] and b = sizes_bounds [OF i]
  let ?s = "h mod ht_size ht"
  let ?st = "1 + h mod ht_rehash ht"
  let ?body = "\<lambda>a av. if slot_present (ht_deleted_key ht) (ht_slots ht) a
     then (if slot_match (ht_key_equals_function ht) (ht_deleted_key ht) (ht_slots ht) h k a
       then Inl (Inl a) else Inr av)
     else let av' = (if av = None then Some a else av) in
          if slot_free (ht_slots ht) a then Inl (Inr av') else Inr av'"
  have "insert_loop ht h k ?s a av = (case ?body (unat a) av of Inl r \<Rightarrow> ret r
      | Inr av' \<Rightarrow> if (a + ?st) mod ht_size ht \<noteq> ?s
          then insert_loop ht h k ?s ((a + ?st) mod ht_size ht) av' else ret (Inr av'))"
    if lt: "unat a < unat (ht_size ht)" for a av
  proof -
    define e where "e = ht_table ht ! unat a"
    have p: "slot_present (ht_deleted_key ht) (ht_slots ht) (unat a) = entry_is_present ht e"
      "slot_free (ht_slots ht) (unat a) = entry_is_free e"
      "slot_match (ht_key_equals_function ht) (ht_deleted_key ht) (ht_slots ht) h k (unat a) =
        (entry_is_present ht e \<and> e_hash e = h \<and> ht_key_equals_function ht k (e_key e))"
      using lt len by (simp_all add: slot_predicates e_def)
    consider "entry_is_present ht e" "\<not> entry_is_deleted ht e" "\<not> entry_is_free e"
      | "\<not> entry_is_present ht e" "entry_is_free e"
      | "\<not> entry_is_present ht e" "entry_is_deleted ht e" "\<not> entry_is_free e"
      using dk that unfolding entry_is_present_def entry_is_free_def entry_is_deleted_def by metis
    then show ?thesis
      unfolding p using lt len
      by cases (subst insert_loop.simps, simp add: Let_def flip: e_def)+
  qed
  from walk_loop [where L = "\<lambda>a av. insert_loop ht h k ?s a av" and s = av and fin = Inr, OF _ _ _ this]
  have "insert_loop ht h k ?s ?s av = ret (walk ?body Inr av (step_probes (ht_size ht) ?s ?st))"
    using pp b by (simp add: sz)
  then show ?thesis
    unfolding walk_place_slot index_probes_def sz by simp
qed


text \<open>Storing an entry in the table, and what it does to the counters and to the slots.\<close>

definition put_entry :: "hash_table \<Rightarrow> nat \<Rightarrow> hash_entry \<Rightarrow> hash_table" where
  "put_entry ht i e = ht\<lparr>ht_table := (ht_table ht)[i := e]\<rparr>"

lemma put_entry_simps [simp]:
  "ht_table (put_entry ht i e) = (ht_table ht)[i := e]"
  "ht_slots (put_entry ht i e) = (ht_slots ht)[i := (e_hash e, e_key e)]"
  "ht_key_equals_function (put_entry ht i e) = ht_key_equals_function ht"
  "ht_key_hash_function (put_entry ht i e) = ht_key_hash_function ht"
  "ht_deleted_key (put_entry ht i e) = ht_deleted_key ht"
  "ht_size (put_entry ht i e) = ht_size ht" "ht_rehash (put_entry ht i e) = ht_rehash ht"
  "ht_max_entries (put_entry ht i e) = ht_max_entries ht"
  "ht_size_index (put_entry ht i e) = ht_size_index ht"
  "ht_entries (put_entry ht i e) = ht_entries ht"
  "ht_deleted_entries (put_entry ht i e) = ht_deleted_entries ht"
  by (simp_all add: put_entry_def ht_slots_def map_update)

lemma ht_view_simps [simp]:
  "ht_slots (ht\<lparr>ht_entries := n\<rparr>) = ht_slots ht" "ht_slots (ht\<lparr>ht_deleted_entries := n\<rparr>) = ht_slots ht"
  "entry_is_present (ht\<lparr>ht_entries := n\<rparr>) = entry_is_present ht"
  "entry_is_present (ht\<lparr>ht_deleted_entries := n\<rparr>) = entry_is_present ht"
  "entry_is_present (put_entry ht i e) = entry_is_present ht"
  "entry_is_present (ht\<lparr>ht_table := t\<rparr>) = entry_is_present ht"
  "entry_is_deleted (ht\<lparr>ht_entries := n\<rparr>) = entry_is_deleted ht"
  "entry_is_deleted (ht\<lparr>ht_deleted_entries := n\<rparr>) = entry_is_deleted ht"
  "entry_is_deleted (put_entry ht i e) = entry_is_deleted ht"
  "entry_is_deleted (ht\<lparr>ht_table := t\<rparr>) = entry_is_deleted ht"
  by (simp_all add: ht_slots_def entry_is_present_def entry_is_deleted_def fun_eq_iff)

lemma counts_fit:
  assumes "ht_shape ht" "ht_counts ht"
  shows "unat (ht_entries ht) + unat (ht_deleted_entries ht) \<le> unat (ht_size ht)" "2 * unat (ht_size ht) < 2 ^ 32"
proof -
  have "length (filter (entry_is_present ht) es) + length (filter (entry_is_deleted ht) es) \<le> length es" for es
    by (induction es) (auto simp: entry_is_present_def entry_is_deleted_def)
  from this [of "ht_table ht"] show "unat (ht_entries ht) + unat (ht_deleted_entries ht) \<le> unat (ht_size ht)"
    using assms by (simp add: ht_shape_def ht_counts_def)
  show "2 * unat (ht_size ht) < 2 ^ 32" using assms(1) sizes_bounds(1) by (auto simp: ht_shape_def)
qed

text \<open>The map a table represents changes as a map does.\<close>

definition ht_inserted :: "hash_table \<Rightarrow> u64 \<Rightarrow> u64 \<Rightarrow> hash_table \<Rightarrow> bool" where
  "ht_inserted ht k d ht' \<longleftrightarrow> same_functions ht ht' \<and>
     (\<forall>k'. valid_key ht k' \<longrightarrow>
        ht_lookup ht' k' = (if ht_key_equals_function ht k' k then Some d else ht_lookup ht k'))"

text \<open>The entry that replaces one with an equal key.\<close>

lemma replace_entry:
  fixes d :: u64
  assumes ok: "ht_ok hf ht" and keys: "ht_keys hf ht" and k: "valid_key ht k" and i: "ht_slot_of ht k = Some i"
  defines "ht' \<equiv> put_entry ht i ((ht_table ht ! i)\<lparr>e_key := k, e_data := d\<rparr>)"
  shows "ht_ok hf ht'" "ht_slot_of ht' k = Some i" "ht_inserted ht k d ht'"
proof -
  have hk: "hash_keys (ht_key_equals_function ht) hf (ht_deleted_key ht)" using keys by (simp add: ht_keys_def)
  have sl: "slots_ok (ht_key_equals_function ht) hf (ht_deleted_key ht) (index_probes (ht_index ht)) (ht_slots ht)"
    and sh: "ht_shape ht" and ct: "ht_counts ht"
    using ok by (auto simp: ht_ok_def)
  have kv: "k \<noteq> 0" "k \<noteq> ht_deleted_key ht" using k by (auto simp: valid_key_def)
  note iD = slot_of_SomeD [OF i]
  note st = hash_keys.store_equal_ok [OF hk sl kv i]
  have len: "i < length (ht_table ht)" using iD(1) by simp
  have pr: "entry_is_present ht (ht_table ht ! i)" using iD(2) len by (simp add: slot_predicates)
  have pr': "entry_is_present ht ((ht_table ht ! i)\<lparr>e_key := k, e_data := d\<rparr>)"
    using kv by (simp add: entry_is_present_def)
  have eq: "(e_hash ((ht_table ht ! i)\<lparr>e_key := k, e_data := d\<rparr>), k) = (fst (ht_slots ht ! i), k)"
    using len by simp
  have "ht_counts ht'"
    using ct length_filter_update [OF len, of "entry_is_present ht" "(ht_table ht ! i)\<lparr>e_key := k, e_data := d\<rparr>"]
      length_filter_update [OF len, of "entry_is_deleted ht" "(ht_table ht ! i)\<lparr>e_key := k, e_data := d\<rparr>"] pr pr'
    by (auto simp: ht_counts_def ht'_def entry_is_present_def entry_is_deleted_def)
  then show "ht_ok hf ht'"
    using sh st(1) len by (simp add: ht_ok_def ht'_def ht_shape_def)
  show s: "ht_slot_of ht' k = Some i" using st(2) [OF kv] i len by (simp add: ht'_def)
  show "ht_inserted ht k d ht'"
    unfolding ht_inserted_def
  proof (intro conjI allI impI)
    show "same_functions ht ht'" by (simp add: same_functions_def ht'_def)
    fix k' assume "valid_key ht k'"
    then have kv': "k' \<noteq> 0" "k' \<noteq> ht_deleted_key ht" by (auto simp: valid_key_def)
    have s': "ht_slot_of ht' k' = ht_slot_of ht k'" using st(2) [OF kv'] len by (simp add: ht'_def)
    have "ht_slot_of ht k' = Some i \<longleftrightarrow> ht_key_equals_function ht k' k"
      using hash_keys.slot_of_Some [OF hk sl kv', of i] iD hash_keys.eq_trans [OF hk kv' kv, of "snd (ht_slots ht ! i)"]
        hash_keys.eq_trans [OF hk kv' _ _ kv, of "snd (ht_slots ht ! i)"] hash_keys.eq_sym [OF hk kv, of "snd (ht_slots ht ! i)"]
      by (auto simp: slot_present_def)
    then show "ht_lookup ht' k' = (if ht_key_equals_function ht k' k then Some d else ht_lookup ht k')"
      unfolding ht_lookup_def s' using len by (cases "ht_slot_of ht k'") (auto simp: ht'_def)
  qed
qed

text \<open>The entry that takes a free or a deleted slot.\<close>

lemma new_entry_counts:
  fixes h :: u32 and d :: u64
  assumes sh: "ht_shape ht" and ct: "ht_counts ht" and k: "valid_key ht k"
    and j: "j < length (ht_table ht)" "\<not> entry_is_present ht (ht_table ht ! j)"
  defines "ht1 \<equiv> (if entry_is_deleted ht (ht_table ht ! j)
      then ht\<lparr>ht_deleted_entries := ht_deleted_entries ht - 1\<rparr> else ht)"
  defines "ht' \<equiv> (put_entry ht1 j \<lparr>e_hash = h, e_key = k, e_data = d\<rparr>)\<lparr>ht_entries := ht_entries ht + 1\<rparr>"
  shows "ht_counts ht'" "unat (ht_entries ht') = unat (ht_entries ht) + 1"
    "unat (ht_deleted_entries ht') \<le> unat (ht_deleted_entries ht)"
proof -
  let ?e = "\<lparr>e_hash = h, e_key = k, e_data = d\<rparr>"
  have e: "entry_is_present ht ?e" "\<not> entry_is_deleted ht ?e"
    using k by (auto simp: valid_key_def entry_is_present_def entry_is_deleted_def)
  note up = length_filter_update [OF j(1), of "entry_is_present ht" ?e]
  note ud = length_filter_update [OF j(1), of "entry_is_deleted ht" ?e]
  have present: "unat (ht_entries ht + 1) = unat (ht_entries ht) + 1"
    using counts_fit [OF sh ct] by (simp add: unat_word_ariths)
  have deleted: "unat (ht_deleted_entries ht - 1) = unat (ht_deleted_entries ht) - 1"
    if "entry_is_deleted ht (ht_table ht ! j)"
  proof (rule unat_minus_one)
    have "0 < length (filter (entry_is_deleted ht) (ht_table ht))"
      using that j(1) by (auto simp: filter_empty_conv)
    then show "ht_deleted_entries ht \<noteq> 0" using ct by (auto simp: ht_counts_def)
  qed
  have t: "ht_table ht' = (ht_table ht)[j := ?e]" "entry_is_present ht' = entry_is_present ht"
    "entry_is_deleted ht' = entry_is_deleted ht" "ht_entries ht' = ht_entries ht + 1"
    "ht_deleted_entries ht' = (if entry_is_deleted ht (ht_table ht ! j) then ht_deleted_entries ht - 1 else ht_deleted_entries ht)"
    by (simp_all add: ht'_def ht1_def)
  show "ht_counts ht'"
    using ct up ud e j(2) present deleted unfolding ht_counts_def t by (auto split: if_splits)
  show "unat (ht_entries ht') = unat (ht_entries ht) + 1" unfolding t by (rule present)
  show "unat (ht_deleted_entries ht') \<le> unat (ht_deleted_entries ht)" unfolding t using deleted by auto
qed

lemma new_entry:
  fixes d :: u64
  assumes ok: "ht_ok hf ht" and keys: "ht_keys hf ht" and k: "valid_key ht k" and none: "ht_slot_of ht k = None"
    and j: "j < length (ht_table ht)" "\<not> entry_is_present ht (ht_table ht ! j)"
      "reaches (slot_free (ht_slots ht)) (index_probes (ht_index ht) (hf k)) j"
  defines "ht1 \<equiv> (if entry_is_deleted ht (ht_table ht ! j)
      then ht\<lparr>ht_deleted_entries := ht_deleted_entries ht - 1\<rparr> else ht)"
  defines "ht' \<equiv> (put_entry ht1 j \<lparr>e_hash = hf k, e_key = k, e_data = d\<rparr>)\<lparr>ht_entries := ht_entries ht + 1\<rparr>"
  shows "ht_ok hf ht'" "ht_slot_of ht' k = Some j" "ht_inserted ht k d ht'"
proof -
  have hk: "hash_keys (ht_key_equals_function ht) hf (ht_deleted_key ht)" using keys by (simp add: ht_keys_def)
  have sl: "slots_ok (ht_key_equals_function ht) hf (ht_deleted_key ht) (index_probes (ht_index ht)) (ht_slots ht)"
    and sh: "ht_shape ht" and ct: "ht_counts ht"
    using ok by (auto simp: ht_ok_def)
  have kv: "k \<noteq> 0" "k \<noteq> ht_deleted_key ht" using k by (auto simp: valid_key_def)
  have np: "\<not> slot_present (ht_deleted_key ht) (ht_slots ht) j" using j by (simp add: slot_predicates)
  have js: "j < length (ht_slots ht)" using j(1) by simp
  note st = hash_keys.store_new_ok [OF hk sl kv none js np j(3)]
  have t: "ht_slots ht' = (ht_slots ht)[j := (hf k, k)]" "ht_key_equals_function ht' = ht_key_equals_function ht"
    "ht_deleted_key ht' = ht_deleted_key ht" "ht_size_index ht' = ht_size_index ht"
    "ht_table ht' = (ht_table ht)[j := \<lparr>e_hash = hf k, e_key = k, e_data = d\<rparr>]"
    "ht_key_hash_function ht' = ht_key_hash_function ht"
    by (simp_all add: ht'_def ht1_def)
  have "ht_shape ht'" using sh by (simp add: ht_shape_def ht'_def ht1_def)
  moreover have "ht_counts ht'"
    unfolding ht'_def ht1_def by (rule new_entry_counts(1) [OF sh ct k j(1,2)])
  ultimately show "ht_ok hf ht'" using st(1) by (simp add: ht_ok_def t)
  have refl: "ht_key_equals_function ht k k" by (rule hash_keys.eq_refl [OF hk kv])
  show "ht_slot_of ht' k = Some j" using st(2) [OF kv] refl by (simp add: t)
  show "ht_inserted ht k d ht'"
    unfolding ht_inserted_def
  proof (intro conjI allI impI)
    show "same_functions ht ht'" by (simp add: same_functions_def t)
    fix k' assume "valid_key ht k'"
    then have kv': "k' \<noteq> 0" "k' \<noteq> ht_deleted_key ht" by (auto simp: valid_key_def)
    have s': "ht_slot_of ht' k' = (if ht_key_equals_function ht k' k then Some j else ht_slot_of ht k')"
      using st(2) [OF kv'] by (simp add: t)
    have "ht_slot_of ht k' \<noteq> Some j" using np slot_of_SomeD(2) by blast
    then show "ht_lookup ht' k' = (if ht_key_equals_function ht k' k then Some d else ht_lookup ht k')"
      unfolding ht_lookup_def s' using j(1) by (cases "ht_slot_of ht k'") (auto simp: t)
  qed
qed

text \<open>
  Inserting without rehashing: an entry with an equal key is replaced, a new key takes an entry
  that holds none, and the table is unchanged when all entries along the probe sequence are in use.
\<close>

definition here_spec :: "hash_table \<Rightarrow> u32 \<Rightarrow> u64 \<Rightarrow> u64 \<Rightarrow> hash_table \<Rightarrow> nat option \<Rightarrow> bool" where
  "here_spec ht h k d ht' r \<longleftrightarrow>
     (case r of
        Some i \<Rightarrow> ht_inserted ht k d ht' \<and> ht_slot_of ht' k = Some i \<and>
          unat (ht_entries ht') = unat (ht_entries ht) + of_bool (ht_lookup ht k = None) \<and>
          unat (ht_deleted_entries ht') \<le> unat (ht_deleted_entries ht)
      | None \<Rightarrow> ht' = ht \<and> ht_lookup ht k = None \<and>
          (\<forall>a\<in>set (index_probes (ht_index ht) h). entry_is_present ht (ht_table ht ! a)))"

lemma insert_here_correct:
  assumes ok: "ht_ok hf ht" and keys: "ht_keys hf ht" and k: "valid_key ht k"
  shows "\<exists>ht' r. insert_here ht (hf k) k d = ret (ht', r) \<and> ht_ok hf ht' \<and>
    ht_size_index ht' = ht_size_index ht \<and> here_spec ht (hf k) k d ht' r"
proof -
  have hk: "hash_keys (ht_key_equals_function ht) hf (ht_deleted_key ht)" using keys by (simp add: ht_keys_def)
  have sl: "slots_ok (ht_key_equals_function ht) hf (ht_deleted_key ht) (index_probes (ht_index ht)) (ht_slots ht)"
    and sh: "ht_shape ht" and ct: "ht_counts ht"
    using ok by (auto simp: ht_ok_def)
  have kv: "k \<noteq> 0" "k \<noteq> ht_deleted_key ht" using k by (auto simp: valid_key_def)
  note loop = insert_loop_walk [OF sh hash_keys.dk [OF hk], of "hf k" k None]
  note pl = hash_keys.place_slot_correct [OF hk sl kv index_probes_slots [OF sh, of _ "hf k"]]
  show ?thesis
  proof (cases "ht_slot_of ht k")
    case (Some i)
    note rep = replace_entry [OF ok keys k Some, of d]
    have "insert_here ht (hf k) k d = ret (put_entry ht i ((ht_table ht ! i)\<lparr>e_key := k, e_data := d\<rparr>), Some i)"
      using loop pl Some by (simp add: insert_here_def put_entry_def)
    then show ?thesis
      using rep Some by (auto simp: here_spec_def ht_lookup_def)
  next
    case None
    with pl consider (full) "place_slot (slot_free (ht_slots ht)) (slot_present (ht_deleted_key ht) (ht_slots ht))
          (slot_match (ht_key_equals_function ht) (ht_deleted_key ht) (ht_slots ht) (hf k) k) None
          (index_probes (ht_index ht) (hf k)) = Inr None"
        "\<forall>a\<in>set (index_probes (ht_index ht) (hf k)). slot_present (ht_deleted_key ht) (ht_slots ht) a"
      | (room) j where "place_slot (slot_free (ht_slots ht)) (slot_present (ht_deleted_key ht) (ht_slots ht))
          (slot_match (ht_key_equals_function ht) (ht_deleted_key ht) (ht_slots ht) (hf k) k) None
          (index_probes (ht_index ht) (hf k)) = Inr (Some j)" "j < length (ht_slots ht)"
        "\<not> slot_present (ht_deleted_key ht) (ht_slots ht) j"
        "reaches (slot_free (ht_slots ht)) (index_probes (ht_index ht) (hf k)) j"
      by auto
    then show ?thesis
    proof cases
      case full
      then have "insert_here ht (hf k) k d = ret (ht, None)" using loop by (simp add: insert_here_def)
      moreover have "here_spec ht (hf k) k d ht None"
        using full(2) None index_probes_slots [OF sh] by (auto simp: here_spec_def ht_lookup_def slot_predicates)
      ultimately show ?thesis using ok by blast
    next
      case (room j)
      have j: "j < length (ht_table ht)" "\<not> entry_is_present ht (ht_table ht ! j)"
        using room by (simp_all add: slot_predicates)
      define ht1 where "ht1 = (if entry_is_deleted ht (ht_table ht ! j)
        then ht\<lparr>ht_deleted_entries := ht_deleted_entries ht - 1\<rparr> else ht)"
      define ht' where "ht' = (put_entry ht1 j \<lparr>e_hash = hf k, e_key = k, e_data = d\<rparr>)\<lparr>ht_entries := ht_entries ht + 1\<rparr>"
      note new = new_entry [OF ok keys k None j room(4), of d] new_entry_counts [OF sh ct k j, of "hf k" d]
      have "insert_here ht (hf k) k d = ret (ht', Some j)"
        using loop room(1) by (simp add: insert_here_def put_entry_def ht'_def ht1_def Let_def)
      moreover have "ht_size_index ht' = ht_size_index ht" by (simp add: ht'_def ht1_def)
      moreover have "here_spec ht (hf k) k d ht' (Some j)"
        using new(2,3,5,6) None unfolding ht'_def ht1_def here_spec_def by (simp add: ht_lookup_def)
      ultimately show ?thesis using new(1) unfolding ht'_def ht1_def by blast
    qed
  qed
qed

section \<open>Iterating\<close>

lemma find_upt:
  "n \<le> m \<Longrightarrow> (case List.find P [n..<m] of None \<Rightarrow> filter P [n..<m] = []
    | Some i \<Rightarrow> n \<le> i \<and> i < m \<and> P i \<and> filter P [n..<m] = i # filter P [Suc i..<m])"
proof (induction "m - n" arbitrary: n)
  case (Suc x)
  then have u: "[n..<m] = n # [Suc n..<m]" and nm: "n < m" by (auto simp: upt_conv_Cons)
  have x: "x = m - Suc n" using Suc.hyps(2) by simp
  show ?case
    using Suc.hyps(1) [OF x] nm unfolding u by (auto split: option.splits)
qed simp

lemma foreach_from_filter:
  "foreach_from ht e = filter (\<lambda>i. entry_is_present ht (ht_table ht ! i))
     [(case e of None \<Rightarrow> 0 | Some i \<Rightarrow> i + 1)..<unat (ht_size ht)]"
proof (induction ht e rule: foreach_from.induct)
  case (1 ht e)
  let ?n = "case e of None \<Rightarrow> 0 | Some i \<Rightarrow> i + 1"
  show ?case
  proof (cases "?n \<le> unat (ht_size ht)")
    case True
    note f = find_upt [OF True, of "\<lambda>i. entry_is_present ht (ht_table ht ! i)"]
    show ?thesis
    proof (cases "mesa_hash_table_next_entry ht e")
      case None
      then show ?thesis using f by (subst foreach_from.simps) (simp add: mesa_hash_table_next_entry_def)
    next
      case (Some i)
      then show ?thesis using f 1 [OF Some]
        by (subst foreach_from.simps) (simp add: mesa_hash_table_next_entry_def)
    qed
  next
    case False
    then show ?thesis by (subst foreach_from.simps) (simp add: mesa_hash_table_next_entry_def)
  qed
qed

lemma foreach_filter:
  "hash_table_foreach ht = filter (\<lambda>i. entry_is_present ht (ht_table ht ! i)) [0..<unat (ht_size ht)]"
  by (simp add: hash_table_foreach_def foreach_from_filter)

lemma map_filter_upt: "map (\<lambda>i. xs ! i) (filter (\<lambda>i. P (xs ! i)) [0..<length xs]) = filter P xs"
  by (metis (no_types, lifting) comp_def filter_cong filter_map map_nth)

lemma foreach_entries:
  "ht_shape ht \<Longrightarrow> map (\<lambda>i. ht_table ht ! i) (hash_table_foreach ht) = filter (entry_is_present ht) (ht_table ht)"
  unfolding foreach_filter by (metis ht_shape_def map_filter_upt)

section \<open>Rehashing\<close>

text \<open>The map in terms of the list of present entries.\<close>

lemma find_nth: "map_option (\<lambda>i. xs ! i) (List.find (\<lambda>i. P (xs ! i)) [0..<length xs]) = List.find P xs"
proof -
  have "List.find P (map f is) = map_option f (List.find (\<lambda>i. P (f i)) is)" for f :: "nat \<Rightarrow> 'a" and "is"
    by (induction "is") auto
  from this [of "\<lambda>i. xs ! i" "[0..<length xs]"] show ?thesis by (simp add: map_nth)
qed

lemma find_filter: "List.find P (filter Q xs) = List.find (\<lambda>x. Q x \<and> P x) xs"
  by (induction xs) auto

lemma find_rev_unique:
  assumes "\<And>x y. x \<in> set xs \<Longrightarrow> y \<in> set xs \<Longrightarrow> P x \<Longrightarrow> P y \<Longrightarrow> x = y"
  shows "List.find P (rev xs) = List.find P xs"
proof (cases "List.find P xs")
  case None
  then have "List.find P (rev xs) = None" by (simp add: find_None_iff)
  then show ?thesis using None by simp
next
  case (Some x)
  then have x: "x \<in> set xs" "P x" by (auto simp: find_Some_iff)
  then obtain y where y: "List.find P (rev xs) = Some y" using find_None_iff [of P "rev xs"] by fastforce
  then have "y \<in> set xs" "P y" unfolding find_Some_iff using nth_mem [of _ "rev xs"] by auto
  then show ?thesis using assms x y Some by metis
qed

abbreviation find_entry :: "hash_table \<Rightarrow> u64 \<Rightarrow> hash_entry list \<Rightarrow> hash_entry option" where
  "find_entry ht k \<equiv> List.find (\<lambda>e. ht_key_equals_function ht k (e_key e))"

lemma lookup_entries:
  "ht_lookup ht k = map_option e_data (find_entry ht k (filter (entry_is_present ht) (ht_table ht)))"
proof -
  have "ht_slot_of ht k = List.find (\<lambda>i. entry_is_present ht (ht_table ht ! i) \<and>
      ht_key_equals_function ht k (e_key (ht_table ht ! i))) [0..<length (ht_table ht)]"
    unfolding slot_of_def by (rule find_cong) (auto simp: slot_predicates)
  then have "ht_lookup ht k = map_option e_data (map_option (\<lambda>i. ht_table ht ! i) \<dots>)"
    by (simp add: ht_lookup_def option.map_comp o_def)
  then show ?thesis unfolding find_nth [of "ht_table ht" "\<lambda>e. entry_is_present ht e \<and> ht_key_equals_function ht k (e_key e)"]
    by (simp add: find_filter)
qed

text \<open>No two entries of a table have equal keys.\<close>

definition separate :: "hash_table \<Rightarrow> hash_entry list \<Rightarrow> bool" where
  "separate ht es \<longleftrightarrow> sorted_wrt (\<lambda>a b. \<not> ht_key_equals_function ht (e_key b) (e_key a)) es"

lemma present_entries:
  assumes ok: "ht_ok hf ht" and keys: "ht_keys hf ht"
  shows "\<And>e. e \<in> set (filter (entry_is_present ht) (ht_table ht)) \<Longrightarrow> valid_key ht (e_key e) \<and> e_hash e = hf (e_key e)"
    "separate ht (filter (entry_is_present ht) (ht_table ht))"
    "\<And>k x y. \<lbrakk>valid_key ht k; x \<in> set (filter (entry_is_present ht) (ht_table ht));
       y \<in> set (filter (entry_is_present ht) (ht_table ht)); ht_key_equals_function ht k (e_key x);
       ht_key_equals_function ht k (e_key y)\<rbrakk> \<Longrightarrow> x = y"
proof -
  have hk: "hash_keys (ht_key_equals_function ht) hf (ht_deleted_key ht)" using keys by (simp add: ht_keys_def)
  have sl: "slots_ok (ht_key_equals_function ht) hf (ht_deleted_key ht) (index_probes (ht_index ht)) (ht_slots ht)"
    using ok by (auto simp: ht_ok_def)
  show "valid_key ht (e_key e) \<and> e_hash e = hf (e_key e)"
    if "e \<in> set (filter (entry_is_present ht) (ht_table ht))" for e
    using that sl by (auto simp: in_set_conv_nth slots_ok_def slot_predicates entry_is_present_def valid_key_def)
  have un: "i = j" if "i < length (ht_table ht)" "j < length (ht_table ht)" "entry_is_present ht (ht_table ht ! i)"
      "entry_is_present ht (ht_table ht ! j)" "valid_key ht k"
      "ht_key_equals_function ht k (e_key (ht_table ht ! i))" "ht_key_equals_function ht k (e_key (ht_table ht ! j))"
    for i j k
    using hash_keys.unique_match [OF hk sl, of k j i] that by (simp add: slot_predicates valid_key_def)
  show "x = y" if xy: "valid_key ht k" "x \<in> set (filter (entry_is_present ht) (ht_table ht))"
     "y \<in> set (filter (entry_is_present ht) (ht_table ht))" "ht_key_equals_function ht k (e_key x)"
     "ht_key_equals_function ht k (e_key y)" for k x y
  proof -
    obtain i where i: "i < length (ht_table ht)" "x = ht_table ht ! i" "entry_is_present ht (ht_table ht ! i)"
      using xy(2) by (auto simp: in_set_conv_nth)
    obtain j where j: "j < length (ht_table ht)" "y = ht_table ht ! j" "entry_is_present ht (ht_table ht ! j)"
      using xy(3) by (auto simp: in_set_conv_nth)
    show ?thesis using un [OF i(1) j(1) i(3) j(3) xy(1)] xy(4,5) i j by blast
  qed
  have "\<not> ht_key_equals_function ht (e_key (ht_table ht ! j)) (e_key (ht_table ht ! i))"
    if ij: "i < j" "j < length (ht_table ht)" and pr: "entry_is_present ht (ht_table ht ! i)" "entry_is_present ht (ht_table ht ! j)"
    for i j
  proof
    assume eq: "ht_key_equals_function ht (e_key (ht_table ht ! j)) (e_key (ht_table ht ! i))"
    have "i < length (ht_table ht)" using ij by simp
    then have "j = i" using hash_keys.eq_refl [OF hk] pr
      by (intro un [OF ij(2) _ pr(2,1) _ _ eq]) (auto simp: entry_is_present_def valid_key_def)
    then show False using ij by simp
  qed
  then have "sorted_wrt (\<lambda>a b. entry_is_present ht a \<and> entry_is_present ht b \<longrightarrow>
      \<not> ht_key_equals_function ht (e_key b) (e_key a)) (ht_table ht)"
    by (auto simp: sorted_wrt_iff_nth_less)
  from sorted_wrt_filter [OF this, of "entry_is_present ht"]
  show "separate ht (filter (entry_is_present ht) (ht_table ht))"
    unfolding separate_def by (rule sorted_wrt_mono_rel [rotated]) auto
qed

end
