(* ===== verification/Hash_Insert.thy ===== *)
theory Hash_Insert
  imports Hash_Refine
begin

text \<open>
  Rehashing and inserting: rehashing keeps the map, the recursion of inserting into a table that
  is being rehashed is at most one level deep, and inserting updates the map.
\<close>

section \<open>Inserting where there is room\<close>

lemma here_room:
  assumes ok: "ht_ok hf ht" and i: "ht_index ht < 20" and room: "ht_entries ht < ht_size ht"
    and spec: "here_spec ht h k d ht' r"
  shows "r \<noteq> None"
proof
  assume "r = None"
  then have all: "entry_is_present ht (ht_table ht ! a)" if "a < length (ht_table ht)" for a
    using spec index_probes_all [OF i, of h] that ok by (auto simp: here_spec_def ht_ok_def ht_shape_def)
  then have "length (filter (entry_is_present ht) (ht_table ht)) = length (ht_table ht)"
    by (rule filter_length_all)
  then show False using ok room by (simp add: ht_ok_def ht_counts_def ht_shape_def word_less_nat_alt)
qed

lemma insert_below_max:
  assumes "k \<noteq> 0" "\<not> ht_max_entries ht \<le> ht_entries ht" "\<not> ht_max_entries ht \<le> ht_deleted_entries ht + ht_entries ht"
  shows "hash_table_insert (Suc n) alloc ht h k d = insert_here ht h k d"
  using assms by simp

lemma max_less_size: "ht_shape ht \<Longrightarrow> ht_max_entries ht < ht_size ht"
  using sizes_bounds(4) by (auto simp: ht_shape_def word_less_nat_alt)

section \<open>Rehashing\<close>

lemma same_functions_view:
  assumes "same_functions ht ht'"
  shows "ht_keys hf ht' = ht_keys hf ht" "valid_key ht' = valid_key ht"
    "separate ht' es = separate ht es" "find_entry ht' k es = find_entry ht k es"
    "entry_is_present ht' = entry_is_present ht"
  using assms
  by (simp_all add: same_functions_def ht_keys_def valid_key_def [abs_def] separate_def entry_is_present_def [abs_def])

lemma find_snoc:
  "List.find P (xs @ [x]) = (case List.find P xs of Some y \<Rightarrow> Some y | None \<Rightarrow> if P x then Some x else None)"
  by (induction xs) auto

text \<open>
  The entries of the old table are inserted one by one into the new one. The loop moves all of
  them if each insertion of a new key succeeds; \<open>Q\<close> is what the insertions need of a table
  and of the number of entries still to come.
\<close>

lemma rehash_entries_move:
  assumes step: "\<And>ht k d m. \<lbrakk>ht_ok hf ht; ht_keys hf ht; valid_key ht k; ht_lookup ht k = None; Q ht (Suc m)\<rbrakk> \<Longrightarrow>
      \<exists>ht1 i. ins ht (hf k) k d = ret (ht1, Some i) \<and> ht_ok hf ht1 \<and> ht_inserted ht k d ht1 \<and>
        unat (ht_entries ht1) = unat (ht_entries ht) + 1 \<and> Q ht1 m"
    and "ht_ok hf ht" "ht_keys hf ht" "Q ht (length es)" "separate ht es"
    and "\<And>e. e \<in> set es \<Longrightarrow> valid_key ht (e_key e) \<and> e_hash e = hf (e_key e) \<and> ht_lookup ht (e_key e) = None"
  shows "\<exists>ht'. rehash_entries ins ht es = ret ht' \<and> ht_ok hf ht' \<and> same_functions ht ht' \<and> Q ht' 0 \<and>
    unat (ht_entries ht') = unat (ht_entries ht) + length es \<and>
    (\<forall>k. valid_key ht k \<longrightarrow>
       ht_lookup ht' k = (case find_entry ht k (rev es) of Some e \<Rightarrow> Some (e_data e) | None \<Rightarrow> ht_lookup ht k))"
  using assms(2-)
proof (induction es arbitrary: ht)
  case Nil
  then show ?case by (auto simp: same_functions_def)
next
  case (Cons e es)
  let ?k = "e_key e"
  let ?d = "e_data e"
  have e: "valid_key ht ?k" "e_hash e = hf ?k" "ht_lookup ht ?k = None" using Cons.prems(5) by auto
  have "Q ht (Suc (length es))" using Cons.prems(3) by simp
  from step [OF Cons.prems(1,2) e(1,3) this] obtain ht1 i where
    ins: "ins ht (hf ?k) ?k ?d = ret (ht1, Some i)" and ok1: "ht_ok hf ht1" and inst: "ht_inserted ht ?k ?d ht1"
    and en: "unat (ht_entries ht1) = unat (ht_entries ht) + 1" and q1: "Q ht1 (length es)"
    by blast
  have sf: "same_functions ht ht1" using inst by (simp add: ht_inserted_def)
  note same = same_functions_view [OF sf]
  have lk: "ht_lookup ht1 k = (if ht_key_equals_function ht k ?k then Some ?d else ht_lookup ht k)"
    if "valid_key ht k" for k
    using inst that by (simp add: ht_inserted_def)
  have es: "valid_key ht1 (e_key e') \<and> e_hash e' = hf (e_key e') \<and> ht_lookup ht1 (e_key e') = None"
    if "e' \<in> set es" for e'
    using that Cons.prems(5) [of e'] Cons.prems(4) lk [of "e_key e'"] by (simp add: same(2) separate_def)
  have "separate ht1 es" "ht_keys hf ht1"
    using Cons.prems(2,4) by (simp_all add: same(1,3)) (simp add: separate_def)
  then obtain ht' where
    rest: "rehash_entries ins ht1 es = ret ht'" and st: "ht_ok hf ht'" "same_functions ht1 ht'" "Q ht' 0"
      "unat (ht_entries ht') = unat (ht_entries ht1) + length es"
    and lk': "\<And>k. valid_key ht1 k \<Longrightarrow> ht_lookup ht' k = (case find_entry ht1 k (rev es) of
      Some e \<Rightarrow> Some (e_data e) | None \<Rightarrow> ht_lookup ht1 k)"
    using Cons.IH [OF ok1 _ q1 _ es] by blast
  have "ht_lookup ht' k = (case find_entry ht k (rev (e # es)) of Some e \<Rightarrow> Some (e_data e) | None \<Rightarrow> ht_lookup ht k)"
    if k: "valid_key ht k" for k
    using lk' [of k] lk [OF k] k by (auto simp: find_snoc same split: option.splits)
  moreover have "rehash_entries ins ht (e # es) = ret ht'" using rest ins by (simp add: e(2))
  moreover have "same_functions ht ht'" using st(2) sf by (simp add: same_functions_def)
  ultimately show ?case using st en by (intro exI [of _ ht']) auto
qed

definition rehash_fresh :: "hash_table \<Rightarrow> u32 \<Rightarrow> hash_table" where
  "rehash_fresh ht n = ht\<lparr>ht_table := replicate (unat (sz_size (unat n))) zero_entry, ht_size_index := n,
     ht_size := sz_size (unat n), ht_rehash := sz_rehash (unat n), ht_max_entries := sz_max (unat n),
     ht_entries := 0, ht_deleted_entries := 0\<rparr>"

text \<open>A table without entries.\<close>

lemma empty_table_ok:
  assumes "ht_shape ht" "ht_entries ht = 0" "ht_deleted_entries ht = 0" "ht_deleted_key ht \<noteq> 0"
    and free: "\<And>e. e \<in> set (ht_table ht) \<Longrightarrow> e_key e = 0"
  shows "ht_ok hf ht" "ht_lookup ht k = None"
proof -
  have "\<not> entry_is_present ht e \<and> \<not> entry_is_deleted ht e" if "e \<in> set (ht_table ht)" for e
    using free [OF that] assms(4) by (simp add: entry_is_present_def entry_is_deleted_def)
  then have none: "filter (entry_is_present ht) (ht_table ht) = []" "filter (entry_is_deleted ht) (ht_table ht) = []"
    by (simp_all add: filter_empty_conv)
  then have np: "\<not> slot_present (ht_deleted_key ht) (ht_slots ht) i" if "i < length (ht_table ht)" for i
    using that by (simp add: slot_predicates filter_empty_conv)
  show "ht_ok hf ht"
    using assms np by (simp add: ht_ok_def ht_counts_def none slots_ok_def)
  show "ht_lookup ht k = None" by (simp add: lookup_entries none)
qed

lemma rehash_move:
  assumes step: "\<And>ht k d m. \<lbrakk>ht_ok hf ht; ht_keys hf ht; valid_key ht k; ht_lookup ht k = None; Q ht (Suc m)\<rbrakk> \<Longrightarrow>
      \<exists>ht1 i. ins ht (hf k) k d = ret (ht1, Some i) \<and> ht_ok hf ht1 \<and> ht_inserted ht k d ht1 \<and>
        unat (ht_entries ht1) = unat (ht_entries ht) + 1 \<and> Q ht1 m"
    and ok: "ht_ok hf ht" and keys: "ht_keys hf ht" and n: "unat new_index < 20" and al: "alloc (sz_size (unat new_index))"
    and Q: "Q (rehash_fresh ht new_index) (unat (ht_entries ht))"
  shows "\<exists>ht'. mesa_hash_table_rehash ins alloc ht new_index = ret ht' \<and>
    ht_ok hf ht' \<and> same_functions ht ht' \<and> Q ht' 0 \<and> ht_entries ht' = ht_entries ht \<and>
    (\<forall>k. valid_key ht k \<longrightarrow> ht_lookup ht' k = ht_lookup ht k)"
proof -
  let ?es = "filter (entry_is_present ht) (ht_table ht)"
  let ?f = "rehash_fresh ht new_index"
  have sh: "ht_shape ht" and len: "length ?es = unat (ht_entries ht)" using ok by (auto simp: ht_ok_def ht_counts_def)
  have dk: "ht_deleted_key ht \<noteq> 0" using keys by (simp add: ht_keys_def hash_keys.dk)
  have sf: "same_functions ht ?f" by (simp add: same_functions_def rehash_fresh_def)
  note same = same_functions_view [OF sf]
  have f: "ht_shape ?f" "ht_entries ?f = 0" "ht_deleted_entries ?f = 0" "ht_deleted_key ?f \<noteq> 0"
    "\<And>e. e \<in> set (ht_table ?f) \<Longrightarrow> e_key e = 0"
    using n dk by (auto simp: rehash_fresh_def ht_shape_def zero_entry_def)
  note em = empty_table_ok [OF f]
  note pe = present_entries [OF ok keys]
  have es: "valid_key ?f (e_key e) \<and> e_hash e = hf (e_key e) \<and> ht_lookup ?f (e_key e) = None" if "e \<in> set ?es" for e
    using pe(1) [OF that] em(2) by (simp add: same(2))
  have "ht_keys hf ?f" "separate ?f ?es" "Q ?f (length ?es)"
    using keys pe(2) Q by (simp_all add: same len)
  from rehash_entries_move [where ins = ins and Q = Q, OF step em(1) this(1,3,2) es] obtain ht' where
    r: "rehash_entries ins ?f ?es = ret ht'" "ht_ok hf ht'" "same_functions ?f ht'" "Q ht' 0"
      "unat (ht_entries ht') = unat (ht_entries ?f) + length ?es"
    and lk: "\<And>k. valid_key ?f k \<Longrightarrow> ht_lookup ht' k =
      (case find_entry ?f k (rev ?es) of Some e \<Rightarrow> Some (e_data e) | None \<Rightarrow> ht_lookup ?f k)"
    by blast
  have "ht_lookup ht' k = ht_lookup ht k" if k: "valid_key ht k" for k
  proof -
    have "find_entry ht k (rev ?es) = find_entry ht k ?es"
      by (rule find_rev_unique) (rule pe(3) [OF k])
    then show ?thesis using lk [of k] k em(2) by (simp add: same lookup_entries [of ht] split: option.splits)
  qed
  moreover have "mesa_hash_table_rehash ins alloc ht new_index = ret ht'"
    using n al r(1) foreach_entries [OF sh]
    by (simp add: mesa_hash_table_rehash_def hash_sizes_length rehash_fresh_def Let_def)
  moreover have "same_functions ht ht'" using r(3) sf by (simp add: same_functions_def)
  moreover have "ht_entries ht' = ht_entries ht" using r(5) len by (simp add: word_unat_eq_iff f)
  ultimately show ?thesis using r(2,4) by blast
qed

text \<open>
  If the entries fit in the new table, none of the insertions rehashes it again.
\<close>

lemma rehash_correct:
  assumes ok: "ht_ok hf ht" and keys: "ht_keys hf ht" and n: "unat new_index < 20" and al: "alloc (sz_size (unat new_index))"
    and fits: "unat (ht_entries ht) \<le> unat (sz_max (unat new_index))"
  shows "\<exists>ht'. mesa_hash_table_rehash (hash_table_insert (Suc n) alloc) alloc ht new_index = ret ht' \<and>
    ht_ok hf ht' \<and> same_functions ht ht' \<and> ht_size_index ht' = new_index \<and>
    ht_deleted_entries ht' = 0 \<and> ht_entries ht' = ht_entries ht \<and>
    (\<forall>k. valid_key ht k \<longrightarrow> ht_lookup ht' k = ht_lookup ht k)"
proof -
  let ?Q = "\<lambda>ht m. ht_size_index ht = new_index \<and> ht_deleted_entries ht = 0 \<and>
    unat (ht_entries ht) + m \<le> unat (sz_max (unat new_index))"
  have "\<exists>ht1 i. hash_table_insert (Suc n) alloc ht (hf k) k d = ret (ht1, Some i) \<and> ht_ok hf ht1 \<and>
      ht_inserted ht k d ht1 \<and> unat (ht_entries ht1) = unat (ht_entries ht) + 1 \<and> ?Q ht1 m"
    if a: "ht_ok hf ht" "ht_keys hf ht" "valid_key ht k" "ht_lookup ht k = None" "?Q ht (Suc m)" for ht k d m
  proof -
    obtain ht1 r where ins: "insert_here ht (hf k) k d = ret (ht1, r)" and ok1: "ht_ok hf ht1"
      and ix: "ht_size_index ht1 = ht_size_index ht" and spec: "here_spec ht (hf k) k d ht1 r"
      using insert_here_correct [OF a(1,2,3)] by blast
    have sh: "ht_shape ht" using a(1) by (simp add: ht_ok_def)
    have k0: "k \<noteq> 0" using a(3) by (simp add: valid_key_def)
    have mx: "ht_max_entries ht = sz_max (unat new_index)" using sh a(5) by (simp add: ht_shape_def)
    have lt: "\<not> ht_max_entries ht \<le> ht_entries ht" "\<not> ht_max_entries ht \<le> ht_deleted_entries ht + ht_entries ht"
      using a(5) mx by (auto simp: word_le_nat_alt)
    have "ht_entries ht < ht_size ht" using lt(1) max_less_size [OF sh] by simp
    then obtain i where r: "r = Some i" using here_room [OF a(1) _ _ spec] a(5) n by auto
    show ?thesis
      using insert_below_max [OF k0 lt, of n alloc "hf k" d] ins ok1 ix spec a(4,5)
      by (auto simp: here_spec_def r unat_eq_0 simp del: hash_table_insert.simps)
  qed
  moreover have "?Q (rehash_fresh ht new_index) (unat (ht_entries ht))"
    using fits by (simp add: rehash_fresh_def)
  ultimately show ?thesis
    using rehash_move [where Q = ?Q and ins = "hash_table_insert (Suc n) alloc" and hf = hf and ht = ht
        and alloc = alloc and new_index = new_index, OF _ ok keys n al] by blast
qed

section \<open>Making room\<close>

text \<open>
  The part of \<open>hash_table_insert\<close> that may rehash the table before a key is inserted.
\<close>

definition make_room ::
  "(hash_table \<Rightarrow> u32 \<Rightarrow> u64 \<Rightarrow> u64 \<Rightarrow> (hash_table \<times> nat option) run) \<Rightarrow> (u32 \<Rightarrow> bool) \<Rightarrow>
   hash_table \<Rightarrow> hash_table run" where
  "make_room ins alloc ht =
     (if ht_entries ht \<ge> ht_max_entries ht
      then mesa_hash_table_rehash ins alloc ht (ht_size_index ht + 1)
      else if ht_deleted_entries ht + ht_entries ht \<ge> ht_max_entries ht
      then mesa_hash_table_rehash ins alloc ht (ht_size_index ht)
      else ret ht)"

lemma insert_unfold:
  "k \<noteq> 0 \<Longrightarrow> hash_table_insert (Suc n) alloc ht h k d =
     bind_run (make_room (hash_table_insert n alloc) alloc ht) (\<lambda>ht. insert_here ht h k d)"
  by (simp add: make_room_def)

text \<open>
  What making room keeps, and that it leaves a free entry unless the allocation of a bigger
  table fails.
\<close>

definition roomy :: "(u64 \<Rightarrow> u32) \<Rightarrow> (u32 \<Rightarrow> bool) \<Rightarrow> hash_table \<Rightarrow> hash_table \<Rightarrow> bool" where
  "roomy hf alloc ht ht1 \<longleftrightarrow> ht_ok hf ht1 \<and> same_functions ht ht1 \<and> ht_index ht \<le> ht_index ht1 \<and> ht_index ht1 < 20 \<and>
     ht_entries ht1 = ht_entries ht \<and> (\<forall>k. valid_key ht k \<longrightarrow> ht_lookup ht1 k = ht_lookup ht k) \<and>
     (ht_entries ht1 < ht_size ht1 \<or> ht1 = ht \<and> \<not> alloc (sz_size (Suc (ht_index ht))))"

text \<open>The outcome of an insertion: the map is updated, or the table is full and could not grow.\<close>

definition insert_result ::
  "(u64 \<Rightarrow> u32) \<Rightarrow> (u32 \<Rightarrow> bool) \<Rightarrow> hash_table \<Rightarrow> u64 \<Rightarrow> u64 \<Rightarrow> hash_table \<Rightarrow> nat option \<Rightarrow> bool" where
  "insert_result hf alloc ht k d ht' r \<longleftrightarrow> ht_ok hf ht' \<and> ht_index ht \<le> ht_index ht' \<and> ht_index ht' < 20 \<and>
     (case r of
        Some i \<Rightarrow> ht_inserted ht k d ht' \<and> ht_slot_of ht' k = Some i \<and>
          unat (ht_entries ht') = unat (ht_entries ht) + of_bool (ht_lookup ht k = None)
      | None \<Rightarrow> ht' = ht \<and> ht_lookup ht k = None \<and> ht_entries ht = ht_size ht \<and>
          \<not> alloc (sz_size (Suc (ht_index ht))))"

lemma insert_after_room:
  assumes keys: "ht_keys hf ht" and k: "valid_key ht k" and room: "roomy hf alloc ht ht1"
  shows "\<exists>ht' r. insert_here ht1 (hf k) k d = ret (ht', r) \<and> insert_result hf alloc ht k d ht' r"
proof -
  have ok: "ht_ok hf ht1" and sf: "same_functions ht ht1" and ix: "ht_index ht \<le> ht_index ht1" "ht_index ht1 < 20"
    and en: "ht_entries ht1 = ht_entries ht" and lk: "\<And>k. valid_key ht k \<Longrightarrow> ht_lookup ht1 k = ht_lookup ht k"
    and rm: "ht_entries ht1 < ht_size ht1 \<or> ht1 = ht \<and> \<not> alloc (sz_size (Suc (ht_index ht)))"
    using room by (auto simp: roomy_def)
  note same = same_functions_view [OF sf]
  have keys1: "ht_keys hf ht1" and k1: "valid_key ht1 k" using keys k by (simp_all add: same)
  obtain ht' r where ins: "insert_here ht1 (hf k) k d = ret (ht', r)" and ok': "ht_ok hf ht'"
    and ix': "ht_size_index ht' = ht_size_index ht1" and spec: "here_spec ht1 (hf k) k d ht' r"
    using insert_here_correct [OF ok keys1 k1] by blast
  have "insert_result hf alloc ht k d ht' r"
  proof (cases r)
    case None
    have "\<not> ht_entries ht1 < ht_size ht1" using here_room [OF ok ix(2) _ spec] None by blast
    moreover have "ht_entries ht1 \<le> ht_size ht1"
      using ok counts_fit(1) [of ht1] by (simp add: ht_ok_def word_le_nat_alt)
    ultimately have "ht1 = ht" "\<not> alloc (sz_size (Suc (ht_index ht)))" "ht_entries ht1 = ht_size ht1" using rm by auto
    then show ?thesis using spec ok' ix ix' None by (simp add: insert_result_def here_spec_def)
  next
    case (Some i)
    then have "ht_inserted ht k d ht'"
      using spec sf lk by (auto simp: here_spec_def ht_inserted_def same_functions_def valid_key_def)
    then show ?thesis using spec ok' ix ix' Some lk [OF k] en by (simp add: insert_result_def here_spec_def)
  qed
  then show ?thesis using ins by blast
qed

lemma roomy_refl:
  assumes "ht_ok hf ht" "ht_index ht < 20" "ht_entries ht < ht_size ht \<or> \<not> alloc (sz_size (Suc (ht_index ht)))"
  shows "roomy hf alloc ht ht"
  using assms by (auto simp: roomy_def same_functions_def)

lemma rehash_alloc_fails:
  "\<not> alloc (sz_size (unat n)) \<Longrightarrow> mesa_hash_table_rehash ins alloc ht n = ret ht"
  by (simp add: mesa_hash_table_rehash_def Let_def)

text \<open>A table that holds fewer than a million entries has a bigger size to grow to.\<close>

lemma can_grow:
  assumes "ht_shape ht" "ht_index ht < 20" "unat (ht_entries ht) < 2 ^ 20" "ht_max_entries ht \<le> ht_entries ht"
  shows "unat (ht_size_index ht + 1) = Suc (ht_index ht)" "Suc (ht_index ht) < 20"
proof -
  have "sz_max 19 = 2 ^ 20" by (simp add: sz_max_def hash_sizes_def)
  then have "ht_index ht \<noteq> 19" using assms by (auto simp: ht_shape_def word_le_nat_alt)
  then show "Suc (ht_index ht) < 20" using assms(2) by simp
  then show "unat (ht_size_index ht + 1) = Suc (ht_index ht)" by (simp add: unat_word_ariths)
qed

text \<open>The insertions of a rehashing need not rehash if the entries fit in the bigger table.\<close>

lemma make_room_fits:
  assumes ok: "ht_ok hf ht" and keys: "ht_keys hf ht" and ix: "ht_index ht < 20" and few: "unat (ht_entries ht) < 2 ^ 20"
    and fits: "unat (ht_entries ht) \<le> unat (sz_max (Suc (ht_index ht)))"
  shows "\<exists>ht1. make_room (hash_table_insert (Suc n) alloc) alloc ht = ret ht1 \<and> roomy hf alloc ht ht1"
proof -
  have sh: "ht_shape ht" using ok by (simp add: ht_ok_def)
  note mx = max_less_size [OF sh]
  consider (grow) "ht_max_entries ht \<le> ht_entries ht"
    | (same) "\<not> ht_max_entries ht \<le> ht_entries ht" "ht_max_entries ht \<le> ht_deleted_entries ht + ht_entries ht"
    | (room) "\<not> ht_max_entries ht \<le> ht_entries ht" "\<not> ht_max_entries ht \<le> ht_deleted_entries ht + ht_entries ht"
    by blast
  then show ?thesis
  proof cases
    case grow
    note g = can_grow [OF sh ix few grow]
    show ?thesis
    proof (cases "alloc (sz_size (Suc (ht_index ht)))")
      case True
      then obtain ht1 where r: "mesa_hash_table_rehash (hash_table_insert (Suc n) alloc) alloc ht (ht_size_index ht + 1) = ret ht1"
        "ht_ok hf ht1" "same_functions ht ht1" "ht_size_index ht1 = ht_size_index ht + 1" "ht_entries ht1 = ht_entries ht"
        "\<forall>k. valid_key ht k \<longrightarrow> ht_lookup ht1 k = ht_lookup ht k"
        using rehash_correct [OF ok keys, of "ht_size_index ht + 1" alloc n] g fits by auto
      have "ht_entries ht1 < ht_size ht1"
        using max_less_size [of ht1] r fits g by (auto simp: ht_ok_def ht_shape_def word_less_nat_alt)
      then show ?thesis using grow r g by (auto simp: make_room_def roomy_def)
    next
      case False
      then show ?thesis using grow g rehash_alloc_fails roomy_refl [OF ok ix] by (auto simp: make_room_def)
    qed
  next
    case same
    have lt: "ht_entries ht < ht_size ht" using same(1) mx by simp
    show ?thesis
    proof (cases "alloc (sz_size (ht_index ht))")
      case True
      then obtain ht1 where r: "mesa_hash_table_rehash (hash_table_insert (Suc n) alloc) alloc ht (ht_size_index ht) = ret ht1"
        "ht_ok hf ht1" "same_functions ht ht1" "ht_size_index ht1 = ht_size_index ht" "ht_entries ht1 = ht_entries ht"
        "\<forall>k. valid_key ht k \<longrightarrow> ht_lookup ht1 k = ht_lookup ht k"
        using rehash_correct [OF ok keys, of "ht_size_index ht" alloc n] ix same(1) sh
        by (auto simp: ht_shape_def word_le_nat_alt)
      have "ht_size ht1 = ht_size ht" using r(2,4) sh by (simp add: ht_ok_def ht_shape_def)
      then show ?thesis using same r ix lt by (auto simp: make_room_def roomy_def)
    next
      case False
      then show ?thesis using same lt rehash_alloc_fails roomy_refl [OF ok ix] by (auto simp: make_room_def)
    qed
  next
    case room
    then have "ht_entries ht < ht_size ht" using mx by simp
    then show ?thesis using room roomy_refl [OF ok ix, of alloc] by (auto simp: make_room_def)
  qed
qed

lemma insert_fits:
  assumes "ht_ok hf ht" "ht_keys hf ht" "ht_index ht < 20" "unat (ht_entries ht) < 2 ^ 20"
    "unat (ht_entries ht) \<le> unat (sz_max (Suc (ht_index ht)))" and k: "valid_key ht k"
  shows "\<exists>ht' r. hash_table_insert (Suc (Suc n)) alloc ht (hf k) k d = ret (ht', r) \<and> insert_result hf alloc ht k d ht' r"
proof -
  have k0: "k \<noteq> 0" using k by (simp add: valid_key_def)
  show ?thesis
    unfolding insert_unfold [OF k0, of "Suc n"]
    using make_room_fits [OF assms(1-5), of n alloc] insert_after_room [OF assms(2) k] by fastforce
qed


section \<open>Inserting\<close>

text \<open>
  Only a table of the smallest size can hold more entries, after failed allocations, than
  the next size is meant for; rehashing it may rehash the new table once more.
\<close>

lemma hash_sizes_slack: "\<forall>(m, s, r)\<in>set (tl (take 30 hash_sizes)). unat s \<le> 2 * unat m"
  by (simp add: hash_sizes_def)

lemma sizes_slack:
  assumes "0 < i" "i < 30"
  shows "unat (sz_size i) \<le> unat (sz_max (Suc i))"
proof -
  have "tl (take 30 hash_sizes) ! (i - 1) \<in> set (tl (take 30 hash_sizes))"
    using assms by (intro nth_mem) (simp add: hash_sizes_length)
  then have "hash_sizes ! i \<in> set (tl (take 30 hash_sizes))"
    using assms by (simp add: nth_tl hash_sizes_length)
  from bspec [OF hash_sizes_slack this] show ?thesis
    using sz_max_Suc [OF assms(2)] by (simp add: sz_size_def sz_max_def split: prod.splits)
qed

lemma fits_unless_overfull:
  assumes "ht_ok hf ht" "ht_index ht < 20" "\<not> unat (ht_entries ht) \<le> unat (sz_max (Suc (ht_index ht)))"
  shows "ht_index ht = 0 \<and> unat (ht_entries ht) = 5"
proof -
  have sh: "ht_shape ht" and le: "unat (ht_entries ht) \<le> unat (ht_size ht)"
    using assms(1) counts_fit(1) [of ht] by (auto simp: ht_ok_def)
  then have "ht_index ht = 0"
    using sizes_slack [of "ht_index ht"] assms(2,3) by (cases "ht_index ht = 0") (auto simp: ht_shape_def)
  then show ?thesis using le sh assms(3) by (simp add: ht_shape_def sz_max_def sz_size_def hash_sizes_def)
qed

text \<open>The five entries of such a table are moved by insertions that may rehash.\<close>

lemma sz_size_room: "0 < i \<Longrightarrow> i < 30 \<Longrightarrow> 5 < unat (sz_size i)"
proof -
  have "\<forall>(m, s, r)\<in>set (tl (take 30 hash_sizes)). 5 < unat s" by (simp add: hash_sizes_def)
  moreover assume "0 < i" "i < 30"
  moreover then have "tl (take 30 hash_sizes) ! (i - 1) \<in> set (tl (take 30 hash_sizes))"
    by (intro nth_mem) (simp add: hash_sizes_length)
  ultimately show ?thesis by (auto simp: nth_tl hash_sizes_length sz_size_def)
qed

lemma rehash_overfull:
  assumes ok: "ht_ok hf ht" and keys: "ht_keys hf ht" and n: "0 < unat new_index" "unat new_index < 20"
    and al: "alloc (sz_size (unat new_index))" and five: "unat (ht_entries ht) \<le> 5"
  shows "\<exists>ht'. mesa_hash_table_rehash (hash_table_insert (Suc (Suc n)) alloc) alloc ht new_index = ret ht' \<and>
    ht_ok hf ht' \<and> same_functions ht ht' \<and> 0 < ht_index ht' \<and> ht_index ht' < 20 \<and> ht_entries ht' = ht_entries ht \<and>
    (\<forall>k. valid_key ht k \<longrightarrow> ht_lookup ht' k = ht_lookup ht k)"
proof -
  let ?Q = "\<lambda>ht m. 0 < ht_index ht \<and> ht_index ht < 20 \<and> unat (ht_entries ht) + m \<le> 5"
  have "\<exists>ht1 i. hash_table_insert (Suc (Suc n)) alloc ht (hf k) k d = ret (ht1, Some i) \<and> ht_ok hf ht1 \<and>
      ht_inserted ht k d ht1 \<and> unat (ht_entries ht1) = unat (ht_entries ht) + 1 \<and> ?Q ht1 m"
    if a: "ht_ok hf ht" "ht_keys hf ht" "valid_key ht k" "ht_lookup ht k = None" "?Q ht (Suc m)" for ht k d m
  proof -
    have ix: "ht_index ht < 20" and few: "unat (ht_entries ht) < 2 ^ 20" using a(5) by auto
    have fits: "unat (ht_entries ht) \<le> unat (sz_max (Suc (ht_index ht)))"
      using fits_unless_overfull [OF a(1) ix] a(5) by (cases "unat (ht_entries ht) \<le> unat (sz_max (Suc (ht_index ht)))") auto
    obtain ht1 r where ins: "hash_table_insert (Suc (Suc n)) alloc ht (hf k) k d = ret (ht1, r)"
      and res: "insert_result hf alloc ht k d ht1 r"
      using insert_fits [OF a(1,2) ix few fits a(3)] by blast
    have "unat (ht_entries ht) < unat (ht_size ht)"
      using a(1,5) sz_size_room [of "ht_index ht"] by (simp add: ht_ok_def ht_shape_def)
    then obtain i where r: "r = Some i" using res by (cases r) (auto simp: insert_result_def)
    show ?thesis using ins res a(4,5) by (auto simp: insert_result_def r simp del: hash_table_insert.simps)
  qed
  moreover have "?Q (rehash_fresh ht new_index) (unat (ht_entries ht))"
    using n five by (simp add: rehash_fresh_def)
  ultimately show ?thesis
    using rehash_move [where Q = ?Q and ins = "hash_table_insert (Suc (Suc n)) alloc" and hf = hf and ht = ht
        and alloc = alloc and new_index = new_index, OF _ ok keys n(2) al] by blast
qed

text \<open>
  Inserting a key, with a recursion depth of three: the map is updated, or the table is full,
  cannot grow and is unchanged.
\<close>

lemma insert_correct:
  assumes ok: "ht_ok hf ht" and keys: "ht_keys hf ht" and ix: "ht_index ht < 20" and few: "unat (ht_entries ht) < 2 ^ 20"
    and k: "valid_key ht k"
  shows "\<exists>ht' r. hash_table_insert (Suc (Suc (Suc n))) alloc ht (hf k) k d = ret (ht', r) \<and>
    insert_result hf alloc ht k d ht' r"
proof (cases "unat (ht_entries ht) \<le> unat (sz_max (Suc (ht_index ht)))")
  case True
  then show ?thesis using insert_fits [OF ok keys ix few _ k] by blast
next
  case False
  have k0: "k \<noteq> 0" using k by (simp add: valid_key_def)
  have i0: "ht_index ht = 0" and five: "unat (ht_entries ht) = 5"
    using fits_unless_overfull [OF ok ix False] by auto
  have sh: "ht_shape ht" using ok by (simp add: ht_ok_def)
  have grow: "ht_max_entries ht \<le> ht_entries ht" "unat (ht_size_index ht + 1) = 1"
    using sh five i0 by (simp_all add: ht_shape_def word_le_nat_alt sz_max_def hash_sizes_def unat_word_ariths)
  have "\<exists>ht1. make_room (hash_table_insert (Suc (Suc n)) alloc) alloc ht = ret ht1 \<and> roomy hf alloc ht ht1"
  proof (cases "alloc (sz_size 1)")
    case True
    then obtain ht1 where r: "mesa_hash_table_rehash (hash_table_insert (Suc (Suc n)) alloc) alloc ht (ht_size_index ht + 1) = ret ht1"
      "ht_ok hf ht1" "same_functions ht ht1" "0 < ht_index ht1" "ht_index ht1 < 20" "ht_entries ht1 = ht_entries ht"
      "\<forall>k. valid_key ht k \<longrightarrow> ht_lookup ht1 k = ht_lookup ht k"
      using rehash_overfull [OF ok keys, of "ht_size_index ht + 1" alloc n] grow five by auto
    have "ht_entries ht1 < ht_size ht1"
      using r(2,4-6) sz_size_room [of "ht_index ht1"] five by (simp add: ht_ok_def ht_shape_def word_less_nat_alt)
    then show ?thesis using grow r i0 by (auto simp: make_room_def roomy_def)
  next
    case False
    then show ?thesis using grow i0 rehash_alloc_fails [of alloc "ht_size_index ht + 1"] roomy_refl [OF ok ix, of alloc]
      by (auto simp: make_room_def)
  qed
  then show ?thesis
    unfolding insert_unfold [OF k0, of "Suc (Suc n)"] using insert_after_room [OF keys k] by fastforce
qed

end
