(* ===== verification/Hash_Map.thy ===== *)
theory Hash_Map
  imports Hash_Insert
begin

text \<open>
  The operations of the hash table as operations on a map: creating, searching, inserting,
  removing, clearing, iterating and choosing an entry.
\<close>

section \<open>Creating\<close>

lemma create_ok:
  assumes "mesa_hash_table_create alloc_ht alloc dk hash_function eq = Some ht" "dk \<noteq> 0"
  shows "ht_ok hf ht" "ht_lookup ht k = None" "ht_index ht = 0" "ht_entries ht = 0"
    "ht_key_hash_function ht = hash_function" "ht_key_equals_function ht = eq" "ht_deleted_key ht = dk"
proof -
  have ht: "ht_shape ht" "ht_entries ht = 0" "ht_deleted_entries ht = 0" "ht_deleted_key ht \<noteq> 0"
    "\<And>e. e \<in> set (ht_table ht) \<Longrightarrow> e_key e = 0"
    using assms by (auto simp: mesa_hash_table_create_def ht_shape_def zero_entry_def split: if_splits)
  show "ht_ok hf ht" "ht_lookup ht k = None" using empty_table_ok [OF ht] by blast+
  show "ht_index ht = 0" "ht_entries ht = 0" "ht_key_hash_function ht = hash_function"
    "ht_key_equals_function ht = eq" "ht_deleted_key ht = dk"
    using assms by (auto simp: mesa_hash_table_create_def split: if_splits)
qed

section \<open>Removing\<close>

definition ht_removed :: "hash_table \<Rightarrow> u64 \<Rightarrow> hash_table \<Rightarrow> bool" where
  "ht_removed ht k ht' \<longleftrightarrow> same_functions ht ht' \<and>
     (\<forall>k'. valid_key ht k' \<longrightarrow>
        ht_lookup ht' k' = (if ht_key_equals_function ht k' k then None else ht_lookup ht k'))"

lemma remove_counts:
  assumes sh: "ht_shape ht" and ct: "ht_counts ht" and dk: "ht_deleted_key ht \<noteq> 0"
    and i: "i < length (ht_table ht)" "entry_is_present ht (ht_table ht ! i)"
  shows "ht_counts (mesa_hash_table_remove ht (Some i))"
    "unat (ht_entries (mesa_hash_table_remove ht (Some i))) + 1 = unat (ht_entries ht)"
proof -
  let ?e = "(ht_table ht ! i)\<lparr>e_key := ht_deleted_key ht\<rparr>"
  let ?ht = "mesa_hash_table_remove ht (Some i)"
  have e: "\<not> entry_is_present ht ?e" "entry_is_deleted ht ?e" "\<not> entry_is_deleted ht (ht_table ht ! i)"
    using i(2) by (auto simp: entry_is_present_def entry_is_deleted_def)
  note up = length_filter_update [OF i(1), of "entry_is_present ht" ?e]
  note ud = length_filter_update [OF i(1), of "entry_is_deleted ht" ?e]
  have "0 < length (filter (entry_is_present ht) (ht_table ht))" using i by (auto simp: filter_empty_conv)
  then have pos: "0 < unat (ht_entries ht)" using ct by (simp add: ht_counts_def)
  then have "ht_entries ht \<noteq> 0" by auto
  then have present: "unat (ht_entries ht - 1) = unat (ht_entries ht) - 1" by (rule unat_minus_one)
  have deleted: "unat (ht_deleted_entries ht + 1) = unat (ht_deleted_entries ht) + 1"
    using counts_fit [OF sh ct] pos by (simp add: unat_word_ariths)
  have t: "ht_table ?ht = (ht_table ht)[i := ?e]" "ht_entries ?ht = ht_entries ht - 1"
    "ht_deleted_entries ?ht = ht_deleted_entries ht + 1" "entry_is_present ?ht = entry_is_present ht"
    "entry_is_deleted ?ht = entry_is_deleted ht"
    by (simp_all add: mesa_hash_table_remove_def)
  show "ht_counts ?ht"
    using ct up ud e i(2) present deleted unfolding ht_counts_def t by simp
  show "unat (ht_entries ?ht) + 1 = unat (ht_entries ht)" unfolding t present using pos by simp
qed

lemma remove_correct:
  assumes ok: "ht_ok hf ht" and keys: "ht_keys hf ht" and k: "valid_key ht k"
  defines "ht' \<equiv> mesa_hash_table_remove ht (ht_slot_of ht k)"
  shows "ht_ok hf ht'" "ht_size_index ht' = ht_size_index ht" "ht_removed ht k ht'"
    "unat (ht_entries ht') + of_bool (ht_lookup ht k \<noteq> None) = unat (ht_entries ht)"
proof -
  have hk: "hash_keys (ht_key_equals_function ht) hf (ht_deleted_key ht)" using keys by (simp add: ht_keys_def)
  have sl: "slots_ok (ht_key_equals_function ht) hf (ht_deleted_key ht) (index_probes (ht_index ht)) (ht_slots ht)"
    and sh: "ht_shape ht" and ct: "ht_counts ht"
    using ok by (auto simp: ht_ok_def)
  have kv: "k \<noteq> 0" "k \<noteq> ht_deleted_key ht" using k by (auto simp: valid_key_def)
  have "ht_ok hf ht' \<and> ht_size_index ht' = ht_size_index ht \<and> ht_removed ht k ht' \<and>
    unat (ht_entries ht') + of_bool (ht_lookup ht k \<noteq> None) = unat (ht_entries ht)"
  proof (cases "ht_slot_of ht k")
    case None
    have "ht_lookup ht k' = None" if "valid_key ht k'" "ht_key_equals_function ht k' k" for k'
      using that None hash_keys.eq_trans [OF hk kv] hash_keys.eq_sym [OF hk _ _ kv, of k']
      unfolding ht_lookup_def by (auto simp: slot_of_None slot_present_def valid_key_def)
    then show ?thesis
      using ok None by (auto simp: ht'_def mesa_hash_table_remove_def ht_removed_def same_functions_def ht_lookup_def)
  next
    case (Some i)
    note iD = slot_of_SomeD [OF Some]
    have i: "i < length (ht_table ht)" "entry_is_present ht (ht_table ht ! i)"
      using iD by (simp_all add: slot_predicates)
    note del = hash_keys.delete_ok [OF hk sl iD(1,2)]
    note cnt = remove_counts [OF sh ct hash_keys.dk [OF hk] i]
    have ht': "ht' = mesa_hash_table_remove ht (Some i)" by (simp add: ht'_def Some)
    have t: "ht_slots ht' = (ht_slots ht)[i := (e_hash (ht_table ht ! i), ht_deleted_key ht)]"
      "ht_size_index ht' = ht_size_index ht" "same_functions ht ht'"
      by (simp_all add: ht' mesa_hash_table_remove_def ht_slots_def map_update same_functions_def)
    have tb: "ht_table ht' = (ht_table ht)[i := (ht_table ht ! i)\<lparr>e_key := ht_deleted_key ht\<rparr>]"
      by (simp add: ht' mesa_hash_table_remove_def)
    have "ht_shape ht'" using sh by (simp add: ht' ht_shape_def mesa_hash_table_remove_def)
    then have "ht_ok hf ht'"
      using cnt(1) [folded ht'] del(1) t by (simp add: ht_ok_def same_functions_def)
    moreover have "ht_lookup ht' k' = (if ht_key_equals_function ht k' k then None else ht_lookup ht k')"
      if k': "valid_key ht k'" for k'
    proof -
      have kv': "k' \<noteq> 0" "k' \<noteq> ht_deleted_key ht" using k' by (auto simp: valid_key_def)
      have eq: "ht_key_equals_function ht k' (snd (ht_slots ht ! i)) \<longleftrightarrow> ht_key_equals_function ht k' k"
        using iD(2,3) hash_keys.eq_trans [OF hk kv' kv, of "snd (ht_slots ht ! i)"]
          hash_keys.eq_trans [OF hk kv' _ _ kv, of "snd (ht_slots ht ! i)"] hash_keys.eq_sym [OF hk kv, of "snd (ht_slots ht ! i)"]
        by (auto simp: slot_present_def)
      have s': "ht_slot_of ht' k' = (if ht_key_equals_function ht k' k then None else ht_slot_of ht k')"
        using del(2) [OF kv'] t(1,3) unfolding eq by (simp add: same_functions_def)
      show ?thesis
        unfolding ht_lookup_def s' tb using i(1) by (cases "ht_slot_of ht k'") (auto simp: nth_list_update)
    qed
    ultimately show ?thesis using cnt(2) [folded ht'] Some t by (simp add: ht_removed_def ht_lookup_def)
  qed
  then show "ht_ok hf ht'" "ht_size_index ht' = ht_size_index ht" "ht_removed ht k ht'"
    "unat (ht_entries ht') + of_bool (ht_lookup ht k \<noteq> None) = unat (ht_entries ht)"
    by auto
qed

section \<open>Clearing\<close>

lemma clear_correct:
  assumes ok: "ht_ok hf ht" and keys: "ht_keys hf ht" and c: "mesa_hash_table_clear ht del = (es, ht')"
  shows "ht_ok hf ht'" "same_functions ht ht'" "ht_size_index ht' = ht_size_index ht" "ht_entries ht' = 0"
    "ht_lookup ht' k = None" "del \<Longrightarrow> es = filter (entry_is_present ht) (ht_table ht)"
proof -
  have sh: "ht_shape ht" using ok by (simp add: ht_ok_def)
  have dk: "ht_deleted_key ht \<noteq> 0" using keys by (simp add: ht_keys_def hash_keys.dk)
  have len: "length (ht_table ht) = unat (ht_size ht)" using sh by (simp add: ht_shape_def)
  have t: "ht' = ht\<lparr>ht_table := map (\<lambda>e. if e_key e = 0 then e else e\<lparr>e_key := 0\<rparr>) (ht_table ht),
      ht_entries := 0, ht_deleted_entries := 0\<rparr>"
    "es = (if del then filter (\<lambda>e. e_key e \<noteq> 0 \<and> e_key e \<noteq> ht_deleted_key ht) (ht_table ht) else [])"
    using c len by (auto simp: mesa_hash_table_clear_def Let_def)
  have ht': "ht_shape ht'" "ht_entries ht' = 0" "ht_deleted_entries ht' = 0" "ht_deleted_key ht' \<noteq> 0"
    "\<And>e. e \<in> set (ht_table ht') \<Longrightarrow> e_key e = 0"
    using sh dk by (auto simp: t ht_shape_def split: if_splits)
  show "ht_ok hf ht'" "ht_lookup ht' k = None" using empty_table_ok [OF ht'] by blast+
  show "same_functions ht ht'" "ht_size_index ht' = ht_size_index ht" "ht_entries ht' = 0"
    by (simp_all add: t same_functions_def)
  show "del \<Longrightarrow> es = filter (entry_is_present ht) (ht_table ht)"
    by (simp add: t entry_is_present_def [abs_def])
qed

section \<open>Choosing an entry\<close>

lemma find_upt_None: "List.find P [a..<b] = None \<longleftrightarrow> (\<forall>j. a \<le> j \<and> j < b \<longrightarrow> \<not> P j)"
  by (auto simp: find_None_iff)

lemma find_upt_SomeD: "List.find P [a..<b] = Some j \<Longrightarrow> a \<le> j \<and> j < b \<and> P j"
  by (auto simp: find_Some_iff)

lemma random_entry_Some:
  assumes "0 < unat (ht_size ht)" "mesa_hash_table_random_entry ht r p = Some j"
  shows "j < unat (ht_size ht)" "entry_is_present ht (ht_table ht ! j)" "case p of None \<Rightarrow> True | Some f \<Rightarrow> f (ht_table ht ! j)"
proof -
  have lt: "unat (r mod ht_size ht) < unat (ht_size ht)" using assms(1) by (rule unat_mod_less)
  have "j < unat (ht_size ht) \<and> entry_is_present ht (ht_table ht ! j) \<and> (case p of None \<Rightarrow> True | Some f \<Rightarrow> f (ht_table ht ! j))"
    using assms(2) lt unfolding mesa_hash_table_random_entry_def Let_def
    by (auto split: if_splits option.splits dest!: find_upt_SomeD)
  then show "j < unat (ht_size ht)" "entry_is_present ht (ht_table ht ! j)" "case p of None \<Rightarrow> True | Some f \<Rightarrow> f (ht_table ht ! j)"
    by auto
qed

lemma random_entry_None:
  assumes "0 < unat (ht_size ht)" "ht_entries ht \<noteq> 0" "mesa_hash_table_random_entry ht r p = None"
    and j: "j < unat (ht_size ht)" "entry_is_present ht (ht_table ht ! j)"
  shows "case p of None \<Rightarrow> False | Some f \<Rightarrow> \<not> f (ht_table ht ! j)"
proof (cases "unat (r mod ht_size ht) \<le> j")
  case True
  then show ?thesis
    using assms unfolding mesa_hash_table_random_entry_def Let_def
    by (auto split: if_splits option.splits simp: find_upt_None)
next
  case False
  then show ?thesis
    using assms unfolding mesa_hash_table_random_entry_def Let_def
    by (auto split: if_splits option.splits simp: find_upt_None)
qed

end
