(* ===== verification/Keyed_Map.thy ===== *)
theory Keyed_Map
  imports Runs
begin

text \<open>
  The interface of a map with keys that are compared by an equivalence: what a client of the
  hash table, of its 64-bit wrapper or of the set relies on. Histories of operations behave as
  on an abstract map.
\<close>

section \<open>Histories of operations\<close>

datatype ('k, 'v) map_op = Put 'k 'v | Drop 'k

fun op_key :: "('k, 'v) map_op \<Rightarrow> 'k" where
  "op_key (Put k v) = k"
| "op_key (Drop k) = k"

fun run_ops ::
  "('s \<Rightarrow> 'k \<Rightarrow> 'v \<Rightarrow> 's run) \<Rightarrow> ('s \<Rightarrow> 'k \<Rightarrow> 's run) \<Rightarrow> 's \<Rightarrow> ('k, 'v) map_op list \<Rightarrow> 's run" where
  "run_ops put drp s [] = ret s"
| "run_ops put drp s (Put k v # ops) = bind_run (put s k v) (\<lambda>s. run_ops put drp s ops)"
| "run_ops put drp s (Drop k # ops) = bind_run (drp s k) (\<lambda>s. run_ops put drp s ops)"

text \<open>The abstract map.\<close>

fun apply_op :: "('k \<Rightarrow> 'k \<Rightarrow> bool) \<Rightarrow> ('k, 'v) map_op \<Rightarrow> ('k \<Rightarrow> 'v option) \<Rightarrow> 'k \<Rightarrow> 'v option" where
  "apply_op eq (Put k v) m = (\<lambda>k'. if eq k' k then Some v else m k')"
| "apply_op eq (Drop k) m = (\<lambda>k'. if eq k' k then None else m k')"

definition apply_ops :: "('k \<Rightarrow> 'k \<Rightarrow> bool) \<Rightarrow> ('k, 'v) map_op list \<Rightarrow> ('k \<Rightarrow> 'v option) \<Rightarrow> 'k \<Rightarrow> 'v option" where
  "apply_ops eq ops m = fold (apply_op eq) ops m"

section \<open>The interface\<close>

text \<open>
  \<open>ok n s\<close>: the state is well formed and holds at most \<open>n\<close> keys. \<open>limit\<close> is the number
  of keys up to which putting a key always succeeds.
\<close>

locale keyed_map =
  fixes ok :: "nat \<Rightarrow> 's \<Rightarrow> bool" and look :: "'s \<Rightarrow> 'k \<Rightarrow> 'v option" and eq :: "'k \<Rightarrow> 'k \<Rightarrow> bool"
    and valid :: "'k \<Rightarrow> bool" and put :: "'s \<Rightarrow> 'k \<Rightarrow> 'v \<Rightarrow> 's run" and drp :: "'s \<Rightarrow> 'k \<Rightarrow> 's run"
    and limit :: nat
  assumes put: "\<lbrakk>ok n s; valid k; n < limit\<rbrakk> \<Longrightarrow> \<exists>s'. put s k v = ret s' \<and> ok (Suc n) s' \<and>
      (\<forall>k'. valid k' \<longrightarrow> look s' k' = (if eq k' k then Some v else look s k'))"
    and drp: "\<lbrakk>ok n s; valid k\<rbrakk> \<Longrightarrow> \<exists>s'. drp s k = ret s' \<and> ok n s' \<and>
      (\<forall>k'. valid k' \<longrightarrow> look s' k' = (if eq k' k then None else look s k'))"
    and weaken: "ok n s \<Longrightarrow> ok (Suc n) s"
begin

lemma step:
  assumes "ok n s" "valid (op_key p)" "n < limit"
  shows "\<exists>s'. run_ops put drp s (p # ops) = run_ops put drp s' ops \<and> ok (Suc n) s' \<and>
    (\<forall>k. valid k \<longrightarrow> look s' k = apply_op eq p (look s) k)"
proof (cases p)
  case (Put k v)
  then show ?thesis using put [OF assms(1) _ assms(3), of k v] assms(2) by auto
next
  case (Drop k)
  then show ?thesis using drp [OF assms(1), of k] assms(2) weaken by auto
qed

lemma apply_op_cong:
  "(\<And>k. valid k \<Longrightarrow> m k = m' k) \<Longrightarrow> valid k \<Longrightarrow> apply_op eq p m k = apply_op eq p m' k"
  by (cases p) auto

lemma apply_ops_cong:
  "(\<And>k. valid k \<Longrightarrow> m k = m' k) \<Longrightarrow> valid k \<Longrightarrow> apply_ops eq ops m k = apply_ops eq ops m' k"
proof (induction ops arbitrary: m m')
  case (Cons p ops)
  have "apply_op eq p m k = apply_op eq p m' k" if "valid k" for k
    by (rule apply_op_cong [OF _ that]) (rule Cons.prems(1))
  from Cons.IH [of "apply_op eq p m" "apply_op eq p m'", OF this Cons.prems(2)]
  show ?case by (simp add: apply_ops_def)
qed (simp add: apply_ops_def)

text \<open>No operation of a history that keeps the limit fails, and the state represents the map.\<close>

lemma history:
  assumes "ok n s" "\<And>p. p \<in> set ops \<Longrightarrow> valid (op_key p)" "n + length ops \<le> limit"
  shows "\<exists>s'. run_ops put drp s ops = ret s' \<and> ok (n + length ops) s' \<and>
    (\<forall>k. valid k \<longrightarrow> look s' k = apply_ops eq ops (look s) k)"
  using assms
proof (induction ops arbitrary: n s)
  case (Cons p ops)
  have p: "valid (op_key p)" "n < limit" using Cons.prems by auto
  from step [OF Cons.prems(1) p, of ops] obtain s1 where
    s1: "run_ops put drp s (p # ops) = run_ops put drp s1 ops" "ok (Suc n) s1"
      "\<And>k. valid k \<Longrightarrow> look s1 k = apply_op eq p (look s) k"
    by blast
  from Cons.IH [OF s1(2)] Cons.prems(2,3) obtain s' where
    s': "run_ops put drp s1 ops = ret s'" "ok (n + length (p # ops)) s'"
      "\<And>k. valid k \<Longrightarrow> look s' k = apply_ops eq ops (look s1) k"
    by auto
  have "look s' k = apply_ops eq (p # ops) (look s) k" if "valid k" for k
    using s'(3) [OF that] apply_ops_cong [of "look s1" "apply_op eq p (look s)", OF s1(3) that] by (simp add: apply_ops_def)
  then show ?case using s1(1) s' by auto
qed (simp add: apply_ops_def)

end

end
