(* ===== verification/Hash_Spec.thy ===== *)
theory Hash_Spec
  imports Hash_Map Keyed_Map
begin

text \<open>
  The hash table as an implementation of the interface of a keyed map, the contracts of the
  keys that the library offers, and the properties of the operations.
\<close>

section \<open>Keys\<close>

text \<open>Pointers and strings satisfy the contract of keys.\<close>

lemma pointer_keys: "dk \<noteq> 0 \<Longrightarrow> hash_keys mesa_key_pointer_equal mesa_hash_pointer dk"
  by unfold_locales (auto simp: mesa_key_pointer_equal_def)

lemma hash_string_loop_takeWhile:
  "hash_string_loop h s = mesa_fnv32_1a_accumulate_block h (takeWhile (\<lambda>c. c \<noteq> 0) s)"
  by (induction s arbitrary: h) auto

text \<open>
  The marker of deleted keys of the 64-bit wrapper, \<open>DELETED_KEY_VALUE\<close>.
\<close>

definition DELETED_KEY_VALUE :: u64 where
  "DELETED_KEY_VALUE = 1"

interpretation u64_keys: hash_keys mesa_key_pointer_equal mesa_hash_pointer DELETED_KEY_VALUE
  by (rule pointer_keys) (simp add: DELETED_KEY_VALUE_def)

text \<open>Every size of the table that is used has cyclic probe sequences.\<close>

interpretation size_cycle: probe_cycle "unat (sz_size (i mod 30))" "unat (h mod sz_size (i mod 30))"
    "unat (1 + h mod sz_rehash (i mod 30))" for i h
  by unfold_locales (rule probe_params(1), simp)

section \<open>Clients\<close>

text \<open>Inserting a key when memory never runs out, and removing what a search finds.\<close>

definition table_put :: "hash_table \<Rightarrow> u64 \<Rightarrow> u64 \<Rightarrow> hash_table run" where
  "table_put ht k d = bind_run (mesa_hash_table_insert (\<lambda>_. True) ht k d) (\<lambda>(ht, _). ret ht)"

definition table_drop :: "hash_table \<Rightarrow> u64 \<Rightarrow> hash_table run" where
  "table_drop ht k = bind_run (mesa_hash_table_search ht k) (\<lambda>e. ret (mesa_hash_table_remove ht e))"

definition table_ok :: "(u64 \<Rightarrow> u32) \<Rightarrow> (u64 \<Rightarrow> u64 \<Rightarrow> bool) \<Rightarrow> u64 \<Rightarrow> nat \<Rightarrow> hash_table \<Rightarrow> bool" where
  "table_ok hf eq dk n ht \<longleftrightarrow> hash_keys eq hf dk \<and> ht_ok hf ht \<and> ht_key_hash_function ht = Some hf \<and>
     ht_key_equals_function ht = eq \<and> ht_deleted_key ht = dk \<and> ht_index ht < 20 \<and> unat (ht_entries ht) \<le> n"

lemma table_okD:
  assumes "table_ok hf eq dk n ht"
  shows "ht_ok hf ht" "ht_keys hf ht" "ht_key_hash_function ht = Some hf" "ht_key_equals_function ht = eq"
    "ht_index ht < 20" "unat (ht_entries ht) \<le> n" "valid_key ht = (\<lambda>k. k \<noteq> 0 \<and> k \<noteq> dk)"
  using assms by (auto simp: table_ok_def ht_keys_def valid_key_def)

lemma table_ok_same:
  assumes "table_ok hf eq dk n ht" "same_functions ht ht'" "ht_ok hf ht'" "ht_index ht' < 20" "unat (ht_entries ht') \<le> m"
  shows "table_ok hf eq dk m ht'"
  using assms by (simp add: table_ok_def same_functions_def)

lemma create_table_ok:
  assumes "hash_keys eq hf dk" "mesa_hash_table_create alloc_ht alloc dk (Some hf) eq = Some ht"
  shows "table_ok hf eq dk 0 ht" "ht_lookup ht k = None"
  using create_ok [OF assms(2)] hash_keys.dk [OF assms(1)] assms(1) by (simp_all add: table_ok_def)

lemma search_correct:
  assumes "table_ok hf eq dk n ht" "k \<noteq> 0" "k \<noteq> dk"
  shows "mesa_hash_table_search ht k = ret (ht_slot_of ht k)"
  using search_finds [of hf ht k] table_okD [OF assms(1)] assms(2,3) by (simp add: mesa_hash_table_search_def)

lemma insert_table:
  assumes ok: "table_ok hf eq dk n ht" and k: "k \<noteq> 0" "k \<noteq> dk" and n: "n < 2 ^ 20"
  shows "\<exists>ht' r. mesa_hash_table_insert alloc ht k d = ret (ht', r) \<and> insert_result hf alloc ht k d ht' r"
proof -
  note t = table_okD [OF ok]
  have "unat (ht_entries ht) < 2 ^ 20" using t(6) n by simp
  moreover have "valid_key ht k" using k by (simp add: t)
  ultimately show ?thesis
    using insert_correct [OF t(1,2,5), of k 0 alloc d] by (simp add: mesa_hash_table_insert_def t(3) numeral_3_eq_3 del: hash_table_insert.simps)
qed

lemma table_put_ok:
  assumes ok: "table_ok hf eq dk n ht" and k: "k \<noteq> 0 \<and> k \<noteq> dk" and n: "n < 2 ^ 20"
  shows "\<exists>ht'. table_put ht k d = ret ht' \<and> table_ok hf eq dk (Suc n) ht' \<and>
    (\<forall>k'. k' \<noteq> 0 \<and> k' \<noteq> dk \<longrightarrow> ht_lookup ht' k' = (if eq k' k then Some d else ht_lookup ht k'))"
proof -
  note t = table_okD [OF ok]
  have k': "k \<noteq> 0" "k \<noteq> dk" using k by auto
  from insert_table [OF ok k' n, of "\<lambda>_. True" d] obtain ht' r where
    ins: "mesa_hash_table_insert (\<lambda>_. True) ht k d = ret (ht', r)" and res: "insert_result hf (\<lambda>_. True) ht k d ht' r"
    by blast
  then obtain i where "r = Some i" by (cases r) (auto simp: insert_result_def)
  then have "ht_inserted ht k d ht'" "ht_ok hf ht'" "ht_index ht' < 20" "unat (ht_entries ht') \<le> Suc n"
    using res t(6) by (auto simp: insert_result_def)
  then show ?thesis
    using ins table_ok_same [OF ok, of ht' "Suc n"] t by (auto simp: table_put_def ht_inserted_def)
qed

lemma table_drop_ok:
  assumes ok: "table_ok hf eq dk n ht" and k: "k \<noteq> 0 \<and> k \<noteq> dk"
  shows "\<exists>ht'. table_drop ht k = ret ht' \<and> table_ok hf eq dk n ht' \<and>
    (\<forall>k'. k' \<noteq> 0 \<and> k' \<noteq> dk \<longrightarrow> ht_lookup ht' k' = (if eq k' k then None else ht_lookup ht k'))"
proof -
  note t = table_okD [OF ok]
  have k': "k \<noteq> 0" "k \<noteq> dk" and v: "valid_key ht k" using k by (auto simp: t)
  let ?ht = "mesa_hash_table_remove ht (ht_slot_of ht k)"
  note r = remove_correct [OF t(1,2) v]
  have "unat (ht_entries ?ht) \<le> n" using r(4) t(6) by linarith
  moreover have "same_functions ht ?ht" using r(3) by (simp add: ht_removed_def)
  ultimately have "table_ok hf eq dk n ?ht" using table_ok_same [OF ok _ r(1)] r(2) t(5) by simp
  moreover have "table_drop ht k = ret ?ht" by (simp add: table_drop_def search_correct [OF ok k'])
  ultimately show ?thesis using r(3) by (auto simp: ht_removed_def t)
qed

interpretation table_map: keyed_map "table_ok hf eq dk" ht_lookup eq "\<lambda>k. k \<noteq> 0 \<and> k \<noteq> dk" table_put table_drop "2 ^ 20"
  for hf eq dk
proof unfold_locales
  show "\<exists>s'. table_put s k v = ret s' \<and> table_ok hf eq dk (Suc n) s' \<and>
      (\<forall>k'. k' \<noteq> 0 \<and> k' \<noteq> dk \<longrightarrow> ht_lookup s' k' = (if eq k' k then Some v else ht_lookup s k'))"
    if "table_ok hf eq dk n s" "k \<noteq> 0 \<and> k \<noteq> dk" "n < 2 ^ 20" for n s k v
    using that by (rule table_put_ok)
  show "\<exists>s'. table_drop s k = ret s' \<and> table_ok hf eq dk n s' \<and>
      (\<forall>k'. k' \<noteq> 0 \<and> k' \<noteq> dk \<longrightarrow> ht_lookup s' k' = (if eq k' k then None else ht_lookup s k'))"
    if "table_ok hf eq dk n s" "k \<noteq> 0 \<and> k \<noteq> dk" for n s k
    using that by (rule table_drop_ok)
  show "table_ok hf eq dk (Suc n) s" if "table_ok hf eq dk n s" for n s
    using that by (simp add: table_ok_def)
qed

section \<open>Properties\<close>

text \<open>A table of pointers as it is created, for concrete instances.\<close>

definition pointer_table :: hash_table where
  "pointer_table = \<lparr>ht_table = replicate 5 zero_entry, ht_key_hash_function = Some mesa_hash_pointer,
     ht_key_equals_function = mesa_key_pointer_equal, ht_deleted_key = 1, ht_size = 5, ht_rehash = 3,
     ht_max_entries = 2, ht_size_index = 0, ht_entries = 0, ht_deleted_entries = 0\<rparr>"

lemma pointer_table_create:
  "mesa_hash_table_create True (\<lambda>_. True) 1 (Some mesa_hash_pointer) mesa_key_pointer_equal = Some pointer_table"
  by (simp add: mesa_hash_table_create_def pointer_table_def sz_size_def sz_rehash_def sz_max_def hash_sizes_def)

lemma pointer_table_ok: "table_ok mesa_hash_pointer mesa_key_pointer_equal 1 0 pointer_table"
  by (rule create_table_ok(1) [OF pointer_keys pointer_table_create]) simp

text \<open>
  C1. Histories of insertions and removals. Starting from a new table whose keys satisfy the
  contract (an equivalence that the hash function respects), any history of up to 2^20
  insertions and removals of valid keys, with all the rehashing it causes, ends without a fault
  and without running forever, provided that memory suffices; afterwards
  searching a key finds exactly what the map described by the history holds.
\<close>

theorem table_history:
  assumes "hash_keys eq hf dk" "mesa_hash_table_create True (\<lambda>_. True) dk (Some hf) eq = Some ht"
    and "\<And>p. p \<in> set ops \<Longrightarrow> op_key p \<noteq> 0 \<and> op_key p \<noteq> dk" "length ops \<le> 2 ^ 20"
  shows "\<exists>ht'. run_ops table_put table_drop ht ops = ret ht' \<and>
    (\<forall>k. k \<noteq> 0 \<and> k \<noteq> dk \<longrightarrow>
      (\<exists>r. mesa_hash_table_search ht' k = ret r \<and>
        map_option (\<lambda>i. e_data (ht_table ht' ! i)) r = apply_ops eq ops (\<lambda>_. None) k))"
proof -
  note c = create_table_ok [OF assms(1,2)]
  from table_map.history [OF c(1) assms(3)] assms(4) obtain ht' where
    r: "run_ops table_put table_drop ht ops = ret ht'" "table_ok hf eq dk (length ops) ht'"
      "\<And>k. k \<noteq> 0 \<and> k \<noteq> dk \<Longrightarrow> ht_lookup ht' k = apply_ops eq ops (ht_lookup ht) k"
    by auto
  have "\<exists>r. mesa_hash_table_search ht' k = ret r \<and>
      map_option (\<lambda>i. e_data (ht_table ht' ! i)) r = apply_ops eq ops (\<lambda>_. None) k" if k: "k \<noteq> 0 \<and> k \<noteq> dk" for k
  proof -
    have e: "ht_lookup ht = (\<lambda>_. None)" using c(2) by (simp add: fun_eq_iff)
    show ?thesis
      using search_correct [OF r(2), of k] r(3) [OF k] k unfolding e ht_lookup_def by simp
  qed
  then show ?thesis using r(1) by blast
qed

theorem table_history_witness:
  "\<exists>ht'. run_ops table_put table_drop pointer_table [Put 8 80, Put 16 160, Put 24 240, Drop 8] = ret ht' \<and>
    (\<forall>k. k \<noteq> 0 \<and> k \<noteq> 1 \<longrightarrow>
      (\<exists>r. mesa_hash_table_search ht' k = ret r \<and>
        map_option (\<lambda>i. e_data (ht_table ht' ! i)) r =
        apply_ops mesa_key_pointer_equal [Put 8 80, Put 16 160, Put 24 240, Drop 8] (\<lambda>_. None) k))"
  by (rule table_history [OF pointer_keys pointer_table_create]) auto

text \<open>
  C15. Inserting a key into a table that satisfies the invariant and holds fewer than 2^20 keys,
  whatever allocations succeed: the code returns, keeps the invariant, and either
  the map has the new data under the keys equal to the given one, and the returned entry holds
  the key, with the counter of entries incremented exactly if the key was new, or every
  entry is in use, the bigger table could not be allocated, and the table is as before.
\<close>

theorem hash_table_insert_correct:
  assumes "table_ok hf eq dk n ht" "k \<noteq> 0" "k \<noteq> dk" "n < 2 ^ 20"
  shows "\<exists>ht' r. mesa_hash_table_insert alloc ht k d = ret (ht', r) \<and> ht_ok hf ht' \<and>
    (case r of
       Some i \<Rightarrow> ht_slot_of ht' k = Some i \<and> same_functions ht ht' \<and>
         unat (ht_entries ht') = unat (ht_entries ht) + of_bool (ht_lookup ht k = None) \<and>
         (\<forall>k'. k' \<noteq> 0 \<and> k' \<noteq> dk \<longrightarrow> ht_lookup ht' k' = (if eq k' k then Some d else ht_lookup ht k'))
     | None \<Rightarrow> ht' = ht \<and> ht_lookup ht k = None \<and> ht_entries ht = ht_size ht \<and>
         \<not> alloc (sz_size (Suc (ht_index ht))))"
proof -
  from insert_table [OF assms, of alloc d] obtain ht' r where
    "mesa_hash_table_insert alloc ht k d = ret (ht', r)" "insert_result hf alloc ht k d ht' r"
    by blast
  then show ?thesis
    using table_okD [OF assms(1)] by (auto simp: insert_result_def ht_inserted_def split: option.splits)
qed

theorem hash_table_insert_correct_witness:
  "\<exists>ht' r. mesa_hash_table_insert (\<lambda>_. True) pointer_table 8 80 = ret (ht', r) \<and> ht_ok mesa_hash_pointer ht' \<and>
    (case r of
       Some i \<Rightarrow> ht_slot_of ht' 8 = Some i \<and> same_functions pointer_table ht' \<and>
         unat (ht_entries ht') = unat (ht_entries pointer_table) + of_bool (ht_lookup pointer_table 8 = None) \<and>
         (\<forall>k'. k' \<noteq> 0 \<and> k' \<noteq> 1 \<longrightarrow>
            ht_lookup ht' k' = (if mesa_key_pointer_equal k' 8 then Some 80 else ht_lookup pointer_table k'))
     | None \<Rightarrow> ht' = pointer_table \<and> ht_lookup pointer_table 8 = None \<and> ht_entries pointer_table = ht_size pointer_table \<and>
         \<not> True)"
  by (rule hash_table_insert_correct [OF pointer_table_ok]) simp_all

text \<open>
  C22. Searching and removing. On a table that satisfies the invariant a search returns
  the entry that holds an equal key, wherever deleted entries lie on the way, or nothing if there is none; removing the
  entry that was found keeps the invariant, takes the key out of the map, leaves every other
  key, and decrements the counter of entries if there was one.
\<close>

theorem hash_table_remove_correct:
  assumes "table_ok hf eq dk n ht" "k \<noteq> 0" "k \<noteq> dk"
  shows "\<exists>r. mesa_hash_table_search ht k = ret r \<and>
    (r = None \<longleftrightarrow> (\<forall>i < length (ht_table ht). entry_is_present ht (ht_table ht ! i) \<longrightarrow> \<not> eq k (e_key (ht_table ht ! i)))) \<and>
    (\<forall>i. r = Some i \<longrightarrow> i < length (ht_table ht) \<and> entry_is_present ht (ht_table ht ! i) \<and> eq k (e_key (ht_table ht ! i))) \<and>
    table_ok hf eq dk n (mesa_hash_table_remove ht r) \<and>
    unat (ht_entries (mesa_hash_table_remove ht r)) + of_bool (r \<noteq> None) = unat (ht_entries ht) \<and>
    (\<forall>k'. k' \<noteq> 0 \<and> k' \<noteq> dk \<longrightarrow>
       ht_lookup (mesa_hash_table_remove ht r) k' = (if eq k' k then None else ht_lookup ht k'))"
proof (intro exI conjI)
  note t = table_okD [OF assms(1)]
  have v: "valid_key ht k" using assms(2,3) by (simp add: t)
  note r = remove_correct [OF t(1,2) v]
  show "mesa_hash_table_search ht k = ret (ht_slot_of ht k)" by (rule search_correct [OF assms])
  show "ht_slot_of ht k = None \<longleftrightarrow> (\<forall>i < length (ht_table ht). entry_is_present ht (ht_table ht ! i) \<longrightarrow> \<not> eq k (e_key (ht_table ht ! i)))"
    by (simp add: slot_of_None slot_predicates t)
  show "\<forall>i. ht_slot_of ht k = Some i \<longrightarrow> i < length (ht_table ht) \<and> entry_is_present ht (ht_table ht ! i) \<and> eq k (e_key (ht_table ht ! i))"
    using slot_of_SomeD [of eq "ht_deleted_key ht" "ht_slots ht" k] by (auto simp: slot_predicates t)
  show "table_ok hf eq dk n (mesa_hash_table_remove ht (ht_slot_of ht k))"
    using table_drop_ok [OF assms(1), of k] assms(2,3) by (simp add: table_drop_def search_correct [OF assms])
  show "unat (ht_entries (mesa_hash_table_remove ht (ht_slot_of ht k))) + of_bool (ht_slot_of ht k \<noteq> None) = unat (ht_entries ht)"
    using r(4) by (simp add: ht_lookup_def)
  show "\<forall>k'. k' \<noteq> 0 \<and> k' \<noteq> dk \<longrightarrow>
      ht_lookup (mesa_hash_table_remove ht (ht_slot_of ht k)) k' = (if eq k' k then None else ht_lookup ht k')"
    using r(3) by (simp add: ht_removed_def t)
qed

theorem hash_table_remove_correct_witness:
  "\<exists>r. mesa_hash_table_search pointer_table 8 = ret r \<and>
    table_ok mesa_hash_pointer mesa_key_pointer_equal 1 0 (mesa_hash_table_remove pointer_table r)"
  using hash_table_remove_correct [OF pointer_table_ok, of 8] by auto

text \<open>
  C33. Iterating. The loop \<open>hash_table_foreach\<close> ends and visits exactly the entries that hold a key, each
  once and in the order of the table; there are \<open>_mesa_hash_table_num_entries\<close> of them, no two
  with equal keys.
\<close>

theorem hash_table_foreach_visits:
  assumes "table_ok hf eq dk n ht"
  shows "sorted_wrt (<) (hash_table_foreach ht) \<and>
    set (hash_table_foreach ht) = {i. i < length (ht_table ht) \<and> entry_is_present ht (ht_table ht ! i)} \<and>
    length (hash_table_foreach ht) = unat (mesa_hash_table_num_entries ht) \<and>
    (\<forall>i j. i < j \<and> i \<in> set (hash_table_foreach ht) \<and> j \<in> set (hash_table_foreach ht) \<longrightarrow>
       \<not> eq (e_key (ht_table ht ! i)) (e_key (ht_table ht ! j)))"
proof (intro conjI allI impI)
  note t = table_okD [OF assms]
  have sh: "ht_shape ht" and ct: "ht_counts ht"
    and sl: "slots_ok eq hf (ht_deleted_key ht) (index_probes (ht_index ht)) (ht_slots ht)"
    using t(1,4) by (auto simp: ht_ok_def)
  have len: "length (ht_table ht) = unat (ht_size ht)" using sh by (simp add: ht_shape_def)
  show "sorted_wrt (<) (hash_table_foreach ht)"
    unfolding foreach_filter by (rule sorted_wrt_filter) (rule sorted_wrt_upt)
  show s: "set (hash_table_foreach ht) = {i. i < length (ht_table ht) \<and> entry_is_present ht (ht_table ht ! i)}"
    by (auto simp: foreach_filter len)
  have "length (hash_table_foreach ht) = length (map (\<lambda>i. ht_table ht ! i) (hash_table_foreach ht))" by simp
  then show "length (hash_table_foreach ht) = unat (mesa_hash_table_num_entries ht)"
    unfolding foreach_entries [OF sh] using ct by (simp add: ht_counts_def mesa_hash_table_num_entries_def)
  fix i j assume "i < j \<and> i \<in> set (hash_table_foreach ht) \<and> j \<in> set (hash_table_foreach ht)"
  then show "\<not> eq (e_key (ht_table ht ! i)) (e_key (ht_table ht ! j))"
    using sl unfolding s slots_ok_def by (auto simp: slot_predicates)
qed

theorem hash_table_foreach_visits_witness:
  "sorted_wrt (<) (hash_table_foreach pointer_table) \<and>
    length (hash_table_foreach pointer_table) = unat (mesa_hash_table_num_entries pointer_table)"
  using hash_table_foreach_visits [OF pointer_table_ok] by blast

text \<open>
  Clearing a table keeps the invariant and leaves the empty map in a table of the same size; a
  delete function is called once on each entry that held a key.
\<close>

theorem hash_table_clear_correct:
  assumes "table_ok hf eq dk n ht" "mesa_hash_table_clear ht True = (es, ht')"
  shows "table_ok hf eq dk 0 ht' \<and> ht_size_index ht' = ht_size_index ht \<and> (\<forall>k. ht_lookup ht' k = None) \<and>
    es = mesa_hash_table_destroy (Some ht) True \<and> length es = unat (ht_entries ht)"
proof -
  note t = table_okD [OF assms(1)]
  have sh: "ht_shape ht" and ct: "ht_counts ht" using t(1) by (auto simp: ht_ok_def)
  note c = clear_correct [OF t(1,2) assms(2)]
  have "table_ok hf eq dk 0 ht'" using table_ok_same [OF assms(1) c(2,1), of 0] c(3,4) t(5) by simp
  moreover have "es = mesa_hash_table_destroy (Some ht) True"
    using c(6) foreach_entries [OF sh] by (simp add: mesa_hash_table_destroy_def)
  moreover have "length es = unat (ht_entries ht)" using c(6) ct by (simp add: ht_counts_def)
  ultimately show ?thesis using c(3,5) by blast
qed

theorem hash_table_clear_correct_witness:
  "table_ok mesa_hash_pointer mesa_key_pointer_equal 1 0 (snd (mesa_hash_table_clear pointer_table True))"
  using hash_table_clear_correct [OF pointer_table_ok] by (cases "mesa_hash_table_clear pointer_table True") auto

text \<open>
  Choosing an entry at random gives an entry that holds a key and satisfies the predicate,
  and gives none only if there is none, whatever number \<open>rand()\<close> returns.
\<close>

theorem hash_table_random_entry_correct:
  assumes "table_ok hf eq dk n ht"
  shows "case mesa_hash_table_random_entry ht r (Some p) of
     Some i \<Rightarrow> i < length (ht_table ht) \<and> entry_is_present ht (ht_table ht ! i) \<and> p (ht_table ht ! i)
   | None \<Rightarrow> (\<forall>i < length (ht_table ht). entry_is_present ht (ht_table ht ! i) \<longrightarrow> \<not> p (ht_table ht ! i))"
proof -
  have sh: "ht_shape ht" and ct: "ht_counts ht" using table_okD(1) [OF assms] by (auto simp: ht_ok_def)
  have len: "length (ht_table ht) = unat (ht_size ht)" using sh by (simp add: ht_shape_def)
  have pos: "0 < unat (ht_size ht)" using sh sizes_bounds [of "ht_index ht"] by (simp add: ht_shape_def)
  show ?thesis
  proof (cases "mesa_hash_table_random_entry ht r (Some p)")
    case (Some i)
    then show ?thesis using random_entry_Some [OF pos Some] len by simp
  next
    case None
    have "\<not> p (ht_table ht ! i)" if i: "i < length (ht_table ht)" "entry_is_present ht (ht_table ht ! i)" for i
    proof -
      have "0 < length (filter (entry_is_present ht) (ht_table ht))" using i by (auto simp: filter_empty_conv)
      then have "ht_entries ht \<noteq> 0" using ct by (auto simp: ht_counts_def)
      then show ?thesis using random_entry_None [OF pos _ None, of i] i len by simp
    qed
    then show ?thesis using None by simp
  qed
qed

theorem hash_table_random_entry_correct_witness:
  "case mesa_hash_table_random_entry pointer_table 7 (Some (\<lambda>e. e_data e = 80)) of
     Some i \<Rightarrow> i < length (ht_table pointer_table) \<and> entry_is_present pointer_table (ht_table pointer_table ! i) \<and>
       e_data (ht_table pointer_table ! i) = 80
   | None \<Rightarrow> (\<forall>i < length (ht_table pointer_table). entry_is_present pointer_table (ht_table pointer_table ! i) \<longrightarrow>
       \<not> e_data (ht_table pointer_table ! i) = 80)"
  by (rule hash_table_random_entry_correct [OF pointer_table_ok])

text \<open>
  Strings as keys. Comparing strings in memory that does not change and hashing them with FNV-1a satisfies the contract
  of keys: the comparison is an equivalence, and equal strings have equal hashes, even when what
  follows their terminating null bytes differs.
\<close>

theorem string_keys:
  assumes "dk \<noteq> 0"
  shows "hash_keys (mesa_key_string_equal memory) (\<lambda>p. mesa_hash_string (memory p)) dk"
  using assms
  by unfold_locales (auto simp: mesa_key_string_equal_def mesa_hash_string_def hash_string_loop_takeWhile)

theorem string_keys_witness:
  "hash_keys (mesa_key_string_equal (\<lambda>p. [102, 111, 111, 0, ucast p])) (\<lambda>p. mesa_hash_string [102, 111, 111, 0, ucast p]) 1"
  by (rule string_keys) simp

end
