(* ===== verification/Hash_U64.thy ===== *)
theory Hash_U64
  imports Hash_Spec
begin

text \<open>
  The wrapper of \<^verbatim>\<open>src/src/util/hash_table.c\<close> for 64-bit keys, on machines with 64-bit pointers:
  the keys are the pointers of a hash table whose marker of deleted entries is 1, and the data
  of the key 1 is kept beside the table. A null table, after a failed allocation, is \<open>None\<close>;
  using it is an access outside any object.
\<close>

section \<open>Operations\<close>

record hash_table_u64 =
  hu_table :: "hash_table option"
  hu_deleted_key_data :: u64

definition mesa_hash_table_u64_create :: "bool \<Rightarrow> bool \<Rightarrow> (u32 \<Rightarrow> bool) \<Rightarrow> u64 \<Rightarrow> hash_table_u64 option" where
  "mesa_hash_table_u64_create alloc_hu alloc_ht alloc deleted_key_value =
     (if \<not> alloc_hu then None
      else Some \<lparr>hu_table =
          map_option (\<lambda>ht. mesa_hash_table_set_deleted_key ht DELETED_KEY_VALUE)
            (mesa_hash_table_create alloc_ht alloc deleted_key_value (Some mesa_hash_pointer) mesa_key_pointer_equal),
        hu_deleted_key_data = 0\<rparr>)"

text \<open>The entries a delete function is called on: one made for the key 1, then those of the table.\<close>

definition mesa_hash_table_u64_destroy :: "hash_table_u64 option \<Rightarrow> bool \<Rightarrow> hash_entry list run" where
  "mesa_hash_table_u64_destroy h delete_function =
     (case h of
        None \<Rightarrow> ret []
      | Some hu \<Rightarrow>
          bind_run
            (if hu_deleted_key_data hu \<noteq> 0 \<and> delete_function then
               (case hu_table hu of
                  None \<Rightarrow> fault Out_Of_Bounds
                | Some ht \<Rightarrow> (case ht_key_hash_function ht of
                    None \<Rightarrow> fault Out_Of_Bounds
                  | Some f \<Rightarrow> ret [\<lparr>e_hash = f (ht_deleted_key ht), e_key = ht_deleted_key ht,
                                    e_data = hu_deleted_key_data hu\<rparr>]))
             else ret [])
            (\<lambda>es. ret (es @ mesa_hash_table_destroy (hu_table hu) delete_function)))"

definition mesa_hash_table_u64_insert ::
  "(u32 \<Rightarrow> bool) \<Rightarrow> hash_table_u64 \<Rightarrow> u64 \<Rightarrow> u64 \<Rightarrow> hash_table_u64 run" where
  "mesa_hash_table_u64_insert alloc hu k d =
     (if k = DELETED_KEY_VALUE then ret (hu\<lparr>hu_deleted_key_data := d\<rparr>)
      else case hu_table hu of
        None \<Rightarrow> fault Out_Of_Bounds
      | Some ht \<Rightarrow> bind_run (mesa_hash_table_insert alloc ht k d) (\<lambda>(ht, _). ret (hu\<lparr>hu_table := Some ht\<rparr>)))"

definition hash_table_u64_search :: "hash_table_u64 \<Rightarrow> u64 \<Rightarrow> nat option run" where
  "hash_table_u64_search hu k =
     (case hu_table hu of None \<Rightarrow> fault Out_Of_Bounds | Some ht \<Rightarrow> mesa_hash_table_search ht k)"

text \<open>The null pointer stands for the absence of data.\<close>

definition mesa_hash_table_u64_search :: "hash_table_u64 \<Rightarrow> u64 \<Rightarrow> u64 run" where
  "mesa_hash_table_u64_search hu k =
     (if k = DELETED_KEY_VALUE then ret (hu_deleted_key_data hu)
      else bind_run (hash_table_u64_search hu k) (\<lambda>entry.
        case entry of
          None \<Rightarrow> ret 0
        | Some i \<Rightarrow> (case hu_table hu of None \<Rightarrow> fault Out_Of_Bounds | Some ht \<Rightarrow> ret (e_data (ht_table ht ! i)))))"

definition mesa_hash_table_u64_remove :: "hash_table_u64 \<Rightarrow> u64 \<Rightarrow> hash_table_u64 run" where
  "mesa_hash_table_u64_remove hu k =
     (if k = DELETED_KEY_VALUE then ret (hu\<lparr>hu_deleted_key_data := 0\<rparr>)
      else bind_run (hash_table_u64_search hu k) (\<lambda>entry.
        case entry of
          None \<Rightarrow> ret hu
        | Some i \<Rightarrow> ret (hu\<lparr>hu_table := map_option (\<lambda>ht. mesa_hash_table_remove ht (Some i)) (hu_table hu)\<rparr>)))"

section \<open>The map of the wrapper\<close>

definition u64_ok :: "nat \<Rightarrow> hash_table_u64 \<Rightarrow> bool" where
  "u64_ok n hu \<longleftrightarrow> (case hu_table hu of
     None \<Rightarrow> False | Some ht \<Rightarrow> table_ok mesa_hash_pointer mesa_key_pointer_equal DELETED_KEY_VALUE n ht)"

text \<open>The data under a key, the null pointer when there is none.\<close>

definition u64_lookup :: "hash_table_u64 \<Rightarrow> u64 \<Rightarrow> u64" where
  "u64_lookup hu k =
     (if k = DELETED_KEY_VALUE then hu_deleted_key_data hu
      else case hu_table hu of None \<Rightarrow> 0 | Some ht \<Rightarrow> (case ht_lookup ht k of None \<Rightarrow> 0 | Some d \<Rightarrow> d))"

lemma DELETED_KEY_nonzero [simp]: "DELETED_KEY_VALUE \<noteq> 0"
  by (simp add: DELETED_KEY_VALUE_def)

lemma u64_keys_eq [simp]: "mesa_key_pointer_equal a b \<longleftrightarrow> a = b"
  by (simp add: mesa_key_pointer_equal_def)

lemma u64_create_ok:
  assumes "mesa_hash_table_u64_create True True (\<lambda>_. True) dk = Some hu"
  shows "u64_ok 0 hu" "u64_lookup hu k = 0"
proof -
  obtain ht where ht: "mesa_hash_table_create True (\<lambda>_. True) dk (Some mesa_hash_pointer) mesa_key_pointer_equal = Some ht"
    by (simp add: mesa_hash_table_create_def)
  let ?ht = "mesa_hash_table_set_deleted_key ht DELETED_KEY_VALUE"
  have "mesa_hash_table_create True (\<lambda>_. True) DELETED_KEY_VALUE (Some mesa_hash_pointer) mesa_key_pointer_equal = Some ?ht"
    using ht by (auto simp: mesa_hash_table_create_def mesa_hash_table_set_deleted_key_def)
  note c = create_table_ok [OF u64_keys.hash_keys_axioms this]
  show "u64_ok 0 hu" "u64_lookup hu k = 0"
    using assms ht c by (auto simp: mesa_hash_table_u64_create_def u64_ok_def u64_lookup_def)
qed

lemma u64_search_correct:
  assumes "u64_ok n hu" "k \<noteq> 0"
  shows "mesa_hash_table_u64_search hu k = ret (u64_lookup hu k)"
proof (cases "k = DELETED_KEY_VALUE")
  case False
  obtain ht where ht: "hu_table hu = Some ht" "table_ok mesa_hash_pointer mesa_key_pointer_equal DELETED_KEY_VALUE n ht"
    using assms(1) by (auto simp: u64_ok_def split: option.splits)
  show ?thesis
    using False search_correct [OF ht(2) assms(2) False] table_okD(4) [OF ht(2)]
    by (auto simp: mesa_hash_table_u64_search_def hash_table_u64_search_def u64_lookup_def ht(1) ht_lookup_def split: option.splits)
qed (simp add: mesa_hash_table_u64_search_def u64_lookup_def)

lemma u64_insert_correct:
  assumes "u64_ok n hu" "k \<noteq> 0" "n < 2 ^ 20"
  shows "\<exists>hu'. mesa_hash_table_u64_insert (\<lambda>_. True) hu k d = ret hu' \<and> u64_ok (Suc n) hu' \<and>
    (\<forall>k'. k' \<noteq> 0 \<longrightarrow> u64_lookup hu' k' = (if k' = k then d else u64_lookup hu k'))"
proof -
  obtain ht where ht: "hu_table hu = Some ht" "table_ok mesa_hash_pointer mesa_key_pointer_equal DELETED_KEY_VALUE n ht"
    using assms(1) by (auto simp: u64_ok_def split: option.splits)
  show ?thesis
  proof (cases "k = DELETED_KEY_VALUE")
    case True
    then show ?thesis using ht table_map.weaken [OF ht(2)] by (simp add: mesa_hash_table_u64_insert_def u64_ok_def u64_lookup_def)
  next
    case False
    have k: "k \<noteq> 0 \<and> k \<noteq> DELETED_KEY_VALUE" using assms(2) False by blast
    from table_map.put [OF ht(2) k assms(3), of d] obtain ht' where
      p: "table_put ht k d = ret ht'" "table_ok mesa_hash_pointer mesa_key_pointer_equal DELETED_KEY_VALUE (Suc n) ht'"
        "\<And>k'. k' \<noteq> 0 \<and> k' \<noteq> DELETED_KEY_VALUE \<Longrightarrow> ht_lookup ht' k' = (if k' = k then Some d else ht_lookup ht k')"
      by auto
    then have "mesa_hash_table_u64_insert (\<lambda>_. True) hu k d = ret (hu\<lparr>hu_table := Some ht'\<rparr>)"
      using False ht(1) by (auto simp: mesa_hash_table_u64_insert_def table_put_def bind_run_ret_iff split: prod.splits)
    then show ?thesis using p(2,3) False ht(1) by (auto simp: u64_ok_def u64_lookup_def)
  qed
qed

lemma u64_remove_correct:
  assumes "u64_ok n hu" "k \<noteq> 0"
  shows "\<exists>hu'. mesa_hash_table_u64_remove hu k = ret hu' \<and> u64_ok n hu' \<and>
    (\<forall>k'. k' \<noteq> 0 \<longrightarrow> u64_lookup hu' k' = (if k' = k then 0 else u64_lookup hu k'))"
proof -
  obtain ht where ht: "hu_table hu = Some ht" "table_ok mesa_hash_pointer mesa_key_pointer_equal DELETED_KEY_VALUE n ht"
    using assms(1) by (auto simp: u64_ok_def split: option.splits)
  show ?thesis
  proof (cases "k = DELETED_KEY_VALUE")
    case True
    then show ?thesis using ht by (simp add: mesa_hash_table_u64_remove_def u64_ok_def u64_lookup_def)
  next
    case False
    have k: "k \<noteq> 0 \<and> k \<noteq> DELETED_KEY_VALUE" using assms(2) False by blast
    let ?ht = "mesa_hash_table_remove ht (ht_slot_of ht k)"
    note s = search_correct [OF ht(2) assms(2) False]
    have d: "table_ok mesa_hash_pointer mesa_key_pointer_equal DELETED_KEY_VALUE n ?ht"
      "\<And>k'. k' \<noteq> 0 \<and> k' \<noteq> DELETED_KEY_VALUE \<Longrightarrow> ht_lookup ?ht k' = (if k' = k then None else ht_lookup ht k')"
      using table_map.drp [OF ht(2) k] by (auto simp: table_drop_def s)
    have "mesa_hash_table_u64_remove hu k = ret (hu\<lparr>hu_table := Some ?ht\<rparr>)"
      using False ht(1) s by (auto simp: mesa_hash_table_u64_remove_def hash_table_u64_search_def
          mesa_hash_table_remove_def split: option.splits)
    then show ?thesis using d False ht(1) by (auto simp: u64_ok_def u64_lookup_def)
  qed
qed

section \<open>Properties\<close>

text \<open>
  The wrapper is a map on all 64-bit keys except 0, the key 1 that marks deleted entries of
  the table included: inserting sets the data of its key, removing a key makes the search return the
  null pointer, and no other key changes.
\<close>

theorem u64_map_correct:
  assumes "u64_ok n hu" "k \<noteq> 0" "n < 2 ^ 20"
  shows "\<exists>hu1 hu2. mesa_hash_table_u64_insert (\<lambda>_. True) hu k d = ret hu1 \<and> mesa_hash_table_u64_remove hu1 k = ret hu2 \<and>
    u64_ok (Suc n) hu1 \<and> u64_ok (Suc n) hu2 \<and>
    mesa_hash_table_u64_search hu1 k = ret d \<and> mesa_hash_table_u64_search hu2 k = ret 0 \<and>
    (\<forall>k'. k' \<noteq> 0 \<and> k' \<noteq> k \<longrightarrow>
       mesa_hash_table_u64_search hu1 k' = mesa_hash_table_u64_search hu k' \<and>
       mesa_hash_table_u64_search hu2 k' = mesa_hash_table_u64_search hu k')"
proof -
  from u64_insert_correct [OF assms, of d] obtain hu1 where
    i: "mesa_hash_table_u64_insert (\<lambda>_. True) hu k d = ret hu1" "u64_ok (Suc n) hu1"
      "\<And>k'. k' \<noteq> 0 \<Longrightarrow> u64_lookup hu1 k' = (if k' = k then d else u64_lookup hu k')"
    by blast
  from u64_remove_correct [OF i(2) assms(2)] obtain hu2 where
    r: "mesa_hash_table_u64_remove hu1 k = ret hu2" "u64_ok (Suc n) hu2"
      "\<And>k'. k' \<noteq> 0 \<Longrightarrow> u64_lookup hu2 k' = (if k' = k then 0 else u64_lookup hu1 k')"
    by blast
  show ?thesis
    using i r assms(2) u64_search_correct [OF i(2)] u64_search_correct [OF r(2)] u64_search_correct [OF assms(1)]
    by simp
qed

definition empty_u64 :: hash_table_u64 where
  "empty_u64 = \<lparr>hu_table = Some pointer_table, hu_deleted_key_data = 0\<rparr>"

lemma empty_u64_create: "mesa_hash_table_u64_create True True (\<lambda>_. True) 4096 = Some empty_u64"
  by (simp add: mesa_hash_table_u64_create_def empty_u64_def mesa_hash_table_create_def pointer_table_def
      mesa_hash_table_set_deleted_key_def DELETED_KEY_VALUE_def sz_size_def sz_rehash_def sz_max_def hash_sizes_def)

theorem u64_map_correct_witness:
  "\<exists>hu1 hu2. mesa_hash_table_u64_insert (\<lambda>_. True) empty_u64 1 80 = ret hu1 \<and> mesa_hash_table_u64_remove hu1 1 = ret hu2 \<and>
    mesa_hash_table_u64_search hu1 1 = ret 80 \<and> mesa_hash_table_u64_search hu2 1 = ret 0"
  using u64_map_correct [OF u64_create_ok(1) [OF empty_u64_create], of 1 80] by auto

text \<open>
  The key 0 cannot be inserted: the call reaches the assertion of \<open>hash_table_insert\<close> that the key is not
  the null pointer, although the wrapper is documented to support 64-bit keys.
\<close>

lemma u64_insert_zero:
  assumes "u64_ok n hu"
  shows "mesa_hash_table_u64_insert alloc hu 0 d = fault Assert_Failed"
proof -
  obtain ht where ht: "hu_table hu = Some ht" "ht_key_hash_function ht = Some mesa_hash_pointer"
    using assms by (auto simp: u64_ok_def table_ok_def split: option.splits)
  have "mesa_hash_table_insert alloc ht 0 d = fault Assert_Failed"
    by (simp add: mesa_hash_table_insert_def ht(2) numeral_3_eq_3)
  then show ?thesis by (simp add: mesa_hash_table_u64_insert_def ht(1) DELETED_KEY_nonzero [symmetric])
qed

end
