(* ===== verification/Hash_Set.thy ===== *)
theory Hash_Set
  imports Hash_Spec
begin

text \<open>
  The set of \<^verbatim>\<open>src/src/util/set.c\<close>: the hash table without data. The marker of deleted entries is
  the address of a static variable, the parameter \<open>dk\<close> of the operations. The set is related
  to the hash table by \<open>as_table\<close>, which gives every entry the null pointer as its data;
  each operation of the set is the operation of the table on the related states, so that what is
  proved of tables holds of sets.
\<close>

section \<open>Entries and sets\<close>

record set_entry =
  s_hash :: u32
  s_key :: u64

record mesa_set =
  st_table :: "set_entry list"
  st_key_hash_function :: "(u64 \<Rightarrow> u32) option"
  st_key_equals_function :: "u64 \<Rightarrow> u64 \<Rightarrow> bool"
  st_size :: u32
  st_rehash :: u32
  st_max_entries :: u32
  st_size_index :: u32
  st_entries :: u32
  st_deleted_entries :: u32

definition zero_set_entry :: set_entry where
  "zero_set_entry = \<lparr>s_hash = 0, s_key = 0\<rparr>"

definition set_entry_is_free :: "set_entry \<Rightarrow> bool" where
  "set_entry_is_free e \<longleftrightarrow> s_key e = 0"

definition set_entry_is_deleted :: "u64 \<Rightarrow> set_entry \<Rightarrow> bool" where
  "set_entry_is_deleted dk e \<longleftrightarrow> s_key e = dk"

definition set_entry_is_present :: "u64 \<Rightarrow> set_entry \<Rightarrow> bool" where
  "set_entry_is_present dk e \<longleftrightarrow> s_key e \<noteq> 0 \<and> s_key e \<noteq> dk"

definition mesa_set_create ::
  "bool \<Rightarrow> (u32 \<Rightarrow> bool) \<Rightarrow> (u64 \<Rightarrow> u32) option \<Rightarrow> (u64 \<Rightarrow> u64 \<Rightarrow> bool) \<Rightarrow> mesa_set option" where
  "mesa_set_create alloc_st alloc hash_function equals_function =
     (if \<not> alloc_st then None
      else if \<not> alloc (sz_size 0) then None
      else Some \<lparr>st_table = replicate (unat (sz_size 0)) zero_set_entry,
        st_key_hash_function = hash_function, st_key_equals_function = equals_function,
        st_size = sz_size 0, st_rehash = sz_rehash 0, st_max_entries = sz_max 0,
        st_size_index = 0, st_entries = 0, st_deleted_entries = 0\<rparr>)"

section \<open>Searching\<close>

partial_function (option) set_search_loop ::
  "u64 \<Rightarrow> mesa_set \<Rightarrow> u32 \<Rightarrow> u64 \<Rightarrow> u32 \<Rightarrow> nat option run" where
  "set_search_loop dk st h k hash_address =
     (if length (st_table st) \<le> unat hash_address then fault Out_Of_Bounds
      else let entry = st_table st ! unat hash_address in
      if set_entry_is_free entry then ret None
      else if set_entry_is_present dk entry \<and> s_hash entry = h \<and> st_key_equals_function st k (s_key entry)
      then ret (Some (unat hash_address))
      else let double_hash = 1 + h mod st_rehash st;
               hash_address = (hash_address + double_hash) mod st_size st in
      if hash_address \<noteq> h mod st_size st
      then set_search_loop dk st h k hash_address
      else ret None)"

declare set_search_loop.simps [code]

definition set_search :: "u64 \<Rightarrow> mesa_set \<Rightarrow> u32 \<Rightarrow> u64 \<Rightarrow> nat option run" where
  "set_search dk st h k = set_search_loop dk st h k (h mod st_size st)"

definition mesa_set_search :: "u64 \<Rightarrow> mesa_set \<Rightarrow> u64 \<Rightarrow> nat option run" where
  "mesa_set_search dk st k =
     (case st_key_hash_function st of
        None \<Rightarrow> fault Assert_Failed
      | Some f \<Rightarrow> set_search dk st (f k) k)"

definition mesa_set_search_pre_hashed :: "u64 \<Rightarrow> mesa_set \<Rightarrow> u32 \<Rightarrow> u64 \<Rightarrow> nat option run" where
  "mesa_set_search_pre_hashed dk st h k =
     bind_run (assert_run (case st_key_hash_function st of None \<Rightarrow> True | Some f \<Rightarrow> h = f k))
       (\<lambda>_. set_search dk st h k)"

section \<open>Adding and rehashing\<close>

partial_function (option) set_add_loop ::
  "u64 \<Rightarrow> mesa_set \<Rightarrow> u32 \<Rightarrow> u64 \<Rightarrow> u32 \<Rightarrow> nat option \<Rightarrow> (nat + nat option) run" where
  "set_add_loop dk st h k hash_address available_entry =
     (if length (st_table st) \<le> unat hash_address then fault Out_Of_Bounds
      else let entry = st_table st ! unat hash_address;
               available_entry =
                 (if \<not> set_entry_is_present dk entry \<and> available_entry = None
                  then Some (unat hash_address) else available_entry) in
      if \<not> set_entry_is_present dk entry \<and> set_entry_is_free entry then ret (Inr available_entry)
      else if \<not> set_entry_is_deleted dk entry \<and> s_hash entry = h \<and>
              st_key_equals_function st k (s_key entry)
      then ret (Inl (unat hash_address))
      else let double_hash = 1 + h mod st_rehash st;
               hash_address = (hash_address + double_hash) mod st_size st in
      if hash_address \<noteq> h mod st_size st
      then set_add_loop dk st h k hash_address available_entry
      else ret (Inr available_entry))"

declare set_add_loop.simps [code]

definition set_add_here :: "u64 \<Rightarrow> mesa_set \<Rightarrow> u32 \<Rightarrow> u64 \<Rightarrow> (mesa_set \<times> nat option) run" where
  "set_add_here dk st h k =
     bind_run (set_add_loop dk st h k (h mod st_size st) None) (\<lambda>r.
     case r of
       Inl i \<Rightarrow> ret (st\<lparr>st_table := (st_table st)[i := (st_table st ! i)\<lparr>s_key := k\<rparr>]\<rparr>, Some i)
     | Inr None \<Rightarrow> ret (st, None)
     | Inr (Some i) \<Rightarrow>
         let st = (if set_entry_is_deleted dk (st_table st ! i)
                   then st\<lparr>st_deleted_entries := st_deleted_entries st - 1\<rparr> else st) in
         ret (st\<lparr>st_table := (st_table st)[i := \<lparr>s_hash = h, s_key = k\<rparr>],
                 st_entries := st_entries st + 1\<rparr>, Some i))"

fun set_rehash_entries ::
  "u64 \<Rightarrow> (mesa_set \<Rightarrow> u32 \<Rightarrow> u64 \<Rightarrow> (mesa_set \<times> nat option) run) \<Rightarrow>
   mesa_set \<Rightarrow> set_entry list \<Rightarrow> mesa_set run" where
  "set_rehash_entries dk add st [] = ret st"
| "set_rehash_entries dk add st (e # es) =
     (if set_entry_is_present dk e
      then bind_run (add st (s_hash e) (s_key e)) (\<lambda>(st, _). set_rehash_entries dk add st es)
      else set_rehash_entries dk add st es)"

definition set_rehash ::
  "u64 \<Rightarrow> (mesa_set \<Rightarrow> u32 \<Rightarrow> u64 \<Rightarrow> (mesa_set \<times> nat option) run) \<Rightarrow> (u32 \<Rightarrow> bool) \<Rightarrow>
   mesa_set \<Rightarrow> u32 \<Rightarrow> mesa_set run" where
  "set_rehash dk add alloc st new_size_index =
     (let n = unat new_size_index in
      if length hash_sizes \<le> n then ret st
      else if \<not> alloc (sz_size n) then ret st
      else set_rehash_entries dk add
        (st\<lparr>st_table := replicate (unat (sz_size n)) zero_set_entry, st_size_index := new_size_index,
            st_size := sz_size n, st_rehash := sz_rehash n, st_max_entries := sz_max n,
            st_entries := 0, st_deleted_entries := 0\<rparr>)
        (take (unat (st_size st)) (st_table st)))"

primrec set_add ::
  "nat \<Rightarrow> u64 \<Rightarrow> (u32 \<Rightarrow> bool) \<Rightarrow> mesa_set \<Rightarrow> u32 \<Rightarrow> u64 \<Rightarrow> (mesa_set \<times> nat option) run" where
  "set_add 0 = (\<lambda>dk alloc st h k. None)"
| "set_add (Suc n) = (\<lambda>dk alloc st h k.
     bind_run (if st_entries st \<ge> st_max_entries st
               then set_rehash dk (set_add n dk alloc) alloc st (st_size_index st + 1)
               else if st_deleted_entries st + st_entries st \<ge> st_max_entries st
               then set_rehash dk (set_add n dk alloc) alloc st (st_size_index st)
               else ret st) (\<lambda>st.
     set_add_here dk st h k))"

definition mesa_set_add :: "u64 \<Rightarrow> (u32 \<Rightarrow> bool) \<Rightarrow> mesa_set \<Rightarrow> u64 \<Rightarrow> (mesa_set \<times> nat option) run" where
  "mesa_set_add dk alloc st k =
     (case st_key_hash_function st of
        None \<Rightarrow> fault Assert_Failed
      | Some f \<Rightarrow> set_add 3 dk alloc st (f k) k)"

definition mesa_set_add_pre_hashed ::
  "u64 \<Rightarrow> (u32 \<Rightarrow> bool) \<Rightarrow> mesa_set \<Rightarrow> u32 \<Rightarrow> u64 \<Rightarrow> (mesa_set \<times> nat option) run" where
  "mesa_set_add_pre_hashed dk alloc st h k =
     bind_run (assert_run (case st_key_hash_function st of None \<Rightarrow> True | Some f \<Rightarrow> h = f k))
       (\<lambda>_. set_add 3 dk alloc st h k)"

section \<open>Removing, iterating and choosing\<close>

definition mesa_set_remove :: "u64 \<Rightarrow> mesa_set \<Rightarrow> nat option \<Rightarrow> mesa_set" where
  "mesa_set_remove dk st entry =
     (case entry of
        None \<Rightarrow> st
      | Some i \<Rightarrow> st\<lparr>st_table := (st_table st)[i := (st_table st ! i)\<lparr>s_key := dk\<rparr>],
                     st_entries := st_entries st - 1,
                     st_deleted_entries := st_deleted_entries st + 1\<rparr>)"

definition mesa_set_next_entry :: "u64 \<Rightarrow> mesa_set \<Rightarrow> nat option \<Rightarrow> nat option" where
  "mesa_set_next_entry dk st entry =
     List.find (\<lambda>i. set_entry_is_present dk (st_table st ! i))
       [(case entry of None \<Rightarrow> 0 | Some i \<Rightarrow> i + 1)..<unat (st_size st)]"

lemma set_next_entry_Some:
  assumes "mesa_set_next_entry dk st entry = Some j"
  shows "(case entry of None \<Rightarrow> 0 | Some i \<Rightarrow> i + 1) \<le> j" "j < unat (st_size st)"
  using assms by (auto simp: mesa_set_next_entry_def find_Some_iff split: option.splits)

function set_foreach_from :: "u64 \<Rightarrow> mesa_set \<Rightarrow> nat option \<Rightarrow> nat list" where
  "set_foreach_from dk st entry =
     (case mesa_set_next_entry dk st entry of
        None \<Rightarrow> [] | Some i \<Rightarrow> i # set_foreach_from dk st (Some i))"
  by pat_completeness auto
termination
proof (relation "measure (\<lambda>(dk, st, e). unat (st_size st) - (case e of None \<Rightarrow> 0 | Some i \<Rightarrow> i + 1))")
  fix dk st entry i assume "mesa_set_next_entry dk st entry = Some i"
  from set_next_entry_Some [OF this]
  show "((dk, st, Some i), (dk, st, entry)) \<in>
      measure (\<lambda>(dk, st, e). unat (st_size st) - (case e of None \<Rightarrow> 0 | Some i \<Rightarrow> i + 1))"
    by (auto split: option.splits)
qed simp

declare set_foreach_from.simps [simp del]

definition mesa_set_destroy :: "u64 \<Rightarrow> mesa_set option \<Rightarrow> bool \<Rightarrow> set_entry list" where
  "mesa_set_destroy dk s delete_function =
     (case s of
        None \<Rightarrow> []
      | Some st \<Rightarrow> if delete_function then map (\<lambda>i. st_table st ! i) (set_foreach_from dk st None) else [])"

definition mesa_set_random_entry ::
  "u64 \<Rightarrow> mesa_set \<Rightarrow> u32 \<Rightarrow> (set_entry \<Rightarrow> bool) option \<Rightarrow> nat option" where
  "mesa_set_random_entry dk st r predicate =
     (let i = unat (r mod st_size st);
          good = (\<lambda>j. set_entry_is_present dk (st_table st ! j) \<and>
                   (case predicate of None \<Rightarrow> True | Some p \<Rightarrow> p (st_table st ! j)))
      in if st_entries st = 0 then None
         else case List.find good [i..<unat (st_size st)] of
                Some j \<Rightarrow> Some j
              | None \<Rightarrow> List.find good [0..<i])"

end
