(* ===== verification/Set_Refine.thy ===== *)
theory Set_Refine
  imports Hash_Set
begin

text \<open>
  The set simulates the hash table without data, step by step; the correctness of the set follows.
\<close>

section \<open>Sets as tables\<close>

definition entry_of :: "set_entry \<Rightarrow> hash_entry" where
  "entry_of e = \<lparr>e_hash = s_hash e, e_key = s_key e, e_data = 0\<rparr>"

definition as_table :: "u64 \<Rightarrow> mesa_set \<Rightarrow> hash_table" where
  "as_table dk st = \<lparr>ht_table = map entry_of (st_table st), ht_key_hash_function = st_key_hash_function st,
     ht_key_equals_function = st_key_equals_function st, ht_deleted_key = dk, ht_size = st_size st,
     ht_rehash = st_rehash st, ht_max_entries = st_max_entries st, ht_size_index = st_size_index st,
     ht_entries = st_entries st, ht_deleted_entries = st_deleted_entries st\<rparr>"

lemma entry_of_simps [simp]:
  "e_hash (entry_of e) = s_hash e" "e_key (entry_of e) = s_key e" "e_data (entry_of e) = 0"
  "entry_of zero_set_entry = zero_entry"
  by (simp_all add: entry_of_def zero_entry_def zero_set_entry_def)

lemma as_table_simps [simp]:
  "ht_table (as_table dk st) = map entry_of (st_table st)"
  "ht_key_hash_function (as_table dk st) = st_key_hash_function st"
  "ht_key_equals_function (as_table dk st) = st_key_equals_function st"
  "ht_deleted_key (as_table dk st) = dk" "ht_size (as_table dk st) = st_size st"
  "ht_rehash (as_table dk st) = st_rehash st" "ht_max_entries (as_table dk st) = st_max_entries st"
  "ht_size_index (as_table dk st) = st_size_index st" "ht_entries (as_table dk st) = st_entries st"
  "ht_deleted_entries (as_table dk st) = st_deleted_entries st"
  by (simp_all add: as_table_def)

lemma entry_of_predicates [simp]:
  "entry_is_free (entry_of e) = set_entry_is_free e"
  "entry_is_deleted (as_table dk st) (entry_of e) = set_entry_is_deleted dk e"
  "entry_is_present (as_table dk st) (entry_of e) = set_entry_is_present dk e"
  by (simp_all add: entry_is_free_def entry_is_deleted_def entry_is_present_def
      set_entry_is_free_def set_entry_is_deleted_def set_entry_is_present_def)

section \<open>The loops agree\<close>

lemma run_eqI: "(\<And>y. a = Some y \<Longrightarrow> b = Some y) \<Longrightarrow> (\<And>y. b = Some y \<Longrightarrow> a = Some y) \<Longrightarrow> a = b"
  by (cases a; cases b) auto

lemma set_search_loop_table:
  "set_search_loop dk st h k a = search_loop (as_table dk st) h k (h mod st_size st) a"
proof (rule run_eqI)
  show "search_loop (as_table dk st) h k (h mod st_size st) a = Some y" if "set_search_loop dk st h k a = Some y" for y
    using that
  proof (induction rule: set_search_loop.raw_induct [rotated, consumes 1])
    case (1 f dk st h k a y)
    then show ?case by (subst search_loop.simps) (auto simp: Let_def split: if_splits)
  qed
  have "set_search_loop dk st h k a = Some y"
    if "search_loop ht h k s a = Some y" "ht = as_table dk st" "s = h mod st_size st" for y ht s
    using that
  proof (induction arbitrary: dk st rule: search_loop.raw_induct [rotated, consumes 1])
    case (1 f ht h k s a y)
    then show ?case by (subst set_search_loop.simps) (auto simp: Let_def split: if_splits)
  qed
  then show "set_search_loop dk st h k a = Some y" if "search_loop (as_table dk st) h k (h mod st_size st) a = Some y" for y
    using that by blast
qed

lemma set_add_loop_table:
  "set_add_loop dk st h k a av = insert_loop (as_table dk st) h k (h mod st_size st) a av"
proof (rule run_eqI)
  show "insert_loop (as_table dk st) h k (h mod st_size st) a av = Some y" if "set_add_loop dk st h k a av = Some y" for y
    using that
  proof (induction rule: set_add_loop.raw_induct [rotated, consumes 1])
    case (1 f dk st h k a av y)
    then show ?case by (subst insert_loop.simps) (auto simp: Let_def split: if_splits)
  qed
  have "set_add_loop dk st h k a av = Some y"
    if "insert_loop ht h k s a av = Some y" "ht = as_table dk st" "s = h mod st_size st" for y ht s
    using that
  proof (induction arbitrary: dk st rule: insert_loop.raw_induct [rotated, consumes 1])
    case (1 f ht h k s a av y)
    then show ?case by (subst set_add_loop.simps) (auto simp: Let_def split: if_splits)
  qed
  then show "set_add_loop dk st h k a av = Some y" if "insert_loop (as_table dk st) h k (h mod st_size st) a av = Some y" for y
    using that by blast
qed

lemma set_add_loop_range:
  assumes "set_add_loop dk st h k a av = ret y" "case av of None \<Rightarrow> True | Some i \<Rightarrow> i < length (st_table st)"
  shows "case y of Inl i \<Rightarrow> i < length (st_table st) | Inr None \<Rightarrow> True | Inr (Some i) \<Rightarrow> i < length (st_table st)"
proof -
  have "z = Inr y \<longrightarrow> (case av of None \<Rightarrow> True | Some i \<Rightarrow> i < length (st_table st)) \<longrightarrow>
      (case y of Inl i \<Rightarrow> i < length (st_table st) | Inr None \<Rightarrow> True | Inr (Some i) \<Rightarrow> i < length (st_table st))"
    if "set_add_loop dk st h k a av = Some z" for z y
    using that
  proof (induction arbitrary: y rule: set_add_loop.raw_induct [rotated, consumes 1])
    case (1 f dk st h k a av z)
    show ?case
    proof (intro impI)
      assume z: "z = Inr y" and av: "case av of None \<Rightarrow> True | Some i \<Rightarrow> i < length (st_table st)"
      let ?av = "if \<not> set_entry_is_present dk (st_table st ! unat a) \<and> av = None then Some (unat a) else av"
      have "case ?av of None \<Rightarrow> True | Some i \<Rightarrow> i < length (st_table st)" if "unat a < length (st_table st)"
        using that av by auto
      then show "case y of Inl i \<Rightarrow> i < length (st_table st) | Inr None \<Rightarrow> True | Inr (Some i) \<Rightarrow> i < length (st_table st)"
        using "1.IH" [of dk st h k "(a + (1 + h mod st_rehash st)) mod st_size st" ?av z y] "1.hyps" z
        by (auto simp: Let_def ret_def fault_def not_le split: if_splits option.splits)
    qed
  qed
  then show ?thesis using assms by (auto simp: ret_def)
qed

section \<open>The operations agree\<close>

abbreviation st_wf :: "mesa_set \<Rightarrow> bool" where
  "st_wf st \<equiv> length (st_table st) = unat (st_size st)"

text \<open>Outcomes that agree, with a well-formed set in the end.\<close>

definition agree :: "u64 \<Rightarrow> (mesa_set \<times> nat option) run \<Rightarrow> (hash_table \<times> nat option) run \<Rightarrow> bool" where
  "agree dk m m' \<longleftrightarrow> bind_run m (\<lambda>(st, r). ret (as_table dk st, r)) = m' \<and>
     (\<forall>st r. m = ret (st, r) \<longrightarrow> st_wf st)"

lemma set_add_here_agree:
  assumes "st_wf st"
  shows "agree dk (set_add_here dk st h k) (insert_here (as_table dk st) h k 0)"
proof (cases "set_add_loop dk st h k (h mod st_size st) None")
  case None
  then show ?thesis by (simp add: agree_def set_add_here_def insert_here_def set_add_loop_table)
next
  case (Some z)
  show ?thesis
  proof (cases z)
    case (Inl e)
    then show ?thesis using Some by (simp add: agree_def set_add_here_def insert_here_def set_add_loop_table)
  next
    case (Inr y)
    have l: "set_add_loop dk st h k (h mod st_size st) None = ret y" using Some Inr by (simp add: ret_def)
    note rg = set_add_loop_range [OF l]
    consider (old) i where "y = Inl i" | (full) "y = Inr None" | (new) i where "y = Inr (Some i)"
      by (metis sum.exhaust option.exhaust)
    then show ?thesis
    proof cases
      case old
      then show ?thesis
        using l rg assms by (simp add: agree_def set_add_here_def insert_here_def flip: set_add_loop_table)
          (simp add: as_table_def map_update entry_of_def)
    next
      case full
      then show ?thesis
        using l assms by (simp add: agree_def set_add_here_def insert_here_def flip: set_add_loop_table)
    next
      case new
      then show ?thesis
        using l rg assms by (simp add: agree_def set_add_here_def insert_here_def Let_def flip: set_add_loop_table)
          (simp add: as_table_def map_update entry_of_def)
    qed
  qed
qed

definition agree_state :: "u64 \<Rightarrow> mesa_set run \<Rightarrow> hash_table run \<Rightarrow> bool" where
  "agree_state dk m m' \<longleftrightarrow> bind_run m (\<lambda>st. ret (as_table dk st)) = m' \<and> (\<forall>st. m = ret st \<longrightarrow> st_wf st)"

lemma agree_state_ret: "st_wf st \<Longrightarrow> ht = as_table dk st \<Longrightarrow> agree_state dk (ret st) (ret ht)"
  by (simp add: agree_state_def)

lemma run_cases:
  obtains (none) "m = None" | (fault) e where "m = fault e" | (ret) x where "m = ret x"
  by (metis fault_def option.exhaust ret_def sum.exhaust)

lemma agree_cases:
  assumes "agree dk m m'"
  obtains (none) "m = None" "m' = None" | (fault) e where "m = fault e" "m' = fault e"
    | (ret) st r where "m = ret (st, r)" "m' = ret (as_table dk st, r)" "st_wf st"
  using assms by (cases m rule: run_cases) (auto simp: agree_def)

lemma agree_bind:
  assumes "agree_state dk m m'" "\<And>st. st_wf st \<Longrightarrow> agree dk (f st) (g (as_table dk st))"
  shows "agree dk (bind_run m f) (bind_run m' g)"
  using assms by (cases m rule: run_cases) (auto simp: agree_state_def agree_def)

lemma agree_state_bind:
  assumes "agree dk m m'" "\<And>st r. st_wf st \<Longrightarrow> agree_state dk (f (st, r)) (g (as_table dk st, r))"
  shows "agree_state dk (bind_run m f) (bind_run m' g)"
  using assms(1) by (cases rule: agree_cases) (auto simp: agree_state_def assms(2) [unfolded agree_state_def])

lemma set_rehash_entries_agree:
  assumes add: "\<And>st h k. st_wf st \<Longrightarrow> k \<noteq> 0 \<Longrightarrow> agree dk (add st h k) (ins (as_table dk st) h k 0)"
    and "st_wf st"
  shows "agree_state dk (set_rehash_entries dk add st es)
    (rehash_entries ins (as_table dk st) (map entry_of (filter (set_entry_is_present dk) es)))"
  using assms(2)
proof (induction es arbitrary: st)
  case Nil
  then show ?case by (simp add: agree_state_def)
next
  case (Cons e es)
  show ?case
  proof (cases "set_entry_is_present dk e")
    case True
    then have k: "s_key e \<noteq> 0" by (simp add: set_entry_is_present_def)
    have "agree_state dk (bind_run (add st (s_hash e) (s_key e)) (\<lambda>(st, _). set_rehash_entries dk add st es))
        (bind_run (ins (as_table dk st) (s_hash e) (s_key e) 0)
          (\<lambda>(ht, _). rehash_entries ins ht (map entry_of (filter (set_entry_is_present dk) es))))"
      by (rule agree_state_bind [OF add [OF Cons.prems k]]) (simp add: Cons.IH)
    then show ?thesis using True by simp
  qed (simp add: Cons)
qed

lemma as_table_foreach:
  assumes "st_wf st"
  shows "map (\<lambda>i. ht_table (as_table dk st) ! i) (hash_table_foreach (as_table dk st)) =
    map entry_of (filter (set_entry_is_present dk) (st_table st))"
proof -
  have "hash_table_foreach (as_table dk st) =
      filter (\<lambda>i. entry_is_present (as_table dk st) (ht_table (as_table dk st) ! i)) [0..<length (ht_table (as_table dk st))]"
    using assms by (simp add: foreach_filter)
  then show ?thesis by (simp only: map_filter_upt) (simp add: filter_map o_def)
qed

lemma set_rehash_agree:
  assumes add: "\<And>st h k. st_wf st \<Longrightarrow> k \<noteq> 0 \<Longrightarrow> agree dk (add st h k) (ins (as_table dk st) h k 0)" and wf: "st_wf st"
  shows "agree_state dk (set_rehash dk add alloc st n) (mesa_hash_table_rehash ins alloc (as_table dk st) n)"
proof -
  define i where "i = unat n"
  let ?st = "st\<lparr>st_table := replicate (unat (sz_size i)) zero_set_entry, st_size_index := n,
    st_size := sz_size i, st_rehash := sz_rehash i, st_max_entries := sz_max i, st_entries := 0, st_deleted_entries := 0\<rparr>"
  have t: "as_table dk ?st = (as_table dk st)\<lparr>ht_table := replicate (unat (sz_size i)) zero_entry, ht_size_index := n,
      ht_size := sz_size i, ht_rehash := sz_rehash i, ht_max_entries := sz_max i, ht_entries := 0, ht_deleted_entries := 0\<rparr>"
    by (simp add: as_table_def)
  have w: "st_wf ?st" by simp
  have "agree_state dk (set_rehash_entries dk add ?st (st_table st))
      (rehash_entries ins (as_table dk ?st) (map entry_of (filter (set_entry_is_present dk) (st_table st))))"
    by (rule set_rehash_entries_agree [OF _ w]) (rule add)
  then show ?thesis
    unfolding set_rehash_def mesa_hash_table_rehash_def as_table_foreach [OF wf] Let_def i_def [symmetric] t [symmetric]
    using wf by (simp add: agree_state_ret)
qed

lemma set_add_agree:
  "st_wf st \<Longrightarrow> k \<noteq> 0 \<Longrightarrow> agree dk (set_add n dk alloc st h k) (hash_table_insert n alloc (as_table dk st) h k 0)"
proof (induction n arbitrary: st h k)
  case 0
  then show ?case by (simp add: agree_def)
next
  case (Suc n)
  have rh: "agree_state dk (set_rehash dk (set_add n dk alloc) alloc st i)
      (mesa_hash_table_rehash (hash_table_insert n alloc) alloc (as_table dk st) i)" for i
    by (rule set_rehash_agree [OF _ Suc.prems(1)]) (rule Suc.IH)
  have "agree_state dk
      (if st_entries st \<ge> st_max_entries st then set_rehash dk (set_add n dk alloc) alloc st (st_size_index st + 1)
       else if st_deleted_entries st + st_entries st \<ge> st_max_entries st
       then set_rehash dk (set_add n dk alloc) alloc st (st_size_index st) else ret st)
      (make_room (hash_table_insert n alloc) alloc (as_table dk st))"
    using rh Suc.prems(1) by (simp add: make_room_def agree_state_ret)
  from agree_bind [OF this, of "\<lambda>st. set_add_here dk st h k" "\<lambda>ht. insert_here ht h k 0"] show ?case
    unfolding insert_unfold [OF Suc.prems(2)] using set_add_here_agree by simp
qed

section \<open>The set as a keyed map\<close>

definition set_ok :: "(u64 \<Rightarrow> u32) \<Rightarrow> (u64 \<Rightarrow> u64 \<Rightarrow> bool) \<Rightarrow> u64 \<Rightarrow> nat \<Rightarrow> mesa_set \<Rightarrow> bool" where
  "set_ok hf eq dk n st \<longleftrightarrow> table_ok hf eq dk n (as_table dk st)"

definition set_member :: "u64 \<Rightarrow> mesa_set \<Rightarrow> u64 \<Rightarrow> unit option" where
  "set_member dk st k =
     (if \<exists>i < length (st_table st). set_entry_is_present dk (st_table st ! i) \<and>
           st_key_equals_function st k (s_key (st_table st ! i)) then Some () else None)"

definition set_put :: "u64 \<Rightarrow> mesa_set \<Rightarrow> u64 \<Rightarrow> unit \<Rightarrow> mesa_set run" where
  "set_put dk st k u = bind_run (mesa_set_add dk (\<lambda>_. True) st k) (\<lambda>(st, _). ret st)"

definition set_drop :: "u64 \<Rightarrow> mesa_set \<Rightarrow> u64 \<Rightarrow> mesa_set run" where
  "set_drop dk st k = bind_run (mesa_set_search dk st k) (\<lambda>e. ret (mesa_set_remove dk st e))"

lemma set_member_lookup: "set_member dk st k = map_option (\<lambda>_. ()) (ht_lookup (as_table dk st) k)"
proof -
  have "ht_slot_of (as_table dk st) k = None \<longleftrightarrow> (\<forall>i < length (st_table st).
      set_entry_is_present dk (st_table st ! i) \<longrightarrow> \<not> st_key_equals_function st k (s_key (st_table st ! i)))"
    using slot_predicates(2) [of _ "as_table dk st"] by (auto simp: slot_of_None)
  then show ?thesis
    by (cases "ht_slot_of (as_table dk st) k") (auto simp: set_member_def ht_lookup_def)
qed

lemma set_ok_wf: "set_ok hf eq dk n st \<Longrightarrow> st_wf st"
  by (auto simp: set_ok_def table_ok_def ht_ok_def ht_shape_def)

lemma mesa_set_search_table: "mesa_set_search dk st k = mesa_hash_table_search (as_table dk st) k"
  by (simp add: mesa_set_search_def mesa_hash_table_search_def set_search_def hash_table_search_def
      set_search_loop_table split: option.splits)

lemma set_remove_table:
  "case r of None \<Rightarrow> True | Some i \<Rightarrow> i < length (st_table st) \<Longrightarrow>
    as_table dk (mesa_set_remove dk st r) = mesa_hash_table_remove (as_table dk st) r"
  by (auto simp: mesa_set_remove_def mesa_hash_table_remove_def as_table_def map_update entry_of_def split: option.splits)

lemma mesa_set_add_agree:
  assumes "st_wf st" "k \<noteq> 0"
  shows "agree dk (mesa_set_add dk alloc st k) (mesa_hash_table_insert alloc (as_table dk st) k 0)"
  using set_add_agree [OF assms, of dk 3 alloc] by (auto simp: mesa_set_add_def mesa_hash_table_insert_def agree_def split: option.splits)

lemma set_put_ok:
  assumes "set_ok hf eq dk n st" "k \<noteq> 0 \<and> k \<noteq> dk" "n < 2 ^ 20"
  shows "\<exists>st'. set_put dk st k u = ret st' \<and> set_ok hf eq dk (Suc n) st' \<and>
    (\<forall>k'. k' \<noteq> 0 \<and> k' \<noteq> dk \<longrightarrow> set_member dk st' k' = (if eq k' k then Some u else set_member dk st k'))"
proof -
  have k: "k \<noteq> 0" using assms(2) by blast
  obtain ht' where p: "table_put (as_table dk st) k 0 = ret ht'" "table_ok hf eq dk (Suc n) ht'"
      "\<And>k'. k' \<noteq> 0 \<and> k' \<noteq> dk \<Longrightarrow> ht_lookup ht' k' = (if eq k' k then Some 0 else ht_lookup (as_table dk st) k')"
    using table_map.put [OF assms(1) [unfolded set_ok_def] assms(2,3), of 0] by blast
  from mesa_set_add_agree [OF set_ok_wf [OF assms(1)] k, of dk "\<lambda>_. True"]
  show ?thesis
  proof (cases rule: agree_cases)
    case (ret st' r)
    then have "ht' = as_table dk st'" using p(1) by (simp add: table_put_def)
    then show ?thesis
      using ret(1) p(2,3) by (intro exI [of _ st']) (auto simp: set_put_def set_ok_def set_member_lookup)
  qed (use p(1) in \<open>simp_all add: table_put_def\<close>)
qed

lemma set_drop_ok:
  assumes "set_ok hf eq dk n st" "k \<noteq> 0 \<and> k \<noteq> dk"
  shows "\<exists>st'. set_drop dk st k = ret st' \<and> set_ok hf eq dk n st' \<and>
    (\<forall>k'. k' \<noteq> 0 \<and> k' \<noteq> dk \<longrightarrow> set_member dk st' k' = (if eq k' k then None else set_member dk st k'))"
proof -
  have k: "k \<noteq> 0" "k \<noteq> dk" using assms(2) by auto
  note ok = assms(1) [unfolded set_ok_def]
  note s = search_correct [OF ok k]
  have "case ht_slot_of (as_table dk st) k of None \<Rightarrow> True | Some i \<Rightarrow> i < length (st_table st)"
    using slot_of_SomeD(1) [of _ _ "ht_slots (as_table dk st)" k] by (auto split: option.splits)
  note rm = set_remove_table [OF this, of dk]
  have d: "set_drop dk st k = ret (mesa_set_remove dk st (ht_slot_of (as_table dk st) k))"
    unfolding set_drop_def mesa_set_search_table s by simp
  obtain ht' where p: "table_drop (as_table dk st) k = ret ht'" "table_ok hf eq dk n ht'"
      "\<And>k'. k' \<noteq> 0 \<and> k' \<noteq> dk \<Longrightarrow> ht_lookup ht' k' = (if eq k' k then None else ht_lookup (as_table dk st) k')"
    using table_map.drp [OF ok assms(2)] by blast
  have "ht' = as_table dk (mesa_set_remove dk st (ht_slot_of (as_table dk st) k))"
    using p(1) unfolding table_drop_def s rm by simp
  then show ?thesis
    using p(2,3) d by (auto simp: set_ok_def set_member_lookup)
qed

interpretation set_map: keyed_map "set_ok hf eq dk" "set_member dk" eq "\<lambda>k. k \<noteq> 0 \<and> k \<noteq> dk" "set_put dk" "set_drop dk" "2 ^ 20"
  for hf eq dk
proof unfold_locales
  show "\<exists>s'. set_put dk s k v = ret s' \<and> set_ok hf eq dk (Suc n) s' \<and>
      (\<forall>k'. k' \<noteq> 0 \<and> k' \<noteq> dk \<longrightarrow> set_member dk s' k' = (if eq k' k then Some v else set_member dk s k'))"
    if "set_ok hf eq dk n s" "k \<noteq> 0 \<and> k \<noteq> dk" "n < 2 ^ 20" for n s k v
    using that by (rule set_put_ok)
  show "\<exists>s'. set_drop dk s k = ret s' \<and> set_ok hf eq dk n s' \<and>
      (\<forall>k'. k' \<noteq> 0 \<and> k' \<noteq> dk \<longrightarrow> set_member dk s' k' = (if eq k' k then None else set_member dk s k'))"
    if "set_ok hf eq dk n s" "k \<noteq> 0 \<and> k \<noteq> dk" for n s k
    using that by (rule set_drop_ok)
  show "set_ok hf eq dk (Suc n) s" if "set_ok hf eq dk n s" for n s
    using that table_map.weaken by (simp add: set_ok_def)
qed

section \<open>Iterating and choosing\<close>

lemma find_upt_cong: "(\<And>i. i < n \<Longrightarrow> P i = Q i) \<Longrightarrow> List.find P [m..<n] = List.find Q [m..<n]"
  by (rule find_cong) auto

lemma set_next_entry_table:
  "st_wf st \<Longrightarrow> mesa_set_next_entry dk st e = mesa_hash_table_next_entry (as_table dk st) e"
  by (auto simp: mesa_set_next_entry_def mesa_hash_table_next_entry_def intro: find_upt_cong)

lemma set_foreach_table:
  "st_wf st \<Longrightarrow> set_foreach_from dk st e = foreach_from (as_table dk st) e"
proof (induction dk st e rule: set_foreach_from.induct)
  case (1 dk st e)
  then show ?case
    by (subst set_foreach_from.simps, subst foreach_from.simps)
      (auto simp: set_next_entry_table [OF "1.prems"] split: option.splits)
qed

lemma set_entry_eta [simp]: "\<lparr>s_hash = s_hash e, s_key = s_key e\<rparr> = (e :: set_entry)"
  by simp

lemma set_random_entry_table:
  assumes wf: "st_wf st" and pos: "0 < unat (st_size st)"
  shows "mesa_set_random_entry dk st r (Some p) =
    mesa_hash_table_random_entry (as_table dk st) r (Some (\<lambda>e. p \<lparr>s_hash = e_hash e, s_key = e_key e\<rparr>))"
proof -
  let ?good = "\<lambda>j. set_entry_is_present dk (st_table st ! j) \<and> p (st_table st ! j)"
  let ?good' = "\<lambda>j. entry_is_present (as_table dk st) (ht_table (as_table dk st) ! j) \<and>
      p \<lparr>s_hash = e_hash (ht_table (as_table dk st) ! j), s_key = e_key (ht_table (as_table dk st) ! j)\<rparr>"
  have good: "?good j = ?good' j" if "j < unat (st_size st)" for j
    using that wf by simp
  have lt: "unat (r mod st_size st) < unat (st_size st)" using pos by (rule unat_mod_less)
  have "List.find ?good [unat (r mod st_size st)..<unat (st_size st)] = List.find ?good' [unat (r mod st_size st)..<unat (st_size st)]"
    by (rule find_upt_cong) (rule good)
  moreover have "List.find ?good [0..<unat (r mod st_size st)] = List.find ?good' [0..<unat (r mod st_size st)]"
    by (rule find_upt_cong) (rule good, use lt in simp)
  ultimately show ?thesis
    by (simp add: mesa_set_random_entry_def mesa_hash_table_random_entry_def Let_def cong: option.case_cong)
qed

section \<open>Properties\<close>

text \<open>A set of pointers as it is created, for concrete instances.\<close>

definition pointer_set :: mesa_set where
  "pointer_set = \<lparr>st_table = replicate 5 zero_set_entry, st_key_hash_function = Some mesa_hash_pointer,
     st_key_equals_function = mesa_key_pointer_equal, st_size = 5, st_rehash = 3,
     st_max_entries = 2, st_size_index = 0, st_entries = 0, st_deleted_entries = 0\<rparr>"

lemma pointer_set_create:
  "mesa_set_create True (\<lambda>_. True) (Some mesa_hash_pointer) mesa_key_pointer_equal = Some pointer_set"
  by (simp add: mesa_set_create_def pointer_set_def sz_size_def sz_rehash_def sz_max_def hash_sizes_def)

lemma set_create_table:
  "map_option (as_table dk) (mesa_set_create a alloc f eq) = mesa_hash_table_create a alloc dk f eq"
  by (simp add: mesa_set_create_def mesa_hash_table_create_def as_table_def)

text \<open>
  C18. Adding to a set is inserting into the hash table that has the same entries with null data: for every
  set whose table has the recorded size, every key other than the null pointer, every hash and every
  outcome of the allocations, the two agree on not returning, on faults, on the entry returned
  and on the state afterwards, all rehashing included.
\<close>

theorem set_add_simulates:
  assumes "length (st_table st) = unat (st_size st)" "k \<noteq> 0"
  shows "bind_run (mesa_set_add dk alloc st k) (\<lambda>(st', r). ret (as_table dk st', r)) =
    mesa_hash_table_insert alloc (as_table dk st) k 0"
  using mesa_set_add_agree [OF assms, of dk alloc] by (simp add: agree_def)

theorem set_add_simulates_witness:
  "bind_run (mesa_set_add 1 (\<lambda>_. True) pointer_set 8) (\<lambda>(st', r). ret (as_table 1 st', r)) =
    mesa_hash_table_insert (\<lambda>_. True) (as_table 1 pointer_set) 8 0"
  by (rule set_add_simulates) (simp_all add: pointer_set_def)

text \<open>
  C26. Histories of additions and removals on a new set, up to 2^20 of them: nothing faults or runs forever while memory
  suffices, and afterwards a search finds a key exactly if the history says that it is
  in the set.
\<close>

theorem set_history:
  assumes "hash_keys eq hf dk" "mesa_set_create True (\<lambda>_. True) (Some hf) eq = Some st"
    and "\<And>p. p \<in> set ops \<Longrightarrow> op_key p \<noteq> 0 \<and> op_key p \<noteq> dk" "length ops \<le> 2 ^ 20"
  shows "\<exists>st'. run_ops (set_put dk) (set_drop dk) st ops = ret st' \<and>
    (\<forall>k. k \<noteq> 0 \<and> k \<noteq> dk \<longrightarrow>
      (\<exists>r. mesa_set_search dk st' k = ret r \<and> (r \<noteq> None \<longleftrightarrow> apply_ops eq ops (\<lambda>_. None) k = Some ())))"
proof -
  have "mesa_hash_table_create True (\<lambda>_. True) dk (Some hf) eq = Some (as_table dk st)"
    using set_create_table [of dk True "\<lambda>_. True" "Some hf" eq] assms(2) by simp
  note c = create_table_ok [OF assms(1) this]
  have ok: "set_ok hf eq dk 0 st" using c(1) by (simp add: set_ok_def)
  from set_map.history [OF ok assms(3)] assms(4) obtain st' where
    r: "run_ops (set_put dk) (set_drop dk) st ops = ret st'" "set_ok hf eq dk (length ops) st'"
      "\<And>k. k \<noteq> 0 \<and> k \<noteq> dk \<Longrightarrow> set_member dk st' k = apply_ops eq ops (set_member dk st) k"
    by auto
  have e: "set_member dk st = (\<lambda>_. None)" using c(2) by (simp add: fun_eq_iff set_member_lookup)
  have "\<exists>r. mesa_set_search dk st' k = ret r \<and> (r \<noteq> None \<longleftrightarrow> apply_ops eq ops (\<lambda>_. None) k = Some ())"
    if k: "k \<noteq> 0 \<and> k \<noteq> dk" for k
    using search_correct [OF r(2) [unfolded set_ok_def], of k] k r(3) [OF k]
    unfolding e mesa_set_search_table set_member_lookup by (auto simp: ht_lookup_def)
  then show ?thesis using r(1) by blast
qed

theorem set_history_witness:
  "\<exists>st'. run_ops (set_put 1) (set_drop 1) pointer_set [Put 8 (), Put 16 (), Put 24 (), Drop 8] = ret st' \<and>
    (\<forall>k. k \<noteq> 0 \<and> k \<noteq> 1 \<longrightarrow>
      (\<exists>r. mesa_set_search 1 st' k = ret r \<and>
        (r \<noteq> None \<longleftrightarrow> apply_ops mesa_key_pointer_equal [Put 8 (), Put 16 (), Put 24 (), Drop 8] (\<lambda>_. None) k = Some ())))"
  by (rule set_history [OF pointer_keys pointer_set_create]) auto

text \<open>
  Destroying a set calls the delete function on exactly the entries that hold a key, as many as the
  counter of entries says, and choosing an entry at random chooses among these: it
  returns one that satisfies the predicate, or none if there is none.
\<close>

theorem set_entries_visited:
  assumes "set_ok hf eq dk n st"
  shows "mesa_set_destroy dk (Some st) True = filter (set_entry_is_present dk) (st_table st) \<and>
    length (mesa_set_destroy dk (Some st) True) = unat (st_entries st) \<and>
    (case mesa_set_random_entry dk st r (Some p) of
       Some i \<Rightarrow> st_table st ! i \<in> set (mesa_set_destroy dk (Some st) True) \<and> p (st_table st ! i)
     | None \<Rightarrow> (\<forall>e \<in> set (mesa_set_destroy dk (Some st) True). \<not> p e))"
proof -
  note ok = assms [unfolded set_ok_def] and wf = set_ok_wf [OF assms]
  have sh: "ht_shape (as_table dk st)" and ct: "ht_counts (as_table dk st)"
    using table_okD(1) [OF ok] by (auto simp: ht_ok_def)
  have pos: "0 < unat (st_size st)" using sh sizes_bounds [of "unat (st_size_index st)"] by (simp add: ht_shape_def)
  let ?p = "\<lambda>e. p \<lparr>s_hash = e_hash e, s_key = e_key e\<rparr>"
  have rnd: "case mesa_hash_table_random_entry (as_table dk st) r (Some ?p) of
       Some i \<Rightarrow> i < length (st_table st) \<and> set_entry_is_present dk (st_table st ! i) \<and> p (st_table st ! i)
     | None \<Rightarrow> (\<forall>i < length (st_table st). set_entry_is_present dk (st_table st ! i) \<longrightarrow> \<not> p (st_table st ! i))"
  proof (cases "mesa_hash_table_random_entry (as_table dk st) r (Some ?p)")
    case None
    have "\<not> p (st_table st ! i)" if i: "i < length (st_table st)" "set_entry_is_present dk (st_table st ! i)" for i
    proof -
      have "0 < length (filter (entry_is_present (as_table dk st)) (ht_table (as_table dk st)))"
        using i by (auto simp: filter_empty_conv)
      then have "ht_entries (as_table dk st) \<noteq> 0" using ct by (auto simp: ht_counts_def)
      then show ?thesis using random_entry_None [OF _ _ None, of i] i pos wf by simp
    qed
    then show ?thesis using None by simp
  next
    case (Some i)
    then show ?thesis using random_entry_Some [OF _ Some] pos wf by simp
  qed
  have f: "set_foreach_from dk st None = filter (\<lambda>i. set_entry_is_present dk (st_table st ! i)) [0..<length (st_table st)]"
    unfolding set_foreach_table [OF wf] foreach_from_filter using wf by (auto intro!: filter_cong)
  have d: "mesa_set_destroy dk (Some st) True = filter (set_entry_is_present dk) (st_table st)"
    by (simp add: mesa_set_destroy_def f map_filter_upt)
  moreover have "length (filter (set_entry_is_present dk) (st_table st)) = unat (st_entries st)"
    using ct by (simp add: ht_counts_def filter_map o_def)
  ultimately show ?thesis
    using rnd set_random_entry_table [OF wf pos, of dk r p] by (auto simp: in_set_conv_nth split: option.splits)
qed

lemma pointer_set_ok: "set_ok mesa_hash_pointer mesa_key_pointer_equal 1 0 pointer_set"
proof -
  have "mesa_hash_table_create True (\<lambda>_. True) 1 (Some mesa_hash_pointer) mesa_key_pointer_equal = Some (as_table 1 pointer_set)"
    using set_create_table [of 1 True "\<lambda>_. True" "Some mesa_hash_pointer" mesa_key_pointer_equal] pointer_set_create by simp
  then show ?thesis unfolding set_ok_def by (rule create_table_ok(1) [OF pointer_keys, rotated]) simp
qed

theorem set_entries_visited_witness:
  "length (mesa_set_destroy 1 (Some pointer_set) True) = unat (st_entries pointer_set)"
  using set_entries_visited [OF pointer_set_ok] by blast

end
