(* ===== verification/Bitset.thy ===== *)
theory Bitset
  imports Runs
begin

text \<open>
  The bit sets of \<^verbatim>\<open>src/src/util/bitset.h\<close>: arrays of 32-bit words. Elements are natural
  numbers; a test or an update outside the array is a fault.
\<close>

unbundle bit_operations_syntax

section \<open>Macros\<close>

definition BITSET_WORDBITS :: nat where "BITSET_WORDBITS = 32"

definition BITSET_WORDS :: "nat \<Rightarrow> nat" where
  "BITSET_WORDS bits = (bits + BITSET_WORDBITS - 1) div BITSET_WORDBITS"

definition BITSET_BITWORD :: "nat \<Rightarrow> nat" where "BITSET_BITWORD b = b div BITSET_WORDBITS"

definition BITSET_BIT :: "nat \<Rightarrow> u32" where "BITSET_BIT b = push_bit (b mod BITSET_WORDBITS) 1"

definition BITSET_TEST :: "u32 list \<Rightarrow> nat \<Rightarrow> bool run" where
  "BITSET_TEST x b =
     (if BITSET_BITWORD b < length x then ret (x ! BITSET_BITWORD b AND BITSET_BIT b \<noteq> 0)
      else fault Out_Of_Bounds)"

definition BITSET_SET :: "u32 list \<Rightarrow> nat \<Rightarrow> u32 list run" where
  "BITSET_SET x b =
     (if BITSET_BITWORD b < length x
      then ret (x[BITSET_BITWORD b := x ! BITSET_BITWORD b OR BITSET_BIT b])
      else fault Out_Of_Bounds)"

text \<open>The position of the lowest bit that is set, counted from one, as \<open>ffs\<close> of the C library.\<close>

definition ffs :: "u32 \<Rightarrow> nat" where
  "ffs x = (case List.find (bit x) [0..<32] of None \<Rightarrow> 0 | Some i \<Rightarrow> i + 1)"

text \<open>The loop of \<open>__bitset_next_set\<close> over the words, and the function.\<close>

function next_word :: "nat \<Rightarrow> u32 \<Rightarrow> u32 list \<Rightarrow> nat \<Rightarrow> (nat \<times> u32) option" where
  "next_word word tmp st sz =
     (if tmp \<noteq> 0 then Some (word, tmp)
      else if BITSET_WORDS sz \<le> word + 1 then None
      else next_word (word + 1) (st ! (word + 1)) st sz)"
  by pat_completeness auto
termination
  by (relation "measure (\<lambda>(word, tmp, st, sz). BITSET_WORDS sz - word)") auto

declare next_word.simps [simp del]

definition bitset_next_set :: "nat \<Rightarrow> u32 \<Rightarrow> u32 list \<Rightarrow> nat \<Rightarrow> nat \<times> u32" where
  "bitset_next_set i tmp st sz =
     (case next_word (BITSET_BITWORD i) tmp st sz of
        None \<Rightarrow> (sz, 0)
      | Some (word, tmp) \<Rightarrow>
          let b = ffs tmp - 1 in (word * BITSET_WORDBITS + b, tmp AND NOT (push_bit b 1)))"

section \<open>Elements\<close>

text \<open>Membership, for sets with enough words.\<close>

definition bmem :: "u32 list \<Rightarrow> nat \<Rightarrow> bool" where
  "bmem x b \<longleftrightarrow> b < 32 * length x \<and> bit (x ! (b div 32)) (b mod 32)"

lemma BITWORD_less: "b div 32 < n \<longleftrightarrow> b < 32 * (n :: nat)"
  by (simp add: div_less_iff_less_mult mult.commute)

lemma WORDS_enough: "b < n \<Longrightarrow> b < 32 * BITSET_WORDS n"
  unfolding BITSET_WORDS_def BITSET_WORDBITS_def by linarith

lemma bit_word_exp: "n < 32 \<Longrightarrow> bit (2 ^ n :: u32) k \<longleftrightarrow> k = n"
  by (auto simp: bit_exp_iff)

lemma and_bit_word: "(w AND 2 ^ n \<noteq> 0) \<longleftrightarrow> bit w n" if "n < 32" for w :: u32
proof
  assume "w AND 2 ^ n \<noteq> 0"
  then obtain k where "bit (w AND 2 ^ n) k" by (metis bit_eq_iff bit_0_eq bot_apply bot_bool_def)
  then show "bit w n" using that by (auto simp: bit_and_iff bit_word_exp)
next
  assume "bit w n"
  then have "bit (w AND 2 ^ n) n" using that by (simp add: bit_and_iff bit_word_exp)
  then show "w AND 2 ^ n \<noteq> 0" by auto
qed

lemma BITSET_TEST_eq: "b < 32 * length x \<Longrightarrow> BITSET_TEST x b = ret (bmem x b)"
  by (simp add: BITSET_TEST_def BITSET_BITWORD_def BITSET_WORDBITS_def BITSET_BIT_def BITWORD_less and_bit_word bmem_def)

lemma BITSET_TEST_fault: "\<not> b < 32 * length x \<Longrightarrow> BITSET_TEST x b = fault Out_Of_Bounds"
  by (simp add: BITSET_TEST_def BITSET_BITWORD_def BITSET_WORDBITS_def BITWORD_less)

lemma BITSET_SET_eq:
  assumes "b < 32 * length x"
  shows "\<exists>x'. BITSET_SET x b = ret x' \<and> length x' = length x \<and> (\<forall>a. bmem x' a \<longleftrightarrow> a = b \<or> bmem x a)"
proof -
  let ?x = "x[b div 32 := x ! (b div 32) OR push_bit (b mod 32) 1]"
  have lt: "b div 32 < length x" using assms by (simp add: BITWORD_less)
  have "bmem ?x a \<longleftrightarrow> a = b \<or> bmem x a" for a
  proof (cases "a div 32 = b div 32")
    case True
    have "a mod 32 = b mod 32 \<longleftrightarrow> a = b" using True by (metis mod_mult_div_eq)
    moreover have "a < 32 * length x" using True lt by (simp add: BITWORD_less [symmetric])
    ultimately show ?thesis
      using True lt by (auto simp: bmem_def bit_or_iff bit_word_exp)
  next
    case False
    then show ?thesis by (auto simp: bmem_def)
  qed
  then show ?thesis
    using lt by (auto simp: BITSET_SET_def BITSET_BITWORD_def BITSET_WORDBITS_def BITSET_BIT_def intro!: exI [of _ ?x])
qed

lemma bmem_replicate [simp]: "\<not> bmem (replicate n 0) b"
  by (auto simp: bmem_def BITWORD_less [symmetric])

lemma bmem_map2:
  "length x = length y \<Longrightarrow> bmem (map2 (\<lambda>a b. a OR b) x y) i \<longleftrightarrow> bmem x i \<or> bmem y i"
  "length x = length y \<Longrightarrow> bmem (map2 (\<lambda>a b. a AND NOT b) x y) i \<longleftrightarrow> bmem x i \<and> \<not> bmem y i"
proof -
  have lt: "i div 32 < length y" if "i < 32 * length y" using that by (simp add: BITWORD_less)
  have m: "i mod 32 < 32" by simp
  show "length x = length y \<Longrightarrow> bmem (map2 (\<lambda>a b. a OR b) x y) i \<longleftrightarrow> bmem x i \<or> bmem y i"
    using lt by (auto simp: bmem_def bit_or_iff)
  show "length x = length y \<Longrightarrow> bmem (map2 (\<lambda>a b. a AND NOT b) x y) i \<longleftrightarrow> bmem x i \<and> \<not> bmem y i"
    using lt m by (auto simp: bmem_def bit_and_iff bit_not_iff)
qed

lemma bmem_nonzero: "(\<exists>w\<in>set x. w \<noteq> 0) \<longleftrightarrow> (\<exists>b. bmem x b)"
proof
  assume "\<exists>w\<in>set x. w \<noteq> 0"
  then obtain i where i: "i < length x" "x ! i \<noteq> 0" by (auto simp: in_set_conv_nth)
  then obtain k where k: "bit (x ! i) k" by (metis bit_eq_iff bit_0_eq bot_apply bot_bool_def)
  then have "k < 32" using bit_imp_le_length [OF k] by simp
  then have "bmem x (32 * i + k)" using i k by (simp add: bmem_def)
  then show "\<exists>b. bmem x b" by blast
next
  assume "\<exists>b. bmem x b"
  then obtain b where "b < 32 * length x" "bit (x ! (b div 32)) (b mod 32)" by (auto simp: bmem_def)
  then have "x ! (b div 32) \<in> set x" "x ! (b div 32) \<noteq> 0" by (auto simp: BITWORD_less [symmetric])
  then show "\<exists>w\<in>set x. w \<noteq> 0" by blast
qed

section \<open>Iterating over the elements\<close>

lemma ffs_lowest:
  assumes "t \<noteq> 0"
  shows "bit t (ffs t - 1)" "ffs t - 1 < 32" "c < ffs t - 1 \<Longrightarrow> \<not> bit t c"
proof -
  obtain k where k: "bit t k" using assms by (metis bit_eq_iff bit_0_eq bot_apply bot_bool_def)
  then have "k < 32" using bit_imp_le_length [OF k] by simp
  then obtain i where i: "List.find (bit t) [0..<32] = Some i" using k by (fastforce simp: find_None_iff)
  then have f: "ffs t - 1 = i" by (simp add: ffs_def)
  from i have "i < 32 \<and> bit t i \<and> (\<forall>j<i. \<not> bit t j)"
    by (auto simp: find_Some_iff)
  then show "bit t (ffs t - 1)" "ffs t - 1 < 32" "c < ffs t - 1 \<Longrightarrow> \<not> bit t c" unfolding f by auto
qed

lemma filter_upt_first:
  assumes "a \<le> x" "x < e" "P x" "\<And>y. a \<le> y \<Longrightarrow> y < x \<Longrightarrow> \<not> P y" "\<And>y. Q y \<longleftrightarrow> P y \<and> y \<noteq> x"
  shows "filter P [a..<e] = x # filter Q [a..<e]"
proof -
  have u: "[a..<e] = [a..<x] @ x # [Suc x..<e]" using assms(1,2)
    by (metis le_add_diff_inverse less_imp_le_nat upt_add_eq_append upt_conv_Cons)
  have "filter P [a..<x] = []" "filter Q [a..<x] = []" using assms(4,5) by (auto simp: filter_empty_conv)
  moreover have "filter P [Suc x..<e] = filter Q [Suc x..<e]" using assms(5) by (intro filter_cong) auto
  ultimately show ?thesis using assms(3,5) by (simp add: u)
qed

lemma word_range:
  assumes "32 * w \<le> x" "x < 32 * (w + 1)"
  shows "x div 32 = w" "x mod 32 = x - 32 * (w :: nat)"
proof -
  show d: "x div 32 = w" using assms by (intro div_nat_eqI) auto
  show "x mod 32 = x - 32 * w" using d by (metis minus_mult_div_eq_mod)
qed

text \<open>The elements that are still to come, at word \<open>w\<close> with the bits \<open>t\<close> left in it.\<close>

definition elements_from :: "u32 list \<Rightarrow> nat \<Rightarrow> nat \<Rightarrow> u32 \<Rightarrow> nat list" where
  "elements_from st n w t =
     filter (\<lambda>x. bit (if x div 32 = w then t else st ! (x div 32)) (x mod 32)) [32 * w..<32 * n]"

lemma elements_skip:
  assumes "w + 1 < n"
  shows "elements_from st n w 0 = elements_from st n (w + 1) (st ! (w + 1))"
proof -
  have u: "[32 * w..<32 * n] = [32 * w..<32 * (w + 1)] @ [32 * (w + 1)..<32 * n]"
    using assms upt_add_eq_append [of "32 * w" "32 * (w + 1)" "32 * n - 32 * (w + 1)"] by simp
  have "filter (\<lambda>x. bit (if x div 32 = w then 0 else st ! (x div 32)) (x mod 32)) [32 * w..<32 * (w + 1)] = []"
    using word_range(1) [of w] by (auto simp: filter_empty_conv)
  moreover have "x div 32 \<noteq> w" if "32 * (w + 1) \<le> x" for x :: nat
    using div_le_mono [OF that, of 32] by simp
  then have "filter (\<lambda>x. bit (if x div 32 = w then 0 else st ! (x div 32)) (x mod 32)) [32 * (w + 1)..<32 * n] =
      filter (\<lambda>x. bit (if x div 32 = w + 1 then st ! (w + 1) else st ! (x div 32)) (x mod 32)) [32 * (w + 1)..<32 * n]"
    by (intro filter_cong) auto
  ultimately show ?thesis unfolding elements_from_def u by simp
qed

lemma elements_take:
  assumes "t \<noteq> 0" "w < n"
  shows "elements_from st n w t = (w * 32 + (ffs t - 1)) # elements_from st n w (t AND NOT (push_bit (ffs t - 1) 1))"
proof -
  note f = ffs_lowest [OF assms(1)]
  let ?b = "ffs t - 1"
  let ?x = "w * 32 + ?b"
  have x: "?x div 32 = w" "?x mod 32 = ?b" using f(2) by auto
  have lt: "?x < 32 * n" using assms(2) f(2) by linarith
  have low: "\<not> bit (if y div 32 = w then t else st ! (y div 32)) (y mod 32)" if "32 * w \<le> y" "y < ?x" for y
  proof -
    have "y < 32 * (w + 1)" using less_trans [OF that(2) add_strict_left_mono [OF f(2)]] by simp
    note r = word_range [OF that(1) this]
    have "y mod 32 < ?b" unfolding r(2) using that by linarith
    then show ?thesis using f(3) r(1) by simp
  qed
  have rest: "bit (if y div 32 = w then t AND NOT (push_bit ?b 1) else st ! (y div 32)) (y mod 32) \<longleftrightarrow>
      bit (if y div 32 = w then t else st ! (y div 32)) (y mod 32) \<and> y \<noteq> ?x" for y
  proof (cases "y div 32 = w")
    case True
    then have "y mod 32 = ?b \<longleftrightarrow> y = ?x" using x by (metis div_mult_mod_eq)
    then show ?thesis using True f(2) by (auto simp: bit_and_iff bit_not_iff bit_word_exp)
  next
    case False
    then show ?thesis using x by auto
  qed
  show ?thesis
    unfolding elements_from_def
    by (rule filter_upt_first [OF _ lt _ low rest]) (use f(1) x in auto)
qed

lemma next_word_elements:
  assumes "w < BITSET_WORDS sz"
  shows "case next_word w t st sz of
      None \<Rightarrow> elements_from st (BITSET_WORDS sz) w t = []
    | Some (w', t') \<Rightarrow> t' \<noteq> 0 \<and> w \<le> w' \<and> w' < BITSET_WORDS sz \<and> (w' = w \<longrightarrow> t' = t) \<and>
        elements_from st (BITSET_WORDS sz) w t = elements_from st (BITSET_WORDS sz) w' t'"
  using assms
proof (induction w t st sz rule: next_word.induct)
  case (1 w t st sz)
  consider "t \<noteq> 0" | "t = 0" "BITSET_WORDS sz \<le> w + 1" | "t = 0" "w + 1 < BITSET_WORDS sz" by linarith
  then show ?case
  proof cases
    case 1
    then show ?thesis using "1.prems" by (subst next_word.simps) simp
  next
    case 2
    then have n: "BITSET_WORDS sz = w + 1" using "1.prems" by simp
    have "elements_from st (BITSET_WORDS sz) w t = []"
      using 2(1) word_range(1) [of w] by (auto simp: elements_from_def filter_empty_conv n)
    then show ?thesis using 2 by (subst next_word.simps) simp
  next
    case 3
    then have IH: "case next_word (w + 1) (st ! (w + 1)) st sz of
        None \<Rightarrow> elements_from st (BITSET_WORDS sz) (w + 1) (st ! (w + 1)) = []
      | Some (w', t') \<Rightarrow> t' \<noteq> 0 \<and> w + 1 \<le> w' \<and> w' < BITSET_WORDS sz \<and> (w' = w + 1 \<longrightarrow> t' = st ! (w + 1)) \<and>
          elements_from st (BITSET_WORDS sz) (w + 1) (st ! (w + 1)) = elements_from st (BITSET_WORDS sz) w' t'"
      using "1.IH" by simp
    show ?thesis
      unfolding 3(1) elements_skip [OF 3(2)]
      using IH 3(2) by (subst next_word.simps) (auto split: option.splits)
  qed
qed

text \<open>
  The loop \<open>BITSET_FOREACH_SET\<close>: the elements visited after \<open>i\<close>, and all of them.
\<close>

lemma next_word_mono: "next_word w t st sz = Some (w', t') \<Longrightarrow> w \<le> w'"
proof (induction w t st sz rule: next_word.induct)
  case (1 w t st sz)
  then show ?case by (subst (asm) (2) next_word.simps) (auto split: if_splits)
qed

lemma next_set_decreases:
  assumes "bitset_next_set i tmp st sz = (i', tmp')" "i' < sz"
  shows "elements_from st (BITSET_WORDS sz) (i div 32) tmp = i' # elements_from st (BITSET_WORDS sz) (i' div 32) tmp'"
proof -
  obtain w' t where nw: "next_word (i div 32) tmp st sz = Some (w', t)"
    and i': "i' = w' * 32 + (ffs t - 1)" and t': "tmp' = t AND NOT (push_bit (ffs t - 1) 1)"
    using assms by (auto simp: bitset_next_set_def BITSET_BITWORD_def BITSET_WORDBITS_def Let_def split: option.splits)
  have "w' * 32 < 32 * BITSET_WORDS sz" using WORDS_enough [OF assms(2)] by (simp add: i')
  then have w: "i div 32 < BITSET_WORDS sz" using next_word_mono [OF nw] by simp
  have t: "t \<noteq> 0" "w' < BITSET_WORDS sz"
    "elements_from st (BITSET_WORDS sz) (i div 32) tmp = elements_from st (BITSET_WORDS sz) w' t"
    using next_word_elements [OF w, where t = tmp and st = st] nw by auto
  have "i' div 32 = w'" using ffs_lowest(2) [OF t(1)] by (simp add: i')
  then show ?thesis using t(3) elements_take [OF t(1,2), of st] by (simp add: i' t')
qed

function foreach_set :: "nat \<Rightarrow> u32 \<Rightarrow> u32 list \<Rightarrow> nat \<Rightarrow> nat list" where
  "foreach_set i tmp st sz =
     (case bitset_next_set i tmp st sz of
        (i', tmp') \<Rightarrow> if i' < sz then i' # foreach_set i' tmp' st sz else [])"
  by pat_completeness auto
termination
proof (relation "measure (\<lambda>(i, tmp, st, sz). length (elements_from st (BITSET_WORDS sz) (i div 32) tmp))", goal_cases)
  case (2 i tmp st sz i' tmp')
  then have "bitset_next_set i tmp st sz = (i', tmp')" "i' < sz" by auto
  from next_set_decreases [OF this] show ?case by simp
qed simp

declare foreach_set.simps [simp del]

definition BITSET_FOREACH_SET :: "u32 list \<Rightarrow> nat \<Rightarrow> nat list run" where
  "BITSET_FOREACH_SET st sz = (if st = [] then fault Out_Of_Bounds else ret (foreach_set 0 (st ! 0) st sz))"

lemma elements_sorted: "sorted_wrt (<) (elements_from st n w t)"
  unfolding elements_from_def by (rule sorted_wrt_filter) (rule sorted_wrt_upt)

lemma foreach_set_elements:
  "i div 32 < BITSET_WORDS sz \<Longrightarrow>
    foreach_set i tmp st sz = filter (\<lambda>x. x < sz) (elements_from st (BITSET_WORDS sz) (i div 32) tmp)"
proof (induction i tmp st sz rule: foreach_set.induct)
  case (1 i tmp st sz)
  obtain i' tmp' where n: "bitset_next_set i tmp st sz = (i', tmp')" by fastforce
  show ?case
  proof (cases "i' < sz")
    case True
    then have "i' div 32 < BITSET_WORDS sz" using WORDS_enough [OF True] by (simp add: BITWORD_less)
    then show ?thesis
      using "1.IH" n True next_set_decreases [OF n True]
      by (subst foreach_set.simps) simp
  next
    case False
    have "filter (\<lambda>x. x < sz) (elements_from st (BITSET_WORDS sz) (i div 32) tmp) = []"
    proof (cases "next_word (i div 32) tmp st sz")
      case None
      then show ?thesis using next_word_elements [OF "1.prems", where t = tmp and st = st] by simp
    next
      case (Some p)
      obtain w' t where p: "p = (w', t)" by fastforce
      have t: "t \<noteq> 0" "w' < BITSET_WORDS sz"
        "elements_from st (BITSET_WORDS sz) (i div 32) tmp = elements_from st (BITSET_WORDS sz) w' t"
        using next_word_elements [OF "1.prems", where t = tmp and st = st] Some p by auto
      have i': "i' = w' * 32 + (ffs t - 1)"
        using n Some p by (simp add: bitset_next_set_def BITSET_BITWORD_def BITSET_WORDBITS_def Let_def)
      have "sorted_wrt (<) (i' # elements_from st (BITSET_WORDS sz) w' (t AND NOT (push_bit (ffs t - 1) 1)))"
        using elements_sorted [of st "BITSET_WORDS sz" w' t] unfolding elements_take [OF t(1,2)] i' .
      then show ?thesis
        unfolding t(3) elements_take [OF t(1,2)] i' [symmetric] using False by (auto simp: filter_empty_conv)
    qed
    then show ?thesis using n False by (subst foreach_set.simps) simp
  qed
qed

lemma foreach_set_members:
  assumes "length st = BITSET_WORDS sz" "0 < sz"
  shows "BITSET_FOREACH_SET st sz = ret (filter (bmem st) [0..<sz])"
proof -
  have pos: "0 < BITSET_WORDS sz" using WORDS_enough [OF assms(2)] by simp
  have le: "sz \<le> 32 * BITSET_WORDS sz" using WORDS_enough [of "sz - 1" sz] assms(2) by simp
  have "elements_from st (BITSET_WORDS sz) 0 (st ! 0) = filter (bmem st) [0..<32 * BITSET_WORDS sz]"
    unfolding elements_from_def using assms(1) by (auto simp: bmem_def intro!: filter_cong)
  then have "foreach_set 0 (st ! 0) st sz = filter (\<lambda>x. x < sz) (filter (bmem st) [0..<32 * BITSET_WORDS sz])"
    using foreach_set_elements [of 0 sz "st ! 0" st] pos by simp
  also have "[0..<32 * BITSET_WORDS sz] = [0..<sz] @ [sz..<32 * BITSET_WORDS sz]"
    using le upt_add_eq_append [of 0 sz "32 * BITSET_WORDS sz - sz"] by simp
  also have "filter (\<lambda>x. x < sz) (filter (bmem st) ([0..<sz] @ [sz..<32 * BITSET_WORDS sz])) = filter (bmem st) [0..<sz]"
    by (auto simp: filter_empty_conv intro: filter_cong)
  finally show ?thesis using pos assms(1) by (auto simp: BITSET_FOREACH_SET_def)
qed

text \<open>
  The macro \<open>BITSET_FOREACH_SET\<close>, which removes the lowest bit of a copy of the current word in every step and skips
  words that are zero, ends and visits exactly the elements below the given size, in increasing
  order.
\<close>

theorem foreach_set_visits:
  assumes "length st = BITSET_WORDS sz" "0 < sz"
  shows "BITSET_FOREACH_SET st sz = ret (filter (\<lambda>b. BITSET_TEST st b = ret True) [0..<sz])"
proof -
  have "filter (bmem st) [0..<sz] = filter (\<lambda>b. BITSET_TEST st b = ret True) [0..<sz]"
    using WORDS_enough [of _ sz] assms(1) by (intro filter_cong) (auto simp: BITSET_TEST_eq)
  then show ?thesis using foreach_set_members [OF assms] by simp
qed

theorem foreach_set_visits_witness:
  "BITSET_FOREACH_SET [5, 0, 6] 70 = ret (filter (\<lambda>b. BITSET_TEST [5, 0, 6] b = ret True) [0..<70])"
  by (rule foreach_set_visits) (simp_all add: BITSET_WORDS_def BITSET_WORDBITS_def)

end
