(* ===== verification/Register_Allocate.thy ===== *)
theory Register_Allocate
  imports Bitset
begin

text \<open>
  The graph-colouring register allocator of \<^verbatim>\<open>src/src/util/register_allocate.c\<close>. Node, class and
  register numbers are natural numbers, the sums of the p/q test are 32-bit words. An access
  outside an array is a fault. An array that grows is the list of its elements in use, with
  the capacity the code records beside it. The callback that selects a register and its data are arguments of the
  functions that call it. The spill costs, which are floating-point numbers, are not modelled.
\<close>

unbundle bit_operations_syntax

section \<open>Data\<close>

definition UINT_MAX :: nat where "UINT_MAX = 4294967295"

definition NO_REG :: nat where "NO_REG = UINT_MAX"

record ra_reg =
  conflicts :: "u32 list"
  conflict_list :: "nat list option"
  conflict_list_size :: nat
  num_conflicts :: nat

record ra_class =
  c_regs :: "u32 list"
  c_p :: u32
  c_q :: "u32 list"

record ra_regs =
  rs_regs :: "ra_reg list"
  rs_count :: nat
  rs_classes :: "ra_class list"
  rs_class_count :: nat
  rs_round_robin :: bool

record ra_node =
  adjacency :: "u32 list"
  adjacency_list :: "nat list"
  adjacency_list_size :: nat
  adjacency_count :: nat
  nd_class :: nat
  nd_reg :: nat
  in_stack :: bool
  q_total :: u32

record ra_graph =
  g_regs :: ra_regs
  g_nodes :: "ra_node list"
  g_count :: nat
  g_stack :: "nat list"
  g_stack_count :: nat
  stack_optimistic_start :: nat

section \<open>Register sets\<close>

definition ra_alloc_reg_set :: "nat \<Rightarrow> bool \<Rightarrow> ra_regs run" where
  "ra_alloc_reg_set count need_conflict_lists =
     bind_run (map_run (\<lambda>i.
       bind_run (BITSET_SET (replicate (BITSET_WORDS count) 0) i) (\<lambda>bs.
       ret \<lparr>conflicts = bs,
            conflict_list = (if need_conflict_lists then Some [i] else None),
            conflict_list_size = (if need_conflict_lists then 4 else 0),
            num_conflicts = 1\<rparr>)) [0..<count]) (\<lambda>rs.
     ret \<lparr>rs_regs = rs, rs_count = count, rs_classes = [], rs_class_count = 0, rs_round_robin = False\<rparr>)"

definition ra_set_allocate_round_robin :: "ra_regs \<Rightarrow> ra_regs" where
  "ra_set_allocate_round_robin regs = regs\<lparr>rs_round_robin := True\<rparr>"

definition ra_add_conflict_list :: "ra_regs \<Rightarrow> nat \<Rightarrow> nat \<Rightarrow> ra_regs run" where
  "ra_add_conflict_list regs r1 r2 =
     bind_run (fetch (rs_regs regs) r1) (\<lambda>reg1.
     let reg1 =
       (case conflict_list reg1 of
          None \<Rightarrow> reg1
        | Some l \<Rightarrow>
            let reg1 = (if conflict_list_size reg1 = num_conflicts reg1
                        then reg1\<lparr>conflict_list_size := conflict_list_size reg1 * 2\<rparr> else reg1)
            in reg1\<lparr>conflict_list := Some (l @ [r2]), num_conflicts := num_conflicts reg1 + 1\<rparr>)
     in
     bind_run (BITSET_SET (conflicts reg1) r2) (\<lambda>bs.
     ret (regs\<lparr>rs_regs := (rs_regs regs)[r1 := reg1\<lparr>conflicts := bs\<rparr>]\<rparr>)))"

definition ra_add_reg_conflict :: "ra_regs \<Rightarrow> nat \<Rightarrow> nat \<Rightarrow> ra_regs run" where
  "ra_add_reg_conflict regs r1 r2 =
     bind_run (fetch (rs_regs regs) r1) (\<lambda>reg1.
     bind_run (BITSET_TEST (conflicts reg1) r2) (\<lambda>b.
     if \<not> b then bind_run (ra_add_conflict_list regs r1 r2) (\<lambda>regs. ra_add_conflict_list regs r2 r1)
     else ret regs))"

partial_function (option) transitive_loop :: "nat \<Rightarrow> nat \<Rightarrow> nat \<Rightarrow> ra_regs \<Rightarrow> ra_regs run" where
  "transitive_loop base_reg reg i regs =
     bind_run (fetch (rs_regs regs) base_reg) (\<lambda>base.
     if i < num_conflicts base then
       (case conflict_list base of
          None \<Rightarrow> fault Out_Of_Bounds
        | Some l \<Rightarrow>
            bind_run (fetch l i) (\<lambda>c.
            bind_run (ra_add_reg_conflict regs reg c) (\<lambda>regs.
            transitive_loop base_reg reg (i + 1) regs)))
     else ret regs)"

declare transitive_loop.simps [code]

definition ra_add_transitive_reg_conflict :: "ra_regs \<Rightarrow> nat \<Rightarrow> nat \<Rightarrow> ra_regs run" where
  "ra_add_transitive_reg_conflict regs base_reg reg =
     bind_run (ra_add_reg_conflict regs reg base_reg) (\<lambda>regs.
     transitive_loop base_reg reg 0 regs)"

definition ra_make_reg_conflicts_transitive :: "ra_regs \<Rightarrow> nat \<Rightarrow> ra_regs run" where
  "ra_make_reg_conflicts_transitive regs r =
     bind_run (fetch (rs_regs regs) r) (\<lambda>reg.
     bind_run (BITSET_FOREACH_SET (conflicts reg) (rs_count regs)) (\<lambda>cs.
     fold_run (\<lambda>c regs.
       bind_run (fetch (rs_regs regs) r) (\<lambda>reg.
       bind_run (fetch (rs_regs regs) c) (\<lambda>other.
       ret (regs\<lparr>rs_regs := (rs_regs regs)[c := other\<lparr>conflicts :=
              map2 (\<lambda>a b. a OR b) (conflicts other) (conflicts reg)\<rparr>]\<rparr>)))) cs regs))"

definition ra_alloc_reg_class :: "ra_regs \<Rightarrow> ra_regs \<times> nat" where
  "ra_alloc_reg_class regs =
     (regs\<lparr>rs_classes := rs_classes regs @
              [\<lparr>c_regs = replicate (BITSET_WORDS (rs_count regs)) 0, c_p = 0, c_q = []\<rparr>],
            rs_class_count := rs_class_count regs + 1\<rparr>,
      rs_class_count regs)"

definition ra_class_add_reg :: "ra_regs \<Rightarrow> nat \<Rightarrow> nat \<Rightarrow> ra_regs run" where
  "ra_class_add_reg regs c r =
     bind_run (fetch (rs_classes regs) c) (\<lambda>cl.
     bind_run (BITSET_SET (c_regs cl) r) (\<lambda>bs.
     ret (regs\<lparr>rs_classes := (rs_classes regs)[c := cl\<lparr>c_regs := bs, c_p := c_p cl + 1\<rparr>]\<rparr>)))"

definition reg_belongs_to_class :: "nat \<Rightarrow> ra_class \<Rightarrow> bool run" where
  "reg_belongs_to_class r c = BITSET_TEST (c_regs c) r"

text \<open>The number of conflicts of a register with the registers of a class, and q(B,C).\<close>

definition count_conflicts :: "ra_class \<Rightarrow> ra_reg \<Rightarrow> nat run" where
  "count_conflicts cb reg =
     (case conflict_list reg of
        None \<Rightarrow> (if num_conflicts reg = 0 then ret 0 else fault Out_Of_Bounds)
      | Some l \<Rightarrow> fold_run (\<lambda>i n.
          bind_run (fetch l i) (\<lambda>rb.
          bind_run (reg_belongs_to_class rb cb) (\<lambda>b.
          ret (if b then n + 1 else n)))) [0..<num_conflicts reg] 0)"

definition compute_q :: "ra_regs \<Rightarrow> ra_class \<Rightarrow> ra_class \<Rightarrow> u32 run" where
  "compute_q regs cb cc =
     bind_run (fold_run (\<lambda>rc max_conflicts.
       bind_run (reg_belongs_to_class rc cc) (\<lambda>b.
       if \<not> b then ret max_conflicts
       else bind_run (fetch (rs_regs regs) rc) (\<lambda>reg.
            bind_run (count_conflicts cb reg) (\<lambda>n.
            ret (max max_conflicts n))))) [0..<rs_count regs] 0) (\<lambda>n. ret (of_nat n))"

definition ra_set_finalize :: "ra_regs \<Rightarrow> u32 list list option \<Rightarrow> ra_regs run" where
  "ra_set_finalize regs q_values =
     bind_run (map_run (\<lambda>b.
       bind_run (fetch (rs_classes regs) b) (\<lambda>cb.
       bind_run (map_run (\<lambda>c.
         case q_values of
           Some q \<Rightarrow> bind_run (fetch q b) (\<lambda>row. fetch row c)
         | None \<Rightarrow> bind_run (fetch (rs_classes regs) c) (\<lambda>cc. compute_q regs cb cc)) [0..<rs_class_count regs]) (\<lambda>qs.
       ret (cb\<lparr>c_q := qs\<rparr>)))) [0..<rs_class_count regs]) (\<lambda>cls.
     ret (regs\<lparr>rs_classes := cls,
               rs_regs := map (\<lambda>reg. reg\<lparr>conflict_list := None\<rparr>) (rs_regs regs)\<rparr>))"

section \<open>Interference graphs\<close>

definition q_value :: "ra_regs \<Rightarrow> nat \<Rightarrow> nat \<Rightarrow> u32 run" where
  "q_value regs b c = bind_run (fetch (rs_classes regs) b) (\<lambda>cl. fetch (c_q cl) c)"

definition ra_add_node_adjacency :: "ra_graph \<Rightarrow> nat \<Rightarrow> nat \<Rightarrow> ra_graph run" where
  "ra_add_node_adjacency g n1 n2 =
     bind_run (fetch (g_nodes g) n1) (\<lambda>nd1.
     bind_run (BITSET_SET (adjacency nd1) n2) (\<lambda>bs.
     bind_run (assert_run (n1 \<noteq> n2)) (\<lambda>_.
     bind_run (fetch (g_nodes g) n2) (\<lambda>nd2.
     bind_run (q_value (g_regs g) (nd_class nd1) (nd_class nd2)) (\<lambda>q.
     ret (g\<lparr>g_nodes := (g_nodes g)[n1 := nd1\<lparr>adjacency := bs, q_total := q_total nd1 + q,
            adjacency_list_size := (if adjacency_count nd1 \<ge> adjacency_list_size nd1
                                    then adjacency_list_size nd1 * 2 else adjacency_list_size nd1),
            adjacency_list := adjacency_list nd1 @ [n2],
            adjacency_count := adjacency_count nd1 + 1\<rparr>]\<rparr>))))))"

definition ra_alloc_interference_graph :: "ra_regs \<Rightarrow> nat \<Rightarrow> ra_graph" where
  "ra_alloc_interference_graph regs count =
     \<lparr>g_regs = regs,
      g_nodes = replicate count
        \<lparr>adjacency = replicate (BITSET_WORDS count) 0, adjacency_list = [], adjacency_list_size = 4,
         adjacency_count = 0, nd_class = 0, nd_reg = NO_REG, in_stack = False, q_total = 0\<rparr>,
      g_count = count, g_stack = replicate count 0, g_stack_count = 0, stack_optimistic_start = 0\<rparr>"

definition ra_set_node_class :: "ra_graph \<Rightarrow> nat \<Rightarrow> nat \<Rightarrow> ra_graph run" where
  "ra_set_node_class g n c =
     bind_run (fetch (g_nodes g) n) (\<lambda>nd.
     ret (g\<lparr>g_nodes := (g_nodes g)[n := nd\<lparr>nd_class := c\<rparr>]\<rparr>))"

definition ra_add_node_interference :: "ra_graph \<Rightarrow> nat \<Rightarrow> nat \<Rightarrow> ra_graph run" where
  "ra_add_node_interference g n1 n2 =
     (if n1 = n2 then ret g
      else bind_run (fetch (g_nodes g) n1) (\<lambda>nd1.
           bind_run (BITSET_TEST (adjacency nd1) n2) (\<lambda>b.
           if \<not> b then bind_run (ra_add_node_adjacency g n1 n2) (\<lambda>g. ra_add_node_adjacency g n2 n1)
           else ret g)))"

definition ra_set_node_reg :: "ra_graph \<Rightarrow> nat \<Rightarrow> nat \<Rightarrow> ra_graph run" where
  "ra_set_node_reg g n reg =
     bind_run (fetch (g_nodes g) n) (\<lambda>nd.
     ret (g\<lparr>g_nodes := (g_nodes g)[n := nd\<lparr>nd_reg := reg, in_stack := False\<rparr>]\<rparr>))"

definition ra_get_node_reg :: "ra_graph \<Rightarrow> nat \<Rightarrow> nat run" where
  "ra_get_node_reg g n = bind_run (fetch (g_nodes g) n) (\<lambda>nd. ret (nd_reg nd))"

section \<open>Simplification\<close>

definition pq_test :: "ra_graph \<Rightarrow> nat \<Rightarrow> bool run" where
  "pq_test g n =
     bind_run (fetch (g_nodes g) n) (\<lambda>nd.
     bind_run (fetch (rs_classes (g_regs g)) (nd_class nd)) (\<lambda>cl.
     ret (q_total nd < c_p cl)))"

definition decrement_q :: "ra_graph \<Rightarrow> nat \<Rightarrow> ra_graph run" where
  "decrement_q g n =
     bind_run (fetch (g_nodes g) n) (\<lambda>nd.
     fold_run (\<lambda>i g.
       bind_run (fetch (adjacency_list nd) i) (\<lambda>n2.
       bind_run (fetch (g_nodes g) n2) (\<lambda>nd2.
       if \<not> in_stack nd2 then
         bind_run (q_value (g_regs g) (nd_class nd2) (nd_class nd)) (\<lambda>q.
         bind_run (assert_run (q_total nd2 \<ge> q)) (\<lambda>_.
         ret (g\<lparr>g_nodes := (g_nodes g)[n2 := nd2\<lparr>q_total := q_total nd2 - q\<rparr>]\<rparr>)))
       else ret g))) [0..<adjacency_count nd] g)"

definition push_node :: "ra_graph \<Rightarrow> nat \<Rightarrow> ra_graph run" where
  "push_node g n =
     bind_run (decrement_q g n) (\<lambda>g.
     bind_run (fetch (g_stack g) (g_stack_count g)) (\<lambda>_.
     bind_run (fetch (g_nodes g) n) (\<lambda>nd.
     ret (g\<lparr>g_stack := (g_stack g)[g_stack_count g := n], g_stack_count := g_stack_count g + 1,
            g_nodes := (g_nodes g)[n := nd\<lparr>in_stack := True\<rparr>]\<rparr>))))"

text \<open>
  One pass over the nodes, from the last to the first: the graph, whether a node was pushed, the
  node with the lowest q total among those that were not, and that total.
\<close>

type_synonym sweep_state = "ra_graph \<times> bool \<times> nat \<times> u32"

definition sweep_node :: "nat \<Rightarrow> sweep_state \<Rightarrow> sweep_state run" where
  "sweep_node i = (\<lambda>(g, progress, best_optimistic_node, lowest_q_total).
     bind_run (fetch (g_nodes g) i) (\<lambda>nd.
     if in_stack nd \<or> nd_reg nd \<noteq> NO_REG then ret (g, progress, best_optimistic_node, lowest_q_total)
     else bind_run (pq_test g i) (\<lambda>b.
       if b then bind_run (push_node g i) (\<lambda>g. ret (g, True, best_optimistic_node, lowest_q_total))
       else if q_total nd < lowest_q_total then ret (g, progress, i, q_total nd)
       else ret (g, progress, best_optimistic_node, lowest_q_total))))"

partial_function (option) simplify_loop :: "ra_graph \<Rightarrow> nat \<Rightarrow> (ra_graph \<times> nat) run" where
  "simplify_loop g optimistic_start =
     bind_run (fold_run sweep_node (rev [0..<g_count g]) (g, False, UINT_MAX, - 1))
       (\<lambda>(g, progress, best_optimistic_node, lowest_q_total).
     if \<not> progress \<and> best_optimistic_node \<noteq> UINT_MAX then
       (let optimistic_start = (if optimistic_start = UINT_MAX then g_stack_count g else optimistic_start)
        in bind_run (push_node g best_optimistic_node) (\<lambda>g. simplify_loop g optimistic_start))
     else if progress then simplify_loop g optimistic_start
     else ret (g, optimistic_start))"

declare simplify_loop.simps [code]

definition ra_simplify :: "ra_graph \<Rightarrow> ra_graph run" where
  "ra_simplify g =
     bind_run (simplify_loop g UINT_MAX) (\<lambda>(g, s). ret (g\<lparr>stack_optimistic_start := s\<rparr>))"

section \<open>Selection\<close>

fun neighbors_conflict :: "ra_graph \<Rightarrow> nat \<Rightarrow> nat list \<Rightarrow> bool run" where
  "neighbors_conflict g r [] = ret False"
| "neighbors_conflict g r (n2 # ns) =
     bind_run (fetch (g_nodes g) n2) (\<lambda>nd2.
     if \<not> in_stack nd2 then
       bind_run (fetch (rs_regs (g_regs g)) r) (\<lambda>reg.
       bind_run (BITSET_TEST (conflicts reg) (nd_reg nd2)) (\<lambda>b.
       if b then ret True else neighbors_conflict g r ns))
     else neighbors_conflict g r ns)"

definition ra_any_neighbors_conflict :: "ra_graph \<Rightarrow> nat \<Rightarrow> nat \<Rightarrow> bool run" where
  "ra_any_neighbors_conflict g n r =
     bind_run (fetch (g_nodes g) n) (\<lambda>nd.
     bind_run (map_run (fetch (adjacency_list nd)) [0..<adjacency_count nd]) (\<lambda>ns.
     neighbors_conflict g r ns))"

definition ra_compute_available_regs :: "ra_graph \<Rightarrow> nat \<Rightarrow> (bool \<times> u32 list) run" where
  "ra_compute_available_regs g n =
     bind_run (fetch (g_nodes g) n) (\<lambda>nd.
     bind_run (fetch (rs_classes (g_regs g)) (nd_class nd)) (\<lambda>cl.
     bind_run (fold_run (\<lambda>i regs.
       bind_run (fetch (adjacency_list nd) i) (\<lambda>n2.
       bind_run (fetch (g_nodes g) n2) (\<lambda>nd2.
       if \<not> in_stack nd2 then
         bind_run (fetch (rs_regs (g_regs g)) (nd_reg nd2)) (\<lambda>reg.
         ret (map2 (\<lambda>a b. a AND NOT b) regs (conflicts reg)))
       else ret regs))) [0..<adjacency_count nd] (c_regs cl)) (\<lambda>regs.
     ret (\<exists>w\<in>set regs. w \<noteq> 0, regs))))"

text \<open>The search for the first register of the class, from the given start on, that is free.\<close>

fun search_reg :: "ra_graph \<Rightarrow> nat \<Rightarrow> ra_class \<Rightarrow> nat \<Rightarrow> nat list \<Rightarrow> nat option run" where
  "search_reg g n c start [] = ret None"
| "search_reg g n c start (ri # ris) =
     (let r = ((start + ri) mod 2 ^ 32) mod rs_count (g_regs g) in
      bind_run (reg_belongs_to_class r c) (\<lambda>b.
      if \<not> b then search_reg g n c start ris
      else bind_run (ra_any_neighbors_conflict g n r) (\<lambda>conflict.
           if \<not> conflict then ret (Some r) else search_reg g n c start ris)))"

text \<open>
  The register for the node just popped: the choice of the callback among the available ones,
  or the search. The callback updates the data it was registered with.
\<close>

type_synonym 's selector = "'s \<Rightarrow> ra_graph \<Rightarrow> u32 list \<Rightarrow> (nat \<times> 's) run"

definition choose_reg :: "'s selector option \<Rightarrow> 's \<Rightarrow> ra_graph \<Rightarrow> nat \<Rightarrow> ra_class \<Rightarrow> nat \<Rightarrow> (nat \<times> 's) option run" where
  "choose_reg callback data g n c start =
     (case callback of
        Some select \<Rightarrow>
          bind_run (ra_compute_available_regs g n) (\<lambda>(available, regs).
          if \<not> available then ret None
          else bind_run (select data g regs) (\<lambda>chosen. ret (Some chosen)))
      | None \<Rightarrow>
          bind_run (search_reg g n c start [0..<rs_count (g_regs g)]) (\<lambda>found.
          ret (map_option (\<lambda>r. (r, data)) found)))"

partial_function (option) select_loop ::
  "'s selector option \<Rightarrow> 's \<Rightarrow> ra_graph \<Rightarrow> nat \<Rightarrow> (ra_graph \<times> bool) run" where
  "select_loop callback data g start_search_reg =
     (if g_stack_count g = 0 then ret (g, True)
      else
      bind_run (fetch (g_stack g) (g_stack_count g - 1)) (\<lambda>n.
      bind_run (fetch (g_nodes g) n) (\<lambda>nd.
      bind_run (fetch (rs_classes (g_regs g)) (nd_class nd)) (\<lambda>c.
      let g = g\<lparr>g_nodes := (g_nodes g)[n := nd\<lparr>in_stack := False\<rparr>]\<rparr> in
      bind_run (choose_reg callback data g n c start_search_reg) (\<lambda>found.
      case found of
        None \<Rightarrow> ret (g, False)
      | Some (r, data) \<Rightarrow>
          let g = g\<lparr>g_nodes := (g_nodes g)[n := nd\<lparr>in_stack := False, nd_reg := r\<rparr>],
                    g_stack_count := g_stack_count g - 1\<rparr>;
              start_search_reg =
                (if rs_round_robin (g_regs g) \<and>
                    (g_stack_count g + UINT_MAX) mod 2 ^ 32 \<le> stack_optimistic_start g
                 then r + 1 else start_search_reg)
          in select_loop callback data g start_search_reg)))))"

declare select_loop.simps [code]

definition ra_select :: "'s selector option \<Rightarrow> 's \<Rightarrow> ra_graph \<Rightarrow> (ra_graph \<times> bool) run" where
  "ra_select callback data g = select_loop callback data g 0"

definition ra_allocate :: "'s selector option \<Rightarrow> 's \<Rightarrow> ra_graph \<Rightarrow> (ra_graph \<times> bool) run" where
  "ra_allocate callback data g = bind_run (ra_simplify g) (ra_select callback data)"

end
