(* ===== verification/Ra_Graph.thy ===== *)
theory Ra_Graph
  imports Register_Allocate
begin

text \<open>
  Well-formed register sets and interference graphs, the sums of the p/q test, and what
  simplification does to a graph: it ends, faults nowhere, and pushes every node that has no register.
\<close>

section \<open>Views\<close>

abbreviation node :: "ra_graph \<Rightarrow> nat \<Rightarrow> ra_node" where
  "node g n \<equiv> g_nodes g ! n"

abbreviation nbrs :: "ra_graph \<Rightarrow> nat \<Rightarrow> nat list" where
  "nbrs g n \<equiv> adjacency_list (node g n)"

definition conf :: "ra_regs \<Rightarrow> nat \<Rightarrow> nat \<Rightarrow> bool" where
  "conf R r1 r2 \<longleftrightarrow> bmem (conflicts (rs_regs R ! r1)) r2"

definition in_class :: "ra_regs \<Rightarrow> nat \<Rightarrow> nat \<Rightarrow> bool" where
  "in_class R c r \<longleftrightarrow> bmem (c_regs (rs_classes R ! c)) r"

definition qv :: "ra_regs \<Rightarrow> nat \<Rightarrow> nat \<Rightarrow> nat" where
  "qv R b c = unat (c_q (rs_classes R ! b) ! c)"

definition pv :: "ra_regs \<Rightarrow> nat \<Rightarrow> nat" where
  "pv R c = unat (c_p (rs_classes R ! c))"

text \<open>The stack as a list, the oldest node first.\<close>

definition stacked :: "ra_graph \<Rightarrow> nat list" where
  "stacked g = take (g_stack_count g) (g_stack g)"

text \<open>The q total of a node when the nodes of \<open>S\<close> are removed from the graph.\<close>

definition qsum :: "ra_graph \<Rightarrow> nat set \<Rightarrow> nat \<Rightarrow> nat" where
  "qsum g S n = (\<Sum>m\<in>set (nbrs g n) - S. qv (g_regs g) (nd_class (node g n)) (nd_class (node g m)))"

section \<open>Well-formedness\<close>

definition regs_ok :: "ra_regs \<Rightarrow> bool" where
  "regs_ok R \<longleftrightarrow> length (rs_regs R) = rs_count R \<and> rs_count R \<le> 2 ^ 31 \<and>
     (\<forall>r < rs_count R. length (conflicts (rs_regs R ! r)) = BITSET_WORDS (rs_count R)) \<and>
     length (rs_classes R) = rs_class_count R \<and>
     (\<forall>c < rs_class_count R. length (c_regs (rs_classes R ! c)) = BITSET_WORDS (rs_count R) \<and>
        length (c_q (rs_classes R ! c)) = rs_class_count R \<and> (\<forall>r. in_class R c r \<longrightarrow> r < rs_count R)) \<and>
     (\<forall>r1 < rs_count R. \<forall>r2 < rs_count R. conf R r1 r2 = conf R r2 r1)"

definition adjacent_ok :: "ra_graph \<Rightarrow> nat \<Rightarrow> bool" where
  "adjacent_ok g n \<longleftrightarrow> adjacency_count (node g n) = length (nbrs g n) \<and> distinct (nbrs g n) \<and>
     n \<notin> set (nbrs g n) \<and> nd_class (node g n) < rs_class_count (g_regs g) \<and>
     (\<forall>m\<in>set (nbrs g n). m < g_count g \<and> n \<in> set (nbrs g m))"

definition graph_ok :: "ra_graph \<Rightarrow> bool" where
  "graph_ok g \<longleftrightarrow> regs_ok (g_regs g) \<and> length (g_nodes g) = g_count g \<and> length (g_stack g) = g_count g \<and>
     g_count g \<le> 2 ^ 31 \<and> (\<forall>n < g_count g. adjacent_ok g n) \<and> g_stack_count g \<le> g_count g \<and>
     distinct (stacked g) \<and> set (stacked g) = {n. n < g_count g \<and> in_stack (node g n)} \<and>
     (\<forall>n < g_count g. in_stack (node g n) \<longrightarrow> nd_reg (node g n) = NO_REG)"

definition q_ok :: "ra_graph \<Rightarrow> bool" where
  "q_ok g \<longleftrightarrow> (\<forall>n < g_count g. qsum g {} n < UINT_MAX \<and>
     (\<not> in_stack (node g n) \<longrightarrow> unat (q_total (node g n)) = qsum g (set (stacked g)) n))"

text \<open>What simplification leaves alone.\<close>

definition same_static :: "ra_graph \<Rightarrow> ra_graph \<Rightarrow> bool" where
  "same_static g g' \<longleftrightarrow> g_regs g' = g_regs g \<and> g_count g' = g_count g \<and> length (g_nodes g') = length (g_nodes g) \<and>
     (\<forall>n < g_count g. nbrs g' n = nbrs g n \<and> adjacency_count (node g' n) = adjacency_count (node g n) \<and>
        nd_class (node g' n) = nd_class (node g n) \<and> nd_reg (node g' n) = nd_reg (node g n))"

lemma same_static_refl [simp]: "same_static g g"
  by (simp add: same_static_def)

lemma same_static_trans: "same_static g g' \<Longrightarrow> same_static g' g'' \<Longrightarrow> same_static g g''"
  by (simp add: same_static_def)

lemma graph_okD:
  assumes "graph_ok g"
  shows "regs_ok (g_regs g)" "length (g_nodes g) = g_count g" "length (g_stack g) = g_count g" "g_count g \<le> 2 ^ 31"
    "g_stack_count g \<le> g_count g" "distinct (stacked g)" "set (stacked g) = {n. n < g_count g \<and> in_stack (node g n)}"
    "n < g_count g \<Longrightarrow> adjacent_ok g n" "n < g_count g \<Longrightarrow> in_stack (node g n) \<Longrightarrow> nd_reg (node g n) = NO_REG"
  using assms by (auto simp: graph_ok_def)

lemma adjacent_okD:
  assumes "adjacent_ok g n"
  shows "adjacency_count (node g n) = length (nbrs g n)" "distinct (nbrs g n)" "n \<notin> set (nbrs g n)"
    "nd_class (node g n) < rs_class_count (g_regs g)" "m \<in> set (nbrs g n) \<Longrightarrow> m < g_count g"
    "m \<in> set (nbrs g n) \<Longrightarrow> n \<in> set (nbrs g m)"
  using assms by (auto simp: adjacent_ok_def)

lemma adjacent_sym:
  assumes "graph_ok g" "n < g_count g" "m < g_count g"
  shows "m \<in> set (nbrs g n) \<longleftrightarrow> n \<in> set (nbrs g m)"
  using adjacent_okD(6) [OF graph_okD(8) [OF assms(1,2)]] adjacent_okD(6) [OF graph_okD(8) [OF assms(1,3)]] by blast

lemma adjacent_ok_static:
  assumes "same_static g g'" "n < g_count g" "adjacent_ok g n"
  shows "adjacent_ok g' n"
  using assms by (auto simp: adjacent_ok_def same_static_def)

lemma qsum_static:
  assumes "same_static g g'" "n < g_count g" "adjacent_ok g n"
  shows "qsum g' S n = qsum g S n"
  unfolding qsum_def using assms by (auto simp: same_static_def adjacent_ok_def intro!: sum.cong)

lemma q_value_ok:
  assumes "regs_ok R" "b < rs_class_count R" "c < rs_class_count R"
  shows "q_value R b c = ret (c_q (rs_classes R ! b) ! c)"
  using assms by (simp add: q_value_def regs_ok_def)

lemma qsum_insert:
  assumes "n \<notin> S"
  shows "qsum g S m = qsum g (insert n S) m +
    (if n \<in> set (nbrs g m) then qv (g_regs g) (nd_class (node g m)) (nd_class (node g n)) else 0)"
proof (cases "n \<in> set (nbrs g m)")
  case True
  define A where "A = set (nbrs g m) - insert n S"
  have A: "set (nbrs g m) - S = insert n A" "n \<notin> A" "finite A" using True assms by (auto simp: A_def)
  show ?thesis unfolding qsum_def A(1) A_def [symmetric] sum.insert [OF A(3,2)] using True by simp
next
  case False
  then have A: "set (nbrs g m) - S = set (nbrs g m) - insert n S" by blast
  show ?thesis unfolding qsum_def A using False by simp
qed

lemma qsum_antimono: "S \<subseteq> T \<Longrightarrow> qsum g T n \<le> qsum g S n"
  unfolding qsum_def by (rule sum_mono2) auto

section \<open>Pushing a node\<close>

lemma fold_run_fetch:
  "fold_run (\<lambda>i s. bind_run (fetch l i) (\<lambda>x. f x s)) [0..<length l] s = fold_run f l s"
proof -
  have "fold_run (\<lambda>i s. bind_run (fetch l i) (\<lambda>x. f x s)) [k..<length l] s = fold_run f (drop k l) s" if "k \<le> length l" for k s
    using that
  proof (induction "length l - k" arbitrary: k s)
    case (Suc d)
    then have k: "k < length l" "d = length l - Suc k" "Suc k \<le> length l" by auto
    have "fold_run (\<lambda>i s. bind_run (fetch l i) (\<lambda>x. f x s)) [Suc k..<length l] = fold_run f (drop (Suc k) l)"
      using Suc.hyps(1) [OF k(2,3)] by (simp add: fun_eq_iff)
    then show ?case using k(1) by (simp add: upt_conv_Cons Cons_nth_drop_Suc [symmetric])
  qed simp
  from this [of 0 s] show ?thesis by simp
qed

text \<open>The decrements of the neighbours' totals, as a function on the array of nodes.\<close>

definition dec_node :: "(nat \<Rightarrow> u32) \<Rightarrow> nat \<Rightarrow> ra_node list \<Rightarrow> ra_node list" where
  "dec_node q m ns =
     (if in_stack (ns ! m) then ns else ns[m := (ns ! m)\<lparr>q_total := q_total (ns ! m) - q m\<rparr>])"

lemma dec_nodes_nth:
  assumes "distinct l" "\<And>m. m \<in> set l \<Longrightarrow> m < length ns"
  shows "length (fold (dec_node q) l ns) = length ns"
    and "fold (dec_node q) l ns ! k =
      (if k \<in> set l \<and> \<not> in_stack (ns ! k) then (ns ! k)\<lparr>q_total := q_total (ns ! k) - q k\<rparr> else ns ! k)"
  using assms
proof (induction l arbitrary: ns)
  case (Cons m l)
  {
    case 1
    then show ?case using Cons.IH(1) [of "dec_node q m ns"] by (simp add: dec_node_def)
  next
    case 2
    have m: "m < length ns" "m \<notin> set l" "distinct l" using 2 by auto
    have "fold (dec_node q) l (dec_node q m ns) ! k =
        (if k \<in> set l \<and> \<not> in_stack (dec_node q m ns ! k)
         then (dec_node q m ns ! k)\<lparr>q_total := q_total (dec_node q m ns ! k) - q k\<rparr> else dec_node q m ns ! k)"
      using 2 by (intro Cons.IH(2)) (auto simp: dec_node_def)
    moreover have "dec_node q m ns ! k = (if k = m \<and> \<not> in_stack (ns ! k) then (ns ! k)\<lparr>q_total := q_total (ns ! k) - q k\<rparr> else ns ! k)"
      using m by (auto simp: dec_node_def nth_list_update)
    ultimately show ?case using m by auto
  }
qed simp_all

lemma decrement_fold:
  assumes "distinct l" "\<And>m. m \<in> set l \<Longrightarrow> m < length (g_nodes g)"
    and "\<And>m. m \<in> set l \<Longrightarrow> \<not> in_stack (node g m) \<Longrightarrow>
      q_value (g_regs g) (nd_class (node g m)) c = ret (q m) \<and> q m \<le> q_total (node g m)"
  shows "fold_run (\<lambda>n2 g. bind_run (fetch (g_nodes g) n2) (\<lambda>nd2.
       if \<not> in_stack nd2 then
         bind_run (q_value (g_regs g) (nd_class nd2) c) (\<lambda>q.
         bind_run (assert_run (q_total nd2 \<ge> q)) (\<lambda>_.
         ret (g\<lparr>g_nodes := (g_nodes g)[n2 := nd2\<lparr>q_total := q_total nd2 - q\<rparr>]\<rparr>)))
       else ret g)) l g = ret (g\<lparr>g_nodes := fold (dec_node q) l (g_nodes g)\<rparr>)"
  using assms
proof (induction l arbitrary: g)
  case (Cons m l)
  have m: "m < length (g_nodes g)" "m \<notin> set l" "distinct l" using Cons.prems by auto
  let ?g = "g\<lparr>g_nodes := dec_node q m (g_nodes g)\<rparr>"
  have other: "dec_node q m (g_nodes g) ! k = g_nodes g ! k" if "k \<in> set l" for k
    using that m(2) by (cases "k = m") (auto simp: dec_node_def)
  have len: "length (dec_node q m (g_nodes g)) = length (g_nodes g)" by (simp add: dec_node_def)
  have IH: "fold_run (\<lambda>n2 g. bind_run (fetch (g_nodes g) n2) (\<lambda>nd2.
       if \<not> in_stack nd2 then
         bind_run (q_value (g_regs g) (nd_class nd2) c) (\<lambda>q.
         bind_run (assert_run (q_total nd2 \<ge> q)) (\<lambda>_.
         ret (g\<lparr>g_nodes := (g_nodes g)[n2 := nd2\<lparr>q_total := q_total nd2 - q\<rparr>]\<rparr>)))
       else ret g)) l ?g = ret (?g\<lparr>g_nodes := fold (dec_node q) l (g_nodes ?g)\<rparr>)"
    using Cons.prems by (intro Cons.IH) (auto simp: other len)
  show ?case
  proof (cases "in_stack (node g m)")
    case True
    then have dec: "dec_node q m (g_nodes g) = g_nodes g" by (simp add: dec_node_def)
    then show ?thesis using IH m(1) True by simp
  next
    case False
    then have dec: "dec_node q m (g_nodes g) = (g_nodes g)[m := (node g m)\<lparr>q_total := q_total (node g m) - q m\<rparr>]"
      by (simp add: dec_node_def)
    then show ?thesis using IH m(1) Cons.prems(3) [of m] False by simp
  qed
qed simp

lemma decrement_q_ok:
  assumes ok: "graph_ok g" and q: "q_ok g" and n: "n < g_count g" "\<not> in_stack (node g n)"
  defines "qf \<equiv> \<lambda>m. c_q (rs_classes (g_regs g) ! nd_class (node g m)) ! nd_class (node g n)"
  shows "decrement_q g n = ret (g\<lparr>g_nodes := fold (dec_node qf) (nbrs g n) (g_nodes g)\<rparr>)"
proof -
  note G = graph_okD [OF ok] and A = adjacent_okD [OF graph_okD(8) [OF ok n(1)]]
  have "q_value (g_regs g) (nd_class (node g m)) (nd_class (node g n)) = ret (qf m) \<and> qf m \<le> q_total (node g m)"
    if m: "m \<in> set (nbrs g n)" "\<not> in_stack (node g m)" for m
  proof -
    have lt: "m < g_count g" by (rule A(5) [OF m(1)])
    have c: "nd_class (node g m) < rs_class_count (g_regs g)" by (rule adjacent_okD(4) [OF G(8) [OF lt]])
    have "n \<notin> set (stacked g)" using n(2) G(7) by simp
    then have "qv (g_regs g) (nd_class (node g m)) (nd_class (node g n)) \<le> qsum g (set (stacked g)) m"
      using qsum_insert [of n "set (stacked g)" g m] A(6) [OF m(1)] by simp
    then have "qf m \<le> q_total (node g m)"
      using q lt m(2) by (simp add: q_ok_def qv_def qf_def word_le_nat_alt)
    then show ?thesis using q_value_ok [OF G(1) c A(4)] by (simp add: qf_def)
  qed
  then show ?thesis
    unfolding decrement_q_def using n(1) G(2) A
    by (simp add: fold_run_fetch decrement_fold [where q = qf])
qed

text \<open>A node without a register that is not on the stack.\<close>

abbreviation eligible :: "ra_graph \<Rightarrow> nat \<Rightarrow> bool" where
  "eligible g n \<equiv> n < g_count g \<and> \<not> in_stack (node g n) \<and> nd_reg (node g n) = NO_REG"

lemma stack_room:
  assumes "graph_ok g" "n < g_count g" "\<not> in_stack (node g n)"
  shows "g_stack_count g < g_count g" "length (stacked g) = g_stack_count g"
proof -
  note G = graph_okD [OF assms(1)]
  show len: "length (stacked g) = g_stack_count g" using G(3,5) by (simp add: stacked_def)
  have "set (stacked g) \<subset> {..<g_count g}" using G(7) assms(2,3) by auto
  then have "card (set (stacked g)) < g_count g" using psubset_card_mono [of "{..<g_count g}"] by simp
  then show "g_stack_count g < g_count g" using distinct_card [OF G(6)] len by simp
qed

lemma push_ok:
  assumes ok: "graph_ok g" and q: "q_ok g" and n: "eligible g n"
  shows "\<exists>g'. push_node g n = ret g' \<and> graph_ok g' \<and> q_ok g' \<and> same_static g g' \<and>
    stacked g' = stacked g @ [n] \<and> g_stack_count g' = g_stack_count g + 1 \<and>
    (\<forall>m < g_count g. in_stack (node g' m) \<longleftrightarrow> m = n \<or> in_stack (node g m))"
proof -
  note G = graph_okD [OF ok] and A = adjacent_okD [OF graph_okD(8) [OF ok]]
  have n1: "n < g_count g" "\<not> in_stack (node g n)" using n by auto
  note room = stack_room [OF ok n1]
  define qf where "qf = (\<lambda>m. c_q (rs_classes (g_regs g) ! nd_class (node g m)) ! nd_class (node g n))"
  define ns where "ns = fold (dec_node qf) (nbrs g n) (g_nodes g)"
  have lt: "m < length (g_nodes g)" if "m \<in> set (nbrs g n)" for m using A(5) [OF n1(1) that] G(2) by simp
  have len: "length ns = g_count g"
    using dec_nodes_nth(1) [OF A(2) [OF n1(1)] lt] G(2) by (simp add: ns_def)
  have nth: "ns ! k = (if k \<in> set (nbrs g n) \<and> \<not> in_stack (node g k)
      then (node g k)\<lparr>q_total := q_total (node g k) - qf k\<rparr> else node g k)" for k
    using dec_nodes_nth(2) [OF A(2) [OF n1(1)] lt] by (simp add: ns_def)
  define g' where "g' = g\<lparr>g_stack := (g_stack g)[g_stack_count g := n], g_stack_count := g_stack_count g + 1,
    g_nodes := ns[n := (node g n)\<lparr>in_stack := True\<rparr>]\<rparr>"
  have nsn: "ns ! n = node g n" using A(3) [OF n1(1)] by (simp add: nth)
  have push: "push_node g n = ret g'"
    using decrement_q_ok [OF ok q n1] n1(1) len room G(3) nsn
    unfolding push_node_def qf_def [symmetric] ns_def [symmetric] by (simp add: g'_def)
  have nd: "node g' k = (if k = n then (node g n)\<lparr>in_stack := True\<rparr> else ns ! k)" if "k < g_count g" for k
    using that len by (simp add: g'_def nth_list_update)
  have g': "g_regs g' = g_regs g" "g_count g' = g_count g" "length (g_nodes g') = length (g_nodes g)"
    using len G(2) by (simp_all add: g'_def)
  have static: "same_static g g'"
    unfolding same_static_def g' using nd by (auto simp: nth)
  have st: "stacked g' = stacked g @ [n]"
    using room(1) G(3) by (simp add: stacked_def g'_def take_Suc_conv_app_nth)
  have ins: "in_stack (node g' m) \<longleftrightarrow> m = n \<or> in_stack (node g m)" if "m < g_count g" for m
    using nd [OF that] by (auto simp: nth)
  have "graph_ok g'"
    unfolding graph_ok_def
  proof (intro conjI allI impI)
    show "regs_ok (g_regs g')" "length (g_nodes g') = g_count g'" "length (g_stack g') = g_count g'" "g_count g' \<le> 2 ^ 31"
      "g_stack_count g' \<le> g_count g'"
      using G(1,3,4) len room(1) by (simp_all add: g'_def)
    show "adjacent_ok g' m" if "m < g_count g'" for m
      using adjacent_ok_static [OF static _ G(8)] that static by (simp add: same_static_def)
    show "distinct (stacked g')" using st G(6,7) n1 by simp
    show "set (stacked g') = {m. m < g_count g' \<and> in_stack (node g' m)}"
      using st G(7) n1(1) ins by (auto simp: g'_def)
    show "nd_reg (node g' m) = NO_REG" if "m < g_count g'" "in_stack (node g' m)" for m
      using that static ins G(9) n by (auto simp: same_static_def)
  qed
  moreover have "q_ok g'"
    unfolding q_ok_def
  proof (intro conjI allI impI)
    fix m assume "m < g_count g'"
    then have m: "m < g_count g" by (simp add: g'_def)
    note am = G(8) [OF m]
    show "qsum g' {} m < UINT_MAX" using q m qsum_static [OF static m am] by (simp add: q_ok_def)
    assume "\<not> in_stack (node g' m)"
    then have mn: "m \<noteq> n" "\<not> in_stack (node g m)" using ins [OF m] by auto
    have nS: "n \<notin> set (stacked g)" using n1(2) G(7) by simp
    have sum: "qsum g (set (stacked g)) m = qsum g (insert n (set (stacked g))) m +
        (if n \<in> set (nbrs g m) then unat (qf m) else 0)"
      using qsum_insert [OF nS, of g m] by (simp add: qv_def qf_def)
    have tot: "unat (q_total (node g m)) = qsum g (set (stacked g)) m" using q m mn(2) by (simp add: q_ok_def)
    have "unat (q_total (node g' m)) = qsum g (insert n (set (stacked g))) m"
    proof (cases "m \<in> set (nbrs g n)")
      case True
      then have "unat (qf m) \<le> unat (q_total (node g m))" using tot sum adjacent_sym [OF ok n1(1) m] by simp
      then have "unat (q_total (node g m) - qf m) = unat (q_total (node g m)) - unat (qf m)"
        by (simp add: unat_sub word_le_nat_alt)
      then show ?thesis using True mn nd [OF m] tot sum adjacent_sym [OF ok n1(1) m] by (simp add: nth)
    next
      case False
      then show ?thesis using mn nd [OF m] tot sum adjacent_sym [OF ok n1(1) m] by (simp add: nth)
    qed
    then show "unat (q_total (node g' m)) = qsum g' (set (stacked g')) m"
      using qsum_static [OF static m am] st by simp
  qed
  ultimately show ?thesis using push static st ins by (auto simp: g'_def)
qed

end
