(* ===== verification/Ra_Simplify.thy ===== *)
theory Ra_Simplify
  imports Ra_Graph
begin

text \<open>
  Simplification of the interference graph: every pass either pushes a node or finds none
  left, so the loop ends with all nodes that have no register on the stack; if no node was pushed
  optimistically, each one passed the p/q test against the nodes pushed before it.
\<close>

section \<open>The p/q test\<close>

definition pq_at :: "ra_graph \<Rightarrow> nat set \<Rightarrow> nat \<Rightarrow> bool" where
  "pq_at g S n \<longleftrightarrow> qsum g S n < pv (g_regs g) (nd_class (node g n))"

text \<open>Every node of the stack passed the test when it was pushed.\<close>

definition all_trivial :: "ra_graph \<Rightarrow> bool" where
  "all_trivial g \<longleftrightarrow> (\<forall>j < length (stacked g). pq_at g (set (take j (stacked g))) (stacked g ! j))"

lemma pq_test_ok:
  assumes "graph_ok g" "q_ok g" "n < g_count g" "\<not> in_stack (node g n)"
  shows "pq_test g n = ret (pq_at g (set (stacked g)) n)"
proof -
  note G = graph_okD [OF assms(1)]
  have "nd_class (node g n) < length (rs_classes (g_regs g))"
    using adjacent_okD(4) [OF G(8) [OF assms(3)]] G(1) by (simp add: regs_ok_def)
  then show ?thesis
    using assms(2,3,4) G(2) by (simp add: pq_test_def pq_at_def pv_def q_ok_def word_less_nat_alt)
qed

lemma pq_at_static:
  assumes "graph_ok g" "same_static g g'" "n < g_count g"
  shows "pq_at g' S n = pq_at g S n"
  using qsum_static [OF assms(2,3) graph_okD(8) [OF assms(1,3)]] assms(2,3)
  by (simp add: pq_at_def same_static_def)

lemma pq_at_mono: "S \<subseteq> T \<Longrightarrow> pq_at g S n \<Longrightarrow> pq_at g T n"
  unfolding pq_at_def using qsum_antimono [of S T g n] by linarith

text \<open>Every node passes the test before any neighbour is removed.\<close>

definition always_trivial :: "ra_graph \<Rightarrow> bool" where
  "always_trivial g \<longleftrightarrow> (\<forall>n < g_count g. pq_at g {} n)"

lemma always_trivial_static: "graph_ok g \<Longrightarrow> same_static g g' \<Longrightarrow> always_trivial g' = always_trivial g"
  unfolding always_trivial_def using pq_at_static [of g g' _ "{}"] by (auto simp: same_static_def)

lemma all_trivial_push:
  assumes "graph_ok g" "same_static g g'" "stacked g' = stacked g @ [n]" "n < g_count g"
    and "all_trivial g" "pq_at g (set (stacked g)) n"
  shows "all_trivial g'"
  unfolding all_trivial_def
proof (intro allI impI)
  fix j assume j: "j < length (stacked g')"
  show "pq_at g' (set (take j (stacked g'))) (stacked g' ! j)"
  proof (cases "j = length (stacked g)")
    case True
    then show ?thesis using assms(3,6) pq_at_static [OF assms(1,2,4)] by simp
  next
    case False
    then have j: "j < length (stacked g)" using j assms(3) by simp
    then have "stacked g ! j < g_count g" using graph_okD(7) [OF assms(1)] nth_mem [OF j] by blast
    then show ?thesis
      using assms(3,5) j pq_at_static [OF assms(1,2)] by (simp add: all_trivial_def nth_append)
  qed
qed

section \<open>A pass\<close>

definition pass_inv :: "ra_graph \<Rightarrow> nat set \<Rightarrow> sweep_state \<Rightarrow> bool" where
  "pass_inv g0 vis = (\<lambda>(g, progress, best, low). graph_ok g0 \<and> graph_ok g \<and> q_ok g \<and> same_static g0 g \<and>
     (all_trivial g0 \<longrightarrow> all_trivial g) \<and> (\<forall>n < g_count g0. in_stack (node g0 n) \<longrightarrow> in_stack (node g n)) \<and>
     (if progress then g_stack_count g0 < g_stack_count g else g = g0) \<and>
     (best \<noteq> UINT_MAX \<longrightarrow> eligible g0 best \<and> \<not> pq_at g0 {} best) \<and> (best = UINT_MAX \<longrightarrow> low = - 1) \<and>
     (\<forall>i\<in>vis. eligible g0 i \<longrightarrow> progress \<or> best \<noteq> UINT_MAX))"

lemma sweep_node_inv:
  assumes inv: "pass_inv g0 vis (g, progress, best, low)" and i: "i < g_count g0"
  shows "\<exists>s'. sweep_node i (g, progress, best, low) = ret s' \<and> pass_inv g0 (insert i vis) s'"
proof -
  have ok0: "graph_ok g0" and ok: "graph_ok g" and q: "q_ok g" and st: "same_static g0 g"
    and mono: "\<And>n. n < g_count g0 \<Longrightarrow> in_stack (node g0 n) \<Longrightarrow> in_stack (node g n)"
    and pr: "if progress then g_stack_count g0 < g_stack_count g else g = g0"
    and b: "best \<noteq> UINT_MAX \<Longrightarrow> eligible g0 best \<and> \<not> pq_at g0 {} best" "best = UINT_MAX \<Longrightarrow> low = - 1"
    using inv by (auto simp: pass_inv_def)
  note G = graph_okD [OF ok]
  have c: "g_count g = g_count g0" "nd_reg (node g i) = nd_reg (node g0 i)" using st i by (auto simp: same_static_def)
  have i': "i < g_count g" "i < length (g_nodes g)" using i c G(2) by auto
  have imax: "i \<noteq> UINT_MAX" using i' G(4) by (simp add: UINT_MAX_def)
  consider (skip) "in_stack (node g i) \<or> nd_reg (node g i) \<noteq> NO_REG"
    | (push) "eligible g i" "pq_at g (set (stacked g)) i"
    | (keep) "eligible g i" "\<not> pq_at g (set (stacked g)) i" using i' by blast
  then show ?thesis
  proof cases
    case skip
    then have "eligible g0 i \<longrightarrow> progress" using pr by (cases progress) auto
    then have "pass_inv g0 (insert i vis) (g, progress, best, low)" using inv by (auto simp: pass_inv_def)
    then show ?thesis using skip i' by (simp add: sweep_node_def)
  next
    case push
    obtain g' where p: "push_node g i = ret g'" "graph_ok g'" "q_ok g'" "same_static g g'" "stacked g' = stacked g @ [i]"
      "g_stack_count g' = g_stack_count g + 1" "\<forall>m < g_count g. in_stack (node g' m) \<longleftrightarrow> m = i \<or> in_stack (node g m)"
      using push_ok [OF ok q push(1)] by blast
    have "all_trivial g0 \<longrightarrow> all_trivial g'"
      using inv all_trivial_push [OF ok p(4,5) i'(1) _ push(2)] by (auto simp: pass_inv_def)
    moreover have "g_stack_count g0 < g_stack_count g'" using pr p(6) by (cases progress) auto
    ultimately have "pass_inv g0 (insert i vis) (g', True, best, low)"
      using ok0 p(2,3) same_static_trans [OF st p(4)] mono p(7) b c(1) by (auto simp: pass_inv_def)
    then show ?thesis using push p(1) pq_test_ok [OF ok q] i' by (simp add: sweep_node_def)
  next
    case keep
    have el: "eligible g0 i" using keep(1) c i mono by auto
    have np: "\<not> pq_at g0 {} i" using keep(2) pq_at_mono [of "{}" "set (stacked g)" g i] pq_at_static [OF ok0 st i] by auto
    note t = pq_test_ok [OF ok q i'(1)]
    have run: "sweep_node i (g, progress, best, low) =
        (if q_total (node g i) < low then ret (g, progress, i, q_total (node g i)) else ret (g, progress, best, low))"
      using keep t i' by (simp add: sweep_node_def)
    show ?thesis
    proof (cases "q_total (node g i) < low")
      case True
      then have "pass_inv g0 (insert i vis) (g, progress, i, q_total (node g i))"
        using inv el np imax by (auto simp: pass_inv_def)
      then show ?thesis using run True by simp
    next
      case False
      have "unat (q_total (node g i)) < UINT_MAX"
        using q i'(1) keep(1) qsum_antimono [of "{}" "set (stacked g)" g i] by (auto simp: q_ok_def intro: le_less_trans)
      then have "q_total (node g i) < - 1" by (simp add: word_less_nat_alt UINT_MAX_def unsigned_minus_1_eq_mask mask_eq_exp_minus_1)
      then have "best \<noteq> UINT_MAX" using b(2) False by auto
      then have "pass_inv g0 (insert i vis) (g, progress, best, low)" using inv by (auto simp: pass_inv_def)
      then show ?thesis using run False by simp
    qed
  qed
qed

lemma sweep_inv:
  assumes "pass_inv g0 vis s" "\<And>i. i \<in> set is \<Longrightarrow> i < g_count g0"
  shows "\<exists>s'. fold_run sweep_node is s = ret s' \<and> pass_inv g0 (vis \<union> set is) s'"
  using assms
proof (induction "is" arbitrary: vis s)
  case (Cons i "is")
  obtain g pr b low where s: "s = (g, pr, b, low)" by (cases s)
  from sweep_node_inv [OF Cons.prems(1) [unfolded s], of i] Cons.prems(2) obtain s1 where
    s1: "sweep_node i s = ret s1" "pass_inv g0 (insert i vis) s1" by (auto simp: s)
  from Cons.IH [OF s1(2)] Cons.prems(2) obtain s' where
    "fold_run sweep_node is s1 = ret s'" "pass_inv g0 (insert i vis \<union> set is) s'" by auto
  then show ?case using s1(1) by auto
qed auto

section \<open>The loop\<close>

definition all_pushed :: "ra_graph \<Rightarrow> bool" where
  "all_pushed g \<longleftrightarrow> (\<forall>n < g_count g. in_stack (node g n) \<or> nd_reg (node g n) \<noteq> NO_REG)"

lemma simplify_loop_ok:
  assumes "graph_ok g" "q_ok g" "s = UINT_MAX \<Longrightarrow> all_trivial g"
  shows "\<exists>g' s'. simplify_loop g s = ret (g', s') \<and> graph_ok g' \<and> q_ok g' \<and> same_static g g' \<and> all_pushed g' \<and>
    (s' = UINT_MAX \<longrightarrow> all_trivial g') \<and> (always_trivial g \<longrightarrow> s' = s)"
  using assms
proof (induction "g_count g - g_stack_count g" arbitrary: g s rule: less_induct)
  case less
  note ok = less.prems(1) and q = less.prems(2)
  have "pass_inv g {} (g, False, UINT_MAX, - 1)" using ok q by (simp add: pass_inv_def)
  from sweep_inv [OF this, of "rev [0..<g_count g]"] obtain g1 pr best low where
    fold: "fold_run sweep_node (rev [0..<g_count g]) (g, False, UINT_MAX, - 1) = ret (g1, pr, best, low)"
    and inv: "pass_inv g {..<g_count g} (g1, pr, best, low)"
    by (auto simp: lessThan_atLeast0)
  have ok1: "graph_ok g1" "q_ok g1" and st1: "same_static g g1" and cnt: "g_count g1 = g_count g"
    and tr1: "all_trivial g \<longrightarrow> all_trivial g1"
    using inv by (auto simp: pass_inv_def same_static_def)
  have sc: "g_stack_count g' \<le> g_count g'" if "graph_ok g'" for g' using graph_okD(5) [OF that] .
  consider (progress) pr | (optimistic) "\<not> pr" "best \<noteq> UINT_MAX" | (finished) "\<not> pr" "best = UINT_MAX" by blast
  then show ?case
  proof cases
    case progress
    then have "g_count g1 - g_stack_count g1 < g_count g - g_stack_count g"
      using inv sc [OF ok1(1)] cnt by (auto simp: pass_inv_def)
    from less.hyps [OF this ok1, of s] less.prems(3) tr1 obtain g' s' where
      r: "simplify_loop g1 s = ret (g', s')" "graph_ok g'" "q_ok g'" "same_static g1 g'" "all_pushed g'"
        "s' = UINT_MAX \<longrightarrow> all_trivial g'" "always_trivial g1 \<longrightarrow> s' = s" by blast
    have "simplify_loop g s = ret (g', s')"
      by (subst simplify_loop.simps) (simp add: fold progress r(1))
    then show ?thesis using r same_static_trans [OF st1 r(4)] always_trivial_static [OF ok st1] by blast
  next
    case optimistic
    have "\<not> always_trivial g" "g1 = g" "eligible g best" using inv optimistic by (auto simp: pass_inv_def always_trivial_def)
    with push_ok [OF ok q] obtain g2 where p: "push_node g1 best = ret g2" "graph_ok g2" "q_ok g2" "same_static g g2"
      "g_stack_count g2 = g_stack_count g + 1" by blast
    let ?s = "if s = UINT_MAX then g_stack_count g1 else s"
    have "g_stack_count g1 \<noteq> UINT_MAX" using sc [OF ok1(1)] graph_okD(4) [OF ok1(1)] by (simp add: UINT_MAX_def)
    then have s: "?s \<noteq> UINT_MAX" by simp
    have "g_count g2 = g_count g" using p(4) by (simp add: same_static_def)
    then have "g_count g2 - g_stack_count g2 < g_count g - g_stack_count g" using sc [OF p(2)] p(5) by simp
    from less.hyps [OF this p(2,3), of ?s] s obtain g' s' where
      r: "simplify_loop g2 ?s = ret (g', s')" "graph_ok g'" "q_ok g'" "same_static g2 g'" "all_pushed g'"
        "s' = UINT_MAX \<longrightarrow> all_trivial g'" by blast
    have "simplify_loop g s = ret (g', s')"
      by (subst simplify_loop.simps) (simp add: fold optimistic p(1) Let_def r(1))
    then show ?thesis using r same_static_trans [OF p(4) r(4)] \<open>\<not> always_trivial g\<close> by blast
  next
    case finished
    have "g1 = g" using inv finished by (simp add: pass_inv_def)
    moreover have "all_pushed g" using inv finished by (auto simp: pass_inv_def all_pushed_def)
    moreover have "simplify_loop g s = ret (g1, s)" by (subst simplify_loop.simps) (simp add: fold finished)
    ultimately show ?thesis using ok q less.prems(3) by auto
  qed
qed

lemma optimistic_start_irrelevant:
  "graph_ok (g\<lparr>stack_optimistic_start := s\<rparr>) = graph_ok g" "all_trivial (g\<lparr>stack_optimistic_start := s\<rparr>) = all_trivial g"
  "all_pushed (g\<lparr>stack_optimistic_start := s\<rparr>) = all_pushed g"
  "same_static g' (g\<lparr>stack_optimistic_start := s\<rparr>) = same_static g' g"
proof -
  have "stacked (g\<lparr>stack_optimistic_start := s\<rparr>) = stacked g" by (simp add: stacked_def)
  moreover have "adjacent_ok (g\<lparr>stack_optimistic_start := s\<rparr>) = adjacent_ok g" by (simp add: fun_eq_iff adjacent_ok_def)
  moreover have "pq_at (g\<lparr>stack_optimistic_start := s\<rparr>) = pq_at g" by (simp add: fun_eq_iff pq_at_def qsum_def)
  ultimately show "graph_ok (g\<lparr>stack_optimistic_start := s\<rparr>) = graph_ok g"
    "all_trivial (g\<lparr>stack_optimistic_start := s\<rparr>) = all_trivial g"
    by (simp_all add: graph_ok_def all_trivial_def)
qed (simp_all add: all_pushed_def same_static_def)

lemma simplify_ok:
  assumes "graph_ok g" "q_ok g" "g_stack_count g = 0"
  shows "\<exists>g'. ra_simplify g = ret g' \<and> graph_ok g' \<and> same_static g g' \<and> all_pushed g' \<and>
    (stack_optimistic_start g' = UINT_MAX \<longrightarrow> all_trivial g') \<and> (always_trivial g \<longrightarrow> stack_optimistic_start g' = UINT_MAX)"
proof -
  have "all_trivial g" using assms(3) by (simp add: all_trivial_def stacked_def)
  with simplify_loop_ok [OF assms(1,2), of UINT_MAX] obtain g1 s where
    r: "simplify_loop g UINT_MAX = ret (g1, s)" "graph_ok g1" "same_static g g1" "all_pushed g1" "s = UINT_MAX \<longrightarrow> all_trivial g1"
    "always_trivial g \<longrightarrow> s = UINT_MAX"
    by blast
  let ?g = "g1\<lparr>stack_optimistic_start := s\<rparr>"
  have "ra_simplify g = ret ?g" using r(1) by (simp add: ra_simplify_def)
  then show ?thesis using r by (intro exI [of _ ?g]) (simp add: optimistic_start_irrelevant)
qed

end
