(* ===== verification/Ra_Select.thy ===== *)
theory Ra_Select
  imports Ra_Simplify
begin

text \<open>
  Selection: registers are chosen for the nodes of the stack, the last one pushed first, so that no two
  neighbours conflict; if all nodes passed the p/q test it succeeds.
\<close>

section \<open>Colourings\<close>

text \<open>
  The nodes that are not on the stack have registers, of their class unless they belong to \<open>F\<close>, the
  nodes with a forced register, and no two neighbours among them conflict.
\<close>

definition colored :: "nat set \<Rightarrow> ra_graph \<Rightarrow> bool" where
  "colored F g \<longleftrightarrow> (\<forall>n < g_count g. \<not> in_stack (node g n) \<longrightarrow>
     nd_reg (node g n) < rs_count (g_regs g) \<and>
     (n \<notin> F \<longrightarrow> in_class (g_regs g) (nd_class (node g n)) (nd_reg (node g n))) \<and>
     (\<forall>m\<in>set (nbrs g n). \<not> in_stack (node g m) \<longrightarrow> \<not> conf (g_regs g) (nd_reg (node g n)) (nd_reg (node g m))))"

text \<open>A register that no coloured neighbour of the node conflicts with.\<close>

definition free_reg :: "ra_graph \<Rightarrow> nat \<Rightarrow> nat \<Rightarrow> bool" where
  "free_reg g n r \<longleftrightarrow> (\<forall>m\<in>set (nbrs g n). \<not> in_stack (node g m) \<longrightarrow> \<not> conf (g_regs g) r (nd_reg (node g m)))"

text \<open>The contract of the callback: it returns an element of the set it is given.\<close>

definition selects :: "nat \<Rightarrow> ('s \<Rightarrow> bool) \<Rightarrow> 's selector \<Rightarrow> bool" where
  "selects count I select \<longleftrightarrow> (\<forall>data g bs. I data \<and> rs_count (g_regs g) = count \<and> length bs = BITSET_WORDS count \<and>
     (\<forall>r. bmem bs r \<longrightarrow> r < count) \<and> (\<exists>r. bmem bs r) \<longrightarrow>
     (\<exists>r data'. select data g bs = ret (r, data') \<and> bmem bs r \<and> I data'))"

definition callback_ok :: "nat \<Rightarrow> ('s \<Rightarrow> bool) \<Rightarrow> 's selector option \<Rightarrow> bool" where
  "callback_ok count I callback \<longleftrightarrow> (\<forall>select. callback = Some select \<longrightarrow> selects count I select)"

lemma no_callback_ok [simp]: "callback_ok count I None"
  by (simp add: callback_ok_def)

definition same_graph :: "ra_graph \<Rightarrow> ra_graph \<Rightarrow> bool" where
  "same_graph g g' \<longleftrightarrow> g_regs g' = g_regs g \<and> g_count g' = g_count g \<and> length (g_nodes g') = length (g_nodes g) \<and>
     (\<forall>n < g_count g. nbrs g' n = nbrs g n \<and> adjacency_count (node g' n) = adjacency_count (node g n) \<and>
        nd_class (node g' n) = nd_class (node g n))"

lemma same_graph_trans: "same_graph g g' \<Longrightarrow> same_graph g' g'' \<Longrightarrow> same_graph g g''"
  by (simp add: same_graph_def)

lemma same_static_graph: "same_static g g' \<Longrightarrow> same_graph g g'"
  by (simp add: same_static_def same_graph_def)

lemma adjacent_ok_same: "same_graph g g' \<Longrightarrow> n < g_count g \<Longrightarrow> adjacent_ok g n \<Longrightarrow> adjacent_ok g' n"
  by (auto simp: adjacent_ok_def same_graph_def)

lemma pq_at_same:
  assumes "same_graph g g'" "n < g_count g" "adjacent_ok g n"
  shows "pq_at g' S n = pq_at g S n"
proof -
  have "qsum g' S n = qsum g S n"
    unfolding qsum_def using assms by (auto simp: same_graph_def adjacent_ok_def intro!: sum.cong)
  then show ?thesis using assms by (simp add: pq_at_def same_graph_def)
qed

section \<open>Looking at the neighbours\<close>

lemma regs_okD:
  assumes "regs_ok R"
  shows "length (rs_regs R) = rs_count R" "rs_count R \<le> 2 ^ 31" "length (rs_classes R) = rs_class_count R"
    "r < rs_count R \<Longrightarrow> length (conflicts (rs_regs R ! r)) = BITSET_WORDS (rs_count R)"
    "c < rs_class_count R \<Longrightarrow> length (c_regs (rs_classes R ! c)) = BITSET_WORDS (rs_count R)"
    "c < rs_class_count R \<Longrightarrow> in_class R c r \<Longrightarrow> r < rs_count R"
    "r < rs_count R \<Longrightarrow> r' < rs_count R \<Longrightarrow> conf R r r' = conf R r' r"
  using assms by (auto simp: regs_ok_def)

lemma test_conf:
  "regs_ok R \<Longrightarrow> r < rs_count R \<Longrightarrow> r' < rs_count R \<Longrightarrow> BITSET_TEST (conflicts (rs_regs R ! r)) r' = ret (conf R r r')"
  by (simp add: BITSET_TEST_eq regs_okD WORDS_enough conf_def)

lemma test_class:
  "regs_ok R \<Longrightarrow> c < rs_class_count R \<Longrightarrow> r < rs_count R \<Longrightarrow>
    reg_belongs_to_class r (rs_classes R ! c) = ret (in_class R c r)"
  by (simp add: reg_belongs_to_class_def BITSET_TEST_eq regs_okD WORDS_enough in_class_def)

lemma map_run_fetch: "map_run (fetch l) [0..<length l] = ret l"
  using map_run_ret [of "[0..<length l]" "fetch l" "\<lambda>i. l ! i"] by (simp add: map_nth)

lemma neighbors_conflict_ok:
  assumes "regs_ok (g_regs g)" "r < rs_count (g_regs g)"
    and "\<And>m. m \<in> set ns \<Longrightarrow> m < length (g_nodes g) \<and> (\<not> in_stack (node g m) \<longrightarrow> nd_reg (node g m) < rs_count (g_regs g))"
  shows "neighbors_conflict g r ns = ret (\<exists>m\<in>set ns. \<not> in_stack (node g m) \<and> conf (g_regs g) r (nd_reg (node g m)))"
  using assms(3)
proof (induction ns)
  case (Cons m ns)
  then show ?case using assms(1,2) by (auto simp: test_conf regs_okD(1))
qed simp

text \<open>
  The neighbours of a node that can be looked at: those that are coloured have registers.
\<close>

definition readable :: "ra_graph \<Rightarrow> nat \<Rightarrow> bool" where
  "readable g n \<longleftrightarrow> regs_ok (g_regs g) \<and> n < length (g_nodes g) \<and> adjacency_count (node g n) = length (nbrs g n) \<and>
     nd_class (node g n) < rs_class_count (g_regs g) \<and>
     (\<forall>m\<in>set (nbrs g n). m < length (g_nodes g) \<and> (\<not> in_stack (node g m) \<longrightarrow> nd_reg (node g m) < rs_count (g_regs g)))"

lemma any_neighbors_ok:
  assumes "readable g n" "r < rs_count (g_regs g)"
  shows "ra_any_neighbors_conflict g n r = ret (\<not> free_reg g n r)"
  using assms neighbors_conflict_ok [of g r "nbrs g n"]
  by (auto simp: readable_def ra_any_neighbors_conflict_def map_run_fetch free_reg_def)

lemma available_fold:
  assumes "regs_ok (g_regs g)" "length bs = BITSET_WORDS (rs_count (g_regs g))"
    and "\<And>m. m \<in> set ns \<Longrightarrow> m < length (g_nodes g) \<and> (\<not> in_stack (node g m) \<longrightarrow> nd_reg (node g m) < rs_count (g_regs g))"
  shows "\<exists>bs'. fold_run (\<lambda>n2 regs. bind_run (fetch (g_nodes g) n2) (\<lambda>nd2.
      if \<not> in_stack nd2 then bind_run (fetch (rs_regs (g_regs g)) (nd_reg nd2)) (\<lambda>reg.
        ret (map2 (\<lambda>a b. a AND NOT b) regs (conflicts reg))) else ret regs)) ns bs = ret bs' \<and> length bs' = BITSET_WORDS (rs_count (g_regs g)) \<and>
    (\<forall>r. bmem bs' r \<longleftrightarrow> bmem bs r \<and> (\<forall>m\<in>set ns. \<not> in_stack (node g m) \<longrightarrow> \<not> conf (g_regs g) (nd_reg (node g m)) r))"
  using assms(2,3)
proof (induction ns arbitrary: bs)
  case (Cons m ns)
  have m: "m < length (g_nodes g)" "\<not> in_stack (node g m) \<Longrightarrow> nd_reg (node g m) < rs_count (g_regs g)"
    using Cons.prems(2) by auto
  show ?case
  proof (cases "in_stack (node g m)")
    case True
    then show ?thesis using Cons.IH [OF Cons.prems(1)] Cons.prems(2) m(1) by auto
  next
    case False
    let ?c = "conflicts (rs_regs (g_regs g) ! nd_reg (node g m))"
    let ?bs = "map2 (\<lambda>a b. a AND NOT b) bs ?c"
    have len: "length ?c = length bs" using regs_okD(4) [OF assms(1) m(2) [OF False]] Cons.prems(1) by simp
    then have "length ?bs = BITSET_WORDS (rs_count (g_regs g))" using Cons.prems(1) by simp
    from Cons.IH [OF this] Cons.prems(2) show ?thesis
      using m False regs_okD(1) [OF assms(1)] len by (auto simp: bmem_map2 conf_def)
  qed
qed auto

lemma available_ok:
  assumes "readable g n"
  shows "\<exists>bs. ra_compute_available_regs g n = ret (\<exists>r. bmem bs r, bs) \<and> length bs = BITSET_WORDS (rs_count (g_regs g)) \<and>
    (\<forall>r. bmem bs r \<longleftrightarrow> in_class (g_regs g) (nd_class (node g n)) r \<and> r < rs_count (g_regs g) \<and> free_reg g n r)"
proof -
  let ?R = "g_regs g"
  let ?c = "nd_class (node g n)"
  have R: "regs_ok ?R" and c: "?c < rs_class_count ?R" and cnt: "adjacency_count (node g n) = length (nbrs g n)" "n < length (g_nodes g)"
    and nb: "\<And>m. m \<in> set (nbrs g n) \<Longrightarrow> m < length (g_nodes g) \<and> (\<not> in_stack (node g m) \<longrightarrow> nd_reg (node g m) < rs_count ?R)"
    using assms by (auto simp: readable_def)
  note r = regs_okD [OF R]
  from available_fold [where ns = "nbrs g n", OF R r(5) [OF c] nb] obtain bs where
    bs: "fold_run (\<lambda>n2 regs. bind_run (fetch (g_nodes g) n2) (\<lambda>nd2.
      if \<not> in_stack nd2 then bind_run (fetch (rs_regs (g_regs g)) (nd_reg nd2)) (\<lambda>reg.
        ret (map2 (\<lambda>a b. a AND NOT b) regs (conflicts reg))) else ret regs)) (nbrs g n) (c_regs (rs_classes ?R ! ?c)) = ret bs"
    and len: "length bs = BITSET_WORDS (rs_count ?R)" and mem: "\<And>x. bmem bs x \<longleftrightarrow> in_class ?R ?c x \<and> (\<forall>m\<in>set (nbrs g n). \<not> in_stack (node g m) \<longrightarrow> \<not> conf ?R (nd_reg (node g m)) x)"
    by (auto simp: in_class_def)
  have "bmem bs x \<longleftrightarrow> in_class ?R ?c x \<and> x < rs_count ?R \<and> free_reg g n x" for x
    using mem [of x] r(6) [OF c, of x] r(7) nb by (auto simp: free_reg_def)
  then show ?thesis
    using bs len cnt c r(3) by (auto simp: ra_compute_available_regs_def fold_run_fetch bmem_nonzero)
qed

section \<open>Searching for a register\<close>

lemma search_reg_ok:
  assumes "readable g n" and ris: "\<And>ri. ri \<in> set ris \<Longrightarrow> ri < rs_count (g_regs g)" and start: "start \<le> rs_count (g_regs g)"
  defines "c \<equiv> nd_class (node g n)"
  shows "\<exists>found. search_reg g n (rs_classes (g_regs g) ! c) start ris = ret found \<and>
    (case found of
       Some r \<Rightarrow> r < rs_count (g_regs g) \<and> in_class (g_regs g) c r \<and> free_reg g n r
     | None \<Rightarrow> (\<forall>ri\<in>set ris. let r = (start + ri) mod rs_count (g_regs g) in \<not> (in_class (g_regs g) c r \<and> free_reg g n r)))"
  using ris
proof (induction ris)
  case (Cons ri ris)
  let ?R = "g_regs g"
  let ?r = "(start + ri) mod rs_count ?R"
  have R: "regs_ok ?R" and c: "c < rs_class_count ?R" using assms(1) by (auto simp: readable_def c_def)
  have lt: "ri < rs_count ?R" using Cons.prems by simp
  then have r: "?r < rs_count ?R" by (intro mod_less_divisor) linarith
  have w: "(start + ri) mod 2 ^ 32 = start + ri" using lt start regs_okD(2) [OF R] by (intro mod_less) simp
  note IH = Cons.IH [OF Cons.prems, simplified]
  show ?case
    using IH r test_class [OF R c r] any_neighbors_ok [OF assms(1) r]
    unfolding search_reg.simps w by (auto simp: Let_def split: option.splits)
qed simp

lemma mod_covers:
  assumes "start \<le> n" "r < (n :: nat)"
  shows "\<exists>i < n. (start + i) mod n = r"
proof (cases "start \<le> r")
  case True
  then show ?thesis using assms by (intro exI [of _ "r - start"]) auto
next
  case False
  then have "start + (n + r - start) = n + r" using assms by simp
  then have "(start + (n + r - start)) mod n = r" using assms by (simp del: add_diff_inverse_nat)
  moreover have "n + r - start < n" using False assms by linarith
  ultimately show ?thesis by blast
qed

text \<open>Both ways to choose a register find one that is free if there is one.\<close>

lemma choose_ok:
  assumes rd: "readable g n" and cb: "callback_ok (rs_count (g_regs g)) I callback" "I data" and start: "start \<le> rs_count (g_regs g)"
  defines "c \<equiv> nd_class (node g n)"
  shows "\<exists>found. choose_reg callback data g n (rs_classes (g_regs g) ! c) start = ret found \<and>
    (case found of
       Some (r, data') \<Rightarrow> r < rs_count (g_regs g) \<and> in_class (g_regs g) c r \<and> free_reg g n r \<and> I data'
     | None \<Rightarrow> (\<forall>r < rs_count (g_regs g). \<not> (in_class (g_regs g) c r \<and> free_reg g n r)))"
proof (cases callback)
  case None
  obtain found where f: "search_reg g n (rs_classes (g_regs g) ! c) start [0..<rs_count (g_regs g)] = ret found"
    "case found of
       Some r \<Rightarrow> r < rs_count (g_regs g) \<and> in_class (g_regs g) c r \<and> free_reg g n r
     | None \<Rightarrow> (\<forall>ri\<in>set [0..<rs_count (g_regs g)]. let r = (start + ri) mod rs_count (g_regs g) in
         \<not> (in_class (g_regs g) c r \<and> free_reg g n r))"
    using search_reg_ok [OF rd _ start, of "[0..<rs_count (g_regs g)]"] unfolding c_def by auto
  have "\<not> (in_class (g_regs g) c r \<and> free_reg g n r)" if "found = None" "r < rs_count (g_regs g)" for r
    using f(2) that mod_covers [OF start that(2)] by (auto simp: Let_def)
  then show ?thesis using None f cb(2) by (cases found) (auto simp: choose_reg_def)
next
  case (Some select)
  obtain bs where bs: "ra_compute_available_regs g n = ret (\<exists>r. bmem bs r, bs)" "length bs = BITSET_WORDS (rs_count (g_regs g))"
    "\<And>r. bmem bs r \<longleftrightarrow> in_class (g_regs g) c r \<and> r < rs_count (g_regs g) \<and> free_reg g n r"
    using available_ok [OF rd] unfolding c_def by blast
  show ?thesis
  proof (cases "\<exists>r. bmem bs r")
    case True
    have "selects (rs_count (g_regs g)) I select" using cb(1) Some by (simp add: callback_ok_def)
    then obtain r data' where "select data g bs = ret (r, data')" "bmem bs r" "I data'"
      unfolding selects_def using cb(2) bs(2,3) True by blast
    then show ?thesis using Some bs(1,3) True by (simp add: choose_reg_def)
  next
    case False
    then show ?thesis using Some bs(1,3) by (simp add: choose_reg_def)
  qed
qed

section \<open>Popping a node\<close>

definition unstack :: "ra_graph \<Rightarrow> nat \<Rightarrow> ra_graph" where
  "unstack g n = g\<lparr>g_nodes := (g_nodes g)[n := (node g n)\<lparr>in_stack := False\<rparr>]\<rparr>"

definition assign :: "ra_graph \<Rightarrow> nat \<Rightarrow> nat \<Rightarrow> ra_graph" where
  "assign g n r = g\<lparr>g_nodes := (g_nodes g)[n := (node g n)\<lparr>in_stack := False, nd_reg := r\<rparr>],
     g_stack_count := g_stack_count g - 1\<rparr>"

lemma stack_top:
  assumes ok: "graph_ok g" and k: "g_stack_count g = Suc k"
  defines "n \<equiv> g_stack g ! k"
  shows "k < length (g_stack g)" "n < g_count g" "in_stack (node g n)" "stacked g = take k (g_stack g) @ [n]"
    "n \<notin> set (take k (g_stack g))" "set (take k (g_stack g)) = {m. m < g_count g \<and> m \<noteq> n \<and> in_stack (node g m)}"
proof -
  note G = graph_okD [OF ok]
  show lt: "k < length (g_stack g)" using G(3,5) k by simp
  show st: "stacked g = take k (g_stack g) @ [n]" using lt k by (simp add: stacked_def take_Suc_conv_app_nth n_def)
  then show "n < g_count g" "in_stack (node g n)" using G(7) by auto
  show nk: "n \<notin> set (take k (g_stack g))" using G(6) st by simp
  have "insert n (set (take k (g_stack g))) = {m. m < g_count g \<and> in_stack (node g m)}" using st G(7) by simp
  then show "set (take k (g_stack g)) = {m. m < g_count g \<and> m \<noteq> n \<and> in_stack (node g m)}" using nk by auto
qed

lemma assign_ok:
  assumes ok: "graph_ok g" and k: "g_stack_count g = Suc k"
  defines "n \<equiv> g_stack g ! k"
  shows "graph_ok (assign g n r)" "same_graph g (assign g n r)" "stacked (assign g n r) = take k (g_stack g)"
    "m < g_count g \<Longrightarrow> node (assign g n r) m = (if m = n then (node g n)\<lparr>in_stack := False, nd_reg := r\<rparr> else node g m)"
proof -
  note G = graph_okD [OF ok] and T = stack_top [OF ok k, folded n_def]
  let ?g = "assign g n r"
  show nd: "node ?g m = (if m = n then (node g n)\<lparr>in_stack := False, nd_reg := r\<rparr> else node g m)" if "m < g_count g" for m
    using that T(2) G(2) by (simp add: assign_def nth_list_update)
  show st: "stacked ?g = take k (g_stack g)" using k by (simp add: stacked_def assign_def)
  show same: "same_graph g ?g"
    unfolding same_graph_def using nd by (auto simp: assign_def)
  show "graph_ok ?g"
    unfolding graph_ok_def
  proof (intro conjI allI impI)
    show "regs_ok (g_regs ?g)" "length (g_nodes ?g) = g_count ?g" "length (g_stack ?g) = g_count ?g" "g_count ?g \<le> 2 ^ 31"
      "g_stack_count ?g \<le> g_count ?g"
      using G k by (simp_all add: assign_def)
    have c: "g_count ?g = g_count g" by (simp add: assign_def)
    show "adjacent_ok ?g m" if "m < g_count ?g" for m
      using adjacent_ok_same [OF same _ G(8)] that c by simp
    show "distinct (stacked ?g)" using st G(6) T(4) by simp
    show "set (stacked ?g) = {m. m < g_count ?g \<and> in_stack (node ?g m)}"
      unfolding st T(6) c using nd by (auto split: if_splits)
    show "nd_reg (node ?g m) = NO_REG" if "m < g_count ?g" "in_stack (node ?g m)" for m
      using that nd G(9) c by (auto split: if_splits)
  qed
qed

lemma unstack_readable:
  assumes ok: "graph_ok g" and k: "g_stack_count g = Suc k" and col: "colored F g"
  defines "n \<equiv> g_stack g ! k"
  shows "readable (unstack g n) n"
    "free_reg (unstack g n) n r \<longleftrightarrow> (\<forall>m\<in>set (nbrs g n). \<not> in_stack (node g m) \<longrightarrow> \<not> conf (g_regs g) r (nd_reg (node g m)))"
    "node (unstack g n) n = (node g n)\<lparr>in_stack := False\<rparr>" "g_regs (unstack g n) = g_regs g"
proof -
  note G = graph_okD [OF ok] and T = stack_top [OF ok k, folded n_def]
  note A = adjacent_okD [OF G(8) [OF T(2)]]
  show nd: "node (unstack g n) n = (node g n)\<lparr>in_stack := False\<rparr>" using T(2) G(2) by (simp add: unstack_def)
  have other: "node (unstack g n) m = node g m" if "m \<noteq> n" for m using that by (simp add: unstack_def)
  have nb: "m \<noteq> n \<and> m < g_count g" if "m \<in> set (nbrs g n)" for m using A(3,5) that by auto
  have len: "length (g_nodes (unstack g n)) = g_count g" "g_regs (unstack g n) = g_regs g" using G(2) by (simp_all add: unstack_def)
  show "g_regs (unstack g n) = g_regs g" by (rule len(2))
  show "readable (unstack g n) n"
    unfolding readable_def len nd using G(1) T(2) A(1,4) nb other col by (auto simp: colored_def)
  show "free_reg (unstack g n) n r \<longleftrightarrow> (\<forall>m\<in>set (nbrs g n). \<not> in_stack (node g m) \<longrightarrow> \<not> conf (g_regs g) r (nd_reg (node g m)))"
    unfolding free_reg_def len nd using nb other by auto
qed

lemma assign_colored:
  assumes ok: "graph_ok g" and k: "g_stack_count g = Suc k" and col: "colored F g"
    and r: "r < rs_count (g_regs g)" "in_class (g_regs g) (nd_class (node g (g_stack g ! k))) r"
      "free_reg (unstack g (g_stack g ! k)) (g_stack g ! k) r"
  shows "colored F (assign g (g_stack g ! k) r)"
proof -
  define n where "n = g_stack g ! k"
  note G = graph_okD [OF ok] and T = stack_top [OF ok k, folded n_def]
  note as = assign_ok [OF ok k, folded n_def] and R = regs_okD [OF graph_okD(1) [OF ok]]
  let ?g = "assign g n r"
  have g: "g_regs ?g = g_regs g" "g_count ?g = g_count g" by (simp_all add: assign_def)
  have fr: "\<not> conf (g_regs g) r (nd_reg (node g m))" if "m \<in> set (nbrs g n)" "\<not> in_stack (node g m)" for m
    using r(3) unstack_readable(2) [OF ok k col] that unfolding n_def by blast
  show ?thesis
    unfolding colored_def n_def [symmetric] g
  proof (intro allI impI conjI ballI)
    fix m assume m: "m < g_count g" "\<not> in_stack (node ?g m)"
    note A = adjacent_okD [OF G(8) [OF m(1)]]
    note nm = as(4) [OF m(1), of r]
    have cm: "m \<noteq> n \<Longrightarrow> nd_reg (node g m) < rs_count (g_regs g)" "m \<noteq> n \<Longrightarrow> \<not> in_stack (node g m)"
      using m nm col by (auto simp: colored_def split: if_splits)
    show "nd_reg (node ?g m) < rs_count (g_regs g)" using nm r(1) cm by simp
    show "in_class (g_regs g) (nd_class (node ?g m)) (nd_reg (node ?g m))" if "m \<notin> F"
      using nm r(2) that col cm m(1) by (auto simp: n_def colored_def)
    fix l assume l: "l \<in> set (nbrs ?g m)" "\<not> in_stack (node ?g l)"
    then have lm: "l \<in> set (nbrs g m)" using nm by (simp split: if_splits)
    then have lc: "l < g_count g" by (rule A(5))
    note nl = as(4) [OF lc, of r]
    have ml: "m \<noteq> l" using A(3) lm by auto
    show "\<not> conf (g_regs g) (nd_reg (node ?g m)) (nd_reg (node ?g l))"
    proof (cases "m = n")
      case True
      then show ?thesis using nm nl ml lm l(2) fr by (auto split: if_splits)
    next
      case False
      note c = cm [OF False]
      show ?thesis
      proof (cases "l = n")
        case True
        have "m \<in> set (nbrs g n)" using lm A(6) True by blast
        then have "\<not> conf (g_regs g) r (nd_reg (node g m))" using fr c(2) by blast
        then show ?thesis using nm nl False True R(7) [OF r(1) c(1)] by simp
      next
        case ln: False
        then show ?thesis using nm nl False lm l(2) c col m(1) by (auto simp: colored_def)
      qed
    qed
  qed
qed

section \<open>The p/q test is sound\<close>

text \<open>
  The values q and p mean what they are meant to: a register of class C conflicts with at
  most q(B,C) registers of class B, and class B has at least p(B) registers.
\<close>

definition pq_sound :: "ra_regs \<Rightarrow> bool" where
  "pq_sound R \<longleftrightarrow>
     (\<forall>b < rs_class_count R. pv R b \<le> card {r. in_class R b r} \<and>
       (\<forall>c < rs_class_count R. \<forall>r. in_class R c r \<longrightarrow> card {r'. in_class R b r' \<and> conf R r r'} \<le> qv R b c))"

lemma free_register_exists:
  assumes ok: "graph_ok g" and k: "g_stack_count g = Suc k" and col: "colored {} g"
    and snd: "pq_sound (g_regs g)" and pq: "pq_at g (set (take k (g_stack g))) (g_stack g ! k)"
  shows "\<exists>r < rs_count (g_regs g). in_class (g_regs g) (nd_class (node g (g_stack g ! k))) r \<and>
    free_reg (unstack g (g_stack g ! k)) (g_stack g ! k) r"
proof -
  define n where "n = g_stack g ! k"
  let ?R = "g_regs g"
  let ?c = "nd_class (node g n)"
  note G = graph_okD [OF ok] and T = stack_top [OF ok k, folded n_def]
  note A = adjacent_okD [OF G(8) [OF T(2)]] and R = regs_okD [OF G(1)]
  define N where "N = set (nbrs g n) - set (take k (g_stack g))"
  define B where "B = (\<lambda>m. {r'. in_class ?R ?c r' \<and> conf ?R (nd_reg (node g m)) r'})"
  have N: "m < g_count g \<and> \<not> in_stack (node g m)" if "m \<in> N" for m
  proof -
    have "m < g_count g" "m \<noteq> n" using that A(3) A(5) [of m] by (auto simp: N_def)
    then show ?thesis using that T(6) by (auto simp: N_def)
  qed
  have "{r. in_class ?R ?c r} \<subseteq> {..<rs_count ?R}" using R(6) [OF A(4)] by blast
  then have fin: "finite {r. in_class ?R ?c r}" by (rule finite_subset) simp
  have cl: "nd_class (node g m) < rs_class_count ?R" if "m \<in> N" for m using adjacent_okD(4) [OF G(8)] N [OF that] by blast
  have "card (B m) \<le> qv ?R ?c (nd_class (node g m))" if m: "m \<in> N" for m
    using snd A(4) cl [OF m] col N [OF m] by (simp add: pq_sound_def colored_def B_def)
  then have "card (\<Union>m\<in>N. B m) \<le> (\<Sum>m\<in>N. qv ?R ?c (nd_class (node g m)))"
    using card_UN_le [of N B] by (intro order_trans [OF card_UN_le] sum_mono) (auto simp: N_def)
  also have "\<dots> < pv ?R ?c" using pq by (simp add: pq_at_def qsum_def N_def n_def)
  also have "\<dots> \<le> card {r. in_class ?R ?c r}" using snd A(4) by (simp add: pq_sound_def)
  finally have "\<not> {r. in_class ?R ?c r} \<subseteq> (\<Union>m\<in>N. B m)"
    using card_mono [of "\<Union>m\<in>N. B m" "{r. in_class ?R ?c r}"] fin by (force simp: N_def B_def intro: finite_subset [OF _ fin])
  then obtain r where r: "in_class ?R ?c r" "\<And>m. m \<in> N \<Longrightarrow> \<not> conf ?R (nd_reg (node g m)) r"
    by (auto simp: B_def)
  have lt: "r < rs_count ?R" using R(6) [OF A(4) r(1)] .
  have "\<not> conf ?R r (nd_reg (node g m))" if m: "m \<in> set (nbrs g n)" "\<not> in_stack (node g m)" for m
  proof -
    have "m \<in> N" using m T(6) by (auto simp: N_def)
    then show ?thesis using r(2) R(7) [OF lt, of "nd_reg (node g m)"] N col by (auto simp: colored_def)
  qed
  then show ?thesis
    using lt r(1) unstack_readable(2) [OF ok k col, of r] unfolding n_def by blast
qed

section \<open>The loop\<close>

lemma all_trivial_pop:
  assumes ok: "graph_ok g" and k: "g_stack_count g = Suc k" and tr: "all_trivial g"
  shows "pq_at g (set (take k (g_stack g))) (g_stack g ! k)" "all_trivial (assign g (g_stack g ! k) r)"
proof -
  note T = stack_top [OF ok k] and as = assign_ok [OF ok k, where r = r]
  have len: "length (take k (g_stack g)) = k" using T(1) by simp
  show "pq_at g (set (take k (g_stack g))) (g_stack g ! k)"
    using tr T(4) len by (auto simp: all_trivial_def nth_append dest!: spec [of _ k])
  show "all_trivial (assign g (g_stack g ! k) r)"
    unfolding all_trivial_def as(3)
  proof (intro allI impI)
    fix j assume j: "j < length (take k (g_stack g))"
    have "take k (g_stack g) ! j < g_count g" using nth_mem [OF j] T(6) by blast
    then show "pq_at (assign g (g_stack g ! k) r) (set (take j (take k (g_stack g)))) (take k (g_stack g) ! j)"
      using tr T(4) j pq_at_same [OF as(2)] graph_okD(8) [OF ok] by (auto simp: all_trivial_def nth_append dest!: spec [of _ j])
  qed
qed

lemma select_loop_unroll:
  assumes k: "g_stack_count g = Suc k" "k < length (g_stack g)" "g_stack g ! k < length (g_nodes g)"
      "nd_class (node g (g_stack g ! k)) < length (rs_classes (g_regs g))"
  defines "n \<equiv> g_stack g ! k"
  shows "select_loop callback data g start =
    bind_run (choose_reg callback data (unstack g n) n (rs_classes (g_regs g) ! nd_class (node g n)) start)
    (\<lambda>found. case found of
       None \<Rightarrow> ret (unstack g n, False)
     | Some (r, data) \<Rightarrow> select_loop callback data (assign g n r)
         (if rs_round_robin (g_regs g) \<and> (k + UINT_MAX) mod 2 ^ 32 \<le> stack_optimistic_start g then r + 1 else start))"
  using k unfolding n_def
  by (subst select_loop.simps) (simp add: Let_def unstack_def assign_def cong: option.case_cong if_cong)

lemma select_loop_ok:
  assumes "graph_ok g" "colored F g" "callback_ok (rs_count (g_regs g)) I callback" "I data" "start \<le> rs_count (g_regs g)"
  shows "\<exists>g' ok. select_loop callback data g start = ret (g', ok) \<and> same_graph g g' \<and>
    (\<forall>n < g_count g. \<not> in_stack (node g n) \<longrightarrow> nd_reg (node g' n) = nd_reg (node g n)) \<and>
    (ok \<longrightarrow> graph_ok g' \<and> colored F g' \<and> g_stack_count g' = 0) \<and>
    (all_trivial g \<and> pq_sound (g_regs g) \<and> colored {} g \<longrightarrow> ok)"
  using assms
proof (induction "g_stack_count g" arbitrary: data g start)
  case 0
  then have "select_loop callback data g start = ret (g, True)" by (subst select_loop.simps) simp
  then show ?case using 0 by (auto simp: same_graph_def)
next
  case (Suc k)
  have k: "g_stack_count g = Suc k" using Suc.hyps(2) by simp
  note ok = Suc.prems(1) and col = Suc.prems(2)
  define n where "n = g_stack g ! k"
  note G = graph_okD [OF ok] and T = stack_top [OF ok k, folded n_def]
  note rd = unstack_readable [OF ok k col, folded n_def]
  let ?g1 = "unstack g n"
  let ?c = "nd_class (node g n)"
  have start1: "start \<le> rs_count (g_regs ?g1)" using Suc.prems(5) rd(4) by simp
  have cls: "nd_class (node ?g1 n) = ?c" using rd(3) by simp
  have cb1: "callback_ok (rs_count (g_regs ?g1)) I callback" using Suc.prems(3) rd(4) by simp
  from choose_ok [OF rd(1) cb1 Suc.prems(4) start1, unfolded cls rd(4)] obtain found where
    f: "choose_reg callback data ?g1 n (rs_classes (g_regs g) ! ?c) start = ret found"
    and spec: "case found of
       Some (r, data') \<Rightarrow> r < rs_count (g_regs g) \<and> in_class (g_regs g) ?c r \<and> free_reg ?g1 n r \<and> I data'
     | None \<Rightarrow> (\<forall>r < rs_count (g_regs g). \<not> (in_class (g_regs g) ?c r \<and> free_reg ?g1 n r))"
    by blast
  have acc: "k < length (g_stack g)" "n < length (g_nodes g)" "?c < length (rs_classes (g_regs g))"
    using T(1,2) G(2) adjacent_okD(4) [OF G(8) [OF T(2)]] regs_okD(3) [OF G(1)] by auto
  note unroll = select_loop_unroll [OF k acc [unfolded n_def], folded n_def, of callback data start, unfolded f]
  show ?case
  proof (cases found)
    case None
    have "select_loop callback data g start = ret (?g1, False)" using unroll None by simp
    moreover have "\<not> (all_trivial g \<and> pq_sound (g_regs g) \<and> colored {} g)"
      using spec None free_register_exists [OF ok k] all_trivial_pop(1) [OF ok k] unfolding n_def by auto
    moreover have "same_graph g ?g1" "\<forall>m < g_count g. nd_reg (node ?g1 m) = nd_reg (node g m)"
      using G(2) acc(2) by (auto simp: same_graph_def unstack_def nth_list_update)
    ultimately show ?thesis by auto
  next
    case (Some chosen)
    then obtain r data' where Some: "found = Some (r, data')" by (cases chosen) auto
    let ?g2 = "assign g n r"
    have r: "r < rs_count (g_regs g)" "in_class (g_regs g) ?c r" "free_reg ?g1 n r" "I data'" using spec Some by auto
    note as = assign_ok [OF ok k, folded n_def]
    have col2: "colored F ?g2" using assign_colored [OF ok k col] r unfolding n_def by blast
    define start' where "start' = (if rs_round_robin (g_regs g) \<and>
        (k + UINT_MAX) mod 2 ^ 32 \<le> stack_optimistic_start g then r + 1 else start)"
    have regs2: "g_regs ?g2 = g_regs g" "stack_optimistic_start ?g2 = stack_optimistic_start g" by (simp_all add: assign_def)
    have st': "start' \<le> rs_count (g_regs ?g2)" using r(1) Suc.prems(5) by (simp add: start'_def regs2)
    have k2: "k = g_stack_count ?g2" using k by (simp add: assign_def)
    have cb2: "callback_ok (rs_count (g_regs ?g2)) I callback" using Suc.prems(3) regs2(1) by simp
    from Suc.hyps(1) [OF k2 as(1) col2 cb2 r(4) st'] obtain g' b where
      rest: "select_loop callback data' ?g2 start' = ret (g', b)" "same_graph ?g2 g'"
        "\<And>m. m < g_count ?g2 \<Longrightarrow> \<not> in_stack (node ?g2 m) \<Longrightarrow> nd_reg (node g' m) = nd_reg (node ?g2 m)"
        "b \<longrightarrow> graph_ok g' \<and> colored F g' \<and> g_stack_count g' = 0"
        "all_trivial ?g2 \<and> pq_sound (g_regs ?g2) \<and> colored {} ?g2 \<longrightarrow> b"
      by blast
    have "select_loop callback data g start = select_loop callback data' ?g2 start'" using unroll Some by (simp add: start'_def)
    moreover have "nd_reg (node g' m) = nd_reg (node g m)" if "m < g_count g" "\<not> in_stack (node g m)" for m
      using rest(3) [of m] as(4) [OF that(1), of r] that T(3) by (cases "m = n") (auto simp: assign_def)
    moreover have "all_trivial g \<and> pq_sound (g_regs g) \<and> colored {} g \<longrightarrow> b"
      using rest(5) all_trivial_pop(2) [OF ok k] assign_colored [OF ok k, of "{}"] r regs2 unfolding n_def by auto
    ultimately show ?thesis
      using rest(1,4) same_graph_trans [OF as(2) rest(2)] by auto
  qed
qed

end
