(* ===== verification/Ra_Allocate.thy ===== *)
theory Ra_Allocate
  imports Ra_Select
begin

text \<open>
  Allocation: simplification followed by selection gives every node a register of its class, or reports
  that it could not.
\<close>

section \<open>Allocation problems\<close>

text \<open>
  A graph as it is handed to \<open>ra_allocate\<close>: well formed, with correct q totals, an empty
  stack, and forced registers that do not conflict with each other.
\<close>

definition allocatable :: "ra_graph \<Rightarrow> bool" where
  "allocatable g \<longleftrightarrow> graph_ok g \<and> q_ok g \<and> g_stack_count g = 0 \<and>
     (\<forall>n < g_count g. nd_reg (node g n) \<noteq> NO_REG \<longrightarrow> nd_reg (node g n) < rs_count (g_regs g) \<and>
        (\<forall>m\<in>set (nbrs g n). nd_reg (node g m) \<noteq> NO_REG \<longrightarrow> \<not> conf (g_regs g) (nd_reg (node g n)) (nd_reg (node g m))))"

text \<open>What an allocation has to satisfy.\<close>

definition valid_allocation :: "ra_graph \<Rightarrow> (nat \<Rightarrow> nat) \<Rightarrow> bool" where
  "valid_allocation g reg \<longleftrightarrow> (\<forall>n < g_count g. reg n < rs_count (g_regs g) \<and>
     (if nd_reg (node g n) \<noteq> NO_REG then reg n = nd_reg (node g n)
      else in_class (g_regs g) (nd_class (node g n)) (reg n)) \<and>
     (\<forall>m\<in>set (nbrs g n). \<not> conf (g_regs g) (reg n) (reg m)))"

lemma NO_REG_large: "graph_ok g \<Longrightarrow> r < rs_count (g_regs g) \<Longrightarrow> r \<noteq> NO_REG"
  using regs_okD(2) [OF graph_okD(1)] by (fastforce simp: NO_REG_def UINT_MAX_def)

lemma simplified_colored:
  assumes al: "allocatable g" and ok: "graph_ok g1" and st: "same_static g g1" and all: "all_pushed g1"
  defines "F \<equiv> {n. nd_reg (node g n) \<noteq> NO_REG}"
  shows "colored F g1" "n < g_count g \<Longrightarrow> in_stack (node g1 n) \<longleftrightarrow> nd_reg (node g n) = NO_REG"
    "(\<And>n. n < g_count g \<Longrightarrow> n \<in> F \<Longrightarrow> in_class (g_regs g) (nd_class (node g n)) (nd_reg (node g n))) \<Longrightarrow> colored {} g1"
proof -
  have s: "g_regs g1 = g_regs g" "g_count g1 = g_count g"
    "\<And>n. n < g_count g \<Longrightarrow> nbrs g1 n = nbrs g n \<and> nd_class (node g1 n) = nd_class (node g n) \<and> nd_reg (node g1 n) = nd_reg (node g n)"
    using st by (auto simp: same_static_def)
  show ins: "in_stack (node g1 n) \<longleftrightarrow> nd_reg (node g n) = NO_REG" if "n < g_count g" for n
    using that s all graph_okD(9) [OF ok, of n] by (auto simp: all_pushed_def)
  have nb: "m < g_count g" if "n < g_count g" "m \<in> set (nbrs g n)" for n m
    using adjacent_okD(5) [OF graph_okD(8) [OF ok, of n]] that s by simp
  have base: "nd_reg (node g n) < rs_count (g_regs g) \<and>
      (\<forall>m\<in>set (nbrs g n). nd_reg (node g m) \<noteq> NO_REG \<longrightarrow> \<not> conf (g_regs g) (nd_reg (node g n)) (nd_reg (node g m)))"
    if "n < g_count g" "nd_reg (node g n) \<noteq> NO_REG" for n
    using al that by (auto simp: allocatable_def)
  show "colored F g1" unfolding colored_def s(1,2) using ins base nb s(3) by (auto simp: F_def)
  assume "\<And>n. n < g_count g \<Longrightarrow> n \<in> F \<Longrightarrow> in_class (g_regs g) (nd_class (node g n)) (nd_reg (node g n))"
  then show "colored {} g1" unfolding colored_def s(1,2) using ins base nb s(3) by (auto simp: F_def)
qed

lemma allocate_ok:
  assumes al: "allocatable g" and cb: "callback_ok (rs_count (g_regs g)) I callback" "I data"
  shows "\<exists>g1 g' ok. ra_simplify g = ret g1 \<and> ra_allocate callback data g = ret (g', ok) \<and> same_graph g g' \<and>
    (ok \<longrightarrow> valid_allocation g (\<lambda>n. nd_reg (node g' n))) \<and>
    (stack_optimistic_start g1 = UINT_MAX \<and> pq_sound (g_regs g) \<and>
     (\<forall>n < g_count g. nd_reg (node g n) \<noteq> NO_REG \<longrightarrow> in_class (g_regs g) (nd_class (node g n)) (nd_reg (node g n))) \<longrightarrow> ok) \<and>
    (always_trivial g \<longrightarrow> stack_optimistic_start g1 = UINT_MAX)"
proof -
  have g: "graph_ok g" "q_ok g" "g_stack_count g = 0" using al by (auto simp: allocatable_def)
  obtain g1 where s: "ra_simplify g = ret g1" "graph_ok g1" "same_static g g1" "all_pushed g1"
    "stack_optimistic_start g1 = UINT_MAX \<longrightarrow> all_trivial g1" "always_trivial g \<longrightarrow> stack_optimistic_start g1 = UINT_MAX"
    using simplify_ok [OF g] by blast
  let ?F = "{n. nd_reg (node g n) \<noteq> NO_REG}"
  note col = simplified_colored [OF al s(2-4)]
  have zero: "0 \<le> rs_count (g_regs g1)" by simp
  have cb1: "callback_ok (rs_count (g_regs g1)) I callback" using cb(1) s(3) by (simp add: same_static_def)
  from select_loop_ok [OF s(2) col(1) cb1 cb(2) zero] obtain g' ok where
    l: "select_loop callback data g1 0 = ret (g', ok)" "same_graph g1 g'"
      "\<And>n. n < g_count g1 \<Longrightarrow> \<not> in_stack (node g1 n) \<Longrightarrow> nd_reg (node g' n) = nd_reg (node g1 n)"
      "ok \<longrightarrow> graph_ok g' \<and> colored ?F g' \<and> g_stack_count g' = 0"
      "all_trivial g1 \<and> pq_sound (g_regs g1) \<and> colored {} g1 \<longrightarrow> ok"
    by blast
  have run: "ra_allocate callback data g = ret (g', ok)" using s(1) l(1) by (simp add: ra_allocate_def ra_select_def)
  have sg: "same_graph g g'" using same_graph_trans [OF same_static_graph [OF s(3)] l(2)] .
  have "valid_allocation g (\<lambda>n. nd_reg (node g' n))" if "ok"
  proof -
    have ok': "graph_ok g'" "colored ?F g'" "g_stack_count g' = 0" using l(4) that by auto
    have out: "\<not> in_stack (node g' n)" if "n < g_count g'" for n
      using graph_okD(7) [OF ok'(1)] ok'(3) that by (auto simp: stacked_def)
    have nb: "m < g_count g'" if "n < g_count g'" "m \<in> set (nbrs g' n)" for n m
      using adjacent_okD(5) [OF graph_okD(8) [OF ok'(1) that(1)] that(2)] .
    have fr: "nd_reg (node g' n) = nd_reg (node g n)" if "n < g_count g" "nd_reg (node g n) \<noteq> NO_REG" for n
      using l(3) [of n] col(2) [OF that(1)] that s(3) by (auto simp: same_static_def)
    show ?thesis
      unfolding valid_allocation_def using ok'(2) out nb fr sg by (auto simp: colored_def same_graph_def)
  qed
  moreover have "ok" if "stack_optimistic_start g1 = UINT_MAX" "pq_sound (g_regs g)"
    "\<forall>n < g_count g. nd_reg (node g n) \<noteq> NO_REG \<longrightarrow> in_class (g_regs g) (nd_class (node g n)) (nd_reg (node g n))"
    using l(5) s(3,5) col(3) that by (auto simp: same_static_def)
  ultimately show ?thesis using s(1,6) run sg by blast
qed

end
