(* ===== verification/Ra_Regs.thy ===== *)
theory Ra_Regs
  imports Ra_Select
begin

text \<open>
  Building a register set: conflicts are symmetric and their lists agree with their bit sets, and the
  values q and p that \<open>ra_set_finalize\<close> computes make the p/q test sound.
\<close>

section \<open>Register sets under construction\<close>

text \<open>A register: its list of conflicts holds the elements of its bit set, once each.\<close>

definition reg_ok :: "nat \<Rightarrow> ra_reg \<Rightarrow> bool" where
  "reg_ok count reg \<longleftrightarrow> length (conflicts reg) = BITSET_WORDS count \<and>
     (case conflict_list reg of
        None \<Rightarrow> False
      | Some l \<Rightarrow> num_conflicts reg = length l \<and> distinct l \<and> set l = {r. bmem (conflicts reg) r} \<and> (\<forall>r\<in>set l. r < count))"

definition class_ok :: "nat \<Rightarrow> ra_class \<Rightarrow> bool" where
  "class_ok count cl \<longleftrightarrow> length (c_regs cl) = BITSET_WORDS count \<and> (\<forall>r. bmem (c_regs cl) r \<longrightarrow> r < count) \<and>
     unat (c_p cl) = card {r. bmem (c_regs cl) r}"

definition building :: "ra_regs \<Rightarrow> bool" where
  "building R \<longleftrightarrow> length (rs_regs R) = rs_count R \<and> rs_count R \<le> 2 ^ 31 \<and>
     (\<forall>r < rs_count R. reg_ok (rs_count R) (rs_regs R ! r) \<and> conf R r r) \<and>
     (\<forall>r1 < rs_count R. \<forall>r2 < rs_count R. conf R r1 r2 = conf R r2 r1) \<and>
     length (rs_classes R) = rs_class_count R \<and> (\<forall>c < rs_class_count R. class_ok (rs_count R) (rs_classes R ! c))"

lemma buildingD:
  assumes "building R"
  shows "length (rs_regs R) = rs_count R" "rs_count R \<le> 2 ^ 31" "r < rs_count R \<Longrightarrow> reg_ok (rs_count R) (rs_regs R ! r)"
    "r < rs_count R \<Longrightarrow> conf R r r" "r < rs_count R \<Longrightarrow> r' < rs_count R \<Longrightarrow> conf R r r' = conf R r' r"
    "length (rs_classes R) = rs_class_count R" "c < rs_class_count R \<Longrightarrow> class_ok (rs_count R) (rs_classes R ! c)"
  using assms by (auto simp: building_def)

lemma conf_less: "building R \<Longrightarrow> r < rs_count R \<Longrightarrow> conf R r r' \<Longrightarrow> r' < rs_count R"
  using buildingD(3) [of R r] by (auto simp: reg_ok_def conf_def split: option.splits)

section \<open>New register sets\<close>

lemma alloc_reg_set_ok:
  assumes "count \<le> 2 ^ 31"
  shows "\<exists>R. ra_alloc_reg_set count True = ret R \<and> building R \<and> rs_count R = count \<and> rs_class_count R = 0 \<and>
    (\<forall>r < count. \<forall>r'. conf R r r' \<longleftrightarrow> r = r')"
proof -
  let ?z = "replicate (BITSET_WORDS count) (0 :: u32)"
  have "\<exists>x. i < count \<longrightarrow> BITSET_SET ?z i = ret x \<and> length x = BITSET_WORDS count \<and> (\<forall>a. bmem x a \<longleftrightarrow> a = i)" for i
    using BITSET_SET_eq [of i ?z] WORDS_enough [of i count] by auto
  then have "\<forall>i. \<exists>x. i < count \<longrightarrow> BITSET_SET ?z i = ret x \<and> length x = BITSET_WORDS count \<and> (\<forall>a. bmem x a \<longleftrightarrow> a = i)"
    by blast
  from choice [OF this] obtain bs where
    bs: "\<And>i. i < count \<Longrightarrow> BITSET_SET ?z i = ret (bs i) \<and> length (bs i) = BITSET_WORDS count \<and> (\<forall>a. bmem (bs i) a \<longleftrightarrow> a = i)"
    by blast
  let ?r = "\<lambda>i. \<lparr>conflicts = bs i, conflict_list = Some [i], conflict_list_size = 4, num_conflicts = 1\<rparr>"
  let ?R = "\<lparr>rs_regs = map ?r [0..<count], rs_count = count, rs_classes = [], rs_class_count = 0, rs_round_robin = False\<rparr>"
  have "map_run (\<lambda>i. bind_run (BITSET_SET ?z i) (\<lambda>bs. ret \<lparr>conflicts = bs, conflict_list = if True then Some [i] else None,
      conflict_list_size = if True then 4 else 0, num_conflicts = 1\<rparr>)) [0..<count] = ret (map ?r [0..<count])"
    by (rule map_run_ret) (simp add: bs)
  then have "ra_alloc_reg_set count True = ret ?R" by (simp add: ra_alloc_reg_set_def)
  moreover have "conf ?R r r' \<longleftrightarrow> r = r'" if "r < count" for r r' using that bs by (auto simp: conf_def)
  moreover from this have "building ?R"
    using assms bs by (auto simp: building_def reg_ok_def)
  ultimately show ?thesis by (intro exI [of _ ?R]) auto
qed

section \<open>Adding conflicts\<close>

lemma add_conflict_list_ok:
  assumes r: "r1 < length (rs_regs R)" "reg_ok n (rs_regs R ! r1)" "r2 < n" "\<not> conf R r1 r2"
  shows "\<exists>reg. ra_add_conflict_list R r1 r2 = ret (R\<lparr>rs_regs := (rs_regs R)[r1 := reg]\<rparr>) \<and> reg_ok n reg \<and>
    (\<forall>a. bmem (conflicts reg) a \<longleftrightarrow> a = r2 \<or> conf R r1 a)"
proof -
  let ?reg = "rs_regs R ! r1"
  obtain l where l: "conflict_list ?reg = Some l" "num_conflicts ?reg = length l" "distinct l"
    "set l = {r. bmem (conflicts ?reg) r}" "\<forall>r\<in>set l. r < n" and len: "length (conflicts ?reg) = BITSET_WORDS n"
    using r(2) by (auto simp: reg_ok_def split: option.splits)
  define sz where "sz = (if conflict_list_size ?reg = num_conflicts ?reg then conflict_list_size ?reg * 2 else conflict_list_size ?reg)"
  obtain bs where bs: "BITSET_SET (conflicts ?reg) r2 = ret bs" "length bs = BITSET_WORDS n"
    "\<And>a. bmem bs a \<longleftrightarrow> a = r2 \<or> bmem (conflicts ?reg) a"
    using BITSET_SET_eq [of r2 "conflicts ?reg"] WORDS_enough [OF r(3)] len by auto
  let ?new = "?reg\<lparr>conflict_list_size := sz, conflict_list := Some (l @ [r2]), num_conflicts := length l + 1, conflicts := bs\<rparr>"
  have "ra_add_conflict_list R r1 r2 = ret (R\<lparr>rs_regs := (rs_regs R)[r1 := ?new]\<rparr>)"
    using r(1) l(1,2) bs(1) by (auto simp: ra_add_conflict_list_def Let_def sz_def)
  moreover have "reg_ok n ?new"
    using l(3-5) bs(2,3) r(3,4) by (auto simp: reg_ok_def conf_def)
  ultimately show ?thesis using bs(3) by (intro exI [of _ ?new]) (simp add: conf_def)
qed

text \<open>A register set with more conflicts, those of \<open>P\<close>.\<close>

definition conflicts_added :: "ra_regs \<Rightarrow> (nat \<Rightarrow> nat \<Rightarrow> bool) \<Rightarrow> ra_regs \<Rightarrow> bool" where
  "conflicts_added R P R' \<longleftrightarrow> building R' \<and> rs_count R' = rs_count R \<and> rs_classes R' = rs_classes R \<and>
     rs_class_count R' = rs_class_count R \<and> (\<forall>a < rs_count R. \<forall>b. conf R' a b \<longleftrightarrow> conf R a b \<or> P a b)"

lemma conflicts_addedD:
  assumes "conflicts_added R P R'"
  shows "building R'" "rs_count R' = rs_count R" "rs_classes R' = rs_classes R" "rs_class_count R' = rs_class_count R"
    "a < rs_count R \<Longrightarrow> conf R' a b \<longleftrightarrow> conf R a b \<or> P a b"
  using assms by (auto simp: conflicts_added_def)

lemma add_reg_conflict_ok:
  assumes B: "building R" and r: "r1 < rs_count R" "r2 < rs_count R"
  shows "\<exists>R'. ra_add_reg_conflict R r1 r2 = ret R' \<and>
    conflicts_added R (\<lambda>a b. a = r1 \<and> b = r2 \<or> a = r2 \<and> b = r1) R' \<and>
    (\<forall>a. a \<noteq> r1 \<and> a \<noteq> r2 \<longrightarrow> rs_regs R' ! a = rs_regs R ! a) \<and> (conf R r1 r2 \<longrightarrow> R' = R)"
proof (cases "conf R r1 r2")
  note D = buildingD [OF B]
  have t: "BITSET_TEST (conflicts (rs_regs R ! r1)) r2 = ret (conf R r1 r2)"
    using D(3) [OF r(1)] WORDS_enough [OF r(2)] by (simp add: reg_ok_def BITSET_TEST_eq conf_def)
  {
    case True
    then have "ra_add_reg_conflict R r1 r2 = ret R" using t r(1) D(1) by (simp add: ra_add_reg_conflict_def)
    then show ?thesis using B True D(5) r by (intro exI [of _ R]) (auto simp: conflicts_added_def)
  next
    case False
    then have ne: "r1 \<noteq> r2" using D(4) r by auto
    let ?n = "rs_count R"
    have lt: "r1 < length (rs_regs R)" using r D(1) by simp
    obtain e1 where e1: "ra_add_conflict_list R r1 r2 = ret (R\<lparr>rs_regs := (rs_regs R)[r1 := e1]\<rparr>)" "reg_ok ?n e1"
      "\<And>a. bmem (conflicts e1) a \<longleftrightarrow> a = r2 \<or> conf R r1 a"
      using add_conflict_list_ok [OF lt D(3) [OF r(1)] r(2) False] by blast
    let ?R1 = "R\<lparr>rs_regs := (rs_regs R)[r1 := e1]\<rparr>"
    have "r2 < length (rs_regs ?R1)" "reg_ok ?n (rs_regs ?R1 ! r2)" "\<not> conf ?R1 r2 r1"
      using r D(1,3,5) ne False by (auto simp: conf_def)
    from add_conflict_list_ok [OF this(1,2) r(1) this(3)] obtain e2 where
      e2: "ra_add_conflict_list ?R1 r2 r1 = ret (?R1\<lparr>rs_regs := (rs_regs ?R1)[r2 := e2]\<rparr>)" "reg_ok ?n e2"
        "\<And>a. bmem (conflicts e2) a \<longleftrightarrow> a = r1 \<or> conf R r2 a"
      using ne by (auto simp: conf_def)
    define R' where "R' = R\<lparr>rs_regs := (rs_regs R)[r1 := e1, r2 := e2]\<rparr>"
    have cf: "conf R' a b \<longleftrightarrow> conf R a b \<or> a = r1 \<and> b = r2 \<or> a = r2 \<and> b = r1" if "a < ?n" for a b
      using that ne r D(1) e1(3) e2(3) by (auto simp: conf_def R'_def nth_list_update)
    have "ra_add_reg_conflict R r1 r2 = ret R'"
      using t False lt e1(1) e2(1) by (simp add: ra_add_reg_conflict_def R'_def)
    moreover have "building R'"
      using D(1,2,4-7) cf e1(2) e2(2) D(3) r by (auto simp: building_def R'_def nth_list_update)
    moreover have "rs_regs R' ! a = rs_regs R ! a" if "a \<noteq> r1" "a \<noteq> r2" for a using that by (simp add: R'_def)
    ultimately show ?thesis using cf False by (intro exI [of _ R']) (simp add: conflicts_added_def, simp add: R'_def)
  }
qed

text \<open>
  The loop over the list of conflicts of \<open>base\<close> runs over a list that its own insertions never
  change, because \<open>reg\<close> conflicts with \<open>base\<close> already.
\<close>

lemma transitive_loop_ok:
  assumes "building R" "base < rs_count R" "reg < rs_count R" "conf R reg base"
    and "conflict_list (rs_regs R ! base) = Some l" "i \<le> length l"
  shows "\<exists>R'. transitive_loop base reg i R = ret R' \<and>
    conflicts_added R (\<lambda>a b. a = reg \<and> b \<in> set (drop i l) \<or> a \<in> set (drop i l) \<and> b = reg) R'"
  using assms
proof (induction "length l - i" arbitrary: i R)
  case 0
  note D = buildingD [OF 0(2)]
  have "num_conflicts (rs_regs R ! base) = length l" using D(3) [OF 0(3)] 0(6) by (simp add: reg_ok_def)
  then have "transitive_loop base reg i R = ret R"
    using 0(1,3,7) D(1) by (subst transitive_loop.simps) simp
  then show ?case using 0 by (intro exI [of _ R]) (auto simp: conflicts_added_def)
next
  case (Suc d)
  note D = buildingD [OF Suc(3)]
  have num: "num_conflicts (rs_regs R ! base) = length l" and sl: "set l = {r. conf R base r}" "\<forall>r\<in>set l. r < rs_count R"
    using D(3) [OF Suc(4)] Suc(7) by (auto simp: reg_ok_def conf_def)
  have i: "i < length l" "d = length l - Suc i" "Suc i \<le> length l" using Suc(2) by auto
  let ?c = "l ! i"
  have c: "?c < rs_count R" "conf R base ?c" using sl i(1) nth_mem [OF i(1)] by auto
  from add_reg_conflict_ok [OF Suc(3) Suc(5) c(1)] obtain R1 where
    R1: "ra_add_reg_conflict R reg ?c = ret R1" "conflicts_added R (\<lambda>a b. a = reg \<and> b = ?c \<or> a = ?c \<and> b = reg) R1"
      "\<forall>a. a \<noteq> reg \<and> a \<noteq> ?c \<longrightarrow> rs_regs R1 ! a = rs_regs R ! a" "conf R reg ?c \<longrightarrow> R1 = R"
    by blast
  note A1 = conflicts_addedD [OF R1(2)]
  have "rs_regs R1 ! base = rs_regs R ! base"
  proof (cases "base = reg \<or> base = ?c")
    case True
    then have "conf R reg ?c" using c(2) Suc(6) by auto
    then show ?thesis using R1(4) by simp
  qed (simp add: R1(3))
  then have l1: "conflict_list (rs_regs R1 ! base) = Some l" using Suc(7) by simp
  have cf1: "conf R1 reg base" using A1(5) [OF Suc(5)] Suc(6) by blast
  have "base < rs_count R1" "reg < rs_count R1" using Suc(4,5) A1(2) by simp_all
  from Suc(1) [OF i(2) A1(1) this cf1 l1 i(3)] obtain R' where
    R': "transitive_loop base reg (Suc i) R1 = ret R'"
      "conflicts_added R1 (\<lambda>a b. a = reg \<and> b \<in> set (drop (Suc i) l) \<or> a \<in> set (drop (Suc i) l) \<and> b = reg) R'"
    by blast
  note A' = conflicts_addedD [OF R'(2)]
  have dr: "set (drop i l) = insert ?c (set (drop (Suc i) l))" using i(1) by (simp add: Cons_nth_drop_Suc [symmetric])
  have "transitive_loop base reg i R = ret R'"
    using Suc(4,7) D(1) i(1) num R1(1) R'(1) by (subst transitive_loop.simps) simp
  moreover have "conf R' a b \<longleftrightarrow> conf R a b \<or> a = reg \<and> b \<in> set (drop i l) \<or> a \<in> set (drop i l) \<and> b = reg"
    if "a < rs_count R" for a b
    using A'(5) [of a b] A1(2,5) that unfolding dr by auto
  ultimately show ?case using A'(1-4) A1(2-4) by (intro exI [of _ R']) (simp add: conflicts_added_def)
qed

lemma add_transitive_ok:
  assumes B: "building R" and r: "base < rs_count R" "reg < rs_count R"
  shows "\<exists>R'. ra_add_transitive_reg_conflict R base reg = ret R' \<and>
    conflicts_added R (\<lambda>a b. a = reg \<and> conf R base b \<or> conf R base a \<and> b = reg) R'"
proof -
  from add_reg_conflict_ok [OF B r(2,1)] obtain R1 where
    R1: "ra_add_reg_conflict R reg base = ret R1" "conflicts_added R (\<lambda>a b. a = reg \<and> b = base \<or> a = base \<and> b = reg) R1"
    by blast
  note A1 = conflicts_addedD [OF R1(2)]
  have base1: "base < rs_count R1" "reg < rs_count R1" and cf: "conf R1 reg base" using r A1(2,5) by auto
  obtain l where l: "conflict_list (rs_regs R1 ! base) = Some l" "set l = {b. conf R1 base b}"
    using buildingD(3) [OF A1(1) base1(1)] by (auto simp: reg_ok_def conf_def split: option.splits)
  have "(0 :: nat) \<le> length l" by simp
  from transitive_loop_ok [OF A1(1) base1 cf l(1) this] obtain R' where
    R': "transitive_loop base reg 0 R1 = ret R'" "conflicts_added R1 (\<lambda>a b. a = reg \<and> b \<in> set l \<or> a \<in> set l \<and> b = reg) R'"
    by auto
  note A' = conflicts_addedD [OF R'(2)]
  have refl: "conf R base base" "conf R reg reg" using buildingD(4) [OF B] r by auto
  have mem: "x \<in> set l \<longleftrightarrow> conf R base x \<or> x = reg \<or> reg = base \<and> x = base" for x
    using A1(5) [OF r(1), of x] by (auto simp: l(2))
  have "conf R' a b \<longleftrightarrow> conf R a b \<or> a = reg \<and> conf R base b \<or> conf R base a \<and> b = reg" if a: "a < rs_count R" for a b
    using A'(5) [of a b] A1(2) A1(5) [OF a, of b] a refl unfolding mem by auto
  then show ?thesis
    using R1(1) R'(1) A'(1-4) A1(2-4) by (simp add: ra_add_transitive_reg_conflict_def conflicts_added_def)
qed

section \<open>Classes\<close>

lemma alloc_class_ok:
  assumes B: "building R" and a: "ra_alloc_reg_class R = (R', c)"
  shows "building R'" "c = rs_class_count R" "rs_class_count R' = rs_class_count R + 1" "rs_count R' = rs_count R"
    "conf R' = conf R" "\<not> in_class R' c r" "d < c \<Longrightarrow> in_class R' d = in_class R d"
proof -
  note D = buildingD [OF B]
  have R': "R' = R\<lparr>rs_classes := rs_classes R @ [\<lparr>c_regs = replicate (BITSET_WORDS (rs_count R)) 0, c_p = 0, c_q = []\<rparr>],
      rs_class_count := rs_class_count R + 1\<rparr>" and c: "c = rs_class_count R"
    using a by (auto simp: ra_alloc_reg_class_def)
  show "c = rs_class_count R" "rs_class_count R' = rs_class_count R + 1" "rs_count R' = rs_count R" using c R' by simp_all
  show cf: "conf R' = conf R" by (simp add: fun_eq_iff conf_def R')
  show "\<not> in_class R' c r" using D(6) by (simp add: in_class_def R' c nth_append)
  show "d < c \<Longrightarrow> in_class R' d = in_class R d" using D(6) by (simp add: fun_eq_iff in_class_def R' c nth_append)
  have "class_ok (rs_count R) (rs_classes R' ! d)" if "d < rs_class_count R + 1" for d
  proof (cases "d = rs_class_count R")
    case True
    then show ?thesis using D(6) by (simp add: R' nth_append class_ok_def)
  next
    case False
    then show ?thesis using that D(6,7) by (simp add: R' nth_append)
  qed
  moreover have "length (rs_classes R') = rs_class_count R + 1" "rs_regs R' = rs_regs R" "rs_count R' = rs_count R"
    "rs_class_count R' = rs_class_count R + 1" using D(6) by (simp_all add: R')
  ultimately show "building R'" using D(1-5) unfolding building_def cf by simp
qed

lemma class_add_ok:
  assumes B: "building R" and c: "c < rs_class_count R" and r: "r < rs_count R" and new: "\<not> in_class R c r"
  shows "\<exists>R'. ra_class_add_reg R c r = ret R' \<and> building R' \<and> rs_count R' = rs_count R \<and> rs_class_count R' = rs_class_count R \<and>
    conf R' = conf R \<and> (\<forall>d < rs_class_count R. \<forall>a. in_class R' d a \<longleftrightarrow> in_class R d a \<or> d = c \<and> a = r)"
proof -
  note D = buildingD [OF B]
  let ?cl = "rs_classes R ! c"
  note K = D(7) [OF c, unfolded class_ok_def]
  obtain bs where bs: "BITSET_SET (c_regs ?cl) r = ret bs" "length bs = BITSET_WORDS (rs_count R)"
    "\<And>a. bmem bs a \<longleftrightarrow> a = r \<or> bmem (c_regs ?cl) a"
    using BITSET_SET_eq [of r "c_regs ?cl"] WORDS_enough [OF r] K by auto
  define R' where "R' = R\<lparr>rs_classes := (rs_classes R)[c := ?cl\<lparr>c_regs := bs, c_p := c_p ?cl + 1\<rparr>]\<rparr>"
  have run: "ra_class_add_reg R c r = ret R'" using c D(6) bs(1) by (simp add: ra_class_add_reg_def R'_def)
  have cf: "conf R' = conf R" by (simp add: fun_eq_iff conf_def R'_def)
  have ic: "in_class R' d a \<longleftrightarrow> in_class R d a \<or> d = c \<and> a = r" if "d < rs_class_count R" for d a
    using that c D(6) bs(3) by (auto simp: in_class_def R'_def nth_list_update)
  have "{a. bmem (c_regs ?cl) a} \<subseteq> {..<rs_count R} - {r}" using K new by (auto simp: in_class_def)
  then have "card {a. bmem (c_regs ?cl) a} \<le> card ({..<rs_count R} - {r})" by (rule card_mono [rotated]) simp
  then have small: "card {a. bmem (c_regs ?cl) a} < 2 ^ 31" using r D(2) by simp
  have "{a. bmem (c_regs ?cl) a} \<subseteq> {..<rs_count R}" using K by blast
  then have fin: "finite {a. bmem (c_regs ?cl) a}" by (rule finite_subset) simp
  have "{a. bmem bs a} = insert r {a. bmem (c_regs ?cl) a}" using bs(3) by auto
  then have "card {a. bmem bs a} = card {a. bmem (c_regs ?cl) a} + 1" using fin new by (simp add: in_class_def)
  moreover have "unat (c_p ?cl + 1) = unat (c_p ?cl) + 1" using K small by (simp add: unat_word_ariths)
  ultimately have "class_ok (rs_count R) (?cl\<lparr>c_regs := bs, c_p := c_p ?cl + 1\<rparr>)"
    using K bs(2,3) r by (auto simp: class_ok_def)
  then have cls: "class_ok (rs_count R) (rs_classes R' ! d)" if "d < rs_class_count R" for d
    using that c D(6,7) by (auto simp: R'_def nth_list_update)
  have R': "length (rs_classes R') = rs_class_count R" "rs_regs R' = rs_regs R" "rs_count R' = rs_count R"
    "rs_class_count R' = rs_class_count R" using D(6) by (simp_all add: R'_def)
  have "building R'" using D(1-5) cls unfolding building_def cf R' by simp
  then show ?thesis using run cf ic by (auto simp: R')
qed

section \<open>The values of q\<close>

abbreviation shared :: "ra_regs \<Rightarrow> nat \<Rightarrow> nat \<Rightarrow> nat set" where
  "shared R b r \<equiv> {r'. in_class R b r' \<and> conf R r r'}"

lemma fold_run_ret: "(\<And>x s. x \<in> set xs \<Longrightarrow> f x s = ret (h x s)) \<Longrightarrow> fold_run f xs s = ret (fold h xs s)"
  by (induction xs arbitrary: s) auto

lemma fold_count: "fold (\<lambda>x n. if P x then n + 1 else n) xs (n :: nat) = n + length (filter P xs)"
  by (induction xs arbitrary: n) auto

lemma count_conflicts_ok:
  assumes B: "building R" and r: "r < rs_count R" and b: "b < rs_class_count R"
  shows "count_conflicts (rs_classes R ! b) (rs_regs R ! r) = ret (card (shared R b r))"
proof -
  let ?reg = "rs_regs R ! r" and ?cb = "rs_classes R ! b"
  note D = buildingD [OF B]
  obtain l where l: "conflict_list ?reg = Some l" "num_conflicts ?reg = length l" "distinct l"
    "set l = {r'. conf R r r'}" "\<forall>r'\<in>set l. r' < rs_count R"
    using D(3) [OF r] by (auto simp: reg_ok_def conf_def split: option.splits)
  have test: "reg_belongs_to_class r' ?cb = ret (in_class R b r')" if "r' \<in> set l" for r'
    using D(7) [OF b] l(5) that WORDS_enough [of r' "rs_count R"]
    by (simp add: reg_belongs_to_class_def BITSET_TEST_eq in_class_def class_ok_def)
  have "count_conflicts ?cb ?reg =
      fold_run (\<lambda>r' n. bind_run (reg_belongs_to_class r' ?cb) (\<lambda>b. ret (if b then n + 1 else n))) l 0"
    by (simp add: count_conflicts_def l(1,2) fold_run_fetch)
  also have "\<dots> = ret (fold (\<lambda>r' n. if in_class R b r' then n + 1 else n) l 0)"
    by (rule fold_run_ret) (simp add: test)
  also have "\<dots> = ret (card (set (filter (in_class R b) l)))"
    using distinct_card [of "filter (in_class R b) l"] l(3) by (simp only: fold_count) simp
  finally show ?thesis using l(4) by (simp add: Int_def conj_commute)
qed

lemma fold_max_bounds:
  fixes N :: "nat \<Rightarrow> nat" and P :: "nat \<Rightarrow> bool"
  defines "M \<equiv> \<lambda>xs m. fold (\<lambda>x m. if P x then max m (N x) else m) xs m"
  shows fold_max_ge: "m \<le> M xs m" and fold_max_upper: "x \<in> set xs \<Longrightarrow> P x \<Longrightarrow> N x \<le> M xs m"
    and fold_max_attained: "M xs m = m \<or> (\<exists>x\<in>set xs. P x \<and> M xs m = N x)"
proof -
  show ge: "m \<le> M xs m" for xs m
    unfolding M_def by (induction xs arbitrary: m) (auto intro: order_trans [OF max.cobounded1])
  show "x \<in> set xs \<Longrightarrow> P x \<Longrightarrow> N x \<le> M xs m"
  proof (induction xs arbitrary: m)
    case (Cons y ys)
    show ?case
    proof (cases "x = y")
      case True
      then show ?thesis using Cons.prems(2) ge [of "max m (N y)" ys] by (simp add: M_def)
    next
      case False
      then show ?thesis using Cons by (simp add: M_def)
    qed
  qed simp
  show "M xs m = m \<or> (\<exists>x\<in>set xs. P x \<and> M xs m = N x)"
  proof (induction xs arbitrary: m)
    case (Cons y ys)
    then show ?case using Cons.IH [of "max m (N y)"] Cons.IH [of m] by (auto simp: M_def max_def split: if_splits)
  qed (simp add: M_def)
qed

text \<open>q(B,C) is the largest number of registers of B that a single register of C conflicts with.\<close>

definition is_q :: "ra_regs \<Rightarrow> nat \<Rightarrow> nat \<Rightarrow> nat \<Rightarrow> bool" where
  "is_q R b c q \<longleftrightarrow> (\<forall>r. in_class R c r \<longrightarrow> card (shared R b r) \<le> q) \<and>
     (q = 0 \<or> (\<exists>r. in_class R c r \<and> q = card (shared R b r)))"

lemma compute_q_ok:
  assumes B: "building R" and b: "b < rs_class_count R" and c: "c < rs_class_count R"
  shows "\<exists>q. compute_q R (rs_classes R ! b) (rs_classes R ! c) = ret q \<and> is_q R b c (unat q)"
proof -
  note D = buildingD [OF B]
  let ?N = "\<lambda>r. card (shared R b r)"
  let ?q = "fold (\<lambda>r m. if in_class R c r then max m (?N r) else m) [0..<rs_count R] 0"
  have test: "reg_belongs_to_class r (rs_classes R ! c) = ret (in_class R c r)" if "r < rs_count R" for r
    using D(7) [OF c] that WORDS_enough [of r "rs_count R"]
    by (simp add: reg_belongs_to_class_def BITSET_TEST_eq in_class_def class_ok_def)
  have run: "compute_q R (rs_classes R ! b) (rs_classes R ! c) = ret (of_nat ?q)"
    unfolding compute_q_def
    by (subst fold_run_ret [where h = "\<lambda>r m. if in_class R c r then max m (?N r) else m"])
      (use D(1) in \<open>simp_all add: test count_conflicts_ok [OF B _ b]\<close>)
  have lt: "r < rs_count R" if "in_class R c r" for r
    using D(7) [OF c] that by (simp add: class_ok_def in_class_def)
  have upper: "?N r \<le> ?q" if "in_class R c r" for r
    using fold_max_upper [of r "[0..<rs_count R]" "in_class R c" ?N 0] lt [OF that] that by simp
  have att: "?q = 0 \<or> (\<exists>r. in_class R c r \<and> ?q = ?N r)"
    using fold_max_attained [where xs = "[0..<rs_count R]" and P = "in_class R c" and N = ?N and m = 0] by blast
  have "shared R b r \<subseteq> {..<rs_count R}" for r
    using D(7) [OF b] by (auto simp: class_ok_def in_class_def)
  then have "?N r \<le> rs_count R" for r
    using card_mono [of "{..<rs_count R}" "shared R b r"] by simp
  then have "?q \<le> rs_count R" using att by (elim disjE exE conjE) (simp_all only: le0)
  then have "unat (of_nat ?q :: u32) = ?q" using D(2) by (simp add: unsigned_of_nat take_bit_nat_eq_self)
  then show ?thesis using run upper att by (auto simp: is_q_def)
qed

section \<open>Finalisation\<close>

lemma finalize_ok:
  assumes B: "building R"
  shows "\<exists>R'. ra_set_finalize R None = ret R' \<and> regs_ok R' \<and> rs_count R' = rs_count R \<and>
    rs_class_count R' = rs_class_count R \<and> (\<forall>r < rs_count R. \<forall>r'. conf R' r r' = conf R r r') \<and>
    (\<forall>c < rs_class_count R. (\<forall>r. in_class R' c r = in_class R c r) \<and> pv R' c = card {r. in_class R c r}) \<and>
    (\<forall>b < rs_class_count R. \<forall>c < rs_class_count R. is_q R b c (qv R' b c))"
proof -
  note D = buildingD [OF B]
  let ?n = "rs_class_count R"
  have "\<forall>b. \<exists>f. \<forall>c. b < ?n \<and> c < ?n \<longrightarrow> compute_q R (rs_classes R ! b) (rs_classes R ! c) = ret (f c) \<and> is_q R b c (unat (f c))"
    using compute_q_ok [OF B] by (intro allI choice) blast
  from choice [OF this] obtain q where
    q: "\<And>b c. b < ?n \<Longrightarrow> c < ?n \<Longrightarrow> compute_q R (rs_classes R ! b) (rs_classes R ! c) = ret (q b c) \<and> is_q R b c (unat (q b c))"
    by blast
  define cls where "cls = map (\<lambda>b. (rs_classes R ! b)\<lparr>c_q := map (q b) [0..<?n]\<rparr>) [0..<?n]"
  define R' where "R' = R\<lparr>rs_classes := cls, rs_regs := map (\<lambda>reg. reg\<lparr>conflict_list := None\<rparr>) (rs_regs R)\<rparr>"
  have row: "map_run (\<lambda>c. bind_run (fetch (rs_classes R) c) (\<lambda>cc. compute_q R (rs_classes R ! b) cc)) [0..<?n] =
      ret (map (q b) [0..<?n])" if "b < ?n" for b
    by (rule map_run_ret) (use that q D(6) in auto)
  have "map_run (\<lambda>b. bind_run (fetch (rs_classes R) b) (\<lambda>cb. bind_run (map_run (\<lambda>c.
      bind_run (fetch (rs_classes R) c) (\<lambda>cc. compute_q R cb cc)) [0..<?n]) (\<lambda>qs. ret (cb\<lparr>c_q := qs\<rparr>)))) [0..<?n] = ret cls"
    unfolding cls_def by (rule map_run_ret) (use D(6) row in auto)
  then have run: "ra_set_finalize R None = ret R'" by (simp add: ra_set_finalize_def R'_def)
  have cf: "conf R' r r' = conf R r r'" if "r < rs_count R" for r r' using that D(1) by (simp add: conf_def R'_def)
  have ic: "in_class R' c r = in_class R c r" "pv R' c = card {r. in_class R c r}" if "c < ?n" for c r
    using that D(7) [OF that] by (simp_all add: in_class_def pv_def R'_def cls_def class_ok_def)
  have iq: "is_q R b c (qv R' b c)" if "b < ?n" "c < ?n" for b c
    using q [OF that] that by (simp add: qv_def R'_def cls_def)
  have "regs_ok R'"
    unfolding regs_ok_def using D(1,2,5,6) D(3) D(7) cf ic(1)
    by (simp add: R'_def cls_def reg_ok_def class_ok_def in_class_def)
  then show ?thesis using run cf ic iq by (intro exI [of _ R']) (simp add: R'_def)
qed

lemma finalize_pq_sound:
  assumes B: "building R" and run: "ra_set_finalize R None = ret R'"
  shows "regs_ok R'" "pq_sound R'"
proof -
  have F: "regs_ok R'" "rs_count R' = rs_count R" "rs_class_count R' = rs_class_count R"
    "\<And>r r'. r < rs_count R \<Longrightarrow> conf R' r r' = conf R r r'"
    "\<And>c r. c < rs_class_count R \<Longrightarrow> in_class R' c r = in_class R c r"
    "\<And>c. c < rs_class_count R \<Longrightarrow> pv R' c = card {r. in_class R c r}"
    "\<And>b c. b < rs_class_count R \<Longrightarrow> c < rs_class_count R \<Longrightarrow> is_q R b c (qv R' b c)"
    using finalize_ok [OF B] run by auto
  show "regs_ok R'" by (rule F(1))
  have lt: "r < rs_count R" if "c < rs_class_count R" "in_class R c r" for c r
    using buildingD(7) [OF B that(1)] that(2) by (simp add: class_ok_def in_class_def)
  have ic: "in_class R' c = in_class R c" if "c < rs_class_count R" for c using F(5) [OF that] by blast
  show "pq_sound R'"
    unfolding pq_sound_def F(3) using F(4,6,7) ic lt by (auto simp: is_q_def)
qed

section \<open>Making conflicts transitive\<close>

text \<open>One step of \<open>ra_make_reg_conflicts_transitive\<close>: the conflicts of \<open>r\<close> are added to those of \<open>c\<close>.\<close>

definition widen :: "nat \<Rightarrow> nat \<Rightarrow> ra_regs \<Rightarrow> ra_regs" where
  "widen r c R = R\<lparr>rs_regs := (rs_regs R)[c := (rs_regs R ! c)\<lparr>conflicts :=
     map2 (\<lambda>a b. a OR b) (conflicts (rs_regs R ! c)) (conflicts (rs_regs R ! r))\<rparr>]\<rparr>"

definition rows_ok :: "nat \<Rightarrow> ra_regs \<Rightarrow> bool" where
  "rows_ok n R \<longleftrightarrow> length (rs_regs R) = n \<and> (\<forall>a < n. length (conflicts (rs_regs R ! a)) = BITSET_WORDS n)"

lemma widen_ok:
  assumes "rows_ok n R" "r < n" "c < n"
  shows "rows_ok n (widen r c R)" "a < n \<Longrightarrow> conf (widen r c R) a b \<longleftrightarrow> conf R a b \<or> a = c \<and> conf R r b"
    "a < n \<Longrightarrow> conflict_list (rs_regs (widen r c R) ! a) = conflict_list (rs_regs R ! a)"
    "conf (widen r c R) r = conf R r"
proof -
  show "rows_ok n (widen r c R)" and mem: "a < n \<Longrightarrow> conf (widen r c R) a b \<longleftrightarrow> conf R a b \<or> a = c \<and> conf R r b" for a b
    using assms by (auto simp: rows_ok_def widen_def conf_def nth_list_update bmem_map2)
  show "a < n \<Longrightarrow> conflict_list (rs_regs (widen r c R) ! a) = conflict_list (rs_regs R ! a)"
    using assms by (auto simp: rows_ok_def widen_def nth_list_update)
  show "conf (widen r c R) r = conf R r" using mem [OF assms(2)] by (auto simp: fun_eq_iff)
qed

lemma widen_fold:
  assumes "rows_ok n R" "r < n" "\<And>c. c \<in> set cs \<Longrightarrow> c < n"
  shows "\<exists>R'. fold_run (\<lambda>c regs.
       bind_run (fetch (rs_regs regs) r) (\<lambda>reg. bind_run (fetch (rs_regs regs) c) (\<lambda>other.
       ret (regs\<lparr>rs_regs := (rs_regs regs)[c := other\<lparr>conflicts := map2 (\<lambda>a b. a OR b) (conflicts other) (conflicts reg)\<rparr>]\<rparr>)))) cs R = ret R' \<and>
     (\<forall>a < n. conflict_list (rs_regs R' ! a) = conflict_list (rs_regs R ! a) \<and>
       (\<forall>b. conf R' a b \<longleftrightarrow> conf R a b \<or> a \<in> set cs \<and> conf R r b))"
  using assms
proof (induction cs arbitrary: R)
  case (Cons c cs)
  have c: "c < n" using Cons.prems(3) by simp
  note w = widen_ok [OF Cons.prems(1,2) c]
  have "bind_run (fetch (rs_regs R) r) (\<lambda>reg. bind_run (fetch (rs_regs R) c) (\<lambda>other.
       ret (R\<lparr>rs_regs := (rs_regs R)[c := other\<lparr>conflicts := map2 (\<lambda>a b. a OR b) (conflicts other) (conflicts reg)\<rparr>]\<rparr>))) =
     ret (widen r c R)"
    using Cons.prems(1,2) c by (simp add: widen_def rows_ok_def)
  then show ?case using Cons.IH [OF w(1) Cons.prems(2)] Cons.prems(3) w(2-4) by auto
qed simp

lemma make_transitive_ok:
  assumes B: "building R" and r: "r < rs_count R"
  shows "\<exists>R'. ra_make_reg_conflicts_transitive R r = ret R' \<and>
    (\<forall>a < rs_count R. conflict_list (rs_regs R' ! a) = conflict_list (rs_regs R ! a) \<and>
       (\<forall>b. conf R' a b \<longleftrightarrow> conf R a b \<or> conf R r a \<and> conf R r b))"
proof -
  let ?n = "rs_count R" and ?cs = "filter (conf R r) [0..<rs_count R]"
  note D = buildingD [OF B]
  have rows: "rows_ok ?n R" using D(1,3) by (simp add: rows_ok_def reg_ok_def)
  have each: "BITSET_FOREACH_SET (conflicts (rs_regs R ! r)) ?n = ret ?cs"
    using foreach_set_members [of "conflicts (rs_regs R ! r)" ?n] rows r by (simp add: rows_ok_def conf_def [abs_def])
  have mem: "a \<in> set ?cs \<longleftrightarrow> conf R r a" for a using conf_less [OF B r] by auto
  have lt: "\<And>c. c \<in> set ?cs \<Longrightarrow> c < ?n" by simp
  from widen_fold [where cs = ?cs, OF rows r lt] show ?thesis
    unfolding mem using each r D(1) by (auto simp: ra_make_reg_conflicts_transitive_def)
qed

end
