(* ===== verification/Ra_Build.thy ===== *)
theory Ra_Build
  imports Ra_Allocate Ra_Regs
begin

text \<open>
  Building an interference graph: the operations that a client calls before \<open>ra_allocate\<close> keep
  the adjacency bit sets and lists equal and symmetric and the q totals exact, so that every graph they
  build can be allocated.
\<close>

section \<open>Graphs under construction\<close>

definition node_linked :: "ra_graph \<Rightarrow> nat \<Rightarrow> bool" where
  "node_linked g n \<longleftrightarrow> length (adjacency (node g n)) = BITSET_WORDS (g_count g) \<and>
     (\<forall>m. bmem (adjacency (node g n)) m = (m \<in> set (nbrs g n))) \<and> unat (q_total (node g n)) = qsum g {} n"

definition linked :: "ra_graph \<Rightarrow> bool" where
  "linked g \<longleftrightarrow> graph_ok g \<and> g_stack_count g = 0 \<and> (\<forall>n < g_count g. node_linked g n)"

text \<open>No sum of q values of the graph overflows.\<close>

definition q_bounded :: "ra_graph \<Rightarrow> bool" where
  "q_bounded g \<longleftrightarrow> g_count g * rs_count (g_regs g) < UINT_MAX \<and>
     (\<forall>b < rs_class_count (g_regs g). \<forall>c < rs_class_count (g_regs g). qv (g_regs g) b c \<le> rs_count (g_regs g))"

lemma qsum_bound:
  assumes ok: "graph_ok g" and b: "q_bounded g" and n: "n < g_count g"
  shows "qsum g S n < UINT_MAX"
proof -
  note A = adjacent_okD [OF graph_okD(8) [OF ok n]]
  have cl: "nd_class (node g m) < rs_class_count (g_regs g)" if "m \<in> set (nbrs g n)" for m
    using adjacent_okD(4) [OF graph_okD(8) [OF ok A(5) [OF that]]] .
  have "qsum g S n \<le> qsum g {} n" by (rule qsum_antimono) simp
  also have "\<dots> \<le> (\<Sum>m\<in>set (nbrs g n). rs_count (g_regs g))"
    unfolding qsum_def Diff_empty by (rule sum_mono) (use b A(4) cl in \<open>simp add: q_bounded_def\<close>)
  also have "\<dots> \<le> g_count g * rs_count (g_regs g)"
    using card_mono [of "{..<g_count g}" "set (nbrs g n)"] A(5) by (auto intro: mult_le_mono1)
  finally show ?thesis using b by (simp add: q_bounded_def)
qed

lemma linkedD:
  assumes "linked g"
  shows "graph_ok g" "g_stack_count g = 0" "n < g_count g \<Longrightarrow> length (adjacency (node g n)) = BITSET_WORDS (g_count g)"
    "n < g_count g \<Longrightarrow> bmem (adjacency (node g n)) m = (m \<in> set (nbrs g n))"
    "n < g_count g \<Longrightarrow> unat (q_total (node g n)) = qsum g {} n" "stacked g = []" "n < g_count g \<Longrightarrow> \<not> in_stack (node g n)"
proof -
  show *: "graph_ok g" "g_stack_count g = 0" "n < g_count g \<Longrightarrow> length (adjacency (node g n)) = BITSET_WORDS (g_count g)"
    "n < g_count g \<Longrightarrow> bmem (adjacency (node g n)) m = (m \<in> set (nbrs g n))"
    "n < g_count g \<Longrightarrow> unat (q_total (node g n)) = qsum g {} n"
    using assms by (auto simp: linked_def node_linked_def)
  show st: "stacked g = []" using *(2) by (simp add: stacked_def)
  show "n < g_count g \<Longrightarrow> \<not> in_stack (node g n)" using graph_okD(7) [OF *(1)] st by auto
qed

lemma linkedI:
  assumes "regs_ok (g_regs g)" "length (g_nodes g) = g_count g" "length (g_stack g) = g_count g" "g_count g \<le> 2 ^ 31"
    "g_stack_count g = 0"
    "\<And>n. n < g_count g \<Longrightarrow> adjacent_ok g n \<and> node_linked g n \<and> \<not> in_stack (node g n)"
  shows "linked g"
  using assms by (auto simp: linked_def graph_ok_def stacked_def)

lemma linked_allocatable:
  assumes l: "linked g" and b: "q_bounded g"
    and forced: "\<And>n. n < g_count g \<Longrightarrow> nd_reg (node g n) \<noteq> NO_REG \<Longrightarrow> nd_reg (node g n) < rs_count (g_regs g) \<and>
      (\<forall>m\<in>set (nbrs g n). nd_reg (node g m) \<noteq> NO_REG \<longrightarrow> \<not> conf (g_regs g) (nd_reg (node g n)) (nd_reg (node g m)))"
  shows "allocatable g"
proof -
  note L = linkedD [OF l]
  have "q_ok g" using qsum_bound [OF L(1) b] L(5,6) by (simp add: q_ok_def)
  then show ?thesis using L(1,2) forced by (simp add: allocatable_def)
qed

section \<open>The operations\<close>

lemma alloc_graph_linked:
  assumes "regs_ok R" "0 < rs_class_count R" "count \<le> 2 ^ 31"
  shows "linked (ra_alloc_interference_graph R count)"
  using assms by (intro linkedI) (simp_all add: ra_alloc_interference_graph_def adjacent_ok_def node_linked_def qsum_def)

text \<open>
  The class of a node may change as long as no q total depends on it: the node has no
  neighbours yet, or the two classes have the same q values with those of its neighbours.
\<close>

definition class_change_ok :: "ra_graph \<Rightarrow> nat \<Rightarrow> nat \<Rightarrow> bool" where
  "class_change_ok g n c \<longleftrightarrow> (\<forall>m\<in>set (nbrs g n).
     qv (g_regs g) c (nd_class (node g m)) = qv (g_regs g) (nd_class (node g n)) (nd_class (node g m)) \<and>
     qv (g_regs g) (nd_class (node g m)) c = qv (g_regs g) (nd_class (node g m)) (nd_class (node g n)))"

lemma set_node_class_linked:
  assumes l: "linked g" and n: "n < g_count g" and c: "c < rs_class_count (g_regs g)" and same: "class_change_ok g n c"
  shows "\<exists>g'. ra_set_node_class g n c = ret g' \<and> linked g' \<and> g' = g\<lparr>g_nodes := (g_nodes g)[n := (node g n)\<lparr>nd_class := c\<rparr>]\<rparr>"
proof -
  note L = linkedD [OF l] and G = graph_okD [OF linkedD(1) [OF l]]
  define g' where "g' = g\<lparr>g_nodes := (g_nodes g)[n := (node g n)\<lparr>nd_class := c\<rparr>]\<rparr>"
  have g': "g_regs g' = g_regs g" "g_count g' = g_count g" "length (g_nodes g') = g_count g" "g_stack g' = g_stack g"
    "g_stack_count g' = 0" using G(2) L(2) by (simp_all add: g'_def)
  have nd: "nbrs g' m = nbrs g m" "adjacency (node g' m) = adjacency (node g m)" "q_total (node g' m) = q_total (node g m)"
    "adjacency_count (node g' m) = adjacency_count (node g m)" "in_stack (node g' m) = in_stack (node g m)"
    "nd_class (node g' m) = (if m = n then c else nd_class (node g m))" if "m < g_count g" for m
    using that n G(2) by (auto simp: g'_def nth_list_update)
  have "adjacent_ok g' m \<and> node_linked g' m \<and> \<not> in_stack (node g' m)" if m: "m < g_count g" for m
  proof -
    note A = adjacent_okD [OF G(8) [OF m]]
    have "qv (g_regs g) (nd_class (node g' m)) (nd_class (node g' k)) = qv (g_regs g) (nd_class (node g m)) (nd_class (node g k))"
      if k: "k \<in> set (nbrs g m)" for k
      using same A(3) A(6) [OF k] nd(6) [OF m] nd(6) [OF A(5) [OF k]] k unfolding class_change_ok_def
      by (cases "m = n"; cases "k = n") auto
    then have "qsum g' {} m = qsum g {} m"
      unfolding qsum_def using nd(1) [OF m] g'(1) by (auto intro!: sum.cong)
    then show ?thesis
      using L(3-5,7) [OF m] nd [OF m] nd(1) A g'(1,2) c by (auto simp: adjacent_ok_def node_linked_def)
  qed
  then have "linked g'" using G(1,3,4) g' by (intro linkedI) simp_all
  moreover have "ra_set_node_class g n c = ret g'" using n G(2) by (simp add: ra_set_node_class_def g'_def)
  ultimately show ?thesis by (simp add: g'_def)
qed

lemma set_node_reg_linked:
  assumes l: "linked g" and n: "n < g_count g"
  shows "\<exists>g'. ra_set_node_reg g n r = ret g' \<and> linked g' \<and>
    g' = g\<lparr>g_nodes := (g_nodes g)[n := (node g n)\<lparr>nd_reg := r, in_stack := False\<rparr>]\<rparr>"
proof -
  note L = linkedD [OF l] and G = graph_okD [OF linkedD(1) [OF l]]
  define g' where "g' = g\<lparr>g_nodes := (g_nodes g)[n := (node g n)\<lparr>nd_reg := r, in_stack := False\<rparr>]\<rparr>"
  have g': "g_regs g' = g_regs g" "g_count g' = g_count g" "length (g_nodes g') = g_count g" "g_stack g' = g_stack g"
    "g_stack_count g' = 0" using G(2) L(2) by (simp_all add: g'_def)
  have nd: "nbrs g' m = nbrs g m" "adjacency (node g' m) = adjacency (node g m)" "q_total (node g' m) = q_total (node g m)"
    "adjacency_count (node g' m) = adjacency_count (node g m)" "nd_class (node g' m) = nd_class (node g m)"
    "\<not> in_stack (node g' m)" if "m < g_count g" for m
    using that n G(2) L(7) by (auto simp: g'_def nth_list_update)
  have "adjacent_ok g' m \<and> node_linked g' m \<and> \<not> in_stack (node g' m)" if m: "m < g_count g" for m
  proof -
    note A = adjacent_okD [OF G(8) [OF m]]
    have "qsum g' {} m = qsum g {} m"
      unfolding qsum_def using nd [OF m] nd(5) A(5) g'(1) by (auto intro!: sum.cong)
    then show ?thesis
      using L(3-5) [OF m] nd [OF m] nd(1) A g'(1,2) by (auto simp: adjacent_ok_def node_linked_def)
  qed
  then have "linked g'" using G(1,3,4) g' by (intro linkedI) simp_all
  moreover have "ra_set_node_reg g n r = ret g'" using n G(2) by (simp add: ra_set_node_reg_def g'_def)
  ultimately show ?thesis by (simp add: g'_def)
qed

section \<open>Interferences\<close>

text \<open>A node with one more neighbour.\<close>

definition joins :: "ra_graph \<Rightarrow> nat \<Rightarrow> nat \<Rightarrow> ra_node \<Rightarrow> bool" where
  "joins g n m nd \<longleftrightarrow> adjacency_list nd = nbrs g n @ [m] \<and> adjacency_count nd = adjacency_count (node g n) + 1 \<and>
     length (adjacency nd) = BITSET_WORDS (g_count g) \<and> (\<forall>k. bmem (adjacency nd) k \<longleftrightarrow> k = m \<or> k \<in> set (nbrs g n)) \<and>
     nd_class nd = nd_class (node g n) \<and> nd_reg nd = nd_reg (node g n) \<and> in_stack nd = in_stack (node g n) \<and>
     q_total nd = q_total (node g n) + c_q (rs_classes (g_regs g) ! nd_class (node g n)) ! nd_class (node g m)"

lemma joinsD:
  assumes "joins g n m nd"
  shows "adjacency_list nd = nbrs g n @ [m]" "adjacency_count nd = adjacency_count (node g n) + 1"
    "length (adjacency nd) = BITSET_WORDS (g_count g)" "bmem (adjacency nd) k \<longleftrightarrow> k = m \<or> k \<in> set (nbrs g n)"
    "nd_class nd = nd_class (node g n)" "nd_reg nd = nd_reg (node g n)" "in_stack nd = in_stack (node g n)"
    "q_total nd = q_total (node g n) + c_q (rs_classes (g_regs g) ! nd_class (node g n)) ! nd_class (node g m)"
  using assms by (auto simp: joins_def)

lemma add_node_adjacency_ok:
  assumes l: "linked g" and n: "n1 < g_count g" "n2 < g_count g" "n1 \<noteq> n2" and h: "h = g \<or> h = g\<lparr>g_nodes := (g_nodes g)[n2 := x]\<rparr>"
    and x: "nd_class x = nd_class (node g n2)"
  shows "\<exists>nd. joins g n1 n2 nd \<and> ra_add_node_adjacency h n1 n2 = ret (h\<lparr>g_nodes := (g_nodes h)[n1 := nd]\<rparr>)"
proof -
  note L = linkedD [OF l] and G = graph_okD [OF linkedD(1) [OF l]]
  have h1: "node h n1 = node g n1" "nd_class (node h n2) = nd_class (node g n2)" "length (g_nodes h) = g_count g" "g_regs h = g_regs g"
    using h n x G(2) by auto
  note cl = adjacent_okD(4) [OF G(8) [OF n(1)]] adjacent_okD(4) [OF G(8) [OF n(2)]]
  obtain bs where bs: "BITSET_SET (adjacency (node g n1)) n2 = ret bs" "length bs = BITSET_WORDS (g_count g)"
    "\<And>k. bmem bs k \<longleftrightarrow> k = n2 \<or> bmem (adjacency (node g n1)) k"
    using BITSET_SET_eq [of n2 "adjacency (node g n1)"] WORDS_enough [OF n(2)] L(3) [OF n(1)] by auto
  let ?q = "c_q (rs_classes (g_regs g) ! nd_class (node g n1)) ! nd_class (node g n2)"
  let ?nd = "(node g n1)\<lparr>adjacency := bs, q_total := q_total (node g n1) + ?q,
     adjacency_list_size := (if adjacency_count (node g n1) \<ge> adjacency_list_size (node g n1)
        then adjacency_list_size (node g n1) * 2 else adjacency_list_size (node g n1)),
     adjacency_list := nbrs g n1 @ [n2], adjacency_count := adjacency_count (node g n1) + 1\<rparr>"
  have "joins g n1 n2 ?nd" using bs(2,3) L(4) [OF n(1)] by (simp add: joins_def)
  moreover have "ra_add_node_adjacency h n1 n2 = ret (h\<lparr>g_nodes := (g_nodes h)[n1 := ?nd]\<rparr>)"
    using n h1 bs(1) q_value_ok [OF G(1) cl] by (simp add: ra_add_node_adjacency_def)
  ultimately show ?thesis by blast
qed

lemma joined_linked:
  assumes l: "linked g" and b: "q_bounded g" and n: "n1 < g_count g" "n2 < g_count g" "n1 \<noteq> n2" and new: "n2 \<notin> set (nbrs g n1)"
    and j: "joins g n1 n2 e1" "joins g n2 n1 e2"
  defines "g' \<equiv> g\<lparr>g_nodes := (g_nodes g)[n1 := e1, n2 := e2]\<rparr>"
  shows "linked g'"
proof -
  note L = linkedD [OF l] and G = graph_okD [OF linkedD(1) [OF l]]
  have g': "g_regs g' = g_regs g" "g_count g' = g_count g" "length (g_nodes g') = g_count g" "g_stack g' = g_stack g"
    "g_stack_count g' = 0" using G(2) L(2) by (simp_all add: g'_def)
  have at: "node g' n1 = e1" "node g' n2 = e2" "\<And>m. m \<noteq> n1 \<Longrightarrow> m \<noteq> n2 \<Longrightarrow> node g' m = node g m"
    using n G(2) by (simp_all add: g'_def)
  have cls: "nd_class (node g' m) = nd_class (node g m)" for m
    using at j [THEN joinsD(5)] by (cases "m = n1"; cases "m = n2") auto
  have new': "n1 \<notin> set (nbrs g n2)" using adjacent_sym [OF L(1) n(1,2)] new by simp
  let ?other = "\<lambda>m. if m = n1 then n2 else n1"
  have set': "set (nbrs g' m) = (if m = n1 \<or> m = n2 then insert (?other m) (set (nbrs g m)) else set (nbrs g m))" for m
    using at j [THEN joinsD(1)] n(3) by auto
  then have mem': "k \<in> set (nbrs g' m) \<longleftrightarrow> k \<in> set (nbrs g m) \<or> m = n1 \<and> k = n2 \<or> m = n2 \<and> k = n1" for k m
    using n(3) by auto
  have adj: "adjacent_ok g' m" if m: "m < g_count g" for m
  proof -
    note A = adjacent_okD [OF G(8) [OF m]]
    have d: "distinct (nbrs g' m) \<and> adjacency_count (node g' m) = length (nbrs g' m)"
      using at j [THEN joinsD(1)] j [THEN joinsD(2)] A(1,2) new new' by (cases "m = n1"; cases "m = n2") auto
    have s: "m \<notin> set (nbrs g' m)" using A(3) n(3) unfolding mem' by blast
    have sy: "k < g_count g \<and> m \<in> set (nbrs g' k)" if "k \<in> set (nbrs g' m)" for k
      using that A(5) [of k] A(6) [of k] n unfolding mem' by blast
    show ?thesis unfolding adjacent_ok_def using d s sy A(4) cls g'(1,2) by simp
  qed
  have qs: "qsum g' {} m = qsum g {} m +
      (if m = n1 \<or> m = n2 then qv (g_regs g) (nd_class (node g m)) (nd_class (node g (?other m))) else 0)" for m
    using new new' n(3) by (auto simp: qsum_def set' cls g'(1))
  have link: "node_linked g' m" if m: "m < g_count g" for m
  proof (cases "m = n1 \<or> m = n2")
    case True
    then have J: "joins g m (?other m) (node g' m)" using at j n(3) by auto
    have "graph_ok g'"
      using G(1,3,4) g' adj at j [THEN joinsD(7)] L(7) n
      by (simp add: graph_ok_def stacked_def) (metis at(3))
    then have lt: "qsum g' {} m < UINT_MAX" using qsum_bound [of g' m "{}"] b m g' by (simp add: q_bounded_def)
    have "unat (q_total (node g' m)) = unat (q_total (node g m)) + qv (g_regs g) (nd_class (node g m)) (nd_class (node g (?other m)))"
      using joinsD(8) [OF J] lt qs [of m] True L(5) [OF m]
      by (simp add: qv_def UINT_MAX_def unat_word_ariths split del: if_split)
    then have "unat (q_total (node g' m)) = qsum g' {} m" using qs [of m] True L(5) [OF m] by simp
    moreover have "bmem (adjacency (node g' m)) k = (k \<in> set (nbrs g' m))" for k
      using joinsD(1,4) [OF J] by auto
    ultimately show ?thesis unfolding node_linked_def using joinsD(3) [OF J] g'(2) by simp
  next
    case False
    then show ?thesis using L(3-5) [OF m] at(3) [of m] qs [of m] g'(2) by (simp add: node_linked_def)
  qed
  have ns: "\<not> in_stack (node g' m)" if "m < g_count g" for m
    using that at j [THEN joinsD(7)] L(7) n by (cases "m = n1"; cases "m = n2") auto
  show ?thesis using G(1,3,4) g' adj link ns by (intro linkedI) simp_all
qed

definition edges :: "ra_graph \<Rightarrow> (nat \<times> nat) set" where
  "edges g = {(n, m). n < g_count g \<and> m \<in> set (nbrs g n)}"

lemma add_interference_ok:
  assumes l: "linked g" and b: "q_bounded g" and n: "n1 < g_count g" "n2 < g_count g"
  shows "\<exists>g'. ra_add_node_interference g n1 n2 = ret g' \<and> linked g' \<and> g_regs g' = g_regs g \<and> g_count g' = g_count g \<and>
    edges g' = edges g \<union> (if n1 = n2 then {} else {(n1, n2), (n2, n1)}) \<and>
    (\<forall>m. nd_class (node g' m) = nd_class (node g m) \<and> nd_reg (node g' m) = nd_reg (node g m))"
proof -
  note L = linkedD [OF l] and G = graph_okD [OF linkedD(1) [OF l]]
  have t: "BITSET_TEST (adjacency (node g n1)) n2 = ret (n2 \<in> set (nbrs g n1))"
    using L(3,4) [OF n(1)] WORDS_enough [OF n(2)] by (simp add: BITSET_TEST_eq)
  consider (same) "n1 = n2" | (old) "n1 \<noteq> n2" "n2 \<in> set (nbrs g n1)" | (new) "n1 \<noteq> n2" "n2 \<notin> set (nbrs g n1)" by blast
  then show ?thesis
  proof cases
    case same
    then show ?thesis using l by (simp add: ra_add_node_interference_def)
  next
    case old
    then have "ra_add_node_interference g n1 n2 = ret g" using t n G(2) by (simp add: ra_add_node_interference_def)
    moreover have "edges g = edges g \<union> {(n1, n2), (n2, n1)}"
      using old n adjacent_sym [OF L(1) n] by (auto simp: edges_def)
    ultimately show ?thesis using l old(1) by simp
  next
    case new
    obtain e1 where e1: "joins g n1 n2 e1" "ra_add_node_adjacency g n1 n2 = ret (g\<lparr>g_nodes := (g_nodes g)[n1 := e1]\<rparr>)"
      using add_node_adjacency_ok [OF l n new(1), of g "node g n2"] by auto
    let ?h = "g\<lparr>g_nodes := (g_nodes g)[n1 := e1]\<rparr>"
    obtain e2 where e2: "joins g n2 n1 e2" "ra_add_node_adjacency ?h n2 n1 = ret (?h\<lparr>g_nodes := (g_nodes ?h)[n2 := e2]\<rparr>)"
      using add_node_adjacency_ok [OF l n(2,1) new(1) [symmetric], of ?h e1] joinsD(5) [OF e1(1)] by auto
    define g' where "g' = g\<lparr>g_nodes := (g_nodes g)[n1 := e1, n2 := e2]\<rparr>"
    have run: "ra_add_node_interference g n1 n2 = ret g'"
      using t new n G(2) e1(2) e2(2) by (simp add: ra_add_node_interference_def g'_def)
    have at: "node g' n1 = e1" "node g' n2 = e2" "\<And>m. m \<noteq> n1 \<Longrightarrow> m \<noteq> n2 \<Longrightarrow> node g' m = node g m" "g_count g' = g_count g"
      "g_regs g' = g_regs g" using n new(1) G(2) by (simp_all add: g'_def)
    have "linked g'" unfolding g'_def by (rule joined_linked [OF l b n new e1(1) e2(1)])
    moreover have "nd_class (node g' m) = nd_class (node g m) \<and> nd_reg (node g' m) = nd_reg (node g m)" for m
      using at joinsD(5,6) [OF e1(1)] joinsD(5,6) [OF e2(1)] by (cases "m = n1"; cases "m = n2") auto
    moreover have "set (nbrs g' m) = set (nbrs g m) \<union> (if m = n1 then {n2} else if m = n2 then {n1} else {})" for m
      using at joinsD(1) [OF e1(1)] joinsD(1) [OF e2(1)] new(1) by auto
    then have "edges g' = edges g \<union> {(n1, n2), (n2, n1)}"
      using n at(4) by (auto simp: edges_def split: if_splits)
    ultimately show ?thesis using run at(4,5) new(1) by auto
  qed
qed

end
