(* ===== verification/Ra_Clients.thy ===== *)
theory Ra_Clients
  imports Ra_Build "HOL-Library.Code_Target_Nat"
begin

text \<open>
  The calls that clients of the register allocator make: one step relation that builds register
  sets and one that builds interference graphs, the invariants of everything they reach, and a small
  register set and graph built that way.
\<close>

section \<open>Register sets that clients build\<close>

inductive made :: "ra_regs \<Rightarrow> bool" where
  made_new: "count \<le> 2 ^ 31 \<Longrightarrow> ra_alloc_reg_set count True = ret R \<Longrightarrow> made R"
| made_round_robin: "made R \<Longrightarrow> made (ra_set_allocate_round_robin R)"
| made_conflict: "made R \<Longrightarrow> r1 < rs_count R \<Longrightarrow> r2 < rs_count R \<Longrightarrow> ra_add_reg_conflict R r1 r2 = ret R' \<Longrightarrow> made R'"
| made_transitive: "made R \<Longrightarrow> base < rs_count R \<Longrightarrow> reg < rs_count R \<Longrightarrow>
    ra_add_transitive_reg_conflict R base reg = ret R' \<Longrightarrow> made R'"
| made_class: "made R \<Longrightarrow> ra_alloc_reg_class R = (R', c) \<Longrightarrow> made R'"
| made_member: "made R \<Longrightarrow> c < rs_class_count R \<Longrightarrow> r < rs_count R \<Longrightarrow> \<not> in_class R c r \<Longrightarrow>
    ra_class_add_reg R c r = ret R' \<Longrightarrow> made R'"

lemma made_building: "made R \<Longrightarrow> building R"
proof (induction rule: made.induct)
  case (made_new count R)
  then show ?case using alloc_reg_set_ok [of count] by auto
next
  case (made_round_robin R)
  then show ?case by (simp add: building_def conf_def ra_set_allocate_round_robin_def)
next
  case (made_conflict R r1 r2 R')
  then show ?case using add_reg_conflict_ok [of R r1 r2] conflicts_addedD(1) by auto
next
  case (made_transitive R base reg R')
  then show ?case using add_transitive_ok [of R base reg] conflicts_addedD(1) by auto
next
  case (made_class R R' c)
  then show ?case using alloc_class_ok(1) by blast
next
  case (made_member R c r R')
  then show ?case using class_add_ok [of R c r] by auto
qed

text \<open>A register set that is ready for allocation.\<close>

definition reg_set :: "ra_regs \<Rightarrow> bool" where
  "reg_set R \<longleftrightarrow> (\<exists>R0. made R0 \<and> 0 < rs_class_count R0 \<and> ra_set_finalize R0 None = ret R)"

lemma is_q_le:
  assumes B: "building R" and b: "b < rs_class_count R" and q: "is_q R b c q"
  shows "q \<le> rs_count R"
proof -
  have "shared R b r \<subseteq> {..<rs_count R}" for r
    using buildingD(7) [OF B b] by (auto simp: class_ok_def in_class_def)
  then have "card (shared R b r) \<le> rs_count R" for r
    using card_mono [of "{..<rs_count R}" "shared R b r"] by simp
  then show ?thesis using q by (auto simp: is_q_def)
qed

lemma reg_setD:
  assumes "reg_set R"
  shows "regs_ok R" "pq_sound R" "0 < rs_class_count R"
    "b < rs_class_count R \<Longrightarrow> c < rs_class_count R \<Longrightarrow> qv R b c \<le> rs_count R"
proof -
  obtain R0 where R0: "made R0" "0 < rs_class_count R0" "ra_set_finalize R0 None = ret R"
    using assms by (auto simp: reg_set_def)
  note B = made_building [OF R0(1)]
  show "regs_ok R" "pq_sound R" using finalize_pq_sound [OF B R0(3)] by auto
  have F: "rs_count R = rs_count R0" "rs_class_count R = rs_class_count R0"
    "\<And>b c. b < rs_class_count R0 \<Longrightarrow> c < rs_class_count R0 \<Longrightarrow> is_q R0 b c (qv R b c)"
    using finalize_ok [OF B] R0(3) by auto
  show "0 < rs_class_count R" using F R0(2) by simp
  show "b < rs_class_count R \<Longrightarrow> c < rs_class_count R \<Longrightarrow> qv R b c \<le> rs_count R"
    using F(1,2) is_q_le [OF B _ F(3)] by simp
qed

section \<open>Graphs that clients build\<close>

inductive built :: "ra_regs \<Rightarrow> ra_graph \<Rightarrow> bool" for R where
  built_new: "count \<le> 2 ^ 31 \<Longrightarrow> count * rs_count R < UINT_MAX \<Longrightarrow> built R (ra_alloc_interference_graph R count)"
| built_class: "built R g \<Longrightarrow> n < g_count g \<Longrightarrow> c < rs_class_count R \<Longrightarrow> class_change_ok g n c \<Longrightarrow>
    ra_set_node_class g n c = ret g' \<Longrightarrow> built R g'"
| built_interference: "built R g \<Longrightarrow> n1 < g_count g \<Longrightarrow> n2 < g_count g \<Longrightarrow>
    ra_add_node_interference g n1 n2 = ret g' \<Longrightarrow> built R g'"
| built_reg: "built R g \<Longrightarrow> n < g_count g \<Longrightarrow> ra_set_node_reg g n r = ret g' \<Longrightarrow> built R g'"

lemma built_linked:
  assumes R: "reg_set R"
  shows "built R g \<Longrightarrow> linked g \<and> q_bounded g \<and> g_regs g = R"
proof (induction rule: built.induct)
  case (built_new count)
  then show ?case
    using alloc_graph_linked [OF reg_setD(1,3) [OF R]] reg_setD(4) [OF R]
    by (simp add: q_bounded_def ra_alloc_interference_graph_def)
next
  case (built_class g n c g')
  then show ?case using set_node_class_linked [of g n c] by (auto simp: q_bounded_def)
next
  case (built_interference g n1 n2 g')
  then show ?case using add_interference_ok [of g n1 n2] by (auto simp: q_bounded_def)
next
  case (built_reg g n r g')
  then show ?case using set_node_reg_linked [of g n r] by (auto simp: q_bounded_def)
qed

text \<open>The registers that the client forced are registers of the set and no two neighbours conflict.\<close>

definition forced_ok :: "ra_graph \<Rightarrow> bool" where
  "forced_ok g \<longleftrightarrow> (\<forall>n < g_count g. nd_reg (node g n) \<noteq> NO_REG \<longrightarrow> nd_reg (node g n) < rs_count (g_regs g) \<and>
     (\<forall>m\<in>set (nbrs g n). nd_reg (node g m) \<noteq> NO_REG \<longrightarrow> \<not> conf (g_regs g) (nd_reg (node g n)) (nd_reg (node g m))))"

definition forced_in_class :: "ra_graph \<Rightarrow> bool" where
  "forced_in_class g \<longleftrightarrow> (\<forall>n < g_count g. nd_reg (node g n) \<noteq> NO_REG \<longrightarrow>
     in_class (g_regs g) (nd_class (node g n)) (nd_reg (node g n)))"

lemma built_allocatable:
  assumes "reg_set R" "built R g" "forced_ok g"
  shows "allocatable g"
  using built_linked [OF assms(1,2)] assms(3) by (intro linked_allocatable) (auto simp: forced_ok_def)

section \<open>Sequences of calls\<close>

datatype reg_call = Round_Robin | Conflict nat nat | Transitive nat nat | New_Class | Member nat nat

definition reg_step :: "reg_call \<Rightarrow> ra_regs \<Rightarrow> ra_regs run" where
  "reg_step call R = (case call of
     Round_Robin \<Rightarrow> ret (ra_set_allocate_round_robin R)
   | Conflict r1 r2 \<Rightarrow> bind_run (assert_run (r1 < rs_count R \<and> r2 < rs_count R)) (\<lambda>_. ra_add_reg_conflict R r1 r2)
   | Transitive base reg \<Rightarrow>
       bind_run (assert_run (base < rs_count R \<and> reg < rs_count R)) (\<lambda>_. ra_add_transitive_reg_conflict R base reg)
   | New_Class \<Rightarrow> ret (fst (ra_alloc_reg_class R))
   | Member c r \<Rightarrow> bind_run (assert_run (c < rs_class_count R \<and> r < rs_count R \<and> \<not> in_class R c r)) (\<lambda>_. ra_class_add_reg R c r))"

lemma assert_run_iff [simp]: "assert_run b = ret u \<longleftrightarrow> b"
  by (cases b) auto

lemma reg_step_made: "made R \<Longrightarrow> reg_step call R = ret R' \<Longrightarrow> made R'"
  by (cases call) (auto simp: reg_step_def bind_run_ret_iff intro: made.intros prod.collapse [symmetric])

lemma fold_run_invariant:
  assumes "\<And>x s s'. P s \<Longrightarrow> f x s = ret s' \<Longrightarrow> P s'"
  shows "P s \<Longrightarrow> fold_run f xs s = ret s' \<Longrightarrow> P s'"
  by (induction xs arbitrary: s) (auto simp: bind_run_ret_iff intro: assms)

lemma reg_steps_made:
  assumes "count \<le> 2 ^ 31" "bind_run (ra_alloc_reg_set count True) (fold_run reg_step calls) = ret R"
  shows "made R"
proof -
  obtain R0 where R0: "ra_alloc_reg_set count True = ret R0" "fold_run reg_step calls R0 = ret R"
    using assms(2) by (auto simp: bind_run_ret_iff)
  show ?thesis by (rule fold_run_invariant [where P = made, OF _ made_new [OF assms(1) R0(1)] R0(2)]) (rule reg_step_made)
qed

datatype graph_call = Node_Class nat nat | Interference nat nat | Node_Reg nat nat

definition graph_step :: "graph_call \<Rightarrow> ra_graph \<Rightarrow> ra_graph run" where
  "graph_step call g = (case call of
     Node_Class n c \<Rightarrow> bind_run (assert_run (n < g_count g \<and> c < rs_class_count (g_regs g) \<and> class_change_ok g n c))
       (\<lambda>_. ra_set_node_class g n c)
   | Interference n1 n2 \<Rightarrow> bind_run (assert_run (n1 < g_count g \<and> n2 < g_count g)) (\<lambda>_. ra_add_node_interference g n1 n2)
   | Node_Reg n r \<Rightarrow> bind_run (assert_run (n < g_count g)) (\<lambda>_. ra_set_node_reg g n r))"

lemma graph_step_built: "reg_set R \<Longrightarrow> built R g \<Longrightarrow> graph_step call g = ret g' \<Longrightarrow> built R g'"
  using built_linked [of R g]
  by (cases call) (auto simp: graph_step_def bind_run_ret_iff intro: built.intros)

lemma graph_steps_built:
  assumes "reg_set R" "count \<le> 2 ^ 31" "count * rs_count R < UINT_MAX"
    "fold_run graph_step calls (ra_alloc_interference_graph R count) = ret g"
  shows "built R g"
  by (rule fold_run_invariant [where P = "built R", OF _ built_new [OF assms(2,3)] assms(4)]) (rule graph_step_built [OF assms(1)])

section \<open>A register set and a graph\<close>

text \<open>Three registers, a fourth one that overlaps the first two, and a class for each kind.\<close>

definition ex_regs :: ra_regs where
  "ex_regs = \<lparr>rs_regs =
     [\<lparr>conflicts = [9], conflict_list = Some [0, 3], conflict_list_size = 4, num_conflicts = 2\<rparr>,
      \<lparr>conflicts = [10], conflict_list = Some [1, 3], conflict_list_size = 4, num_conflicts = 2\<rparr>,
      \<lparr>conflicts = [4], conflict_list = Some [2], conflict_list_size = 4, num_conflicts = 1\<rparr>,
      \<lparr>conflicts = [11], conflict_list = Some [3, 1, 0], conflict_list_size = 4, num_conflicts = 3\<rparr>],
     rs_count = 4,
     rs_classes = [\<lparr>c_regs = [7], c_p = 3, c_q = []\<rparr>, \<lparr>c_regs = [8], c_p = 1, c_q = []\<rparr>],
     rs_class_count = 2, rs_round_robin = False\<rparr>"

lemma ex_regs_made: "made ex_regs"
proof (rule reg_steps_made)
  show "bind_run (ra_alloc_reg_set 4 True) (fold_run reg_step [Conflict 3 1, Transitive 0 3, New_Class, New_Class,
      Member 0 0, Member 0 1, Member 0 2, Member 1 3]) = ret ex_regs" by code_simp
qed simp

definition ex_final :: ra_regs where
  "ex_final = ex_regs\<lparr>rs_regs := map (\<lambda>reg. reg\<lparr>conflict_list := None\<rparr>) (rs_regs ex_regs),
     rs_classes := [\<lparr>c_regs = [7], c_p = 3, c_q = [1, 2]\<rparr>, \<lparr>c_regs = [8], c_p = 1, c_q = [1, 1]\<rparr>]\<rparr>"

lemma ex_final_set: "reg_set ex_final"
proof -
  have "ra_set_finalize ex_regs None = ret ex_final" by code_simp
  moreover have "0 < rs_class_count ex_regs" by (simp add: ex_regs_def)
  ultimately show ?thesis using ex_regs_made by (auto simp: reg_set_def)
qed

text \<open>Four nodes on a path, of which the last is forced to a register.\<close>

definition ex_graph :: ra_graph where
  "ex_graph = \<lparr>g_regs = ex_final, g_nodes =
     [\<lparr>adjacency = [6], adjacency_list = [1, 2], adjacency_list_size = 4, adjacency_count = 2, nd_class = 0,
       nd_reg = NO_REG, in_stack = False, q_total = 3\<rparr>,
      \<lparr>adjacency = [9], adjacency_list = [0, 3], adjacency_list_size = 4, adjacency_count = 2, nd_class = 0,
       nd_reg = NO_REG, in_stack = False, q_total = 2\<rparr>,
      \<lparr>adjacency = [1], adjacency_list = [0], adjacency_list_size = 4, adjacency_count = 1, nd_class = 1,
       nd_reg = NO_REG, in_stack = False, q_total = 1\<rparr>,
      \<lparr>adjacency = [2], adjacency_list = [1], adjacency_list_size = 4, adjacency_count = 1, nd_class = 0,
       nd_reg = 0, in_stack = False, q_total = 1\<rparr>],
     g_count = 4, g_stack = [0, 0, 0, 0], g_stack_count = 0, stack_optimistic_start = 0\<rparr>"

lemma ex_graph_built: "built ex_final ex_graph"
proof (rule graph_steps_built [OF ex_final_set])
  show "fold_run graph_step [Node_Class 2 1, Interference 0 1, Node_Reg 3 0, Interference 0 2, Interference 3 1, Interference 1 0]
      (ra_alloc_interference_graph ex_final 4) = ret ex_graph" by code_simp
qed (simp_all add: ex_final_def ex_regs_def UINT_MAX_def)

lemma ex_graph_forced: "forced_ok ex_graph" "forced_in_class ex_graph"
  by code_simp+

end
