(* ===== verification/Ra_Spec.thy ===== *)
theory Ra_Spec
  imports Ra_Clients
begin

text \<open>
  What the register allocator promises its clients. The theorems are about every register
  set and every interference graph that the calls of a client reach.
\<close>

section \<open>Properties of register sets\<close>

text \<open>
  \<open>ra_add_transitive_reg_conflict\<close> makes a register conflict, in both directions, with the base
  register and everything the base conflicts with, and adds no other conflict.
\<close>

theorem transitive_conflicts_added:
  assumes "made R" "base < rs_count R" "reg < rs_count R"
  shows "\<exists>R'. ra_add_transitive_reg_conflict R base reg = ret R' \<and> made R' \<and>
    (\<forall>a < rs_count R. \<forall>b. conf R' a b \<longleftrightarrow> conf R a b \<or> a = reg \<and> conf R base b \<or> conf R base a \<and> b = reg)"
  using add_transitive_ok [OF made_building [OF assms(1)] assms(2,3)] made_transitive [OF assms]
  by (auto simp: conflicts_added_def)

theorem transitive_conflicts_added_witness:
  "made ex_regs \<and> 0 < rs_count ex_regs \<and> 2 < rs_count ex_regs \<and>
   (\<exists>R'. ra_add_transitive_reg_conflict ex_regs 0 2 = ret R' \<and> made R' \<and>
    (\<forall>a < rs_count ex_regs. \<forall>b. conf R' a b \<longleftrightarrow> conf ex_regs a b \<or> a = 2 \<and> conf ex_regs 0 b \<or> conf ex_regs 0 a \<and> b = 2))"
proof -
  have lt: "0 < rs_count ex_regs" "2 < rs_count ex_regs" by (simp_all add: ex_regs_def)
  show ?thesis using transitive_conflicts_added [OF ex_regs_made lt] ex_regs_made lt by blast
qed

text \<open>
  For every register set that the calls of a client build, \<open>ra_set_finalize\<close> computes as q(B,C) the
  largest number of registers of B that one register of C conflicts with, and leaves as p of a
  class the number of its registers.
\<close>

theorem finalize_computes_pq:
  assumes "made R"
  shows "\<exists>R'. ra_set_finalize R None = ret R' \<and> rs_class_count R' = rs_class_count R \<and>
    (\<forall>b < rs_class_count R. pv R' b = card {r. in_class R b r} \<and>
      (\<forall>c < rs_class_count R. is_q R b c (qv R' b c)))"
  using finalize_ok [OF made_building [OF assms]] by auto

theorem finalize_computes_pq_witness:
  "made ex_regs \<and> (\<exists>R'. ra_set_finalize ex_regs None = ret R' \<and> rs_class_count R' = rs_class_count ex_regs \<and>
    (\<forall>b < rs_class_count ex_regs. pv R' b = card {r. in_class ex_regs b r} \<and>
      (\<forall>c < rs_class_count ex_regs. is_q ex_regs b c (qv R' b c))))"
  using finalize_computes_pq [OF ex_regs_made] ex_regs_made by blast

text \<open>
  \<open>ra_make_reg_conflicts_transitive\<close> makes any two registers that conflict with the given one conflict with
  each other, and adds no other conflict. It changes only the bit sets: the conflict lists, from which
  \<open>ra_set_finalize\<close> computes q, stay as they were.
\<close>

theorem conflicts_made_transitive:
  assumes "made R" "r < rs_count R"
  shows "\<exists>R'. ra_make_reg_conflicts_transitive R r = ret R' \<and>
    (\<forall>a < rs_count R. conflict_list (rs_regs R' ! a) = conflict_list (rs_regs R ! a) \<and>
       (\<forall>b. conf R' a b \<longleftrightarrow> conf R a b \<or> conf R r a \<and> conf R r b))"
  by (rule make_transitive_ok [OF made_building [OF assms(1)] assms(2)])

theorem conflicts_made_transitive_witness:
  "made ex_regs \<and> 3 < rs_count ex_regs \<and> conf ex_regs 3 0 \<and> conf ex_regs 3 1 \<and> \<not> conf ex_regs 0 1 \<and>
   (\<exists>R'. ra_make_reg_conflicts_transitive ex_regs 3 = ret R' \<and> conf R' 0 1 \<and> conflict_list (rs_regs R' ! 0) = Some [0, 3])"
proof -
  have cf: "3 < rs_count ex_regs" "conf ex_regs 3 0" "conf ex_regs 3 1" "\<not> conf ex_regs 0 1"
    "conflict_list (rs_regs ex_regs ! 0) = Some [0, 3]" "0 < rs_count ex_regs" by code_simp+
  show ?thesis using conflicts_made_transitive [OF ex_regs_made cf(1)] ex_regs_made cf by auto
qed

section \<open>Properties of graphs\<close>

text \<open>
  C20. \<open>ra_add_node_interference\<close> adds exactly the edge between the two nodes, in both directions (no edge
  when they are the same node), and keeps adjacency lists, adjacency bit sets and q totals
  consistent.
\<close>

theorem interference_added:
  assumes "reg_set R" "built R g" "n1 < g_count g" "n2 < g_count g"
  shows "\<exists>g'. ra_add_node_interference g n1 n2 = ret g' \<and> linked g' \<and>
    edges g' = edges g \<union> (if n1 = n2 then {} else {(n1, n2), (n2, n1)})"
  using add_interference_ok [of g n1 n2] built_linked [OF assms(1,2)] assms(3,4) by blast

theorem interference_added_witness:
  "reg_set ex_final \<and> built ex_final ex_graph \<and> 2 < g_count ex_graph \<and> 1 < g_count ex_graph \<and>
   (\<exists>g'. ra_add_node_interference ex_graph 2 1 = ret g' \<and> linked g' \<and> edges g' = edges ex_graph \<union> {(2, 1), (1, 2)})"
proof -
  have lt: "2 < g_count ex_graph" "1 < g_count ex_graph" by (simp_all add: ex_graph_def)
  show ?thesis using interference_added [OF ex_final_set ex_graph_built lt] ex_final_set ex_graph_built lt by simp
qed

text \<open>
  C34. For a register set with conflict lists and computed q values, \<open>ra_simplify\<close> ends without a fault on every graph that client calls build: its stack then holds
  every node without a forced register, once, and no other node.
\<close>

theorem simplify_stacks_all:
  assumes "reg_set R" "built R g" "forced_ok g"
  shows "\<exists>g'. ra_simplify g = ret g' \<and> distinct (stacked g') \<and>
    set (stacked g') = {n. n < g_count g \<and> nd_reg (node g n) = NO_REG}"
proof -
  note L = linkedD [of g] and b = built_linked [OF assms(1,2)]
  have al: "graph_ok g" "q_ok g" "g_stack_count g = 0"
    using built_allocatable [OF assms] by (auto simp: allocatable_def)
  obtain g' where g': "ra_simplify g = ret g'" "graph_ok g'" "same_static g g'" "all_pushed g'"
    using simplify_ok [OF al] by blast
  have "in_stack (node g' n) \<longleftrightarrow> nd_reg (node g n) = NO_REG" if "n < g_count g" for n
    using simplified_colored(2) [OF built_allocatable [OF assms] g'(2-4) that] .
  then show ?thesis using g' graph_okD(6,7) [OF g'(2)] by (auto simp: same_static_def)
qed

theorem simplify_stacks_all_witness:
  "reg_set ex_final \<and> built ex_final ex_graph \<and> forced_ok ex_graph \<and>
   (\<exists>g'. ra_simplify ex_graph = ret g' \<and> distinct (stacked g') \<and>
     set (stacked g') = {n. n < g_count ex_graph \<and> nd_reg (node ex_graph n) = NO_REG})"
  using simplify_stacks_all [OF ex_final_set ex_graph_built ex_graph_forced(1)] ex_final_set ex_graph_built ex_graph_forced(1)
  by blast

text \<open>
  C13. For a register set with conflict lists whose q values \<open>ra_set_finalize\<close> computes (it can also be given them, which the clients of V3D do not do),
  \<open>ra_allocate\<close> ends without a fault on every graph that client calls build, and when it reports success
  every node has a register, the forced one if there is one and else one of its class, such that no
  two adjacent nodes have conflicting registers. This holds for the built-in search and for
  every callback that returns one of the registers it is offered.
\<close>

theorem allocation_valid:
  assumes "reg_set R" "built R g" "forced_ok g" "callback_ok (rs_count R) I callback" "I data"
  shows "\<exists>g' ok. ra_allocate callback data g = ret (g', ok) \<and>
    (ok \<longrightarrow> valid_allocation g (\<lambda>n. nd_reg (node g' n)))"
  using allocate_ok [OF built_allocatable [OF assms(1-3)], of I callback data] assms(4,5) built_linked [OF assms(1,2)]
  by auto

theorem allocation_valid_witness:
  "reg_set ex_final \<and> built ex_final ex_graph \<and> forced_ok ex_graph \<and>
   callback_ok (rs_count ex_final) (\<lambda>_ :: unit. True) None \<and>
   (\<exists>g'. ra_allocate None () ex_graph = ret (g', True) \<and> valid_allocation ex_graph (\<lambda>n. nd_reg (node g' n)))"
proof -
  obtain g' ok where g': "ra_allocate None () ex_graph = ret (g', ok)" "ok \<longrightarrow> valid_allocation ex_graph (\<lambda>n. nd_reg (node g' n))"
    using allocation_valid [OF ex_final_set ex_graph_built ex_graph_forced(1), of "\<lambda>_. True" None "()"] by auto
  have "bind_run (ra_allocate None () ex_graph) (\<lambda>(g, ok). ret ok) = ret True" by code_simp
  then have "ok" using g'(1) by simp
  then show ?thesis using g' ex_final_set ex_graph_built ex_graph_forced(1) by auto
qed

text \<open>
  C21. When \<open>ra_simplify\<close> never had to push a node optimistically and the forced registers
  belong to the classes of their nodes, \<open>ra_allocate\<close> succeeds.
\<close>

theorem trivially_colorable_succeeds:
  assumes "reg_set R" "built R g" "forced_ok g" "forced_in_class g" "callback_ok (rs_count R) I callback" "I data"
    and "ra_simplify g = ret g1" "stack_optimistic_start g1 = UINT_MAX"
  shows "\<exists>g'. ra_allocate callback data g = ret (g', True)"
proof -
  have R: "g_regs g = R" using built_linked [OF assms(1,2)] by simp
  then obtain g' ok where "ra_allocate callback data g = ret (g', ok)"
    "pq_sound R \<and> (\<forall>n < g_count g. nd_reg (node g n) \<noteq> NO_REG \<longrightarrow> in_class R (nd_class (node g n)) (nd_reg (node g n))) \<longrightarrow> ok"
    using allocate_ok [OF built_allocatable [OF assms(1-3)], of I callback data] assms(5-8) by auto
  then show ?thesis using reg_setD(2) [OF assms(1)] assms(4) R by (auto simp: forced_in_class_def)
qed

theorem trivially_colorable_succeeds_witness:
  "reg_set ex_final \<and> built ex_final ex_graph \<and> forced_ok ex_graph \<and> forced_in_class ex_graph \<and>
   callback_ok (rs_count ex_final) (\<lambda>_ :: unit. True) None \<and>
   (\<exists>g1. ra_simplify ex_graph = ret g1 \<and> stack_optimistic_start g1 = UINT_MAX) \<and>
   (\<exists>g'. ra_allocate None () ex_graph = ret (g', True))"
proof -
  have "bind_run (ra_simplify ex_graph) (\<lambda>g1. ret (stack_optimistic_start g1)) = ret UINT_MAX" by code_simp
  then obtain g1 where g1: "ra_simplify ex_graph = ret g1" "stack_optimistic_start g1 = UINT_MAX"
    by (auto simp: bind_run_ret_iff)
  show ?thesis
    using trivially_colorable_succeeds [OF ex_final_set ex_graph_built ex_graph_forced, of "\<lambda>_. True" None "()" g1]
      g1 ex_final_set ex_graph_built ex_graph_forced by auto
qed

end
