(* ===== verification/Vir.thy ===== *)
theory Vir
  imports Qpu_Instr Bitset
begin

text \<open>
  The intermediate representation of the V3D shader compiler (VIR): the structures of
  \<^verbatim>\<open>src/src/broadcom/compiler/v3d_compiler.h\<close> and the queries and updates of single
  instructions in \<^verbatim>\<open>vir.c\<close>. A block is an element of the list of blocks, and blocks refer to each
  other by their positions in it. An instruction has an address, because the compiler keeps pointers to
  instructions; following a pointer is looking for the instruction with that address.
\<close>

section \<open>Instructions\<close>

datatype qfile =
    QFILE_NULL | QFILE_REG | QFILE_MAGIC | QFILE_TEMP | QFILE_VARY | QFILE_UNIF | QFILE_TLB
  | QFILE_TLBU | QFILE_VPM | QFILE_LOAD_IMM | QFILE_SMALL_IMM

record qreg =
  q_file :: qfile
  q_index :: nat

definition vir_reg :: "qfile \<Rightarrow> nat \<Rightarrow> qreg" where
  "vir_reg file index = \<lparr>q_file = file, q_index = index\<rparr>"

record qpu_reg =
  qr_magic :: bool
  qr_index :: nat

record qinst =
  qi_addr :: nat
  qi_qpu :: v3d_qpu_instr
  qi_dst :: qreg
  qi_src :: "qreg list"
  cond_is_exec_mask :: bool
  qi_has_implicit_uniform :: bool
  qi_uniform :: int

section \<open>Queries\<close>

abbreviation add_part :: "qinst \<Rightarrow> v3d_qpu_add_op v3d_qpu_alu" where
  "add_part inst \<equiv> alu_add (qi_qpu inst)"

abbreviation mul_part :: "qinst \<Rightarrow> v3d_qpu_mul_op v3d_qpu_alu" where
  "mul_part inst \<equiv> alu_mul (qi_qpu inst)"

definition vir_get_non_sideband_nsrc :: "qinst \<Rightarrow> nat" where
  "vir_get_non_sideband_nsrc inst =
     (case instr_type (qi_qpu inst) of
        V3D_QPU_INSTR_TYPE_BRANCH \<Rightarrow> 0
      | V3D_QPU_INSTR_TYPE_ALU \<Rightarrow>
          if alu_op (add_part inst) \<noteq> V3D_QPU_A_NOP then v3d_qpu_add_op_num_src (alu_op (add_part inst))
          else v3d_qpu_mul_op_num_src (alu_op (mul_part inst)))"

definition vir_has_implicit_uniform :: "qinst \<Rightarrow> bool" where
  "vir_has_implicit_uniform inst =
     (case instr_type (qi_qpu inst) of
        V3D_QPU_INSTR_TYPE_BRANCH \<Rightarrow> True
      | V3D_QPU_INSTR_TYPE_ALU \<Rightarrow>
          (case q_file (qi_dst inst) of QFILE_TLBU \<Rightarrow> True | _ \<Rightarrow> qi_has_implicit_uniform inst))"

definition vir_get_nsrc :: "qinst \<Rightarrow> nat" where
  "vir_get_nsrc inst = vir_get_non_sideband_nsrc inst + (if vir_has_implicit_uniform inst then 1 else 0)"

definition vir_get_implicit_uniform_src :: "qinst \<Rightarrow> int" where
  "vir_get_implicit_uniform_src inst = int (vir_get_nsrc inst) - 1"

definition vir_has_side_effects :: "qinst \<Rightarrow> bool" where
  "vir_has_side_effects inst =
     (case instr_type (qi_qpu inst) of
        V3D_QPU_INSTR_TYPE_BRANCH \<Rightarrow> True
      | V3D_QPU_INSTR_TYPE_ALU \<Rightarrow>
          alu_op (add_part inst) = V3D_QPU_A_SETREVF \<or> alu_op (add_part inst) = V3D_QPU_A_SETMSF \<or>
          alu_op (add_part inst) = V3D_QPU_A_VPMSETUP \<or> alu_op (mul_part inst) = V3D_QPU_M_MULTOP \<or>
          ldtmu (sig (qi_qpu inst)))"

definition vir_is_float_input :: "qinst \<Rightarrow> bool" where
  "vir_is_float_input inst =
     (case instr_type (qi_qpu inst) of
        V3D_QPU_INSTR_TYPE_BRANCH \<Rightarrow> False
      | V3D_QPU_INSTR_TYPE_ALU \<Rightarrow>
          alu_op (add_part inst) = V3D_QPU_A_FADD \<or> alu_op (add_part inst) = V3D_QPU_A_FSUB \<or>
          alu_op (add_part inst) = V3D_QPU_A_FMIN \<or> alu_op (add_part inst) = V3D_QPU_A_FMAX \<or>
          alu_op (add_part inst) = V3D_QPU_A_FTOIN \<or> alu_op (mul_part inst) = V3D_QPU_M_FMOV \<or>
          alu_op (mul_part inst) = V3D_QPU_M_VFMUL \<or> alu_op (mul_part inst) = V3D_QPU_M_FMUL)"

definition vir_is_raw_mov :: "qinst \<Rightarrow> bool" where
  "vir_is_raw_mov inst \<longleftrightarrow>
     (if instr_type (qi_qpu inst) \<noteq> V3D_QPU_INSTR_TYPE_ALU \<or>
         (alu_op (mul_part inst) \<noteq> V3D_QPU_M_FMOV \<and> alu_op (mul_part inst) \<noteq> V3D_QPU_M_MOV) then False
      else if output_pack (add_part inst) \<noteq> V3D_QPU_PACK_NONE \<or> output_pack (mul_part inst) \<noteq> V3D_QPU_PACK_NONE then False
      else if ac (flags (qi_qpu inst)) \<noteq> V3D_QPU_COND_NONE \<or> mc (flags (qi_qpu inst)) \<noteq> V3D_QPU_COND_NONE then False
      else True)"

definition vir_is_add :: "qinst \<Rightarrow> bool" where
  "vir_is_add inst \<longleftrightarrow> instr_type (qi_qpu inst) = V3D_QPU_INSTR_TYPE_ALU \<and> alu_op (add_part inst) \<noteq> V3D_QPU_A_NOP"

definition vir_is_mul :: "qinst \<Rightarrow> bool" where
  "vir_is_mul inst \<longleftrightarrow> instr_type (qi_qpu inst) = V3D_QPU_INSTR_TYPE_ALU \<and> alu_op (mul_part inst) \<noteq> V3D_QPU_M_NOP"

text \<open>The index of a magic destination is compared with the write addresses as an unsigned integer.\<close>

definition vir_is_tex :: "qinst \<Rightarrow> bool" where
  "vir_is_tex inst \<longleftrightarrow>
     q_file (qi_dst inst) = QFILE_MAGIC \<and> q_index (qi_dst inst) < 256 \<and>
     v3d_qpu_magic_waddr_is_tmu (of_nat (q_index (qi_dst inst)))"

definition vir_depends_on_flags :: "qinst \<Rightarrow> bool" where
  "vir_depends_on_flags inst \<longleftrightarrow>
     (if instr_type (qi_qpu inst) = V3D_QPU_INSTR_TYPE_BRANCH
      then br_cond (branch (qi_qpu inst)) \<noteq> V3D_QPU_BRANCH_COND_ALWAYS
      else ac (flags (qi_qpu inst)) \<noteq> V3D_QPU_COND_NONE \<and> mc (flags (qi_qpu inst)) \<noteq> V3D_QPU_COND_NONE)"

fun any_src_writes_r3 :: "qreg list \<Rightarrow> nat list \<Rightarrow> bool run" where
  "any_src_writes_r3 src [] = ret False"
| "any_src_writes_r3 src (i # ids) =
     bind_run (fetch src i) (\<lambda>r.
     if q_file r = QFILE_VARY \<or> q_file r = QFILE_VPM then ret True else any_src_writes_r3 src ids)"

definition vir_writes_r3 :: "qinst \<Rightarrow> bool run" where
  "vir_writes_r3 inst = any_src_writes_r3 (qi_src inst) [0..<vir_get_nsrc inst]"

definition vir_writes_r4 :: "qinst \<Rightarrow> bool" where
  "vir_writes_r4 inst \<longleftrightarrow>
     q_file (qi_dst inst) = QFILE_MAGIC \<and>
       q_index (qi_dst inst) \<in> unat ` {V3D_QPU_WADDR_RECIP, V3D_QPU_WADDR_RSQRT, V3D_QPU_WADDR_EXP,
         V3D_QPU_WADDR_LOG, V3D_QPU_WADDR_SIN} \<or>
     ldtmu (sig (qi_qpu inst))"

section \<open>Updates\<close>

definition vir_set_unpack :: "qinst \<Rightarrow> int \<Rightarrow> v3d_qpu_input_unpack \<Rightarrow> qinst run" where
  "vir_set_unpack inst src unpack =
     bind_run (assert_run (src = 0 \<or> src = 1)) (\<lambda>_.
     let qpu = qi_qpu inst in
     if vir_is_add inst then
       ret (inst\<lparr>qi_qpu := qpu\<lparr>alu_add := (if src = 0 then (alu_add qpu)\<lparr>a_unpack := unpack\<rparr>
                                        else (alu_add qpu)\<lparr>b_unpack := unpack\<rparr>)\<rparr>\<rparr>)
     else bind_run (assert_run (vir_is_mul inst)) (\<lambda>_.
       ret (inst\<lparr>qi_qpu := qpu\<lparr>alu_mul := (if src = 0 then (alu_mul qpu)\<lparr>a_unpack := unpack\<rparr>
                                        else (alu_mul qpu)\<lparr>b_unpack := unpack\<rparr>)\<rparr>\<rparr>)))"

definition vir_set_cond :: "qinst \<Rightarrow> v3d_qpu_cond \<Rightarrow> qinst run" where
  "vir_set_cond inst cond =
     (let qpu = qi_qpu inst in
      if vir_is_add inst then ret (inst\<lparr>qi_qpu := qpu\<lparr>flags := (flags qpu)\<lparr>ac := cond\<rparr>\<rparr>\<rparr>)
      else bind_run (assert_run (vir_is_mul inst)) (\<lambda>_.
           ret (inst\<lparr>qi_qpu := qpu\<lparr>flags := (flags qpu)\<lparr>mc := cond\<rparr>\<rparr>\<rparr>)))"

definition vir_set_pf :: "qinst \<Rightarrow> v3d_qpu_pf \<Rightarrow> qinst run" where
  "vir_set_pf inst pf =
     (let qpu = qi_qpu inst in
      if vir_is_add inst then ret (inst\<lparr>qi_qpu := qpu\<lparr>flags := (flags qpu)\<lparr>apf := pf\<rparr>\<rparr>\<rparr>)
      else bind_run (assert_run (vir_is_mul inst)) (\<lambda>_.
           ret (inst\<lparr>qi_qpu := qpu\<lparr>flags := (flags qpu)\<lparr>mpf := pf\<rparr>\<rparr>\<rparr>)))"

section \<open>New instructions\<close>

text \<open>
  Fields that the code does not initialise are zero, the first enumerator. The address of the memory
  that \<open>calloc\<close> returns is an argument.
\<close>

definition v3d_qpu_nop :: v3d_qpu_instr where
  "v3d_qpu_nop =
     (let no_sig = \<lparr>thrsw = False, ldunif = False, ldtmu = False, ldvary = False, ldvpm = False, ldtlb = False,
            ldtlbu = False, small_imm = False, ucb = False, rotate = False, wrtmuc = False\<rparr>;
          no_flags = \<lparr>ac = V3D_QPU_COND_NONE, mc = V3D_QPU_COND_NONE, apf = V3D_QPU_PF_NONE, mpf = V3D_QPU_PF_NONE,
            auf = V3D_QPU_UF_NONE, muf = V3D_QPU_UF_NONE\<rparr>
      in \<lparr>instr_type = V3D_QPU_INSTR_TYPE_ALU, sig = no_sig, raddr_a = 0, raddr_b = 0, flags = no_flags,
          alu_add = \<lparr>alu_op = V3D_QPU_A_NOP, mux_a = V3D_QPU_MUX_R0, mux_b = V3D_QPU_MUX_R0, waddr = V3D_QPU_WADDR_NOP,
            magic_write = True, output_pack = V3D_QPU_PACK_NONE, a_unpack = V3D_QPU_UNPACK_NONE, b_unpack = V3D_QPU_UNPACK_NONE\<rparr>,
          alu_mul = \<lparr>alu_op = V3D_QPU_M_NOP, mux_a = V3D_QPU_MUX_R0, mux_b = V3D_QPU_MUX_R0, waddr = V3D_QPU_WADDR_NOP,
            magic_write = True, output_pack = V3D_QPU_PACK_NONE, a_unpack = V3D_QPU_UNPACK_NONE, b_unpack = V3D_QPU_UNPACK_NONE\<rparr>,
          branch = \<lparr>br_cond = V3D_QPU_BRANCH_COND_ALWAYS, br_msfign = V3D_QPU_MSFIGN_NONE, br_bdi = V3D_QPU_BRANCH_DEST_ABS,
            br_bdu = V3D_QPU_BRANCH_DEST_ABS, br_ub = False, br_raddr_a = 0, br_offset = 0\<rparr>\<rparr>)"

definition vir_add_inst :: "nat \<Rightarrow> v3d_qpu_add_op \<Rightarrow> qreg \<Rightarrow> qreg \<Rightarrow> qreg \<Rightarrow> qinst" where
  "vir_add_inst p op dst src0 src1 =
     \<lparr>qi_addr = p, qi_qpu = v3d_qpu_nop\<lparr>alu_add := (alu_add v3d_qpu_nop)\<lparr>alu_op := op\<rparr>\<rparr>, qi_dst = dst,
      qi_src = [src0, src1, vir_reg QFILE_NULL 0], cond_is_exec_mask = False, qi_has_implicit_uniform = False, qi_uniform = -1\<rparr>"

definition vir_mul_inst :: "nat \<Rightarrow> v3d_qpu_mul_op \<Rightarrow> qreg \<Rightarrow> qreg \<Rightarrow> qreg \<Rightarrow> qinst" where
  "vir_mul_inst p op dst src0 src1 =
     \<lparr>qi_addr = p, qi_qpu = v3d_qpu_nop\<lparr>alu_mul := (alu_mul v3d_qpu_nop)\<lparr>alu_op := op\<rparr>\<rparr>, qi_dst = dst,
      qi_src = [src0, src1, vir_reg QFILE_NULL 0], cond_is_exec_mask = False, qi_has_implicit_uniform = False, qi_uniform = -1\<rparr>"

definition vir_branch_inst :: "nat \<Rightarrow> v3d_qpu_branch_cond \<Rightarrow> qreg \<Rightarrow> qinst" where
  "vir_branch_inst p cond src =
     \<lparr>qi_addr = p, qi_qpu = v3d_qpu_nop\<lparr>instr_type := V3D_QPU_INSTR_TYPE_BRANCH,
        branch := (branch v3d_qpu_nop)\<lparr>br_cond := cond, br_msfign := V3D_QPU_MSFIGN_NONE,
          br_bdi := V3D_QPU_BRANCH_DEST_REL, br_ub := True, br_bdu := V3D_QPU_BRANCH_DEST_REL\<rparr>\<rparr>,
      qi_dst = vir_reg QFILE_NULL 0, qi_src = [src, vir_reg QFILE_NULL 0, vir_reg QFILE_NULL 0],
      cond_is_exec_mask = False, qi_has_implicit_uniform = False, qi_uniform = -1\<rparr>"

section \<open>Blocks and programs\<close>

record qblock =
  qb_instructions :: "qinst list"
  qb_predecessors :: "nat set"
  qb_successors :: "nat option list"
  qb_def :: "u32 list"
  qb_use :: "u32 list"
  qb_live_in :: "u32 list"
  qb_live_out :: "u32 list"
  start_ip :: int
  end_ip :: int

record v3d_compile =
  c_blocks :: "qblock list"
  num_temps :: nat
  c_defs :: "nat option list"
  vattr_sizes :: "u8 list"
  num_inputs :: u32
  num_vpm_writes :: u32
  temp_start :: "int list option"
  temp_end :: "int list option"
  fs_threaded :: bool
  c_failed :: bool

text \<open>The successors that the loop macro visits: the first, and the second unless it is the same block.\<close>

definition vir_for_each_successor :: "qblock \<Rightarrow> nat list run" where
  "vir_for_each_successor block =
     bind_run (fetch (qb_successors block) 0) (\<lambda>s0.
     bind_run (fetch (qb_successors block) 1) (\<lambda>s1.
     ret (case s0 of
            None \<Rightarrow> []
          | Some s \<Rightarrow> if s1 = Some s then [s] else s # (case s1 of None \<Rightarrow> [] | Some t \<Rightarrow> [t]))))"

definition vir_link_blocks :: "qblock list \<Rightarrow> nat \<Rightarrow> nat \<Rightarrow> qblock list run" where
  "vir_link_blocks blocks predecessor successor =
     bind_run (fetch blocks successor) (\<lambda>succ.
     let blocks = blocks[successor := succ\<lparr>qb_predecessors := insert predecessor (qb_predecessors succ)\<rparr>] in
     bind_run (fetch blocks predecessor) (\<lambda>pred.
     bind_run (fetch (qb_successors pred) 0) (\<lambda>s0.
     bind_run (fetch (qb_successors pred) 1) (\<lambda>s1.
     case s0 of
       Some _ \<Rightarrow> bind_run (assert_run (s1 = None)) (\<lambda>_.
         ret (blocks[predecessor := pred\<lparr>qb_successors := (qb_successors pred)[1 := Some successor]\<rparr>]))
     | None \<Rightarrow> ret (blocks[predecessor := pred\<lparr>qb_successors := (qb_successors pred)[0 := Some successor]\<rparr>])))))"

text \<open>The instructions of a program, in order.\<close>

abbreviation code :: "v3d_compile \<Rightarrow> qinst list" where
  "code c \<equiv> concat (map qb_instructions (c_blocks c))"

section \<open>Sources\<close>

lemma num_src_le: "v3d_qpu_add_op_num_src a \<le> 2" "v3d_qpu_mul_op_num_src b \<le> 2"
  by (simp_all add: v3d_qpu_add_op_num_src_def v3d_qpu_mul_op_num_src_def Let_def)

lemma nsrc_le: "vir_get_nsrc inst \<le> 3"
  using num_src_le(1) [of "alu_op (add_part inst)"] num_src_le(2) [of "alu_op (mul_part inst)"]
  by (auto simp: vir_get_nsrc_def vir_get_non_sideband_nsrc_def split: v3d_qpu_instr_type.splits)

text \<open>
  A condition that is set on an instruction with a single operation is never reported by
  \<open>vir_depends_on_flags\<close>: the function asks for both conditions, and \<open>vir_set_cond\<close> sets one.
\<close>

lemma set_cond_not_reported:
  assumes "vir_is_add inst \<or> vir_is_mul inst" "ac (flags (qi_qpu inst)) = V3D_QPU_COND_NONE" "mc (flags (qi_qpu inst)) = V3D_QPU_COND_NONE"
  shows "\<exists>inst'. vir_set_cond inst cond = ret inst' \<and> \<not> vir_depends_on_flags inst'"
  using assms by (auto simp: vir_set_cond_def vir_depends_on_flags_def Let_def vir_is_add_def vir_is_mul_def)

end
