(* ===== verification/Vir_Live.thy ===== *)
theory Vir_Live
  imports Vir
begin

text \<open>
  Live variables of VIR programs: \<^verbatim>\<open>src/src/broadcom/compiler/vir_live_variables.c\<close>. The arrays of
  first and last instruction of every temporary are a pair of lists. The hash table of partial
  updates, whose keys are compared as integers, is a map from temporaries.
\<close>

unbundle bit_operations_syntax

section \<open>Definitions and uses\<close>

definition MAX_INSTRUCTION :: int where "MAX_INSTRUCTION = 2 ^ 30"

record partial_update_state =
  pu_insts :: "qinst option list"
  pu_channels :: u8

type_synonym live_ranges = "int list \<times> int list"

type_synonym partial_updates = "nat \<rightharpoonup> partial_update_state"

definition vir_reg_to_var :: "qreg \<Rightarrow> int" where
  "vir_reg_to_var reg = (if q_file reg = QFILE_TEMP then int (q_index reg) else -1)"

definition update_at :: "('a \<Rightarrow> 'a) \<Rightarrow> 'a list \<Rightarrow> nat \<Rightarrow> 'a list run" where
  "update_at f xs i = bind_run (fetch xs i) (\<lambda>x. ret (xs[i := f x]))"

definition extend_range :: "live_ranges \<Rightarrow> nat \<Rightarrow> int \<Rightarrow> live_ranges run" where
  "extend_range rs var ip =
     bind_run (update_at (\<lambda>s. min s ip) (fst rs) var) (\<lambda>ts.
     bind_run (update_at (\<lambda>e. max e ip) (snd rs) var) (\<lambda>te.
     ret (ts, te)))"

definition vir_setup_use :: "qblock \<Rightarrow> live_ranges \<Rightarrow> int \<Rightarrow> qreg \<Rightarrow> (qblock \<times> live_ranges) run" where
  "vir_setup_use block rs ip src =
     (if vir_reg_to_var src = -1 then ret (block, rs)
      else
        let var = nat (vir_reg_to_var src) in
        bind_run (extend_range rs var ip) (\<lambda>rs.
        bind_run (BITSET_TEST (qb_def block) var) (\<lambda>defined.
        if \<not> defined then
          bind_run (BITSET_SET (qb_use block) var) (\<lambda>use. ret (block\<lparr>qb_use := use\<rparr>, rs))
        else ret (block, rs))))"

definition get_partial_update_state :: "partial_updates \<Rightarrow> qinst \<Rightarrow> partial_update_state" where
  "get_partial_update_state ht inst =
     (case ht (q_index (qi_dst inst)) of
        Some state \<Rightarrow> state
      | None \<Rightarrow> \<lparr>pu_insts = replicate 4 None, pu_channels = 0\<rparr>)"

definition unconditional :: "qinst \<Rightarrow> bool" where
  "unconditional inst \<longleftrightarrow> ac (flags (qi_qpu inst)) = V3D_QPU_COND_NONE \<and> mc (flags (qi_qpu inst)) = V3D_QPU_COND_NONE"

definition unpacked :: "qinst \<Rightarrow> bool" where
  "unpacked inst \<longleftrightarrow> output_pack (add_part inst) = V3D_QPU_PACK_NONE \<and> output_pack (mul_part inst) = V3D_QPU_PACK_NONE"

definition vir_setup_def ::
  "qblock \<Rightarrow> live_ranges \<Rightarrow> int \<Rightarrow> partial_updates \<Rightarrow> qinst \<Rightarrow> (qblock \<times> live_ranges \<times> partial_updates) run" where
  "vir_setup_def block rs ip ht inst =
     (if instr_type (qi_qpu inst) \<noteq> V3D_QPU_INSTR_TYPE_ALU then ret (block, rs, ht)
      else if vir_reg_to_var (qi_dst inst) = -1 then ret (block, rs, ht)
      else
        let var = nat (vir_reg_to_var (qi_dst inst)) in
        bind_run (extend_range rs var ip) (\<lambda>rs.
        bind_run (BITSET_TEST (qb_use block) var) (\<lambda>used.
        bind_run (BITSET_TEST (qb_def block) var) (\<lambda>defined.
        if used \<or> defined then ret (block, rs, ht)
        else if (unconditional inst \<or> cond_is_exec_mask inst) \<and> unpacked inst then
          bind_run (BITSET_SET (qb_def block) var) (\<lambda>def. ret (block\<lparr>qb_def := def\<rparr>, rs, ht))
        else
          let state = get_partial_update_state ht inst;
              mask = 0xf;
              state =
                (if unconditional inst then state\<lparr>pu_channels := pu_channels state OR mask\<rparr>
                 else state\<lparr>pu_insts := map (\<lambda>i. if bit (mask :: u8) i then Some inst else pu_insts state ! i) [0..<4]\<rparr>);
              ht = ht(q_index (qi_dst inst) \<mapsto> state)
          in
          if pu_channels state = 0xf then
            bind_run (BITSET_SET (qb_def block) var) (\<lambda>def. ret (block\<lparr>qb_def := def\<rparr>, rs, ht))
          else ret (block, rs, ht)))))"

text \<open>The body of the loop over the instructions of a block.\<close>

definition setup_payload :: "live_ranges \<Rightarrow> qinst \<Rightarrow> live_ranges run" where
  "setup_payload rs inst =
     bind_run (fetch (qi_src inst) 0) (\<lambda>src.
     if q_file src = QFILE_REG \<and> q_index src \<in> {0, 1, 2} then
       bind_run (update_at (\<lambda>_. 0) (fst rs) (q_index (qi_dst inst))) (\<lambda>ts. ret (ts, snd rs))
     else ret rs)"

type_synonym setup_state = "qblock \<times> live_ranges \<times> partial_updates \<times> int"

definition setup_inst :: "qinst \<Rightarrow> setup_state \<Rightarrow> setup_state run" where
  "setup_inst inst = (\<lambda>(block, rs, ht, ip).
     bind_run (fold_run (\<lambda>i (block, rs).
       bind_run (fetch (qi_src inst) i) (\<lambda>src. vir_setup_use block rs ip src)) [0..<vir_get_nsrc inst] (block, rs))
     (\<lambda>(block, rs).
     bind_run (vir_setup_def block rs ip ht inst) (\<lambda>(block, rs, ht).
     bind_run (setup_payload rs inst) (\<lambda>rs.
     ret (block, rs, ht, ip + 1)))))"

definition setup_block :: "qblock \<Rightarrow> live_ranges \<Rightarrow> int \<Rightarrow> (qblock \<times> live_ranges \<times> int) run" where
  "setup_block block rs ip =
     bind_run (fold_run setup_inst (qb_instructions block) (block\<lparr>start_ip := ip\<rparr>, rs, Map.empty, ip))
       (\<lambda>(block, rs, ht, ip). ret (block\<lparr>end_ip := ip\<rparr>, rs, ip))"

fun setup_blocks :: "qblock list \<Rightarrow> live_ranges \<Rightarrow> int \<Rightarrow> (qblock list \<times> live_ranges) run" where
  "setup_blocks [] rs ip = ret ([], rs)"
| "setup_blocks (block # blocks) rs ip =
     bind_run (setup_block block rs ip) (\<lambda>(block, rs, ip).
     bind_run (setup_blocks blocks rs ip) (\<lambda>(blocks, rs).
     ret (block # blocks, rs)))"

definition vir_setup_def_use :: "qblock list \<Rightarrow> live_ranges \<Rightarrow> (qblock list \<times> live_ranges) run" where
  "vir_setup_def_use blocks rs = setup_blocks blocks rs 0"

section \<open>Data flow\<close>

text \<open>The loops over the words of the bit sets: the new words, and whether one of them changed.\<close>

definition update_live_out :: "u32 list \<Rightarrow> u32 list \<Rightarrow> u32 list \<times> bool" where
  "update_live_out succ_in out =
     (map2 (\<lambda>s b. let new = s AND NOT b in if new \<noteq> 0 then b OR new else b) succ_in out,
      list_ex (\<lambda>(s, b). s AND NOT b \<noteq> 0) (zip succ_in out))"

definition update_live_in :: "qblock \<Rightarrow> u32 list \<times> bool" where
  "update_live_in block =
     (let new = map2 (\<lambda>u x. u OR x) (qb_use block) (map2 (\<lambda>b d. b AND NOT d) (qb_live_out block) (qb_def block)) in
      (map2 (\<lambda>n l. if n AND NOT l \<noteq> 0 then l OR n else l) new (qb_live_in block),
       list_ex (\<lambda>(n, l). n AND NOT l \<noteq> 0) (zip new (qb_live_in block))))"

definition dataflow_block :: "nat \<Rightarrow> qblock list \<times> bool \<Rightarrow> (qblock list \<times> bool) run" where
  "dataflow_block i = (\<lambda>(blocks, cont).
     bind_run (fetch blocks i) (\<lambda>block.
     bind_run (vir_for_each_successor block) (\<lambda>succs.
     bind_run (fold_run (\<lambda>s (block, cont).
       bind_run (fetch blocks s) (\<lambda>succ.
       let (out, new) = update_live_out (qb_live_in succ) (qb_live_out block)
       in ret (block\<lparr>qb_live_out := out\<rparr>, cont \<or> new))) succs (block, cont)) (\<lambda>(block, cont).
     let (ins, new) = update_live_in block
     in ret (blocks[i := block\<lparr>qb_live_in := ins\<rparr>], cont \<or> new)))))"

definition vir_live_variables_dataflow :: "qblock list \<Rightarrow> (qblock list \<times> bool) run" where
  "vir_live_variables_dataflow blocks = fold_run dataflow_block (rev [0..<length blocks]) (blocks, False)"

partial_function (option) dataflow_loop :: "qblock list \<Rightarrow> qblock list run" where
  "dataflow_loop blocks =
     bind_run (vir_live_variables_dataflow blocks) (\<lambda>(blocks, cont).
     if cont then dataflow_loop blocks else ret blocks)"

declare dataflow_loop.simps [code]

section \<open>Live intervals\<close>

definition extend_var :: "qblock \<Rightarrow> nat \<Rightarrow> live_ranges \<Rightarrow> live_ranges run" where
  "extend_var block i rs =
     bind_run (BITSET_TEST (qb_live_in block) i) (\<lambda>b.
     bind_run (if b then extend_range rs i (start_ip block) else ret rs) (\<lambda>rs.
     bind_run (BITSET_TEST (qb_live_out block) i) (\<lambda>b.
     if b then extend_range rs i (end_ip block) else ret rs)))"

definition vir_compute_start_end :: "qblock list \<Rightarrow> nat \<Rightarrow> live_ranges \<Rightarrow> live_ranges run" where
  "vir_compute_start_end blocks num_vars = fold_run (\<lambda>block. fold_run (extend_var block) [0..<num_vars]) blocks"

definition vir_calculate_live_intervals :: "v3d_compile \<Rightarrow> v3d_compile run" where
  "vir_calculate_live_intervals c =
     (let zeros = replicate (BITSET_WORDS (num_temps c)) 0 in
      bind_run (assert_run (temp_start c = None)) (\<lambda>_.
      let rs = (replicate (num_temps c) MAX_INSTRUCTION, replicate (num_temps c) (-1));
          blocks = map (\<lambda>block. block\<lparr>qb_def := zeros, qb_use := zeros, qb_live_in := zeros, qb_live_out := zeros\<rparr>) (c_blocks c)
      in
      bind_run (vir_setup_def_use blocks rs) (\<lambda>(blocks, rs).
      bind_run (dataflow_loop blocks) (\<lambda>blocks.
      bind_run (vir_compute_start_end blocks (num_temps c) rs) (\<lambda>rs.
      ret (c\<lparr>c_blocks := blocks, temp_start := Some (fst rs), temp_end := Some (snd rs)\<rparr>))))))"

end
