(* ===== verification/Vir_Register_Allocate.thy ===== *)
theory Vir_Register_Allocate
  imports Vir_Live Register_Allocate
begin

text \<open>
  Register allocation of VIR programs: \<^verbatim>\<open>src/src/broadcom/compiler/vir_register_allocate.c\<close>. The sorting
  function of the C library is an argument. The local array from temporaries to nodes has elements
  that are not yet initialised; reading one is a fault. The array of class bits, which the code fills
  and never reads, is left out, and so is the dump of the program after a failure.
\<close>

section \<open>Register classes\<close>

definition ACC_INDEX :: nat where "ACC_INDEX = 0"

definition ACC_COUNT :: nat where "ACC_COUNT = 5"

definition PHYS_INDEX :: nat where "PHYS_INDEX = ACC_INDEX + ACC_COUNT"

definition PHYS_COUNT :: nat where "PHYS_COUNT = 64"

record v3d_compiler =
  vc_regs :: ra_regs
  vc_reg_class :: "nat list"

definition init_reg_class :: "nat \<Rightarrow> ra_regs \<times> nat list \<Rightarrow> (ra_regs \<times> nat list) run" where
  "init_reg_class threads = (\<lambda>(regs, classes).
     let (regs, c) = ra_alloc_reg_class regs in
     bind_run (fold_run (\<lambda>i regs. ra_class_add_reg regs c i) [PHYS_INDEX..<PHYS_INDEX + PHYS_COUNT div 2 ^ threads] regs) (\<lambda>regs.
     bind_run (fold_run (\<lambda>i regs. ra_class_add_reg regs c i) [ACC_INDEX..<ACC_INDEX + ACC_COUNT] regs) (\<lambda>regs.
     ret (regs, classes @ [c]))))"

definition vir_init_reg_sets :: "v3d_compiler run" where
  "vir_init_reg_sets =
     bind_run (ra_alloc_reg_set (PHYS_INDEX + PHYS_COUNT) True) (\<lambda>regs.
     bind_run (fold_run init_reg_class [0..<3] (regs, [])) (\<lambda>(regs, classes).
     bind_run (ra_set_finalize regs None) (\<lambda>regs.
     ret \<lparr>vc_regs = regs, vc_reg_class = classes\<rparr>)))"

section \<open>Nodes\<close>

record node_to_temp_map =
  nt_temp :: nat
  nt_priority :: u32

definition node_to_temp_priority :: "node_to_temp_map \<Rightarrow> node_to_temp_map \<Rightarrow> int" where
  "node_to_temp_priority a b = sint (nt_priority a - nt_priority b)"

type_synonym c_qsort = "(node_to_temp_map \<Rightarrow> node_to_temp_map \<Rightarrow> int) \<Rightarrow> node_to_temp_map list \<Rightarrow> node_to_temp_map list"

definition temp_map :: "live_ranges \<Rightarrow> nat \<Rightarrow> node_to_temp_map list run" where
  "temp_map rs n = map_run (\<lambda>i.
     bind_run (fetch (snd rs) i) (\<lambda>e.
     bind_run (fetch (fst rs) i) (\<lambda>s.
     ret \<lparr>nt_temp = i, nt_priority = of_int (e - s)\<rparr>))) [0..<n]"

definition number_nodes :: "node_to_temp_map list \<Rightarrow> nat \<Rightarrow> nat option list run" where
  "number_nodes nodes n = fold_run (\<lambda>i temp_to_node.
     bind_run (fetch nodes i) (\<lambda>m. update_at (\<lambda>_. Some i) temp_to_node (nt_temp m))) [0..<n] (replicate n None)"

definition node_of :: "nat option list \<Rightarrow> nat \<Rightarrow> nat run" where
  "node_of temp_to_node i = bind_run (fetch temp_to_node i) (\<lambda>x. case x of None \<Rightarrow> fault Out_Of_Bounds | Some n \<Rightarrow> ret n)"

section \<open>Constraints of the instructions\<close>

text \<open>Every temporary that is live across the instruction must not be in the accumulator.\<close>

definition avoid_acc :: "nat option list \<Rightarrow> live_ranges \<Rightarrow> nat \<Rightarrow> int \<Rightarrow> nat \<Rightarrow> ra_graph \<Rightarrow> ra_graph run" where
  "avoid_acc temp_to_node rs n ip acc_node = fold_run (\<lambda>i g.
     bind_run (fetch (fst rs) i) (\<lambda>s.
     bind_run (fetch (snd rs) i) (\<lambda>e.
     if s < ip \<and> e > ip then
       bind_run (node_of temp_to_node i) (\<lambda>node. ra_add_node_interference g node acc_node)
     else ret g))) [0..<n]"

definition payload_reg :: "nat option list \<Rightarrow> qinst \<Rightarrow> ra_graph \<Rightarrow> ra_graph run" where
  "payload_reg temp_to_node inst g =
     bind_run (fetch (qi_src inst) 0) (\<lambda>src.
     if q_file src = QFILE_REG \<and> q_index src \<in> {0, 1, 2} then
       bind_run (assert_run (alu_op (mul_part inst) = V3D_QPU_M_MOV)) (\<lambda>_.
       bind_run (assert_run (q_file (qi_dst inst) = QFILE_TEMP)) (\<lambda>_.
       bind_run (node_of temp_to_node (q_index (qi_dst inst))) (\<lambda>node.
       ra_set_node_reg g node (PHYS_INDEX + q_index src))))
     else ret g)"

definition inst_constraints :: "nat option list \<Rightarrow> live_ranges \<Rightarrow> nat \<Rightarrow> qinst \<Rightarrow> ra_graph \<times> int \<Rightarrow> (ra_graph \<times> int) run" where
  "inst_constraints temp_to_node rs n inst = (\<lambda>(g, ip).
     bind_run (vir_writes_r3 inst) (\<lambda>r3.
     bind_run (if r3 then avoid_acc temp_to_node rs n ip (n + 3) g else ret g) (\<lambda>g.
     bind_run (if vir_writes_r4 inst then avoid_acc temp_to_node rs n ip (n + 4) g else ret g) (\<lambda>g.
     bind_run (payload_reg temp_to_node inst g) (\<lambda>g.
     ret (g, ip + 1))))))"

section \<open>The graph of a program\<close>

definition set_classes :: "nat option list \<Rightarrow> nat \<Rightarrow> nat \<Rightarrow> ra_graph \<Rightarrow> ra_graph run" where
  "set_classes temp_to_node n c = fold_run (\<lambda>i g.
     bind_run (node_of temp_to_node i) (\<lambda>node. ra_set_node_class g node c)) [0..<n]"

definition interferes :: "live_ranges \<Rightarrow> nat \<Rightarrow> nat \<Rightarrow> bool run" where
  "interferes rs i j =
     bind_run (fetch (fst rs) i) (\<lambda>si. bind_run (fetch (snd rs) j) (\<lambda>ej.
     bind_run (fetch (fst rs) j) (\<lambda>sj. bind_run (fetch (snd rs) i) (\<lambda>ei.
     ret (\<not> (si \<ge> ej \<or> sj \<ge> ei))))))"

definition add_interferences :: "nat option list \<Rightarrow> live_ranges \<Rightarrow> nat \<Rightarrow> ra_graph \<Rightarrow> ra_graph run" where
  "add_interferences temp_to_node rs n = fold_run (\<lambda>i. fold_run (\<lambda>j g.
     bind_run (interferes rs i j) (\<lambda>b.
     if b then
       bind_run (node_of temp_to_node i) (\<lambda>ni. bind_run (node_of temp_to_node j) (\<lambda>nj. ra_add_node_interference g ni nj))
     else ret g)) [i + 1..<n]) [0..<n]"

definition temp_register :: "ra_graph \<Rightarrow> nat option list \<Rightarrow> live_ranges \<Rightarrow> nat \<Rightarrow> qpu_reg run" where
  "temp_register g temp_to_node rs i =
     bind_run (node_of temp_to_node i) (\<lambda>node.
     bind_run (ra_get_node_reg g node) (\<lambda>ra_reg.
     bind_run (fetch (fst rs) i) (\<lambda>s.
     bind_run (fetch (snd rs) i) (\<lambda>e.
     let reg = (if ra_reg < PHYS_INDEX
                then \<lparr>qr_magic = True, qr_index = unat V3D_QPU_WADDR_R0 + ra_reg - ACC_INDEX\<rparr>
                else \<lparr>qr_magic = False, qr_index = ra_reg - PHYS_INDEX\<rparr>)
     in ret (if s = e then \<lparr>qr_magic = True, qr_index = unat V3D_QPU_WADDR_NOP\<rparr> else reg)))))"

definition v3d_register_allocate :: "c_qsort \<Rightarrow> v3d_compiler \<Rightarrow> v3d_compile \<Rightarrow> (v3d_compile \<times> qpu_reg list option) run" where
  "v3d_register_allocate qsort compiler c =
     (let n = num_temps c;
          g = ra_alloc_interference_graph (vc_regs compiler) (n + ACC_COUNT)
      in
      bind_run (fold_run (\<lambda>i g. ra_set_node_reg g (n + i) (ACC_INDEX + i)) [0..<ACC_COUNT] g) (\<lambda>g.
      bind_run (vir_calculate_live_intervals c) (\<lambda>c.
      case (temp_start c, temp_end c) of
        (Some ts, Some te) \<Rightarrow>
          let rs = (ts, te) in
          bind_run (temp_map rs n) (\<lambda>map.
          bind_run (number_nodes (qsort node_to_temp_priority map) n) (\<lambda>temp_to_node.
          bind_run (fold_run (inst_constraints temp_to_node rs n) (concat (List.map qb_instructions (c_blocks c))) (g, 0)) (\<lambda>(g, ip).
          bind_run (fetch (vc_reg_class compiler) (if fs_threaded c then 1 else 0)) (\<lambda>cl.
          bind_run (set_classes temp_to_node n cl g) (\<lambda>g.
          bind_run (add_interferences temp_to_node rs n g) (\<lambda>g.
          bind_run (ra_allocate None () g) (\<lambda>(g, ok).
          if \<not> ok then ret (c\<lparr>c_failed := True\<rparr>, None)
          else bind_run (map_run (temp_register g temp_to_node rs) [0..<n]) (\<lambda>temp_registers.
               ret (c, Some temp_registers)))))))))
      | _ \<Rightarrow> fault Out_Of_Bounds)))"

end
