(* ===== verification/Vir_Scan.thy ===== *)
theory Vir_Scan
  imports Vir_Live
begin

text \<open>
  The scan over the instructions of a block: after it the bit sets of the block are the temporaries
  whose value on entry the block reads and those it overwrites first, and the range of every
  temporary covers the instructions that mention it.
\<close>

section \<open>What instructions do to temporaries\<close>

definition reads_temp :: "qinst \<Rightarrow> nat \<Rightarrow> bool" where
  "reads_temp inst v \<longleftrightarrow> (\<exists>i < vir_get_nsrc inst. q_file (qi_src inst ! i) = QFILE_TEMP \<and> q_index (qi_src inst ! i) = v)"

definition writes_temp :: "qinst \<Rightarrow> nat \<Rightarrow> bool" where
  "writes_temp inst v \<longleftrightarrow> instr_type (qi_qpu inst) = V3D_QPU_INSTR_TYPE_ALU \<and> q_file (qi_dst inst) = QFILE_TEMP \<and>
     q_index (qi_dst inst) = v"

text \<open>
  What the scan takes for a write that screens off earlier values: one that is unconditional, packed or not, or one that depends on nothing but the
  execution mask and writes the whole register. This is how the code behaves, not what a packed write does; \<open>Vir_Spec\<close> compares the two.
\<close>

definition kills :: "qinst \<Rightarrow> nat \<Rightarrow> bool" where
  "kills inst v \<longleftrightarrow> writes_temp inst v \<and> (unconditional inst \<or> cond_is_exec_mask inst \<and> unpacked inst)"

definition payload :: "qinst \<Rightarrow> bool" where
  "payload inst \<longleftrightarrow> q_file (qi_src inst ! 0) = QFILE_REG \<and> q_index (qi_src inst ! 0) \<in> {0, 1, 2}"

definition inst_ok :: "nat \<Rightarrow> qinst \<Rightarrow> bool" where
  "inst_ok n inst \<longleftrightarrow> length (qi_src inst) = 3 \<and> (\<forall>i < vir_get_nsrc inst. q_file (qi_src inst ! i) = QFILE_TEMP \<longrightarrow> q_index (qi_src inst ! i) < n) \<and>
     (q_file (qi_dst inst) = QFILE_TEMP \<longrightarrow> q_index (qi_dst inst) < n) \<and> (payload inst \<longrightarrow> q_index (qi_dst inst) < n)"

lemma inst_okD:
  assumes "inst_ok n inst"
  shows "length (qi_src inst) = 3" "i < vir_get_nsrc inst \<Longrightarrow> q_file (qi_src inst ! i) = QFILE_TEMP \<Longrightarrow> q_index (qi_src inst ! i) < n"
    "q_file (qi_dst inst) = QFILE_TEMP \<Longrightarrow> q_index (qi_dst inst) < n" "payload inst \<Longrightarrow> q_index (qi_dst inst) < n"
    "reads_temp inst v \<Longrightarrow> v < n" "writes_temp inst v \<Longrightarrow> v < n"
  using assms by (auto simp: inst_ok_def reads_temp_def writes_temp_def)

definition killed :: "qinst list \<Rightarrow> nat \<Rightarrow> bool" where
  "killed xs v \<longleftrightarrow> (\<exists>x\<in>set xs. kills x v)"

definition exposed :: "qinst list \<Rightarrow> nat \<Rightarrow> bool" where
  "exposed xs v \<longleftrightarrow> (\<exists>k < length xs. reads_temp (xs ! k) v \<and> \<not> killed (take k xs) v)"

lemma killed_simps [simp]: "\<not> killed [] v" "killed (xs @ [x]) v \<longleftrightarrow> killed xs v \<or> kills x v"
  by (auto simp: killed_def)

lemma exposed_simps [simp]: "\<not> exposed [] v" "exposed (xs @ [x]) v \<longleftrightarrow> exposed xs v \<or> reads_temp x v \<and> \<not> killed xs v"
proof -
  show "\<not> exposed [] v" by (simp add: exposed_def)
  have "exposed (xs @ [x]) v \<longleftrightarrow> (\<exists>k < Suc (length xs). reads_temp ((xs @ [x]) ! k) v \<and> \<not> killed (take k (xs @ [x])) v)"
    by (simp add: exposed_def)
  also have "\<dots> \<longleftrightarrow> (\<exists>k < length xs. reads_temp ((xs @ [x]) ! k) v \<and> \<not> killed (take k (xs @ [x])) v) \<or> reads_temp x v \<and> \<not> killed xs v"
    by (auto simp: less_Suc_eq)
  finally show "exposed (xs @ [x]) v \<longleftrightarrow> exposed xs v \<or> reads_temp x v \<and> \<not> killed xs v"
    by (auto simp: exposed_def nth_append)
qed

section \<open>Ranges\<close>

definition ranges_ok :: "nat \<Rightarrow> live_ranges \<Rightarrow> bool" where
  "ranges_ok n rs \<longleftrightarrow> length (fst rs) = n \<and> length (snd rs) = n \<and> (\<forall>v < n. 0 \<le> fst rs ! v)"

definition covers :: "live_ranges \<Rightarrow> nat \<Rightarrow> int \<Rightarrow> bool" where
  "covers rs v ip \<longleftrightarrow> fst rs ! v \<le> ip \<and> ip \<le> snd rs ! v"

definition widened :: "nat \<Rightarrow> live_ranges \<Rightarrow> live_ranges \<Rightarrow> bool" where
  "widened n rs rs' \<longleftrightarrow> ranges_ok n rs' \<and> (\<forall>v < n. fst rs' ! v \<le> fst rs ! v \<and> snd rs ! v \<le> snd rs' ! v)"

lemma widened_refl: "ranges_ok n rs \<Longrightarrow> widened n rs rs"
  by (simp add: widened_def)

lemma widened_trans: "widened n rs rs' \<Longrightarrow> widened n rs' rs'' \<Longrightarrow> widened n rs rs''"
  by (force simp: widened_def)

lemma widened_ok: "widened n rs rs' \<Longrightarrow> ranges_ok n rs'"
  by (simp add: widened_def)

lemma covers_widened: "covers rs v ip \<Longrightarrow> widened n rs rs' \<Longrightarrow> v < n \<Longrightarrow> covers rs' v ip"
  by (force simp: widened_def covers_def)

lemma extend_range_ok:
  assumes "ranges_ok n rs" "v < n" "0 \<le> ip"
  shows "\<exists>rs'. extend_range rs v ip = ret rs' \<and> widened n rs rs' \<and> covers rs' v ip"
  using assms
  by (intro exI [of _ "((fst rs)[v := min (fst rs ! v) ip], (snd rs)[v := max (snd rs ! v) ip])"])
    (auto simp: extend_range_def update_at_def ranges_ok_def widened_def covers_def nth_list_update)

section \<open>Sources\<close>

lemma var_of_reg [simp]: "vir_reg_to_var r = -1 \<longleftrightarrow> q_file r \<noteq> QFILE_TEMP" "q_file r = QFILE_TEMP \<Longrightarrow> nat (vir_reg_to_var r) = q_index r"
  by (auto simp: vir_reg_to_var_def)

lemma setup_use_ok:
  assumes "ranges_ok n rs" "0 \<le> ip" "length (qb_use block) = BITSET_WORDS n" "length (qb_def block) = BITSET_WORDS n"
    and "q_file src = QFILE_TEMP \<Longrightarrow> q_index src < n"
  shows "\<exists>use rs'. vir_setup_use block rs ip src = ret (block\<lparr>qb_use := use\<rparr>, rs') \<and> widened n rs rs' \<and>
    length use = BITSET_WORDS n \<and>
    (\<forall>v. bmem use v \<longleftrightarrow> bmem (qb_use block) v \<or> q_file src = QFILE_TEMP \<and> q_index src = v \<and> \<not> bmem (qb_def block) v) \<and>
    (q_file src = QFILE_TEMP \<longrightarrow> covers rs' (q_index src) ip)"
proof (cases "q_file src = QFILE_TEMP")
  case True
  let ?v = "q_index src"
  have v: "?v < n" "?v < 32 * BITSET_WORDS n" using assms(5) True WORDS_enough by auto
  obtain rs' where rs': "extend_range rs ?v ip = ret rs'" "widened n rs rs'" "covers rs' ?v ip"
    using extend_range_ok [OF assms(1) v(1) assms(2)] by blast
  have t: "BITSET_TEST (qb_def block) ?v = ret (bmem (qb_def block) ?v)" using v(2) assms(4) by (simp add: BITSET_TEST_eq)
  show ?thesis
  proof (cases "bmem (qb_def block) ?v")
    case d: True
    then show ?thesis using True rs' t assms(3) by (intro exI [of _ "qb_use block"] exI [of _ rs']) (auto simp: vir_setup_use_def)
  next
    case d: False
    obtain use where "BITSET_SET (qb_use block) ?v = ret use" "length use = BITSET_WORDS n"
      "\<And>v. bmem use v \<longleftrightarrow> v = ?v \<or> bmem (qb_use block) v"
      using BITSET_SET_eq [of ?v "qb_use block"] v(2) assms(3) by auto
    then show ?thesis using True rs' t d by (intro exI [of _ use] exI [of _ rs']) (auto simp: vir_setup_use_def)
  qed
next
  case False
  then show ?thesis
    using assms(1,3) widened_refl by (intro exI [of _ "qb_use block"] exI [of _ rs]) (auto simp: vir_setup_use_def)
qed

lemma setup_uses_ok:
  assumes "ranges_ok n rs" "0 \<le> ip" "length (qb_use block) = BITSET_WORDS n" "length (qb_def block) = BITSET_WORDS n"
    and "\<And>i. i \<in> set ids \<Longrightarrow> i < length src \<and> (q_file (src ! i) = QFILE_TEMP \<longrightarrow> q_index (src ! i) < n)"
  shows "\<exists>use rs'. fold_run (\<lambda>i (block, rs). bind_run (fetch src i) (\<lambda>src. vir_setup_use block rs ip src)) ids (block, rs) =
      ret (block\<lparr>qb_use := use\<rparr>, rs') \<and> widened n rs rs' \<and> length use = BITSET_WORDS n \<and>
    (\<forall>v. bmem use v \<longleftrightarrow> bmem (qb_use block) v \<or>
      (\<exists>i\<in>set ids. q_file (src ! i) = QFILE_TEMP \<and> q_index (src ! i) = v) \<and> \<not> bmem (qb_def block) v) \<and>
    (\<forall>i\<in>set ids. q_file (src ! i) = QFILE_TEMP \<longrightarrow> covers rs' (q_index (src ! i)) ip)"
  using assms
proof (induction ids arbitrary: block rs)
  case Nil
  then show ?case using widened_refl by (intro exI [of _ "qb_use block"] exI [of _ rs]) auto
next
  case (Cons i ids)
  have i: "i < length src" "q_file (src ! i) = QFILE_TEMP \<Longrightarrow> q_index (src ! i) < n" using Cons.prems(5) [of i] by auto
  obtain use rs1 where s: "vir_setup_use block rs ip (src ! i) = ret (block\<lparr>qb_use := use\<rparr>, rs1)" "widened n rs rs1"
    "length use = BITSET_WORDS n"
    "\<And>v. bmem use v \<longleftrightarrow> bmem (qb_use block) v \<or> q_file (src ! i) = QFILE_TEMP \<and> q_index (src ! i) = v \<and> \<not> bmem (qb_def block) v"
    "q_file (src ! i) = QFILE_TEMP \<Longrightarrow> covers rs1 (q_index (src ! i)) ip"
    using setup_use_ok [OF Cons.prems(1-4) i(2)] by blast
  let ?b = "block\<lparr>qb_use := use\<rparr>"
  have ids: "\<And>j. j \<in> set ids \<Longrightarrow> j < length src \<and> (q_file (src ! j) = QFILE_TEMP \<longrightarrow> q_index (src ! j) < n)"
    using Cons.prems(5) by simp
  have lens: "length (qb_use ?b) = BITSET_WORDS n" "length (qb_def ?b) = BITSET_WORDS n" using s(3) Cons.prems(4) by simp_all
  from Cons.IH [OF widened_ok [OF s(2)] Cons.prems(2) lens ids] obtain use' rs' where
    r: "fold_run (\<lambda>i (block, rs). bind_run (fetch src i) (\<lambda>src. vir_setup_use block rs ip src)) ids (?b, rs1) =
      ret (?b\<lparr>qb_use := use'\<rparr>, rs')" "widened n rs1 rs'" "length use' = BITSET_WORDS n"
      "\<forall>v. bmem use' v \<longleftrightarrow> bmem use v \<or> (\<exists>i\<in>set ids. q_file (src ! i) = QFILE_TEMP \<and> q_index (src ! i) = v) \<and> \<not> bmem (qb_def block) v"
      "\<forall>i\<in>set ids. q_file (src ! i) = QFILE_TEMP \<longrightarrow> covers rs' (q_index (src ! i)) ip"
    by auto
  have "covers rs' (q_index (src ! i)) ip" if "q_file (src ! i) = QFILE_TEMP"
    using covers_widened [OF s(5) [OF that] r(2) i(2) [OF that]] .
  then show ?case
    using s(1,4) r i(1) widened_trans [OF s(2) r(2)] by (intro exI [of _ use'] exI [of _ rs']) auto
qed

section \<open>Destinations\<close>

text \<open>The state after the instructions \<open>xs\<close> of a block.\<close>

definition scanned :: "nat \<Rightarrow> qinst list \<Rightarrow> qblock \<Rightarrow> partial_updates \<Rightarrow> bool" where
  "scanned n xs block ht \<longleftrightarrow> length (qb_use block) = BITSET_WORDS n \<and> length (qb_def block) = BITSET_WORDS n \<and>
     (\<forall>v. bmem (qb_use block) v = exposed xs v) \<and> (\<forall>v. bmem (qb_def block) v = (killed xs v \<and> \<not> exposed xs v)) \<and>
     (\<forall>v st. ht v = Some st \<and> pu_channels st \<noteq> 0 \<longrightarrow> bmem (qb_def block) v)"

text \<open>The state after the sources of the next instruction \<open>x\<close>.\<close>

definition scanned_src :: "nat \<Rightarrow> qinst list \<Rightarrow> qinst \<Rightarrow> qblock \<Rightarrow> partial_updates \<Rightarrow> bool" where
  "scanned_src n xs x block ht \<longleftrightarrow> length (qb_use block) = BITSET_WORDS n \<and> length (qb_def block) = BITSET_WORDS n \<and>
     (\<forall>v. bmem (qb_use block) v = exposed (xs @ [x]) v) \<and> (\<forall>v. bmem (qb_def block) v = (killed xs v \<and> \<not> exposed xs v)) \<and>
     (\<forall>v st. ht v = Some st \<and> pu_channels st \<noteq> 0 \<longrightarrow> bmem (qb_def block) v)"

lemma setup_def_ok:
  assumes ok: "inst_ok n x" and rs: "ranges_ok n rs" "0 \<le> ip" and sc: "scanned_src n xs x block ht"
  shows "\<exists>def rs' ht'. vir_setup_def block rs ip ht x = ret (block\<lparr>qb_def := def\<rparr>, rs', ht') \<and> widened n rs rs' \<and>
    scanned n (xs @ [x]) (block\<lparr>qb_def := def\<rparr>) ht' \<and> (\<forall>v. writes_temp x v \<longrightarrow> covers rs' v ip)"
proof (cases "instr_type (qi_qpu x) = V3D_QPU_INSTR_TYPE_ALU \<and> q_file (qi_dst x) = QFILE_TEMP")
  case False
  then have "\<not> writes_temp x v" "\<not> kills x v" for v by (auto simp: writes_temp_def kills_def)
  moreover from this have "scanned n (xs @ [x]) block ht" using sc by (auto simp: scanned_def scanned_src_def)
  ultimately show ?thesis
    using False widened_refl [OF rs(1)]
    by (intro exI [of _ "qb_def block"] exI [of _ rs] exI [of _ ht]) (auto simp: vir_setup_def_def)
next
  case True
  define v where "v = q_index (qi_dst x)"
  have v: "v < n" "v < 32 * BITSET_WORDS n" using inst_okD(3) [OF ok] True WORDS_enough by (auto simp: v_def)
  have w: "writes_temp x u \<longleftrightarrow> u = v" for u using True by (auto simp: writes_temp_def v_def)
  have k: "kills x u \<longleftrightarrow> u = v \<and> (unconditional x \<or> cond_is_exec_mask x \<and> unpacked x)" for u by (auto simp: kills_def w)
  obtain rs' where rs': "extend_range rs v ip = ret rs'" "widened n rs rs'" "covers rs' v ip"
    using extend_range_ok [OF rs(1) v(1) rs(2)] by blast
  have S: "length (qb_use block) = BITSET_WORDS n" "length (qb_def block) = BITSET_WORDS n"
    "\<And>u. bmem (qb_use block) u = exposed (xs @ [x]) u" "\<And>u. bmem (qb_def block) u = (killed xs u \<and> \<not> exposed xs u)"
    "\<And>u st. ht u = Some st \<Longrightarrow> pu_channels st \<noteq> 0 \<Longrightarrow> bmem (qb_def block) u"
    using sc by (auto simp: scanned_src_def)
  have t: "BITSET_TEST (qb_use block) v = ret (bmem (qb_use block) v)" "BITSET_TEST (qb_def block) v = ret (bmem (qb_def block) v)"
    using v(2) S(1,2) by (simp_all add: BITSET_TEST_eq)
  have e: "nat (vir_reg_to_var (qi_dst x)) = v" "vir_reg_to_var (qi_dst x) \<noteq> -1" using True by (simp_all add: v_def)
  note start = vir_setup_def_def [of block rs ip ht x, unfolded Let_def e(1)]
  obtain def where d: "BITSET_SET (qb_def block) v = ret def" "length def = BITSET_WORDS n"
    "\<And>u. bmem def u \<longleftrightarrow> u = v \<or> bmem (qb_def block) u"
    using BITSET_SET_eq [of v "qb_def block"] v(2) S(2) by auto
  consider (seen) "bmem (qb_use block) v \<or> bmem (qb_def block) v"
    | (full) "\<not> (bmem (qb_use block) v \<or> bmem (qb_def block) v)" "(unconditional x \<or> cond_is_exec_mask x) \<and> unpacked x"
    | (packed) "\<not> (bmem (qb_use block) v \<or> bmem (qb_def block) v)" "unconditional x" "\<not> unpacked x"
    | (partial) "\<not> (bmem (qb_use block) v \<or> bmem (qb_def block) v)" "\<not> unconditional x" "\<not> (cond_is_exec_mask x \<and> unpacked x)"
    by blast
  then show ?thesis
  proof cases
    case seen
    have "vir_setup_def block rs ip ht x = ret (block, rs', ht)" using start True e rs'(1) t seen by simp
    moreover have "scanned n (xs @ [x]) block ht" using S seen by (auto simp: scanned_def k)
    ultimately show ?thesis using rs' w by (intro exI [of _ "qb_def block"] exI [of _ rs'] exI [of _ ht]) auto
  next
    case full
    have "vir_setup_def block rs ip ht x = ret (block\<lparr>qb_def := def\<rparr>, rs', ht)" using start True e rs'(1) t full d(1) by simp
    moreover have "scanned n (xs @ [x]) (block\<lparr>qb_def := def\<rparr>) ht" using S full d by (auto simp: scanned_def k)
    ultimately show ?thesis using rs' w by (intro exI [of _ def] exI [of _ rs'] exI [of _ ht]) auto
  next
    case packed
    define st where "st = (get_partial_update_state ht x)\<lparr>pu_channels := pu_channels (get_partial_update_state ht x) OR 0xf\<rparr>"
    have "pu_channels (get_partial_update_state ht x) = 0"
      using S(5) [of v] packed(1) by (auto simp: get_partial_update_state_def v_def split: option.splits)
    then have "pu_channels st = 0xf" by (simp add: st_def)
    then have "vir_setup_def block rs ip ht x = ret (block\<lparr>qb_def := def\<rparr>, rs', ht(v \<mapsto> st))"
      using start True e rs'(1) t packed d(1) by (simp add: st_def v_def)
    moreover have "scanned n (xs @ [x]) (block\<lparr>qb_def := def\<rparr>) (ht(v \<mapsto> st))"
      using S packed d by (auto simp: scanned_def k split: if_splits)
    ultimately show ?thesis using rs' w by (intro exI [of _ def] exI [of _ rs'] exI [of _ "ht(v \<mapsto> st)"]) auto
  next
    case partial
    define st where "st = (get_partial_update_state ht x)\<lparr>pu_insts := map (\<lambda>i. if bit (0xf :: u8) i then Some x
        else pu_insts (get_partial_update_state ht x) ! i) [0..<4]\<rparr>"
    have "pu_channels st = 0"
      using S(5) [of v] partial(1) by (auto simp: st_def get_partial_update_state_def v_def split: option.splits)
    moreover from this have "vir_setup_def block rs ip ht x = ret (block, rs', ht(v \<mapsto> st))"
      using start True e rs'(1) t partial by (auto simp: st_def v_def)
    moreover have "\<not> kills x u" for u using partial k by auto
    then have "scanned n (xs @ [x]) block (ht(v \<mapsto> st))"
      using S partial \<open>pu_channels st = 0\<close> by (auto simp: scanned_def split: if_splits)
    ultimately show ?thesis using rs' w by (intro exI [of _ "qb_def block"] exI [of _ rs'] exI [of _ "ht(v \<mapsto> st)"]) auto
  qed
qed

section \<open>Blocks\<close>

definition mentions :: "qinst \<Rightarrow> nat \<Rightarrow> bool" where
  "mentions inst v \<longleftrightarrow> reads_temp inst v \<or> writes_temp inst v"

lemma setup_payload_ok:
  assumes "inst_ok n x" "ranges_ok n rs"
  shows "\<exists>rs'. setup_payload rs x = ret rs' \<and> widened n rs rs'"
proof (cases "payload x")
  case True
  let ?d = "q_index (qi_dst x)"
  have "?d < n" "0 < length (qi_src x)" using inst_okD(1,4) [OF assms(1)] True by auto
  then show ?thesis
    using True assms(2) by (intro exI [of _ "((fst rs)[?d := 0], snd rs)"])
      (auto simp: setup_payload_def payload_def update_at_def ranges_ok_def widened_def nth_list_update)
next
  case False
  then show ?thesis
    using inst_okD(1) [OF assms(1)] widened_refl [OF assms(2)] by (intro exI [of _ rs]) (auto simp: setup_payload_def payload_def)
qed

lemma setup_inst_ok:
  assumes ok: "inst_ok n x" and rs: "ranges_ok n rs" "0 \<le> ip" and sc: "scanned n xs block ht"
  shows "\<exists>use def rs' ht'. setup_inst x (block, rs, ht, ip) = ret (block\<lparr>qb_use := use, qb_def := def\<rparr>, rs', ht', ip + 1) \<and>
    widened n rs rs' \<and> scanned n (xs @ [x]) (block\<lparr>qb_use := use, qb_def := def\<rparr>) ht' \<and> (\<forall>v. mentions x v \<longrightarrow> covers rs' v ip)"
proof -
  have S: "length (qb_use block) = BITSET_WORDS n" "length (qb_def block) = BITSET_WORDS n"
    "\<And>u. bmem (qb_use block) u = exposed xs u" "\<And>u. bmem (qb_def block) u = (killed xs u \<and> \<not> exposed xs u)"
    "\<And>u st. ht u = Some st \<Longrightarrow> pu_channels st \<noteq> 0 \<Longrightarrow> bmem (qb_def block) u"
    using sc by (auto simp: scanned_def)
  have ids: "\<And>i. i \<in> set [0..<vir_get_nsrc x] \<Longrightarrow> i < length (qi_src x) \<and> (q_file (qi_src x ! i) = QFILE_TEMP \<longrightarrow> q_index (qi_src x ! i) < n)"
    using inst_okD(1,2) [OF ok] nsrc_le [of x] by simp
  obtain use rs1 where u: "fold_run (\<lambda>i (block, rs). bind_run (fetch (qi_src x) i) (\<lambda>src. vir_setup_use block rs ip src))
      [0..<vir_get_nsrc x] (block, rs) = ret (block\<lparr>qb_use := use\<rparr>, rs1)" "widened n rs rs1" "length use = BITSET_WORDS n"
    "\<And>v. bmem use v \<longleftrightarrow> bmem (qb_use block) v \<or> (\<exists>i\<in>set [0..<vir_get_nsrc x]. q_file (qi_src x ! i) = QFILE_TEMP \<and>
       q_index (qi_src x ! i) = v) \<and> \<not> bmem (qb_def block) v"
    "\<And>i. i < vir_get_nsrc x \<Longrightarrow> q_file (qi_src x ! i) = QFILE_TEMP \<Longrightarrow> covers rs1 (q_index (qi_src x ! i)) ip"
    using setup_uses_ok [where ids = "[0..<vir_get_nsrc x]", OF rs S(1,2) ids] by auto
  have "scanned_src n xs x (block\<lparr>qb_use := use\<rparr>) ht"
    using S u(3,4) by (auto simp: scanned_src_def reads_temp_def)
  from setup_def_ok [OF ok widened_ok [OF u(2)] rs(2) this] obtain def rs2 ht' where
    d: "vir_setup_def (block\<lparr>qb_use := use\<rparr>) rs1 ip ht x = ret (block\<lparr>qb_use := use, qb_def := def\<rparr>, rs2, ht')" "widened n rs1 rs2"
      "scanned n (xs @ [x]) (block\<lparr>qb_use := use, qb_def := def\<rparr>) ht'" "\<And>v. writes_temp x v \<Longrightarrow> covers rs2 v ip"
    by blast
  obtain rs3 where p: "setup_payload rs2 x = ret rs3" "widened n rs2 rs3"
    using setup_payload_ok [OF ok widened_ok [OF d(2)]] by blast
  have run: "setup_inst x (block, rs, ht, ip) = ret (block\<lparr>qb_use := use, qb_def := def\<rparr>, rs3, ht', ip + 1)"
    using u(1) d(1) p(1) by (simp add: setup_inst_def)
  have "covers rs3 v ip" if "mentions x v" for v
  proof -
    have "covers rs2 v ip"
      using that d(4) covers_widened [OF u(5) d(2)] inst_okD(2) [OF ok] by (auto simp: mentions_def reads_temp_def)
    then show ?thesis using covers_widened [OF _ p(2)] that inst_okD(5,6) [OF ok] by (auto simp: mentions_def)
  qed
  then show ?thesis
    using run d(3) widened_trans [OF widened_trans [OF u(2) d(2)] p(2)] by blast
qed

lemma setup_insts_ok:
  assumes "\<And>x. x \<in> set ys \<Longrightarrow> inst_ok n x" "ranges_ok n rs" "0 \<le> ip" "scanned n xs block ht"
  shows "\<exists>use def rs' ht'. fold_run setup_inst ys (block, rs, ht, ip) =
      ret (block\<lparr>qb_use := use, qb_def := def\<rparr>, rs', ht', ip + int (length ys)) \<and> widened n rs rs' \<and>
    scanned n (xs @ ys) (block\<lparr>qb_use := use, qb_def := def\<rparr>) ht' \<and>
    (\<forall>k < length ys. \<forall>v. mentions (ys ! k) v \<longrightarrow> covers rs' v (ip + int k))"
  using assms
proof (induction ys arbitrary: xs block rs ht ip)
  case Nil
  then show ?case
    using widened_refl by (intro exI [of _ "qb_use block"] exI [of _ "qb_def block"] exI [of _ rs] exI [of _ ht]) simp
next
  case (Cons y ys)
  obtain use def rs1 ht1 where s: "setup_inst y (block, rs, ht, ip) = ret (block\<lparr>qb_use := use, qb_def := def\<rparr>, rs1, ht1, ip + 1)"
    "widened n rs rs1" "scanned n (xs @ [y]) (block\<lparr>qb_use := use, qb_def := def\<rparr>) ht1" "\<And>v. mentions y v \<Longrightarrow> covers rs1 v ip"
    using setup_inst_ok [OF Cons.prems(1) Cons.prems(2-4), of y] by auto
  have ip: "0 \<le> ip + 1" using Cons.prems(3) by simp
  from Cons.IH [OF Cons.prems(1) widened_ok [OF s(2)] ip s(3)] obtain use' def' rs' ht' where
    r: "fold_run setup_inst ys (block\<lparr>qb_use := use, qb_def := def\<rparr>, rs1, ht1, ip + 1) =
      ret (block\<lparr>qb_use := use', qb_def := def'\<rparr>, rs', ht', ip + 1 + int (length ys))" "widened n rs1 rs'"
      "scanned n (xs @ y # ys) (block\<lparr>qb_use := use', qb_def := def'\<rparr>) ht'"
      "\<And>k v. k < length ys \<Longrightarrow> mentions (ys ! k) v \<Longrightarrow> covers rs' v (ip + 1 + int k)"
    by auto
  have "covers rs' v (ip + int k)" if "k < length (y # ys)" "mentions ((y # ys) ! k) v" for k v
  proof (cases k)
    case 0
    then have "mentions y v" using that by simp
    then show ?thesis
      using covers_widened [OF s(4) r(2)] inst_okD(5,6) [OF Cons.prems(1), of y v] 0 by (auto simp: mentions_def)
  next
    case (Suc j)
    then show ?thesis using r(4) [of j v] that by (simp add: algebra_simps)
  qed
  moreover have "fold_run setup_inst (y # ys) (block, rs, ht, ip) =
      ret (block\<lparr>qb_use := use', qb_def := def'\<rparr>, rs', ht', ip + int (length (y # ys)))"
    using s(1) r(1) by (simp add: algebra_simps)
  ultimately show ?case using r(3) widened_trans [OF s(2) r(2)] by blast
qed

text \<open>What the scan leaves in a block.\<close>

definition block_info :: "nat \<Rightarrow> int \<Rightarrow> qblock \<Rightarrow> bool" where
  "block_info n ip b \<longleftrightarrow> start_ip b = ip \<and> end_ip b = ip + int (length (qb_instructions b)) \<and>
     length (qb_use b) = BITSET_WORDS n \<and> length (qb_def b) = BITSET_WORDS n \<and>
     (\<forall>v. bmem (qb_use b) v = exposed (qb_instructions b) v) \<and>
     (\<forall>v. bmem (qb_def b) v = (killed (qb_instructions b) v \<and> \<not> exposed (qb_instructions b) v))"

definition same_flow :: "qblock \<Rightarrow> qblock \<Rightarrow> bool" where
  "same_flow b b' \<longleftrightarrow> qb_instructions b' = qb_instructions b \<and> qb_successors b' = qb_successors b \<and>
     qb_live_in b' = qb_live_in b \<and> qb_live_out b' = qb_live_out b"

definition clear_block :: "nat \<Rightarrow> qblock \<Rightarrow> bool" where
  "clear_block n b \<longleftrightarrow> qb_use b = replicate (BITSET_WORDS n) 0 \<and> qb_def b = replicate (BITSET_WORDS n) 0 \<and>
     (\<forall>x\<in>set (qb_instructions b). inst_ok n x)"

lemma setup_block_ok:
  assumes cl: "clear_block n b" and rs: "ranges_ok n rs" "0 \<le> ip"
  shows "\<exists>b' rs'. setup_block b rs ip = ret (b', rs', ip + int (length (qb_instructions b))) \<and> widened n rs rs' \<and>
    block_info n ip b' \<and> same_flow b b' \<and>
    (\<forall>k < length (qb_instructions b). \<forall>v. mentions (qb_instructions b ! k) v \<longrightarrow> covers rs' v (ip + int k))"
proof -
  let ?b = "b\<lparr>start_ip := ip\<rparr>"
  have "scanned n [] ?b Map.empty" using cl by (simp add: scanned_def clear_block_def)
  moreover have "\<And>x. x \<in> set (qb_instructions b) \<Longrightarrow> inst_ok n x" using cl by (simp add: clear_block_def)
  ultimately obtain use def rs' ht' where
    s: "fold_run setup_inst (qb_instructions b) (?b, rs, Map.empty, ip) =
      ret (?b\<lparr>qb_use := use, qb_def := def\<rparr>, rs', ht', ip + int (length (qb_instructions b)))" "widened n rs rs'"
      "scanned n (qb_instructions b) (?b\<lparr>qb_use := use, qb_def := def\<rparr>) ht'"
      "\<forall>k < length (qb_instructions b). \<forall>v. mentions (qb_instructions b ! k) v \<longrightarrow> covers rs' v (ip + int k)"
    using setup_insts_ok [of "qb_instructions b" n rs ip "[]" ?b Map.empty] rs by auto
  let ?b' = "?b\<lparr>qb_use := use, qb_def := def, end_ip := ip + int (length (qb_instructions b))\<rparr>"
  have "setup_block b rs ip = ret (?b', rs', ip + int (length (qb_instructions b)))" using s(1) by (simp add: setup_block_def)
  moreover have "block_info n ip ?b'" "same_flow b ?b'" using s(3) by (simp_all add: block_info_def same_flow_def scanned_def)
  ultimately show ?thesis using s(2,4) by blast
qed

text \<open>The position of the first instruction of a block.\<close>

definition offset :: "qblock list \<Rightarrow> nat \<Rightarrow> int" where
  "offset bs i = int (length (concat (map qb_instructions (take i bs))))"

lemma offset_simps [simp]: "offset bs 0 = 0" "offset (b # bs) (Suc i) = int (length (qb_instructions b)) + offset bs i"
  by (simp_all add: offset_def)

lemma setup_blocks_ok:
  assumes "\<And>b. b \<in> set bs \<Longrightarrow> clear_block n b" "ranges_ok n rs" "0 \<le> ip"
  shows "\<exists>bs' rs'. setup_blocks bs rs ip = ret (bs', rs') \<and> widened n rs rs' \<and> length bs' = length bs \<and>
    (\<forall>i < length bs. block_info n (ip + offset bs i) (bs' ! i) \<and> same_flow (bs ! i) (bs' ! i) \<and>
      (\<forall>k < length (qb_instructions (bs ! i)). \<forall>v. mentions (qb_instructions (bs ! i) ! k) v \<longrightarrow>
         covers rs' v (ip + offset bs i + int k)))"
  using assms
proof (induction bs arbitrary: rs ip)
  case Nil
  then show ?case using widened_refl by simp
next
  case (Cons b bs)
  let ?n = "int (length (qb_instructions b))"
  have cl: "clear_block n b" using Cons.prems(1) by simp
  obtain b' rs1 where s: "setup_block b rs ip = ret (b', rs1, ip + ?n)" "widened n rs rs1" "block_info n ip b'" "same_flow b b'"
    "\<And>k v. k < length (qb_instructions b) \<Longrightarrow> mentions (qb_instructions b ! k) v \<Longrightarrow> covers rs1 v (ip + int k)"
    using setup_block_ok [OF cl Cons.prems(2,3)] by blast
  have "0 \<le> ip + ?n" using Cons.prems(3) by simp
  from Cons.IH [OF Cons.prems(1) widened_ok [OF s(2)] this] obtain bs' rs' where
    r: "setup_blocks bs rs1 (ip + ?n) = ret (bs', rs')" "widened n rs1 rs'" "length bs' = length bs"
      "\<And>i. i < length bs \<Longrightarrow> block_info n (ip + ?n + offset bs i) (bs' ! i) \<and> same_flow (bs ! i) (bs' ! i) \<and>
      (\<forall>k < length (qb_instructions (bs ! i)). \<forall>v. mentions (qb_instructions (bs ! i) ! k) v \<longrightarrow>
         covers rs' v (ip + ?n + offset bs i + int k))"
    by auto
  have first: "covers rs' v (ip + int k)" if "k < length (qb_instructions b)" "mentions (qb_instructions b ! k) v" for k v
  proof -
    have "inst_ok n (qb_instructions b ! k)" using cl that(1) by (simp add: clear_block_def)
    then have "v < n" using that(2) inst_okD(5,6) by (auto simp: mentions_def)
    then show ?thesis using covers_widened [OF s(5) [OF that] r(2)] by simp
  qed
  have "block_info n (ip + offset (b # bs) i) ((b' # bs') ! i) \<and> same_flow ((b # bs) ! i) ((b' # bs') ! i) \<and>
      (\<forall>k < length (qb_instructions ((b # bs) ! i)). \<forall>v. mentions (qb_instructions ((b # bs) ! i) ! k) v \<longrightarrow>
         covers rs' v (ip + offset (b # bs) i + int k))" if "i < length (b # bs)" for i
    using that s(3,4) first r(4) [of "i - 1"] by (cases i) (simp_all add: algebra_simps)
  then show ?case
    using s(1) r(1,3) widened_trans [OF s(2) r(2)] by (intro exI [of _ "b' # bs'"] exI [of _ rs']) simp
qed

end
