(* ===== verification/Vir_Flow.thy ===== *)
theory Vir_Flow
  imports Vir_Scan
begin

text \<open>
  The data-flow iteration: it ends, and the sets it computes are the least solution of the equations
  between the sets of the blocks.
\<close>

unbundle bit_operations_syntax

section \<open>Bit sets\<close>

lemma bmem_list_ex:
  assumes "length x = length y"
  shows "list_ex (\<lambda>(s, b). s AND NOT b \<noteq> 0) (zip x y) \<longleftrightarrow> (\<exists>v. bmem x v \<and> \<not> bmem y v)"
proof -
  have "list_ex (\<lambda>(s, b). s AND NOT b \<noteq> 0) (zip x y) \<longleftrightarrow> (\<exists>w\<in>set (map2 (\<lambda>a b. a AND NOT b) x y). w \<noteq> 0)"
    by (simp add: list_ex_iff split_def)
  also have "\<dots> \<longleftrightarrow> (\<exists>v. bmem x v \<and> \<not> bmem y v)" unfolding bmem_nonzero using bmem_map2(2) [OF assms] by blast
  finally show ?thesis .
qed

lemma map2_merge:
  assumes "length x = length y"
  shows "map2 (\<lambda>s b. let new = s AND NOT b in if new \<noteq> 0 then b OR new else b) x y = map2 (\<lambda>s b. s OR b) x (y :: u32 list)"
    "map2 (\<lambda>n l. if n AND NOT l \<noteq> 0 then l OR n else l) x y = map2 (\<lambda>s b. s OR b) x y"
proof -
  have a: "s OR b = b" if "s AND NOT b = 0" for s b :: u32
    using that by (simp add: bit_eq_iff bit_simps) blast
  have b: "b OR (s AND NOT b) = s OR b" for s b :: u32 by (auto simp: bit_eq_iff bit_simps)
  have "(let new = s AND NOT b in if new \<noteq> 0 then b OR new else b) = s OR b" for s b :: u32
    using a [of s b] b [of b s] by (simp add: Let_def)
  then show "map2 (\<lambda>s b. let new = s AND NOT b in if new \<noteq> 0 then b OR new else b) x y = map2 (\<lambda>s b. s OR b) x y" by simp
  have "(if n AND NOT l \<noteq> 0 then l OR n else l) = n OR l" for n l :: u32 using a [of n l] by (simp add: or.commute)
  then show "map2 (\<lambda>n l. if n AND NOT l \<noteq> 0 then l OR n else l) x y = map2 (\<lambda>s b. s OR b) x y" by simp
qed

lemma or_same:
  assumes "length x = length y" "\<And>v. bmem x v \<Longrightarrow> bmem y v"
  shows "map2 (\<lambda>s b. s OR b) x (y :: u32 list) = y"
proof (rule nth_equalityI)
  fix i assume i: "i < length (map2 (\<lambda>s b. s OR b) x y)"
  have "bit (y ! i) k" if "k < 32" "bit (x ! i) k" for k
  proof -
    have "bmem x (32 * i + k)" using that i assms(1) by (simp add: bmem_def)
    then have "bmem y (32 * i + k)" by (rule assms(2))
    then show ?thesis using that(1) by (simp add: bmem_def)
  qed
  then have "x ! i OR y ! i = y ! i" by (auto simp: bit_eq_iff bit_simps)
  then show "map2 (\<lambda>s b. s OR b) x y ! i = y ! i" using i by simp
qed (simp add: assms(1))

lemma update_live_out_ok:
  assumes "length x = length y"
  shows "\<exists>z. update_live_out x y = (z, \<exists>v. bmem x v \<and> \<not> bmem y v) \<and> length z = length y \<and>
    (\<forall>v. bmem z v \<longleftrightarrow> bmem x v \<or> bmem y v) \<and> ((\<forall>v. bmem x v \<longrightarrow> bmem y v) \<longrightarrow> z = y)"
  unfolding update_live_out_def map2_merge [OF assms] bmem_list_ex [OF assms]
  using assms by (simp add: bmem_map2 or_same)

definition words_ok :: "nat \<Rightarrow> qblock \<Rightarrow> bool" where
  "words_ok n b \<longleftrightarrow> length (qb_use b) = BITSET_WORDS n \<and> length (qb_def b) = BITSET_WORDS n \<and>
     length (qb_live_in b) = BITSET_WORDS n \<and> length (qb_live_out b) = BITSET_WORDS n"

lemma update_live_in_ok:
  assumes "words_ok n b"
  defines "new \<equiv> \<lambda>v. bmem (qb_use b) v \<or> bmem (qb_live_out b) v \<and> \<not> bmem (qb_def b) v"
  shows "\<exists>z. update_live_in b = (z, \<exists>v. new v \<and> \<not> bmem (qb_live_in b) v) \<and> length z = BITSET_WORDS n \<and>
    (\<forall>v. bmem z v \<longleftrightarrow> new v \<or> bmem (qb_live_in b) v) \<and> ((\<forall>v. new v \<longrightarrow> bmem (qb_live_in b) v) \<longrightarrow> z = qb_live_in b)"
proof -
  let ?n = "map2 (\<lambda>u x. u OR x) (qb_use b) (map2 (\<lambda>b d. b AND NOT d) (qb_live_out b) (qb_def b))"
  have len: "length ?n = length (qb_live_in b)" "length (qb_live_in b) = BITSET_WORDS n" using assms(1) by (simp_all add: words_ok_def)
  have mem: "bmem ?n v \<longleftrightarrow> new v" for v using assms(1) by (simp add: new_def words_ok_def bmem_map2)
  show ?thesis
    unfolding update_live_in_def Let_def map2_merge [OF len(1)] bmem_list_ex [OF len(1)] mem
    using len or_same [OF len(1)] by (simp add: bmem_map2 mem)
qed

section \<open>Flow graphs\<close>

definition succ_of :: "nat option \<Rightarrow> nat option \<Rightarrow> nat list" where
  "succ_of s0 s1 = (case s0 of
     None \<Rightarrow> []
   | Some s \<Rightarrow> if s1 = Some s then [s] else s # (case s1 of None \<Rightarrow> [] | Some t \<Rightarrow> [t]))"

definition succ_list :: "qblock \<Rightarrow> nat list" where
  "succ_list b = succ_of (qb_successors b ! 0) (qb_successors b ! 1)"

definition flow_ok :: "nat \<Rightarrow> qblock list \<Rightarrow> bool" where
  "flow_ok n bs \<longleftrightarrow> (\<forall>b\<in>set bs. words_ok n b \<and> length (qb_successors b) = 2 \<and> (\<forall>s\<in>set (succ_list b). s < length bs))"

lemma flow_okD:
  assumes "flow_ok n bs" "i < length bs"
  shows "words_ok n (bs ! i)" "vir_for_each_successor (bs ! i) = ret (succ_list (bs ! i))"
    "s \<in> set (succ_list (bs ! i)) \<Longrightarrow> s < length bs"
proof -
  have b: "words_ok n (bs ! i)" "length (qb_successors (bs ! i)) = 2" "\<forall>s\<in>set (succ_list (bs ! i)). s < length bs"
    using assms nth_mem [OF assms(2)] by (auto simp: flow_ok_def)
  show "words_ok n (bs ! i)" by (rule b(1))
  show "vir_for_each_successor (bs ! i) = ret (succ_list (bs ! i))"
    using b(2) by (simp add: vir_for_each_successor_def succ_list_def succ_of_def [symmetric])
  show "s \<in> set (succ_list (bs ! i)) \<Longrightarrow> s < length bs" using b(3) by blast
qed

text \<open>The elements of the live sets: block, temporary, and whether on entry or on exit.\<close>

definition live_bits :: "qblock list \<Rightarrow> (nat \<times> nat \<times> bool) set" where
  "live_bits bs = {(i, v, e). i < length bs \<and> bmem (if e then qb_live_in (bs ! i) else qb_live_out (bs ! i)) v}"

lemma live_bits_simps:
  "(i, v, True) \<in> live_bits bs \<longleftrightarrow> i < length bs \<and> bmem (qb_live_in (bs ! i)) v"
  "(i, v, False) \<in> live_bits bs \<longleftrightarrow> i < length bs \<and> bmem (qb_live_out (bs ! i)) v"
  by (simp_all add: live_bits_def)

text \<open>The equations at one block, and at all blocks.\<close>

definition flow_at :: "qblock list \<Rightarrow> (nat \<times> nat \<times> bool) set \<Rightarrow> nat \<Rightarrow> bool" where
  "flow_at bs X i \<longleftrightarrow> (\<forall>v. (\<forall>s\<in>set (succ_list (bs ! i)). (s, v, True) \<in> X \<longrightarrow> (i, v, False) \<in> X) \<and>
     (bmem (qb_use (bs ! i)) v \<longrightarrow> (i, v, True) \<in> X) \<and>
     ((i, v, False) \<in> X \<and> \<not> bmem (qb_def (bs ! i)) v \<longrightarrow> (i, v, True) \<in> X))"

definition flow_closed :: "qblock list \<Rightarrow> (nat \<times> nat \<times> bool) set \<Rightarrow> bool" where
  "flow_closed bs X \<longleftrightarrow> (\<forall>i < length bs. flow_at bs X i)"

text \<open>Blocks that differ in their live sets only.\<close>

definition same_blocks :: "nat \<Rightarrow> qblock list \<Rightarrow> qblock list \<Rightarrow> bool" where
  "same_blocks n bs bs' \<longleftrightarrow> length bs' = length bs \<and> (\<forall>i < length bs. \<exists>x y. length x = BITSET_WORDS n \<and> length y = BITSET_WORDS n \<and>
     bs' ! i = (bs ! i)\<lparr>qb_live_in := x, qb_live_out := y\<rparr>)"

lemma same_blocks_refl: "flow_ok n bs \<Longrightarrow> same_blocks n bs bs"
  unfolding same_blocks_def using flow_okD(1) by (fastforce simp: words_ok_def)

lemma same_blocks_trans:
  assumes "same_blocks n bs bs'" "same_blocks n bs' bs''"
  shows "same_blocks n bs bs''"
  unfolding same_blocks_def
proof (intro conjI allI impI)
  show "length bs'' = length bs" using assms by (simp add: same_blocks_def)
  fix i assume i: "i < length bs"
  obtain x y where "bs' ! i = (bs ! i)\<lparr>qb_live_in := x, qb_live_out := y\<rparr>" using assms(1) i unfolding same_blocks_def by blast
  moreover have "i < length bs'" using assms(1) i by (simp add: same_blocks_def)
  then obtain x' y' where "length x' = BITSET_WORDS n" "length y' = BITSET_WORDS n"
    "bs'' ! i = (bs' ! i)\<lparr>qb_live_in := x', qb_live_out := y'\<rparr>" using assms(2) unfolding same_blocks_def by blast
  ultimately show "\<exists>x y. length x = BITSET_WORDS n \<and> length y = BITSET_WORDS n \<and> bs'' ! i = (bs ! i)\<lparr>qb_live_in := x, qb_live_out := y\<rparr>"
    by auto
qed

lemma same_blocksD:
  assumes "same_blocks n bs bs'" "i < length bs"
  shows "length bs' = length bs" "qb_instructions (bs' ! i) = qb_instructions (bs ! i)" "succ_list (bs' ! i) = succ_list (bs ! i)"
    "qb_use (bs' ! i) = qb_use (bs ! i)" "qb_def (bs' ! i) = qb_def (bs ! i)" "start_ip (bs' ! i) = start_ip (bs ! i)"
    "end_ip (bs' ! i) = end_ip (bs ! i)" "qb_successors (bs' ! i) = qb_successors (bs ! i)"
    "words_ok n (bs ! i) \<Longrightarrow> words_ok n (bs' ! i)"
proof -
  obtain x y where "length x = BITSET_WORDS n" "length y = BITSET_WORDS n" "bs' ! i = (bs ! i)\<lparr>qb_live_in := x, qb_live_out := y\<rparr>"
    using assms unfolding same_blocks_def by blast
  then show "qb_instructions (bs' ! i) = qb_instructions (bs ! i)" "succ_list (bs' ! i) = succ_list (bs ! i)"
    "qb_use (bs' ! i) = qb_use (bs ! i)" "qb_def (bs' ! i) = qb_def (bs ! i)" "start_ip (bs' ! i) = start_ip (bs ! i)"
    "end_ip (bs' ! i) = end_ip (bs ! i)" "qb_successors (bs' ! i) = qb_successors (bs ! i)"
    "words_ok n (bs ! i) \<Longrightarrow> words_ok n (bs' ! i)"
    by (simp_all add: succ_list_def words_ok_def)
qed (use assms in \<open>simp add: same_blocks_def\<close>)

lemma same_blocks_flow:
  assumes "same_blocks n bs bs'" "flow_ok n bs"
  shows "flow_ok n bs'" "flow_closed bs' X = flow_closed bs X"
proof -
  have len: "length bs' = length bs" using assms(1) by (simp add: same_blocks_def)
  show "flow_ok n bs'"
    unfolding flow_ok_def
  proof
    fix b assume "b \<in> set bs'"
    then obtain i where i: "i < length bs" "b = bs' ! i" using len by (auto simp: in_set_conv_nth)
    note s = same_blocksD [OF assms(1) i(1)]
    show "words_ok n b \<and> length (qb_successors b) = 2 \<and> (\<forall>s\<in>set (succ_list b). s < length bs')"
      using i assms(2) s len flow_okD(1) [OF assms(2) i(1)] nth_mem [OF i(1)] by (auto simp: flow_ok_def)
  qed
  show "flow_closed bs' X = flow_closed bs X"
    unfolding flow_closed_def flow_at_def len using same_blocksD(3-5) [OF assms(1)] by simp
qed

section \<open>One block\<close>

lemma successors_fold:
  assumes "\<And>s. s \<in> set ss \<Longrightarrow> s < length bs \<and> length (qb_live_in (bs ! s)) = length (qb_live_out b)"
  shows "\<exists>out. fold_run (\<lambda>s (block, cont). bind_run (fetch bs s) (\<lambda>succ.
       let (out, new) = update_live_out (qb_live_in succ) (qb_live_out block)
       in ret (block\<lparr>qb_live_out := out\<rparr>, cont \<or> new))) ss (b, cont) =
     ret (b\<lparr>qb_live_out := out\<rparr>, cont \<or> (\<exists>s\<in>set ss. \<exists>v. bmem (qb_live_in (bs ! s)) v \<and> \<not> bmem (qb_live_out b) v)) \<and>
     length out = length (qb_live_out b) \<and>
     (\<forall>v. bmem out v \<longleftrightarrow> bmem (qb_live_out b) v \<or> (\<exists>s\<in>set ss. bmem (qb_live_in (bs ! s)) v)) \<and>
     ((\<forall>s\<in>set ss. \<forall>v. bmem (qb_live_in (bs ! s)) v \<longrightarrow> bmem (qb_live_out b) v) \<longrightarrow> out = qb_live_out b)"
  using assms
proof (induction ss arbitrary: b cont)
  case Nil
  show ?case by (intro exI [of _ "qb_live_out b"]) simp
next
  case (Cons s ss)
  have s: "s < length bs" "length (qb_live_in (bs ! s)) = length (qb_live_out b)" using Cons.prems by auto
  obtain z where z: "update_live_out (qb_live_in (bs ! s)) (qb_live_out b) = (z, \<exists>v. bmem (qb_live_in (bs ! s)) v \<and> \<not> bmem (qb_live_out b) v)"
    "length z = length (qb_live_out b)" "\<And>v. bmem z v \<longleftrightarrow> bmem (qb_live_in (bs ! s)) v \<or> bmem (qb_live_out b) v"
    "(\<forall>v. bmem (qb_live_in (bs ! s)) v \<longrightarrow> bmem (qb_live_out b) v) \<Longrightarrow> z = qb_live_out b"
    using update_live_out_ok [OF s(2)] by blast
  let ?b = "b\<lparr>qb_live_out := z\<rparr>" and ?c = "cont \<or> (\<exists>v. bmem (qb_live_in (bs ! s)) v \<and> \<not> bmem (qb_live_out b) v)"
  have "\<And>s. s \<in> set ss \<Longrightarrow> s < length bs \<and> length (qb_live_in (bs ! s)) = length (qb_live_out ?b)" using Cons.prems z(2) by simp
  from Cons.IH [OF this, of ?c] obtain out where
    out: "fold_run (\<lambda>s (block, cont). bind_run (fetch bs s) (\<lambda>succ.
       let (out, new) = update_live_out (qb_live_in succ) (qb_live_out block)
       in ret (block\<lparr>qb_live_out := out\<rparr>, cont \<or> new))) ss (?b, ?c) =
     ret (b\<lparr>qb_live_out := out\<rparr>, ?c \<or> (\<exists>s\<in>set ss. \<exists>v. bmem (qb_live_in (bs ! s)) v \<and> \<not> bmem z v))"
     "length out = length z" "\<And>v. bmem out v \<longleftrightarrow> bmem z v \<or> (\<exists>s\<in>set ss. bmem (qb_live_in (bs ! s)) v)"
     "(\<forall>s\<in>set ss. \<forall>v. bmem (qb_live_in (bs ! s)) v \<longrightarrow> bmem z v) \<Longrightarrow> out = z"
    by auto
  have "?c \<or> (\<exists>s\<in>set ss. \<exists>v. bmem (qb_live_in (bs ! s)) v \<and> \<not> bmem z v) \<longleftrightarrow>
      cont \<or> (\<exists>s\<in>set (s # ss). \<exists>v. bmem (qb_live_in (bs ! s)) v \<and> \<not> bmem (qb_live_out b) v)"
    using z(3) by auto
  then show ?case using z(1,2,3) out s(1) z(4) by (intro exI [of _ out]) auto
qed

text \<open>A block of the list with other live sets.\<close>

definition relive :: "qblock list \<Rightarrow> nat \<Rightarrow> u32 list \<Rightarrow> u32 list \<Rightarrow> qblock list" where
  "relive bs i z out = bs[i := (bs ! i)\<lparr>qb_live_out := out, qb_live_in := z\<rparr>]"

lemma relive_bits:
  assumes "i < length bs"
  shows "(j, v, True) \<in> live_bits (relive bs i z out) \<longleftrightarrow> (if j = i then bmem z v else (j, v, True) \<in> live_bits bs)"
    "(j, v, False) \<in> live_bits (relive bs i z out) \<longleftrightarrow> (if j = i then bmem out v else (j, v, False) \<in> live_bits bs)"
  using assms by (auto simp: live_bits_simps relive_def nth_list_update)

lemma bits_subsetI:
  assumes "\<And>i v. (i, v, True) \<in> A \<Longrightarrow> (i, v, True) \<in> B" "\<And>i v. (i, v, False) \<in> A \<Longrightarrow> (i, v, False) \<in> B"
  shows "A \<subseteq> (B :: (nat \<times> nat \<times> bool) set)"
proof
  fix x assume "x \<in> A"
  moreover obtain i v e where "x = (i, v, e)" by (cases x) auto
  ultimately show "x \<in> B" using assms by (cases e) auto
qed

text \<open>What one step does to the live sets \<open>bs\<close>.\<close>

definition flow_step :: "nat \<Rightarrow> qblock list \<Rightarrow> nat set \<Rightarrow> qblock list \<Rightarrow> bool \<Rightarrow> bool" where
  "flow_step n bs I bs' ch \<longleftrightarrow> same_blocks n bs bs' \<and> live_bits bs \<subseteq> live_bits bs' \<and>
     (\<not> ch \<longrightarrow> bs' = bs \<and> (\<forall>i\<in>I. flow_at bs (live_bits bs) i)) \<and> (ch \<longrightarrow> live_bits bs \<noteq> live_bits bs') \<and>
     (\<forall>X. (\<forall>i\<in>I. flow_at bs X i) \<and> live_bits bs \<subseteq> X \<longrightarrow> live_bits bs' \<subseteq> X)"

lemma flow_stepD:
  assumes "flow_step n bs I bs' ch"
  shows "same_blocks n bs bs'" "live_bits bs \<subseteq> live_bits bs'" "\<not> ch \<Longrightarrow> bs' = bs" "\<not> ch \<Longrightarrow> i \<in> I \<Longrightarrow> flow_at bs (live_bits bs) i"
    "ch \<Longrightarrow> live_bits bs \<noteq> live_bits bs'" "(\<And>i. i \<in> I \<Longrightarrow> flow_at bs X i) \<Longrightarrow> live_bits bs \<subseteq> X \<Longrightarrow> live_bits bs' \<subseteq> X"
  using assms by (auto simp: flow_step_def)

lemma relive_step:
  assumes ok: "flow_ok n bs" and i: "i < length bs" and len: "length out = BITSET_WORDS n" "length z = BITSET_WORDS n"
  defines "new \<equiv> \<lambda>v. bmem (qb_use (bs ! i)) v \<or> bmem out v \<and> \<not> bmem (qb_def (bs ! i)) v"
  assumes out: "\<And>v. bmem out v \<longleftrightarrow> bmem (qb_live_out (bs ! i)) v \<or> (\<exists>s\<in>set (succ_list (bs ! i)). bmem (qb_live_in (bs ! s)) v)"
      "(\<forall>s\<in>set (succ_list (bs ! i)). \<forall>v. bmem (qb_live_in (bs ! s)) v \<longrightarrow> bmem (qb_live_out (bs ! i)) v) \<Longrightarrow> out = qb_live_out (bs ! i)"
    and z: "\<And>v. bmem z v \<longleftrightarrow> new v \<or> bmem (qb_live_in (bs ! i)) v" "(\<forall>v. new v \<longrightarrow> bmem (qb_live_in (bs ! i)) v) \<Longrightarrow> z = qb_live_in (bs ! i)"
  shows "flow_step n bs {i} (relive bs i z out)
    ((\<exists>s\<in>set (succ_list (bs ! i)). \<exists>v. bmem (qb_live_in (bs ! s)) v \<and> \<not> bmem (qb_live_out (bs ! i)) v) \<or>
     (\<exists>v. new v \<and> \<not> bmem (qb_live_in (bs ! i)) v))" (is "flow_step n bs {i} ?bs' (?c1 \<or> ?c2)")
proof -
  note rb = relive_bits [OF i, of _ _ z out] and lb = live_bits_simps [of _ _ bs] and F = flow_okD [OF ok i]
  have "same_blocks n bs ?bs'"
    unfolding same_blocks_def
  proof (intro conjI allI impI)
    fix j assume j: "j < length bs"
    have "words_ok n (bs ! j)" using flow_okD(1) [OF ok j] .
    then show "\<exists>x y. length x = BITSET_WORDS n \<and> length y = BITSET_WORDS n \<and> ?bs' ! j = (bs ! j)\<lparr>qb_live_in := x, qb_live_out := y\<rparr>"
      using len j i
      by (intro exI [of _ "if j = i then z else qb_live_in (bs ! j)"] exI [of _ "if j = i then out else qb_live_out (bs ! j)"])
        (auto simp: relive_def words_ok_def)
  qed (simp add: relive_def)
  moreover have "live_bits bs \<subseteq> live_bits ?bs'"
    by (rule bits_subsetI) (auto simp: rb lb out(1) z(1))
  moreover have "?bs' = bs \<and> (\<forall>i\<in>{i}. flow_at bs (live_bits bs) i)" if "\<not> (?c1 \<or> ?c2)"
  proof -
    have "out = qb_live_out (bs ! i)" "z = qb_live_in (bs ! i)" using that out(2) z(2) by auto
    moreover have "flow_at bs (live_bits bs) i" using that F(3) i calculation by (auto simp: flow_at_def lb new_def)
    ultimately show ?thesis by (simp add: relive_def)
  qed
  moreover have "live_bits bs \<noteq> live_bits ?bs'" if "?c1 \<or> ?c2"
  proof -
    have "\<exists>v. (i, v, False) \<in> live_bits ?bs' \<and> (i, v, False) \<notin> live_bits bs \<or> (i, v, True) \<in> live_bits ?bs' \<and> (i, v, True) \<notin> live_bits bs"
      using that i by (auto simp: rb lb out(1) z(1))
    then show ?thesis by blast
  qed
  moreover have "live_bits ?bs' \<subseteq> X" if X: "flow_at bs X i" "live_bits bs \<subseteq> X" for X
  proof -
    have si: "(s, v, True) \<in> X" if "s \<in> set (succ_list (bs ! i))" "bmem (qb_live_in (bs ! s)) v" for s v
      using X(2) F(3) [OF that(1)] that(2) lb(1) by blast
    have o: "(i, v, False) \<in> X" if "bmem out v" for v
      using that X si i lb(2) unfolding out(1) flow_at_def by blast
    have "(i, v, True) \<in> X" if "bmem z v" for v
      using that X o i lb(1) unfolding z(1) new_def flow_at_def by blast
    then show ?thesis using o X(2) by (intro bits_subsetI) (auto simp: rb split: if_splits)
  qed
  ultimately show ?thesis by (simp add: flow_step_def)
qed

lemma dataflow_block_ok:
  assumes ok: "flow_ok n bs" and i: "i < length bs"
  shows "\<exists>bs' ch. dataflow_block i (bs, cont) = ret (bs', cont \<or> ch) \<and> flow_step n bs {i} bs' ch"
proof -
  note F = flow_okD [OF ok i]
  have len: "length (qb_live_out (bs ! i)) = BITSET_WORDS n" using F(1) by (simp add: words_ok_def)
  have "\<And>s. s \<in> set (succ_list (bs ! i)) \<Longrightarrow> s < length bs \<and> length (qb_live_in (bs ! s)) = length (qb_live_out (bs ! i))"
    using F(3) flow_okD(1) [OF ok] len by (auto simp: words_ok_def)
  from successors_fold [where ss = "succ_list (bs ! i)" and b = "bs ! i" and cont = cont, OF this] obtain out where
    out: "fold_run (\<lambda>s (block, cont). bind_run (fetch bs s) (\<lambda>succ.
       let (out, new) = update_live_out (qb_live_in succ) (qb_live_out block)
       in ret (block\<lparr>qb_live_out := out\<rparr>, cont \<or> new))) (succ_list (bs ! i)) (bs ! i, cont) =
     ret ((bs ! i)\<lparr>qb_live_out := out\<rparr>, cont \<or> (\<exists>s\<in>set (succ_list (bs ! i)). \<exists>v. bmem (qb_live_in (bs ! s)) v \<and> \<not> bmem (qb_live_out (bs ! i)) v))"
     "length out = length (qb_live_out (bs ! i))"
     "\<And>v. bmem out v \<longleftrightarrow> bmem (qb_live_out (bs ! i)) v \<or> (\<exists>s\<in>set (succ_list (bs ! i)). bmem (qb_live_in (bs ! s)) v)"
     "(\<forall>s\<in>set (succ_list (bs ! i)). \<forall>v. bmem (qb_live_in (bs ! s)) v \<longrightarrow> bmem (qb_live_out (bs ! i)) v) \<Longrightarrow> out = qb_live_out (bs ! i)"
    by blast
  let ?b = "(bs ! i)\<lparr>qb_live_out := out\<rparr>"
  have "words_ok n ?b" using F(1) out(2) by (simp add: words_ok_def)
  from update_live_in_ok [OF this] obtain z where
    z: "update_live_in ?b = (z, \<exists>v. (bmem (qb_use (bs ! i)) v \<or> bmem out v \<and> \<not> bmem (qb_def (bs ! i)) v) \<and> \<not> bmem (qb_live_in (bs ! i)) v)"
      "length z = BITSET_WORDS n"
      "\<And>v. bmem z v \<longleftrightarrow> (bmem (qb_use (bs ! i)) v \<or> bmem out v \<and> \<not> bmem (qb_def (bs ! i)) v) \<or> bmem (qb_live_in (bs ! i)) v"
      "(\<forall>v. (bmem (qb_use (bs ! i)) v \<or> bmem out v \<and> \<not> bmem (qb_def (bs ! i)) v) \<longrightarrow> bmem (qb_live_in (bs ! i)) v) \<Longrightarrow> z = qb_live_in (bs ! i)"
    by auto
  have "length out = BITSET_WORDS n" using out(2) len by simp
  note step = relive_step [OF ok i this z(2) out(3,4) z(3,4)]
  show ?thesis
    using i F(2) out(1) z(1) step
    by (intro exI [of _ "relive bs i z out"] exI) (auto simp: dataflow_block_def relive_def)
qed

section \<open>One pass, and all passes\<close>

lemma flow_step_trans:
  assumes "J \<subseteq> {..<length bs}" "flow_step n bs I bs1 c1" "flow_step n bs1 J bs2 c2"
  shows "flow_step n bs (I \<union> J) bs2 (c1 \<or> c2)"
proof -
  note A = flow_stepD [OF assms(2)] and B = flow_stepD [OF assms(3)]
  have at: "flow_at bs1 X i \<longleftrightarrow> flow_at bs X i" if "i < length bs" for X i
    using same_blocksD(3-5) [OF A(1) that] by (simp add: flow_at_def)
  show ?thesis
    unfolding flow_step_def
  proof (intro conjI impI allI)
    show "same_blocks n bs bs2" by (rule same_blocks_trans [OF A(1) B(1)])
    show "live_bits bs \<subseteq> live_bits bs2" using A(2) B(2) by blast
    show "bs2 = bs" if "\<not> (c1 \<or> c2)" using A(3) B(3) that by simp
    show "\<forall>i\<in>I \<union> J. flow_at bs (live_bits bs) i" if "\<not> (c1 \<or> c2)" using A(3,4) B(4) that by auto
    show "live_bits bs \<noteq> live_bits bs2" if "c1 \<or> c2" using A(2,3,5) B(2,5) that by blast
    fix X assume X: "(\<forall>i\<in>I \<union> J. flow_at bs X i) \<and> live_bits bs \<subseteq> X"
    then have "live_bits bs1 \<subseteq> X" using A(6) by blast
    moreover have "flow_at bs1 X i" if "i \<in> J" for i
      using X that assms(1) at [of i X] by auto
    ultimately show "live_bits bs2 \<subseteq> X" using B(6) by blast
  qed
qed

lemma dataflow_fold:
  assumes "flow_ok n bs" "\<And>i. i \<in> set is \<Longrightarrow> i < length bs"
  shows "\<exists>bs' ch. fold_run dataflow_block is (bs, cont) = ret (bs', cont \<or> ch) \<and> flow_step n bs (set is) bs' ch"
  using assms
proof (induction "is" arbitrary: bs cont)
  case Nil
  then show ?case using same_blocks_refl by (intro exI [of _ bs] exI [of _ False]) (auto simp: flow_step_def)
next
  case (Cons i ids)
  have i: "i < length bs" using Cons.prems(2) by simp
  obtain bs1 c1 where s: "dataflow_block i (bs, cont) = ret (bs1, cont \<or> c1)" "flow_step n bs {i} bs1 c1"
    using dataflow_block_ok [OF Cons.prems(1) i] by blast
  note A = flow_stepD(1) [OF s(2)]
  have "\<And>j. j \<in> set ids \<Longrightarrow> j < length bs1" using Cons.prems(2) same_blocksD(1) [OF A i] by simp
  from Cons.IH [OF same_blocks_flow(1) [OF A Cons.prems(1)] this, of "cont \<or> c1"] obtain bs2 c2 where
    r: "fold_run dataflow_block ids (bs1, cont \<or> c1) = ret (bs2, (cont \<or> c1) \<or> c2)" "flow_step n bs1 (set ids) bs2 c2"
    by blast
  have "set ids \<subseteq> {..<length bs}" using Cons.prems(2) by auto
  from flow_step_trans [OF this s(2) r(2)] show ?case
    using s(1) r(1) by (intro exI [of _ bs2] exI [of _ "c1 \<or> c2"]) (simp add: disj_assoc)
qed

lemma dataflow_pass:
  assumes "flow_ok n bs"
  shows "\<exists>bs' ch. vir_live_variables_dataflow bs = ret (bs', ch) \<and> flow_step n bs {..<length bs} bs' ch"
proof -
  have set: "set (rev [0..<length bs]) = {..<length bs}" by auto
  show ?thesis
    using dataflow_fold [OF assms, of "rev [0..<length bs]" False] unfolding vir_live_variables_dataflow_def set by auto
qed

lemma live_bits_bounded:
  assumes "flow_ok n bs"
  shows "live_bits bs \<subseteq> {..<length bs} \<times> {..<32 * BITSET_WORDS n} \<times> UNIV"
  using flow_okD(1) [OF assms] by (auto simp: live_bits_def words_ok_def bmem_def split: if_splits)

text \<open>
  The loop ends because every pass but the last adds elements to the live sets. Its result
  satisfies the equations, and is contained in every solution that contains the initial sets.
\<close>

lemma dataflow_loop_ok:
  assumes "flow_ok n bs"
  shows "\<exists>bs'. dataflow_loop bs = ret bs' \<and> same_blocks n bs bs' \<and> flow_closed bs (live_bits bs') \<and>
    (\<forall>X. flow_closed bs X \<and> live_bits bs \<subseteq> X \<longrightarrow> live_bits bs' \<subseteq> X)"
  using assms
proof (induction "card ({..<length bs} \<times> {..<32 * BITSET_WORDS n} \<times> (UNIV :: bool set)) - card (live_bits bs)"
    arbitrary: bs rule: less_induct)
  case less
  let ?all = "{..<length bs} \<times> {..<32 * BITSET_WORDS n} \<times> (UNIV :: bool set)"
  obtain bs1 ch where s: "vir_live_variables_dataflow bs = ret (bs1, ch)" "flow_step n bs {..<length bs} bs1 ch"
    using dataflow_pass [OF less.prems] by blast
  note A = flow_stepD [OF s(2)]
  show ?case
  proof (cases ch)
    case False
    have "dataflow_loop bs = ret bs" using s(1) A(3) False by (subst dataflow_loop.simps) simp
    moreover have "flow_closed bs (live_bits bs)" using A(4) False by (simp add: flow_closed_def)
    ultimately show ?thesis using same_blocks_refl [OF less.prems] by blast
  next
    case True
    have ok1: "flow_ok n bs1" using same_blocks_flow(1) [OF A(1) less.prems] .
    have len: "length bs1 = length bs" using A(1) by (simp add: same_blocks_def)
    have sub: "live_bits bs1 \<subseteq> ?all" using live_bits_bounded [OF ok1] len by simp
    have fin: "finite ?all" by simp
    have "live_bits bs \<subset> live_bits bs1" using A(2,5) True by blast
    then have "card (live_bits bs) < card (live_bits bs1)" using psubset_card_mono finite_subset [OF sub fin] by blast
    moreover have "card (live_bits bs1) \<le> card ?all" by (rule card_mono [OF fin sub])
    ultimately have "card ?all - card (live_bits bs1) < card ?all - card (live_bits bs)" by linarith
    from less.hyps [of bs1, unfolded len, OF this ok1] obtain bs' where
      r: "dataflow_loop bs1 = ret bs'" "same_blocks n bs1 bs'" "flow_closed bs1 (live_bits bs')"
        "\<And>X. flow_closed bs1 X \<Longrightarrow> live_bits bs1 \<subseteq> X \<Longrightarrow> live_bits bs' \<subseteq> X"
      by blast
    note fc = same_blocks_flow(2) [OF A(1) less.prems]
    have "dataflow_loop bs = ret bs'" using s(1) r(1) True by (subst dataflow_loop.simps) simp
    moreover have "live_bits bs' \<subseteq> X" if "flow_closed bs X" "live_bits bs \<subseteq> X" for X
      using r(4) [of X] A(6) [of X] that fc by (simp add: flow_closed_def)
    ultimately show ?thesis using same_blocks_trans [OF A(1) r(2)] r(3) fc by blast
  qed
qed

end
