(* ===== verification/Vir_Liveness.thy ===== *)
theory Vir_Liveness
  imports Vir_Flow
begin

text \<open>
  Liveness of temporaries, as a property of the paths of a program, and what
  \<open>vir_calculate_live_intervals\<close> computes: the live sets of the blocks are exactly the live temporaries, and the
  range of a temporary covers every point at which it is live.
\<close>

section \<open>Liveness\<close>

abbreviation insts :: "qblock list \<Rightarrow> nat \<Rightarrow> qinst list" where
  "insts bs i \<equiv> qb_instructions (bs ! i)"

text \<open>
  The temporary \<open>v\<close> is live, in the sense of the analysis, before instruction \<open>k\<close> of block \<open>i\<close>, where \<open>k\<close> may be the end of the block: some
  path from there reads \<open>v\<close> and nothing on the path before that, as the scan sees it, screens its value off.
\<close>

inductive live :: "qblock list \<Rightarrow> nat \<Rightarrow> nat \<Rightarrow> nat \<Rightarrow> bool" for bs where
  live_read: "i < length bs \<Longrightarrow> k < length (insts bs i) \<Longrightarrow> reads_temp (insts bs i ! k) v \<Longrightarrow> live bs i k v"
| live_step: "i < length bs \<Longrightarrow> k < length (insts bs i) \<Longrightarrow> \<not> kills (insts bs i ! k) v \<Longrightarrow> live bs i (Suc k) v \<Longrightarrow> live bs i k v"
| live_edge: "i < length bs \<Longrightarrow> s \<in> set (succ_list (bs ! i)) \<Longrightarrow> live bs s 0 v \<Longrightarrow> live bs i (length (insts bs i)) v"

lemma killed_Cons [simp]: "killed (x # xs) v \<longleftrightarrow> kills x v \<or> killed xs v"
  by (auto simp: killed_def)

lemma killed_append: "killed (xs @ ys) v \<longleftrightarrow> killed xs v \<or> killed ys v"
  by (auto simp: killed_def)

lemma exposed_append: "exposed (xs @ ys) v \<longleftrightarrow> exposed xs v \<or> \<not> killed xs v \<and> exposed ys v"
proof (induction ys rule: rev_induct)
  case (snoc y ys)
  then show ?case by (auto simp: append_assoc [symmetric] killed_append simp del: append_assoc)
qed simp

lemma exposed_Cons [simp]: "exposed (x # xs) v \<longleftrightarrow> reads_temp x v \<or> \<not> kills x v \<and> exposed xs v"
proof -
  have "exposed [x] v \<longleftrightarrow> reads_temp x v" using exposed_simps(2) [of "[]" x v] by simp
  then show ?thesis using exposed_append [of "[x]" xs v] by simp
qed

lemma drop_Cons_nth: "k < length xs \<Longrightarrow> drop k xs = xs ! k # drop (Suc k) xs"
  by (simp add: Cons_nth_drop_Suc)

section \<open>The live sets\<close>

definition scanned_blocks :: "nat \<Rightarrow> qblock list \<Rightarrow> bool" where
  "scanned_blocks n bs \<longleftrightarrow> flow_ok n bs \<and> (\<forall>i < length bs. block_info n (offset bs i) (bs ! i))"

lemma scannedD:
  assumes "scanned_blocks n bs" "i < length bs"
  shows "bmem (qb_use (bs ! i)) v \<longleftrightarrow> exposed (insts bs i) v"
    "bmem (qb_def (bs ! i)) v \<longleftrightarrow> killed (insts bs i) v \<and> \<not> exposed (insts bs i) v"
    "start_ip (bs ! i) = offset bs i" "end_ip (bs ! i) = offset bs i + int (length (insts bs i))"
  using assms by (auto simp: scanned_blocks_def block_info_def)

lemma closed_entry:
  assumes sc: "scanned_blocks n bs" and X: "flow_closed bs X" and i: "i < length bs"
    and "exposed (insts bs i) v \<or> \<not> killed (insts bs i) v \<and> (i, v, False) \<in> X"
  shows "(i, v, True) \<in> X"
  using assms(4) X i scannedD(1,2) [OF sc i] unfolding flow_closed_def flow_at_def by blast

lemma live_in_solution:
  assumes sc: "scanned_blocks n bs" and X: "flow_closed bs X"
  shows "live bs i k v \<Longrightarrow> i < length bs \<and> k \<le> length (insts bs i) \<and>
    (exposed (drop k (insts bs i)) v \<or> \<not> killed (drop k (insts bs i)) v \<and> (i, v, False) \<in> X)"
proof (induction rule: live.induct)
  case (live_read i k v)
  then show ?case by (simp add: drop_Cons_nth)
next
  case (live_step i k v)
  then show ?case by (auto simp: drop_Cons_nth)
next
  case (live_edge i s v)
  have "(s, v, True) \<in> X" using closed_entry [OF sc X, of s v] live_edge.IH by simp
  then show ?case using live_edge X unfolding flow_closed_def flow_at_def by auto
qed

lemma exposed_live:
  assumes "i < length bs" "exposed (drop k (insts bs i)) v"
  shows "live bs i k v"
  using assms(2)
proof (induction "length (insts bs i) - k" arbitrary: k)
  case (Suc d)
  then have k: "k < length (insts bs i)" "d = length (insts bs i) - Suc k" by auto
  then show ?case
    using Suc.prems Suc.hyps(1) [OF k(2)] live_read [OF assms(1) k(1)] live_step [OF assms(1) k(1)] by (auto simp: drop_Cons_nth)
qed simp

lemma not_killed_live:
  assumes "i < length bs" "live bs i (length (insts bs i)) v" "\<not> killed (drop k (insts bs i)) v" "k \<le> length (insts bs i)"
  shows "live bs i k v"
  using assms(3,4)
proof (induction "length (insts bs i) - k" arbitrary: k)
  case 0
  then show ?case using assms(2) by simp
next
  case (Suc d)
  then have k: "k < length (insts bs i)" "d = length (insts bs i) - Suc k" by auto
  then show ?case
    using Suc.prems Suc.hyps(1) [OF k(2)] live_step [OF assms(1) k(1)] by (auto simp: drop_Cons_nth)
qed

definition live_set :: "qblock list \<Rightarrow> (nat \<times> nat \<times> bool) set" where
  "live_set bs = {(i, v, e). live bs i (if e then 0 else length (insts bs i)) v}"

lemma live_set_closed:
  assumes sc: "scanned_blocks n bs"
  shows "flow_closed bs (live_set bs)"
  unfolding flow_closed_def flow_at_def
proof (intro allI impI conjI ballI)
  fix i v assume i: "i < length bs"
  show "(i, v, False) \<in> live_set bs" if "s \<in> set (succ_list (bs ! i))" "(s, v, True) \<in> live_set bs" for s
    using that live_edge [OF i] by (auto simp: live_set_def)
  show entry: "(i, v, True) \<in> live_set bs" if "bmem (qb_use (bs ! i)) v"
    using that exposed_live [OF i, of 0 v] scannedD(1) [OF sc i] by (simp add: live_set_def)
  show "(i, v, True) \<in> live_set bs" if "(i, v, False) \<in> live_set bs \<and> \<not> bmem (qb_def (bs ! i)) v"
    using that entry not_killed_live [OF i, of v 0] scannedD(1,2) [OF sc i] by (auto simp: live_set_def)
qed

lemma live_bits_exact:
  assumes sc: "scanned_blocks n bs" and X: "flow_closed bs X" and least: "\<And>Y. flow_closed bs Y \<Longrightarrow> X \<subseteq> Y" and i: "i < length bs"
  shows "(i, v, True) \<in> X \<longleftrightarrow> live bs i 0 v" "(i, v, False) \<in> X \<longleftrightarrow> live bs i (length (insts bs i)) v"
proof -
  have sub: "X \<subseteq> live_set bs" using least [OF live_set_closed [OF sc]] .
  show "(i, v, True) \<in> X \<longleftrightarrow> live bs i 0 v"
    using sub live_in_solution [OF sc X, of i 0 v] closed_entry [OF sc X i, of v] by (auto simp: live_set_def)
  show "(i, v, False) \<in> X \<longleftrightarrow> live bs i (length (insts bs i)) v"
    using sub live_in_solution [OF sc X, of i "length (insts bs i)" v] by (auto simp: live_set_def)
qed

section \<open>Intervals\<close>

lemma extend_var_ok:
  assumes "ranges_ok n rs" "v < n" "words_ok n b" "0 \<le> start_ip b" "0 \<le> end_ip b"
  shows "\<exists>rs'. extend_var b v rs = ret rs' \<and> widened n rs rs' \<and>
    (bmem (qb_live_in b) v \<longrightarrow> covers rs' v (start_ip b)) \<and> (bmem (qb_live_out b) v \<longrightarrow> covers rs' v (end_ip b))"
proof -
  have t: "BITSET_TEST (qb_live_in b) v = ret (bmem (qb_live_in b) v)" "BITSET_TEST (qb_live_out b) v = ret (bmem (qb_live_out b) v)"
    using assms(3) WORDS_enough [OF assms(2)] by (simp_all add: BITSET_TEST_eq words_ok_def)
  obtain rs1 where a: "(if bmem (qb_live_in b) v then extend_range rs v (start_ip b) else ret rs) = ret rs1" "widened n rs rs1"
    "bmem (qb_live_in b) v \<longrightarrow> covers rs1 v (start_ip b)"
    using extend_range_ok [OF assms(1,2,4)] widened_refl [OF assms(1)] by (cases "bmem (qb_live_in b) v") auto
  obtain rs2 where c: "(if bmem (qb_live_out b) v then extend_range rs1 v (end_ip b) else ret rs1) = ret rs2" "widened n rs1 rs2"
    "bmem (qb_live_out b) v \<longrightarrow> covers rs2 v (end_ip b)"
    using extend_range_ok [OF widened_ok [OF a(2)] assms(2,5)] widened_refl [OF widened_ok [OF a(2)]] by (cases "bmem (qb_live_out b) v") auto
  have "extend_var b v rs = ret rs2" using t a(1) c(1) by (simp add: extend_var_def)
  then show ?thesis
    using widened_trans [OF a(2) c(2)] a(3) c(3) covers_widened [OF _ c(2) assms(2), of "start_ip b"] by blast
qed

text \<open>A loop whose steps widen the ranges and establish something that widening keeps.\<close>

lemma widening_fold:
  assumes "ranges_ok n rs" "\<And>x rs. x \<in> set xs \<Longrightarrow> ranges_ok n rs \<Longrightarrow> \<exists>rs'. f x rs = ret rs' \<and> widened n rs rs' \<and> Q x rs'"
    and "\<And>x rs rs'. x \<in> set xs \<Longrightarrow> Q x rs \<Longrightarrow> widened n rs rs' \<Longrightarrow> Q x rs'"
  shows "\<exists>rs'. fold_run f xs rs = ret rs' \<and> widened n rs rs' \<and> (\<forall>x\<in>set xs. Q x rs')"
  using assms
proof (induction xs arbitrary: rs)
  case Nil
  then show ?case using widened_refl by auto
next
  case (Cons x xs)
  obtain rs1 where s: "f x rs = ret rs1" "widened n rs rs1" "Q x rs1" using Cons.prems(2) [of x rs] Cons.prems(1) by auto
  have "\<exists>rs'. fold_run f xs rs1 = ret rs' \<and> widened n rs1 rs' \<and> (\<forall>x\<in>set xs. Q x rs')"
    by (rule Cons.IH [OF widened_ok [OF s(2)]]) (rule Cons.prems(2,3); simp)+
  then obtain rs' where r: "fold_run f xs rs1 = ret rs'" "widened n rs1 rs'" "\<forall>y\<in>set xs. Q y rs'" by blast
  then show ?case using s Cons.prems(3) [of x rs1 rs'] widened_trans [OF s(2) r(2)] by auto
qed

definition block_covered :: "nat \<Rightarrow> qblock \<Rightarrow> live_ranges \<Rightarrow> bool" where
  "block_covered n b rs \<longleftrightarrow> (\<forall>v < n. (bmem (qb_live_in b) v \<longrightarrow> covers rs v (start_ip b)) \<and> (bmem (qb_live_out b) v \<longrightarrow> covers rs v (end_ip b)))"

lemma compute_start_end_ok:
  assumes rs: "ranges_ok n rs" and bs: "\<And>b. b \<in> set bs \<Longrightarrow> words_ok n b \<and> 0 \<le> start_ip b \<and> 0 \<le> end_ip b"
  shows "\<exists>rs'. vir_compute_start_end bs n rs = ret rs' \<and> widened n rs rs' \<and> (\<forall>b\<in>set bs. block_covered n b rs')"
  unfolding vir_compute_start_end_def
proof (rule widening_fold [OF rs])
  fix b rs assume b: "b \<in> set bs" and r: "ranges_ok n rs"
  define Q where "Q v rs \<longleftrightarrow> (bmem (qb_live_in b) v \<longrightarrow> covers rs v (start_ip b)) \<and> (bmem (qb_live_out b) v \<longrightarrow> covers rs v (end_ip b))" for v rs
  have "\<exists>rs'. fold_run (extend_var b) [0..<n] rs = ret rs' \<and> widened n rs rs' \<and> (\<forall>v\<in>set [0..<n]. Q v rs')"
    by (rule widening_fold [OF r]) (use extend_var_ok bs [OF b] covers_widened in \<open>auto simp: Q_def\<close>)
  then show "\<exists>rs'. fold_run (extend_var b) [0..<n] rs = ret rs' \<and> widened n rs rs' \<and> block_covered n b rs'"
    by (auto simp: block_covered_def Q_def)
next
  fix b rs rs' assume "block_covered n b rs" "widened n rs rs'"
  then show "block_covered n b rs'" unfolding block_covered_def using covers_widened by blast
qed

lemma exposed_reads: "exposed xs v \<Longrightarrow> \<exists>j < length xs. reads_temp (xs ! j) v"
  by (auto simp: exposed_def)

lemma interval_covers:
  assumes sc: "scanned_blocks n bs" and X: "flow_closed bs X"
    and ment: "\<And>i k v. i < length bs \<Longrightarrow> k < length (insts bs i) \<Longrightarrow> mentions (insts bs i ! k) v \<Longrightarrow> covers rs v (offset bs i + int k)"
    and entry: "\<And>i v. (i, v, True) \<in> X \<Longrightarrow> i < length bs \<Longrightarrow> covers rs v (offset bs i)"
    and exits: "\<And>i v. (i, v, False) \<in> X \<Longrightarrow> i < length bs \<Longrightarrow> covers rs v (offset bs i + int (length (insts bs i)))"
    and L: "live bs i k v"
  shows "covers rs v (offset bs i + int k)"
proof -
  note S = live_in_solution [OF sc X L]
  have i: "i < length bs" and k: "k \<le> length (insts bs i)" using S by auto
  let ?pre = "take k (insts bs i)" and ?suf = "drop k (insts bs i)"
  have "offset bs i + int k \<le> snd rs ! v"
  proof (cases "exposed ?suf v")
    case True
    then obtain j where "j < length ?suf" "reads_temp (?suf ! j) v" using exposed_reads by blast
    then have j: "k + j < length (insts bs i)" "mentions (insts bs i ! (k + j)) v" by (simp_all add: mentions_def)
    show ?thesis using ment [OF i j] by (simp add: covers_def)
  next
    case False
    then show ?thesis using S exits [of i v] k by (simp add: covers_def)
  qed
  moreover have "fst rs ! v \<le> offset bs i + int k"
  proof (cases "\<exists>j < k. mentions (insts bs i ! j) v")
    case True
    then obtain j where "j < k" "mentions (insts bs i ! j) v" by blast
    then show ?thesis using ment [OF i, of j v] k by (simp add: covers_def)
  next
    case False
    then have "\<not> exposed ?pre v" "\<not> killed ?pre v"
      using k by (auto simp: killed_def kills_def mentions_def in_set_conv_nth dest!: exposed_reads)
    then have "exposed (insts bs i) v \<or> \<not> killed (insts bs i) v \<and> (i, v, False) \<in> X"
      using S exposed_append [of ?pre ?suf v] killed_append [of ?pre ?suf v] by simp
    then have "(i, v, True) \<in> X" by (rule closed_entry [OF sc X i])
    then show ?thesis using entry [of i v] i by (simp add: covers_def)
  qed
  ultimately show ?thesis by (simp add: covers_def)
qed

section \<open>The calculation\<close>

definition program_ok :: "v3d_compile \<Rightarrow> bool" where
  "program_ok c \<longleftrightarrow> temp_start c = None \<and> (\<forall>b\<in>set (c_blocks c). (\<forall>x\<in>set (qb_instructions b). inst_ok (num_temps c) x) \<and>
     length (qb_successors b) = 2 \<and> (\<forall>s\<in>set (succ_list b). s < length (c_blocks c)))"

text \<open>Programs with the same instructions and edges.\<close>

definition same_program :: "qblock list \<Rightarrow> qblock list \<Rightarrow> bool" where
  "same_program bs bs' \<longleftrightarrow> length bs' = length bs \<and> (\<forall>i < length bs. insts bs' i = insts bs i \<and> succ_list (bs' ! i) = succ_list (bs ! i))"

lemma same_program_live:
  assumes "same_program bs bs'"
  shows "live bs i k v \<Longrightarrow> live bs' i k v"
proof (induction rule: live.induct)
  case (live_edge i s v)
  then show ?case using assms live.live_edge [of i bs' s v] by (simp add: same_program_def)
qed (use assms in \<open>auto simp: same_program_def intro: live.intros\<close>)

lemma same_program_sym: "same_program bs bs' \<Longrightarrow> same_program bs' bs"
  by (simp add: same_program_def)

lemma same_program_live_iff: "same_program bs bs' \<Longrightarrow> live bs' i k v \<longleftrightarrow> live bs i k v"
  using same_program_live same_program_sym by blast

lemma same_program_offset:
  assumes "same_program bs bs'"
  shows "offset bs' i = offset bs i"
proof -
  have "map qb_instructions bs' = map qb_instructions bs" using assms by (auto simp: same_program_def intro: nth_equalityI)
  then show ?thesis unfolding offset_def take_map [symmetric] by simp
qed

text \<open>Everything the calculation establishes.\<close>

definition intervals_ok :: "v3d_compile \<Rightarrow> v3d_compile \<Rightarrow> live_ranges \<Rightarrow> bool" where
  "intervals_ok c c' rs \<longleftrightarrow> temp_start c' = Some (fst rs) \<and> temp_end c' = Some (snd rs) \<and> ranges_ok (num_temps c) rs \<and>
     num_temps c' = num_temps c \<and> fs_threaded c' = fs_threaded c \<and> c_failed c' = c_failed c \<and> same_program (c_blocks c) (c_blocks c') \<and>
     (\<forall>i < length (c_blocks c). \<forall>v. bmem (qb_live_in (c_blocks c' ! i)) v = live (c_blocks c) i 0 v \<and>
        bmem (qb_live_out (c_blocks c' ! i)) v = live (c_blocks c) i (length (insts (c_blocks c) i)) v) \<and>
     (\<forall>i k v. live (c_blocks c) i k v \<longrightarrow> covers rs v (offset (c_blocks c) i + int k)) \<and>
     (\<forall>i < length (c_blocks c). \<forall>k < length (insts (c_blocks c) i). \<forall>v.
        mentions (insts (c_blocks c) i ! k) v \<longrightarrow> covers rs v (offset (c_blocks c) i + int k))"

lemma setup_stage:
  assumes ok: "program_ok c"
  defines "n \<equiv> num_temps c" and "bs \<equiv> c_blocks c"
  defines "zeros \<equiv> replicate (BITSET_WORDS n) 0"
  defines "bs0 \<equiv> map (\<lambda>b. b\<lparr>qb_def := zeros, qb_use := zeros, qb_live_in := zeros, qb_live_out := zeros\<rparr>) bs"
  shows "\<exists>bs1 rs. vir_setup_def_use bs0 (replicate n MAX_INSTRUCTION, replicate n (-1)) = ret (bs1, rs) \<and> ranges_ok n rs \<and>
    same_program bs bs1 \<and> scanned_blocks n bs1 \<and> live_bits bs1 = {} \<and>
    (\<forall>i < length bs. \<forall>k < length (insts bs i). \<forall>v. mentions (insts bs i ! k) v \<longrightarrow> covers rs v (offset bs i + int k))"
proof -
  have cl: "\<And>b. b \<in> set bs0 \<Longrightarrow> clear_block n b" using ok by (auto simp: bs0_def clear_block_def program_ok_def bs_def n_def zeros_def)
  have rs0: "ranges_ok n (replicate n MAX_INSTRUCTION, replicate n (-1))" by (simp add: ranges_ok_def MAX_INSTRUCTION_def)
  obtain bs1 rs where s: "setup_blocks bs0 (replicate n MAX_INSTRUCTION, replicate n (-1)) 0 = ret (bs1, rs)" "ranges_ok n rs"
    "length bs1 = length bs0" "\<And>i. i < length bs0 \<Longrightarrow> block_info n (offset bs0 i) (bs1 ! i) \<and> same_flow (bs0 ! i) (bs1 ! i) \<and>
      (\<forall>k < length (insts bs0 i). \<forall>v. mentions (insts bs0 i ! k) v \<longrightarrow> covers rs v (offset bs0 i + int k))"
    using setup_blocks_ok [OF cl rs0, of bs0 0] widened_ok by auto
  have b0: "length bs0 = length bs" "\<And>i. i < length bs \<Longrightarrow> insts bs0 i = insts bs i \<and> succ_list (bs0 ! i) = succ_list (bs ! i) \<and>
      qb_successors (bs0 ! i) = qb_successors (bs ! i) \<and> qb_live_in (bs0 ! i) = zeros \<and> qb_live_out (bs0 ! i) = zeros"
    by (simp_all add: bs0_def succ_list_def)
  have b1: "insts bs1 i = insts bs i" "qb_successors (bs1 ! i) = qb_successors (bs ! i)" "qb_live_in (bs1 ! i) = zeros" "qb_live_out (bs1 ! i) = zeros"
    "block_info n (offset bs0 i) (bs1 ! i)"
    if "i < length bs" for i
    using s(4) [of i] b0 that by (auto simp: same_flow_def)
  have sp: "same_program bs bs1" using b1 s(3) b0(1) by (simp add: same_program_def succ_list_def)
  have "same_program bs bs0" using b0 by (simp add: same_program_def)
  note off = same_program_offset [OF this] same_program_offset [OF sp]
  have "flow_ok n bs1"
    unfolding flow_ok_def
  proof
    fix b assume "b \<in> set bs1"
    then obtain i where i: "i < length bs" "b = bs1 ! i" using s(3) b0(1) by (auto simp: in_set_conv_nth)
    have "length (qb_successors (bs ! i)) = 2" "\<forall>s\<in>set (succ_list (bs ! i)). s < length bs"
      using ok i(1) by (auto simp: program_ok_def bs_def)
    then show "words_ok n b \<and> length (qb_successors b) = 2 \<and> (\<forall>s\<in>set (succ_list b). s < length bs1)"
      using b1 [OF i(1)] i(2) s(3) b0(1) by (simp add: words_ok_def block_info_def zeros_def succ_list_def)
  qed
  then have "scanned_blocks n bs1" using b1(5) off s(3) b0(1) by (simp add: scanned_blocks_def)
  moreover have "live_bits bs1 = {}" using b1(3,4) s(3) b0(1) by (auto simp: live_bits_def zeros_def split: if_splits)
  moreover have "\<forall>i < length bs. \<forall>k < length (insts bs i). \<forall>v. mentions (insts bs i ! k) v \<longrightarrow> covers rs v (offset bs i + int k)"
    using s(4) b0 off by simp
  ultimately show ?thesis using s(1,2) sp by (auto simp: vir_setup_def_use_def)
qed

lemma calculate_ok:
  assumes ok: "program_ok c"
  shows "\<exists>c' rs. vir_calculate_live_intervals c = ret c' \<and> intervals_ok c c' rs"
proof -
  let ?n = "num_temps c" and ?bs = "c_blocks c"
  obtain bs1 rs1 where s: "vir_setup_def_use (map (\<lambda>b. b\<lparr>qb_def := replicate (BITSET_WORDS ?n) 0, qb_use := replicate (BITSET_WORDS ?n) 0,
      qb_live_in := replicate (BITSET_WORDS ?n) 0, qb_live_out := replicate (BITSET_WORDS ?n) 0\<rparr>) ?bs)
      (replicate ?n MAX_INSTRUCTION, replicate ?n (-1)) = ret (bs1, rs1)" "ranges_ok ?n rs1" "same_program ?bs bs1" "scanned_blocks ?n bs1"
      "live_bits bs1 = {}" and ment: "\<And>i k v. i < length ?bs \<Longrightarrow> k < length (insts ?bs i) \<Longrightarrow> mentions (insts ?bs i ! k) v \<Longrightarrow>
        covers rs1 v (offset ?bs i + int k)"
    using setup_stage [OF ok] by blast
  have fl: "flow_ok ?n bs1" using s(4) by (simp add: scanned_blocks_def)
  obtain bs2 where d: "dataflow_loop bs1 = ret bs2" "same_blocks ?n bs1 bs2" "flow_closed bs1 (live_bits bs2)"
    "\<And>X. flow_closed bs1 X \<Longrightarrow> live_bits bs2 \<subseteq> X"
    using dataflow_loop_ok [OF fl] s(5) by auto
  have len: "length bs1 = length ?bs" "length bs2 = length bs1" using s(3) d(2) by (simp_all add: same_program_def same_blocks_def)
  have ips: "start_ip (bs2 ! i) = offset ?bs i" "end_ip (bs2 ! i) = offset ?bs i + int (length (insts ?bs i))" "words_ok ?n (bs2 ! i)"
    if "i < length ?bs" for i
    using that len scannedD(3,4) [OF s(4)] same_blocksD(6,7,9) [OF d(2)] same_program_offset [OF s(3)] flow_okD(1) [OF fl] s(3)
    by (simp_all add: same_program_def)
  have "\<And>b. b \<in> set bs2 \<Longrightarrow> words_ok ?n b \<and> 0 \<le> start_ip b \<and> 0 \<le> end_ip b"
    using ips len by (auto simp: in_set_conv_nth offset_def)
  from compute_start_end_ok [where bs = bs2, OF s(2) this] obtain rs2 where
    e: "vir_compute_start_end bs2 ?n rs1 = ret rs2" "widened ?n rs1 rs2" "\<And>b. b \<in> set bs2 \<Longrightarrow> block_covered ?n b rs2" by auto
  let ?c' = "c\<lparr>c_blocks := bs2, temp_start := Some (fst rs2), temp_end := Some (snd rs2)\<rparr>"
  have run: "vir_calculate_live_intervals c = ret ?c'"
    using ok s(1) d(1) e(1) by (simp add: vir_calculate_live_intervals_def program_ok_def)
  have okv: "inst_ok ?n (insts ?bs i ! k)" if "i < length ?bs" "k < length (insts ?bs i)" for i k
    using ok nth_mem [OF that(1)] nth_mem [OF that(2)] by (simp add: program_ok_def)
  have ment2: "covers rs2 v (offset ?bs i + int k)" if "i < length ?bs" "k < length (insts ?bs i)" "mentions (insts ?bs i ! k) v" for i k v
    using covers_widened [OF ment [OF that] e(2)] that(3) inst_okD(5,6) [OF okv [OF that(1,2)], of v] by (auto simp: mentions_def)
  have exact: "bmem (qb_live_in (bs2 ! i)) v = live ?bs i 0 v" "bmem (qb_live_out (bs2 ! i)) v = live ?bs i (length (insts ?bs i)) v"
    if "i < length ?bs" for i v
    using live_bits_exact [OF s(4) d(3,4), of i v] that len live_bits_simps [of i v bs2] same_program_live_iff [OF s(3)] s(3)
    by (auto simp: same_program_def)
  have lt: "v < ?n" if "live ?bs i k v" for i k v
    using that by (induction rule: live.induct) (use okv inst_okD(5) in blast)+
  have sp2: "same_program ?bs bs2" using s(3) same_blocksD(2,3) [OF d(2)] len by (simp add: same_program_def)
  have cov: "covers rs2 v (offset bs1 i + int k)" if "live bs1 i k v" for i k v
  proof (rule interval_covers [OF s(4) d(3) _ _ _ that])
    show "covers rs2 v (offset bs1 i + int k)" if "i < length bs1" "k < length (insts bs1 i)" "mentions (insts bs1 i ! k) v" for i k v
      using ment2 [of i k v] that s(3) len same_program_offset [OF s(3)] by (simp add: same_program_def)
    show "covers rs2 v (offset bs1 i)" if "(i, v, True) \<in> live_bits bs2" "i < length bs1" for i v
      using that e(3) [of "bs2 ! i"] exact(1) [of i v] lt ips(1) [of i] len same_program_offset [OF s(3)]
      by (auto simp: live_bits_simps block_covered_def)
    show "covers rs2 v (offset bs1 i + int (length (insts bs1 i)))" if "(i, v, False) \<in> live_bits bs2" "i < length bs1" for i v
      using that e(3) [of "bs2 ! i"] exact(2) [of i v] lt ips(2) [of i] len same_program_offset [OF s(3)] s(3)
      by (auto simp: live_bits_simps block_covered_def same_program_def)
  qed
  have "intervals_ok c ?c' rs2"
    unfolding intervals_ok_def using exact ment2 sp2 widened_ok [OF e(2)] cov same_program_offset [OF s(3)] same_program_live [OF s(3)]
    by simp
  then show ?thesis using run by blast
qed

end
