(* ===== verification/Vir_Alloc.thy ===== *)
theory Vir_Alloc
  imports Vir_Register_Allocate Vir_Liveness Ra_Clients "HOL-Library.Multiset"
begin

text \<open>
  The steps of the register allocation of a VIR program: the register classes of the V3D, the numbering
  of the nodes, and the loops that build the interference graph.
\<close>

section \<open>The register classes\<close>

lemma class_add_all_ok:
  assumes "building R" "c < rs_class_count R" "distinct ids" "\<And>i. i \<in> set ids \<Longrightarrow> i < rs_count R \<and> \<not> in_class R c i"
  shows "\<exists>R'. fold_run (\<lambda>i regs. ra_class_add_reg regs c i) ids R = ret R' \<and> building R' \<and> rs_count R' = rs_count R \<and>
    rs_class_count R' = rs_class_count R \<and> conf R' = conf R \<and>
    (\<forall>d < rs_class_count R. \<forall>a. in_class R' d a \<longleftrightarrow> in_class R d a \<or> d = c \<and> a \<in> set ids)"
  using assms
proof (induction ids arbitrary: R)
  case (Cons i ids)
  have i: "i < rs_count R" "\<not> in_class R c i" using Cons.prems(4) [of i] by auto
  obtain R1 where s: "ra_class_add_reg R c i = ret R1" "building R1" "rs_count R1 = rs_count R" "rs_class_count R1 = rs_class_count R"
    "conf R1 = conf R" "\<And>d a. d < rs_class_count R \<Longrightarrow> in_class R1 d a \<longleftrightarrow> in_class R d a \<or> d = c \<and> a = i"
    using class_add_ok [OF Cons.prems(1,2) i] by blast
  have "\<exists>R'. fold_run (\<lambda>i regs. ra_class_add_reg regs c i) ids R1 = ret R' \<and> building R' \<and> rs_count R' = rs_count R1 \<and>
    rs_class_count R' = rs_class_count R1 \<and> conf R' = conf R1 \<and>
    (\<forall>d < rs_class_count R1. \<forall>a. in_class R' d a \<longleftrightarrow> in_class R1 d a \<or> d = c \<and> a \<in> set ids)"
    by (rule Cons.IH [OF s(2)]) (use Cons.prems s in auto)
  then show ?case using s by auto
qed simp

definition class_regs :: "nat \<Rightarrow> nat \<Rightarrow> bool" where
  "class_regs t r \<longleftrightarrow> r < PHYS_INDEX + PHYS_COUNT div 2 ^ t"

lemma init_reg_class_ok:
  assumes B: "building R" and n: "rs_count R = PHYS_INDEX + PHYS_COUNT"
  shows "\<exists>R'. init_reg_class t (R, cs) = ret (R', cs @ [rs_class_count R]) \<and> building R' \<and> rs_count R' = rs_count R \<and>
    rs_class_count R' = Suc (rs_class_count R) \<and> conf R' = conf R \<and> (\<forall>a. in_class R' (rs_class_count R) a = class_regs t a) \<and>
    (\<forall>d < rs_class_count R. in_class R' d = in_class R d)"
proof -
  let ?c = "rs_class_count R" and ?m = "PHYS_COUNT div 2 ^ t"
  define R1 where "R1 = fst (ra_alloc_reg_class R)"
  have eq: "ra_alloc_reg_class R = (R1, ?c)" by (simp add: R1_def ra_alloc_reg_class_def)
  note A = alloc_class_ok [OF B eq]
  have m: "PHYS_INDEX + ?m \<le> rs_count R1" using A(4) n by simp
  have phys: "\<And>i. i \<in> set [PHYS_INDEX..<PHYS_INDEX + ?m] \<Longrightarrow> i < rs_count R1 \<and> \<not> in_class R1 ?c i"
    using A(6) less_le_trans [OF _ m] by simp
  have c1: "?c < rs_class_count R1" using A(3) by simp
  from class_add_all_ok [where ids = "[PHYS_INDEX..<PHYS_INDEX + ?m]", OF A(1) c1 _ phys] obtain R2 where
    s2: "fold_run (\<lambda>i regs. ra_class_add_reg regs ?c i) [PHYS_INDEX..<PHYS_INDEX + ?m] R1 = ret R2" "building R2" "rs_count R2 = rs_count R1"
      "rs_class_count R2 = rs_class_count R1" "conf R2 = conf R1"
      "\<And>d a. d < rs_class_count R1 \<Longrightarrow> in_class R2 d a \<longleftrightarrow> in_class R1 d a \<or> d = ?c \<and> a \<in> set [PHYS_INDEX..<PHYS_INDEX + ?m]"
    by auto
  have acc: "\<And>i. i \<in> set [ACC_INDEX..<ACC_INDEX + ACC_COUNT] \<Longrightarrow> i < rs_count R2 \<and> \<not> in_class R2 ?c i"
    using A(4,6) n s2(3) s2(6) [OF c1] by (auto simp: PHYS_INDEX_def)
  have c2: "?c < rs_class_count R2" using c1 s2(4) by simp
  from class_add_all_ok [where ids = "[ACC_INDEX..<ACC_INDEX + ACC_COUNT]", OF s2(2) c2 _ acc] obtain R3 where
    s3: "fold_run (\<lambda>i regs. ra_class_add_reg regs ?c i) [ACC_INDEX..<ACC_INDEX + ACC_COUNT] R2 = ret R3" "building R3" "rs_count R3 = rs_count R2"
      "rs_class_count R3 = rs_class_count R2" "conf R3 = conf R2"
      "\<And>d a. d < rs_class_count R2 \<Longrightarrow> in_class R3 d a \<longleftrightarrow> in_class R2 d a \<or> d = ?c \<and> a \<in> set [ACC_INDEX..<ACC_INDEX + ACC_COUNT]"
    by auto
  have run: "init_reg_class t (R, cs) = ret (R3, cs @ [?c])" using eq s2(1) s3(1) by (simp add: init_reg_class_def)
  have "in_class R3 ?c a = class_regs t a" for a
    using s3(6) [OF c2, of a] s2(6) [OF c1, of a] A(6) by (auto simp: class_regs_def PHYS_INDEX_def ACC_INDEX_def)
  moreover have "in_class R3 d = in_class R d" if "d < ?c" for d
    using that s3(6) s2(4,6) A(3,7) by (auto simp: fun_eq_iff)
  ultimately show ?thesis using run s2(3-5) s3(2-5) A(3-5) by simp
qed

definition v3d_regs :: "ra_regs \<Rightarrow> bool" where
  "v3d_regs R \<longleftrightarrow> regs_ok R \<and> pq_sound R \<and> rs_count R = PHYS_INDEX + PHYS_COUNT \<and> rs_class_count R = 3 \<and>
     (\<forall>c < 3. \<forall>r. in_class R c r = class_regs c r) \<and> (\<forall>r < rs_count R. \<forall>r'. conf R r r' = (r = r')) \<and>
     (\<forall>b < 3. \<forall>c < 3. qv R b c = 1) \<and> (\<forall>c < 3. pv R c = PHYS_INDEX + PHYS_COUNT div 2 ^ c)"

lemma v3d_regsD:
  assumes "v3d_regs R"
  shows "regs_ok R" "pq_sound R" "rs_count R = PHYS_INDEX + PHYS_COUNT" "rs_class_count R = 3" "c < 3 \<Longrightarrow> in_class R c r = class_regs c r"
    "r < rs_count R \<Longrightarrow> conf R r r' = (r = r')" "b < 3 \<Longrightarrow> c < 3 \<Longrightarrow> qv R b c = 1"
    "c < 3 \<Longrightarrow> pv R c = PHYS_INDEX + PHYS_COUNT div 2 ^ c"
  using assms by (auto simp: v3d_regs_def)

lemma init_reg_sets_ok: "\<exists>R. vir_init_reg_sets = ret \<lparr>vc_regs = R, vc_reg_class = [0, 1, 2]\<rparr> \<and> v3d_regs R"
proof -
  let ?n = "PHYS_INDEX + PHYS_COUNT"
  have "?n \<le> 2 ^ 31" by (simp add: PHYS_INDEX_def PHYS_COUNT_def ACC_INDEX_def ACC_COUNT_def)
  from alloc_reg_set_ok [OF this] obtain R0 where R0: "ra_alloc_reg_set ?n True = ret R0" "building R0" "rs_count R0 = ?n"
    "rs_class_count R0 = 0" "\<And>r r'. r < ?n \<Longrightarrow> conf R0 r r' \<longleftrightarrow> r = r'"
    by blast
  obtain R1 where R1: "init_reg_class 0 (R0, []) = ret (R1, [0])" "building R1" "rs_count R1 = ?n" "rs_class_count R1 = 1" "conf R1 = conf R0"
    "\<And>a. in_class R1 0 a = class_regs 0 a"
    using init_reg_class_ok [OF R0(2,3), of 0 "[]"] R0(3,4) by auto
  obtain R2 where R2: "init_reg_class 1 (R1, [0]) = ret (R2, [0, 1])" "building R2" "rs_count R2 = ?n" "rs_class_count R2 = 2" "conf R2 = conf R0"
    "\<And>a. in_class R2 1 a = class_regs 1 a" "in_class R2 0 = in_class R1 0"
    using init_reg_class_ok [OF R1(2,3), of 1 "[0]"] R1(3-5) by auto
  obtain R3 where R3: "init_reg_class 2 (R2, [0, 1]) = ret (R3, [0, 1, 2])" "building R3" "rs_count R3 = ?n" "rs_class_count R3 = 3" "conf R3 = conf R0"
    "\<And>a. in_class R3 2 a = class_regs 2 a" "\<And>d. d < 2 \<Longrightarrow> in_class R3 d = in_class R2 d"
    using init_reg_class_ok [OF R2(2,3), of 2 "[0, 1]"] R2(3-5) by auto
  have ic: "in_class R3 c r = class_regs c r" if c: "c < 3" for c r
  proof -
    consider "c = 0" | "c = 1" | "c = 2" using c by linarith
    then show ?thesis using R3(6,7) R2(6,7) R1(6) by cases auto
  qed
  have upt: "[0..<3] = [0, 1, 2 :: nat]" by (simp add: upt_rec)
  have folds: "fold_run init_reg_class [0..<3] (R0, []) = ret (R3, [0, 1, 2])" unfolding upt using R1(1) R2(1) R3(1) by simp
  obtain R where F: "ra_set_finalize R3 None = ret R" "rs_count R = ?n" "rs_class_count R = 3"
    "\<And>r r'. r < ?n \<Longrightarrow> conf R r r' = conf R3 r r'" "\<And>c r. c < 3 \<Longrightarrow> in_class R c r = in_class R3 c r"
    "\<And>b c. b < 3 \<Longrightarrow> c < 3 \<Longrightarrow> is_q R3 b c (qv R b c)"
    "\<And>c. c < 3 \<Longrightarrow> pv R c = card {r. in_class R3 c r}"
    using finalize_ok [OF R3(2)] R3(3,4) by auto
  have one: "qv R b c = 1" if bc: "b < 3" "c < 3" for b c
  proof -
    have lt: "r < ?n" if "class_regs c r" for r
      using that by (auto simp: class_regs_def intro: less_le_trans)
    have sh: "shared R3 b r = (if class_regs b r then {r} else {})" if "class_regs c r" for r
      using ic [OF bc(1)] R3(5) R0(5) [OF lt [OF that]] by auto
    have zero: "class_regs d 0" for d by (simp add: class_regs_def PHYS_INDEX_def ACC_COUNT_def)
    have q: "\<And>r. in_class R3 c r \<Longrightarrow> card (shared R3 b r) \<le> qv R b c"
      "qv R b c = 0 \<or> (\<exists>r. in_class R3 c r \<and> qv R b c = card (shared R3 b r))"
      using F(6) [OF bc] unfolding is_q_def by blast+
    have "1 \<le> qv R b c" using q(1) [of 0] ic [OF bc(2)] zero sh [OF zero] by simp
    moreover have "card (shared R3 b r) \<le> 1" if "in_class R3 c r" for r using sh [of r] that ic [OF bc(2)] by simp
    then have "qv R b c \<le> 1" using q(2) by auto
    ultimately show ?thesis by simp
  qed
  have "v3d_regs R"
    unfolding v3d_regs_def using finalize_pq_sound [OF R3(2) F(1)] F(2-5) ic one R3(5) R0(5) F(7) by (simp add: class_regs_def)
  then show ?thesis using R0(1) folds F(1) by (auto simp: vir_init_reg_sets_def)
qed

section \<open>Graphs by their edges, forced registers and classes\<close>

definition tracked :: "ra_regs \<Rightarrow> nat \<Rightarrow> ra_graph \<Rightarrow> (nat \<times> nat) set \<Rightarrow> (nat \<Rightarrow> nat) \<Rightarrow> (nat \<Rightarrow> nat) \<Rightarrow> bool" where
  "tracked R N g E F K \<longleftrightarrow> linked g \<and> q_bounded g \<and> g_regs g = R \<and> g_count g = N \<and> edges g = E \<and>
     (\<forall>m < N. nd_reg (node g m) = F m \<and> nd_class (node g m) = K m)"

lemma trackedD:
  assumes "tracked R N g E F K"
  shows "linked g" "q_bounded g" "g_regs g = R" "g_count g = N" "edges g = E" "m < N \<Longrightarrow> nd_reg (node g m) = F m"
    "m < N \<Longrightarrow> nd_class (node g m) = K m"
  using assms by (auto simp: tracked_def)

definition sym_edge :: "nat \<Rightarrow> nat \<Rightarrow> (nat \<times> nat) set" where
  "sym_edge n m = {(n, m), (m, n)}"

lemma tracked_new:
  assumes "v3d_regs R" "N \<le> 2 ^ 31" "N * rs_count R < UINT_MAX"
  shows "tracked R N (ra_alloc_interference_graph R N) {} (\<lambda>_. NO_REG) (\<lambda>_. 0)"
proof -
  note D = v3d_regsD [OF assms(1)]
  have "linked (ra_alloc_interference_graph R N)" using alloc_graph_linked [OF D(1) _ assms(2)] D(4) by simp
  moreover have "q_bounded (ra_alloc_interference_graph R N)"
    using assms(3) D(3,4,7) by (simp add: q_bounded_def ra_alloc_interference_graph_def PHYS_COUNT_def)
  ultimately show ?thesis by (simp add: tracked_def ra_alloc_interference_graph_def edges_def)
qed

lemma tracked_edge:
  assumes "tracked R N g E F K" "n1 < N" "n2 < N" "n1 \<noteq> n2"
  shows "\<exists>g'. ra_add_node_interference g n1 n2 = ret g' \<and> tracked R N g' (E \<union> sym_edge n1 n2) F K"
proof -
  note T = trackedD [OF assms(1)]
  have "n1 < g_count g" "n2 < g_count g" using assms(2,3) T(4) by simp_all
  from add_interference_ok [OF T(1,2) this] obtain g' where
    g': "ra_add_node_interference g n1 n2 = ret g'" "linked g'" "g_regs g' = g_regs g" "g_count g' = g_count g"
      "edges g' = edges g \<union> {(n1, n2), (n2, n1)}" "\<And>m. nd_class (node g' m) = nd_class (node g m) \<and> nd_reg (node g' m) = nd_reg (node g m)"
    using assms(4) by auto
  have "tracked R N g' (E \<union> sym_edge n1 n2) F K"
    using g' T by (simp add: tracked_def sym_edge_def q_bounded_def)
  then show ?thesis using g'(1) by blast
qed

lemma tracked_reg:
  assumes "tracked R N g E F K" "n < N"
  shows "\<exists>g'. ra_set_node_reg g n r = ret g' \<and> tracked R N g' E (F(n := r)) K"
proof -
  note T = trackedD [OF assms(1)]
  have n: "n < g_count g" using assms(2) T(4) by simp
  from set_node_reg_linked [OF T(1) n, of r] obtain g' where
    g': "ra_set_node_reg g n r = ret g'" "linked g'" "g' = g\<lparr>g_nodes := (g_nodes g)[n := (node g n)\<lparr>nd_reg := r, in_stack := False\<rparr>]\<rparr>"
    by blast
  have len: "length (g_nodes g) = N" using graph_okD(2) [OF linkedD(1) [OF T(1)]] T(4) by simp
  have "edges g' = edges g" using n len T(4) unfolding g'(3) edges_def by (auto simp: nth_list_update split: if_splits)
  then have "tracked R N g' E (F(n := r)) K"
    using g'(2) T n len unfolding tracked_def by (auto simp: g'(3) q_bounded_def nth_list_update)
  then show ?thesis using g'(1) by blast
qed

lemma tracked_class:
  assumes "tracked R N g E F K" "n < N" "c < 3" "v3d_regs R"
  shows "\<exists>g'. ra_set_node_class g n c = ret g' \<and> tracked R N g' E F (K(n := c))"
proof -
  note T = trackedD [OF assms(1)] and D = v3d_regsD [OF assms(4)]
  have n: "n < g_count g" using assms(2) T(4) by simp
  note G = graph_okD [OF linkedD(1) [OF T(1)]]
  have cl: "nd_class (node g m) < 3" if "m < g_count g" for m using adjacent_okD(4) [OF G(8) [OF that]] T(3) D(4) by simp
  have nb: "m < g_count g" if "m \<in> set (nbrs g n)" for m using adjacent_okD(5) [OF G(8) [OF n] that] .
  have "class_change_ok g n c"
    unfolding class_change_ok_def T(3) using D(7) assms(3) cl nb n by simp
  moreover have "c < rs_class_count (g_regs g)" using assms(3) T(3) D(4) by simp
  ultimately obtain g' where
    g': "ra_set_node_class g n c = ret g'" "linked g'" "g' = g\<lparr>g_nodes := (g_nodes g)[n := (node g n)\<lparr>nd_class := c\<rparr>]\<rparr>"
    using set_node_class_linked [OF T(1) n] by blast
  have len: "length (g_nodes g) = N" using G(2) T(4) by simp
  have "edges g' = edges g" using n len T(4) unfolding g'(3) edges_def by (auto simp: nth_list_update split: if_splits)
  then have "tracked R N g' E F (K(n := c))"
    using g'(2) T n len unfolding tracked_def by (auto simp: g'(3) q_bounded_def nth_list_update)
  then show ?thesis using g'(1) by blast
qed

lemma tracked_edges_fold:
  assumes "\<And>x g E. x \<in> set xs \<Longrightarrow> tracked R N g E F K \<Longrightarrow> \<exists>g'. f x g = ret g' \<and> tracked R N g' (E \<union> P x) F K"
  shows "tracked R N g E F K \<Longrightarrow> \<exists>g'. fold_run f xs g = ret g' \<and> tracked R N g' (E \<union> (\<Union>x\<in>set xs. P x)) F K"
  using assms
proof (induction xs arbitrary: g E)
  case (Cons x xs)
  obtain g1 where s: "f x g = ret g1" "tracked R N g1 (E \<union> P x) F K" using Cons.prems(2) [of x g E] Cons.prems(1) by auto
  have "\<exists>g'. fold_run f xs g1 = ret g' \<and> tracked R N g' ((E \<union> P x) \<union> (\<Union>x\<in>set xs. P x)) F K"
    by (rule Cons.IH [OF s(2)]) (rule Cons.prems(2); simp)
  then show ?case using s(1) by (simp add: Un_assoc)
qed auto

section \<open>The numbering of the nodes\<close>

lemma fold_run_snoc: "fold_run f (xs @ [x]) s = bind_run (fold_run f xs s) (f x)"
proof (induction xs arbitrary: s)
  case Nil
  have "fold_run f [] = ret" by (simp add: fun_eq_iff)
  then show ?case by (auto simp: bind_run_def ret_def split: option.splits sum.splits)
next
  case (Cons y xs)
  then show ?case by (auto simp: bind_run_def split: option.splits sum.splits)
qed

lemma number_nodes_ok:
  assumes "mset (map nt_temp nodes) = mset [0..<n]"
  shows "\<exists>pos. number_nodes nodes n = ret (map (\<lambda>i. Some (pos i)) [0..<n]) \<and> inj_on pos {..<n} \<and> (\<forall>i < n. pos i < n)"
proof -
  have len: "length nodes = n" using assms by (metis length_map length_upt minus_nat.diff_0 mset_eq_length)
  have dist: "distinct (map nt_temp nodes)" using mset_eq_imp_distinct_iff [OF assms] by simp
  have set: "set (map nt_temp nodes) = {..<n}" using mset_eq_setD [OF assms] by (simp add: atLeast0LessThan lessThan_def)
  have temp: "nt_temp (nodes ! j) < n" if "j < n" for j using set nth_mem [of j nodes] that len by auto
  have uniq: "nt_temp (nodes ! j) = nt_temp (nodes ! k) \<longleftrightarrow> j = k" if "j < n" "k < n" for j k
    using nth_eq_iff_index_eq [OF dist, of j k] that len by simp
  have "\<exists>t. fold_run (\<lambda>i t. bind_run (fetch nodes i) (\<lambda>m. update_at (\<lambda>_. Some i) t (nt_temp m))) [0..<k] (replicate n None) = ret t \<and>
      length t = n \<and> (\<forall>j < k. t ! nt_temp (nodes ! j) = Some j)" if "k \<le> n" for k
    using that
  proof (induction k)
    case (Suc k)
    then obtain t where t: "fold_run (\<lambda>i t. bind_run (fetch nodes i) (\<lambda>m. update_at (\<lambda>_. Some i) t (nt_temp m))) [0..<k] (replicate n None) = ret t"
      "length t = n" "\<And>j. j < k \<Longrightarrow> t ! nt_temp (nodes ! j) = Some j" by auto
    let ?t = "t[nt_temp (nodes ! k) := Some k]"
    have "?t ! nt_temp (nodes ! j) = Some j" if "j < Suc k" for j
      using that t(2,3) temp Suc.prems uniq [of j k] by (cases "j = k") (auto simp: nth_list_update)
    moreover have "fold_run (\<lambda>i t. bind_run (fetch nodes i) (\<lambda>m. update_at (\<lambda>_. Some i) t (nt_temp m))) [0..<Suc k] (replicate n None) = ret ?t"
      using t(1,2) len temp [of k] Suc.prems by (simp add: fold_run_snoc update_at_def)
    ultimately show ?case using t(2) by auto
  qed simp
  from this [of n] obtain t where t: "number_nodes nodes n = ret t" "length t = n" "\<And>j. j < n \<Longrightarrow> t ! nt_temp (nodes ! j) = Some j"
    by (auto simp: number_nodes_def)
  have "\<exists>j < n. nt_temp (nodes ! j) = i" if "i < n" for i
  proof -
    have "i \<in> set (map nt_temp nodes)" using set that by simp
    then show ?thesis using len by (auto simp: in_set_conv_nth)
  qed
  then obtain pos where pos: "\<And>i. i < n \<Longrightarrow> pos i < n \<and> nt_temp (nodes ! pos i) = i" by metis
  have "t = map (\<lambda>i. Some (pos i)) [0..<n]" using t(2,3) pos by (auto intro!: nth_equalityI) metis
  moreover have "inj_on pos {..<n}" using pos by (metis inj_onI lessThan_iff)
  ultimately show ?thesis using t(1) pos by blast
qed

lemma node_of_ok: "i < n \<Longrightarrow> node_of (map (\<lambda>i. Some (pos i)) [0..<n]) i = ret (pos i)"
  by (simp add: node_of_def)

end
