(* ===== verification/Vir_Alloc_Graph.thy ===== *)
theory Vir_Alloc_Graph
  imports Vir_Alloc
begin

text \<open>
  The interference graph of a VIR program: which edges, forced registers and classes the loops of
  \<open>v3d_register_allocate\<close> give to its nodes.
\<close>

abbreviation node_table :: "(nat \<Rightarrow> nat) \<Rightarrow> nat \<Rightarrow> nat option list" where
  "node_table pos n \<equiv> map (\<lambda>i. Some (pos i)) [0..<n]"

section \<open>Edges to the accumulators\<close>

definition spans :: "live_ranges \<Rightarrow> int \<Rightarrow> nat \<Rightarrow> bool" where
  "spans rs ip i \<longleftrightarrow> fst rs ! i < ip \<and> ip < snd rs ! i"

definition acc_edges :: "nat \<Rightarrow> (nat \<Rightarrow> nat) \<Rightarrow> live_ranges \<Rightarrow> int \<Rightarrow> nat \<Rightarrow> (nat \<times> nat) set" where
  "acc_edges n pos rs ip a = (\<Union>i\<in>set [0..<n]. if spans rs ip i then sym_edge (pos i) (n + a) else {})"

lemma avoid_acc_ok:
  assumes rs: "ranges_ok n rs" and pos: "\<And>i. i < n \<Longrightarrow> pos i < n" and a: "a < ACC_COUNT" and T: "tracked R (n + ACC_COUNT) g E F K"
  shows "\<exists>g'. avoid_acc (node_table pos n) rs n ip (n + a) g = ret g' \<and> tracked R (n + ACC_COUNT) g' (E \<union> acc_edges n pos rs ip a) F K"
  unfolding avoid_acc_def acc_edges_def
proof (rule tracked_edges_fold [OF _ T])
  fix i g E assume i: "i \<in> set [0..<n]" and T: "tracked R (n + ACC_COUNT) g E F K"
  then have lt: "i < n" "pos i < n" using pos by auto
  have fe: "fetch (fst rs) i = ret (fst rs ! i)" "fetch (snd rs) i = ret (snd rs ! i)" using rs lt by (simp_all add: ranges_ok_def)
  show "\<exists>g'. bind_run (fetch (fst rs) i) (\<lambda>s. bind_run (fetch (snd rs) i) (\<lambda>e. if s < ip \<and> e > ip then
       bind_run (node_of (node_table pos n) i) (\<lambda>node. ra_add_node_interference g node (n + a)) else ret g)) = ret g' \<and>
     tracked R (n + ACC_COUNT) g' (E \<union> (if spans rs ip i then sym_edge (pos i) (n + a) else {})) F K"
  proof (cases "spans rs ip i")
    case True
    then show ?thesis using tracked_edge [OF T, of "pos i" "n + a"] lt a fe by (simp add: spans_def node_of_ok)
  next
    case False
    then show ?thesis using T fe by (auto simp: spans_def)
  qed
qed

section \<open>Instructions\<close>

definition writes_acc3 :: "qinst \<Rightarrow> bool" where
  "writes_acc3 inst \<longleftrightarrow> (\<exists>i < vir_get_nsrc inst. q_file (qi_src inst ! i) = QFILE_VARY \<or> q_file (qi_src inst ! i) = QFILE_VPM)"

lemma writes_r3_ok:
  assumes "length (qi_src inst) = 3"
  shows "vir_writes_r3 inst = ret (writes_acc3 inst)"
proof -
  have "any_src_writes_r3 (qi_src inst) ids = ret (\<exists>i\<in>set ids. q_file (qi_src inst ! i) = QFILE_VARY \<or> q_file (qi_src inst ! i) = QFILE_VPM)"
    if "\<And>i. i \<in> set ids \<Longrightarrow> i < 3" for ids
    using that assms by (induction ids) auto
  from this [of "[0..<vir_get_nsrc inst]"] show ?thesis using nsrc_le [of inst] by (auto simp: vir_writes_r3_def writes_acc3_def)
qed

definition payload_ok :: "qinst \<Rightarrow> bool" where
  "payload_ok inst \<longleftrightarrow> (payload inst \<longrightarrow> alu_op (mul_part inst) = V3D_QPU_M_MOV \<and> q_file (qi_dst inst) = QFILE_TEMP)"

definition force :: "(nat \<Rightarrow> nat) \<Rightarrow> qinst \<Rightarrow> (nat \<Rightarrow> nat) \<Rightarrow> nat \<Rightarrow> nat" where
  "force pos inst F = (if payload inst then F(pos (q_index (qi_dst inst)) := PHYS_INDEX + q_index (qi_src inst ! 0)) else F)"

definition inst_edges :: "nat \<Rightarrow> (nat \<Rightarrow> nat) \<Rightarrow> live_ranges \<Rightarrow> qinst \<Rightarrow> int \<Rightarrow> (nat \<times> nat) set" where
  "inst_edges n pos rs inst ip = (if writes_acc3 inst then acc_edges n pos rs ip 3 else {}) \<union>
     (if vir_writes_r4 inst then acc_edges n pos rs ip 4 else {})"

lemma payload_reg_ok:
  assumes ok: "inst_ok n inst" "payload_ok inst" and pos: "\<And>i. i < n \<Longrightarrow> pos i < n" and T: "tracked R (n + ACC_COUNT) g E F K"
  shows "\<exists>g'. payload_reg (node_table pos n) inst g = ret g' \<and> tracked R (n + ACC_COUNT) g' E (force pos inst F) K"
proof (cases "payload inst")
  case True
  let ?d = "q_index (qi_dst inst)"
  have d: "?d < n" "pos ?d < n + ACC_COUNT" using inst_okD(4) [OF ok(1) True] pos [of ?d] by auto
  then show ?thesis
    using tracked_reg [OF T d(2)] True ok(2) inst_okD(1) [OF ok(1)] by (simp add: payload_reg_def payload_def payload_ok_def force_def node_of_ok)
next
  case False
  then show ?thesis using T inst_okD(1) [OF ok(1)] by (auto simp: payload_reg_def payload_def force_def)
qed

lemma inst_constraints_ok:
  assumes ok: "inst_ok n inst" "payload_ok inst" and rs: "ranges_ok n rs" and pos: "\<And>i. i < n \<Longrightarrow> pos i < n"
    and T: "tracked R (n + ACC_COUNT) g E F K"
  shows "\<exists>g'. inst_constraints (node_table pos n) rs n inst (g, ip) = ret (g', ip + 1) \<and>
    tracked R (n + ACC_COUNT) g' (E \<union> inst_edges n pos rs inst ip) (force pos inst F) K"
proof -
  have c: "3 < ACC_COUNT" "4 < ACC_COUNT" by (simp_all add: ACC_COUNT_def)
  obtain g1 where g1: "(if writes_acc3 inst then avoid_acc (node_table pos n) rs n ip (n + 3) g else ret g) = ret g1"
    "tracked R (n + ACC_COUNT) g1 (E \<union> (if writes_acc3 inst then acc_edges n pos rs ip 3 else {})) F K"
    using avoid_acc_ok [where pos = pos, OF rs pos c(1) T] T by (cases "writes_acc3 inst") auto
  obtain g2 where g2: "(if vir_writes_r4 inst then avoid_acc (node_table pos n) rs n ip (n + 4) g1 else ret g1) = ret g2"
    "tracked R (n + ACC_COUNT) g2 (E \<union> inst_edges n pos rs inst ip) F K"
    using avoid_acc_ok [where pos = pos, OF rs pos c(2) g1(2)] g1(2) by (cases "vir_writes_r4 inst") (auto simp: inst_edges_def Un_assoc)
  obtain g3 where g3: "payload_reg (node_table pos n) inst g2 = ret g3"
    "tracked R (n + ACC_COUNT) g3 (E \<union> inst_edges n pos rs inst ip) (force pos inst F) K"
    using payload_reg_ok [where pos = pos, OF ok pos g2(2)] by blast
  then show ?thesis using g1(1) g2(1) writes_r3_ok [OF inst_okD(1) [OF ok(1)]] by (simp add: inst_constraints_def)
qed

definition program_edges :: "nat \<Rightarrow> (nat \<Rightarrow> nat) \<Rightarrow> live_ranges \<Rightarrow> qinst list \<Rightarrow> int \<Rightarrow> (nat \<times> nat) set" where
  "program_edges n pos rs xs ip = (\<Union>k\<in>{..<length xs}. inst_edges n pos rs (xs ! k) (ip + int k))"

lemma program_edges_Cons:
  "program_edges n pos rs (x # xs) ip = inst_edges n pos rs x ip \<union> program_edges n pos rs xs (ip + 1)"
proof -
  have "{..<length (x # xs)} = insert 0 (Suc ` {..<length xs})" by (simp add: lessThan_Suc_eq_insert_0)
  then show ?thesis unfolding program_edges_def by (simp add: algebra_simps)
qed

lemma constraints_fold:
  assumes "\<And>x. x \<in> set xs \<Longrightarrow> inst_ok n x \<and> payload_ok x" and rs: "ranges_ok n rs" and pos: "\<And>i. i < n \<Longrightarrow> pos i < n"
    and "tracked R (n + ACC_COUNT) g E F K"
  shows "\<exists>g'. fold_run (inst_constraints (node_table pos n) rs n) xs (g, ip) = ret (g', ip + int (length xs)) \<and>
    tracked R (n + ACC_COUNT) g' (E \<union> program_edges n pos rs xs ip) (fold (force pos) xs F) K"
  using assms(1,4)
proof (induction xs arbitrary: g E F ip)
  case Nil
  then show ?case by (simp add: program_edges_def)
next
  case (Cons x xs)
  have x: "inst_ok n x" "payload_ok x" using Cons.prems(1) by auto
  obtain g1 where s: "inst_constraints (node_table pos n) rs n x (g, ip) = ret (g1, ip + 1)"
    "tracked R (n + ACC_COUNT) g1 (E \<union> inst_edges n pos rs x ip) (force pos x F) K"
    using inst_constraints_ok [where pos = pos, OF x rs pos Cons.prems(2)] by blast
  have "\<exists>g'. fold_run (inst_constraints (node_table pos n) rs n) xs (g1, ip + 1) = ret (g', ip + 1 + int (length xs)) \<and>
    tracked R (n + ACC_COUNT) g' ((E \<union> inst_edges n pos rs x ip) \<union> program_edges n pos rs xs (ip + 1)) (fold (force pos) xs (force pos x F)) K"
    by (rule Cons.IH [OF _ s(2)]) (rule Cons.prems(1); simp)
  then show ?case using s(1) by (auto simp: program_edges_Cons Un_assoc algebra_simps)
qed

section \<open>Classes, forced accumulators and interferences\<close>

lemma set_classes_ok:
  assumes "v3d_regs R" "c < 3" and pos: "\<And>i. i < n \<Longrightarrow> pos i < n" and T: "tracked R (n + ACC_COUNT) g E F K"
  shows "\<exists>g'. set_classes (node_table pos n) n c g = ret g' \<and> tracked R (n + ACC_COUNT) g' E F (\<lambda>m. if m \<in> pos ` {..<n} then c else K m)"
proof -
  have "\<exists>g'. fold_run (\<lambda>i g. bind_run (node_of (node_table pos n) i) (\<lambda>node. ra_set_node_class g node c)) ids g = ret g' \<and>
      tracked R (n + ACC_COUNT) g' E F (\<lambda>m. if m \<in> pos ` set ids then c else K m)"
    if "\<And>i. i \<in> set ids \<Longrightarrow> i < n" "tracked R (n + ACC_COUNT) g E F K" for ids g K
    using that
  proof (induction ids arbitrary: g K)
    case (Cons i ids)
    have i: "i < n" "pos i < n + ACC_COUNT" using Cons.prems(1) [of i] pos [of i] by auto
    obtain g1 where s: "ra_set_node_class g (pos i) c = ret g1" "tracked R (n + ACC_COUNT) g1 E F (K(pos i := c))"
      using tracked_class [OF Cons.prems(2) i(2) assms(2,1)] by blast
    have "\<exists>g'. fold_run (\<lambda>i g. bind_run (node_of (node_table pos n) i) (\<lambda>node. ra_set_node_class g node c)) ids g1 = ret g' \<and>
      tracked R (n + ACC_COUNT) g' E F (\<lambda>m. if m \<in> pos ` set ids then c else (K(pos i := c)) m)"
      by (rule Cons.IH [OF _ s(2)]) (rule Cons.prems(1); simp)
    moreover have "(\<lambda>m. if m \<in> pos ` set ids then c else (K(pos i := c)) m) = (\<lambda>m. if m \<in> pos ` set (i # ids) then c else K m)" by auto
    ultimately show ?case using s(1) i(1) by (simp add: node_of_ok)
  qed simp
  from this [of "[0..<n]" g K] T show ?thesis by (simp add: set_classes_def atLeast0LessThan)
qed

lemma acc_regs_ok:
  assumes "tracked R (n + ACC_COUNT) g E F K"
  shows "\<exists>g'. fold_run (\<lambda>i g. ra_set_node_reg g (n + i) (ACC_INDEX + i)) [0..<ACC_COUNT] g = ret g' \<and>
    tracked R (n + ACC_COUNT) g' E (\<lambda>m. if n \<le> m \<and> m < n + ACC_COUNT then m - n else F m) K"
proof -
  have "\<exists>g'. fold_run (\<lambda>i g. ra_set_node_reg g (n + i) (ACC_INDEX + i)) [0..<k] g = ret g' \<and>
      tracked R (n + ACC_COUNT) g' E (\<lambda>m. if n \<le> m \<and> m < n + k then m - n else F m) K" if "k \<le> ACC_COUNT" for k
    using that
  proof (induction k)
    case 0
    have "(\<lambda>m. if n \<le> m \<and> m < n + 0 then m - n else F m) = F" by (auto simp: fun_eq_iff)
    then show ?case using assms by (simp del: add_0_right)
  next
    case (Suc k)
    then obtain g1 where g1: "fold_run (\<lambda>i g. ra_set_node_reg g (n + i) (ACC_INDEX + i)) [0..<k] g = ret g1"
      "tracked R (n + ACC_COUNT) g1 E (\<lambda>m. if n \<le> m \<and> m < n + k then m - n else F m) K" by auto
    have "n + k < n + ACC_COUNT" using Suc.prems by simp
    from tracked_reg [OF g1(2) this, of "ACC_INDEX + k"] obtain g2 where
      g2: "ra_set_node_reg g1 (n + k) (ACC_INDEX + k) = ret g2"
        "tracked R (n + ACC_COUNT) g2 E ((\<lambda>m. if n \<le> m \<and> m < n + k then m - n else F m)(n + k := ACC_INDEX + k)) K" by blast
    moreover have "((\<lambda>m. if n \<le> m \<and> m < n + k then m - n else F m)(n + k := ACC_INDEX + k)) =
        (\<lambda>m. if n \<le> m \<and> m < n + Suc k then m - n else F m)"
      by (auto simp: fun_eq_iff ACC_INDEX_def)
    ultimately show ?case using g1(1) by (simp add: fold_run_snoc)
  qed
  then show ?thesis by blast
qed

definition overlap :: "live_ranges \<Rightarrow> nat \<Rightarrow> nat \<Rightarrow> bool" where
  "overlap rs i j \<longleftrightarrow> fst rs ! i < snd rs ! j \<and> fst rs ! j < snd rs ! i"

definition temp_edges :: "nat \<Rightarrow> (nat \<Rightarrow> nat) \<Rightarrow> live_ranges \<Rightarrow> (nat \<times> nat) set" where
  "temp_edges n pos rs = (\<Union>i\<in>set [0..<n]. \<Union>j\<in>set [i + 1..<n]. if overlap rs i j then sym_edge (pos i) (pos j) else {})"

lemma add_interferences_ok:
  assumes rs: "ranges_ok n rs" and pos: "\<And>i. i < n \<Longrightarrow> pos i < n" "inj_on pos {..<n}" and T: "tracked R (n + ACC_COUNT) g E F K"
  shows "\<exists>g'. add_interferences (node_table pos n) rs n g = ret g' \<and> tracked R (n + ACC_COUNT) g' (E \<union> temp_edges n pos rs) F K"
  unfolding add_interferences_def temp_edges_def
proof (rule tracked_edges_fold [OF _ T], rule tracked_edges_fold)
  fix i j g E assume i: "i \<in> set [0..<n]" and j: "j \<in> set [i + 1..<n]" and T: "tracked R (n + ACC_COUNT) g E F K"
  then have lt: "i < n" "j < n" "i \<noteq> j" by auto
  have ne: "pos i \<noteq> pos j" using pos(2) lt by (auto simp: inj_on_def)
  have inter: "interferes rs i j = ret (overlap rs i j)" using rs lt by (auto simp: interferes_def overlap_def ranges_ok_def)
  show "\<exists>g'. bind_run (interferes rs i j) (\<lambda>b. if b then bind_run (node_of (node_table pos n) i) (\<lambda>ni.
       bind_run (node_of (node_table pos n) j) (\<lambda>nj. ra_add_node_interference g ni nj)) else ret g) = ret g' \<and>
     tracked R (n + ACC_COUNT) g' (E \<union> (if overlap rs i j then sym_edge (pos i) (pos j) else {})) F K"
  proof (cases "overlap rs i j")
    case True
    then show ?thesis using tracked_edge [OF T, of "pos i" "pos j"] pos(1) [OF lt(1)] pos(1) [OF lt(2)] ne lt inter by (simp add: node_of_ok)
  next
    case False
    then show ?thesis using T inter by auto
  qed
qed

lemma temp_map_ok:
  assumes "ranges_ok n rs"
  shows "temp_map rs n = ret (map (\<lambda>i. \<lparr>nt_temp = i, nt_priority = of_int (snd rs ! i - fst rs ! i)\<rparr>) [0..<n])"
  unfolding temp_map_def by (rule map_run_ret) (use assms in \<open>simp add: ranges_ok_def\<close>)

end
