(* ===== verification/Vir_Alloc_Sound.thy ===== *)
theory Vir_Alloc_Sound
  imports Vir_Alloc_Graph
begin

text \<open>
  What \<open>v3d_register_allocate\<close> gives to the temporaries of a program.
\<close>

section \<open>Programs and colourings\<close>

abbreviation dst_of :: "qinst \<Rightarrow> nat" where "dst_of x \<equiv> q_index (qi_dst x)"

abbreviation payload_of :: "qinst \<Rightarrow> nat" where "payload_of x \<equiv> q_index (qi_src x ! 0)"

text \<open>Every payload register is moved to one temporary, and no temporary holds two of them.\<close>

definition payloads_ok :: "v3d_compile \<Rightarrow> bool" where
  "payloads_ok c \<longleftrightarrow> (\<forall>x\<in>set (code c). payload_ok x) \<and>
     (\<forall>x\<in>set (code c). \<forall>y\<in>set (code c). payload x \<and> payload y \<longrightarrow> (payload_of x = payload_of y) = (dst_of x = dst_of y))"

definition threads :: "v3d_compile \<Rightarrow> nat" where
  "threads c = (if fs_threaded c then 1 else 0)"

text \<open>What the colours of the temporaries have to satisfy.\<close>

definition coloring_ok :: "v3d_compile \<Rightarrow> live_ranges \<Rightarrow> (nat \<Rightarrow> nat) \<Rightarrow> bool" where
  "coloring_ok c rs col \<longleftrightarrow> (\<forall>v < num_temps c.
     class_regs (threads c) (col v) \<and>
     (\<forall>w < num_temps c. v \<noteq> w \<and> overlap rs v w \<longrightarrow> col v \<noteq> col w) \<and>
     (\<forall>k < length (code c). spans rs (int k) v \<longrightarrow>
        (writes_acc3 (code c ! k) \<longrightarrow> col v \<noteq> 3) \<and> (vir_writes_r4 (code c ! k) \<longrightarrow> col v \<noteq> 4)) \<and>
     (\<forall>x\<in>set (code c). payload x \<and> dst_of x = v \<longrightarrow> col v = PHYS_INDEX + payload_of x))"

definition qpu_reg_of :: "live_ranges \<Rightarrow> nat \<Rightarrow> nat \<Rightarrow> qpu_reg" where
  "qpu_reg_of rs v r =
     (if fst rs ! v = snd rs ! v then \<lparr>qr_magic = True, qr_index = 6\<rparr>
      else if r < PHYS_INDEX then \<lparr>qr_magic = True, qr_index = r\<rparr> else \<lparr>qr_magic = False, qr_index = r - PHYS_INDEX\<rparr>)"

section \<open>Forced registers\<close>

lemma force_fold:
  assumes "\<And>x y. x \<in> set xs \<Longrightarrow> y \<in> set xs \<Longrightarrow> payload x \<Longrightarrow> payload y \<Longrightarrow> pos (dst_of x) = pos (dst_of y) \<Longrightarrow> payload_of x = payload_of y"
  shows "(\<forall>x\<in>set xs. payload x \<longrightarrow> fold (force pos) xs F (pos (dst_of x)) = PHYS_INDEX + payload_of x) \<and>
    (\<forall>m. (\<forall>x\<in>set xs. payload x \<longrightarrow> pos (dst_of x) \<noteq> m) \<longrightarrow> fold (force pos) xs F m = F m)"
  using assms
proof (induction xs rule: rev_induct)
  case (snoc y xs)
  have IH: "\<And>x. x \<in> set xs \<Longrightarrow> payload x \<Longrightarrow> fold (force pos) xs F (pos (dst_of x)) = PHYS_INDEX + payload_of x"
    "\<And>m. (\<And>x. x \<in> set xs \<Longrightarrow> payload x \<Longrightarrow> pos (dst_of x) \<noteq> m) \<Longrightarrow> fold (force pos) xs F m = F m"
    using snoc by auto
  have app: "fold (force pos) (xs @ [y]) F m = (if payload y \<and> m = pos (dst_of y) then PHYS_INDEX + payload_of y else fold (force pos) xs F m)" for m
    by (simp add: force_def [of pos y])
  have "fold (force pos) (xs @ [y]) F (pos (dst_of x)) = PHYS_INDEX + payload_of x" if "x \<in> set (xs @ [y])" "payload x" for x
    unfolding app using that IH(1) [of x] snoc.prems [of x y] by auto
  moreover have "fold (force pos) (xs @ [y]) F m = F m" if "\<forall>x\<in>set (xs @ [y]). payload x \<longrightarrow> pos (dst_of x) \<noteq> m" for m
    unfolding app using that IH(2) [of m] by auto
  ultimately show ?case by blast
qed simp

section \<open>The graph that is allocated\<close>

text \<open>A graph with the edges, forced registers and classes that the loops produce.\<close>

lemma graph_forced_ok:
  assumes R: "v3d_regs R" and ps: "\<forall>i < n. pos i < n" "inj_on pos {..<n}" and oks: "\<forall>x\<in>set xs. inst_ok n x"
      "\<forall>x\<in>set xs. \<forall>y\<in>set xs. payload x \<and> payload y \<longrightarrow> (payload_of x = payload_of y) = (dst_of x = dst_of y)"
  defines "F0 \<equiv> \<lambda>m. if n \<le> m \<and> m < n + ACC_COUNT then m - n else NO_REG"
  assumes T: "tracked R (n + ACC_COUNT) g (program_edges n pos rs xs 0 \<union> temp_edges n pos rs) (fold (force pos) xs F0) K"
  shows "allocatable g" "x \<in> set xs \<Longrightarrow> payload x \<Longrightarrow> nd_reg (node g (pos (dst_of x))) = PHYS_INDEX + payload_of x"
    "a < ACC_COUNT \<Longrightarrow> nd_reg (node g (n + a)) = a"
    "v < n \<Longrightarrow> nd_reg (node g (pos v)) \<noteq> NO_REG \<Longrightarrow> \<exists>x\<in>set xs. payload x \<and> dst_of x = v"
proof -
  note D = v3d_regsD [OF R] and T' = trackedD [OF T]
  have pos: "\<And>i. i < n \<Longrightarrow> pos i < n" "inj_on pos {..<n}" and xs: "\<And>x. x \<in> set xs \<Longrightarrow> inst_ok n x"
    "\<And>x y. x \<in> set xs \<Longrightarrow> y \<in> set xs \<Longrightarrow> payload x \<Longrightarrow> payload y \<Longrightarrow> (payload_of x = payload_of y) = (dst_of x = dst_of y)"
    using ps oks by auto
  have dst: "dst_of x < n" if "x \<in> set xs" "payload x" for x using inst_okD(4) [OF xs(1)] that by blast
  have posI: "pos i = pos j \<longleftrightarrow> i = j" if "i < n" "j < n" for i j using pos(2) that by (auto simp: inj_on_def)
  have ff: "\<And>x. x \<in> set xs \<Longrightarrow> payload x \<Longrightarrow> fold (force pos) xs F0 (pos (dst_of x)) = PHYS_INDEX + payload_of x"
    "\<And>m. (\<And>x. x \<in> set xs \<Longrightarrow> payload x \<Longrightarrow> pos (dst_of x) \<noteq> m) \<Longrightarrow> fold (force pos) xs F0 m = F0 m"
    using force_fold [of xs pos F0] xs(2) posI dst by blast+
  show pay: "nd_reg (node g (pos (dst_of x))) = PHYS_INDEX + payload_of x" if "x \<in> set xs" "payload x" for x
    using T'(6) [of "pos (dst_of x)"] ff(1) [OF that] pos(1) [OF dst [OF that]] by simp
  show acc: "nd_reg (node g (n + a)) = a" if "a < ACC_COUNT" for a
    using T'(6) [of "n + a"] ff(2) [of "n + a"] that dst pos(1) by (fastforce simp: F0_def)
  have low: "\<exists>x\<in>set xs. payload x \<and> pos (dst_of x) = m" if "m < n" "nd_reg (node g m) \<noteq> NO_REG" for m
    using that T'(6) [of m] ff(2) [of m] by (fastforce simp: F0_def)
  show "\<exists>x\<in>set xs. payload x \<and> dst_of x = v" if "v < n" "nd_reg (node g (pos v)) \<noteq> NO_REG" for v
    using low [OF pos(1) [OF that(1)] that(2)] posI dst that(1) by blast
  have small: "payload_of x < 3" if "payload x" for x using that by (auto simp: payload_def)
  have regs: "(m < n \<and> (\<exists>x\<in>set xs. payload x \<and> pos (dst_of x) = m \<and> nd_reg (node g m) = PHYS_INDEX + payload_of x)) \<or>
      (n \<le> m \<and> nd_reg (node g m) < ACC_COUNT)" if "m < g_count g" "nd_reg (node g m) \<noteq> NO_REG" for m
  proof (cases "m < n")
    case True
    then show ?thesis using low [OF True that(2)] pay by blast
  next
    case False
    then show ?thesis using acc [of "m - n"] that(1) T'(4) by simp
  qed
  have E: "edges g \<subseteq> {(a, b). a < n \<or> b < n}"
    unfolding T'(5) program_edges_def inst_edges_def acc_edges_def temp_edges_def sym_edge_def using pos(1)
    by (auto split: if_splits)
  have irr: "(m, m) \<notin> edges g" for m
    using adjacent_okD(3) [OF graph_okD(8) [OF linkedD(1) [OF T'(1)]], of m] by (auto simp: edges_def)
  show "allocatable g"
  proof (rule linked_allocatable [OF T'(1,2)])
    fix m assume m: "m < g_count g" "nd_reg (node g m) \<noteq> NO_REG"
    have bnd: "nd_reg (node g m) < rs_count (g_regs g)"
      using regs [OF m] small T'(3) D(3) by (fastforce simp: PHYS_INDEX_def PHYS_COUNT_def ACC_INDEX_def)
    have "nd_reg (node g m) \<noteq> nd_reg (node g k)" if k: "k \<in> set (nbrs g m)" "nd_reg (node g k) \<noteq> NO_REG" for k
    proof -
      have e: "(m, k) \<in> edges g" "k < g_count g" using m(1) k(1) adjacent_okD(5) [OF graph_okD(8) [OF linkedD(1) [OF T'(1)] m(1)]]
        by (auto simp: edges_def)
      have ne: "m \<noteq> k" using e(1) irr by auto
      have "m < n \<or> k < n" using E e(1) by auto
      then show ?thesis using regs [OF m] regs [OF e(2) k(2)] ne xs(2) by (auto simp: PHYS_INDEX_def)
    qed
    then show "nd_reg (node g m) < rs_count (g_regs g) \<and> (\<forall>k\<in>set (nbrs g m). nd_reg (node g k) \<noteq> NO_REG \<longrightarrow>
        \<not> conf (g_regs g) (nd_reg (node g m)) (nd_reg (node g k)))"
      using bnd D(6) T'(3) by simp
  qed
qed

section \<open>Programs that always fit\<close>

lemma class_regs_payload: "t < 3 \<Longrightarrow> p < 3 \<Longrightarrow> class_regs t (PHYS_INDEX + p)"
proof -
  assume t: "t < 3" and p: "p < 3"
  consider "t = 0" | "t = 1" | "t = 2" using t by linarith
  then show ?thesis by cases (use p in \<open>auto simp: class_regs_def PHYS_COUNT_def\<close>)
qed

lemma few_nodes_trivial:
  assumes R: "v3d_regs R" and T: "tracked R N g E F K" and K: "\<forall>m < N. K m < 3 \<and> N \<le> PHYS_INDEX + PHYS_COUNT div 2 ^ K m"
  shows "always_trivial g"
  unfolding always_trivial_def
proof (intro allI impI)
  fix m assume m: "m < g_count g"
  note D = v3d_regsD [OF R] and T' = trackedD [OF T]
  note A = adjacent_okD [OF graph_okD(8) [OF linkedD(1) [OF T'(1)] m]]
  have nb: "set (nbrs g m) \<subseteq> {..<N} - {m}" using A(3,5) T'(4) by auto
  have "qsum g {} m = (\<Sum>k\<in>set (nbrs g m). 1)"
    unfolding qsum_def by (rule sum.cong) (use nb K T'(3,4,7) m D(7) in auto)
  also have "\<dots> \<le> card ({..<N} - {m})" using card_mono [OF _ nb] by simp
  also have "\<dots> < N" using m T'(4) by simp
  finally show "pq_at g {} m" using D(8) [of "K m"] K m T'(3,4,7) by (auto simp: pq_at_def)
qed

lemma forced_in_classes:
  assumes R: "v3d_regs R" and ps: "\<forall>i < n. pos i < n" "inj_on pos {..<n}" and oks: "\<forall>x\<in>set xs. inst_ok n x"
      "\<forall>x\<in>set xs. \<forall>y\<in>set xs. payload x \<and> payload y \<longrightarrow> (payload_of x = payload_of y) = (dst_of x = dst_of y)"
    and T: "tracked R (n + ACC_COUNT) g (program_edges n pos rs xs 0 \<union> temp_edges n pos rs)
        (fold (force pos) xs (\<lambda>m. if n \<le> m \<and> m < n + ACC_COUNT then m - n else NO_REG)) (\<lambda>m. if m \<in> pos ` {..<n} then t else 0)"
    and t: "t < 3"
  shows "\<forall>m < g_count g. nd_reg (node g m) \<noteq> NO_REG \<longrightarrow> in_class (g_regs g) (nd_class (node g m)) (nd_reg (node g m))"
proof (intro allI impI)
  fix m assume m: "m < g_count g" "nd_reg (node g m) \<noteq> NO_REG"
  note D = v3d_regsD [OF R] and T' = trackedD [OF T] and G = graph_forced_ok [OF R ps oks T]
  have img: "pos ` {..<n} = {..<n}" using ps by (intro card_subset_eq) (auto simp: card_image)
  show "in_class (g_regs g) (nd_class (node g m)) (nd_reg (node g m))"
  proof (cases "m < n")
    case True
    then obtain v where v: "v < n" "m = pos v" using img by auto
    then obtain x where x: "x \<in> set xs" "payload x" "dst_of x = v" using G(4) [OF v(1)] m(2) by blast
    have "nd_reg (node g m) = PHYS_INDEX + payload_of x" using G(2) [OF x(1,2)] x(3) v(2) by simp
    moreover have "payload_of x < 3" using x(2) by (auto simp: payload_def)
    ultimately show ?thesis using T'(3,4,7) m(1) True img t D(5) class_regs_payload by simp
  next
    case False
    then have "nd_reg (node g m) < ACC_COUNT" using G(3) [of "m - n"] m(1) T'(4) by simp
    then show ?thesis using T'(3,4,7) m(1) False img D(5) [of 0] by (simp add: class_regs_def PHYS_INDEX_def)
  qed
qed

section \<open>From allocations to colourings\<close>

lemma temp_edge:
  assumes "v < n" "w < n" "v \<noteq> w" "overlap rs v w"
  shows "(pos v, pos w) \<in> temp_edges n pos rs"
proof (cases "v < w")
  case True
  then show ?thesis using assms unfolding temp_edges_def
    by (intro UN_I [of v] UN_I [of w]) (auto simp: sym_edge_def)
next
  case False
  then show ?thesis using assms unfolding temp_edges_def
    by (intro UN_I [of w] UN_I [of v]) (auto simp: sym_edge_def overlap_def)
qed

lemma acc_edge:
  assumes "v < n" "k < length xs" "spans rs (int k) v" "a = 3 \<and> writes_acc3 (xs ! k) \<or> a = 4 \<and> vir_writes_r4 (xs ! k)"
  shows "(pos v, n + a) \<in> program_edges n pos rs xs 0"
proof -
  have "(pos v, n + a) \<in> acc_edges n pos rs (int k) a"
    unfolding acc_edges_def using assms(1,3) by (intro UN_I [of v]) (auto simp: sym_edge_def)
  then have "(pos v, n + a) \<in> inst_edges n pos rs (xs ! k) (int k)" using assms(4) by (auto simp: inst_edges_def)
  then show ?thesis unfolding program_edges_def using assms(2) by auto
qed

lemma coloring_of_allocation:
  assumes R: "v3d_regs R" and pos: "\<forall>i < num_temps c. pos i < num_temps c" "inj_on pos {..<num_temps c}"
    and ok: "\<forall>x\<in>set (code c). inst_ok (num_temps c) x" "payloads_ok c"
  defines "F0 \<equiv> \<lambda>m. if num_temps c \<le> m \<and> m < num_temps c + ACC_COUNT then m - num_temps c else NO_REG"
  assumes T: "tracked R (num_temps c + ACC_COUNT) g (program_edges (num_temps c) pos rs (code c) 0 \<union> temp_edges (num_temps c) pos rs)
      (fold (force pos) (code c) F0) (\<lambda>m. if m \<in> pos ` {..<num_temps c} then threads c else 0)"
    and V: "valid_allocation g reg"
  shows "coloring_ok c rs (\<lambda>v. reg (pos v))"
  unfolding coloring_ok_def
proof (intro allI impI conjI ballI)
  let ?n = "num_temps c"
  have xs: "\<forall>x\<in>set (code c). \<forall>y\<in>set (code c). payload x \<and> payload y \<longrightarrow> (payload_of x = payload_of y) = (dst_of x = dst_of y)"
    using ok(2) unfolding payloads_ok_def by blast
  note D = v3d_regsD [OF R] and T' = trackedD [OF T] and G = graph_forced_ok [OF R pos ok(1) xs T [unfolded F0_def]]
  have V': "reg m < rs_count R" "nd_reg (node g m) \<noteq> NO_REG \<Longrightarrow> reg m = nd_reg (node g m)"
    "nd_reg (node g m) = NO_REG \<Longrightarrow> in_class R (nd_class (node g m)) (reg m)" "k \<in> set (nbrs g m) \<Longrightarrow> reg m \<noteq> reg k"
    if "m < ?n + ACC_COUNT" for m k
    using V that D(6) T'(3,4) unfolding valid_allocation_def by (auto split: if_splits)
  have ne: "reg m \<noteq> reg k" if "(m, k) \<in> edges g" for m k
    using that V'(4) [of m k] T'(4) by (auto simp: edges_def)
  have big: "PHYS_INDEX + payload_of x \<noteq> NO_REG" if "payload x" for x
    using that by (auto simp: payload_def NO_REG_def UINT_MAX_def PHYS_INDEX_def ACC_INDEX_def ACC_COUNT_def)
  fix v assume v: "v < ?n"
  have pv: "pos v < ?n + ACC_COUNT" using pos(1) v by (simp add: trans_less_add1)
  show forced: "reg (pos v) = PHYS_INDEX + payload_of x" if "payload x \<and> dst_of x = v" "x \<in> set (code c)" for x
    using V'(2) [OF pv] G(2) [OF that(2)] that(1) big by auto
  show "class_regs (threads c) (reg (pos v))"
  proof (cases "nd_reg (node g (pos v)) = NO_REG")
    case True
    have "nd_class (node g (pos v)) = threads c" using T'(7) [OF pv] v by simp
    then show ?thesis using V'(3) [OF pv True] D(5) by (simp add: threads_def split: if_splits)
  next
    case False
    then obtain x where x: "x \<in> set (code c)" "payload x" "dst_of x = v" using G(4) [OF v] by blast
    have "payload_of x < 3" "threads c < 3" using x(2) by (auto simp: payload_def threads_def)
    then show ?thesis using forced [of x] x class_regs_payload by simp
  qed
  show "reg (pos v) \<noteq> reg (pos w)" if "w < ?n" "v \<noteq> w \<and> overlap rs v w" for w
    using ne temp_edge [OF v, of w rs pos] that T'(5) by blast
  have acc: "reg (pos v) \<noteq> a" if "k < length (code c)" "spans rs (int k) v"
    "a = 3 \<and> writes_acc3 (code c ! k) \<or> a = 4 \<and> vir_writes_r4 (code c ! k)" for a k
  proof -
    have a: "a < ACC_COUNT" using that(3) by (auto simp: ACC_COUNT_def)
    have "reg (?n + a) = a" using V'(2) [of "?n + a"] G(3) [OF a] a by (auto simp: NO_REG_def UINT_MAX_def ACC_COUNT_def)
    then show ?thesis using ne [of "pos v" "?n + a"] acc_edge [OF v that] T'(5) by auto
  qed
  show "reg (pos v) \<noteq> 3" if "k < length (code c)" "spans rs (int k) v" "writes_acc3 (code c ! k)" for k using acc [OF that(1,2)] that(3) by blast
  show "reg (pos v) \<noteq> 4" if "k < length (code c)" "spans rs (int k) v" "vir_writes_r4 (code c ! k)" for k using acc [OF that(1,2)] that(3) by blast
qed

section \<open>The whole function\<close>

definition permutes :: "c_qsort \<Rightarrow> bool" where
  "permutes qsort \<longleftrightarrow> (\<forall>cmp xs. mset (qsort cmp xs) = mset xs)"

lemma same_program_code:
  assumes "same_program bs bs'"
  shows "concat (map qb_instructions bs') = concat (map qb_instructions bs)"
proof -
  have "map qb_instructions bs' = map qb_instructions bs" using assms by (auto simp: same_program_def intro: nth_equalityI)
  then show ?thesis by simp
qed

text \<open>
  The graph that the function hands to the allocator, and what it does with the answer.
\<close>

definition forced_regs :: "v3d_compile \<Rightarrow> (nat \<Rightarrow> nat) \<Rightarrow> nat \<Rightarrow> nat" where
  "forced_regs c pos = fold (force pos) (code c) (\<lambda>m. if num_temps c \<le> m \<and> m < num_temps c + ACC_COUNT then m - num_temps c else NO_REG)"

definition program_graph :: "ra_regs \<Rightarrow> v3d_compile \<Rightarrow> live_ranges \<Rightarrow> (nat \<Rightarrow> nat) \<Rightarrow> ra_graph \<Rightarrow> bool" where
  "program_graph R c rs pos g \<longleftrightarrow> (\<forall>i < num_temps c. pos i < num_temps c) \<and> inj_on pos {..<num_temps c} \<and>
     tracked R (num_temps c + ACC_COUNT) g (program_edges (num_temps c) pos rs (code c) 0 \<union> temp_edges (num_temps c) pos rs)
       (forced_regs c pos) (\<lambda>m. if m \<in> pos ` {..<num_temps c} then threads c else 0)"

lemma program_graph_built:
  assumes vc: "vir_init_reg_sets = ret compiler" and ok: "program_ok c" "payloads_ok c" and q: "permutes qsort"
    and n: "(num_temps c + ACC_COUNT) * (PHYS_INDEX + PHYS_COUNT) < UINT_MAX"
  shows "\<exists>R c' rs pos g. v3d_regs R \<and> intervals_ok c c' rs \<and> program_graph R c rs pos g \<and>
    v3d_register_allocate qsort compiler c = bind_run (ra_allocate None () g) (\<lambda>(g, ok).
      if \<not> ok then ret (c'\<lparr>c_failed := True\<rparr>, None)
      else bind_run (map_run (temp_register g (node_table pos (num_temps c)) rs) [0..<num_temps c]) (\<lambda>regs. ret (c', Some regs)))"
proof -
  let ?n = "num_temps c" and ?N = "num_temps c + ACC_COUNT"
  obtain R where R0: "vir_init_reg_sets = ret \<lparr>vc_regs = R, vc_reg_class = [0, 1, 2]\<rparr>" "v3d_regs R" using init_reg_sets_ok by blast
  have "ret compiler = ret \<lparr>vc_regs = R, vc_reg_class = [0, 1, 2]\<rparr>" by (rule trans [OF vc [symmetric] R0(1)])
  then have R: "compiler = \<lparr>vc_regs = R, vc_reg_class = [0, 1, 2]\<rparr>" "v3d_regs R" using R0(2) by (simp_all only: ret_eq_iff)
  note D = v3d_regsD [OF R(2)]
  have N: "?N \<le> 2 ^ 31" "?N * rs_count R < UINT_MAX"
    using n D(3) by (simp_all add: UINT_MAX_def PHYS_INDEX_def PHYS_COUNT_def ACC_INDEX_def ACC_COUNT_def)
  obtain g1 where g1: "fold_run (\<lambda>i g. ra_set_node_reg g (?n + i) (ACC_INDEX + i)) [0..<ACC_COUNT] (ra_alloc_interference_graph R ?N) = ret g1"
    "tracked R ?N g1 {} (\<lambda>m. if ?n \<le> m \<and> m < ?n + ACC_COUNT then m - ?n else NO_REG) (\<lambda>_. 0)"
    using acc_regs_ok [OF tracked_new [OF R(2) N]] by blast
  obtain c' rs where c': "vir_calculate_live_intervals c = ret c'" "intervals_ok c c' rs" using calculate_ok [OF ok(1)] by blast
  have I: "temp_start c' = Some (fst rs)" "temp_end c' = Some (snd rs)" "ranges_ok ?n rs" "fs_threaded c' = fs_threaded c"
    "concat (map qb_instructions (c_blocks c')) = code c"
    using c'(2) same_program_code by (auto simp: intervals_ok_def)
  let ?map = "map (\<lambda>i. \<lparr>nt_temp = i, nt_priority = of_int (snd rs ! i - fst rs ! i)\<rparr>) [0..<?n]"
  have "mset (qsort node_to_temp_priority ?map) = mset ?map" using q unfolding permutes_def by blast
  then have "mset (map nt_temp (qsort node_to_temp_priority ?map)) = mset (map nt_temp ?map)" by (simp only: mset_map)
  also have "map nt_temp ?map = [0..<?n]" by (simp add: comp_def)
  finally obtain pos where pos: "number_nodes (qsort node_to_temp_priority ?map) ?n = ret (node_table pos ?n)" "inj_on pos {..<?n}"
    "\<And>i. i < ?n \<Longrightarrow> pos i < ?n"
    using number_nodes_ok by blast
  have xs: "\<And>x. x \<in> set (code c) \<Longrightarrow> inst_ok ?n x \<and> payload_ok x" using ok by (auto simp: program_ok_def payloads_ok_def)
  obtain g2 where g2: "fold_run (inst_constraints (node_table pos ?n) rs ?n) (code c) (g1, 0) = ret (g2, 0 + int (length (code c)))"
    "tracked R ?N g2 (program_edges ?n pos rs (code c) 0) (fold (force pos) (code c) (\<lambda>m. if ?n \<le> m \<and> m < ?n + ACC_COUNT then m - ?n else NO_REG)) (\<lambda>_. 0)"
    using constraints_fold [where xs = "code c" and pos = pos and ip = 0, OF xs I(3) pos(3) g1(2)] by auto
  have t: "threads c < 3" "fetch (vc_reg_class compiler) (if fs_threaded c' then 1 else 0) = ret (threads c)" using I(4) R(1) by (simp_all add: threads_def)
  obtain g3 where g3: "set_classes (node_table pos ?n) ?n (threads c) g2 = ret g3"
    "tracked R ?N g3 (program_edges ?n pos rs (code c) 0) (fold (force pos) (code c) (\<lambda>m. if ?n \<le> m \<and> m < ?n + ACC_COUNT then m - ?n else NO_REG))
      (\<lambda>m. if m \<in> pos ` {..<?n} then threads c else 0)"
    using set_classes_ok [where pos = pos, OF R(2) t(1) pos(3) g2(2)] by blast
  obtain g4 where g4: "add_interferences (node_table pos ?n) rs ?n g3 = ret g4"
    "tracked R ?N g4 (program_edges ?n pos rs (code c) 0 \<union> temp_edges ?n pos rs)
      (fold (force pos) (code c) (\<lambda>m. if ?n \<le> m \<and> m < ?n + ACC_COUNT then m - ?n else NO_REG)) (\<lambda>m. if m \<in> pos ` {..<?n} then threads c else 0)"
    using add_interferences_ok [where pos = pos, OF I(3) pos(3,2) g3(2)] by blast
  have "program_graph R c rs pos g4" using g4(2) pos(2,3) by (simp add: program_graph_def forced_regs_def)
  moreover have "v3d_register_allocate qsort compiler c = bind_run (ra_allocate None () g4) (\<lambda>(g, ok).
      if \<not> ok then ret (c'\<lparr>c_failed := True\<rparr>, None)
      else bind_run (map_run (temp_register g (node_table pos ?n) rs) [0..<?n]) (\<lambda>regs. ret (c', Some regs)))"
    using R(1) g1(1) c'(1) I temp_map_ok [OF I(3)] pos(1) g2(1) t(2) g3(1) g4(1) by (simp add: v3d_register_allocate_def Let_def)
  ultimately show ?thesis using R(2) c'(2) by blast
qed

lemma register_allocate_ok:
  assumes vc: "vir_init_reg_sets = ret compiler" and ok: "program_ok c" "payloads_ok c" and q: "permutes qsort"
    and n: "(num_temps c + ACC_COUNT) * (PHYS_INDEX + PHYS_COUNT) < UINT_MAX"
  shows "\<exists>c' rs. intervals_ok c c' rs \<and> (v3d_register_allocate qsort compiler c = ret (c'\<lparr>c_failed := True\<rparr>, None) \<or>
    (\<exists>col. v3d_register_allocate qsort compiler c = ret (c', Some (map (\<lambda>v. qpu_reg_of rs v (col v)) [0..<num_temps c])) \<and> coloring_ok c rs col)) \<and>
    (num_temps c \<le> PHYS_COUNT div 2 ^ threads c \<longrightarrow> (\<exists>regs. v3d_register_allocate qsort compiler c = ret (c', Some regs)))"
proof -
  let ?n = "num_temps c" and ?N = "num_temps c + ACC_COUNT"
  obtain R c' rs pos g4 where R: "v3d_regs R" and I: "intervals_ok c c' rs" and P: "program_graph R c rs pos g4" and
    run: "v3d_register_allocate qsort compiler c = bind_run (ra_allocate None () g4) (\<lambda>(g, ok).
      if \<not> ok then ret (c'\<lparr>c_failed := True\<rparr>, None)
      else bind_run (map_run (temp_register g (node_table pos ?n) rs) [0..<?n]) (\<lambda>regs. ret (c', Some regs)))"
    using program_graph_built [OF assms] by blast
  have pos: "\<forall>i < ?n. pos i < ?n" "inj_on pos {..<?n}" and g4: "tracked R ?N g4 (program_edges ?n pos rs (code c) 0 \<union> temp_edges ?n pos rs)
      (fold (force pos) (code c) (\<lambda>m. if ?n \<le> m \<and> m < ?n + ACC_COUNT then m - ?n else NO_REG)) (\<lambda>m. if m \<in> pos ` {..<?n} then threads c else 0)"
    using P unfolding program_graph_def forced_regs_def by blast+
  have t: "threads c < 3" by (simp add: threads_def)
  have pay: "\<forall>x\<in>set (code c). \<forall>y\<in>set (code c). payload x \<and> payload y \<longrightarrow> (payload_of x = payload_of y) = (dst_of x = dst_of y)"
    and iok: "\<forall>x\<in>set (code c). inst_ok ?n x" using ok by (auto simp: payloads_ok_def program_ok_def)
  have "allocatable g4" by (rule graph_forced_ok(1) [OF R pos iok pay g4])
  from allocate_ok [OF this, of "\<lambda>_ :: unit. True" None "()"] obtain g5 b where
    g5: "ra_allocate None () g4 = ret (g5, b)" "b \<Longrightarrow> valid_allocation g4 (\<lambda>m. nd_reg (node g5 m))" "same_graph g4 g5"
      "always_trivial g4 \<and> pq_sound (g_regs g4) \<and> (\<forall>m < g_count g4. nd_reg (node g4 m) \<noteq> NO_REG \<longrightarrow>
        in_class (g_regs g4) (nd_class (node g4 m)) (nd_reg (node g4 m))) \<longrightarrow> b" by auto
  have fits: "b" if few: "?n \<le> PHYS_COUNT div 2 ^ threads c"
  proof -
    have "?n \<le> PHYS_COUNT" using few div_le_dividend by (rule le_trans)
    then have "always_trivial g4"
      by (intro few_nodes_trivial [OF R g4]) (use few t in \<open>auto simp: PHYS_INDEX_def ACC_INDEX_def\<close>)
    then show ?thesis using g5(4) forced_in_classes [OF R pos iok pay g4 t] v3d_regsD(2) [OF R] trackedD(3) [OF g4] by blast
  qed
  have no: "v3d_register_allocate qsort compiler c = ret (c'\<lparr>c_failed := True\<rparr>, None)" if "\<not> b"
    using run g5(1) that by simp
  let ?col = "\<lambda>v. nd_reg (node g5 (pos v))"
  have len: "length (g_nodes g5) = ?N"
    using g5(3) graph_okD(2) [OF linkedD(1) [OF trackedD(1) [OF g4]]] trackedD(4) [OF g4] by (simp add: same_graph_def)
  have "temp_register g5 (node_table pos ?n) rs v = ret (qpu_reg_of rs v (?col v))" if "v < ?n" for v
    using that pos(1) [rule_format, OF that] len I
    by (simp add: temp_register_def node_of_ok ra_get_node_reg_def ranges_ok_def intervals_ok_def qpu_reg_of_def Let_def ACC_INDEX_def)
  then have "map_run (temp_register g5 (node_table pos ?n) rs) [0..<?n] = ret (map (\<lambda>v. qpu_reg_of rs v (?col v)) [0..<?n])"
    by (intro map_run_ret) simp
  then have yes: "v3d_register_allocate qsort compiler c = ret (c', Some (map (\<lambda>v. qpu_reg_of rs v (?col v)) [0..<?n]))" if "b"
    using run g5(1) that by simp
  have "coloring_ok c rs ?col" if "b"
    by (rule coloring_of_allocation [OF R pos iok ok(2) g4 g5(2) [OF that]])
  with no yes have "v3d_register_allocate qsort compiler c = ret (c'\<lparr>c_failed := True\<rparr>, None) \<or>
    (\<exists>col. v3d_register_allocate qsort compiler c = ret (c', Some (map (\<lambda>v. qpu_reg_of rs v (col v)) [0..<?n])) \<and> coloring_ok c rs col)"
    by (cases b) auto
  moreover have "\<exists>regs. v3d_register_allocate qsort compiler c = ret (c', Some regs)" if "?n \<le> PHYS_COUNT div 2 ^ threads c"
    using yes [OF fits [OF that]] by blast
  ultimately show ?thesis by (intro exI [of _ c'] exI [of _ rs] conjI [OF I]) (rule conjI; blast)
qed

end
