(* ===== verification/Vir_Spec.thy ===== *)
theory Vir_Spec
  imports Vir_Alloc_Sound
begin

text \<open>
  The properties of the live variable analysis and of the register allocation of VIR programs.
\<close>

section \<open>Values that are needed\<close>

text \<open>
  The instruction replaces the whole value of the temporary, in the channels of the execution mask: the write is unconditional or depends on nothing but
  that mask, and it is not packed, since a packed write leaves one half of the register unmodified.
\<close>

definition overwrites :: "qinst \<Rightarrow> nat \<Rightarrow> bool" where
  "overwrites x v \<longleftrightarrow> writes_temp x v \<and> (unconditional x \<or> cond_is_exec_mask x) \<and> unpacked x"

text \<open>Some path from before instruction \<open>k\<close> of block \<open>i\<close> reads \<open>v\<close>, and nothing on the path before that replaces its whole value.\<close>

inductive needed :: "qblock list \<Rightarrow> nat \<Rightarrow> nat \<Rightarrow> nat \<Rightarrow> bool" for bs where
  needed_read: "i < length bs \<Longrightarrow> k < length (insts bs i) \<Longrightarrow> reads_temp (insts bs i ! k) v \<Longrightarrow> needed bs i k v"
| needed_step: "i < length bs \<Longrightarrow> k < length (insts bs i) \<Longrightarrow> \<not> overwrites (insts bs i ! k) v \<Longrightarrow> needed bs i (Suc k) v \<Longrightarrow> needed bs i k v"
| needed_edge: "i < length bs \<Longrightarrow> s \<in> set (succ_list (bs ! i)) \<Longrightarrow> needed bs s 0 v \<Longrightarrow> needed bs i (length (insts bs i)) v"

text \<open>
  No unconditional write to the temporary is packed. The analysis takes such a write for one of the whole register; for all other
  temporaries what it computes is what is needed.
\<close>

definition whole :: "qblock list \<Rightarrow> nat \<Rightarrow> bool" where
  "whole bs v \<longleftrightarrow> (\<forall>b\<in>set bs. \<forall>x\<in>set (qb_instructions b). writes_temp x v \<and> unconditional x \<longrightarrow> unpacked x)"

lemma kills_overwrites:
  assumes "whole bs v" "i < length bs" "k < length (insts bs i)"
  shows "kills (insts bs i ! k) v \<longleftrightarrow> overwrites (insts bs i ! k) v"
  using assms unfolding whole_def kills_def overwrites_def by (metis nth_mem)

lemma live_needed: "live bs i k v \<Longrightarrow> needed bs i k v"
proof (induction rule: live.induct)
  case (live_step i k v)
  then show ?case using needed_step by (simp add: kills_def overwrites_def)
qed (auto intro: needed_read needed_edge)

lemma needed_live: "needed bs i k v \<Longrightarrow> whole bs v \<Longrightarrow> live bs i k v"
proof (induction rule: needed.induct)
  case (needed_step i k v)
  then show ?case using live.live_step by (simp add: kills_overwrites)
qed (auto intro: live_read live_edge)

lemma whole_needed: "whole bs v \<Longrightarrow> needed bs i k v = live bs i k v"
  using live_needed needed_live by blast




section \<open>Points of a program\<close>

text \<open>The temporary is needed or mentioned at an instruction with a smaller number.\<close>

definition seen_before :: "qblock list \<Rightarrow> int \<Rightarrow> nat \<Rightarrow> bool" where
  "seen_before bs ip v \<longleftrightarrow> (\<exists>i < length bs. \<exists>k. offset bs i + int k < ip \<and>
     (needed bs i k v \<or> k < length (insts bs i) \<and> mentions (insts bs i ! k) v))"

lemma live_Suc:
  assumes "live bs i (Suc k) v"
  shows "i < length bs" "k < length (insts bs i)" "live bs i k v \<or> mentions (insts bs i ! k) v"
proof -
  show i: "i < length bs" and k: "k < length (insts bs i)" using assms by (auto elim: live.cases)
  show "live bs i k v \<or> mentions (insts bs i ! k) v"
    using live_step [OF i k _ assms] by (auto simp: mentions_def kills_def)
qed

lemma intervals_okD:
  assumes "intervals_ok c c' rs"
  shows "temp_start c' = Some (fst rs)" "temp_end c' = Some (snd rs)" "ranges_ok (num_temps c) rs"
    "same_program (c_blocks c) (c_blocks c')"
    "i < length (c_blocks c) \<Longrightarrow> bmem (qb_live_in (c_blocks c' ! i)) v = live (c_blocks c) i 0 v"
    "i < length (c_blocks c) \<Longrightarrow> bmem (qb_live_out (c_blocks c' ! i)) v = live (c_blocks c) i (length (insts (c_blocks c) i)) v"
    "live (c_blocks c) i k v \<Longrightarrow> covers rs v (offset (c_blocks c) i + int k)"
    "i < length (c_blocks c) \<Longrightarrow> k < length (insts (c_blocks c) i) \<Longrightarrow> mentions (insts (c_blocks c) i ! k) v \<Longrightarrow>
       covers rs v (offset (c_blocks c) i + int k)"
  using assms unfolding intervals_ok_def by simp_all

lemma live_after_covers:
  assumes I: "intervals_ok c c' rs" and L: "live (c_blocks c) i (Suc k) v"
  shows "covers rs v (offset (c_blocks c) i + int k)" "covers rs v (offset (c_blocks c) i + int k + 1)"
  using intervals_okD(7) [OF I L] intervals_okD(7,8) [OF I] live_Suc [OF L] by (auto simp: algebra_simps)

lemma seen_before_starts:
  assumes I: "intervals_ok c c' rs" and S: "seen_before (c_blocks c) ip v" "whole (c_blocks c) v"
  shows "fst rs ! v < ip"
  using S(1) intervals_okD(7,8) [OF I] unfolding seen_before_def covers_def whole_needed [OF S(2)] by (meson le_less_trans)

lemma program_inst_ok:
  "program_ok c \<Longrightarrow> i < length (c_blocks c) \<Longrightarrow> k < length (insts (c_blocks c) i) \<Longrightarrow> inst_ok (num_temps c) (insts (c_blocks c) i ! k)"
  unfolding program_ok_def by (meson nth_mem)

lemma live_bound:
  assumes "program_ok c" "live (c_blocks c) i k v"
  shows "v < num_temps c"
  using assms(2)
proof (induction rule: live.induct)
  case (live_read i k v)
  then show ?case using inst_okD(5) program_inst_ok [OF assms(1)] by blast
qed


section \<open>Registers of coloured temporaries\<close>

lemma coloring_okD:
  assumes "coloring_ok c rs col" "v < num_temps c"
  shows "class_regs (threads c) (col v)" "w < num_temps c \<Longrightarrow> v \<noteq> w \<Longrightarrow> overlap rs v w \<Longrightarrow> col v \<noteq> col w"
    "k < length (code c) \<Longrightarrow> spans rs (int k) v \<Longrightarrow> writes_acc3 (code c ! k) \<Longrightarrow> col v \<noteq> 3"
    "k < length (code c) \<Longrightarrow> spans rs (int k) v \<Longrightarrow> vir_writes_r4 (code c ! k) \<Longrightarrow> col v \<noteq> 4"
    "x \<in> set (code c) \<Longrightarrow> payload x \<Longrightarrow> dst_of x = v \<Longrightarrow> col v = PHYS_INDEX + payload_of x"
  using assms unfolding coloring_ok_def by blast+

lemma qpu_reg_of_eq:
  assumes "qpu_reg_of rs v a = qpu_reg_of rs w b" "fst rs ! v \<noteq> snd rs ! v"
  shows "a = b" "fst rs ! w \<noteq> snd rs ! w"
  using assms by (auto simp: qpu_reg_of_def PHYS_INDEX_def ACC_INDEX_def ACC_COUNT_def split: if_splits)

text \<open>
  No two temporaries whose values are both needed after an instruction share a register, and an
  instruction that writes a temporary does not overwrite the register of another value that existed
  before and is needed afterwards. The values are those of temporaries without unconditional packed writes.
\<close>

definition registers_separate :: "v3d_compile \<Rightarrow> qpu_reg list \<Rightarrow> bool" where
  "registers_separate c regs \<longleftrightarrow> (\<forall>i k v w. whole (c_blocks c) v \<and> needed (c_blocks c) i (Suc k) v \<and> v \<noteq> w \<and>
     (whole (c_blocks c) w \<and> needed (c_blocks c) i (Suc k) w \<or>
      writes_temp (insts (c_blocks c) i ! k) w \<and> seen_before (c_blocks c) (offset (c_blocks c) i + int k) v) \<longrightarrow>
     regs ! v \<noteq> regs ! w)"



definition overwrites_r3 :: "qinst \<Rightarrow> bool" where
  "overwrites_r3 x \<longleftrightarrow> (\<exists>r\<in>set (take (vir_get_nsrc x) (qi_src x)). q_file r \<in> {QFILE_VARY, QFILE_VPM})"





abbreviation regs_of :: "v3d_compile \<Rightarrow> live_ranges \<Rightarrow> (nat \<Rightarrow> nat) \<Rightarrow> qpu_reg list" where
  "regs_of c rs col \<equiv> map (\<lambda>v. qpu_reg_of rs v (col v)) [0..<num_temps c]"

lemma coloring_separates:
  assumes ok: "program_ok c" and I: "intervals_ok c c' rs" and C: "coloring_ok c rs col"
  shows "registers_separate c (regs_of c rs col)"
  unfolding registers_separate_def
proof (intro allI impI notI, elim conjE)
  let ?bs = "c_blocks c"
  fix i k v w assume wv: "whole ?bs v" and nv: "needed ?bs i (Suc k) v" and ne: "v \<noteq> w"
    and nw: "whole ?bs w \<and> needed ?bs i (Suc k) w \<or> writes_temp (insts ?bs i ! k) w \<and> seen_before ?bs (offset ?bs i + int k) v"
    and eq: "regs_of c rs col ! v = regs_of c rs col ! w"
  have v: "live ?bs i (Suc k) v" using wv nv by (simp add: whole_needed)
  have w: "live ?bs i (Suc k) w \<or> writes_temp (insts ?bs i ! k) w \<and> seen_before ?bs (offset ?bs i + int k) v" using nw whole_needed by blast
  note L = live_Suc(1,2) [OF v] and cv = live_after_covers [OF I v]
  have lt: "v < num_temps c" "w < num_temps c"
    using live_bound [OF ok v] w live_bound [OF ok, of i "Suc k" w] inst_okD(6) [OF program_inst_ok [OF ok L], of w] by auto
  have "fst rs ! v \<noteq> snd rs ! v" using cv by (simp add: covers_def)
  then have same: "col v = col w" "fst rs ! w \<noteq> snd rs ! w" using qpu_reg_of_eq [of rs v "col v" w "col w"] eq lt by auto
  have "overlap rs v w"
  proof (cases "live ?bs i (Suc k) w")
    case True
    then show ?thesis using live_after_covers [OF I True] cv by (simp add: overlap_def covers_def)
  next
    case False
    then have m: "mentions (insts ?bs i ! k) w" and "fst rs ! v < offset ?bs i + int k"
      using w seen_before_starts [OF I _ wv] by (auto simp: mentions_def)
    then show ?thesis using intervals_okD(8) [OF I L m] cv by (simp add: overlap_def covers_def)
  qed
  then show False using coloring_okD(2) [OF C lt ne] same(1) by simp
qed


section \<open>A program with a loop\<close>

definition ex_block :: "qinst list \<Rightarrow> nat option list \<Rightarrow> qblock" where
  "ex_block xs ss = \<lparr>qb_instructions = xs, qb_predecessors = {}, qb_successors = ss, qb_def = [], qb_use = [], qb_live_in = [], qb_live_out = [],
     start_ip = 0, end_ip = 0\<rparr>"

definition ex_prog :: v3d_compile where
  "ex_prog = \<lparr>c_blocks = [
     ex_block [vir_mul_inst 1 V3D_QPU_M_MOV (vir_reg QFILE_TEMP 0) (vir_reg QFILE_REG 0) (vir_reg QFILE_NULL 0),
               vir_mul_inst 2 V3D_QPU_M_MOV (vir_reg QFILE_TEMP 1) (vir_reg QFILE_UNIF 0) (vir_reg QFILE_NULL 0)] [Some 1, None],
     ex_block [vir_add_inst 3 V3D_QPU_A_FADD (vir_reg QFILE_TEMP 1) (vir_reg QFILE_TEMP 1) (vir_reg QFILE_TEMP 0),
               vir_mul_inst 4 V3D_QPU_M_FMUL (vir_reg QFILE_TEMP 2) (vir_reg QFILE_TEMP 1) (vir_reg QFILE_VARY 0),
               vir_branch_inst 5 V3D_QPU_BRANCH_COND_A0 (vir_reg QFILE_UNIF 1)] [Some 1, Some 2],
     ex_block [vir_add_inst 6 V3D_QPU_A_FADD (vir_reg QFILE_MAGIC 7) (vir_reg QFILE_TEMP 1) (vir_reg QFILE_TEMP 2)] [None, None]],
     num_temps = 3, c_defs = replicate 16 None, vattr_sizes = replicate 64 0, num_inputs = 0, num_vpm_writes = 0, temp_start = None, temp_end = None, fs_threaded = True, c_failed = False\<rparr>"

lemma ex_prog_ok: "program_ok ex_prog" "payloads_ok ex_prog"
  by code_simp+

lemma ex_prog_size [simp]: "num_temps ex_prog = 3" "fs_threaded ex_prog" "length (c_blocks ex_prog) = 3"
  "(num_temps ex_prog + ACC_COUNT) * (PHYS_INDEX + PHYS_COUNT) < UINT_MAX"
  by (simp_all add: ex_prog_def ACC_COUNT_def PHYS_INDEX_def ACC_INDEX_def PHYS_COUNT_def UINT_MAX_def)

lemma ex_prog_code: "length (insts (c_blocks ex_prog) 0) = 2" "length (insts (c_blocks ex_prog) 1) = 3"
  "reads_temp (insts (c_blocks ex_prog) 1 ! 0) 0" "reads_temp (insts (c_blocks ex_prog) 1 ! 0) 1"
  "\<not> kills (insts (c_blocks ex_prog) 1 ! 2) 1" "overwrites_r3 (insts (c_blocks ex_prog) 1 ! 1)"
  "1 \<in> set (succ_list (c_blocks ex_prog ! 0))" "1 \<in> set (succ_list (c_blocks ex_prog ! 1))"
  "offset (c_blocks ex_prog) 0 = 0" "offset (c_blocks ex_prog) 1 = 2" "mentions (insts (c_blocks ex_prog) 0 ! 1) 1"
  by code_simp+

lemma ex_prog_live: "live (c_blocks ex_prog) 1 0 0" "live (c_blocks ex_prog) 1 0 1" "live (c_blocks ex_prog) 0 2 0"
  "live (c_blocks ex_prog) 0 2 1" "live (c_blocks ex_prog) 1 2 1"
proof -
  show a: "live (c_blocks ex_prog) 1 0 0" "live (c_blocks ex_prog) 1 0 1"
    by (rule live_read; simp add: ex_prog_code [simplified])+
  show "live (c_blocks ex_prog) 0 2 0" "live (c_blocks ex_prog) 0 2 1"
    using live_edge [OF _ ex_prog_code(7)] a by (simp_all add: ex_prog_code)
  have "live (c_blocks ex_prog) 1 (Suc 2) 1" using live_edge [OF _ ex_prog_code(8)] a(2) by (simp add: ex_prog_code [simplified])
  then show "live (c_blocks ex_prog) 1 2 1" using live_step [OF _ _ ex_prog_code(5)] by (simp add: ex_prog_code [simplified])
qed

lemma ex_prog_whole: "whole (c_blocks ex_prog) 0" "whole (c_blocks ex_prog) 1"
  by code_simp+

lemmas ex_prog_needed = ex_prog_live [THEN live_needed]







lemma permutes_id: "permutes (\<lambda>cmp xs. xs)"
  by (simp add: permutes_def)

lemma ex_prog_allocated:
  "\<exists>compiler c' regs. vir_init_reg_sets = ret compiler \<and> v3d_register_allocate (\<lambda>cmp xs. xs) compiler ex_prog = ret (c', Some regs)"
proof -
  obtain compiler where vc: "vir_init_reg_sets = ret compiler" using init_reg_sets_ok by blast
  have "num_temps ex_prog \<le> PHYS_COUNT div 2 ^ threads ex_prog" by (simp add: PHYS_COUNT_def threads_def)
  then show ?thesis using register_allocate_ok [OF vc ex_prog_ok permutes_id ex_prog_size(4)] vc by blast
qed

section \<open>Properties\<close>

text \<open>
  The three register classes of \<open>vir_init_reg_sets\<close>: for \<open>1\<close>, \<open>2\<close> and \<open>4\<close> threads the class
  has the five accumulators and the \<open>64\<close>, \<open>32\<close> or \<open>16\<close> first physical registers, no two registers conflict,
  and the p and q values are the size of the class and one.
\<close>

lemma register_classes:
  "\<exists>R. vir_init_reg_sets = ret \<lparr>vc_regs = R, vc_reg_class = [0, 1, 2]\<rparr> \<and>
    (\<forall>t < 3. (\<forall>r. in_class R t r = (r < 5 + 64 div 2 ^ t)) \<and> pv R t = 5 + 64 div 2 ^ t \<and> (\<forall>u < 3. qv R t u = 1)) \<and>
    (\<forall>r < 69. \<forall>r'. conf R r r' = (r = r'))"
proof -
  obtain R where R: "vir_init_reg_sets = ret \<lparr>vc_regs = R, vc_reg_class = [0, 1, 2]\<rparr>" "v3d_regs R" using init_reg_sets_ok by blast
  show ?thesis using R(1) v3d_regsD(3,5-8) [OF R(2)]
    by (intro exI [of _ R]) (simp add: class_regs_def PHYS_INDEX_def ACC_INDEX_def ACC_COUNT_def PHYS_COUNT_def)
qed

text \<open>
  C35. The loop \<open>while (vir_live_variables_dataflow(...))\<close> ends, and it leaves the least live sets that contain the
  given ones and satisfy the data flow equations.
\<close>

theorem dataflow_ends:
  assumes "flow_ok n bs"
  shows "\<exists>bs'. dataflow_loop bs = ret bs' \<and> same_blocks n bs bs' \<and> flow_closed bs (live_bits bs') \<and>
    (\<forall>X. flow_closed bs X \<and> live_bits bs \<subseteq> X \<longrightarrow> live_bits bs' \<subseteq> X)"
  by (rule dataflow_loop_ok [OF assms])

theorem dataflow_ends_witness:
  "flow_ok 1 [ex_block [] [Some 0, None] \<lparr>qb_use := [1], qb_def := [0], qb_live_in := [0], qb_live_out := [0]\<rparr>] \<and>
   (\<exists>bs'. dataflow_loop [ex_block [] [Some 0, None] \<lparr>qb_use := [1], qb_def := [0], qb_live_in := [0], qb_live_out := [0]\<rparr>] = ret bs')"
proof -
  have "flow_ok 1 [ex_block [] [Some 0, None] \<lparr>qb_use := [1], qb_def := [0], qb_live_in := [0], qb_live_out := [0]\<rparr>]" by code_simp
  then show ?thesis using dataflow_ends by blast
qed

text \<open>
  C14. \<open>vir_calculate_live_intervals\<close> returns, and the bit sets of every block hold only temporaries that are
  needed at its entry and at its end: some path from there reads the temporary before an instruction replaces its whole value. They hold
  all of them, except perhaps temporaries with an unconditional packed write.
\<close>

theorem live_sets_exact:
  assumes "program_ok c"
  shows "\<exists>c'. vir_calculate_live_intervals c = ret c' \<and> same_program (c_blocks c) (c_blocks c') \<and>
    (\<forall>i < length (c_blocks c). \<forall>v.
       (bmem (qb_live_in (c_blocks c' ! i)) v \<longrightarrow> needed (c_blocks c) i 0 v) \<and>
       (bmem (qb_live_out (c_blocks c' ! i)) v \<longrightarrow> needed (c_blocks c) i (length (insts (c_blocks c) i)) v) \<and>
       (whole (c_blocks c) v \<longrightarrow> bmem (qb_live_in (c_blocks c' ! i)) v = needed (c_blocks c) i 0 v \<and>
          bmem (qb_live_out (c_blocks c' ! i)) v = needed (c_blocks c) i (length (insts (c_blocks c) i)) v))"
proof -
  obtain c' rs where "vir_calculate_live_intervals c = ret c'" "intervals_ok c c' rs" using calculate_ok [OF assms] by blast
  then show ?thesis using intervals_okD(4-6) [of c c' rs] live_needed [of "c_blocks c"] whole_needed [of "c_blocks c"] by auto
qed

theorem live_sets_exact_witness:
  "program_ok ex_prog \<and> (\<exists>c'. vir_calculate_live_intervals ex_prog = ret c' \<and> bmem (qb_live_in (c_blocks c' ! 1)) 0)"
proof -
  obtain c' where "vir_calculate_live_intervals ex_prog = ret c'" "bmem (qb_live_in (c_blocks c' ! 1)) 0 = needed (c_blocks ex_prog) 1 0 0"
    using live_sets_exact [OF ex_prog_ok(1)] ex_prog_whole(1) by (metis ex_prog_size(3) one_less_numeral_iff semiring_norm(77))
  then show ?thesis using ex_prog_ok(1) ex_prog_needed(1) by blast
qed



text \<open>
  The interval of a temporary covers every point at which it is live.
\<close>

theorem live_intervals_cover:
  assumes "program_ok c" "live (c_blocks c) i k v"
  shows "\<exists>c' ts te. vir_calculate_live_intervals c = ret c' \<and> temp_start c' = Some ts \<and> temp_end c' = Some te \<and>
    v < length ts \<and> v < length te \<and> ts ! v \<le> offset (c_blocks c) i + int k \<and> offset (c_blocks c) i + int k \<le> te ! v"
proof -
  obtain c' rs where c': "vir_calculate_live_intervals c = ret c'" "intervals_ok c c' rs" using calculate_ok [OF assms(1)] by blast
  then show ?thesis
    using intervals_okD(1-3) [OF c'(2)] intervals_okD(7) [OF c'(2) assms(2)] live_bound [OF assms] by (auto simp: ranges_ok_def covers_def)
qed

theorem live_intervals_cover_witness:
  "program_ok ex_prog \<and> live (c_blocks ex_prog) 1 2 1 \<and>
   (\<exists>c' ts te. vir_calculate_live_intervals ex_prog = ret c' \<and> temp_start c' = Some ts \<and> temp_end c' = Some te \<and> ts ! 1 \<le> 4 \<and> 4 \<le> te ! 1)"
  using live_intervals_cover [OF ex_prog_ok(1) ex_prog_live(5)] ex_prog_ok(1) ex_prog_live(5) unfolding ex_prog_code(10) by auto

text \<open>
  C3. \<open>v3d_register_allocate\<close> returns. When it gives registers, temporaries whose values are needed at the same time have
  different registers, and no write to a temporary goes to the register of a value that was there before and is
  needed afterwards; when it gives none, the compilation is marked as failed. A value is needed while some path reads it before a write
  replaces the whole register; temporaries with an unconditional packed write, which the analysis takes for such a one, are left out, and
  so are writes to registers that an instruction names directly.
\<close>

theorem allocation_separates:
  assumes "vir_init_reg_sets = ret compiler" "program_ok c" "payloads_ok c" "permutes qsort"
    and "(num_temps c + ACC_COUNT) * (PHYS_INDEX + PHYS_COUNT) < UINT_MAX"
  shows "\<exists>c' r. v3d_register_allocate qsort compiler c = ret (c', r) \<and>
    (case r of None \<Rightarrow> c_failed c' | Some regs \<Rightarrow> length regs = num_temps c \<and> registers_separate c regs)"
proof -
  obtain c' rs where I: "intervals_ok c c' rs" and run: "v3d_register_allocate qsort compiler c = ret (c'\<lparr>c_failed := True\<rparr>, None) \<or>
    (\<exists>col. v3d_register_allocate qsort compiler c = ret (c', Some (regs_of c rs col)) \<and> coloring_ok c rs col)"
    using register_allocate_ok [OF assms] by blast
  then show ?thesis using coloring_separates [OF assms(2) I] by (elim disjE exE conjE) auto
qed

theorem allocation_separates_witness:
  "program_ok ex_prog \<and> payloads_ok ex_prog \<and> permutes (\<lambda>cmp xs. xs) \<and> (num_temps ex_prog + ACC_COUNT) * (PHYS_INDEX + PHYS_COUNT) < UINT_MAX \<and>
   (\<exists>compiler c' regs. vir_init_reg_sets = ret compiler \<and>
      v3d_register_allocate (\<lambda>cmp xs. xs) compiler ex_prog = ret (c', Some regs) \<and> regs ! 0 \<noteq> regs ! 1)"
proof -
  obtain compiler c' regs where run: "vir_init_reg_sets = ret compiler" "v3d_register_allocate (\<lambda>cmp xs. xs) compiler ex_prog = ret (c', Some regs)"
    using ex_prog_allocated by blast
  have "registers_separate ex_prog regs"
    using allocation_separates [OF run(1) ex_prog_ok permutes_id ex_prog_size(4)] run(2) by auto
  then have "regs ! 0 \<noteq> regs ! 1"
    using ex_prog_needed(3,4) ex_prog_whole unfolding registers_separate_def by (metis Suc_1 zero_neq_one)
  then show ?thesis using run ex_prog_ok permutes_id ex_prog_size(4) by blast
qed



text \<open>
  C23. A program with at most as many temporaries as there are physical registers for its number of
  threads is always given registers.
\<close>

theorem few_temporaries_allocated:
  assumes "vir_init_reg_sets = ret compiler" "program_ok c" "payloads_ok c" "permutes qsort"
    and "num_temps c \<le> (if fs_threaded c then 32 else 64)"
  shows "\<exists>c' regs. v3d_register_allocate qsort compiler c = ret (c', Some regs)"
proof -
  have "num_temps c \<le> PHYS_COUNT div 2 ^ threads c" "(num_temps c + ACC_COUNT) * (PHYS_INDEX + PHYS_COUNT) < UINT_MAX"
    using assms(5) by (auto simp: PHYS_COUNT_def threads_def ACC_COUNT_def PHYS_INDEX_def ACC_INDEX_def UINT_MAX_def split: if_splits)
  then show ?thesis using register_allocate_ok [OF assms(1-4)] by blast
qed

theorem few_temporaries_allocated_witness:
  "program_ok ex_prog \<and> payloads_ok ex_prog \<and> permutes (\<lambda>cmp xs. xs) \<and> num_temps ex_prog \<le> (if fs_threaded ex_prog then 32 else 64) \<and>
   (\<exists>compiler c' regs. vir_init_reg_sets = ret compiler \<and> v3d_register_allocate (\<lambda>cmp xs. xs) compiler ex_prog = ret (c', Some regs))"
proof -
  obtain compiler where vc: "vir_init_reg_sets = ret compiler" using init_reg_sets_ok by blast
  show ?thesis using few_temporaries_allocated [OF vc ex_prog_ok permutes_id] vc ex_prog_ok permutes_id by auto
qed

end
