(* ===== verification/Vir_Opt.thy ===== *)
theory Vir_Opt
  imports Vir_Live Register_Allocate
begin

text \<open>
  The optimisation passes on VIR programs: \<^verbatim>\<open>src/src/broadcom/compiler/vir_opt_copy_propagate.c\<close>,
  \<^verbatim>\<open>vir_opt_dead_code.c\<close> and \<open>vir_optimize\<close> of \<^verbatim>\<open>vir.c\<close>. Pointers to instructions are their
  addresses; a loop over the instructions of a block visits the instructions that the block has when the loop
  starts. The debug output is left out.
\<close>

section \<open>Pointers to instructions\<close>

definition inst_at :: "v3d_compile \<Rightarrow> nat \<Rightarrow> qinst run" where
  "inst_at c p = (case find (\<lambda>x. qi_addr x = p) (code c) of None \<Rightarrow> fault Out_Of_Bounds | Some x \<Rightarrow> ret x)"

definition map_insts :: "(qinst list \<Rightarrow> qinst list) \<Rightarrow> v3d_compile \<Rightarrow> v3d_compile" where
  "map_insts f c = c\<lparr>c_blocks := map (\<lambda>b. b\<lparr>qb_instructions := f (qb_instructions b)\<rparr>) (c_blocks c)\<rparr>"

text \<open>Writing to the instruction behind a pointer, and taking it off the list of its block.\<close>

definition set_inst :: "v3d_compile \<Rightarrow> qinst \<Rightarrow> v3d_compile" where
  "set_inst c inst = map_insts (map (\<lambda>x. if qi_addr x = qi_addr inst then inst else x)) c"

definition list_del :: "v3d_compile \<Rightarrow> qinst \<Rightarrow> v3d_compile" where
  "list_del c inst = map_insts (filter (\<lambda>x. qi_addr x \<noteq> qi_addr inst)) c"

definition clear_def :: "v3d_compile \<Rightarrow> qinst \<Rightarrow> v3d_compile run" where
  "clear_def c inst = bind_run (update_at (\<lambda>_. None) (c_defs c) (q_index (qi_dst inst))) (\<lambda>defs. ret (c\<lparr>c_defs := defs\<rparr>))"

definition vir_remove_instruction :: "v3d_compile \<Rightarrow> qinst \<Rightarrow> v3d_compile run" where
  "vir_remove_instruction c inst =
     bind_run (if q_file (qi_dst inst) = QFILE_TEMP then clear_def c inst else ret c) (\<lambda>c. ret (list_del c inst))"

section \<open>Copy propagation\<close>

definition is_copy_mov :: "qinst option \<Rightarrow> bool run" where
  "is_copy_mov p =
     (case p of None \<Rightarrow> ret False
      | Some inst \<Rightarrow>
          bind_run (fetch (qi_src inst) 0) (\<lambda>src.
          if instr_type (qi_qpu inst) \<noteq> V3D_QPU_INSTR_TYPE_ALU \<or>
             (alu_op (mul_part inst) \<noteq> V3D_QPU_M_FMOV \<and> alu_op (mul_part inst) \<noteq> V3D_QPU_M_MOV) then ret False
          else if q_file (qi_dst inst) \<noteq> QFILE_TEMP then ret False
          else if q_file src \<noteq> QFILE_TEMP \<and> q_file src \<noteq> QFILE_UNIF then ret False
          else if output_pack (add_part inst) \<noteq> V3D_QPU_PACK_NONE \<or> output_pack (mul_part inst) \<noteq> V3D_QPU_PACK_NONE then ret False
          else if ac (flags (qi_qpu inst)) \<noteq> V3D_QPU_COND_NONE \<or> mc (flags (qi_qpu inst)) \<noteq> V3D_QPU_COND_NONE then ret False
          else case q_file src of
            QFILE_MAGIC \<Rightarrow> ret (q_index src \<notin> {unat V3D_QPU_WADDR_R3, unat V3D_QPU_WADDR_R4, unat V3D_QPU_WADDR_R5})
          | QFILE_REG \<Rightarrow> ret (q_index src \<notin> {0, 1, 2})
          | _ \<Rightarrow> ret True))"

definition vir_has_unpack :: "qinst \<Rightarrow> nat \<Rightarrow> bool run" where
  "vir_has_unpack inst chan =
     bind_run (assert_run (chan = 0 \<or> chan = 1)) (\<lambda>_.
     ret (if vir_is_add inst
          then (if chan = 0 then a_unpack (add_part inst) else b_unpack (add_part inst)) \<noteq> V3D_QPU_UNPACK_NONE
          else (if chan = 0 then a_unpack (mul_part inst) else b_unpack (mul_part inst)) \<noteq> V3D_QPU_UNPACK_NONE))"

definition deref :: "v3d_compile \<Rightarrow> nat option \<Rightarrow> qinst option run" where
  "deref c p = (case p of None \<Rightarrow> ret None | Some a \<Rightarrow> bind_run (inst_at c a) (\<lambda>x. ret (Some x)))"

text \<open>The move whose source may replace the temporary \<open>t\<close>.\<close>

definition find_mov :: "v3d_compile \<Rightarrow> nat option list \<Rightarrow> nat \<Rightarrow> qinst option run" where
  "find_mov c movs t =
     bind_run (fetch movs t) (\<lambda>m.
     bind_run (deref c m) (\<lambda>mov.
     if mov \<noteq> None then ret mov
     else
       bind_run (fetch (c_defs c) t) (\<lambda>d.
       bind_run (deref c d) (\<lambda>mov.
       bind_run (is_copy_mov mov) (\<lambda>copy.
       case mov of None \<Rightarrow> ret None
       | Some x \<Rightarrow>
           if \<not> copy then ret None
           else bind_run (fetch (qi_src x) 0) (\<lambda>s.
             if q_file s = QFILE_TEMP then
               bind_run (fetch (c_defs c) (q_index s)) (\<lambda>d. ret (if d = None then None else mov))
             else ret mov))))))"

definition copy_prop_src :: "nat \<Rightarrow> nat option list \<Rightarrow> nat \<Rightarrow> v3d_compile \<times> bool \<Rightarrow> (v3d_compile \<times> bool) run" where
  "copy_prop_src p movs i = (\<lambda>(c, progress).
     bind_run (inst_at c p) (\<lambda>inst.
     bind_run (fetch (qi_src inst) i) (\<lambda>src.
     if q_file src \<noteq> QFILE_TEMP then ret (c, progress)
     else
       bind_run (find_mov c movs (q_index src)) (\<lambda>mov.
       case mov of None \<Rightarrow> ret (c, progress)
       | Some mov \<Rightarrow>
           bind_run (vir_has_unpack mov 0) (\<lambda>unpack.
           bind_run (if unpack then
               if vir_is_float_input inst \<noteq> vir_is_float_input mov then ret True else vir_has_unpack inst i
             else ret False) (\<lambda>skip.
           if skip then ret (c, progress)
           else
             bind_run (fetch (qi_src mov) 0) (\<lambda>s.
             let inst = inst\<lparr>qi_src := (qi_src inst)[i := s]\<rparr> in
             bind_run (if unpack then vir_set_unpack inst (int i) (a_unpack (mul_part mov)) else ret inst) (\<lambda>inst.
             ret (set_inst c inst, True)))))))))"

definition try_copy_prop :: "v3d_compile \<Rightarrow> nat \<Rightarrow> nat option list \<Rightarrow> (v3d_compile \<times> bool) run" where
  "try_copy_prop c p movs =
     bind_run (inst_at c p) (\<lambda>inst. fold_run (copy_prop_src p movs) [0..<vir_get_nsrc inst] (c, False))"

definition apply_kills :: "v3d_compile \<Rightarrow> nat option list \<Rightarrow> qinst \<Rightarrow> nat option list run" where
  "apply_kills c movs inst =
     (if q_file (qi_dst inst) \<noteq> QFILE_TEMP then ret movs
      else map_run (\<lambda>i.
        bind_run (fetch movs i) (\<lambda>m.
        bind_run (deref c m) (\<lambda>mov.
        case mov of None \<Rightarrow> ret None
        | Some x \<Rightarrow>
            bind_run (fetch (qi_src x) 0) (\<lambda>s.
            ret (if q_index (qi_dst x) = q_index (qi_dst inst) \<or> (q_file s = QFILE_TEMP \<and> q_index s = q_index (qi_dst inst))
                 then None else m))))) [0..<num_temps c])"

definition copy_prop_inst :: "nat \<Rightarrow> v3d_compile \<times> nat option list \<times> bool \<Rightarrow> (v3d_compile \<times> nat option list \<times> bool) run" where
  "copy_prop_inst p = (\<lambda>(c, movs, progress).
     bind_run (try_copy_prop c p movs) (\<lambda>(c, changed).
     bind_run (inst_at c p) (\<lambda>inst.
     bind_run (apply_kills c movs inst) (\<lambda>movs.
     bind_run (is_copy_mov (Some inst)) (\<lambda>copy.
     bind_run (if copy then update_at (\<lambda>_. Some p) movs (q_index (qi_dst inst)) else ret movs) (\<lambda>movs.
     ret (c, movs, changed \<or> progress)))))))"

definition copy_prop_block :: "nat \<Rightarrow> v3d_compile \<times> bool \<Rightarrow> (v3d_compile \<times> bool) run" where
  "copy_prop_block b = (\<lambda>(c, progress).
     bind_run (fetch (c_blocks c) b) (\<lambda>block.
     bind_run (fold_run copy_prop_inst (map qi_addr (qb_instructions block)) (c, replicate (num_temps c) None, progress))
       (\<lambda>(c, movs, progress). ret (c, progress))))"

definition vir_opt_copy_propagate :: "v3d_compile \<Rightarrow> (v3d_compile \<times> bool) run" where
  "vir_opt_copy_propagate c = fold_run copy_prop_block [0..<length (c_blocks c)] (c, False)"

section \<open>Dead code\<close>

definition dce :: "v3d_compile \<Rightarrow> qinst \<Rightarrow> v3d_compile run" where
  "dce c inst =
     bind_run (assert_run (apf (flags (qi_qpu inst)) = V3D_QPU_PF_NONE)) (\<lambda>_.
     bind_run (assert_run (mpf (flags (qi_qpu inst)) = V3D_QPU_PF_NONE)) (\<lambda>_.
     vir_remove_instruction c inst))"

fun nonremovable_reads :: "v3d_compile \<Rightarrow> qinst \<Rightarrow> nat list \<Rightarrow> bool run" where
  "nonremovable_reads c inst [] = ret False"
| "nonremovable_reads c inst (i # ids) =
     bind_run (fetch (qi_src inst) i) (\<lambda>src.
     bind_run (if q_file src \<noteq> QFILE_VPM then ret False
       else if q_index src = UINT_MAX then ret True
       else
         bind_run (fetch (vattr_sizes c) (q_index src div 4)) (\<lambda>size.
         if unat size \<noteq> q_index src mod 4 then ret True
         else ret (sum_list (map ucast (vattr_sizes c)) = (1 :: u32)))) (\<lambda>vpm.
     if vpm \<or> q_file src = QFILE_VARY then ret True else nonremovable_reads c inst ids))"

definition has_nonremovable_reads :: "v3d_compile \<Rightarrow> qinst \<Rightarrow> bool run" where
  "has_nonremovable_reads c inst = nonremovable_reads c inst [0..<vir_get_nsrc inst]"

definition mark_used :: "v3d_compile \<Rightarrow> bool list run" where
  "mark_used c = fold_run (\<lambda>inst. fold_run (\<lambda>i used.
     bind_run (fetch (qi_src inst) i) (\<lambda>src.
     if q_file src = QFILE_TEMP then update_at (\<lambda>_. True) used (q_index src) else ret used)) [0..<vir_get_nsrc inst])
     (code c) (replicate (num_temps c) False)"

text \<open>Dropping the reads of an instruction that is removed from the sizes of the vertex attributes.\<close>

definition drop_read :: "qinst \<Rightarrow> nat \<Rightarrow> v3d_compile \<Rightarrow> v3d_compile run" where
  "drop_read inst i c =
     bind_run (fetch (qi_src inst) i) (\<lambda>src.
     if q_file src \<noteq> QFILE_VPM then ret c
     else
       bind_run (fetch (vattr_sizes c) (q_index src div 4)) (\<lambda>size.
       ret (if unat size = q_index src mod 4
            then c\<lparr>num_inputs := num_inputs c - 1, vattr_sizes := (vattr_sizes c)[q_index src div 4 := size - 1]\<rparr> else c)))"

definition dead_inst :: "bool list \<Rightarrow> qinst \<Rightarrow> v3d_compile \<times> bool \<Rightarrow> (v3d_compile \<times> bool) run" where
  "dead_inst used inst = (\<lambda>(c, progress).
     bind_run (if q_file (qi_dst inst) = QFILE_NULL then ret True
       else if q_file (qi_dst inst) = QFILE_TEMP then bind_run (fetch used (q_index (qi_dst inst))) (\<lambda>u. ret (\<not> u))
       else ret False) (\<lambda>unused.
     if \<not> unused then ret (c, progress)
     else if vir_has_side_effects inst then ret (c, progress)
     else
       bind_run (if apf (flags (qi_qpu inst)) \<noteq> V3D_QPU_PF_NONE \<or> mpf (flags (qi_qpu inst)) \<noteq> V3D_QPU_PF_NONE then ret True
         else has_nonremovable_reads c inst) (\<lambda>keep.
       if keep then
         if q_file (qi_dst inst) = QFILE_TEMP then
           bind_run (clear_def c inst) (\<lambda>c.
           ret (set_inst c (inst\<lparr>qi_dst := (qi_dst inst)\<lparr>q_file := QFILE_NULL\<rparr>\<rparr>), True))
         else ret (c, progress)
       else
         bind_run (fold_run (drop_read inst) [0..<vir_get_nsrc inst] c) (\<lambda>c.
         bind_run (dce c inst) (\<lambda>c.
         ret (c, True))))))"

definition dead_block :: "bool list \<Rightarrow> nat \<Rightarrow> v3d_compile \<times> bool \<Rightarrow> (v3d_compile \<times> bool) run" where
  "dead_block used b = (\<lambda>(c, progress).
     bind_run (fetch (c_blocks c) b) (\<lambda>block. fold_run (dead_inst used) (qb_instructions block) (c, progress)))"

definition vir_opt_dead_code :: "v3d_compile \<Rightarrow> (v3d_compile \<times> bool) run" where
  "vir_opt_dead_code c = bind_run (mark_used c) (\<lambda>used. fold_run (dead_block used) [0..<length (c_blocks c)] (c, False))"

section \<open>The loop over the passes\<close>

partial_function (option) vir_optimize :: "v3d_compile \<Rightarrow> v3d_compile run" where
  "vir_optimize c =
     bind_run (vir_opt_copy_propagate c) (\<lambda>(c, copied).
     bind_run (vir_opt_dead_code c) (\<lambda>(c, removed).
     if copied \<or> removed then vir_optimize c else ret c))"

declare vir_optimize.simps [code]

end
