(* ===== verification/Vir_Opt_Inv.thy ===== *)
theory Vir_Opt_Inv
  imports Vir_Opt
begin

text \<open>
  The optimisation passes keep programs well formed and never fault. Copy propagation changes nothing but
  sources; every change lowers the weight of a program whose copies can be ordered.
\<close>

section \<open>Programs by their instructions\<close>

lemma code_map_insts: "code (map_insts f c) = concat (map (\<lambda>b. f (qb_instructions b)) (c_blocks c))"
  by (simp add: map_insts_def comp_def)

lemma map_insts_simps [simp]:
  "num_temps (map_insts f c) = num_temps c" "c_defs (map_insts f c) = c_defs c" "vattr_sizes (map_insts f c) = vattr_sizes c"
  "length (c_blocks (map_insts f c)) = length (c_blocks c)"
  by (simp_all add: map_insts_def)

lemma map_insts_comp: "map_insts f (map_insts g c) = map_insts (\<lambda>xs. f (g xs)) c"
  by (simp add: map_insts_def comp_def)

lemma map_insts_cong: "(\<And>b. b \<in> set (c_blocks c) \<Longrightarrow> f (qb_instructions b) = g (qb_instructions b)) \<Longrightarrow> map_insts f c = map_insts g c"
  by (simp add: map_insts_def cong: map_cong)

lemma code_set_inst: "code (set_inst c y) = map (\<lambda>x. if qi_addr x = qi_addr y then y else x) (code c)"
  by (simp add: set_inst_def code_map_insts map_concat comp_def)

lemma code_list_del: "code (list_del c y) = filter (\<lambda>x. qi_addr x \<noteq> qi_addr y) (code c)"
  by (simp add: list_del_def code_map_insts filter_concat comp_def)

lemma set_inst_simps [simp]:
  "num_temps (set_inst c x) = num_temps c" "c_defs (set_inst c x) = c_defs c" "vattr_sizes (set_inst c x) = vattr_sizes c"
  "length (c_blocks (set_inst c x)) = length (c_blocks c)"
  by (simp_all add: set_inst_def)

definition insts_of :: "v3d_compile \<Rightarrow> qinst set" where
  "insts_of c = set (code c)"

lemma find_unique:
  assumes "distinct (map f xs)" "x \<in> set xs"
  shows "find (\<lambda>y. f y = f x) xs = Some x"
  using assms by (induction xs) auto

lemma inst_at_ok: "distinct (map qi_addr (code c)) \<Longrightarrow> x \<in> insts_of c \<Longrightarrow> inst_at c (qi_addr x) = ret x"
  unfolding inst_at_def insts_of_def by (subst find_unique) auto

section \<open>Instructions up to their sources\<close>

definition strip :: "qinst \<Rightarrow> qinst" where
  "strip x = x\<lparr>qi_src := [], qi_qpu := (qi_qpu x)
     \<lparr>alu_add := (add_part x)\<lparr>a_unpack := V3D_QPU_UNPACK_NONE, b_unpack := V3D_QPU_UNPACK_NONE\<rparr>,
      alu_mul := (mul_part x)\<lparr>a_unpack := V3D_QPU_UNPACK_NONE, b_unpack := V3D_QPU_UNPACK_NONE\<rparr>\<rparr>\<rparr>"

lemma strip_simps:
  "qi_addr (strip x) = qi_addr x" "qi_dst (strip x) = qi_dst x" "qi_has_implicit_uniform (strip x) = qi_has_implicit_uniform x"
  "instr_type (qi_qpu (strip x)) = instr_type (qi_qpu x)" "flags (qi_qpu (strip x)) = flags (qi_qpu x)" "sig (qi_qpu (strip x)) = sig (qi_qpu x)"
  "alu_op (add_part (strip x)) = alu_op (add_part x)" "alu_op (mul_part (strip x)) = alu_op (mul_part x)"
  "output_pack (add_part (strip x)) = output_pack (add_part x)" "output_pack (mul_part (strip x)) = output_pack (mul_part x)"
  by (simp_all add: strip_def)

lemma strip_nsrc: "vir_has_implicit_uniform (strip x) = vir_has_implicit_uniform x" "vir_get_nsrc (strip x) = vir_get_nsrc x"
  "vir_has_side_effects (strip x) = vir_has_side_effects x"
  unfolding vir_get_nsrc_def vir_get_non_sideband_nsrc_def vir_has_implicit_uniform_def vir_has_side_effects_def strip_simps by (rule refl)+

lemma strip_eqD:
  assumes "strip y = strip x"
  shows "vir_get_nsrc y = vir_get_nsrc x" "vir_has_implicit_uniform y = vir_has_implicit_uniform x" "qi_addr y = qi_addr x" "qi_dst y = qi_dst x"
    "instr_type (qi_qpu y) = instr_type (qi_qpu x)" "flags (qi_qpu y) = flags (qi_qpu x)" "alu_op (add_part y) = alu_op (add_part x)"
    "alu_op (mul_part y) = alu_op (mul_part x)" "output_pack (add_part y) = output_pack (add_part x)"
    "output_pack (mul_part y) = output_pack (mul_part x)"
  using assms by (metis strip_simps strip_nsrc)+

definition copy_mov :: "qinst \<Rightarrow> bool" where
  "copy_mov x \<longleftrightarrow> instr_type (qi_qpu x) = V3D_QPU_INSTR_TYPE_ALU \<and> alu_op (mul_part x) \<in> {V3D_QPU_M_FMOV, V3D_QPU_M_MOV} \<and>
     q_file (qi_dst x) = QFILE_TEMP \<and> q_file (qi_src x ! 0) \<in> {QFILE_TEMP, QFILE_UNIF} \<and>
     output_pack (add_part x) = V3D_QPU_PACK_NONE \<and> output_pack (mul_part x) = V3D_QPU_PACK_NONE \<and>
     ac (flags (qi_qpu x)) = V3D_QPU_COND_NONE \<and> mc (flags (qi_qpu x)) = V3D_QPU_COND_NONE"

lemma is_copy_mov_eq: "length (qi_src x) = 3 \<Longrightarrow> is_copy_mov (Some x) = ret (copy_mov x)"
  by (auto simp: is_copy_mov_def copy_mov_def)

text \<open>The same instruction with some temporaries among its sources replaced by other temporaries or uniforms.\<close>

definition rewritten :: "qinst \<Rightarrow> qinst \<Rightarrow> bool" where
  "rewritten x y \<longleftrightarrow> strip y = strip x \<and> length (qi_src y) = length (qi_src x) \<and>
     (\<forall>i < length (qi_src x). qi_src y ! i = qi_src x ! i \<or>
        q_file (qi_src x ! i) = QFILE_TEMP \<and> q_file (qi_src y ! i) \<in> {QFILE_TEMP, QFILE_UNIF})"

lemma rewritten_refl [simp]: "rewritten x x"
  by (simp add: rewritten_def)

lemma rewritten_trans: "rewritten x y \<Longrightarrow> rewritten y z \<Longrightarrow> rewritten x z"
  unfolding rewritten_def by (metis insert_iff)

lemma rewritten_strip: "rewritten x y \<Longrightarrow> strip y = strip x"
  by (simp add: rewritten_def)

lemma rewritten_copy_mov:
  assumes "rewritten x y" "length (qi_src x) = 3"
  shows "copy_mov y = copy_mov x"
proof -
  have "q_file (qi_src y ! 0) \<in> {QFILE_TEMP, QFILE_UNIF} \<longleftrightarrow> q_file (qi_src x ! 0) \<in> {QFILE_TEMP, QFILE_UNIF}"
    using assms unfolding rewritten_def by (metis insert_iff zero_less_numeral)
  then show ?thesis using strip_eqD(4-10) [OF rewritten_strip [OF assms(1)]] unfolding copy_mov_def by simp
qed

section \<open>Well-formed programs\<close>

definition inst_wf :: "v3d_compile \<Rightarrow> qinst \<Rightarrow> bool" where
  "inst_wf c x \<longleftrightarrow> length (qi_src x) = 3 \<and>
     (\<forall>i < 3. q_file (qi_src x ! i) = QFILE_TEMP \<longrightarrow> q_index (qi_src x ! i) < num_temps c) \<and>
     (q_file (qi_dst x) = QFILE_TEMP \<longrightarrow> q_index (qi_dst x) < num_temps c) \<and>
     (vir_has_implicit_uniform x \<longrightarrow> q_file (qi_src x ! (vir_get_nsrc x - 1)) \<noteq> QFILE_TEMP) \<and>
     (\<forall>i < vir_get_nsrc x. q_file (qi_src x ! i) = QFILE_VPM \<longrightarrow> q_index (qi_src x ! i) = UINT_MAX \<or>
        q_index (qi_src x ! i) div 4 < length (vattr_sizes c))"

lemma inst_wf_fields: "num_temps c' = num_temps c \<Longrightarrow> vattr_sizes c' = vattr_sizes c \<Longrightarrow> inst_wf c' x = inst_wf c x"
  by (simp add: inst_wf_def)

text \<open>Every entry of the table of definitions points to an instruction that writes the temporary.\<close>

definition defs_ok :: "v3d_compile \<Rightarrow> bool" where
  "defs_ok c \<longleftrightarrow> num_temps c \<le> length (c_defs c) \<and> (\<forall>t < num_temps c. \<forall>p. c_defs c ! t = Some p \<longrightarrow>
     (\<exists>x\<in>insts_of c. qi_addr x = p \<and> q_file (qi_dst x) = QFILE_TEMP \<and> q_index (qi_dst x) = t))"

definition opt_ok :: "v3d_compile \<Rightarrow> bool" where
  "opt_ok c \<longleftrightarrow> distinct (map qi_addr (code c)) \<and> (\<forall>x\<in>insts_of c. inst_wf c x) \<and> defs_ok c"

lemma opt_okD:
  assumes "opt_ok c"
  shows "x \<in> insts_of c \<Longrightarrow> inst_at c (qi_addr x) = ret x" "x \<in> insts_of c \<Longrightarrow> length (qi_src x) = 3"
    "x \<in> insts_of c \<Longrightarrow> i < 3 \<Longrightarrow> q_file (qi_src x ! i) = QFILE_TEMP \<Longrightarrow> q_index (qi_src x ! i) < num_temps c"
    "x \<in> insts_of c \<Longrightarrow> q_file (qi_dst x) = QFILE_TEMP \<Longrightarrow> q_index (qi_dst x) < num_temps c"
    "num_temps c \<le> length (c_defs c)" "distinct (map qi_addr (code c))" "x \<in> insts_of c \<Longrightarrow> inst_wf c x" "defs_ok c"
  using assms inst_at_ok unfolding opt_ok_def inst_wf_def defs_ok_def by blast+

text \<open>A source that may be a temporary is not the implicit uniform, so it belongs to one of the two operations.\<close>

lemma temp_source_of_alu:
  assumes "inst_wf c x" "i < vir_get_nsrc x" "q_file (qi_src x ! i) = QFILE_TEMP"
  shows "i < 2" "vir_is_add x \<or> vir_is_mul x"
proof -
  have i: "i < vir_get_non_sideband_nsrc x"
    using assms by (cases "i = vir_get_nsrc x - 1") (auto simp: inst_wf_def vir_get_nsrc_def split: if_splits)
  have "instr_type (qi_qpu x) = V3D_QPU_INSTR_TYPE_ALU" using i by (auto simp: vir_get_non_sideband_nsrc_def split: v3d_qpu_instr_type.splits)
  then show "i < 2" "vir_is_add x \<or> vir_is_mul x"
    using i num_src_le(1) [of "alu_op (add_part x)"] num_src_le(2) [of "alu_op (mul_part x)"]
    by (auto simp: vir_get_non_sideband_nsrc_def vir_is_add_def vir_is_mul_def v3d_qpu_mul_op_num_src_def split: if_splits)
qed

section \<open>One source\<close>

definition unpack_of :: "qinst \<Rightarrow> nat \<Rightarrow> v3d_qpu_input_unpack" where
  "unpack_of x i = (if vir_is_add x then (if i = 0 then a_unpack (add_part x) else b_unpack (add_part x))
     else (if i = 0 then a_unpack (mul_part x) else b_unpack (mul_part x)))"

definition set_unpack :: "qinst \<Rightarrow> nat \<Rightarrow> v3d_qpu_input_unpack \<Rightarrow> qinst" where
  "set_unpack x i u = x\<lparr>qi_qpu :=
     (if vir_is_add x then (qi_qpu x)\<lparr>alu_add := if i = 0 then (add_part x)\<lparr>a_unpack := u\<rparr> else (add_part x)\<lparr>b_unpack := u\<rparr>\<rparr>
      else (qi_qpu x)\<lparr>alu_mul := if i = 0 then (mul_part x)\<lparr>a_unpack := u\<rparr> else (mul_part x)\<lparr>b_unpack := u\<rparr>\<rparr>)\<rparr>"

text \<open>The instruction that reads the source of the move instead of its destination, and when that is not allowed.\<close>

definition retarget :: "qinst \<Rightarrow> nat \<Rightarrow> qinst \<Rightarrow> qinst" where
  "retarget mov i x = (let y = x\<lparr>qi_src := (qi_src x)[i := qi_src mov ! 0]\<rparr> in
     if unpack_of mov 0 \<noteq> V3D_QPU_UNPACK_NONE then set_unpack y i (a_unpack (mul_part mov)) else y)"

definition blocked :: "qinst \<Rightarrow> nat \<Rightarrow> qinst \<Rightarrow> bool" where
  "blocked mov i x \<longleftrightarrow> unpack_of mov 0 \<noteq> V3D_QPU_UNPACK_NONE \<and>
     (vir_is_float_input x \<noteq> vir_is_float_input mov \<or> unpack_of x i \<noteq> V3D_QPU_UNPACK_NONE)"

lemma has_unpack_eq: "i < 2 \<Longrightarrow> vir_has_unpack x i = ret (unpack_of x i \<noteq> V3D_QPU_UNPACK_NONE)"
  by (auto simp: vir_has_unpack_def unpack_of_def)

lemma set_unpack_eq:
  assumes "i < 2" "vir_is_add x \<or> vir_is_mul x"
  shows "vir_set_unpack x (int i) u = ret (set_unpack x i u)"
  using assms by (auto simp: vir_set_unpack_def set_unpack_def Let_def)

lemma set_unpack_strip: "strip (set_unpack x i u) = strip x" "qi_src (set_unpack x i u) = qi_src x"
  by (simp_all add: set_unpack_def strip_def)

lemma src_strip: "strip (x\<lparr>qi_src := l\<rparr>) = strip x"
  by (simp add: strip_def)

lemma retarget_simps: "strip (retarget mov i x) = strip x" "qi_src (retarget mov i x) = (qi_src x)[i := qi_src mov ! 0]"
  by (simp_all add: retarget_def Let_def set_unpack_strip src_strip)

lemma retarget_rewritten:
  assumes "copy_mov mov" "q_file (qi_src x ! i) = QFILE_TEMP" "i < length (qi_src x)"
  shows "rewritten x (retarget mov i x)"
proof -
  have "q_file (qi_src mov ! 0) \<in> {QFILE_TEMP, QFILE_UNIF}" using assms(1) by (simp add: copy_mov_def)
  then show ?thesis using assms(2,3) unfolding rewritten_def retarget_simps by (auto simp: nth_list_update)
qed

text \<open>Where a move comes from: the table of the block, or else the single definition of the temporary.\<close>

definition available :: "v3d_compile \<Rightarrow> nat option list \<Rightarrow> nat \<Rightarrow> qinst \<Rightarrow> bool" where
  "available c movs t m \<longleftrightarrow> m \<in> insts_of c \<and> copy_mov m \<and> q_index (qi_dst m) = t \<and>
     (movs ! t = Some (qi_addr m) \<or>
      movs ! t = None \<and> c_defs c ! t = Some (qi_addr m) \<and>
        (q_file (qi_src m ! 0) = QFILE_TEMP \<longrightarrow> c_defs c ! q_index (qi_src m ! 0) \<noteq> None))"

definition movs_ok :: "v3d_compile \<Rightarrow> nat option list \<Rightarrow> bool" where
  "movs_ok c movs \<longleftrightarrow> length movs = num_temps c \<and> (\<forall>t < num_temps c. \<forall>p. movs ! t = Some p \<longrightarrow>
     (\<exists>m\<in>insts_of c. qi_addr m = p \<and> copy_mov m \<and> q_index (qi_dst m) = t))"

lemma find_mov_ok:
  assumes ok: "opt_ok c" and mv: "movs_ok c movs" and t: "t < num_temps c"
  shows "\<exists>r. find_mov c movs t = ret r \<and> (\<forall>m. r = Some m \<longrightarrow> available c movs t m)"
proof (cases "movs ! t")
  case (Some p)
  then obtain m where m: "m \<in> insts_of c" "qi_addr m = p" "copy_mov m" "q_index (qi_dst m) = t" using mv t by (auto simp: movs_ok_def)
  have "find_mov c movs t = ret (Some m)"
    using mv t Some opt_okD(1) [OF ok m(1)] m(2) by (simp add: find_mov_def deref_def movs_ok_def)
  then show ?thesis using m Some by (auto simp: available_def)
next
  case None
  have l: "t < length movs" "t < length (c_defs c)" using mv t opt_okD(5) [OF ok] by (auto simp: movs_ok_def)
  show ?thesis
  proof (cases "c_defs c ! t")
    case n: None
    then show ?thesis using None l by (auto simp: find_mov_def deref_def is_copy_mov_def)
  next
    case s: (Some p)
    then obtain m where m: "m \<in> insts_of c" "qi_addr m = p" "q_index (qi_dst m) = t"
      using opt_okD(8) [OF ok] t unfolding defs_ok_def by blast
    note len = opt_okD(2) [OF ok m(1)]
    have d: "q_index (qi_src m ! 0) < length (c_defs c)" if "q_file (qi_src m ! 0) = QFILE_TEMP"
      using opt_okD(3) [OF ok m(1), of 0] that opt_okD(5) [OF ok] by simp
    have "find_mov c movs t = ret (if copy_mov m \<and> (q_file (qi_src m ! 0) = QFILE_TEMP \<longrightarrow> c_defs c ! q_index (qi_src m ! 0) \<noteq> None)
        then Some m else None)"
      using None l s m(2) opt_okD(1) [OF ok m(1)] len d is_copy_mov_eq [OF len] by (simp add: find_mov_def deref_def)
    then show ?thesis using m s None by (auto simp: available_def)
  qed
qed

lemma copy_prop_src_ok:
  assumes ok: "opt_ok c" and mv: "movs_ok c movs" and x: "x \<in> insts_of c" and i: "i < vir_get_nsrc x"
  shows "copy_prop_src (qi_addr x) movs i (c, progress) = ret (c, progress) \<or>
    (\<exists>m. q_file (qi_src x ! i) = QFILE_TEMP \<and> available c movs (q_index (qi_src x ! i)) m \<and> \<not> blocked m i x \<and>
      copy_prop_src (qi_addr x) movs i (c, progress) = ret (set_inst c (retarget m i x), True))"
proof (cases "q_file (qi_src x ! i) = QFILE_TEMP")
  case False
  then show ?thesis using opt_okD(1,2) [OF ok x] i nsrc_le [of x] by (simp add: copy_prop_src_def)
next
  case True
  let ?t = "q_index (qi_src x ! i)"
  have i3: "i < 3" using i nsrc_le [of x] by simp
  note alu = temp_source_of_alu [OF opt_okD(7) [OF ok x] i True]
  obtain r where r: "find_mov c movs ?t = ret r" "\<And>m. r = Some m \<Longrightarrow> available c movs ?t m"
    using find_mov_ok [OF ok mv opt_okD(3) [OF ok x i3 True]] by blast
  show ?thesis
  proof (cases r)
    case None
    then show ?thesis using opt_okD(1,2) [OF ok x] i3 True r(1) by (simp add: copy_prop_src_def)
  next
    case (Some m)
    have m: "available c movs ?t m" using r(2) Some by simp
    then have len: "length (qi_src m) = 3" using opt_okD(2) [OF ok] by (simp add: available_def)
    let ?y = "x\<lparr>qi_src := (qi_src x)[i := qi_src m ! 0]\<rparr>"
    have y: "vir_is_add ?y \<or> vir_is_mul ?y" using alu(2) by (simp add: vir_is_add_def vir_is_mul_def)
    have "copy_prop_src (qi_addr x) movs i (c, progress) = ret (if blocked m i x then (c, progress) else (set_inst c (retarget m i x), True))"
      using opt_okD(1,2) [OF ok x] i3 True r(1) Some len
      by (simp add: copy_prop_src_def has_unpack_eq alu(1) blocked_def retarget_def set_unpack_eq [OF alu(1) y] Let_def)
    then show ?thesis using True m by (cases "blocked m i x") auto
  qed
qed

section \<open>Progress of copy propagation\<close>

definition skel :: "v3d_compile \<Rightarrow> v3d_compile" where
  "skel c = map_insts (map strip) c"

lemma skel_fields:
  assumes "skel c' = skel c"
  shows "num_temps c' = num_temps c" "c_defs c' = c_defs c" "vattr_sizes c' = vattr_sizes c" "length (c_blocks c') = length (c_blocks c)"
    "map strip (code c') = map strip (code c)" "map qi_addr (code c') = map qi_addr (code c)"
proof -
  show "num_temps c' = num_temps c" "c_defs c' = c_defs c" "vattr_sizes c' = vattr_sizes c" "length (c_blocks c') = length (c_blocks c)"
    using assms unfolding skel_def by (metis map_insts_simps)+
  have "code (skel c') = code (skel c)" using assms by simp
  then show s: "map strip (code c') = map strip (code c)" by (simp add: skel_def code_map_insts map_concat comp_def)
  have "map qi_addr (map strip (code c')) = map qi_addr (map strip (code c))" by (simp only: s)
  then show "map qi_addr (code c') = map qi_addr (code c)" by (simp add: comp_def strip_simps)
qed

text \<open>The program with other sources in some instructions.\<close>

definition refines :: "v3d_compile \<Rightarrow> v3d_compile \<Rightarrow> bool" where
  "refines c c' \<longleftrightarrow> skel c' = skel c \<and> (\<forall>y\<in>insts_of c'. \<exists>x\<in>insts_of c. rewritten x y) \<and> (\<forall>x\<in>insts_of c. \<exists>y\<in>insts_of c'. rewritten x y)"

lemma refines_refl [simp]: "refines c c"
  unfolding refines_def using rewritten_refl by blast

lemma refines_trans: "refines c c' \<Longrightarrow> refines c' c'' \<Longrightarrow> refines c c''"
  unfolding refines_def by (metis rewritten_trans)

lemma insts_of_set_inst: "y' \<in> insts_of (set_inst c y) \<longleftrightarrow> (\<exists>x\<in>insts_of c. y' = (if qi_addr x = qi_addr y then y else x))"
  unfolding insts_of_def code_set_inst by auto

lemma same_address: "distinct (map qi_addr (code c)) \<Longrightarrow> x \<in> insts_of c \<Longrightarrow> z \<in> insts_of c \<Longrightarrow> qi_addr z = qi_addr x \<Longrightarrow> z = x"
  unfolding insts_of_def by (meson distinct_map inj_onD)

lemma set_inst_refines:
  assumes ok: "opt_ok c" and x: "x \<in> insts_of c" and y: "rewritten x y"
    and b: "\<And>i. i < 3 \<Longrightarrow> q_file (qi_src y ! i) = QFILE_TEMP \<Longrightarrow> q_index (qi_src y ! i) < num_temps c"
  shows "refines c (set_inst c y)" "opt_ok (set_inst c y)"
proof -
  let ?c = "set_inst c y"
  note S = strip_eqD [OF rewritten_strip [OF y]]
  have z: "z = x" if "z \<in> insts_of c" "qi_addr z = qi_addr y" for z using same_address [OF opt_okD(6) [OF ok] x] that S(3) by simp
  have "strip y = strip z" if "z \<in> insts_of c" "qi_addr z = qi_addr y" for z
    using z [OF that] rewritten_strip [OF y] by simp
  then have sk: "skel ?c = skel c"
    unfolding skel_def set_inst_def map_insts_comp by (intro map_insts_cong) (auto simp: insts_of_def)
  have bwd: "\<exists>x\<in>insts_of c. rewritten x y'" if "y' \<in> insts_of ?c" for y'
    using that z x y unfolding insts_of_set_inst by (metis rewritten_refl)
  have forth: "\<exists>y'\<in>insts_of ?c. rewritten x' y'" if "x' \<in> insts_of c" for x'
  proof -
    have "(if qi_addr x' = qi_addr y then y else x') \<in> insts_of ?c" using that insts_of_set_inst by blast
    then show ?thesis using z [OF that] y by (metis rewritten_refl)
  qed
  show "refines c ?c" unfolding refines_def using sk bwd forth by blast
  have vpm: "q_index (qi_src y ! i) = UINT_MAX \<or> q_index (qi_src y ! i) div 4 < length (vattr_sizes c)"
    if "i < vir_get_nsrc y" "q_file (qi_src y ! i) = QFILE_VPM" for i
  proof -
    have i: "i < 3" "i < vir_get_nsrc x" using that(1) S(1) nsrc_le [of x] by auto
    then have "qi_src y ! i = qi_src x ! i" using opt_okD(2) [OF ok x] y that(2) by (auto simp: rewritten_def)
    then show ?thesis using opt_okD(7) [OF ok x] that(2) i(2) by (simp add: inst_wf_def)
  qed
  have imp: "q_file (qi_src y ! (vir_get_nsrc y - 1)) \<noteq> QFILE_TEMP" if "vir_has_implicit_uniform y"
  proof -
    have "q_file (qi_src x ! (vir_get_nsrc x - 1)) \<noteq> QFILE_TEMP" "vir_get_nsrc x - 1 < 3"
      using opt_okD(7) [OF ok x] that S(2) nsrc_le [of x] by (auto simp: inst_wf_def)
    then show ?thesis using opt_okD(2) [OF ok x] y S(1) unfolding rewritten_def by metis
  qed
  have wy: "inst_wf c y"
    using opt_okD(2,4) [OF ok x] S(4) b vpm imp y by (auto simp: inst_wf_def rewritten_def)
  have wf: "inst_wf ?c y'" if "y' \<in> insts_of ?c" for y'
    using that opt_okD(7) [OF ok] wy unfolding insts_of_set_inst inst_wf_fields [OF set_inst_simps(1,3)] by metis
  have "\<exists>y'\<in>insts_of ?c. qi_addr y' = p \<and> q_file (qi_dst y') = QFILE_TEMP \<and> q_index (qi_dst y') = t"
    if d: "t < num_temps c" "c_defs c ! t = Some p" for t p
  proof -
    obtain x' where x': "x' \<in> insts_of c" "qi_addr x' = p" "q_file (qi_dst x') = QFILE_TEMP" "q_index (qi_dst x') = t"
      using opt_okD(8) [OF ok] d unfolding defs_ok_def by blast
    obtain y' where "y' \<in> insts_of ?c" "rewritten x' y'" using forth [OF x'(1)] by blast
    then show ?thesis using x' strip_eqD(3,4) [OF rewritten_strip] by metis
  qed
  then have "defs_ok ?c" using opt_okD(5) [OF ok] by (simp add: defs_ok_def)
  then show "opt_ok ?c" using wf skel_fields(6) [OF sk] opt_okD(6) [OF ok] by (simp add: opt_ok_def)
qed

text \<open>
  Copies that can be ordered: every move copies a temporary of lower rank. The weight of an instruction counts
  itself, its destination and the ranks of the temporaries it reads.
\<close>

definition ordered_copies :: "(nat \<Rightarrow> nat) \<Rightarrow> v3d_compile \<Rightarrow> bool" where
  "ordered_copies rank c \<longleftrightarrow> (\<forall>x\<in>insts_of c. copy_mov x \<and> q_file (qi_src x ! 0) = QFILE_TEMP \<longrightarrow>
     rank (q_index (qi_src x ! 0)) < rank (q_index (qi_dst x)))"

definition src_rank :: "(nat \<Rightarrow> nat) \<Rightarrow> qreg \<Rightarrow> nat" where
  "src_rank rank r = (if q_file r = QFILE_TEMP then Suc (rank (q_index r)) else 0)"

definition inst_weight :: "(nat \<Rightarrow> nat) \<Rightarrow> qinst \<Rightarrow> nat" where
  "inst_weight rank x = 1 + (if q_file (qi_dst x) = QFILE_TEMP then 1 else 0) + (\<Sum>i < vir_get_nsrc x. src_rank rank (qi_src x ! i))"

definition weight :: "(nat \<Rightarrow> nat) \<Rightarrow> v3d_compile \<Rightarrow> nat" where
  "weight rank c = sum_list (map (inst_weight rank) (code c))"

lemma weight_set_inst:
  assumes "opt_ok c" "x \<in> insts_of c" "qi_addr y = qi_addr x"
  shows "weight rank (set_inst c y) + inst_weight rank x = weight rank c + inst_weight rank y"
proof -
  obtain ys zs where s: "code c = ys @ x # zs" using assms(2) unfolding insts_of_def by (meson split_list)
  have "distinct (map qi_addr (ys @ x # zs))" using opt_okD(6) [OF assms(1)] unfolding s .
  then have "qi_addr y \<notin> qi_addr ` set ys" "qi_addr y \<notin> qi_addr ` set zs" using assms(3) by auto
  then have "map (\<lambda>z. if qi_addr z = qi_addr y then y else z) ys = ys" "map (\<lambda>z. if qi_addr z = qi_addr y then y else z) zs = zs"
    by (intro map_idI; metis image_eqI)+
  then have "code (set_inst c y) = ys @ y # zs" unfolding code_set_inst s using assms(3) by simp
  then show ?thesis unfolding weight_def s by simp
qed

definition advance :: "(nat \<Rightarrow> nat) \<Rightarrow> v3d_compile \<Rightarrow> v3d_compile \<Rightarrow> bool \<Rightarrow> bool" where
  "advance rank c c' changed \<longleftrightarrow> opt_ok c' \<and> refines c c' \<and> (\<not> changed \<longrightarrow> c' = c) \<and>
     (ordered_copies rank c \<longrightarrow> ordered_copies rank c' \<and> (changed \<longrightarrow> weight rank c' < weight rank c))"

lemma advance_refl: "opt_ok c \<Longrightarrow> advance rank c c False"
  by (simp add: advance_def)

lemma advance_trans: "advance rank c c' a \<Longrightarrow> advance rank c' c'' b \<Longrightarrow> advance rank c c'' (a \<or> b)"
  unfolding advance_def using refines_trans less_trans by (cases a; cases b) (simp_all, blast+)

lemma retarget_ordered:
  assumes ok: "opt_ok c" and x: "x \<in> insts_of c" and i: "i < 3" and t: "q_file (qi_src x ! i) = QFILE_TEMP"
    and m: "available c movs (q_index (qi_src x ! i)) m" and o: "ordered_copies rank c"
  shows "ordered_copies rank (set_inst c (retarget m i x))" "src_rank rank (qi_src m ! 0) < src_rank rank (qi_src x ! i)"
proof -
  let ?y = "retarget m i x"
  have m': "m \<in> insts_of c" "copy_mov m" "q_index (qi_dst m) = q_index (qi_src x ! i)" using m by (auto simp: available_def)
  show lt: "src_rank rank (qi_src m ! 0) < src_rank rank (qi_src x ! i)"
    using o m' t by (auto simp: ordered_copies_def src_rank_def)
  note len = opt_okD(2) [OF ok x]
  have i': "i < length (qi_src x)" using len i by simp
  have "rank (q_index (qi_src ?y ! 0)) < rank (q_index (qi_dst ?y))" if y: "copy_mov ?y" "q_file (qi_src ?y ! 0) = QFILE_TEMP"
  proof -
    have cx: "copy_mov x" using y(1) rewritten_copy_mov [OF retarget_rewritten [OF m'(2) t i'] len] by simp
    have "qi_src ?y ! 0 = (if i = 0 then qi_src m ! 0 else qi_src x ! 0)" using i' by (simp add: retarget_simps nth_list_update)
    then show ?thesis
      using lt t o x cx y(2) strip_eqD(4) [OF retarget_simps(1) [of m i x]] by (cases "i = 0") (auto simp: src_rank_def ordered_copies_def)
  qed
  moreover have "z = ?y \<or> z \<in> insts_of c" if "z \<in> insts_of (set_inst c ?y)" for z using that unfolding insts_of_set_inst by auto
  ultimately show "ordered_copies rank (set_inst c ?y)" using o unfolding ordered_copies_def by blast
qed

lemma retarget_advance:
  assumes ok: "opt_ok c" and x: "x \<in> insts_of c" and i: "i < vir_get_nsrc x" and t: "q_file (qi_src x ! i) = QFILE_TEMP"
    and m: "available c movs (q_index (qi_src x ! i)) m"
  shows "advance rank c (set_inst c (retarget m i x)) True"
proof -
  let ?y = "retarget m i x"
  have i3: "i < 3" using i nsrc_le [of x] by simp
  note len = opt_okD(2) [OF ok x]
  have m': "m \<in> insts_of c" "copy_mov m" using m by (auto simp: available_def)
  have rw: "rewritten x ?y" using retarget_rewritten [OF m'(2) t] len i3 by simp
  have src: "qi_src ?y ! j = (if j = i then qi_src m ! 0 else qi_src x ! j)" if "j < 3" for j
    using len that i3 by (simp add: retarget_simps nth_list_update)
  have b: "q_index (qi_src ?y ! j) < num_temps c" if "j < 3" "q_file (qi_src ?y ! j) = QFILE_TEMP" for j
    using that src [OF that(1)] opt_okD(3) [OF ok x that(1)] opt_okD(3) [OF ok m'(1), of 0] by (auto split: if_splits)
  note R = set_inst_refines [OF ok x rw b] and S = strip_eqD [OF rewritten_strip [OF rw]]
  have "weight rank (set_inst c ?y) < weight rank c" if o: "ordered_copies rank c"
  proof -
    have j3: "j < 3" if "j < vir_get_nsrc x" for j using that nsrc_le [of x] by simp
    have "(\<Sum>j < vir_get_nsrc x. src_rank rank (qi_src ?y ! j)) < (\<Sum>j < vir_get_nsrc x. src_rank rank (qi_src x ! j))"
      by (rule sum_strict_mono_ex1) (use i src j3 retarget_ordered(2) [OF ok x i3 t m o] in \<open>auto simp: less_imp_le\<close>)
    then have "inst_weight rank ?y < inst_weight rank x" using S(1,4) by (simp add: inst_weight_def)
    then show ?thesis using weight_set_inst [OF ok x S(3), of rank] by linarith
  qed
  then show ?thesis using R retarget_ordered(1) [OF ok x i3 t m] by (auto simp: advance_def)
qed

section \<open>The pass\<close>

lemma refines_inst:
  assumes "refines c c'" "x \<in> insts_of c"
  shows "\<exists>y\<in>insts_of c'. qi_addr y = qi_addr x \<and> vir_get_nsrc y = vir_get_nsrc x \<and> rewritten x y"
proof -
  obtain y where "y \<in> insts_of c'" "rewritten x y" using assms by (auto simp: refines_def)
  then show ?thesis using strip_eqD(1,3) [OF rewritten_strip] by blast
qed

lemma movs_ok_refines:
  assumes ok: "opt_ok c" and r: "refines c c'" and mv: "movs_ok c movs"
  shows "movs_ok c' movs"
proof -
  have "skel c' = skel c" using r by (simp add: refines_def)
  note n = skel_fields(1) [OF this]
  have "\<exists>m\<in>insts_of c'. qi_addr m = p \<and> copy_mov m \<and> q_index (qi_dst m) = t" if d: "t < num_temps c" "movs ! t = Some p" for t p
  proof -
    obtain m where m: "m \<in> insts_of c" "qi_addr m = p" "copy_mov m" "q_index (qi_dst m) = t" using mv d unfolding movs_ok_def by blast
    obtain m' where m': "m' \<in> insts_of c'" "qi_addr m' = qi_addr m" "rewritten m m'" using refines_inst [OF r m(1)] by blast
    then show ?thesis
      using m rewritten_copy_mov [OF m'(3) opt_okD(2) [OF ok m(1)]] strip_eqD(4) [OF rewritten_strip [OF m'(3)]] by auto
  qed
  then show ?thesis using mv n by (auto simp: movs_ok_def)
qed

lemma copy_prop_src_advance:
  assumes ok: "opt_ok c" and mv: "movs_ok c movs" and x: "x \<in> insts_of c" and i: "i < vir_get_nsrc x"
  shows "\<exists>c' ch. copy_prop_src (qi_addr x) movs i (c, progress) = ret (c', ch \<or> progress) \<and> advance rank c c' ch"
  using copy_prop_src_ok [OF assms, of progress]
proof (elim disjE exE conjE)
  assume "copy_prop_src (qi_addr x) movs i (c, progress) = ret (c, progress)"
  then show ?thesis using advance_refl [OF ok] by (intro exI [of _ c] exI [of _ False]) simp
next
  fix m assume m: "q_file (qi_src x ! i) = QFILE_TEMP" "available c movs (q_index (qi_src x ! i)) m"
    and "copy_prop_src (qi_addr x) movs i (c, progress) = ret (set_inst c (retarget m i x), True)"
  then show ?thesis using retarget_advance [OF ok x i m] by (intro exI [of _ "set_inst c (retarget m i x)"] exI [of _ True]) simp
qed

text \<open>A loop whose steps advance every program that refines the first one.\<close>

lemma fold_advance:
  assumes "\<And>x c' progress. x \<in> set xs \<Longrightarrow> refines c0 c' \<Longrightarrow> opt_ok c' \<Longrightarrow>
      \<exists>c'' ch. f x (c', progress) = ret (c'', ch \<or> progress) \<and> advance rank c' c'' ch"
    and "opt_ok c" "refines c0 c"
  shows "\<exists>c' ch. fold_run f xs (c, progress) = ret (c', ch \<or> progress) \<and> advance rank c c' ch"
  using assms
proof (induction xs arbitrary: c progress)
  case Nil
  then show ?case using advance_refl by auto
next
  case (Cons x xs)
  obtain c1 ch1 where s: "f x (c, progress) = ret (c1, ch1 \<or> progress)" "advance rank c c1 ch1"
    using Cons.prems(1) [of x c progress] Cons.prems(2,3) by auto
  have c1: "opt_ok c1" "refines c0 c1" using s(2) refines_trans [OF Cons.prems(3)] by (auto simp: advance_def)
  have "\<exists>c' ch. fold_run f xs (c1, ch1 \<or> progress) = ret (c', ch \<or> ch1 \<or> progress) \<and> advance rank c1 c' ch"
    by (rule Cons.IH [OF _ c1]) (rule Cons.prems(1); simp)
  then obtain c2 ch2 where r: "fold_run f xs (c1, ch1 \<or> progress) = ret (c2, ch2 \<or> ch1 \<or> progress)" "advance rank c1 c2 ch2" by blast
  have "fold_run f (x # xs) (c, progress) = ret (c2, (ch1 \<or> ch2) \<or> progress)" using s(1) r(1) by (auto simp: disj_ac)
  then show ?case using advance_trans [OF s(2) r(2)] by blast
qed

lemma try_copy_prop_advance:
  assumes ok: "opt_ok c" and mv: "movs_ok c movs" and x: "x \<in> insts_of c"
  shows "\<exists>c' ch. try_copy_prop c (qi_addr x) movs = ret (c', ch) \<and> advance rank c c' ch"
proof -
  have "\<exists>c' ch. fold_run (copy_prop_src (qi_addr x) movs) [0..<vir_get_nsrc x] (c, False) = ret (c', ch \<or> False) \<and> advance rank c c' ch"
  proof (rule fold_advance [OF _ ok refines_refl])
    fix i c' progress assume i: "i \<in> set [0..<vir_get_nsrc x]" and c': "refines c c'" "opt_ok c'"
    obtain y where y: "y \<in> insts_of c'" "qi_addr y = qi_addr x" "vir_get_nsrc y = vir_get_nsrc x" using refines_inst [OF c'(1) x] by blast
    then show "\<exists>c'' ch. copy_prop_src (qi_addr x) movs i (c', progress) = ret (c'', ch \<or> progress) \<and> advance rank c' c'' ch"
      using copy_prop_src_advance [OF c'(2) movs_ok_refines [OF ok c'(1) mv] y(1)] i by simp
  qed
  then show ?thesis using opt_okD(1) [OF ok x] by (simp add: try_copy_prop_def)
qed

text \<open>The moves that a write to the temporary \<open>d\<close> ends.\<close>

definition ends_mov :: "nat \<Rightarrow> qinst \<Rightarrow> bool" where
  "ends_mov d m \<longleftrightarrow> q_index (qi_dst m) = d \<or> q_file (qi_src m ! 0) = QFILE_TEMP \<and> q_index (qi_src m ! 0) = d"

lemma apply_kills_ok:
  assumes ok: "opt_ok c" and mv: "movs_ok c movs"
  shows "\<exists>movs'. apply_kills c movs inst = ret movs' \<and> movs_ok c movs' \<and>
    (\<forall>t < num_temps c. \<forall>p. movs' ! t = Some p \<longrightarrow> movs ! t = Some p \<and>
      (\<forall>m\<in>insts_of c. qi_addr m = p \<and> q_file (qi_dst inst) = QFILE_TEMP \<longrightarrow> \<not> ends_mov (q_index (qi_dst inst)) m))"
proof (cases "q_file (qi_dst inst) = QFILE_TEMP")
  case False
  then show ?thesis using mv by (auto simp: apply_kills_def)
next
  case True
  let ?d = "q_index (qi_dst inst)"
  define m_at where "m_at t = (THE m. m \<in> insts_of c \<and> movs ! t = Some (qi_addr m))" for t
  have at: "m_at t \<in> insts_of c" "qi_addr (m_at t) = p" "copy_mov (m_at t)" "q_index (qi_dst (m_at t)) = t"
    if t: "t < num_temps c" "movs ! t = Some p" for t p
  proof -
    obtain m where m: "m \<in> insts_of c" "qi_addr m = p" "copy_mov m" "q_index (qi_dst m) = t" using mv t unfolding movs_ok_def by blast
    have "m_at t = m" unfolding m_at_def using m same_address [OF opt_okD(6) [OF ok]] t(2) by (intro the_equality) auto
    then show "m_at t \<in> insts_of c" "qi_addr (m_at t) = p" "copy_mov (m_at t)" "q_index (qi_dst (m_at t)) = t" using m by auto
  qed
  define movs' where "movs' = map (\<lambda>t. if movs ! t \<noteq> None \<and> ends_mov ?d (m_at t) then None else movs ! t) [0..<num_temps c]"
  have "apply_kills c movs inst = ret movs'"
    unfolding apply_kills_def movs'_def using True
  proof (simp, intro map_run_ret)
    fix t assume "t \<in> set [0..<num_temps c]"
    then have t: "t < num_temps c" "t < length movs" using mv by (auto simp: movs_ok_def)
    show "bind_run (fetch movs t) (\<lambda>m. bind_run (deref c m) (\<lambda>mov. case mov of None \<Rightarrow> ret None | Some x \<Rightarrow>
        bind_run (fetch (qi_src x) 0) (\<lambda>s. ret (if q_index (qi_dst x) = ?d \<or> (q_file s = QFILE_TEMP \<and> q_index s = ?d) then None else m)))) =
      ret (if (\<exists>y. movs ! t = Some y) \<and> ends_mov ?d (m_at t) then None else movs ! t)"
    proof (cases "movs ! t")
      case (Some p)
      note A = at [OF t(1) Some]
      show ?thesis using t(2) Some opt_okD(1,2) [OF ok A(1)] A(2) by (simp add: deref_def ends_mov_def)
    qed (use t(2) in \<open>simp add: deref_def\<close>)
  qed
  moreover have old: "movs ! t = Some p \<and> \<not> ends_mov ?d (m_at t)" if "t < num_temps c" "movs' ! t = Some p" for t p
    using that by (auto simp: movs'_def split: if_splits)
  moreover have "length movs' = num_temps c" by (simp add: movs'_def)
  then have "movs_ok c movs'" using mv old unfolding movs_ok_def by blast
  moreover have "\<not> ends_mov ?d m" if "t < num_temps c" "movs' ! t = Some p" "m \<in> insts_of c" "qi_addr m = p" for t p m
  proof -
    have "movs ! t = Some p" using old [OF that(1,2)] ..
    note A = at [OF that(1) this]
    have "m_at t = m" using same_address [OF opt_okD(6) [OF ok] that(3) A(1)] A(2) that(4) by simp
    then show ?thesis using old [OF that(1,2)] by simp
  qed
  ultimately show ?thesis by (intro exI [of _ movs']) blast
qed

end
