(* ===== verification/Vir_Opt_Copy.thy ===== *)
theory Vir_Opt_Copy
  imports Vir_Opt_Inv
begin

text \<open>
  The copy propagation pass ends without a fault on every well-formed program.
\<close>

lemma advanceD:
  assumes "advance rank c c' ch"
  shows "opt_ok c'" "refines c c'" "skel c' = skel c" "num_temps c' = num_temps c" "length (c_blocks c') = length (c_blocks c)"
  using assms skel_fields(1,4) [of c' c] unfolding advance_def refines_def by auto

lemma copy_prop_inst_advance:
  assumes ok: "opt_ok c" and mv: "movs_ok c movs" and x: "x \<in> insts_of c"
  shows "\<exists>c' movs' ch. copy_prop_inst (qi_addr x) (c, movs, progress) = ret (c', movs', ch \<or> progress) \<and> advance rank c c' ch \<and> movs_ok c' movs'"
proof -
  obtain c1 ch where s: "try_copy_prop c (qi_addr x) movs = ret (c1, ch)" "advance rank c c1 ch"
    using try_copy_prop_advance [OF assms] by blast
  note A = advanceD [OF s(2)]
  obtain y where y: "y \<in> insts_of c1" "qi_addr y = qi_addr x" using refines_inst [OF A(2) x] by blast
  obtain movs1 where k: "apply_kills c1 movs y = ret movs1" "movs_ok c1 movs1"
    using apply_kills_ok [OF A(1) movs_ok_refines [OF ok A(2) mv]] by blast
  note cm = is_copy_mov_eq [OF opt_okD(2) [OF A(1) y(1)]] and at = opt_okD(1) [OF A(1) y(1)]
  show ?thesis
  proof (cases "copy_mov y")
    case False
    then have "copy_prop_inst (qi_addr x) (c, movs, progress) = ret (c1, movs1, ch \<or> progress)"
      using s(1) k(1) cm at y(2) by (simp add: copy_prop_inst_def)
    then show ?thesis using s(2) k(2) by blast
  next
    case True
    let ?d = "q_index (qi_dst y)"
    have d: "?d < num_temps c1" using True opt_okD(4) [OF A(1) y(1)] by (simp add: copy_mov_def)
    then have l: "?d < length movs1" using k(2) by (simp add: movs_ok_def)
    have "copy_prop_inst (qi_addr x) (c, movs, progress) = ret (c1, movs1[?d := Some (qi_addr x)], ch \<or> progress)"
      using s(1) k(1) cm at y(2) True l by (simp add: copy_prop_inst_def update_at_def)
    moreover have "movs_ok c1 (movs1[?d := Some (qi_addr x)])"
      unfolding movs_ok_def
    proof (intro conjI allI impI)
      fix t p assume t: "t < num_temps c1" "movs1[?d := Some (qi_addr x)] ! t = Some p"
      show "\<exists>m\<in>insts_of c1. qi_addr m = p \<and> copy_mov m \<and> q_index (qi_dst m) = t"
      proof (cases "t = ?d")
        case eq: True
        then show ?thesis using t(2) l y True by auto
      next
        case False
        then show ?thesis using t k(2) unfolding movs_ok_def by auto
      qed
    qed (use k(2) in \<open>simp add: movs_ok_def\<close>)
    ultimately show ?thesis using s(2) by blast
  qed
qed

lemma copy_prop_insts_advance:
  assumes "opt_ok c" "movs_ok c movs" "set ps \<subseteq> qi_addr ` insts_of c"
  shows "\<exists>c' movs' ch. fold_run copy_prop_inst ps (c, movs, progress) = ret (c', movs', ch \<or> progress) \<and> advance rank c c' ch"
  using assms
proof (induction ps arbitrary: c movs progress)
  case Nil
  then show ?case using advance_refl by auto
next
  case (Cons p ps)
  obtain x where x: "x \<in> insts_of c" "p = qi_addr x" using Cons.prems(3) by auto
  obtain c1 movs1 ch1 where s: "copy_prop_inst p (c, movs, progress) = ret (c1, movs1, ch1 \<or> progress)" "advance rank c c1 ch1" "movs_ok c1 movs1"
    using copy_prop_inst_advance [OF Cons.prems(1,2) x(1)] x(2) by blast
  note A = advanceD [OF s(2)]
  have "qi_addr ` insts_of c1 = qi_addr ` insts_of c" using skel_fields(6) [OF A(3)] unfolding insts_of_def by (metis image_set)
  then have "set ps \<subseteq> qi_addr ` insts_of c1" using Cons.prems(3) by simp
  from Cons.IH [OF A(1) s(3) this, of "ch1 \<or> progress"] obtain c2 movs2 ch2 where
    r: "fold_run copy_prop_inst ps (c1, movs1, ch1 \<or> progress) = ret (c2, movs2, ch2 \<or> ch1 \<or> progress)" "advance rank c1 c2 ch2" by blast
  have "fold_run copy_prop_inst (p # ps) (c, movs, progress) = ret (c2, movs2, (ch1 \<or> ch2) \<or> progress)"
    using s(1) r(1) by (simp add: disj_ac)
  then show ?case using advance_trans [OF s(2) r(2)] by blast
qed

lemma copy_prop_block_advance:
  assumes ok: "opt_ok c" and b: "b < length (c_blocks c)"
  shows "\<exists>c' ch. copy_prop_block b (c, progress) = ret (c', ch \<or> progress) \<and> advance rank c c' ch"
proof -
  have "movs_ok c (replicate (num_temps c) None)" by (simp add: movs_ok_def)
  moreover have "set (map qi_addr (qb_instructions (c_blocks c ! b))) \<subseteq> qi_addr ` insts_of c"
    using nth_mem [OF b] by (auto simp: insts_of_def)
  ultimately obtain c' movs' ch where
    "fold_run copy_prop_inst (map qi_addr (qb_instructions (c_blocks c ! b))) (c, replicate (num_temps c) None, progress) = ret (c', movs', ch \<or> progress)"
    "advance rank c c' ch"
    using copy_prop_insts_advance [OF ok] by blast
  then show ?thesis using b by (intro exI [of _ c'] exI [of _ ch]) (simp add: copy_prop_block_def)
qed

lemma copy_propagate_advance:
  assumes "opt_ok c"
  shows "\<exists>c' ch. vir_opt_copy_propagate c = ret (c', ch) \<and> advance rank c c' ch"
proof -
  have "\<exists>c' ch. fold_run copy_prop_block [0..<length (c_blocks c)] (c, False) = ret (c', ch \<or> False) \<and> advance rank c c' ch"
  proof (rule fold_advance [OF _ assms refines_refl])
    fix b c' progress assume b: "b \<in> set [0..<length (c_blocks c)]" and c': "refines c c'" "opt_ok c'"
    have "length (c_blocks c') = length (c_blocks c)" using c'(1) skel_fields(4) unfolding refines_def by blast
    then show "\<exists>c'' ch. copy_prop_block b (c', progress) = ret (c'', ch \<or> progress) \<and> advance rank c' c'' ch"
      using copy_prop_block_advance [OF c'(2)] b by simp
  qed
  then show ?thesis by (simp add: vir_opt_copy_propagate_def)
qed

end
