(* ===== verification/Vir_Opt_Dead.thy ===== *)
theory Vir_Opt_Dead
  imports Vir_Opt_Copy Vir_Scan
begin

text \<open>
  Dead code elimination: which instructions lose their destination, which are removed, and that the pass
  keeps programs well formed and never faults.
\<close>

section \<open>Used temporaries\<close>

lemma mark_inst_ok:
  assumes "length used = n" "set ids \<subseteq> {..<3}" "inst_wf c x" "num_temps c = n"
  shows "\<exists>used'. fold_run (\<lambda>i used. bind_run (fetch (qi_src x) i) (\<lambda>src.
      if q_file src = QFILE_TEMP then update_at (\<lambda>_. True) used (q_index src) else ret used)) ids used = ret used' \<and> length used' = n \<and>
    (\<forall>t < n. used' ! t \<longleftrightarrow> used ! t \<or> (\<exists>i\<in>set ids. q_file (qi_src x ! i) = QFILE_TEMP \<and> q_index (qi_src x ! i) = t))"
  using assms
proof (induction ids arbitrary: used)
  case (Cons i ids)
  let ?s = "qi_src x ! i"
  have i: "i < length (qi_src x)" and b: "q_file ?s = QFILE_TEMP \<Longrightarrow> q_index ?s < n"
    using Cons.prems(2-4) by (auto simp: inst_wf_def)
  define used1 where "used1 = (if q_file ?s = QFILE_TEMP then used[q_index ?s := True] else used)"
  have l: "length used1 = n" using Cons.prems(1) by (simp add: used1_def)
  obtain used' where u: "fold_run (\<lambda>i used. bind_run (fetch (qi_src x) i) (\<lambda>src.
      if q_file src = QFILE_TEMP then update_at (\<lambda>_. True) used (q_index src) else ret used)) ids used1 = ret used'" "length used' = n"
    "\<forall>t < n. used' ! t \<longleftrightarrow> used1 ! t \<or> (\<exists>i\<in>set ids. q_file (qi_src x ! i) = QFILE_TEMP \<and> q_index (qi_src x ! i) = t)"
    using Cons.IH [OF l _ Cons.prems(3,4)] Cons.prems(2) by auto
  have "used1 ! t \<longleftrightarrow> used ! t \<or> (q_file ?s = QFILE_TEMP \<and> q_index ?s = t)" if "t < n" for t
    using that b Cons.prems(1) by (auto simp: used1_def nth_list_update)
  then show ?case using u i b Cons.prems(1) by (intro exI [of _ used']) (auto simp: used1_def update_at_def)
qed simp

lemma mark_used_ok:
  assumes "opt_ok c"
  shows "\<exists>used. mark_used c = ret used \<and> length used = num_temps c \<and>
    (\<forall>t < num_temps c. used ! t \<longleftrightarrow> (\<exists>x\<in>insts_of c. reads_temp x t))"
proof -
  let ?n = "num_temps c"
  have gen: "\<exists>used'. fold_run (\<lambda>inst. fold_run (\<lambda>i used. bind_run (fetch (qi_src inst) i) (\<lambda>src.
      if q_file src = QFILE_TEMP then update_at (\<lambda>_. True) used (q_index src) else ret used)) [0..<vir_get_nsrc inst]) xs used = ret used' \<and>
      length used' = ?n \<and> (\<forall>t < ?n. used' ! t \<longleftrightarrow> used ! t \<or> (\<exists>x\<in>set xs. reads_temp x t))"
    if "\<And>x. x \<in> set xs \<Longrightarrow> inst_wf c x" "length used = ?n" for xs used
    using that
  proof (induction xs arbitrary: used)
    case (Cons x xs)
    have "set [0..<vir_get_nsrc x] \<subseteq> {..<3}" using nsrc_le [of x] by auto
    moreover have "inst_wf c x" using Cons.prems(1) by simp
    ultimately obtain used1 where
      u1: "fold_run (\<lambda>i used. bind_run (fetch (qi_src x) i) (\<lambda>src.
        if q_file src = QFILE_TEMP then update_at (\<lambda>_. True) used (q_index src) else ret used)) [0..<vir_get_nsrc x] used = ret used1"
        "length used1 = ?n" "\<forall>t < ?n. used1 ! t \<longleftrightarrow> used ! t \<or> reads_temp x t"
      using mark_inst_ok [of used ?n "[0..<vir_get_nsrc x]" c x] Cons.prems(2) by (auto simp: reads_temp_def Bex_def)
    from Cons.IH [OF _ u1(2)] Cons.prems(1) show ?case using u1(1,3) by auto
  qed simp
  show ?thesis using gen [of "code c" "replicate ?n False"] opt_okD(7) [OF assms] by (auto simp: mark_used_def insts_of_def)
qed

section \<open>One instruction\<close>

definition null_dst :: "qinst \<Rightarrow> qinst" where
  "null_dst x = x\<lparr>qi_dst := (qi_dst x)\<lparr>q_file := QFILE_NULL\<rparr>\<rparr>"

definition unused_dst :: "bool list \<Rightarrow> qinst \<Rightarrow> bool" where
  "unused_dst used x \<longleftrightarrow> q_file (qi_dst x) = QFILE_NULL \<or> q_file (qi_dst x) = QFILE_TEMP \<and> \<not> used ! q_index (qi_dst x)"

text \<open>What a removed instruction is: it does nothing but compute a value that nobody reads.\<close>

definition removable :: "u8 list \<Rightarrow> bool list \<Rightarrow> qinst \<Rightarrow> bool" where
  "removable sizes used x \<longleftrightarrow> unused_dst used x \<and> \<not> vir_has_side_effects x \<and>
     apf (flags (qi_qpu x)) = V3D_QPU_PF_NONE \<and> mpf (flags (qi_qpu x)) = V3D_QPU_PF_NONE \<and>
     (\<forall>i < vir_get_nsrc x. q_file (qi_src x ! i) \<noteq> QFILE_VARY \<and>
        (q_file (qi_src x ! i) = QFILE_VPM \<longrightarrow> unat (sizes ! (q_index (qi_src x ! i) div 4)) = q_index (qi_src x ! i) mod 4))"

text \<open>What keeps an instruction whose value nobody reads: it pushes flags, or it may have to read a varying or the VPM.\<close>

definition held :: "qinst \<Rightarrow> bool" where
  "held x \<longleftrightarrow> apf (flags (qi_qpu x)) \<noteq> V3D_QPU_PF_NONE \<or> mpf (flags (qi_qpu x)) \<noteq> V3D_QPU_PF_NONE \<or>
     (\<exists>i < vir_get_nsrc x. q_file (qi_src x ! i) \<in> {QFILE_VARY, QFILE_VPM})"

lemma nonremovable_reads_ok:
  assumes "inst_wf c x" "set ids \<subseteq> {..<vir_get_nsrc x}"
  shows "\<exists>r. nonremovable_reads c x ids = ret r \<and> (r \<longrightarrow> (\<exists>i\<in>set ids. q_file (qi_src x ! i) \<in> {QFILE_VARY, QFILE_VPM})) \<and> (\<not> r \<longrightarrow> (\<forall>i\<in>set ids. q_file (qi_src x ! i) \<noteq> QFILE_VARY \<and>
    (q_file (qi_src x ! i) = QFILE_VPM \<longrightarrow> q_index (qi_src x ! i) div 4 < length (vattr_sizes c) \<and>
      unat (vattr_sizes c ! (q_index (qi_src x ! i) div 4)) = q_index (qi_src x ! i) mod 4)))"
  using assms(2)
proof (induction ids)
  case Nil
  then show ?case by (intro exI [of _ False]) simp
next
  case (Cons i ids)
  obtain r where r: "nonremovable_reads c x ids = ret r" "r \<longrightarrow> (\<exists>i\<in>set ids. q_file (qi_src x ! i) \<in> {QFILE_VARY, QFILE_VPM})" "\<not> r \<longrightarrow> (\<forall>i\<in>set ids. q_file (qi_src x ! i) \<noteq> QFILE_VARY \<and>
    (q_file (qi_src x ! i) = QFILE_VPM \<longrightarrow> q_index (qi_src x ! i) div 4 < length (vattr_sizes c) \<and>
      unat (vattr_sizes c ! (q_index (qi_src x ! i) div 4)) = q_index (qi_src x ! i) mod 4))" using Cons by auto
  let ?s = "qi_src x ! i"
  have i: "i < length (qi_src x)" "q_file ?s = QFILE_VPM \<Longrightarrow> q_index ?s = UINT_MAX \<or> q_index ?s div 4 < length (vattr_sizes c)"
    using assms(1) Cons.prems nsrc_le [of x] by (auto simp: inst_wf_def)
  define bad where "bad \<longleftrightarrow> q_file ?s = QFILE_VARY \<or> q_file ?s = QFILE_VPM \<and> (q_index ?s = UINT_MAX \<or>
    unat (vattr_sizes c ! (q_index ?s div 4)) \<noteq> q_index ?s mod 4 \<or> sum_list (map ucast (vattr_sizes c)) = (1 :: u32))"
  consider "q_file ?s = QFILE_VPM" "q_index ?s = UINT_MAX" | "q_file ?s = QFILE_VPM" "q_index ?s \<noteq> UINT_MAX" "q_index ?s div 4 < length (vattr_sizes c)"
    | "q_file ?s \<noteq> QFILE_VPM" using i(2) by blast
  then have "nonremovable_reads c x (i # ids) = ret (bad \<or> r)" using i(1) r(1) by cases (auto simp: bad_def)
  then show ?case using r(2,3) i(2) by (intro exI [of _ "bad \<or> r"]) (auto simp: bad_def)
qed

definition cleared :: "v3d_compile \<Rightarrow> qinst \<Rightarrow> v3d_compile \<Rightarrow> bool" where
  "cleared c x c' \<longleftrightarrow> c_blocks c' = c_blocks c \<and> num_temps c' = num_temps c \<and> length (vattr_sizes c') = length (vattr_sizes c) \<and>
     c_defs c' = (if q_file (qi_dst x) = QFILE_TEMP then (c_defs c)[q_index (qi_dst x) := None] else c_defs c) \<and>
     ((\<forall>i < vir_get_nsrc x. q_file (qi_src x ! i) \<noteq> QFILE_VPM) \<longrightarrow> vattr_sizes c' = vattr_sizes c)"

lemma drop_reads_ok:
  assumes "inst_wf c x" "set ids \<subseteq> {..<vir_get_nsrc x}"
    and "\<And>i. i \<in> set ids \<Longrightarrow> q_file (qi_src x ! i) = QFILE_VPM \<Longrightarrow> q_index (qi_src x ! i) div 4 < length (vattr_sizes c)"
  shows "\<exists>v m. fold_run (drop_read x) ids c = ret (c\<lparr>num_inputs := m, vattr_sizes := v\<rparr>) \<and> length v = length (vattr_sizes c) \<and>
    ((\<forall>i\<in>set ids. q_file (qi_src x ! i) \<noteq> QFILE_VPM) \<longrightarrow> v = vattr_sizes c)"
  using assms
proof (induction ids arbitrary: c)
  case Nil
  then show ?case by (intro exI [of _ "vattr_sizes c"] exI [of _ "num_inputs c"]) simp
next
  case (Cons i ids)
  let ?s = "qi_src x ! i"
  have i: "i < length (qi_src x)" using Cons.prems(1,2) nsrc_le [of x] by (auto simp: inst_wf_def)
  obtain m1 v1 where s: "drop_read x i c = ret (c\<lparr>num_inputs := m1, vattr_sizes := v1\<rparr>)" "length v1 = length (vattr_sizes c)"
    "q_file ?s \<noteq> QFILE_VPM \<longrightarrow> v1 = vattr_sizes c"
  proof (cases "q_file ?s = QFILE_VPM \<and> unat (vattr_sizes c ! (q_index ?s div 4)) = q_index ?s mod 4")
    case True
    then show ?thesis using i Cons.prems(3) [of i]
      by (intro that [of "(vattr_sizes c)[q_index ?s div 4 := vattr_sizes c ! (q_index ?s div 4) - 1]" "num_inputs c - 1"])
        (simp_all add: drop_read_def)
  next
    case False
    then show ?thesis using i Cons.prems(3) [of i] by (intro that [of "vattr_sizes c" "num_inputs c"]) (auto simp: drop_read_def)
  qed
  let ?c = "c\<lparr>num_inputs := m1, vattr_sizes := v1\<rparr>"
  have "inst_wf ?c x" using Cons.prems(1) s(2) by (simp add: inst_wf_def)
  from Cons.IH [OF this] Cons.prems(2,3) s(2) obtain v m where
    "fold_run (drop_read x) ids ?c = ret (c\<lparr>num_inputs := m, vattr_sizes := v\<rparr>)" "length v = length (vattr_sizes c)"
    "(\<forall>i\<in>set ids. q_file (qi_src x ! i) \<noteq> QFILE_VPM) \<longrightarrow> v = v1" by auto
  then show ?case using s by auto
qed

lemma dead_inst_ok:
  assumes ok: "opt_ok c" and x: "x \<in> insts_of c" and u: "length used = num_temps c"
  shows "(dead_inst used x (c, progress) = ret (c, progress) \<and> (unused_dst used x \<longrightarrow> vir_has_side_effects x \<or> q_file (qi_dst x) = QFILE_NULL \<and> held x)) \<or>
    (\<exists>c'. dead_inst used x (c, progress) = ret (set_inst c' (null_dst x), True) \<and> cleared c x c' \<and> vattr_sizes c' = vattr_sizes c \<and>
      q_file (qi_dst x) = QFILE_TEMP \<and> unused_dst used x \<and> \<not> vir_has_side_effects x \<and> held x) \<or>
    (\<exists>c'. dead_inst used x (c, progress) = ret (list_del c' x, True) \<and> cleared c x c' \<and> removable (vattr_sizes c) used x)"
proof (cases "unused_dst used x \<and> \<not> vir_has_side_effects x")
  case False
  then have "dead_inst used x (c, progress) = ret (c, progress)"
    using u opt_okD(4) [OF ok x] by (auto simp: dead_inst_def unused_dst_def)
  then show ?thesis using False by blast
next
  case True
  have un: "(if q_file (qi_dst x) = QFILE_NULL then ret True
       else if q_file (qi_dst x) = QFILE_TEMP then bind_run (fetch used (q_index (qi_dst x))) (\<lambda>u. ret (\<not> u))
       else ret False) = ret True" using True u opt_okD(4) [OF ok x] by (auto simp: unused_dst_def)
  have sub: "set [0..<vir_get_nsrc x] \<subseteq> {..<vir_get_nsrc x}" by auto
  note wf = opt_okD(7) [OF ok x]
  obtain r where r0: "nonremovable_reads c x [0..<vir_get_nsrc x] = ret r" "r \<longrightarrow> (\<exists>i\<in>set [0..<vir_get_nsrc x]. q_file (qi_src x ! i) \<in> {QFILE_VARY, QFILE_VPM})"
    "\<not> r \<longrightarrow> (\<forall>i\<in>set [0..<vir_get_nsrc x]. q_file (qi_src x ! i) \<noteq> QFILE_VARY \<and>
    (q_file (qi_src x ! i) = QFILE_VPM \<longrightarrow> q_index (qi_src x ! i) div 4 < length (vattr_sizes c) \<and>
      unat (vattr_sizes c ! (q_index (qi_src x ! i) div 4)) = q_index (qi_src x ! i) mod 4))"
    using nonremovable_reads_ok [OF wf sub] by blast
  have r: "has_nonremovable_reads c x = ret r" "r \<Longrightarrow> \<exists>i < vir_get_nsrc x. q_file (qi_src x ! i) \<in> {QFILE_VARY, QFILE_VPM}"
    "\<not> r \<Longrightarrow> i < vir_get_nsrc x \<Longrightarrow> q_file (qi_src x ! i) \<noteq> QFILE_VARY \<and>
    (q_file (qi_src x ! i) = QFILE_VPM \<longrightarrow> q_index (qi_src x ! i) div 4 < length (vattr_sizes c) \<and>
      unat (vattr_sizes c ! (q_index (qi_src x ! i) div 4)) = q_index (qi_src x ! i) mod 4)" for i
    using r0(1) r0(2) r0(3) [rule_format, of i] by (auto simp: has_nonremovable_reads_def)
  have l: "q_file (qi_dst x) = QFILE_TEMP \<Longrightarrow> q_index (qi_dst x) < length (c_defs c)" using opt_okD(4,5) [OF ok] x by fastforce
  let ?fl = "apf (flags (qi_qpu x)) \<noteq> V3D_QPU_PF_NONE \<or> mpf (flags (qi_qpu x)) \<noteq> V3D_QPU_PF_NONE"
  have held: "held x" if "?fl \<or> r" using that r(2) unfolding held_def by blast
  have keep: "(if ?fl then ret True else has_nonremovable_reads c x) = ret (?fl \<or> r)" using r(1) by simp
  consider (null) "?fl \<or> r" "q_file (qi_dst x) = QFILE_TEMP" | (same) "?fl \<or> r" "q_file (qi_dst x) = QFILE_NULL" | (drop) "\<not> (?fl \<or> r)"
    using True by (auto simp: unused_dst_def)
  then show ?thesis
  proof cases
    case null
    let ?c = "c\<lparr>c_defs := (c_defs c)[q_index (qi_dst x) := None]\<rparr>"
    have "dead_inst used x (c, progress) = ret (set_inst ?c (null_dst x), True)"
      unfolding dead_inst_def prod.case un keep using True null l by (simp add: clear_def_def update_at_def null_dst_def)
    moreover have "cleared c x ?c" using null(2) by (simp add: cleared_def)
    ultimately show ?thesis using True null held by (intro disjI2 disjI1 exI [of _ ?c]) simp
  next
    case same
    then have "dead_inst used x (c, progress) = ret (c, progress)" unfolding dead_inst_def prod.case un keep using True by simp
    then show ?thesis using same held by blast
  next
    case drop
    have "\<exists>v m. fold_run (drop_read x) [0..<vir_get_nsrc x] c = ret (c\<lparr>num_inputs := m, vattr_sizes := v\<rparr>) \<and>
      length v = length (vattr_sizes c) \<and> ((\<forall>i\<in>set [0..<vir_get_nsrc x]. q_file (qi_src x ! i) \<noteq> QFILE_VPM) \<longrightarrow> v = vattr_sizes c)"
      by (rule drop_reads_ok [OF wf sub]) (use r(3) drop in auto)
    then obtain v m where d: "fold_run (drop_read x) [0..<vir_get_nsrc x] c = ret (c\<lparr>num_inputs := m, vattr_sizes := v\<rparr>)"
      "length v = length (vattr_sizes c)" "(\<forall>i\<in>set [0..<vir_get_nsrc x]. q_file (qi_src x ! i) \<noteq> QFILE_VPM) \<longrightarrow> v = vattr_sizes c"
      by blast
    let ?c = "c\<lparr>num_inputs := m, vattr_sizes := v, c_defs := if q_file (qi_dst x) = QFILE_TEMP then (c_defs c)[q_index (qi_dst x) := None] else c_defs c\<rparr>"
    have "dead_inst used x (c, progress) = ret (list_del ?c x, True)"
      unfolding dead_inst_def prod.case un keep using True drop l d(1)
      by (simp add: dce_def vir_remove_instruction_def clear_def_def update_at_def)
    moreover have "cleared c x ?c" using d(2,3) by (simp add: cleared_def)
    moreover have "removable (vattr_sizes c) used x" using True drop r(3) by (simp add: removable_def)
    ultimately show ?thesis by (intro disjI2 exI [of _ ?c]) simp
  qed
qed

section \<open>Steps keep programs well formed\<close>

lemma null_dst_simps [simp]: "qi_addr (null_dst x) = qi_addr x" "qi_src (null_dst x) = qi_src x" "q_file (qi_dst (null_dst x)) = QFILE_NULL"
  "qi_qpu (null_dst x) = qi_qpu x" "qi_has_implicit_uniform (null_dst x) = qi_has_implicit_uniform x"
  by (simp_all add: null_dst_def)

lemma null_dst_nsrc:
  assumes "q_file (qi_dst x) = QFILE_TEMP"
  shows "vir_get_nsrc (null_dst x) = vir_get_nsrc x" "vir_has_implicit_uniform (null_dst x) = vir_has_implicit_uniform x"
proof -
  show "vir_has_implicit_uniform (null_dst x) = vir_has_implicit_uniform x"
    using assms by (cases "instr_type (qi_qpu x)") (simp_all add: vir_has_implicit_uniform_def)
  then show "vir_get_nsrc (null_dst x) = vir_get_nsrc x"
    unfolding vir_get_nsrc_def vir_get_non_sideband_nsrc_def null_dst_simps by simp
qed

lemma clearedD:
  assumes "cleared c x c'"
  shows "insts_of c' = insts_of c" "code c' = code c" "inst_wf c' y = inst_wf c y"
proof -
  have b: "c_blocks c' = c_blocks c" using assms by (simp add: cleared_def)
  show "insts_of c' = insts_of c" "code c' = code c" unfolding insts_of_def by (simp_all add: b)
  show "inst_wf c' y = inst_wf c y" using assms by (simp add: inst_wf_def cleared_def)
qed

text \<open>What is left of the definitions when one instruction is cleared from the table.\<close>

lemma cleared_defs:
  assumes ok: "opt_ok c" and x: "x \<in> insts_of c" and cl: "cleared c x c'" and t: "t < num_temps c" "c_defs c' ! t = Some p"
  shows "\<exists>z\<in>insts_of c. z \<noteq> x \<and> qi_addr z = p \<and> q_file (qi_dst z) = QFILE_TEMP \<and> q_index (qi_dst z) = t"
proof -
  have "t < length (c_defs c)" using t(1) opt_okD(5) [OF ok] by simp
  then have d: "c_defs c ! t = Some p" "q_file (qi_dst x) = QFILE_TEMP \<Longrightarrow> q_index (qi_dst x) \<noteq> t"
    using cl t(2) by (cases "q_index (qi_dst x) = t"; auto simp: cleared_def split: if_splits)+
  then obtain z where "z \<in> insts_of c" "qi_addr z = p" "q_file (qi_dst z) = QFILE_TEMP" "q_index (qi_dst z) = t"
    using opt_okD(8) [OF ok] t(1) unfolding defs_ok_def by metis
  then show ?thesis using d(2) by (intro bexI [of _ z]) auto
qed

lemma cleared_defs_ok:
  assumes ok: "opt_ok c" and x: "x \<in> insts_of c" and cl: "cleared c x c'"
    and f: "num_temps c2 = num_temps c" "c_defs c2 = c_defs c'" "insts_of c - {x} \<subseteq> insts_of c2"
  shows "defs_ok c2"
proof -
  have "length (c_defs c') = length (c_defs c)" using cl by (simp add: cleared_def)
  then show ?thesis using opt_okD(5) [OF ok] cleared_defs [OF ok x cl] f unfolding defs_ok_def by (metis DiffI singletonD subsetD)
qed

lemma null_step:
  assumes ok: "opt_ok c" and x: "x \<in> insts_of c" and cl: "cleared c x c'" and t: "q_file (qi_dst x) = QFILE_TEMP"
  defines "c2 \<equiv> set_inst c' (null_dst x)"
  shows "opt_ok c2" "insts_of c2 = insert (null_dst x) (insts_of c - {x})" "weight rank c2 < weight rank c"
    "ordered_copies rank c \<Longrightarrow> ordered_copies rank c2"
proof -
  note C = clearedD [OF cl]
  have addr: "z = x" if "z \<in> insts_of c" "qi_addr z = qi_addr x" for z using same_address [OF opt_okD(6) [OF ok] x] that by simp
  show I: "insts_of c2 = insert (null_dst x) (insts_of c - {x})"
    using x addr C(1) by (auto simp: c2_def insts_of_set_inst set_eq_iff)
  have code: "code c2 = map (\<lambda>z. if qi_addr z = qi_addr x then null_dst x else z) (code c)"
    unfolding c2_def code_set_inst C(2) by simp
  have "map qi_addr (code c2) = map qi_addr (code c)" unfolding code by (simp add: comp_def)
  moreover have "inst_wf c2 y" if "y \<in> insts_of c2" for y
  proof -
    have "inst_wf c x" "inst_wf c y \<or> y = null_dst x" using that I opt_okD(7) [OF ok] x by auto
    then have "inst_wf c y" using null_dst_nsrc [OF t] by (auto simp: inst_wf_def)
    then show ?thesis using C(3) inst_wf_fields [OF set_inst_simps(1,3), of c' "null_dst x" y] by (simp add: c2_def)
  qed
  moreover have "defs_ok c2" by (rule cleared_defs_ok [OF ok x cl]) (use I cl in \<open>auto simp: c2_def cleared_def\<close>)
  ultimately show "opt_ok c2" using opt_okD(6) [OF ok] by (simp add: opt_ok_def)
  have "weight rank c2 + inst_weight rank x = weight rank c + inst_weight rank (null_dst x)"
    using weight_set_inst [OF ok x, of "null_dst x" rank] unfolding weight_def code code_set_inst by simp
  moreover have "inst_weight rank (null_dst x) < inst_weight rank x" using t null_dst_nsrc(1) [OF t] by (simp add: inst_weight_def)
  ultimately show "weight rank c2 < weight rank c" by linarith
  show "ordered_copies rank c2" if "ordered_copies rank c" using that I by (auto simp: ordered_copies_def copy_mov_def)
qed

lemma drop_step:
  assumes ok: "opt_ok c" and x: "x \<in> insts_of c" and cl: "cleared c x c'"
  defines "c2 \<equiv> list_del c' x"
  shows "opt_ok c2" "insts_of c2 = insts_of c - {x}" "weight rank c2 < weight rank c"
    "ordered_copies rank c \<Longrightarrow> ordered_copies rank c2"
proof -
  note C = clearedD [OF cl]
  have addr: "z = x" if "z \<in> insts_of c" "qi_addr z = qi_addr x" for z using same_address [OF opt_okD(6) [OF ok] x] that by simp
  have code: "code c2 = filter (\<lambda>z. qi_addr z \<noteq> qi_addr x) (code c)" unfolding c2_def code_list_del C(2) by simp
  then show I: "insts_of c2 = insts_of c - {x}" unfolding insts_of_def code using addr by (auto simp: insts_of_def simp del: set_concat)
  have f: "num_temps c2 = num_temps c" "c_defs c2 = c_defs c'" "length (vattr_sizes c2) = length (vattr_sizes c)"
    using cl by (simp_all add: c2_def list_del_def cleared_def)
  have "inst_wf c2 y" if "y \<in> insts_of c2" for y
    using that I opt_okD(7) [OF ok, of y] f by (simp add: inst_wf_def)
  moreover have "defs_ok c2" by (rule cleared_defs_ok [OF ok x cl]) (simp_all add: f I)
  moreover have "distinct (map qi_addr (code c2))" unfolding code by (rule distinct_map_filter [OF opt_okD(6) [OF ok]])
  ultimately show "opt_ok c2" by (simp add: opt_ok_def)
  obtain ys zs where s: "code c = ys @ x # zs" using x unfolding insts_of_def by (meson split_list)
  have "weight rank c2 \<le> sum_list (map (inst_weight rank) (ys @ zs))"
    unfolding weight_def code s by (simp add: add_mono sum_list_filter_le_nat)
  moreover have "0 < inst_weight rank x" by (simp add: inst_weight_def)
  ultimately show "weight rank c2 < weight rank c" unfolding weight_def s by simp
  show "ordered_copies rank c2" if "ordered_copies rank c" using that I by (auto simp: ordered_copies_def)
qed

end
