(* ===== verification/Vir_Opt_Pass.thy ===== *)
theory Vir_Opt_Pass
  imports Vir_Opt_Dead
begin

text \<open>
  The dead code pass as a whole, and the loop over the passes: it ends on programs whose copies can be
  ordered.
\<close>

section \<open>The fate of instructions\<close>

text \<open>The list that every instruction of the first program has become.\<close>

definition fated :: "(qinst \<Rightarrow> qinst list) \<Rightarrow> v3d_compile \<Rightarrow> v3d_compile \<Rightarrow> bool" where
  "fated fate c0 c \<longleftrightarrow> c_blocks c = map (\<lambda>b. b\<lparr>qb_instructions := concat (map fate (qb_instructions b))\<rparr>) (c_blocks c0)"

text \<open>Every read of a vertex attribute is within the size of the attribute.\<close>

definition vpm_sized :: "v3d_compile \<Rightarrow> bool" where
  "vpm_sized c \<longleftrightarrow> (\<forall>x\<in>insts_of c. \<forall>i < vir_get_nsrc x. q_file (qi_src x ! i) = QFILE_VPM \<longrightarrow>
     q_index (qi_src x ! i) mod 4 < unat (vattr_sizes c ! (q_index (qi_src x ! i) div 4)))"

definition dead :: "v3d_compile \<Rightarrow> bool list \<Rightarrow> qinst \<Rightarrow> bool" where
  "dead c used x \<longleftrightarrow> unused_dst used x \<and> \<not> vir_has_side_effects x \<and>
     apf (flags (qi_qpu x)) = V3D_QPU_PF_NONE \<and> mpf (flags (qi_qpu x)) = V3D_QPU_PF_NONE \<and>
     (\<forall>i < vir_get_nsrc x. q_file (qi_src x ! i) \<noteq> QFILE_VARY \<and> (vpm_sized c \<longrightarrow> q_file (qi_src x ! i) \<noteq> QFILE_VPM))"

definition settled :: "v3d_compile \<Rightarrow> bool list \<Rightarrow> (qinst \<Rightarrow> qinst list) \<Rightarrow> qinst \<Rightarrow> bool" where
  "settled c used fate x \<longleftrightarrow>
     fate x = [x] \<and> (unused_dst used x \<longrightarrow> vir_has_side_effects x \<or> q_file (qi_dst x) = QFILE_NULL \<and> held x) \<or>
     fate x = [null_dst x] \<and> q_file (qi_dst x) = QFILE_TEMP \<and> unused_dst used x \<and> \<not> vir_has_side_effects x \<and> held x \<or>
     fate x = [] \<and> dead c used x"

definition dead_inv ::
  "(nat \<Rightarrow> nat) \<Rightarrow> bool list \<Rightarrow> v3d_compile \<Rightarrow> (qinst \<Rightarrow> qinst list) \<Rightarrow> qinst set \<Rightarrow> v3d_compile \<Rightarrow> bool \<Rightarrow> bool" where
  "dead_inv rank used c0 fate S c progress \<longleftrightarrow> opt_ok c \<and> fated fate c0 c \<and>
     (\<forall>x\<in>insts_of c0. (\<forall>y\<in>set (fate x). qi_addr y = qi_addr x) \<and> (if x \<in> S then settled c0 used fate x else fate x = [x])) \<and>
     num_temps c = num_temps c0 \<and> (vpm_sized c0 \<longrightarrow> vattr_sizes c = vattr_sizes c0) \<and>
     (ordered_copies rank c0 \<longrightarrow> ordered_copies rank c) \<and> (\<forall>t < num_temps c0. \<forall>p. c_defs c ! t = Some p \<longrightarrow> c_defs c0 ! t = Some p) \<and>
     (if progress then weight rank c < weight rank c0 else c = c0)"

lemma fate_update:
  assumes "distinct (map qi_addr (code c0))" "x \<in> insts_of c0" "fate x = [x]"
    and "\<And>z y. z \<in> insts_of c0 \<Longrightarrow> y \<in> set (fate z) \<Longrightarrow> qi_addr y = qi_addr z" and "set xs \<subseteq> insts_of c0"
  shows "map (\<lambda>y. if qi_addr y = qi_addr x then w else y) (concat (map fate xs)) = concat (map (fate(x := [w])) xs)"
    "filter (\<lambda>y. qi_addr y \<noteq> qi_addr x) (concat (map fate xs)) = concat (map (fate(x := [])) xs)"
proof -
  have one: "map (\<lambda>y. if qi_addr y = qi_addr x then w else y) (fate z) = (fate(x := [w])) z \<and>
      filter (\<lambda>y. qi_addr y \<noteq> qi_addr x) (fate z) = (fate(x := [])) z" if z: "z \<in> insts_of c0" for z
  proof (cases "z = x")
    case True
    then show ?thesis using assms(3) by simp
  next
    case False
    then have "\<forall>y\<in>set (fate z). qi_addr y \<noteq> qi_addr x" using same_address [OF assms(1,2) z] assms(4) [OF z] by auto
    then show ?thesis using False by (auto simp: map_idI intro: filter_True)
  qed
  show "map (\<lambda>y. if qi_addr y = qi_addr x then w else y) (concat (map fate xs)) = concat (map (fate(x := [w])) xs)"
    "filter (\<lambda>y. qi_addr y \<noteq> qi_addr x) (concat (map fate xs)) = concat (map (fate(x := [])) xs)"
    using assms(5) one by (induction xs) auto
qed

lemma fated_update:
  assumes D: "distinct (map qi_addr (code c0))" and x: "x \<in> insts_of c0" "fate x = [x]"
    and A: "\<And>z y. z \<in> insts_of c0 \<Longrightarrow> y \<in> set (fate z) \<Longrightarrow> qi_addr y = qi_addr z"
    and f: "fated fate c0 c" "c_blocks c' = c_blocks c"
  shows "qi_addr w = qi_addr x \<Longrightarrow> fated (fate(x := [w])) c0 (set_inst c' w)" "fated (fate(x := [])) c0 (list_del c' x)"
proof -
  have sub: "set (qb_instructions b) \<subseteq> insts_of c0" if "b \<in> set (c_blocks c0)" for b using that by (auto simp: insts_of_def)
  note U = fate_update [where fate = fate, OF D x A sub]
  show "fated (fate(x := [w])) c0 (set_inst c' w)" if "qi_addr w = qi_addr x"
    using f U(1) that by (auto simp: fated_def set_inst_def map_insts_def)
  show "fated (fate(x := [])) c0 (list_del c' x)"
    using f U(2) by (auto simp: fated_def list_del_def map_insts_def)
qed

lemma dead_invD:
  assumes "dead_inv rank used c0 fate S c progress"
  shows "opt_ok c" "fated fate c0 c" "z \<in> insts_of c0 \<Longrightarrow> y \<in> set (fate z) \<Longrightarrow> qi_addr y = qi_addr z"
    "z \<in> insts_of c0 \<Longrightarrow> z \<notin> S \<Longrightarrow> fate z = [z]" "z \<in> insts_of c0 \<Longrightarrow> z \<in> S \<Longrightarrow> settled c0 used fate z"
    "num_temps c = num_temps c0" "vpm_sized c0 \<Longrightarrow> vattr_sizes c = vattr_sizes c0" "ordered_copies rank c0 \<Longrightarrow> ordered_copies rank c"
    "weight rank c \<le> weight rank c0" "\<not> progress \<Longrightarrow> c = c0" "progress \<Longrightarrow> weight rank c < weight rank c0"
    "t < num_temps c0 \<Longrightarrow> c_defs c ! t = Some p \<Longrightarrow> c_defs c0 ! t = Some p"
  using assms unfolding dead_inv_def by (auto split: if_splits)

lemma insts_of_fated: "fated fate c0 c \<Longrightarrow> insts_of c = (\<Union>x\<in>insts_of c0. set (fate x))"
  by (auto simp: fated_def insts_of_def)

text \<open>A step that changes the fate of one instruction.\<close>

lemma dead_inv_step:
  assumes I: "dead_inv rank used c0 fate S c progress" and x: "x \<in> insts_of c0" "x \<notin> S"
    and c': "opt_ok c'" "fated (fate(x := l)) c0 c'" "num_temps c' = num_temps c" "ordered_copies rank c \<Longrightarrow> ordered_copies rank c'"
    and l: "\<And>y. y \<in> set l \<Longrightarrow> qi_addr y = qi_addr x" "settled c0 used (fate(x := l)) x"
    and v: "vpm_sized c0 \<Longrightarrow> vattr_sizes c' = vattr_sizes c"
    and d: "\<And>t p. t < num_temps c0 \<Longrightarrow> c_defs c' ! t = Some p \<Longrightarrow> c_defs c ! t = Some p" and w: "if progress' then weight rank c' < weight rank c0 else c' = c0"
  shows "dead_inv rank used c0 (fate(x := l)) (insert x S) c' progress'"
  unfolding dead_inv_def
proof (intro conjI ballI)
  note D = dead_invD [OF I]
  fix z assume z: "z \<in> insts_of c0"
  show "qi_addr y = qi_addr z" if "y \<in> set ((fate(x := l)) z)" for y using that l(1) D(3) [OF z] by (auto split: if_splits)
  show "if z \<in> insert x S then settled c0 used (fate(x := l)) z else (fate(x := l)) z = [z]"
    using l(2) D(4,5) [OF z] by (auto simp: settled_def)
qed (use c' v w d dead_invD(6-8,12) [OF I] in auto)

lemma cleared_entry:
  assumes "opt_ok c" "cleared c x c'" "t < num_temps c" "c_defs c' ! t = Some p"
  shows "c_defs c ! t = Some p"
proof -
  have "t < length (c_defs c)" using assms(3) opt_okD(5) [OF assms(1)] by simp
  then show ?thesis using assms(2,4) by (cases "q_index (qi_dst x) = t") (auto simp: cleared_def split: if_splits)
qed

lemma dead_inst_inv:
  assumes ok: "opt_ok c0" and u: "length used = num_temps c0" and I: "dead_inv rank used c0 fate S c progress" and x: "x \<in> insts_of c0" "x \<notin> S"
  shows "\<exists>c' progress' fate'. dead_inst used x (c, progress) = ret (c', progress') \<and> dead_inv rank used c0 fate' (insert x S) c' progress'"
proof -
  note D = dead_invD [OF I]
  have fx: "fate x = [x]" using D(4) x by blast
  have xc: "x \<in> insts_of c" using insts_of_fated [OF D(2)] x(1) fx by (auto intro: bexI [of _ x])
  note FU = fated_update [where fate = fate, OF opt_okD(6) [OF ok] x(1) fx D(3) D(2)]
  from dead_inst_ok [OF D(1) xc, of used progress] u D(6) consider
    (keep) "dead_inst used x (c, progress) = ret (c, progress)" "unused_dst used x \<longrightarrow> vir_has_side_effects x \<or> q_file (qi_dst x) = QFILE_NULL \<and> held x"
    | (null) c' where "dead_inst used x (c, progress) = ret (set_inst c' (null_dst x), True)" "cleared c x c'" "vattr_sizes c' = vattr_sizes c"
        "q_file (qi_dst x) = QFILE_TEMP" "unused_dst used x" "\<not> vir_has_side_effects x" "held x"
    | (drop) c' where "dead_inst used x (c, progress) = ret (list_del c' x, True)" "cleared c x c'" "removable (vattr_sizes c) used x"
    by auto
  then show ?thesis
  proof cases
    case keep
    have "fate(x := [x]) = fate" using fx by auto
    then have f: "fated (fate(x := [x])) c0 c" using D(2) by simp
    have st: "settled c0 used (fate(x := [x])) x" using keep(2) by (simp add: settled_def)
    have "dead_inv rank used c0 (fate(x := [x])) (insert x S) c progress"
      by (rule dead_inv_step [OF I x D(1) f refl _ _ st]) (use D(10,11) in auto)
    then show ?thesis using keep(1) by blast
  next
    case null
    note N = null_step [OF D(1) xc null(2,4)]
    have b: "c_blocks c' = c_blocks c" "num_temps c' = num_temps c" using null(2) by (simp_all add: cleared_def)
    have "dead_inv rank used c0 (fate(x := [null_dst x])) (insert x S) (set_inst c' (null_dst x)) True"
      by (rule dead_inv_step [OF I x N(1) FU(1)]) (use less_le_trans [OF N(3) D(9)] N(4) b null cleared_entry [OF D(1) null(2)] D(6) in \<open>auto simp: settled_def\<close>)
    then show ?thesis using null(1) by blast
  next
    case drop
    note N = drop_step [OF D(1) xc drop(2)]
    have b: "c_blocks c' = c_blocks c" "num_temps c' = num_temps c" using drop(2) by (simp_all add: cleared_def)
    have novpm: "q_file (qi_src x ! i) \<noteq> QFILE_VPM" if "vpm_sized c0" "i < vir_get_nsrc x" for i
      using drop(3) that D(7) x(1) unfolding vpm_sized_def removable_def by (metis less_irrefl)
    have dx: "dead c0 used x" using drop(3) novpm by (simp add: dead_def removable_def)
    have v: "vattr_sizes (list_del c' x) = vattr_sizes c" if "vpm_sized c0"
      using drop(2) novpm [OF that] by (simp add: cleared_def list_del_def)
    have "dead_inv rank used c0 (fate(x := [])) (insert x S) (list_del c' x) True"
      by (rule dead_inv_step [OF I x N(1) FU(2)]) (use less_le_trans [OF N(3) D(9)] N(4) b dx v cleared_entry [OF D(1) drop(2)] D(6) in \<open>auto simp: settled_def list_del_def\<close>)
    then show ?thesis using drop(1) by blast
  qed
qed

section \<open>The pass\<close>

lemma fold_run_append: "fold_run f (xs @ ys) s = bind_run (fold_run f xs s) (fold_run f ys)"
proof (induction xs arbitrary: s)
  case (Cons x xs)
  then have eq: "fold_run f (xs @ ys) = (\<lambda>s. bind_run (fold_run f xs s) (fold_run f ys))" by (simp add: fun_eq_iff)
  show ?case by (simp add: eq) (simp add: bind_run_def split: option.split sum.split)
qed simp

lemma dead_insts_inv:
  assumes "opt_ok c0" "length used = num_temps c0" "dead_inv rank used c0 fate S c progress"
    and "set xs \<subseteq> insts_of c0" "set xs \<inter> S = {}" "distinct xs"
  shows "\<exists>c' progress' fate'. fold_run (dead_inst used) xs (c, progress) = ret (c', progress') \<and>
    dead_inv rank used c0 fate' (S \<union> set xs) c' progress'"
  using assms
proof (induction xs arbitrary: S c progress fate)
  case (Cons x xs)
  obtain c1 p1 f1 where s: "dead_inst used x (c, progress) = ret (c1, p1)" "dead_inv rank used c0 f1 (insert x S) c1 p1"
    using dead_inst_inv [OF Cons.prems(1-3), of x] Cons.prems(4,5) by auto
  have "set xs \<subseteq> insts_of c0" "set xs \<inter> insert x S = {}" "distinct xs" using Cons.prems(4-6) by auto
  from Cons.IH [OF Cons.prems(1,2) s(2) this] s(1) show ?case by auto
qed auto

lemma distinct_block:
  assumes "distinct (map qi_addr (code c))" "b < length (c_blocks c)"
  shows "distinct (qb_instructions (c_blocks c ! b))" "set (qb_instructions (c_blocks c ! b)) \<subseteq> insts_of c"
    "\<And>b'. b' < length (c_blocks c) \<Longrightarrow> b' \<noteq> b \<Longrightarrow> set (qb_instructions (c_blocks c ! b')) \<inter> set (qb_instructions (c_blocks c ! b)) = {}"
proof -
  have d: "distinct (code c)" using assms(1) distinct_map by blast
  then show "distinct (qb_instructions (c_blocks c ! b))" using assms(2) by (simp add: distinct_concat_iff)
  show "set (qb_instructions (c_blocks c ! b)) \<subseteq> insts_of c" using nth_mem [OF assms(2)] by (auto simp: insts_of_def)
  fix b' assume b': "b' < length (c_blocks c)" "b' \<noteq> b"
  let ?l = "map qb_instructions (c_blocks c)"
  consider "b' < b" | "b < b'" using b'(2) by linarith
  then show "set (qb_instructions (c_blocks c ! b')) \<inter> set (qb_instructions (c_blocks c ! b)) = {}"
  proof cases
    case 1
    have "code c = concat (take b ?l) @ qb_instructions (c_blocks c ! b) @ concat (drop (Suc b) ?l)"
      using id_take_nth_drop [of b ?l] assms(2) by (metis concat.simps(2) concat_append length_map nth_map)
    moreover have "set (qb_instructions (c_blocks c ! b')) \<subseteq> set (concat (take b ?l))"
      using 1 assms(2) by (auto simp: in_set_conv_nth intro!: bexI [of _ "?l ! b'"] exI [of _ b'])
    ultimately show ?thesis using d by auto
  next
    case 2
    have "code c = concat (take b' ?l) @ qb_instructions (c_blocks c ! b') @ concat (drop (Suc b') ?l)"
      using id_take_nth_drop [of b' ?l] b'(1) by (metis concat.simps(2) concat_append length_map nth_map)
    moreover have "set (qb_instructions (c_blocks c ! b)) \<subseteq> set (concat (take b' ?l))"
      using 2 b'(1) by (auto simp: in_set_conv_nth intro!: bexI [of _ "?l ! b"] exI [of _ b])
    ultimately show ?thesis using d by auto
  qed
qed

lemma dead_blocks_inv:
  assumes ok: "opt_ok c0" and u: "length used = num_temps c0" and n: "n \<le> length (c_blocks c0)"
  shows "\<exists>c' progress fate. fold_run (dead_block used) [0..<n] (c0, False) = ret (c', progress) \<and>
    dead_inv rank used c0 fate (\<Union>b < n. set (qb_instructions (c_blocks c0 ! b))) c' progress"
  using n
proof (induction n)
  case 0
  have "dead_inv rank used c0 (\<lambda>x. [x]) {} c0 False" using ok by (simp add: dead_inv_def fated_def)
  then show ?case by auto
next
  case (Suc n)
  let ?S = "\<Union>b < n. set (qb_instructions (c_blocks c0 ! b))" and ?xs = "qb_instructions (c_blocks c0 ! n)"
  obtain c p f where s: "fold_run (dead_block used) [0..<n] (c0, False) = ret (c, p)" "dead_inv rank used c0 f ?S c p" using Suc by auto
  have nb: "n < length (c_blocks c0)" using Suc.prems by simp
  note B = distinct_block [OF opt_okD(6) [OF ok] nb]
  have "set (qb_instructions (c_blocks c0 ! b)) \<inter> set ?xs = {}" if "b < n" for b using B(3) [of b] that nb by simp
  then have dis: "set ?xs \<inter> ?S = {}" by blast
  have "f x = [x]" if "x \<in> set ?xs" for x using dead_invD(4) [OF s(2)] that B(2) dis by blast
  then have "concat (map f ?xs) = ?xs" by (induction ?xs) (auto simp: concat_map_singleton cong: map_cong)
  then have blk: "n < length (c_blocks c)" "qb_instructions (c_blocks c ! n) = ?xs"
    using dead_invD(2) [OF s(2)] nb by (auto simp: fated_def)
  obtain c' p' f' where r: "fold_run (dead_inst used) ?xs (c, p) = ret (c', p')" "dead_inv rank used c0 f' (?S \<union> set ?xs) c' p'"
    using dead_insts_inv [OF ok u s(2) B(2) dis B(1)] by blast
  have "dead_block used n (c, p) = ret (c', p')" using r(1) blk by (simp add: dead_block_def)
  then have "fold_run (dead_block used) [0..<Suc n] (c0, False) = ret (c', p')" using s(1) by (simp add: fold_run_append)
  moreover have "?S \<union> set ?xs = (\<Union>b < Suc n. set (qb_instructions (c_blocks c0 ! b)))" by (auto simp: less_Suc_eq)
  ultimately show ?case using r(2) by metis
qed

lemma dead_code_ok:
  assumes ok: "opt_ok c"
  shows "\<exists>c' progress used fate. vir_opt_dead_code c = ret (c', progress) \<and> length used = num_temps c \<and>
    (\<forall>t < num_temps c. used ! t \<longleftrightarrow> (\<exists>x\<in>insts_of c. reads_temp x t)) \<and> dead_inv rank used c fate (insts_of c) c' progress"
proof -
  obtain used where u: "mark_used c = ret used" "length used = num_temps c" "\<forall>t < num_temps c. used ! t \<longleftrightarrow> (\<exists>x\<in>insts_of c. reads_temp x t)"
    using mark_used_ok [OF ok] by blast
  have "(\<Union>b < length (c_blocks c). set (qb_instructions (c_blocks c ! b))) = insts_of c"
    by (auto simp: insts_of_def set_conv_nth [of "c_blocks c"])
  then obtain c' progress fate where "fold_run (dead_block used) [0..<length (c_blocks c)] (c, False) = ret (c', progress)"
    "dead_inv rank used c fate (insts_of c) c' progress"
    using dead_blocks_inv [OF ok u(2) order_refl] by metis
  then show ?thesis using u by (auto simp: vir_opt_dead_code_def)
qed

section \<open>The loop over the passes\<close>

lemma optimize_ok:
  assumes "opt_ok c" "ordered_copies rank c"
  shows "\<exists>c'. vir_optimize c = ret c' \<and> opt_ok c' \<and> vir_opt_copy_propagate c' = ret (c', False) \<and> vir_opt_dead_code c' = ret (c', False) \<and>
    weight rank c' \<le> weight rank c"
  using assms
proof (induction "weight rank c" arbitrary: c rule: less_induct)
  case less
  obtain c1 p1 where s1: "vir_opt_copy_propagate c = ret (c1, p1)" "advance rank c c1 p1" using copy_propagate_advance [OF less.prems(1)] by blast
  have c1: "opt_ok c1" "ordered_copies rank c1" "if p1 then weight rank c1 < weight rank c else c1 = c"
    using s1(2) less.prems(2) by (auto simp: advance_def)
  obtain c2 p2 used fate where s2: "vir_opt_dead_code c1 = ret (c2, p2)" "dead_inv rank used c1 fate (insts_of c1) c2 p2"
    using dead_code_ok [OF c1(1)] by blast
  note D = dead_invD [OF s2(2)]
  show ?case
  proof (cases "p1 \<or> p2")
    case True
    have "weight rank c2 < weight rank c" using True c1(3) D(9-11) by (cases p1; cases p2) auto
    then obtain c' where "vir_optimize c2 = ret c'" "opt_ok c'" "vir_opt_copy_propagate c' = ret (c', False)"
      "vir_opt_dead_code c' = ret (c', False)" "weight rank c' \<le> weight rank c2"
      using less.hyps [OF _ D(1) D(8) [OF c1(2)]] by blast
    moreover have "vir_optimize c = vir_optimize c2" by (subst vir_optimize.simps) (simp add: s1(1) s2(1) True)
    ultimately show ?thesis using \<open>weight rank c2 < weight rank c\<close> by auto
  next
    case False
    then have "c1 = c" "c2 = c" using c1(3) D(10) by auto
    moreover have "vir_optimize c = ret c2" by (subst vir_optimize.simps) (use s1(1) s2(1) False in simp)
    ultimately show ?thesis using False s1(1) s2(1) less.prems(1) by auto
  qed
qed

end
