(* ===== verification/Vir_Opt_Sem.thy ===== *)
theory Vir_Opt_Sem
  imports Vir_Opt_Pass Vir_Flow
begin

text \<open>
  Execution of VIR programs. The arithmetic of the processor is a parameter: how an operand is unpacked, what
  uniforms and the other sources contain, and what the instruction at an address does with its operands.
  The passes change nothing about an instruction but its sources, their unpacking and a destination that
  nobody reads, so the effect is given by the address; everything but the temporaries (flags, queues,
  memory, magic registers) is the world.
\<close>

section \<open>Machines\<close>

record ('v, 'w) machine =
  m_unpack :: "bool \<Rightarrow> v3d_qpu_input_unpack \<Rightarrow> 'v \<Rightarrow> 'v"
  m_uniform :: "nat \<Rightarrow> 'v"
  m_other :: "nat \<Rightarrow> nat \<Rightarrow> 'w \<Rightarrow> 'v"
  m_result :: "nat \<Rightarrow> 'v list \<Rightarrow> 'v \<Rightarrow> 'w \<Rightarrow> 'v"
  m_world :: "nat \<Rightarrow> 'v list \<Rightarrow> 'w \<Rightarrow> 'w"

type_synonym ('v, 'w) mstate = "(nat \<Rightarrow> 'v) \<times> 'w"

definition read_src :: "('v, 'w) machine \<Rightarrow> ('v, 'w) mstate \<Rightarrow> nat \<Rightarrow> nat \<Rightarrow> qreg \<Rightarrow> 'v" where
  "read_src M st p i r = (case q_file r of QFILE_TEMP \<Rightarrow> fst st (q_index r) | QFILE_UNIF \<Rightarrow> m_uniform M (q_index r) | _ \<Rightarrow> m_other M p i (snd st))"

definition operand :: "('v, 'w) machine \<Rightarrow> ('v, 'w) mstate \<Rightarrow> qinst \<Rightarrow> nat \<Rightarrow> 'v" where
  "operand M st x i = m_unpack M (vir_is_float_input x) (if i < 2 then unpack_of x i else V3D_QPU_UNPACK_NONE) (read_src M st (qi_addr x) i (qi_src x ! i))"

definition operands :: "('v, 'w) machine \<Rightarrow> ('v, 'w) mstate \<Rightarrow> qinst \<Rightarrow> 'v list" where
  "operands M st x = map (operand M st x) [0..<vir_get_nsrc x]"

definition sets_temp :: "qinst \<Rightarrow> nat \<Rightarrow> bool" where
  "sets_temp x t \<longleftrightarrow> q_file (qi_dst x) = QFILE_TEMP \<and> q_index (qi_dst x) = t"

text \<open>A plain copy writes its operand; what other instructions write may depend on the old value, for a condition.\<close>

definition exec_inst :: "('v, 'w) machine \<Rightarrow> qinst \<Rightarrow> ('v, 'w) mstate \<Rightarrow> ('v, 'w) mstate" where
  "exec_inst M x st =
     ((\<lambda>t. if sets_temp x t then if copy_mov x then operand M st x 0 else m_result M (qi_addr x) (operands M st x) (fst st t) (snd st)
           else fst st t),
      m_world M (qi_addr x) (operands M st x) (snd st))"

definition exec :: "('v, 'w) machine \<Rightarrow> qinst list \<Rightarrow> ('v, 'w) mstate \<Rightarrow> ('v, 'w) mstate" where
  "exec M xs st = fold (exec_inst M) xs st"

lemma exec_simps [simp]: "exec M [] st = st" "exec M (x # xs) st = exec M xs (exec_inst M x st)" "exec M (xs @ ys) st = exec M ys (exec M xs st)"
  by (simp_all add: exec_def)

lemma exec_keeps: "\<forall>z\<in>set xs. \<not> sets_temp z t \<Longrightarrow> fst (exec M xs st) t = fst st t"
  by (induction xs arbitrary: st) (auto simp: exec_inst_def)

text \<open>
  The operations that only compute a value, of those for which \<^verbatim>\<open>v3d_compiler.h\<close> has functions. The others there have an effect: \<open>SETMSF\<close> and \<open>SETREVF\<close> change what the tile
  buffer gets, \<open>VPMSETUP\<close> configures the VPM, \<open>FLBPOP\<close> sets flags, \<open>MULTOP\<close> sets the register \<open>rtop\<close>, and \<open>UMUL24\<close> resets it
  (\<^verbatim>\<open>qpu_schedule.c\<close>, \<open>calculate_deps\<close>).
\<close>

definition computes_only :: "v3d_qpu_instr \<Rightarrow> bool" where
  "computes_only i \<longleftrightarrow>
     alu_op (alu_add i) \<in> set [V3D_QPU_A_NOP, V3D_QPU_A_FADD, V3D_QPU_A_VFPACK, V3D_QPU_A_FSUB, V3D_QPU_A_FMIN, V3D_QPU_A_FMAX, V3D_QPU_A_ADD, V3D_QPU_A_SUB,
       V3D_QPU_A_SHL, V3D_QPU_A_SHR, V3D_QPU_A_ASR, V3D_QPU_A_ROR, V3D_QPU_A_MIN, V3D_QPU_A_MAX, V3D_QPU_A_UMIN, V3D_QPU_A_UMAX, V3D_QPU_A_AND, V3D_QPU_A_OR,
       V3D_QPU_A_XOR, V3D_QPU_A_VADD, V3D_QPU_A_VSUB, V3D_QPU_A_NOT, V3D_QPU_A_NEG, V3D_QPU_A_FLAPUSH, V3D_QPU_A_FLBPUSH, V3D_QPU_A_TIDX, V3D_QPU_A_EIDX,
       V3D_QPU_A_FXCD, V3D_QPU_A_XCD, V3D_QPU_A_FYCD, V3D_QPU_A_YCD, V3D_QPU_A_MSF, V3D_QPU_A_REVF, V3D_QPU_A_FCMP, V3D_QPU_A_VFMAX, V3D_QPU_A_FROUND,
       V3D_QPU_A_FTOIN, V3D_QPU_A_FTRUNC, V3D_QPU_A_FTOIZ, V3D_QPU_A_FFLOOR, V3D_QPU_A_FTOUZ, V3D_QPU_A_FCEIL, V3D_QPU_A_FTOC, V3D_QPU_A_FDX, V3D_QPU_A_FDY,
       V3D_QPU_A_ITOF, V3D_QPU_A_CLZ, V3D_QPU_A_UTOF] \<and>
     alu_op (alu_mul i) \<in> set [V3D_QPU_M_NOP, V3D_QPU_M_FMUL, V3D_QPU_M_SMUL24, V3D_QPU_M_MOV, V3D_QPU_M_FMOV] \<and>
     sig i = sig v3d_qpu_nop"

text \<open>
  The instructions that the passes are applied to: branches, operations that only compute, and, beside them, \<open>SETREVF\<close>, \<open>SETMSF\<close>, \<open>VPMSETUP\<close>, \<open>MULTOP\<close> and the
  wait for a texture result. \<open>UMUL24\<close> and \<open>FLBPOP\<close> are not among them: \<open>vir_has_side_effects\<close> does not know of their effects.
\<close>

definition known_inst :: "qinst \<Rightarrow> bool" where
  "known_inst x \<longleftrightarrow> instr_type (qi_qpu x) = V3D_QPU_INSTR_TYPE_BRANCH \<or> computes_only (qi_qpu x) \<or>
     alu_op (add_part x) \<in> {V3D_QPU_A_SETREVF, V3D_QPU_A_SETMSF, V3D_QPU_A_VPMSETUP} \<or> alu_op (mul_part x) = V3D_QPU_M_MULTOP \<or> ldtmu (sig (qi_qpu x))"

text \<open>
  What the passes rely on: no unpacking is the identity, and an instruction that only computes a value, for a temporary or for nothing, from operands that are not
  taken out of a queue, and that neither pushes nor updates flags, does nothing to the world.
\<close>

definition quiet :: "qinst \<Rightarrow> bool" where
  "quiet x \<longleftrightarrow> q_file (qi_dst x) \<in> {QFILE_NULL, QFILE_TEMP} \<and> instr_type (qi_qpu x) = V3D_QPU_INSTR_TYPE_ALU \<and> computes_only (qi_qpu x) \<and>
     apf (flags (qi_qpu x)) = V3D_QPU_PF_NONE \<and> mpf (flags (qi_qpu x)) = V3D_QPU_PF_NONE \<and>
     auf (flags (qi_qpu x)) = V3D_QPU_UF_NONE \<and> muf (flags (qi_qpu x)) = V3D_QPU_UF_NONE \<and>
     (\<forall>i < vir_get_nsrc x. q_file (qi_src x ! i) \<notin> {QFILE_VARY, QFILE_VPM})"

definition machine_ok :: "('v, 'w) machine \<Rightarrow> v3d_compile \<Rightarrow> bool" where
  "machine_ok M c \<longleftrightarrow> (\<forall>b v. m_unpack M b V3D_QPU_UNPACK_NONE v = v) \<and>
     (\<forall>x\<in>insts_of c. quiet x \<longrightarrow> (\<forall>vs w. m_world M (qi_addr x) vs w = w))"

section \<open>Replacing a source\<close>

definition holds :: "('v, 'w) machine \<Rightarrow> ('v, 'w) mstate \<Rightarrow> qinst \<Rightarrow> bool" where
  "holds M st m \<longleftrightarrow> fst st (q_index (qi_dst m)) = operand M st m 0"

lemma strip_float: "vir_is_float_input (strip x) = vir_is_float_input x" "vir_is_add (strip x) = vir_is_add x"
  unfolding vir_is_float_input_def vir_is_add_def strip_simps by (rule refl)+

lemma strip_eq_float:
  assumes "strip y = strip x"
  shows "vir_is_float_input y = vir_is_float_input x" "vir_is_add y = vir_is_add x"
  using assms by (metis strip_float)+

lemma unpack_of_set_unpack: "i < 2 \<Longrightarrow> j < 2 \<Longrightarrow> unpack_of (set_unpack x i u) j = (if i = j then u else unpack_of x j)"
  by (auto simp: unpack_of_def set_unpack_def vir_is_add_def less_2_cases_iff)

lemma unpack_of_src [simp]: "unpack_of (x\<lparr>qi_src := l\<rparr>) j = unpack_of x j"
  by (simp add: unpack_of_def vir_is_add_def)

lemma unpack_of_retarget:
  assumes "i < 2" "j < 2"
  shows "unpack_of (retarget m i x) j = (if i = j \<and> unpack_of m 0 \<noteq> V3D_QPU_UNPACK_NONE then a_unpack (mul_part m) else unpack_of x j)"
  using assms by (simp add: retarget_def Let_def unpack_of_set_unpack)

text \<open>The source of a copy is a temporary or a uniform.\<close>

lemma read_copy_src:
  assumes "copy_mov m" "q_file (qi_src m ! 0) = QFILE_TEMP \<Longrightarrow> fst st (q_index (qi_src m ! 0)) = fst st' (q_index (qi_src m ! 0))"
  shows "read_src M st p i (qi_src m ! 0) = read_src M st' q j (qi_src m ! 0)"
  using assms by (auto simp: read_src_def copy_mov_def)

lemma retarget_operand:
  assumes M: "machine_ok M c" and x: "length (qi_src x) = 3" "i < 2" "q_file (qi_src x ! i) = QFILE_TEMP"
    and m: "copy_mov m" "\<not> vir_is_add m" "q_index (qi_dst m) = q_index (qi_src x ! i)" "holds M st m" and nb: "\<not> blocked m i x" and j: "j < 3"
  shows "operand M st (retarget m i x) j = operand M st x j"
proof -
  let ?y = "retarget m i x"
  note S = strip_eqD [OF retarget_simps(1) [of m i x]] and F = strip_eq_float [OF retarget_simps(1) [of m i x]]
  have src: "qi_src ?y ! j = (if i = j then qi_src m ! 0 else qi_src x ! j)" using x(1,2) j by (simp add: retarget_simps nth_list_update)
  have N: "m_unpack M b V3D_QPU_UNPACK_NONE v = v" for b v using M by (simp add: machine_ok_def)
  show ?thesis
  proof (cases "i = j")
    case False
    then show ?thesis using F(1) S(3) x(2) j src unpack_of_retarget [OF x(2), of j m x] by (simp add: operand_def)
  next
    case True
    have r: "read_src M st (qi_addr ?y) j (qi_src ?y ! j) = read_src M st (qi_addr m) 0 (qi_src m ! 0)"
      using src True by (simp, intro read_copy_src m(1) refl)
    have t: "read_src M st (qi_addr x) i (qi_src x ! i) = fst st (q_index (qi_dst m))" using x(3) m(3) by (simp add: read_src_def)
    have v: "fst st (q_index (qi_dst m)) = m_unpack M (vir_is_float_input m) (unpack_of m 0) (read_src M st (qi_addr m) 0 (qi_src m ! 0))"
      using m(4) by (simp add: holds_def operand_def)
    have u: "a_unpack (mul_part m) = unpack_of m 0" using m(2) by (simp add: unpack_of_def)
    show ?thesis
    proof (cases "unpack_of m 0 = V3D_QPU_UNPACK_NONE")
      case n: True
      then show ?thesis using F(1) True x(2) r t v N unpack_of_retarget [OF x(2,2), of m x] by (simp add: operand_def)
    next
      case n: False
      then have "vir_is_float_input x = vir_is_float_input m" "unpack_of x i = V3D_QPU_UNPACK_NONE" using nb by (auto simp: blocked_def)
      then show ?thesis
        using F(1) True x(2) r t v N n u unpack_of_retarget [OF x(2,2), of m x] by (simp add: operand_def)
    qed
  qed
qed

lemma retarget_exec:
  assumes M: "machine_ok M c" and x: "length (qi_src x) = 3" "i < 2" "q_file (qi_src x ! i) = QFILE_TEMP"
    and m: "copy_mov m" "\<not> vir_is_add m" "q_index (qi_dst m) = q_index (qi_src x ! i)" "holds M st m" and nb: "\<not> blocked m i x"
  shows "exec_inst M (retarget m i x) st = exec_inst M x st"
proof -
  let ?y = "retarget m i x"
  note S = strip_eqD [OF retarget_simps(1) [of m i x]] and R = retarget_operand [OF M x m nb]
  have c: "copy_mov ?y = copy_mov x" using rewritten_copy_mov [OF retarget_rewritten [OF m(1) x(3)] x(1)] x(1,2) by simp
  have o: "operands M st ?y = operands M st x" using S(1) R nsrc_le [of x] by (simp add: operands_def)
  show ?thesis unfolding exec_inst_def sets_temp_def S(3,4) c o R [of 0, simplified] by (rule refl)
qed

text \<open>After a copy its destination holds its operand, until one of the two is written.\<close>

lemma copy_holds:
  assumes m: "copy_mov m" "\<not> (q_file (qi_src m ! 0) = QFILE_TEMP \<and> q_index (qi_src m ! 0) = q_index (qi_dst m))"
    and k: "\<forall>z\<in>set xs. \<not> sets_temp z (q_index (qi_dst m)) \<and> \<not> (q_file (qi_src m ! 0) = QFILE_TEMP \<and> sets_temp z (q_index (qi_src m ! 0)))"
  shows "holds M (exec M (m # xs) st) m"
proof -
  let ?s = "exec M (m # xs) st"
  have d: "sets_temp m (q_index (qi_dst m))" using m(1) by (simp add: sets_temp_def copy_mov_def)
  have "fst ?s (q_index (qi_dst m)) = fst (exec_inst M m st) (q_index (qi_dst m))" using k by (simp add: exec_keeps)
  also have "\<dots> = operand M st m 0" using d m(1) by (simp add: exec_inst_def)
  also have "read_src M st (qi_addr m) 0 (qi_src m ! 0) = read_src M ?s (qi_addr m) 0 (qi_src m ! 0)"
  proof (rule read_copy_src [OF m(1)])
    assume f: "q_file (qi_src m ! 0) = QFILE_TEMP"
    then have "fst ?s (q_index (qi_src m ! 0)) = fst (exec_inst M m st) (q_index (qi_src m ! 0))" using k by (simp add: exec_keeps)
    then show "fst st (q_index (qi_src m ! 0)) = fst ?s (q_index (qi_src m ! 0))" using m(2) f by (simp add: exec_inst_def sets_temp_def)
  qed
  then have "operand M st m 0 = operand M ?s m 0" by (simp add: operand_def)
  finally show ?thesis by (simp add: holds_def)
qed

section \<open>Paths\<close>

abbreviation insts_in :: "v3d_compile \<Rightarrow> nat \<Rightarrow> qinst list" where
  "insts_in c b \<equiv> qb_instructions (c_blocks c ! b)"

definition edge :: "v3d_compile \<Rightarrow> nat \<Rightarrow> nat \<Rightarrow> bool" where
  "edge c b b' \<longleftrightarrow> b < length (c_blocks c) \<and> b' < length (c_blocks c) \<and> b' \<in> set (succ_list (c_blocks c ! b))"

text \<open>The instructions \<open>xs\<close> lead from the entry to instruction \<open>k\<close> of block \<open>b\<close>.\<close>

inductive reach :: "v3d_compile \<Rightarrow> qinst list \<Rightarrow> nat \<Rightarrow> nat \<Rightarrow> bool" for c where
  reach_start: "0 < length (c_blocks c) \<Longrightarrow> reach c [] 0 0"
| reach_inst: "reach c xs b k \<Longrightarrow> k < length (insts_in c b) \<Longrightarrow> reach c (xs @ [insts_in c b ! k]) b (Suc k)"
| reach_edge: "reach c xs b (length (insts_in c b)) \<Longrightarrow> edge c b b' \<Longrightarrow> reach c xs b' 0"

definition executes :: "v3d_compile \<Rightarrow> qinst list \<Rightarrow> qinst \<Rightarrow> bool" where
  "executes c xs x \<longleftrightarrow> (\<exists>b k. reach c xs b k \<and> k < length (insts_in c b) \<and> x = insts_in c b ! k)"

lemma reach_block: "reach c xs b k \<Longrightarrow> b < length (c_blocks c) \<and> k \<le> length (insts_in c b)"
  by (induction rule: reach.induct) (auto simp: edge_def)

lemma block_insts: "b < length (c_blocks c) \<Longrightarrow> k < length (insts_in c b) \<Longrightarrow> insts_in c b ! k \<in> insts_of c"
  by (auto simp: insts_of_def intro!: bexI [of _ "c_blocks c ! b"])

lemma reach_insts: "reach c xs b k \<Longrightarrow> set xs \<subseteq> insts_of c"
proof (induction rule: reach.induct)
  case (reach_inst xs b k)
  then show ?case using block_insts reach_block by auto
qed auto

lemma executes_insts: "executes c xs x \<Longrightarrow> x \<in> insts_of c \<and> set xs \<subseteq> insts_of c"
  unfolding executes_def using block_insts reach_block reach_insts by blast

lemma executes_reach: "executes c xs x \<Longrightarrow> \<exists>b k. reach c (xs @ [x]) b k"
  unfolding executes_def using reach_inst by blast

lemma reach_split:
  assumes "reach c zs b k" "zs = xs @ x # ys"
  shows "executes c xs x"
  using assms
proof (induction arbitrary: ys rule: reach.induct)
  case (reach_inst zs b k)
  show ?case
  proof (cases ys rule: rev_cases)
    case Nil
    then have "zs = xs" "x = insts_in c b ! k" using reach_inst.prems by auto
    then show ?thesis using reach_inst.hyps unfolding executes_def by blast
  next
    case (snoc ys' y)
    then have "zs = xs @ x # ys'" using reach_inst.prems by simp
    then show ?thesis by (rule reach_inst.IH)
  qed
qed auto

text \<open>The position of an instruction is determined, so that paths to it can be exchanged.\<close>

lemma position_unique:
  assumes D: "distinct (map qi_addr (code c))" and p: "b < length (c_blocks c)" "k < length (insts_in c b)"
    and q: "b' < length (c_blocks c)" "k' < length (insts_in c b')" and eq: "insts_in c b ! k = insts_in c b' ! k'"
  shows "b' = b \<and> k' = k"
proof -
  have "b' = b" using distinct_block(3) [OF D p(1) q(1)] nth_mem [OF p(2)] nth_mem [OF q(2)] eq by auto
  then show ?thesis using distinct_block(1) [OF D p(1)] p(2) q(2) eq nth_eq_iff_index_eq by metis
qed

lemma reach_splice:
  assumes D: "distinct (map qi_addr (code c))" and "reach c zs b k" "zs = xs @ x # ys" and e: "executes c xs' x"
  shows "reach c (xs' @ x # ys) b k"
  using assms(2,3)
proof (induction arbitrary: ys rule: reach.induct)
  case (reach_inst zs b k)
  show ?case
  proof (cases ys rule: rev_cases)
    case Nil
    then have x: "x = insts_in c b ! k" using reach_inst.prems by auto
    obtain b' k' where r: "reach c xs' b' k'" "k' < length (insts_in c b')" "x = insts_in c b' ! k'" using e unfolding executes_def by blast
    have "b' = b \<and> k' = k"
      by (rule position_unique [OF D _ reach_inst.hyps(2) _ r(2)]) (use reach_block [OF reach_inst.hyps(1)] reach_block [OF r(1)] x r(3) in auto)
    then show ?thesis using reach.reach_inst [OF r(1,2)] x Nil by simp
  next
    case (snoc ys' y)
    then have z: "zs = xs @ x # ys'" "y = insts_in c b ! k" using reach_inst.prems by auto
    show ?thesis using reach.reach_inst [OF reach_inst.IH [OF z(1)] reach_inst.hyps(2)] z(2) snoc by simp
  qed
qed (auto intro: reach_edge)

text \<open>The whole blocks of a path.\<close>

definition path :: "v3d_compile \<Rightarrow> nat list \<Rightarrow> bool" where
  "path c bs \<longleftrightarrow> bs \<noteq> [] \<and> hd bs = 0 \<and> hd bs < length (c_blocks c) \<and> successively (edge c) bs"

definition run_path :: "('v, 'w) machine \<Rightarrow> v3d_compile \<Rightarrow> nat list \<Rightarrow> ('v, 'w) mstate \<Rightarrow> ('v, 'w) mstate" where
  "run_path M c bs st = exec M (concat (map (insts_in c) bs)) st"

lemma reach_through:
  assumes "reach c xs b k"
  shows "k + n \<le> length (insts_in c b) \<Longrightarrow> reach c (xs @ take n (drop k (insts_in c b))) b (k + n)"
proof (induction n)
  case (Suc n)
  have "take (Suc n) (drop k (insts_in c b)) = take n (drop k (insts_in c b)) @ [insts_in c b ! (k + n)]"
    using Suc.prems by (simp add: take_Suc_conv_app_nth)
  then show ?case using reach_inst [OF Suc.IH] Suc.prems by simp
qed (use assms in simp)

lemma path_reach:
  assumes "path c bs"
  shows "reach c (concat (map (insts_in c) bs)) (last bs) (length (insts_in c (last bs)))"
proof -
  have "reach c (concat (map (insts_in c) bs)) (last bs) (length (insts_in c (last bs)))"
    if "bs \<noteq> []" "hd bs = 0" "hd bs < length (c_blocks c)" "successively (edge c) bs" for bs
    using that
  proof (induction bs rule: rev_induct)
    case (snoc b bs)
    have "reach c (concat (map (insts_in c) bs)) b 0"
    proof (cases "bs = []")
      case True
      then show ?thesis using snoc.prems reach_start by auto
    next
      case False
      then have "successively (edge c) bs" "edge c (last bs) b" "hd bs = 0" using snoc.prems by (auto simp: successively_append_iff)
      then show ?thesis using snoc.IH False snoc.prems(3) reach_edge by auto
    qed
    from reach_through [OF this, of "length (insts_in c b)"] show ?case by simp
  qed simp
  then show ?thesis using assms unfolding path_def by blast
qed

lemma path_blocks:
  assumes "path c bs"
  shows "\<forall>b\<in>set bs. b < length (c_blocks c)"
proof -
  have "\<forall>b\<in>set bs. b < length (c_blocks c)" if "bs \<noteq> []" "hd bs < length (c_blocks c)" "successively (edge c) bs" for bs
    using that
  proof (induction bs rule: rev_induct)
    case (snoc b bs)
    show ?case
    proof (cases "bs = []")
      case False
      have e: "edge c (last bs) b" "successively (edge c) bs" using snoc.prems(3) False by (auto simp: successively_append_iff)
      have "\<forall>b\<in>set bs. b < length (c_blocks c)" using snoc.IH [OF False _ e(2)] snoc.prems(2) False by simp
      moreover have "b < length (c_blocks c)" using e(1) unfolding edge_def by blast
      ultimately show ?thesis by simp
    qed (use snoc.prems(2) in simp)
  qed simp
  then show ?thesis using assms unfolding path_def by blast
qed

end
