(* ===== verification/Vir_Opt_Ssa.thy ===== *)
theory Vir_Opt_Ssa
  imports Vir_Opt_Sem
begin

text \<open>
  The moves that copy propagation finds are still valid where it uses them: those of the table of the block because
  nothing has been written since, and those of the table of definitions because of the SSA form.
\<close>

section \<open>SSA form\<close>

text \<open>
  A temporary with an entry in the table of definitions is written by that instruction only, and on every path from
  the entry of the program the instruction comes before the reads of the temporary.
\<close>

definition ssa_ok :: "v3d_compile \<Rightarrow> bool" where
  "ssa_ok c \<longleftrightarrow> (\<forall>t < num_temps c. \<forall>p. c_defs c ! t = Some p \<longrightarrow> (\<forall>x\<in>insts_of c. sets_temp x t \<longrightarrow> qi_addr x = p)) \<and>
     (\<forall>xs x t p. executes c xs x \<longrightarrow> reads_temp x t \<longrightarrow> c_defs c ! t = Some p \<longrightarrow> p \<in> qi_addr ` set xs)"

text \<open>
  The instructions are of the kinds above, copies have one operation, and the flags are set by \<open>apf\<close> and \<open>mpf\<close> only: dead code elimination does not look
  at \<open>auf\<close> and \<open>muf\<close>.
\<close>

definition plain_inst :: "qinst \<Rightarrow> bool" where
  "plain_inst x \<longleftrightarrow> known_inst x \<and> (copy_mov x \<longrightarrow> \<not> vir_is_add x) \<and> auf (flags (qi_qpu x)) = V3D_QPU_UF_NONE \<and> muf (flags (qi_qpu x)) = V3D_QPU_UF_NONE"

definition plain :: "v3d_compile \<Rightarrow> bool" where
  "plain c \<longleftrightarrow> (\<forall>x\<in>insts_of c. plain_inst x)"

text \<open>An instruction of these kinds that \<open>vir_has_side_effects\<close> does not report only computes.\<close>

lemma known_pure:
  assumes "known_inst x" "\<not> vir_has_side_effects x"
  shows "instr_type (qi_qpu x) = V3D_QPU_INSTR_TYPE_ALU" "computes_only (qi_qpu x)"
  using assms by (cases "instr_type (qi_qpu x)"; auto simp: known_inst_def vir_has_side_effects_def)+

lemma ssa_okD:
  assumes "ssa_ok c"
  shows "t < num_temps c \<Longrightarrow> c_defs c ! t = Some p \<Longrightarrow> x \<in> insts_of c \<Longrightarrow> sets_temp x t \<Longrightarrow> qi_addr x = p"
    "executes c xs x \<Longrightarrow> reads_temp x t \<Longrightarrow> c_defs c ! t = Some p \<Longrightarrow> p \<in> qi_addr ` set xs"
  using assms unfolding ssa_ok_def by blast+

lemma copy_reads:
  assumes "copy_mov m" "\<not> vir_is_add m" "q_file (qi_src m ! 0) = QFILE_TEMP"
  shows "reads_temp m (q_index (qi_src m ! 0))"
proof -
  have "0 < vir_get_nsrc m"
    using assms(1,2) by (auto simp: copy_mov_def vir_is_add_def vir_get_nsrc_def vir_get_non_sideband_nsrc_def v3d_qpu_mul_op_num_src_def)
  then show ?thesis using assms(3) by (auto simp: reads_temp_def)
qed

lemma copy_indices:
  assumes "opt_ok c" "m \<in> insts_of c" "copy_mov m"
  shows "q_index (qi_dst m) < num_temps c" "sets_temp m (q_index (qi_dst m))"
    "q_file (qi_src m ! 0) = QFILE_TEMP \<Longrightarrow> q_index (qi_src m ! 0) < num_temps c"
  using assms opt_okD(3) [OF assms(1,2), of 0] opt_okD(4) [OF assms(1,2)] by (auto simp: copy_mov_def sets_temp_def)

lemma addr_mem:
  assumes "distinct (map qi_addr (code c))" "m \<in> insts_of c" "set xs \<subseteq> insts_of c" "qi_addr m \<in> qi_addr ` set xs"
  shows "m \<in> set xs"
proof -
  obtain z where z: "z \<in> set xs" "qi_addr m = qi_addr z" using assms(4) by (elim imageE) simp
  then have "z = m" using same_address [OF assms(1,2), of z] assms(3) by auto
  then show ?thesis using z(1) by simp
qed

text \<open>On a path to a read of an SSA copy, neither the copy nor an SSA source of it is written after the last copy.\<close>

lemma ssa_source_kept:
  assumes ok: "opt_ok c" and ssa: "ssa_ok c" and e: "executes c xs x" "reads_temp x t"
    and m: "m \<in> insts_of c" "c_defs c ! t = Some (qi_addr m)" "reads_temp m u" "c_defs c ! u = Some (qi_addr w)" "w \<in> insts_of c"
    and xs: "xs = as @ m # gs" "m \<notin> set gs"
  shows "w \<notin> set gs" "w \<noteq> m"
proof -
  note D = opt_okD(6) [OF ok]
  obtain b k where r: "reach c (xs @ [x]) b k" using executes_reach [OF e(1)] by blast
  have sub: "set xs \<subseteq> insts_of c" using executes_insts [OF e(1)] by blast
  obtain a0 g0 where f: "xs = a0 @ m # g0" "m \<notin> set a0" using xs(1) by (metis in_set_conv_decomp in_set_conv_decomp_first)
  have e0: "executes c a0 m" by (rule reach_split [OF r]) (simp add: f(1))
  have w0: "w \<in> set a0" using addr_mem [OF D m(5) _ ssa_okD(2) [OF ssa e0 m(3,4)]] sub f(1) by auto
  show wm: "w \<noteq> m" using w0 f(2) by blast
  obtain a1 a2 where a: "a0 = a1 @ w # a2" using w0 by (meson split_list)
  have e1: "executes c a1 w" by (rule reach_split [OF r]) (simp add: f(1) a)
  show "w \<notin> set gs"
  proof
    assume "w \<in> set gs"
    then obtain g1 g2 where g: "gs = g1 @ w # g2" by (meson split_list)
    have "xs @ [x] = (as @ m # g1) @ w # (g2 @ [x])" using xs(1) g by simp
    from reach_splice [OF D r this e1] have r': "reach c (a1 @ w # g2 @ [x]) b k" .
    have e': "executes c (a1 @ w # g2) x" by (rule reach_split [OF r', of _ _ "[]"]) simp
    have "m \<in> set (a1 @ w # g2)" using addr_mem [OF D m(1) _ ssa_okD(2) [OF ssa e' e(2) m(2)]] executes_insts [OF e'] by blast
    then show False using wm f(2) a xs(2) g by auto
  qed
qed

section \<open>Valid moves\<close>

definition movs_at :: "v3d_compile \<Rightarrow> nat \<Rightarrow> nat \<Rightarrow> nat option list \<Rightarrow> bool" where
  "movs_at c b k movs \<longleftrightarrow> (\<forall>t < num_temps c. \<forall>p. movs ! t = Some p \<longrightarrow> (\<exists>ys m zs. take k (insts_in c b) = ys @ m # zs \<and> qi_addr m = p \<and>
     (\<forall>z\<in>set zs. q_file (qi_dst z) = QFILE_TEMP \<longrightarrow> \<not> ends_mov (q_index (qi_dst z)) m)))"

lemma reach_prefix: "reach c xs b k \<Longrightarrow> \<exists>pre. xs = pre @ take k (insts_in c b)"
proof (induction rule: reach.induct)
  case (reach_inst xs b k)
  then obtain pre where "xs = pre @ take k (insts_in c b)" by blast
  then show ?case using reach_inst.hyps(2) by (simp add: take_Suc_conv_app_nth)
qed auto

lemma ends_mov_sets: "(\<forall>z\<in>set zs. q_file (qi_dst z) = QFILE_TEMP \<longrightarrow> \<not> ends_mov (q_index (qi_dst z)) m) \<longleftrightarrow>
  (\<forall>z\<in>set zs. \<not> sets_temp z (q_index (qi_dst m)) \<and> \<not> (q_file (qi_src m ! 0) = QFILE_TEMP \<and> sets_temp z (q_index (qi_src m ! 0))))"
  by (auto simp: ends_mov_def sets_temp_def)

lemma available_holds:
  assumes ok: "opt_ok c" and ssa: "ssa_ok c" and pl: "plain c" and o: "ordered_copies rank c" and mv: "movs_at c b k movs"
    and r: "reach c xs b k" "k < length (insts_in c b)" and rd: "reads_temp (insts_in c b ! k) t" and t: "t < num_temps c"
    and av: "available c movs t m"
  shows "m \<in> set xs" "holds M (exec M xs st) m"
proof -
  let ?x = "insts_in c b ! k" and ?u = "q_index (qi_src m ! 0)"
  have m: "m \<in> insts_of c" "copy_mov m" "q_index (qi_dst m) = t" using av by (auto simp: available_def)
  have na: "\<not> vir_is_add m" using pl m by (simp add: plain_def plain_inst_def)
  have e: "executes c xs ?x" using r by (auto simp: executes_def)
  have sub: "set xs \<subseteq> insts_of c" using executes_insts [OF e] by blast
  have ne: "\<not> (q_file (qi_src m ! 0) = QFILE_TEMP \<and> ?u = q_index (qi_dst m))" using o m by (auto simp: ordered_copies_def)
  have "\<exists>as gs. xs = as @ m # gs \<and> (\<forall>z\<in>set gs. \<not> sets_temp z t \<and> \<not> (q_file (qi_src m ! 0) = QFILE_TEMP \<and> sets_temp z ?u))"
  proof (cases "movs ! t")
    case (Some p)
    obtain ys m' zs where k: "take k (insts_in c b) = ys @ m' # zs" "qi_addr m' = p"
      "\<forall>z\<in>set zs. q_file (qi_dst z) = QFILE_TEMP \<longrightarrow> \<not> ends_mov (q_index (qi_dst z)) m'"
      using mv t Some unfolding movs_at_def by blast
    obtain pre where pre: "xs = pre @ ys @ m' # zs" using reach_prefix [OF r(1)] k(1) by auto
    have "qi_addr m = p" using av Some by (simp add: available_def)
    then have "m' = m" using same_address [OF opt_okD(6) [OF ok] m(1), of m'] sub pre k(2) by auto
    then have "\<forall>z\<in>set zs. \<not> sets_temp z t \<and> \<not> (q_file (qi_src m ! 0) = QFILE_TEMP \<and> sets_temp z ?u)"
      using k(3) m(3) unfolding ends_mov_sets by simp
    then show ?thesis using pre \<open>m' = m\<close> by (intro exI [of _ "pre @ ys"] exI [of _ zs]) simp
  next
    case None
    then have d: "c_defs c ! t = Some (qi_addr m)" "q_file (qi_src m ! 0) = QFILE_TEMP \<Longrightarrow> c_defs c ! ?u \<noteq> None" using av by (auto simp: available_def)
    have "m \<in> set xs" by (rule addr_mem [OF opt_okD(6) [OF ok] m(1) sub ssa_okD(2) [OF ssa e rd d(1)]])
    then obtain as gs where xs: "xs = as @ m # gs" "m \<notin> set gs" by (meson split_list_last)
    have "\<not> sets_temp z t" if "z \<in> set gs" for z
      using ssa_okD(1) [OF ssa t d(1), of z] same_address [OF opt_okD(6) [OF ok] m(1), of z] sub xs that by auto
    moreover have "\<not> sets_temp z ?u" if z: "z \<in> set gs" and f: "q_file (qi_src m ! 0) = QFILE_TEMP" for z
    proof
      assume s: "sets_temp z ?u"
      obtain q where q: "c_defs c ! ?u = Some q" using d(2) [OF f] by blast
      have zc: "z \<in> insts_of c" using z sub xs by auto
      have "qi_addr z = q" by (rule ssa_okD(1) [OF ssa copy_indices(3) [OF ok m(1,2) f] q zc s])
      then show False using ssa_source_kept(1) [OF ok ssa e rd m(1) d(1) copy_reads [OF m(2) na f] _ zc xs] q z by blast
    qed
    ultimately show ?thesis using xs(1) by blast
  qed
  then obtain as gs where g: "xs = as @ m # gs" "\<forall>z\<in>set gs. \<not> sets_temp z t \<and> \<not> (q_file (qi_src m ! 0) = QFILE_TEMP \<and> sets_temp z ?u)" by blast
  show "m \<in> set xs" using g(1) by simp
  show "holds M (exec M xs st) m" using copy_holds [OF m(2) ne] g m(3) by (simp only: exec_simps(3))
qed

end
