(* ===== verification/Vir_Opt_Correct.thy ===== *)
theory Vir_Opt_Correct
  imports Vir_Opt_Ssa
begin

text \<open>
  Copy propagation preserves the behaviour of programs in SSA form: along every path, every state is the same before and
  after the pass.
\<close>

section \<open>Programs with the same behaviour\<close>

definition good :: "('v, 'w) machine \<Rightarrow> (nat \<Rightarrow> nat) \<Rightarrow> v3d_compile \<Rightarrow> bool" where
  "good M rank c \<longleftrightarrow> opt_ok c \<and> ordered_copies rank c \<and> ssa_ok c \<and> plain c \<and> machine_ok M c"

definition same_flow :: "v3d_compile \<Rightarrow> v3d_compile \<Rightarrow> bool" where
  "same_flow c c' \<longleftrightarrow> length (c_blocks c') = length (c_blocks c) \<and> (\<forall>b < length (c_blocks c). qb_successors (c_blocks c' ! b) = qb_successors (c_blocks c ! b))"

lemma same_flow_edge: "same_flow c c' \<Longrightarrow> edge c' = edge c"
  by (auto simp: same_flow_def edge_def succ_list_def fun_eq_iff)

lemma same_flow_path: "same_flow c c' \<Longrightarrow> path c' bs = path c bs"
  using same_flow_edge [of c c'] by (simp add: path_def same_flow_def)

definition copied :: "('v, 'w) machine \<Rightarrow> (nat \<Rightarrow> nat) \<Rightarrow> v3d_compile \<Rightarrow> v3d_compile \<Rightarrow> bool" where
  "copied M rank c c' \<longleftrightarrow> good M rank c' \<and> same_flow c c' \<and> num_temps c' = num_temps c \<and>
     (\<forall>b < length (c_blocks c). map strip (insts_in c' b) = map strip (insts_in c b)) \<and>
     (\<forall>bs st. path c bs \<longrightarrow> run_path M c' bs st = run_path M c bs st)"

lemma copied_refl: "good M rank c \<Longrightarrow> copied M rank c c"
  by (simp add: copied_def same_flow_def)

lemma copied_trans: "copied M rank c c' \<Longrightarrow> copied M rank c' c'' \<Longrightarrow> copied M rank c c''"
  unfolding copied_def using same_flow_path [of c c'] by (auto simp: same_flow_def)

section \<open>One source\<close>

abbreviation put :: "qinst \<Rightarrow> qinst \<Rightarrow> qinst" where
  "put y x \<equiv> if qi_addr x = qi_addr y then y else x"

lemma insts_in_set_inst: "b < length (c_blocks c) \<Longrightarrow> insts_in (set_inst c y) b = map (put y) (insts_in c b)"
  by (simp add: set_inst_def map_insts_def)

lemma set_inst_flow: "same_flow c (set_inst c y)"
  by (simp add: same_flow_def set_inst_def map_insts_def)

lemma set_inst_reach: "reach (set_inst c y) zs b k \<Longrightarrow> \<exists>xs. zs = map (put y) xs \<and> reach c xs b k"
proof (induction rule: reach.induct)
  case reach_start
  then show ?case using reach.reach_start [of c] by auto
next
  case (reach_inst zs b k)
  then obtain xs where xs: "zs = map (put y) xs" "reach c xs b k" by blast
  note E = insts_in_set_inst [OF conjunct1 [OF reach_block [OF xs(2)]]]
  have k: "k < length (insts_in c b)" using reach_inst.hyps(2) E by simp
  show ?case using reach.reach_inst [OF xs(2) k] xs(1) E k by (intro exI [of _ "xs @ [insts_in c b ! k]"]) simp
next
  case (reach_edge zs b b')
  then obtain xs where xs: "zs = map (put y) xs" "reach c xs b (length (insts_in (set_inst c y) b))" by blast
  then have "reach c xs b (length (insts_in c b))" using insts_in_set_inst [OF conjunct1 [OF reach_block [OF xs(2)]]] by simp
  then show ?case using reach.reach_edge reach_edge.hyps(2) same_flow_edge [OF set_inst_flow] xs(1) by metis
qed

lemma strip_sig: "strip y = strip x \<Longrightarrow> sig (qi_qpu y) = sig (qi_qpu x)"
  by (metis strip_simps(6))

lemma rewritten_quiet:
  assumes "rewritten x y" "length (qi_src x) = 3"
  shows "quiet y = quiet x"
proof -
  note S = strip_eqD [OF rewritten_strip [OF assms(1)]]
  have "computes_only (qi_qpu y) = computes_only (qi_qpu x)" unfolding computes_only_def S strip_sig [OF rewritten_strip [OF assms(1)]] by (rule refl)
  moreover have "q_file (qi_src y ! i) \<in> {QFILE_VARY, QFILE_VPM} \<longleftrightarrow> q_file (qi_src x ! i) \<in> {QFILE_VARY, QFILE_VPM}" if "i < vir_get_nsrc x" for i
  proof -
    have "i < length (qi_src x)" using that nsrc_le [of x] assms(2) by simp
    then have "qi_src y ! i = qi_src x ! i \<or> q_file (qi_src x ! i) = QFILE_TEMP \<and> q_file (qi_src y ! i) \<in> {QFILE_TEMP, QFILE_UNIF}"
      using assms(1) unfolding rewritten_def by blast
    then show ?thesis by auto
  qed
  ultimately show ?thesis unfolding quiet_def S by blast
qed

lemma refines_plain:
  assumes ok: "opt_ok c" and r: "refines c c'"
  shows "plain c \<Longrightarrow> plain c'" "machine_ok M c \<Longrightarrow> machine_ok M c'"
proof -
  have x: "\<exists>x\<in>insts_of c. rewritten x y \<and> length (qi_src x) = 3 \<and> strip y = strip x" if "y \<in> insts_of c'" for y
    using r that opt_okD(2) [OF ok] rewritten_strip unfolding refines_def by blast
  show "plain c'" if "plain c"
    unfolding plain_def
  proof
    fix y assume "y \<in> insts_of c'"
    then obtain x where x: "x \<in> insts_of c" "rewritten x y" "length (qi_src x) = 3" "strip y = strip x" using x by blast
    note S = strip_eqD [OF x(4)]
    have "known_inst y = known_inst x" unfolding known_inst_def computes_only_def S strip_sig [OF x(4)] by (rule refl)
    then show "plain_inst y"
      using that x(1) rewritten_copy_mov [OF x(2,3)] S(6) strip_eq_float(2) [OF x(4)] by (simp add: plain_def plain_inst_def)
  qed
  show "machine_ok M c'" if M: "machine_ok M c"
  proof -
    have "m_world M (qi_addr y) vs w = w" if y: "y \<in> insts_of c'" "quiet y" for y vs w
    proof -
      obtain x where x: "x \<in> insts_of c" "rewritten x y" "length (qi_src x) = 3" "strip y = strip x" using x y(1) by blast
      then show ?thesis using M rewritten_quiet [OF x(2,3)] y(2) strip_eqD(3) [OF x(4)] by (auto simp: machine_ok_def)
    qed
    then show ?thesis using M by (simp add: machine_ok_def)
  qed
qed

lemma refines_writers:
  assumes "refines c c'" "ssa_ok c" "t < num_temps c'" "c_defs c' ! t = Some p" "y \<in> insts_of c'" "sets_temp y t"
  shows "qi_addr y = p"
proof -
  have "skel c' = skel c" using assms(1) by (simp add: refines_def)
  note F = skel_fields [OF this]
  obtain x where x: "x \<in> insts_of c" "rewritten x y" using assms(1,5) unfolding refines_def by blast
  note S = strip_eqD [OF rewritten_strip [OF x(2)]]
  show ?thesis using ssa_okD(1) [OF assms(2) _ _ x(1)] assms(3,4,6) F(1,2) S(3,4) by (simp add: sets_temp_def)
qed

lemma retarget_reads:
  assumes "reads_temp (retarget m i x) t" "length (qi_src x) = 3" "i < 3"
  shows "reads_temp x t \<or> q_file (qi_src m ! 0) = QFILE_TEMP \<and> q_index (qi_src m ! 0) = t"
proof -
  obtain j where j: "j < vir_get_nsrc x" "q_file (qi_src (retarget m i x) ! j) = QFILE_TEMP" "q_index (qi_src (retarget m i x) ! j) = t"
    using assms(1) strip_eqD(1) [OF retarget_simps(1) [of m i x]] by (auto simp: reads_temp_def)
  show ?thesis
  proof (cases "j = i")
    case True
    then show ?thesis using j assms(2,3) by (simp add: retarget_simps)
  next
    case False
    then show ?thesis using j by (auto simp: retarget_simps reads_temp_def)
  qed
qed

text \<open>Source \<open>i\<close> of instruction \<open>k\<close> of block \<open>b\<close> is replaced by the source of the move \<open>m\<close>.\<close>

definition propagates :: "v3d_compile \<Rightarrow> nat option list \<Rightarrow> nat \<Rightarrow> nat \<Rightarrow> nat \<Rightarrow> qinst \<Rightarrow> bool" where
  "propagates c movs b k i m \<longleftrightarrow> b < length (c_blocks c) \<and> k < length (insts_in c b) \<and> movs_at c b k movs \<and> i < vir_get_nsrc (insts_in c b ! k) \<and>
     q_file (qi_src (insts_in c b ! k) ! i) = QFILE_TEMP \<and> available c movs (q_index (qi_src (insts_in c b ! k) ! i)) m \<and>
     \<not> blocked m i (insts_in c b ! k)"

lemma propagatesD:
  assumes "propagates c movs b k i m" "good M rank c" "x = insts_in c b ! k"
  shows "b < length (c_blocks c)" "k < length (insts_in c b)" "movs_at c b k movs" "i < vir_get_nsrc x" "q_file (qi_src x ! i) = QFILE_TEMP"
    "available c movs (q_index (qi_src x ! i)) m" "\<not> blocked m i x" "m \<in> insts_of c" "copy_mov m" "q_index (qi_dst m) = q_index (qi_src x ! i)"
    "x \<in> insts_of c" "length (qi_src x) = 3" "i < 2" "\<not> vir_is_add m" "reads_temp x (q_index (qi_src x ! i))" "q_index (qi_src x ! i) < num_temps c"
proof -
  have P: "b < length (c_blocks c)" "k < length (insts_in c b)" "movs_at c b k movs" "i < vir_get_nsrc x" "q_file (qi_src x ! i) = QFILE_TEMP"
    "available c movs (q_index (qi_src x ! i)) m" "\<not> blocked m i x" using assms(1,3) by (auto simp: propagates_def)
  show "b < length (c_blocks c)" "k < length (insts_in c b)" "movs_at c b k movs" "i < vir_get_nsrc x" "q_file (qi_src x ! i) = QFILE_TEMP"
    "available c movs (q_index (qi_src x ! i)) m" "\<not> blocked m i x" using P .
  have G: "opt_ok c" "plain c" using assms(2) by (auto simp: good_def)
  show m: "m \<in> insts_of c" "copy_mov m" "q_index (qi_dst m) = q_index (qi_src x ! i)" using P(6) by (auto simp: available_def)
  show "\<not> vir_is_add m" using G(2) m by (simp add: plain_def plain_inst_def)
  show x: "x \<in> insts_of c" using block_insts [OF P(1,2)] assms(3) by simp
  show "length (qi_src x) = 3" by (rule opt_okD(2) [OF G(1) x])
  show "i < 2" by (rule temp_source_of_alu(1) [OF opt_okD(7) [OF G(1) x] P(4,5)])
  show "reads_temp x (q_index (qi_src x ! i))" using P(4,5) by (auto simp: reads_temp_def)
  show "q_index (qi_src x ! i) < num_temps c" using opt_okD(3) [OF G(1) x _ P(5)] P(4) nsrc_le [of x] by simp
qed

lemma goodD:
  assumes "good M rank c"
  shows "opt_ok c" "ordered_copies rank c" "ssa_ok c" "plain c" "machine_ok M c" "distinct (map qi_addr (code c))"
  using assms opt_okD(6) by (auto simp: good_def)

lemma reach_position:
  assumes D: "distinct (map qi_addr (code c))" and b: "b < length (c_blocks c)" "k < length (insts_in c b)"
    and r: "reach c xs b' k'" "k' < length (insts_in c b')" "qi_addr (insts_in c b' ! k') = qi_addr (insts_in c b ! k)"
  shows "b' = b \<and> k' = k"
proof (rule position_unique [OF D b])
  show b': "b' < length (c_blocks c)" "k' < length (insts_in c b')" using reach_block [OF r(1)] r(2) by auto
  show "insts_in c b ! k = insts_in c b' ! k'" using same_address [OF D block_insts [OF b] block_insts [OF b'] r(3)] by simp
qed

lemma propagates_holds:
  assumes "good M rank c" "propagates c movs b k i m" "reach c xs b k"
  shows "m \<in> set xs" "holds M (exec M xs st) m"
proof -
  note G = goodD [OF assms(1)] and P = propagatesD [OF assms(2,1) refl]
  show "m \<in> set xs" "holds M (exec M xs st) m" by (rule available_holds [OF G(1,3,4,2) P(3) assms(3) P(2,15,16,6)])+
qed

lemma propagates_exec:
  assumes g: "good M rank c" and p: "propagates c movs b k i m" and "reach c xs b' k'"
  shows "exec M (map (put (retarget m i (insts_in c b ! k))) xs) st = exec M xs st"
  using assms(3)
proof (induction rule: reach.induct)
  case (reach_inst xs b' k')
  let ?x = "insts_in c b ! k"
  note G = goodD [OF g] and P = propagatesD [OF p g refl] and ya = strip_eqD(3) [OF retarget_simps(1) [of m i ?x]]
  show ?case
  proof (cases "qi_addr (insts_in c b' ! k') = qi_addr ?x")
    case True
    note E = reach_position [OF G(6) P(1,2) reach_inst.hyps True]
    have "exec_inst M (retarget m i ?x) (exec M xs st) = exec_inst M ?x (exec M xs st)"
      by (rule retarget_exec [OF G(5) P(12,13,5,9,14,10) _ P(7)]) (use propagates_holds [OF g p] reach_inst.hyps(1) E in blast)
    then show ?thesis using reach_inst.IH True E ya by simp
  next
    case False
    then show ?thesis using reach_inst.IH ya by simp
  qed
qed auto

lemma propagates_runs:
  assumes g: "good M rank c" and p: "propagates c movs b k i m" and bs: "path c bs"
  shows "run_path M (set_inst c (retarget m i (insts_in c b ! k))) bs st = run_path M c bs st"
proof -
  let ?y = "retarget m i (insts_in c b ! k)"
  have "concat (map (insts_in (set_inst c ?y)) bs) = map (put ?y) (concat (map (insts_in c) bs))"
    using path_blocks [OF bs] by (induction bs) (auto simp: insts_in_set_inst)
  then show ?thesis unfolding run_path_def using propagates_exec [OF g p path_reach [OF bs]] by simp
qed

lemma propagates_dominated:
  assumes g: "good M rank c" and p: "propagates c movs b k i m" and e: "executes (set_inst c (retarget m i (insts_in c b ! k))) zs z"
    and u: "reads_temp z u" "c_defs c ! u = Some q"
  shows "q \<in> qi_addr ` set zs"
proof -
  let ?x = "insts_in c b ! k" let ?y = "retarget m i ?x" let ?c = "set_inst c ?y"
  note G = goodD [OF g] and P = propagatesD [OF p g refl] and ya = strip_eqD(3) [OF retarget_simps(1) [of m i ?x]]
  obtain b' k' where r: "reach ?c zs b' k'" "k' < length (insts_in ?c b')" "z = insts_in ?c b' ! k'" using e unfolding executes_def by blast
  obtain xs where xs: "zs = map (put ?y) xs" "reach c xs b' k'" using set_inst_reach [OF r(1)] by blast
  have k': "k' < length (insts_in c b')" "z = put ?y (insts_in c b' ! k')"
    using r(2,3) insts_in_set_inst [OF conjunct1 [OF reach_block [OF xs(2)]]] by auto
  have "executes c xs (insts_in c b' ! k')" using xs(2) k'(1) unfolding executes_def by blast
  note dom = ssa_okD(2) [OF G(3) this _ u(2)]
  have "q \<in> qi_addr ` set xs"
  proof (cases "qi_addr (insts_in c b' ! k') = qi_addr ?x")
    case False
    then show ?thesis using dom u(1) k'(2) ya by simp
  next
    case True
    note E = reach_position [OF G(6) P(1,2) xs(2) k'(1) True]
    have "reads_temp ?y u" using u(1) k'(2) True ya by simp
    then consider "reads_temp ?x u" | "q_file (qi_src m ! 0) = QFILE_TEMP" "q_index (qi_src m ! 0) = u"
      using retarget_reads [OF _ P(12)] P(13) by fastforce
    then show ?thesis
    proof cases
      case 1
      then show ?thesis using dom E by simp
    next
      case 2
      obtain as gs where a: "xs = as @ m # gs" using propagates_holds(1) [OF g p] xs(2) E by (meson split_list)
      have "executes c as m" by (rule reach_split [OF xs(2) a])
      then have "q \<in> qi_addr ` set as" using ssa_okD(2) [OF G(3) _ copy_reads [OF P(9,14) 2(1)]] 2(2) u(2) by simp
      then show ?thesis using a by auto
    qed
  qed
  moreover have "map qi_addr zs = map qi_addr xs" by (simp add: xs(1))
  then have "qi_addr ` set zs = qi_addr ` set xs" by (metis image_set)
  ultimately show ?thesis by simp
qed

lemma retarget_copied:
  assumes g: "good M rank c" and p: "propagates c movs b k i m"
  shows "copied M rank c (set_inst c (retarget m i (insts_in c b ! k)))"
proof -
  let ?c = "set_inst c (retarget m i (insts_in c b ! k))"
  note G = goodD [OF g] and P = propagatesD [OF p g refl]
  have A: "opt_ok ?c" "refines c ?c" "ordered_copies rank ?c" using retarget_advance [OF G(1) P(11,4-6), of rank] G(2) by (auto simp: advance_def)
  have "ssa_ok ?c" unfolding ssa_ok_def using refines_writers [OF A(2) G(3)] propagates_dominated [OF g p] by (metis set_inst_simps(2))
  then have "good M rank ?c" using A refines_plain [OF G(1) A(2)] G(4,5) by (simp add: good_def)
  moreover have "map strip (insts_in ?c b') = map strip (insts_in c b')" if b': "b' < length (c_blocks c)" for b'
  proof -
    have "z = insts_in c b ! k" if "z \<in> set (insts_in c b')" "qi_addr z = qi_addr (retarget m i (insts_in c b ! k))" for z
      using same_address [OF G(6) P(11)] distinct_block(2) [OF G(6) b'] that strip_eqD(3) [OF retarget_simps(1)] by auto
    then show ?thesis using b' by (auto simp: insts_in_set_inst retarget_simps)
  qed
  ultimately show ?thesis using set_inst_flow propagates_runs [OF g p] by (simp add: copied_def)
qed

section \<open>The pass\<close>

lemma copiedD:
  assumes "copied M rank c c'" "b < length (c_blocks c)"
  shows "good M rank c'" "num_temps c' = num_temps c" "length (insts_in c' b) = length (insts_in c b)" "b < length (c_blocks c')"
    "map qi_addr (insts_in c' b) = map qi_addr (insts_in c b)"
    "k < length (insts_in c b) \<Longrightarrow> strip (insts_in c' b ! k) = strip (insts_in c b ! k)"
proof -
  have s: "map strip (insts_in c' b) = map strip (insts_in c b)" using assms by (simp add: copied_def)
  show "good M rank c'" "num_temps c' = num_temps c" "b < length (c_blocks c')" using assms by (auto simp: copied_def same_flow_def)
  show l: "length (insts_in c' b) = length (insts_in c b)" using s map_eq_imp_length_eq by blast
  have "map qi_addr (map strip (insts_in c' b)) = map qi_addr (map strip (insts_in c b))" by (simp only: s)
  then show "map qi_addr (insts_in c' b) = map qi_addr (insts_in c b)" by (simp add: comp_def strip_simps)
  show "strip (insts_in c' b ! k) = strip (insts_in c b ! k)" if "k < length (insts_in c b)"
    using s that l by (metis nth_map)
qed

lemma movs_at_set_inst:
  assumes D: "distinct (map qi_addr (code c))" and b: "b < length (c_blocks c)" "k < length (insts_in c b)"
    and y: "qi_addr y = qi_addr (insts_in c b ! k)" and mv: "movs_at c b k movs"
  shows "movs_at (set_inst c y) b k movs"
proof -
  have "distinct (map qi_addr (insts_in c b))"
    using D distinct_block(1,2) [OF D b(1)] unfolding insts_of_def distinct_map by (meson inj_on_subset)
  then have "qi_addr z \<noteq> qi_addr y" if z: "z \<in> set (take k (insts_in c b))" for z
    using z y b(2) by (auto simp: in_set_conv_nth distinct_conv_nth)
  then have "take k (insts_in (set_inst c y) b) = take k (insts_in c b)"
    unfolding insts_in_set_inst [OF b(1)] take_map by (intro map_idI) auto
  then show ?thesis using mv by (simp add: movs_at_def)
qed

lemma copy_prop_src_copied:
  assumes g: "good M rank c" and mo: "movs_ok c movs" and ma: "movs_at c b k movs" and b: "b < length (c_blocks c)" "k < length (insts_in c b)"
    and i: "i < vir_get_nsrc (insts_in c b ! k)"
  shows "\<exists>c' ch. copy_prop_src (qi_addr (insts_in c b ! k)) movs i (c, progress) = ret (c', ch) \<and> copied M rank c c' \<and>
    movs_ok c' movs \<and> movs_at c' b k movs"
proof -
  let ?x = "insts_in c b ! k"
  note G = goodD [OF g] and x = block_insts [OF b]
  from copy_prop_src_ok [OF G(1) mo x i, of progress] consider
    (same) "copy_prop_src (qi_addr ?x) movs i (c, progress) = ret (c, progress)"
    | (step) m where "q_file (qi_src ?x ! i) = QFILE_TEMP" "available c movs (q_index (qi_src ?x ! i)) m" "\<not> blocked m i ?x"
        "copy_prop_src (qi_addr ?x) movs i (c, progress) = ret (set_inst c (retarget m i ?x), True)" by blast
  then show ?thesis
  proof cases
    case same
    then show ?thesis using copied_refl [OF g] mo ma by blast
  next
    case step
    have p: "propagates c movs b k i m" using step(1-3) b ma i by (simp add: propagates_def)
    have "refines c (set_inst c (retarget m i ?x))" using retarget_advance [OF G(1) x i step(1,2)] by (simp add: advance_def)
    note R = movs_ok_refines [OF G(1) this mo]
    have "movs_at (set_inst c (retarget m i ?x)) b k movs"
      by (rule movs_at_set_inst [OF G(6) b _ ma]) (rule strip_eqD(3) [OF retarget_simps(1)])
    then show ?thesis using step(4) retarget_copied [OF g p] R by blast
  qed
qed

lemma copy_prop_srcs_copied:
  assumes "good M rank c" "movs_ok c movs" "movs_at c b k movs" "b < length (c_blocks c)" "k < length (insts_in c b)"
    and "set is \<subseteq> {..<vir_get_nsrc (insts_in c b ! k)}"
  shows "\<exists>c' ch. fold_run (copy_prop_src (qi_addr (insts_in c b ! k)) movs) is (c, progress) = ret (c', ch) \<and> copied M rank c c' \<and>
    movs_ok c' movs \<and> movs_at c' b k movs"
  using assms
proof (induction "is" arbitrary: c progress)
  case Nil
  then show ?case using copied_refl by auto
next
  case (Cons i ids)
  obtain c1 ch1 where s: "copy_prop_src (qi_addr (insts_in c b ! k)) movs i (c, progress) = ret (c1, ch1)" "copied M rank c c1"
    "movs_ok c1 movs" "movs_at c1 b k movs" using copy_prop_src_copied [OF Cons.prems(1-5), of i progress] Cons.prems(6) by auto
  note C = copiedD [OF s(2) Cons.prems(4)]
  note S = strip_eqD [OF C(6) [OF Cons.prems(5)]]
  have k: "k < length (insts_in c1 b)" "set ids \<subseteq> {..<vir_get_nsrc (insts_in c1 b ! k)}" using C(3) Cons.prems(5,6) S(1) by auto
  show ?case using Cons.IH [OF C(1) s(3,4) C(4) k, of ch1] s(1) S(3) copied_trans [OF s(2)] by auto
qed

lemma movs_at_Suc:
  assumes k: "k < length (insts_in c b)" "x = insts_in c b ! k" and ma: "movs_at c b k movs" and bl: "b < length (c_blocks c)"
    and old: "\<And>t p m. t < num_temps c \<Longrightarrow> movs' ! t = Some p \<Longrightarrow> \<not> (p = qi_addr x \<and> copy_mov x) \<Longrightarrow> movs ! t = Some p \<and>
      (\<forall>m\<in>insts_of c. qi_addr m = p \<and> q_file (qi_dst x) = QFILE_TEMP \<longrightarrow> \<not> ends_mov (q_index (qi_dst x)) m)"
  shows "movs_at c b (Suc k) movs'"
  unfolding movs_at_def
proof (intro allI impI)
  fix t p assume t: "t < num_temps c" "movs' ! t = Some p"
  have tk: "take (Suc k) (insts_in c b) = take k (insts_in c b) @ [x]" using k by (simp add: take_Suc_conv_app_nth)
  show "\<exists>ys m zs. take (Suc k) (insts_in c b) = ys @ m # zs \<and> qi_addr m = p \<and>
    (\<forall>z\<in>set zs. q_file (qi_dst z) = QFILE_TEMP \<longrightarrow> \<not> ends_mov (q_index (qi_dst z)) m)"
  proof (cases "p = qi_addr x \<and> copy_mov x")
    case True
    then show ?thesis using tk by (intro exI [of _ "take k (insts_in c b)"] exI [of _ x] exI [of _ "[]"]) simp
  next
    case False
    note O = old [OF t False]
    obtain ys m zs where m: "take k (insts_in c b) = ys @ m # zs" "qi_addr m = p"
      "\<forall>z\<in>set zs. q_file (qi_dst z) = QFILE_TEMP \<longrightarrow> \<not> ends_mov (q_index (qi_dst z)) m" using ma t(1) O unfolding movs_at_def by blast
    have "m \<in> set (take k (insts_in c b))" by (simp add: m(1))
    then have "m \<in> insts_of c" using in_set_takeD nth_mem [OF bl] by (fastforce simp: insts_of_def)
    then show ?thesis using tk m O by (intro exI [of _ ys] exI [of _ m] exI [of _ "zs @ [x]"]) auto
  qed
qed

lemma copy_prop_inst_copied:
  assumes g: "good M rank c" and mo: "movs_ok c movs" and ma: "movs_at c b k movs" and b: "b < length (c_blocks c)" "k < length (insts_in c b)"
  shows "\<exists>c' movs' ch. copy_prop_inst (qi_addr (insts_in c b ! k)) (c, movs, progress) = ret (c', movs', ch) \<and> copied M rank c c' \<and>
    movs_ok c' movs' \<and> movs_at c' b (Suc k) movs'"
proof -
  let ?x = "insts_in c b ! k"
  note G = goodD [OF g] and x = block_insts [OF b]
  have sub: "set [0..<vir_get_nsrc ?x] \<subseteq> {..<vir_get_nsrc ?x}" by auto
  obtain c1 ch1 where s: "fold_run (copy_prop_src (qi_addr ?x) movs) [0..<vir_get_nsrc ?x] (c, False) = ret (c1, ch1)" "copied M rank c c1"
    "movs_ok c1 movs" "movs_at c1 b k movs" using copy_prop_srcs_copied [OF g mo ma b sub] by blast
  note C = copiedD [OF s(2) b(1)]
  let ?y = "insts_in c1 b ! k"
  have k1: "k < length (insts_in c1 b)" using C(3) b(2) by simp
  note y = block_insts [OF C(4) k1] and ok1 = goodD(1) [OF C(1)] and S = strip_eqD [OF C(6) [OF b(2)]]
  have tr: "try_copy_prop c (qi_addr ?x) movs = ret (c1, ch1)" using s(1) opt_okD(1) [OF G(1) x] by (simp add: try_copy_prop_def)
  obtain movs1 where kl: "apply_kills c1 movs ?y = ret movs1" "movs_ok c1 movs1" and old: "\<forall>t < num_temps c1. \<forall>p. movs1 ! t = Some p \<longrightarrow> movs ! t = Some p \<and>
      (\<forall>m\<in>insts_of c1. qi_addr m = p \<and> q_file (qi_dst ?y) = QFILE_TEMP \<longrightarrow> \<not> ends_mov (q_index (qi_dst ?y)) m)"
    using apply_kills_ok [OF ok1 s(3)] by blast
  define movs2 where "movs2 = (if copy_mov ?y then movs1[q_index (qi_dst ?y) := Some (qi_addr ?x)] else movs1)"
  have r: "copy_prop_inst (qi_addr ?x) (c, movs, progress) = ret (c1, movs2, ch1 \<or> progress)"
    using tr kl is_copy_mov_eq [OF opt_okD(2) [OF ok1 y]] opt_okD(1) [OF ok1 y] S(3) copy_indices(1) [OF ok1 y]
    by (simp add: copy_prop_inst_def movs2_def update_at_def movs_ok_def)
  have mo2: "movs_ok c1 movs2" using copy_prop_inst_advance [OF G(1) mo x, of progress rank] r by auto
  have "movs_at c1 b (Suc k) movs2"
  proof (rule movs_at_Suc [OF k1 refl s(4) C(4)])
    fix t p assume t: "t < num_temps c1" "movs2 ! t = Some p" "\<not> (p = qi_addr ?y \<and> copy_mov ?y)"
    have "t < length movs1" using kl(2) t(1) by (simp add: movs_ok_def)
    then have "movs1 ! t = Some p" using t(2,3) S(3) by (cases "t = q_index (qi_dst ?y)") (auto simp: movs2_def split: if_splits)
    then show "movs ! t = Some p \<and> (\<forall>m\<in>insts_of c1. qi_addr m = p \<and> q_file (qi_dst ?y) = QFILE_TEMP \<longrightarrow> \<not> ends_mov (q_index (qi_dst ?y)) m)"
      using old t(1) by blast
  qed
  then show ?thesis using r s(2) mo2 by blast
qed

lemma copy_prop_insts_copied:
  assumes "good M rank c" "movs_ok c movs" "movs_at c b k movs" "b < length (c_blocks c)" "k \<le> length (insts_in c b)"
  shows "\<exists>c' movs' ch. fold_run copy_prop_inst (drop k (map qi_addr (insts_in c b))) (c, movs, progress) = ret (c', movs', ch) \<and> copied M rank c c'"
  using assms
proof (induction "length (insts_in c b) - k" arbitrary: c movs progress k)
  case 0
  then show ?case using copied_refl by auto
next
  case (Suc n)
  then have k: "k < length (insts_in c b)" by simp
  obtain c1 movs1 ch1 where s: "copy_prop_inst (qi_addr (insts_in c b ! k)) (c, movs, progress) = ret (c1, movs1, ch1)" "copied M rank c c1"
    "movs_ok c1 movs1" "movs_at c1 b (Suc k) movs1" using copy_prop_inst_copied [OF Suc.prems(1-4) k] by blast
  note C = copiedD [OF s(2) Suc.prems(4)]
  have d: "drop k (map qi_addr (insts_in c b)) = qi_addr (insts_in c b ! k) # drop (Suc k) (map qi_addr (insts_in c1 b))"
    using k C(5) by (simp add: Cons_nth_drop_Suc [symmetric])
  have "n = length (insts_in c1 b) - Suc k" "Suc k \<le> length (insts_in c1 b)" using C(3) Suc.hyps(2) k by auto
  from Suc.hyps(1) [OF this(1) C(1) s(3,4) C(4) this(2), of ch1] show ?case unfolding d using s(1) copied_trans [OF s(2)] by auto
qed

lemma copy_propagate_copied:
  assumes g: "good M rank c"
  shows "\<exists>c' ch. vir_opt_copy_propagate c = ret (c', ch) \<and> copied M rank c c'"
proof -
  have "\<exists>c' ch. fold_run copy_prop_block bs (c1, progress) = ret (c', ch) \<and> copied M rank c1 c'"
    if "good M rank c1" "set bs \<subseteq> {..<length (c_blocks c1)}" for bs c1 progress
    using that
  proof (induction bs arbitrary: c1 progress)
    case Nil
    then show ?case using copied_refl by auto
  next
    case (Cons b bs)
    have b: "b < length (c_blocks c1)" using Cons.prems(2) by simp
    have "movs_ok c1 (replicate (num_temps c1) None)" "movs_at c1 b 0 (replicate (num_temps c1) None)" by (simp_all add: movs_ok_def movs_at_def)
    from copy_prop_insts_copied [OF Cons.prems(1) this b, of progress] obtain c2 movs ch where
      s: "copy_prop_block b (c1, progress) = ret (c2, ch)" "copied M rank c1 c2" using b by (auto simp: copy_prop_block_def)
    have "good M rank c2" "set bs \<subseteq> {..<length (c_blocks c2)}" using s(2) Cons.prems(2) by (auto simp: copied_def same_flow_def)
    from Cons.IH [OF this, of ch] show ?case using s(1) copied_trans [OF s(2)] by auto
  qed
  from this [OF g, of "[0..<length (c_blocks c)]" False] show ?thesis by (force simp: vir_opt_copy_propagate_def)
qed

end
