(* ===== verification/Vir_Opt_Sound.thy ===== *)
theory Vir_Opt_Sound
  imports Vir_Opt_Correct
begin

text \<open>
  Dead code elimination changes neither the world nor a temporary that some instruction reads, and it keeps the
  SSA form; so does the loop over the passes.
\<close>

section \<open>Execution of the remaining instructions\<close>

definition agree_on :: "nat set \<Rightarrow> ('v, 'w) mstate \<Rightarrow> ('v, 'w) mstate \<Rightarrow> bool" where
  "agree_on T st st' \<longleftrightarrow> snd st' = snd st \<and> (\<forall>t\<in>T. fst st' t = fst st t)"

definition read_temps :: "v3d_compile \<Rightarrow> nat set" where
  "read_temps c = {t. \<exists>x\<in>insts_of c. reads_temp x t}"

lemma operand_agree:
  assumes "agree_on (read_temps c) st st'" "x \<in> insts_of c" "i < vir_get_nsrc x"
  shows "operand M st' x i = operand M st x i"
proof -
  have "fst st' (q_index (qi_src x ! i)) = fst st (q_index (qi_src x ! i))" if "q_file (qi_src x ! i) = QFILE_TEMP"
    using assms that by (auto simp: agree_on_def read_temps_def reads_temp_def)
  then show ?thesis using assms(1) by (cases "q_file (qi_src x ! i)") (auto simp: operand_def read_src_def agree_on_def)
qed

lemma operands_agree:
  "agree_on (read_temps c) st st' \<Longrightarrow> x \<in> insts_of c \<Longrightarrow> operands M st' x = operands M st x"
  by (simp add: operands_def operand_agree)

lemma null_dst_operands:
  assumes "q_file (qi_dst x) = QFILE_TEMP"
  shows "operands M st (null_dst x) = operands M st x"
proof -
  have "vir_is_float_input (null_dst x) = vir_is_float_input x" "unpack_of (null_dst x) i = unpack_of x i" for i
    unfolding vir_is_float_input_def unpack_of_def vir_is_add_def null_dst_simps by (rule refl)+
  then show ?thesis unfolding operands_def operand_def null_dst_nsrc(1) [OF assms] by simp
qed

lemma copy_nsrc: "copy_mov m \<Longrightarrow> \<not> vir_is_add m \<Longrightarrow> 0 < vir_get_nsrc m"
  by (auto simp: copy_mov_def vir_is_add_def vir_get_nsrc_def vir_get_non_sideband_nsrc_def v3d_qpu_mul_op_num_src_def)

lemma exec_same:
  assumes a: "agree_on (read_temps c) st st'" and pl: "plain c" and x: "x \<in> insts_of c"
  shows "agree_on (read_temps c) (exec_inst M x st) (exec_inst M x st')"
proof -
  have "operand M st' x 0 = operand M st x 0" if "copy_mov x"
    using operand_agree [OF a x] copy_nsrc [OF that] pl x that by (simp add: plain_def plain_inst_def)
  then show ?thesis using a operands_agree [OF a x] by (auto simp: agree_on_def exec_inst_def)
qed

lemma exec_unused:
  assumes "agree_on T st st'" "\<And>t. sets_temp x t \<Longrightarrow> t \<notin> T" "\<And>vs w. m_world M (qi_addr x) vs w = w"
  shows "agree_on T (exec_inst M x st) st'"
  using assms by (auto simp: agree_on_def exec_inst_def)

lemma exec_null_dst:
  assumes a: "agree_on (read_temps c) st st'" and x: "x \<in> insts_of c" "q_file (qi_dst x) = QFILE_TEMP" and t: "\<And>t. sets_temp x t \<Longrightarrow> t \<notin> read_temps c"
  shows "agree_on (read_temps c) (exec_inst M x st) (exec_inst M (null_dst x) st')"
  using a t operands_agree [OF a x(1), of M] null_dst_operands [OF x(2), of M st'] by (auto simp: agree_on_def exec_inst_def sets_temp_def)

section \<open>The pass\<close>

text \<open>The outcome of the pass, with the list that every instruction has become.\<close>

definition pruned_to :: "(nat \<Rightarrow> nat) \<Rightarrow> v3d_compile \<Rightarrow> (qinst \<Rightarrow> qinst list) \<Rightarrow> v3d_compile \<Rightarrow> bool" where
  "pruned_to rank c fate c' \<longleftrightarrow> opt_ok c' \<and> ordered_copies rank c' \<and> fated fate c c' \<and> num_temps c' = num_temps c \<and> vattr_sizes c' = vattr_sizes c \<and>
     (\<forall>t < num_temps c. \<forall>p. c_defs c' ! t = Some p \<longrightarrow> c_defs c ! t = Some p) \<and>
     (\<forall>x\<in>insts_of c. fate x = [x] \<or> (\<forall>t. sets_temp x t \<longrightarrow> t \<notin> read_temps c) \<and>
        (fate x = [null_dst x] \<and> q_file (qi_dst x) = QFILE_TEMP \<or> fate x = [] \<and> quiet x))"

lemma dead_code_pruned:
  assumes g: "good M rank c" and v: "vpm_sized c"
  shows "\<exists>c' ch fate. vir_opt_dead_code c = ret (c', ch) \<and> pruned_to rank c fate c' \<and> (\<not> ch \<longrightarrow> c' = c) \<and> (ch \<longrightarrow> weight rank c' < weight rank c)"
proof -
  note G = goodD [OF g]
  obtain c' ch used fate where s: "vir_opt_dead_code c = ret (c', ch)" "length used = num_temps c"
    "\<forall>t < num_temps c. used ! t \<longleftrightarrow> (\<exists>x\<in>insts_of c. reads_temp x t)" "dead_inv rank used c fate (insts_of c) c' ch"
    using dead_code_ok [OF G(1)] by blast
  note D = dead_invD [OF s(4)]
  have un: "t \<notin> read_temps c" if "x \<in> insts_of c" "unused_dst used x" "sets_temp x t" for x t
    using that s(3) opt_okD(4) [OF G(1) that(1)] by (auto simp: unused_dst_def sets_temp_def read_temps_def)
  have "fate x = [x] \<or> (\<forall>t. sets_temp x t \<longrightarrow> t \<notin> read_temps c) \<and>
      (fate x = [null_dst x] \<and> q_file (qi_dst x) = QFILE_TEMP \<or> fate x = [] \<and> quiet x)" if x: "x \<in> insts_of c" for x
  proof -
    have p: "plain_inst x" using G(4) x by (simp add: plain_def)
    have "quiet x" if "dead c used x" using that v p known_pure [of x] by (auto simp: dead_def quiet_def plain_inst_def unused_dst_def)
    moreover have "unused_dst used x" if "dead c used x" using that by (simp add: dead_def)
    ultimately show ?thesis using D(5) [OF x x] un [OF x] unfolding settled_def by blast
  qed
  then have "pruned_to rank c fate c'" using D(1,2,6-8,12) v G(2) by (simp add: pruned_to_def)
  then show ?thesis using s(1) D(10,11) by blast
qed

lemma pruned_toD:
  assumes "pruned_to rank c fate c'"
  shows "opt_ok c'" "ordered_copies rank c'" "fated fate c c'" "num_temps c' = num_temps c" "vattr_sizes c' = vattr_sizes c"
    "t < num_temps c \<Longrightarrow> c_defs c' ! t = Some p \<Longrightarrow> c_defs c ! t = Some p" "same_flow c c'" "insts_of c' = (\<Union>x\<in>insts_of c. set (fate x))"
    "b < length (c_blocks c) \<Longrightarrow> insts_in c' b = concat (map fate (insts_in c b))"
  using assms insts_of_fated by (auto simp: pruned_to_def fated_def same_flow_def)

lemma fate_cases:
  assumes "pruned_to rank c fate c'" "x \<in> insts_of c"
  obtains (keep) "fate x = [x]" | (null) "fate x = [null_dst x]" "q_file (qi_dst x) = QFILE_TEMP" "\<And>t. sets_temp x t \<Longrightarrow> t \<notin> read_temps c"
    | (drop) "fate x = []" "quiet x" "\<And>t. sets_temp x t \<Longrightarrow> t \<notin> read_temps c"
  using assms unfolding pruned_to_def by blast

lemma exec_fates:
  assumes p: "pruned_to rank c fate c'" and g: "good M rank c" and "set xs \<subseteq> insts_of c" and "agree_on (read_temps c) st st'"
  shows "agree_on (read_temps c) (exec M xs st) (exec M (concat (map fate xs)) st')"
  using assms(3,4)
proof (induction xs arbitrary: st st')
  case (Cons x xs)
  have x: "x \<in> insts_of c" using Cons.prems(1) by simp
  have "agree_on (read_temps c) (exec_inst M x st) (exec M (fate x) st')"
    using p x
  proof (cases rule: fate_cases)
    case keep
    then show ?thesis using exec_same [OF Cons.prems(2) goodD(4) [OF g] x] by simp
  next
    case null
    then show ?thesis using exec_null_dst [OF Cons.prems(2) x null(2,3)] by simp
  next
    case drop
    then have "m_world M (qi_addr x) vs w = w" for vs w using goodD(5) [OF g] x by (simp add: machine_ok_def)
    then show ?thesis using exec_unused [OF Cons.prems(2) drop(3)] drop(1) by simp
  qed
  then show ?case using Cons.IH Cons.prems(1) by simp
qed simp

lemma pruned_runs:
  assumes p: "pruned_to rank c fate c'" and g: "good M rank c" and bs: "path c bs"
  shows "snd (run_path M c' bs st) = snd (run_path M c bs st)"
proof -
  have e: "concat (map (insts_in c') bs) = concat (map fate (concat (map (insts_in c) bs)))"
    using path_blocks [OF bs] by (induction bs) (auto simp: pruned_toD(9) [OF p])
  have "agree_on (read_temps c) st st" by (simp add: agree_on_def)
  from exec_fates [OF p g reach_insts [OF path_reach [OF bs]] this] show ?thesis by (simp add: run_path_def e agree_on_def)
qed

section \<open>The SSA form\<close>

lemma concat_fates_Cons:
  assumes "concat (map fate l) = z # zs" "\<forall>x\<in>set l. length (fate x) \<le> 1"
  shows "\<exists>l1 x l2. l = l1 @ x # l2 \<and> concat (map fate l1) = [] \<and> fate x = [z]"
  using assms
proof (induction l)
  case (Cons y l)
  show ?case
  proof (cases "fate y")
    case Nil
    then obtain l1 x l2 where "l = l1 @ x # l2" "concat (map fate l1) = []" "fate x = [z]" using Cons by auto
    then show ?thesis using Nil by (intro exI [of _ "y # l1"] exI [of _ x] exI [of _ l2]) simp
  next
    case (Cons a as)
    then have "fate y = [z]" using Cons.prems by (cases as) auto
    then show ?thesis by (intro exI [of _ "[]"] exI [of _ y] exI [of _ l]) simp
  qed
qed simp

lemma fate_length: "pruned_to rank c fate c' \<Longrightarrow> x \<in> insts_of c \<Longrightarrow> length (fate x) \<le> 1"
  by (cases rule: fate_cases) auto

text \<open>Paths of the pruned program come from paths of the program.\<close>

lemma pruned_next:
  assumes p: "pruned_to rank c fate c'" and r: "reach c xs b k" and k': "k' = length (concat (map fate (take k (insts_in c b))))"
    "k' < length (insts_in c' b)"
  shows "\<exists>l x. reach c (xs @ l) b (k + length l) \<and> concat (map fate l) = [] \<and> k + length l < length (insts_in c b) \<and>
    x = insts_in c b ! (k + length l) \<and> fate x = [insts_in c' b ! k'] \<and> take (k + length l) (insts_in c b) = take k (insts_in c b) @ l"
proof -
  let ?l = "insts_in c b"
  have b: "b < length (c_blocks c)" using reach_block [OF r] by blast
  have "insts_in c' b = concat (map fate (take k ?l)) @ concat (map fate (drop k ?l))"
    unfolding pruned_toD(9) [OF p b] by (metis append_take_drop_id concat_append map_append)
  then obtain zs where zs: "concat (map fate (drop k ?l)) = insts_in c' b ! k' # zs"
    using k' by (cases "concat (map fate (drop k ?l))") (auto simp: nth_append)
  have le: "\<forall>x\<in>set (drop k ?l). length (fate x) \<le> 1"
    using fate_length [OF p] nth_mem [OF b] by (auto simp: insts_of_def dest: in_set_dropD)
  obtain l1 x l2 where l: "drop k ?l = l1 @ x # l2" "concat (map fate l1) = []" "fate x = [insts_in c' b ! k']"
    using concat_fates_Cons [OF zs le] by blast
  have len: "k + length l1 < length ?l" using arg_cong [OF l(1), of length] by simp
  have tk: "take (length l1) (drop k ?l) = l1" using l(1) by simp
  then have "reach c (xs @ l1) b (k + length l1)" using reach_through [OF r, of "length l1"] len by simp
  moreover have "?l ! (k + length l1) = x" using len l(1) nth_drop [of k ?l "length l1"] by (simp add: nth_append)
  moreover have "take (k + length l1) ?l = take k ?l @ l1" using tk by (simp add: take_add)
  ultimately show ?thesis using l(2,3) len by blast
qed

lemma pruned_reach:
  assumes p: "pruned_to rank c fate c'" and "reach c' zs b k'"
  shows "\<exists>xs k. reach c xs b k \<and> zs = concat (map fate xs) \<and> k' = length (concat (map fate (take k (insts_in c b))))"
  using assms(2)
proof (induction rule: reach.induct)
  case reach_start
  then have "reach c [] 0 0" using pruned_toD(7) [OF p] by (intro reach.reach_start) (auto simp: same_flow_def)
  then show ?case by force
next
  case (reach_inst zs b k')
  then obtain xs k where r: "reach c xs b k" "zs = concat (map fate xs)" "k' = length (concat (map fate (take k (insts_in c b))))" by blast
  obtain l x where l: "reach c (xs @ l) b (k + length l)" "concat (map fate l) = []" "k + length l < length (insts_in c b)"
    "x = insts_in c b ! (k + length l)" "fate x = [insts_in c' b ! k']" "take (k + length l) (insts_in c b) = take k (insts_in c b) @ l"
    using pruned_next [OF p r(1,3) reach_inst.hyps(2)] by blast
  have t: "take (Suc (k + length l)) (insts_in c b) = take k (insts_in c b) @ l @ [x]" using l(3,4,6) by (simp add: take_Suc_conv_app_nth)
  have "reach c ((xs @ l) @ [x]) b (Suc (k + length l))" using reach.reach_inst [OF l(1,3)] l(4) by simp
  moreover have "zs @ [insts_in c' b ! k'] = concat (map fate ((xs @ l) @ [x]))" using r(2) l(2,5) by simp
  moreover have "Suc k' = length (concat (map fate (take (Suc (k + length l)) (insts_in c b))))"
    unfolding t using r(3) l(2,5) by simp
  ultimately show ?case by blast
next
  case (reach_edge zs b b')
  then obtain xs k where r: "reach c xs b k" "zs = concat (map fate xs)"
    "length (insts_in c' b) = length (concat (map fate (take k (insts_in c b))))" by blast
  let ?l = "insts_in c b"
  have b: "b < length (c_blocks c)" "k \<le> length ?l" using reach_block [OF r(1)] by auto
  have "concat (map fate (take k ?l)) @ concat (map fate (drop k ?l)) = concat (map fate ?l)" by (metis append_take_drop_id concat_append map_append)
  then have n: "concat (map fate (drop k ?l)) = []" using r(3) unfolding pruned_toD(9) [OF p b(1)] by (metis append.right_neutral append_eq_append_conv)
  have "reach c (xs @ drop k ?l) b (length ?l)" using reach_through [OF r(1), of "length ?l - k"] b(2) by simp
  then have "reach c (xs @ drop k ?l) b' 0" using reach.reach_edge reach_edge.hyps(2) same_flow_edge [OF pruned_toD(7) [OF p]] by metis
  moreover have "zs = concat (map fate (xs @ drop k ?l))" using r(2) n by simp
  ultimately show ?case by force
qed

lemma null_dst_reads: "q_file (qi_dst x) = QFILE_TEMP \<Longrightarrow> reads_temp (null_dst x) t = reads_temp x t"
  by (simp add: reads_temp_def null_dst_nsrc)

lemma fate_reads:
  assumes "pruned_to rank c fate c'" "x \<in> insts_of c" "y \<in> set (fate x)"
  shows "reads_temp y t = reads_temp x t" "vir_get_nsrc y = vir_get_nsrc x" "qi_src y = qi_src x" "qi_addr y = qi_addr x" "quiet y \<Longrightarrow> quiet x" "qi_qpu y = qi_qpu x"
    "sets_temp y t \<Longrightarrow> sets_temp x t" "copy_mov y \<Longrightarrow> copy_mov x"
proof -
  have e: "y = x \<or> y = null_dst x \<and> q_file (qi_dst x) = QFILE_TEMP" using assms(1,2) by (cases rule: fate_cases) (use assms(3) in auto)
  then show "reads_temp y t = reads_temp x t" "vir_get_nsrc y = vir_get_nsrc x" "qi_src y = qi_src x" "qi_addr y = qi_addr x" "qi_qpu y = qi_qpu x"
    using null_dst_reads null_dst_nsrc(1) by auto
  show "sets_temp y t \<Longrightarrow> sets_temp x t" "copy_mov y \<Longrightarrow> copy_mov x" using e by (auto simp: sets_temp_def copy_mov_def)
  show "quiet y \<Longrightarrow> quiet x" using e by (auto simp: quiet_def null_dst_nsrc)
qed

lemma pruned_executes:
  assumes p: "pruned_to rank c fate c'" and e: "executes c' zs z"
  shows "\<exists>xs x. executes c xs x \<and> fate x = [z] \<and> zs = concat (map fate xs)"
proof -
  obtain b k' where r: "reach c' zs b k'" "k' < length (insts_in c' b)" "z = insts_in c' b ! k'" using e unfolding executes_def by blast
  obtain xs k where k: "reach c xs b k" "zs = concat (map fate xs)" "k' = length (concat (map fate (take k (insts_in c b))))"
    using pruned_reach [OF p r(1)] by blast
  obtain l x where l: "reach c (xs @ l) b (k + length l)" "concat (map fate l) = []" "k + length l < length (insts_in c b)"
    "x = insts_in c b ! (k + length l)" "fate x = [insts_in c' b ! k']" using pruned_next [OF p k(1,3) r(2)] by blast
  have "executes c (xs @ l) x" using l(1,3,4) unfolding executes_def by blast
  moreover have "zs = concat (map fate (xs @ l))" using k(2) l(2) by simp
  ultimately show ?thesis using l(5) r(3) by blast
qed

lemma pruned_ssa:
  assumes p: "pruned_to rank c fate c'" and ok: "opt_ok c" and ssa: "ssa_ok c"
  shows "ssa_ok c'"
  unfolding ssa_ok_def
proof (intro conjI allI impI ballI)
  note P = pruned_toD [OF p]
  fix t q y assume t: "t < num_temps c'" "c_defs c' ! t = Some q" "y \<in> insts_of c'" "sets_temp y t"
  obtain x where x: "x \<in> insts_of c" "y \<in> set (fate x)" using t(3) P(8) by blast
  note F = fate_reads [OF p x]
  show "qi_addr y = q" using ssa_okD(1) [OF ssa _ P(6) x(1) F(7) [OF t(4)]] t(1,2) P(4) F(4) by simp
next
  note P = pruned_toD [OF p]
  fix zs z t q assume e: "executes c' zs z" "reads_temp z t" "c_defs c' ! t = Some q"
  obtain xs x where x: "executes c xs x" "fate x = [z]" "zs = concat (map fate xs)" using pruned_executes [OF p e(1)] by blast
  have xc: "x \<in> insts_of c" "set xs \<subseteq> insts_of c" using executes_insts [OF x(1)] by auto
  have rd: "reads_temp x t" using fate_reads(1) [OF p xc(1)] x(2) e(2) by simp
  obtain i where "i < vir_get_nsrc x" "q_file (qi_src x ! i) = QFILE_TEMP" "q_index (qi_src x ! i) = t" using rd by (auto simp: reads_temp_def)
  then have t: "t < num_temps c" using opt_okD(3) [OF ok xc(1)] nsrc_le [of x] by fastforce
  note d = P(6) [OF t e(3)]
  obtain w where w: "w \<in> insts_of c" "qi_addr w = q" "sets_temp w t" using opt_okD(8) [OF ok] t d unfolding defs_ok_def sets_temp_def by blast
  have "q \<in> qi_addr ` set xs" by (rule ssa_okD(2) [OF ssa x(1) rd d])
  then have "w \<in> set xs" using addr_mem [OF opt_okD(6) [OF ok] w(1) xc(2)] w(2) by simp
  moreover have rt: "t \<in> read_temps c" using rd xc(1) by (auto simp: read_temps_def)
  have "fate w = [w]" using p w(1) by (cases rule: fate_cases) (use w(3) rt in auto)
  ultimately have "w \<in> set zs" unfolding x(3) by (auto intro!: bexI [of _ w])
  then show "q \<in> qi_addr ` set zs" using w(2) by blast
qed

lemma pruned_good:
  assumes p: "pruned_to rank c fate c'" and g: "good M rank c" and v: "vpm_sized c"
  shows "good M rank c'" "vpm_sized c'"
proof -
  note P = pruned_toD [OF p] and G = goodD [OF g]
  have o: "\<exists>x\<in>insts_of c. y \<in> set (fate x)" if "y \<in> insts_of c'" for y using that P(8) by blast
  have "plain c'" unfolding plain_def
  proof
    fix y assume "y \<in> insts_of c'"
    then obtain x where x: "x \<in> insts_of c" "y \<in> set (fate x)" using o by blast
    note F = fate_reads [OF p x]
    show "plain_inst y"
      using G(4) x(1) F(8) unfolding plain_def plain_inst_def known_inst_def vir_is_add_def F(6) by blast
  qed
  moreover have "m_world M (qi_addr y) vs w = w" if "y \<in> insts_of c'" "quiet y" for y vs w
    using o [OF that(1)] fate_reads(4,5) [OF p] that(2) G(5) by (metis machine_ok_def)
  then have "machine_ok M c'" using G(5) by (simp add: machine_ok_def)
  ultimately show "good M rank c'" using P(1,2) pruned_ssa [OF p G(1,3)] by (simp add: good_def)
  have "q_index (qi_src y ! i) mod 4 < unat (vattr_sizes c' ! (q_index (qi_src y ! i) div 4))"
    if y: "y \<in> insts_of c'" "i < vir_get_nsrc y" "q_file (qi_src y ! i) = QFILE_VPM" for y i
  proof -
    obtain x where x: "x \<in> insts_of c" "y \<in> set (fate x)" using o y(1) by blast
    note F = fate_reads(2,3) [OF p x]
    show ?thesis using v x(1) y(2,3) unfolding P(5) F vpm_sized_def by blast
  qed
  then show "vpm_sized c'" unfolding vpm_sized_def by blast
qed

section \<open>The loop over the passes\<close>

lemma refines_vpm_sized:
  assumes r: "refines c c'" and ok: "opt_ok c" and v: "vpm_sized c"
  shows "vpm_sized c'"
  unfolding vpm_sized_def
proof (intro ballI allI impI)
  fix y i assume y: "y \<in> insts_of c'" "i < vir_get_nsrc y" "q_file (qi_src y ! i) = QFILE_VPM"
  have "skel c' = skel c" using r by (simp add: refines_def)
  note F = skel_fields(3) [OF this]
  obtain x where x: "x \<in> insts_of c" "rewritten x y" using r y(1) unfolding refines_def by blast
  note S = strip_eqD(1) [OF rewritten_strip [OF x(2)]]
  have "i < length (qi_src x)" using y(2) S nsrc_le [of x] opt_okD(2) [OF ok x(1)] by simp
  then have "qi_src y ! i = qi_src x ! i" using x(2) y(3) unfolding rewritten_def by fastforce
  then show "q_index (qi_src y ! i) mod 4 < unat (vattr_sizes c' ! (q_index (qi_src y ! i) div 4))"
    using v x(1) y(2,3) S unfolding vpm_sized_def F by simp
qed

lemma optimize_sound:
  assumes "good M rank c" "vpm_sized c"
  shows "\<exists>c'. vir_optimize c = ret c' \<and> good M rank c' \<and> same_flow c c' \<and> (\<forall>bs st. path c bs \<longrightarrow> snd (run_path M c' bs st) = snd (run_path M c bs st))"
  using assms
proof (induction "weight rank c" arbitrary: c rule: less_induct)
  case less
  note G = goodD [OF less.prems(1)]
  obtain c1 p1 where s1: "vir_opt_copy_propagate c = ret (c1, p1)" "copied M rank c c1" using copy_propagate_copied [OF less.prems(1)] by blast
  have a: "advance rank c c1 p1" using copy_propagate_advance [OF G(1), of rank] s1(1) by auto
  then have w1: "if p1 then weight rank c1 < weight rank c else c1 = c" "refines c c1" using G(2) by (auto simp: advance_def)
  have c1: "good M rank c1" "same_flow c c1" "vpm_sized c1" "\<And>bs st. path c bs \<Longrightarrow> run_path M c1 bs st = run_path M c bs st"
    using s1(2) refines_vpm_sized [OF w1(2) G(1) less.prems(2)] by (auto simp: copied_def)
  obtain c2 p2 fate where s2: "vir_opt_dead_code c1 = ret (c2, p2)" "pruned_to rank c1 fate c2" "\<not> p2 \<longrightarrow> c2 = c1" "p2 \<longrightarrow> weight rank c2 < weight rank c1"
    using dead_code_pruned [OF c1(1,3)] by blast
  have f: "same_flow c c2" using c1(2) pruned_toD(7) [OF s2(2)] by (simp add: same_flow_def)
  have run: "snd (run_path M c2 bs st) = snd (run_path M c bs st)" if "path c bs" for bs st
    using pruned_runs [OF s2(2) c1(1)] same_flow_path [OF c1(2)] c1(4) that by simp
  show ?case
  proof (cases "p1 \<or> p2")
    case True
    have "weight rank c2 < weight rank c" using True w1(1) s2(3,4) by (cases p1; cases p2) auto
    from less.hyps [OF this pruned_good [OF s2(2) c1(1,3)]] obtain c' where
      c': "vir_optimize c2 = ret c'" "good M rank c'" "same_flow c2 c'" "\<And>bs st. path c2 bs \<Longrightarrow> snd (run_path M c' bs st) = snd (run_path M c2 bs st)" by blast
    have "vir_optimize c = vir_optimize c2" by (subst vir_optimize.simps) (simp add: s1(1) s2(1) True)
    moreover have "same_flow c c'" using f c'(3) by (simp add: same_flow_def)
    ultimately show ?thesis using c'(1,2,4) run same_flow_path [OF f] by auto
  next
    case False
    then have "c1 = c" "c2 = c" using w1(1) s2(3) by auto
    moreover have "vir_optimize c = ret c2" by (subst vir_optimize.simps) (use s1(1) s2(1) False in simp)
    ultimately show ?thesis using less.prems(1) f by auto
  qed
qed

end
