(* ===== verification/Vir_Opt_Spec.thy ===== *)
theory Vir_Opt_Spec
  imports Vir_Opt_Sound "HOL-Library.Code_Target_Nat"
begin

text \<open>
  The properties of the optimisation passes.
\<close>

section \<open>Pruned programs\<close>

definition unread :: "v3d_compile \<Rightarrow> qinst \<Rightarrow> bool" where
  "unread c x \<longleftrightarrow> q_file (qi_dst x) = QFILE_NULL \<or> q_file (qi_dst x) = QFILE_TEMP \<and> (\<forall>z\<in>insts_of c. \<not> reads_temp z (q_index (qi_dst x)))"

text \<open>The instructions that always stay: branches, the operations that set up the tile buffer, the VPM and \<open>rtop\<close>, and the wait for a texture result.\<close>

definition must_stay :: "qinst \<Rightarrow> bool" where
  "must_stay x \<longleftrightarrow> instr_type (qi_qpu x) = V3D_QPU_INSTR_TYPE_BRANCH \<or>
     alu_op (add_part x) \<in> {V3D_QPU_A_SETREVF, V3D_QPU_A_SETMSF, V3D_QPU_A_VPMSETUP} \<or> alu_op (mul_part x) = V3D_QPU_M_MULTOP \<or> ldtmu (sig (qi_qpu x))"

lemma must_stay_eq: "vir_has_side_effects x = must_stay x"
  by (cases "instr_type (qi_qpu x)") (auto simp: vir_has_side_effects_def must_stay_def)

definition pushes_flags :: "qinst \<Rightarrow> bool" where
  "pushes_flags x \<longleftrightarrow> apf (flags (qi_qpu x)) \<noteq> V3D_QPU_PF_NONE \<or> mpf (flags (qi_qpu x)) \<noteq> V3D_QPU_PF_NONE"

definition updates_flags :: "qinst \<Rightarrow> bool" where
  "updates_flags x \<longleftrightarrow> auf (flags (qi_qpu x)) \<noteq> V3D_QPU_UF_NONE \<or> muf (flags (qi_qpu x)) \<noteq> V3D_QPU_UF_NONE"

definition reads_from :: "qfile set \<Rightarrow> qinst \<Rightarrow> bool" where
  "reads_from F x \<longleftrightarrow> (\<exists>i < vir_get_nsrc x. q_file (qi_src x ! i) \<in> F)"

text \<open>
  Instructions of a block before and after the pass: an instruction stays, or loses a destination that
  nobody reads, or goes because nobody reads its value. One that goes pushes no flags, but it may update them by \<open>auf\<close> or \<open>muf\<close>.
\<close>

inductive pruned :: "v3d_compile \<Rightarrow> qinst list \<Rightarrow> qinst list \<Rightarrow> bool" for c where
  pruned_Nil: "pruned c [] []"
| pruned_keep: "pruned c xs ys \<Longrightarrow> pruned c (x # xs) (x # ys)"
| pruned_null: "q_file (qi_dst x) = QFILE_TEMP \<Longrightarrow> unread c x \<Longrightarrow> \<not> must_stay x \<Longrightarrow> pushes_flags x \<or> reads_from {QFILE_VARY, QFILE_VPM} x \<Longrightarrow>
    pruned c xs ys \<Longrightarrow> pruned c (x # xs) (null_dst x # ys)"
| pruned_drop: "unread c x \<Longrightarrow> \<not> must_stay x \<Longrightarrow> \<not> pushes_flags x \<Longrightarrow> \<not> reads_from {QFILE_VARY} x \<Longrightarrow> vpm_sized c \<longrightarrow> \<not> reads_from {QFILE_VPM} x \<Longrightarrow>
    pruned c xs ys \<Longrightarrow> pruned c (x # xs) ys"

lemma unused_unread:
  assumes "\<forall>t < num_temps c. used ! t \<longleftrightarrow> (\<exists>x\<in>insts_of c. reads_temp x t)" "opt_ok c" "x \<in> insts_of c"
  shows "unused_dst used x = unread c x"
  using assms(1) opt_okD(4) [OF assms(2,3)] by (auto simp: unused_dst_def unread_def)

lemma held_eq: "held x \<longleftrightarrow> pushes_flags x \<or> reads_from {QFILE_VARY, QFILE_VPM} x"
  unfolding held_def pushes_flags_def reads_from_def by blast

lemma dead_drops: "dead c used x \<Longrightarrow> \<not> must_stay x \<and> \<not> pushes_flags x \<and> \<not> reads_from {QFILE_VARY} x \<and> (vpm_sized c \<longrightarrow> \<not> reads_from {QFILE_VPM} x) \<and> unused_dst used x"
  by (simp add: dead_def pushes_flags_def reads_from_def must_stay_eq)

lemma settled_pruned:
  assumes "\<And>x. x \<in> set xs \<Longrightarrow> settled c used fate x \<and> unused_dst used x = unread c x"
  shows "pruned c xs (concat (map fate xs))"
  using assms
proof (induction xs)
  case (Cons x xs)
  have IH: "pruned c xs (concat (map fate xs))" and x: "settled c used fate x" "unused_dst used x = unread c x" using Cons by auto
  from x(1) consider "fate x = [x]" | "fate x = [null_dst x]" "q_file (qi_dst x) = QFILE_TEMP" "unused_dst used x" "\<not> must_stay x" "held x"
    | "fate x = []" "dead c used x" unfolding settled_def must_stay_eq by blast
  then show ?case
    using IH x(2) by cases (auto simp: held_eq dest: dead_drops intro: pruned.intros)
qed (simp add: pruned_Nil)

section \<open>Programs for the witnesses\<close>

definition temp_reg :: "nat \<Rightarrow> qreg" where "temp_reg i = vir_reg QFILE_TEMP i"

definition unif_reg :: "nat \<Rightarrow> qreg" where "unif_reg i = vir_reg QFILE_UNIF i"

definition straight_line :: "nat \<Rightarrow> qinst list \<Rightarrow> v3d_compile" where
  "straight_line n xs = \<lparr>c_blocks = [\<lparr>qb_instructions = xs, qb_predecessors = {}, qb_successors = [None, None], qb_def = [], qb_use = [],
     qb_live_in = [], qb_live_out = [], start_ip = 0, end_ip = 0\<rparr>], num_temps = n, c_defs = replicate n None, vattr_sizes = replicate 2 0,
     num_inputs = 0, num_vpm_writes = 0, temp_start = None, temp_end = None, fs_threaded = False, c_failed = False\<rparr>"

definition ex_chain :: v3d_compile where
  "ex_chain = straight_line 3
     [vir_add_inst 1 V3D_QPU_A_FADD (temp_reg 0) (unif_reg 0) (unif_reg 1),
      vir_mul_inst 2 V3D_QPU_M_MOV (temp_reg 1) (temp_reg 0) (vir_reg QFILE_NULL 0),
      vir_mul_inst 3 V3D_QPU_M_MOV (temp_reg 2) (temp_reg 1) (vir_reg QFILE_NULL 0),
      vir_add_inst 4 V3D_QPU_A_FADD (vir_reg QFILE_MAGIC 7) (temp_reg 2) (temp_reg 0)]"

text \<open>Copying a temporary to another one and back.\<close>

definition ex_back :: v3d_compile where
  "ex_back = straight_line 2
     [vir_add_inst 1 V3D_QPU_A_FADD (temp_reg 0) (unif_reg 0) (unif_reg 1),
      vir_mul_inst 2 V3D_QPU_M_MOV (temp_reg 1) (temp_reg 0) (vir_reg QFILE_NULL 0),
      vir_mul_inst 3 V3D_QPU_M_MOV (temp_reg 0) (temp_reg 1) (vir_reg QFILE_NULL 0),
      vir_add_inst 4 V3D_QPU_A_FADD (vir_reg QFILE_MAGIC 7) (temp_reg 0) (temp_reg 0)]"

definition ex_self :: v3d_compile where
  "ex_self = straight_line 2
     [vir_add_inst 1 V3D_QPU_A_FADD (temp_reg 0) (unif_reg 0) (unif_reg 1),
      vir_mul_inst 3 V3D_QPU_M_MOV (temp_reg 0) (temp_reg 0) (vir_reg QFILE_NULL 0),
      vir_add_inst 4 V3D_QPU_A_FADD (vir_reg QFILE_MAGIC 7) (temp_reg 0) (temp_reg 0)]"

text \<open>An addition without destination that updates the flags, before a store.\<close>

definition ex_dead :: v3d_compile where
  "ex_dead = straight_line 1
     [(let x = vir_add_inst 1 V3D_QPU_A_FADD (vir_reg QFILE_NULL 0) (unif_reg 0) (unif_reg 1) in
       x\<lparr>qi_qpu := (qi_qpu x)\<lparr>flags := (flags (qi_qpu x))\<lparr>auf := V3D_QPU_UF_ANDZ\<rparr>\<rparr>\<rparr>),
      vir_add_inst 2 V3D_QPU_A_FADD (vir_reg QFILE_MAGIC 7) (unif_reg 0) (unif_reg 1)]"

lemma defs_ok_code [code]:
  "defs_ok c \<longleftrightarrow> num_temps c \<le> length (c_defs c) \<and> (\<forall>t < num_temps c. case c_defs c ! t of None \<Rightarrow> True | Some p \<Rightarrow>
     (\<exists>x\<in>insts_of c. qi_addr x = p \<and> q_file (qi_dst x) = QFILE_TEMP \<and> q_index (qi_dst x) = t))"
  unfolding defs_ok_def by (auto split: option.splits)

lemma ex_programs_ok: "opt_ok ex_chain" "ordered_copies (\<lambda>t. t) ex_chain" "opt_ok ex_back"
  by code_simp+

lemma ex_dead_ok: "opt_ok ex_dead"
  by code_simp

lemma ex_dead_insts: "insts_in ex_dead 0 ! 0 \<in> insts_of ex_dead" "insts_in ex_dead 0 ! 1 \<in> insts_of ex_dead"
  by (simp_all add: ex_dead_def straight_line_def insts_of_def)

lemma ex_dead_first: "updates_flags (insts_in ex_dead 0 ! 0)" "unread ex_dead (insts_in ex_dead 0 ! 0)" "\<not> must_stay (insts_in ex_dead 0 ! 0)"
  "\<not> pushes_flags (insts_in ex_dead 0 ! 0)" "\<not> reads_from {QFILE_VARY, QFILE_VPM} (insts_in ex_dead 0 ! 0)" "qi_addr (insts_in ex_dead 0 ! 0) = 1"
  by code_simp+

lemma ex_dead_second: "\<not> unread ex_dead (insts_in ex_dead 0 ! 1)"
  by code_simp

section \<open>Properties\<close>

text \<open>
  If the temporaries can be ranked so that every copy is of a temporary of lower rank, \<open>vir_optimize\<close> ends, and
  neither pass changes the program it returns.
\<close>

theorem optimize_ends:
  assumes "opt_ok c" "ordered_copies rank c"
  shows "\<exists>c'. vir_optimize c = ret c' \<and> opt_ok c' \<and> vir_opt_copy_propagate c' = ret (c', False) \<and> vir_opt_dead_code c' = ret (c', False)"
  using optimize_ok [OF assms] by blast

theorem optimize_ends_witness:
  "opt_ok ex_chain \<and> ordered_copies (\<lambda>t. t) ex_chain \<and> (\<exists>c'. vir_optimize ex_chain = ret c' \<and> opt_ok c')"
  using optimize_ends [OF ex_programs_ok(1,2)] ex_programs_ok by blast

lemma ex_self_passes: "vir_opt_copy_propagate ex_self = ret (ex_self, True)" "vir_opt_dead_code ex_self = ret (ex_self, False)"
  by code_simp+

lemma ex_self_diverges: "vir_optimize ex_self = None"
proof -
  have "c \<noteq> ex_self" if "vir_optimize c = Some r" for c r
  proof (rule vir_optimize.raw_induct [OF _ that])
    fix opt c r assume IH: "\<And>c r. opt c = Some r \<Longrightarrow> c \<noteq> ex_self"
      and r: "bind_run (vir_opt_copy_propagate c) (\<lambda>(c, copied). bind_run (vir_opt_dead_code c) (\<lambda>(c, removed).
        if copied \<or> removed then opt c else ret c)) = Some r"
    show "c \<noteq> ex_self"
    proof
      assume "c = ex_self"
      then have "opt ex_self = Some r" using r by (simp add: ex_self_passes)
      then show False using IH by blast
    qed
  qed
  then show ?thesis by (metis option.exhaust)
qed

text \<open>
  C37. Without such a ranking \<open>vir_optimize\<close> may run forever: on a program that copies a temporary to another one and
  back, copy propagation makes a move of a temporary to itself, which it then propagates again and again.
\<close>

theorem optimize_diverges: "opt_ok ex_back \<and> vir_optimize ex_back = None"
proof -
  have "bind_run (vir_opt_copy_propagate ex_back) (\<lambda>(c, copied). bind_run (vir_opt_dead_code c) (\<lambda>(c, removed). ret (c, copied))) = ret (ex_self, True)"
    by code_simp
  then have "vir_optimize ex_back = vir_optimize ex_self"
    by (subst vir_optimize.simps) (auto simp: bind_run_ret_iff)
  then show ?thesis using ex_self_diverges ex_programs_ok(3) by simp
qed

text \<open>
  C36. Dead code elimination returns, keeps the program well formed and says whether it changed it. The instructions of
  every block stay in order; one that goes is no branch, no \<open>SETREVF\<close>, \<open>SETMSF\<close>, \<open>VPMSETUP\<close> or \<open>MULTOP\<close> and no wait for a texture, pushes no flags, reads no varying and has no destination or
  one that no instruction reads; one that only loses its destination pushes flags or reads a varying or the VPM. Every instruction
  whose destination is read stays. Conversely every instruction goes whose value nobody reads, which is none of those kinds, pushes no flags and reads neither varyings nor the VPM, even
  if it updates the flags by \<open>auf\<close> or \<open>muf\<close>: the pass does not look at them.
\<close>

theorem dead_code_sound:
  assumes ok: "opt_ok c"
  shows "\<exists>c' progress. vir_opt_dead_code c = ret (c', progress) \<and> opt_ok c' \<and> (\<not> progress \<longrightarrow> c' = c) \<and>
    length (c_blocks c') = length (c_blocks c) \<and>
    (\<forall>b < length (c_blocks c). pruned c (qb_instructions (c_blocks c ! b)) (qb_instructions (c_blocks c' ! b))) \<and>
    (\<forall>x\<in>insts_of c. \<not> unread c x \<longrightarrow> x \<in> insts_of c') \<and>
    (\<forall>x\<in>insts_of c. unread c x \<and> \<not> must_stay x \<and> \<not> pushes_flags x \<and> \<not> reads_from {QFILE_VARY, QFILE_VPM} x \<longrightarrow> (\<forall>y\<in>insts_of c'. qi_addr y \<noteq> qi_addr x))"
proof -
  obtain c' progress used fate where r: "vir_opt_dead_code c = ret (c', progress)"
    "\<forall>t < num_temps c. used ! t \<longleftrightarrow> (\<exists>x\<in>insts_of c. reads_temp x t)" "dead_inv (\<lambda>_. 0) used c fate (insts_of c) c' progress"
    using dead_code_ok [OF ok] by blast
  note D = dead_invD [OF r(3)] and U = unused_unread [OF r(2) ok]
  have "pruned c (qb_instructions (c_blocks c ! b)) (qb_instructions (c_blocks c' ! b))" if "b < length (c_blocks c)" for b
  proof -
    have "pruned c (qb_instructions (c_blocks c ! b)) (concat (map fate (qb_instructions (c_blocks c ! b))))"
      by (rule settled_pruned [of _ c used]) (use D(5) U distinct_block(2) [OF opt_okD(6) [OF ok] that] in blast)
    then show ?thesis using D(2) that by (simp add: fated_def)
  qed
  moreover have "x \<in> insts_of c'" if "x \<in> insts_of c" "\<not> unread c x" for x
    using D(5) [OF that(1,1)] that U [OF that(1)] insts_of_fated [OF D(2)] by (auto simp: settled_def dead_def intro!: bexI [of _ x])
  moreover have "qi_addr y \<noteq> qi_addr x" if x: "x \<in> insts_of c" "unread c x" "\<not> must_stay x" "\<not> pushes_flags x" "\<not> reads_from {QFILE_VARY, QFILE_VPM} x"
    and y: "y \<in> insts_of c'" for x y
  proof
    assume a: "qi_addr y = qi_addr x"
    obtain z where z: "z \<in> insts_of c" "y \<in> set (fate z)" using y insts_of_fated [OF D(2)] by blast
    have "z = x" using same_address [OF opt_okD(6) [OF ok] x(1) z(1)] D(3) [OF z] a by simp
    moreover have "fate x = []" using D(5) [OF x(1,1)] x U [OF x(1)] unfolding settled_def held_eq must_stay_eq by blast
    ultimately show False using z(2) by simp
  qed
  moreover have "length (c_blocks c') = length (c_blocks c)" using D(2) by (simp add: fated_def)
  ultimately show ?thesis using r(1) D(1,10) by blast
qed

theorem dead_code_sound_witness:
  "opt_ok ex_dead \<and> updates_flags (insts_in ex_dead 0 ! 0) \<and>
   (\<exists>c' progress. vir_opt_dead_code ex_dead = ret (c', progress) \<and> (\<forall>y\<in>insts_of c'. qi_addr y \<noteq> 1) \<and> insts_in ex_dead 0 ! 1 \<in> insts_of c')"
proof -
  obtain c' progress where r: "vir_opt_dead_code ex_dead = ret (c', progress)" "\<forall>x\<in>insts_of ex_dead. \<not> unread ex_dead x \<longrightarrow> x \<in> insts_of c'"
    "\<forall>x\<in>insts_of ex_dead. unread ex_dead x \<and> \<not> must_stay x \<and> \<not> pushes_flags x \<and> \<not> reads_from {QFILE_VARY, QFILE_VPM} x \<longrightarrow> (\<forall>y\<in>insts_of c'. qi_addr y \<noteq> qi_addr x)"
    using dead_code_sound [OF ex_dead_ok] by blast
  have "\<forall>y\<in>insts_of c'. qi_addr y \<noteq> 1" using r(3) [THEN bspec, OF ex_dead_insts(1)] ex_dead_first by simp
  moreover have "insts_in ex_dead 0 ! 1 \<in> insts_of c'" using r(2) [THEN bspec, OF ex_dead_insts(2)] ex_dead_second by simp
  ultimately show ?thesis using r(1) ex_dead_ok ex_dead_first(1) by blast
qed

section \<open>The behaviour of optimised programs\<close>

text \<open>A program in SSA form with one block, and a machine on integers that logs the operands of the last instruction.\<close>

definition ex_ssa :: v3d_compile where
  "ex_ssa = ex_chain\<lparr>c_defs := [Some 1, Some 2, Some 3]\<rparr>"

definition ex_machine :: "(int, int list) machine" where
  "ex_machine = \<lparr>m_unpack = (\<lambda>_ _ v. v), m_uniform = (\<lambda>i. int i + 5), m_other = (\<lambda>_ _ _. 0),
     m_result = (\<lambda>_ vs _ _. sum_list vs), m_world = (\<lambda>p vs w. if p = 4 then vs @ w else w)\<rparr>"

lemma reach_single_block:
  assumes "succ_list (c_blocks c ! 0) = []" "reach c xs b k"
  shows "b = 0 \<and> xs = take k (insts_in c 0)"
  using assms(2) by (induction rule: reach.induct) (auto simp: edge_def assms(1) take_Suc_conv_app_nth)

lemma ssa_single_block:
  assumes e: "succ_list (c_blocks c ! 0) = []"
    and w: "\<forall>x\<in>insts_of c. q_file (qi_dst x) = QFILE_TEMP \<longrightarrow> c_defs c ! q_index (qi_dst x) \<in> {None, Some (qi_addr x)}"
    and r: "\<forall>k < length (insts_in c 0). \<forall>i < vir_get_nsrc (insts_in c 0 ! k). q_file (qi_src (insts_in c 0 ! k) ! i) = QFILE_TEMP \<longrightarrow>
      (case c_defs c ! q_index (qi_src (insts_in c 0 ! k) ! i) of None \<Rightarrow> True | Some p \<Rightarrow> p \<in> qi_addr ` set (take k (insts_in c 0)))"
  shows "ssa_ok c"
proof -
  have "p \<in> qi_addr ` set xs" if x: "executes c xs x" "reads_temp x t" "c_defs c ! t = Some p" for xs x t p
  proof -
    obtain b k where k: "reach c xs b k" "k < length (insts_in c b)" "x = insts_in c b ! k" using x(1) unfolding executes_def by blast
    note K = reach_single_block [OF e k(1)]
    obtain i where "i < vir_get_nsrc x" "q_file (qi_src x ! i) = QFILE_TEMP" "q_index (qi_src x ! i) = t" using x(2) unfolding reads_temp_def by blast
    then show ?thesis using r [rule_format, of k i] k(2,3) K x(3) by auto
  qed
  then show ?thesis using w unfolding ssa_ok_def sets_temp_def by auto
qed

lemma ex_ssa_ok: "opt_ok ex_ssa" "ordered_copies (\<lambda>t. t) ex_ssa" "ssa_ok ex_ssa" "plain ex_ssa" "vpm_sized ex_ssa" "machine_ok ex_machine ex_ssa"
proof -
  show "opt_ok ex_ssa" "ordered_copies (\<lambda>t. t) ex_ssa" "plain ex_ssa" "vpm_sized ex_ssa" by code_simp+
  show "ssa_ok ex_ssa" by (rule ssa_single_block) code_simp+
  have "\<forall>x\<in>insts_of ex_ssa. qi_addr x = 4 \<longrightarrow> q_file (qi_dst x) = QFILE_MAGIC" by code_simp
  then show "machine_ok ex_machine ex_ssa" by (auto simp: machine_ok_def ex_machine_def quiet_def)
qed

text \<open>
  C4. \<open>vir_optimize\<close> returns a program with the same blocks and edges that does the same along every path: whatever the instructions compute, the world (flags, queues, memory,
  registers outside the temporaries) is the same at the end of every path from the entry. The program is well formed and in SSA form, its copies can be ranked and
  are in the mul half alone, its reads of the VPM are within the sizes of the attributes, its instructions are of the kinds of \<open>known_inst\<close> (so no \<open>UMUL24\<close> and no \<open>FLBPOP\<close>), and
  none updates the flags by \<open>auf\<close> or \<open>muf\<close>. The machine is any on which no unpacking is the identity, and on which an instruction changes nothing in the world
  if it is of a kind that only computes, writes a temporary or nothing, reads no varying and no VPM and neither pushes nor updates flags.
\<close>

theorem optimize_correct:
  assumes "opt_ok c" "ordered_copies rank c" "ssa_ok c" "plain c" "vpm_sized c" "machine_ok M c"
  shows "\<exists>c'. vir_optimize c = ret c' \<and> same_flow c c' \<and> ssa_ok c' \<and>
    (\<forall>bs st. path c bs \<longrightarrow> snd (run_path M c' bs st) = snd (run_path M c bs st))"
  using optimize_sound [of M rank c] goodD(3) assms by (auto simp: good_def)

theorem optimize_correct_witness:
  "path ex_ssa [0] \<and> snd (run_path ex_machine ex_ssa [0] (\<lambda>_. 0, [])) = [11, 11] \<and>
   (\<exists>c'. vir_optimize ex_ssa = ret c' \<and> snd (run_path ex_machine c' [0] (\<lambda>_. 0, [])) = [11, 11])"
proof -
  have "path ex_ssa [0]" by code_simp
  moreover have "snd (run_path ex_machine ex_ssa [0] (\<lambda>_. 0, [])) = [11, 11]" by code_simp
  ultimately show ?thesis using optimize_correct [OF ex_ssa_ok(1-6)] by metis
qed

end
