(* ===== verification/Vir_Uniforms.thy ===== *)
theory Vir_Uniforms
  imports Vir_Opt Hash_Table
begin

text \<open>
  The pass that leaves every instruction with at most one uniform, \<^verbatim>\<open>src/src/broadcom/compiler/vir_lower_uniforms.c\<close>, and
  \<open>vir_get_temp\<close> of \<^verbatim>\<open>vir.c\<close>. The size of the table of definitions is the length of the list. The address that
  \<open>calloc\<close> gives to a new instruction, the success of allocations of the hash table and the address of its
  marker of deleted keys are arguments.
\<close>

section \<open>New temporaries\<close>

definition vir_get_temp :: "v3d_compile \<Rightarrow> v3d_compile \<times> qreg" where
  "vir_get_temp c =
     (let reg = vir_reg QFILE_TEMP (num_temps c);
          c = c\<lparr>num_temps := num_temps c + 1\<rparr>;
          old_size = length (c_defs c)
      in (if num_temps c > old_size then c\<lparr>c_defs := c_defs c @ replicate (max (old_size * 2) 16 - old_size) None\<rparr> else c, reg))"

section \<open>Counting the uses of uniforms\<close>

definition index_hash :: "u64 \<Rightarrow> u32" where
  "index_hash key = ucast key"

definition index_compare :: "u64 \<Rightarrow> u64 \<Rightarrow> bool" where
  "index_compare a b \<longleftrightarrow> a = b"

definition uniform_key :: "nat \<Rightarrow> u64" where
  "uniform_key i = ucast (of_nat i + 1 :: u32)"

definition set_data :: "hash_table \<Rightarrow> nat \<Rightarrow> u64 \<Rightarrow> hash_table" where
  "set_data ht i d = ht\<lparr>ht_table := (ht_table ht)[i := (ht_table ht ! i)\<lparr>e_data := d\<rparr>]\<rparr>"

definition add_uniform :: "(u32 \<Rightarrow> bool) \<Rightarrow> hash_table \<Rightarrow> qreg \<Rightarrow> hash_table run" where
  "add_uniform alloc ht reg =
     (let key = uniform_key (q_index reg) in
      bind_run (mesa_hash_table_search ht key) (\<lambda>entry.
      case entry of
        Some i \<Rightarrow> ret (set_data ht i (e_data (ht_table ht ! i) + 1))
      | None \<Rightarrow> bind_run (mesa_hash_table_insert alloc ht key 1) (\<lambda>(ht, _). ret ht)))"

definition remove_uniform :: "hash_table \<Rightarrow> qreg \<Rightarrow> hash_table run" where
  "remove_uniform ht reg =
     bind_run (mesa_hash_table_search ht (uniform_key (q_index reg))) (\<lambda>entry.
     case entry of
       None \<Rightarrow> fault Assert_Failed
     | Some i \<Rightarrow>
         let ht = set_data ht i (e_data (ht_table ht ! i) - 1) in
         ret (if e_data (ht_table ht ! i) = 0 then mesa_hash_table_remove ht (Some i) else ht))"

definition is_lowerable_uniform :: "qinst \<Rightarrow> nat \<Rightarrow> bool run" where
  "is_lowerable_uniform inst i =
     bind_run (fetch (qi_src inst) i) (\<lambda>src.
     if q_file src \<noteq> QFILE_UNIF then ret False
     else if vir_has_implicit_uniform inst then ret (int i \<noteq> vir_get_implicit_uniform_src inst)
     else ret True)"

fun is_duplicate :: "qinst \<Rightarrow> qreg \<Rightarrow> nat list \<Rightarrow> bool run" where
  "is_duplicate inst r [] = ret False"
| "is_duplicate inst r (j # js) =
     bind_run (fetch (qi_src inst) j) (\<lambda>src.
     if q_file src = QFILE_UNIF \<and> q_index src = q_index r then ret True else is_duplicate inst r js)"

definition vir_get_instruction_uniform_count :: "qinst \<Rightarrow> nat run" where
  "vir_get_instruction_uniform_count inst =
     fold_run (\<lambda>i count.
       bind_run (fetch (qi_src inst) i) (\<lambda>src.
       if q_file src \<noteq> QFILE_UNIF then ret count
       else bind_run (is_duplicate inst src [0..<i]) (\<lambda>dup. ret (if dup then count else count + 1)))) [0..<vir_get_nsrc inst] 0"

text \<open>The first loop of the pass: counting the uses in instructions with more than one uniform.\<close>

definition count_inst :: "(u32 \<Rightarrow> bool) \<Rightarrow> qinst \<Rightarrow> hash_table \<Rightarrow> hash_table run" where
  "count_inst alloc inst ht =
     bind_run (vir_get_instruction_uniform_count inst) (\<lambda>count.
     if count \<le> 1 then ret ht
     else fold_run (\<lambda>i ht.
       bind_run (is_lowerable_uniform inst i) (\<lambda>lowerable.
       if lowerable then bind_run (fetch (qi_src inst) i) (add_uniform alloc ht) else ret ht)) [0..<vir_get_nsrc inst] ht)"

text \<open>The uniform with most uses: its count and its index.\<close>

definition max_uniform :: "hash_table \<Rightarrow> u32 \<times> u32" where
  "max_uniform ht =
     fold (\<lambda>e (max_count, max_index).
       let count = ucast (e_data (ht_table ht ! e)); index = ucast (e_key (ht_table ht ! e) - 1) in
       if count > max_count then (count, index) else (max_count, max_index)) (hash_table_foreach ht) (0, 0)"

section \<open>Replacing a uniform\<close>

text \<open>A load of the uniform at the start of a block.\<close>

definition load_uniform :: "(v3d_compile \<Rightarrow> nat) \<Rightarrow> v3d_compile \<Rightarrow> nat \<Rightarrow> qreg \<Rightarrow> (v3d_compile \<times> qinst) run" where
  "load_uniform calloc c b unif =
     (let (c, dst) = vir_get_temp c;
          mov = vir_mul_inst (calloc c) V3D_QPU_M_MOV dst unif (vir_reg QFILE_NULL 0)
      in bind_run (fetch (c_blocks c) b) (\<lambda>block.
         let c = c\<lparr>c_blocks := (c_blocks c)[b := block\<lparr>qb_instructions := mov # qb_instructions block\<rparr>]\<rparr> in
         bind_run (update_at (\<lambda>_. Some (qi_addr mov)) (c_defs c) (q_index (qi_dst mov))) (\<lambda>defs.
         ret (c\<lparr>c_defs := defs\<rparr>, mov))))"

definition lower_src :: "qreg \<Rightarrow> qreg \<Rightarrow> nat \<Rightarrow> qinst \<times> hash_table \<times> bool \<Rightarrow> (qinst \<times> hash_table \<times> bool) run" where
  "lower_src unif dst i = (\<lambda>(inst, ht, removed).
     bind_run (is_lowerable_uniform inst i) (\<lambda>lowerable.
     bind_run (fetch (qi_src inst) i) (\<lambda>src.
     if lowerable \<and> q_index src = q_index unif then
       bind_run (remove_uniform ht unif) (\<lambda>ht.
       ret (inst\<lparr>qi_src := (qi_src inst)[i := src\<lparr>q_file := q_file dst, q_index := q_index dst\<rparr>]\<rparr>, ht, True))
     else ret (inst, ht, removed))))"

definition drop_uniforms :: "qinst \<Rightarrow> hash_table \<Rightarrow> hash_table run" where
  "drop_uniforms inst ht = fold_run (\<lambda>i ht.
     bind_run (is_lowerable_uniform inst i) (\<lambda>lowerable.
     if lowerable then bind_run (fetch (qi_src inst) i) (remove_uniform ht) else ret ht)) [0..<vir_get_nsrc inst] ht"

definition lower_inst ::
  "(v3d_compile \<Rightarrow> nat) \<Rightarrow> qreg \<Rightarrow> nat \<Rightarrow> nat \<Rightarrow> v3d_compile \<times> hash_table \<times> qinst option \<Rightarrow> (v3d_compile \<times> hash_table \<times> qinst option) run" where
  "lower_inst calloc unif b p = (\<lambda>(c, ht, mov).
     bind_run (inst_at c p) (\<lambda>inst.
     bind_run (vir_get_instruction_uniform_count inst) (\<lambda>count.
     if count \<le> 1 then ret (c, ht, mov)
     else
       bind_run (case mov of Some mov \<Rightarrow> ret (c, mov) | None \<Rightarrow> load_uniform calloc c b unif) (\<lambda>(c, mov).
       bind_run (fold_run (lower_src unif (qi_dst mov)) [0..<vir_get_nsrc inst] (inst, ht, False)) (\<lambda>(inst, ht, removed).
       let count = (if removed then count - 1 else count) in
       bind_run (if count \<le> 1 then drop_uniforms inst ht else ret ht) (\<lambda>ht.
       ret (set_inst c inst, ht, Some mov)))))))"

definition lower_block :: "(v3d_compile \<Rightarrow> nat) \<Rightarrow> qreg \<Rightarrow> nat \<Rightarrow> v3d_compile \<times> hash_table \<Rightarrow> (v3d_compile \<times> hash_table) run" where
  "lower_block calloc unif b = (\<lambda>(c, ht).
     bind_run (fetch (c_blocks c) b) (\<lambda>block.
     bind_run (fold_run (lower_inst calloc unif b) (map qi_addr (qb_instructions block)) (c, ht, None)) (\<lambda>(c, ht, mov).
     ret (c, ht))))"

section \<open>The pass\<close>

partial_function (option) lower_loop :: "(v3d_compile \<Rightarrow> nat) \<Rightarrow> v3d_compile \<Rightarrow> hash_table \<Rightarrow> v3d_compile run" where
  "lower_loop calloc c ht =
     (if ht_entries ht = 0 then ret c
      else bind_run (fold_run (lower_block calloc (vir_reg QFILE_UNIF (unat (snd (max_uniform ht))))) [0..<length (c_blocks c)] (c, ht))
             (\<lambda>(c, ht). lower_loop calloc c ht))"

declare lower_loop.simps [code]

definition vir_lower_uniforms :: "(u32 \<Rightarrow> bool) \<Rightarrow> (v3d_compile \<Rightarrow> nat) \<Rightarrow> u64 \<Rightarrow> v3d_compile \<Rightarrow> v3d_compile run" where
  "vir_lower_uniforms alloc calloc deleted_key_value c =
     (case mesa_hash_table_create True alloc deleted_key_value (Some index_hash) index_compare of
        None \<Rightarrow> fault Out_Of_Bounds
      | Some ht \<Rightarrow> bind_run (fold_run (count_inst alloc) (code c) ht) (lower_loop calloc c))"

end
