(* ===== verification/Vir_Uniform_Table.thy ===== *)
theory Vir_Uniform_Table
  imports Vir_Uniforms Hash_Spec
begin

text \<open>
  The hash table of uniforms as a table of counters: the interface that the pass relies on and the proof that
  \<open>add_uniform\<close> and \<open>remove_uniform\<close> provide it on the hash table.
\<close>

section \<open>Counters\<close>

locale counters =
  fixes rep :: "nat \<Rightarrow> 's \<Rightarrow> (nat \<Rightarrow> nat) \<Rightarrow> bool" and valid :: "nat \<Rightarrow> bool" and add :: "'s \<Rightarrow> nat \<Rightarrow> 's run" and sub :: "'s \<Rightarrow> nat \<Rightarrow> 's run"
    and bound :: nat
  assumes add_ok: "rep n s f \<Longrightarrow> valid i \<Longrightarrow> n < bound \<Longrightarrow> \<exists>s'. add s i = ret s' \<and> rep (Suc n) s' (f(i := f i + 1))"
    and sub_ok: "rep n s f \<Longrightarrow> valid i \<Longrightarrow> 0 < f i \<Longrightarrow> \<exists>s'. sub s i = ret s' \<and> rep n s' (f(i := f i - 1))"
begin

lemma adds:
  "rep n s f \<Longrightarrow> \<forall>i\<in>set l. valid i \<Longrightarrow> n + length l \<le> bound \<Longrightarrow>
    \<exists>s'. fold_run (\<lambda>i s. add s i) l s = ret s' \<and> rep (n + length l) s' (\<lambda>i. f i + count_list l i)"
proof (induction l arbitrary: n s f)
  case (Cons a l)
  obtain s1 where s1: "add s a = ret s1" "rep (Suc n) s1 (f(a := f a + 1))" using add_ok [OF Cons.prems(1), of a] Cons.prems(2,3) by auto
  have "(\<lambda>i. (f(a := f a + 1)) i + count_list l i) = (\<lambda>i. f i + count_list (a # l) i)" by (auto simp: fun_eq_iff)
  then show ?case using Cons.IH [OF s1(2)] Cons.prems(2,3) s1(1) by simp
qed auto

lemma subs:
  "rep n s f \<Longrightarrow> \<forall>i\<in>set l. valid i \<Longrightarrow> (\<And>i. count_list l i \<le> f i) \<Longrightarrow>
    \<exists>s'. fold_run (\<lambda>i s. sub s i) l s = ret s' \<and> rep n s' (\<lambda>i. f i - count_list l i)"
proof (induction l arbitrary: s f)
  case (Cons a l)
  have a: "0 < f a" using Cons.prems(3) [of a] by simp
  obtain s1 where s1: "sub s a = ret s1" "rep n s1 (f(a := f a - 1))" using sub_ok [OF Cons.prems(1) _ a] Cons.prems(2) by auto
  have "count_list l i \<le> (f(a := f a - 1)) i" for i using Cons.prems(3) [of i] by (auto split: if_splits)
  moreover have "(\<lambda>i. (f(a := f a - 1)) i - count_list l i) = (\<lambda>i. f i - count_list (a # l) i)" by (auto simp: fun_eq_iff)
  ultimately show ?case using Cons.IH [OF s1(2)] Cons.prems(2) s1(1) by auto
qed auto

end

section \<open>Keys\<close>

lemma index_keys: "dk \<noteq> 0 \<Longrightarrow> hash_keys index_compare index_hash dk"
  by unfold_locales (auto simp: index_compare_def)

lemma uniform_key_unat: "i < 2 ^ 32 - 1 \<Longrightarrow> unat (uniform_key i) = i + 1"
proof -
  assume i: "i < 2 ^ 32 - 1"
  have k: "uniform_key i = ucast (of_nat (i + 1) :: u32)" by (simp add: uniform_key_def add.commute)
  have u: "unat (of_nat (i + 1) :: u32) = i + 1" using i by (simp add: unsigned_of_nat take_bit_nat_eq_self del: of_nat_add of_nat_Suc)
  have "unat (uniform_key i) = take_bit 64 (i + 1)" unfolding k unsigned_ucast_eq u by simp
  then show ?thesis using i by (simp add: take_bit_nat_eq_self)
qed

text \<open>The indices of uniforms are below \<open>U\<close>, and the marker of deleted keys is no key of theirs.\<close>

definition marker_ok :: "u64 \<Rightarrow> nat \<Rightarrow> bool" where
  "marker_ok dk U \<longleftrightarrow> U < unat dk \<and> U < 2 ^ 32"

lemma marker_okD:
  assumes "marker_ok dk U" "i < U"
  shows "uniform_key i \<noteq> 0" "uniform_key i \<noteq> dk" "unat (uniform_key i) = i + 1" "dk \<noteq> 0" "unat (ucast (uniform_key i - 1) :: u32) = i"
proof -
  show u: "unat (uniform_key i) = i + 1" using uniform_key_unat [of i] assms by (simp add: marker_ok_def)
  then show z: "uniform_key i \<noteq> 0" by auto
  show "uniform_key i \<noteq> dk" using u assms by (auto simp: marker_ok_def)
  show "dk \<noteq> 0" using assms by (auto simp: marker_ok_def)
  have "unat (uniform_key i - 1) = i" using unat_minus_one [OF z] u by simp
  then show "unat (ucast (uniform_key i - 1) :: u32) = i" using assms by (simp add: unsigned_ucast_eq marker_ok_def take_bit_nat_eq_self)
qed

lemma uniform_key_inj: "marker_ok dk U \<Longrightarrow> i < U \<Longrightarrow> j < U \<Longrightarrow> uniform_key i = uniform_key j \<longleftrightarrow> i = j"
  using marker_okD(3) [of dk U] by (metis add_right_cancel)

section \<open>The table\<close>

lemma set_data_ok:
  assumes ok: "table_ok hf index_compare dk n ht" and k: "k \<noteq> 0" "k \<noteq> dk" "ht_slot_of ht k = Some i"
  shows "table_ok hf index_compare dk n (set_data ht i d)" "ht_lookup (set_data ht i d) k' = (if k' = k then Some d else ht_lookup ht k')"
    "ht_slot_of (set_data ht i d) k' = ht_slot_of ht k'" "ht_entries (set_data ht i d) = ht_entries ht"
proof -
  note T = table_okD [OF ok] and i = slot_of_SomeD [OF k(3)]
  let ?ht = "set_data ht i d"
  have il: "i < length (ht_table ht)" using i(1) by simp
  have f: "ht_size ?ht = ht_size ht" "ht_rehash ?ht = ht_rehash ht" "ht_max_entries ?ht = ht_max_entries ht" "ht_size_index ?ht = ht_size_index ht"
    "ht_entries ?ht = ht_entries ht" "ht_deleted_entries ?ht = ht_deleted_entries ht" "ht_deleted_key ?ht = ht_deleted_key ht"
    "ht_key_equals_function ?ht = ht_key_equals_function ht" "ht_key_hash_function ?ht = ht_key_hash_function ht"
    "length (ht_table ?ht) = length (ht_table ht)" by (simp_all add: set_data_def)
  show "ht_entries ?ht = ht_entries ht" by (rule f(5))
  have sl: "ht_slots ?ht = ht_slots ht" using il by (simp add: ht_slots_def set_data_def map_update list_update_same_conv)
  show so: "ht_slot_of ?ht k' = ht_slot_of ht k'" for k' unfolding sl f ..
  have "length (filter P ((ht_table ht)[i := (ht_table ht ! i)\<lparr>e_data := d\<rparr>])) = length (filter P (ht_table ht))"
    if "P ((ht_table ht ! i)\<lparr>e_data := d\<rparr>) = P (ht_table ht ! i)" for P
    using length_filter_update [OF il, of P "(ht_table ht ! i)\<lparr>e_data := d\<rparr>"] that by (auto split: if_splits)
  moreover have "entry_is_present ?ht = entry_is_present ht" "entry_is_deleted ?ht = entry_is_deleted ht"
    by (simp_all add: fun_eq_iff entry_is_present_def entry_is_deleted_def f)
  ultimately have "ht_counts ?ht" using T(1) unfolding ht_ok_def ht_counts_def f
    by (simp add: set_data_def entry_is_present_def entry_is_deleted_def)
  then have "ht_ok hf ?ht" using T(1) unfolding ht_ok_def ht_shape_def f sl by simp
  then show "table_ok hf index_compare dk n ?ht" using ok unfolding table_ok_def f by simp
  have key: "e_key (ht_table ht ! i) = k" using i T(4) by (simp add: index_compare_def)
  show "ht_lookup ?ht k' = (if k' = k then Some d else ht_lookup ht k')"
  proof (cases "ht_slot_of ht k'")
    case None
    then show ?thesis using k(3) unfolding ht_lookup_def so by auto
  next
    case (Some j)
    note j = slot_of_SomeD [OF Some]
    have k': "k' = e_key (ht_table ht ! j)" using j T(4) by (simp add: index_compare_def)
    have e: "j = i \<longleftrightarrow> k' = k"
    proof
      assume "j = i"
      then show "k' = k" using k' key by simp
    next
      assume "k' = k"
      then show "j = i" using Some k(3) by simp
    qed
    have "e_data (ht_table ?ht ! j) = (if j = i then d else e_data (ht_table ht ! j))" using il by (simp add: set_data_def)
    then show ?thesis unfolding ht_lookup_def so Some e by simp
  qed
qed

text \<open>The table \<open>ht\<close> counts \<open>f\<close>; no counter is above \<open>n\<close>.\<close>

definition uniform_counts :: "u64 \<Rightarrow> nat \<Rightarrow> nat \<Rightarrow> hash_table \<Rightarrow> (nat \<Rightarrow> nat) \<Rightarrow> bool" where
  "uniform_counts dk U n ht f \<longleftrightarrow> marker_ok dk U \<and> n \<le> 2 ^ 20 \<and> table_ok index_hash index_compare dk n ht \<and> (\<forall>i. f i \<le> n) \<and> (\<forall>i \<ge> U. f i = 0) \<and>
     (\<forall>i < U. ht_lookup ht (uniform_key i) = (if f i = 0 then None else Some (of_nat (f i)))) \<and>
     (\<forall>k. k \<noteq> 0 \<and> k \<noteq> dk \<and> ht_lookup ht k \<noteq> None \<longrightarrow> (\<exists>i < U. k = uniform_key i))"

lemma uniform_countsD:
  assumes "uniform_counts dk U n ht f"
  shows "marker_ok dk U" "n \<le> 2 ^ 20" "table_ok index_hash index_compare dk n ht" "f i \<le> n" "U \<le> i \<Longrightarrow> f i = 0"
    "i < U \<Longrightarrow> ht_lookup ht (uniform_key i) = (if f i = 0 then None else Some (of_nat (f i)))"
    "k \<noteq> 0 \<Longrightarrow> k \<noteq> dk \<Longrightarrow> ht_lookup ht k \<noteq> None \<Longrightarrow> \<exists>i < U. k = uniform_key i"
  using assms unfolding uniform_counts_def by blast+

text \<open>Storing a counter, and removing one.\<close>

lemma uniform_counts_update:
  assumes C: "uniform_counts dk U n ht f" and i: "i < U" and m: "m \<le> 2 ^ 20" "n \<le> m" "v \<le> m"
    and t: "table_ok index_hash index_compare dk m ht'"
    and l: "\<And>k. k \<noteq> 0 \<Longrightarrow> k \<noteq> dk \<Longrightarrow> ht_lookup ht' k = (if k = uniform_key i then if v = 0 then None else Some (of_nat v) else ht_lookup ht k)"
  shows "uniform_counts dk U m ht' (f(i := v))"
proof -
  note D = uniform_countsD [OF C]
  have "ht_lookup ht' (uniform_key j) = (if (f(i := v)) j = 0 then None else Some (of_nat ((f(i := v)) j)))" if "j < U" for j
    using l [OF marker_okD(1,2) [OF D(1) that]] uniform_key_inj [OF D(1) that i] D(6) [OF that] by auto
  moreover have "\<exists>j < U. k = uniform_key j" if "k \<noteq> 0" "k \<noteq> dk" "ht_lookup ht' k \<noteq> None" for k
    using that l [OF that(1,2)] D(7) [OF that(1,2)] i by (auto split: if_splits)
  moreover have "(f(i := v)) j \<le> m" for j using D(4) [of j] m(2,3) by auto
  ultimately show ?thesis using D(1,5) i m(1) t unfolding uniform_counts_def by auto
qed

lemma uniform_lookup:
  assumes "uniform_counts dk U n ht f" "i < U" "0 < f i"
  obtains j where "ht_slot_of ht (uniform_key i) = Some j" "e_data (ht_table ht ! j) = of_nat (f i)"
  using uniform_countsD(6) [OF assms(1,2)] assms(3) that unfolding ht_lookup_def by auto

lemma add_uniform_ok:
  assumes C: "uniform_counts dk U n ht f" and i: "i < U" and n: "n < 2 ^ 20" and r: "q_index r = i"
  shows "\<exists>ht'. add_uniform (\<lambda>_. True) ht r = ret ht' \<and> uniform_counts dk U (Suc n) ht' (f(i := f i + 1))"
proof -
  note D = uniform_countsD [OF C]
  note K = marker_okD [OF D(1) i]
  note s = search_correct [OF D(3) K(1,2)]
  have "\<exists>ht'. add_uniform (\<lambda>_. True) ht r = ret ht' \<and> table_ok index_hash index_compare dk (Suc n) ht' \<and>
    (\<forall>k. k \<noteq> 0 \<longrightarrow> k \<noteq> dk \<longrightarrow> ht_lookup ht' k = (if k = uniform_key i then Some (of_nat (f i + 1)) else ht_lookup ht k))"
  proof (cases "f i = 0")
    case True
    then have "ht_slot_of ht (uniform_key i) = None" using D(6) [OF i] by (simp add: ht_lookup_def)
    then have "add_uniform (\<lambda>_. True) ht r = table_put ht (uniform_key i) 1" using s r by (simp add: add_uniform_def table_put_def)
    then show ?thesis using table_put_ok [OF D(3) _ n, of "uniform_key i" 1] K(1,2) True by (auto simp: index_compare_def)
  next
    case False
    then obtain j where j: "ht_slot_of ht (uniform_key i) = Some j" "e_data (ht_table ht ! j) = of_nat (f i)" using uniform_lookup [OF C i] by auto
    note S = set_data_ok [OF D(3) K(1,2) j(1), of "of_nat (f i) + 1"]
    have "add_uniform (\<lambda>_. True) ht r = ret (set_data ht j (of_nat (f i) + 1))" using s r j by (simp add: add_uniform_def)
    moreover have "table_ok index_hash index_compare dk (Suc n) (set_data ht j (of_nat (f i) + 1))" using S(1) by (simp add: table_ok_def)
    ultimately show ?thesis using S(2) by (auto simp: add.commute)
  qed
  then obtain ht' where h: "add_uniform (\<lambda>_. True) ht r = ret ht'" "table_ok index_hash index_compare dk (Suc n) ht'"
    "\<And>k. k \<noteq> 0 \<Longrightarrow> k \<noteq> dk \<Longrightarrow> ht_lookup ht' k = (if k = uniform_key i then Some (of_nat (f i + 1)) else ht_lookup ht k)" by blast
  have "uniform_counts dk U (Suc n) ht' (f(i := f i + 1))"
    by (rule uniform_counts_update [OF C i _ _ _ h(2)]) (use n D(4) [of i] h(3) in auto)
  then show ?thesis using h(1) by blast
qed

lemma remove_uniform_ok:
  assumes C: "uniform_counts dk U n ht f" and i: "i < U" and f: "0 < f i" and r: "q_index r = i"
  shows "\<exists>ht'. remove_uniform ht r = ret ht' \<and> uniform_counts dk U n ht' (f(i := f i - 1))"
proof -
  note D = uniform_countsD [OF C]
  note K = marker_okD [OF D(1) i]
  obtain j where j: "ht_slot_of ht (uniform_key i) = Some j" "e_data (ht_table ht ! j) = of_nat (f i)" using uniform_lookup [OF C i f] by auto
  have jl: "j < length (ht_table ht)" using slot_of_SomeD(1) [OF j(1)] by simp
  have d: "of_nat (f i) - 1 = (of_nat (f i - 1) :: u64)" using f by (simp add: of_nat_diff)
  let ?ht = "set_data ht j (of_nat (f i - 1))"
  note S = set_data_ok [OF D(3) K(1,2) j(1), of "of_nat (f i - 1)"]
  have z: "(of_nat (f i - 1) :: u64) = 0 \<longleftrightarrow> f i - 1 = 0"
  proof -
    have "unat (of_nat (f i - 1) :: u64) = f i - 1" using D(2) D(4) [of i] by (simp add: unsigned_of_nat take_bit_nat_eq_self)
    then show ?thesis using unat_eq_zero [of "of_nat (f i - 1) :: u64"] by argo
  qed
  have e: "e_data (ht_table ?ht ! j) = of_nat (f i - 1)" using jl by (simp add: set_data_def)
  have rm: "remove_uniform ht r = ret (if f i - 1 = 0 then mesa_hash_table_remove ?ht (Some j) else ?ht)"
    unfolding remove_uniform_def r search_correct [OF D(3) K(1,2)] j(1) bind_run_simps option.case Let_def j(2) d e z ..
  let ?ht' = "if f i - 1 = 0 then mesa_hash_table_remove ?ht (Some j) else ?ht"
  have "table_ok index_hash index_compare dk n ?ht' \<and>
    (\<forall>k. k \<noteq> 0 \<longrightarrow> k \<noteq> dk \<longrightarrow> ht_lookup ?ht' k = (if k = uniform_key i then if f i - 1 = 0 then None else Some (of_nat (f i - 1)) else ht_lookup ht k))"
  proof (cases "f i - 1 = 0")
    case True
    have "table_drop ?ht (uniform_key i) = ret (mesa_hash_table_remove ?ht (Some j))"
      using search_correct [OF S(1) K(1,2)] S(3) j(1) by (simp add: table_drop_def)
    then show ?thesis using table_drop_ok [OF S(1), of "uniform_key i"] K(1,2) True S(2) by (auto simp: index_compare_def)
  next
    case False
    then show ?thesis using S(1,2) by auto
  qed
  then have h: "table_ok index_hash index_compare dk n ?ht'"
    "\<And>k. k \<noteq> 0 \<Longrightarrow> k \<noteq> dk \<Longrightarrow> ht_lookup ?ht' k = (if k = uniform_key i then if f i - 1 = 0 then None else Some (of_nat (f i - 1)) else ht_lookup ht k)"
    by blast+
  have "uniform_counts dk U n ?ht' (f(i := f i - 1))"
    by (rule uniform_counts_update [OF C i _ _ _ h(1)]) (use D(2) D(4) [of i] h(2) in auto)
  then show ?thesis using rm by blast
qed

interpretation uniform_table: counters "uniform_counts dk U" "\<lambda>i. i < U" "\<lambda>ht i. add_uniform (\<lambda>_. True) ht (vir_reg QFILE_UNIF i)"
    "\<lambda>ht i. remove_uniform ht (vir_reg QFILE_UNIF i)" "2 ^ 20" for dk U
proof unfold_locales
  show "\<exists>s'. add_uniform (\<lambda>_. True) s (vir_reg QFILE_UNIF i) = ret s' \<and> uniform_counts dk U (Suc n) s' (f(i := f i + 1))"
    if "uniform_counts dk U n s f" "i < U" "n < 2 ^ 20" for n s f i
    by (rule add_uniform_ok [OF that]) (simp add: vir_reg_def)
  show "\<exists>s'. remove_uniform s (vir_reg QFILE_UNIF i) = ret s' \<and> uniform_counts dk U n s' (f(i := f i - 1))"
    if "uniform_counts dk U n s f" "i < U" "0 < f i" for n s f i
    by (rule remove_uniform_ok [OF that]) (simp add: vir_reg_def)
qed

section \<open>The most used uniform\<close>

lemma present_entry:
  assumes C: "uniform_counts dk U n ht f" and e: "e < length (ht_table ht)" "entry_is_present ht (ht_table ht ! e)"
  shows "\<exists>i < U. 0 < f i \<and> e_key (ht_table ht ! e) = uniform_key i \<and> e_data (ht_table ht ! e) = of_nat (f i)"
proof -
  note D = uniform_countsD [OF C]
  note T = table_okD [OF D(3)]
  let ?k = "e_key (ht_table ht ! e)"
  have hk: "hash_keys index_compare index_hash dk" "ht_deleted_key ht = dk" using D(3) by (auto simp: table_ok_def)
  have k: "?k \<noteq> 0" "?k \<noteq> dk" using e(2) hk(2) by (auto simp: entry_is_present_def)
  have sl: "slots_ok index_compare index_hash dk (index_probes (ht_index ht)) (ht_slots ht)" using T(1,4) hk(2) by (simp add: ht_ok_def)
  have "slot_of index_compare dk (ht_slots ht) ?k = Some e"
    unfolding hash_keys.slot_of_Some [OF hk(1) sl k] using e slot_predicates(2) [OF e(1)] hk(2) by (simp add: index_compare_def)
  then have l: "ht_lookup ht ?k = Some (e_data (ht_table ht ! e))" using T(4) hk(2) by (simp add: ht_lookup_def)
  then obtain i where i: "i < U" "?k = uniform_key i" using D(7) [OF k] by auto
  then show ?thesis using D(6) [OF i(1)] l by (auto split: if_splits)
qed

lemma no_entries:
  assumes C: "uniform_counts dk U n ht f"
  shows "ht_entries ht = 0 \<longleftrightarrow> (\<forall>i. f i = 0)"
proof -
  note D = uniform_countsD [OF C]
  note T = table_okD [OF D(3)]
  have e: "ht_entries ht = 0 \<longleftrightarrow> (\<forall>x\<in>set (ht_table ht). \<not> entry_is_present ht x)"
    using T(1) by (auto simp: ht_ok_def ht_counts_def filter_empty_conv unat_eq_zero [symmetric])
  show ?thesis
  proof
    assume z: "ht_entries ht = 0"
    have "f i = 0" if i: "i < U" for i
    proof (rule ccontr)
      assume "f i \<noteq> 0"
      then obtain j where "ht_slot_of ht (uniform_key i) = Some j" using uniform_lookup [OF C i] by auto
      note j = slot_of_SomeD [OF this]
      then have "entry_is_present ht (ht_table ht ! j)" by (simp add: slot_predicates)
      then show False using z e nth_mem [of j "ht_table ht"] j(1) by auto
    qed
    then show "\<forall>i. f i = 0" using D(5) by (meson not_less)
  next
    assume "\<forall>i. f i = 0"
    then show "ht_entries ht = 0" unfolding e using present_entry [OF C] by (auto simp: in_set_conv_nth)
  qed
qed

lemma max_uniform_ok:
  assumes C: "uniform_counts dk U n ht f" and ne: "ht_entries ht \<noteq> 0"
  shows "unat (snd (max_uniform ht)) < U" "0 < f (unat (snd (max_uniform ht)))"
proof -
  note D = uniform_countsD [OF C]
  note T = table_okD [OF D(3)]
  let ?step = "\<lambda>e (mc, mi). let count = ucast (e_data (ht_table ht ! e)) :: u32; index = ucast (e_key (ht_table ht ! e) - 1) :: u32 in
    if count > mc then (count, index) else (mc, mi)"
  have sh: "ht_shape ht" using T(1) by (simp add: ht_ok_def)
  have ent: "\<exists>i < U. 0 < f i \<and> (0 :: u32) < ucast (e_data (ht_table ht ! e)) \<and> unat (ucast (e_key (ht_table ht ! e) - 1) :: u32) = i"
    if "e \<in> set (hash_table_foreach ht)" for e
  proof -
    have e: "e < length (ht_table ht)" "entry_is_present ht (ht_table ht ! e)" using that sh by (auto simp: foreach_filter ht_shape_def)
    obtain i where i: "i < U" "0 < f i" "e_key (ht_table ht ! e) = uniform_key i" "e_data (ht_table ht ! e) = of_nat (f i)"
      using present_entry [OF C e] by blast
    have "unat (ucast (of_nat (f i) :: u64) :: u32) = f i"
      using D(2) D(4) [of i] by (simp add: unsigned_ucast_eq unsigned_of_nat take_bit_nat_eq_self)
    then have "(0 :: u32) < ucast (of_nat (f i) :: u64)" using i(2) by (metis word_gt_0 unat_0 less_irrefl)
    then show ?thesis using i marker_okD(5) [OF D(1) i(1)] by auto
  qed
  have inv: "(\<forall>e\<in>set es. (0 :: u32) < ucast (e_data (ht_table ht ! e)) \<and>
      unat (ucast (e_key (ht_table ht ! e) - 1) :: u32) < U \<and> 0 < f (unat (ucast (e_key (ht_table ht ! e) - 1) :: u32))) \<Longrightarrow>
    (0 < mc \<longrightarrow> unat mi < U \<and> 0 < f (unat mi)) \<Longrightarrow>
    (case fold ?step es (mc, mi) of (mc', mi') \<Rightarrow> (0 < mc' \<longrightarrow> unat mi' < U \<and> 0 < f (unat mi')) \<and> mc \<le> mc' \<and> (es \<noteq> [] \<longrightarrow> 0 < mc'))" for es mc mi
  proof (induction es arbitrary: mc mi)
    case (Cons e es)
    let ?p = "?step e (mc, mi)"
    have 1: "0 < fst ?p" "mc \<le> fst ?p" "unat (snd ?p) < U" "0 < f (unat (snd ?p))"
      using Cons.prems by (auto simp: Let_def word_neq_0_conv not_less)
    have "\<forall>e\<in>set es. (0 :: u32) < ucast (e_data (ht_table ht ! e)) \<and>
      unat (ucast (e_key (ht_table ht ! e) - 1) :: u32) < U \<and> 0 < f (unat (ucast (e_key (ht_table ht ! e) - 1) :: u32))" using Cons.prems(1) by simp
    from Cons.IH [OF this, of "fst ?p" "snd ?p"] 1 show ?case
      by (auto split: prod.splits simp del: fold_simps(1))
  qed auto
  have "set (hash_table_foreach ht) \<noteq> {}"
  proof -
    obtain i where "f i \<noteq> 0" using no_entries [OF C] ne by blast
    then have "i < U" using D(5) by (meson not_less)
    then obtain j where "ht_slot_of ht (uniform_key i) = Some j" using uniform_lookup [OF C] \<open>f i \<noteq> 0\<close> by auto
    note j = slot_of_SomeD [OF this]
    then have "j \<in> set (hash_table_foreach ht)" using sh by (simp add: foreach_filter slot_predicates ht_shape_def)
    then show ?thesis by auto
  qed
  moreover have "case max_uniform ht of (mc', mi') \<Rightarrow> (0 < mc' \<longrightarrow> unat mi' < U \<and> 0 < f (unat mi')) \<and> 0 \<le> mc' \<and> (hash_table_foreach ht \<noteq> [] \<longrightarrow> 0 < mc')"
    unfolding max_uniform_def by (rule inv) (use ent in auto)
  ultimately show "unat (snd (max_uniform ht)) < U" "0 < f (unat (snd (max_uniform ht)))" by auto
qed

end
