(* ===== verification/Vir_Uniform_Inst.thy ===== *)
theory Vir_Uniform_Inst
  imports Vir_Uniform_Table Vir_Opt_Pass
begin

text \<open>
  The uniforms of one instruction, and what replacing one of them does.
\<close>

section \<open>Uniforms of an instruction\<close>

definition lowerable :: "qinst \<Rightarrow> nat \<Rightarrow> bool" where
  "lowerable x i \<longleftrightarrow> q_file (qi_src x ! i) = QFILE_UNIF \<and> (vir_has_implicit_uniform x \<longrightarrow> Suc i \<noteq> vir_get_nsrc x)"

definition uniforms :: "qinst \<Rightarrow> nat set" where
  "uniforms x = {q_index (qi_src x ! i) | i. i < vir_get_nsrc x \<and> q_file (qi_src x ! i) = QFILE_UNIF}"

definition unifs :: "qinst \<Rightarrow> nat list" where
  "unifs x = map (\<lambda>i. q_index (qi_src x ! i)) (filter (lowerable x) [0..<vir_get_nsrc x])"

text \<open>The uniforms that still have to be replaced in an instruction.\<close>

definition pending :: "qinst \<Rightarrow> nat list" where
  "pending x = (if card (uniforms x) \<le> 1 then [] else unifs x)"

text \<open>The implicit uniform is none of those that can be replaced.\<close>

definition implicit_apart :: "qinst \<Rightarrow> bool" where
  "implicit_apart x \<longleftrightarrow> (vir_has_implicit_uniform x \<and> q_file (qi_src x ! (vir_get_nsrc x - 1)) = QFILE_UNIF \<longrightarrow>
     q_index (qi_src x ! (vir_get_nsrc x - 1)) \<notin> set (unifs x))"

lemma finite_uniforms [simp]: "finite (uniforms x)"
proof -
  have "uniforms x \<subseteq> (\<lambda>i. q_index (qi_src x ! i)) ` {..<vir_get_nsrc x}" by (auto simp: uniforms_def)
  then show ?thesis by (rule finite_subset) simp
qed

lemma uniforms_unifs: "uniforms x = set (unifs x) \<union>
  (if vir_has_implicit_uniform x \<and> q_file (qi_src x ! (vir_get_nsrc x - 1)) = QFILE_UNIF then {q_index (qi_src x ! (vir_get_nsrc x - 1))} else {})"
proof (cases "vir_has_implicit_uniform x")
  case True
  then have n: "0 < vir_get_nsrc x" by (simp add: vir_get_nsrc_def)
  have "i = vir_get_nsrc x - 1 \<or> lowerable x i" if "i < vir_get_nsrc x" "q_file (qi_src x ! i) = QFILE_UNIF" for i
    using that True by (auto simp: lowerable_def)
  then show ?thesis using n True by (auto simp: uniforms_def unifs_def lowerable_def)
next
  case False
  then show ?thesis by (auto simp: uniforms_def unifs_def lowerable_def)
qed

lemma pending_Nil: "pending x = [] \<Longrightarrow> card (uniforms x) \<le> 1"
  using uniforms_unifs [of x] by (auto simp: pending_def split: if_splits)

section \<open>The queries\<close>

lemma is_lowerable_eq: "i < length (qi_src x) \<Longrightarrow> i < vir_get_nsrc x \<Longrightarrow> is_lowerable_uniform x i = ret (lowerable x i)"
  by (auto simp: is_lowerable_uniform_def lowerable_def vir_get_implicit_uniform_src_def)

lemma is_duplicate_eq:
  "\<forall>j\<in>set js. j < length (qi_src x) \<Longrightarrow>
    is_duplicate x r js = ret (\<exists>j\<in>set js. q_file (qi_src x ! j) = QFILE_UNIF \<and> q_index (qi_src x ! j) = q_index r)"
  by (induction js) auto

lemma uniform_count_eq:
  assumes "length (qi_src x) = 3"
  shows "vir_get_instruction_uniform_count x = ret (card (uniforms x))"
proof -
  let ?U = "\<lambda>k. {q_index (qi_src x ! i) | i. i < k \<and> q_file (qi_src x ! i) = QFILE_UNIF}"
  define f :: "nat \<Rightarrow> nat \<Rightarrow> nat run" where "f = (\<lambda>i count. bind_run (fetch (qi_src x) i) (\<lambda>src. if q_file src \<noteq> QFILE_UNIF then ret count
       else bind_run (is_duplicate x src [0..<i]) (\<lambda>dup. ret (if dup then count else count + 1))))"
  have "fold_run f [0..<k] 0 = ret (card (?U k))" if "k \<le> 3" for k
    using that
  proof (induction k)
    case (Suc k)
    have fin: "finite (?U k)" by simp
    have dup: "is_duplicate x (qi_src x ! k) [0..<k] = ret (q_index (qi_src x ! k) \<in> ?U k)"
    proof -
      have "(\<exists>j\<in>set [0..<k]. q_file (qi_src x ! j) = QFILE_UNIF \<and> q_index (qi_src x ! j) = q_index (qi_src x ! k)) \<longleftrightarrow> q_index (qi_src x ! k) \<in> ?U k"
      proof
        assume "\<exists>j\<in>set [0..<k]. q_file (qi_src x ! j) = QFILE_UNIF \<and> q_index (qi_src x ! j) = q_index (qi_src x ! k)"
        then obtain j where "j < k" "q_file (qi_src x ! j) = QFILE_UNIF" "q_index (qi_src x ! j) = q_index (qi_src x ! k)" by auto
        then show "q_index (qi_src x ! k) \<in> ?U k" by (intro CollectI exI [of _ j]) simp
      next
        assume "q_index (qi_src x ! k) \<in> ?U k"
        then obtain i where "i < k" "q_file (qi_src x ! i) = QFILE_UNIF" "q_index (qi_src x ! k) = q_index (qi_src x ! i)" by auto
        then show "\<exists>j\<in>set [0..<k]. q_file (qi_src x ! j) = QFILE_UNIF \<and> q_index (qi_src x ! j) = q_index (qi_src x ! k)"
          by (intro bexI [of _ i]) simp_all
      qed
      then show ?thesis using is_duplicate_eq [of "[0..<k]" x "qi_src x ! k"] Suc.prems assms by simp
    qed
    have U: "?U (Suc k) = (if q_file (qi_src x ! k) = QFILE_UNIF then insert (q_index (qi_src x ! k)) (?U k) else ?U k)"
      by (auto simp: less_Suc_eq)
    define V where "V = ?U k"
    have "f k (card V) = ret (card (?U (Suc k)))"
      using Suc.prems assms dup fin unfolding U V_def [symmetric] by (simp add: f_def card_insert_if)
    then have step: "f k (card (?U k)) = ret (card (?U (Suc k)))" by (simp only: V_def)
    have "fold_run f [0..<k] 0 = ret (card (?U k))" using Suc.IH Suc.prems by simp
    then have "fold_run f ([0..<k] @ [k]) 0 = ret (card (?U (Suc k)))" unfolding fold_run_append by (simp only: bind_run_simps fold_run.simps step)
    then show ?case by simp
  qed simp
  then show ?thesis using nsrc_le [of x] by (simp add: vir_get_instruction_uniform_count_def uniforms_def f_def)
qed

text \<open>A loop over the sources that acts on the ones that can be replaced.\<close>

lemma fold_lowerable:
  assumes "\<forall>i\<in>set is. i < length (qi_src x) \<and> i < vir_get_nsrc x" "\<And>r s. f r s = g (q_index r) s"
  shows "fold_run (\<lambda>i s. bind_run (is_lowerable_uniform x i) (\<lambda>l. if l then bind_run (fetch (qi_src x) i) (\<lambda>r. f r s) else ret s)) is s =
    fold_run g (map (\<lambda>i. q_index (qi_src x ! i)) (filter (lowerable x) is)) s"
  using assms(1)
proof (induction "is" arbitrary: s)
  case (Cons i l)
  then have eq: "fold_run (\<lambda>i s. bind_run (is_lowerable_uniform x i) (\<lambda>l. if l then bind_run (fetch (qi_src x) i) (\<lambda>r. f r s) else ret s)) l =
    fold_run g (map (\<lambda>i. q_index (qi_src x ! i)) (filter (lowerable x) l))" by (simp add: fun_eq_iff)
  show ?case using Cons.prems by (cases "lowerable x i") (simp_all add: is_lowerable_eq assms(2) eq)
qed simp

lemma add_uniform_index: "add_uniform alloc ht r = add_uniform alloc ht (vir_reg QFILE_UNIF (q_index r))"
  by (simp add: add_uniform_def vir_reg_def)

lemma remove_uniform_index: "remove_uniform ht r = remove_uniform ht (vir_reg QFILE_UNIF (q_index r))"
  by (simp add: remove_uniform_def vir_reg_def)

lemma count_inst_eq:
  assumes "length (qi_src x) = 3"
  shows "count_inst alloc x ht = fold_run (\<lambda>i ht. add_uniform alloc ht (vir_reg QFILE_UNIF i)) (pending x) ht"
proof -
  have "\<forall>i\<in>set [0..<vir_get_nsrc x]. i < length (qi_src x) \<and> i < vir_get_nsrc x" using assms nsrc_le [of x] by auto
  note F = fold_lowerable [OF this, of "\<lambda>r ht. add_uniform alloc ht r" "\<lambda>i ht. add_uniform alloc ht (vir_reg QFILE_UNIF i)", OF add_uniform_index]
  show ?thesis unfolding count_inst_def uniform_count_eq [OF assms] using F by (simp add: pending_def unifs_def)
qed

lemma drop_uniforms_eq:
  assumes "length (qi_src x) = 3"
  shows "drop_uniforms x ht = fold_run (\<lambda>i ht. remove_uniform ht (vir_reg QFILE_UNIF i)) (unifs x) ht"
proof -
  have "\<forall>i\<in>set [0..<vir_get_nsrc x]. i < length (qi_src x) \<and> i < vir_get_nsrc x" using assms nsrc_le [of x] by auto
  note F = fold_lowerable [OF this, of "\<lambda>r ht. remove_uniform ht r" "\<lambda>i ht. remove_uniform ht (vir_reg QFILE_UNIF i)", OF remove_uniform_index]
  show ?thesis unfolding drop_uniforms_def using F by (simp add: unifs_def)
qed

section \<open>Replacing one uniform\<close>

text \<open>The instruction whose sources below \<open>k\<close> read \<open>dst\<close> in the place of the uniform \<open>u\<close>.\<close>

definition lowered_to :: "nat \<Rightarrow> nat \<Rightarrow> qreg \<Rightarrow> qinst \<Rightarrow> qinst" where
  "lowered_to k u dst x = x\<lparr>qi_src := map (\<lambda>i. if i < k \<and> lowerable x i \<and> q_index (qi_src x ! i) = u then dst else qi_src x ! i) [0..<3]\<rparr>"

lemma lowered_strip: "strip (lowered_to k u dst x) = strip x"
  by (simp add: lowered_to_def src_strip)

lemma lowered_simps:
  "qi_qpu (lowered_to k u dst x) = qi_qpu x" "length (qi_src (lowered_to k u dst x)) = 3"
  by (simp_all add: lowered_to_def)

lemmas lowered_strips = strip_eqD(1-4) [OF lowered_strip]

lemma lowered_src: "i < 3 \<Longrightarrow> qi_src (lowered_to k u dst x) ! i = (if i < k \<and> lowerable x i \<and> q_index (qi_src x ! i) = u then dst else qi_src x ! i)"
  by (simp add: lowered_to_def)

lemma lowered_same:
  assumes "length (qi_src x) = 3" "\<And>i. i < 3 \<Longrightarrow> i < k \<Longrightarrow> lowerable x i \<Longrightarrow> q_index (qi_src x ! i) \<noteq> u"
  shows "lowered_to k u dst x = x"
proof -
  have "map (\<lambda>i. if i < k \<and> lowerable x i \<and> q_index (qi_src x ! i) = u then dst else qi_src x ! i) [0..<3] = map ((!) (qi_src x)) [0..<3]"
    using assms(2) by (intro map_cong) auto
  also have "\<dots> = qi_src x" using map_nth [of "qi_src x"] assms(1) by simp
  finally show ?thesis by (simp add: lowered_to_def)
qed

lemma lowered_Suc:
  assumes "length (qi_src x) = 3" "k < 3" "lowerable x k" "q_index (qi_src x ! k) = u"
  shows "(lowered_to k u dst x)\<lparr>qi_src := (qi_src (lowered_to k u dst x))[k := dst]\<rparr> = lowered_to (Suc k) u dst x"
proof -
  have "(map (\<lambda>i. if i < k \<and> lowerable x i \<and> q_index (qi_src x ! i) = u then dst else qi_src x ! i) [0..<3])[k := dst] =
      map (\<lambda>i. if i < Suc k \<and> lowerable x i \<and> q_index (qi_src x ! i) = u then dst else qi_src x ! i) [0..<3]"
    using assms by (intro nth_equalityI) (auto simp: nth_list_update less_Suc_eq)
  then show ?thesis by (simp add: lowered_to_def)
qed

lemma lowered_skip:
  assumes "\<not> (lowerable x k \<and> q_index (qi_src x ! k) = u)"
  shows "lowered_to (Suc k) u dst x = lowered_to k u dst x"
proof -
  have "(i < Suc k \<and> lowerable x i \<and> q_index (qi_src x ! i) = u) = (i < k \<and> lowerable x i \<and> q_index (qi_src x ! i) = u)" for i
    using assms by (auto simp: less_Suc_eq)
  then show ?thesis unfolding lowered_to_def by simp
qed

lemma qreg_copy: "r\<lparr>q_file := q_file d, q_index := q_index d\<rparr> = (d :: qreg)"
  by (cases r, cases d) simp

lemma lower_srcs_ok:
  assumes C: "uniform_counts dk U n ht f" and u: "u < U" and x: "length (qi_src x) = 3" and le: "count_list (unifs x) u \<le> f u"
  shows "\<exists>ht'. fold_run (lower_src (vir_reg QFILE_UNIF u) dst) [0..<vir_get_nsrc x] (x, ht, False) =
      ret (lowered_to (vir_get_nsrc x) u dst x, ht', u \<in> set (unifs x)) \<and> uniform_counts dk U n ht' (f(u := f u - count_list (unifs x) u))"
proof -
  let ?l = "\<lambda>k. map (\<lambda>i. q_index (qi_src x ! i)) (filter (lowerable x) [0..<k])"
  have "\<exists>ht'. fold_run (lower_src (vir_reg QFILE_UNIF u) dst) [0..<k] (x, ht, False) =
      ret (lowered_to k u dst x, ht', u \<in> set (?l k)) \<and> uniform_counts dk U n ht' (f(u := f u - count_list (?l k) u))" if "k \<le> vir_get_nsrc x" for k
    using that
  proof (induction k)
    case 0
    then show ?case using C lowered_same [OF x, of 0] by simp
  next
    case (Suc k)
    obtain h where h: "fold_run (lower_src (vir_reg QFILE_UNIF u) dst) [0..<k] (x, ht, False) = ret (lowered_to k u dst x, h, u \<in> set (?l k))"
      "uniform_counts dk U n h (f(u := f u - count_list (?l k) u))" using Suc.IH [OF Suc_leD [OF Suc.prems]] by blast
    have k: "k < 3" "k < vir_get_nsrc x" using Suc.prems nsrc_le [of x] by auto
    let ?y = "lowered_to k u dst x"
    have src: "qi_src ?y ! k = qi_src x ! k" using k(1) by (simp add: lowered_src)
    have low: "is_lowerable_uniform ?y k = ret (lowerable x k)"
      using is_lowerable_eq [of k ?y] k lowered_simps(2) [of k u dst x] lowered_strips(1,2) [of k u dst x] src by (simp add: lowerable_def)
    have cnt: "count_list (?l (Suc k)) u = count_list (?l k) u + (if lowerable x k \<and> q_index (qi_src x ! k) = u then 1 else 0)" by simp
    have app: "fold_run (lower_src (vir_reg QFILE_UNIF u) dst) [0..<Suc k] (x, ht, False) = lower_src (vir_reg QFILE_UNIF u) dst k (?y, h, u \<in> set (?l k))"
      using h(1) by (simp add: fold_run_append bind_run_def ret_def split: option.split sum.split)
    show ?case
    proof (cases "lowerable x k \<and> q_index (qi_src x ! k) = u")
      case True
      have sub: "count_list (?l (Suc k)) u \<le> count_list (unifs x) u"
      proof -
        have "[0..<vir_get_nsrc x] = [0..<Suc k] @ [Suc k..<vir_get_nsrc x]" using k(2) upt_add_eq_append [of 0 "Suc k" "vir_get_nsrc x - Suc k"] by simp
        then have "unifs x = ?l (Suc k) @ map (\<lambda>i. q_index (qi_src x ! i)) (filter (lowerable x) [Suc k..<vir_get_nsrc x])"
          unfolding unifs_def by simp
        then show ?thesis by (metis count_list_append le_add1)
      qed
      then have pos: "0 < f u - count_list (?l k) u" using le cnt True by simp
      obtain h' where h': "remove_uniform h (vir_reg QFILE_UNIF u) = ret h'" "uniform_counts dk U n h' (f(u := f u - count_list (?l k) u - 1))"
        using uniform_table.sub_ok [OF h(2) u] pos by auto
      have "lower_src (vir_reg QFILE_UNIF u) dst k (?y, h, u \<in> set (?l k)) =
          ret (?y\<lparr>qi_src := (qi_src ?y)[k := dst]\<rparr>, h', True)"
        using low src True h'(1) k(1) lowered_simps(2) [of k u dst x] by (simp add: lower_src_def vir_reg_def qreg_copy)
      moreover have "f(u := f u - count_list (?l k) u - 1) = f(u := f u - count_list (?l (Suc k)) u)" unfolding cnt using True by simp
      moreover have "u \<in> set (?l (Suc k))" using True by auto
      ultimately show ?thesis unfolding app lowered_Suc [OF x k(1) conjunct1 [OF True] conjunct2 [OF True]] using h'(2)
        by (intro exI [of _ h']) (simp only: simp_thms)
    next
      case False
      have "lower_src (vir_reg QFILE_UNIF u) dst k (?y, h, u \<in> set (?l k)) = ret (?y, h, u \<in> set (?l k))"
        using low src False k(1) lowered_simps(2) [of k u dst x] by (auto simp: lower_src_def vir_reg_def)
      moreover have "count_list (?l (Suc k)) u = count_list (?l k) u" unfolding cnt using False by simp
      moreover have "u \<in> set (?l (Suc k)) \<longleftrightarrow> u \<in> set (?l k)" using False by (auto simp: less_Suc_eq)
      ultimately show ?thesis unfolding app lowered_skip [OF False] using h(2) by (intro exI [of _ h]) (simp only: simp_thms)
    qed
  qed
  from this [OF order_refl] show ?thesis by (simp add: unifs_def)
qed

abbreviation lowered :: "nat \<Rightarrow> qreg \<Rightarrow> qinst \<Rightarrow> qinst" where
  "lowered u dst x \<equiv> lowered_to (vir_get_nsrc x) u dst x"

lemma lowered_lowerable:
  assumes "i < vir_get_nsrc x" "q_file dst = QFILE_TEMP"
  shows "lowerable (lowered u dst x) i \<longleftrightarrow> lowerable x i \<and> q_index (qi_src x ! i) \<noteq> u"
    "lowerable (lowered u dst x) i \<Longrightarrow> qi_src (lowered u dst x) ! i = qi_src x ! i"
  using assms nsrc_le [of x] lowered_strips(1,2) [of "vir_get_nsrc x" u dst x] by (auto simp: lowered_src lowerable_def)

lemma lowered_unifs:
  assumes "q_file dst = QFILE_TEMP"
  shows "unifs (lowered u dst x) = filter (\<lambda>v. v \<noteq> u) (unifs x)"
proof -
  have f: "filter (lowerable (lowered u dst x)) [0..<vir_get_nsrc x] = filter (\<lambda>i. lowerable x i \<and> q_index (qi_src x ! i) \<noteq> u) [0..<vir_get_nsrc x]"
    using lowered_lowerable(1) [OF _ assms] by (intro filter_cong) auto
  have "unifs (lowered u dst x) = map (\<lambda>i. q_index (qi_src x ! i)) (filter (lowerable (lowered u dst x)) [0..<vir_get_nsrc x])"
    unfolding unifs_def lowered_strips(1) using lowered_lowerable(2) [OF _ assms] by (intro map_cong) auto
  then show ?thesis unfolding f unifs_def by (simp add: filter_map comp_def conj_commute)
qed

lemma lowered_implicit:
  assumes "vir_has_implicit_uniform x"
  shows "qi_src (lowered u dst x) ! (vir_get_nsrc x - 1) = qi_src x ! (vir_get_nsrc x - 1)"
proof -
  have "0 < vir_get_nsrc x" using assms by (simp add: vir_get_nsrc_def)
  then show ?thesis using assms nsrc_le [of x] by (simp add: lowered_src lowerable_def)
qed

lemma lowered_uniforms:
  assumes "q_file dst = QFILE_TEMP" "implicit_apart x"
  shows "u \<in> set (unifs x) \<Longrightarrow> uniforms (lowered u dst x) = uniforms x - {u}" "implicit_apart (lowered u dst x)"
proof -
  note S = lowered_strips(1,2) [of "vir_get_nsrc x" u dst x]
  show "implicit_apart (lowered u dst x)"
    using assms(2) lowered_implicit [of x u dst] unfolding implicit_apart_def S lowered_unifs [OF assms(1)] by auto
  show "uniforms (lowered u dst x) = uniforms x - {u}" if "u \<in> set (unifs x)"
    using that assms(2) lowered_implicit [of x u dst]
    unfolding uniforms_unifs [of x] uniforms_unifs [of "lowered u dst x"] S lowered_unifs [OF assms(1)] implicit_apart_def by auto
qed

lemma lowered_pending:
  assumes d: "q_file dst = QFILE_TEMP" and i: "implicit_apart x" and x: "length (qi_src x) = 3" "1 < card (uniforms x)"
  shows "u \<notin> set (pending (lowered u dst x))" "set (pending (lowered u dst x)) \<subseteq> set (unifs x)"
    "count_list (pending (lowered u dst x)) v \<le> count_list (pending x) v"
    "card (uniforms (lowered u dst x)) = (if u \<in> set (unifs x) then card (uniforms x) - 1 else card (uniforms x))"
proof -
  have p: "pending x = unifs x" using x(2) by (simp add: pending_def)
  show "u \<notin> set (pending (lowered u dst x))" "set (pending (lowered u dst x)) \<subseteq> set (unifs x)"
    by (auto simp: pending_def lowered_unifs [OF d])
  have "count_list (filter (\<lambda>v. v \<noteq> u) l) v \<le> count_list l v" for l by (induction l) auto
  then show "count_list (pending (lowered u dst x)) v \<le> count_list (pending x) v" unfolding p pending_def [of "lowered u dst x"] lowered_unifs [OF d] by simp
  have "lowered u dst x = x" if "u \<notin> set (unifs x)" using that by (intro lowered_same [OF x(1)]) (auto simp: unifs_def)
  moreover have "u \<in> uniforms x" if "u \<in> set (unifs x)" using that uniforms_unifs [of x] by auto
  ultimately show "card (uniforms (lowered u dst x)) = (if u \<in> set (unifs x) then card (uniforms x) - 1 else card (uniforms x))"
    using lowered_uniforms(1) [OF d i] by auto
qed

text \<open>What the two loops over the sources do to the counters.\<close>

lemma lower_and_drop_ok:
  assumes C: "uniform_counts dk U n ht f" and u: "u < U" and x: "length (qi_src x) = 3" "1 < card (uniforms x)" "implicit_apart x" "uniforms x \<subseteq> {..<U}"
    and le: "\<And>v. count_list (unifs x) v \<le> f v" and d: "q_file dst = QFILE_TEMP"
  shows "\<exists>ht1 ht2 removed. fold_run (lower_src (vir_reg QFILE_UNIF u) dst) [0..<vir_get_nsrc x] (x, ht, False) = ret (lowered u dst x, ht1, removed) \<and>
    (if (if removed then card (uniforms x) - 1 else card (uniforms x)) \<le> 1 then drop_uniforms (lowered u dst x) ht1 else ret ht1) = ret ht2 \<and>
    uniform_counts dk U n ht2 (\<lambda>v. f v - count_list (pending x) v + count_list (pending (lowered u dst x)) v)"
proof -
  let ?y = "lowered u dst x"
  let ?g = "f(u := f u - count_list (unifs x) u)"
  have p: "pending x = unifs x" using x(2) by (simp add: pending_def)
  obtain ht1 where h1: "fold_run (lower_src (vir_reg QFILE_UNIF u) dst) [0..<vir_get_nsrc x] (x, ht, False) = ret (?y, ht1, u \<in> set (unifs x))"
    "uniform_counts dk U n ht1 ?g" using lower_srcs_ok [OF C u x(1) le] by blast
  note card = lowered_pending(4) [OF d x(3) x(1,2), of u]
  have cl: "count_list (filter (\<lambda>v. v \<noteq> u) l) v = (if v = u then 0 else count_list l v)" for l v by (induction l) auto
  show ?thesis
  proof (cases "card (uniforms ?y) \<le> 1")
    case True
    have v: "\<forall>i\<in>set (unifs ?y). i < U" using x(4) uniforms_unifs [of x] by (auto simp: lowered_unifs [OF d])
    have "count_list (unifs ?y) v \<le> ?g v" for v using le [of v] by (simp add: lowered_unifs [OF d] cl)
    from uniform_table.subs [OF h1(2) v this] obtain ht2 where
      h2: "drop_uniforms ?y ht1 = ret ht2" "uniform_counts dk U n ht2 (\<lambda>i. ?g i - count_list (unifs ?y) i)"
      using drop_uniforms_eq [of ?y ht1] lowered_simps(2) by auto
    have "(\<lambda>i. ?g i - count_list (unifs ?y) i) = (\<lambda>v. f v - count_list (pending x) v + count_list (pending ?y) v)"
      using True by (auto simp: fun_eq_iff p pending_def [of ?y] lowered_unifs [OF d] cl)
    then show ?thesis using h1(1) h2 True card by (intro exI [of _ ht1] exI [of _ ht2] exI [of _ "u \<in> set (unifs x)"]) simp
  next
    case False
    have "?g = (\<lambda>v. f v - count_list (pending x) v + count_list (pending ?y) v)"
      using False le by (auto simp: fun_eq_iff p pending_def [of ?y] lowered_unifs [OF d] cl)
    then show ?thesis using h1 False card by (intro exI [of _ ht1] exI [of _ ht1] exI [of _ "u \<in> set (unifs x)"]) simp
  qed
qed

end
