(* ===== verification/Vir_Uniform_Prog.thy ===== *)
theory Vir_Uniform_Prog
  imports Vir_Uniform_Inst Vir_Opt_Sound
begin

text \<open>
  The steps of the pass on a program: loading a uniform at the start of a block and replacing it in one instruction.
\<close>

section \<open>Programs and their uniforms\<close>

definition prog_unif :: "nat \<Rightarrow> v3d_compile \<Rightarrow> bool" where
  "prog_unif U c \<longleftrightarrow> (\<forall>x\<in>insts_of c. implicit_apart x \<and> uniforms x \<subseteq> {..<U})"

definition total :: "v3d_compile \<Rightarrow> nat list" where
  "total c = concat (map pending (code c))"

text \<open>
  The relation between the programs before and after a step: block for block they do the same to the world and to the
  temporaries that the first program has.
\<close>

definition lowers :: "('v, 'w) machine \<Rightarrow> v3d_compile \<Rightarrow> v3d_compile \<Rightarrow> bool" where
  "lowers M c c' \<longleftrightarrow> opt_ok c' \<and> same_flow c c' \<and> num_temps c \<le> num_temps c' \<and> qi_addr ` insts_of c \<subseteq> qi_addr ` insts_of c' \<and>
     (\<forall>b < length (c_blocks c). \<forall>st st'. agree_on {..<num_temps c} st st' \<longrightarrow>
        agree_on {..<num_temps c} (exec M (insts_in c b) st) (exec M (insts_in c' b) st'))"

lemma agree_on_trans: "agree_on T st st' \<Longrightarrow> agree_on T' st' st'' \<Longrightarrow> T \<subseteq> T' \<Longrightarrow> agree_on T st st''"
  by (auto simp: agree_on_def)

lemma agree_on_refl [simp]: "agree_on T st st"
  by (simp add: agree_on_def)

lemma lowersD:
  assumes "lowers M c c'"
  shows "opt_ok c'" "same_flow c c'" "num_temps c \<le> num_temps c'" "qi_addr ` insts_of c \<subseteq> qi_addr ` insts_of c'" "length (c_blocks c') = length (c_blocks c)"
    "b < length (c_blocks c) \<Longrightarrow> agree_on {..<num_temps c} st st' \<Longrightarrow> agree_on {..<num_temps c} (exec M (insts_in c b) st) (exec M (insts_in c' b) st')"
proof -
  show "opt_ok c'" "same_flow c c'" "num_temps c \<le> num_temps c'" "qi_addr ` insts_of c \<subseteq> qi_addr ` insts_of c'"
    using assms unfolding lowers_def by blast+
  then show "length (c_blocks c') = length (c_blocks c)" by (simp add: same_flow_def)
  show "agree_on {..<num_temps c} (exec M (insts_in c b) st) (exec M (insts_in c' b) st')"
    if "b < length (c_blocks c)" "agree_on {..<num_temps c} st st'" using assms that unfolding lowers_def by blast
qed

lemma lowers_trans:
  assumes "lowers M c c'" "lowers M c' c''"
  shows "lowers M c c''"
proof -
  note A = lowersD [OF assms(1)] and B = lowersD [OF assms(2)]
  have "agree_on {..<num_temps c} (exec M (insts_in c b) st) (exec M (insts_in c'' b) st')"
    if b: "b < length (c_blocks c)" "agree_on {..<num_temps c} st st'" for b st st'
  proof -
    have "{..<num_temps c} \<subseteq> {..<num_temps c'}" "b < length (c_blocks c')" using A(3,5) b(1) by auto
    then show ?thesis using agree_on_trans [OF A(6) [OF b] B(6)] by simp
  qed
  moreover have "same_flow c c''" using A(2) B(2) by (simp add: same_flow_def)
  ultimately show ?thesis using B(1) subset_trans [OF A(4) B(4)] le_trans [OF A(3) B(3)] by (simp add: lowers_def)
qed

section \<open>Execution\<close>

lemma operand_wf:
  assumes "inst_wf c x" "agree_on {..<num_temps c} st st'" "i < 3"
  shows "operand M st' x i = operand M st x i"
proof -
  have "fst st' (q_index (qi_src x ! i)) = fst st (q_index (qi_src x ! i))" if "q_file (qi_src x ! i) = QFILE_TEMP"
    using assms that by (auto simp: agree_on_def inst_wf_def)
  then show ?thesis using assms(2) by (cases "q_file (qi_src x ! i)") (auto simp: operand_def read_src_def agree_on_def)
qed

lemma exec_wf:
  assumes "\<forall>x\<in>set xs. inst_wf c x" "agree_on {..<num_temps c} st st'"
  shows "agree_on {..<num_temps c} (exec M xs st) (exec M xs st')"
  using assms
proof (induction xs arbitrary: st st')
  case (Cons x xs)
  have x: "inst_wf c x" using Cons.prems(1) by simp
  have "operands M st' x = operands M st x" "operand M st' x 0 = operand M st x 0"
    using operand_wf [OF x Cons.prems(2)] nsrc_le [of x] by (simp_all add: operands_def)
  then have "agree_on {..<num_temps c} (exec_inst M x st) (exec_inst M x st')" using Cons.prems(2) by (auto simp: agree_on_def exec_inst_def)
  then show ?case using Cons by simp
qed simp

lemma lowers_refl: "opt_ok c \<Longrightarrow> lowers M c c"
proof -
  assume ok: "opt_ok c"
  have "\<forall>x\<in>set (insts_in c b). inst_wf c x" if "b < length (c_blocks c)" for b
    using opt_okD(7) [OF ok] distinct_block(2) [OF opt_okD(6) [OF ok] that] by blast
  then show "lowers M c c" using ok exec_wf unfolding lowers_def same_flow_def by blast
qed

section \<open>Loads\<close>

definition load_of :: "nat \<Rightarrow> nat \<Rightarrow> nat \<Rightarrow> qinst" where
  "load_of a t u = vir_mul_inst a V3D_QPU_M_MOV (vir_reg QFILE_TEMP t) (vir_reg QFILE_UNIF u) (vir_reg QFILE_NULL 0)"

lemma load_of_simps:
  "qi_addr (load_of a t u) = a" "qi_dst (load_of a t u) = vir_reg QFILE_TEMP t" "qi_src (load_of a t u) = [vir_reg QFILE_UNIF u, vir_reg QFILE_NULL 0, vir_reg QFILE_NULL 0]"
  "vir_get_nsrc (load_of a t u) = 1" "\<not> vir_has_implicit_uniform (load_of a t u)" "copy_mov (load_of a t u)" "unpack_of (load_of a t u) 0 = V3D_QPU_UNPACK_NONE"
  by (simp_all add: load_of_def vir_mul_inst_def v3d_qpu_nop_def vir_reg_def vir_get_nsrc_def vir_get_non_sideband_nsrc_def vir_has_implicit_uniform_def
      copy_mov_def unpack_of_def vir_is_add_def v3d_qpu_mul_op_num_src_def Let_def)

lemma load_of_uniforms: "uniforms (load_of a t u) = {u}" "pending (load_of a t u) = []" "implicit_apart (load_of a t u)"
proof -
  show "uniforms (load_of a t u) = {u}" by (auto simp: uniforms_def load_of_simps vir_reg_def)
  then show "pending (load_of a t u) = []" by (simp add: pending_def)
  show "implicit_apart (load_of a t u)" by (simp add: implicit_apart_def load_of_simps)
qed

lemma exec_load:
  assumes "\<And>b v. m_unpack M b V3D_QPU_UNPACK_NONE v = v" "\<And>vs w. m_world M a vs w = w"
  shows "exec_inst M (load_of a t u) st = ((fst st)(t := m_uniform M u), snd st)"
  using assms by (auto simp: exec_inst_def sets_temp_def load_of_simps operand_def read_src_def vir_reg_def)

text \<open>The instructions of a program with one more at the start of a block.\<close>

definition insert_first :: "v3d_compile \<Rightarrow> nat \<Rightarrow> qinst \<Rightarrow> qblock list" where
  "insert_first c b m = (c_blocks c)[b := (c_blocks c ! b)\<lparr>qb_instructions := m # insts_in c b\<rparr>]"

lemma insert_first_code:
  assumes "b < length (c_blocks c)"
  obtains xs ys where "code c = xs @ ys" "concat (map qb_instructions (insert_first c b m)) = xs @ m # ys"
proof
  let ?l = "c_blocks c"
  have l: "?l = take b ?l @ ?l ! b # drop (Suc b) ?l" using id_take_nth_drop [OF assms] .
  show "code c = concat (map qb_instructions (take b ?l)) @ insts_in c b @ concat (map qb_instructions (drop (Suc b) ?l))"
    by (subst l) simp
  show "concat (map qb_instructions (insert_first c b m)) = concat (map qb_instructions (take b ?l)) @ m # insts_in c b @ concat (map qb_instructions (drop (Suc b) ?l))"
    using assms by (simp add: insert_first_def upd_conv_take_nth_drop)
qed

text \<open>What the pass relies on of a machine: unpacking nothing is the identity, and new instructions have no other effects.\<close>

definition loads_ok :: "('v, 'w) machine \<Rightarrow> v3d_compile \<Rightarrow> bool" where
  "loads_ok M c \<longleftrightarrow> (\<forall>b v. m_unpack M b V3D_QPU_UNPACK_NONE v = v) \<and> (\<forall>p. p \<notin> qi_addr ` insts_of c \<longrightarrow> (\<forall>vs w. m_world M p vs w = w))"

definition fresh_alloc :: "(v3d_compile \<Rightarrow> nat) \<Rightarrow> bool" where
  "fresh_alloc calloc \<longleftrightarrow> (\<forall>c. calloc c \<notin> qi_addr ` insts_of c)"

lemma get_temp_simps:
  assumes "num_temps c \<le> length (c_defs c)" "vir_get_temp c = (c', r)"
  shows "r = vir_reg QFILE_TEMP (num_temps c)" "num_temps c' = Suc (num_temps c)" "c_blocks c' = c_blocks c" "vattr_sizes c' = vattr_sizes c"
    "num_temps c' \<le> length (c_defs c')" "t < num_temps c \<Longrightarrow> c_defs c' ! t = c_defs c ! t"
  using assms by (auto simp: vir_get_temp_def Let_def nth_append split: if_splits)

lemma load_uniform_ok:
  assumes ok: "opt_ok c" and b: "b < length (c_blocks c)" and fr: "fresh_alloc calloc"
  shows "\<exists>c' a. load_uniform calloc c b (vir_reg QFILE_UNIF u) = ret (c', load_of a (num_temps c) u) \<and> a \<notin> qi_addr ` insts_of c \<and>
    c_blocks c' = insert_first c b (load_of a (num_temps c) u) \<and> num_temps c' = Suc (num_temps c) \<and> opt_ok c'"
proof -
  obtain c1 r where g: "vir_get_temp c = (c1, r)" by force
  note G = get_temp_simps [OF opt_okD(5) [OF ok] g]
  let ?t = "num_temps c" and ?m = "load_of (calloc c1) (num_temps c) u"
  have bl: "insts_of c1 = insts_of c" "code c1 = code c" unfolding insts_of_def by (simp_all add: G(3))
  have a: "calloc c1 \<notin> qi_addr ` insts_of c" using fr bl(1) unfolding fresh_alloc_def by metis
  let ?c = "c1\<lparr>c_blocks := insert_first c b ?m, c_defs := (c_defs c1)[?t := Some (calloc c1)]\<rparr>"
  have tl: "?t < length (c_defs c1)" using G(2,5) by simp
  have lu: "load_uniform calloc c b (vir_reg QFILE_UNIF u) = ret (?c, ?m)"
    using b tl by (simp add: load_uniform_def g G(1,3) Let_def load_of_def vir_mul_inst_def insert_first_def update_at_def vir_reg_def)
  obtain xs ys where cd: "code c = xs @ ys" "concat (map qb_instructions (insert_first c b ?m)) = xs @ ?m # ys"
    using insert_first_code [OF b] by blast
  have I: "insts_of ?c = insert ?m (insts_of c)" unfolding insts_of_def using cd by simp
  have dis: "distinct (map qi_addr (code ?c))"
    using opt_okD(6) [OF ok] a cd by (auto simp: insts_of_def load_of_simps)
  have "inst_wf ?c x" if "x \<in> insts_of c" for x using opt_okD(7) [OF ok that] G(2,4) unfolding inst_wf_def by (simp add: less_SucI)
  moreover have "inst_wf ?c ?m" using G(2) by (simp add: inst_wf_def load_of_simps vir_reg_def less_Suc_eq nth_Cons' numeral_3_eq_3)
  ultimately have wf: "\<forall>x\<in>insts_of ?c. inst_wf ?c x" unfolding I by blast
  have "\<exists>x\<in>insts_of ?c. qi_addr x = p \<and> q_file (qi_dst x) = QFILE_TEMP \<and> q_index (qi_dst x) = t"
    if t: "t < num_temps ?c" "c_defs ?c ! t = Some p" for t p
  proof (cases "t = ?t")
    case True
    then show ?thesis using t(2) tl unfolding I by (simp add: load_of_simps vir_reg_def)
  next
    case False
    then have "t < num_temps c" "c_defs c ! t = Some p" using t G(2,6) by auto
    then show ?thesis using opt_okD(8) [OF ok] unfolding I defs_ok_def by blast
  qed
  then have "defs_ok ?c" using G(2,5) by (simp add: defs_ok_def)
  then have "opt_ok ?c" using dis wf by (simp add: opt_ok_def)
  then show ?thesis using a G(2) lu by (intro exI [of _ ?c] exI [of _ "calloc c1"]) simp
qed

lemma insts_in_insert_first:
  assumes "c_blocks c' = insert_first c b m" "b < length (c_blocks c)"
  shows "insts_in c' b = m # insts_in c b" "b' \<noteq> b \<Longrightarrow> c_blocks c' ! b' = c_blocks c ! b'" "same_flow c c'" "insts_of c' = insert m (insts_of c)"
    "count_list (total c') v = count_list (pending m) v + count_list (total c) v"
proof -
  show "insts_in c' b = m # insts_in c b" "b' \<noteq> b \<Longrightarrow> c_blocks c' ! b' = c_blocks c ! b'" using assms by (simp_all add: insert_first_def)
  show "same_flow c c'" using assms by (auto simp: same_flow_def insert_first_def nth_list_update)
  obtain xs ys where cd: "code c = xs @ ys" "code c' = xs @ m # ys" using insert_first_code [OF assms(2)] assms(1) by metis
  then show "insts_of c' = insert m (insts_of c)" unfolding insts_of_def by simp
  show "count_list (total c') v = count_list (pending m) v + count_list (total c) v" unfolding total_def cd by simp
qed

lemma load_lowers:
  assumes ok: "opt_ok c" "opt_ok c'" and b: "b < length (c_blocks c)" and c': "c_blocks c' = insert_first c b (load_of a (num_temps c) u)"
    "num_temps c' = Suc (num_temps c)" and a: "a \<notin> qi_addr ` insts_of c" and M: "loads_ok M c"
  shows "lowers M c c'"
proof -
  note F = insts_in_insert_first [OF c'(1) b]
  have "agree_on {..<num_temps c} (exec M (insts_in c b') st) (exec M (insts_in c' b') st')"
    if b': "b' < length (c_blocks c)" and st: "agree_on {..<num_temps c} st st'" for b' st st'
  proof -
    have wf: "\<forall>x\<in>set (insts_in c b'). inst_wf c x" using opt_okD(7) [OF ok(1)] distinct_block(2) [OF opt_okD(6) [OF ok(1)] b'] by blast
    show ?thesis
    proof (cases "b' = b")
      case True
      have "agree_on {..<num_temps c} st (exec_inst M (load_of a (num_temps c) u) st')"
        using exec_load [of M a] M a st by (simp add: loads_ok_def agree_on_def)
      then show ?thesis using exec_wf [OF wf] F(1) True by simp
    next
      case False
      then show ?thesis using exec_wf [OF wf st] F(2) [OF False] by simp
    qed
  qed
  then show ?thesis using ok(2) F(3,4) c'(2) by (auto simp: lowers_def)
qed

section \<open>Replacements\<close>

lemma lowered_exec:
  assumes "fst st t = m_uniform M u" "length (qi_src x) = 3"
  shows "exec_inst M (lowered u (vir_reg QFILE_TEMP t) x) st = exec_inst M x st"
proof -
  let ?y = "lowered u (vir_reg QFILE_TEMP t) x"
  note S = lowered_strips [of "vir_get_nsrc x" u "vir_reg QFILE_TEMP t" x] and F = strip_eq_float [OF lowered_strip [of "vir_get_nsrc x" u "vir_reg QFILE_TEMP t" x]]
  have un: "unpack_of ?y i = unpack_of x i" for i unfolding unpack_of_def F(2) lowered_simps(1) ..
  have src: "qi_src ?y ! i = qi_src x ! i \<or> q_file (qi_src x ! i) = QFILE_UNIF \<and> q_index (qi_src x ! i) = u \<and> qi_src ?y ! i = vir_reg QFILE_TEMP t"
    if "i < 3" for i using that by (auto simp: lowered_src lowerable_def)
  have op: "operand M st ?y i = operand M st x i" if i: "i < 3" for i
  proof -
    from src [OF i] have "read_src M st (qi_addr x) i (qi_src ?y ! i) = read_src M st (qi_addr x) i (qi_src x ! i)"
    proof
      assume "q_file (qi_src x ! i) = QFILE_UNIF \<and> q_index (qi_src x ! i) = u \<and> qi_src ?y ! i = vir_reg QFILE_TEMP t"
      then show ?thesis using assms(1) by (simp add: read_src_def vir_reg_def)
    qed simp
    then show ?thesis unfolding operand_def un F(1) S(3) by simp
  qed
  have cm: "copy_mov ?y = copy_mov x" using src [of 0] unfolding copy_mov_def lowered_simps(1) S(4) by (auto simp: vir_reg_def)
  have os: "operands M st ?y = operands M st x" using op S(1) nsrc_le [of x] by (simp add: operands_def)
  have o: "operand M st ?y 0 = operand M st x 0" using op [of 0] by simp
  show ?thesis unfolding exec_inst_def sets_temp_def S(3,4) cm os o by (rule refl)
qed

lemma lowered_wf:
  assumes "inst_wf c x" "t < num_temps c"
  shows "inst_wf c (lowered u (vir_reg QFILE_TEMP t) x)"
proof -
  let ?y = "lowered u (vir_reg QFILE_TEMP t) x"
  note S = lowered_strips [of "vir_get_nsrc x" u "vir_reg QFILE_TEMP t" x]
  have src: "qi_src ?y ! i = qi_src x ! i \<or> qi_src ?y ! i = vir_reg QFILE_TEMP t" if "i < 3" for i using that by (simp add: lowered_src)
  have "q_index (qi_src ?y ! i) < num_temps c" if "i < 3" "q_file (qi_src ?y ! i) = QFILE_TEMP" for i
    using src [OF that(1)] that assms by (auto simp: inst_wf_def vir_reg_def)
  moreover have "q_index (qi_src ?y ! i) = UINT_MAX \<or> q_index (qi_src ?y ! i) div 4 < length (vattr_sizes c)"
    if "i < vir_get_nsrc x" "q_file (qi_src ?y ! i) = QFILE_VPM" for i
    using src [of i] that assms(1) nsrc_le [of x] by (auto simp: inst_wf_def vir_reg_def)
  ultimately show ?thesis using assms(1) lowered_simps(2) lowered_implicit [of x u "vir_reg QFILE_TEMP t"] unfolding inst_wf_def S by auto
qed

lemma set_inst_opt_ok:
  assumes ok: "opt_ok c" and x: "x \<in> insts_of c" and y: "strip y = strip x" "inst_wf c y"
  shows "opt_ok (set_inst c y)" "insts_of (set_inst c y) = insert y (insts_of c - {x})"
proof -
  let ?c = "set_inst c y"
  note S = strip_eqD [OF y(1)]
  have at: "z = x" if "z \<in> insts_of c" "qi_addr z = qi_addr y" for z using same_address [OF opt_okD(6) [OF ok] x] that S(3) by simp
  show I: "insts_of ?c = insert y (insts_of c - {x})"
  proof (intro set_eqI iffI)
    fix z assume "z \<in> insts_of ?c"
    then show "z \<in> insert y (insts_of c - {x})" unfolding insts_of_set_inst using S(3) by (auto split: if_splits)
  next
    fix z assume "z \<in> insert y (insts_of c - {x})"
    then consider "z = y" | "z \<in> insts_of c" "z \<noteq> x" by blast
    then show "z \<in> insts_of ?c" unfolding insts_of_set_inst
    proof cases
      case 1
      then show "\<exists>w\<in>insts_of c. z = put y w" using x S(3) by (intro bexI [of _ x]) simp_all
    next
      case 2
      then show "\<exists>w\<in>insts_of c. z = put y w" using at by (intro bexI [of _ z]) auto
    qed
  qed
  have "map qi_addr (code ?c) = map qi_addr (code c)" unfolding code_set_inst by simp
  then have "distinct (map qi_addr (code ?c))" using opt_okD(6) [OF ok] by simp
  moreover have "inst_wf ?c z" if "z \<in> insts_of ?c" for z
    using that opt_okD(7) [OF ok] y(2) unfolding I inst_wf_fields [OF set_inst_simps(1,3)] by blast
  moreover have "defs_ok ?c" unfolding defs_ok_def
  proof (intro conjI allI impI)
    show "num_temps ?c \<le> length (c_defs ?c)" using opt_okD(5) [OF ok] by simp
    fix t p assume "t < num_temps ?c" "c_defs ?c ! t = Some p"
    then obtain z where z: "z \<in> insts_of c" "qi_addr z = p" "q_file (qi_dst z) = QFILE_TEMP" "q_index (qi_dst z) = t"
      using opt_okD(8) [OF ok] unfolding defs_ok_def by auto
    show "\<exists>x\<in>insts_of ?c. qi_addr x = p \<and> q_file (qi_dst x) = QFILE_TEMP \<and> q_index (qi_dst x) = t"
      using z S(3,4) unfolding I by (cases "z = x") auto
  qed
  ultimately show "opt_ok ?c" unfolding opt_ok_def by blast
qed

text \<open>The place of an instruction, and the program after a replacement.\<close>

lemma code_at:
  assumes "opt_ok c" "x \<in> insts_of c"
  obtains xs ys where "code c = xs @ x # ys" "\<And>z. z \<in> set xs \<union> set ys \<Longrightarrow> qi_addr z \<noteq> qi_addr x"
proof -
  obtain xs ys where c: "code c = xs @ x # ys" using assms(2) unfolding insts_of_def by (meson split_list)
  have "distinct (map qi_addr (xs @ x # ys))" using opt_okD(6) [OF assms(1)] unfolding c .
  then have "qi_addr z \<noteq> qi_addr x" if "z \<in> set xs \<union> set ys" for z using that by auto (metis image_eqI)+
  then show ?thesis using that c by blast
qed

lemma set_inst_total:
  assumes "opt_ok c" "x \<in> insts_of c" "qi_addr y = qi_addr x"
  shows "count_list (total (set_inst c y)) v = count_list (total c) v - count_list (pending x) v + count_list (pending y) v"
    "count_list (pending x) v \<le> count_list (total c) v"
proof -
  obtain xs ys where c: "code c = xs @ x # ys" "\<And>z. z \<in> set xs \<union> set ys \<Longrightarrow> qi_addr z \<noteq> qi_addr x" using code_at [OF assms(1,2)] by blast
  have "map (\<lambda>z. if qi_addr z = qi_addr y then y else z) zs = zs" if "set zs \<subseteq> set xs \<union> set ys" for zs
    using that c(2) assms(3) by (intro map_idI) auto
  from this [of xs] this [of ys] have "code (set_inst c y) = xs @ y # ys" unfolding code_set_inst c(1) using assms(3) by simp
  then show "count_list (total (set_inst c y)) v = count_list (total c) v - count_list (pending x) v + count_list (pending y) v"
    "count_list (pending x) v \<le> count_list (total c) v" unfolding total_def c(1) by simp_all
qed

lemma exec_replaced:
  assumes "fst st t = m_uniform M u" "\<forall>z\<in>set zs. \<not> sets_temp z t \<and> length (qi_src z) = 3 \<and> g z \<in> {z, lowered u (vir_reg QFILE_TEMP t) z}"
  shows "exec M (map g zs) st = exec M zs st"
  using assms
proof (induction zs arbitrary: st)
  case (Cons z zs)
  have "exec_inst M (g z) st = exec_inst M z st" using lowered_exec [OF Cons.prems(1), of z] Cons.prems(2) by auto
  moreover have "fst (exec_inst M z st) t = m_uniform M u" using Cons.prems by (simp add: exec_inst_def)
  ultimately show ?case using Cons.IH [of "exec_inst M z st"] Cons.prems(2) by simp
qed simp

text \<open>A block that starts with a load of the uniform into a temporary that it does not write afterwards.\<close>

definition loaded :: "('v, 'w) machine \<Rightarrow> nat \<Rightarrow> nat \<Rightarrow> v3d_compile \<Rightarrow> qinst \<Rightarrow> bool" where
  "loaded M u b c m \<longleftrightarrow> (\<exists>a t rest. m = load_of a t u \<and> (\<forall>vs w. m_world M a vs w = w) \<and> t < num_temps c \<and>
     insts_in c b = m # rest \<and> (\<forall>z\<in>set rest. \<not> sets_temp z t))"

lemma replace_lowers:
  assumes ok: "opt_ok c" and b: "b < length (c_blocks c)" and M: "loads_ok M c" and m: "loaded M u b c m"
    and x: "x \<in> set (insts_in c b)" "1 < card (uniforms x)" and y: "y = lowered u (qi_dst m) x"
  shows "lowers M c (set_inst c y)" "loaded M u b (set_inst c y) m" "opt_ok (set_inst c y)" "insts_of (set_inst c y) = insert y (insts_of c - {x})"
    "b' < length (c_blocks c) \<Longrightarrow> b' \<noteq> b \<Longrightarrow> insts_in (set_inst c y) b' = insts_in c b'" "qi_addr y = qi_addr x" "qi_addr ` insts_of (set_inst c y) = qi_addr ` insts_of c"
proof -
  obtain a t rest where m': "m = load_of a t u" "\<forall>vs w. m_world M a vs w = w" "t < num_temps c" "insts_in c b = m # rest" "\<forall>z\<in>set rest. \<not> sets_temp z t"
    using m unfolding loaded_def by blast
  have y': "y = lowered u (vir_reg QFILE_TEMP t) x" unfolding y m'(1) load_of_simps ..
  note D = distinct_block [OF opt_okD(6) [OF ok]]
  have xc: "x \<in> insts_of c" using D(2) [OF b] x(1) by blast
  have st: "strip y = strip x" unfolding y by (rule lowered_strip)
  note S = strip_eqD [OF st]
  show ad: "qi_addr y = qi_addr x" by (rule S(3))
  have wf: "inst_wf c y" unfolding y' by (rule lowered_wf [OF opt_okD(7) [OF ok xc] m'(3)])
  note R = set_inst_opt_ok [OF ok xc st wf]
  show "opt_ok (set_inst c y)" "insts_of (set_inst c y) = insert y (insts_of c - {x})" by (rule R)+
  show ads: "qi_addr ` insts_of (set_inst c y) = qi_addr ` insts_of c" unfolding R(2) using xc ad by auto
  have xm: "x \<noteq> m" using x(2) by (auto simp: m'(1) load_of_uniforms)
  then have xr: "x \<in> set rest" using x(1) m'(4) by simp
  have am: "qi_addr m \<noteq> qi_addr y" using same_address [OF opt_okD(6) [OF ok] xc, of m] D(2) [OF b] m'(4) xm ad by auto
  have g: "put y z \<in> {z, lowered u (vir_reg QFILE_TEMP t) z}" if "z \<in> set (insts_in c b)" for z
    using same_address [OF opt_okD(6) [OF ok] xc, of z] D(2) [OF b] that ad y' by auto
  have bl: "insts_in (set_inst c y) b = m # map (put y) rest" unfolding insts_in_set_inst [OF b] m'(4) using am by simp
  have "\<not> sets_temp z t" if z: "z \<in> set (map (put y) rest)" for z
  proof -
    obtain w where w: "w \<in> set rest" "z = put y w" using z by auto
    then have "z = w \<or> z = lowered u (vir_reg QFILE_TEMP t) w" using g [of w] m'(4) by simp
    then have "qi_dst z = qi_dst w" using lowered_strips(4) [of "vir_get_nsrc w" u "vir_reg QFILE_TEMP t" w] by metis
    then show ?thesis using m'(5) w(1) unfolding sets_temp_def by metis
  qed
  then show "loaded M u b (set_inst c y) m" unfolding loaded_def using m'(1-3) bl by auto
  show oth: "insts_in (set_inst c y) b' = insts_in c b'" if b': "b' < length (c_blocks c)" "b' \<noteq> b" for b'
  proof -
    have "qi_addr z \<noteq> qi_addr y" if "z \<in> set (insts_in c b')" for z
      using same_address [OF opt_okD(6) [OF ok] xc, of z] D(2) [OF b'(1)] D(3) [OF b b'] that x(1) ad by auto
    then show ?thesis unfolding insts_in_set_inst [OF b'(1)] by (intro map_idI) simp
  qed
  have len: "length (qi_src z) = 3" if "z \<in> set rest" for z using opt_okD(7) [OF ok, of z] D(2) [OF b] m'(4) that by (auto simp: inst_wf_def)
  have eq: "exec M (insts_in (set_inst c y) b) st = exec M (insts_in c b) st" for st
  proof -
    have "fst (exec_inst M m st) t = m_uniform M u" using exec_load [of M a t u st] M m'(2) by (simp add: m'(1) loads_ok_def)
    then show ?thesis unfolding bl m'(4) using exec_replaced [of "exec_inst M m st" t M u rest "put y"] g m'(4,5) len by auto
  qed
  have "agree_on {..<num_temps c} (exec M (insts_in c b') st) (exec M (insts_in (set_inst c y) b') st')"
    if b': "b' < length (c_blocks c)" and st: "agree_on {..<num_temps c} st st'" for b' st st'
  proof -
    have wf: "\<forall>x\<in>set (insts_in c b'). inst_wf c x" using opt_okD(7) [OF ok] D(2) [OF b'] by blast
    show ?thesis using exec_wf [OF wf st, of M] eq oth [OF b'] by (cases "b' = b") auto
  qed
  then show "lowers M c (set_inst c y)" using R(1) set_inst_flow ads unfolding lowers_def by simp
qed

end
