(* ===== verification/Vir_Uniform_Pass.thy ===== *)
theory Vir_Uniform_Pass
  imports Vir_Uniform_Prog
begin

text \<open>
  The loops of the pass: over the instructions of a block, over the blocks, and over the uniforms. Every round
  replaces the chosen uniform in all instructions that need it, so the counters decrease and the outer loop ends.
\<close>

section \<open>Rounds\<close>

text \<open>The program \<open>c\<close> of a round that started with \<open>c0\<close>, and the table of counters that belongs to it.\<close>

definition round_inv :: "('v, 'w) machine \<Rightarrow> u64 \<Rightarrow> nat \<Rightarrow> nat \<Rightarrow> v3d_compile \<Rightarrow> v3d_compile \<Rightarrow> hash_table \<Rightarrow> bool" where
  "round_inv M dk U n c0 c ht \<longleftrightarrow> lowers M c0 c \<and> loads_ok M c \<and> prog_unif U c \<and> uniform_counts dk U n ht (count_list (total c)) \<and>
     (\<forall>v. count_list (total c) v \<le> count_list (total c0) v)"

lemma round_invD:
  assumes "round_inv M dk U n c0 c ht"
  shows "lowers M c0 c" "loads_ok M c" "prog_unif U c" "uniform_counts dk U n ht (count_list (total c))"
    "count_list (total c) v \<le> count_list (total c0) v" "opt_ok c" "length (c_blocks c) = length (c_blocks c0)"
proof -
  show *: "lowers M c0 c" "loads_ok M c" "prog_unif U c" "uniform_counts dk U n ht (count_list (total c))"
    "count_list (total c) v \<le> count_list (total c0) v" using assms unfolding round_inv_def by blast+
  show "opt_ok c" "length (c_blocks c) = length (c_blocks c0)" using lowersD(1,5) [OF *(1)] by blast+
qed

lemma round_inv_trans:
  assumes "round_inv M dk U n c0 c1 ht1" "round_inv M dk U n c1 c2 ht2"
  shows "round_inv M dk U n c0 c2 ht2"
  using lowers_trans [OF round_invD(1) [OF assms(1)] round_invD(1) [OF assms(2)]] round_invD(2-4) [OF assms(2)]
    le_trans [OF round_invD(5) [OF assms(2)] round_invD(5) [OF assms(1)]] unfolding round_inv_def by blast

text \<open>In block \<open>b\<close> the instructions that are not among the ones to come need \<open>u\<close> no more.\<close>

definition block_inv :: "('v, 'w) machine \<Rightarrow> nat \<Rightarrow> nat \<Rightarrow> nat list \<Rightarrow> v3d_compile \<Rightarrow> v3d_compile \<Rightarrow> qinst option \<Rightarrow> bool" where
  "block_inv M u b ps c0 c mov \<longleftrightarrow> (\<forall>b' < length (c_blocks c0). b' \<noteq> b \<longrightarrow> insts_in c b' = insts_in c0 b') \<and>
     set ps \<subseteq> qi_addr ` set (insts_in c b) \<and> (\<forall>x\<in>set (insts_in c b). qi_addr x \<notin> set ps \<longrightarrow> u \<notin> set (pending x)) \<and>
     (\<forall>m. mov = Some m \<longrightarrow> loaded M u b c m)"

lemma block_invD:
  assumes "block_inv M u b ps c0 c mov"
  shows "b' < length (c_blocks c0) \<Longrightarrow> b' \<noteq> b \<Longrightarrow> insts_in c b' = insts_in c0 b'" "set ps \<subseteq> qi_addr ` set (insts_in c b)"
    "x \<in> set (insts_in c b) \<Longrightarrow> qi_addr x \<notin> set ps \<Longrightarrow> u \<notin> set (pending x)" "mov = Some m \<Longrightarrow> loaded M u b c m"
  using assms unfolding block_inv_def by blast+

lemma loads_ok_mono: "loads_ok M c \<Longrightarrow> qi_addr ` insts_of c \<subseteq> qi_addr ` insts_of c' \<Longrightarrow> loads_ok M c'"
  unfolding loads_ok_def by blast

lemma load_step:
  assumes r: "round_inv M dk U n c0 c ht" and i: "block_inv M u b ps c0 c None" and b: "b < length (c_blocks c0)" and u: "u < U" and fr: "fresh_alloc calloc"
  shows "\<exists>c' m. load_uniform calloc c b (vir_reg QFILE_UNIF u) = ret (c', m) \<and> round_inv M dk U n c0 c' ht \<and> block_inv M u b ps c0 c' (Some m) \<and>
    set (insts_in c b) \<subseteq> set (insts_in c' b)"
proof -
  note R = round_invD [OF r] and I = block_invD [OF i]
  have bc: "b < length (c_blocks c)" using b R(7) by simp
  obtain c' a where l: "load_uniform calloc c b (vir_reg QFILE_UNIF u) = ret (c', load_of a (num_temps c) u)" "a \<notin> qi_addr ` insts_of c"
    "c_blocks c' = insert_first c b (load_of a (num_temps c) u)" "num_temps c' = Suc (num_temps c)" "opt_ok c'" using load_uniform_ok [OF R(6) bc fr] by blast
  let ?t = "num_temps c" and ?m = "load_of a (num_temps c) u"
  note F = insts_in_insert_first [OF l(3) bc]
  have lo: "lowers M c c'" by (rule load_lowers [OF R(6) l(5) bc l(3,4,2) R(2)])
  have cnt: "count_list (total c') = count_list (total c)" using F(5) load_of_uniforms(2) [of a ?t u] by (simp add: fun_eq_iff)
  have "prog_unif U c'" using R(3) u load_of_uniforms [of a ?t u] unfolding prog_unif_def F(4) by auto
  then have r': "round_inv M dk U n c0 c' ht"
    using lowers_trans [OF R(1) lo] loads_ok_mono [OF R(2) lowersD(4) [OF lo]] R(4,5) unfolding round_inv_def cnt by blast
  have ns: "\<not> sets_temp z ?t" if "z \<in> set (insts_in c b)" for z
    using opt_okD(7) [OF R(6), of z] distinct_block(2) [OF opt_okD(6) [OF R(6)] bc] that by (auto simp: sets_temp_def inst_wf_def)
  have "\<forall>vs w. m_world M a vs w = w" using R(2) l(2) unfolding loads_ok_def by blast
  then have "loaded M u b c' ?m" unfolding loaded_def F(1) using ns l(4) by (intro exI [of _ a] exI [of _ ?t] exI [of _ "insts_in c b"]) simp
  moreover have "insts_in c' b' = insts_in c0 b'" if "b' < length (c_blocks c0)" "b' \<noteq> b" for b' using F(2) [OF that(2)] I(1) [OF that] by simp
  moreover have "u \<notin> set (pending x)" if "x \<in> set (insts_in c' b)" "qi_addr x \<notin> set ps" for x
    using that I(3) [of x] load_of_uniforms(2) [of a ?t u] unfolding F(1) by auto
  moreover have "set ps \<subseteq> qi_addr ` set (insts_in c' b)" using I(2) unfolding F(1) by auto
  ultimately have "block_inv M u b ps c0 c' (Some ?m)" unfolding block_inv_def by blast
  then show ?thesis using l(1) r' F(1) by auto
qed

lemma replace_step:
  assumes r: "round_inv M dk U n c0 c ht" and i: "block_inv M u b (qi_addr x # ps) c0 c (Some m)" and b: "b < length (c_blocks c0)" and u: "u < U"
    and x: "x \<in> set (insts_in c b)" "1 < card (uniforms x)"
  shows "\<exists>y ht1 ht2 removed. fold_run (lower_src (vir_reg QFILE_UNIF u) (qi_dst m)) [0..<vir_get_nsrc x] (x, ht, False) = ret (y, ht1, removed) \<and>
    (if (if removed then card (uniforms x) - 1 else card (uniforms x)) \<le> 1 then drop_uniforms y ht1 else ret ht1) = ret ht2 \<and>
    round_inv M dk U n c0 (set_inst c y) ht2 \<and> block_inv M u b ps c0 (set_inst c y) (Some m)"
proof -
  note R = round_invD [OF r] and I = block_invD [OF i]
  have bc: "b < length (c_blocks c)" using b R(7) by simp
  have xc: "x \<in> insts_of c" using distinct_block(2) [OF opt_okD(6) [OF R(6)] bc] x(1) by blast
  have len: "length (qi_src x) = 3" using opt_okD(7) [OF R(6) xc] by (simp add: inst_wf_def)
  have ap: "implicit_apart x" "uniforms x \<subseteq> {..<U}" using R(3) xc unfolding prog_unif_def by blast+
  define y where "y = lowered u (qi_dst m) x"
  note L = replace_lowers [OF R(6) bc R(2) I(4) [OF refl] x y_def]
  have d: "q_file (qi_dst m) = QFILE_TEMP" using I(4) [OF refl] by (auto simp: loaded_def load_of_simps vir_reg_def)
  note T = set_inst_total [OF R(6) xc L(6)]
  have p: "pending x = unifs x" using x(2) by (simp add: pending_def)
  obtain ht1 ht2 removed where h: "fold_run (lower_src (vir_reg QFILE_UNIF u) (qi_dst m)) [0..<vir_get_nsrc x] (x, ht, False) = ret (y, ht1, removed)"
    "(if (if removed then card (uniforms x) - 1 else card (uniforms x)) \<le> 1 then drop_uniforms y ht1 else ret ht1) = ret ht2"
    "uniform_counts dk U n ht2 (\<lambda>v. count_list (total c) v - count_list (pending x) v + count_list (pending y) v)"
    using lower_and_drop_ok [OF R(4) u len x(2) ap T(2) [unfolded p] d] unfolding y_def by blast
  note P = lowered_pending [OF d ap(1) len x(2), of u, folded y_def]
  have cnt: "uniform_counts dk U n ht2 (count_list (total (set_inst c y)))" using h(3) unfolding T(1) [symmetric] .
  have le: "count_list (total (set_inst c y)) v \<le> count_list (total c0) v" for v using T(1,2) [of v] P(3) [of v] R(5) [of v] by linarith
  have un: "implicit_apart y" "uniforms y \<subseteq> {..<U}"
  proof -
    show "implicit_apart y" unfolding y_def by (rule lowered_uniforms(2) [OF d ap(1)])
    have "lowered u (qi_dst m) x = x" if "u \<notin> set (unifs x)" using that by (intro lowered_same [OF len]) (auto simp: unifs_def)
    then show "uniforms y \<subseteq> {..<U}" using lowered_uniforms(1) [OF d ap(1), of u] ap(2) unfolding y_def by (cases "u \<in> set (unifs x)") auto
  qed
  have "prog_unif U (set_inst c y)" using R(3) un unfolding prog_unif_def L(4) by blast
  moreover have "loads_ok M (set_inst c y)" by (rule loads_ok_mono [OF R(2) lowersD(4) [OF L(1)]])
  ultimately have r': "round_inv M dk U n c0 (set_inst c y) ht2" using lowers_trans [OF R(1) L(1)] cnt le unfolding round_inv_def by blast
  have bl: "insts_in (set_inst c y) b = map (put y) (insts_in c b)" by (rule insts_in_set_inst [OF bc])
  have "insts_in (set_inst c y) b' = insts_in c0 b'" if "b' < length (c_blocks c0)" "b' \<noteq> b" for b' using L(5) [of b'] I(1) [OF that] that R(7) by simp
  moreover have "set ps \<subseteq> qi_addr ` set (insts_in (set_inst c y) b)"
  proof -
    have "map qi_addr (insts_in (set_inst c y) b) = map qi_addr (insts_in c b)" unfolding bl by simp
    then have "qi_addr ` set (insts_in (set_inst c y) b) = qi_addr ` set (insts_in c b)" by (metis list.set_map)
    then show ?thesis using I(2) by simp
  qed
  moreover have "u \<notin> set (pending z)" if z: "z \<in> set (insts_in (set_inst c y) b)" "qi_addr z \<notin> set ps" for z
  proof -
    obtain w where w: "w \<in> set (insts_in c b)" "z = put y w" using z(1) unfolding bl by auto
    show ?thesis
    proof (cases "qi_addr w = qi_addr y")
      case True
      then show ?thesis using w(2) P(1) by simp
    next
      case False
      then show ?thesis using w z(2) I(3) [OF w(1)] L(6) by simp
    qed
  qed
  ultimately have "block_inv M u b ps c0 (set_inst c y) (Some m)" using L(2) unfolding block_inv_def by blast
  then show ?thesis using h(1,2) r' by blast
qed

lemma lower_inst_ok:
  assumes r: "round_inv M dk U n c0 c ht" and i: "block_inv M u b (p # ps) c0 c mov" and b: "b < length (c_blocks c0)" and u: "u < U" and fr: "fresh_alloc calloc"
  shows "\<exists>c' ht' mov'. lower_inst calloc (vir_reg QFILE_UNIF u) b p (c, ht, mov) = ret (c', ht', mov') \<and> round_inv M dk U n c0 c' ht' \<and> block_inv M u b ps c0 c' mov'"
proof -
  note R = round_invD [OF r] and I = block_invD [OF i]
  have bc: "b < length (c_blocks c)" using b R(7) by simp
  obtain x where x: "x \<in> set (insts_in c b)" "p = qi_addr x" using I(2) by auto
  have xc: "x \<in> insts_of c" using distinct_block(2) [OF opt_okD(6) [OF R(6)] bc] x(1) by blast
  have len: "length (qi_src x) = 3" using opt_okD(7) [OF R(6) xc] by (simp add: inst_wf_def)
  have at: "inst_at c p = ret x" unfolding x(2) by (rule inst_at_ok [OF opt_okD(6) [OF R(6)] xc])
  show ?thesis
  proof (cases "card (uniforms x) \<le> 1")
    case True
    have "u \<notin> set (pending z)" if "z \<in> set (insts_in c b)" "qi_addr z \<notin> set ps" for z
    proof (cases "z = x")
      case False
      have "z \<in> insts_of c" using distinct_block(2) [OF opt_okD(6) [OF R(6)] bc] that(1) by blast
      then have "qi_addr z \<noteq> p" using same_address [OF opt_okD(6) [OF R(6)] xc] False x(2) by blast
      then show ?thesis using I(3) [OF that(1)] that(2) by simp
    qed (use True in \<open>simp add: pending_def\<close>)
    then have "block_inv M u b ps c0 c mov" using i unfolding block_inv_def by auto
    moreover have "lower_inst calloc (vir_reg QFILE_UNIF u) b p (c, ht, mov) = ret (c, ht, mov)" using at uniform_count_eq [OF len] True by (simp add: lower_inst_def)
    ultimately show ?thesis using r by blast
  next
    case False
    have "\<exists>c1 m. (case mov of Some m \<Rightarrow> ret (c, m) | None \<Rightarrow> load_uniform calloc c b (vir_reg QFILE_UNIF u)) = ret (c1, m) \<and>
      round_inv M dk U n c0 c1 ht \<and> block_inv M u b (p # ps) c0 c1 (Some m) \<and> x \<in> set (insts_in c1 b)"
      using load_step [OF r _ b u fr] r i x(1) by (cases mov) fastforce+
    then obtain c1 m where c1: "(case mov of Some m \<Rightarrow> ret (c, m) | None \<Rightarrow> load_uniform calloc c b (vir_reg QFILE_UNIF u)) = ret (c1, m)"
      "round_inv M dk U n c0 c1 ht" "block_inv M u b (p # ps) c0 c1 (Some m)" "x \<in> set (insts_in c1 b)" by blast
    obtain y ht1 ht2 removed where h: "fold_run (lower_src (vir_reg QFILE_UNIF u) (qi_dst m)) [0..<vir_get_nsrc x] (x, ht, False) = ret (y, ht1, removed)"
      "(if (if removed then card (uniforms x) - 1 else card (uniforms x)) \<le> 1 then drop_uniforms y ht1 else ret ht1) = ret ht2"
      "round_inv M dk U n c0 (set_inst c1 y) ht2" "block_inv M u b ps c0 (set_inst c1 y) (Some m)"
      using replace_step [OF c1(2) c1(3) [unfolded x(2)] b u c1(4)] False by auto
    have "lower_inst calloc (vir_reg QFILE_UNIF u) b p (c, ht, mov) = ret (set_inst c1 y, ht2, Some m)"
      unfolding lower_inst_def prod.case at uniform_count_eq [OF len] bind_run_simps c1(1) h(1) Let_def h(2) using False by simp
    then show ?thesis using h(3,4) by blast
  qed
qed

lemma lower_insts_ok:
  assumes "round_inv M dk U n c0 c ht" "block_inv M u b ps c0 c mov" "b < length (c_blocks c0)" "u < U" "fresh_alloc calloc"
  shows "\<exists>c' ht' mov'. fold_run (lower_inst calloc (vir_reg QFILE_UNIF u) b) ps (c, ht, mov) = ret (c', ht', mov') \<and>
    round_inv M dk U n c0 c' ht' \<and> block_inv M u b [] c0 c' mov'"
  using assms(1,2)
proof (induction ps arbitrary: c ht mov)
  case (Cons p ps)
  from lower_inst_ok [OF Cons.prems assms(3-5)] Cons.IH show ?case by fastforce
qed auto

lemma lower_block_ok:
  assumes r: "round_inv M dk U n c0 c ht" and b: "b < length (c_blocks c0)" and u: "u < U" and fr: "fresh_alloc calloc"
  shows "\<exists>c' ht'. lower_block calloc (vir_reg QFILE_UNIF u) b (c, ht) = ret (c', ht') \<and> round_inv M dk U n c0 c' ht' \<and>
    (\<forall>b' < length (c_blocks c0). b' \<noteq> b \<longrightarrow> insts_in c' b' = insts_in c b') \<and> (\<forall>x\<in>set (insts_in c' b). u \<notin> set (pending x))"
proof -
  note R = round_invD [OF r]
  have bc: "b < length (c_blocks c)" using b R(7) by simp
  have rc: "round_inv M dk U n c c ht" using R(2-4) lowers_refl [OF R(6)] unfolding round_inv_def by blast
  have "block_inv M u b (map qi_addr (insts_in c b)) c c None" by (simp add: block_inv_def)
  from lower_insts_ok [OF rc this bc u fr] obtain c' ht' mov' where
    s: "fold_run (lower_inst calloc (vir_reg QFILE_UNIF u) b) (map qi_addr (insts_in c b)) (c, ht, None) = ret (c', ht', mov')"
      "round_inv M dk U n c c' ht'" "block_inv M u b [] c c' mov'" by blast
  have "lower_block calloc (vir_reg QFILE_UNIF u) b (c, ht) = ret (c', ht')" using bc s(1) by (simp add: lower_block_def)
  then show ?thesis using round_inv_trans [OF r s(2)] block_invD(1,3) [OF s(3)] R(7) by auto
qed

lemma total_zero: "count_list (total c) v = 0 \<longleftrightarrow> (\<forall>x\<in>insts_of c. v \<notin> set (pending x))"
  unfolding count_list_0_iff total_def insts_of_def by auto

lemma insts_of_blocks: "x \<in> insts_of c \<longleftrightarrow> (\<exists>b < length (c_blocks c). x \<in> set (insts_in c b))"
proof
  assume "x \<in> insts_of c"
  then obtain q where "q \<in> set (c_blocks c)" "x \<in> set (qb_instructions q)" unfolding insts_of_def by auto
  then show "\<exists>b < length (c_blocks c). x \<in> set (insts_in c b)" by (auto simp: in_set_conv_nth [of q])
next
  assume "\<exists>b < length (c_blocks c). x \<in> set (insts_in c b)"
  then show "x \<in> insts_of c" unfolding insts_of_def using nth_mem [of _ "c_blocks c"] by auto
qed

text \<open>One round: all blocks.\<close>

lemma round_ok:
  assumes r: "round_inv M dk U n c c ht" and u: "u < U" and fr: "fresh_alloc calloc"
  shows "\<exists>c' ht'. fold_run (lower_block calloc (vir_reg QFILE_UNIF u)) [0..<length (c_blocks c)] (c, ht) = ret (c', ht') \<and>
    round_inv M dk U n c c' ht' \<and> count_list (total c') u = 0"
proof -
  have "\<exists>c' ht'. fold_run (lower_block calloc (vir_reg QFILE_UNIF u)) [0..<k] (c, ht) = ret (c', ht') \<and>
    round_inv M dk U n c c' ht' \<and> (\<forall>b < k. \<forall>x\<in>set (insts_in c' b). u \<notin> set (pending x))" if "k \<le> length (c_blocks c)" for k
    using that
  proof (induction k)
    case (Suc k)
    then obtain c1 ht1 where s: "fold_run (lower_block calloc (vir_reg QFILE_UNIF u)) [0..<k] (c, ht) = ret (c1, ht1)" "round_inv M dk U n c c1 ht1"
      "\<forall>b < k. \<forall>x\<in>set (insts_in c1 b). u \<notin> set (pending x)" by fastforce
    have k: "k < length (c_blocks c)" using Suc.prems by simp
    obtain c2 ht2 where l: "lower_block calloc (vir_reg QFILE_UNIF u) k (c1, ht1) = ret (c2, ht2)" "round_inv M dk U n c c2 ht2"
      "\<forall>b' < length (c_blocks c). b' \<noteq> k \<longrightarrow> insts_in c2 b' = insts_in c1 b'" "\<forall>x\<in>set (insts_in c2 k). u \<notin> set (pending x)"
      using lower_block_ok [OF s(2) k u fr] by blast
    have "\<forall>x\<in>set (insts_in c2 b). u \<notin> set (pending x)" if "b < Suc k" for b
    proof (cases "b = k")
      case False
      then have "b < k" "insts_in c2 b = insts_in c1 b" using that l(3) k by auto
      then show ?thesis using s(3) by auto
    qed (use l(4) in simp)
    moreover have "fold_run (lower_block calloc (vir_reg QFILE_UNIF u)) [0..<Suc k] (c, ht) = ret (c2, ht2)" using s(1) l(1) by (simp add: fold_run_append)
    ultimately show ?case using l(2) by blast
  qed (use r in simp)
  from this [OF order_refl] obtain c' ht' where s: "fold_run (lower_block calloc (vir_reg QFILE_UNIF u)) [0..<length (c_blocks c)] (c, ht) = ret (c', ht')"
    "round_inv M dk U n c c' ht'" "\<forall>b < length (c_blocks c). \<forall>x\<in>set (insts_in c' b). u \<notin> set (pending x)" by blast
  have "u \<notin> set (pending x)" if "x \<in> insts_of c'" for x using that s(3) round_invD(7) [OF s(2)] unfolding insts_of_blocks by auto
  then have "count_list (total c') u = 0" unfolding total_zero by blast
  then show ?thesis using s(1,2) by blast
qed

section \<open>The outer loop\<close>

lemma lower_loop_ok:
  assumes fr: "fresh_alloc calloc" and "round_inv M dk U n c c ht"
  shows "\<exists>c' ht'. lower_loop calloc c ht = ret c' \<and> round_inv M dk U n c c' ht' \<and> (\<forall>x\<in>insts_of c'. pending x = [])"
  using assms(2)
proof (induction "\<Sum>v<U. count_list (total c) v" arbitrary: c ht rule: less_induct)
  case less
  note R = round_invD [OF less.prems]
  show ?case
  proof (cases "ht_entries ht = 0")
    case True
    then have "\<forall>v. count_list (total c) v = 0" using no_entries [OF R(4)] by simp
    then have "\<forall>x\<in>insts_of c. pending x = []" unfolding total_zero by (metis list.set_intros(1) neq_Nil_conv)
    moreover have "lower_loop calloc c ht = ret c" using True by (subst lower_loop.simps) simp
    ultimately show ?thesis using less.prems by blast
  next
    case False
    let ?u = "unat (snd (max_uniform ht))"
    note u = max_uniform_ok [OF R(4) False]
    obtain c1 ht1 where s: "fold_run (lower_block calloc (vir_reg QFILE_UNIF ?u)) [0..<length (c_blocks c)] (c, ht) = ret (c1, ht1)"
      "round_inv M dk U n c c1 ht1" "count_list (total c1) ?u = 0" using round_ok [OF less.prems u(1) fr] by blast
    note S = round_invD [OF s(2)]
    have "(\<Sum>v<U. count_list (total c1) v) < (\<Sum>v<U. count_list (total c) v)"
      using S(5) s(3) u by (intro sum_strict_mono_ex1) (auto intro!: bexI [of _ ?u])
    moreover have "round_inv M dk U n c1 c1 ht1" using S(2-4) lowers_refl [OF S(6)] unfolding round_inv_def by blast
    ultimately obtain c' ht' where l: "lower_loop calloc c1 ht1 = ret c'" "round_inv M dk U n c1 c' ht'" "\<forall>x\<in>insts_of c'. pending x = []"
      using less.hyps by blast
    have "lower_loop calloc c ht = ret c'" using False s(1) l(1) by (subst lower_loop.simps) simp
    then show ?thesis using l(3) round_inv_trans [OF s(2) l(2)] by blast
  qed
qed

section \<open>Counting\<close>

lemma count_insts_eq:
  assumes "\<forall>x\<in>set xs. length (qi_src x) = 3"
  shows "fold_run (count_inst alloc) xs ht = fold_run (\<lambda>i ht. add_uniform alloc ht (vir_reg QFILE_UNIF i)) (concat (map pending xs)) ht"
  using assms
proof (induction xs arbitrary: ht)
  case (Cons x xs)
  then have "fold_run (count_inst alloc) xs = fold_run (\<lambda>i ht. add_uniform alloc ht (vir_reg QFILE_UNIF i)) (concat (map pending xs))" by (simp add: fun_eq_iff)
  then show ?case using Cons.prems by (simp add: count_inst_eq fold_run_append)
qed simp

lemma pending_uniforms: "set (pending x) \<subseteq> uniforms x"
  using uniforms_unifs [of x] by (auto simp: pending_def)

lemma counted:
  assumes ok: "opt_ok c" and pu: "prog_unif U c" and mk: "marker_ok dk U" and n: "length (total c) \<le> 2 ^ 20"
  shows "\<exists>ht ht'. mesa_hash_table_create True (\<lambda>_. True) dk (Some index_hash) index_compare = Some ht \<and>
    fold_run (count_inst (\<lambda>_. True)) (code c) ht = ret ht' \<and> uniform_counts dk U (length (total c)) ht' (count_list (total c))"
proof -
  have dk: "dk \<noteq> 0" using mk by (auto simp: marker_ok_def)
  obtain ht where ht: "mesa_hash_table_create True (\<lambda>_. True) dk (Some index_hash) index_compare = Some ht" by (simp add: mesa_hash_table_create_def)
  note C = create_table_ok [OF index_keys [OF dk] ht]
  have 0: "uniform_counts dk U 0 ht (\<lambda>_. 0)" using mk C by (simp add: uniform_counts_def)
  have v: "\<forall>i\<in>set (total c). i < U" using pu pending_uniforms unfolding prog_unif_def total_def insts_of_def by fastforce
  obtain ht' where h: "fold_run (\<lambda>i ht. add_uniform (\<lambda>_. True) ht (vir_reg QFILE_UNIF i)) (total c) ht = ret ht'"
    "uniform_counts dk U (length (total c)) ht' (count_list (total c))" using uniform_table.adds [OF 0 v] n by auto
  have "\<forall>x\<in>set (code c). length (qi_src x) = 3" using opt_okD(7) [OF ok] unfolding insts_of_def inst_wf_def by blast
  then have "fold_run (count_inst (\<lambda>_. True)) (code c) ht = ret ht'" using count_insts_eq [of "code c" "\<lambda>_. True" ht] h(1) unfolding total_def by simp
  then show ?thesis using ht h(2) by blast
qed

text \<open>The pass as a whole.\<close>

lemma lower_uniforms_lowers:
  assumes "opt_ok c" "prog_unif U c" "marker_ok dk U" "length (total c) \<le> 2 ^ 20" "fresh_alloc calloc" "loads_ok M c"
  shows "\<exists>c'. vir_lower_uniforms (\<lambda>_. True) calloc dk c = ret c' \<and> lowers M c c' \<and> (\<forall>x\<in>insts_of c'. card (uniforms x) \<le> 1)"
proof -
  obtain ht ht' where h: "mesa_hash_table_create True (\<lambda>_. True) dk (Some index_hash) index_compare = Some ht"
    "fold_run (count_inst (\<lambda>_. True)) (code c) ht = ret ht'" "uniform_counts dk U (length (total c)) ht' (count_list (total c))"
    using counted [OF assms(1-4)] by blast
  have "round_inv M dk U (length (total c)) c c ht'" using assms(2,6) h(3) lowers_refl [OF assms(1)] unfolding round_inv_def by blast
  from lower_loop_ok [OF assms(5) this] obtain c' ht'' where l: "lower_loop calloc c ht' = ret c'" "round_inv M dk U (length (total c)) c c' ht''"
    "\<forall>x\<in>insts_of c'. pending x = []" by blast
  have "vir_lower_uniforms (\<lambda>_. True) calloc dk c = ret c'" unfolding vir_lower_uniforms_def h(1) option.case h(2) bind_run_simps by (rule l(1))
  then show ?thesis using round_invD(1) [OF l(2)] l(3) pending_Nil by blast
qed

lemma lowers_run:
  assumes l: "lowers M c c'" and bs: "path c bs"
  shows "agree_on {..<num_temps c} (run_path M c bs st) (run_path M c' bs st)"
proof -
  have "agree_on {..<num_temps c} (run_path M c bs st) (run_path M c' bs st')" if "\<forall>b\<in>set bs. b < length (c_blocks c)" "agree_on {..<num_temps c} st st'" for st st'
    using that
  proof (induction bs arbitrary: st st')
    case (Cons b bs)
    have "agree_on {..<num_temps c} (exec M (insts_in c b) st) (exec M (insts_in c' b) st')" using lowersD(6) [OF l _ Cons.prems(2)] Cons.prems(1) by simp
    then show ?case using Cons.IH Cons.prems(1) by (simp add: run_path_def)
  qed (simp add: run_path_def)
  then show ?thesis using path_blocks [OF bs] by simp
qed

end
