(* ===== verification/Vir_Uniform_Spec.thy ===== *)
theory Vir_Uniform_Spec
  imports Vir_Uniform_Pass Vir_Opt_Spec
begin

text \<open>
  The property of the lowering of uniforms, and the program that it excludes.
\<close>

section \<open>Programs\<close>

text \<open>A program of one block with two instructions that read two uniforms, and the address after the highest one for new instructions.\<close>

definition ex_uniforms :: v3d_compile where
  "ex_uniforms = straight_line 2
     [vir_add_inst 1 V3D_QPU_A_FADD (temp_reg 0) (unif_reg 0) (unif_reg 1),
      vir_add_inst 2 V3D_QPU_A_FADD (temp_reg 1) (unif_reg 1) (unif_reg 2),
      vir_add_inst 4 V3D_QPU_A_FADD (vir_reg QFILE_MAGIC 7) (temp_reg 0) (temp_reg 1)]"

definition next_address :: "v3d_compile \<Rightarrow> nat" where
  "next_address c = Suc (sum_list (map qi_addr (code c)))"

lemma next_address_fresh: "fresh_alloc next_address"
proof -
  have "qi_addr x \<noteq> next_address c" if "x \<in> insts_of c" for x c
  proof -
    have "qi_addr x \<in> set (map qi_addr (code c))" using that unfolding insts_of_def set_map by (rule imageI)
    then have "qi_addr x \<le> sum_list (map qi_addr (code c))" by (rule member_le_sum_list) simp
    then show ?thesis unfolding next_address_def by linarith
  qed
  then show ?thesis unfolding fresh_alloc_def by (metis imageE)
qed

lemma uniforms_code [code]: "uniforms x = (\<lambda>i. q_index (qi_src x ! i)) ` Set.filter (\<lambda>i. q_file (qi_src x ! i) = QFILE_UNIF) {0..<vir_get_nsrc x}"
  by (auto simp: uniforms_def)

lemma ex_uniforms_ok: "opt_ok ex_uniforms" "prog_unif 3 ex_uniforms" "marker_ok 100 3" "length (total ex_uniforms) = 4" "loads_ok ex_machine ex_uniforms"
proof -
  show "opt_ok ex_uniforms" "prog_unif 3 ex_uniforms" "marker_ok 100 3" "length (total ex_uniforms) = 4" by code_simp+
  have "4 \<in> qi_addr ` insts_of ex_uniforms" by code_simp
  then show "loads_ok ex_machine ex_uniforms" by (auto simp: loads_ok_def ex_machine_def)
qed

section \<open>Properties\<close>

text \<open>
  C5. On every well-formed program in which no instruction has an implicit uniform with the index of another uniform source of it,
  \<open>vir_lower_uniforms\<close> ends and returns a well-formed program with the same blocks and edges in which no instruction
  refers to more than one uniform, and which does the same as the program before along every path from the entry:
  the world and the temporaries of the program before are the same at its end.
\<close>

theorem lower_uniforms_correct:
  assumes "opt_ok c" "prog_unif U c" "marker_ok dk U" "length (total c) \<le> 2 ^ 20" "fresh_alloc calloc" "loads_ok M c"
  shows "\<exists>c'. vir_lower_uniforms (\<lambda>_. True) calloc dk c = ret c' \<and> opt_ok c' \<and> same_flow c c' \<and>
    (\<forall>x\<in>insts_of c'. \<exists>n \<le> 1. vir_get_instruction_uniform_count x = ret n) \<and>
    (\<forall>bs st. path c bs \<longrightarrow> snd (run_path M c' bs st) = snd (run_path M c bs st) \<and> (\<forall>t < num_temps c. fst (run_path M c' bs st) t = fst (run_path M c bs st) t))"
proof -
  obtain c' where l: "vir_lower_uniforms (\<lambda>_. True) calloc dk c = ret c'" "lowers M c c'" "\<forall>x\<in>insts_of c'. card (uniforms x) \<le> 1"
    using lower_uniforms_lowers [OF assms] by blast
  note L = lowersD [OF l(2)]
  have "vir_get_instruction_uniform_count x = ret (card (uniforms x))" if "x \<in> insts_of c'" for x
    using uniform_count_eq opt_okD(7) [OF L(1) that] by (simp add: inst_wf_def)
  moreover have "snd (run_path M c' bs st) = snd (run_path M c bs st)" "\<forall>t < num_temps c. fst (run_path M c' bs st) t = fst (run_path M c bs st) t"
    if "path c bs" for bs st using lowers_run [OF l(2) that, of st] unfolding agree_on_def by blast+
  ultimately show ?thesis using l(1,3) L(1,2) by blast
qed

theorem lower_uniforms_correct_witness:
  "path ex_uniforms [0] \<and> snd (run_path ex_machine ex_uniforms [0] (\<lambda>_. 0, [])) = [11, 13] \<and>
   (\<exists>c'. vir_lower_uniforms (\<lambda>_. True) next_address 100 ex_uniforms = ret c' \<and> snd (run_path ex_machine c' [0] (\<lambda>_. 0, [])) = [11, 13])"
proof -
  have "path ex_uniforms [0]" by code_simp
  moreover have "snd (run_path ex_machine ex_uniforms [0] (\<lambda>_. 0, [])) = [11, 13]" by code_simp
  moreover have "length (total ex_uniforms) \<le> 2 ^ 20" unfolding ex_uniforms_ok(4) by simp
  ultimately show ?thesis using lower_uniforms_correct [OF ex_uniforms_ok(1-3) _ next_address_fresh ex_uniforms_ok(5)] by metis
qed

text \<open>
  An instruction whose implicit uniform is also its first source: replacing the first source is taken for the end of that
  uniform in the instruction, which keeps two different uniforms.
\<close>

definition ex_implicit :: v3d_compile where
  "ex_implicit = straight_line 0
     [(vir_add_inst 1 V3D_QPU_A_VFPACK (vir_reg QFILE_TLBU 0) (unif_reg 0) (unif_reg 1))\<lparr>qi_src := [unif_reg 0, unif_reg 1, unif_reg 0]\<rparr>,
      vir_add_inst 2 V3D_QPU_A_FADD (vir_reg QFILE_MAGIC 7) (unif_reg 0) (unif_reg 2)]"

lemma implicit_uniform_left:
  "(case vir_lower_uniforms (\<lambda>_. True) next_address 100 ex_implicit of Some (Inr c') \<Rightarrow> map vir_get_instruction_uniform_count (code c') | _ \<Rightarrow> []) = [ret 1, ret 2, ret 1]"
  by code_simp

end
