(* ===== verification/Qpu_Schedule.thy ===== *)
theory Qpu_Schedule
  imports Vir_Live Qpu_Pack
begin

text \<open>
  The list scheduler of the V3D compiler, \<^verbatim>\<open>src/src/broadcom/compiler/qpu_schedule.c\<close>. A node is an element of the list of
  nodes of a block, and a pointer to a node is its position in it. Debug output, the code under \<open>#if 0\<close>, the capacity of
  the arrays of children and the fields that nobody reads (\<open>latency\<close> of a node, \<open>time\<close> of the state) are left out.
  The state of the dependency analysis is the pointer in each of its fields; \<open>memset\<close> makes all of them null.
  An \<open>abort\<close> is a failing assertion.
\<close>

section \<open>Nodes\<close>

record schedule_node_child =
  ch_node :: "nat option"
  write_after_read :: bool

record schedule_node =
  sn_inst :: qinst
  children :: "schedule_node_child list"
  parent_count :: u32
  unblocked_time :: u32
  delay :: u32

datatype direction = F | R

text \<open>The fields of the state that hold the last node of a kind.\<close>

datatype last_field =
    Last_R nat | Last_RF nat | Last_SF | Last_VPM_Read | Last_TMU_Write | Last_TLB | Last_VPM | Last_Unif | Last_Rtop

record schedule_state =
  last_of :: "last_field \<Rightarrow> nat option"
  dir :: direction

fun last_field_ok :: "last_field \<Rightarrow> bool" where
  "last_field_ok (Last_R i) \<longleftrightarrow> i < 6"
| "last_field_ok (Last_RF i) \<longleftrightarrow> i < 64"
| "last_field_ok _ \<longleftrightarrow> True"

section \<open>Dependencies\<close>

definition add_dep :: "schedule_state \<Rightarrow> nat option \<Rightarrow> nat \<Rightarrow> bool \<Rightarrow> schedule_node list \<Rightarrow> schedule_node list run" where
  "add_dep state before_node after_node write nodes =
     (let war = (\<not> write \<and> dir state = R) in
      case before_node of
        None \<Rightarrow> ret nodes
      | Some before_node \<Rightarrow>
          bind_run (assert_run (before_node \<noteq> after_node)) (\<lambda>_.
          let (before_node, after_node) = (if dir state = R then (after_node, before_node) else (before_node, after_node)) in
          bind_run (fetch nodes before_node) (\<lambda>node.
          if \<exists>ch\<in>set (children node). ch_node ch = Some after_node \<and> write_after_read ch = war then ret nodes
          else bind_run (update_at (\<lambda>node. node\<lparr>children := children node @ [\<lparr>ch_node = Some after_node, write_after_read = war\<rparr>]\<rparr>) nodes before_node)
                 (\<lambda>nodes. update_at (\<lambda>node. node\<lparr>parent_count := parent_count node + 1\<rparr>) nodes after_node))))"

type_synonym dep_state = "schedule_state \<times> schedule_node list"

definition last_node :: "schedule_state \<Rightarrow> last_field \<Rightarrow> nat option run" where
  "last_node state f = (if last_field_ok f then ret (last_of state f) else fault Out_Of_Bounds)"

definition add_read_dep :: "last_field \<Rightarrow> nat \<Rightarrow> dep_state \<Rightarrow> dep_state run" where
  "add_read_dep f n = (\<lambda>(state, nodes).
     bind_run (last_node state f) (\<lambda>before_node.
     bind_run (add_dep state before_node n False nodes) (\<lambda>nodes. ret (state, nodes))))"

definition add_write_dep :: "last_field \<Rightarrow> nat \<Rightarrow> dep_state \<Rightarrow> dep_state run" where
  "add_write_dep f n = (\<lambda>(state, nodes).
     bind_run (last_node state f) (\<lambda>before_node.
     bind_run (add_dep state before_node n True nodes) (\<lambda>nodes. ret (state\<lparr>last_of := (last_of state)(f := Some n)\<rparr>, nodes))))"

definition qpu_inst_is_tlb :: "v3d_qpu_instr \<Rightarrow> bool" where
  "qpu_inst_is_tlb inst \<longleftrightarrow>
     (if instr_type inst \<noteq> V3D_QPU_INSTR_TYPE_ALU then False
      else if magic_write (alu_add inst) \<and> (waddr (alu_add inst) = V3D_QPU_WADDR_TLB \<or> waddr (alu_add inst) = V3D_QPU_WADDR_TLBU) then True
      else if magic_write (alu_mul inst) \<and> (waddr (alu_mul inst) = V3D_QPU_WADDR_TLB \<or> waddr (alu_mul inst) = V3D_QPU_WADDR_TLBU) then True
      else False)"

text \<open>Steps of the analysis in sequence, and a step under a condition.\<close>

definition steps :: "(dep_state \<Rightarrow> dep_state run) list \<Rightarrow> dep_state \<Rightarrow> dep_state run" where
  "steps fs = fold_run (\<lambda>f. f) fs"

definition guarded :: "bool \<Rightarrow> (dep_state \<Rightarrow> dep_state run) \<Rightarrow> dep_state \<Rightarrow> dep_state run" where
  "guarded b f s = (if b then f s else ret s)"

definition process_mux_deps :: "nat \<Rightarrow> v3d_qpu_instr \<Rightarrow> v3d_qpu_mux \<Rightarrow> dep_state \<Rightarrow> dep_state run" where
  "process_mux_deps n inst mux =
     (case mux of
        V3D_QPU_MUX_A \<Rightarrow> add_read_dep (Last_RF (unat (raddr_a inst))) n
      | V3D_QPU_MUX_B \<Rightarrow> add_read_dep (Last_RF (unat (raddr_b inst))) n
      | _ \<Rightarrow> add_read_dep (Last_R (unat (enum_value v3d_qpu_mux_list mux - enum_value v3d_qpu_mux_list V3D_QPU_MUX_R0))) n)"

definition process_waddr_deps :: "nat \<Rightarrow> v3d_qpu_waddr \<Rightarrow> bool \<Rightarrow> dep_state \<Rightarrow> dep_state run" where
  "process_waddr_deps n w magic =
     (if \<not> magic then add_write_dep (Last_RF (unat w)) n
      else if v3d_qpu_magic_waddr_is_tmu w then add_write_dep Last_TMU_Write n
      else if v3d_qpu_magic_waddr_is_sfu w then ret
      else if w \<in> {V3D_QPU_WADDR_R0, V3D_QPU_WADDR_R1, V3D_QPU_WADDR_R2, V3D_QPU_WADDR_R3, V3D_QPU_WADDR_R4, V3D_QPU_WADDR_R5}
      then add_write_dep (Last_R (unat (w - V3D_QPU_WADDR_R0))) n
      else if w \<in> {V3D_QPU_WADDR_VPM, V3D_QPU_WADDR_VPMU} then add_write_dep Last_VPM n
      else if w \<in> {V3D_QPU_WADDR_TLB, V3D_QPU_WADDR_TLBU} then add_write_dep Last_TLB n
      else if w = V3D_QPU_WADDR_NOP then ret
      else (\<lambda>_. fault Assert_Failed))"

definition process_cond_deps :: "nat \<Rightarrow> v3d_qpu_cond \<Rightarrow> dep_state \<Rightarrow> dep_state run" where
  "process_cond_deps n cond = guarded (cond \<noteq> V3D_QPU_COND_NONE) (add_read_dep Last_SF n)"

definition process_pf_deps :: "nat \<Rightarrow> v3d_qpu_pf \<Rightarrow> dep_state \<Rightarrow> dep_state run" where
  "process_pf_deps n pf = guarded (pf \<noteq> V3D_QPU_PF_NONE) (add_write_dep Last_SF n)"

definition process_uf_deps :: "nat \<Rightarrow> v3d_qpu_uf \<Rightarrow> dep_state \<Rightarrow> dep_state run" where
  "process_uf_deps n uf = guarded (uf \<noteq> V3D_QPU_UF_NONE) (add_write_dep Last_SF n)"

text \<open>The two switches on the operations.\<close>

definition add_op_deps :: "nat \<Rightarrow> v3d_qpu_add_op \<Rightarrow> dep_state \<Rightarrow> dep_state run" where
  "add_op_deps n op =
     (if op = V3D_QPU_A_VPMSETUP then steps [add_write_dep Last_VPM n, add_write_dep Last_VPM_Read n]
      else if op \<in> {V3D_QPU_A_STVPMV, V3D_QPU_A_STVPMD, V3D_QPU_A_STVPMP} then add_write_dep Last_VPM n
      else if op = V3D_QPU_A_MSF then add_read_dep Last_TLB n
      else if op \<in> {V3D_QPU_A_SETMSF, V3D_QPU_A_SETREVF} then add_write_dep Last_TLB n
      else if op \<in> {V3D_QPU_A_FLAPUSH, V3D_QPU_A_FLBPUSH, V3D_QPU_A_VFLA, V3D_QPU_A_VFLNA, V3D_QPU_A_VFLB, V3D_QPU_A_VFLNB}
      then add_read_dep Last_SF n
      else if op = V3D_QPU_A_FLBPOP then add_write_dep Last_SF n
      else ret)"

definition mul_op_deps :: "nat \<Rightarrow> v3d_qpu_mul_op \<Rightarrow> dep_state \<Rightarrow> dep_state run" where
  "mul_op_deps n op = guarded (op \<in> {V3D_QPU_M_MULTOP, V3D_QPU_M_UMUL24}) (add_write_dep Last_Rtop n)"

definition thrsw_deps :: "nat \<Rightarrow> dep_state \<Rightarrow> dep_state run" where
  "thrsw_deps n = steps (map (\<lambda>i. add_write_dep (Last_R i) n) [0..<6] @
     [add_write_dep Last_SF n, add_write_dep Last_TLB n, add_write_dep Last_TMU_Write n])"

text \<open>The steps for an instruction that is not a branch, in the order of the code.\<close>

definition alu_deps :: "nat \<Rightarrow> qinst \<Rightarrow> (dep_state \<Rightarrow> dep_state run) list" where
  "alu_deps n qinst = (let inst = qi_qpu qinst in [
     guarded (v3d_qpu_add_op_num_src (alu_op (alu_add inst)) > 0) (process_mux_deps n inst (mux_a (alu_add inst))),
     guarded (v3d_qpu_add_op_num_src (alu_op (alu_add inst)) > 1) (process_mux_deps n inst (mux_b (alu_add inst))),
     guarded (v3d_qpu_mul_op_num_src (alu_op (alu_mul inst)) > 0) (process_mux_deps n inst (mux_a (alu_mul inst))),
     guarded (v3d_qpu_mul_op_num_src (alu_op (alu_mul inst)) > 1) (process_mux_deps n inst (mux_b (alu_mul inst))),
     add_op_deps n (alu_op (alu_add inst)),
     mul_op_deps n (alu_op (alu_mul inst)),
     guarded (alu_op (alu_add inst) \<noteq> V3D_QPU_A_NOP) (process_waddr_deps n (waddr (alu_add inst)) (magic_write (alu_add inst))),
     guarded (alu_op (alu_mul inst) \<noteq> V3D_QPU_M_NOP) (process_waddr_deps n (waddr (alu_mul inst)) (magic_write (alu_mul inst))),
     guarded (v3d_qpu_writes_r3 inst) (add_write_dep (Last_R 3) n),
     guarded (v3d_qpu_writes_r4 inst) (add_write_dep (Last_R 4) n),
     guarded (v3d_qpu_writes_r5 inst) (add_write_dep (Last_R 5) n),
     guarded (thrsw (sig inst)) (thrsw_deps n),
     guarded (ldtmu (sig inst)) (add_write_dep Last_TMU_Write n),
     guarded (ldtlb (sig inst) \<or> ldtlbu (sig inst)) (add_read_dep Last_TLB n),
     guarded (ldvpm (sig inst)) (add_write_dep Last_VPM_Read n),
     guarded (qi_uniform qinst \<noteq> - 1) (add_write_dep Last_Unif n),
     process_cond_deps n (ac (flags inst)),
     process_cond_deps n (mc (flags inst)),
     process_pf_deps n (apf (flags inst)),
     process_pf_deps n (mpf (flags inst)),
     process_uf_deps n (auf (flags inst)),
     process_uf_deps n (muf (flags inst))])"

definition calculate_deps :: "nat \<Rightarrow> dep_state \<Rightarrow> dep_state run" where
  "calculate_deps n = (\<lambda>(state, nodes).
     bind_run (fetch nodes n) (\<lambda>node.
     let qinst = sn_inst node; inst = qi_qpu qinst in
     if instr_type inst = V3D_QPU_INSTR_TYPE_BRANCH then
       steps [guarded (br_cond (branch inst) \<noteq> V3D_QPU_BRANCH_COND_ALWAYS) (add_read_dep Last_SF n), add_write_dep Last_Unif n] (state, nodes)
     else
       steps (alu_deps n qinst) (state, nodes)))"

definition calculate_forward_deps :: "schedule_node list \<Rightarrow> schedule_node list run" where
  "calculate_forward_deps nodes =
     bind_run (fold_run calculate_deps [0..<length nodes] (\<lparr>last_of = (\<lambda>_. None), dir = F\<rparr>, nodes)) (\<lambda>(_, nodes). ret nodes)"

definition calculate_reverse_deps :: "schedule_node list \<Rightarrow> schedule_node list run" where
  "calculate_reverse_deps nodes =
     bind_run (fold_run calculate_deps (rev [0..<length nodes]) (\<lparr>last_of = (\<lambda>_. None), dir = R\<rparr>, nodes)) (\<lambda>(_, nodes). ret nodes)"

section \<open>Restrictions on the next instruction\<close>

text \<open>The ticks count instructions; they are unbounded here, and the same as those of the code up to \<open>2\<^sup>3\<^sup>1\<close> instructions.\<close>

record choose_scoreboard =
  tick :: int
  last_sfu_write_tick :: int
  last_ldvary_tick :: int
  last_uniforms_reset_tick :: int
  last_waddr_add :: u32
  last_waddr_mul :: u32
  tlb_locked :: bool

definition mux_reads_too_soon :: "choose_scoreboard \<Rightarrow> v3d_qpu_instr \<Rightarrow> v3d_qpu_mux \<Rightarrow> bool" where
  "mux_reads_too_soon sb inst mux =
     (case mux of
        V3D_QPU_MUX_A \<Rightarrow> last_waddr_add sb = ucast (raddr_a inst) \<or> last_waddr_mul sb = ucast (raddr_a inst)
      | V3D_QPU_MUX_B \<Rightarrow> last_waddr_add sb = ucast (raddr_b inst) \<or> last_waddr_mul sb = ucast (raddr_b inst)
      | V3D_QPU_MUX_R4 \<Rightarrow> tick sb - last_sfu_write_tick sb \<le> 2
      | V3D_QPU_MUX_R5 \<Rightarrow> tick sb - last_ldvary_tick sb \<le> 1
      | _ \<Rightarrow> False)"

definition reads_too_soon_after_write :: "choose_scoreboard \<Rightarrow> qinst \<Rightarrow> bool" where
  "reads_too_soon_after_write sb qinst =
     (let inst = qi_qpu qinst; add = alu_add inst; mul = alu_mul inst in
      if instr_type inst = V3D_QPU_INSTR_TYPE_BRANCH then False
      else
        (alu_op add \<noteq> V3D_QPU_A_NOP \<and>
           (v3d_qpu_add_op_num_src (alu_op add) > 0 \<and> mux_reads_too_soon sb inst (mux_a add) \<or>
            v3d_qpu_add_op_num_src (alu_op add) > 1 \<and> mux_reads_too_soon sb inst (mux_b add))) \<or>
        (alu_op mul \<noteq> V3D_QPU_M_NOP \<and>
           (v3d_qpu_mul_op_num_src (alu_op mul) > 0 \<and> mux_reads_too_soon sb inst (mux_a mul) \<or>
            v3d_qpu_mul_op_num_src (alu_op mul) > 1 \<and> mux_reads_too_soon sb inst (mux_b mul))))"

definition writes_too_soon_after_write :: "choose_scoreboard \<Rightarrow> qinst \<Rightarrow> bool" where
  "writes_too_soon_after_write sb qinst \<longleftrightarrow> tick sb - last_sfu_write_tick sb < 2 \<and> v3d_qpu_writes_r4 (qi_qpu qinst)"

definition pixel_scoreboard_too_soon :: "choose_scoreboard \<Rightarrow> v3d_qpu_instr \<Rightarrow> bool" where
  "pixel_scoreboard_too_soon sb inst \<longleftrightarrow> tick sb = 0 \<and> qpu_inst_is_tlb inst"

definition get_instruction_priority :: "v3d_qpu_instr \<Rightarrow> int" where
  "get_instruction_priority inst =
     (if qpu_inst_is_tlb inst then 0
      else if ldtmu (sig inst) then 1
      else if instr_type inst = V3D_QPU_INSTR_TYPE_ALU \<and>
              (magic_write (alu_add inst) \<and> v3d_qpu_magic_waddr_is_tmu (waddr (alu_add inst)) \<or>
               magic_write (alu_mul inst) \<and> v3d_qpu_magic_waddr_is_tmu (waddr (alu_mul inst)))
      then 3
      else 2)"

definition qpu_magic_waddr_is_periph :: "v3d_qpu_waddr \<Rightarrow> bool" where
  "qpu_magic_waddr_is_periph w \<longleftrightarrow>
     v3d_qpu_magic_waddr_is_tmu w \<or> v3d_qpu_magic_waddr_is_sfu w \<or> v3d_qpu_magic_waddr_is_tlb w \<or>
     v3d_qpu_magic_waddr_is_vpm w \<or> v3d_qpu_magic_waddr_is_tsy w"

definition qpu_accesses_peripheral :: "v3d_qpu_instr \<Rightarrow> bool" where
  "qpu_accesses_peripheral inst \<longleftrightarrow>
     instr_type inst = V3D_QPU_INSTR_TYPE_ALU \<and>
       (alu_op (alu_add inst) \<noteq> V3D_QPU_A_NOP \<and> magic_write (alu_add inst) \<and> qpu_magic_waddr_is_periph (waddr (alu_add inst)) \<or>
        alu_op (alu_add inst) = V3D_QPU_A_VPMSETUP \<or>
        alu_op (alu_mul inst) \<noteq> V3D_QPU_M_NOP \<and> magic_write (alu_mul inst) \<and> qpu_magic_waddr_is_periph (waddr (alu_mul inst))) \<or>
     ldvpm (sig inst) \<or> ldtmu (sig inst) \<or> ldtlb (sig inst) \<or> ldtlbu (sig inst)"

section \<open>Pairing two instructions\<close>

definition merge_sig :: "v3d_qpu_sig \<Rightarrow> v3d_qpu_sig \<Rightarrow> v3d_qpu_sig" where
  "merge_sig a b = \<lparr>thrsw = thrsw a \<or> thrsw b, ldunif = ldunif a \<or> ldunif b, ldtmu = ldtmu a \<or> ldtmu b, ldvary = ldvary a \<or> ldvary b,
     ldvpm = ldvpm a \<or> ldvpm b, ldtlb = ldtlb a \<or> ldtlb b, ldtlbu = ldtlbu a \<or> ldtlbu b, small_imm = small_imm a \<or> small_imm b,
     ucb = ucb a \<or> ucb b, rotate = rotate a \<or> rotate b, wrtmuc = wrtmuc a \<or> wrtmuc b\<rparr>"

definition merge_add :: "v3d_qpu_instr \<Rightarrow> v3d_qpu_instr \<Rightarrow> v3d_qpu_instr" where
  "merge_add b merge = merge\<lparr>alu_add := alu_add b, flags := (flags merge)\<lparr>ac := ac (flags b), apf := apf (flags b), auf := auf (flags b)\<rparr>\<rparr>"

definition merge_mul :: "v3d_qpu_instr \<Rightarrow> v3d_qpu_instr \<Rightarrow> v3d_qpu_instr" where
  "merge_mul b merge = merge\<lparr>alu_mul := alu_mul b, flags := (flags merge)\<lparr>mc := mc (flags b), mpf := mpf (flags b), muf := muf (flags b)\<rparr>\<rparr>"

text \<open>The tests that return false before anything is packed, and the instruction that is packed otherwise.\<close>

definition merge_conflict :: "v3d_qpu_instr \<Rightarrow> v3d_qpu_instr \<Rightarrow> bool" where
  "merge_conflict a b \<longleftrightarrow>
     instr_type a \<noteq> V3D_QPU_INSTR_TYPE_ALU \<or> instr_type b \<noteq> V3D_QPU_INSTR_TYPE_ALU \<or>
     qpu_accesses_peripheral a \<and> qpu_accesses_peripheral b \<or>
     alu_op (alu_add b) \<noteq> V3D_QPU_A_NOP \<and> alu_op (alu_add a) \<noteq> V3D_QPU_A_NOP \<or>
     alu_op (alu_mul b) \<noteq> V3D_QPU_M_NOP \<and> alu_op (alu_mul a) \<noteq> V3D_QPU_M_NOP \<or>
     v3d_qpu_uses_mux b V3D_QPU_MUX_A \<and> v3d_qpu_uses_mux a V3D_QPU_MUX_A \<and> raddr_a a \<noteq> raddr_a b \<or>
     v3d_qpu_uses_mux b V3D_QPU_MUX_B \<and> v3d_qpu_uses_mux a V3D_QPU_MUX_B \<and> raddr_b a \<noteq> raddr_b b"

definition merged_inst :: "v3d_qpu_instr \<Rightarrow> v3d_qpu_instr \<Rightarrow> v3d_qpu_instr" where
  "merged_inst a b =
     (let merge = (if alu_op (alu_add b) \<noteq> V3D_QPU_A_NOP then merge_add b a else a);
          merge = (if alu_op (alu_mul b) \<noteq> V3D_QPU_M_NOP then merge_mul b merge else merge);
          merge = (if v3d_qpu_uses_mux b V3D_QPU_MUX_A then merge\<lparr>raddr_a := raddr_a b\<rparr> else merge);
          merge = (if v3d_qpu_uses_mux b V3D_QPU_MUX_B then merge\<lparr>raddr_b := raddr_b b\<rparr> else merge)
      in merge\<lparr>sig := merge_sig (sig merge) (sig b)\<rparr>)"

text \<open>
  \<open>None\<close> is the result false. \<open>aliased\<close> says that the result is written over one of the arguments; then packing must not fail.
\<close>

definition qpu_merge_inst :: "bool \<Rightarrow> v3d_qpu_instr \<Rightarrow> v3d_qpu_instr \<Rightarrow> v3d_qpu_instr option run" where
  "qpu_merge_inst aliased a b =
     (if merge_conflict a b then ret None
      else case v3d_qpu_instr_pack (merged_inst a b) of
             Inr _ \<Rightarrow> ret (Some (merged_inst a b))
           | Inl Return_False \<Rightarrow> bind_run (assert_run (\<not> aliased)) (\<lambda>_. ret None)
           | Inl e \<Rightarrow> fault e)"

section \<open>Choosing an instruction\<close>

text \<open>The tests that make the loop of \<open>choose_instruction_to_schedule\<close> go on with the next node.\<close>

definition too_soon :: "choose_scoreboard \<Rightarrow> nat list \<Rightarrow> qinst \<Rightarrow> bool" where
  "too_soon sb schedule_list qinst =
     (let inst = qi_qpu qinst in
      instr_type inst = V3D_QPU_INSTR_TYPE_BRANCH \<and> length schedule_list \<noteq> 1 \<or>
      reads_too_soon_after_write sb qinst \<or>
      writes_too_soon_after_write sb qinst \<or>
      pixel_scoreboard_too_soon sb inst \<or>
      ldunif (sig inst) \<and> tick sb = last_ldvary_tick sb + 1)"

definition can_pair :: "choose_scoreboard \<Rightarrow> qinst \<Rightarrow> qinst \<Rightarrow> bool run" where
  "can_pair sb prev_inst qinst =
     (let inst = qi_qpu qinst in
      if thrsw (sig inst) then ret False
      else if qi_uniform prev_inst \<noteq> - 1 \<and> qi_uniform qinst \<noteq> - 1 then ret False
      else if \<not> tlb_locked sb \<and> qpu_inst_is_tlb inst then ret False
      else bind_run (qpu_merge_inst False (qi_qpu prev_inst) inst) (\<lambda>m. ret (m \<noteq> None)))"

definition choose_node ::
  "choose_scoreboard \<Rightarrow> nat list \<Rightarrow> schedule_node list \<Rightarrow> qinst option \<Rightarrow> nat \<Rightarrow> (nat \<times> int) option \<Rightarrow> (nat \<times> int) option run" where
  "choose_node sb schedule_list nodes prev_inst n chosen =
     bind_run (fetch nodes n) (\<lambda>node.
     let qinst = sn_inst node in
     if too_soon sb schedule_list qinst then ret chosen
     else
     bind_run (case prev_inst of None \<Rightarrow> ret True | Some prev_inst \<Rightarrow> can_pair sb prev_inst qinst) (\<lambda>ok.
     if \<not> ok then ret chosen
     else
     let prio = get_instruction_priority (qi_qpu qinst) in
     case chosen of
       None \<Rightarrow> ret (Some (n, prio))
     | Some (chosen, chosen_prio) \<Rightarrow>
         if prio > chosen_prio then ret (Some (n, prio))
         else if prio < chosen_prio then ret (Some (chosen, chosen_prio))
         else bind_run (fetch nodes chosen) (\<lambda>chosen_node.
           ret (if delay node > delay chosen_node then Some (n, prio) else Some (chosen, chosen_prio)))))"

definition choose_instruction_to_schedule ::
  "choose_scoreboard \<Rightarrow> nat list \<Rightarrow> schedule_node list \<Rightarrow> qinst option \<Rightarrow> nat option run" where
  "choose_instruction_to_schedule sb schedule_list nodes prev_inst =
     (if case prev_inst of None \<Rightarrow> False | Some prev_inst \<Rightarrow> thrsw (sig (qi_qpu prev_inst)) then ret None
      else bind_run (fold_run (choose_node sb schedule_list nodes prev_inst) schedule_list None) (\<lambda>chosen.
           ret (map_option fst chosen)))"

definition update_scoreboard_for_magic_waddr :: "v3d_qpu_waddr \<Rightarrow> choose_scoreboard \<Rightarrow> choose_scoreboard" where
  "update_scoreboard_for_magic_waddr w sb = (if v3d_qpu_magic_waddr_is_sfu w then sb\<lparr>last_sfu_write_tick := tick sb\<rparr> else sb)"

definition update_scoreboard_for_chosen :: "v3d_qpu_instr \<Rightarrow> choose_scoreboard \<Rightarrow> choose_scoreboard" where
  "update_scoreboard_for_chosen inst sb =
     (let sb = sb\<lparr>last_waddr_add := NOT 0, last_waddr_mul := NOT 0\<rparr>; add = alu_add inst; mul = alu_mul inst in
      if instr_type inst = V3D_QPU_INSTR_TYPE_BRANCH then sb
      else
      let sb = (if alu_op add = V3D_QPU_A_NOP then sb
                else if magic_write add then update_scoreboard_for_magic_waddr (waddr add) sb
                else sb\<lparr>last_waddr_add := ucast (waddr add)\<rparr>);
          sb = (if alu_op mul = V3D_QPU_M_NOP then sb
                else if magic_write mul then update_scoreboard_for_magic_waddr (waddr mul) sb
                else sb\<lparr>last_waddr_mul := ucast (waddr mul)\<rparr>);
          sb = (if ldvary (sig inst) then sb\<lparr>last_ldvary_tick := tick sb\<rparr> else sb)
      in if qpu_inst_is_tlb inst then sb\<lparr>tlb_locked := True\<rparr> else sb)"

section \<open>Latencies\<close>

definition magic_waddr_latency :: "v3d_qpu_waddr \<Rightarrow> v3d_qpu_instr \<Rightarrow> u32" where
  "magic_waddr_latency w after_node =
     (if v3d_qpu_magic_waddr_is_tmu w \<and> ldtmu (sig after_node) then 100
      else if v3d_qpu_magic_waddr_is_sfu w then 3
      else 1)"

definition instruction_latency :: "schedule_node \<Rightarrow> schedule_node \<Rightarrow> u32" where
  "instruction_latency before_node after_node =
     (let before_inst = qi_qpu (sn_inst before_node); after_inst = qi_qpu (sn_inst after_node); latency = 1 in
      if instr_type before_inst \<noteq> V3D_QPU_INSTR_TYPE_ALU \<or> instr_type after_inst \<noteq> V3D_QPU_INSTR_TYPE_ALU then latency
      else
      let latency = (if magic_write (alu_add before_inst) then max latency (magic_waddr_latency (waddr (alu_add before_inst)) after_inst) else latency)
      in if magic_write (alu_mul before_inst) then max latency (magic_waddr_latency (waddr (alu_mul before_inst)) after_inst) else latency)"

lemma fold_run_mono [partial_function_mono]:
  assumes "\<And>x s. mono_option (\<lambda>f. B x s f)"
  shows "mono_option (\<lambda>f. fold_run (\<lambda>x s. B x s f) xs s)"
proof (induction xs arbitrary: s)
  case Nil
  show ?case by (simp add: option.const_mono)
next
  case (Cons x xs)
  show ?case unfolding fold_run.simps by (intro bind_run_mono assms Cons)
qed

partial_function (option) compute_delay :: "nat \<Rightarrow> schedule_node list \<Rightarrow> schedule_node list run" where
  "compute_delay n nodes =
     bind_run (fetch nodes n) (\<lambda>node.
     if children node = [] then ret (nodes[n := node\<lparr>delay := 1\<rparr>])
     else fold_run (\<lambda>ch nodes.
       case ch_node ch of
         None \<Rightarrow> fault Out_Of_Bounds
       | Some m \<Rightarrow>
           bind_run (fetch nodes m) (\<lambda>child.
           bind_run (if delay child = 0 then compute_delay m nodes else ret nodes) (\<lambda>nodes.
           bind_run (fetch nodes m) (\<lambda>child.
           update_at (\<lambda>node. node\<lparr>delay := max (delay node) (delay child + instruction_latency node child)\<rparr>) nodes n)))) (children node) nodes)"

declare compute_delay.simps [code]

section \<open>Scheduling\<close>

text \<open>One child of a scheduled node: the list of ready nodes and all nodes.\<close>

definition mark_child :: "u32 \<Rightarrow> nat \<Rightarrow> bool \<Rightarrow> nat \<Rightarrow> nat list \<times> schedule_node list \<Rightarrow> (nat list \<times> schedule_node list) run" where
  "mark_child time n war_only i = (\<lambda>(schedule_list, nodes).
     bind_run (fetch nodes n) (\<lambda>node.
     bind_run (fetch (children node) i) (\<lambda>ch.
     case ch_node ch of
       None \<Rightarrow> ret (schedule_list, nodes)
     | Some m \<Rightarrow>
         if war_only \<and> \<not> write_after_read ch then ret (schedule_list, nodes)
         else
         bind_run (fetch nodes m) (\<lambda>child.
         let latency = (if war_only then 0 else instruction_latency node child);
             child = child\<lparr>unblocked_time := max (unblocked_time child) (time + latency), parent_count := parent_count child - 1\<rparr>;
             schedule_list = (if parent_count child = 0 then m # schedule_list else schedule_list)
         in bind_run (update_at (\<lambda>_. child) nodes m) (\<lambda>nodes.
            bind_run (update_at (\<lambda>node. node\<lparr>children := (children node)[i := ch\<lparr>ch_node := None\<rparr>]\<rparr>) nodes n) (\<lambda>nodes.
            ret (schedule_list, nodes)))))))"

definition mark_instruction_scheduled ::
  "u32 \<Rightarrow> nat option \<Rightarrow> bool \<Rightarrow> nat list \<times> schedule_node list \<Rightarrow> (nat list \<times> schedule_node list) run" where
  "mark_instruction_scheduled time node war_only = (\<lambda>(schedule_list, nodes).
     case node of
       None \<Rightarrow> ret (schedule_list, nodes)
     | Some n \<Rightarrow> bind_run (fetch nodes n) (\<lambda>node.
         fold_run (mark_child time n war_only) (rev [0..<length (children node)]) (schedule_list, nodes)))"

definition vir_nop :: "nat \<Rightarrow> qinst" where
  "vir_nop p = vir_add_inst p V3D_QPU_A_NOP (vir_reg QFILE_NULL 0) (vir_reg QFILE_NULL 0) (vir_reg QFILE_NULL 0)"

text \<open>The fields of a block and of the compile that the scheduler works with. A content of a uniform is the number of the enumerator.\<close>

type_synonym quniform_contents = u32

abbreviation QUNIFORM_CONSTANT :: quniform_contents where "QUNIFORM_CONSTANT \<equiv> 0"

record qpu_block =
  pb_instructions :: "qinst list"
  pb_successors :: "nat option list"
  start_qpu_ip :: u32
  end_qpu_ip :: u32
  branch_qpu_ip :: u32
  start_uniform :: u32
  branch_uniform :: u32

record qpu_compile =
  pc_blocks :: "qpu_block list"
  qpu_inst_count :: u32
  num_uniforms :: nat
  uniform_contents :: "quniform_contents list"
  uniform_data :: "u32 list"

text \<open>The variables of \<open>schedule_instructions\<close>.\<close>

record schedule_vars =
  sv_c :: qpu_compile
  sv_block :: qpu_block
  sv_sb :: choose_scoreboard
  sv_list :: "nat list"
  sv_nodes :: "schedule_node list"
  sv_next_uniform :: nat
  sv_time :: u32

text \<open>Appending an instruction to the block, and the delay slots after a branch or a thread switch.\<close>

definition emit_inst :: "qinst \<Rightarrow> schedule_vars \<Rightarrow> schedule_vars" where
  "emit_inst qinst s =
     (let sb = update_scoreboard_for_chosen (qi_qpu qinst) (sv_sb s) in
      s\<lparr>sv_c := (sv_c s)\<lparr>qpu_inst_count := qpu_inst_count (sv_c s) + 1\<rparr>,
        sv_block := (sv_block s)\<lparr>pb_instructions := pb_instructions (sv_block s) @ [qinst]\<rparr>,
        sv_sb := sb\<lparr>tick := tick sb + 1\<rparr>, sv_time := sv_time s + 1\<rparr>)"

definition fill_delay_slots :: "(u32 \<Rightarrow> nat) \<Rightarrow> v3d_qpu_instr \<Rightarrow> schedule_vars \<Rightarrow> schedule_vars" where
  "fill_delay_slots calloc inst s =
     (if instr_type inst = V3D_QPU_INSTR_TYPE_BRANCH \<or> thrsw (sig inst) then
        fold (\<lambda>_ s. emit_inst (vir_nop (calloc (qpu_inst_count (sv_c s)))) s)
          [0..<if instr_type inst = V3D_QPU_INSTR_TYPE_BRANCH then 3 else 2]
          (s\<lparr>sv_block := (sv_block s)\<lparr>branch_qpu_ip := qpu_inst_count (sv_c s) - 1\<rparr>\<rparr>)
      else s)"

text \<open>Taking the chosen node from the list, and pairing it with another one: the node it was paired with.\<close>

definition take_chosen :: "nat \<Rightarrow> schedule_vars \<Rightarrow> (schedule_vars \<times> nat option) run" where
  "take_chosen n s =
     bind_run (fetch (sv_nodes s) n) (\<lambda>node.
     let time = max (unblocked_time node) (sv_time s) in
     bind_run (mark_instruction_scheduled time (Some n) True (remove1 n (sv_list s), sv_nodes s)) (\<lambda>(schedule_list, nodes).
     let s = s\<lparr>sv_time := time, sv_list := schedule_list, sv_nodes := nodes\<rparr> in
     bind_run (choose_instruction_to_schedule (sv_sb s) schedule_list nodes (Some (sn_inst node))) (\<lambda>merge.
     case merge of
       None \<Rightarrow> ret (s, None)
     | Some m \<Rightarrow>
         bind_run (fetch nodes m) (\<lambda>other.
         bind_run (qpu_merge_inst True (qi_qpu (sn_inst node)) (qi_qpu (sn_inst other))) (\<lambda>merged.
         let qinst = (case merged of None \<Rightarrow> sn_inst node | Some inst \<Rightarrow> (sn_inst node)\<lparr>qi_qpu := inst\<rparr>);
             qinst = (if qi_uniform (sn_inst other) \<noteq> - 1 then qinst\<lparr>qi_uniform := qi_uniform (sn_inst other)\<rparr> else qinst)
         in bind_run (update_at (\<lambda>node. node\<lparr>sn_inst := qinst\<rparr>) nodes n) (\<lambda>nodes.
            ret (s\<lparr>sv_time := max (unblocked_time other) time, sv_list := remove1 m schedule_list, sv_nodes := nodes\<rparr>, Some m)))))))"

text \<open>The next place in the stream of uniforms.\<close>

definition move_uniform :: "quniform_contents list \<Rightarrow> u32 list \<Rightarrow> qinst \<Rightarrow> schedule_vars \<Rightarrow> (schedule_vars \<times> qinst) run" where
  "move_uniform orig_contents orig_data qinst s =
     (if qi_uniform qinst = - 1 then ret (s, qinst)
      else
      let k = sv_next_uniform s; c = sv_c s;
          block = (if instr_type (qi_qpu qinst) = V3D_QPU_INSTR_TYPE_BRANCH then (sv_block s)\<lparr>branch_uniform := of_nat k\<rparr> else sv_block s)
      in if qi_uniform qinst < 0 then fault Out_Of_Bounds
         else
         bind_run (fetch orig_data (nat (qi_uniform qinst))) (\<lambda>d.
         bind_run (fetch orig_contents (nat (qi_uniform qinst))) (\<lambda>t.
         bind_run (update_at (\<lambda>_. d) (uniform_data c) k) (\<lambda>data.
         bind_run (update_at (\<lambda>_. t) (uniform_contents c) k) (\<lambda>contents.
         ret (s\<lparr>sv_c := c\<lparr>uniform_data := data, uniform_contents := contents\<rparr>, sv_block := block, sv_next_uniform := k + 1\<rparr>,
              qinst\<lparr>qi_uniform := int k\<rparr>))))))"

definition schedule_step :: "(u32 \<Rightarrow> nat) \<Rightarrow> quniform_contents list \<Rightarrow> u32 list \<Rightarrow> schedule_vars \<Rightarrow> schedule_vars run" where
  "schedule_step calloc orig_contents orig_data s =
     bind_run (choose_instruction_to_schedule (sv_sb s) (sv_list s) (sv_nodes s) None) (\<lambda>chosen.
     case chosen of
       None \<Rightarrow>
         let nop = vir_nop (calloc (qpu_inst_count (sv_c s))) in ret (emit_inst nop s)
     | Some n \<Rightarrow>
         bind_run (take_chosen n s) (\<lambda>(s, merge).
         bind_run (fetch (sv_nodes s) n) (\<lambda>node.
         bind_run (move_uniform orig_contents orig_data (sn_inst node) s) (\<lambda>(s, qinst).
         bind_run (update_at (\<lambda>node. node\<lparr>sn_inst := qinst\<rparr>) (sv_nodes s) n) (\<lambda>nodes.
         bind_run (mark_instruction_scheduled (sv_time s) (Some n) False (sv_list s, nodes)) (\<lambda>lists.
         bind_run (mark_instruction_scheduled (sv_time s) merge False lists) (\<lambda>(schedule_list, nodes).
         ret (fill_delay_slots calloc (qi_qpu qinst) (emit_inst qinst (s\<lparr>sv_list := schedule_list, sv_nodes := nodes\<rparr>))))))))))"

partial_function (option) schedule_loop :: "(u32 \<Rightarrow> nat) \<Rightarrow> quniform_contents list \<Rightarrow> u32 list \<Rightarrow> schedule_vars \<Rightarrow> schedule_vars run" where
  "schedule_loop calloc orig_contents orig_data s =
     (if sv_list s = [] then ret s
      else bind_run (schedule_step calloc orig_contents orig_data s) (schedule_loop calloc orig_contents orig_data))"

declare schedule_loop.simps [code]

definition schedule_instructions :: "(u32 \<Rightarrow> nat) \<Rightarrow> quniform_contents list \<Rightarrow> u32 list \<Rightarrow> schedule_vars \<Rightarrow> schedule_vars run" where
  "schedule_instructions calloc orig_contents orig_data s =
     schedule_loop calloc orig_contents orig_data
       (s\<lparr>sv_time := 0, sv_list := filter (\<lambda>n. parent_count (sv_nodes s ! n) = 0) (sv_list s)\<rparr>)"

section \<open>Blocks and programs\<close>

definition new_node :: "qinst \<Rightarrow> schedule_node" where
  "new_node qinst = \<lparr>sn_inst = qinst, children = [], parent_count = 0, unblocked_time = 0, delay = 0\<rparr>"

text \<open>The variables of \<open>v3d_qpu_schedule_instructions\<close>: the compile, the scoreboard, the next uniform and the cycles.\<close>

type_synonym program_vars = "qpu_compile \<times> choose_scoreboard \<times> nat \<times> u32"

definition qpu_schedule_instructions_block ::
  "(u32 \<Rightarrow> nat) \<Rightarrow> quniform_contents list \<Rightarrow> u32 list \<Rightarrow> qpu_compile \<Rightarrow> choose_scoreboard \<Rightarrow> nat \<Rightarrow> qpu_block \<Rightarrow> schedule_vars run" where
  "qpu_schedule_instructions_block calloc orig_contents orig_data c sb next_uniform block =
     (let nodes = map new_node (pb_instructions block); block = block\<lparr>pb_instructions := []\<rparr>; all = [0..<length nodes] in
      bind_run (calculate_forward_deps nodes) (\<lambda>nodes.
      bind_run (calculate_reverse_deps nodes) (\<lambda>nodes.
      bind_run (fold_run compute_delay all nodes) (\<lambda>nodes.
      schedule_instructions calloc orig_contents orig_data
        \<lparr>sv_c = c, sv_block = block, sv_sb = sb, sv_list = all, sv_nodes = nodes, sv_next_uniform = next_uniform, sv_time = 0\<rparr>))))"

definition schedule_block ::
  "(u32 \<Rightarrow> nat) \<Rightarrow> quniform_contents list \<Rightarrow> u32 list \<Rightarrow> nat \<Rightarrow> program_vars \<Rightarrow> program_vars run" where
  "schedule_block calloc orig_contents orig_data b = (\<lambda>(c, sb, next_uniform, cycles).
     bind_run (fetch (pc_blocks c) b) (\<lambda>block.
     let block = block\<lparr>start_qpu_ip := qpu_inst_count c, branch_qpu_ip := NOT 0, start_uniform := of_nat next_uniform\<rparr> in
     bind_run (qpu_schedule_instructions_block calloc orig_contents orig_data c sb next_uniform block) (\<lambda>s.
     let c = sv_c s; block = (sv_block s)\<lparr>end_qpu_ip := qpu_inst_count c - 1\<rparr> in
     ret (c\<lparr>pc_blocks := (pc_blocks c)[b := block]\<rparr>, sv_sb s, sv_next_uniform s, cycles + sv_time s))))"

definition set_branch_target :: "nat \<Rightarrow> qpu_compile \<Rightarrow> qpu_compile run" where
  "set_branch_target b c =
     bind_run (fetch (pc_blocks c) b) (\<lambda>block.
     bind_run (fetch (pb_successors block) 0) (\<lambda>succ0.
     case succ0 of
       None \<Rightarrow> ret c
     | Some s0 \<Rightarrow>
         bind_run (fetch (pc_blocks c) s0) (\<lambda>target.
         if branch_qpu_ip block = NOT 0 then
           bind_run (assert_run (end_qpu_ip block + 1 = start_qpu_ip target)) (\<lambda>_. ret c)
         else if length (pb_instructions block) < 4 then fault Out_Of_Bounds
         else
         let p = length (pb_instructions block) - 4; br = pb_instructions block ! p in
         bind_run (assert_run (instr_type (qi_qpu br) = V3D_QPU_INSTR_TYPE_BRANCH)) (\<lambda>_.
         bind_run (fetch (pb_successors block) 1) (\<lambda>succ1.
         bind_run (case succ1 of None \<Rightarrow> ret ()
                   | Some s1 \<Rightarrow> bind_run (fetch (pc_blocks c) s1) (\<lambda>next.
                       assert_run (start_qpu_ip next = branch_qpu_ip block + 4))) (\<lambda>_.
         let offset = (start_qpu_ip target - (branch_qpu_ip block + 4)) * 8;
             br = br\<lparr>qi_qpu := (qi_qpu br)\<lparr>branch := (branch (qi_qpu br))\<lparr>br_offset := offset\<rparr>\<rparr>\<rparr>;
             block' = block\<lparr>pb_instructions := (pb_instructions block)[p := br]\<rparr>
         in if qi_uniform br < 0 then fault Out_Of_Bounds
            else
            bind_run (fetch (uniform_contents c) (nat (qi_uniform br))) (\<lambda>t.
            bind_run (assert_run (t = QUNIFORM_CONSTANT)) (\<lambda>_.
            bind_run (update_at (\<lambda>_. (start_uniform target - (branch_uniform block + 1)) * 4) (uniform_data c) (nat (qi_uniform br))) (\<lambda>data.
            ret (c\<lparr>pc_blocks := (pc_blocks c)[b := block'], uniform_data := data\<rparr>))))))))))"

definition qpu_set_branch_targets :: "qpu_compile \<Rightarrow> qpu_compile run" where
  "qpu_set_branch_targets c = fold_run set_branch_target [0..<length (pc_blocks c)] c"

definition initial_scoreboard :: choose_scoreboard where
  "initial_scoreboard = \<lparr>tick = 0, last_sfu_write_tick = - 10, last_ldvary_tick = - 10, last_uniforms_reset_tick = - 10,
     last_waddr_add = NOT 0, last_waddr_mul = NOT 0, tlb_locked = False\<rparr>"

text \<open>\<open>contents0\<close> and \<open>data0\<close> are the arrays that \<open>ralloc_array\<close> returns, with whatever they contain.\<close>

definition v3d_qpu_schedule_instructions ::
  "(u32 \<Rightarrow> nat) \<Rightarrow> quniform_contents list \<Rightarrow> u32 list \<Rightarrow> qpu_compile \<Rightarrow> (qpu_compile \<times> u32) run" where
  "v3d_qpu_schedule_instructions calloc contents0 data0 c =
     bind_run (fold_run (schedule_block calloc (uniform_contents c) (uniform_data c)) [0..<length (pc_blocks c)]
       (c\<lparr>uniform_contents := contents0, uniform_data := data0\<rparr>, initial_scoreboard, 0, 0)) (\<lambda>(c, sb, next_uniform, cycles).
     bind_run (qpu_set_branch_targets c) (\<lambda>c.
     bind_run (assert_run (next_uniform = num_uniforms c)) (\<lambda>_. ret (c, cycles))))"

end
