(* ===== verification/Sched_Access.thy ===== *)
theory Sched_Access
  imports Qpu_Schedule Vir_Opt_Pass
begin

text \<open>
  What an instruction accesses, as a list of the fields of the state of the dependency analysis, each with whether the
  access is a write; \<open>calculate_deps\<close> goes through this list.
\<close>

type_synonym access = "last_field \<times> bool"

section \<open>Accesses\<close>

definition mux_access :: "v3d_qpu_instr \<Rightarrow> v3d_qpu_mux \<Rightarrow> access" where
  "mux_access inst mux =
     (case mux of V3D_QPU_MUX_A \<Rightarrow> (Last_RF (unat (raddr_a inst)), False) | V3D_QPU_MUX_B \<Rightarrow> (Last_RF (unat (raddr_b inst)), False)
      | _ \<Rightarrow> (Last_R (unat (enum_value v3d_qpu_mux_list mux)), False))"

definition waddr_access :: "v3d_qpu_waddr \<Rightarrow> bool \<Rightarrow> access list" where
  "waddr_access w magic =
     (if \<not> magic then [(Last_RF (unat w), True)]
      else if v3d_qpu_magic_waddr_is_tmu w then [(Last_TMU_Write, True)]
      else if w \<in> {V3D_QPU_WADDR_R0, V3D_QPU_WADDR_R1, V3D_QPU_WADDR_R2, V3D_QPU_WADDR_R3, V3D_QPU_WADDR_R4, V3D_QPU_WADDR_R5} then [(Last_R (unat w), True)]
      else if w \<in> {V3D_QPU_WADDR_VPM, V3D_QPU_WADDR_VPMU} then [(Last_VPM, True)]
      else if w \<in> {V3D_QPU_WADDR_TLB, V3D_QPU_WADDR_TLBU} then [(Last_TLB, True)]
      else [])"

definition add_op_access :: "v3d_qpu_add_op \<Rightarrow> access list" where
  "add_op_access op =
     (if op = V3D_QPU_A_VPMSETUP then [(Last_VPM, True), (Last_VPM_Read, True)]
      else if op \<in> {V3D_QPU_A_STVPMV, V3D_QPU_A_STVPMD, V3D_QPU_A_STVPMP} then [(Last_VPM, True)]
      else if op = V3D_QPU_A_MSF then [(Last_TLB, False)]
      else if op \<in> {V3D_QPU_A_SETMSF, V3D_QPU_A_SETREVF} then [(Last_TLB, True)]
      else if op \<in> {V3D_QPU_A_FLAPUSH, V3D_QPU_A_FLBPUSH, V3D_QPU_A_VFLA, V3D_QPU_A_VFLNA, V3D_QPU_A_VFLB, V3D_QPU_A_VFLNB} then [(Last_SF, False)]
      else if op = V3D_QPU_A_FLBPOP then [(Last_SF, True)]
      else [])"

definition only_if :: "bool \<Rightarrow> 'a list \<Rightarrow> 'a list" where
  "only_if b l = (if b then l else [])"

definition alu_accesses :: "qinst \<Rightarrow> access list list" where
  "alu_accesses q = (let inst = qi_qpu q; add = alu_add inst; mul = alu_mul inst in [
     only_if (v3d_qpu_add_op_num_src (alu_op add) > 0) [mux_access inst (mux_a add)],
     only_if (v3d_qpu_add_op_num_src (alu_op add) > 1) [mux_access inst (mux_b add)],
     only_if (v3d_qpu_mul_op_num_src (alu_op mul) > 0) [mux_access inst (mux_a mul)],
     only_if (v3d_qpu_mul_op_num_src (alu_op mul) > 1) [mux_access inst (mux_b mul)],
     add_op_access (alu_op add),
     only_if (alu_op mul \<in> {V3D_QPU_M_MULTOP, V3D_QPU_M_UMUL24}) [(Last_Rtop, True)],
     only_if (alu_op add \<noteq> V3D_QPU_A_NOP) (waddr_access (waddr add) (magic_write add)),
     only_if (alu_op mul \<noteq> V3D_QPU_M_NOP) (waddr_access (waddr mul) (magic_write mul)),
     only_if (v3d_qpu_writes_r3 inst) [(Last_R 3, True)],
     only_if (v3d_qpu_writes_r4 inst) [(Last_R 4, True)],
     only_if (v3d_qpu_writes_r5 inst) [(Last_R 5, True)],
     only_if (thrsw (sig inst)) (map (\<lambda>i. (Last_R i, True)) [0..<6] @ [(Last_SF, True), (Last_TLB, True), (Last_TMU_Write, True)]),
     only_if (ldtmu (sig inst)) [(Last_TMU_Write, True)],
     only_if (ldtlb (sig inst) \<or> ldtlbu (sig inst)) [(Last_TLB, False)],
     only_if (ldvpm (sig inst)) [(Last_VPM_Read, True)],
     only_if (qi_uniform q \<noteq> - 1) [(Last_Unif, True)],
     only_if (ac (flags inst) \<noteq> V3D_QPU_COND_NONE) [(Last_SF, False)],
     only_if (mc (flags inst) \<noteq> V3D_QPU_COND_NONE) [(Last_SF, False)],
     only_if (apf (flags inst) \<noteq> V3D_QPU_PF_NONE) [(Last_SF, True)],
     only_if (mpf (flags inst) \<noteq> V3D_QPU_PF_NONE) [(Last_SF, True)],
     only_if (auf (flags inst) \<noteq> V3D_QPU_UF_NONE) [(Last_SF, True)],
     only_if (muf (flags inst) \<noteq> V3D_QPU_UF_NONE) [(Last_SF, True)]])"

definition accesses :: "qinst \<Rightarrow> access list" where
  "accesses q =
     (if instr_type (qi_qpu q) = V3D_QPU_INSTR_TYPE_BRANCH then
        only_if (br_cond (branch (qi_qpu q)) \<noteq> V3D_QPU_BRANCH_COND_ALWAYS) [(Last_SF, False)] @ [(Last_Unif, True)]
      else concat (alu_accesses q))"

text \<open>
  The magic addresses that the analysis knows; the code aborts at the others. No field is accessed after the instruction itself has written
  it: the node would depend on itself, which an assertion excludes.
\<close>

definition waddr_known :: "v3d_qpu_waddr \<Rightarrow> bool \<Rightarrow> bool" where
  "waddr_known w magic \<longleftrightarrow> magic \<longrightarrow> v3d_qpu_magic_waddr_is_tmu w \<or> v3d_qpu_magic_waddr_is_sfu w \<or> v3d_qpu_magic_waddr_is_vpm w \<or>
     v3d_qpu_magic_waddr_is_tlb w \<or>
     w \<in> {V3D_QPU_WADDR_R0, V3D_QPU_WADDR_R1, V3D_QPU_WADDR_R2, V3D_QPU_WADDR_R3, V3D_QPU_WADDR_R4, V3D_QPU_WADDR_R5, V3D_QPU_WADDR_NOP}"

fun once_written :: "access list \<Rightarrow> bool" where
  "once_written [] \<longleftrightarrow> True"
| "once_written ((f, w) # as) \<longleftrightarrow> (w \<longrightarrow> f \<notin> fst ` set as) \<and> once_written as"

definition deps_ok :: "qinst \<Rightarrow> bool" where
  "deps_ok q \<longleftrightarrow>
     (let inst = qi_qpu q in
      (instr_type inst = V3D_QPU_INSTR_TYPE_ALU \<longrightarrow>
        (alu_op (alu_add inst) \<noteq> V3D_QPU_A_NOP \<longrightarrow> waddr_known (waddr (alu_add inst)) (magic_write (alu_add inst))) \<and>
        (alu_op (alu_mul inst) \<noteq> V3D_QPU_M_NOP \<longrightarrow> waddr_known (waddr (alu_mul inst)) (magic_write (alu_mul inst)))) \<and>
      once_written (accesses q) \<and> (\<forall>a\<in>set (accesses q). last_field_ok (fst a)))"

section \<open>The analysis of one instruction\<close>

definition do_access :: "nat \<Rightarrow> access \<Rightarrow> dep_state \<Rightarrow> dep_state run" where
  "do_access n a = (if snd a then add_write_dep (fst a) n else add_read_dep (fst a) n)"

abbreviation do_accesses :: "nat \<Rightarrow> access list \<Rightarrow> dep_state \<Rightarrow> dep_state run" where
  "do_accesses n \<equiv> fold_run (do_access n)"

lemma run_bind_ret [simp]: "bind_run m ret = m"
  by (auto simp: bind_run_def ret_def split: option.splits sum.splits)

lemma do_access_simps: "add_write_dep f n = do_accesses n [(f, True)]" "add_read_dep f n = do_accesses n [(f, False)]" "ret = do_accesses n []"
  by (simp_all add: fun_eq_iff do_access_def) (metis fold_run.simps(1) run_bind_ret ext)+

lemma steps_accesses: "list_all2 (\<lambda>f as. f = do_accesses n as) fs ass \<Longrightarrow> steps fs = do_accesses n (concat ass)"
proof (induction fs ass rule: list_all2_induct)
  case Nil
  then show ?case by (simp add: steps_def fun_eq_iff)
next
  case (Cons f fs as ass)
  then have "fold_run (\<lambda>f. f) fs = do_accesses n (concat ass)" by (simp add: steps_def)
  then have "fold_run (\<lambda>f. f) (f # fs) s = do_accesses n (as @ concat ass) s" for s using Cons.hyps(1) by (simp only: fold_run.simps fold_run_append)
  then show ?case unfolding steps_def concat.simps fun_eq_iff by blast
qed

lemma guarded_accesses: "f = do_accesses n as \<Longrightarrow> guarded b f = do_accesses n (only_if b as)"
  by (simp add: guarded_def only_if_def fun_eq_iff)

lemma process_mux_accesses: "process_mux_deps n inst m = do_accesses n [mux_access inst m]"
  by (cases m) (simp_all add: process_mux_deps_def mux_access_def do_access_simps)

lemma process_waddr_accesses:
  assumes "waddr_known w magic"
  shows "process_waddr_deps n w magic = do_accesses n (waddr_access w magic)"
  using assms by (auto simp: waddr_known_def process_waddr_deps_def waddr_access_def do_access_simps v3d_qpu_magic_waddr_is_tmu_def
      v3d_qpu_magic_waddr_is_sfu_def v3d_qpu_magic_waddr_is_vpm_def v3d_qpu_magic_waddr_is_tlb_def)

lemma add_op_accesses: "add_op_deps n op = do_accesses n (add_op_access op)"
proof -
  have "steps [add_write_dep Last_VPM n, add_write_dep Last_VPM_Read n] = do_accesses n [(Last_VPM, True), (Last_VPM_Read, True)]"
  proof -
    have "list_all2 (\<lambda>f as. f = do_accesses n as) [add_write_dep Last_VPM n, add_write_dep Last_VPM_Read n] [[(Last_VPM, True)], [(Last_VPM_Read, True)]]"
      by (intro list.rel_intros do_access_simps(1))
    from steps_accesses [OF this] show ?thesis by (simp only: concat.simps append.simps)
  qed
  then show ?thesis by (simp add: add_op_deps_def add_op_access_def do_access_simps)
qed

lemma thrsw_accesses:
  "thrsw_deps n = do_accesses n (map (\<lambda>i. (Last_R i, True)) [0..<6] @ [(Last_SF, True), (Last_TLB, True), (Last_TMU_Write, True)])"
proof -
  let ?as = "map (\<lambda>i. (Last_R i, True)) [0..<6] @ [(Last_SF, True), (Last_TLB, True), (Last_TMU_Write, True)]"
  have "steps (map (\<lambda>a. do_accesses n [a]) as) = do_accesses n (concat (map (\<lambda>a. [a]) as))" for as
    by (rule steps_accesses) (simp add: list_all2_conv_all_nth)
  from this [of ?as] show ?thesis by (simp add: thrsw_deps_def do_access_simps comp_def)
qed

lemma alu_deps_accesses:
  assumes "alu_op (add_part q) \<noteq> V3D_QPU_A_NOP \<Longrightarrow> waddr_known (waddr (add_part q)) (magic_write (add_part q))"
    "alu_op (mul_part q) \<noteq> V3D_QPU_M_NOP \<Longrightarrow> waddr_known (waddr (mul_part q)) (magic_write (mul_part q))"
  shows "list_all2 (\<lambda>f as. f = do_accesses n as) (alu_deps n q) (alu_accesses q)"
proof -
  have w: "guarded b (process_waddr_deps n w m) = do_accesses n (only_if b (waddr_access w m))" if "b \<Longrightarrow> waddr_known w m" for b w m
    using that process_waddr_accesses by (auto simp: guarded_def only_if_def fun_eq_iff)
  show ?thesis unfolding alu_deps_def alu_accesses_def Let_def process_cond_deps_def process_pf_deps_def process_uf_deps_def mul_op_deps_def
    by (intro list.rel_intros guarded_accesses process_mux_accesses add_op_accesses thrsw_accesses do_access_simps(1,2) w assms)
qed

lemma calculate_deps_accesses:
  assumes ok: "deps_ok (sn_inst (nodes ! n))" and n: "n < length nodes"
  shows "calculate_deps n (state, nodes) = do_accesses n (accesses (sn_inst (nodes ! n))) (state, nodes)"
proof -
  let ?q = "sn_inst (nodes ! n)"
  let ?inst = "qi_qpu ?q"
  show ?thesis
  proof (cases "instr_type ?inst")
    case V3D_QPU_INSTR_TYPE_BRANCH
    have "steps [guarded (br_cond (branch ?inst) \<noteq> V3D_QPU_BRANCH_COND_ALWAYS) (add_read_dep Last_SF n), add_write_dep Last_Unif n] =
        do_accesses n (concat [only_if (br_cond (branch ?inst) \<noteq> V3D_QPU_BRANCH_COND_ALWAYS) [(Last_SF, False)], [(Last_Unif, True)]])"
      by (intro steps_accesses list_all2_Cons [THEN iffD2] conjI guarded_accesses do_access_simps list.rel_intros)
    then show ?thesis using n V3D_QPU_INSTR_TYPE_BRANCH by (simp add: calculate_deps_def accesses_def Let_def)
  next
    case V3D_QPU_INSTR_TYPE_ALU
    have "list_all2 (\<lambda>f as. f = do_accesses n as) (alu_deps n ?q) (alu_accesses ?q)"
      using ok V3D_QPU_INSTR_TYPE_ALU unfolding deps_ok_def Let_def by (intro alu_deps_accesses) auto
    then show ?thesis using n V3D_QPU_INSTR_TYPE_ALU steps_accesses by (simp add: calculate_deps_def accesses_def Let_def)
  qed
qed

end
