(* ===== verification/Sched_Graph.thy ===== *)
theory Sched_Graph
  imports Sched_Access
begin

text \<open>
  The graph of dependencies that the two passes over a block build: its edges lead forward, and every two instructions of which one
  writes what the other accesses are connected in order.
\<close>

section \<open>Graphs\<close>

text \<open>The children of a node, each with whether it only waits for a read. An entry in \<open>P\<close> is one that was released.\<close>

type_synonym node_edges = "nat \<Rightarrow> (nat \<times> bool) list"

definition children_of :: "(nat \<times> nat) set \<Rightarrow> nat \<Rightarrow> (nat \<times> bool) list \<Rightarrow> schedule_node_child list" where
  "children_of P i l = map (\<lambda>k. \<lparr>ch_node = (if (i, k) \<in> P then None else Some (fst (l ! k))), write_after_read = snd (l ! k)\<rparr>) [0..<length l]"

definition into :: "nat \<Rightarrow> node_edges \<Rightarrow> (nat \<times> nat) set \<Rightarrow> nat \<Rightarrow> (nat \<times> nat) set" where
  "into n ent P j = {(i, k). i < n \<and> k < length (ent i) \<and> fst (ent i ! k) = j \<and> (i, k) \<notin> P}"

definition graph :: "nat \<Rightarrow> node_edges \<Rightarrow> (nat \<times> nat) set \<Rightarrow> schedule_node list \<Rightarrow> bool" where
  "graph n ent P nodes \<longleftrightarrow> length nodes = n \<and>
     (\<forall>i < n. children (nodes ! i) = children_of P i (ent i) \<and> parent_count (nodes ! i) = of_nat (card (into n ent P i)))"

definition dag_ok :: "nat \<Rightarrow> node_edges \<Rightarrow> bool" where
  "dag_ok n ent \<longleftrightarrow> (\<forall>i < n. distinct (ent i) \<and> (\<forall>(j, w)\<in>set (ent i). i < j \<and> j < n))"

lemma graphD:
  assumes "graph n ent P nodes"
  shows "length nodes = n" "i < n \<Longrightarrow> children (nodes ! i) = children_of P i (ent i)" "i < n \<Longrightarrow> parent_count (nodes ! i) = of_nat (card (into n ent P i))"
  using assms by (auto simp: graph_def)

lemma dag_okD:
  assumes "dag_ok n ent" "i < n"
  shows "distinct (ent i)" "(j, w) \<in> set (ent i) \<Longrightarrow> i < j" "(j, w) \<in> set (ent i) \<Longrightarrow> j < n"
  using assms by (auto simp: dag_ok_def)

lemma finite_into [simp]: "finite (into n ent P j)"
  by (rule finite_subset [of _ "Sigma {..<n} (\<lambda>i. {..<length (ent i)})"]) (auto simp: into_def)

lemma length_children_of [simp]: "length (children_of P i l) = length l"
  by (simp add: children_of_def)

lemma children_of_nth: "k < length l \<Longrightarrow> children_of P i l ! k = \<lparr>ch_node = (if (i, k) \<in> P then None else Some (fst (l ! k))), write_after_read = snd (l ! k)\<rparr>"
  by (simp add: children_of_def)

lemma children_of_new: "children_of {} i l = map (\<lambda>(j, w). \<lparr>ch_node = Some j, write_after_read = w\<rparr>) l"
  by (rule nth_equalityI) (simp_all add: children_of_nth split_beta)

definition kept :: "schedule_node list \<Rightarrow> schedule_node list \<Rightarrow> bool" where
  "kept nodes nodes' \<longleftrightarrow> map sn_inst nodes' = map sn_inst nodes"

lemma kept_refl [simp]: "kept nodes nodes" and kept_trans: "kept nodes nodes' \<Longrightarrow> kept nodes' nodes'' \<Longrightarrow> kept nodes nodes''"
  by (simp_all add: kept_def)

lemma keptD: "kept nodes nodes' \<Longrightarrow> length nodes' = length nodes" "kept nodes nodes' \<Longrightarrow> i < length nodes \<Longrightarrow> sn_inst (nodes' ! i) = sn_inst (nodes ! i)"
proof -
  show l: "length nodes' = length nodes" if "kept nodes nodes'" using that unfolding kept_def by (rule map_eq_imp_length_eq)
  show "sn_inst (nodes' ! i) = sn_inst (nodes ! i)" if "kept nodes nodes'" "i < length nodes" using that l [OF that(1)] unfolding kept_def by (metis nth_map)
qed

section \<open>Adding an edge\<close>

definition add_edge :: "node_edges \<Rightarrow> nat \<Rightarrow> nat \<Rightarrow> bool \<Rightarrow> node_edges" where
  "add_edge ent a b w = (if (b, w) \<in> set (ent a) then ent else ent(a := ent a @ [(b, w)]))"

lemma add_edge_mono: "set (ent i) \<subseteq> set (add_edge ent a b w i)" "(b, w) \<in> set (add_edge ent a b w a)"
  by (auto simp: add_edge_def)

lemma add_edge_dag: "dag_ok n ent \<Longrightarrow> a < b \<Longrightarrow> b < n \<Longrightarrow> dag_ok n (add_edge ent a b w)"
  by (auto simp: dag_ok_def add_edge_def)

lemma into_append:
  assumes "a < n" "P = {}"
  shows "into n (ent(a := ent a @ [(b, w)])) P j = (if j = b then insert (a, length (ent a)) (into n ent P j) else into n ent P j)"
  using assms by (auto simp: into_def nth_append split: if_splits)

lemma add_dep_ok:
  assumes g: "graph n ent {} nodes" and d: "dag_ok n ent" and ab: "(a, b) = (if dir st = R then (j, p) else (p, j))" "a < b" "b < n"
    and w: "war = (\<not> w \<and> dir st = R)"
  shows "\<exists>nodes'. add_dep st (Some p) j w nodes = ret nodes' \<and> graph n (add_edge ent a b war) {} nodes' \<and> kept nodes nodes'"
proof -
  note G = graphD [OF g]
  have a: "a < n" and ne: "p \<noteq> j" using ab by (auto split: if_splits)
  have ch: "children (nodes ! a) = map (\<lambda>(j, w). \<lparr>ch_node = Some j, write_after_read = w\<rparr>) (ent a)" using G(2) [OF a] by (simp add: children_of_new)
  have ex: "(\<exists>ch\<in>set (children (nodes ! a)). ch_node ch = Some b \<and> write_after_read ch = war) \<longleftrightarrow> (b, war) \<in> set (ent a)"
    unfolding ch by (force intro: bexI [of _ "(b, war)"])
  show ?thesis
  proof (cases "(b, war) \<in> set (ent a)")
    case True
    then have "add_dep st (Some p) j w nodes = ret nodes" using ne ex ab(1) w a G(1) by (auto simp: add_dep_def Let_def split: if_splits)
    then show ?thesis using g True by (auto simp: add_edge_def)
  next
    case False
    let ?n1 = "nodes[a := (nodes ! a)\<lparr>children := children (nodes ! a) @ [\<lparr>ch_node = Some b, write_after_read = war\<rparr>]\<rparr>]"
    let ?n2 = "?n1[b := (nodes ! b)\<lparr>parent_count := parent_count (nodes ! b) + 1\<rparr>]"
    have "add_dep st (Some p) j w nodes = ret ?n2"
      using ne ex ab w a G(1) False by (auto simp: add_dep_def Let_def update_at_def split: if_splits)
    moreover have "graph n (add_edge ent a b war) {} ?n2"
    proof -
      let ?e = "ent(a := ent a @ [(b, war)])"
      have "children (?n2 ! i) = children_of {} i (?e i)" if "i < n" for i
        using that G(1) G(2) [OF that] ab(2,3) by (auto simp: nth_list_update children_of_new)
      moreover have "parent_count (?n2 ! i) = of_nat (card (into n ?e {} i))" if "i < n" for i
      proof -
        have "(a, length (ent a)) \<notin> into n ent {} i" by (simp add: into_def)
        then show ?thesis using that G(1) G(3) [OF that] ab(2,3) into_append [OF a refl, of ent b war i] by (auto simp: nth_list_update add.commute)
      qed
      ultimately show ?thesis using G(1) False by (simp add: graph_def add_edge_def)
    qed
    moreover have "kept nodes ?n2" using ab(2,3) a G(1) unfolding kept_def by (auto intro!: nth_equalityI simp: nth_list_update)
    ultimately show ?thesis by blast
  qed
qed

section \<open>One instruction\<close>

text \<open>
  The edges of a node \<open>j\<close> to the nodes \<open>seen f\<close> that were seen last for the fields it accesses.
\<close>

definition edge_of :: "direction \<Rightarrow> nat \<Rightarrow> nat \<Rightarrow> bool \<Rightarrow> nat \<times> nat \<times> bool" where
  "edge_of d p j w = (if d = R then (j, p, \<not> w) else (p, j, False))"

definition has_edge :: "node_edges \<Rightarrow> nat \<times> nat \<times> bool \<Rightarrow> bool" where
  "has_edge ent e = (case e of (a, b, w) \<Rightarrow> (b, w) \<in> set (ent a))"

definition grows :: "node_edges \<Rightarrow> node_edges \<Rightarrow> bool" where
  "grows ent ent' \<longleftrightarrow> (\<forall>i. set (ent i) \<subseteq> set (ent' i))"

lemma grows_refl [simp]: "grows ent ent" and grows_trans: "grows e1 e2 \<Longrightarrow> grows e2 e3 \<Longrightarrow> grows e1 e3"
  and grows_edge: "grows e1 e2 \<Longrightarrow> has_edge e1 e \<Longrightarrow> has_edge e2 e"
  by (auto simp: grows_def has_edge_def)

definition sided :: "direction \<Rightarrow> nat \<Rightarrow> (last_field \<Rightarrow> nat option) \<Rightarrow> nat \<Rightarrow> bool" where
  "sided d n seen j \<longleftrightarrow> (\<forall>f p. seen f = Some p \<longrightarrow> p < n \<and> (if d = R then j < p else p < j))"

lemma do_access_ok:
  assumes g: "graph n ent {} nodes" and d: "dag_ok n ent" and s: "last_field_ok (fst a)" "last_of st (fst a) = seen (fst a)" "sided (dir st) n seen j" "j < n"
  shows "\<exists>nodes' ent'. do_access j a (st, nodes) = ret (if snd a then st\<lparr>last_of := (last_of st)(fst a := Some j)\<rparr> else st, nodes') \<and>
    graph n ent' {} nodes' \<and> dag_ok n ent' \<and> kept nodes nodes' \<and> grows ent ent' \<and> (\<forall>p. seen (fst a) = Some p \<longrightarrow> has_edge ent' (edge_of (dir st) p j (snd a)))"
proof (cases "seen (fst a)")
  case None
  then have "do_access j a (st, nodes) = ret (if snd a then st\<lparr>last_of := (last_of st)(fst a := Some j)\<rparr> else st, nodes)"
    using s(1,2) by (simp add: do_access_def add_write_dep_def add_read_dep_def last_node_def add_dep_def)
  then show ?thesis using g d None by (intro exI [of _ nodes] exI [of _ ent]) simp
next
  case (Some p)
  define x y where "x = (if dir st = R then j else p)" and "y = (if dir st = R then p else j)"
  have xy: "(x, y) = (if dir st = R then (j, p) else (p, j))" "x < y" "y < n"
    using s(3,4) Some by (auto simp: x_def y_def sided_def split: if_splits)
  obtain nodes' where n': "add_dep st (Some p) j (snd a) nodes = ret nodes'" "graph n (add_edge ent x y (\<not> snd a \<and> dir st = R)) {} nodes'" "kept nodes nodes'"
    using add_dep_ok [OF g d xy refl] by blast
  have "do_access j a (st, nodes) = ret (if snd a then st\<lparr>last_of := (last_of st)(fst a := Some j)\<rparr> else st, nodes')"
    using s(1,2) Some n'(1) by (cases "snd a") (simp_all add: do_access_def add_write_dep_def add_read_dep_def last_node_def)
  moreover have "grows ent (add_edge ent x y (\<not> snd a \<and> dir st = R))" using add_edge_mono(1) by (auto simp: grows_def)
  moreover have "has_edge (add_edge ent x y (\<not> snd a \<and> dir st = R)) (edge_of (dir st) p j (snd a))"
    using add_edge_mono(2) [of y "\<not> snd a \<and> dir st = R" ent x] by (auto simp: has_edge_def edge_of_def x_def y_def)
  ultimately show ?thesis using n'(2,3) add_edge_dag [OF d xy(2,3)] Some
    by (intro exI [of _ nodes'] exI [of _ "add_edge ent x y (\<not> snd a \<and> dir st = R)"]) simp
qed

lemma do_accesses_ok:
  assumes "graph n ent {} nodes" "dag_ok n ent" "once_written as" "\<forall>a\<in>set as. last_field_ok (fst a)" "\<forall>a\<in>set as. last_of st (fst a) = seen (fst a)"
    "sided (dir st) n seen j" "j < n"
  shows "\<exists>nodes' ent' st'. do_accesses j as (st, nodes) = ret (st', nodes') \<and> dir st' = dir st \<and>
    last_of st' = (\<lambda>f. if (f, True) \<in> set as then Some j else last_of st f) \<and> graph n ent' {} nodes' \<and> dag_ok n ent' \<and> kept nodes nodes' \<and> grows ent ent' \<and>
    (\<forall>f w p. (f, w) \<in> set as \<longrightarrow> seen f = Some p \<longrightarrow> has_edge ent' (edge_of (dir st) p j w))"
  using assms
proof (induction as arbitrary: st nodes ent)
  case Nil
  then show ?case by auto
next
  case (Cons a as)
  obtain f w where a: "a = (f, w)" by force
  have s: "last_field_ok (fst a)" "last_of st (fst a) = seen (fst a)" using Cons.prems by auto
  let ?st = "if w then st\<lparr>last_of := (last_of st)(f := Some j)\<rparr> else st"
  obtain n1 e1 where 1: "do_access j a (st, nodes) = ret (?st, n1)" "graph n e1 {} n1" "dag_ok n e1" "kept nodes n1" "grows ent e1"
    "\<forall>p. seen f = Some p \<longrightarrow> has_edge e1 (edge_of (dir st) p j w)"
    using do_access_ok [OF Cons.prems(1,2) s Cons.prems(6,7)] unfolding a fst_conv snd_conv by blast
  have once: "once_written as" "w \<Longrightarrow> f \<notin> fst ` set as" using Cons.prems(3) by (auto simp: a)
  have l: "\<forall>a\<in>set as. last_of ?st (fst a) = seen (fst a)" using Cons.prems(5) once(2) by (auto simp: image_iff)
  have dir: "dir ?st = dir st" by simp
  obtain n2 e2 st2 where 2: "do_accesses j as (?st, n1) = ret (st2, n2)" "dir st2 = dir ?st" "last_of st2 = (\<lambda>f. if (f, True) \<in> set as then Some j else last_of ?st f)"
    "graph n e2 {} n2" "dag_ok n e2" "kept n1 n2" "grows e1 e2" "\<forall>f w p. (f, w) \<in> set as \<longrightarrow> seen f = Some p \<longrightarrow> has_edge e2 (edge_of (dir ?st) p j w)"
    using Cons.IH [OF 1(2,3) once(1) _ l] Cons.prems(4,6,7) dir by auto
  have "do_accesses j (a # as) (st, nodes) = ret (st2, n2)" using 1(1) 2(1) by simp
  moreover have "last_of st2 = (\<lambda>f'. if (f', True) \<in> set (a # as) then Some j else last_of st f')" unfolding 2(3) a by (auto simp: fun_eq_iff)
  moreover have "\<forall>f w p. (f, w) \<in> set (a # as) \<longrightarrow> seen f = Some p \<longrightarrow> has_edge e2 (edge_of (dir st) p j w)"
    using 2(8) 1(6) grows_edge [OF 2(7)] unfolding a dir by auto
  moreover have "dir st2 = dir st" using 2(2) dir by simp
  ultimately show ?case using 2(4,5) kept_trans [OF 1(4) 2(6)] grows_trans [OF 1(5) 2(7)] by blast
qed

section \<open>The two passes\<close>

text \<open>The last writer of a field among the first \<open>j\<close> nodes, and the first writer among the last \<open>d\<close> of \<open>n\<close> nodes.\<close>

primrec last_writer :: "(nat \<Rightarrow> access list) \<Rightarrow> nat \<Rightarrow> last_field \<Rightarrow> nat option" where
  "last_writer acc 0 f = None"
| "last_writer acc (Suc j) f = (if (f, True) \<in> set (acc j) then Some j else last_writer acc j f)"

primrec next_writer :: "(nat \<Rightarrow> access list) \<Rightarrow> nat \<Rightarrow> nat \<Rightarrow> last_field \<Rightarrow> nat option" where
  "next_writer acc n 0 f = None"
| "next_writer acc n (Suc d) f = (if (f, True) \<in> set (acc (n - Suc d)) then Some (n - Suc d) else next_writer acc n d f)"

lemma last_writerD: "last_writer acc j f = Some i \<Longrightarrow> i < j \<and> (f, True) \<in> set (acc i)"
  by (induction j) (auto split: if_splits)

lemma last_writer_ex: "i < j \<Longrightarrow> (f, True) \<in> set (acc i) \<Longrightarrow> \<exists>k. last_writer acc j f = Some k \<and> i \<le> k"
  by (induction j) (auto simp: less_Suc_eq)

lemma next_writerD: "next_writer acc n d f = Some i \<Longrightarrow> d \<le> n \<Longrightarrow> n - d \<le> i \<and> i < n \<and> (f, True) \<in> set (acc i)"
  by (induction d) (auto split: if_splits)

lemma next_writer_ex: "d \<le> n \<Longrightarrow> n - d \<le> i \<Longrightarrow> i < n \<Longrightarrow> (f, True) \<in> set (acc i) \<Longrightarrow> \<exists>k. next_writer acc n d f = Some k \<and> k \<le> i"
proof (induction d)
  case (Suc d)
  show ?case
  proof (cases "i = n - Suc d")
    case False
    then have "n - d \<le> i" "d \<le> n" using Suc.prems by auto
    then obtain k where "next_writer acc n d f = Some k" "k \<le> i" using Suc by blast
    then show ?thesis using Suc.prems(2) by auto
  qed (use Suc.prems in auto)
qed auto

text \<open>The edges that the two passes have to make for the nodes they have seen.\<close>

definition fwd_edges :: "(nat \<Rightarrow> access list) \<Rightarrow> node_edges \<Rightarrow> nat \<Rightarrow> bool" where
  "fwd_edges acc ent k \<longleftrightarrow> (\<forall>j < k. \<forall>f w p. (f, w) \<in> set (acc j) \<longrightarrow> last_writer acc j f = Some p \<longrightarrow> (j, False) \<in> set (ent p))"

definition rev_edges :: "(nat \<Rightarrow> access list) \<Rightarrow> nat \<Rightarrow> node_edges \<Rightarrow> nat \<Rightarrow> bool" where
  "rev_edges acc n ent k \<longleftrightarrow>
     (\<forall>d < k. \<forall>f w p. (f, w) \<in> set (acc (n - Suc d)) \<longrightarrow> next_writer acc n d f = Some p \<longrightarrow> (p, \<not> w) \<in> set (ent (n - Suc d)))"

lemma fwd_edgesD: "fwd_edges acc ent k \<Longrightarrow> j < k \<Longrightarrow> (f, w) \<in> set (acc j) \<Longrightarrow> last_writer acc j f = Some p \<Longrightarrow> (j, False) \<in> set (ent p)"
  unfolding fwd_edges_def by blast

lemma rev_edgesD:
  "rev_edges acc n ent k \<Longrightarrow> d < k \<Longrightarrow> (f, w) \<in> set (acc (n - Suc d)) \<Longrightarrow> next_writer acc n d f = Some p \<Longrightarrow> (p, \<not> w) \<in> set (ent (n - Suc d))"
  unfolding rev_edges_def by blast

lemma edges_grow: "fwd_edges acc e1 k \<Longrightarrow> grows e1 e2 \<Longrightarrow> fwd_edges acc e2 k" "rev_edges acc n e1 k \<Longrightarrow> grows e1 e2 \<Longrightarrow> rev_edges acc n e2 k"
  unfolding fwd_edges_def rev_edges_def grows_def by (meson subsetD)+

text \<open>One node in a pass: \<open>seen\<close> is what the pass has seen before.\<close>

lemma calculate_deps_ok:
  assumes g: "graph n ent {} nodes" and d: "dag_ok n ent" and ok: "deps_ok (sn_inst (nodes ! j))" and s: "sided (dir st) n (last_of st) j" "j < n"
  shows "\<exists>nodes' ent' st'. calculate_deps j (st, nodes) = ret (st', nodes') \<and> dir st' = dir st \<and>
    last_of st' = (\<lambda>f. if (f, True) \<in> set (accesses (sn_inst (nodes ! j))) then Some j else last_of st f) \<and>
    graph n ent' {} nodes' \<and> dag_ok n ent' \<and> kept nodes nodes' \<and> grows ent ent' \<and>
    (\<forall>f w p. (f, w) \<in> set (accesses (sn_inst (nodes ! j))) \<longrightarrow> last_of st f = Some p \<longrightarrow> has_edge ent' (edge_of (dir st) p j w))"
proof -
  have o: "once_written (accesses (sn_inst (nodes ! j)))" "\<forall>a\<in>set (accesses (sn_inst (nodes ! j))). last_field_ok (fst a)"
    using ok by (simp_all add: deps_ok_def Let_def)
  have jl: "j < length nodes" using graphD(1) [OF g] s(2) by simp
  show ?thesis unfolding calculate_deps_accesses [OF ok jl] by (rule do_accesses_ok [OF g d o _ s]) simp
qed

lemma forward_ok:
  assumes g: "graph n ent {} nodes" and d: "dag_ok n ent" and ok: "\<forall>j < n. deps_ok (sn_inst (nodes ! j))" and acc: "\<And>j. j < n \<Longrightarrow> acc j = accesses (sn_inst (nodes ! j))"
    and k: "k \<le> n"
  shows "\<exists>nodes' ent' st'. fold_run calculate_deps [0..<k] (\<lparr>last_of = (\<lambda>_. None), dir = F\<rparr>, nodes) = ret (st', nodes') \<and> dir st' = F \<and> last_of st' = last_writer acc k \<and>
    graph n ent' {} nodes' \<and> dag_ok n ent' \<and> kept nodes nodes' \<and> grows ent ent' \<and>
    fwd_edges acc ent' k"
  using k
proof (induction k)
  case 0
  have "last_writer acc 0 = (\<lambda>_. None)" by (simp add: fun_eq_iff)
  then show ?case using g d by (intro exI [of _ nodes] exI [of _ ent] exI [of _ "\<lparr>last_of = \<lambda>_. None, dir = F\<rparr>"]) (simp add: fwd_edges_def)
next
  case (Suc k)
  then obtain n1 e1 s1 where 1: "fold_run calculate_deps [0..<k] (\<lparr>last_of = (\<lambda>_. None), dir = F\<rparr>, nodes) = ret (s1, n1)" "dir s1 = F" "last_of s1 = last_writer acc k"
    "graph n e1 {} n1" "dag_ok n e1" "kept nodes n1" "grows ent e1"
    "fwd_edges acc e1 k" by (meson Suc_leD)
  have kn: "k < n" using Suc.prems by simp
  have q: "sn_inst (n1 ! k) = sn_inst (nodes ! k)" using keptD(2) [OF 1(6)] kn graphD(1) [OF g] by simp
  have sd: "sided (dir s1) n (last_of s1) k" unfolding 1(2,3) sided_def using last_writerD kn by fastforce
  obtain n2 e2 s2 where 2: "calculate_deps k (s1, n1) = ret (s2, n2)" "dir s2 = dir s1" "last_of s2 = (\<lambda>f. if (f, True) \<in> set (acc k) then Some k else last_of s1 f)"
    "graph n e2 {} n2" "dag_ok n e2" "kept n1 n2" "grows e1 e2" "\<forall>f w p. (f, w) \<in> set (acc k) \<longrightarrow> last_of s1 f = Some p \<longrightarrow> has_edge e2 (edge_of (dir s1) p k w)"
    using calculate_deps_ok [OF 1(4,5) _ sd kn] ok kn unfolding q acc [OF kn] by auto
  have "fold_run calculate_deps [0..<Suc k] (\<lparr>last_of = (\<lambda>_. None), dir = F\<rparr>, nodes) = ret (s2, n2)" using 1(1) 2(1) by (simp add: fold_run_append)
  moreover have "last_of s2 = last_writer acc (Suc k)" unfolding 2(3) 1(3) by (simp add: fun_eq_iff)
  moreover have "fwd_edges acc e2 (Suc k)"
    using edges_grow(1) [OF 1(8) 2(7)] 2(8) unfolding 1(2,3) by (auto simp: fwd_edges_def less_Suc_eq edge_of_def has_edge_def)
  ultimately show ?case using 1(2) 2(2,4,5) kept_trans [OF 1(6) 2(6)] grows_trans [OF 1(7) 2(7)] by auto
qed

lemma reverse_ok:
  assumes g: "graph n ent {} nodes" and d: "dag_ok n ent" and ok: "\<forall>j < n. deps_ok (sn_inst (nodes ! j))" and acc: "\<And>j. j < n \<Longrightarrow> acc j = accesses (sn_inst (nodes ! j))"
    and k: "k \<le> n"
  shows "\<exists>nodes' ent' st'. fold_run calculate_deps (rev [n - k..<n]) (\<lparr>last_of = (\<lambda>_. None), dir = R\<rparr>, nodes) = ret (st', nodes') \<and> dir st' = R \<and> last_of st' = next_writer acc n k \<and>
    graph n ent' {} nodes' \<and> dag_ok n ent' \<and> kept nodes nodes' \<and> grows ent ent' \<and>
    rev_edges acc n ent' k"
  using k
proof (induction k)
  case 0
  have "next_writer acc n 0 = (\<lambda>_. None)" by (simp add: fun_eq_iff)
  then show ?case using g d by (intro exI [of _ nodes] exI [of _ ent] exI [of _ "\<lparr>last_of = \<lambda>_. None, dir = R\<rparr>"]) (simp add: rev_edges_def)
next
  case (Suc k)
  then obtain n1 e1 s1 where 1: "fold_run calculate_deps (rev [n - k..<n]) (\<lparr>last_of = (\<lambda>_. None), dir = R\<rparr>, nodes) = ret (s1, n1)" "dir s1 = R" "last_of s1 = next_writer acc n k"
    "graph n e1 {} n1" "dag_ok n e1" "kept nodes n1" "grows ent e1"
    "rev_edges acc n e1 k" by (meson Suc_leD)
  let ?j = "n - Suc k"
  have kn: "?j < n" "n - k = Suc ?j" using Suc.prems by auto
  have q: "sn_inst (n1 ! ?j) = sn_inst (nodes ! ?j)" using keptD(2) [OF 1(6)] kn(1) graphD(1) [OF g] by simp
  have sd: "sided (dir s1) n (last_of s1) ?j" unfolding 1(2,3) sided_def using next_writerD [of acc n k] Suc.prems kn by fastforce
  obtain n2 e2 s2 where 2: "calculate_deps ?j (s1, n1) = ret (s2, n2)" "dir s2 = dir s1" "last_of s2 = (\<lambda>f. if (f, True) \<in> set (acc ?j) then Some ?j else last_of s1 f)"
    "graph n e2 {} n2" "dag_ok n e2" "kept n1 n2" "grows e1 e2" "\<forall>f w p. (f, w) \<in> set (acc ?j) \<longrightarrow> last_of s1 f = Some p \<longrightarrow> has_edge e2 (edge_of (dir s1) p ?j w)"
    using calculate_deps_ok [OF 1(4,5) _ sd kn(1)] ok kn(1) unfolding q acc [OF kn(1)] by auto
  have "rev [?j..<n] = rev [n - k..<n] @ [?j]" using upt_conv_Cons [OF kn(1)] kn(2) by simp
  then have "fold_run calculate_deps (rev [?j..<n]) (\<lparr>last_of = (\<lambda>_. None), dir = R\<rparr>, nodes) = ret (s2, n2)" using 1(1) 2(1) by (simp add: fold_run_append)
  moreover have "last_of s2 = next_writer acc n (Suc k)" unfolding 2(3) 1(3) by (simp add: fun_eq_iff)
  moreover have "rev_edges acc n e2 (Suc k)"
    using edges_grow(2) [OF 1(8) 2(7)] 2(8) unfolding 1(2,3) by (auto simp: rev_edges_def less_Suc_eq edge_of_def has_edge_def)
  ultimately show ?case using 1(2) 2(2,4,5) kept_trans [OF 1(6) 2(6)] grows_trans [OF 1(7) 2(7)] by auto
qed

section \<open>Dependencies\<close>

text \<open>
  Node \<open>i\<close> writes what the later node \<open>j\<close> accesses; node \<open>i\<close> reads what the later node \<open>j\<close> writes. The
  order of the program has to be kept in the first case; in the second case the two may also be executed at once.
\<close>

definition depends :: "(nat \<Rightarrow> access list) \<Rightarrow> nat \<Rightarrow> nat \<Rightarrow> bool" where
  "depends acc i j \<longleftrightarrow> i < j \<and> (\<exists>f w. (f, True) \<in> set (acc i) \<and> (f, w) \<in> set (acc j))"

definition read_before :: "(nat \<Rightarrow> access list) \<Rightarrow> nat \<Rightarrow> nat \<Rightarrow> bool" where
  "read_before acc i j \<longleftrightarrow> i < j \<and> (\<exists>f. (f, False) \<in> set (acc i) \<and> (f, True) \<in> set (acc j))"

definition keeps_order :: "nat \<Rightarrow> node_edges \<Rightarrow> (nat \<Rightarrow> nat) \<Rightarrow> bool" where
  "keeps_order n ent pos \<longleftrightarrow> (\<forall>i < n. \<forall>j w. (j, w) \<in> set (ent i) \<longrightarrow> pos i \<le> pos j \<and> (\<not> w \<longrightarrow> pos i < pos j))"

lemma keeps_orderD: "keeps_order n ent pos \<Longrightarrow> i < n \<Longrightarrow> (j, w) \<in> set (ent i) \<Longrightarrow> pos i \<le> pos j \<and> (\<not> w \<longrightarrow> pos i < pos j)"
  unfolding keeps_order_def by blast

lemma order_depends:
  assumes r: "keeps_order n ent pos" and e: "fwd_edges acc ent n"
  shows "j < n \<Longrightarrow> depends acc i j \<Longrightarrow> pos i < pos j"
proof (induction j rule: less_induct)
  case (less j)
  then obtain f w where f: "i < j" "(f, True) \<in> set (acc i)" "(f, w) \<in> set (acc j)" unfolding depends_def by blast
  obtain k where k: "last_writer acc j f = Some k" "i \<le> k" using last_writer_ex [of i j f acc] f(1,2) by blast
  note kj = last_writerD [OF k(1)]
  have "(j, False) \<in> set (ent k)" by (rule fwd_edgesD [OF e less.prems(1) f(3) k(1)])
  then have p: "pos k < pos j" using keeps_orderD [OF r, of k j False] kj less.prems(1) by simp
  show ?case
  proof (cases "k = i")
    case False
    then have "depends acc i k" using f(2) k(2) kj unfolding depends_def by (intro conjI exI [of _ f] exI [of _ True]) auto
    then show ?thesis using less.IH [of k] kj less.prems(1) p by simp
  qed (use p in simp)
qed

lemma order_read_before:
  assumes r: "keeps_order n ent pos" and e: "fwd_edges acc ent n"
    and e': "rev_edges acc n ent n"
    and j: "j < n" and b: "read_before acc i j"
  shows "pos i \<le> pos j"
proof -
  obtain f where f: "i < j" "(f, False) \<in> set (acc i)" "(f, True) \<in> set (acc j)" using b unfolding read_before_def by blast
  define d where "d = n - Suc i"
  have d: "d < n" "n - Suc d = i" "n - d \<le> j" using f(1) j by (auto simp: d_def)
  obtain k where k: "next_writer acc n d f = Some k" "k \<le> j" using next_writer_ex [of d n j f acc] d j f(3) by auto
  have kd: "n - d \<le> k" "(f, True) \<in> set (acc k)" using next_writerD [OF k(1)] d(1) by auto
  have "(k, True) \<in> set (ent i)" using rev_edgesD [OF e' d(1), of f False k] f(2) k(1) d(2) by simp
  then have ik: "pos i \<le> pos k" using keeps_orderD [OF r, of i k True] f(1) j by simp
  show ?thesis
  proof (cases "k = j")
    case False
    then have "depends acc k j" using k(2) kd(2) f(3) unfolding depends_def by auto
    then show ?thesis using order_depends [OF r e j] ik by fastforce
  qed (use ik in simp)
qed

text \<open>The graph of a block.\<close>

lemma block_graph:
  assumes ok: "\<forall>q\<in>set qs. deps_ok q"
  shows "\<exists>nodes1 nodes2 ent. calculate_forward_deps (map new_node qs) = ret nodes1 \<and> calculate_reverse_deps nodes1 = ret nodes2 \<and>
    graph (length qs) ent {} nodes2 \<and> dag_ok (length qs) ent \<and> map sn_inst nodes2 = qs \<and>
    (\<forall>pos i j. keeps_order (length qs) ent pos \<longrightarrow> j < length qs \<longrightarrow>
       (depends (\<lambda>j. accesses (qs ! j)) i j \<longrightarrow> pos i < pos j) \<and> (read_before (\<lambda>j. accesses (qs ! j)) i j \<longrightarrow> pos i \<le> pos j))"
proof -
  let ?n = "length qs" and ?nodes = "map new_node qs" and ?acc = "\<lambda>j. accesses (qs ! j)"
  have g0: "graph ?n (\<lambda>_. []) {} ?nodes" by (simp add: graph_def children_of_def into_def new_node_def)
  have d0: "dag_ok ?n (\<lambda>_. [])" by (simp add: dag_ok_def)
  have q0: "sn_inst (?nodes ! j) = qs ! j" if "j < ?n" for j using that by (simp add: new_node_def)
  have ok0: "\<forall>j < ?n. deps_ok (sn_inst (?nodes ! j))" using ok q0 by simp
  have acc0: "?acc j = accesses (sn_inst (?nodes ! j))" if "j < ?n" for j using that q0 by simp
  obtain n1 e1 s1 where 1: "fold_run calculate_deps [0..<?n] (\<lparr>last_of = (\<lambda>_. None), dir = F\<rparr>, ?nodes) = ret (s1, n1)" "graph ?n e1 {} n1" "dag_ok ?n e1" "kept ?nodes n1"
    "fwd_edges ?acc e1 ?n"
    using forward_ok [OF g0 d0 ok0 acc0 order_refl] by blast
  have q1: "sn_inst (n1 ! j) = qs ! j" if "j < ?n" for j using keptD(2) [OF 1(4)] q0 that by simp
  have ok1: "\<forall>j < ?n. deps_ok (sn_inst (n1 ! j))" using ok q1 by simp
  have acc1: "?acc j = accesses (sn_inst (n1 ! j))" if "j < ?n" for j using that q1 by simp
  obtain n2 e2 s2 where 2: "fold_run calculate_deps (rev [0..<?n]) (\<lparr>last_of = (\<lambda>_. None), dir = R\<rparr>, n1) = ret (s2, n2)" "graph ?n e2 {} n2" "dag_ok ?n e2" "kept n1 n2" "grows e1 e2"
    "rev_edges ?acc ?n e2 ?n"
    using reverse_ok [OF 1(2,3) ok1 acc1 order_refl] unfolding diff_self_eq_0 by blast
  have e: "fwd_edges ?acc e2 ?n"
    by (rule edges_grow(1) [OF 1(5) 2(5)])
  have "calculate_forward_deps ?nodes = ret n1" "calculate_reverse_deps n1 = ret n2"
    using 1(1) 2(1) graphD(1) [OF 1(2)] by (simp_all add: calculate_forward_deps_def calculate_reverse_deps_def)
  moreover have "map sn_inst n2 = qs" using kept_trans [OF 1(4) 2(4)] by (simp add: kept_def new_node_def comp_def)
  ultimately show ?thesis using 2(2,3) order_depends [OF _ e] order_read_before [OF _ e 2(6)] by blast
qed

end
