(* ===== verification/Sched_Ready.thy ===== *)
theory Sched_Ready
  imports Sched_Graph
begin

text \<open>
  The list of nodes that are ready: the nodes that were not taken and that wait for no entry of the graph. Scheduling a node releases its entries.
\<close>

section \<open>Delays\<close>

lemma graph_cong:
  assumes "graph n ent P nodes" "length nodes' = length nodes"
    "\<And>i. i < n \<Longrightarrow> children (nodes' ! i) = children (nodes ! i) \<and> parent_count (nodes' ! i) = parent_count (nodes ! i)"
  shows "graph n ent P nodes'"
  using assms by (simp add: graph_def)

lemma set_delay_ok:
  assumes "graph n ent P nodes" "j < n"
  shows "graph n ent P (nodes[j := (nodes ! j)\<lparr>delay := d\<rparr>])" "kept nodes (nodes[j := (nodes ! j)\<lparr>delay := d\<rparr>])"
proof -
  show "graph n ent P (nodes[j := (nodes ! j)\<lparr>delay := d\<rparr>])" by (rule graph_cong [OF assms(1)]) (use assms graphD(1) [OF assms(1)] in \<open>auto simp: nth_list_update\<close>)
  show "kept nodes (nodes[j := (nodes ! j)\<lparr>delay := d\<rparr>])" unfolding kept_def using assms graphD(1) [OF assms(1)] by (auto simp: map_update list_update_same_conv)
qed

lemma compute_delay_ok:
  assumes "graph n ent {} nodes" "dag_ok n ent" "j < n"
  shows "\<exists>nodes'. compute_delay j nodes = ret nodes' \<and> graph n ent {} nodes' \<and> kept nodes nodes'"
  using assms
proof (induction "n - j" arbitrary: j nodes rule: less_induct)
  case less
  note G = graphD [OF less.prems(1)]
  show ?case
  proof (cases "children (nodes ! j) = []")
    case True
    then have "compute_delay j nodes = ret (nodes[j := (nodes ! j)\<lparr>delay := 1\<rparr>])" using less.prems(3) G(1) by (subst compute_delay.simps) simp
    then show ?thesis using set_delay_ok [OF less.prems(1,3)] by blast
  next
    case False
    let ?step = "\<lambda>ch nodes. case ch_node ch of None \<Rightarrow> fault Out_Of_Bounds
       | Some m \<Rightarrow> bind_run (fetch nodes m) (\<lambda>child. bind_run (if delay child = 0 then compute_delay m nodes else ret nodes) (\<lambda>nodes.
           bind_run (fetch nodes m) (\<lambda>child.
           update_at (\<lambda>node. node\<lparr>delay := max (delay node) (delay child + instruction_latency node child)\<rparr>) nodes j)))"
    have step: "\<exists>nodes'. ?step ch nodes = ret nodes' \<and> graph n ent {} nodes' \<and> kept nodes nodes'"
      if g: "graph n ent {} nodes" and ch: "ch_node ch = Some m" "j < m" "m < n" for ch m nodes
    proof -
      have "\<exists>n1. (if delay (nodes ! m) = 0 then compute_delay m nodes else ret nodes) = ret n1 \<and> graph n ent {} n1 \<and> kept nodes n1"
        using less.hyps [of m nodes] g ch less.prems(2) by auto
      then obtain n1 where 1: "(if delay (nodes ! m) = 0 then compute_delay m nodes else ret nodes) = ret n1" "graph n ent {} n1" "kept nodes n1" by blast
      let ?n2 = "n1[j := (n1 ! j)\<lparr>delay := max (delay (n1 ! j)) (delay (n1 ! m) + instruction_latency (n1 ! j) (n1 ! m))\<rparr>]"
      have "?step ch nodes = ret ?n2" using ch less.prems(3) graphD(1) [OF g] graphD(1) [OF 1(2)] 1(1) by (simp add: update_at_def)
      then show ?thesis using set_delay_ok [OF 1(2) less.prems(3)] kept_trans [OF 1(3)] by blast
    qed
    have fold: "\<exists>nodes'. fold_run ?step chs nodes = ret nodes' \<and> graph n ent {} nodes' \<and> kept nodes nodes'"
      if "graph n ent {} nodes" "\<forall>ch\<in>set chs. \<exists>m. ch_node ch = Some m \<and> j < m \<and> m < n" for chs nodes
      using that
    proof (induction chs arbitrary: nodes)
      case (Cons ch chs)
      then obtain m where m: "ch_node ch = Some m" "j < m" "m < n" by auto
      obtain n1 where 1: "?step ch nodes = ret n1" "graph n ent {} n1" "kept nodes n1" using step [OF Cons.prems(1) m] by blast
      obtain n2 where 2: "fold_run ?step chs n1 = ret n2" "graph n ent {} n2" "kept n1 n2" using Cons.IH [OF 1(2)] Cons.prems(2) by auto
      have "fold_run ?step (ch # chs) nodes = ret n2" unfolding fold_run.simps 1(1) bind_run_simps by (rule 2(1))
      then show ?case using 2(2) kept_trans [OF 1(3) 2(3)] by blast
    qed simp
    have "\<forall>ch\<in>set (children (nodes ! j)). \<exists>m. ch_node ch = Some m \<and> j < m \<and> m < n"
      unfolding G(2) [OF less.prems(3)] children_of_new using dag_okD(2,3) [OF less.prems(2,3)] by fastforce
    from fold [OF less.prems(1) this] obtain n2 where n2: "fold_run ?step (children (nodes ! j)) nodes = ret n2" "graph n ent {} n2" "kept nodes n2" by blast
    have "compute_delay j nodes = ret n2" using n2(1) False less.prems(3) G(1) by (subst compute_delay.simps) simp
    then show ?thesis using n2(2,3) by blast
  qed
qed

lemma compute_delays_ok:
  assumes "graph n ent {} nodes" "dag_ok n ent" "set js \<subseteq> {..<n}"
  shows "\<exists>nodes'. fold_run compute_delay js nodes = ret nodes' \<and> graph n ent {} nodes' \<and> kept nodes nodes'"
  using assms
proof (induction js arbitrary: nodes)
  case (Cons j js)
  obtain n1 where 1: "compute_delay j nodes = ret n1" "graph n ent {} n1" "kept nodes n1" using compute_delay_ok [OF Cons.prems(1,2)] Cons.prems(3) by auto
  obtain n2 where "fold_run compute_delay js n1 = ret n2" "graph n ent {} n2" "kept n1 n2" using Cons.IH [OF 1(2) Cons.prems(2)] Cons.prems(3) by auto
  then show ?case using 1(1) kept_trans [OF 1(3)] by auto
qed auto

section \<open>Ready nodes\<close>

definition ready :: "nat \<Rightarrow> node_edges \<Rightarrow> nat set \<Rightarrow> (nat \<times> nat) set \<Rightarrow> nat list \<Rightarrow> schedule_node list \<Rightarrow> bool" where
  "ready n ent T P L nodes \<longleftrightarrow> graph n ent P nodes \<and> distinct L \<and> set L = {j. j < n \<and> j \<notin> T \<and> into n ent P j = {}} \<and>
     T \<subseteq> {..<n} \<and> (\<forall>j\<in>T. into n ent P j = {})"

lemma readyD:
  assumes "ready n ent T P L nodes"
  shows "graph n ent P nodes" "distinct L" "set L = {j. j < n \<and> j \<notin> T \<and> into n ent P j = {}}" "T \<subseteq> {..<n}" "j \<in> T \<Longrightarrow> into n ent P j = {}" "length nodes = n"
  using assms graphD(1) by (auto simp: ready_def)

lemma card_into:
  assumes "dag_ok n ent"
  shows "card (into n ent P j) \<le> 2 * n"
proof -
  let ?f = "\<lambda>(i, k). (i, snd (ent i ! k))"
  have "inj_on ?f (into n ent P j)"
  proof (rule inj_onI)
    fix x y assume "x \<in> into n ent P j" "y \<in> into n ent P j" "?f x = ?f y"
    then obtain i k k' where xy: "x = (i, k)" "y = (i, k')" "i < n" "k < length (ent i)" "k' < length (ent i)" "fst (ent i ! k) = fst (ent i ! k')" "snd (ent i ! k) = snd (ent i ! k')"
      by (auto simp: into_def)
    have "ent i ! k = ent i ! k'" by (rule prod_eqI) (use xy in auto)
    then have "k = k'" using nth_eq_iff_index_eq [OF dag_okD(1) [OF assms xy(3)] xy(4,5)] by simp
    then show "x = y" using xy by simp
  qed
  moreover have "?f ` into n ent P j \<subseteq> {..<n} \<times> UNIV" by (auto simp: into_def)
  ultimately have "card (into n ent P j) \<le> card ({..<n} \<times> (UNIV :: bool set))" by (intro card_inj_on_le) auto
  then show ?thesis by (simp add: card_cartesian_product)
qed

lemma take_ready: "ready n ent T P L nodes \<Longrightarrow> j \<in> set L \<Longrightarrow> ready n ent (insert j T) P (remove1 j L) nodes"
  by (auto simp: ready_def)

lemma sn_inst_ready:
  assumes "ready n ent T P L nodes"
  shows "ready n ent T P L (nodes[j := (nodes ! j)\<lparr>sn_inst := q\<rparr>])"
proof -
  note R = readyD [OF assms]
  have "nodes[j := (nodes ! j)\<lparr>sn_inst := q\<rparr>] ! i = (if i = j then (nodes ! j)\<lparr>sn_inst := q\<rparr> else nodes ! i)" if "i < n" for i
    using that R(6) by (simp add: nth_list_update)
  then have "graph n ent P (nodes[j := (nodes ! j)\<lparr>sn_inst := q\<rparr>])" by (intro graph_cong [OF R(1)]) simp_all
  then show ?thesis using assms by (simp add: ready_def)
qed

lemma of_nat_pred: "0 < c \<Longrightarrow> of_nat c - 1 = (of_nat (c - 1) :: u32)"
  by (simp add: of_nat_diff)

lemma of_nat_zero: "c < 2 ^ 32 \<Longrightarrow> (of_nat c :: u32) = 0 \<longleftrightarrow> c = 0"
  using unat_eq_zero [of "of_nat c :: u32"] by (simp add: unsigned_of_nat take_bit_nat_eq_self)

lemma mark_child_ok:
  assumes r: "ready n ent T P L nodes" and d: "dag_ok n ent" and n: "n < 2 ^ 31" and i: "i < n" "k < length (ent i)"
  shows "\<exists>L' nodes'. mark_child time i war_only k (L, nodes) = ret (L', nodes') \<and> kept nodes nodes' \<and>
    ready n ent T (if war_only \<longrightarrow> snd (ent i ! k) then insert (i, k) P else P) L' nodes'"
proof -
  note R = readyD [OF r]
  note G = graphD [OF R(1)]
  let ?ch = "children (nodes ! i) ! k"
  have chl: "k < length (children (nodes ! i))" and ch: "?ch = \<lparr>ch_node = (if (i, k) \<in> P then None else Some (fst (ent i ! k))), write_after_read = snd (ent i ! k)\<rparr>"
    using G(2) [OF i(1)] i(2) by (simp_all add: children_of_nth)
  show ?thesis
  proof (cases "(i, k) \<in> P \<or> war_only \<and> \<not> snd (ent i ! k)")
    case True
    then have "mark_child time i war_only k (L, nodes) = ret (L, nodes)" using chl ch R(6) i(1) by (auto simp: mark_child_def)
    moreover have "(if war_only \<longrightarrow> snd (ent i ! k) then insert (i, k) P else P) = P" using True by auto
    ultimately show ?thesis using r by auto
  next
    case False
    define m where "m = fst (ent i ! k)"
    have "ent i ! k \<in> set (ent i)" using i(2) by simp
    then have m: "i < m" "m < n" using dag_okD(2,3) [OF d i(1), of m "snd (ent i ! k)"] by (simp_all add: m_def)
    let ?P = "insert (i, k) P"
    have mem: "(i, k) \<in> into n ent P m" using i False by (simp add: into_def m_def)
    have into: "into n ent ?P j = (if j = m then into n ent P m - {(i, k)} else into n ent P j)" for j by (auto simp: into_def m_def)
    have card: "card (into n ent ?P m) = card (into n ent P m) - 1" "0 < card (into n ent P m)" "card (into n ent P m) < 2 ^ 32"
      using mem into [of m] card_into [OF d, of P m] n by (auto simp: card_gt_0_iff)
    have mT: "m \<notin> T" "m \<notin> set L" using mem R(3,5) by auto
    define child where "child = (nodes ! m)\<lparr>unblocked_time := max (unblocked_time (nodes ! m)) (time + (if war_only then 0 else instruction_latency (nodes ! i) (nodes ! m))),
        parent_count := parent_count (nodes ! m) - 1\<rparr>"
    define L' where "L' = (if parent_count child = 0 then m # L else L)"
    define nodes' where "nodes' = nodes[m := child, i := (nodes ! i)\<lparr>children := (children (nodes ! i))[k := ?ch\<lparr>ch_node := None\<rparr>]\<rparr>]"
    have pc: "parent_count child = of_nat (card (into n ent ?P m))" unfolding child_def card(1) using G(3) [OF m(2)] of_nat_pred [OF card(2)] by simp
    have z: "parent_count child = 0 \<longleftrightarrow> into n ent ?P m = {}" unfolding pc using of_nat_zero [of "card (into n ent ?P m)"] card by (simp add: into)
    have "mark_child time i war_only k (L, nodes) = ret (L', nodes')"
      using False chl ch R(6) i(1) m by (auto simp: mark_child_def m_def [symmetric] Let_def update_at_def child_def L'_def nodes'_def)
    moreover have "kept nodes nodes'" unfolding kept_def nodes'_def child_def using m R(6) i(1) by (auto intro!: nth_equalityI simp: nth_list_update)
    moreover have "graph n ent ?P nodes'" unfolding graph_def
    proof (intro conjI allI impI)
      show "length nodes' = n" by (simp add: nodes'_def R(6))
      fix j assume j: "j < n"
      show "children (nodes' ! j) = children_of ?P j (ent j)"
      proof (cases "j = i")
        case True
        have "(children_of P i (ent i))[k := \<lparr>ch_node = None, write_after_read = snd (ent i ! k)\<rparr>] = children_of ?P i (ent i)"
          using i(2) by (intro nth_equalityI) (auto simp: nth_list_update children_of_nth)
        then show ?thesis using True j m R(6) ch G(2) [OF i(1)] False by (simp add: nodes'_def)
      next
        case False
        then have "children_of ?P j (ent j) = children_of P j (ent j)" by (simp add: children_of_def)
        moreover have "nodes' ! j = (if j = m then child else nodes ! j)" using False j R(6) by (simp add: nodes'_def nth_list_update)
        ultimately show ?thesis using G(2) [OF j] by (cases "j = m") (simp_all add: child_def)
      qed
      show "parent_count (nodes' ! j) = of_nat (card (into n ent ?P j))"
        using j m R(6) G(3) [OF j] pc by (auto simp: nodes'_def nth_list_update into)
    qed
    moreover have "set L' = {j. j < n \<and> j \<notin> T \<and> into n ent ?P j = {}}" using R(3) z mT m(2) mem by (auto simp: L'_def into split: if_splits)
    moreover have "distinct L'" using R(2) mT by (simp add: L'_def)
    moreover have "\<forall>j\<in>T. into n ent ?P j = {}" using R(5) by (auto simp: into)
    ultimately show ?thesis using R(4) False by (auto simp: ready_def)
  qed
qed

lemma mark_children_ok:
  assumes "ready n ent T P L nodes" "dag_ok n ent" "n < 2 ^ 31" "i < n" "set ks \<subseteq> {..<length (ent i)}"
  shows "\<exists>L' nodes'. fold_run (mark_child time i war_only) ks (L, nodes) = ret (L', nodes') \<and> kept nodes nodes' \<and>
    ready n ent T (P \<union> {(i, k) | k. k \<in> set ks \<and> (war_only \<longrightarrow> snd (ent i ! k))}) L' nodes'"
  using assms
proof (induction ks arbitrary: P L nodes)
  case (Cons k ks)
  let ?P = "if war_only \<longrightarrow> snd (ent i ! k) then insert (i, k) P else P"
  obtain L1 n1 where 1: "mark_child time i war_only k (L, nodes) = ret (L1, n1)" "kept nodes n1" "ready n ent T ?P L1 n1"
    using mark_child_ok [OF Cons.prems(1-4), of k time war_only] Cons.prems(5) by auto
  obtain L2 n2 where 2: "fold_run (mark_child time i war_only) ks (L1, n1) = ret (L2, n2)" "kept n1 n2"
    "ready n ent T (?P \<union> {(i, k) | k. k \<in> set ks \<and> (war_only \<longrightarrow> snd (ent i ! k))}) L2 n2"
    using Cons.IH [OF 1(3) Cons.prems(2-4)] Cons.prems(5) by auto
  have "?P \<union> {(i, k) | k. k \<in> set ks \<and> (war_only \<longrightarrow> snd (ent i ! k))} = P \<union> {(i, k') | k'. k' \<in> set (k # ks) \<and> (war_only \<longrightarrow> snd (ent i ! k'))}" by auto
  then show ?case using 1(1) 2 kept_trans [OF 1(2)] by auto
qed auto

lemma mark_scheduled_ok:
  assumes r: "ready n ent T P L nodes" and d: "dag_ok n ent" "n < 2 ^ 31" and i: "i < n"
  shows "\<exists>L' nodes'. mark_instruction_scheduled time (Some i) war_only (L, nodes) = ret (L', nodes') \<and> kept nodes nodes' \<and>
    ready n ent T (P \<union> {(i, k) | k. k < length (ent i) \<and> (war_only \<longrightarrow> snd (ent i ! k))}) L' nodes'"
proof -
  note R = readyD [OF r]
  have l: "length (children (nodes ! i)) = length (ent i)" using graphD(2) [OF R(1) i] by simp
  have ks: "set (rev [0..<length (ent i)]) \<subseteq> {..<length (ent i)}" by auto
  have "mark_instruction_scheduled time (Some i) war_only (L, nodes) = fold_run (mark_child time i war_only) (rev [0..<length (ent i)]) (L, nodes)"
    using R(6) i l by (simp add: mark_instruction_scheduled_def)
  then show ?thesis using mark_children_ok [OF r d i ks, of time war_only] by simp
qed

text \<open>When all entries of the nodes that were taken are released, a node is ready as long as one is left.\<close>

definition released :: "node_edges \<Rightarrow> nat set \<Rightarrow> (nat \<times> nat) set" where
  "released ent T = {(i, k). i \<in> T \<and> k < length (ent i)}"

lemma released_insert: "released ent (insert j T) = released ent T \<union> {(j, k) | k. k < length (ent j)}"
  by (auto simp: released_def)

lemma into_released: "(i, k) \<in> into n ent (released ent T) j \<longleftrightarrow> i < n \<and> k < length (ent i) \<and> fst (ent i ! k) = j \<and> i \<notin> T"
  by (auto simp: into_def released_def)

lemma ready_progress:
  assumes r: "ready n ent T (released ent T) [] nodes" and d: "dag_ok n ent"
  shows "T = {..<n}"
proof (rule ccontr)
  note R = readyD [OF r]
  assume "T \<noteq> {..<n}"
  then have ex: "\<exists>j. j < n \<and> j \<notin> T" using R(4) by auto
  define j where "j = (LEAST j. j < n \<and> j \<notin> T)"
  have j: "j < n" "j \<notin> T" using LeastI_ex [OF ex] by (simp_all add: j_def)
  have least: "i \<in> T" if "i < j" for i using not_less_Least [of i "\<lambda>j. j < n \<and> j \<notin> T"] that j(1) by (auto simp: j_def)
  have "(i, k) \<notin> into n ent (released ent T) j" for i k
  proof
    assume "(i, k) \<in> into n ent (released ent T) j"
    then have ik: "i < n" "k < length (ent i)" "fst (ent i ! k) = j" "i \<notin> T" by (auto simp: into_released)
    then have "i < j" using dag_okD(2) [OF d ik(1), of j "snd (ent i ! k)"] nth_mem [OF ik(2)] by (metis prod.collapse)
    then show False using least ik(4) by blast
  qed
  then show False using R(3) j by auto
qed

text \<open>The first list of ready nodes.\<close>

lemma ready_init:
  assumes g: "graph n ent {} nodes" and d: "dag_ok n ent" and n: "n < 2 ^ 31"
  shows "ready n ent {} (released ent {}) (filter (\<lambda>j. parent_count (nodes ! j) = 0) [0..<n]) nodes"
proof -
  have r: "released ent {} = {}" by (simp add: released_def)
  have "parent_count (nodes ! j) = 0 \<longleftrightarrow> into n ent {} j = {}" if "j < n" for j
    using graphD(3) [OF g that] of_nat_zero [of "card (into n ent {} j)"] card_into [OF d, of "{}" j] n by simp
  then show ?thesis using g unfolding ready_def r by auto
qed

end
