(* ===== verification/Sched_Choose.thy ===== *)
theory Sched_Choose
  imports Sched_Ready Qpu_Validate
begin

text \<open>
  What the choice of the next instruction guarantees: the restrictions that the validator checks hold for it, and while there
  is a ready node, one can be chosen after a few idle instructions.
\<close>

section \<open>The choice\<close>

definition admissible :: "choose_scoreboard \<Rightarrow> nat list \<Rightarrow> schedule_node list \<Rightarrow> qinst option \<Rightarrow> nat \<Rightarrow> bool" where
  "admissible sb L nodes prev j \<longleftrightarrow> \<not> too_soon sb L (sn_inst (nodes ! j)) \<and>
     (\<forall>p. prev = Some p \<longrightarrow> can_pair sb p (sn_inst (nodes ! j)) = ret True)"

definition pairing_ok :: "choose_scoreboard \<Rightarrow> schedule_node list \<Rightarrow> qinst option \<Rightarrow> nat \<Rightarrow> bool" where
  "pairing_ok sb nodes prev j \<longleftrightarrow> (\<forall>p. prev = Some p \<longrightarrow> (\<exists>ok. can_pair sb p (sn_inst (nodes ! j)) = ret ok))"

lemma choose_node_ok:
  assumes "j < length nodes" "pairing_ok sb nodes prev j" "\<And>i p. chosen = Some (i, p) \<Longrightarrow> i < length nodes"
  shows "\<exists>chosen'. choose_node sb L nodes prev j chosen = ret chosen' \<and> (chosen' = chosen \<or> (admissible sb L nodes prev j \<and> (\<exists>p. chosen' = Some (j, p)))) \<and>
    (admissible sb L nodes prev j \<longrightarrow> chosen' \<noteq> None)"
proof (cases "too_soon sb L (sn_inst (nodes ! j))")
  case True
  then show ?thesis using assms(1) by (simp add: choose_node_def admissible_def)
next
  case False
  have "\<exists>ok. (case prev of None \<Rightarrow> ret True | Some prev_inst \<Rightarrow> can_pair sb prev_inst (sn_inst (nodes ! j))) = ret ok \<and> (ok \<longleftrightarrow> admissible sb L nodes prev j)"
    using assms(2) False by (cases prev) (auto simp: pairing_ok_def admissible_def)
  then obtain ok where ok: "(case prev of None \<Rightarrow> ret True | Some prev_inst \<Rightarrow> can_pair sb prev_inst (sn_inst (nodes ! j))) = ret ok" "ok \<longleftrightarrow> admissible sb L nodes prev j" by blast
  have e: "choose_node sb L nodes prev j chosen = (if \<not> ok then ret chosen else
     let prio = get_instruction_priority (qi_qpu (sn_inst (nodes ! j))) in
     case chosen of None \<Rightarrow> ret (Some (j, prio))
     | Some (chosen, chosen_prio) \<Rightarrow>
         if prio > chosen_prio then ret (Some (j, prio)) else if prio < chosen_prio then ret (Some (chosen, chosen_prio))
         else bind_run (fetch nodes chosen) (\<lambda>chosen_node. ret (if delay (nodes ! j) > delay chosen_node then Some (j, prio) else Some (chosen, chosen_prio))))"
    unfolding choose_node_def using assms(1) False by (simp add: Let_def ok(1))
  show ?thesis
  proof (cases chosen)
    case None
    then show ?thesis unfolding e using ok(2) by (simp add: Let_def)
  next
    case (Some c)
    then obtain i p where "chosen = Some (i, p)" by (cases c) auto
    then show ?thesis unfolding e using ok(2) assms(3) [of i p] by (auto simp: Let_def)
  qed
qed

lemma choose_nodes_ok:
  assumes "\<forall>j\<in>set js. j < length nodes \<and> pairing_ok sb nodes prev j" "\<And>i p. chosen = Some (i, p) \<Longrightarrow> i < length nodes"
  shows "\<exists>chosen'. fold_run (choose_node sb L nodes prev) js chosen = ret chosen' \<and>
    (chosen' = chosen \<or> (\<exists>j\<in>set js. admissible sb L nodes prev j \<and> (\<exists>p. chosen' = Some (j, p)))) \<and>
    ((\<exists>j\<in>set js. admissible sb L nodes prev j) \<or> chosen \<noteq> None \<longrightarrow> chosen' \<noteq> None)"
  using assms
proof (induction js arbitrary: chosen)
  case (Cons j js)
  obtain c1 where 1: "choose_node sb L nodes prev j chosen = ret c1" "c1 = chosen \<or> (admissible sb L nodes prev j \<and> (\<exists>p. c1 = Some (j, p)))"
    "admissible sb L nodes prev j \<longrightarrow> c1 \<noteq> None" using choose_node_ok [of j nodes sb prev chosen L] Cons.prems by auto
  have "i < length nodes" if "c1 = Some (i, p)" for i p using 1(2) Cons.prems that by auto
  then obtain c2 where 2: "fold_run (choose_node sb L nodes prev) js c1 = ret c2" "c2 = c1 \<or> (\<exists>j\<in>set js. admissible sb L nodes prev j \<and> (\<exists>p. c2 = Some (j, p)))"
    "(\<exists>j\<in>set js. admissible sb L nodes prev j) \<or> c1 \<noteq> None \<longrightarrow> c2 \<noteq> None" using Cons.IH [of c1] Cons.prems(1) by auto
  have "fold_run (choose_node sb L nodes prev) (j # js) chosen = ret c2" using 1(1) 2(1) by simp
  then show ?case using 1(2,3) 2(2,3) by auto
qed simp

lemma pick_ok:
  assumes "\<forall>j\<in>set L. j < length nodes \<and> pairing_ok sb nodes prev j"
  shows "\<exists>r. choose_instruction_to_schedule sb L nodes prev = ret r \<and> (\<forall>j. r = Some j \<longrightarrow> j \<in> set L \<and> admissible sb L nodes prev j \<and>
      (\<forall>p. prev = Some p \<longrightarrow> \<not> thrsw (sig (qi_qpu p)))) \<and> (prev = None \<and> r = None \<longrightarrow> (\<forall>j\<in>set L. too_soon sb L (sn_inst (nodes ! j))))"
proof (cases "\<exists>p. prev = Some p \<and> thrsw (sig (qi_qpu p))")
  case True
  then show ?thesis by (auto simp: choose_instruction_to_schedule_def)
next
  case False
  obtain c where c: "fold_run (choose_node sb L nodes prev) L None = ret c" "c = None \<or> (\<exists>j\<in>set L. admissible sb L nodes prev j \<and> (\<exists>p. c = Some (j, p)))"
    "(\<exists>j\<in>set L. admissible sb L nodes prev j) \<longrightarrow> c \<noteq> None" using choose_nodes_ok [OF assms, of None L] by auto
  have "choose_instruction_to_schedule sb L nodes prev = ret (map_option fst c)"
    using False c(1) by (auto simp: choose_instruction_to_schedule_def split: option.splits)
  then show ?thesis using c(2,3) False by (auto simp: admissible_def)
qed

section \<open>Idle instructions\<close>

text \<open>How many idle instructions the restrictions can still ask for.\<close>

definition stall :: "choose_scoreboard \<Rightarrow> nat" where
  "stall sb = nat (last_sfu_write_tick sb + 3 - tick sb) + nat (last_ldvary_tick sb + 2 - tick sb) + nat (1 - tick sb) +
     (if last_waddr_add sb = NOT 0 \<and> last_waddr_mul sb = NOT 0 then 0 else 1)"

lemma vir_nop_qpu [simp]: "qi_qpu (vir_nop p) = v3d_qpu_nop" "qi_uniform (vir_nop p) = - 1"
  by (simp_all add: vir_nop_def vir_add_inst_def v3d_qpu_nop_def Let_def)

lemma nop_scoreboard: "update_scoreboard_for_chosen v3d_qpu_nop sb = sb\<lparr>last_waddr_add := NOT 0, last_waddr_mul := NOT 0\<rparr>"
  by (simp add: update_scoreboard_for_chosen_def v3d_qpu_nop_def Let_def qpu_inst_is_tlb_def)

lemma stall_nop:
  assumes "stall sb \<noteq> 0"
  shows "stall (sb\<lparr>last_waddr_add := NOT 0, last_waddr_mul := NOT 0, tick := tick sb + 1\<rparr>) < stall sb"
  using assms by (auto simp: stall_def split: if_splits)

lemma ucast_not_all_ones: "(NOT 0 :: u32) \<noteq> ucast (a :: u8)"
proof
  assume "(NOT 0 :: u32) = ucast a"
  then have "unat (NOT 0 :: u32) = unat (ucast a :: u32)" by simp
  moreover have "unat (ucast a :: u32) < 256"
  proof -
    have "unat a < 2 ^ LENGTH(8)" by (rule unsigned_less)
    then show ?thesis by (simp add: unsigned_ucast_eq take_bit_nat_eq_self)
  qed
  moreover have "unat (NOT 0 :: u32) = 2 ^ 32 - 1" by (simp add: unsigned_minus_1_eq_mask mask_eq_exp_minus_1)
  ultimately show False by simp
qed

lemma no_stall:
  assumes "stall sb = 0" "instr_type (qi_qpu q) = V3D_QPU_INSTR_TYPE_BRANCH \<Longrightarrow> length L = 1"
  shows "\<not> too_soon sb L q"
proof -
  have s: "last_sfu_write_tick sb + 3 \<le> tick sb" "last_ldvary_tick sb + 2 \<le> tick sb" "1 \<le> tick sb" "last_waddr_add sb = NOT 0" "last_waddr_mul sb = NOT 0"
    using assms(1) by (auto simp: stall_def split: if_splits)
  have "\<not> mux_reads_too_soon sb i m" for i m using s ucast_not_all_ones by (cases m) (auto simp: mux_reads_too_soon_def)
  then show ?thesis using s assms(2)
    by (auto simp: too_soon_def Let_def reads_too_soon_after_write_def writes_too_soon_after_write_def pixel_scoreboard_too_soon_def)
qed

section \<open>The restrictions of the validator\<close>

definition scoreboard_ok :: "v3d_qpu_instr option \<Rightarrow> choose_scoreboard \<Rightarrow> bool" where
  "scoreboard_ok prev sb \<longleftrightarrow> 0 \<le> tick sb \<and> last_sfu_write_tick sb < tick sb \<and> last_ldvary_tick sb < tick sb \<and>
     (\<forall>p. prev = Some p \<longrightarrow> (writes_sfu p \<longrightarrow> last_sfu_write_tick sb = tick sb - 1) \<and> (ldvary (sig p) \<longrightarrow> last_ldvary_tick sb = tick sb - 1))"

lemma scoreboard_update:
  assumes "instr_type q = V3D_QPU_INSTR_TYPE_BRANCH \<Longrightarrow> \<not> ldvary (sig q)" "scoreboard_ok prev sb"
  shows "scoreboard_ok (Some q) ((update_scoreboard_for_chosen q sb)\<lparr>tick := tick (update_scoreboard_for_chosen q sb) + 1\<rparr>)"
  using assms by (cases "instr_type q")
    (auto simp: scoreboard_ok_def update_scoreboard_for_chosen_def update_scoreboard_for_magic_waddr_def Let_def writes_sfu_def magic_writes_def)

lemma stall_bound: "scoreboard_ok prev sb \<Longrightarrow> stall sb \<le> 5"
  by (auto simp: scoreboard_ok_def stall_def)

lemma uses_mux_reads:
  assumes "instr_type (qi_qpu q) = V3D_QPU_INSTR_TYPE_ALU" "v3d_qpu_uses_mux (qi_qpu q) m" "mux_reads_too_soon sb (qi_qpu q) m"
  shows "reads_too_soon_after_write sb q"
proof -
  have n: "v3d_qpu_add_op_num_src V3D_QPU_A_NOP = 0" "v3d_qpu_mul_op_num_src V3D_QPU_M_NOP = 0" by (simp_all add: v3d_qpu_add_op_num_src_def v3d_qpu_mul_op_num_src_def)
  show ?thesis using assms n by (auto simp: v3d_qpu_uses_mux_def reads_too_soon_after_write_def Let_def)
qed

lemma sfu_writes_r4: "writes_sfu i \<Longrightarrow> v3d_qpu_writes_r4 i"
  by (auto simp: writes_sfu_def magic_writes_def v3d_qpu_writes_r4_def split: if_splits)

lemma not_too_soon_allowed:
  assumes "scoreboard_ok prev sb" "\<not> too_soon sb L q" "peripheral_uses (qi_qpu q) \<le> 1"
  shows "instr_allowed prev (qi_qpu q)"
proof -
  have "\<not> (ldvary (sig p) \<and> ldunif (sig (qi_qpu q)))" if "prev = Some p" for p using assms(1,2) that by (auto simp: scoreboard_ok_def too_soon_def Let_def)
  moreover have "\<not> v3d_qpu_uses_mux (qi_qpu q) V3D_QPU_MUX_R4 \<and> \<not> v3d_qpu_writes_r4 (qi_qpu q) \<and> \<not> writes_sfu (qi_qpu q)"
    if p: "prev = Some p" "writes_sfu p" "instr_type (qi_qpu q) = V3D_QPU_INSTR_TYPE_ALU" for p
  proof -
    have l: "last_sfu_write_tick sb = tick sb - 1" using assms(1) p(1,2) by (simp add: scoreboard_ok_def)
    then have "\<not> v3d_qpu_writes_r4 (qi_qpu q)" using assms(2) by (auto simp: too_soon_def Let_def writes_too_soon_after_write_def)
    moreover have "\<not> v3d_qpu_uses_mux (qi_qpu q) V3D_QPU_MUX_R4"
      using uses_mux_reads [OF p(3), of V3D_QPU_MUX_R4 sb] l assms(2) by (auto simp: mux_reads_too_soon_def too_soon_def Let_def)
    ultimately show ?thesis using sfu_writes_r4 by blast
  qed
  ultimately show ?thesis using assms(3) by (auto simp: instr_allowed_def)
qed

section \<open>Pairs\<close>

lemma merge_Some:
  assumes "qpu_merge_inst aliased a b = ret (Some m)"
  shows "\<not> merge_conflict a b" "m = merged_inst a b" "qpu_merge_inst aliased' a b = ret (Some m)"
proof -
  have p: "\<not> merge_conflict a b \<and> (\<exists>w. v3d_qpu_instr_pack (merged_inst a b) = Inr w) \<and> m = merged_inst a b"
    using assms by (cases aliased) (auto simp: qpu_merge_inst_def split: if_splits sum.splits fault.splits)
  then show "\<not> merge_conflict a b" "m = merged_inst a b" by auto
  show "qpu_merge_inst aliased' a b = ret (Some m)" using p by (auto simp: qpu_merge_inst_def)
qed

lemma merged_type: "instr_type (merged_inst a b) = instr_type a" and merged_sig: "sig (merged_inst a b) = merge_sig (sig a) (sig b)"
  and merged_add: "alu_add (merged_inst a b) = (if alu_op (alu_add b) = V3D_QPU_A_NOP then alu_add a else alu_add b)"
  and merged_mul: "alu_mul (merged_inst a b) = (if alu_op (alu_mul b) = V3D_QPU_M_NOP then alu_mul a else alu_mul b)"
  by (simp_all add: merged_inst_def Let_def merge_add_def merge_mul_def)

lemmas merged_parts = merged_type merged_sig merged_add merged_mul

lemma merged_uses_mux: "v3d_qpu_uses_mux (merged_inst a b) m \<Longrightarrow> v3d_qpu_uses_mux a m \<or> v3d_qpu_uses_mux b m"
  by (auto simp: v3d_qpu_uses_mux_def Let_def merged_parts split: if_splits)

lemma merged_writes_r4: "v3d_qpu_writes_r4 (merged_inst a b) \<Longrightarrow> instr_type b = instr_type a \<Longrightarrow> v3d_qpu_writes_r4 a \<or> v3d_qpu_writes_r4 b"
  by (auto simp: v3d_qpu_writes_r4_def merged_parts merge_sig_def split: if_splits)

lemma magic_writes_merged:
  assumes "\<not> merge_conflict a b"
  shows "magic_writes cls (merged_inst a b) = magic_writes cls a + magic_writes cls b"
  using assms by (auto simp: magic_writes_def merged_parts merge_conflict_def)

lemma peripheral_accessed:
  assumes "instr_type a = V3D_QPU_INSTR_TYPE_ALU" "peripheral_uses a \<noteq> 0"
  shows "qpu_accesses_peripheral a"
  using assms by (auto simp: peripheral_uses_def magic_writes_def qpu_accesses_peripheral_def qpu_magic_waddr_is_periph_def split: if_splits)

lemma peripheral_merged:
  assumes c: "\<not> merge_conflict a b" and u: "peripheral_uses a \<le> 1" "peripheral_uses b \<le> 1"
  shows "peripheral_uses (merged_inst a b) \<le> 1"
proof -
  have "instr_type a = V3D_QPU_INSTR_TYPE_ALU" "instr_type b = V3D_QPU_INSTR_TYPE_ALU" "\<not> (qpu_accesses_peripheral a \<and> qpu_accesses_peripheral b)"
    using c by (auto simp: merge_conflict_def)
  then have z: "peripheral_uses a = 0 \<or> peripheral_uses b = 0" using peripheral_accessed by blast
  have "peripheral_uses (merged_inst a b) \<le> peripheral_uses a + peripheral_uses b"
    by (simp add: peripheral_uses_def magic_writes_merged [OF c] merged_sig merge_sig_def)
  then show ?thesis using z u by linarith
qed

lemma merged_allowed:
  assumes m: "qpu_merge_inst aliased a b = ret (Some m)" and a: "instr_allowed prev a" "instr_allowed prev b"
  shows "instr_allowed prev m"
proof -
  note M = merge_Some [OF m]
  have t: "instr_type a = V3D_QPU_INSTR_TYPE_ALU" "instr_type b = V3D_QPU_INSTR_TYPE_ALU" using M(1) by (auto simp: merge_conflict_def)
  have "peripheral_uses m \<le> 1" using peripheral_merged [OF M(1)] a t M(2) by (simp add: instr_allowed_def)
  moreover have "\<not> (ldvary (sig p) \<and> ldunif (sig m))" if "prev = Some p" for p
    using a t that by (auto simp: instr_allowed_def M(2) merged_sig merge_sig_def)
  moreover have "\<not> v3d_qpu_uses_mux m V3D_QPU_MUX_R4 \<and> \<not> v3d_qpu_writes_r4 m \<and> \<not> writes_sfu m" if "prev = Some p" "writes_sfu p" for p
  proof -
    have n: "\<not> v3d_qpu_uses_mux a V3D_QPU_MUX_R4" "\<not> v3d_qpu_writes_r4 a" "\<not> v3d_qpu_uses_mux b V3D_QPU_MUX_R4" "\<not> v3d_qpu_writes_r4 b"
      using a t that by (auto simp: instr_allowed_def)
    then have "\<not> v3d_qpu_writes_r4 m" using merged_writes_r4 [of a b] t M(2) by auto
    then show ?thesis using n merged_uses_mux [of a b V3D_QPU_MUX_R4] sfu_writes_r4 [of m] M(2) by auto
  qed
  ultimately show ?thesis by (auto simp: instr_allowed_def)
qed

lemma can_pair_True:
  assumes "can_pair sb p q = ret True"
  shows "\<not> thrsw (sig (qi_qpu q))" "qi_uniform p = - 1 \<or> qi_uniform q = - 1" "\<exists>m. qpu_merge_inst aliased (qi_qpu p) (qi_qpu q) = ret (Some m)"
proof -
  show "\<not> thrsw (sig (qi_qpu q))" "qi_uniform p = - 1 \<or> qi_uniform q = - 1"
    using assms by (auto simp: can_pair_def Let_def split: if_splits)
  obtain m where "qpu_merge_inst False (qi_qpu p) (qi_qpu q) = ret (Some m)"
    using assms by (auto simp: can_pair_def Let_def bind_run_ret_iff split: if_splits)
  then show "\<exists>m. qpu_merge_inst aliased (qi_qpu p) (qi_qpu q) = ret (Some m)" using merge_Some(3) by blast
qed

end
