(* ===== verification/Sched_Step.thy ===== *)
theory Sched_Step
  imports Sched_Choose Qpu_Faults
begin

text \<open>
  One round of the scheduler: a node is taken, perhaps together with another one, its entries are released and an instruction is emitted.
\<close>

section \<open>Groups\<close>

text \<open>
  The nodes behind an emitted instruction: none for an idle instruction, one, or two that were paired.
\<close>

definition group_qpu :: "qinst list \<Rightarrow> nat list \<Rightarrow> v3d_qpu_instr" where
  "group_qpu qs g = (case g of [] \<Rightarrow> v3d_qpu_nop | i # ms \<Rightarrow> (case ms of [] \<Rightarrow> qi_qpu (qs ! i) | m # _ \<Rightarrow> merged_inst (qi_qpu (qs ! i)) (qi_qpu (qs ! m))))"

definition group_uniform :: "qinst list \<Rightarrow> nat list \<Rightarrow> int" where
  "group_uniform qs g = (case g of [] \<Rightarrow> - 1 | i # ms \<Rightarrow> (case ms of [] \<Rightarrow> qi_uniform (qs ! i)
     | m # _ \<Rightarrow> if qi_uniform (qs ! m) \<noteq> - 1 then qi_uniform (qs ! m) else qi_uniform (qs ! i)))"

definition group_ok :: "qinst list \<Rightarrow> nat list \<Rightarrow> bool" where
  "group_ok qs g \<longleftrightarrow> (\<forall>i\<in>set g. i < length qs) \<and> (case g of [] \<Rightarrow> True | i # ms \<Rightarrow> (case ms of [] \<Rightarrow> True
     | m # rest \<Rightarrow> rest = [] \<and> i \<noteq> m \<and> (qi_uniform (qs ! i) = - 1 \<or> qi_uniform (qs ! m) = - 1) \<and> \<not> thrsw (sig (qi_qpu (qs ! i))) \<and> \<not> thrsw (sig (qi_qpu (qs ! m))) \<and>
         qpu_merge_inst False (qi_qpu (qs ! i)) (qi_qpu (qs ! m)) = ret (Some (merged_inst (qi_qpu (qs ! i)) (qi_qpu (qs ! m))))))"

definition group_inst :: "qinst list \<Rightarrow> nat list \<Rightarrow> qinst \<Rightarrow> bool" where
  "group_inst qs g q \<longleftrightarrow> qi_qpu q = group_qpu qs g \<and> qi_uniform q = group_uniform qs g"

text \<open>Any two instructions of the block can be tried as a pair without a fault.\<close>

definition pairs_ok :: "qinst list \<Rightarrow> bool" where
  "pairs_ok qs \<longleftrightarrow> (\<forall>a\<in>set qs. \<forall>b\<in>set qs. \<exists>r. qpu_merge_inst False (qi_qpu a) (qi_qpu b) = ret r)"

lemma pairs_okD: "pairs_ok qs \<Longrightarrow> i < length qs \<Longrightarrow> m < length qs \<Longrightarrow> \<exists>ok. can_pair sb (qs ! i) (qs ! m) = ret ok"
proof -
  assume "pairs_ok qs" "i < length qs" "m < length qs"
  then obtain r where "qpu_merge_inst False (qi_qpu (qs ! i)) (qi_qpu (qs ! m)) = ret r" unfolding pairs_ok_def using nth_mem by metis
  then show ?thesis unfolding can_pair_def Let_def by (auto intro: exI [of _ False])
qed

text \<open>That is so when both halves of each instruction can be encoded.\<close>

definition halves_ok :: "qinst \<Rightarrow> bool" where
  "halves_ok q \<longleftrightarrow> alu_fields_fit (qi_qpu q) \<and> add_encodable (alu_add (qi_qpu q)) \<and> mul_encodable (alu_mul (qi_qpu q))"

lemma merged_raddr:
  "raddr_a (merged_inst a b) = (if v3d_qpu_uses_mux b V3D_QPU_MUX_A then raddr_a b else raddr_a a)"
  "raddr_b (merged_inst a b) = (if v3d_qpu_uses_mux b V3D_QPU_MUX_B then raddr_b b else raddr_b a)"
  by (simp_all add: merged_inst_def Let_def merge_add_def merge_mul_def)

lemma halves_pairs:
  assumes "\<forall>q\<in>set qs. instr_type (qi_qpu q) = V3D_QPU_INSTR_TYPE_ALU \<longrightarrow> halves_ok q"
  shows "pairs_ok qs"
proof -
  have "\<exists>r. qpu_merge_inst False (qi_qpu a) (qi_qpu b) = ret r" if ab: "a \<in> set qs" "b \<in> set qs" for a b
  proof (cases "merge_conflict (qi_qpu a) (qi_qpu b)")
    case False
    let ?m = "merged_inst (qi_qpu a) (qi_qpu b)"
    have t: "instr_type (qi_qpu a) = V3D_QPU_INSTR_TYPE_ALU" "instr_type (qi_qpu b) = V3D_QPU_INSTR_TYPE_ALU" using False by (auto simp: merge_conflict_def)
    then have h: "halves_ok a" "halves_ok b" using assms ab by auto
    have m: "instr_type ?m = V3D_QPU_INSTR_TYPE_ALU" "alu_fields_fit ?m" "add_encodable (alu_add ?m)" "mul_encodable (alu_mul ?m)"
      using t(1) h by (simp_all add: merged_parts merged_raddr halves_ok_def alu_fields_fit_def)
    show ?thesis
    proof (cases "v3d_qpu_instr_pack ?m")
      case (Inl e)
      then show ?thesis using alu_pack_returns [OF Inl m] False by (simp add: qpu_merge_inst_def)
    qed (use False in \<open>simp add: qpu_merge_inst_def\<close>)
  qed (simp add: qpu_merge_inst_def)
  then show ?thesis by (simp add: pairs_ok_def)
qed

section \<open>Taking nodes\<close>

definition waits :: "node_edges \<Rightarrow> nat \<Rightarrow> (nat \<times> nat) set" where
  "waits ent j = {(j, k) | k. k < length (ent j) \<and> snd (ent j ! k)}"

definition insts_left :: "qinst list \<Rightarrow> nat set \<Rightarrow> schedule_node list \<Rightarrow> bool" where
  "insts_left qs T nodes \<longleftrightarrow> (\<forall>j < length qs. j \<notin> T \<longrightarrow> sn_inst (nodes ! j) = qs ! j)"

lemma insts_left_kept: "insts_left qs T nodes \<Longrightarrow> kept nodes nodes' \<Longrightarrow> length nodes = length qs \<Longrightarrow> T \<subseteq> T' \<Longrightarrow> insts_left qs T' nodes'"
  unfolding insts_left_def using keptD(2) by (metis subsetD)

lemma take_chosen_ok:
  assumes r: "ready (length qs) ent T (released ent T) (sv_list s) (sv_nodes s)" and l: "insts_left qs T (sv_nodes s)" and d: "dag_ok (length qs) ent" "length qs < 2 ^ 31"
    and j: "j \<in> set (sv_list s)" and p: "pairs_ok qs"
  shows "\<exists>ms L nodes time. take_chosen j s = ret (s\<lparr>sv_time := time, sv_list := L, sv_nodes := nodes\<rparr>, case ms of [] \<Rightarrow> None | m # _ \<Rightarrow> Some m) \<and>
    ready (length qs) ent (set (j # ms) \<union> T) (released ent T \<union> waits ent j) L nodes \<and> insts_left qs (set (j # ms) \<union> T) nodes \<and>
    group_ok qs (j # ms) \<and> group_inst qs (j # ms) (sn_inst (nodes ! j)) \<and> set ms \<inter> (insert j T) = {} \<and>
    (\<forall>m\<in>set ms. \<exists>L'. \<not> too_soon (sv_sb s) L' (qs ! m))"
proof -
  note R = readyD [OF r]
  have jn: "j < length qs" "j \<notin> T" and len: "length (sv_nodes s) = length qs" using j R(3,6) by auto
  have q: "sn_inst (sv_nodes s ! j) = qs ! j" using l jn by (simp add: insts_left_def)
  define time where "time = max (unblocked_time (sv_nodes s ! j)) (sv_time s)"
  obtain L1 n1 where 1: "mark_instruction_scheduled time (Some j) True (remove1 j (sv_list s), sv_nodes s) = ret (L1, n1)" "kept (sv_nodes s) n1"
    "ready (length qs) ent (insert j T) (released ent T \<union> waits ent j) L1 n1"
    using mark_scheduled_ok [OF take_ready [OF r j] d jn(1), of time True] by (auto simp: waits_def)
  note R1 = readyD [OF 1(3)]
  have l1: "insts_left qs T n1" by (rule insts_left_kept [OF l 1(2) len order_refl])
  have q1: "sn_inst (n1 ! i) = qs ! i" if "i \<in> set L1" for i using that R1(3) l1 by (simp add: insts_left_def)
  have "\<forall>i\<in>set L1. i < length n1 \<and> pairing_ok (sv_sb s) n1 (Some (qs ! j)) i"
    using R1(3,6) q1 pairs_okD [OF p jn(1)] by (auto simp: pairing_ok_def)
  from pick_ok [OF this] obtain c where c: "choose_instruction_to_schedule (sv_sb s) L1 n1 (Some (qs ! j)) = ret c"
    "\<forall>i. c = Some i \<longrightarrow> i \<in> set L1 \<and> admissible (sv_sb s) L1 n1 (Some (qs ! j)) i \<and> \<not> thrsw (sig (qi_qpu (qs ! j)))" by auto
  show ?thesis
  proof (cases c)
    case None
    have "take_chosen j s = ret (s\<lparr>sv_time := time, sv_list := L1, sv_nodes := n1\<rparr>, None)"
      using jn len q 1(1) c(1) None by (simp add: take_chosen_def Let_def time_def)
    moreover have "insts_left qs (insert j T) n1" using l1 by (simp add: insts_left_def)
    moreover have "group_inst qs [j] (sn_inst (n1 ! j))" using l1 jn by (simp add: group_inst_def group_qpu_def group_uniform_def insts_left_def)
    ultimately show ?thesis using 1(3) jn by (intro exI [of _ "[]"] exI [of _ L1] exI [of _ n1] exI [of _ time]) (simp add: group_ok_def)
  next
    case (Some m)
    then have m: "m \<in> set L1" "\<not> too_soon (sv_sb s) L1 (qs ! m)" "can_pair (sv_sb s) (qs ! j) (qs ! m) = ret True" "\<not> thrsw (sig (qi_qpu (qs ! j)))"
      using c(2) q1 by (auto simp: admissible_def)
    have mn: "m < length qs" "m \<noteq> j" "m \<notin> T" using m(1) R1(3) by auto
    note P = can_pair_True [OF m(3)]
    obtain i where i: "qpu_merge_inst True (qi_qpu (qs ! j)) (qi_qpu (qs ! m)) = ret (Some i)" using P(3) by blast
    note M = merge_Some(1,2) [OF i] merge_Some(3) [OF i, of False]
    define qinst where "qinst = (let q = (qs ! j)\<lparr>qi_qpu := i\<rparr> in if qi_uniform (qs ! m) \<noteq> - 1 then q\<lparr>qi_uniform := qi_uniform (qs ! m)\<rparr> else q)"
    let ?n2 = "n1[j := (n1 ! j)\<lparr>sn_inst := qinst\<rparr>]"
    have "take_chosen j s = ret (s\<lparr>sv_time := max (unblocked_time (n1 ! m)) time, sv_list := remove1 m L1, sv_nodes := ?n2\<rparr>, Some m)"
      using jn len q 1(1) c(1) Some q1 [OF m(1)] mn(1) i R1(6) by (simp add: take_chosen_def Let_def time_def update_at_def qinst_def)
    moreover have "ready (length qs) ent (set [j, m] \<union> T) (released ent T \<union> waits ent j) (remove1 m L1) ?n2"
      using sn_inst_ready [OF take_ready [OF 1(3) m(1)], of j qinst] by (simp add: insert_commute)
    moreover have "insts_left qs (set [j, m] \<union> T) ?n2" using l1 R1(6) by (auto simp: insts_left_def)
    moreover have "group_inst qs [j, m] (sn_inst (?n2 ! j))"
      using jn(1) R1(6) M(2) by (simp add: group_inst_def group_qpu_def group_uniform_def qinst_def Let_def)
    moreover have "group_ok qs [j, m]" using jn mn P(1,2) m(4) M(2,3) by (simp add: group_ok_def)
    ultimately show ?thesis using mn m(2)
      by (intro exI [of _ "[m]"] exI [of _ "remove1 m L1"] exI [of _ ?n2] exI [of _ "max (unblocked_time (n1 ! m)) time"]) auto
  qed
qed

section \<open>The stream of uniforms\<close>

definition moved :: "quniform_contents list \<Rightarrow> u32 list \<Rightarrow> qinst \<Rightarrow> schedule_vars \<Rightarrow> schedule_vars" where
  "moved orig_contents orig_data q s =
     (if qi_uniform q = - 1 then s
      else s\<lparr>sv_c := (sv_c s)\<lparr>uniform_data := (uniform_data (sv_c s))[sv_next_uniform s := orig_data ! nat (qi_uniform q)],
               uniform_contents := (uniform_contents (sv_c s))[sv_next_uniform s := orig_contents ! nat (qi_uniform q)]\<rparr>,
             sv_block := (if instr_type (qi_qpu q) = V3D_QPU_INSTR_TYPE_BRANCH then (sv_block s)\<lparr>branch_uniform := of_nat (sv_next_uniform s)\<rparr> else sv_block s),
             sv_next_uniform := sv_next_uniform s + 1\<rparr>)"

definition uniform_ok :: "quniform_contents list \<Rightarrow> u32 list \<Rightarrow> qinst \<Rightarrow> bool" where
  "uniform_ok orig_contents orig_data q \<longleftrightarrow> - 1 \<le> qi_uniform q \<and> qi_uniform q < int (length orig_data) \<and> qi_uniform q < int (length orig_contents)"

lemma move_uniform_ok:
  assumes "uniform_ok orig_contents orig_data q"
    "qi_uniform q \<noteq> - 1 \<Longrightarrow> sv_next_uniform s < length (uniform_data (sv_c s)) \<and> sv_next_uniform s < length (uniform_contents (sv_c s))"
  shows "move_uniform orig_contents orig_data q s =
    ret (moved orig_contents orig_data q s, if qi_uniform q = - 1 then q else q\<lparr>qi_uniform := int (sv_next_uniform s)\<rparr>)"
proof (cases "qi_uniform q = - 1")
  case False
  then have "\<not> qi_uniform q < 0" "nat (qi_uniform q) < length orig_data" "nat (qi_uniform q) < length orig_contents" using assms(1) by (auto simp: uniform_ok_def)
  then show ?thesis using False assms(2) [OF False] by (simp add: move_uniform_def moved_def Let_def update_at_def)
qed (simp add: move_uniform_def moved_def)

section \<open>The order of the groups\<close>

definition pos :: "nat list list \<Rightarrow> nat \<Rightarrow> nat" where
  "pos G i = length (takeWhile (\<lambda>g. i \<notin> set g) G)"

lemma pos_simps: "pos [] i = 0" "pos (g # G) i = (if i \<in> set g then 0 else Suc (pos G i))"
  by (simp_all add: pos_def)

lemma pos_append: "i \<in> set (concat G) \<Longrightarrow> pos (G @ H) i = pos G i" "i \<notin> set (concat G) \<Longrightarrow> pos (G @ H) i = length G + pos H i"
  by (induction G) (auto simp: pos_simps)

lemma pos_less: "i \<in> set (concat G) \<Longrightarrow> pos G i < length G"
  by (induction G) (auto simp: pos_simps)

lemma pos_nth: "i \<in> set (concat G) \<Longrightarrow> i \<in> set (G ! pos G i)"
  by (induction G) (auto simp: pos_simps)

definition order_inv :: "qinst list \<Rightarrow> node_edges \<Rightarrow> nat list list \<Rightarrow> schedule_vars \<Rightarrow> bool" where
  "order_inv qs ent G s \<longleftrightarrow> ready (length qs) ent (set (concat G)) (released ent (set (concat G))) (sv_list s) (sv_nodes s) \<and>
     distinct (concat G) \<and> insts_left qs (set (concat G)) (sv_nodes s) \<and> (\<forall>g\<in>set G. group_ok qs g) \<and>
     (\<forall>i < length qs. \<forall>j w. (j, w) \<in> set (ent i) \<longrightarrow> j \<in> set (concat G) \<longrightarrow> i \<in> set (concat G) \<and> pos G i \<le> pos G j \<and> (\<not> w \<longrightarrow> pos G i < pos G j))"

lemma order_invD:
  assumes "order_inv qs ent G s"
  shows "ready (length qs) ent (set (concat G)) (released ent (set (concat G))) (sv_list s) (sv_nodes s)" "distinct (concat G)"
    "insts_left qs (set (concat G)) (sv_nodes s)" "g \<in> set G \<Longrightarrow> group_ok qs g"
    "i < length qs \<Longrightarrow> (j, w) \<in> set (ent i) \<Longrightarrow> j \<in> set (concat G) \<Longrightarrow> i \<in> set (concat G) \<and> pos G i \<le> pos G j \<and> (\<not> w \<longrightarrow> pos G i < pos G j)"
  using assms unfolding order_inv_def by blast+

lemma order_idle: "order_inv qs ent G s \<Longrightarrow> sv_list s' = sv_list s \<Longrightarrow> sv_nodes s' = sv_nodes s \<Longrightarrow> order_inv qs ent (G @ [[]]) s'"
  unfolding order_inv_def by (auto simp: pos_append(1) group_ok_def simp del: set_concat)

text \<open>A node waits for nothing but entries that were released.\<close>

lemma into_empty:
  assumes "into n ent P j = {}" "i < n" "(j, w) \<in> set (ent i)"
  shows "\<exists>k < length (ent i). ent i ! k = (j, w) \<and> (i, k) \<in> P"
proof -
  obtain k where k: "k < length (ent i)" "ent i ! k = (j, w)" using assms(3) by (auto simp: in_set_conv_nth)
  then have "(i, k) \<in> P" using assms(1,2) by (auto simp: into_def)
  then show ?thesis using k by blast
qed

lemma order_group:
  assumes o: "order_inv qs ent G s" and j: "j \<in> set (sv_list s)" and ms: "set ms \<inter> insert j (set (concat G)) = {}" and g: "group_ok qs (j # ms)"
    and w: "\<forall>m\<in>set ms. into (length qs) ent (released ent (set (concat G)) \<union> waits ent j) m = {}"
    and r: "ready (length qs) ent (set (j # ms) \<union> set (concat G)) (released ent (set (j # ms) \<union> set (concat G))) (sv_list s') (sv_nodes s')"
    and l: "insts_left qs (set (j # ms) \<union> set (concat G)) (sv_nodes s')"
  shows "order_inv qs ent (G @ [j # ms]) s'"
proof -
  note O = order_invD [OF o]
  let ?T = "set (concat G)" and ?G = "G @ [j # ms]"
  have T: "set (concat ?G) = set (j # ms) \<union> ?T" by auto
  have jT: "j \<notin> ?T" "into (length qs) ent (released ent ?T) j = {}" using j readyD(3) [OF O(1)] by auto
  have dis: "distinct (j # ms)" using g by (auto simp: group_ok_def split: list.splits)
  have pj: "pos ?G i = length G" if "i \<in> set (j # ms)" for i
  proof -
    have "i \<notin> ?T" using that ms jT(1) by auto
    then show ?thesis using that pos_append(2) [of i G "[j # ms]"] by (simp add: pos_simps)
  qed
  have "i \<in> set (concat ?G) \<and> pos ?G i \<le> pos ?G j' \<and> (\<not> w \<longrightarrow> pos ?G i < pos ?G j')"
    if i: "i < length qs" "(j', w) \<in> set (ent i)" "j' \<in> set (concat ?G)" for i j' w
  proof -
    consider "j' \<in> ?T" | "j' = j" | "j' \<in> set ms" using i(3) unfolding T by auto
    then show ?thesis
    proof cases
      case 1
      then show ?thesis using O(5) [OF i(1,2) 1] pos_append(1) [of _ G] T by auto
    next
      case 2
      then obtain k where "(i, k) \<in> released ent ?T" using into_empty [OF jT(2) i(1)] i(2) by blast
      then have iT: "i \<in> ?T" by (auto simp: released_def simp del: set_concat)
      then show ?thesis using pos_append(1) [OF iT] pos_less [OF iT] pj [of j] 2 T by auto
    next
      case 3
      then obtain k where k: "k < length (ent i)" "ent i ! k = (j', w)" "(i, k) \<in> released ent ?T \<union> waits ent j" using into_empty [of "length qs" ent _ j' i w] w i(1,2) by blast
      show ?thesis
      proof (cases "i \<in> ?T")
        case True
        then show ?thesis using pos_append(1) [OF True] pos_less [OF True] pj [of j'] 3 T by auto
      next
        case False
        then have "i = j" "w" using k by (auto simp: released_def waits_def simp del: set_concat)
        then show ?thesis using pj [of j] pj [of j'] 3 T by auto
      qed
    qed
  qed
  moreover have "distinct (concat ?G)" using O(2) dis jT(1) ms by (auto simp del: set_concat)
  ultimately show ?thesis using r l O(4) g unfolding order_inv_def T by auto
qed

end
