(* ===== verification/Sched_Emit.thy ===== *)
theory Sched_Emit
  imports Sched_Step
begin

text \<open>
  What emitting an instruction does to the stream of uniforms, to the restrictions of the validator and to the position of the branch.
\<close>

abbreviation out :: "schedule_vars \<Rightarrow> qinst list" where
  "out s \<equiv> pb_instructions (sv_block s)"

section \<open>The stream of uniforms\<close>

definition uses :: "qinst list \<Rightarrow> nat list list \<Rightarrow> int list" where
  "uses qs G = filter (\<lambda>u. u \<noteq> - 1) (map (group_uniform qs) G)"

fun numbered :: "nat \<Rightarrow> int list \<Rightarrow> int list" where
  "numbered k [] = []"
| "numbered k (u # us) = (if u = - 1 then - 1 # numbered k us else int k # numbered (k + 1) us)"

lemma numbered_append: "numbered k (us @ vs) = numbered k us @ numbered (k + length (filter (\<lambda>u. u \<noteq> - 1) us)) vs"
  by (induction us arbitrary: k) auto

lemma uses_append [simp]: "uses qs (G @ H) = uses qs G @ uses qs H"
  by (simp add: uses_def)

definition stream_inv :: "qinst list \<Rightarrow> quniform_contents list \<Rightarrow> u32 list \<Rightarrow> qpu_compile \<Rightarrow> nat \<Rightarrow> nat list list \<Rightarrow> schedule_vars \<Rightarrow> bool" where
  "stream_inv qs oc od c0 k0 G s \<longleftrightarrow> map qi_uniform (out s) = numbered k0 (map (group_uniform qs) G) \<and> sv_next_uniform s = k0 + length (uses qs G) \<and>
     length (uniform_data (sv_c s)) = length (uniform_data c0) \<and> length (uniform_contents (sv_c s)) = length (uniform_contents c0) \<and>
     take (sv_next_uniform s) (uniform_data (sv_c s)) = take k0 (uniform_data c0) @ map (\<lambda>u. od ! nat u) (uses qs G) \<and>
     take (sv_next_uniform s) (uniform_contents (sv_c s)) = take k0 (uniform_contents c0) @ map (\<lambda>u. oc ! nat u) (uses qs G)"

lemma emit_simps [simp]:
  "sv_list (emit_inst q s) = sv_list s" "sv_nodes (emit_inst q s) = sv_nodes s" "sv_next_uniform (emit_inst q s) = sv_next_uniform s"
  "uniform_data (sv_c (emit_inst q s)) = uniform_data (sv_c s)" "uniform_contents (sv_c (emit_inst q s)) = uniform_contents (sv_c s)"
  "pc_blocks (sv_c (emit_inst q s)) = pc_blocks (sv_c s)" "num_uniforms (sv_c (emit_inst q s)) = num_uniforms (sv_c s)"
  "qpu_inst_count (sv_c (emit_inst q s)) = qpu_inst_count (sv_c s) + 1" "out (emit_inst q s) = out s @ [q]"
  "sv_sb (emit_inst q s) = (update_scoreboard_for_chosen (qi_qpu q) (sv_sb s))\<lparr>tick := tick (update_scoreboard_for_chosen (qi_qpu q) (sv_sb s)) + 1\<rparr>"
  "sv_block (emit_inst q s) = (sv_block s)\<lparr>pb_instructions := out s @ [q]\<rparr>"
  by (simp_all add: emit_inst_def Let_def)

lemma stream_idle: "stream_inv qs oc od c0 k0 G s \<Longrightarrow> stream_inv qs oc od c0 k0 (G @ [[]]) (emit_inst (vir_nop p) s)"
  by (auto simp: stream_inv_def numbered_append uses_def group_uniform_def)

lemma uses_single: "uses qs [g] = (if group_uniform qs g = - 1 then [] else [group_uniform qs g])"
  by (simp add: uses_def)

lemma numbered_group:
  "numbered k (map (group_uniform qs) (G @ [g])) =
   numbered k (map (group_uniform qs) G) @ [if group_uniform qs g = - 1 then - 1 else int (k + length (uses qs G))]"
  by (simp add: numbered_append uses_def)

lemma stream_invD:
  assumes "stream_inv qs oc od c0 k0 G s"
  shows "map qi_uniform (out s) = numbered k0 (map (group_uniform qs) G)" "sv_next_uniform s = k0 + length (uses qs G)"
    "length (uniform_data (sv_c s)) = length (uniform_data c0)" "length (uniform_contents (sv_c s)) = length (uniform_contents c0)"
    "take (sv_next_uniform s) (uniform_data (sv_c s)) = take k0 (uniform_data c0) @ map (\<lambda>u. od ! nat u) (uses qs G)"
    "take (sv_next_uniform s) (uniform_contents (sv_c s)) = take k0 (uniform_contents c0) @ map (\<lambda>u. oc ! nat u) (uses qs G)"
  using assms unfolding stream_inv_def by blast+

lemma take_Suc_update: "k < length l \<Longrightarrow> take (Suc k) (l[k := x]) = take k l @ [x]"
  by (simp add: take_Suc_conv_app_nth)

lemma stream_group:
  assumes i: "stream_inv qs oc od c0 k0 G s" and g: "group_inst qs g q0"
    and room: "qi_uniform q0 \<noteq> - 1 \<Longrightarrow> sv_next_uniform s < length (uniform_data (sv_c s)) \<and> sv_next_uniform s < length (uniform_contents (sv_c s))"
    and q: "q = (if qi_uniform q0 = - 1 then q0 else q0\<lparr>qi_uniform := int (sv_next_uniform s)\<rparr>)"
    and s': "sv_c s' = sv_c (moved oc od q0 s)" "out s' = out s" "sv_next_uniform s' = sv_next_uniform (moved oc od q0 s)"
  shows "stream_inv qs oc od c0 k0 (G @ [g]) (emit_inst q s')"
proof -
  note I = stream_invD [OF i]
  have u: "group_uniform qs g = qi_uniform q0" using g by (simp add: group_inst_def)
  have o: "map qi_uniform (out s' @ [q]) = numbered k0 (map (group_uniform qs) (G @ [g]))"
    unfolding numbered_group s'(2) map_append [of qi_uniform] u using I(1,2) q by simp
  show ?thesis
  proof (cases "qi_uniform q0 = - 1")
    case True
    then have s: "sv_c s' = sv_c s" "sv_next_uniform s' = sv_next_uniform s" "uses qs (G @ [g]) = uses qs G"
      using s' u by (simp_all add: moved_def uses_single)
    show ?thesis unfolding stream_inv_def emit_simps s using I o by simp
  next
    case False
    let ?k = "sv_next_uniform s"
    have s: "sv_next_uniform s' = Suc ?k" "uniform_data (sv_c s') = (uniform_data (sv_c s))[?k := od ! nat (qi_uniform q0)]"
      "uniform_contents (sv_c s') = (uniform_contents (sv_c s))[?k := oc ! nat (qi_uniform q0)]" "uses qs (G @ [g]) = uses qs G @ [qi_uniform q0]"
      using False s' u by (simp_all add: moved_def uses_single)
    have r: "?k < length (uniform_data (sv_c s))" "?k < length (uniform_contents (sv_c s))" using room False by simp_all
    show ?thesis unfolding stream_inv_def emit_simps s take_Suc_update [OF r(1)] take_Suc_update [OF r(2)] I(5,6) using I(2-4) o by simp
  qed
qed

text \<open>A group has a uniform of one of its nodes, and no other node of it has one.\<close>

lemma group_uses:
  assumes "group_ok qs g"
  shows "length (uses qs [g]) = card {i \<in> set g. qi_uniform (qs ! i) \<noteq> - 1}" "group_uniform qs g \<noteq> - 1 \<Longrightarrow> \<exists>i\<in>set g. qi_uniform (qs ! i) = group_uniform qs g"
proof -
  consider "g = []" | i where "g = [i]" | i m where "g = [i, m]" "i \<noteq> m" "qi_uniform (qs ! i) = - 1 \<or> qi_uniform (qs ! m) = - 1"
    using assms by (auto simp: group_ok_def split: list.splits)
  then have "length (uses qs [g]) = card {i \<in> set g. qi_uniform (qs ! i) \<noteq> - 1} \<and> (group_uniform qs g \<noteq> - 1 \<longrightarrow> (\<exists>i\<in>set g. qi_uniform (qs ! i) = group_uniform qs g))"
  proof cases
    case 3
    have "{i' \<in> set g. qi_uniform (qs ! i') \<noteq> - 1} = (if qi_uniform (qs ! m) \<noteq> - 1 then {m} else if qi_uniform (qs ! i) \<noteq> - 1 then {i} else {})"
      using 3 by auto
    then show ?thesis using 3(1) by (simp add: uses_def group_uniform_def)
  next
    case 2
    have "{i' \<in> set g. qi_uniform (qs ! i') \<noteq> - 1} = (if qi_uniform (qs ! i) \<noteq> - 1 then {i} else {})" using 2 by auto
    then show ?thesis using 2 by (simp add: uses_def group_uniform_def)
  qed (simp add: uses_def group_uniform_def)
  then show "length (uses qs [g]) = card {i \<in> set g. qi_uniform (qs ! i) \<noteq> - 1}" "group_uniform qs g \<noteq> - 1 \<Longrightarrow> \<exists>i\<in>set g. qi_uniform (qs ! i) = group_uniform qs g"
    by blast+
qed

lemma uses_card:
  assumes "\<forall>g\<in>set G. group_ok qs g" "distinct (concat G)"
  shows "length (uses qs G) = card {i \<in> set (concat G). qi_uniform (qs ! i) \<noteq> - 1}"
  using assms
proof (induction G)
  case (Cons g G)
  let ?U = "\<lambda>A. {i \<in> A. qi_uniform (qs ! i) \<noteq> - 1}"
  have "?U (set (concat (g # G))) = ?U (set g) \<union> ?U (set (concat G))" by auto
  moreover have "?U (set g) \<inter> ?U (set (concat G)) = {}" using Cons.prems(2) by auto
  moreover have "length (uses qs (g # G)) = length (uses qs [g]) + length (uses qs G)" by (simp add: uses_def)
  ultimately show ?case using Cons group_uses(1) [of qs g] by (simp add: card_Un_disjoint)
qed (simp add: uses_def)

section \<open>The restrictions\<close>

definition last_instr :: "v3d_qpu_instr option \<Rightarrow> v3d_qpu_instr list \<Rightarrow> v3d_qpu_instr option" where
  "last_instr prev is = (if is = [] then prev else Some (last is))"

lemma program_allowed_append: "program_allowed prev (xs @ ys) \<longleftrightarrow> program_allowed prev xs \<and> program_allowed (last_instr prev xs) ys"
  by (induction xs arbitrary: prev) (auto simp: last_instr_def)

definition check_inv :: "v3d_qpu_instr option \<Rightarrow> schedule_vars \<Rightarrow> bool" where
  "check_inv prev s \<longleftrightarrow> program_allowed prev (map qi_qpu (out s)) \<and> scoreboard_ok (last_instr prev (map qi_qpu (out s))) (sv_sb s)"

lemma check_emit:
  assumes "check_inv prev s" "instr_allowed (last_instr prev (map qi_qpu (out s))) (qi_qpu q)" "instr_type (qi_qpu q) = V3D_QPU_INSTR_TYPE_BRANCH \<Longrightarrow> \<not> ldvary (sig (qi_qpu q))"
  shows "check_inv prev (emit_inst q s)"
proof -
  have "last_instr prev (map qi_qpu (out s) @ [qi_qpu q]) = Some (qi_qpu q)" by (simp add: last_instr_def)
  then show ?thesis using assms scoreboard_update [of "qi_qpu q" "last_instr prev (map qi_qpu (out s))" "sv_sb s"] by (simp add: check_inv_def program_allowed_append)
qed

lemma nop_allowed: "instr_allowed prev v3d_qpu_nop"
  by (auto simp: instr_allowed_def peripheral_uses_def magic_writes_def v3d_qpu_nop_def Let_def v3d_qpu_uses_mux_def v3d_qpu_writes_r4_def writes_sfu_def
      v3d_qpu_magic_waddr_is_sfu_def v3d_qpu_add_op_num_src_def v3d_qpu_mul_op_num_src_def)

lemma check_idle: "check_inv prev s \<Longrightarrow> check_inv prev (emit_inst (vir_nop p) s)"
  by (rule check_emit) (simp_all add: nop_allowed, simp add: v3d_qpu_nop_def Let_def)

section \<open>Branches\<close>

definition special :: "v3d_qpu_instr \<Rightarrow> bool" where
  "special i \<longleftrightarrow> instr_type i = V3D_QPU_INSTR_TYPE_BRANCH \<or> thrsw (sig i)"

text \<open>The position that the block keeps as the one of its branch: of the last branch or thread switch.\<close>

fun branch_ip :: "u32 \<Rightarrow> u32 \<Rightarrow> v3d_qpu_instr list \<Rightarrow> u32" where
  "branch_ip ip start [] = ip"
| "branch_ip ip start (i # is) = branch_ip (if special i then start else ip) (start + 1) is"

lemma branch_ip_append: "branch_ip ip start (is @ js) = branch_ip (branch_ip ip start is) (start + of_nat (length is)) js"
  by (induction "is" arbitrary: ip start) (simp_all add: add.assoc)

lemma nop_not_special [simp]: "\<not> special v3d_qpu_nop"
  by (simp add: special_def v3d_qpu_nop_def Let_def)

end
