(* ===== verification/Sched_Loop.thy ===== *)
theory Sched_Loop
  imports Sched_Emit
begin

text \<open>
  The loop of \<open>schedule_instructions\<close>: its invariant, one round, and that it ends with all instructions of the block scheduled.
\<close>

section \<open>Blocks that can be scheduled\<close>

abbreviation is_branch :: "qinst \<Rightarrow> bool" where
  "is_branch q \<equiv> instr_type (qi_qpu q) = V3D_QPU_INSTR_TYPE_BRANCH"

text \<open>
  The analysis knows what each instruction accesses, each instruction alone uses at most one peripheral and has halves that can be encoded,
  and only the last one is a branch.
\<close>

definition block_ok :: "qinst list \<Rightarrow> bool" where
  "block_ok qs \<longleftrightarrow> (\<forall>q\<in>set qs. deps_ok q \<and> peripheral_uses (qi_qpu q) \<le> 1 \<and> (if is_branch q then \<not> ldvary (sig (qi_qpu q)) else halves_ok q)) \<and>
     (\<forall>q\<in>set (butlast qs). \<not> is_branch q) \<and> length qs < 2 ^ 31"

lemma branch_last:
  assumes "block_ok qs" "j < length qs" "is_branch (qs ! j)"
  shows "Suc j = length qs"
proof (rule ccontr)
  assume "Suc j \<noteq> length qs"
  then have "qs ! j \<in> set (butlast qs)" using assms(2) by (metis Suc_lessI length_butlast less_diff_conv nth_butlast nth_mem Suc_eq_plus1)
  then show False using assms(1,3) by (auto simp: block_ok_def)
qed

lemma block_okD:
  assumes "block_ok qs" "j < length qs"
  shows "peripheral_uses (qi_qpu (qs ! j)) \<le> 1" "is_branch (qs ! j) \<Longrightarrow> \<not> ldvary (sig (qi_qpu (qs ! j)))"
  using assms nth_mem [OF assms(2)] by (auto simp: block_ok_def split: if_splits)

text \<open>A branch that is the only ready node is the only node left.\<close>

lemma branch_alone:
  assumes r: "ready n ent T (released ent T) [j] nodes" and d: "dag_ok n ent" and j: "Suc j = n"
  shows "insert j T = {..<n}"
proof -
  note R = readyD [OF r]
  have "i \<in> insert j T" if "i < n" for i
    using that
  proof (induction i rule: less_induct)
    case (less i)
    show ?case
    proof (rule ccontr)
      assume i: "i \<notin> insert j T"
      then have "into n ent (released ent T) i \<noteq> {}" using R(3) less.prems by force
      then obtain i' k where "(i', k) \<in> into n ent (released ent T) i" by fastforce
      then have k: "i' < n" "k < length (ent i')" "fst (ent i' ! k) = i" "i' \<notin> T" by (auto simp: into_released)
      then have "i' < i" using dag_okD(2) [OF d k(1), of i "snd (ent i' ! k)"] nth_mem [OF k(2)] by (metis prod.collapse)
      moreover have "i' \<noteq> j" using \<open>i' < i\<close> less.prems j by auto
      ultimately show False using less.IH [OF _ k(1)] k(4) by auto
    qed
  qed
  moreover have "j < n" "T \<subseteq> {..<n}" using R(4) j by auto
  ultimately show ?thesis by auto
qed

section \<open>The invariant\<close>

definition emitted_inv :: "qpu_compile \<Rightarrow> qpu_block \<Rightarrow> u32 \<Rightarrow> u32 \<Rightarrow> schedule_vars \<Rightarrow> bool" where
  "emitted_inv c0 b0 ip bu s \<longleftrightarrow> qpu_inst_count (sv_c s) = qpu_inst_count c0 + of_nat (length (out s)) \<and> pc_blocks (sv_c s) = pc_blocks c0 \<and>
     num_uniforms (sv_c s) = num_uniforms c0 \<and> pb_successors (sv_block s) = pb_successors b0 \<and> start_qpu_ip (sv_block s) = start_qpu_ip b0 \<and>
     start_uniform (sv_block s) = start_uniform b0 \<and> branch_qpu_ip (sv_block s) = ip \<and> branch_uniform (sv_block s) = bu"

text \<open>The place in the stream that the block keeps as the one of its branch.\<close>

definition branch_place :: "u32 \<Rightarrow> qinst list \<Rightarrow> u32" where
  "branch_place u qs = fold (\<lambda>q u. if is_branch q \<and> qi_uniform q \<noteq> - 1 then of_int (qi_uniform q) else u) qs u"

lemma branch_place_append: "branch_place u (qs @ rs) = branch_place (branch_place u qs) rs"
  by (simp add: branch_place_def)

lemma branch_place_idle: "\<forall>q\<in>set qs. \<not> is_branch q \<Longrightarrow> branch_place u qs = u"
  unfolding branch_place_def by (induction qs) auto

record sched_params =
  sp_qs :: "qinst list"
  sp_ent :: node_edges
  sp_contents :: "quniform_contents list"
  sp_data :: "u32 list"
  sp_c :: qpu_compile
  sp_block :: qpu_block
  sp_next :: nat
  sp_prev :: "v3d_qpu_instr option"

definition sched_round :: "sched_params \<Rightarrow> u32 \<Rightarrow> u32 \<Rightarrow> nat list list \<Rightarrow> schedule_vars \<Rightarrow> bool" where
  "sched_round p ip bu G s \<longleftrightarrow> order_inv (sp_qs p) (sp_ent p) G s \<and> stream_inv (sp_qs p) (sp_contents p) (sp_data p) (sp_c p) (sp_next p) G s \<and>
     check_inv (sp_prev p) s \<and> map qi_qpu (out s) = map (group_qpu (sp_qs p)) G \<and> emitted_inv (sp_c p) (sp_block p) ip bu s"

lemma sched_roundD:
  assumes "sched_round p ip bu G s"
  shows "order_inv (sp_qs p) (sp_ent p) G s" "stream_inv (sp_qs p) (sp_contents p) (sp_data p) (sp_c p) (sp_next p) G s"
    "check_inv (sp_prev p) s" "map qi_qpu (out s) = map (group_qpu (sp_qs p)) G" "emitted_inv (sp_c p) (sp_block p) ip bu s"
  using assms by (auto simp: sched_round_def)

lemma emit_block_inv: "emitted_inv c0 b0 ip bu s \<Longrightarrow> emitted_inv c0 b0 ip bu (emit_inst q s)"
  by (simp add: emitted_inv_def)

lemma round_idle: "sched_round p ip bu G s \<Longrightarrow> sched_round p ip bu (G @ [[]]) (emit_inst (vir_nop a) s)"
  unfolding sched_round_def using order_idle [of _ _ G s] stream_idle check_idle emit_block_inv by (simp add: group_qpu_def)

lemma round_idles:
  "sched_round p ip bu G s \<Longrightarrow> sched_round p ip bu (G @ replicate (length is) []) (fold (\<lambda>_ s. emit_inst (vir_nop (calloc (qpu_inst_count (sv_c s)))) s) is s)"
proof (induction "is" arbitrary: G s)
  case (Cons i "is")
  from Cons.IH [OF round_idle [OF Cons.prems]] show ?case by simp
qed simp

lemma round_ip: "sched_round p ip bu G s \<Longrightarrow> sched_round p ip' bu G (s\<lparr>sv_block := (sv_block s)\<lparr>branch_qpu_ip := ip'\<rparr>\<rparr>)"
  by (auto simp: sched_round_def order_inv_def stream_inv_def check_inv_def emitted_inv_def)

lemma round_fill:
  assumes r: "sched_round p ip bu (G @ [g]) s"
  shows "sched_round p (if special i then qpu_inst_count (sp_c p) + of_nat (length G) else ip) bu
    (G @ g # replicate (if instr_type i = V3D_QPU_INSTR_TYPE_BRANCH then 3 else if thrsw (sig i) then 2 else 0) []) (fill_delay_slots calloc i s)"
proof (cases "special i")
  case True
  let ?n = "if instr_type i = V3D_QPU_INSTR_TYPE_BRANCH then 3 else 2 :: nat"
  have "length (out s) = Suc (length G)" using arg_cong [OF sched_roundD(4) [OF r], of length] by simp
  then have c: "qpu_inst_count (sv_c s) - 1 = qpu_inst_count (sp_c p) + of_nat (length G)" using sched_roundD(5) [OF r] by (simp add: emitted_inv_def)
  from round_idles [OF round_ip [OF r, of "qpu_inst_count (sv_c s) - 1"], of "[0..<?n]" calloc]
  have "sched_round p (qpu_inst_count (sv_c s) - 1) bu ((G @ [g]) @ replicate ?n []) (fill_delay_slots calloc i s)"
    using True unfolding fill_delay_slots_def special_def by simp
  then show ?thesis using True unfolding c by (auto simp: special_def)
qed (use r in \<open>simp add: special_def fill_delay_slots_def\<close>)

section \<open>One round\<close>

definition uniform_room :: "sched_params \<Rightarrow> bool" where
  "uniform_room p \<longleftrightarrow> (\<forall>q\<in>set (sp_qs p). uniform_ok (sp_contents p) (sp_data p) q) \<and>
     sp_next p + length (filter (\<lambda>q. qi_uniform q \<noteq> - 1) (sp_qs p)) \<le> length (uniform_data (sp_c p)) \<and>
     sp_next p + length (filter (\<lambda>q. qi_uniform q \<noteq> - 1) (sp_qs p)) \<le> length (uniform_contents (sp_c p))"

lemma group_uniform_ok:
  assumes "group_ok qs g" "\<forall>q\<in>set qs. uniform_ok oc od q" "group_inst qs g q0"
  shows "uniform_ok oc od q0"
proof (cases "group_uniform qs g = - 1")
  case False
  then obtain i where "i \<in> set g" "qi_uniform (qs ! i) = group_uniform qs g" using group_uses(2) [OF assms(1)] by blast
  moreover have "i < length qs" using calculation(1) assms(1) by (simp add: group_ok_def)
  ultimately show ?thesis using assms(2,3) nth_mem [of i qs] by (fastforce simp: uniform_ok_def group_inst_def)
qed (use assms(3) in \<open>simp add: uniform_ok_def group_inst_def\<close>)

lemma uses_room:
  assumes G: "\<forall>g\<in>set (G @ [g]). group_ok qs g" "distinct (concat (G @ [g]))" and u: "group_uniform qs g \<noteq> - 1"
  shows "length (uses qs G) < length (filter (\<lambda>q. qi_uniform q \<noteq> - 1) qs)"
proof -
  have "length (uses qs (G @ [g])) = Suc (length (uses qs G))" using u by (simp add: uses_single)
  moreover have "length (uses qs (G @ [g])) = card {i \<in> set (concat (G @ [g])). qi_uniform (qs ! i) \<noteq> - 1}" by (rule uses_card [OF G])
  moreover have "\<dots> \<le> card {i. i < length qs \<and> qi_uniform (qs ! i) \<noteq> - 1}"
    using G(1) by (intro card_mono) (auto simp: group_ok_def)
  ultimately show ?thesis by (simp add: length_filter_conv_card)
qed

text \<open>The instruction that is emitted for a group is allowed after the ones before it.\<close>

lemma group_allowed:
  assumes b: "block_ok qs" and g: "group_ok qs (j # ms)" and s: "scoreboard_ok prev sb" and j: "\<not> too_soon sb L (qs ! j)" and m: "\<forall>m\<in>set ms. \<exists>L'. \<not> too_soon sb L' (qs ! m)"
  shows "instr_allowed prev (group_qpu qs (j # ms))" "instr_type (group_qpu qs (j # ms)) = V3D_QPU_INSTR_TYPE_BRANCH \<Longrightarrow> ms = [] \<and> is_branch (qs ! j)"
proof -
  have jl: "j < length qs" using g by (simp add: group_ok_def)
  have aj: "instr_allowed prev (qi_qpu (qs ! j))" by (rule not_too_soon_allowed [OF s j block_okD(1) [OF b jl]])
  have "instr_allowed prev (group_qpu qs (j # ms)) \<and> (instr_type (group_qpu qs (j # ms)) = V3D_QPU_INSTR_TYPE_BRANCH \<longrightarrow> ms = [] \<and> is_branch (qs ! j))"
  proof (cases ms)
    case (Cons k ks)
    then have k: "k < length qs" and q: "qpu_merge_inst False (qi_qpu (qs ! j)) (qi_qpu (qs ! k)) = ret (Some (merged_inst (qi_qpu (qs ! j)) (qi_qpu (qs ! k))))"
      using g by (auto simp: group_ok_def)
    obtain L' where "\<not> too_soon sb L' (qs ! k)" using m Cons by auto
    then have "instr_allowed prev (qi_qpu (qs ! k))" using not_too_soon_allowed [OF s] block_okD(1) [OF b k] by blast
    moreover have "instr_type (merged_inst (qi_qpu (qs ! j)) (qi_qpu (qs ! k))) = V3D_QPU_INSTR_TYPE_ALU"
      using merge_Some(1) [OF q] by (simp add: merged_type merge_conflict_def)
    ultimately show ?thesis using merged_allowed [OF q aj] Cons by (simp add: group_qpu_def)
  qed (use aj in \<open>simp add: group_qpu_def\<close>)
  then show "instr_allowed prev (group_qpu qs (j # ms))" "instr_type (group_qpu qs (j # ms)) = V3D_QPU_INSTR_TYPE_BRANCH \<Longrightarrow> ms = [] \<and> is_branch (qs ! j)" by auto
qed

lemma mark_group:
  assumes r: "ready n ent (set (j # ms) \<union> T) (released ent T \<union> waits ent j) L nodes" and d: "dag_ok n ent" "n < 2 ^ 31" and ms: "length ms \<le> 1"
  shows "\<exists>L' nodes'. bind_run (mark_instruction_scheduled time (Some j) False (L, nodes)) (mark_instruction_scheduled time (case ms of [] \<Rightarrow> None | m # _ \<Rightarrow> Some m) False) = ret (L', nodes') \<and>
    kept nodes nodes' \<and> ready n ent (set (j # ms) \<union> T) (released ent (set (j # ms) \<union> T)) L' nodes'"
proof -
  let ?T = "set (j # ms) \<union> T"
  have le: "i < n" if "i \<in> ?T" for i using readyD(4) [OF r] that by auto
  have w: "(released ent T \<union> waits ent j) \<union> {(j, k) | k. k < length (ent j) \<and> (False \<longrightarrow> snd (ent j ! k))} = released ent (insert j T)"
    by (auto simp: released_insert waits_def)
  obtain L1 n1 where 1: "mark_instruction_scheduled time (Some j) False (L, nodes) = ret (L1, n1)" "kept nodes n1" "ready n ent ?T (released ent (insert j T)) L1 n1"
    using mark_scheduled_ok [OF r d, of j time False] le [of j] unfolding w by auto
  show ?thesis
  proof (cases ms)
    case Nil
    then show ?thesis using 1 by (simp add: mark_instruction_scheduled_def [of time None])
  next
    case (Cons m rest)
    then have m: "ms = [m]" using ms by simp
    have w2: "released ent (insert j T) \<union> {(m, k) | k. k < length (ent m) \<and> (False \<longrightarrow> snd (ent m ! k))} = released ent ?T"
      by (auto simp: released_def m)
    obtain L2 n2 where "mark_instruction_scheduled time (Some m) False (L1, n1) = ret (L2, n2)" "kept n1 n2" "ready n ent ?T (released ent ?T) L2 n2"
      using mark_scheduled_ok [OF 1(3) d, of m time False] le [of m] m unfolding w2 by auto
    then show ?thesis using 1(1) kept_trans [OF 1(2)] m by auto
  qed
qed

lemma group_ok_length: "group_ok qs (j # ms) \<Longrightarrow> length ms \<le> 1"
  by (auto simp: group_ok_def split: list.splits)

lemma moved_simps [simp]:
  "sv_list (moved oc od q s) = sv_list s" "sv_nodes (moved oc od q s) = sv_nodes s" "sv_time (moved oc od q s) = sv_time s" "sv_sb (moved oc od q s) = sv_sb s"
  "out (moved oc od q s) = out s" "pc_blocks (sv_c (moved oc od q s)) = pc_blocks (sv_c s)" "num_uniforms (sv_c (moved oc od q s)) = num_uniforms (sv_c s)"
  "qpu_inst_count (sv_c (moved oc od q s)) = qpu_inst_count (sv_c s)"
  by (simp_all add: moved_def)

lemma moved_block:
  assumes "emitted_inv c0 b0 ip bu s" "q = (if qi_uniform q0 = - 1 then q0 else q0\<lparr>qi_uniform := int (sv_next_uniform s)\<rparr>)"
    "sv_c s' = sv_c (moved oc od q0 s)" "sv_block s' = sv_block (moved oc od q0 s)"
  shows "emitted_inv c0 b0 ip (branch_place bu [q]) (emit_inst q s')"
  using assms by (auto simp: emitted_inv_def moved_def branch_place_def)

definition slots :: "v3d_qpu_instr \<Rightarrow> nat" where
  "slots i = (if instr_type i = V3D_QPU_INSTR_TYPE_BRANCH then 3 else if thrsw (sig i) then 2 else 0)"

lemma fill_out: "\<exists>ns. out (fill_delay_slots calloc i s) = out s @ ns \<and> (\<forall>q\<in>set ns. qi_qpu q = v3d_qpu_nop)"
proof -
  have "\<exists>ns. out (fold (\<lambda>_ s. emit_inst (vir_nop (calloc (qpu_inst_count (sv_c s)))) s) is s) = out s @ ns \<and> (\<forall>q\<in>set ns. qi_qpu q = v3d_qpu_nop)" for "is" :: "nat list" and s
  proof (induction "is" arbitrary: s)
    case (Cons i "is")
    from Cons.IH [of "emit_inst (vir_nop (calloc (qpu_inst_count (sv_c s)))) s"] show ?case by fastforce
  qed simp
  from this [of "[0..<if instr_type i = V3D_QPU_INSTR_TYPE_BRANCH then 3 else 2]" "s\<lparr>sv_block := (sv_block s)\<lparr>branch_qpu_ip := qpu_inst_count (sv_c s) - 1\<rparr>\<rparr>"]
  show ?thesis unfolding fill_delay_slots_def by simp
qed

lemma step_chosen:
  assumes i: "sched_round p ip bu G s" and b: "block_ok (sp_qs p)" and u: "uniform_room p" and d: "dag_ok (length (sp_qs p)) (sp_ent p)"
    and j: "j \<in> set (sv_list s)" "\<not> too_soon (sv_sb s) (sv_list s) (sp_qs p ! j)"
    and c: "choose_instruction_to_schedule (sv_sb s) (sv_list s) (sv_nodes s) None = ret (Some j)"
  shows "\<exists>ms q s'. schedule_step calloc (sp_contents p) (sp_data p) s = ret s' \<and> (\<exists>ns. out s' = out s @ q # ns \<and> (\<forall>q\<in>set ns. qi_qpu q = v3d_qpu_nop)) \<and>
    sched_round p (if special (group_qpu (sp_qs p) (j # ms)) then qpu_inst_count (sp_c p) + of_nat (length G) else ip) (branch_place bu [q])
      (G @ (j # ms) # replicate (slots (group_qpu (sp_qs p) (j # ms))) []) s' \<and>
    (instr_type (group_qpu (sp_qs p) (j # ms)) = V3D_QPU_INSTR_TYPE_BRANCH \<longrightarrow> ms = [] \<and> is_branch (sp_qs p ! j))"
proof -
  let ?qs = "sp_qs p" and ?ent = "sp_ent p" and ?T = "set (concat G)" and ?n = "length (sp_qs p)"
  note I = sched_roundD [OF i]
  note O = order_invD [OF I(1)]
  have n: "?n < 2 ^ 31" and pairs: "pairs_ok ?qs" using b halves_pairs by (auto simp: block_ok_def split: if_splits)
  obtain ms L nodes time where t: "take_chosen j s = ret (s\<lparr>sv_time := time, sv_list := L, sv_nodes := nodes\<rparr>, case ms of [] \<Rightarrow> None | m # _ \<Rightarrow> Some m)"
    "ready ?n ?ent (set (j # ms) \<union> ?T) (released ?ent ?T \<union> waits ?ent j) L nodes" "insts_left ?qs (set (j # ms) \<union> ?T) nodes"
    "group_ok ?qs (j # ms)" "group_inst ?qs (j # ms) (sn_inst (nodes ! j))" "set ms \<inter> (insert j ?T) = {}"
    "\<forall>m\<in>set ms. \<exists>L'. \<not> too_soon (sv_sb s) L' (?qs ! m)"
    using take_chosen_ok [OF O(1,3) d n j(1) pairs] by blast
  let ?g = "j # ms" and ?q0 = "sn_inst (nodes ! j)" and ?s1 = "s\<lparr>sv_time := time, sv_list := L, sv_nodes := nodes\<rparr>"
  have jn: "j < length nodes" "length nodes = ?n" using readyD(4,6) [OF t(2)] by auto
  have dis: "distinct (concat (G @ [?g]))"
    using O(1,2) t(4,6) readyD(3) [OF O(1)] j(1) by (auto simp: group_ok_def simp del: set_concat split: list.splits)
  have gs: "\<forall>g\<in>set (G @ [?g]). group_ok ?qs g" using O(4) t(4) by auto
  have uq: "qi_uniform ?q0 = group_uniform ?qs ?g" and qq: "qi_qpu ?q0 = group_qpu ?qs ?g" using t(5) by (simp_all add: group_inst_def)
  have ok: "uniform_ok (sp_contents p) (sp_data p) ?q0" using group_uniform_ok [OF t(4) _ t(5)] u by (simp add: uniform_room_def)
  have room: "sv_next_uniform s < length (uniform_data (sv_c s)) \<and> sv_next_uniform s < length (uniform_contents (sv_c s))" if "qi_uniform ?q0 \<noteq> - 1"
    using uses_room [OF gs dis] that uq u stream_invD(2-4) [OF I(2)] by (simp add: uniform_room_def)
  define q where "q = (if qi_uniform ?q0 = - 1 then ?q0 else ?q0\<lparr>qi_uniform := int (sv_next_uniform s)\<rparr>)"
  have qq': "qi_qpu q = group_qpu ?qs ?g" using qq by (simp add: q_def)
  let ?s2 = "moved (sp_contents p) (sp_data p) ?q0 ?s1" and ?n2 = "nodes[j := (nodes ! j)\<lparr>sn_inst := q\<rparr>]"
  have mv: "move_uniform (sp_contents p) (sp_data p) ?q0 ?s1 = ret (?s2, q)" using move_uniform_ok [OF ok, of ?s1] room by (simp add: q_def)
  obtain L3 n3 where m: "bind_run (mark_instruction_scheduled time (Some j) False (L, ?n2)) (mark_instruction_scheduled time (case ms of [] \<Rightarrow> None | m # _ \<Rightarrow> Some m) False) = ret (L3, n3)"
    "kept ?n2 n3" "ready ?n ?ent (set ?g \<union> ?T) (released ?ent (set ?g \<union> ?T)) L3 n3"
    using mark_group [OF sn_inst_ready [OF t(2)] d n group_ok_length [OF t(4)]] by blast
  let ?s3 = "?s2\<lparr>sv_list := L3, sv_nodes := n3\<rparr>"
  let ?s4 = "emit_inst q ?s3"
  obtain lists where "mark_instruction_scheduled time (Some j) False (L, ?n2) = ret lists"
    "mark_instruction_scheduled time (case ms of [] \<Rightarrow> None | m # _ \<Rightarrow> Some m) False lists = ret (L3, n3)" using m(1) by (auto simp: bind_run_ret_iff)
  then have step: "schedule_step calloc (sp_contents p) (sp_data p) s = ret (fill_delay_slots calloc (qi_qpu q) ?s4)"
    using c t(1) jn mv by (simp add: schedule_step_def update_at_def)
  have "insts_left ?qs (set ?g \<union> ?T) ?n2" using t(3) jn by (auto simp: insts_left_def)
  then have l3: "insts_left ?qs (set ?g \<union> ?T) n3" using jn by (intro insts_left_kept [OF _ m(2) _ order_refl]) simp_all
  have into: "\<forall>m\<in>set ms. into ?n ?ent (released ?ent ?T \<union> waits ?ent j) m = {}" using readyD(5) [OF t(2)] by auto
  have o: "order_inv ?qs ?ent (G @ [?g]) ?s4" using order_group [OF I(1) j(1) t(6,4) into] m(3) l3 by simp
  have st: "stream_inv ?qs (sp_contents p) (sp_data p) (sp_c p) (sp_next p) (G @ [?g]) ?s4"
    by (rule stream_group [OF I(2) t(5) room q_def]) (simp_all add: moved_def)
  have al: "instr_allowed (last_instr (sp_prev p) (map qi_qpu (out s))) (group_qpu ?qs ?g)" "instr_type (group_qpu ?qs ?g) = V3D_QPU_INSTR_TYPE_BRANCH \<Longrightarrow> ms = [] \<and> is_branch (?qs ! j)"
    using group_allowed [OF b t(4) _ j(2) t(7)] I(3) by (auto simp: check_inv_def)
  have nl: "\<not> ldvary (sig (group_qpu ?qs ?g))" if "instr_type (group_qpu ?qs ?g) = V3D_QPU_INSTR_TYPE_BRANCH"
    using al(2) [OF that] block_okD(2) [OF b, of j] jn by (simp add: group_qpu_def)
  have "check_inv (sp_prev p) ?s3" using I(3) by (simp add: check_inv_def)
  then have ch: "check_inv (sp_prev p) ?s4" by (rule check_emit) (use al(1) nl qq' in simp_all)
  have bl: "emitted_inv (sp_c p) (sp_block p) ip (branch_place bu [q]) ?s4" by (rule moved_block [OF I(5) q_def, where oc = "sp_contents p" and od = "sp_data p"]) (simp_all add: moved_def)
  have "sched_round p ip (branch_place bu [q]) (G @ [?g]) ?s4" unfolding sched_round_def using o st ch bl I(4) qq' by simp
  from round_fill [OF this, of "qi_qpu q" calloc]
  have "sched_round p (if special (group_qpu ?qs ?g) then qpu_inst_count (sp_c p) + of_nat (length G) else ip) (branch_place bu [q])
      (G @ ?g # replicate (slots (group_qpu ?qs ?g)) []) (fill_delay_slots calloc (qi_qpu q) ?s4)" unfolding slots_def qq' .
  moreover have "\<exists>ns. out (fill_delay_slots calloc (qi_qpu q) ?s4) = out s @ q # ns \<and> (\<forall>q\<in>set ns. qi_qpu q = v3d_qpu_nop)"
    using fill_out [of calloc "qi_qpu q" ?s4] by auto
  ultimately show ?thesis using step al(2) by blast
qed

section \<open>The loop\<close>

text \<open>Once the branch was scheduled, nothing is left, and its delay slots are the last instructions.\<close>

definition branch_end :: "qinst list \<Rightarrow> nat list list \<Rightarrow> bool" where
  "branch_end qs G \<longleftrightarrow> (\<forall>j\<in>set (concat G). is_branch (qs ! j) \<longrightarrow> set (concat G) = {..<length qs} \<and> (\<exists>G'. G = G' @ [[j], [], [], []]))"

definition sched_inv :: "sched_params \<Rightarrow> nat list list \<Rightarrow> schedule_vars \<Rightarrow> bool" where
  "sched_inv p G s \<longleftrightarrow> branch_end (sp_qs p) G \<and>
     sched_round p (branch_ip (branch_qpu_ip (sp_block p)) (qpu_inst_count (sp_c p)) (map (group_qpu (sp_qs p)) G)) (branch_place (branch_uniform (sp_block p)) (out s)) G s"

lemma branch_ip_idle: "branch_ip ip start (replicate k v3d_qpu_nop) = ip"
  by (induction k arbitrary: start) simp_all

lemma group_branch:
  assumes "group_ok qs (j # ms)" "i \<in> set (j # ms)" "is_branch (qs ! i)"
  shows "ms = [] \<and> i = j"
proof (cases ms)
  case (Cons m rest)
  then have "qpu_merge_inst False (qi_qpu (qs ! j)) (qi_qpu (qs ! m)) = ret (Some (merged_inst (qi_qpu (qs ! j)) (qi_qpu (qs ! m))))" "rest = []"
    using assms(1) by (auto simp: group_ok_def)
  from merge_Some(1) [OF this(1)] show ?thesis using assms(2,3) Cons \<open>rest = []\<close> by (auto simp: merge_conflict_def)
qed (use assms(2) in simp)

lemma step_idle:
  assumes i: "sched_inv p G s" and b: "block_ok (sp_qs p)" and L: "sv_list s \<noteq> []"
    and c: "choose_instruction_to_schedule (sv_sb s) (sv_list s) (sv_nodes s) None = ret None" and t: "\<forall>j\<in>set (sv_list s). too_soon (sv_sb s) (sv_list s) (sp_qs p ! j)"
    and nb: "\<forall>j\<in>set (concat G). \<not> is_branch (sp_qs p ! j)"
  shows "\<exists>s'. schedule_step calloc (sp_contents p) (sp_data p) s = ret s' \<and> sched_inv p (G @ [[]]) s' \<and> stall (sv_sb s') < stall (sv_sb s)"
proof -
  let ?s = "emit_inst (vir_nop (calloc (qpu_inst_count (sv_c s)))) s"
  note R = readyD [OF order_invD(1) [OF sched_roundD(1) [OF conjunct2 [OF i [unfolded sched_inv_def]]]]]
  have "\<exists>j\<in>set (sv_list s). is_branch (sp_qs p ! j) \<longrightarrow> length (sv_list s) = 1"
  proof (rule ccontr)
    assume n: "\<not> ?thesis"
    then have "Suc j = length (sp_qs p)" if "j \<in> set (sv_list s)" for j using that branch_last [OF b] R(3) by blast
    then have "set (sv_list s) \<subseteq> {length (sp_qs p) - 1}" by fastforce
    then have "length (sv_list s) \<le> 1" using card_mono [of "{length (sp_qs p) - 1}" "set (sv_list s)"] distinct_card [OF R(2)] by simp
    then show False using n L by (cases "sv_list s") auto
  qed
  then have "stall (sv_sb s) \<noteq> 0" using t no_stall by blast
  then have "stall (sv_sb ?s) < stall (sv_sb s)" using stall_nop by (simp add: nop_scoreboard)
  moreover have "schedule_step calloc (sp_contents p) (sp_data p) s = ret ?s" using c by (simp add: schedule_step_def)
  moreover have "branch_end (sp_qs p) (G @ [[]])" using nb by (simp add: branch_end_def)
  moreover have "branch_ip ip start (map (group_qpu (sp_qs p)) (G @ [[]])) = branch_ip ip start (map (group_qpu (sp_qs p)) G)" for ip start
    by (simp add: branch_ip_append group_qpu_def)
  moreover have "branch_place u (out ?s) = branch_place u (out s)" for u
    using branch_place_idle [of "[vir_nop (calloc (qpu_inst_count (sv_c s)))]"] by (simp add: branch_place_append) (simp add: v3d_qpu_nop_def Let_def)
  ultimately show ?thesis using i round_idle unfolding sched_inv_def by auto
qed

lemma step_taken:
  assumes i: "sched_inv p G s" and b: "block_ok (sp_qs p)" and u: "uniform_room p" and d: "dag_ok (length (sp_qs p)) (sp_ent p)"
    and j: "j \<in> set (sv_list s)" "\<not> too_soon (sv_sb s) (sv_list s) (sp_qs p ! j)"
    and c: "choose_instruction_to_schedule (sv_sb s) (sv_list s) (sv_nodes s) None = ret (Some j)"
    and nb: "\<forall>j\<in>set (concat G). \<not> is_branch (sp_qs p ! j)"
  shows "\<exists>s' G'. schedule_step calloc (sp_contents p) (sp_data p) s = ret s' \<and> sched_inv p G' s' \<and> length (concat G) < length (concat G') \<and> length G' \<le> length G + 4"
proof -
  let ?qs = "sp_qs p" and ?ip = "branch_ip (branch_qpu_ip (sp_block p)) (qpu_inst_count (sp_c p))" and ?bu = "branch_place (branch_uniform (sp_block p))"
  have r: "sched_round p (?ip (map (group_qpu ?qs) G)) (?bu (out s)) G s" using i by (simp add: sched_inv_def)
  obtain ms q s' where s: "schedule_step calloc (sp_contents p) (sp_data p) s = ret s'" "\<exists>ns. out s' = out s @ q # ns \<and> (\<forall>q\<in>set ns. qi_qpu q = v3d_qpu_nop)"
    "sched_round p (if special (group_qpu ?qs (j # ms)) then qpu_inst_count (sp_c p) + of_nat (length G) else ?ip (map (group_qpu ?qs) G)) (branch_place (?bu (out s)) [q])
      (G @ (j # ms) # replicate (slots (group_qpu ?qs (j # ms))) []) s'"
    using step_chosen [OF r b u d j c] by blast
  let ?g = "j # ms" and ?G = "G @ (j # ms) # replicate (slots (group_qpu ?qs (j # ms))) []"
  have g: "group_ok ?qs ?g" using order_invD(4) [OF sched_roundD(1) [OF s(3)]] by simp
  have "?ip (map (group_qpu ?qs) ?G) = (if special (group_qpu ?qs ?g) then qpu_inst_count (sp_c p) + of_nat (length G) else ?ip (map (group_qpu ?qs) G))"
    using branch_ip_idle by (simp add: branch_ip_append group_qpu_def [of _ "[]"])
  moreover have "?bu (out s') = branch_place (?bu (out s)) [q]"
  proof -
    obtain ns where ns: "out s' = out s @ [q] @ ns" "\<forall>q\<in>set ns. qi_qpu q = v3d_qpu_nop" using s(2) by auto
    have "\<forall>q\<in>set ns. \<not> is_branch q" using ns(2) by (simp add: v3d_qpu_nop_def Let_def)
    then show ?thesis unfolding ns(1) branch_place_append by (simp add: branch_place_idle)
  qed
  moreover have "branch_end ?qs ?G" unfolding branch_end_def
  proof (intro ballI impI)
    fix i assume "i \<in> set (concat ?G)" "is_branch (?qs ! i)"
    then have "i \<in> set ?g" using nb by auto
    then have e: "ms = []" "i = j" "is_branch (?qs ! j)" using group_branch [OF g _ \<open>is_branch (?qs ! i)\<close>] \<open>is_branch (?qs ! i)\<close> by auto
    note R = order_invD(1) [OF sched_roundD(1) [OF r]]
    have "length (sv_list s) = 1" using j(2) e(3) by (auto simp: too_soon_def Let_def)
    then have l: "sv_list s = [j]" using j(1) by (auto simp: length_Suc_conv)
    have jl: "Suc j = length ?qs" using branch_last [OF b _ e(3)] g by (simp add: group_ok_def)
    have "insert j (set (concat G)) = {..<length ?qs}" by (rule branch_alone [OF R [unfolded l] d jl])
    moreover have "slots (group_qpu ?qs ?g) = 3" using e by (simp add: slots_def group_qpu_def)
    ultimately show "set (concat ?G) = {..<length ?qs} \<and> (\<exists>G'. ?G = G' @ [[i], [], [], []])" using e by (auto simp: numeral_3_eq_3)
  qed
  ultimately have "sched_inv p ?G s'" using s(3) by (simp add: sched_inv_def)
  then show ?thesis using s(1) by (intro exI [of _ s'] exI [of _ ?G]) (simp add: slots_def)
qed

lemma sched_inv_left:
  assumes "sched_inv p G s" "sv_list s \<noteq> []"
  shows "\<forall>j\<in>set (concat G). \<not> is_branch (sp_qs p ! j)" "length (concat G) < length (sp_qs p)"
proof -
  have r: "sched_round p (branch_ip (branch_qpu_ip (sp_block p)) (qpu_inst_count (sp_c p)) (map (group_qpu (sp_qs p)) G)) (branch_place (branch_uniform (sp_block p)) (out s)) G s"
    using assms(1) by (simp add: sched_inv_def)
  note O = order_invD [OF sched_roundD(1) [OF r]]
  note R = readyD [OF O(1)]
  obtain i where "i \<in> set (sv_list s)" using assms(2) by (cases "sv_list s") auto
  then have i: "i < length (sp_qs p)" "i \<notin> set (concat G)" using R(3) by auto
  then have "set (concat G) \<noteq> {..<length (sp_qs p)}" by blast
  then show "\<forall>j\<in>set (concat G). \<not> is_branch (sp_qs p ! j)" using assms(1) unfolding sched_inv_def branch_end_def by blast
  have "card (set (concat G)) < card {..<length (sp_qs p)}" using i R(4) by (intro psubset_card_mono) auto
  then show "length (concat G) < length (sp_qs p)" using distinct_card [OF O(2)] by simp
qed

lemma sched_step_ok:
  assumes i: "sched_inv p G s" and b: "block_ok (sp_qs p)" and u: "uniform_room p" and d: "dag_ok (length (sp_qs p)) (sp_ent p)" and L: "sv_list s \<noteq> []"
  shows "\<exists>s' G'. schedule_step calloc (sp_contents p) (sp_data p) s = ret s' \<and> sched_inv p G' s' \<and>
    (length (concat G) < length (concat G') \<and> length G' \<le> length G + 4 \<or>
     length (concat G) = length (concat G') \<and> length G' = length G + 1 \<and> stall (sv_sb s') < stall (sv_sb s))"
proof -
  note nb = sched_inv_left(1) [OF i L]
  note O = order_invD [OF sched_roundD(1) [OF conjunct2 [OF i [unfolded sched_inv_def]]]]
  note R = readyD [OF O(1)]
  have q: "sn_inst (sv_nodes s ! j) = sp_qs p ! j" if "j \<in> set (sv_list s)" for j using that O(3) R(3) by (auto simp: insts_left_def simp del: set_concat)
  have "\<forall>j\<in>set (sv_list s). j < length (sv_nodes s) \<and> pairing_ok (sv_sb s) (sv_nodes s) None j" using R(3,6) by (simp add: pairing_ok_def)
  from pick_ok [OF this] obtain r where r: "choose_instruction_to_schedule (sv_sb s) (sv_list s) (sv_nodes s) None = ret r"
    "\<forall>j. r = Some j \<longrightarrow> j \<in> set (sv_list s) \<and> admissible (sv_sb s) (sv_list s) (sv_nodes s) None j"
    "r = None \<longrightarrow> (\<forall>j\<in>set (sv_list s). too_soon (sv_sb s) (sv_list s) (sn_inst (sv_nodes s ! j)))" by blast
  show ?thesis
  proof (cases r)
    case None
    then have "\<forall>j\<in>set (sv_list s). too_soon (sv_sb s) (sv_list s) (sp_qs p ! j)" using r(3) q by simp
    then obtain s' where "schedule_step calloc (sp_contents p) (sp_data p) s = ret s'" "sched_inv p (G @ [[]]) s'" "stall (sv_sb s') < stall (sv_sb s)"
      using step_idle [OF i b L _ _ nb] r(1) None by blast
    then show ?thesis by (intro exI [of _ s'] exI [of _ "G @ [[]]"]) simp
  next
    case (Some j)
    then have "j \<in> set (sv_list s)" "\<not> too_soon (sv_sb s) (sv_list s) (sp_qs p ! j)" using r(2) q [of j] by (auto simp: admissible_def)
    then show ?thesis using step_taken [OF i b u d _ _ _ nb] r(1) Some by blast
  qed
qed

lemma sched_inv_stall: "sched_inv p G s \<Longrightarrow> stall (sv_sb s) \<le> 5"
  using stall_bound by (auto simp: sched_inv_def sched_round_def check_inv_def)

text \<open>Every instruction costs its slot, at most three delay slots and at most five idle instructions that the restrictions ask for after it.\<close>

lemma schedule_loop_ok:
  assumes "sched_inv p G s" "block_ok (sp_qs p)" "uniform_room p" "dag_ok (length (sp_qs p)) (sp_ent p)"
  shows "\<exists>s' G'. schedule_loop calloc (sp_contents p) (sp_data p) s = ret s' \<and> sched_inv p G' s' \<and> sv_list s' = [] \<and>
    length G' \<le> length G + stall (sv_sb s) + 9 * (length (sp_qs p) - length (concat G))"
  using assms
proof (induction "(length (sp_qs p) - length (concat G), stall (sv_sb s))" arbitrary: G s rule: wf_induct_rule [OF wf_lex_prod [OF wf_less_than wf_less_than]])
  case 1
  show ?case
  proof (cases "sv_list s = []")
    case True
    then show ?thesis using 1(2) by (subst schedule_loop.simps) auto
  next
    case False
    obtain s1 G1 where s1: "schedule_step calloc (sp_contents p) (sp_data p) s = ret s1" "sched_inv p G1 s1"
      "length (concat G) < length (concat G1) \<and> length G1 \<le> length G + 4 \<or> length (concat G) = length (concat G1) \<and> length G1 = length G + 1 \<and> stall (sv_sb s1) < stall (sv_sb s)"
      using sched_step_ok [OF 1(2-5) False] by blast
    have "((length (sp_qs p) - length (concat G1), stall (sv_sb s1)), (length (sp_qs p) - length (concat G), stall (sv_sb s))) \<in> less_than <*lex*> less_than"
      using s1(3) sched_inv_left(2) [OF 1(2) False] by auto
    from 1(1) [OF this s1(2) 1(3-5)] obtain s' G' where s': "schedule_loop calloc (sp_contents p) (sp_data p) s1 = ret s'" "sched_inv p G' s'" "sv_list s' = []"
      "length G' \<le> length G1 + stall (sv_sb s1) + 9 * (length (sp_qs p) - length (concat G1))" by blast
    have "length G' \<le> length G + stall (sv_sb s) + 9 * (length (sp_qs p) - length (concat G))"
      using s'(4) s1(3) sched_inv_stall [OF s1(2)] sched_inv_left(2) [OF 1(2) False] by linarith
    then show ?thesis using s'(1-3) False s1(1) by (subst schedule_loop.simps) auto
  qed
qed

end
