(* ===== verification/Sched_Block.thy ===== *)
theory Sched_Block
  imports Sched_Loop
begin

text \<open>
  The scheduling of a block: it ends, and what it emits is a schedule of the block, that is, every instruction is emitted once, alone or in a pair, and
  in an order that keeps the dependencies. Such an order does not change what the instructions compute.
\<close>

section \<open>Schedules\<close>

definition schedule_of :: "qinst list \<Rightarrow> nat list list \<Rightarrow> bool" where
  "schedule_of qs G \<longleftrightarrow> distinct (concat G) \<and> set (concat G) = {..<length qs} \<and> (\<forall>g\<in>set G. group_ok qs g) \<and>
     (\<forall>j < length qs. \<forall>i. (depends (\<lambda>j. accesses (qs ! j)) i j \<longrightarrow> pos G i < pos G j) \<and>
        (read_before (\<lambda>j. accesses (qs ! j)) i j \<longrightarrow> pos G i \<le> pos G j))"

lemma schedule_ofD:
  assumes "schedule_of qs G"
  shows "distinct (concat G)" "set (concat G) = {..<length qs}" "g \<in> set G \<Longrightarrow> group_ok qs g"
    "j < length qs \<Longrightarrow> depends (\<lambda>j. accesses (qs ! j)) i j \<Longrightarrow> pos G i < pos G j"
    "j < length qs \<Longrightarrow> read_before (\<lambda>j. accesses (qs ! j)) i j \<Longrightarrow> pos G i \<le> pos G j"
  using assms unfolding schedule_of_def by blast+

text \<open>What is known of the variables after a block that starts with compile \<open>c0\<close> and place \<open>k0\<close> in the stream of uniforms.\<close>

definition block_result :: "quniform_contents list \<Rightarrow> u32 list \<Rightarrow> qpu_compile \<Rightarrow> qpu_block \<Rightarrow> nat \<Rightarrow> v3d_qpu_instr option \<Rightarrow> nat list list \<Rightarrow> schedule_vars \<Rightarrow> bool" where
  "block_result oc od c0 b0 k0 prev G s \<longleftrightarrow> schedule_of (pb_instructions b0) G \<and> length G \<le> 9 * length (pb_instructions b0) + 5 \<and> branch_end (pb_instructions b0) G \<and> map qi_qpu (out s) = map (group_qpu (pb_instructions b0)) G \<and>
     stream_inv (pb_instructions b0) oc od c0 k0 G s \<and> check_inv prev s \<and>
     emitted_inv c0 b0 (branch_ip (branch_qpu_ip b0) (qpu_inst_count c0) (map qi_qpu (out s))) (branch_place (branch_uniform b0) (out s)) s"

lemma qpu_schedule_instructions_block_ok:
  assumes ok: "block_ok (pb_instructions b0)" and u: "\<forall>q\<in>set (pb_instructions b0). uniform_ok oc od q"
    and room: "k0 + length (filter (\<lambda>q. qi_uniform q \<noteq> - 1) (pb_instructions b0)) \<le> length (uniform_data c0)"
      "k0 + length (filter (\<lambda>q. qi_uniform q \<noteq> - 1) (pb_instructions b0)) \<le> length (uniform_contents c0)"
    and sb: "scoreboard_ok prev sb"
  shows "\<exists>s G. qpu_schedule_instructions_block calloc oc od c0 sb k0 b0 = ret s \<and> block_result oc od c0 b0 k0 prev G s"
proof -
  let ?qs = "pb_instructions b0" and ?n = "length (pb_instructions b0)"
  have deps: "\<forall>q\<in>set ?qs. deps_ok q" and n: "?n < 2 ^ 31" using ok by (simp_all add: block_ok_def)
  obtain n1 n2 ent where g: "calculate_forward_deps (map new_node ?qs) = ret n1" "calculate_reverse_deps n1 = ret n2" "graph ?n ent {} n2" "dag_ok ?n ent" "map sn_inst n2 = ?qs"
    "\<And>pos i j. keeps_order ?n ent pos \<Longrightarrow> j < ?n \<Longrightarrow> depends (\<lambda>j. accesses (?qs ! j)) i j \<Longrightarrow> pos i < pos j"
    "\<And>pos i j. keeps_order ?n ent pos \<Longrightarrow> j < ?n \<Longrightarrow> read_before (\<lambda>j. accesses (?qs ! j)) i j \<Longrightarrow> pos i \<le> pos j"
    using block_graph [OF deps] by blast
  have sub: "set [0..<?n] \<subseteq> {..<?n}" by auto
  obtain n3 where d: "fold_run compute_delay [0..<?n] n2 = ret n3" "graph ?n ent {} n3" "kept n2 n3" using compute_delays_ok [OF g(3,4) sub] by blast
  have len: "length n3 = ?n" using graphD(1) [OF d(2)] .
  have insts: "sn_inst (n3 ! j) = ?qs ! j" if "j < ?n" for j using keptD(2) [OF d(3)] g(5) that by (metis length_map nth_map)
  define p where "p = \<lparr>sp_qs = ?qs, sp_ent = ent, sp_contents = oc, sp_data = od, sp_c = c0, sp_block = b0, sp_next = k0, sp_prev = prev\<rparr>"
  define s0 where "s0 = \<lparr>sv_c = c0, sv_block = b0\<lparr>pb_instructions := []\<rparr>, sv_sb = sb, sv_list = filter (\<lambda>n. parent_count (n3 ! n) = 0) [0..<?n], sv_nodes = n3,
    sv_next_uniform = k0, sv_time = 0\<rparr>"
  have "order_inv ?qs ent [] s0" using ready_init [OF d(2) g(4) n] insts by (simp add: order_inv_def s0_def insts_left_def)
  then have "sched_inv p [] s0"
    using sb by (simp add: sched_inv_def sched_round_def p_def s0_def branch_end_def stream_inv_def uses_def check_inv_def last_instr_def emitted_inv_def branch_place_def)
  moreover have "uniform_room p" using u room by (simp add: uniform_room_def p_def)
  ultimately obtain s G where s: "schedule_loop calloc oc od s0 = ret s" "sched_inv p G s" "sv_list s = []" "length G \<le> stall sb + 9 * ?n"
    using schedule_loop_ok [of p "[]" s0 calloc] ok g(4) by (auto simp: p_def s0_def)
  have r: "sched_round p (branch_ip (branch_qpu_ip b0) (qpu_inst_count c0) (map (group_qpu ?qs) G)) (branch_place (branch_uniform b0) (out s)) G s" and e: "branch_end ?qs G"
    using s(2) by (simp_all add: sched_inv_def p_def)
  note I = sched_roundD [OF r, unfolded p_def, simplified]
  note O = order_invD [OF I(1)]
  have all: "set (concat G) = {..<?n}" using ready_progress [OF O(1) [unfolded s(3)] g(4)] .
  have keep: "keeps_order ?n ent (pos G)" unfolding keeps_order_def
  proof (intro allI impI)
    fix i j w assume i: "i < ?n" "(j, w) \<in> set (ent i)"
    then have "j \<in> set (concat G)" using dag_okD(3) [OF g(4)] all by blast
    then show "pos G i \<le> pos G j \<and> (\<not> w \<longrightarrow> pos G i < pos G j)" using O(5) [OF i] by blast
  qed
  have "schedule_of ?qs G" unfolding schedule_of_def using O(2,4) all g(6,7) [OF keep] by blast
  then have "block_result oc od c0 b0 k0 prev G s" unfolding block_result_def using e I s(4) stall_bound [OF sb] by simp
  moreover have "qpu_schedule_instructions_block calloc oc od c0 sb k0 b0 = ret s"
    using g(1,2) d(1) s(1) by (simp add: qpu_schedule_instructions_block_def schedule_instructions_def s0_def Let_def)
  ultimately show ?thesis by blast
qed

section \<open>Results\<close>

text \<open>
  An execution of single instructions on values of the fields. It changes nothing but what an instruction writes according to the analysis, and the new values
  depend on nothing but what it accesses.
\<close>

type_synonym 'v field_values = "last_field \<Rightarrow> 'v"

definition by_accesses :: "(qinst \<Rightarrow> 'v field_values \<Rightarrow> 'v field_values) \<Rightarrow> bool" where
  "by_accesses ex \<longleftrightarrow> (\<forall>q v f. (f, True) \<notin> set (accesses q) \<longrightarrow> ex q v f = v f) \<and>
     (\<forall>q v v' f. (\<forall>f w. (f, w) \<in> set (accesses q) \<longrightarrow> v f = v' f) \<longrightarrow> (f, True) \<in> set (accesses q) \<longrightarrow> ex q v f = ex q v' f)"

text \<open>The instructions of a group read at once, before any of them writes.\<close>

definition exec_group :: "(qinst \<Rightarrow> 'v field_values \<Rightarrow> 'v field_values) \<Rightarrow> qinst list \<Rightarrow> nat list \<Rightarrow> 'v field_values \<Rightarrow> 'v field_values" where
  "exec_group ex qs g v = (\<lambda>f. case find (\<lambda>i. (f, True) \<in> set (accesses (qs ! i))) g of None \<Rightarrow> v f | Some i \<Rightarrow> ex (qs ! i) v f)"

definition conflict :: "qinst \<Rightarrow> qinst \<Rightarrow> bool" where
  "conflict q r \<longleftrightarrow> (\<exists>f w w'. (f, w) \<in> set (accesses q) \<and> (f, w') \<in> set (accesses r) \<and> (w \<or> w'))"

lemma by_accessesD:
  assumes "by_accesses ex"
  shows "(f, True) \<notin> set (accesses q) \<Longrightarrow> ex q v f = v f"
    "(\<And>f w. (f, w) \<in> set (accesses q) \<Longrightarrow> v f = v' f) \<Longrightarrow> (f, True) \<in> set (accesses q) \<Longrightarrow> ex q v f = ex q v' f"
  using assms unfolding by_accesses_def by blast+

lemma exec_apart:
  assumes e: "by_accesses ex" and c: "\<And>f w. (f, w) \<in> set (accesses q) \<Longrightarrow> (f, True) \<notin> set (accesses r)"
  shows "(f, True) \<in> set (accesses q) \<Longrightarrow> ex q (ex r v) f = ex q v f"
  by (rule by_accessesD(2) [OF e]) (use by_accessesD(1) [OF e] c in blast)+

lemma exec_commute:
  assumes e: "by_accesses ex" and c: "\<not> conflict q r"
  shows "ex q (ex r v) = ex r (ex q v)"
proof
  fix f
  have a: "(f, True) \<notin> set (accesses r)" if "(f, w) \<in> set (accesses q)" for f w using that c unfolding conflict_def by blast
  have b: "(f, True) \<notin> set (accesses q)" if "(f, w) \<in> set (accesses r)" for f w using that c unfolding conflict_def by blast
  consider "(f, True) \<in> set (accesses q)" | "(f, True) \<in> set (accesses r)" | "(f, True) \<notin> set (accesses q)" "(f, True) \<notin> set (accesses r)" by blast
  then show "ex q (ex r v) f = ex r (ex q v) f"
  proof cases
    case 1
    have "ex q (ex r v) f = ex q v f" by (rule exec_apart [OF e _ 1]) (use a in blast)
    then show ?thesis using by_accessesD(1) [OF e a [OF 1]] by simp
  next
    case 2
    have "ex r (ex q v) f = ex r v f" by (rule exec_apart [OF e _ 2]) (use b in blast)
    then show ?thesis using by_accessesD(1) [OF e b [OF 2]] by simp
  qed (simp add: by_accessesD(1) [OF e])
qed

text \<open>Instructions may be reordered when no two in conflict are.\<close>

lemma fold_exec_commute:
  assumes e: "by_accesses ex"
  shows "\<forall>i\<in>set is. \<not> conflict q (qs ! i) \<Longrightarrow> fold (\<lambda>i. ex (qs ! i)) is (ex q v) = ex q (fold (\<lambda>i. ex (qs ! i)) is v)"
proof (induction "is" arbitrary: v)
  case (Cons i "is")
  then have "\<not> conflict q (qs ! i)" by simp
  from exec_commute [OF e this] show ?case using Cons by (simp add: Cons.IH [symmetric])
qed simp

lemma exec_reorder:
  assumes e: "by_accesses ex"
  shows "distinct xs \<Longrightarrow> set xs = {..<n} \<Longrightarrow> sorted_wrt (\<lambda>i j. j < i \<longrightarrow> \<not> conflict (qs ! i) (qs ! j)) xs \<Longrightarrow> fold (\<lambda>i. ex (qs ! i)) xs v = fold (\<lambda>i. ex (qs ! i)) [0..<n] v"
proof (induction n arbitrary: xs)
  case (Suc n)
  then obtain as bs where x: "xs = as @ n # bs" using split_list [of n xs] by auto
  have d: "distinct (as @ bs)" "n \<notin> set (as @ bs)" using Suc.prems(1) x by auto
  have s: "set (as @ bs) = {..<n}" using Suc.prems(2) d(2) unfolding x by (auto simp: lessThan_Suc)
  have w: "sorted_wrt (\<lambda>i j. j < i \<longrightarrow> \<not> conflict (qs ! i) (qs ! j)) (as @ bs)" "\<forall>i\<in>set bs. \<not> conflict (qs ! n) (qs ! i)"
    using Suc.prems(3) s unfolding x by (auto simp: sorted_wrt_append)
  have "fold (\<lambda>i. ex (qs ! i)) xs v = ex (qs ! n) (fold (\<lambda>i. ex (qs ! i)) (as @ bs) v)" unfolding x using fold_exec_commute [OF e w(2)] by simp
  then show ?case using Suc.IH [OF d(1) s w(1)] by simp
qed simp

section \<open>Schedules keep the results\<close>

lemma pos_unique: "distinct (concat G) \<Longrightarrow> a < length G \<Longrightarrow> x \<in> set (G ! a) \<Longrightarrow> pos G x = a"
proof (induction G arbitrary: a)
  case (Cons g G)
  show ?case
  proof (cases a)
    case (Suc b)
    then have "x \<in> set (G ! b)" "b < length G" using Cons.prems by auto
    then have "x \<notin> set g" using Cons.prems(1) nth_mem by fastforce
    then show ?thesis using Cons Suc by (simp add: pos_simps)
  qed (use Cons.prems in \<open>simp add: pos_simps\<close>)
qed simp

lemma sorted_wrt_concat: "\<forall>g\<in>set G. sorted_wrt P g \<Longrightarrow> sorted_wrt (\<lambda>g h. \<forall>x\<in>set g. \<forall>y\<in>set h. P x y) G \<Longrightarrow> sorted_wrt P (concat G)"
  by (induction G) (auto simp: sorted_wrt_append)

lemma conflict_order:
  assumes s: "schedule_of qs G" and ij: "i < j" "j < length qs" "conflict (qs ! i) (qs ! j)"
  shows "pos G i \<le> pos G j" "pos G i = pos G j \<Longrightarrow> \<not> (\<exists>f w. (f, True) \<in> set (accesses (qs ! i)) \<and> (f, w) \<in> set (accesses (qs ! j)))"
proof -
  have "depends (\<lambda>j. accesses (qs ! j)) i j \<or> read_before (\<lambda>j. accesses (qs ! j)) i j"
    using ij unfolding conflict_def depends_def read_before_def by (metis (full_types))
  then show "pos G i \<le> pos G j" using schedule_ofD(4,5) [OF s ij(2)] by (metis less_imp_le)
  show "\<not> (\<exists>f w. (f, True) \<in> set (accesses (qs ! i)) \<and> (f, w) \<in> set (accesses (qs ! j)))" if "pos G i = pos G j"
    using schedule_ofD(4) [OF s ij(2), of i] that ij(1) unfolding depends_def by auto
qed

text \<open>A group gives what its instructions give one after the other in the order of the program.\<close>

lemma exec_group_sort:
  assumes e: "by_accesses ex" and g: "length g \<le> 2" "distinct g"
    and c: "\<And>i j f w. i \<in> set g \<Longrightarrow> j \<in> set g \<Longrightarrow> i < j \<Longrightarrow> (f, True) \<in> set (accesses (qs ! i)) \<Longrightarrow> (f, w) \<notin> set (accesses (qs ! j))"
  shows "exec_group ex qs g v = fold (\<lambda>i. ex (qs ! i)) (sort g) v"
proof -
  have two: "exec_group ex qs h v = ex (qs ! j) (ex (qs ! i) v)" if h: "h = [i, j] \<or> h = [j, i]" and d: "\<And>f w. (f, True) \<in> set (accesses (qs ! i)) \<Longrightarrow> (f, w) \<notin> set (accesses (qs ! j))" for i j h
  proof
    fix f
    show "exec_group ex qs h v f = ex (qs ! j) (ex (qs ! i) v) f"
    proof (cases "(f, True) \<in> set (accesses (qs ! j))")
      case True
      have "ex (qs ! j) (ex (qs ! i) v) f = ex (qs ! j) v f" by (rule exec_apart [OF e _ True]) (use d in blast)
      then show ?thesis using True d [of f True] h by (auto simp: exec_group_def)
    next
      case False
      then show ?thesis using h by_accessesD(1) [OF e] by (auto simp: exec_group_def)
    qed
  qed
  consider "g = []" | i where "g = [i]" | i j where "g = [i, j]" "i < j" | i j where "g = [j, i]" "i < j"
    using g by (cases g rule: list.exhaust [case_names Nil Cons]; cases "tl g") (auto dest: linorder_neq_iff [THEN iffD1])
  then show ?thesis
  proof cases
    case 1
    then show ?thesis by (simp add: exec_group_def)
  next
    case 2
    then show ?thesis using by_accessesD(1) [OF e] by (auto simp: exec_group_def fun_eq_iff)
  next
    case 3
    then show ?thesis using two [of g i j] c [of i j] by auto
  next
    case 4
    then show ?thesis using two [of g i j] c [of i j] by auto
  qed
qed

lemma schedule_exec:
  assumes s: "schedule_of qs G" and e: "by_accesses ex"
  shows "fold (exec_group ex qs) G v = fold ex qs v"
proof -
  note S = schedule_ofD [OF s]
  let ?c = "\<lambda>i j. j < i \<longrightarrow> \<not> conflict (qs ! i) (qs ! j)"
  have sym: "conflict q r \<Longrightarrow> conflict r q" for q r unfolding conflict_def by blast
  have posG: "pos G x = a" "x < length qs" if "a < length G" "x \<in> set (G ! a)" for a x
    using pos_unique [OF S(1) that] S(2) nth_mem [OF that(1)] that(2) by (auto simp: set_eq_iff simp del: lessThan_iff)
  have grp: "exec_group ex qs g v = fold (\<lambda>i. ex (qs ! i)) (sort g) v" if gG: "g \<in> set G" for g v
  proof (rule exec_group_sort [OF e])
    obtain a where a: "a < length G" "g = G ! a" using gG by (auto simp: in_set_conv_nth)
    show "length g \<le> 2" using S(3) [OF gG] group_ok_length [of qs "hd g" "tl g"] by (cases g) auto
    show "distinct g" using S(1) gG by (simp add: distinct_concat_iff)
    show "(f, w) \<notin> set (accesses (qs ! j))" if "i \<in> set g" "j \<in> set g" "i < j" "(f, True) \<in> set (accesses (qs ! i))" for i j f w
      using conflict_order(2) [OF s that(3)] posG [OF a(1)] that a(2) unfolding conflict_def by metis
  qed
  have "fold (exec_group ex qs) H v = fold (\<lambda>i. ex (qs ! i)) (concat (map sort H)) v" if "set H \<subseteq> set G" for H v
    using that by (induction H arbitrary: v) (simp_all add: grp)
  then have "fold (exec_group ex qs) G v = fold (\<lambda>i. ex (qs ! i)) (concat (map sort G)) v" by blast
  moreover have "fold (\<lambda>i. ex (qs ! i)) (concat (map sort G)) v = fold (\<lambda>i. ex (qs ! i)) [0..<length qs] v"
  proof (rule exec_reorder [OF e])
    have "set (concat (map sort G)) = set (concat G)" "length (concat (map sort G)) = length (concat G)" by (simp_all add: length_concat comp_def)
    then show "distinct (concat (map sort G))" "set (concat (map sort G)) = {..<length qs}" using S(1,2) by (metis card_distinct distinct_card, metis)
    show "sorted_wrt ?c (concat (map sort G))"
    proof (rule sorted_wrt_concat)
      show "\<forall>g\<in>set (map sort G). sorted_wrt ?c g"
      proof
        fix g assume "g \<in> set (map sort G)"
        then have "sorted g" by auto
        then show "sorted_wrt ?c g" by (rule sorted_wrt_mono_rel [rotated]) simp
      qed
      have "sorted_wrt (\<lambda>g h. \<forall>x\<in>set g. \<forall>y\<in>set h. ?c x y) G"
        unfolding sorted_wrt_iff_nth_less
      proof (intro allI impI ballI notI)
        fix a b x y assume "a < b" "b < length G" "x \<in> set (G ! a)" "y \<in> set (G ! b)" "y < x" "conflict (qs ! x) (qs ! y)"
        then show False using conflict_order(1) [OF s, of y x] posG [of a x] posG [of b y] sym by fastforce
      qed
      then show "sorted_wrt (\<lambda>g h. \<forall>x\<in>set g. \<forall>y\<in>set h. ?c x y) (map sort G)" by (simp add: sorted_wrt_map)
    qed
  qed
  moreover have "fold (\<lambda>i. ex (qs ! i)) [0..<length qs] v = fold ex (map ((!) qs) [0..<length qs]) v" by (simp add: fold_map comp_def)
  ultimately show ?thesis by (simp add: map_nth)
qed

end
