(* ===== verification/Sched_Program.thy ===== *)
theory Sched_Program
  imports Sched_Block
begin

text \<open>
  The scheduling of all blocks one after the other, with the scoreboard and the stream of uniforms going on from block to block.
\<close>

section \<open>Uniforms of a program\<close>

definition prog_uses :: "qpu_block list \<Rightarrow> nat list list list \<Rightarrow> int list" where
  "prog_uses bs Gs = concat (map2 (\<lambda>b G. uses (pb_instructions b) G) bs Gs)"

definition prog_unis :: "qpu_block list \<Rightarrow> qinst list" where
  "prog_unis bs = filter (\<lambda>q. qi_uniform q \<noteq> - 1) (concat (map pb_instructions bs))"

lemma prog_uses_snoc: "length Gs < length bs \<Longrightarrow> prog_uses bs (Gs @ [G]) = prog_uses bs Gs @ uses (pb_instructions (bs ! length Gs)) G"
proof (induction Gs arbitrary: bs)
  case Nil
  then show ?case by (cases bs) (simp_all add: prog_uses_def)
next
  case (Cons H Gs)
  then show ?case by (cases bs) (simp_all add: prog_uses_def)
qed

lemma uses_schedule:
  assumes "schedule_of qs G"
  shows "length (uses qs G) = length (filter (\<lambda>q. qi_uniform q \<noteq> - 1) qs)"
proof -
  have "length (uses qs G) = card {i \<in> set (concat G). qi_uniform (qs ! i) \<noteq> - 1}" using uses_card schedule_ofD(1,3) [OF assms] by blast
  then show ?thesis unfolding schedule_ofD(2) [OF assms] by (simp add: length_filter_conv_card)
qed

lemma prog_uses_length:
  assumes "length Gs \<le> length bs" "\<forall>i < length Gs. schedule_of (pb_instructions (bs ! i)) (Gs ! i)"
  shows "length (prog_uses bs Gs) = length (prog_unis (take (length Gs) bs))"
  using assms
proof (induction Gs rule: rev_induct)
  case Nil
  then show ?case by (simp add: prog_uses_def prog_unis_def)
next
  case (snoc G Gs)
  have l: "length Gs < length bs" using snoc.prems(1) by simp
  have "\<forall>i < length Gs. schedule_of (pb_instructions (bs ! i)) (Gs ! i)" using snoc.prems(2) by (auto simp: nth_append dest: less_SucI)
  then have i: "length (prog_uses bs Gs) = length (prog_unis (take (length Gs) bs))" using snoc.IH l by simp
  have "schedule_of (pb_instructions (bs ! length Gs)) G" using snoc.prems(2) by (metis length_append_singleton lessI nth_append_length)
  then show ?case using i uses_schedule by (simp add: prog_uses_snoc [OF l] prog_unis_def take_Suc_conv_app_nth [OF l])
qed

section \<open>Scheduled blocks\<close>

text \<open>
  Block \<open>b0\<close> was scheduled as \<open>G\<close>, starting at instruction \<open>ip\<close> and place \<open>k\<close> of the stream of uniforms.
\<close>

definition block_done :: "qpu_block \<Rightarrow> nat list list \<Rightarrow> u32 \<Rightarrow> nat \<Rightarrow> qpu_block \<Rightarrow> bool" where
  "block_done b0 G ip k b \<longleftrightarrow> schedule_of (pb_instructions b0) G \<and> length G \<le> 9 * length (pb_instructions b0) + 5 \<and> branch_end (pb_instructions b0) G \<and>
     map qi_qpu (pb_instructions b) = map (group_qpu (pb_instructions b0)) G \<and>
     map qi_uniform (pb_instructions b) = numbered k (map (group_uniform (pb_instructions b0)) G) \<and>
     pb_successors b = pb_successors b0 \<and> start_qpu_ip b = ip \<and> end_qpu_ip b = ip + of_nat (length G) - 1 \<and> start_uniform b = of_nat k \<and>
     branch_qpu_ip b = branch_ip (NOT 0) ip (map qi_qpu (pb_instructions b)) \<and> branch_uniform b = branch_place (branch_uniform b0) (pb_instructions b)"

definition prog_code :: "qpu_block list \<Rightarrow> v3d_qpu_instr list" where
  "prog_code bs = concat (map (\<lambda>b. map qi_qpu (pb_instructions b)) bs)"

definition ip_of :: "qpu_compile \<Rightarrow> nat list list list \<Rightarrow> nat \<Rightarrow> u32" where
  "ip_of c Gs i = qpu_inst_count c + of_nat (length (concat (take i Gs)))"

definition place_of :: "qpu_compile \<Rightarrow> nat list list list \<Rightarrow> nat \<Rightarrow> nat" where
  "place_of c Gs i = length (prog_uses (pc_blocks c) (take i Gs))"

lemma of_snoc: "i \<le> length Gs \<Longrightarrow> ip_of c (Gs @ [G]) i = ip_of c Gs i" "i \<le> length Gs \<Longrightarrow> place_of c (Gs @ [G]) i = place_of c Gs i"
  by (simp_all add: ip_of_def place_of_def)

text \<open>The state after the first \<open>length Gs\<close> blocks; \<open>c\<close> is the compile before, with the arrays of uniforms exchanged.\<close>

definition prog_inv :: "quniform_contents list \<Rightarrow> u32 list \<Rightarrow> qpu_compile \<Rightarrow> nat list list list \<Rightarrow> program_vars \<Rightarrow> bool" where
  "prog_inv oc od c Gs v = (case v of (c', sb, k, cycles) \<Rightarrow>
     length (pc_blocks c') = length (pc_blocks c) \<and>
     (\<forall>i < length Gs. block_done (pc_blocks c ! i) (Gs ! i) (ip_of c Gs i) (place_of c Gs i) (pc_blocks c' ! i)) \<and>
     (\<forall>i. length Gs \<le> i \<longrightarrow> i < length (pc_blocks c) \<longrightarrow> pc_blocks c' ! i = pc_blocks c ! i) \<and>
     qpu_inst_count c' = ip_of c Gs (length Gs) \<and> num_uniforms c' = num_uniforms c \<and> k = place_of c Gs (length Gs) \<and>
     length (uniform_data c') = length (uniform_data c) \<and> length (uniform_contents c') = length (uniform_contents c) \<and>
     take k (uniform_data c') = map (\<lambda>u. od ! nat u) (prog_uses (pc_blocks c) Gs) \<and> take k (uniform_contents c') = map (\<lambda>u. oc ! nat u) (prog_uses (pc_blocks c) Gs) \<and>
     program_allowed None (prog_code (take (length Gs) (pc_blocks c'))) \<and> scoreboard_ok (last_instr None (prog_code (take (length Gs) (pc_blocks c')))) sb)"

text \<open>What the blocks and the arrays of uniforms have to satisfy.\<close>

definition prog_ok :: "quniform_contents list \<Rightarrow> u32 list \<Rightarrow> qpu_compile \<Rightarrow> bool" where
  "prog_ok oc od c \<longleftrightarrow> (\<forall>b\<in>set (pc_blocks c). block_ok (pb_instructions b) \<and> (\<forall>q\<in>set (pb_instructions b). uniform_ok oc od q)) \<and>
     length (prog_unis (pc_blocks c)) = num_uniforms c \<and> length (uniform_data c) = num_uniforms c \<and> length (uniform_contents c) = num_uniforms c"

lemma last_instr_append: "last_instr (last_instr prev xs) ys = last_instr prev (xs @ ys)"
  by (simp add: last_instr_def)

lemma schedule_block_ok:
  assumes i: "prog_inv oc od c Gs v" and ok: "prog_ok oc od c" and n: "length Gs < length (pc_blocks c)"
  shows "\<exists>v' G. schedule_block calloc oc od (length Gs) v = ret v' \<and> prog_inv oc od c (Gs @ [G]) v'"
proof -
  let ?b = "length Gs" and ?bs = "pc_blocks c"
  obtain c1 sb k cy where v: "v = (c1, sb, k, cy)" by (cases v)
  note I = i [unfolded prog_inv_def v, simplified]
  let ?blk = "(?bs ! ?b)\<lparr>start_qpu_ip := qpu_inst_count c1, branch_qpu_ip := NOT 0, start_uniform := of_nat k\<rparr>"
  have b: "pc_blocks c1 ! ?b = ?bs ! ?b" "?b < length (pc_blocks c1)" using I n by simp_all
  have mem: "?bs ! ?b \<in> set ?bs" using n by simp
  have bok: "block_ok (pb_instructions ?blk)" "\<forall>q\<in>set (pb_instructions ?blk). uniform_ok oc od q" using ok mem by (simp_all add: prog_ok_def)
  have sched: "\<forall>i < length Gs. schedule_of (pb_instructions (?bs ! i)) (Gs ! i)" using I by (simp add: block_done_def)
  have "k + length (filter (\<lambda>q. qi_uniform q \<noteq> - 1) (pb_instructions ?blk)) = length (prog_unis (take (Suc ?b) ?bs))"
    using prog_uses_length [OF _ sched] n I by (simp add: place_of_def prog_unis_def take_Suc_conv_app_nth [OF n])
  also have "\<dots> \<le> length (prog_unis ?bs)"
    using append_take_drop_id [of "Suc ?b" ?bs] unfolding prog_unis_def by (metis (no_types, lifting) concat_append filter_append length_append map_append le_add1)
  finally have room: "k + length (filter (\<lambda>q. qi_uniform q \<noteq> - 1) (pb_instructions ?blk)) \<le> length (uniform_data c1)"
    "k + length (filter (\<lambda>q. qi_uniform q \<noteq> - 1) (pb_instructions ?blk)) \<le> length (uniform_contents c1)" using ok I by (simp_all add: prog_ok_def)
  let ?prev = "last_instr None (prog_code (take ?b (pc_blocks c1)))"
  have sb: "scoreboard_ok ?prev sb" using I by simp
  obtain s G where s: "qpu_schedule_instructions_block calloc oc od c1 sb k ?blk = ret s" "block_result oc od c1 ?blk k ?prev G s"
    using qpu_schedule_instructions_block_ok [OF bok room sb] by blast
  note S = s(2) [unfolded block_result_def, simplified]
  define b1 where "b1 = (sv_block s)\<lparr>end_qpu_ip := qpu_inst_count (sv_c s) - 1\<rparr>"
  define c2 where "c2 = (sv_c s)\<lparr>pc_blocks := (pc_blocks (sv_c s))[?b := b1]\<rparr>"
  have run: "schedule_block calloc oc od ?b v = ret (c2, sv_sb s, sv_next_uniform s, cy + sv_time s)"
    using s(1) b unfolding v schedule_block_def by (simp add: Let_def c2_def b1_def)
  have len: "length (out s) = length G" using S by (metis length_map)
  have bi: "emitted_inv c1 ?blk (branch_ip (branch_qpu_ip ?blk) (qpu_inst_count c1) (map qi_qpu (out s))) (branch_place (branch_uniform ?blk) (out s)) s"
    using s(2) unfolding block_result_def by blast
  have st: "stream_inv (pb_instructions (?bs ! ?b)) oc od c1 k G s" using S by simp
  note B = bi [unfolded emitted_inv_def, simplified] and T = stream_invD [OF st]
  have cnt: "qpu_inst_count c2 = ip_of c (Gs @ [G]) (Suc ?b)" using B I len by (simp add: c2_def ip_of_def)
  have done1: "block_done (?bs ! ?b) G (ip_of c Gs ?b) (place_of c Gs ?b) b1"
    using S B I T(1) len by (simp add: block_done_def b1_def)
  have blocks: "pc_blocks c2 = (pc_blocks c1)[?b := b1]" using B by (simp add: c2_def)
  have take: "prog_code (take (Suc ?b) (pc_blocks c2)) = prog_code (take ?b (pc_blocks c1)) @ map qi_qpu (out s)"
    using b(2) by (simp add: blocks take_Suc_conv_app_nth prog_code_def b1_def)
  have uses: "prog_uses ?bs (Gs @ [G]) = prog_uses ?bs Gs @ uses (pb_instructions (?bs ! ?b)) G" by (rule prog_uses_snoc [OF n])
  have tk: "take k (uniform_data c1) = map (\<lambda>u. od ! nat u) (prog_uses ?bs Gs)" "take k (uniform_contents c1) = map (\<lambda>u. oc ! nat u) (prog_uses ?bs Gs)" using I by blast+
  have ck: "check_inv ?prev s" using S by simp
  have "prog_inv oc od c (Gs @ [G]) (c2, sv_sb s, sv_next_uniform s, cy + sv_time s)" unfolding prog_inv_def prod.case length_append_singleton
  proof (intro conjI allI impI)
    fix i assume "i < Suc ?b"
    then show "block_done (?bs ! i) ((Gs @ [G]) ! i) (ip_of c (Gs @ [G]) i) (place_of c (Gs @ [G]) i) (pc_blocks c2 ! i)"
      using done1 I b(2) by (cases "i = ?b") (simp_all add: blocks of_snoc nth_append)
  next
    show "program_allowed None (prog_code (take (Suc ?b) (pc_blocks c2)))" "scoreboard_ok (last_instr None (prog_code (take (Suc ?b) (pc_blocks c2)))) (sv_sb s)"
      using ck I unfolding take check_inv_def program_allowed_append last_instr_append by simp_all
  next
    show "take (sv_next_uniform s) (uniform_data c2) = map (\<lambda>u. od ! nat u) (prog_uses ?bs (Gs @ [G]))"
      "take (sv_next_uniform s) (uniform_contents c2) = map (\<lambda>u. oc ! nat u) (prog_uses ?bs (Gs @ [G]))"
      unfolding uses map_append tk [symmetric] using T(5,6) by (simp_all add: c2_def)
  next
    show "sv_next_uniform s = place_of c (Gs @ [G]) (Suc ?b)" using T(2) I uses by (simp add: place_of_def)
  qed (use I B T(3,4) cnt in \<open>simp_all add: c2_def\<close>)
  then show ?thesis using run by blast
qed

lemma schedule_blocks_ok:
  assumes ok: "prog_ok oc od c" and m: "m \<le> length (pc_blocks c)"
  shows "\<exists>v Gs. fold_run (schedule_block calloc oc od) [0..<m] (c, initial_scoreboard, 0, 0) = ret v \<and> length Gs = m \<and> prog_inv oc od c Gs v"
  using m
proof (induction m)
  case 0
  have "prog_inv oc od c [] (c, initial_scoreboard, 0, 0)"
    by (simp add: prog_inv_def ip_of_def place_of_def prog_uses_def prog_code_def last_instr_def scoreboard_ok_def initial_scoreboard_def)
  then show ?case by auto
next
  case (Suc m)
  then obtain v Gs where v: "fold_run (schedule_block calloc oc od) [0..<m] (c, initial_scoreboard, 0, 0) = ret v" "length Gs = m" "prog_inv oc od c Gs v" by fastforce
  obtain v' G where "schedule_block calloc oc od (length Gs) v = ret v'" "prog_inv oc od c (Gs @ [G]) v'"
    using schedule_block_ok [OF v(3) ok, of calloc] v(2) Suc.prems by auto
  then show ?case using v by (intro exI [of _ v'] exI [of _ "Gs @ [G]"]) (simp add: fold_run_append)
qed

end
