(* ===== verification/Sched_Branch.thy ===== *)
theory Sched_Branch
  imports Sched_Program
begin

text \<open>
  The last pass of the scheduler: each branch gets the distance to its target, in bytes of code and in bytes of the stream of uniforms.
\<close>

section \<open>Where the branch of a block is\<close>

definition ends_in_branch :: "qpu_block \<Rightarrow> bool" where
  "ends_in_branch b \<longleftrightarrow> pb_instructions b \<noteq> [] \<and> is_branch (last (pb_instructions b))"

lemma branch_ip_plain: "\<forall>i\<in>set is. \<not> special i \<Longrightarrow> branch_ip ip start is = ip"
  by (induction "is" arbitrary: start) auto

lemma group_special:
  assumes "group_ok qs g" "special (group_qpu qs g)"
  shows "\<exists>i\<in>set g. special (qi_qpu (qs ! i))"
proof (cases g)
  case (Cons i ms)
  show ?thesis
  proof (cases ms)
    case (Cons m rest)
    let ?m = "merged_inst (qi_qpu (qs ! i)) (qi_qpu (qs ! m))"
    have c: "qpu_merge_inst False (qi_qpu (qs ! i)) (qi_qpu (qs ! m)) = ret (Some ?m)" "\<not> thrsw (sig (qi_qpu (qs ! i)))" "\<not> thrsw (sig (qi_qpu (qs ! m)))"
      using assms(1) \<open>g = i # ms\<close> Cons by (auto simp: group_ok_def)
    have "\<not> special ?m" using merge_Some(1) [OF c(1)] c(2,3) by (auto simp: special_def merged_parts merge_sig_def merge_conflict_def)
    then show ?thesis using assms(2) \<open>g = i # ms\<close> Cons by (simp add: group_qpu_def)
  qed (use assms(2) Cons in \<open>simp add: group_qpu_def\<close>)
qed (use assms(2) in \<open>simp add: group_qpu_def\<close>)

lemma plain_done:
  assumes d: "block_done b0 G ip k b" and p: "\<forall>q\<in>set (pb_instructions b0). \<not> special (qi_qpu q)"
  shows "branch_qpu_ip b = NOT 0"
proof -
  let ?qs = "pb_instructions b0"
  have "\<not> special i" if i: "i \<in> set (map (group_qpu ?qs) G)" for i
  proof
    assume sp: "special i"
    obtain g where g: "g \<in> set G" "i = group_qpu ?qs g" using i by auto
    have ok: "group_ok ?qs g" using d g(1) unfolding block_done_def schedule_of_def by blast
    then obtain j where "j \<in> set g" "special (qi_qpu (?qs ! j))" using group_special sp g(2) by blast
    moreover have "j < length ?qs" using ok calculation(1) by (simp add: group_ok_def)
    ultimately show False using p nth_mem by blast
  qed
  moreover have "branch_qpu_ip b = branch_ip (NOT 0) ip (map (group_qpu ?qs) G)" using d unfolding block_done_def by metis
  ultimately show ?thesis using branch_ip_plain by metis
qed

text \<open>The groups before the one of the branch.\<close>

definition before_branch :: "nat list list \<Rightarrow> nat list list" where
  "before_branch G = take (length G - 4) G"

lemma numbered_nth: "p < length us \<Longrightarrow> us ! p \<noteq> - 1 \<Longrightarrow> numbered k us ! p = int (k + length (filter (\<lambda>u. u \<noteq> - 1) (take p us)))"
proof (induction us arbitrary: k p)
  case (Cons u us)
  then show ?case by (cases p) auto
qed simp

lemma branch_done:
  assumes d: "block_done b0 G ip k b" and e: "ends_in_branch b0" and u: "qi_uniform (last (pb_instructions b0)) \<noteq> - 1"
  defines "qs \<equiv> pb_instructions b0" and "p \<equiv> length (before_branch G)" and "h \<equiv> k + length (uses (pb_instructions b0) (before_branch G))"
  shows "length (pb_instructions b) = p + 4" "length G = p + 4" "qi_qpu (pb_instructions b ! p) = qi_qpu (last qs)" "qi_uniform (pb_instructions b ! p) = int h"
    "branch_qpu_ip b = ip + of_nat p" "branch_uniform b = of_nat h" "uses qs G = uses qs (before_branch G) @ [qi_uniform (last qs)]"
proof -
  let ?j = "length qs - 1"
  have qs: "qs \<noteq> []" "is_branch (qs ! ?j)" "last qs = qs ! ?j" using e by (auto simp: ends_in_branch_def qs_def last_conv_nth)
  note D = d [unfolded block_done_def, folded qs_def]
  have "?j \<in> set (concat G)" using D schedule_ofD(2) [of qs G] qs(1) by (metis diff_less length_greater_0_conv lessThan_iff zero_less_one)
  then obtain G' where G: "G = G' @ [[?j], [], [], []]" using D qs(2) unfolding branch_end_def by blast
  have p: "before_branch G = G'" "p = length G'" by (simp_all add: before_branch_def G p_def)
  have h: "h = k + length (uses qs G')" by (simp add: h_def p qs_def)
  have instrs: "map qi_qpu (pb_instructions b) = map (group_qpu qs) G" "map qi_uniform (pb_instructions b) = numbered k (map (group_uniform qs) G)" using D by blast+
  show l: "length (pb_instructions b) = p + 4" "length G = p + 4" using arg_cong [OF instrs(1), of length] by (simp_all add: G p)
  have gj: "group_qpu qs [?j] = qi_qpu (last qs)" "group_uniform qs [?j] = qi_uniform (last qs)" "group_qpu qs [] = v3d_qpu_nop" "group_uniform qs [] = - 1"
    using qs(3) by (simp_all add: group_qpu_def group_uniform_def)
  show q: "qi_qpu (pb_instructions b ! p) = qi_qpu (last qs)" using arg_cong [OF instrs(1), of "\<lambda>l. l ! p"] l gj(1) by (simp add: G p nth_append)
  have "map qi_uniform (pb_instructions b) ! p = int h"
    unfolding instrs(2) using numbered_nth [of p "map (group_uniform qs) G" k] u gj by (simp add: G p h uses_def qs_def nth_append)
  then show un: "qi_uniform (pb_instructions b ! p) = int h" using l by simp
  have sp: "special (qi_qpu (last qs))" using qs(2,3) by (simp add: special_def)
  have "branch_qpu_ip b = branch_ip (NOT 0) ip (map (group_qpu qs) G)" using D by metis
  then show "branch_qpu_ip b = ip + of_nat p" using sp gj by (simp add: G p branch_ip_append)
  show "uses qs G = uses qs (before_branch G) @ [qi_uniform (last qs)]" using u gj unfolding p(1) by (simp add: G uses_def qs_def)
  have "pb_instructions b = take p (pb_instructions b) @ pb_instructions b ! p # drop (Suc p) (pb_instructions b)" using l by (intro id_take_nth_drop) simp
  moreover have "\<forall>q\<in>set (drop (Suc p) (pb_instructions b)). \<not> is_branch q"
  proof
    fix q assume "q \<in> set (drop (Suc p) (pb_instructions b))"
    then have "qi_qpu q \<in> set (drop (Suc p) (map qi_qpu (pb_instructions b)))" by (simp add: drop_map)
    then have "qi_qpu q = v3d_qpu_nop" unfolding instrs(1) using gj by (simp add: G p)
    then show "\<not> is_branch q" by (simp add: v3d_qpu_nop_def Let_def)
  qed
  moreover have "branch_uniform b = branch_place (branch_uniform b0) (pb_instructions b)" using D by blast
  ultimately have "branch_uniform b = branch_place (branch_place (branch_uniform b0) (take p (pb_instructions b))) [pb_instructions b ! p]"
    by (metis append.left_neutral append_Cons branch_place_append branch_place_idle)
  then show "branch_uniform b = of_nat h" using q qs(2,3) un by (simp add: branch_place_def)
qed

section \<open>The control flow\<close>

text \<open>
  What the pass expects: a block with a successor ends in a branch with a constant uniform, or its successor is the next block and no thread
  switch is in it. The second successor of a block with a branch is the next block.
\<close>

definition block_flow :: "quniform_contents list \<Rightarrow> nat \<Rightarrow> nat \<Rightarrow> qpu_block \<Rightarrow> bool" where
  "block_flow oc n i b \<longleftrightarrow> length (pb_successors b) = 2 \<and>
     (case pb_successors b ! 0 of None \<Rightarrow> True
      | Some t \<Rightarrow> t < n \<and>
          (if ends_in_branch b then
             qi_uniform (last (pb_instructions b)) \<noteq> - 1 \<and> oc ! nat (qi_uniform (last (pb_instructions b))) = QUNIFORM_CONSTANT \<and>
             (case pb_successors b ! 1 of None \<Rightarrow> True | Some u \<Rightarrow> u = i + 1 \<and> u < n)
           else t = i + 1 \<and> (\<forall>q\<in>set (pb_instructions b). \<not> special (qi_qpu q))))"

definition branches_ok :: "quniform_contents list \<Rightarrow> qpu_block list \<Rightarrow> bool" where
  "branches_ok oc bs \<longleftrightarrow> (\<forall>i < length bs. block_flow oc (length bs) i (bs ! i))"

lemma branches_okD:
  assumes "branches_ok oc bs" "i < length bs"
  shows "length (pb_successors (bs ! i)) = 2" "pb_successors (bs ! i) ! 0 = Some t \<Longrightarrow> t < length bs"
    "pb_successors (bs ! i) ! 0 = Some t \<Longrightarrow> ends_in_branch (bs ! i) \<Longrightarrow> qi_uniform (last (pb_instructions (bs ! i))) \<noteq> - 1"
    "pb_successors (bs ! i) ! 0 = Some t \<Longrightarrow> ends_in_branch (bs ! i) \<Longrightarrow> oc ! nat (qi_uniform (last (pb_instructions (bs ! i)))) = QUNIFORM_CONSTANT"
    "pb_successors (bs ! i) ! 0 = Some t \<Longrightarrow> ends_in_branch (bs ! i) \<Longrightarrow> pb_successors (bs ! i) ! 1 = Some u \<Longrightarrow> u = i + 1 \<and> u < length bs"
    "pb_successors (bs ! i) ! 0 = Some t \<Longrightarrow> \<not> ends_in_branch (bs ! i) \<Longrightarrow> t = i + 1"
    "pb_successors (bs ! i) ! 0 = Some t \<Longrightarrow> \<not> ends_in_branch (bs ! i) \<Longrightarrow> \<forall>q\<in>set (pb_instructions (bs ! i)). \<not> special (qi_qpu q)"
proof -
  have f: "block_flow oc (length bs) i (bs ! i)" using assms by (simp add: branches_ok_def)
  show "length (pb_successors (bs ! i)) = 2" "pb_successors (bs ! i) ! 0 = Some t \<Longrightarrow> t < length bs"
    "pb_successors (bs ! i) ! 0 = Some t \<Longrightarrow> ends_in_branch (bs ! i) \<Longrightarrow> qi_uniform (last (pb_instructions (bs ! i))) \<noteq> - 1"
    "pb_successors (bs ! i) ! 0 = Some t \<Longrightarrow> ends_in_branch (bs ! i) \<Longrightarrow> oc ! nat (qi_uniform (last (pb_instructions (bs ! i)))) = QUNIFORM_CONSTANT"
    "pb_successors (bs ! i) ! 0 = Some t \<Longrightarrow> ends_in_branch (bs ! i) \<Longrightarrow> pb_successors (bs ! i) ! 1 = Some u \<Longrightarrow> u = i + 1 \<and> u < length bs"
    "pb_successors (bs ! i) ! 0 = Some t \<Longrightarrow> \<not> ends_in_branch (bs ! i) \<Longrightarrow> t = i + 1"
    "pb_successors (bs ! i) ! 0 = Some t \<Longrightarrow> \<not> ends_in_branch (bs ! i) \<Longrightarrow> \<forall>q\<in>set (pb_instructions (bs ! i)). \<not> special (qi_qpu q)"
    using f by (simp_all add: block_flow_def)
qed

section \<open>Setting the targets\<close>

definition with_target :: "u32 \<Rightarrow> qpu_block \<Rightarrow> qpu_block" where
  "with_target start b = (let p = length (pb_instructions b) - 4; br = pb_instructions b ! p in
     b\<lparr>pb_instructions := (pb_instructions b)[p := br\<lparr>qi_qpu := (qi_qpu br)\<lparr>branch := (branch (qi_qpu br))\<lparr>br_offset := (start - (branch_qpu_ip b + 4)) * 8\<rparr>\<rparr>\<rparr>]\<rparr>)"

lemma with_target_simps [simp]:
  "start_qpu_ip (with_target st b) = start_qpu_ip b" "start_uniform (with_target st b) = start_uniform b" "length (pb_instructions (with_target st b)) = length (pb_instructions b)"
  by (simp_all add: with_target_def Let_def)

text \<open>A block that branches to \<open>t\<close>.\<close>

definition jumps_to :: "qpu_block \<Rightarrow> nat \<Rightarrow> bool" where
  "jumps_to b t \<longleftrightarrow> ends_in_branch b \<and> pb_successors b ! 0 = Some t"

text \<open>The place of the uniform of the branch of block \<open>i\<close>.\<close>

definition branch_use :: "qpu_compile \<Rightarrow> nat list list list \<Rightarrow> nat \<Rightarrow> nat" where
  "branch_use c Gs i = place_of c Gs i + length (uses (pb_instructions (pc_blocks c ! i)) (before_branch (Gs ! i)))"

definition branch_at :: "nat list list list \<Rightarrow> nat \<Rightarrow> nat" where
  "branch_at Gs i = length (concat (take i Gs)) + length (before_branch (Gs ! i))"

definition distance :: "qpu_compile \<Rightarrow> nat list list list \<Rightarrow> nat \<Rightarrow> nat \<Rightarrow> u32" where
  "distance c Gs i t = (of_nat (place_of c Gs t) - (of_nat (branch_use c Gs i) + 1)) * 4"

text \<open>The compile \<open>c2\<close> after the targets of the first \<open>m\<close> blocks of \<open>c1\<close> were set.\<close>

definition targets_inv :: "qpu_compile \<Rightarrow> nat list list list \<Rightarrow> qpu_compile \<Rightarrow> nat \<Rightarrow> qpu_compile \<Rightarrow> bool" where
  "targets_inv c Gs c1 m c2 \<longleftrightarrow> length (pc_blocks c2) = length (pc_blocks c1) \<and>
     (\<forall>i < length (pc_blocks c1). \<forall>t. i < m \<longrightarrow> jumps_to (pc_blocks c ! i) t \<longrightarrow> pc_blocks c2 ! i = with_target (start_qpu_ip (pc_blocks c1 ! t)) (pc_blocks c1 ! i)) \<and>
     (\<forall>i < length (pc_blocks c1). m \<le> i \<or> (\<forall>t. \<not> jumps_to (pc_blocks c ! i) t) \<longrightarrow> pc_blocks c2 ! i = pc_blocks c1 ! i) \<and>
     uniform_contents c2 = uniform_contents c1 \<and> num_uniforms c2 = num_uniforms c1 \<and> qpu_inst_count c2 = qpu_inst_count c1 \<and> length (uniform_data c2) = length (uniform_data c1) \<and>
     (\<forall>i < m. \<forall>t. jumps_to (pc_blocks c ! i) t \<longrightarrow> uniform_data c2 ! branch_use c Gs i = distance c Gs i t) \<and>
     (\<forall>u. (\<forall>i < m. \<forall>t. jumps_to (pc_blocks c ! i) t \<longrightarrow> branch_use c Gs i \<noteq> u) \<longrightarrow> uniform_data c2 ! u = uniform_data c1 ! u)"

lemma targets_start:
  assumes "targets_inv c Gs c1 m c2" "t < length (pc_blocks c1)"
  shows "start_qpu_ip (pc_blocks c2 ! t) = start_qpu_ip (pc_blocks c1 ! t)" "start_uniform (pc_blocks c2 ! t) = start_uniform (pc_blocks c1 ! t)"
proof -
  have "pc_blocks c2 ! t = pc_blocks c1 ! t \<or> (\<exists>u. pc_blocks c2 ! t = with_target (start_qpu_ip (pc_blocks c1 ! u)) (pc_blocks c1 ! t))"
    using assms unfolding targets_inv_def by (metis not_le)
  then show "start_qpu_ip (pc_blocks c2 ! t) = start_qpu_ip (pc_blocks c1 ! t)" "start_uniform (pc_blocks c2 ! t) = start_uniform (pc_blocks c1 ! t)" by auto
qed

end
