(* ===== verification/Sched_Target.thy ===== *)
theory Sched_Target
  imports Sched_Branch
begin

text \<open>
  The pass over all blocks that sets the targets of the branches succeeds after scheduling.
\<close>

section \<open>Places in the program\<close>

lemma prog_uses_prefix: "length (Gs @ Hs) \<le> length bs \<Longrightarrow> \<exists>rest. prog_uses bs (Gs @ Hs) = prog_uses bs Gs @ rest"
proof (induction Hs rule: rev_induct)
  case (snoc H Hs)
  then obtain rest where "prog_uses bs (Gs @ Hs) = prog_uses bs Gs @ rest" by auto
  then show ?case using prog_uses_snoc [of "Gs @ Hs" bs H] snoc.prems by simp
qed simp

lemma place_of_Suc:
  assumes "i < length Gs" "length Gs \<le> length (pc_blocks c)"
  shows "place_of c Gs (Suc i) = place_of c Gs i + length (uses (pb_instructions (pc_blocks c ! i)) (Gs ! i))"
  using prog_uses_snoc [of "take i Gs" "pc_blocks c" "Gs ! i"] assms by (simp add: place_of_def take_Suc_conv_app_nth)

lemma place_of_mono:
  assumes "i \<le> j" "j \<le> length Gs" "length Gs \<le> length (pc_blocks c)"
  shows "place_of c Gs i \<le> place_of c Gs j"
  using assms by (induction rule: dec_induct) (simp_all add: place_of_Suc)

lemma ip_of_Suc: "i < length Gs \<Longrightarrow> ip_of c Gs (Suc i) = ip_of c Gs i + of_nat (length (Gs ! i))"
  by (simp add: ip_of_def take_Suc_conv_app_nth add.assoc)

lemma groups_bound:
  assumes "length Gs \<le> length bs" "\<forall>i < length Gs. length (Gs ! i) \<le> 9 * length (pb_instructions (bs ! i)) + 5"
  shows "length (concat Gs) \<le> 9 * length (concat (map pb_instructions bs)) + 5 * length bs"
  using assms
proof (induction Gs arbitrary: bs)
  case (Cons G Gs)
  then obtain b bs' where bs: "bs = b # bs'" by (cases bs) auto
  have "\<forall>i < length Gs. length (Gs ! i) \<le> 9 * length (pb_instructions (bs' ! i)) + 5" "length G \<le> 9 * length (pb_instructions b) + 5" using Cons.prems(2) by (auto simp: bs)
  then show ?case using Cons.IH [of bs'] Cons.prems(1) by (simp add: bs)
qed simp

section \<open>One block\<close>

text \<open>All blocks of \<open>c\<close> were scheduled, and the numbers of instructions fit 32 bits.\<close>

definition all_done :: "quniform_contents list \<Rightarrow> u32 list \<Rightarrow> qpu_compile \<Rightarrow> nat list list list \<Rightarrow> qpu_compile \<Rightarrow> bool" where
  "all_done oc od c Gs c1 \<longleftrightarrow> length Gs = length (pc_blocks c) \<and> length (pc_blocks c1) = length (pc_blocks c) \<and> qpu_inst_count c = 0 \<and>
     length (concat Gs) < 2 ^ 32 - 1 \<and>
     (\<forall>i < length Gs. block_done (pc_blocks c ! i) (Gs ! i) (ip_of c Gs i) (place_of c Gs i) (pc_blocks c1 ! i)) \<and>
     length (uniform_data c1) = place_of c Gs (length Gs) \<and>
     uniform_data c1 = map (\<lambda>u. od ! nat u) (prog_uses (pc_blocks c) Gs) \<and> uniform_contents c1 = map (\<lambda>u. oc ! nat u) (prog_uses (pc_blocks c) Gs)"

lemma all_doneD:
  assumes "all_done oc od c Gs c1"
  shows "length Gs = length (pc_blocks c)" "length (pc_blocks c1) = length (pc_blocks c)" "qpu_inst_count c = 0" "length (concat Gs) < 2 ^ 32 - 1"
    "i < length Gs \<Longrightarrow> block_done (pc_blocks c ! i) (Gs ! i) (ip_of c Gs i) (place_of c Gs i) (pc_blocks c1 ! i)"
    "uniform_data c1 = map (\<lambda>u. od ! nat u) (prog_uses (pc_blocks c) Gs)" "uniform_contents c1 = map (\<lambda>u. oc ! nat u) (prog_uses (pc_blocks c) Gs)"
  using assms unfolding all_done_def by blast+

lemma branch_of:
  assumes a: "all_done oc od c Gs c1" and f: "branches_ok oc (pc_blocks c)" and j: "jumps_to (pc_blocks c ! i) t" "i < length Gs"
  defines "p \<equiv> length (before_branch (Gs ! i))" and "b \<equiv> pc_blocks c1 ! i"
  shows "length (pb_instructions b) = p + 4" "length (Gs ! i) = p + 4" "is_branch (pb_instructions b ! p)" "qi_uniform (pb_instructions b ! p) = int (branch_use c Gs i)"
    "branch_qpu_ip b = of_nat (branch_at Gs i)" "branch_uniform b = of_nat (branch_use c Gs i)" "branch_at Gs i + 4 \<le> length (concat Gs)"
    "branch_use c Gs i < place_of c Gs (Suc i)" "branch_use c Gs i < length (uniform_data c1)" "uniform_contents c1 ! branch_use c Gs i = QUNIFORM_CONSTANT"
proof -
  note A = all_doneD [OF a]
  let ?b0 = "pc_blocks c ! i"
  have e: "ends_in_branch ?b0" "pb_successors ?b0 ! 0 = Some t" using j(1) by (simp_all add: jumps_to_def)
  have i: "i < length (pc_blocks c)" using j(2) A(1) by simp
  have u: "qi_uniform (last (pb_instructions ?b0)) \<noteq> - 1" "oc ! nat (qi_uniform (last (pb_instructions ?b0))) = QUNIFORM_CONSTANT"
    using branches_okD(3,4) [OF f i e(2,1)] by blast+
  note B = branch_done [OF A(5) [OF j(2)] e(1) u(1), folded p_def b_def]
  show "length (pb_instructions b) = p + 4" and l: "length (Gs ! i) = p + 4" using B(1,2) by blast+
  show "is_branch (pb_instructions b ! p)" using B(3) e(1) by (simp add: ends_in_branch_def)
  show "qi_uniform (pb_instructions b ! p) = int (branch_use c Gs i)" "branch_uniform b = of_nat (branch_use c Gs i)" using B(4,6) by (simp_all add: branch_use_def)
  show "branch_qpu_ip b = of_nat (branch_at Gs i)" using B(5) A(3) by (simp add: branch_at_def ip_of_def p_def)
  have "concat Gs = concat (take i Gs) @ Gs ! i @ concat (drop (Suc i) Gs)" using id_take_nth_drop [OF j(2)] by (metis concat.simps(2) concat_append)
  then show "branch_at Gs i + 4 \<le> length (concat Gs)" using l by (simp add: branch_at_def p_def)
  have le: "length Gs \<le> length (pc_blocks c)" using A(1) by simp
  show s: "branch_use c Gs i < place_of c Gs (Suc i)" using B(7) place_of_Suc [OF j(2) le] by (simp add: branch_use_def)
  have "place_of c Gs (Suc i) \<le> place_of c Gs (length Gs)" using place_of_mono [of "Suc i" "length Gs" Gs c] j(2) le by simp
  then show "branch_use c Gs i < length (uniform_data c1)" using s A(6) by (simp add: place_of_def)
  obtain rest where "prog_uses (pc_blocks c) Gs = prog_uses (pc_blocks c) (take (Suc i) Gs) @ rest"
    using prog_uses_prefix [of "take (Suc i) Gs" "drop (Suc i) Gs" "pc_blocks c"] le by auto
  moreover have "prog_uses (pc_blocks c) (take (Suc i) Gs) = prog_uses (pc_blocks c) (take i Gs) @ uses (pb_instructions ?b0) (Gs ! i)"
    using prog_uses_snoc [of "take i Gs" "pc_blocks c" "Gs ! i"] j(2) i by (simp add: take_Suc_conv_app_nth)
  ultimately have "prog_uses (pc_blocks c) Gs = (prog_uses (pc_blocks c) (take i Gs) @ uses (pb_instructions ?b0) (before_branch (Gs ! i))) @ qi_uniform (last (pb_instructions ?b0)) # rest"
    using B(7) by simp
  then have "branch_use c Gs i < length (prog_uses (pc_blocks c) Gs) \<and> prog_uses (pc_blocks c) Gs ! branch_use c Gs i = qi_uniform (last (pb_instructions ?b0))"
    by (simp add: branch_use_def place_of_def nth_append)
  then show "uniform_contents c1 ! branch_use c Gs i = QUNIFORM_CONSTANT" using A(7) u(2) by simp
qed

lemma branch_use_inj:
  assumes a: "all_done oc od c Gs c1" and f: "branches_ok oc (pc_blocks c)" and j: "jumps_to (pc_blocks c ! i) t" "i < j" "j < length Gs"
  shows "branch_use c Gs i < branch_use c Gs j"
proof -
  have "branch_use c Gs i < place_of c Gs (Suc i)" using branch_of(8) [OF a f j(1)] j(2,3) by simp
  also have "\<dots> \<le> place_of c Gs j" using j(2,3) all_doneD(1) [OF a] by (intro place_of_mono) simp_all
  also have "\<dots> \<le> branch_use c Gs j" by (simp add: branch_use_def)
  finally show ?thesis .
qed

lemma targets_skip:
  assumes "targets_inv c Gs c1 m c2" "\<And>t. \<not> jumps_to (pc_blocks c ! m) t"
  shows "targets_inv c Gs c1 (Suc m) c2"
proof -
  have lt: "i < m" if "i < Suc m" "jumps_to (pc_blocks c ! i) t" for i t using that assms(2) by (metis less_SucE)
  note I = assms(1) [unfolded targets_inv_def]
  show ?thesis unfolding targets_inv_def
  proof (intro conjI allI impI)
    fix i t assume "i < length (pc_blocks c1)" "i < Suc m" "jumps_to (pc_blocks c ! i) t"
    then show "pc_blocks c2 ! i = with_target (start_qpu_ip (pc_blocks c1 ! t)) (pc_blocks c1 ! i)" using I lt by blast
  next
    fix i assume i: "i < length (pc_blocks c1)" "Suc m \<le> i \<or> (\<forall>t. \<not> jumps_to (pc_blocks c ! i) t)"
    then have "m \<le> i \<or> (\<forall>t. \<not> jumps_to (pc_blocks c ! i) t)" by auto
    then show "pc_blocks c2 ! i = pc_blocks c1 ! i" using I i(1) by blast
  next
    fix u assume "\<forall>i < Suc m. \<forall>t. jumps_to (pc_blocks c ! i) t \<longrightarrow> branch_use c Gs i \<noteq> u"
    then have "\<forall>i < m. \<forall>t. jumps_to (pc_blocks c ! i) t \<longrightarrow> branch_use c Gs i \<noteq> u" by simp
    then show "uniform_data c2 ! u = uniform_data c1 ! u" using I by blast
  qed (use I lt in blast)+
qed

text \<open>A block without a branch.\<close>

lemma set_target_plain:
  assumes a: "all_done oc od c Gs c1" and f: "branches_ok oc (pc_blocks c)" and i: "targets_inv c Gs c1 m c2" and m: "m < length Gs" and e: "\<And>t. \<not> jumps_to (pc_blocks c ! m) t"
  shows "set_branch_target m c2 = ret c2"
proof -
  note A = all_doneD [OF a]
  have n: "m < length (pc_blocks c)" "m < length (pc_blocks c1)" using m A(1,2) by simp_all
  have b: "pc_blocks c2 ! m = pc_blocks c1 ! m" "length (pc_blocks c2) = length (pc_blocks c1)" using i n(2) unfolding targets_inv_def by blast+
  have su: "pb_successors (pc_blocks c1 ! m) = pb_successors (pc_blocks c ! m)" "length (pb_successors (pc_blocks c ! m)) = 2"
    using A(5) [OF m] branches_okD(1) [OF f n(1)] by (simp_all add: block_done_def)
  show ?thesis
  proof (cases "pb_successors (pc_blocks c ! m) ! 0")
    case None
    then show ?thesis using n b su by (simp add: set_branch_target_def)
  next
    case (Some t)
    have nb: "\<not> ends_in_branch (pc_blocks c ! m)" using e [of t] Some by (simp add: jumps_to_def)
    have t: "t = Suc m" "t < length (pc_blocks c)" using branches_okD(6) [OF f n(1) Some nb] branches_okD(2) [OF f n(1) Some] by simp_all
    have ip: "branch_qpu_ip (pc_blocks c1 ! m) = NOT 0" by (rule plain_done [OF A(5) [OF m] branches_okD(7) [OF f n(1) Some nb]])
    have "end_qpu_ip (pc_blocks c1 ! m) + 1 = start_qpu_ip (pc_blocks c1 ! t)"
      using A(5) [OF m] A(5) [of t] t A(1) ip_of_Suc [OF m, of c] by (simp add: block_done_def)
    then have "end_qpu_ip (pc_blocks c2 ! m) + 1 = start_qpu_ip (pc_blocks c2 ! t)" using targets_start(1) [OF i, of t] b(1) t A(2) by simp
    then show ?thesis using n b su Some ip t A(2) by (simp add: set_branch_target_def)
  qed
qed

text \<open>A block with a branch.\<close>

lemma set_target_branch:
  assumes a: "all_done oc od c Gs c1" and f: "branches_ok oc (pc_blocks c)" and i: "targets_inv c Gs c1 m c2" and m: "m < length Gs" and e: "jumps_to (pc_blocks c ! m) t"
  shows "\<exists>c3. set_branch_target m c2 = ret c3 \<and> targets_inv c Gs c1 (Suc m) c3"
proof -
  note A = all_doneD [OF a]
  let ?b = "pc_blocks c1 ! m" and ?p = "length (before_branch (Gs ! m))" and ?u = "branch_use c Gs m"
  have n: "m < length (pc_blocks c)" "m < length (pc_blocks c1)" using m A(1,2) by simp_all
  have b: "pc_blocks c2 ! m = ?b" "length (pc_blocks c2) = length (pc_blocks c1)" "uniform_contents c2 = uniform_contents c1" "length (uniform_data c2) = length (uniform_data c1)"
    using i n(2) unfolding targets_inv_def by blast+
  have su: "pb_successors ?b = pb_successors (pc_blocks c ! m)" "length (pb_successors (pc_blocks c ! m)) = 2"
    using A(5) [OF m] branches_okD(1) [OF f n(1)] by (simp_all add: block_done_def)
  have eb: "ends_in_branch (pc_blocks c ! m)" "pb_successors (pc_blocks c ! m) ! 0 = Some t" using e by (simp_all add: jumps_to_def)
  have t: "t < length (pc_blocks c1)" "t < length Gs" using branches_okD(2) [OF f n(1) eb(2)] A(1,2) by simp_all
  note B = branch_of [OF a f e m]
  have ne: "branch_qpu_ip ?b \<noteq> NOT 0"
  proof -
    have lt: "branch_at Gs m < 2 ^ 32 - 1" using B(7) A(4) by simp
    then have "unat (of_nat (branch_at Gs m) :: u32) = branch_at Gs m" by (simp add: unsigned_of_nat take_bit_nat_eq_self)
    moreover have "unat (NOT 0 :: u32) = 2 ^ 32 - 1" by (simp add: unsigned_minus_1_eq_mask mask_eq_exp_minus_1)
    ultimately show ?thesis unfolding B(5) using lt by (metis nat_neq_iff)
  qed
  have ipt: "start_qpu_ip (pc_blocks c2 ! t) = start_qpu_ip (pc_blocks c1 ! t)" "start_uniform (pc_blocks c2 ! t) = of_nat (place_of c Gs t)"
    using targets_start [OF i t(1)] A(5) [OF t(2)] by (simp_all add: block_done_def)
  have next1: "(case pb_successors (pc_blocks c ! m) ! 1 of None \<Rightarrow> ret () | Some s1 \<Rightarrow> bind_run (fetch (pc_blocks c2) s1) (\<lambda>next. assert_run (start_qpu_ip next = branch_qpu_ip ?b + 4))) = ret ()"
  proof (cases "pb_successors (pc_blocks c ! m) ! 1")
    case (Some u)
    have u: "u = Suc m" "u < length (pc_blocks c)" using branches_okD(5) [OF f n(1) eb(2,1) Some] by simp_all
    have "start_qpu_ip (pc_blocks c2 ! u) = ip_of c Gs u" using targets_start(1) [OF i, of u] A(5) [of u] u A(1,2) by (simp add: block_done_def)
    also have "\<dots> = branch_qpu_ip ?b + 4" using ip_of_Suc [OF m, of c] B(2,5) A(3) u(1) by (simp add: branch_at_def ip_of_def)
    finally show ?thesis using Some u(2) b(2) A(2) by simp
  qed simp
  have uq: "qi_uniform (pb_instructions ?b ! ?p) = int ?u" "?u < length (uniform_data c1)" "?u < length (uniform_contents c1)" "uniform_contents c1 ! ?u = QUNIFORM_CONSTANT"
    using B(4,9,10) A(6,7) by simp_all
  define c3 where "c3 = c2\<lparr>pc_blocks := (pc_blocks c2)[m := with_target (start_qpu_ip (pc_blocks c1 ! t)) ?b], uniform_data := (uniform_data c2)[?u := distance c Gs m t]\<rparr>"
  have run: "set_branch_target m c2 = ret c3"
    unfolding set_branch_target_def using n b su eb(2) t ne next1 B(1,3,6) uq ipt
    by (simp add: Let_def update_at_def with_target_def c3_def distance_def numeral_2_eq_2)
  have other: "branch_use c Gs i \<noteq> ?u" if "i < m" "jumps_to (pc_blocks c ! i) t'" for i t' using branch_use_inj [OF a f that(2,1) m] by simp
  have "targets_inv c Gs c1 (Suc m) c3" unfolding targets_inv_def
  proof (intro conjI allI impI)
    fix i t' assume it: "i < length (pc_blocks c1)" "i < Suc m" "jumps_to (pc_blocks c ! i) t'"
    show "pc_blocks c3 ! i = with_target (start_qpu_ip (pc_blocks c1 ! t')) (pc_blocks c1 ! i)"
    proof (cases "i = m")
      case True
      then show ?thesis using it(3) eb(2) b(2) n(2) by (auto simp: c3_def jumps_to_def)
    next
      case False
      then show ?thesis using it i by (simp add: targets_inv_def c3_def)
    qed
  next
    fix i assume it: "i < length (pc_blocks c1)" "Suc m \<le> i \<or> (\<forall>t. \<not> jumps_to (pc_blocks c ! i) t)"
    then have "i \<noteq> m" using e by auto
    then show "pc_blocks c3 ! i = pc_blocks c1 ! i" using it i by (auto simp: targets_inv_def c3_def)
  next
    fix i t' assume it: "i < Suc m" "jumps_to (pc_blocks c ! i) t'"
    show "uniform_data c3 ! branch_use c Gs i = distance c Gs i t'"
    proof (cases "i = m")
      case True
      then show ?thesis using it(2) eb(2) b(4) uq(2) by (auto simp: c3_def jumps_to_def)
    next
      case False
      then show ?thesis using it i other [of i t'] by (simp add: targets_inv_def c3_def)
    qed
  next
    fix u assume u: "\<forall>i < Suc m. \<forall>t. jumps_to (pc_blocks c ! i) t \<longrightarrow> branch_use c Gs i \<noteq> u"
    then have "u \<noteq> ?u" using e by auto
    moreover have "uniform_data c2 ! u = uniform_data c1 ! u" using i u unfolding targets_inv_def by (meson less_SucI)
    ultimately show "uniform_data c3 ! u = uniform_data c1 ! u" by (simp add: c3_def)
  qed (use i in \<open>simp_all add: targets_inv_def c3_def\<close>)
  then show ?thesis using run by blast
qed

lemma set_branch_targets_ok:
  assumes a: "all_done oc od c Gs c1" and f: "branches_ok oc (pc_blocks c)"
  shows "\<exists>c2. qpu_set_branch_targets c1 = ret c2 \<and> targets_inv c Gs c1 (length Gs) c2"
proof -
  have "\<exists>c2. fold_run set_branch_target [0..<m] c1 = ret c2 \<and> targets_inv c Gs c1 m c2" if "m \<le> length Gs" for m
    using that
  proof (induction m)
    case 0
    then show ?case by (simp add: targets_inv_def)
  next
    case (Suc m)
    then obtain c2 where c2: "fold_run set_branch_target [0..<m] c1 = ret c2" "targets_inv c Gs c1 m c2" by auto
    have m: "m < length Gs" using Suc.prems by simp
    have "\<exists>c3. set_branch_target m c2 = ret c3 \<and> targets_inv c Gs c1 (Suc m) c3"
    proof (cases "\<exists>t. jumps_to (pc_blocks c ! m) t")
      case True
      then show ?thesis using set_target_branch [OF a f c2(2) m] by blast
    next
      case False
      then have "\<And>t. \<not> jumps_to (pc_blocks c ! m) t" by blast
      then show ?thesis using set_target_plain [OF a f c2(2) m] targets_skip [OF c2(2)] by blast
    qed
    then show ?case using c2(1) by (auto simp: fold_run_append)
  qed
  then show ?thesis using all_doneD(1,2) [OF a] by (simp add: qpu_set_branch_targets_def)
qed

end
