(* ===== verification/Sched_Result.thy ===== *)
theory Sched_Result
  imports Sched_Target
begin

text \<open>
  The program that the scheduler leaves, described from the blocks before it and the groups of each block.
\<close>

section \<open>The whole scheduler\<close>

text \<open>
  \<open>contents0\<close> and \<open>data0\<close> are the new arrays of uniforms. The bound keeps the positions of instructions within 32 bits.
\<close>

definition schedulable :: "quniform_contents list \<Rightarrow> u32 list \<Rightarrow> qpu_compile \<Rightarrow> bool" where
  "schedulable contents0 data0 c \<longleftrightarrow> prog_ok (uniform_contents c) (uniform_data c) (c\<lparr>uniform_contents := contents0, uniform_data := data0\<rparr>) \<and>
     branches_ok (uniform_contents c) (pc_blocks c) \<and> qpu_inst_count c = 0 \<and>
     9 * length (concat (map pb_instructions (pc_blocks c))) + 5 * length (pc_blocks c) < 2 ^ 32 - 1"

lemma program_scheduled:
  assumes "schedulable contents0 data0 c"
  shows "\<exists>c2 cycles Gs c1. v3d_qpu_schedule_instructions calloc contents0 data0 c = ret (c2, cycles) \<and>
    all_done (uniform_contents c) (uniform_data c) c Gs c1 \<and> targets_inv c Gs c1 (length Gs) c2 \<and> program_allowed None (prog_code (pc_blocks c1)) \<and>
    num_uniforms c1 = num_uniforms c \<and> length (prog_uses (pc_blocks c) Gs) = num_uniforms c \<and> qpu_inst_count c1 = ip_of c Gs (length Gs)"
proof -
  let ?oc = "uniform_contents c" and ?od = "uniform_data c"
  define c0 where "c0 = c\<lparr>uniform_contents := contents0, uniform_data := data0\<rparr>"
  have ok: "prog_ok ?oc ?od c0" and f: "branches_ok ?oc (pc_blocks c)" and n: "qpu_inst_count c = 0" "9 * length (concat (map pb_instructions (pc_blocks c))) + 5 * length (pc_blocks c) < 2 ^ 32 - 1"
    using assms by (simp_all add: schedulable_def c0_def)
  have same: "pc_blocks c0 = pc_blocks c" "qpu_inst_count c0 = qpu_inst_count c" "num_uniforms c0 = num_uniforms c" by (simp_all add: c0_def)
  obtain v Gs where v: "fold_run (schedule_block calloc ?oc ?od) [0..<length (pc_blocks c0)] (c0, initial_scoreboard, 0, 0) = ret v" "length Gs = length (pc_blocks c0)" "prog_inv ?oc ?od c0 Gs v"
    using schedule_blocks_ok [OF ok order_refl] by blast
  obtain c1 sb k cy where v': "v = (c1, sb, k, cy)" by (cases v)
  note I = v(3) [unfolded prog_inv_def v', simplified]
  have len: "length Gs = length (pc_blocks c)" using v(2) same by simp
  have sched: "\<forall>i < length Gs. schedule_of (pb_instructions (pc_blocks c ! i)) (Gs ! i)" "\<forall>i < length Gs. length (Gs ! i) \<le> 9 * length (pb_instructions (pc_blocks c ! i)) + 5"
    using I by (simp_all add: block_done_def same)
  have ofs: "ip_of c0 = ip_of c" "place_of c0 = place_of c" by (simp_all add: ip_of_def place_of_def same fun_eq_iff)
  have num: "length (prog_uses (pc_blocks c) Gs) = num_uniforms c"
    using prog_uses_length [OF _ sched(1)] len ok by (simp add: prog_ok_def same)
  then have k: "k = num_uniforms c" "k = length (uniform_data c1)" "k = length (uniform_contents c1)" using I ok by (simp_all add: place_of_def same prog_ok_def)
  have short: "length (concat Gs) < 2 ^ 32 - 1" using groups_bound [OF _ sched(2)] len n(2) by simp
  have data: "uniform_data c1 = map (\<lambda>u. ?od ! nat u) (prog_uses (pc_blocks c) Gs)" "uniform_contents c1 = map (\<lambda>u. ?oc ! nat u) (prog_uses (pc_blocks c) Gs)"
    using I k(2,3) same by (metis take_all order_refl)+
  have done1: "all_done ?oc ?od c Gs c1" unfolding all_done_def
    using I len n(1) short data num ofs same by (simp add: place_of_def)
  obtain c2 where c2: "qpu_set_branch_targets c1 = ret c2" "targets_inv c Gs c1 (length Gs) c2" using set_branch_targets_ok [OF done1 f] by blast
  have "num_uniforms c2 = num_uniforms c" using c2(2) I same by (simp add: targets_inv_def)
  then have "v3d_qpu_schedule_instructions calloc contents0 data0 c = ret (c2, cy)"
    unfolding v3d_qpu_schedule_instructions_def c0_def [symmetric] using v(1) c2(1) k(1) same(1) by (simp add: v')
  moreover have "program_allowed None (prog_code (pc_blocks c1))"
  proof -
    have "take (length Gs) (pc_blocks c1) = pc_blocks c1" using I len same by simp
    then show ?thesis using I by metis
  qed
  ultimately show ?thesis using done1 c2(2) num I same ofs by auto
qed

section \<open>Code\<close>

text \<open>The code of a block: the instructions of its groups, and the branch with the distance to its target.\<close>

definition block_code :: "qpu_compile \<Rightarrow> nat list list list \<Rightarrow> nat \<Rightarrow> v3d_qpu_instr list" where
  "block_code c Gs i =
     (let b = pc_blocks c ! i; code = map (group_qpu (pb_instructions b)) (Gs ! i); p = length code - 4 in
      if ends_in_branch b then
        (case pb_successors b ! 0 of None \<Rightarrow> code
         | Some t \<Rightarrow> code[p := (code ! p)\<lparr>branch := (branch (code ! p))\<lparr>br_offset := word_of_int (8 * (int (length (concat (take t Gs))) - int (branch_at Gs i + 4)))\<rparr>\<rparr>])
      else code)"

lemma final_code:
  assumes a: "all_done oc od c Gs c1" and f: "branches_ok oc (pc_blocks c)" and t: "targets_inv c Gs c1 (length Gs) c2" and i: "i < length Gs"
  shows "map qi_qpu (pb_instructions (pc_blocks c2 ! i)) = block_code c Gs i" "map qi_uniform (pb_instructions (pc_blocks c2 ! i)) = map qi_uniform (pb_instructions (pc_blocks c1 ! i))"
proof -
  note A = all_doneD [OF a]
  have n: "i < length (pc_blocks c1)" "i < length (pc_blocks c)" using i A(1,2) by simp_all
  let ?orig = "pc_blocks c ! i" and ?b = "pc_blocks c1 ! i"
  have code: "map qi_qpu (pb_instructions ?b) = map (group_qpu (pb_instructions ?orig)) (Gs ! i)" using A(5) [OF i] unfolding block_done_def by blast
  have "map qi_qpu (pb_instructions (pc_blocks c2 ! i)) = block_code c Gs i \<and> map qi_uniform (pb_instructions (pc_blocks c2 ! i)) = map qi_uniform (pb_instructions ?b)"
  proof (cases "\<exists>t. jumps_to ?orig t")
    case False
    then have "pc_blocks c2 ! i = ?b" using t n(1) unfolding targets_inv_def by blast
    moreover have "block_code c Gs i = map (group_qpu (pb_instructions ?orig)) (Gs ! i)" using False by (auto simp: block_code_def Let_def jumps_to_def split: option.splits)
    ultimately show ?thesis using code by simp
  next
    case True
    then obtain u where u: "jumps_to ?orig u" by blast
    have e: "ends_in_branch ?orig" "pb_successors ?orig ! 0 = Some u" using u by (simp_all add: jumps_to_def)
    have ul: "u < length Gs" using branches_okD(2) [OF f n(2) e(2)] A(1) by simp
    have c2: "pc_blocks c2 ! i = with_target (start_qpu_ip (pc_blocks c1 ! u)) ?b" using t n(1) i u unfolding targets_inv_def by blast
    note B = branch_of [OF a f u i]
    let ?p = "length (before_branch (Gs ! i))" and ?o = "(start_qpu_ip (pc_blocks c1 ! u) - (branch_qpu_ip ?b + 4)) * 8"
    let ?br = "pb_instructions ?b ! ?p"
    have p: "length (pb_instructions ?b) - 4 = ?p" "?p < length (pb_instructions ?b)" using B(1) by simp_all
    have "start_qpu_ip (pc_blocks c1 ! u) = of_nat (length (concat (take u Gs)))" using A(3) A(5) [OF ul] by (simp add: block_done_def ip_of_def)
    then have o: "?o = word_of_int (8 * (int (length (concat (take u Gs))) - int (branch_at Gs i + 4)))"
      unfolding B(5) by (simp add: algebra_simps)
    have g: "map (group_qpu (pb_instructions ?orig)) (Gs ! i) ! ?p = qi_qpu ?br" unfolding code [symmetric] using p by simp
    have l: "length (map (group_qpu (pb_instructions ?orig)) (Gs ! i)) - 4 = ?p" using B(2) by simp
    have "block_code c Gs i = (map qi_qpu (pb_instructions ?b))[?p := (qi_qpu ?br)\<lparr>branch := (branch (qi_qpu ?br))\<lparr>br_offset := ?o\<rparr>\<rparr>]"
      unfolding block_code_def Let_def l g o code using e by simp
    moreover have "map qi_uniform ((pb_instructions ?b)[?p := ?br\<lparr>qi_qpu := x\<rparr>]) = map qi_uniform (pb_instructions ?b)" for x
      unfolding map_update using p by (simp add: list_update_same_conv)
    ultimately show ?thesis unfolding c2 with_target_def Let_def p(1) by (simp add: map_update)
  qed
  then show "map qi_qpu (pb_instructions (pc_blocks c2 ! i)) = block_code c Gs i" "map qi_uniform (pb_instructions (pc_blocks c2 ! i)) = map qi_uniform (pb_instructions (pc_blocks c1 ! i))" by blast+
qed

section \<open>Validation\<close>

text \<open>The validator does not look at the fields of a branch.\<close>

definition retargeted :: "v3d_qpu_instr \<Rightarrow> v3d_qpu_instr \<Rightarrow> bool" where
  "retargeted i i' \<longleftrightarrow> (\<exists>b. i' = i\<lparr>branch := b\<rparr>)"

lemma retargeted_refl [simp]: "retargeted i i"
  unfolding retargeted_def by (rule exI [of _ "branch i"]) simp

lemma magic_writes_branch [simp]: "magic_writes cls (i\<lparr>branch := b\<rparr>) = magic_writes cls i"
  by (simp add: magic_writes_def)

lemma retargeted_allowed:
  assumes "retargeted i i'" "rel_option retargeted prev prev'" "instr_allowed prev i"
  shows "instr_allowed prev' i'"
proof -
  obtain b where i': "i' = i\<lparr>branch := b\<rparr>" using assms(1) by (auto simp: retargeted_def)
  have i: "peripheral_uses i' = peripheral_uses i" "v3d_qpu_uses_mux i' = v3d_qpu_uses_mux i" "v3d_qpu_writes_r4 i' = v3d_qpu_writes_r4 i" "writes_sfu i' = writes_sfu i" "sig i' = sig i" "instr_type i' = instr_type i"
    unfolding i' by (simp_all add: peripheral_uses_def v3d_qpu_uses_mux_def v3d_qpu_writes_r4_def writes_sfu_def fun_eq_iff)
  show ?thesis
  proof (cases prev')
    case None
    then show ?thesis using assms(2,3) i by (simp add: instr_allowed_def)
  next
    case (Some p')
    then obtain p where p: "prev = Some p" "retargeted p p'" using assms(2) by (cases prev) auto
    then obtain b' where "p' = p\<lparr>branch := b'\<rparr>" by (auto simp: retargeted_def)
    then have "sig p' = sig p" "writes_sfu p' = writes_sfu p" by (simp_all add: writes_sfu_def)
    then show ?thesis using assms(3) i p(1) Some by (simp add: instr_allowed_def)
  qed
qed

lemma retargeted_program:
  "list_all2 retargeted is is' \<Longrightarrow> rel_option retargeted prev prev' \<Longrightarrow> program_allowed prev is \<Longrightarrow> program_allowed prev' is'"
proof (induction "is" is' arbitrary: prev prev' rule: list_all2_induct)
  case (Cons i "is" i' is')
  have "instr_allowed prev' i'" using retargeted_allowed [OF Cons.hyps(1) Cons.prems(1)] Cons.prems(2) by simp
  moreover have "program_allowed (Some i') is'" using Cons.IH [of "Some i" "Some i'"] Cons.hyps(1) Cons.prems(2) by simp
  ultimately show ?case by simp
qed simp

lemma final_retargeted:
  assumes a: "all_done oc od c Gs c1" and f: "branches_ok oc (pc_blocks c)" and t: "targets_inv c Gs c1 (length Gs) c2"
  shows "list_all2 retargeted (prog_code (pc_blocks c1)) (prog_code (pc_blocks c2))"
proof -
  note A = all_doneD [OF a]
  have "list_all2 (list_all2 retargeted) (map (\<lambda>b. map qi_qpu (pb_instructions b)) (pc_blocks c1)) (map (\<lambda>b. map qi_qpu (pb_instructions b)) (pc_blocks c2))"
  proof (rule list_all2_all_nthI)
    show len: "length (map (\<lambda>b. map qi_qpu (pb_instructions b)) (pc_blocks c1)) = length (map (\<lambda>b. map qi_qpu (pb_instructions b)) (pc_blocks c2))"
      using t by (simp add: targets_inv_def)
    fix i assume "i < length (map (\<lambda>b. map qi_qpu (pb_instructions b)) (pc_blocks c1))"
    then have i: "i < length (pc_blocks c1)" "i < length Gs" "i < length (pc_blocks c2)" using A(1,2) len by simp_all
    have code: "map qi_qpu (pb_instructions (pc_blocks c1 ! i)) = map (group_qpu (pb_instructions (pc_blocks c ! i))) (Gs ! i)"
      using A(5) [OF i(2)] unfolding block_done_def by blast
    have u: "list_all2 retargeted xs (xs[p := (xs ! p)\<lparr>branch := b\<rparr>])" for xs p b
    proof (rule list_all2_all_nthI)
      fix n assume "n < length xs"
      then show "retargeted (xs ! n) (xs[p := (xs ! p)\<lparr>branch := b\<rparr>] ! n)" by (cases "n = p") (auto simp: retargeted_def intro: exI [of _ "branch (xs ! n)"])
    qed simp
    have "list_all2 retargeted (map (group_qpu (pb_instructions (pc_blocks c ! i))) (Gs ! i)) (block_code c Gs i)"
      unfolding block_code_def Let_def by (auto simp: list_all2_refl split: option.splits intro: u)
    then show "list_all2 retargeted (map (\<lambda>b. map qi_qpu (pb_instructions b)) (pc_blocks c1) ! i) (map (\<lambda>b. map qi_qpu (pb_instructions b)) (pc_blocks c2) ! i)"
      using i final_code(1) [OF a f t i(2)] code by simp
  qed
  then show ?thesis unfolding prog_code_def by (rule concat_transfer [THEN rel_funD])
qed

section \<open>The stream of uniforms\<close>

lemma numbered_used: "filter (\<lambda>u. u \<noteq> - 1) (numbered k us) = map int [k..<k + length (filter (\<lambda>u. u \<noteq> - 1) us)]"
  by (induction us arbitrary: k) (simp_all add: upt_rec)

lemma final_numbers:
  assumes a: "all_done oc od c Gs c1" and f: "branches_ok oc (pc_blocks c)" and t: "targets_inv c Gs c1 (length Gs) c2"
  shows "filter (\<lambda>u. u \<noteq> - 1) (map qi_uniform (concat (map pb_instructions (pc_blocks c2)))) = map int [0..<length (prog_uses (pc_blocks c) Gs)]"
proof -
  note A = all_doneD [OF a]
  have len: "length (pc_blocks c2) = length Gs" using t A(1,2) by (simp add: targets_inv_def)
  have "filter (\<lambda>u. u \<noteq> - 1) (map qi_uniform (concat (map pb_instructions (take m (pc_blocks c2))))) = map int [0..<place_of c Gs m]" if "m \<le> length Gs" for m
    using that
  proof (induction m)
    case 0
    then show ?case by (simp add: place_of_def prog_uses_def)
  next
    case (Suc m)
    have m: "m < length Gs" using Suc.prems by simp
    have q: "map qi_uniform (pb_instructions (pc_blocks c2 ! m)) = numbered (place_of c Gs m) (map (group_uniform (pb_instructions (pc_blocks c ! m))) (Gs ! m))"
      using final_code(2) [OF a f t m] A(5) [OF m] unfolding block_done_def by metis
    have p: "place_of c Gs (Suc m) = place_of c Gs m + length (uses (pb_instructions (pc_blocks c ! m)) (Gs ! m))" using place_of_Suc [OF m] A(1) by simp
    have "[0..<place_of c Gs (Suc m)] = [0..<place_of c Gs m] @ [place_of c Gs m..<place_of c Gs (Suc m)]" unfolding p by (metis upt_add_eq_append zero_le)
    then show ?case using Suc q m len p numbered_used [of "place_of c Gs m" "map (group_uniform (pb_instructions (pc_blocks c ! m))) (Gs ! m)"]
      by (simp add: take_Suc_conv_app_nth uses_def)
  qed
  from this [of "length Gs"] show ?thesis using len by (simp add: place_of_def)
qed

section \<open>Positions\<close>

lemma length_block_code [simp]: "length (block_code c Gs i) = length (Gs ! i)"
  by (simp add: block_code_def Let_def split: option.splits)

lemma final_prefix:
  assumes a: "all_done oc od c Gs c1" and f: "branches_ok oc (pc_blocks c)" and t: "targets_inv c Gs c1 (length Gs) c2"
  shows "m \<le> length Gs \<Longrightarrow> length (prog_code (take m (pc_blocks c2))) = length (concat (take m Gs))"
proof (induction m)
  case (Suc m)
  have len: "length (pc_blocks c2) = length Gs" using t all_doneD(1,2) [OF a] by (simp add: targets_inv_def)
  have "length (pb_instructions (pc_blocks c2 ! m)) = length (Gs ! m)"
    using arg_cong [OF final_code(1) [OF a f t, of m], of length] Suc.prems by simp
  then show ?case using Suc len by (simp add: take_Suc_conv_app_nth prog_code_def)
qed (simp add: prog_code_def)

lemma final_position:
  assumes a: "all_done oc od c Gs c1" and f: "branches_ok oc (pc_blocks c)" and t: "targets_inv c Gs c1 (length Gs) c2" and i: "i < length Gs" and j: "j < length (Gs ! i)"
  shows "prog_code (pc_blocks c2) ! (length (concat (take i Gs)) + j) = block_code c Gs i ! j"
proof -
  have len: "length (pc_blocks c2) = length Gs" using t all_doneD(1,2) [OF a] by (simp add: targets_inv_def)
  have "pc_blocks c2 = take i (pc_blocks c2) @ pc_blocks c2 ! i # drop (Suc i) (pc_blocks c2)" using i len by (intro id_take_nth_drop) simp
  then have "prog_code (pc_blocks c2) = prog_code (take i (pc_blocks c2)) @ map qi_qpu (pb_instructions (pc_blocks c2 ! i)) @ prog_code (drop (Suc i) (pc_blocks c2))"
    unfolding prog_code_def by (metis concat.simps(2) concat_append list.simps(9) map_append)
  then show ?thesis using final_prefix [OF a f t, of i] final_code(1) [OF a f t i] i j by (simp add: nth_append)
qed

text \<open>The branch of a block and the three instructions in its delay slots.\<close>

lemma branch_code:
  assumes a: "all_done oc od c Gs c1" and f: "branches_ok oc (pc_blocks c)" and u: "jumps_to (pc_blocks c ! i) u" and i: "i < length Gs"
  defines "p \<equiv> length (before_branch (Gs ! i))"
  shows "instr_type (block_code c Gs i ! p) = V3D_QPU_INSTR_TYPE_BRANCH"
    "br_offset (branch (block_code c Gs i ! p)) = word_of_int (8 * (int (length (concat (take u Gs))) - int (branch_at Gs i + 4)))"
    "p < j \<Longrightarrow> j < length (Gs ! i) \<Longrightarrow> block_code c Gs i ! j = v3d_qpu_nop"
proof -
  note A = all_doneD [OF a] and B = branch_of [OF a f u i, folded p_def]
  let ?orig = "pc_blocks c ! i" and ?code = "map (group_qpu (pb_instructions (pc_blocks c ! i))) (Gs ! i)"
  have e: "ends_in_branch ?orig" "pb_successors ?orig ! 0 = Some u" using u by (simp_all add: jumps_to_def)
  have D: "block_done ?orig (Gs ! i) (ip_of c Gs i) (place_of c Gs i) (pc_blocks c1 ! i)" by (rule A(5) [OF i])
  then have code: "map qi_qpu (pb_instructions (pc_blocks c1 ! i)) = ?code" unfolding block_done_def by blast
  have p: "length ?code - 4 = p" "p < length ?code" using B(2) by simp_all
  have c: "block_code c Gs i = ?code[p := (?code ! p)\<lparr>branch := (branch (?code ! p))\<lparr>br_offset := word_of_int (8 * (int (length (concat (take u Gs))) - int (branch_at Gs i + 4)))\<rparr>\<rparr>]"
    unfolding block_code_def Let_def p(1) using e by simp
  have "?code ! p = qi_qpu (pb_instructions (pc_blocks c1 ! i) ! p)" unfolding code [symmetric] using B(1) by simp
  then show "instr_type (block_code c Gs i ! p) = V3D_QPU_INSTR_TYPE_BRANCH"
    "br_offset (branch (block_code c Gs i ! p)) = word_of_int (8 * (int (length (concat (take u Gs))) - int (branch_at Gs i + 4)))"
    unfolding c using p(2) B(3) by simp_all
  assume j: "p < j" "j < length (Gs ! i)"
  let ?l = "length (pb_instructions ?orig) - 1"
  have l: "?l < length (pb_instructions ?orig)" "is_branch (pb_instructions ?orig ! ?l)" using e(1) by (auto simp: ends_in_branch_def last_conv_nth)
  have "?l \<in> set (concat (Gs ! i))" using D schedule_ofD(2) l(1) unfolding block_done_def by blast
  then obtain G' where "Gs ! i = G' @ [[?l], [], [], []]" using D l(2) unfolding block_done_def branch_end_def by blast
  then have "Gs ! i ! j = []" using j by (auto simp: p_def before_branch_def nth_append nth_Cons split: nat.splits)
  then show "block_code c Gs i ! j = v3d_qpu_nop" unfolding c using j by (simp add: group_qpu_def)
qed

lemma scheduled_validates:
  assumes "all_done oc od c Gs c1" "branches_ok oc (pc_blocks c)" "targets_inv c Gs c1 (length Gs) c'" "program_allowed None (prog_code (pc_blocks c1))"
  shows "\<exists>st. qpu_validate (map (\<lambda>b. map qi_qpu (pb_instructions b)) (pc_blocks c')) = Inr st"
proof -
  have "program_allowed None (prog_code (pc_blocks c'))" by (rule retargeted_program [OF final_retargeted [OF assms(1-3)] _ assms(4)]) simp
  moreover have "validate_inv \<lparr>vs_last = None, vs_ip = 0, vs_last_sfu_write = - 10\<rparr>" by (simp add: validate_inv_def)
  ultimately show ?thesis using block_accepts_iff by (simp add: qpu_validate_def blocks_concat prog_code_def)
qed

end
