(* ===== verification/Sched_Spec.thy ===== *)
theory Sched_Spec
  imports Sched_Result
begin

text \<open>
  The properties of the scheduler \<open>v3d_qpu_schedule_instructions\<close>.
\<close>

section \<open>Sample programs\<close>

definition fadd_rf :: "v3d_qpu_waddr \<Rightarrow> u8 \<Rightarrow> v3d_qpu_instr" where
  "fadd_rf d s = v3d_qpu_nop\<lparr>alu_add := (alu_add v3d_qpu_nop)\<lparr>alu_op := V3D_QPU_A_FADD, mux_a := V3D_QPU_MUX_A, mux_b := V3D_QPU_MUX_A, waddr := d, magic_write := False\<rparr>, raddr_a := s\<rparr>"

definition fmul_r5 :: "v3d_qpu_waddr \<Rightarrow> v3d_qpu_instr" where
  "fmul_r5 d = v3d_qpu_nop\<lparr>alu_mul := (alu_mul v3d_qpu_nop)\<lparr>alu_op := V3D_QPU_M_FMUL, mux_a := V3D_QPU_MUX_R5, mux_b := V3D_QPU_MUX_R5, waddr := d, magic_write := False\<rparr>\<rparr>"

definition stvpm_rf :: "u8 \<Rightarrow> v3d_qpu_instr" where
  "stvpm_rf s = v3d_qpu_nop\<lparr>alu_add := (alu_add v3d_qpu_nop)\<lparr>alu_op := V3D_QPU_A_STVPMV, mux_a := V3D_QPU_MUX_A, mux_b := V3D_QPU_MUX_A\<rparr>, raddr_a := s\<rparr>"

definition ldunif_nop :: v3d_qpu_instr where
  "ldunif_nop = v3d_qpu_nop\<lparr>sig := (sig v3d_qpu_nop)\<lparr>ldunif := True\<rparr>\<rparr>"

definition thrsw_nop :: v3d_qpu_instr where
  "thrsw_nop = v3d_qpu_nop\<lparr>sig := (sig v3d_qpu_nop)\<lparr>thrsw := True\<rparr>\<rparr>"

definition branch_always :: v3d_qpu_instr where
  "branch_always = v3d_qpu_nop\<lparr>instr_type := V3D_QPU_INSTR_TYPE_BRANCH\<rparr>"

definition qinst_of :: "nat \<Rightarrow> int \<Rightarrow> v3d_qpu_instr \<Rightarrow> qinst" where
  "qinst_of p u i = (vir_nop p)\<lparr>qi_qpu := i, qi_uniform := u\<rparr>"

definition block_of :: "qinst list \<Rightarrow> nat option list \<Rightarrow> qpu_block" where
  "block_of qs ss = \<lparr>pb_instructions = qs, pb_successors = ss, start_qpu_ip = 0, end_qpu_ip = 0, branch_qpu_ip = 0, start_uniform = 0, branch_uniform = 0\<rparr>"

text \<open>A loop of one block, and a block after it.\<close>

definition loop_program :: qpu_compile where
  "loop_program = \<lparr>pc_blocks = [block_of [qinst_of 1 (- 1) (fadd_rf 1 0), qinst_of 2 1 ldunif_nop, qinst_of 3 (- 1) (fmul_r5 2), qinst_of 4 0 branch_always] [Some 0, Some 1],
       block_of [qinst_of 5 (- 1) (fadd_rf 3 2), qinst_of 6 (- 1) thrsw_nop] [None, None]],
     qpu_inst_count = 0, num_uniforms = 2, uniform_contents = [0, 5], uniform_data = [0, 7]\<rparr>"

text \<open>The end of a vertex shader: the last value is stored, then the thread ends.\<close>

definition store_program :: qpu_compile where
  "store_program = \<lparr>pc_blocks = [block_of [qinst_of 1 (- 1) (fadd_rf 1 0), qinst_of 2 (- 1) (fadd_rf 2 1), qinst_of 3 (- 1) (stvpm_rf 2), qinst_of 4 (- 1) thrsw_nop] [None, None]],
     qpu_inst_count = 0, num_uniforms = 0, uniform_contents = [], uniform_data = []\<rparr>"

text \<open>A block with a thread switch that continues with the next block.\<close>

definition switch_program :: qpu_compile where
  "switch_program = \<lparr>pc_blocks = [block_of [qinst_of 1 (- 1) (fadd_rf 1 0), qinst_of 2 (- 1) thrsw_nop] [Some 1, None], block_of [qinst_of 3 (- 1) thrsw_nop] [None, None]],
     qpu_inst_count = 0, num_uniforms = 0, uniform_contents = [], uniform_data = []\<rparr>"

lemma schedulableI:
  assumes "length (concat (map pb_instructions (pc_blocks c))) < 1000" "length (pc_blocks c) < 1000"
    "\<forall>b\<in>set (pc_blocks c). (\<forall>q\<in>set (pb_instructions b). deps_ok q \<and> peripheral_uses (qi_qpu q) \<le> 1 \<and> (if is_branch q then \<not> ldvary (sig (qi_qpu q)) else halves_ok q) \<and>
        uniform_ok (uniform_contents c) (uniform_data c) q) \<and> (\<forall>q\<in>set (butlast (pb_instructions b)). \<not> is_branch q)"
    "length (prog_unis (pc_blocks c)) = num_uniforms c \<and> length data0 = num_uniforms c \<and> length contents0 = num_uniforms c"
    "branches_ok (uniform_contents c) (pc_blocks c)" "qpu_inst_count c = 0"
  shows "schedulable contents0 data0 c"
proof -
  have "length (pb_instructions b) < 2 ^ 31" if "b \<in> set (pc_blocks c)" for b
  proof -
    have "length (pb_instructions b) \<le> length (concat (map pb_instructions (pc_blocks c)))"
      using that by (auto simp: length_concat intro!: member_le_sum_list)
    then show ?thesis using assms(1) by simp
  qed
  then have "\<forall>b\<in>set (pc_blocks c). block_ok (pb_instructions b) \<and> (\<forall>q\<in>set (pb_instructions b). uniform_ok (uniform_contents c) (uniform_data c) q)"
    using assms(3) by (auto simp: block_ok_def)
  then show ?thesis using assms(1,2,4,5,6) by (simp add: schedulable_def prog_ok_def)
qed

lemma loop_schedulable: "schedulable [0, 0] [0, 0] loop_program"
  by (rule schedulableI; code_simp)

text \<open>An execution in which every written field gets one more than the sum of what the instruction accesses.\<close>

definition sum_ex :: "qinst \<Rightarrow> nat field_values \<Rightarrow> nat field_values" where
  "sum_ex q v = (\<lambda>f. if (f, True) \<in> set (accesses q) then Suc (sum_list (map (\<lambda>a. v (fst a)) (accesses q))) else v f)"

lemma sum_ex_by_accesses: "by_accesses sum_ex"
proof -
  have "sum_list (map (\<lambda>a. v (fst a)) (accesses q)) = sum_list (map (\<lambda>a. v' (fst a)) (accesses q))" if "\<forall>f w. (f, w) \<in> set (accesses q) \<longrightarrow> v f = v' f" for q and v v' :: "nat field_values"
    using that by (intro arg_cong [of _ _ sum_list] map_cong) auto
  then show ?thesis unfolding by_accesses_def sum_ex_def by simp
qed

section \<open>Correctness\<close>

text \<open>
  C9. On every program whose instructions the dependency analysis knows, whose blocks end in a branch or continue with the next block,
  and whose uniforms lie within their arrays, the scheduler returns. It emits the instructions of each block
  as groups: every instruction is in exactly one group, alone or paired with another one that does not conflict with it, and a group
  without instructions is an idle instruction. An instruction is emitted after every earlier one that writes what it accesses, and not before an earlier
  one that reads what it writes. The code of a block is the merged instructions of its groups, in which the branch has its offset.
\<close>

theorem schedule_correct:
  assumes "schedulable contents0 data0 c"
  shows "\<exists>c' cycles Gs. v3d_qpu_schedule_instructions calloc contents0 data0 c = ret (c', cycles) \<and>
    length Gs = length (pc_blocks c) \<and> length (pc_blocks c') = length (pc_blocks c) \<and>
    (\<forall>i < length (pc_blocks c). schedule_of (pb_instructions (pc_blocks c ! i)) (Gs ! i) \<and>
       map qi_qpu (pb_instructions (pc_blocks c' ! i)) = block_code c Gs i)"
proof -
  obtain c' cycles Gs c1 where r: "v3d_qpu_schedule_instructions calloc contents0 data0 c = ret (c', cycles)"
    "all_done (uniform_contents c) (uniform_data c) c Gs c1" "targets_inv c Gs c1 (length Gs) c'"
    using program_scheduled [OF assms] by blast
  have f: "branches_ok (uniform_contents c) (pc_blocks c)" using assms by (simp add: schedulable_def)
  note A = all_doneD [OF r(2)]
  have "schedule_of (pb_instructions (pc_blocks c ! i)) (Gs ! i)" if "i < length Gs" for i using A(5) [OF that] by (simp add: block_done_def)
  moreover have "length (pc_blocks c') = length (pc_blocks c)" using r(3) A(2) by (simp add: targets_inv_def)
  ultimately show ?thesis using r(1) A(1) final_code(1) [OF r(2) f r(3)] by auto
qed

theorem schedule_correct_witness:
  "\<exists>c' cycles Gs. v3d_qpu_schedule_instructions (\<lambda>n. 100 + unat n) [0, 0] [0, 0] loop_program = ret (c', cycles) \<and>
    length Gs = 2 \<and> (\<forall>i < 2. schedule_of (pb_instructions (pc_blocks loop_program ! i)) (Gs ! i))"
proof -
  have "length (pc_blocks loop_program) = 2" by (simp add: loop_program_def)
  then show ?thesis using schedule_correct [OF loop_schedulable, of "\<lambda>n. 100 + unat n"] by auto
qed

text \<open>
  C8. The code computes the same: for every way of executing instructions in which an instruction changes only the fields that it writes
  according to the analysis and the new values depend only on the fields that it accesses, executing the groups of a block in order, the
  two instructions of a pair at once, gives the same values as executing the instructions of the block in their original order.
\<close>

theorem schedule_keeps_results:
  assumes "schedulable contents0 data0 c" "by_accesses ex"
  shows "\<exists>c' cycles Gs. v3d_qpu_schedule_instructions calloc contents0 data0 c = ret (c', cycles) \<and>
    (\<forall>i < length (pc_blocks c). map qi_qpu (pb_instructions (pc_blocks c' ! i)) = block_code c Gs i \<and>
       (\<forall>v. fold (exec_group ex (pb_instructions (pc_blocks c ! i))) (Gs ! i) v = fold ex (pb_instructions (pc_blocks c ! i)) v))"
proof -
  obtain c' cycles Gs c1 where r: "v3d_qpu_schedule_instructions calloc contents0 data0 c = ret (c', cycles)"
    "all_done (uniform_contents c) (uniform_data c) c Gs c1" "targets_inv c Gs c1 (length Gs) c'"
    using program_scheduled [OF assms(1)] by blast
  have f: "branches_ok (uniform_contents c) (pc_blocks c)" using assms(1) by (simp add: schedulable_def)
  note A = all_doneD [OF r(2)]
  have "schedule_of (pb_instructions (pc_blocks c ! i)) (Gs ! i)" if "i < length Gs" for i using A(5) [OF that] by (simp add: block_done_def)
  then show ?thesis using r(1) A(1) final_code(1) [OF r(2) f r(3)] schedule_exec [OF _ assms(2)] by auto
qed

theorem schedule_keeps_results_witness:
  "\<exists>c' cycles Gs. v3d_qpu_schedule_instructions (\<lambda>n. 100 + unat n) [0, 0] [0, 0] loop_program = ret (c', cycles) \<and>
    fold (exec_group sum_ex (pb_instructions (pc_blocks loop_program ! 0))) (Gs ! 0) (\<lambda>_. 1) = fold sum_ex (pb_instructions (pc_blocks loop_program ! 0)) (\<lambda>_. 1)"
proof -
  have "0 < length (pc_blocks loop_program)" by (simp add: loop_program_def)
  then show ?thesis using schedule_keeps_results [OF loop_schedulable sum_ex_by_accesses, of "\<lambda>n. 100 + unat n"] by auto
qed

text \<open>
  C10. The code that the scheduler leaves is accepted by the validator.
\<close>

theorem schedule_validates:
  assumes "schedulable contents0 data0 c"
  shows "\<exists>c' cycles st. v3d_qpu_schedule_instructions calloc contents0 data0 c = ret (c', cycles) \<and>
    qpu_validate (map (\<lambda>b. map qi_qpu (pb_instructions b)) (pc_blocks c')) = Inr st"
proof -
  obtain c' cycles Gs c1 where r: "v3d_qpu_schedule_instructions calloc contents0 data0 c = ret (c', cycles)"
    "all_done (uniform_contents c) (uniform_data c) c Gs c1" "targets_inv c Gs c1 (length Gs) c'" "program_allowed None (prog_code (pc_blocks c1))"
    using program_scheduled [OF assms] by blast
  have f: "branches_ok (uniform_contents c) (pc_blocks c)" using assms by (simp add: schedulable_def)
  show ?thesis using r(1) scheduled_validates [OF r(2) f r(3,4)] by blast
qed

theorem schedule_validates_witness:
  "\<exists>c' cycles st. v3d_qpu_schedule_instructions (\<lambda>n. 100 + unat n) [0, 0] [0, 0] loop_program = ret (c', cycles) \<and>
    qpu_validate (map (\<lambda>b. map qi_qpu (pb_instructions b)) (pc_blocks c')) = Inr st"
  using schedule_validates [OF loop_schedulable] .

text \<open>
  C12. The hardware reads the uniforms one after the other. Through the whole code, the uniforms of the instructions are the places 0, 1, 2, ... of the new
  arrays, and each place holds the content and the value that the instruction referred to before; only the uniforms of branches get another value.
\<close>

theorem schedule_uniforms:
  assumes "schedulable contents0 data0 c"
  shows "\<exists>c' cycles Gs. v3d_qpu_schedule_instructions calloc contents0 data0 c = ret (c', cycles) \<and>
    filter (\<lambda>u. u \<noteq> - 1) (map qi_uniform (concat (map pb_instructions (pc_blocks c')))) = map int [0..<num_uniforms c] \<and>
    uniform_contents c' = map (\<lambda>u. uniform_contents c ! nat u) (prog_uses (pc_blocks c) Gs) \<and> length (uniform_data c') = num_uniforms c \<and>
    (\<forall>k < num_uniforms c. (\<forall>i < length (pc_blocks c). \<forall>t. jumps_to (pc_blocks c ! i) t \<longrightarrow> branch_use c Gs i \<noteq> k) \<longrightarrow>
       uniform_data c' ! k = uniform_data c ! nat (prog_uses (pc_blocks c) Gs ! k)) \<and>
    (\<forall>i < length (pc_blocks c). map qi_qpu (pb_instructions (pc_blocks c' ! i)) = block_code c Gs i)"
proof -
  obtain c' cycles Gs c1 where r: "v3d_qpu_schedule_instructions calloc contents0 data0 c = ret (c', cycles)"
    "all_done (uniform_contents c) (uniform_data c) c Gs c1" "targets_inv c Gs c1 (length Gs) c'" "length (prog_uses (pc_blocks c) Gs) = num_uniforms c"
    using program_scheduled [OF assms] by blast
  have f: "branches_ok (uniform_contents c) (pc_blocks c)" using assms by (simp add: schedulable_def)
  note A = all_doneD [OF r(2)] and T = r(3) [unfolded targets_inv_def]
  have "uniform_data c' ! k = uniform_data c ! nat (prog_uses (pc_blocks c) Gs ! k)"
    if k: "k < num_uniforms c" "\<forall>i < length (pc_blocks c). \<forall>t. jumps_to (pc_blocks c ! i) t \<longrightarrow> branch_use c Gs i \<noteq> k" for k
  proof -
    have "uniform_data c' ! k = uniform_data c1 ! k" using T k(2) A(1) by metis
    then show ?thesis using A(6) r(4) k(1) by simp
  qed
  then show ?thesis using r(1,4) A(1,6,7) T final_numbers [OF r(2) f r(3)] final_code(1) [OF r(2) f r(3)] by auto
qed

theorem schedule_uniforms_witness:
  "\<exists>c' cycles Gs. v3d_qpu_schedule_instructions (\<lambda>n. 100 + unat n) [0, 0] [0, 0] loop_program = ret (c', cycles) \<and>
    filter (\<lambda>u. u \<noteq> - 1) (map qi_uniform (concat (map pb_instructions (pc_blocks c')))) = [0, 1] \<and>
    uniform_contents c' = map (\<lambda>u. [0, 5] ! nat u) (prog_uses (pc_blocks loop_program) Gs)"
proof -
  have "num_uniforms loop_program = 2" "uniform_contents loop_program = [0, 5]" "map int [0..<2] = [0, 1]" by (simp_all add: loop_program_def upt_rec)
  then show ?thesis using schedule_uniforms [OF loop_schedulable, of "\<lambda>n. 100 + unat n"] by auto
qed

text \<open>
  C11. When a block ends in a branch, the branch is the fourth instruction from the end of the block and its three delay slots are idle. Its
  offset is the distance in bytes of code from the end of the delay slots to the first instruction of the target, and its uniform is the distance in bytes of the stream
  of uniforms from the place after it to the first place of the target.
\<close>

theorem schedule_branches:
  assumes "schedulable contents0 data0 c"
  shows "\<exists>c' cycles Gs. v3d_qpu_schedule_instructions calloc contents0 data0 c = ret (c', cycles) \<and>
    (\<forall>i \<le> length (pc_blocks c). length (prog_code (take i (pc_blocks c'))) = length (concat (take i Gs))) \<and>
    (\<forall>i < length (pc_blocks c). \<forall>t. jumps_to (pc_blocks c ! i) t \<longrightarrow>
       (let code = prog_code (pc_blocks c'); p = branch_at Gs i in
        p + 4 = length (concat (take (Suc i) Gs)) \<and> instr_type (code ! p) = V3D_QPU_INSTR_TYPE_BRANCH \<and>
        code ! (p + 1) = v3d_qpu_nop \<and> code ! (p + 2) = v3d_qpu_nop \<and> code ! (p + 3) = v3d_qpu_nop \<and>
        br_offset (branch (code ! p)) = word_of_int (8 * (int (length (concat (take t Gs))) - int (p + 4))) \<and>
        uniform_data c' ! branch_use c Gs i = word_of_int (4 * (int (place_of c Gs t) - int (branch_use c Gs i + 1)))))"
proof -
  obtain c' cycles Gs c1 where r: "v3d_qpu_schedule_instructions calloc contents0 data0 c = ret (c', cycles)"
    "all_done (uniform_contents c) (uniform_data c) c Gs c1" "targets_inv c Gs c1 (length Gs) c'"
    using program_scheduled [OF assms] by blast
  have f: "branches_ok (uniform_contents c) (pc_blocks c)" using assms by (simp add: schedulable_def)
  note A = all_doneD [OF r(2)]
  have "let code = prog_code (pc_blocks c'); p = branch_at Gs i in
      p + 4 = length (concat (take (Suc i) Gs)) \<and> instr_type (code ! p) = V3D_QPU_INSTR_TYPE_BRANCH \<and>
      code ! (p + 1) = v3d_qpu_nop \<and> code ! (p + 2) = v3d_qpu_nop \<and> code ! (p + 3) = v3d_qpu_nop \<and>
      br_offset (branch (code ! p)) = word_of_int (8 * (int (length (concat (take t Gs))) - int (p + 4))) \<and>
      uniform_data c' ! branch_use c Gs i = word_of_int (4 * (int (place_of c Gs t) - int (branch_use c Gs i + 1)))"
    if i: "i < length Gs" and t: "jumps_to (pc_blocks c ! i) t" for i t
  proof -
    let ?p = "length (before_branch (Gs ! i))"
    note C = branch_code [OF r(2) f t i] and P = final_position [OF r(2) f r(3) i]
    have l: "length (Gs ! i) = ?p + 4" by (rule branch_of(2) [OF r(2) f t i])
    have at: "prog_code (pc_blocks c') ! (branch_at Gs i + k) = block_code c Gs i ! (?p + k)" if "k < 4" for k
      using P [of "?p + k"] l that by (simp add: branch_at_def add.assoc)
    have "uniform_data c' ! branch_use c Gs i = distance c Gs i t" using r(3) i t unfolding targets_inv_def by blast
    moreover have "distance c Gs i t = word_of_int (4 * (int (place_of c Gs t) - int (branch_use c Gs i + 1)))" by (simp add: distance_def algebra_simps)
    moreover have "branch_at Gs i + 4 = length (concat (take (Suc i) Gs))" using i l by (simp add: take_Suc_conv_app_nth branch_at_def)
    moreover have "prog_code (pc_blocks c') ! branch_at Gs i = block_code c Gs i ! ?p" using at [of 0] by simp
    moreover have "prog_code (pc_blocks c') ! (branch_at Gs i + k) = v3d_qpu_nop" if "0 < k" "k < 4" for k using at [OF that(2)] C(3) [of "?p + k"] that l by simp
    ultimately show ?thesis unfolding Let_def using C(1,2) by (metis one_less_numeral_iff semiring_norm(76,77,78,81) zero_less_numeral zero_less_one numeral_less_iff)
  qed
  then show ?thesis using r(1) A(1) final_prefix [OF r(2) f r(3)] by auto
qed

theorem schedule_branches_witness:
  "\<exists>c' cycles Gs. v3d_qpu_schedule_instructions (\<lambda>n. 100 + unat n) [0, 0] [0, 0] loop_program = ret (c', cycles) \<and>
    instr_type (prog_code (pc_blocks c') ! branch_at Gs 0) = V3D_QPU_INSTR_TYPE_BRANCH \<and>
    br_offset (branch (prog_code (pc_blocks c') ! branch_at Gs 0)) = word_of_int (8 * (0 - int (branch_at Gs 0 + 4)))"
proof -
  have "0 < length (pc_blocks loop_program)" "jumps_to (pc_blocks loop_program ! 0) 0" by code_simp+
  then show ?thesis using schedule_branches [OF loop_schedulable, of "\<lambda>n. 100 + unat n"] unfolding Let_def by fastforce
qed

text \<open>
  C38. The scheduler makes the code at most nine times as long, up to five more instructions for each block: an instruction comes
  with at most three delay slots and five idle instructions.
\<close>

theorem schedule_length:
  assumes "schedulable contents0 data0 c"
  shows "\<exists>c' cycles. v3d_qpu_schedule_instructions calloc contents0 data0 c = ret (c', cycles) \<and>
    length (prog_code (pc_blocks c')) \<le> 9 * length (concat (map pb_instructions (pc_blocks c))) + 5 * length (pc_blocks c)"
proof -
  obtain c' cycles Gs c1 where r: "v3d_qpu_schedule_instructions calloc contents0 data0 c = ret (c', cycles)"
    "all_done (uniform_contents c) (uniform_data c) c Gs c1" "targets_inv c Gs c1 (length Gs) c'"
    using program_scheduled [OF assms] by blast
  have f: "branches_ok (uniform_contents c) (pc_blocks c)" using assms by (simp add: schedulable_def)
  note A = all_doneD [OF r(2)]
  have "\<forall>i < length Gs. length (Gs ! i) \<le> 9 * length (pb_instructions (pc_blocks c ! i)) + 5" using A(5) by (simp add: block_done_def)
  moreover have "length (prog_code (pc_blocks c')) = length (concat Gs)" using final_prefix [OF r(2) f r(3), of "length Gs"] r(3) A(1,2) by (simp add: targets_inv_def)
  ultimately show ?thesis using r(1) groups_bound [of Gs "pc_blocks c"] A(1) by auto
qed

theorem schedule_length_witness:
  "\<exists>c' cycles. v3d_qpu_schedule_instructions (\<lambda>n. 100 + unat n) [0, 0] [0, 0] loop_program = ret (c', cycles) \<and> length (prog_code (pc_blocks c')) \<le> 64"
proof -
  have "9 * length (concat (map pb_instructions (pc_blocks loop_program))) + 5 * length (pc_blocks loop_program) = 64" by code_simp
  then show ?thesis using schedule_length [OF loop_schedulable, of "\<lambda>n. 100 + unat n"] by simp
qed

section \<open>Failures\<close>

text \<open>
  The thread switch that ends the program is not ordered after stores to the VPM. In a block that computes a value in two additions, stores it
  and ends the thread, the switch is emitted after the first addition, and the store comes after its delay slots, when the
  thread has ended already.
\<close>

theorem thread_end_overtakes_store:
  "\<exists>c cycles. v3d_qpu_schedule_instructions (\<lambda>n. 100 + unat n) [] [] store_program = ret (c, cycles) \<and>
    map (\<lambda>i. (thrsw (sig i), alu_op (alu_add i))) (prog_code (pc_blocks c)) =
      [(False, V3D_QPU_A_FADD), (True, V3D_QPU_A_NOP), (False, V3D_QPU_A_NOP), (False, V3D_QPU_A_NOP), (False, V3D_QPU_A_FADD),
       (False, V3D_QPU_A_NOP), (False, V3D_QPU_A_STVPMV)]"
proof -
  have "(case v3d_qpu_schedule_instructions (\<lambda>n. 100 + unat n) [] [] store_program of
      Some (Inr (c, n)) \<Rightarrow> map (\<lambda>i. (thrsw (sig i), alu_op (alu_add i))) (prog_code (pc_blocks c)) =
        [(False, V3D_QPU_A_FADD), (True, V3D_QPU_A_NOP), (False, V3D_QPU_A_NOP), (False, V3D_QPU_A_NOP), (False, V3D_QPU_A_FADD),
         (False, V3D_QPU_A_NOP), (False, V3D_QPU_A_STVPMV)]
      | _ \<Rightarrow> False)" by code_simp
  then show ?thesis by (auto simp: ret_def split: option.splits sum.splits)
qed

text \<open>
  A block with a thread switch and without a branch, which continues with the next block, makes the scheduler fail: the position of the switch is taken
  for the one of a branch, and the assertion that the fourth instruction from the end is a branch does not hold.
\<close>

theorem thread_switch_taken_for_branch:
  "v3d_qpu_schedule_instructions (\<lambda>n. 100 + unat n) [] [] switch_program = fault Assert_Failed"
proof -
  have "(case v3d_qpu_schedule_instructions (\<lambda>n. 100 + unat n) [] [] switch_program of Some (Inl e) \<Rightarrow> e = Assert_Failed | _ \<Rightarrow> False)" by code_simp
  then show ?thesis by (auto simp: fault_def split: option.splits sum.splits)
qed

end
