(* ===== verification/Vir_To_Qpu.thy ===== *)
theory Vir_To_Qpu
  imports Vir_Register_Allocate Qpu_Schedule Qpu_Validate
begin

text \<open>
  The emission of QPU code, \<^verbatim>\<open>src/src/broadcom/compiler/vir_to_qpu.c\<close>: operands and destinations get the registers of the temporaries, uniforms, varyings
  and VPM reads are loaded by instructions of their own, the program is scheduled, packed and validated. The code that follows an \<open>abort\<close>
  and the debug output are left out. \<open>calloc p i\<close> is the address of the instruction that is made for source \<open>i\<close> of the instruction at address \<open>p\<close>.
  Magic addresses are below 256, as all enumerators are.
\<close>

section \<open>Registers\<close>

definition qpu_reg_at :: "nat \<Rightarrow> qpu_reg" where
  "qpu_reg_at i = \<lparr>qr_magic = False, qr_index = i\<rparr>"

definition qpu_magic :: "nat \<Rightarrow> qpu_reg" where
  "qpu_magic w = \<lparr>qr_magic = True, qr_index = w\<rparr>"

definition qpu_acc :: "nat \<Rightarrow> qpu_reg" where
  "qpu_acc acc = qpu_magic (unat V3D_QPU_WADDR_R0 + acc)"

text \<open>A 32-bit unsigned number that is cast to, or stored in, an \<^verbatim>\<open>int\<close>: \<open>~0\<close> becomes \<open>- 1\<close>.\<close>

definition c_int :: "nat \<Rightarrow> int" where
  "c_int n = sint (of_nat n :: u32)"

section \<open>Operands\<close>

text \<open>\<open>put\<close> stores through the pointer to the operand.\<close>

definition set_src :: "(v3d_qpu_mux \<Rightarrow> v3d_qpu_instr \<Rightarrow> v3d_qpu_instr) \<Rightarrow> qpu_reg \<Rightarrow> v3d_qpu_instr \<Rightarrow> v3d_qpu_instr run" where
  "set_src put src instr =
     (let add = alu_add instr; mul = alu_mul instr in
      if qr_magic src then
        bind_run (assert_run (unat V3D_QPU_WADDR_R0 \<le> qr_index src \<and> qr_index src \<le> unat V3D_QPU_WADDR_R5)) (\<lambda>_.
        ret (put (v3d_qpu_mux_list ! (qr_index src - unat V3D_QPU_WADDR_R0 + unat (enum_value v3d_qpu_mux_list V3D_QPU_MUX_R0))) instr))
      else if mux_a add \<noteq> V3D_QPU_MUX_A \<and> mux_b add \<noteq> V3D_QPU_MUX_A \<and> mux_a mul \<noteq> V3D_QPU_MUX_A \<and> mux_b mul \<noteq> V3D_QPU_MUX_A then
        ret (put V3D_QPU_MUX_A (instr\<lparr>raddr_a := of_nat (qr_index src)\<rparr>))
      else if unat (raddr_a instr) = qr_index src then ret (put V3D_QPU_MUX_A instr)
      else
        bind_run (assert_run (\<not> (mux_a add = V3D_QPU_MUX_B \<and> mux_b add = V3D_QPU_MUX_B \<and> mux_a mul = V3D_QPU_MUX_B \<and> mux_b mul = V3D_QPU_MUX_B) \<or>
          qr_index src = unat (raddr_b instr))) (\<lambda>_.
        ret (put V3D_QPU_MUX_B (instr\<lparr>raddr_b := of_nat (qr_index src)\<rparr>))))"

abbreviation put_add_a :: "v3d_qpu_mux \<Rightarrow> v3d_qpu_instr \<Rightarrow> v3d_qpu_instr" where
  "put_add_a m i \<equiv> i\<lparr>alu_add := (alu_add i)\<lparr>mux_a := m\<rparr>\<rparr>"

abbreviation put_add_b :: "v3d_qpu_mux \<Rightarrow> v3d_qpu_instr \<Rightarrow> v3d_qpu_instr" where
  "put_add_b m i \<equiv> i\<lparr>alu_add := (alu_add i)\<lparr>mux_b := m\<rparr>\<rparr>"

abbreviation put_mul_a :: "v3d_qpu_mux \<Rightarrow> v3d_qpu_instr \<Rightarrow> v3d_qpu_instr" where
  "put_mul_a m i \<equiv> i\<lparr>alu_mul := (alu_mul i)\<lparr>mux_a := m\<rparr>\<rparr>"

abbreviation put_mul_b :: "v3d_qpu_mux \<Rightarrow> v3d_qpu_instr \<Rightarrow> v3d_qpu_instr" where
  "put_mul_b m i \<equiv> i\<lparr>alu_mul := (alu_mul i)\<lparr>mux_b := m\<rparr>\<rparr>"

section \<open>Instructions\<close>

text \<open>
  The variables while the sources of an instruction are visited: the registers so far, the new instructions before it, whether a uniform was loaded, the number of
  uniforms and the last index that was read from the VPM, as a signed number: the instance and vertex numbers are read at the index \<open>~0\<close>, before the attributes.
\<close>

record src_vars =
  sr_src :: "qpu_reg list"
  sr_before :: "qinst list"
  emitted_ldunif :: bool
  sr_num_uniforms :: nat
  last_vpm_read_index :: int

definition new_qpu_nop_before :: "nat \<Rightarrow> (v3d_qpu_sig \<Rightarrow> v3d_qpu_sig) \<Rightarrow> int \<Rightarrow> src_vars \<Rightarrow> src_vars" where
  "new_qpu_nop_before p set_sig uniform s =
     (let q = vir_nop p in
      s\<lparr>sr_before := sr_before s @ [q\<lparr>qi_qpu := (qi_qpu q)\<lparr>sig := set_sig (sig (qi_qpu q))\<rparr>, qi_uniform := uniform\<rparr>]\<rparr>)"

definition new_ldunif_instr :: "nat \<Rightarrow> qinst \<Rightarrow> nat \<Rightarrow> src_vars \<Rightarrow> src_vars run" where
  "new_ldunif_instr p inst i s =
     bind_run (fetch (qi_src inst) i) (\<lambda>r.
     bind_run (assert_run (q_file r = QFILE_UNIF)) (\<lambda>_.
     ret (new_qpu_nop_before p (\<lambda>g. g\<lparr>ldunif := True\<rparr>) (c_int (q_index r)) s)))"

text \<open>\<open>temp_registers\<close> is \<open>None\<close> for the null pointer. The sources use a signed index, the destination an unsigned one.\<close>

definition temp_reg_at :: "qpu_reg list option \<Rightarrow> int \<Rightarrow> qpu_reg run" where
  "temp_reg_at temp_registers index =
     (case temp_registers of None \<Rightarrow> fault Out_Of_Bounds | Some regs \<Rightarrow> if index < 0 then fault Out_Of_Bounds else fetch regs (nat index))"

definition generate_src :: "(nat \<Rightarrow> nat \<Rightarrow> nat) \<Rightarrow> qpu_reg list option \<Rightarrow> qinst \<Rightarrow> nat \<Rightarrow> src_vars \<Rightarrow> src_vars run" where
  "generate_src calloc temp_registers qinst i s =
     bind_run (fetch (qi_src qinst) i) (\<lambda>r.
     let index = c_int (q_index r); p = calloc (qi_addr qinst) i; found = (\<lambda>reg s. s\<lparr>sr_src := sr_src s @ [reg]\<rparr>) in
     case q_file r of
       QFILE_REG \<Rightarrow> ret (found (qpu_reg_at (q_index r)) s)
     | QFILE_MAGIC \<Rightarrow> ret (found (qpu_magic (q_index r)) s)
     | QFILE_NULL \<Rightarrow> ret (found (qpu_acc 0) s)
     | QFILE_LOAD_IMM \<Rightarrow> ret (found (qpu_acc 0) s)
     | QFILE_TEMP \<Rightarrow> bind_run (temp_reg_at temp_registers index) (\<lambda>reg. ret (found reg s))
     | QFILE_UNIF \<Rightarrow>
         bind_run (if \<not> emitted_ldunif s then
             bind_run (new_ldunif_instr p qinst i s) (\<lambda>s. ret (s\<lparr>sr_num_uniforms := sr_num_uniforms s + 1, emitted_ldunif := True\<rparr>))
           else ret s) (\<lambda>s. ret (found (qpu_acc 5) s))
     | QFILE_VARY \<Rightarrow> ret (found (qpu_acc 3) (new_qpu_nop_before p (\<lambda>g. g\<lparr>ldvary := True\<rparr>) (- 1) s))
     | QFILE_SMALL_IMM \<Rightarrow> fault Assert_Failed
     | QFILE_VPM \<Rightarrow>
         bind_run (assert_run (c_int (q_index r) \<ge> last_vpm_read_index s)) (\<lambda>_.
         ret (found (qpu_acc 3) (new_qpu_nop_before p (\<lambda>g. g\<lparr>ldvpm := True\<rparr>) (- 1) (s\<lparr>last_vpm_read_index := c_int (q_index r)\<rparr>))))
     | QFILE_TLB \<Rightarrow> fault Assert_Failed
     | QFILE_TLBU \<Rightarrow> fault Assert_Failed)"

definition generate_dst :: "qpu_reg list option \<Rightarrow> qreg \<Rightarrow> qpu_reg run" where
  "generate_dst temp_registers dst =
     (case q_file dst of
        QFILE_NULL \<Rightarrow> ret (qpu_magic (unat V3D_QPU_WADDR_NOP))
      | QFILE_REG \<Rightarrow> ret (qpu_reg_at (q_index dst))
      | QFILE_MAGIC \<Rightarrow> ret (qpu_magic (q_index dst))
      | QFILE_TEMP \<Rightarrow> temp_reg_at temp_registers (int (q_index dst))
      | QFILE_VPM \<Rightarrow> ret (qpu_magic (unat V3D_QPU_WADDR_VPM))
      | QFILE_TLB \<Rightarrow> ret (qpu_magic (unat V3D_QPU_WADDR_TLB))
      | QFILE_TLBU \<Rightarrow> ret (qpu_magic (unat V3D_QPU_WADDR_TLBU))
      | _ \<Rightarrow> fault Assert_Failed)"

definition set_srcs :: "(v3d_qpu_mux \<Rightarrow> v3d_qpu_instr \<Rightarrow> v3d_qpu_instr) \<Rightarrow> (v3d_qpu_mux \<Rightarrow> v3d_qpu_instr \<Rightarrow> v3d_qpu_instr) \<Rightarrow> nat \<Rightarrow> qpu_reg list \<Rightarrow> v3d_qpu_instr \<Rightarrow> v3d_qpu_instr run" where
  "set_srcs put_a put_b nsrc src instr =
     bind_run (if nsrc \<ge> 1 then bind_run (fetch src 0) (\<lambda>r. set_src put_a r instr) else ret instr) (\<lambda>instr.
     if nsrc \<ge> 2 then bind_run (fetch src 1) (\<lambda>r. set_src put_b r instr) else ret instr)"

definition set_operands :: "nat \<Rightarrow> qpu_reg list \<Rightarrow> qpu_reg \<Rightarrow> v3d_qpu_instr \<Rightarrow> v3d_qpu_instr run" where
  "set_operands nsrc src dst instr =
     (case instr_type instr of
        V3D_QPU_INSTR_TYPE_ALU \<Rightarrow>
          if alu_op (alu_add instr) \<noteq> V3D_QPU_A_NOP then
            bind_run (assert_run (alu_op (alu_mul instr) = V3D_QPU_M_NOP)) (\<lambda>_.
            bind_run (set_srcs put_add_a put_add_b nsrc src instr) (\<lambda>instr.
            ret (instr\<lparr>alu_add := (alu_add instr)\<lparr>waddr := of_nat (qr_index dst), magic_write := qr_magic dst\<rparr>\<rparr>)))
          else
            bind_run (set_srcs put_mul_a put_mul_b nsrc src instr) (\<lambda>instr.
            ret (instr\<lparr>alu_mul := (alu_mul instr)\<lparr>waddr := of_nat (qr_index dst), magic_write := qr_magic dst\<rparr>\<rparr>))
      | V3D_QPU_INSTR_TYPE_BRANCH \<Rightarrow> ret instr)"

text \<open>One instruction: the instructions of the block so far, the number of uniforms and the last index of the VPM.\<close>

type_synonym code_vars = "qinst list \<times> nat \<times> int"

definition generate_inst :: "(nat \<Rightarrow> nat \<Rightarrow> nat) \<Rightarrow> qpu_reg list option \<Rightarrow> qinst \<Rightarrow> code_vars \<Rightarrow> code_vars run" where
  "generate_inst calloc temp_registers qinst = (\<lambda>(out, num_uniforms, last_vpm).
     bind_run (if vir_has_implicit_uniform qinst then
         bind_run (fetch (qi_src qinst) (nat (vir_get_implicit_uniform_src qinst))) (\<lambda>r.
         bind_run (assert_run (q_file r = QFILE_UNIF)) (\<lambda>_. ret (qinst\<lparr>qi_uniform := c_int (q_index r)\<rparr>, num_uniforms + 1)))
       else ret (qinst, num_uniforms)) (\<lambda>(qinst, num_uniforms).
     let nsrc = vir_get_non_sideband_nsrc qinst in
     bind_run (fold_run (generate_src calloc temp_registers qinst) [0..<nsrc]
       \<lparr>sr_src = [], sr_before = [], emitted_ldunif = False, sr_num_uniforms = num_uniforms, last_vpm_read_index = last_vpm\<rparr>) (\<lambda>s.
     bind_run (generate_dst temp_registers (qi_dst qinst)) (\<lambda>dst.
     bind_run (set_operands nsrc (sr_src s) dst (qi_qpu qinst)) (\<lambda>instr.
     ret (out @ sr_before s @ [qinst\<lparr>qi_qpu := instr\<rparr>], sr_num_uniforms s, last_vpm_read_index s))))))"

definition v3d_generate_code_block :: "(nat \<Rightarrow> nat \<Rightarrow> nat) \<Rightarrow> qpu_reg list option \<Rightarrow> qinst list \<Rightarrow> nat \<Rightarrow> (qinst list \<times> nat) run" where
  "v3d_generate_code_block calloc temp_registers insts n =
     bind_run (fold_run (generate_inst calloc temp_registers) insts ([], n, - 1)) (\<lambda>(out, n, _). ret (out, n))"

section \<open>Programs\<close>

text \<open>The block as the scheduler takes it. Its positions are set there before they are read.\<close>

definition qpu_block_of :: "qblock \<Rightarrow> qinst list \<Rightarrow> qpu_block" where
  "qpu_block_of b insts = \<lparr>pb_instructions = insts, pb_successors = qb_successors b, start_qpu_ip = 0, end_qpu_ip = 0, branch_qpu_ip = 0, start_uniform = 0, branch_uniform = 0\<rparr>"

definition generate_block :: "(nat \<Rightarrow> nat \<Rightarrow> nat) \<Rightarrow> qpu_reg list option \<Rightarrow> qblock \<Rightarrow> qpu_block list \<times> nat \<Rightarrow> (qpu_block list \<times> nat) run" where
  "generate_block calloc temp_registers b = (\<lambda>(bs, num_uniforms).
     bind_run (v3d_generate_code_block calloc temp_registers (qb_instructions b) num_uniforms) (\<lambda>(insts, num_uniforms).
     ret (bs @ [qpu_block_of b insts], num_uniforms)))"

definition pack_inst :: "v3d_qpu_instr \<Rightarrow> u64 list \<Rightarrow> u64 list run" where
  "pack_inst inst words =
     (case v3d_qpu_instr_pack inst of
        Inr w \<Rightarrow> ret (words @ [w])
      | Inl Return_False \<Rightarrow> fault Assert_Failed
      | Inl e \<Rightarrow> fault e)"

text \<open>The thread switch at the end of the last block. For no block, the pointer to it is not one to a block.\<close>

definition thread_end :: "nat \<Rightarrow> qinst" where
  "thread_end p = (let nop = vir_nop p in nop\<lparr>qi_qpu := (qi_qpu nop)\<lparr>sig := (sig (qi_qpu nop))\<lparr>thrsw := True\<rparr>\<rparr>\<rparr>)"

definition add_thread_end :: "nat \<Rightarrow> qpu_block list \<Rightarrow> qpu_block list run" where
  "add_thread_end p bs =
     (if bs = [] then fault Out_Of_Bounds
      else ret (butlast bs @ [(last bs)\<lparr>pb_instructions := pb_instructions (last bs) @ [thread_end p]\<rparr>]))"

text \<open>
  \<open>calloc_end\<close> is the address of the thread switch, \<open>calloc_nop\<close> gives those of the idle instructions, and \<open>new_contents\<close> and \<open>new_data\<close> are what the new arrays
  of the given size contain at first. The words are the result; a program that the validator rejects ends in an abort.
\<close>

definition v3d_vir_to_qpu ::
  "(nat \<Rightarrow> nat \<Rightarrow> nat) \<Rightarrow> nat \<Rightarrow> (u32 \<Rightarrow> nat) \<Rightarrow> (nat \<Rightarrow> quniform_contents list) \<Rightarrow> (nat \<Rightarrow> u32 list) \<Rightarrow> c_qsort \<Rightarrow> v3d_compiler \<Rightarrow>
   quniform_contents list \<Rightarrow> u32 list \<Rightarrow> v3d_compile \<Rightarrow> (qpu_compile \<times> u64 list) run" where
  "v3d_vir_to_qpu calloc calloc_end calloc_nop new_contents new_data qsort compiler contents data c =
     bind_run (v3d_register_allocate qsort compiler c) (\<lambda>(c, temp_registers).
     bind_run (fold_run (generate_block calloc temp_registers) (c_blocks c) ([], 0)) (\<lambda>(bs, num).
     bind_run (add_thread_end calloc_end bs) (\<lambda>bs.
     bind_run (v3d_qpu_schedule_instructions calloc_nop (new_contents num) (new_data num)
       \<lparr>pc_blocks = bs, qpu_inst_count = 0, num_uniforms = num, uniform_contents = contents, uniform_data = data\<rparr>) (\<lambda>(c, cycles).
     let code = map (\<lambda>b. map qi_qpu (pb_instructions b)) (pc_blocks c) in
     bind_run (fold_run pack_inst (concat code) []) (\<lambda>words.
     bind_run (assert_run (length words = unat (qpu_inst_count c))) (\<lambda>_.
     case qpu_validate code of
       Inl _ \<Rightarrow> fault Assert_Failed
     | Inr _ \<Rightarrow> ret (c, words)))))))"

end
