(* ===== verification/Emit_Block.thy ===== *)
theory Emit_Block
  imports Vir_To_Qpu Sched_Result
begin

text \<open>
  What one instruction becomes: the registers of its operands, the loads before it, and the instruction itself; then the code of a block, and
  the number of uniforms that it uses.
\<close>

section \<open>Registers of operands\<close>

text \<open>The register that an operand of an instruction reads.\<close>

definition operand_reg :: "v3d_qpu_instr \<Rightarrow> v3d_qpu_mux \<Rightarrow> qpu_reg" where
  "operand_reg i m = (case m of V3D_QPU_MUX_A \<Rightarrow> qpu_reg_at (unat (raddr_a i)) | V3D_QPU_MUX_B \<Rightarrow> qpu_reg_at (unat (raddr_b i))
     | _ \<Rightarrow> qpu_magic (unat (enum_value v3d_qpu_mux_list m)))"

text \<open>The operands of the half that computes, and the register that it writes.\<close>

definition operands_of :: "v3d_qpu_instr \<Rightarrow> v3d_qpu_mux list" where
  "operands_of i = (if alu_op (alu_add i) \<noteq> V3D_QPU_A_NOP then take (v3d_qpu_add_op_num_src (alu_op (alu_add i))) [mux_a (alu_add i), mux_b (alu_add i)]
     else take (v3d_qpu_mul_op_num_src (alu_op (alu_mul i))) [mux_a (alu_mul i), mux_b (alu_mul i)])"

definition written_reg :: "v3d_qpu_instr \<Rightarrow> qpu_reg" where
  "written_reg i = (if alu_op (alu_add i) \<noteq> V3D_QPU_A_NOP then \<lparr>qr_magic = magic_write (alu_add i), qr_index = unat (waddr (alu_add i))\<rparr>
     else \<lparr>qr_magic = magic_write (alu_mul i), qr_index = unat (waddr (alu_mul i))\<rparr>)"

definition readable_reg :: "qpu_reg \<Rightarrow> bool" where
  "readable_reg r \<longleftrightarrow> (if qr_magic r then qr_index r \<le> 5 else qr_index r < 64)"

definition src_reg :: "qpu_reg list \<Rightarrow> qreg \<Rightarrow> qpu_reg" where
  "src_reg regs r = (case q_file r of QFILE_REG \<Rightarrow> qpu_reg_at (q_index r) | QFILE_MAGIC \<Rightarrow> qpu_magic (q_index r) | QFILE_TEMP \<Rightarrow> regs ! q_index r
     | QFILE_UNIF \<Rightarrow> qpu_acc 5 | QFILE_VARY \<Rightarrow> qpu_acc 3 | QFILE_VPM \<Rightarrow> qpu_acc 3 | _ \<Rightarrow> qpu_acc 0)"

definition dst_reg :: "qpu_reg list \<Rightarrow> qreg \<Rightarrow> qpu_reg" where
  "dst_reg regs r = (case q_file r of QFILE_REG \<Rightarrow> qpu_reg_at (q_index r) | QFILE_MAGIC \<Rightarrow> qpu_magic (q_index r) | QFILE_TEMP \<Rightarrow> regs ! q_index r
     | QFILE_VPM \<Rightarrow> qpu_magic (unat V3D_QPU_WADDR_VPM) | QFILE_TLB \<Rightarrow> qpu_magic (unat V3D_QPU_WADDR_TLB) | QFILE_TLBU \<Rightarrow> qpu_magic (unat V3D_QPU_WADDR_TLBU)
     | _ \<Rightarrow> qpu_magic (unat V3D_QPU_WADDR_NOP))"

definition fits_int :: "nat \<Rightarrow> bool" where
  "fits_int n \<longleftrightarrow> int n < 2 ^ 31"

definition src_typed :: "qpu_reg list \<Rightarrow> qreg \<Rightarrow> bool" where
  "src_typed regs r \<longleftrightarrow> q_file r \<notin> {QFILE_SMALL_IMM, QFILE_TLB, QFILE_TLBU} \<and> (q_file r = QFILE_TEMP \<longrightarrow> q_index r < length regs) \<and>
     (q_file r \<in> {QFILE_TEMP, QFILE_UNIF} \<longrightarrow> fits_int (q_index r)) \<and> readable_reg (src_reg regs r)"

definition dst_typed :: "qpu_reg list \<Rightarrow> qreg \<Rightarrow> bool" where
  "dst_typed regs r \<longleftrightarrow> q_file r \<notin> {QFILE_VARY, QFILE_UNIF, QFILE_SMALL_IMM, QFILE_LOAD_IMM} \<and> (q_file r = QFILE_TEMP \<longrightarrow> q_index r < length regs) \<and>
     qr_index (dst_reg regs r) < 64"

text \<open>No operand is set yet: every one is an accumulator.\<close>

definition fresh_operands :: "v3d_qpu_instr \<Rightarrow> bool" where
  "fresh_operands i \<longleftrightarrow> (\<forall>m\<in>{mux_a (alu_add i), mux_b (alu_add i), mux_a (alu_mul i), mux_b (alu_mul i)}. m \<noteq> V3D_QPU_MUX_A \<and> m \<noteq> V3D_QPU_MUX_B)"

lemma c_int_small: "fits_int n \<Longrightarrow> c_int n = int n"
  by (simp add: fits_int_def c_int_def signed_of_nat signed_take_bit_int_eq_self)

lemma mux_of_magic:
  assumes "n \<le> 5"
  shows "operand_reg i (v3d_qpu_mux_list ! n) = qpu_magic n" "v3d_qpu_mux_list ! n \<noteq> V3D_QPU_MUX_A" "v3d_qpu_mux_list ! n \<noteq> V3D_QPU_MUX_B"
proof -
  have "n \<in> {0, 1, 2, 3, 4, 5}" using assms by auto
  then show "operand_reg i (v3d_qpu_mux_list ! n) = qpu_magic n" "v3d_qpu_mux_list ! n \<noteq> V3D_QPU_MUX_A" "v3d_qpu_mux_list ! n \<noteq> V3D_QPU_MUX_B"
    by (auto simp: operand_reg_def v3d_qpu_mux_list_def)
qed

lemma qpu_reg_cases: "r = qpu_magic (qr_index r) \<and> qr_magic r \<or> r = qpu_reg_at (qr_index r) \<and> \<not> qr_magic r"
  by (cases "qr_magic r") (simp_all add: qpu_magic_def qpu_reg_at_def)

lemma unat_u8_of_nat: "n < 64 \<Longrightarrow> unat (of_nat n :: u8) = n"
  by (simp add: unat_of_nat take_bit_nat_eq_self)

lemma set_first:
  assumes "fresh_operands i" "readable_reg r"
  shows "\<exists>m ra. set_src put r i = ret (put m (i\<lparr>raddr_a := ra\<rparr>)) \<and> m \<noteq> V3D_QPU_MUX_B \<and> operand_reg (i\<lparr>raddr_a := ra\<rparr>) m = r \<and>
    (m \<noteq> V3D_QPU_MUX_A \<longrightarrow> ra = raddr_a i) \<and> (unat (raddr_a i) < 64 \<longrightarrow> unat ra < 64)"
proof (cases "qr_magic r")
  case True
  then have "qr_index r \<le> 5" "r = qpu_magic (qr_index r)" using assms(2) by (simp_all add: readable_reg_def qpu_magic_def)
  then show ?thesis using True mux_of_magic [of "qr_index r"]
    by (intro exI [of _ "v3d_qpu_mux_list ! qr_index r"] exI [of _ "raddr_a i"]) (simp add: set_src_def Let_def)
next
  case False
  then have "qr_index r < 64" "r = qpu_reg_at (qr_index r)" using assms(2) by (simp_all add: readable_reg_def qpu_reg_at_def)
  then show ?thesis using False assms(1) unat_u8_of_nat [of "qr_index r"]
    by (intro exI [of _ "V3D_QPU_MUX_A"] exI [of _ "of_nat (qr_index r)"]) (simp add: set_src_def Let_def fresh_operands_def operand_reg_def)
qed

lemma set_second:
  assumes "mux_a (alu_add i) \<noteq> V3D_QPU_MUX_B \<or> mux_a (alu_mul i) \<noteq> V3D_QPU_MUX_B" "readable_reg r" "unat (raddr_a i) < 64" "unat (raddr_b i) < 64"
  shows "\<exists>m ra rb. set_src put r i = ret (put m (i\<lparr>raddr_a := ra, raddr_b := rb\<rparr>)) \<and> operand_reg (i\<lparr>raddr_a := ra, raddr_b := rb\<rparr>) m = r \<and>
    (V3D_QPU_MUX_A \<in> {mux_a (alu_add i), mux_b (alu_add i), mux_a (alu_mul i), mux_b (alu_mul i)} \<longrightarrow> ra = raddr_a i) \<and> unat ra < 64 \<and> unat rb < 64"
proof (cases "qr_magic r")
  case True
  then have "qr_index r \<le> 5" "r = qpu_magic (qr_index r)" using assms(2) by (simp_all add: readable_reg_def qpu_magic_def)
  then show ?thesis using True mux_of_magic [of "qr_index r"] assms(3,4)
    by (intro exI [of _ "v3d_qpu_mux_list ! qr_index r"] exI [of _ "raddr_a i"] exI [of _ "raddr_b i"]) (simp add: set_src_def Let_def)
next
  case False
  then have r: "qr_index r < 64" "r = qpu_reg_at (qr_index r)" using assms(2) by (simp_all add: readable_reg_def qpu_reg_at_def)
  note u = unat_u8_of_nat [OF r(1)]
  consider (a) "V3D_QPU_MUX_A \<notin> {mux_a (alu_add i), mux_b (alu_add i), mux_a (alu_mul i), mux_b (alu_mul i)}"
    | (same) "V3D_QPU_MUX_A \<in> {mux_a (alu_add i), mux_b (alu_add i), mux_a (alu_mul i), mux_b (alu_mul i)}" "unat (raddr_a i) = qr_index r"
    | (b) "V3D_QPU_MUX_A \<in> {mux_a (alu_add i), mux_b (alu_add i), mux_a (alu_mul i), mux_b (alu_mul i)}" "unat (raddr_a i) \<noteq> qr_index r" by blast
  then show ?thesis
  proof cases
    case a
    then show ?thesis using False u r assms(4)
      by (intro exI [of _ "V3D_QPU_MUX_A"] exI [of _ "of_nat (qr_index r)"] exI [of _ "raddr_b i"]) (auto simp: set_src_def Let_def operand_reg_def)
  next
    case same
    then show ?thesis using False r assms(3,4)
      by (intro exI [of _ "V3D_QPU_MUX_A"] exI [of _ "raddr_a i"] exI [of _ "raddr_b i"]) (auto simp: set_src_def Let_def operand_reg_def)
  next
    case b
    then show ?thesis using False u r assms(1,3)
      by (intro exI [of _ "V3D_QPU_MUX_B"] exI [of _ "raddr_a i"] exI [of _ "of_nat (qr_index r)"]) (auto simp: set_src_def Let_def operand_reg_def)
  qed
qed


lemma operand_reg_cong: "raddr_a i = raddr_a j \<Longrightarrow> raddr_b i = raddr_b j \<Longrightarrow> operand_reg i m = operand_reg j m"
  by (cases m) (simp_all add: operand_reg_def)

text \<open>The places of the two operands of a half, by the functions that store to them.\<close>

definition muxes :: "v3d_qpu_instr \<Rightarrow> v3d_qpu_mux set" where
  "muxes i = {mux_a (alu_add i), mux_b (alu_add i), mux_a (alu_mul i), mux_b (alu_mul i)}"

locale operand_places =
  fixes put_a put_b :: "v3d_qpu_mux \<Rightarrow> v3d_qpu_instr \<Rightarrow> v3d_qpu_instr"
  assumes put_addresses: "put_a m (i\<lparr>raddr_a := x, raddr_b := y\<rparr>) = (put_a m i)\<lparr>raddr_a := x, raddr_b := y\<rparr>"
    and addresses_kept: "raddr_a (put_a m i) = raddr_a i" "raddr_b (put_a m i) = raddr_b i"
    and put_stores: "m \<in> muxes (put_a m i)"
    and put_free: "fresh_operands i \<Longrightarrow> m \<noteq> V3D_QPU_MUX_B \<Longrightarrow> V3D_QPU_MUX_B \<notin> muxes (put_a m i)"
begin

definition stored :: "nat \<Rightarrow> v3d_qpu_mux \<Rightarrow> v3d_qpu_mux \<Rightarrow> v3d_qpu_instr \<Rightarrow> v3d_qpu_instr" where
  "stored n ma mb i = (if n = 0 then i else if n = 1 then put_a ma i else put_b mb (put_a ma i))"

lemma set_srcs_stored:
  assumes "fresh_operands i" "\<forall>r\<in>set src. readable_reg r" "length src \<le> 2" "unat (raddr_a i) < 64" "unat (raddr_b i) < 64"
  shows "\<exists>ma mb ra rb. set_srcs put_a put_b (length src) src i = ret (stored (length src) ma mb (i\<lparr>raddr_a := ra, raddr_b := rb\<rparr>)) \<and>
    map (operand_reg (i\<lparr>raddr_a := ra, raddr_b := rb\<rparr>)) (take (length src) [ma, mb]) = src \<and> unat ra < 64 \<and> unat rb < 64"
proof (cases src)
  case Nil
  then show ?thesis using assms(4,5) by (intro exI exI [of _ "raddr_a i"] exI [of _ "raddr_b i"]) (simp add: set_srcs_def stored_def)
next
  case (Cons r rest)
  obtain m ra where 1: "set_src put_a r i = ret (put_a m (i\<lparr>raddr_a := ra\<rparr>))" "m \<noteq> V3D_QPU_MUX_B" "operand_reg (i\<lparr>raddr_a := ra\<rparr>) m = r" "unat ra < 64"
    using set_first [OF assms(1), of r put_a] assms(2,4) Cons by auto
  have same: "i\<lparr>raddr_a := ra, raddr_b := raddr_b i\<rparr> = i\<lparr>raddr_a := ra\<rparr>" by simp
  show ?thesis
  proof (cases rest)
    case Nil
    then show ?thesis using 1 assms(5) Cons same by (intro exI [of _ m] exI exI [of _ ra] exI [of _ "raddr_b i"]) (simp add: set_srcs_def stored_def)
  next
    case (Cons t rest')
    then have src: "src = [r, t]" using \<open>src = r # rest\<close> assms(3) by simp
    let ?i = "put_a m (i\<lparr>raddr_a := ra\<rparr>)"
    have "V3D_QPU_MUX_B \<notin> muxes ?i" using assms(1) 1(2) by (intro put_free) (simp_all add: fresh_operands_def)
    then obtain mb ra' rb where 2: "set_src put_b t ?i = ret (put_b mb (?i\<lparr>raddr_a := ra', raddr_b := rb\<rparr>))"
      "operand_reg (?i\<lparr>raddr_a := ra', raddr_b := rb\<rparr>) mb = t" "V3D_QPU_MUX_A \<in> muxes ?i \<longrightarrow> ra' = ra" "unat ra' < 64" "unat rb < 64"
      using set_second [of ?i t put_b] 1(4) assms(2,5) src by (auto simp: muxes_def addresses_kept)
    let ?j = "i\<lparr>raddr_a := ra', raddr_b := rb\<rparr>"
    have p: "put_a m ?j = ?i\<lparr>raddr_a := ra', raddr_b := rb\<rparr>" using put_addresses [where m = m and i = "i\<lparr>raddr_a := ra\<rparr>" and x = ra' and y = rb] by simp
    have "operand_reg ?j mb = t" using 2(2) operand_reg_cong [of ?j "?i\<lparr>raddr_a := ra', raddr_b := rb\<rparr>" mb] by simp
    moreover have "operand_reg ?j m = r" using 1(2,3) 2(3) put_stores [where m = m and i = "i\<lparr>raddr_a := ra\<rparr>"] by (cases m) (simp_all add: operand_reg_def)
    ultimately show ?thesis using 1(1) 2(1,4,5) src p
      by (intro exI [of _ m] exI [of _ mb] exI [of _ ra'] exI [of _ rb]) (simp add: set_srcs_def stored_def)
  qed
qed

end

interpretation add_places: operand_places put_add_a put_add_b
  by unfold_locales (auto simp: muxes_def fresh_operands_def)

interpretation mul_places: operand_places put_mul_a put_mul_b
  by unfold_locales (auto simp: muxes_def fresh_operands_def)

section \<open>The instruction\<close>

text \<open>The two instructions differ only in the registers that the half reads and writes which computes.\<close>

definition same_operation :: "v3d_qpu_instr \<Rightarrow> v3d_qpu_instr \<Rightarrow> bool" where
  "same_operation i j \<longleftrightarrow> instr_type j = instr_type i \<and> sig j = sig i \<and> flags j = flags i \<and> branch j = branch i \<and>
     alu_add j = (if alu_op (alu_add i) \<noteq> V3D_QPU_A_NOP then (alu_add i)\<lparr>mux_a := mux_a (alu_add j), mux_b := mux_b (alu_add j), waddr := waddr (alu_add j), magic_write := magic_write (alu_add j)\<rparr>
       else alu_add i) \<and>
     alu_mul j = (if alu_op (alu_add i) \<noteq> V3D_QPU_A_NOP then alu_mul i
       else (alu_mul i)\<lparr>mux_a := mux_a (alu_mul j), mux_b := mux_b (alu_mul j), waddr := waddr (alu_mul j), magic_write := magic_write (alu_mul j)\<rparr>)"

lemma set_operands_ok:
  assumes t: "instr_type i = V3D_QPU_INSTR_TYPE_ALU" and h: "alu_op (alu_add i) \<noteq> V3D_QPU_A_NOP \<longrightarrow> alu_op (alu_mul i) = V3D_QPU_M_NOP"
    and f: "fresh_operands i" "alu_fields_fit i" and r: "\<forall>r\<in>set src. readable_reg r" "qr_index dst < 64"
    and n: "length src = (if alu_op (alu_add i) \<noteq> V3D_QPU_A_NOP then v3d_qpu_add_op_num_src (alu_op (alu_add i)) else v3d_qpu_mul_op_num_src (alu_op (alu_mul i)))"
  shows "\<exists>j. set_operands (length src) src dst i = ret j \<and> same_operation i j \<and> map (operand_reg j) (operands_of j) = src \<and> written_reg j = dst \<and> alu_fields_fit j"
proof -
  note fit = f(2) [unfolded alu_fields_fit_def]
  have l: "length src \<le> 2" using n num_src_le by simp
  have d: "\<lparr>qr_magic = qr_magic dst, qr_index = qr_index dst\<rparr> = dst" by simp
  show ?thesis
  proof (cases "alu_op (alu_add i) \<noteq> V3D_QPU_A_NOP")
    case True
    obtain ma mb ra rb where s: "set_srcs put_add_a put_add_b (length src) src i = ret (add_places.stored (length src) ma mb (i\<lparr>raddr_a := ra, raddr_b := rb\<rparr>))"
      "map (operand_reg (i\<lparr>raddr_a := ra, raddr_b := rb\<rparr>)) (take (length src) [ma, mb]) = src" "unat ra < 64" "unat rb < 64"
      using add_places.set_srcs_stored [OF f(1) r(1) l] fit by blast
    let ?k = "add_places.stored (length src) ma mb (i\<lparr>raddr_a := ra, raddr_b := rb\<rparr>)"
    let ?j = "?k\<lparr>alu_add := (alu_add ?k)\<lparr>waddr := of_nat (qr_index dst), magic_write := qr_magic dst\<rparr>\<rparr>"
    have run: "set_operands (length src) src dst i = ret ?j" using True h t s(1) by (simp add: set_operands_def)
    have "operand_reg ?j = operand_reg (i\<lparr>raddr_a := ra, raddr_b := rb\<rparr>)" by (rule ext, rule operand_reg_cong) (simp_all add: add_places.stored_def)
    moreover have "operands_of ?j = take (length src) [ma, mb]" using True n l by (auto simp: operands_of_def add_places.stored_def)
    ultimately have "map (operand_reg ?j) (operands_of ?j) = src" using s(2) by simp
    moreover have "same_operation i ?j" using True by (simp add: same_operation_def add_places.stored_def)
    moreover have "written_reg ?j = dst" using True r(2) unat_u8_of_nat by (simp add: written_reg_def add_places.stored_def)
    moreover have "alu_fields_fit ?j" using fit s(3,4) r(2) unat_u8_of_nat by (simp add: alu_fields_fit_def add_places.stored_def)
    ultimately show ?thesis using run by blast
  next
    case False
    obtain ma mb ra rb where s: "set_srcs put_mul_a put_mul_b (length src) src i = ret (mul_places.stored (length src) ma mb (i\<lparr>raddr_a := ra, raddr_b := rb\<rparr>))"
      "map (operand_reg (i\<lparr>raddr_a := ra, raddr_b := rb\<rparr>)) (take (length src) [ma, mb]) = src" "unat ra < 64" "unat rb < 64"
      using mul_places.set_srcs_stored [OF f(1) r(1) l] fit by blast
    let ?k = "mul_places.stored (length src) ma mb (i\<lparr>raddr_a := ra, raddr_b := rb\<rparr>)"
    let ?j = "?k\<lparr>alu_mul := (alu_mul ?k)\<lparr>waddr := of_nat (qr_index dst), magic_write := qr_magic dst\<rparr>\<rparr>"
    have run: "set_operands (length src) src dst i = ret ?j" using False t s(1) by (simp add: set_operands_def)
    have "operand_reg ?j = operand_reg (i\<lparr>raddr_a := ra, raddr_b := rb\<rparr>)" by (rule ext, rule operand_reg_cong) (simp_all add: mul_places.stored_def)
    moreover have "operands_of ?j = take (length src) [ma, mb]" using False n l by (auto simp: operands_of_def mul_places.stored_def)
    ultimately have "map (operand_reg ?j) (operands_of ?j) = src" using s(2) by simp
    moreover have "same_operation i ?j" using False by (simp add: same_operation_def mul_places.stored_def)
    moreover have "written_reg ?j = dst" using False r(2) unat_u8_of_nat by (simp add: written_reg_def mul_places.stored_def)
    moreover have "alu_fields_fit ?j" using fit s(3,4) r(2) unat_u8_of_nat by (simp add: alu_fields_fit_def mul_places.stored_def)
    ultimately show ?thesis using run by blast
  qed
qed

section \<open>Loads\<close>

definition load_inst :: "nat \<Rightarrow> (v3d_qpu_sig \<Rightarrow> v3d_qpu_sig) \<Rightarrow> int \<Rightarrow> qinst" where
  "load_inst p set_sig uniform = (vir_nop p)\<lparr>qi_qpu := (qi_qpu (vir_nop p))\<lparr>sig := set_sig (sig (qi_qpu (vir_nop p)))\<rparr>, qi_uniform := uniform\<rparr>"

text \<open>The loads for the sources \<open>rs\<close> from place \<open>i\<close> on; the uniform is loaded once.\<close>

fun loads_of :: "(nat \<Rightarrow> nat) \<Rightarrow> bool \<Rightarrow> nat \<Rightarrow> qreg list \<Rightarrow> qinst list" where
  "loads_of al loaded i [] = []"
| "loads_of al loaded i (r # rs) =
     (case q_file r of
        QFILE_UNIF \<Rightarrow> (if loaded then [] else [load_inst (al i) (\<lambda>g. g\<lparr>ldunif := True\<rparr>) (int (q_index r))]) @ loads_of al True (i + 1) rs
      | QFILE_VARY \<Rightarrow> load_inst (al i) (\<lambda>g. g\<lparr>ldvary := True\<rparr>) (- 1) # loads_of al loaded (i + 1) rs
      | QFILE_VPM \<Rightarrow> load_inst (al i) (\<lambda>g. g\<lparr>ldvpm := True\<rparr>) (- 1) # loads_of al loaded (i + 1) rs
      | _ \<Rightarrow> loads_of al loaded (i + 1) rs)"

definition refers_unif :: "qreg list \<Rightarrow> bool" where
  "refers_unif rs \<longleftrightarrow> (\<exists>r\<in>set rs. q_file r = QFILE_UNIF)"

text \<open>The VPM is read in the order of its indices as signed numbers: the index \<open>~0\<close> comes before all others.\<close>

fun vpm_last :: "int \<Rightarrow> qreg list \<Rightarrow> int" where
  "vpm_last l [] = l"
| "vpm_last l (r # rs) = vpm_last (if q_file r = QFILE_VPM then c_int (q_index r) else l) rs"

fun vpm_ordered :: "int \<Rightarrow> qreg list \<Rightarrow> bool" where
  "vpm_ordered l [] \<longleftrightarrow> True"
| "vpm_ordered l (r # rs) \<longleftrightarrow> (q_file r = QFILE_VPM \<longrightarrow> l \<le> c_int (q_index r)) \<and> vpm_ordered (if q_file r = QFILE_VPM then c_int (q_index r) else l) rs"

lemma vpm_ordered_append: "vpm_ordered l (rs @ rs') \<longleftrightarrow> vpm_ordered l rs \<and> vpm_ordered (vpm_last l rs) rs'"
  by (induction rs arbitrary: l) auto

lemma vpm_last_append: "vpm_last l (rs @ rs') = vpm_last (vpm_last l rs) rs'"
  by (induction rs arbitrary: l) auto

text \<open>The instance number before the first attribute, and the other way round.\<close>

lemma vpm_instance_first: "vpm_ordered (- 1) [vir_reg QFILE_VPM (2 ^ 32 - 1), vir_reg QFILE_VPM 0]" "\<not> vpm_ordered (- 1) [vir_reg QFILE_VPM 0, vir_reg QFILE_VPM (2 ^ 32 - 1)]"
  by (simp_all add: vir_reg_def c_int_def)

definition visited :: "(nat \<Rightarrow> nat) \<Rightarrow> qpu_reg list \<Rightarrow> nat \<Rightarrow> qreg list \<Rightarrow> src_vars \<Rightarrow> src_vars" where
  "visited al regs i rs s = \<lparr>sr_src = sr_src s @ map (src_reg regs) rs, sr_before = sr_before s @ loads_of al (emitted_ldunif s) i rs,
     emitted_ldunif = (emitted_ldunif s \<or> refers_unif rs), sr_num_uniforms = sr_num_uniforms s + (if refers_unif rs \<and> \<not> emitted_ldunif s then 1 else 0),
     last_vpm_read_index = vpm_last (last_vpm_read_index s) rs\<rparr>"

lemma generate_src_visits:
  assumes "i < length (qi_src x)" "src_typed regs (qi_src x ! i)" "vpm_ordered (last_vpm_read_index s) [qi_src x ! i]"
  shows "generate_src calloc (Some regs) x i s = ret (visited (calloc (qi_addr x)) regs i [qi_src x ! i] s)"
proof -
  define r where "r = qi_src x ! i"
  have f: "fetch (qi_src x) i = ret r" using assms(1) by (simp add: r_def)
  have t: "src_typed regs r" "vpm_ordered (last_vpm_read_index s) [r]" using assms(2,3) by (simp_all add: r_def)
  have "generate_src calloc (Some regs) x i s = ret (visited (calloc (qi_addr x)) regs i [r] s)"
    unfolding generate_src_def f
    using t by (cases "q_file r") (simp_all add: f src_typed_def visited_def src_reg_def refers_unif_def temp_reg_at_def new_ldunif_instr_def new_qpu_nop_before_def load_inst_def c_int_small Let_def)
  then show ?thesis by (simp add: r_def)
qed

lemma generate_src_unordered:
  assumes "i < length (qi_src x)" "src_typed regs (qi_src x ! i)" "\<not> vpm_ordered (last_vpm_read_index s) [qi_src x ! i]"
  shows "generate_src calloc (Some regs) x i s = fault Assert_Failed"
  using assms by (simp add: generate_src_def split: if_splits)

lemma visited_twice: "visited al regs (i + length rs) rs' (visited al regs i rs s) = visited al regs i (rs @ rs') s"
proof -
  have "loads_of al l i (rs @ rs') = loads_of al l i rs @ loads_of al (l \<or> refers_unif rs) (i + length rs) rs'" for l
    by (induction rs arbitrary: l i) (auto simp: refers_unif_def split: qfile.splits)
  then show ?thesis by (auto simp: visited_def refers_unif_def vpm_last_append)
qed

lemma sources_visited:
  assumes "i + length rs \<le> length (qi_src x)" "take (length rs) (drop i (qi_src x)) = rs" "\<forall>r\<in>set rs. src_typed regs r"
  shows "fold_run (generate_src calloc (Some regs) x) [i..<i + length rs] s =
    (if vpm_ordered (last_vpm_read_index s) rs then ret (visited (calloc (qi_addr x)) regs i rs s) else fault Assert_Failed)"
  using assms
proof (induction rs arbitrary: i s)
  case Nil
  then show ?case by (simp add: visited_def refers_unif_def)
next
  case (Cons r rs)
  have i: "i < length (qi_src x)" using Cons.prems(1) by simp
  have r: "qi_src x ! i = r" "take (length rs) (drop (i + 1) (qi_src x)) = rs" using Cons.prems(2) by (simp_all add: Cons_nth_drop_Suc [OF i, symmetric])
  have upt: "[i..<i + length (r # rs)] = i # [i + 1..<i + 1 + length rs]" by (simp add: upt_rec)
  show ?case
  proof (cases "vpm_ordered (last_vpm_read_index s) [r]")
    case False
    then have "generate_src calloc (Some regs) x i s = fault Assert_Failed" using generate_src_unordered [OF i] Cons.prems(3) r(1) by simp
    then show ?thesis using False upt by simp
  next
    case True
    let ?s = "visited (calloc (qi_addr x)) regs i [r] s"
    have 1: "generate_src calloc (Some regs) x i s = ret ?s" using generate_src_visits [OF i, of regs s] Cons.prems(3) True r(1) by simp
    have l: "last_vpm_read_index ?s = vpm_last (last_vpm_read_index s) [r]" by (simp add: visited_def)
    have "fold_run (generate_src calloc (Some regs) x) [i + 1..<i + 1 + length rs] ?s =
      (if vpm_ordered (last_vpm_read_index ?s) rs then ret (visited (calloc (qi_addr x)) regs (i + 1) rs ?s) else fault Assert_Failed)"
      using Cons.prems(1,3) r(2) by (intro Cons.IH) simp_all
    moreover have "visited (calloc (qi_addr x)) regs (i + 1) rs ?s = visited (calloc (qi_addr x)) regs i (r # rs) s" using visited_twice [where rs = "[r]" and i = i] by simp
    ultimately show ?thesis using 1 upt l True by simp
  qed
qed

section \<open>One instruction\<close>

abbreviation read_srcs :: "qinst \<Rightarrow> qreg list" where
  "read_srcs x \<equiv> take (vir_get_non_sideband_nsrc x) (qi_src x)"

text \<open>An instruction as the translation to VIR makes it, for the registers of the temporaries.\<close>

definition inst_typed :: "qpu_reg list \<Rightarrow> qinst \<Rightarrow> bool" where
  "inst_typed regs x \<longleftrightarrow> vir_get_nsrc x \<le> length (qi_src x) \<and> qi_uniform x = - 1 \<and> (\<forall>r\<in>set (read_srcs x). src_typed regs r) \<and>
     (vir_has_implicit_uniform x \<longrightarrow> q_file (qi_src x ! vir_get_non_sideband_nsrc x) = QFILE_UNIF \<and> fits_int (q_index (qi_src x ! vir_get_non_sideband_nsrc x))) \<and> dst_typed regs (qi_dst x) \<and>
     fresh_operands (qi_qpu x) \<and> alu_fields_fit (qi_qpu x) \<and> (alu_op (add_part x) \<noteq> V3D_QPU_A_NOP \<longrightarrow> alu_op (mul_part x) = V3D_QPU_M_NOP)"

text \<open>\<open>q\<close> does in the registers what \<open>x\<close> does in the temporaries.\<close>

definition implements :: "qpu_reg list \<Rightarrow> qinst \<Rightarrow> qinst \<Rightarrow> bool" where
  "implements regs x q \<longleftrightarrow> q = x\<lparr>qi_qpu := qi_qpu q, qi_uniform := qi_uniform q\<rparr> \<and>
     qi_uniform q = (if vir_has_implicit_uniform x then int (q_index (qi_src x ! vir_get_non_sideband_nsrc x)) else - 1) \<and>
     (if is_branch x then qi_qpu q = qi_qpu x
      else same_operation (qi_qpu x) (qi_qpu q) \<and> map (operand_reg (qi_qpu q)) (operands_of (qi_qpu q)) = map (src_reg regs) (read_srcs x) \<and>
           written_reg (qi_qpu q) = dst_reg regs (qi_dst x) \<and> alu_fields_fit (qi_qpu q))"

definition uniforms_used :: "qinst \<Rightarrow> nat" where
  "uniforms_used x = (if vir_has_implicit_uniform x then 1 else 0) + (if refers_unif (read_srcs x) then 1 else 0)"

definition emitted_inst :: "qpu_reg list \<Rightarrow> qinst \<Rightarrow> qinst" where
  "emitted_inst regs x =
     (let u = (if vir_has_implicit_uniform x then int (q_index (qi_src x ! vir_get_non_sideband_nsrc x)) else qi_uniform x) in
      case set_operands (vir_get_non_sideband_nsrc x) (map (src_reg regs) (read_srcs x)) (dst_reg regs (qi_dst x)) (qi_qpu x) of
        Some (Inr i) \<Rightarrow> x\<lparr>qi_qpu := i, qi_uniform := u\<rparr> | _ \<Rightarrow> x)"

definition emitted_code :: "(nat \<Rightarrow> nat \<Rightarrow> nat) \<Rightarrow> qpu_reg list \<Rightarrow> qinst \<Rightarrow> qinst list" where
  "emitted_code calloc regs x = loads_of (calloc (qi_addr x)) False 0 (read_srcs x) @ [emitted_inst regs x]"

lemma generate_dst_typed: "dst_typed regs r \<Longrightarrow> generate_dst (Some regs) r = ret (dst_reg regs r)"
  unfolding generate_dst_def by (cases "q_file r") (simp_all add: dst_typed_def dst_reg_def temp_reg_at_def)

lemma sideband: "vir_has_implicit_uniform x \<Longrightarrow> nat (vir_get_implicit_uniform_src x) = vir_get_non_sideband_nsrc x"
  by (simp add: vir_get_implicit_uniform_src_def vir_get_nsrc_def)

lemma nsrc_of_half: "\<not> is_branch x \<Longrightarrow> vir_get_non_sideband_nsrc x = (if alu_op (add_part x) \<noteq> V3D_QPU_A_NOP then v3d_qpu_add_op_num_src (alu_op (add_part x)) else v3d_qpu_mul_op_num_src (alu_op (mul_part x)))"
  by (cases "instr_type (qi_qpu x)") (simp_all add: vir_get_non_sideband_nsrc_def)

lemma operands_set:
  assumes "inst_typed regs x"
  shows "\<exists>j. set_operands (vir_get_non_sideband_nsrc x) (map (src_reg regs) (read_srcs x)) (dst_reg regs (qi_dst x)) (qi_qpu x) = ret j \<and>
    (if is_branch x then j = qi_qpu x else same_operation (qi_qpu x) j \<and> map (operand_reg j) (operands_of j) = map (src_reg regs) (read_srcs x) \<and>
       written_reg j = dst_reg regs (qi_dst x) \<and> alu_fields_fit j)"
proof (cases "instr_type (qi_qpu x)")
  case V3D_QPU_INSTR_TYPE_BRANCH
  then show ?thesis by (simp add: set_operands_def)
next
  case V3D_QPU_INSTR_TYPE_ALU
  note T = assms [unfolded inst_typed_def]
  let ?src = "map (src_reg regs) (read_srcs x)"
  have "length ?src = vir_get_non_sideband_nsrc x" using T by (auto simp: vir_get_nsrc_def split: if_splits)
  moreover have "\<forall>r\<in>set ?src. readable_reg r" using T by (auto simp: src_typed_def)
  moreover have "qr_index (dst_reg regs (qi_dst x)) < 64" using T by (simp add: dst_typed_def)
  ultimately show ?thesis
    using set_operands_ok [OF V3D_QPU_INSTR_TYPE_ALU, of ?src "dst_reg regs (qi_dst x)"] T nsrc_of_half [of x] V3D_QPU_INSTR_TYPE_ALU by simp
qed

lemma emitted_implements: "inst_typed regs x \<Longrightarrow> implements regs x (emitted_inst regs x)"
  using operands_set [of regs x] by (auto simp: implements_def emitted_inst_def Let_def ret_def inst_typed_def split: if_splits)

text \<open>The instruction with the uniform that it reads beside its operands.\<close>

definition with_uniform :: "qinst \<Rightarrow> qinst" where
  "with_uniform x = x\<lparr>qi_uniform := if vir_has_implicit_uniform x then int (q_index (qi_src x ! vir_get_non_sideband_nsrc x)) else qi_uniform x\<rparr>"

lemma with_uniform_simps [simp]: "vir_get_non_sideband_nsrc (with_uniform x) = vir_get_non_sideband_nsrc x" "qi_src (with_uniform x) = qi_src x"
  "qi_dst (with_uniform x) = qi_dst x" "qi_qpu (with_uniform x) = qi_qpu x" "qi_addr (with_uniform x) = qi_addr x"
  by (cases "instr_type (qi_qpu x)"; simp add: with_uniform_def vir_get_non_sideband_nsrc_def)+

lemma implicit_read:
  fixes n :: nat
  assumes "inst_typed regs x"
  shows "(if vir_has_implicit_uniform x then bind_run (fetch (qi_src x) (nat (vir_get_implicit_uniform_src x)))
      (\<lambda>r. bind_run (assert_run (q_file r = QFILE_UNIF)) (\<lambda>_. ret (x\<lparr>qi_uniform := c_int (q_index r)\<rparr>, n + 1))) else ret (x, n)) =
    ret (with_uniform x, n + (if vir_has_implicit_uniform x then 1 else 0))"
  using assms by (auto simp: inst_typed_def sideband vir_get_nsrc_def c_int_small with_uniform_def)

lemma generate_inst_ok:
  assumes T: "inst_typed regs x"
  shows "generate_inst calloc (Some regs) x (qs, n, l) =
    (if vpm_ordered l (read_srcs x) then ret (qs @ emitted_code calloc regs x, n + uniforms_used x, vpm_last l (read_srcs x)) else fault Assert_Failed)"
proof -
  note T' = T [unfolded inst_typed_def]
  have len: "length (read_srcs x) = vir_get_non_sideband_nsrc x" using T' by (auto simp: vir_get_nsrc_def split: if_splits)
  let ?s = "\<lparr>sr_src = [], sr_before = [], emitted_ldunif = False, sr_num_uniforms = n + (if vir_has_implicit_uniform x then 1 else 0), last_vpm_read_index = l\<rparr>"
  have 2: "fold_run (generate_src calloc (Some regs) (with_uniform x)) [0..<vir_get_non_sideband_nsrc x] ?s =
    (if vpm_ordered l (read_srcs x) then ret (visited (calloc (qi_addr x)) regs 0 (read_srcs x) ?s) else fault Assert_Failed)"
    using sources_visited [of 0 "read_srcs x" "with_uniform x" regs calloc ?s] T' len by (auto simp: vir_get_nsrc_def split: if_splits)
  obtain j where 3: "set_operands (vir_get_non_sideband_nsrc x) (map (src_reg regs) (read_srcs x)) (dst_reg regs (qi_dst x)) (qi_qpu x) = ret j" using operands_set [OF T] by blast
  have e: "emitted_inst regs x = (with_uniform x)\<lparr>qi_qpu := j\<rparr>" using 3 by (simp add: emitted_inst_def ret_def with_uniform_def)
  show ?thesis unfolding generate_inst_def case_prod_conv implicit_read [OF T] using 2 3 generate_dst_typed [of regs "qi_dst x"] T' e
    by (simp add: Let_def visited_def emitted_code_def uniforms_used_def)
qed

section \<open>The block\<close>

abbreviation emitted_insts :: "(nat \<Rightarrow> nat \<Rightarrow> nat) \<Rightarrow> qpu_reg list \<Rightarrow> qinst list \<Rightarrow> qinst list" where
  "emitted_insts calloc regs xs \<equiv> concat (map (emitted_code calloc regs) xs)"

abbreviation uniforms_total :: "qinst list \<Rightarrow> nat" where
  "uniforms_total xs \<equiv> sum_list (map uniforms_used xs)"

definition code_typed :: "qpu_reg list \<Rightarrow> qinst list \<Rightarrow> bool" where
  "code_typed regs xs \<longleftrightarrow> (\<forall>x\<in>set xs. inst_typed regs x) \<and> vpm_ordered (- 1) (concat (map read_srcs xs))"

lemma insts_emitted:
  assumes "\<forall>x\<in>set xs. inst_typed regs x"
  shows "fold_run (generate_inst calloc (Some regs)) xs (qs, n, l) =
    (if vpm_ordered l (concat (map read_srcs xs)) then ret (qs @ emitted_insts calloc regs xs, n + uniforms_total xs, vpm_last l (concat (map read_srcs xs)))
     else fault Assert_Failed)"
  using assms
proof (induction xs arbitrary: qs n l)
  case (Cons x xs)
  have "generate_inst calloc (Some regs) x (qs, n, l) =
    (if vpm_ordered l (read_srcs x) then ret (qs @ emitted_code calloc regs x, n + uniforms_used x, vpm_last l (read_srcs x)) else fault Assert_Failed)"
    using Cons.prems by (intro generate_inst_ok) simp
  then show ?case using Cons.IH Cons.prems by (simp add: vpm_ordered_append vpm_last_append)
qed simp

lemma block_emitted:
  "code_typed regs xs \<Longrightarrow> v3d_generate_code_block calloc (Some regs) xs n = ret (emitted_insts calloc regs xs, n + uniforms_total xs)"
  by (simp add: v3d_generate_code_block_def code_typed_def insts_emitted)

lemma blocks_emitted:
  assumes "\<forall>b\<in>set bs. code_typed regs (qb_instructions b)"
  shows "fold_run (generate_block calloc (Some regs)) bs (ps, n) =
    ret (ps @ map (\<lambda>b. qpu_block_of b (emitted_insts calloc regs (qb_instructions b))) bs, n + sum_list (map (\<lambda>b. uniforms_total (qb_instructions b)) bs))"
  using assms by (induction bs arbitrary: ps n) (simp_all add: generate_block_def block_emitted)

section \<open>The uniforms of the code\<close>

lemma load_inst_simps [simp]:
  "qi_uniform (load_inst p f u) = u" "qi_qpu (load_inst p f u) = v3d_qpu_nop\<lparr>sig := f (sig v3d_qpu_nop)\<rparr>"
  by (simp_all add: load_inst_def vir_nop_def vir_add_inst_def v3d_qpu_nop_def)

lemma refers_unif_simps [simp]: "\<not> refers_unif []" "refers_unif (r # rs) \<longleftrightarrow> q_file r = QFILE_UNIF \<or> refers_unif rs"
  by (simp_all add: refers_unif_def)

lemma loads_uniforms: "length (filter (\<lambda>q. qi_uniform q \<noteq> - 1) (loads_of al loaded i rs)) = (if refers_unif rs \<and> \<not> loaded then 1 else 0)"
proof (induction rs arbitrary: loaded i)
  case (Cons r rs)
  show ?case by (cases "q_file r") (simp_all add: Cons.IH del: length_0_conv)
qed simp

lemma emitted_uniforms: "inst_typed regs x \<Longrightarrow> length (filter (\<lambda>q. qi_uniform q \<noteq> - 1) (emitted_code calloc regs x)) = uniforms_used x"
  using emitted_implements [of regs x] by (simp add: emitted_code_def uniforms_used_def loads_uniforms implements_def)

lemma code_uniforms: "code_typed regs xs \<Longrightarrow> length (filter (\<lambda>q. qi_uniform q \<noteq> - 1) (emitted_insts calloc regs xs)) = uniforms_total xs"
proof -
  assume "code_typed regs xs"
  then have "\<forall>x\<in>set xs. inst_typed regs x" by (simp add: code_typed_def)
  then show ?thesis by (induction xs) (simp_all add: emitted_uniforms)
qed

text \<open>Each uniform operand finds its uniform in the accumulator, when all uniform operands of the instruction are the same uniform.\<close>

lemma uniform_loaded:
  assumes "r \<in> set rs" "q_file r = QFILE_UNIF" "\<forall>s\<in>set rs. q_file s = QFILE_UNIF \<longrightarrow> q_index s = q_index r"
  shows "\<exists>q\<in>set (loads_of al False i rs). ldunif (sig (qi_qpu q)) \<and> qi_uniform q = int (q_index r)"
  using assms
proof (induction rs arbitrary: i)
  case (Cons s rs)
  show ?case
  proof (cases "q_file s = QFILE_UNIF")
    case True
    then have "q_index s = q_index r" using Cons.prems(3) [THEN bspec, of s] by simp
    then show ?thesis using True by simp
  next
    case False
    then have "\<exists>q\<in>set (loads_of al False (i + 1) rs). ldunif (sig (qi_qpu q)) \<and> qi_uniform q = int (q_index r)" 
      using Cons.prems(1,2) by (intro Cons.IH ballI impI Cons.prems(3) [THEN bspec, THEN mp]) auto
    then show ?thesis using False by (cases "q_file s") auto
  qed
qed simp

end
