(* ===== verification/Emit_Program.thy ===== *)
theory Emit_Program
  imports Emit_Block
begin

text \<open>
  The emitted program is one that the scheduler takes, and the scheduled code can be packed.
\<close>

section \<open>Packing one instruction\<close>

definition succeeds :: "'a res \<Rightarrow> bool" where
  "succeeds r = (case r of Inl _ \<Rightarrow> False | Inr _ \<Rightarrow> True)"

lemma succeeds_iff: "succeeds r \<longleftrightarrow> (\<exists>x. r = Inr x)"
  by (cases r) (simp_all add: succeeds_def)

lemma succeeds_simps: "succeeds (Inr x)" "succeeds (bindR r f) \<longleftrightarrow> (\<exists>x. r = Inr x \<and> succeeds (f x))"
  "(\<exists>x. or_field w v g = Inr x) \<longleftrightarrow> succeeds (QPU_SET_FIELD v g)"
  by (auto simp: succeeds_iff or_field_def bindR_Inr_iff)

lemma half_pack_succeeds: "succeeds (v3d_qpu_add_pack i w) \<longleftrightarrow> succeeds (v3d_qpu_add_pack i 0)" "succeeds (v3d_qpu_mul_pack i w) \<longleftrightarrow> succeeds (v3d_qpu_mul_pack i 0)"
  by (simp_all add: v3d_qpu_add_pack_def v3d_qpu_mul_pack_def Let_def case_prod_beta succeeds_simps)

lemma alu_packs:
  assumes "instr_type i = V3D_QPU_INSTR_TYPE_ALU" "alu_fields_fit i" "succeeds (v3d_qpu_sig_pack (sig i))" "succeeds (v3d_qpu_flags_pack (flags i))"
    "succeeds (v3d_qpu_add_pack i 0)" "succeeds (v3d_qpu_mul_pack i 0)"
  shows "succeeds (v3d_qpu_instr_pack i)"
proof -
  obtain s where s: "v3d_qpu_sig_pack (sig i) = Inr s" "unat s < 32" using assms(3) sig_pack_index by (auto simp: succeeds_iff)
  obtain f where f: "v3d_qpu_flags_pack (flags i) = Inr f" "unat f < 128" using assms(4) flags_pack_bound by (auto simp: succeeds_iff)
  obtain w1 where w1: "v3d_qpu_add_pack i ((field_put VC5_QPU_SIG s OR field_put VC5_QPU_RADDR_A (raddr_a i)) OR field_put VC5_QPU_RADDR_B (raddr_b i)) = Inr w1"
    using assms(5) half_pack_succeeds(1) unfolding succeeds_iff by metis
  obtain w2 where w2: "v3d_qpu_mul_pack i w1 = Inr w2" using assms(6) half_pack_succeeds(2) unfolding succeeds_iff by metis
  show ?thesis using assms(1,2) s f w1 w2
    by (simp add: succeeds_iff v3d_qpu_instr_pack_def v3d_qpu_instr_pack_alu_def or_field_ok field_eval alu_fields_fit_def)
qed
section \<open>Instructions\<close>

text \<open>What the scheduler and the packing need of an instruction.\<close>

definition inst_ready :: "qinst \<Rightarrow> bool" where
  "inst_ready q \<longleftrightarrow> deps_ok q \<and> peripheral_uses (qi_qpu q) \<le> 1 \<and>
     (if is_branch q then \<not> ldvary (sig (qi_qpu q)) \<and> unat (br_raddr_a (branch (qi_qpu q))) < 64
      else halves_ok q \<and> succeeds (v3d_qpu_instr_pack (qi_qpu q)))"

lemma inst_ready_cong:
  assumes "inst_ready q" "qi_qpu q' = qi_qpu q" "qi_uniform q' = - 1 \<longleftrightarrow> qi_uniform q = - 1"
  shows "inst_ready q'"
proof -
  have "accesses q' = accesses q" using assms(2,3) by (simp add: accesses_def alu_accesses_def)
  then have "deps_ok q' = deps_ok q" "halves_ok q' = halves_ok q" using assms(2) by (simp_all add: deps_ok_def halves_ok_def)
  then show ?thesis using assms(1,2) by (simp add: inst_ready_def)
qed

lemma thread_end_simps [simp]: "qi_qpu (thread_end p) = v3d_qpu_nop\<lparr>sig := (sig v3d_qpu_nop)\<lparr>thrsw := True\<rparr>\<rparr>" "qi_uniform (thread_end p) = - 1"
  by (simp_all add: thread_end_def vir_nop_def vir_add_inst_def v3d_qpu_nop_def)

lemma load_ready:
  "inst_ready (load_inst p (\<lambda>g. g\<lparr>ldunif := True\<rparr>) (int k))"
  "inst_ready (load_inst p (\<lambda>g. g\<lparr>ldvary := True\<rparr>) (- 1))"
  "inst_ready (load_inst p (\<lambda>g. g\<lparr>ldvpm := True\<rparr>) (- 1))"
  "inst_ready (thread_end p)"
proof -
  let ?u = "v3d_qpu_nop\<lparr>sig := (sig v3d_qpu_nop)\<lparr>ldunif := True\<rparr>\<rparr>" and ?v = "v3d_qpu_nop\<lparr>sig := (sig v3d_qpu_nop)\<lparr>ldvary := True\<rparr>\<rparr>"
    and ?m = "v3d_qpu_nop\<lparr>sig := (sig v3d_qpu_nop)\<lparr>ldvpm := True\<rparr>\<rparr>" and ?t = "v3d_qpu_nop\<lparr>sig := (sig v3d_qpu_nop)\<lparr>thrsw := True\<rparr>\<rparr>"
  have n: "succeeds (v3d_qpu_flags_pack (flags v3d_qpu_nop))" "succeeds (v3d_qpu_add_pack v3d_qpu_nop 0)" "succeeds (v3d_qpu_mul_pack v3d_qpu_nop 0)" by code_simp+
  have h: "v3d_qpu_add_pack (i\<lparr>sig := g\<rparr>) w = v3d_qpu_add_pack i w" "v3d_qpu_mul_pack (i\<lparr>sig := g\<rparr>) w = v3d_qpu_mul_pack i w" for i g w
    by (simp_all add: v3d_qpu_add_pack_def v3d_qpu_mul_pack_def)
  have s: "\<forall>i\<in>set [?u, ?v, ?m, ?t]. succeeds (v3d_qpu_sig_pack (sig i))" by code_simp
  have q: "\<forall>i\<in>set [?u, ?v, ?m, ?t]. peripheral_uses i \<le> 1 \<and> instr_type i = V3D_QPU_INSTR_TYPE_ALU \<and> alu_fields_fit i \<and> add_encodable (alu_add i) \<and> mul_encodable (alu_mul i)" by code_simp
  have p: "\<forall>i\<in>set [?u, ?v, ?m, ?t]. succeeds (v3d_qpu_instr_pack i)"
  proof
    fix i assume i: "i \<in> set [?u, ?v, ?m, ?t]"
    then obtain g where g: "i = v3d_qpu_nop\<lparr>sig := g\<rparr>" by auto
    show "succeeds (v3d_qpu_instr_pack i)" using s [THEN bspec, OF i] q [THEN bspec, OF i] n by (intro alu_packs) (simp_all add: g h)
  qed
  have ok: "inst_ready x" if "qi_qpu x \<in> set [?u, ?v, ?m, ?t]" "deps_ok x" for x
    using p [THEN bspec, OF that(1)] q [THEN bspec, OF that(1)] that(2) by (simp add: inst_ready_def halves_ok_def)
  have d: "deps_ok (load_inst 0 (\<lambda>g. g\<lparr>ldunif := True\<rparr>) 0)" "deps_ok (load_inst 0 (\<lambda>g. g\<lparr>ldvary := True\<rparr>) (- 1))"
    "deps_ok (load_inst 0 (\<lambda>g. g\<lparr>ldvpm := True\<rparr>) (- 1))" "deps_ok (thread_end 0)" by code_simp+
  have 0: "inst_ready (load_inst 0 (\<lambda>g. g\<lparr>ldunif := True\<rparr>) 0)" "inst_ready (load_inst 0 (\<lambda>g. g\<lparr>ldvary := True\<rparr>) (- 1))"
    "inst_ready (load_inst 0 (\<lambda>g. g\<lparr>ldvpm := True\<rparr>) (- 1))" "inst_ready (thread_end 0)" by (rule ok [OF _ d(1)] ok [OF _ d(2)] ok [OF _ d(3)] ok [OF _ d(4)], simp)+
  show "inst_ready (load_inst p (\<lambda>g. g\<lparr>ldunif := True\<rparr>) (int k))" by (rule inst_ready_cong [OF 0(1)]) simp_all
  show "inst_ready (load_inst p (\<lambda>g. g\<lparr>ldvary := True\<rparr>) (- 1))" by (rule inst_ready_cong [OF 0(2)]) simp_all
  show "inst_ready (load_inst p (\<lambda>g. g\<lparr>ldvpm := True\<rparr>) (- 1))" by (rule inst_ready_cong [OF 0(3)]) simp_all
  show "inst_ready (thread_end p)" by (rule inst_ready_cong [OF 0(4)]) simp_all
qed

lemma nop_simps: "instr_type v3d_qpu_nop = V3D_QPU_INSTR_TYPE_ALU" "\<not> thrsw (sig v3d_qpu_nop)"
  by (simp_all add: v3d_qpu_nop_def no_sig_def)

text \<open>A load is no branch and no thread switch, and its uniform is one of the sources.\<close>

lemma loads_facts:
  assumes "q \<in> set (loads_of al loaded i rs)"
  shows "inst_ready q \<and> \<not> special (qi_qpu q) \<and> (qi_uniform q \<noteq> - 1 \<longrightarrow> (\<exists>r\<in>set rs. q_file r = QFILE_UNIF \<and> qi_uniform q = int (q_index r)))"
  using assms
proof (induction rs arbitrary: loaded i)
  case (Cons r rs)
  have l: "\<not> special (qi_qpu (load_inst p (\<lambda>g. g\<lparr>ldunif := True\<rparr>) u))" "\<not> special (qi_qpu (load_inst p (\<lambda>g. g\<lparr>ldvary := True\<rparr>) u))"
    "\<not> special (qi_qpu (load_inst p (\<lambda>g. g\<lparr>ldvpm := True\<rparr>) u))" for p u by (simp_all add: special_def nop_simps)
  consider (unif) "q_file r = QFILE_UNIF" "q = load_inst (al i) (\<lambda>g. g\<lparr>ldunif := True\<rparr>) (int (q_index r))"
    | (vary) "q = load_inst (al i) (\<lambda>g. g\<lparr>ldvary := True\<rparr>) (- 1)" | (vpm) "q = load_inst (al i) (\<lambda>g. g\<lparr>ldvpm := True\<rparr>) (- 1)"
    | (rest) loaded' where "q \<in> set (loads_of al loaded' (i + 1) rs)"
    using Cons.prems by (cases "q_file r") (auto split: if_splits)
  then show ?case
  proof cases
    case rest
    then show ?thesis using Cons.IH [OF rest] by auto
  qed (use load_ready l in auto)
qed simp

lemma emitted_facts:
  assumes "inst_typed regs x"
  shows "is_branch (emitted_inst regs x) \<longleftrightarrow> is_branch x" "thrsw (sig (qi_qpu (emitted_inst regs x))) \<longleftrightarrow> thrsw (sig (qi_qpu x))"
    "qi_uniform (emitted_inst regs x) = (if vir_has_implicit_uniform x then int (q_index (qi_src x ! vir_get_non_sideband_nsrc x)) else - 1)"
  using emitted_implements [OF assms] by (auto simp: implements_def same_operation_def split: if_splits)

section \<open>Blocks\<close>

lemma emitted_member: "q \<in> set (emitted_insts calloc regs xs) \<longleftrightarrow> (\<exists>x\<in>set xs. q \<in> set (loads_of (calloc (qi_addr x)) False 0 (read_srcs x)) \<or> q = emitted_inst regs x)"
  by (auto simp: emitted_code_def)

lemma emitted_last: "emitted_insts calloc regs (xs @ [x]) = (emitted_insts calloc regs xs @ loads_of (calloc (qi_addr x)) False 0 (read_srcs x)) @ [emitted_inst regs x]"
  by (simp add: emitted_code_def)

lemma emitted_Nil: "emitted_insts calloc regs xs = [] \<longleftrightarrow> xs = []"
  by (cases xs) (simp_all add: emitted_code_def)

lemma loads_length: "length (loads_of al loaded i rs) \<le> length rs"
proof (induction rs arbitrary: loaded i)
  case (Cons r rs)
  have "length (loads_of al l (i + 1) rs) \<le> length rs" for l by (rule Cons.IH)
  then show ?case by (cases "q_file r") (simp_all add: le_SucI)
qed simp

lemma emitted_length: "length (emitted_insts calloc regs xs) \<le> 3 * length xs"
proof (induction xs)
  case (Cons x xs)
  have "vir_get_non_sideband_nsrc x \<le> 2" using num_src_le by (cases "instr_type (qi_qpu x)") (simp_all add: vir_get_non_sideband_nsrc_def)
  then have "length (emitted_code calloc regs x) \<le> 3" using loads_length [of "calloc (qi_addr x)" False 0 "read_srcs x"] by (simp add: emitted_code_def)
  then show ?case using Cons.IH by simp
qed simp

text \<open>The uniforms of an instruction lie within the arrays.\<close>

definition uniforms_within :: "quniform_contents list \<Rightarrow> u32 list \<Rightarrow> qinst \<Rightarrow> bool" where
  "uniforms_within contents data x \<longleftrightarrow> (\<forall>r\<in>set (qi_src x). q_file r = QFILE_UNIF \<longrightarrow> q_index r < length contents \<and> q_index r < length data)"

definition insts_ready :: "qpu_reg list \<Rightarrow> quniform_contents list \<Rightarrow> u32 list \<Rightarrow> qinst list \<Rightarrow> bool" where
  "insts_ready regs contents data xs \<longleftrightarrow> code_typed regs xs \<and> (\<forall>x\<in>set xs. inst_ready (emitted_inst regs x) \<and> uniforms_within contents data x) \<and>
     (\<forall>x\<in>set (butlast xs). \<not> is_branch x)"

lemma insts_readyD:
  assumes "insts_ready regs contents data xs"
  shows "code_typed regs xs" "x \<in> set xs \<Longrightarrow> inst_typed regs x" "x \<in> set xs \<Longrightarrow> inst_ready (emitted_inst regs x)" "x \<in> set xs \<Longrightarrow> uniforms_within contents data x"
    "x \<in> set (butlast xs) \<Longrightarrow> \<not> is_branch x"
  using assms unfolding insts_ready_def code_typed_def by blast+

lemma emitted_ready:
  assumes r: "insts_ready regs contents data xs" and q: "q \<in> set (emitted_insts calloc regs xs)"
  shows "inst_ready q" "uniform_ok contents data q"
proof -
  note R = insts_readyD [OF r]
  obtain x where x: "x \<in> set xs" "q \<in> set (loads_of (calloc (qi_addr x)) False 0 (read_srcs x)) \<or> q = emitted_inst regs x" using q unfolding emitted_member by blast
  have T: "inst_typed regs x" "uniforms_within contents data x" using R(2,4) x(1) by auto
  have u: "qi_uniform q = - 1 \<or> (\<exists>r\<in>set (qi_src x). q_file r = QFILE_UNIF \<and> qi_uniform q = int (q_index r))"
  proof (cases "q = emitted_inst regs x")
    case True
    have "qi_src x ! vir_get_non_sideband_nsrc x \<in> set (qi_src x)" "q_file (qi_src x ! vir_get_non_sideband_nsrc x) = QFILE_UNIF" if "vir_has_implicit_uniform x"
      using T(1) that by (simp_all add: inst_typed_def vir_get_nsrc_def)
    then show ?thesis using emitted_facts(3) [OF T(1)] True by auto
  next
    case False
    then have "q \<in> set (loads_of (calloc (qi_addr x)) False 0 (read_srcs x))" using x(2) by simp
    from loads_facts [OF this] show ?thesis using in_set_takeD by fastforce
  qed
  show "inst_ready q" using x R(3) loads_facts by blast
  show "uniform_ok contents data q" using u T(2) by (auto simp: uniform_ok_def uniforms_within_def)
qed

lemma emitted_inner:
  assumes r: "insts_ready regs contents data xs" and q: "q \<in> set (butlast (emitted_insts calloc regs xs))"
  shows "\<not> is_branch q"
proof (cases xs rule: rev_cases)
  case (snoc ys x)
  note R = insts_readyD [OF r]
  consider (load) y where "q \<in> set (loads_of (calloc (qi_addr y)) False 0 (read_srcs y))" | (inst) y where "y \<in> set ys" "q = emitted_inst regs y"
    using q unfolding snoc emitted_last butlast_snoc set_append Un_iff emitted_member by blast
  then show ?thesis
  proof cases
    case load
    then show ?thesis using loads_facts [OF load] by (simp add: special_def)
  next
    case inst
    then show ?thesis using R(2,5) snoc emitted_facts(1) by auto
  qed
qed (use q in simp)

lemma emitted_ends: "xs \<noteq> [] \<Longrightarrow> last (emitted_insts calloc regs xs) = emitted_inst regs (last xs)"
  by (cases xs rule: rev_cases) (simp_all add: emitted_code_def)

section \<open>Programs\<close>

definition emitted_blocks :: "(nat \<Rightarrow> nat \<Rightarrow> nat) \<Rightarrow> nat \<Rightarrow> qpu_reg list \<Rightarrow> qblock list \<Rightarrow> qpu_block list" where
  "emitted_blocks calloc p regs bs =
     (let ps = map (\<lambda>b. qpu_block_of b (emitted_insts calloc regs (qb_instructions b))) bs in
      butlast ps @ [(last ps)\<lparr>pb_instructions := pb_instructions (last ps) @ [thread_end p]\<rparr>])"

abbreviation program_uniforms :: "qblock list \<Rightarrow> nat" where
  "program_uniforms bs \<equiv> sum_list (map (\<lambda>b. uniforms_total (qb_instructions b)) bs)"

definition emitted_program :: "(nat \<Rightarrow> nat \<Rightarrow> nat) \<Rightarrow> nat \<Rightarrow> qpu_reg list \<Rightarrow> quniform_contents list \<Rightarrow> u32 list \<Rightarrow> qblock list \<Rightarrow> qpu_compile" where
  "emitted_program calloc p regs contents data bs =
     \<lparr>pc_blocks = emitted_blocks calloc p regs bs, qpu_inst_count = 0, num_uniforms = program_uniforms bs, uniform_contents = contents, uniform_data = data\<rparr>"

lemma emitted_program_simps [simp]:
  "pc_blocks (emitted_program calloc p regs contents data bs) = emitted_blocks calloc p regs bs" "qpu_inst_count (emitted_program calloc p regs contents data bs) = 0"
  "num_uniforms (emitted_program calloc p regs contents data bs) = program_uniforms bs" "uniform_contents (emitted_program calloc p regs contents data bs) = contents"
  "uniform_data (emitted_program calloc p regs contents data bs) = data"
  by (simp_all add: emitted_program_def)

text \<open>
  The flow of the program: a block ends in a branch, with a constant as its uniform, or goes on with the next block; the last block is the end.
\<close>

definition code_flow :: "quniform_contents list \<Rightarrow> nat \<Rightarrow> nat \<Rightarrow> qblock \<Rightarrow> bool" where
  "code_flow contents n i b \<longleftrightarrow> length (qb_successors b) = 2 \<and>
     (if Suc i = n then qb_successors b ! 0 = None \<and> (\<forall>x\<in>set (qb_instructions b). \<not> is_branch x)
      else case qb_successors b ! 0 of None \<Rightarrow> True
       | Some t \<Rightarrow> t < n \<and>
           (if qb_instructions b \<noteq> [] \<and> is_branch (last (qb_instructions b)) then
              contents ! q_index (qi_src (last (qb_instructions b)) ! 0) = QUNIFORM_CONSTANT \<and> (case qb_successors b ! 1 of None \<Rightarrow> True | Some u \<Rightarrow> u = Suc i)
            else t = Suc i \<and> (\<forall>x\<in>set (qb_instructions b). \<not> thrsw (sig (qi_qpu x)))))"

definition program_ready :: "qpu_reg list \<Rightarrow> quniform_contents list \<Rightarrow> u32 list \<Rightarrow> qblock list \<Rightarrow> bool" where
  "program_ready regs contents data bs \<longleftrightarrow> bs \<noteq> [] \<and> length (concat (map qb_instructions bs)) \<le> 2 ^ 20 \<and> length bs \<le> 2 ^ 20 \<and>
     (\<forall>b\<in>set bs. insts_ready regs contents data (qb_instructions b)) \<and> (\<forall>i < length bs. code_flow contents (length bs) i (bs ! i))"

lemma emitted_blocks_nth:
  assumes "bs \<noteq> []"
  shows "length (emitted_blocks calloc p regs bs) = length bs"
    "i < length bs \<Longrightarrow> pb_instructions (emitted_blocks calloc p regs bs ! i) = emitted_insts calloc regs (qb_instructions (bs ! i)) @ (if Suc i = length bs then [thread_end p] else [])"
    "i < length bs \<Longrightarrow> pb_successors (emitted_blocks calloc p regs bs ! i) = qb_successors (bs ! i)"
proof -
  have e: "length bs - Suc 0 = i" if "i < length bs" "\<not> i < length bs - Suc 0" for i using that by simp
  show "length (emitted_blocks calloc p regs bs) = length bs"
    "i < length bs \<Longrightarrow> pb_instructions (emitted_blocks calloc p regs bs ! i) = emitted_insts calloc regs (qb_instructions (bs ! i)) @ (if Suc i = length bs then [thread_end p] else [])"
    "i < length bs \<Longrightarrow> pb_successors (emitted_blocks calloc p regs bs ! i) = qb_successors (bs ! i)"
    using assms e by (auto simp: emitted_blocks_def Let_def qpu_block_of_def nth_append nth_butlast last_conv_nth)
qed

end
