(* ===== verification/Emit_Result.thy ===== *)
theory Emit_Result
  imports Emit_Program
begin

text \<open>
  The scheduler takes the emitted program, its code can be packed, and so the translation returns.
\<close>

section \<open>Scheduling\<close>

lemma program_readyD:
  assumes "program_ready regs contents data bs"
  shows "bs \<noteq> []" "length (concat (map qb_instructions bs)) \<le> 2 ^ 20" "length bs \<le> 2 ^ 20"
    "i < length bs \<Longrightarrow> insts_ready regs contents data (qb_instructions (bs ! i))" "i < length bs \<Longrightarrow> code_flow contents (length bs) i (bs ! i)"
  using assms unfolding program_ready_def by auto

lemma blocks_length:
  assumes "bs \<noteq> []"
  shows "length (concat (map pb_instructions (emitted_blocks calloc p regs bs))) \<le> 3 * length (concat (map qb_instructions bs)) + 1"
proof -
  have "map pb_instructions (emitted_blocks calloc p regs bs) = map (\<lambda>b. emitted_insts calloc regs (qb_instructions b)) (butlast bs) @ [emitted_insts calloc regs (qb_instructions (last bs)) @ [thread_end p]]"
    using assms by (simp add: emitted_blocks_def Let_def qpu_block_of_def map_butlast last_map comp_def)
  moreover have "length (concat (map (\<lambda>b. emitted_insts calloc regs (qb_instructions b)) cs)) \<le> 3 * length (concat (map qb_instructions cs))" for cs
  proof (induction cs)
    case (Cons c cs)
    then show ?case using emitted_length [of calloc regs "qb_instructions c"] by simp
  qed simp
  from this [of "butlast bs"] have "length (concat (map (\<lambda>b. emitted_insts calloc regs (qb_instructions b)) (butlast bs))) \<le> 3 * length (concat (map qb_instructions (butlast bs)))" .
  moreover have "concat (map qb_instructions bs) = concat (map qb_instructions (butlast bs)) @ qb_instructions (last bs)"
    using assms by (subst append_butlast_last_id [OF assms, symmetric]) (simp only: map_append concat_append, simp)
  ultimately show ?thesis using emitted_length [of calloc regs "qb_instructions (last bs)"] by simp
qed

lemma blocks_uniforms:
  assumes "program_ready regs contents data bs"
  shows "length (prog_unis (emitted_blocks calloc p regs bs)) = program_uniforms bs"
proof -
  note P = program_readyD [OF assms]
  let ?f = "filter (\<lambda>q. qi_uniform q \<noteq> - 1)" and ?bs = "emitted_blocks calloc p regs bs"
  have "length (?f (pb_instructions (?bs ! i))) = uniforms_total (qb_instructions (bs ! i))" if "i < length bs" for i
    using emitted_blocks_nth(2) [OF P(1) that] code_uniforms insts_readyD(1) [OF P(4) [OF that]] by simp
  then have "map (\<lambda>b. length (?f (pb_instructions b))) ?bs = map (\<lambda>b. uniforms_total (qb_instructions b)) bs"
    by (intro nth_equalityI) (simp_all add: emitted_blocks_nth(1) [OF P(1)])
  moreover have "length (prog_unis cs) = sum_list (map (\<lambda>b. length (?f (pb_instructions b))) cs)" for cs by (induction cs) (simp_all add: prog_unis_def)
  ultimately show ?thesis by simp
qed

lemma block_ready:
  assumes r: "insts_ready regs contents data xs" and e: "E = [] \<or> E = [thread_end p] \<and> (\<forall>x\<in>set xs. \<not> is_branch x)" and l: "length xs \<le> 2 ^ 20"
  shows "block_ok (emitted_insts calloc regs xs @ E) \<and> (\<forall>q\<in>set (emitted_insts calloc regs xs @ E). uniform_ok contents data q)"
proof -
  note R = insts_readyD [OF r]
  have t: "inst_ready q \<and> uniform_ok contents data q" if "q \<in> set (emitted_insts calloc regs xs @ E)" for q
    using that e emitted_ready [OF r] load_ready(4) by (auto simp: uniform_ok_def simp del: set_concat)
  have "\<not> is_branch q" if "q \<in> set (butlast (emitted_insts calloc regs xs @ E))" for q
  proof (cases "E = []")
    case True
    then show ?thesis using emitted_inner [OF r] that by simp
  next
    case False
    then have q: "q \<in> set (emitted_insts calloc regs xs)" and x: "\<forall>x\<in>set xs. \<not> is_branch x" using e that by auto
    from q obtain x where "x \<in> set xs" "q \<in> set (loads_of (calloc (qi_addr x)) False 0 (read_srcs x)) \<or> q = emitted_inst regs x" unfolding emitted_member by blast
    then show ?thesis using x loads_facts emitted_facts(1) R(2) by (fastforce simp: special_def)
  qed
  moreover have "length (emitted_insts calloc regs xs @ E) < 2 ^ 31" using emitted_length [of calloc regs xs] l e by auto
  ultimately show ?thesis using t unfolding block_ok_def inst_ready_def by (auto split: if_splits)
qed

lemma block_flows:
  assumes r: "program_ready regs contents data bs" and i: "i < length bs"
  shows "block_flow contents (length bs) i (emitted_blocks calloc p regs bs ! i)"
proof -
  note P = program_readyD [OF r]
  let ?b = "bs ! i" and ?xs = "qb_instructions (bs ! i)" and ?c = "emitted_blocks calloc p regs bs ! i"
  note R = insts_readyD [OF P(4) [OF i]] and N = emitted_blocks_nth [OF P(1)] and F = P(5) [OF i, unfolded code_flow_def]
  show ?thesis
  proof (cases "qb_successors ?b ! 0")
    case None
    then show ?thesis using F N(3) i by (simp add: block_flow_def)
  next
    case (Some t)
    then have nl: "Suc i \<noteq> length bs" using F by auto
    then have c: "pb_instructions ?c = emitted_insts calloc regs ?xs" using N(2) [OF i] by simp
    have e: "ends_in_branch ?c \<longleftrightarrow> ?xs \<noteq> [] \<and> is_branch (last ?xs)"
      unfolding ends_in_branch_def c emitted_Nil using emitted_ends emitted_facts(1) R(2) last_in_set by metis
    show ?thesis
    proof (cases "ends_in_branch ?c")
      case True
      then have x: "?xs \<noteq> []" "is_branch (last ?xs)" using e by auto
      have "qi_uniform (last (pb_instructions ?c)) = int (q_index (qi_src (last ?xs) ! 0))"
        unfolding c emitted_ends [OF x(1)] emitted_facts(3) [OF R(2) [OF last_in_set [OF x(1)]]] using x(2)
        by (simp add: vir_has_implicit_uniform_def vir_get_non_sideband_nsrc_def)
      then show ?thesis using F N(3) [OF i] nl i Some True x unfolding block_flow_def by (auto split: option.splits)
    next
      case False
      then have x: "\<not> (?xs \<noteq> [] \<and> is_branch (last ?xs))" using e by simp
      then have t: "t = Suc i" "t < length bs" "\<forall>x\<in>set ?xs. \<not> thrsw (sig (qi_qpu x))" using F nl Some by auto
      have b: "\<not> is_branch y" if "y \<in> set ?xs" for y using that x R(5) by (cases ?xs rule: rev_cases) auto
      have "\<not> special (qi_qpu q)" if q: "q \<in> set (pb_instructions ?c)" for q
      proof -
        obtain y where y: "y \<in> set ?xs" "q \<in> set (loads_of (calloc (qi_addr y)) False 0 (read_srcs y)) \<or> q = emitted_inst regs y" using q unfolding c emitted_member by blast
        then show ?thesis using loads_facts b [OF y(1)] t(3) emitted_facts(1,2) [OF R(2) [OF y(1)]] by (auto simp: special_def)
      qed
      then show ?thesis using F N(3) [OF i] t(1,2) Some False unfolding block_flow_def by auto
    qed
  qed
qed

lemma program_schedulable:
  assumes r: "program_ready regs contents data bs" and l: "length contents0 = program_uniforms bs" "length data0 = program_uniforms bs"
  shows "schedulable contents0 data0 (emitted_program calloc p regs contents data bs)"
proof -
  note P = program_readyD [OF r] and N = emitted_blocks_nth [OF program_readyD(1) [OF r]]
  let ?bs = "emitted_blocks calloc p regs bs"
  have "block_ok (pb_instructions (?bs ! i)) \<and> (\<forall>q\<in>set (pb_instructions (?bs ! i)). uniform_ok contents data q)" if i: "i < length bs" for i
  proof -
    have "length (qb_instructions (bs ! i)) \<le> length (concat (map qb_instructions bs))" using nth_mem [OF i] by (auto simp: length_concat intro!: member_le_sum_list)
    then have "length (qb_instructions (bs ! i)) \<le> 2 ^ 20" using P(2) by linarith
    then show ?thesis unfolding N(2) [OF i] using P(5) [OF i] by (intro block_ready [OF P(4) [OF i], where p = p]) (auto simp: code_flow_def)
  qed
  then have "\<forall>b\<in>set ?bs. block_ok (pb_instructions b) \<and> (\<forall>q\<in>set (pb_instructions b). uniform_ok contents data q)"
    using N(1) by (metis in_set_conv_nth)
  moreover have "branches_ok contents ?bs" unfolding branches_ok_def using block_flows [OF r] N(1) by simp
  moreover have "9 * length (concat (map pb_instructions ?bs)) + 5 * length ?bs < 2 ^ 32 - 1"
    using blocks_length [OF P(1), of calloc p regs] P(2,3) N(1) by simp
  ultimately show ?thesis using l blocks_uniforms [OF r] by (simp add: schedulable_def prog_ok_def)
qed

section \<open>Packing\<close>

abbreviation packs :: "v3d_qpu_instr \<Rightarrow> bool" where
  "packs i \<equiv> \<exists>w. v3d_qpu_instr_pack i = Inr w"

lemma ready_packs: "inst_ready q \<Longrightarrow> packs (qi_qpu q)"
  using branch_pack_word [of "qi_qpu q"] by (auto simp: inst_ready_def succeeds_iff split: if_splits)

lemma group_packs:
  assumes "group_ok qs g" "\<forall>q\<in>set qs. inst_ready q"
  shows "packs (group_qpu qs g)" "instr_type (group_qpu qs g) = V3D_QPU_INSTR_TYPE_BRANCH \<Longrightarrow> unat (br_raddr_a (branch (group_qpu qs g))) < 64"
proof -
  consider (idle) "g = []" | (one) k where "g = [k]" "k < length qs" | (two) k m where "g = [k, m]" "qpu_merge_inst False (qi_qpu (qs ! k)) (qi_qpu (qs ! m)) = ret (Some (merged_inst (qi_qpu (qs ! k)) (qi_qpu (qs ! m))))"
    using assms(1) by (auto simp: group_ok_def split: list.splits)
  then have "packs (group_qpu qs g) \<and> (instr_type (group_qpu qs g) = V3D_QPU_INSTR_TYPE_BRANCH \<longrightarrow> unat (br_raddr_a (branch (group_qpu qs g))) < 64)"
  proof cases
    case idle
    have "case v3d_qpu_instr_pack v3d_qpu_nop of Inl _ \<Rightarrow> False | Inr _ \<Rightarrow> True" by code_simp
    then show ?thesis using idle nop_simps(1) by (auto simp: group_qpu_def split: sum.splits)
  next
    case one
    then have "inst_ready (qs ! k)" using assms(2) by simp
    then show ?thesis using one ready_packs by (auto simp: group_qpu_def inst_ready_def)
  next
    case two
    then have "\<not> merge_conflict (qi_qpu (qs ! k)) (qi_qpu (qs ! m))" "packs (merged_inst (qi_qpu (qs ! k)) (qi_qpu (qs ! m)))"
      by (auto simp: qpu_merge_inst_def split: if_splits sum.splits fault.splits)
    moreover from this(1) have "instr_type (qi_qpu (qs ! k)) = V3D_QPU_INSTR_TYPE_ALU" by (auto simp: merge_conflict_def)
    ultimately show ?thesis using two(1) by (auto simp: group_qpu_def merged_parts)
  qed
  then show "packs (group_qpu qs g)" "instr_type (group_qpu qs g) = V3D_QPU_INSTR_TYPE_BRANCH \<Longrightarrow> unat (br_raddr_a (branch (group_qpu qs g))) < 64" by auto
qed

lemma pack_insts: "\<forall>i\<in>set is. packs i \<Longrightarrow> \<exists>ws'. fold_run pack_inst is ws = ret (ws @ ws') \<and> list_all2 (\<lambda>i w. v3d_qpu_instr_pack i = Inr w) is ws'"
proof (induction "is" arbitrary: ws)
  case (Cons i "is")
  then obtain w where w: "v3d_qpu_instr_pack i = Inr w" by auto
  obtain ws' where "fold_run pack_inst is (ws @ [w]) = ret ((ws @ [w]) @ ws')" "list_all2 (\<lambda>i w. v3d_qpu_instr_pack i = Inr w) is ws'" using Cons by fastforce
  moreover have "pack_inst i ws = ret (ws @ [w])" using w by (simp add: pack_inst_def)
  ultimately show ?case using w by (intro exI [of _ "w # ws'"]) simp
qed simp

lemma block_code_packs:
  assumes a: "all_done oc od c Gs c1" and f: "branches_ok oc (pc_blocks c)" and i: "i < length Gs" and r: "\<forall>q\<in>set (pb_instructions (pc_blocks c ! i)). inst_ready q"
    and j: "j \<in> set (block_code c Gs i)"
  shows "packs j"
proof -
  note A = all_doneD [OF a]
  let ?b = "pc_blocks c ! i" and ?code = "map (group_qpu (pb_instructions (pc_blocks c ! i))) (Gs ! i)"
  have D: "schedule_of (pb_instructions ?b) (Gs ! i)" "map qi_qpu (pb_instructions (pc_blocks c1 ! i)) = ?code" using A(5) [OF i] by (simp_all add: block_done_def)
  have g: "packs k" "instr_type k = V3D_QPU_INSTR_TYPE_BRANCH \<Longrightarrow> unat (br_raddr_a (branch k)) < 64" if "k \<in> set ?code" for k
    using that D(1) group_packs [OF _ r] unfolding schedule_of_def by auto
  show ?thesis
  proof (cases "\<exists>t. jumps_to ?b t")
    case True
    then obtain t where t: "jumps_to ?b t" by blast
    let ?p = "length (before_branch (Gs ! i))"
    note B = branch_of [OF a f t i]
    have p: "length (Gs ! i) - 4 = ?p" "?p < length ?code" using B(2) by simp_all
    have "instr_type (?code ! ?p) = V3D_QPU_INSTR_TYPE_BRANCH" using B(1,3) nth_map [of ?p "pb_instructions (pc_blocks c1 ! i)" qi_qpu] unfolding D(2) by simp
    then have new: "packs ((?code ! ?p)\<lparr>branch := (branch (?code ! ?p))\<lparr>br_offset := d\<rparr>\<rparr>)" for d
      using g(2) [OF nth_mem [OF p(2)]] branch_pack_word by simp
    have "block_code c Gs i = ?code[?p := (?code ! ?p)\<lparr>branch := (branch (?code ! ?p))\<lparr>br_offset := word_of_int (8 * (int (length (concat (take t Gs))) - int (branch_at Gs i + 4)))\<rparr>\<rparr>]"
      using t unfolding block_code_def Let_def jumps_to_def length_map p(1) by simp
    then have "j = (?code ! ?p)\<lparr>branch := (branch (?code ! ?p))\<lparr>br_offset := word_of_int (8 * (int (length (concat (take t Gs))) - int (branch_at Gs i + 4)))\<rparr>\<rparr> \<or> j \<in> set ?code"
      using j set_update_subset_insert by fastforce
    then show ?thesis using new g(1) by blast
  next
    case False
    then have "block_code c Gs i = ?code" unfolding block_code_def Let_def jumps_to_def by (auto split: option.splits)
    then show ?thesis using j g(1) by simp
  qed
qed

section \<open>The translation\<close>

lemma thread_end_added:
  assumes "bs \<noteq> []"
  shows "add_thread_end p (map (\<lambda>b. qpu_block_of b (emitted_insts calloc regs (qb_instructions b))) bs) = ret (emitted_blocks calloc p regs bs)"
  using assms by (simp add: add_thread_end_def emitted_blocks_def Let_def)

lemma vir_to_qpu_ok:
  fixes calloc calloc_end
  assumes a: "v3d_register_allocate qsort compiler c = ret (c1, Some regs)" and r: "program_ready regs contents data (c_blocks c1)"
    and n: "\<forall>n. length (new_contents n) = n" "\<forall>n. length (new_data n) = n"
  defines "P \<equiv> emitted_program calloc calloc_end regs contents data (c_blocks c1)"
  shows "\<exists>c' words Gs. v3d_vir_to_qpu calloc calloc_end calloc_nop new_contents new_data qsort compiler contents data c = ret (c', words) \<and>
    list_all2 (\<lambda>i w. v3d_qpu_instr_pack i = Inr w) (prog_code (pc_blocks c')) words \<and> length Gs = length (c_blocks c1) \<and> length (pc_blocks c') = length (c_blocks c1) \<and>
    (\<forall>i < length (c_blocks c1). schedule_of (pb_instructions (pc_blocks P ! i)) (Gs ! i) \<and> map qi_qpu (pb_instructions (pc_blocks c' ! i)) = block_code P Gs i)"
proof -
  let ?bs = "c_blocks c1" and ?n = "program_uniforms (c_blocks c1)"
  note R = program_readyD [OF r]
  have S: "schedulable (new_contents ?n) (new_data ?n) P" unfolding P_def using program_schedulable [OF r] n by simp
  obtain c' cycles Gs c2 where s: "v3d_qpu_schedule_instructions calloc_nop (new_contents ?n) (new_data ?n) P = ret (c', cycles)" "all_done (uniform_contents P) (uniform_data P) P Gs c2"
    "targets_inv P Gs c2 (length Gs) c'" "program_allowed None (prog_code (pc_blocks c2))" "qpu_inst_count c2 = ip_of P Gs (length Gs)"
    using program_scheduled [OF S] by blast
  have f: "branches_ok (uniform_contents P) (pc_blocks P)" and ok: "prog_ok (uniform_contents P) (uniform_data P) (P\<lparr>uniform_contents := new_contents ?n, uniform_data := new_data ?n\<rparr>)"
    using S by (simp_all add: schedulable_def)
  note A = all_doneD [OF s(2)] and C = final_code(1) [OF s(2) f s(3)]
  have len: "length (pc_blocks P) = length ?bs" "length Gs = length ?bs" "length (pc_blocks c') = length ?bs"
    using A(1,2) s(3) emitted_blocks_nth(1) [OF R(1)] by (simp_all add: P_def targets_inv_def)
  have ready: "\<forall>q\<in>set (pb_instructions (pc_blocks P ! i)). inst_ready q" if "i < length ?bs" for i
    using emitted_ready(1) [OF R(4) [OF that]] load_ready(4) emitted_blocks_nth(2) [OF R(1) that] by (auto simp: P_def simp del: set_concat)
  have "packs j" if j: "j \<in> set (prog_code (pc_blocks c'))" for j
  proof -
    obtain b where "b \<in> set (pc_blocks c')" "j \<in> set (map qi_qpu (pb_instructions b))" using j by (auto simp: prog_code_def)
    then obtain i where "i < length ?bs" "j \<in> set (map qi_qpu (pb_instructions (pc_blocks c' ! i)))" using len(3) by (metis in_set_conv_nth)
    then show ?thesis using C len(2) block_code_packs [OF s(2) f _ ready] by simp
  qed
  then obtain words where w: "fold_run pack_inst (prog_code (pc_blocks c')) [] = ret words" "list_all2 (\<lambda>i w. v3d_qpu_instr_pack i = Inr w) (prog_code (pc_blocks c')) words"
    using pack_insts [of "prog_code (pc_blocks c')" "[]"] by auto
  have "length words = length (concat Gs)" using list_all2_lengthD [OF w(2)] final_prefix [OF s(2) f s(3), of "length Gs"] len by simp
  then have count: "length words = unat (qpu_inst_count c')" using s(3,5) A(3,4) by (simp add: targets_inv_def ip_of_def unat_of_nat take_bit_nat_eq_self)
  obtain st where v: "qpu_validate (map (\<lambda>b. map qi_qpu (pb_instructions b)) (pc_blocks c')) = Inr st" using scheduled_validates [OF s(2) f s(3,4)] by blast
  have "\<forall>b\<in>set ?bs. code_typed regs (qb_instructions b)" using r insts_readyD(1) unfolding program_ready_def by blast
  then have "fold_run (generate_block calloc (Some regs)) ?bs ([], 0) = ret (map (\<lambda>b. qpu_block_of b (emitted_insts calloc regs (qb_instructions b))) ?bs, ?n)"
    using blocks_emitted [of ?bs regs calloc "[]" 0] by simp
  then have "v3d_vir_to_qpu calloc calloc_end calloc_nop new_contents new_data qsort compiler contents data c = ret (c', words)"
    unfolding v3d_vir_to_qpu_def using a thread_end_added [OF R(1)] s(1) w(1) count v by (simp add: P_def emitted_program_def Let_def prog_code_def)
  moreover have "schedule_of (pb_instructions (pc_blocks P ! i)) (Gs ! i)" if "i < length ?bs" for i using A(5) that len(2) by (simp add: block_done_def)
  ultimately show ?thesis using w(2) len C by auto
qed

section \<open>A sample program\<close>

definition sample_block :: "qinst list \<Rightarrow> nat option list \<Rightarrow> qblock" where
  "sample_block xs ss = \<lparr>qb_instructions = xs, qb_predecessors = {}, qb_successors = ss, qb_def = [], qb_use = [], qb_live_in = [], qb_live_out = [],
     start_ip = 0, end_ip = 0\<rparr>"

text \<open>The first payload register, added to a uniform.\<close>

definition add_program :: v3d_compile where
  "add_program = \<lparr>c_blocks = [sample_block [vir_mul_inst 1 V3D_QPU_M_MOV (vir_reg QFILE_TEMP 0) (vir_reg QFILE_REG 0) (vir_reg QFILE_NULL 0),
       vir_add_inst 2 V3D_QPU_A_FADD (vir_reg QFILE_REG 5) (vir_reg QFILE_TEMP 0) (vir_reg QFILE_UNIF 0)] [None, None]],
     num_temps = 1, c_defs = [], vattr_sizes = [], num_inputs = 0, num_vpm_writes = 0, temp_start = None, temp_end = None, fs_threaded = False, c_failed = False\<rparr>"

abbreviation rf0 :: qpu_reg where
  "rf0 \<equiv> qpu_reg_at 0"

definition mov_rf0 :: v3d_qpu_instr where
  "mov_rf0 = \<lparr>instr_type = V3D_QPU_INSTR_TYPE_ALU, sig = no_sig, raddr_a = 0, raddr_b = 0, flags = flags v3d_qpu_nop,
     alu_add = \<lparr>alu_op = V3D_QPU_A_NOP, mux_a = V3D_QPU_MUX_R0, mux_b = V3D_QPU_MUX_R0, waddr = V3D_QPU_WADDR_NOP, magic_write = True, output_pack = V3D_QPU_PACK_NONE, a_unpack = V3D_QPU_UNPACK_NONE, b_unpack = V3D_QPU_UNPACK_NONE\<rparr>,
     alu_mul = \<lparr>alu_op = V3D_QPU_M_MOV, mux_a = V3D_QPU_MUX_A, mux_b = V3D_QPU_MUX_R0, waddr = 0, magic_write = False, output_pack = V3D_QPU_PACK_NONE, a_unpack = V3D_QPU_UNPACK_NONE, b_unpack = V3D_QPU_UNPACK_NONE\<rparr>,
     branch = branch v3d_qpu_nop\<rparr>"

definition fadd_rf0_r5 :: v3d_qpu_instr where
  "fadd_rf0_r5 = \<lparr>instr_type = V3D_QPU_INSTR_TYPE_ALU, sig = no_sig, raddr_a = 0, raddr_b = 0, flags = flags v3d_qpu_nop,
     alu_add = \<lparr>alu_op = V3D_QPU_A_FADD, mux_a = V3D_QPU_MUX_A, mux_b = V3D_QPU_MUX_R5, waddr = 5, magic_write = False, output_pack = V3D_QPU_PACK_NONE, a_unpack = V3D_QPU_UNPACK_NONE, b_unpack = V3D_QPU_UNPACK_NONE\<rparr>,
     alu_mul = \<lparr>alu_op = V3D_QPU_M_NOP, mux_a = V3D_QPU_MUX_R0, mux_b = V3D_QPU_MUX_R0, waddr = V3D_QPU_WADDR_NOP, magic_write = True, output_pack = V3D_QPU_PACK_NONE, a_unpack = V3D_QPU_UNPACK_NONE, b_unpack = V3D_QPU_UNPACK_NONE\<rparr>,
     branch = branch v3d_qpu_nop\<rparr>"

lemma add_program_ready: "program_ready [rf0] [0] [7] (c_blocks add_program)"
proof -
  let ?xs = "qb_instructions (c_blocks add_program ! 0)"
  have e: "map (\<lambda>x. qi_qpu (emitted_inst [rf0] x)) ?xs = [mov_rf0, fadd_rf0_r5]" by code_simp
  have "succeeds (v3d_qpu_instr_pack mov_rf0)" by (rule alu_packs; code_simp)
  moreover have "succeeds (v3d_qpu_instr_pack fadd_rf0_r5)" by (rule alu_packs; code_simp)
  ultimately have p: "\<forall>i\<in>set [mov_rf0, fadd_rf0_r5]. succeeds (v3d_qpu_instr_pack i)" by simp
  have q: "\<forall>i\<in>set [mov_rf0, fadd_rf0_r5]. peripheral_uses i \<le> 1 \<and> instr_type i \<noteq> V3D_QPU_INSTR_TYPE_BRANCH \<and> alu_fields_fit i \<and> add_encodable (alu_add i) \<and> mul_encodable (alu_mul i)" by code_simp
  have d: "\<forall>x\<in>set ?xs. deps_ok (emitted_inst [rf0] x)" by code_simp
  have "inst_ready (emitted_inst [rf0] x)" if x: "x \<in> set ?xs" for x
  proof -
    have "qi_qpu (emitted_inst [rf0] x) \<in> set [mov_rf0, fadd_rf0_r5]" unfolding e [symmetric] using x by simp
    then show ?thesis using p [THEN bspec] q [THEN bspec] d x unfolding inst_ready_def halves_ok_def by metis
  qed
  moreover have "code_typed [rf0] ?xs" "\<forall>x\<in>set ?xs. uniforms_within [0] [7] x \<and> \<not> is_branch x" by code_simp+
  ultimately have i: "insts_ready [rf0] [0] [7] ?xs" unfolding insts_ready_def by (auto dest: in_set_butlastD)
  have "length (concat (map qb_instructions (c_blocks add_program))) = 2" "length (c_blocks add_program) = 1" "code_flow [0] 1 0 (c_blocks add_program ! 0)" by code_simp+
  then show ?thesis using i unfolding program_ready_def by (auto simp: in_set_conv_nth)
qed

end
