(* ===== verification/Emit_Spec.thy ===== *)
theory Emit_Spec
  imports Emit_Result Vir_Spec
begin

text \<open>
  The properties of the emission of code.
\<close>

section \<open>Without registers\<close>

definition uses_temp :: "qinst \<Rightarrow> bool" where
  "uses_temp x \<longleftrightarrow> q_file (qi_dst x) = QFILE_TEMP \<or> (\<exists>r\<in>set (read_srcs x). q_file r = QFILE_TEMP)"

lemma fold_run_each: "fold_run f xs s = ret s' \<Longrightarrow> x \<in> set xs \<Longrightarrow> \<exists>s1 s2. f x s1 = ret s2"
  by (induction xs arbitrary: s) (auto simp: bind_run_ret_iff)

lemma no_register_src: "generate_src calloc None x i s = ret s' \<Longrightarrow> i < length (qi_src x) \<Longrightarrow> q_file (qi_src x ! i) \<noteq> QFILE_TEMP"
  by (auto simp: generate_src_def temp_reg_at_def Let_def)

lemma no_register_inst:
  assumes "generate_inst calloc None x s = ret s'"
  shows "\<not> uses_temp x"
proof -
  obtain qs n l where s: "s = (qs, n, l)" by (cases s)
  obtain y n' where 1: "(if vir_has_implicit_uniform x then bind_run (fetch (qi_src x) (nat (vir_get_implicit_uniform_src x)))
      (\<lambda>r. bind_run (assert_run (q_file r = QFILE_UNIF)) (\<lambda>_. ret (x\<lparr>qi_uniform := c_int (q_index r)\<rparr>, n + 1))) else ret (x, n)) = ret (y, n')"
    and 2: "\<exists>s1 s2. fold_run (generate_src calloc None y) [0..<vir_get_non_sideband_nsrc y] s1 = ret s2" "\<exists>d. generate_dst None (qi_dst y) = ret d"
    using assms unfolding generate_inst_def s by (auto simp: bind_run_ret_iff Let_def)
  have "\<exists>u. y = x\<lparr>qi_uniform := u\<rparr>" using 1 by (auto simp: bind_run_ret_iff split: if_splits intro: exI [of _ "qi_uniform x"])
  then have y: "qi_src y = qi_src x" "qi_dst y = qi_dst x" "vir_get_non_sideband_nsrc y = vir_get_non_sideband_nsrc x"
    by (cases "instr_type (qi_qpu x)"; auto simp: vir_get_non_sideband_nsrc_def)+
  have "q_file (qi_dst x) \<noteq> QFILE_TEMP" using 2(2) y(2) by (auto simp: generate_dst_def temp_reg_at_def)
  moreover have "q_file r \<noteq> QFILE_TEMP" if r: "r \<in> set (read_srcs x)" for r
  proof -
    obtain i where i: "i < vir_get_non_sideband_nsrc x" "i < length (qi_src x)" "r = qi_src x ! i" using r by (auto simp: in_set_conv_nth)
    obtain s1 s2 where "generate_src calloc None y i s1 = ret s2" using 2(1) fold_run_each [where x = i] i(1) y(3) by fastforce
    then show ?thesis using no_register_src i y(1) by metis
  qed
  ultimately show ?thesis by (auto simp: uses_temp_def)
qed

lemma no_registers:
  assumes a: "v3d_register_allocate qsort compiler c = ret (c1, None)" and b: "b \<in> set (c_blocks c1)" "x \<in> set (qb_instructions b)" "uses_temp x"
  shows "v3d_vir_to_qpu calloc calloc_end calloc_nop new_contents new_data qsort compiler contents data c \<noteq> ret r"
proof
  assume "v3d_vir_to_qpu calloc calloc_end calloc_nop new_contents new_data qsort compiler contents data c = ret r"
  then obtain v where "fold_run (generate_block calloc None) (c_blocks c1) ([], 0) = ret v"
    unfolding v3d_vir_to_qpu_def a by (auto simp: bind_run_ret_iff)
  then obtain s1 s2 where "generate_block calloc None b s1 = ret s2" using fold_run_each b(1) by metis
  then obtain n v where "v3d_generate_code_block calloc None (qb_instructions b) n = ret v"
    by (cases s1) (auto simp: generate_block_def bind_run_ret_iff)
  then obtain s v where "fold_run (generate_inst calloc None) (qb_instructions b) s = ret v" by (auto simp: v3d_generate_code_block_def bind_run_ret_iff)
  then obtain s1 s2 where "generate_inst calloc None x s1 = ret s2" using fold_run_each b(2) by metis
  then show False using no_register_inst b(3) by blast
qed

section \<open>The order of the VPM reads\<close>

lemma vpm_ordered_sorted: "vpm_ordered l rs \<longleftrightarrow> sorted (l # map (\<lambda>r. c_int (q_index r)) (filter (\<lambda>r. q_file r = QFILE_VPM) rs))"
  by (induction rs arbitrary: l) (auto intro: order_trans)

definition vpm_read :: "nat \<Rightarrow> qinst" where
  "vpm_read k = vir_mul_inst 1 V3D_QPU_M_MOV (vir_reg QFILE_REG 5) (vir_reg QFILE_VPM k) (vir_reg QFILE_NULL 0)"

lemma vpm_read_parts: "vir_get_non_sideband_nsrc (vpm_read k) = 1" "\<not> vir_has_implicit_uniform (vpm_read k)" "fresh_operands (qi_qpu (vpm_read k))"
  "alu_fields_fit (qi_qpu (vpm_read k))" "alu_op (add_part (vpm_read k)) = V3D_QPU_A_NOP" "qi_uniform (vpm_read k) = - 1"
  "qi_src (vpm_read k) = [vir_reg QFILE_VPM k, vir_reg QFILE_NULL 0, vir_reg QFILE_NULL 0]" "qi_dst (vpm_read k) = vir_reg QFILE_REG 5"
proof -
  have q: "qi_qpu (vpm_read k) = qi_qpu (vpm_read 0)" by (simp add: vpm_read_def vir_mul_inst_def Let_def)
  have 0: "vir_get_non_sideband_nsrc (vpm_read 0) = 1" "fresh_operands (qi_qpu (vpm_read 0))" "alu_fields_fit (qi_qpu (vpm_read 0))"
    "instr_type (qi_qpu (vpm_read 0)) = V3D_QPU_INSTR_TYPE_ALU" "alu_op (add_part (vpm_read 0)) = V3D_QPU_A_NOP" by code_simp+
  show "vir_get_non_sideband_nsrc (vpm_read k) = 1" using 0(1) unfolding vir_get_non_sideband_nsrc_def q .
  show "fresh_operands (qi_qpu (vpm_read k))" "alu_fields_fit (qi_qpu (vpm_read k))" "alu_op (add_part (vpm_read k)) = V3D_QPU_A_NOP" using 0 unfolding q by simp_all
  show "qi_uniform (vpm_read k) = - 1" "qi_src (vpm_read k) = [vir_reg QFILE_VPM k, vir_reg QFILE_NULL 0, vir_reg QFILE_NULL 0]" "qi_dst (vpm_read k) = vir_reg QFILE_REG 5"
    by (simp_all add: vpm_read_def vir_mul_inst_def Let_def)
  moreover have "\<not> qi_has_implicit_uniform (vpm_read k)" by (simp add: vpm_read_def vir_mul_inst_def Let_def)
  ultimately show "\<not> vir_has_implicit_uniform (vpm_read k)" using 0(4) by (simp add: vir_has_implicit_uniform_def q vir_reg_def)
qed

lemma vpm_read_srcs: "read_srcs (vpm_read k) = [vir_reg QFILE_VPM k]" "uniforms_used (vpm_read k) = 0"
  by (simp_all add: vpm_read_parts uniforms_used_def vir_reg_def)

lemma vpm_read_typed: "inst_typed [] (vpm_read k)"
  by (simp add: inst_typed_def vpm_read_parts vir_get_nsrc_def src_typed_def dst_typed_def readable_reg_def src_reg_def dst_reg_def vir_reg_def qpu_acc_def qpu_magic_def qpu_reg_at_def)

section \<open>Sample programs\<close>

text \<open>Seventy values that are all needed at the same time.\<close>

definition crowded_code :: "qinst list" where
  "crowded_code = map (\<lambda>i. vir_mul_inst i V3D_QPU_M_MOV (vir_reg QFILE_TEMP i) (vir_reg QFILE_REG 10) (vir_reg QFILE_NULL 0)) [0..<70] @
     map (\<lambda>i. vir_add_inst (70 + i) V3D_QPU_A_FADD (vir_reg QFILE_NULL 0) (vir_reg QFILE_TEMP i) (vir_reg QFILE_TEMP i)) [0..<70]"

definition crowded_program :: v3d_compile where
  "crowded_program = \<lparr>c_blocks = [sample_block crowded_code [None, None]],
     num_temps = 70, c_defs = [], vattr_sizes = [], num_inputs = 0, num_vpm_writes = 0, temp_start = None, temp_end = None, fs_threaded = False, c_failed = False\<rparr>"

lemma allocation_intervals: "v3d_register_allocate qsort compiler c = ret (c', Some regs) \<Longrightarrow> vir_calculate_live_intervals c = ret c'"
  unfolding v3d_register_allocate_def by (auto simp: bind_run_ret_iff Let_def split: option.splits if_splits prod.splits)

lemma add_program_allocated:
  "\<exists>compiler c1. vir_init_reg_sets = ret compiler \<and> v3d_register_allocate (\<lambda>cmp xs. xs) compiler add_program = ret (c1, Some [rf0]) \<and> program_ready [rf0] [0] [7] (c_blocks c1)"
proof -
  obtain compiler where vc: "vir_init_reg_sets = ret compiler" using init_reg_sets_ok by blast
  have ok: "program_ok add_program" "payloads_ok add_program" by code_simp+
  have n: "num_temps add_program = 1" "threads add_program = 0" "(num_temps add_program + ACC_COUNT) * (PHYS_INDEX + PHYS_COUNT) < UINT_MAX"
    by (simp_all add: add_program_def threads_def ACC_COUNT_def PHYS_INDEX_def ACC_INDEX_def PHYS_COUNT_def UINT_MAX_def)
  obtain c1 rs col where a: "intervals_ok add_program c1 rs" "v3d_register_allocate (\<lambda>cmp xs. xs) compiler add_program = ret (c1, Some [qpu_reg_of rs 0 (col 0)])" "coloring_ok add_program rs col"
    using register_allocate_ok [OF vc ok permutes_id n(3)] n(1,2) by (auto simp: PHYS_COUNT_def)
  have m: "mentions (insts (c_blocks add_program) 0 ! 0) 0" "mentions (insts (c_blocks add_program) 0 ! 1) 0" "length (insts (c_blocks add_program) 0) = 2" "length (c_blocks add_program) = 1" by code_simp+
  have "covers rs 0 0" "covers rs 0 1" using intervals_okD(8) [OF a(1), of 0 0 0] intervals_okD(8) [OF a(1), of 0 1 0] m by simp_all
  then have ne: "fst rs ! 0 \<noteq> snd rs ! 0" by (simp add: covers_def)
  have p: "code add_program ! 0 \<in> set (code add_program)" "payload (code add_program ! 0)" "dst_of (code add_program ! 0) = 0" "payload_of (code add_program ! 0) = 0" by code_simp+
  have "col 0 = PHYS_INDEX" using a(3) n(1) p unfolding coloring_ok_def by force
  then have "qpu_reg_of rs 0 (col 0) = rf0" using ne by (simp add: qpu_reg_of_def qpu_reg_at_def)
  then have r: "v3d_register_allocate (\<lambda>cmp xs. xs) compiler add_program = ret (c1, Some [rf0])" using a(2) by simp
  have "case vir_calculate_live_intervals add_program of Some (Inr c) \<Rightarrow> map qb_instructions (c_blocks c) = map qb_instructions (c_blocks add_program) \<and> map qb_successors (c_blocks c) = [[None, None]] | _ \<Rightarrow> False"
    by code_simp
  then have "map qb_instructions (c_blocks c1) = map qb_instructions (c_blocks add_program)" "map qb_successors (c_blocks c1) = [[None, None]]"
    unfolding allocation_intervals [OF r] by (simp_all add: ret_def)
  then have "program_ready [rf0] [0] [7] (c_blocks c1)" using add_program_ready by (auto simp: program_ready_def code_flow_def add_program_def sample_block_def)
  then show ?thesis using vc r by blast
qed

lemma crowded_nth:
  "i < 70 \<Longrightarrow> crowded_code ! i = vir_mul_inst i V3D_QPU_M_MOV (vir_reg QFILE_TEMP i) (vir_reg QFILE_REG 10) (vir_reg QFILE_NULL 0)"
  "i < 70 \<Longrightarrow> crowded_code ! (70 + i) = vir_add_inst (70 + i) V3D_QPU_A_FADD (vir_reg QFILE_NULL 0) (vir_reg QFILE_TEMP i) (vir_reg QFILE_TEMP i)"
  "length crowded_code = 140"
  by (simp_all add: crowded_code_def nth_append)

lemma crowded_ok: "program_ok crowded_program" "payloads_ok crowded_program"
proof -
  have i: "inst_ok 70 x" if "length (qi_src x) = 3" "\<forall>r\<in>set (qi_src x). q_file r = QFILE_TEMP \<longrightarrow> q_index r < 70" "q_file (qi_dst x) = QFILE_TEMP \<longrightarrow> q_index (qi_dst x) < 70" "\<not> payload x" for x
    using that nsrc_le [of x] by (auto simp: inst_ok_def)
  have x: "inst_ok 70 x \<and> \<not> payload x" if "x \<in> set crowded_code" for x
  proof -
    have "\<not> payload x" using that by (auto simp: crowded_code_def payload_def vir_mul_inst_def vir_add_inst_def vir_reg_def)
    then show ?thesis using that by (intro conjI i) (auto simp: crowded_code_def vir_mul_inst_def vir_add_inst_def vir_reg_def)
  qed
  then show "program_ok crowded_program" by (auto simp: program_ok_def crowded_program_def sample_block_def succ_list_def succ_of_def)
  show "payloads_ok crowded_program" using x by (auto simp: payloads_ok_def payload_ok_def crowded_program_def sample_block_def)
qed

lemma crowded_temps: "num_temps crowded_program = 70" "threads crowded_program = 0" "(num_temps crowded_program + ACC_COUNT) * (PHYS_INDEX + PHYS_COUNT) < UINT_MAX"
  "c_blocks crowded_program = [sample_block crowded_code [None, None]]" "qb_instructions (sample_block xs ss) = xs"
  by (simp_all add: crowded_program_def threads_def ACC_COUNT_def PHYS_INDEX_def ACC_INDEX_def PHYS_COUNT_def UINT_MAX_def sample_block_def)

lemma crowded_mentions: "i < 70 \<Longrightarrow> mentions (crowded_code ! i) i" "i < 70 \<Longrightarrow> mentions (crowded_code ! (70 + i)) i"
proof -
  assume i: "i < 70"
  show "mentions (crowded_code ! i) i" unfolding crowded_nth(1) [OF i] by (simp add: mentions_def writes_temp_def vir_mul_inst_def vir_reg_def v3d_qpu_nop_def)
  have "0 < vir_get_nsrc (crowded_code ! (70 + i))" unfolding crowded_nth(2) [OF i]
    by (simp add: vir_get_nsrc_def vir_get_non_sideband_nsrc_def vir_add_inst_def v3d_qpu_nop_def v3d_qpu_add_op_num_src_def)
  then show "mentions (crowded_code ! (70 + i)) i" unfolding mentions_def reads_temp_def crowded_nth(2) [OF i] by (auto simp: vir_add_inst_def vir_reg_def)
qed

text \<open>The seventy temporaries overlap, and there are sixty-nine registers.\<close>

lemma crowded_fails:
  assumes vc: "vir_init_reg_sets = ret compiler"
  shows "\<exists>c1. v3d_register_allocate (\<lambda>cmp xs. xs) compiler crowded_program = ret (c1, None) \<and> map qb_instructions (c_blocks c1) = [crowded_code]"
proof -
  let ?c = crowded_program
  obtain c' rs where I: "intervals_ok ?c c' rs" and A: "v3d_register_allocate (\<lambda>cmp xs. xs) compiler ?c = ret (c'\<lparr>c_failed := True\<rparr>, None) \<or>
      (\<exists>col. v3d_register_allocate (\<lambda>cmp xs. xs) compiler ?c = ret (c', Some (map (\<lambda>v. qpu_reg_of rs v (col v)) [0..<num_temps ?c])) \<and> coloring_ok ?c rs col)"
    using register_allocate_ok [OF vc crowded_ok permutes_id crowded_temps(3)] by blast
  have cov: "covers rs i (int i)" "covers rs i (70 + int i)" if "i < 70" for i
    using intervals_okD(8) [OF I, of 0 i i] intervals_okD(8) [OF I, of 0 "70 + i" i] crowded_mentions [OF that] that by (simp_all add: crowded_temps crowded_nth(3))
  have ov: "overlap rs v w" if "v < 70" "w < 70" for v w using cov(1) [OF that(1)] cov(2) [OF that(1)] cov(1) [OF that(2)] cov(2) [OF that(2)] that by (simp add: covers_def overlap_def)
  have "\<not> coloring_ok ?c rs col" for col
  proof
    assume "coloring_ok ?c rs col"
    then have c: "col v < 69" "\<And>w. w < 70 \<Longrightarrow> v \<noteq> w \<Longrightarrow> col v \<noteq> col w" if "v < 70" for v
      using ov that unfolding coloring_ok_def crowded_temps by (auto simp: class_regs_def PHYS_INDEX_def ACC_INDEX_def ACC_COUNT_def PHYS_COUNT_def)
    then have "inj_on col {..<70}" "col ` {..<70} \<subseteq> {..<69}" by (auto simp: inj_on_def)
    then show False using card_inj_on_le [of col "{..<70}" "{..<69}"] by simp
  qed
  then have "v3d_register_allocate (\<lambda>cmp xs. xs) compiler ?c = ret (c'\<lparr>c_failed := True\<rparr>, None)" using A by blast
  moreover have "map qb_instructions (c_blocks c') = [crowded_code]"
    using intervals_okD(4) [OF I] by (intro nth_equalityI) (simp_all add: same_program_def crowded_temps)
  ultimately show ?thesis by auto
qed

section \<open>Properties\<close>

text \<open>
  C7. The code of a block. The emission returns on every block of typed instructions that reads the VPM in the order of its indices, taken as signed numbers (the index \<open>~0\<close> first). Each
  instruction becomes the loads for its sources, followed by one instruction with the same operation, signals, flags and modifiers,
  whose operands read the registers of the sources, in their order, and whose result goes to the register of the destination. A
  uniform operand is read from \<open>r5\<close>, to which one of these loads has brought the uniform, when the instruction refers to no second uniform. A
  varying and a value from the VPM come in \<open>r3\<close>.
\<close>

theorem generated_code_implements:
  assumes "code_typed regs xs"
  shows "\<exists>emit. v3d_generate_code_block calloc (Some regs) xs n =
      ret (concat (map (\<lambda>x. loads_of (calloc (qi_addr x)) False 0 (read_srcs x) @ [emit x]) xs), n + uniforms_total xs) \<and>
    (\<forall>x\<in>set xs. implements regs x (emit x) \<and>
       (\<forall>r\<in>set (read_srcs x). q_file r = QFILE_UNIF \<and> (\<forall>s\<in>set (read_srcs x). q_file s = QFILE_UNIF \<longrightarrow> q_index s = q_index r) \<longrightarrow>
          src_reg regs r = qpu_acc 5 \<and> (\<exists>q\<in>set (loads_of (calloc (qi_addr x)) False 0 (read_srcs x)). ldunif (sig (qi_qpu q)) \<and> qi_uniform q = int (q_index r))))"
proof -
  have "v3d_generate_code_block calloc (Some regs) xs n = ret (concat (map (\<lambda>x. loads_of (calloc (qi_addr x)) False 0 (read_srcs x) @ [emitted_inst regs x]) xs), n + uniforms_total xs)"
    using block_emitted [OF assms, of calloc n] by (simp add: emitted_code_def [abs_def])
  moreover have "implements regs x (emitted_inst regs x)" if "x \<in> set xs" for x using assms that emitted_implements by (simp add: code_typed_def)
  moreover have "src_reg regs r = qpu_acc 5" if "q_file r = QFILE_UNIF" for r using that by (simp add: src_reg_def)
  ultimately show ?thesis using uniform_loaded by (intro exI [of _ "emitted_inst regs"]) blast
qed

theorem generated_code_implements_witness:
  "code_typed [rf0] (qb_instructions (c_blocks add_program ! 0)) \<and>
   (\<exists>emit. v3d_generate_code_block (\<lambda>p i. 10 * p + i) (Some [rf0]) (qb_instructions (c_blocks add_program ! 0)) 0 =
      ret ([emit (qb_instructions (c_blocks add_program ! 0) ! 0), load_inst 21 (\<lambda>g. g\<lparr>ldunif := True\<rparr>) 0, emit (qb_instructions (c_blocks add_program ! 0) ! 1)], 1))"
proof -
  let ?xs = "qb_instructions (c_blocks add_program ! 0)" and ?al = "\<lambda>p i. 10 * p + i"
  have t: "code_typed [rf0] ?xs" using add_program_ready unfolding program_ready_def insts_ready_def by (auto simp: add_program_def)
  have xs: "?xs = [?xs ! 0, ?xs ! 1]" by (simp add: add_program_def sample_block_def)
  have l: "read_srcs (?xs ! 0) = [vir_reg QFILE_REG 0]" "read_srcs (?xs ! 1) = [vir_reg QFILE_TEMP 0, vir_reg QFILE_UNIF 0]" "qi_addr (?xs ! 1) = 2" "uniforms_total ?xs = 1" by code_simp+
  have g: "concat (map (\<lambda>x. loads_of (?al (qi_addr x)) False 0 (read_srcs x) @ [emit x]) ?xs) = [emit (?xs ! 0), load_inst 21 (\<lambda>g. g\<lparr>ldunif := True\<rparr>) 0, emit (?xs ! 1)]" for emit
    by (subst xs) (simp add: l vir_reg_def del: One_nat_def)
  obtain emit where "v3d_generate_code_block ?al (Some [rf0]) ?xs 0 = ret (concat (map (\<lambda>x. loads_of (?al (qi_addr x)) False 0 (read_srcs x) @ [emit x]) ?xs), 0 + uniforms_total ?xs)"
    using generated_code_implements [OF t, of ?al 0] by blast
  then have "v3d_generate_code_block ?al (Some [rf0]) ?xs 0 = ret ([emit (?xs ! 0), load_inst 21 (\<lambda>g. g\<lparr>ldunif := True\<rparr>) 0, emit (?xs ! 1)], 1)" by (simp only: g l(4) add_0)
  then show ?thesis using t by blast
qed

text \<open>
  C40. The order of the VPM reads. On typed instructions the emission of a block returns exactly if the indices of the VPM that the block reads never become
  smaller, as signed numbers, beginning with \<open>- 1\<close>; else its assertion fails.
\<close>

theorem vpm_order_enforced:
  assumes "\<forall>x\<in>set xs. inst_typed regs x"
  shows "v3d_generate_code_block calloc (Some regs) xs n =
    (if sorted (- 1 # map (\<lambda>r. c_int (q_index r)) (filter (\<lambda>r. q_file r = QFILE_VPM) (concat (map read_srcs xs))))
     then ret (emitted_insts calloc regs xs, n + uniforms_total xs) else fault Assert_Failed)"
  unfolding vpm_ordered_sorted [symmetric] by (simp add: v3d_generate_code_block_def insts_emitted [OF assms])

theorem vpm_order_enforced_witness:
  "inst_typed [] (vpm_read (2 ^ 32 - 1)) \<and> inst_typed [] (vpm_read 0) \<and>
   (\<exists>qs. v3d_generate_code_block (\<lambda>p i. 10 * p + i) (Some []) [vpm_read (2 ^ 32 - 1), vpm_read 0] 0 = ret (qs, 0)) \<and>
   v3d_generate_code_block (\<lambda>p i. 10 * p + i) (Some []) [vpm_read 0, vpm_read (2 ^ 32 - 1)] 0 = fault Assert_Failed"
proof -
  have t: "inst_typed [] (vpm_read k)" for k by (rule vpm_read_typed)
  have s: "read_srcs (vpm_read k) = [vir_reg QFILE_VPM k]" "uniforms_used (vpm_read k) = 0" for k by (rule vpm_read_srcs)+
  have c: "c_int 4294967295 = - 1" "c_int 0 = 0" by (simp_all add: c_int_def)
  show ?thesis
    using t vpm_order_enforced [of "[vpm_read (2 ^ 32 - 1), vpm_read 0]" "[]" "\<lambda>p i. 10 * p + i" 0] vpm_order_enforced [of "[vpm_read 0, vpm_read (2 ^ 32 - 1)]" "[]" "\<lambda>p i. 10 * p + i" 0]
    by (simp add: s c vir_reg_def del: One_nat_def)
qed

text \<open>
  C17. The types of the code: in every instruction that is emitted for a typed block that reads the VPM in order the addresses fit their fields, and the number that
  is added to \<open>num_uniforms\<close> is the number of instructions that read a uniform from the stream.
\<close>

theorem generated_code_typed:
  assumes "code_typed regs xs"
  shows "\<exists>qs. v3d_generate_code_block calloc (Some regs) xs n = ret (qs, n + length (filter (\<lambda>q. qi_uniform q \<noteq> - 1) qs)) \<and>
    (\<forall>q\<in>set qs. is_branch q \<or> alu_fields_fit (qi_qpu q))"
proof -
  have "is_branch q \<or> alu_fields_fit (qi_qpu q)" if q: "q \<in> set (emitted_insts calloc regs xs)" for q
  proof -
    obtain x where x: "x \<in> set xs" "q \<in> set (loads_of (calloc (qi_addr x)) False 0 (read_srcs x)) \<or> q = emitted_inst regs x" using q unfolding emitted_member by blast
    have "implements regs x (emitted_inst regs x)" using assms x(1) emitted_implements by (simp add: code_typed_def)
    moreover have "is_branch q \<or> halves_ok q" if "q \<in> set (loads_of (calloc (qi_addr x)) False 0 (read_srcs x))" using loads_facts [OF that] by (auto simp: inst_ready_def split: if_splits)
    ultimately show ?thesis using x(2) by (auto simp: implements_def halves_ok_def split: if_splits)
  qed
  then show ?thesis using block_emitted [OF assms, of calloc n] code_uniforms [OF assms, of calloc] by auto
qed

theorem generated_code_typed_witness:
  "code_typed [rf0] (qb_instructions (c_blocks add_program ! 0)) \<and>
   (\<exists>qs. v3d_generate_code_block (\<lambda>p i. 10 * p + i) (Some [rf0]) (qb_instructions (c_blocks add_program ! 0)) 0 = ret (qs, length (filter (\<lambda>q. qi_uniform q \<noteq> - 1) qs)))"
proof -
  have t: "code_typed [rf0] (qb_instructions (c_blocks add_program ! 0))" using add_program_ready unfolding program_ready_def insts_ready_def by (auto simp: add_program_def)
  then show ?thesis using generated_code_typed [OF t, of "\<lambda>p i. 10 * p + i" 0] by auto
qed

text \<open>
  C6. From VIR to words. When the allocation gives registers and the program is one that the scheduler and the encoding can express (\<open>program_ready\<close>: at most \<open>2\<^sup>2\<^sup>0\<close> instructions
  and blocks, typed instructions with VPM reads in order and uniforms inside the arrays, each of which can be packed once it has registers; a block ends in one branch with a constant as its
  uniform or goes on with the next block, and the last one does not branch), the translation returns: no assertion fails, and the validator accepts the code. The words are the encodings of the scheduled
  instructions, and the code of each block is a schedule of the code that was emitted for it, with the end of the thread in the last block.
\<close>

theorem vir_to_qpu_correct:
  fixes calloc calloc_end
  assumes "v3d_register_allocate qsort compiler c = ret (c1, Some regs)" "program_ready regs contents data (c_blocks c1)"
    "\<forall>n. length (new_contents n) = n" "\<forall>n. length (new_data n) = n"
  defines "P \<equiv> emitted_program calloc calloc_end regs contents data (c_blocks c1)"
  shows "\<exists>c' words Gs. v3d_vir_to_qpu calloc calloc_end calloc_nop new_contents new_data qsort compiler contents data c = ret (c', words) \<and>
    list_all2 (\<lambda>i w. v3d_qpu_instr_pack i = Inr w) (prog_code (pc_blocks c')) words \<and> length Gs = length (c_blocks c1) \<and> length (pc_blocks c') = length (c_blocks c1) \<and>
    (\<forall>i < length (c_blocks c1). schedule_of (pb_instructions (pc_blocks P ! i)) (Gs ! i) \<and> map qi_qpu (pb_instructions (pc_blocks c' ! i)) = block_code P Gs i)"
  unfolding P_def by (rule vir_to_qpu_ok [OF assms(1-4)])

theorem vir_to_qpu_correct_witness:
  "\<exists>compiler c' words. vir_init_reg_sets = ret compiler \<and>
    v3d_vir_to_qpu (\<lambda>p i. 10 * p + i) 50 (\<lambda>k. 100 + unat k) (\<lambda>n. replicate n 0) (\<lambda>n. replicate n 0) (\<lambda>cmp xs. xs) compiler [0] [7] add_program = ret (c', words) \<and>
    list_all2 (\<lambda>i w. v3d_qpu_instr_pack i = Inr w) (prog_code (pc_blocks c')) words"
proof -
  obtain compiler c1 where a: "vir_init_reg_sets = ret compiler" "v3d_register_allocate (\<lambda>cmp xs. xs) compiler add_program = ret (c1, Some [rf0])" "program_ready [rf0] [0] [7] (c_blocks c1)"
    using add_program_allocated by blast
  show ?thesis using vir_to_qpu_correct [OF a(2,3), of "\<lambda>n. replicate n 0" "\<lambda>n. replicate n 0" "\<lambda>p i. 10 * p + i" 50 "\<lambda>k. 100 + unat k"] a(1) by auto
qed

text \<open>
  C27. A program that does not fit into the registers. When the allocation gives none, it marks the compilation as failed and returns no table, but the translation goes
  on with the table: it does not return if some instruction refers to a temporary.
\<close>

theorem failed_allocation_crashes:
  assumes "v3d_register_allocate qsort compiler c = ret (c1, None)" "b \<in> set (c_blocks c1)" "x \<in> set (qb_instructions b)" "uses_temp x"
  shows "\<nexists>r. v3d_vir_to_qpu calloc calloc_end calloc_nop new_contents new_data qsort compiler contents data c = ret r"
  using no_registers [OF assms] by blast

theorem failed_allocation_crashes_witness:
  "\<exists>compiler c1. vir_init_reg_sets = ret compiler \<and> v3d_register_allocate (\<lambda>cmp xs. xs) compiler crowded_program = ret (c1, None) \<and>
    (\<nexists>r. v3d_vir_to_qpu (\<lambda>p i. 10 * p + i) 50 (\<lambda>k. 100 + unat k) (\<lambda>n. replicate n 0) (\<lambda>n. replicate n 0) (\<lambda>cmp xs. xs) compiler [] [] crowded_program = ret r)"
proof -
  obtain compiler where vc: "vir_init_reg_sets = ret compiler" using init_reg_sets_ok by blast
  obtain c1 where c1: "v3d_register_allocate (\<lambda>cmp xs. xs) compiler crowded_program = ret (c1, None)" "map qb_instructions (c_blocks c1) = [crowded_code]"
    using crowded_fails [OF vc] by (elim exE conjE)
  have "crowded_code \<in> set (map qb_instructions (c_blocks c1))" unfolding c1(2) by simp
  then obtain b where "crowded_code = qb_instructions b" and b: "b \<in> set (c_blocks c1)" unfolding set_map by (rule imageE)
  have "crowded_code ! 0 \<in> set (qb_instructions b)" unfolding \<open>crowded_code = qb_instructions b\<close> [symmetric] using crowded_nth(3) by (intro nth_mem) simp
  moreover have "uses_temp (crowded_code ! 0)" using crowded_nth(1) [of 0] by (simp add: uses_temp_def vir_mul_inst_def vir_reg_def)
  ultimately show ?thesis using failed_allocation_crashes [OF c1(1) b] vc c1(1) by blast
qed

end
