(* ===== verification/Spec2Isabelle.thy ===== *)
theory Spec2Isabelle
  imports Qpu_Faults Qpu_Text Qpu_Validate Hash_U64 Set_Refine Ra_Spec Vir_Spec Vir_Opt_Spec Vir_Uniform_Spec Sched_Spec Emit_Spec
begin

text \<open>
  A verification of parts of Mesa, the open-source implementation of the OpenGL family of interfaces. Mesa is a
  collection of drivers around a few shared libraries; this development covers one vertical slice of it, the
  back end of the shader compiler of the Broadcom V3D, together with the utility library that the back end rests on.

  \<^bold>\<open>The parts and how they interact.\<close> The compiler (\<^verbatim>\<open>src/src/broadcom/compiler\<close>) translates shaders to VIR, a list of
  basic blocks of instructions on virtual registers. \<open>vir_optimize\<close> runs copy propagation and dead code elimination
  until nothing changes. \<open>vir_lower_uniforms\<close> leaves every instruction with at most one uniform; it counts the uses in a hash table.
  \<open>v3d_register_allocate\<close> computes the live intervals of the temporaries, builds an
  interference graph and calls the graph-colouring allocator of \<^verbatim>\<open>src/src/util\<close>, which works on bit sets.
  \<open>v3d_vir_to_qpu\<close> emits instructions with physical registers, \<open>v3d_qpu_schedule_instructions\<close> reorders and pairs them, and they are packed into 64-bit words by the library \<^verbatim>\<open>src/src/broadcom/qpu\<close>, which
  also unpacks and disassembles them; \<open>qpu_validate\<close> checks the restrictions of the hardware on the
  resulting sequence. Hash tables and sets of \<^verbatim>\<open>src/src/util\<close> are used all over Mesa.

  \<^bold>\<open>Foundations.\<close> \<open>Prelude\<close>: machine integers as words of 8, 32 and 64 bits, fault values (assertions, accesses
  outside an array), enumerations of C as lists of enumerators with the locale \<open>c_enum\<close>. \<open>Runs\<close>: results of
  routines with loops; \<open>None\<close> means that the code does not return, \<open>Inl\<close> is a fault and \<open>Inr\<close> a result.
  Loops of the code that are not bounded by a counter are partial functions of this type, and that they
  return is a theorem about each of them; no definition has fuel.

  \<^bold>\<open>Instructions of the QPU\<close> (\<^verbatim>\<open>qpu_instr.h\<close>, \<^verbatim>\<open>qpu_instr.c\<close>, \<^verbatim>\<open>qpu_pack.c\<close>, \<^verbatim>\<open>qpu_disasm.c\<close>, \<^verbatim>\<open>qpu_validate.c\<close>).
  \<open>Qpu_Instr\<close> has the enumerations, structures and classifications; \<open>Qpu_Pack\<close> the codec, field by field and with its
  tables; \<open>Qpu_Disasm\<close> the disassembler with its output buffer. \<open>Qpu_Codec\<close> and \<open>Qpu_Alu_Codec\<close> invert the parts of the
  codec, \<open>Qpu_Roundtrip\<close> whole instructions: unpacking a packed instruction gives the instruction back,
  for exactly described instructions (the exceptions are errors of the codec). \<open>Qpu_Faults\<close> says
  which inputs end in a fault. \<open>Qpu_Text\<close> proves that the disassembler writes the text that a pure function on
  instructions describes. \<open>Qpu_Validate\<close> has the checker and what it accepts, as a statement about the positions of instructions.

  \<^bold>\<open>Hash tables and sets\<close> (\<^verbatim>\<open>hash_table.c\<close>, \<^verbatim>\<open>hash_table.h\<close>, \<^verbatim>\<open>set.c\<close>, \<^verbatim>\<open>set.h\<close>). \<open>Hash_Sizes\<close>, \<open>Hash_Table\<close>, \<open>Hash_Set\<close> and \<open>Hash_U64\<close>
  model the code with 32-bit arithmetic on hash values and addresses. \<open>Slots\<close> and \<open>Probing\<close> treat open addressing with double
  hashing once for tables and sets (locales \<open>hash_keys\<close>, the contract of the comparison and the hash function, and \<open>probe_cycle\<close>);
  \<open>Probe_Loops\<close> connects the loops of the code to it. \<open>Keyed_Map\<close> is the interface of a map to its clients,
  a locale that \<open>Hash_Spec\<close> interprets by the hash table and \<open>Set_Refine\<close> by the set, which simulates the hash table
  step by step. \<open>Hash_Refine\<close>, \<open>Hash_Map\<close> and \<open>Hash_Insert\<close> hold the invariant and its preservation. A table reuses the
  insertion while it rehashes; the recursion of the code is unrolled to depth three, and the proofs show that deeper calls never happen.
  Statements about growing tables are limited to \<open>2\<^sup>2\<^sup>0\<close> keys, because the argument that probing visits every slot needs
  that the sizes are prime, which is checked for the first twenty of them.

  \<^bold>\<open>Register allocation\<close> (\<^verbatim>\<open>bitset.h\<close>, \<^verbatim>\<open>register_allocate.c\<close>). \<open>Bitset\<close> and \<open>Register_Allocate\<close> model the code; nodes, classes and
  registers are natural numbers, and the sizes of the arrays are bounded so that unsigned counters do not overflow. \<open>Ra_Regs\<close> has
  the register sets and the p and q values, \<open>Ra_Graph\<close> the interference graph, \<open>Ra_Simplify\<close> and \<open>Ra_Select\<close> the two phases,
  \<open>Ra_Allocate\<close> their composition, \<open>Ra_Build\<close> and \<open>Ra_Clients\<close> the states that sequences of calls reach, and \<open>Ra_Spec\<close> the
  properties: a successful allocation is a proper colouring by registers of the right classes, and graphs that pass the p/q test everywhere
  are always coloured.

  \<^bold>\<open>VIR\<close> (\<^verbatim>\<open>v3d_compiler.h\<close>, \<^verbatim>\<open>vir.c\<close>, \<^verbatim>\<open>vir_live_variables.c\<close>, \<^verbatim>\<open>vir_register_allocate.c\<close>). \<open>Vir\<close> has the structures and the operations on
  single instructions. \<open>Vir_Live\<close> models the analysis; \<open>Vir_Scan\<close>, \<open>Vir_Flow\<close> and \<open>Vir_Liveness\<close> show that its sets are exactly the
  temporaries that are live along some path, by the code's own idea of an overwriting write, and that the intervals cover them. \<open>Vir_Register_Allocate\<close> models the allocation of a
  program; \<open>Vir_Alloc\<close>, \<open>Vir_Alloc_Graph\<close> and \<open>Vir_Alloc_Sound\<close> follow its loops. \<open>Vir_Spec\<close> composes the three components. It says
  independently of the code which values are needed (a packed write leaves half of a register) and which instructions overwrite an accumulator:
  values that are needed at the same time are in different registers, accumulators that instructions overwrite are avoided, and
  programs with few temporaries are never rejected. The statements leave out temporaries with unconditional packed writes, which the analysis takes for full ones (a theorem shows the
  value that is lost), and one address of the special function unit that \<open>vir_writes_r4\<close> does not know. A write under the execution mask counts as unconditional, as in the code.

  \<^bold>\<open>Optimisation\<close> (\<^verbatim>\<open>vir_opt_copy_propagate.c\<close>, \<^verbatim>\<open>vir_opt_dead_code.c\<close>, \<open>vir_optimize\<close> of \<^verbatim>\<open>vir.c\<close>). \<open>Vir_Opt\<close> models the passes; pointers to
  instructions are addresses. \<open>Vir_Opt_Inv\<close> has the well-formed programs and the measure that propagation lowers,
  \<open>Vir_Opt_Copy\<close>, \<open>Vir_Opt_Dead\<close> and \<open>Vir_Opt_Pass\<close> follow the passes. \<open>Vir_Opt_Sem\<close> executes programs along paths, for any
  arithmetic and any effects of the instructions beyond the temporaries; \<open>Vir_Opt_Ssa\<close> shows that the moves which copy propagation finds
  are valid on every path of a program in SSA form, \<open>Vir_Opt_Correct\<close> and \<open>Vir_Opt_Sound\<close> that the two passes preserve behaviour and
  SSA form. Which operations only compute is listed in \<open>Vir_Opt_Sem\<close>, apart from the code's \<open>vir_has_side_effects\<close>. \<open>Vir_Opt_Spec\<close> has the properties: optimised programs of the listed kinds of instructions (without \<open>UMUL24\<close>, \<open>FLBPOP\<close> and
  updates of flags by \<open>auf\<close> and \<open>muf\<close>, whose effects dead code elimination ignores) behave as before, dead code elimination removes exactly what it should by its own rules, the loop over the passes ends on programs whose
  copies can be ranked, and it does not end on a program that copies a temporary to another one and back.

  \<^bold>\<open>Lowering of uniforms\<close> (\<^verbatim>\<open>vir_lower_uniforms.c\<close>, \<open>vir_get_temp\<close> of \<^verbatim>\<open>vir.c\<close>). \<open>Vir_Uniforms\<close> models the pass on the model of the hash table.
  \<open>Vir_Uniform_Table\<close> interprets the locale \<open>counters\<close> by that table, \<open>Vir_Uniform_Inst\<close> describes the replacement of a uniform in one instruction,
  \<open>Vir_Uniform_Prog\<close> the steps on a program and why they preserve its behaviour, \<open>Vir_Uniform_Pass\<close> the loops. \<open>Vir_Uniform_Spec\<close> has the
  property: the pass ends, no instruction is left with two uniforms and programs behave as before. It holds for programs with at
  most \<open>2\<^sup>2\<^sup>0\<close> uses, the bound of the hash table, and excludes instructions whose implicit uniform is also another source; an example shows
  that the pass fails on them.

  \<^bold>\<open>Scheduling\<close> (\<^verbatim>\<open>qpu_schedule.c\<close>). \<open>Qpu_Schedule\<close> models the list scheduler; a pointer to a node is its position in the block. \<open>Sched_Access\<close> reads the
  dependency analysis as a list of accesses of each instruction, \<open>Sched_Graph\<close> shows that the two passes build a graph whose order keeps every
  dependency, \<open>Sched_Ready\<close> that the list of ready nodes is exact and never runs empty too early. \<open>Sched_Choose\<close> has the choice of the next instruction and why it
  satisfies the validator, \<open>Sched_Step\<close> and \<open>Sched_Emit\<close> one round with its uniforms, \<open>Sched_Loop\<close> the invariant and the end of the loop (by the number of instructions left and
  the idle instructions the restrictions can still ask for), \<open>Sched_Block\<close> a block and the argument that reordering keeps results, \<open>Sched_Program\<close>,
  \<open>Sched_Branch\<close> and \<open>Sched_Target\<close> all blocks and the targets of branches, \<open>Sched_Result\<close> the code that is left. \<open>Sched_Spec\<close> has the properties: a schedule contains
  every instruction once in an order that keeps dependencies and results, the validator accepts it, uniforms are read in the order in which they lie in
  memory, branches reach their targets, and the code grows by a bounded factor. Two evaluated examples show that the switch that ends a thread may
  overtake a store to the VPM and that a thread switch is taken for a branch. What an instruction accesses is what the analysis says; the results are those of any execution that
  accesses no more.

  \<^bold>\<open>Emission\<close> (\<^verbatim>\<open>vir_to_qpu.c\<close>). \<open>Vir_To_Qpu\<close> models the emission of a block and the translation of a program from VIR to words, which calls register allocation,
  scheduler, packing and validator. \<open>Emit_Block\<close> shows that the operands of an emitted instruction denote the registers they are meant to, for both halves of an instruction
  (locale \<open>operand_places\<close>), what a block becomes and how many uniforms it reads, \<open>Emit_Program\<close> and \<open>Emit_Result\<close> that the scheduler takes the
  emitted program and that its code can be packed. \<open>Emit_Spec\<close> has the properties, up to the composition of all parts: the
  translation returns, and the words are the encodings of a schedule of the emitted code. The emission of a block fails exactly if the indices of its VPM reads, cast to \<^verbatim>\<open>int\<close>, decrease. A program with more values than registers shows that the
  translation goes on after a failed allocation. Programs have at most \<open>2\<^sup>2\<^sup>0\<close> instructions and blocks there, far from the overflow of the positions, and their instructions are such that the
  scheduler and the encoding can express what is emitted for them.

  \<^bold>\<open>Not modelled.\<close> The spill costs of the register allocator (floating point; V3D does not use them), the wrapper for 64-bit keys on 32-bit
  machines, debug output and the release of memory, \<open>sf_state_clear\<close> and the array \<open>class_bits\<close> (dead code), the translation
  from NIR to VIR. The other drivers, the GLSL compiler and the OpenGL state machine
  are outside the slice; the Clover state tracker is C++.

  \<^bold>\<open>Next.\<close> The builder functions of \<^verbatim>\<open>vir.c\<close>, which make well-formed programs, and the self-contained containers of Gallium.
\<close>

end
